(* ===== verification/BT_Prelude.thy ===== *)
theory BT_Prelude
  imports Main "HOL-Library.Word" "HOL-Library.Monad_Syntax" "HOL-Library.Multiset"
begin

text \<open>
  Shared vocabulary of the development: the model's names for Go's integer types and their
  conversions, index and slice expressions that panic out of range, loops that may panic
  (\<open>foldM\<close>) with a total-correctness predicate (\<open>ok\<close>), the standard library's
  binary search (\<open>sort_Search\<close>) and the generic list lemmas the components share.

  A value of type \<open>'a option\<close> returned by an operation that can panic reads: \<open>None\<close>
  is the panic, \<open>Some x\<close> the normal return of \<open>x\<close>. A theorem that such an operation is
  \<open>ok\<close> therefore says that it returns, without a panic, and what it returns.
\<close>

section \<open>Types\<close>

type_synonym nodeid = nat \<comment> \<open>NodeID, a uint32: every conversion to it is written \<open>u32\<close>\<close>
type_synonym kindid = int \<comment> \<open>KindID, an int16\<close>
type_synonym pgid = nat   \<comment> \<open>database ids of nodes and edges, uint64: only compared\<close>
type_synonym lineage = "8 word list" \<comment> \<open>the 16 bytes of a Lineage\<close>

named_theorems wp \<open>rules that reduce \<open>ok\<close> of a program to \<open>ok\<close> of its parts\<close>
named_theorems conv \<open>conversions that do not wrap under the stated bound\<close>

section \<open>Integer conversions\<close>

definition u16 :: "nat \<Rightarrow> nat" where
  "u16 n = n mod 2 ^ 16"

definition u32 :: "nat \<Rightarrow> nat" where
  "u32 n = n mod 2 ^ 32"

definition u64 :: "nat \<Rightarrow> nat" where
  "u64 n = n mod 2 ^ 64"

definition i8 :: "int \<Rightarrow> int" where
  "i8 x = (x + 128) mod 256 - 128"

text \<open>Integer division truncates toward zero.\<close>

definition go_div :: "int \<Rightarrow> int \<Rightarrow> int" where
  "go_div a b = sgn a * sgn b * (\<bar>a\<bar> div \<bar>b\<bar>)"

lemma u32_id [conv]: "n < 2 ^ 32 \<Longrightarrow> u32 n = n"
  by (simp add: u32_def)

lemma u64_id [conv]: "n < 2 ^ 64 \<Longrightarrow> u64 n = n"
  by (simp add: u64_def)

lemma u32_lt: "u32 n < 2 ^ 32"
  by (simp add: u32_def)

lemma i8_id [conv]: "-128 \<le> x \<Longrightarrow> x \<le> 127 \<Longrightarrow> i8 x = x"
  by (simp add: i8_def)

section \<open>Index expressions and panics\<close>

definition ok :: "'a option \<Rightarrow> ('a \<Rightarrow> bool) \<Rightarrow> bool" where
  "ok m Q \<longleftrightarrow> (case m of None \<Rightarrow> False | Some x \<Rightarrow> Q x)"

lemma ok_Some [simp]: "ok (Some x) Q = Q x"
  by (simp add: ok_def)

lemma ok_None [simp]: "\<not> ok None Q"
  by (simp add: ok_def)

lemma ok_bind [simp]: "ok (Option.bind m f) Q = ok m (\<lambda>x. ok (f x) Q)"
  by (cases m) simp_all

lemma ok_iff: "ok m Q \<longleftrightarrow> (\<exists>x. m = Some x \<and> Q x)"
  by (cases m) auto

lemma ok_mono: "ok m P \<Longrightarrow> (\<And>x. P x \<Longrightarrow> Q x) \<Longrightarrow> ok m Q"
  by (cases m) auto

lemma ok_conj: "ok m (\<lambda>x. P x \<and> Q x) \<longleftrightarrow> ok m P \<and> ok m Q"
  by (cases m) auto

lemma okE:
  assumes "ok m Q"
  obtains x where "m = Some x" and "Q x"
  using assms by (auto simp: ok_iff)

definition idx :: "'a list \<Rightarrow> nat \<Rightarrow> 'a option" where
  "idx xs i = (if i < length xs then Some (xs ! i) else None)"

definition upd :: "'a list \<Rightarrow> nat \<Rightarrow> 'a \<Rightarrow> 'a list option" where
  "upd xs i x = (if i < length xs then Some (xs[i := x]) else None)"

definition slice :: "'a list \<Rightarrow> nat \<Rightarrow> nat \<Rightarrow> 'a list option" where
  "slice xs lo hi = (if lo \<le> hi \<and> hi \<le> length xs then Some (take (hi - lo) (drop lo xs)) else None)"

lemma ok_idx [wp]: "ok (idx xs i) Q \<longleftrightarrow> i < length xs \<and> Q (xs ! i)"
  by (simp add: idx_def)

lemma ok_upd [wp]: "ok (upd xs i x) Q \<longleftrightarrow> i < length xs \<and> Q (xs[i := x])"
  by (simp add: upd_def)

lemma ok_slice [wp]:
  "ok (slice xs lo hi) Q \<longleftrightarrow> lo \<le> hi \<and> hi \<le> length xs \<and> Q (take (hi - lo) (drop lo xs))"
  by (auto simp: slice_def)

lemma idx_Some [simp]: "i < length xs \<Longrightarrow> idx xs i = Some (xs ! i)"
  by (simp add: idx_def)

lemma upd_Some [simp]: "i < length xs \<Longrightarrow> upd xs i x = Some (xs[i := x])"
  by (simp add: upd_def)

lemma slice_Some [simp]:
  "lo \<le> hi \<Longrightarrow> hi \<le> length xs \<Longrightarrow> slice xs lo hi = Some (take (hi - lo) (drop lo xs))"
  by (simp add: slice_def)

section \<open>Loops that may panic\<close>

primrec foldM :: "('a \<Rightarrow> 's \<Rightarrow> 's option) \<Rightarrow> 'a list \<Rightarrow> 's \<Rightarrow> 's option" where
  "foldM f [] s = Some s"
| "foldM f (x # xs) s = Option.bind (f x s) (foldM f xs)"

lemma foldM_append: "foldM f (xs @ ys) s = Option.bind (foldM f xs s) (foldM f ys)"
  by (induction xs arbitrary: s) (simp_all split: Option.bind_split)

lemma foldM_cong_Some:
  "(\<And>x t. x \<in> set xs \<Longrightarrow> f x t = Some (g x t)) \<Longrightarrow> foldM f xs s = Some (fold g xs s)"
  by (induction xs arbitrary: s) simp_all

text \<open>The loop rule: an invariant over the prefix already processed.\<close>

lemma ok_foldM_prefix:
  assumes "I [] s"
    and "\<And>pre x post t. xs = pre @ x # post \<Longrightarrow> I pre t \<Longrightarrow> ok (f x t) (I (pre @ [x]))"
  shows "ok (foldM f xs s) (I xs)"
proof -
  have "I pre t \<Longrightarrow> xs = pre @ ys \<Longrightarrow> ok (foldM f ys t) (I xs)" for ys pre t
  proof (induction ys arbitrary: pre t)
    case (Cons y ys)
    from assms(2) [OF Cons.prems(2) Cons.prems(1)]
    have "ok (f y t) (I (pre @ [y]))" .
    then show ?case using Cons.IH Cons.prems(2) by (auto elim!: okE)
  qed simp
  from this [of "[]" s xs] assms(1) show ?thesis by simp
qed

lemma ok_foldM:
  assumes "I s" and "\<And>x t. x \<in> set xs \<Longrightarrow> I t \<Longrightarrow> ok (f x t) I"
  shows "ok (foldM f xs s) I"
  using ok_foldM_prefix [where I = "\<lambda>_. I" and xs = xs and s = s and f = f] assms by auto

section \<open>Binary search (sort.Search)\<close>

text \<open>
  The loop of Go's \<open>sort.Search\<close>: \<open>f\<close> is called at the midpoint, and the interval
  shrinks to the half that can still hold the least index where \<open>f\<close> is true.
\<close>

function search_loop :: "(nat \<Rightarrow> bool) \<Rightarrow> nat \<Rightarrow> nat \<Rightarrow> nat" where
  "search_loop f i j =
     (if i < j
      then let h = (i + j) div 2 in
           if \<not> f h then search_loop f (Suc h) j else search_loop f i h
      else i)"
  by pat_completeness auto
termination
  by (relation "measure (\<lambda>(f, i, j). j - i)") auto

declare search_loop.simps [simp del]

definition sort_Search :: "nat \<Rightarrow> (nat \<Rightarrow> bool) \<Rightarrow> nat" where
  "sort_Search n f = search_loop f 0 n"

text \<open>On a monotone predicate the search returns the least index where it holds, else \<open>n\<close>.\<close>

lemma search_loop_least:
  assumes "\<And>a b. a \<le> b \<Longrightarrow> b < n \<Longrightarrow> f a \<Longrightarrow> f b"
    and "i \<le> j" and "j \<le> n" and "\<And>a. a < i \<Longrightarrow> \<not> f a" and "j < n \<Longrightarrow> f j"
  shows "search_loop f i j \<le> n \<and> (\<forall>a < search_loop f i j. \<not> f a) \<and>
    (search_loop f i j < n \<longrightarrow> f (search_loop f i j))"
  using assms(2-)
proof (induction "j - i" arbitrary: i j rule: less_induct)
  case less
  show ?case
  proof (cases "i < j")
    case False
    then have "search_loop f i j = i" by (simp add: search_loop.simps [of f i j])
    with False less.prems show ?thesis by auto
  next
    case True
    define h where "h = (i + j) div 2"
    have h: "i \<le> h" "h < j" using True by (auto simp: h_def)
    show ?thesis
    proof (cases "f h")
      case True
      have eq: "search_loop f i j = search_loop f i h"
        using \<open>i < j\<close> True by (simp add: search_loop.simps [of f i j] h_def Let_def)
      show ?thesis unfolding eq
        by (rule less.hyps) (use h True less.prems in auto)
    next
      case False
      have eq: "search_loop f i j = search_loop f (Suc h) j"
        using \<open>i < j\<close> False by (simp add: search_loop.simps [of f i j] h_def Let_def)
      have below: "\<not> f a" if "a < Suc h" for a
        using that False assms(1) [of a h] h less.prems(2) by auto
      show ?thesis unfolding eq
        by (rule less.hyps) (use h below less.prems in auto)
    qed
  qed
qed

lemma sort_Search_0 [simp]: "sort_Search 0 f = 0"
  by (simp add: sort_Search_def search_loop.simps)

lemma sort_Search_1 [simp]: "sort_Search (Suc 0) f = (if f 0 then 0 else 1)"
  by (simp add: sort_Search_def search_loop.simps [of f 0 "Suc 0"] search_loop.simps [of f 0 0]
      search_loop.simps [of f "Suc 0" "Suc 0"])

lemma sort_Search_least:
  assumes "\<And>a b. a \<le> b \<Longrightarrow> b < n \<Longrightarrow> f a \<Longrightarrow> f b"
  shows "sort_Search n f \<le> n" and "a < sort_Search n f \<Longrightarrow> \<not> f a"
    and "sort_Search n f < n \<Longrightarrow> f (sort_Search n f)"
  using search_loop_least [of n f 0 n] assms by (auto simp: sort_Search_def)

text \<open>Searching a list sorted by a key for the first key that is at least \<open>k\<close>.\<close>

lemma sort_Search_sorted:
  fixes key :: "'a \<Rightarrow> 'b::linorder" and k :: 'b
  assumes "sorted (map key xs)"
  defines "p \<equiv> sort_Search (length xs) (\<lambda>i. k \<le> key (xs ! i))"
  shows "p \<le> length xs" and "a < p \<Longrightarrow> key (xs ! a) < k"
    and "p < length xs \<Longrightarrow> k \<le> key (xs ! p)"
    and "p < length xs \<and> key (xs ! p) = k \<longleftrightarrow> k \<in> key ` set xs"
proof -
  have mono: "k \<le> key (xs ! b)" if "a \<le> b" "b < length xs" "k \<le> key (xs ! a)" for a b
    using sorted_nth_mono [OF assms(1), of a b] that by simp
  note least = sort_Search_least [of "length xs" "\<lambda>i. k \<le> key (xs ! i)", OF mono, folded p_def]
  show "p \<le> length xs" and "p < length xs \<Longrightarrow> k \<le> key (xs ! p)" by (auto intro: least)
  show lt: "key (xs ! a) < k" if "a < p" for a using least(2) [OF _ _ _ that] by (auto simp: not_le)
  show "p < length xs \<and> key (xs ! p) = k \<longleftrightarrow> k \<in> key ` set xs"
  proof
    assume "k \<in> key ` set xs"
    then obtain i where i: "i < length xs" "key (xs ! i) = k" by (auto simp: in_set_conv_nth)
    then have "p \<le> i" using lt [of i] by (meson not_le order_less_irrefl)
    then show "p < length xs \<and> key (xs ! p) = k"
      using i least(3) mono [of p i] sorted_nth_mono [OF assms(1), of p i] by auto
  qed auto
qed

section \<open>Lists\<close>

lemma find_SomeD: "find P xs = Some x \<Longrightarrow> x \<in> set xs \<and> P x"
  by (induction xs) (auto split: if_splits)

lemma distinct_map_filter_list: "distinct (map f xs) \<Longrightarrow> distinct (map f (filter P xs))"
  by (induction xs) auto

lemma map_filter_iff: "x \<in> set (List.map_filter f xs) \<longleftrightarrow> (\<exists>y \<in> set xs. f y = Some x)"
  by (auto simp: List.map_filter_def) force

lemma map_filter_pair_iff: "x \<in> set (List.map_filter f xs) \<longleftrightarrow> (\<exists>i st. (i, st) \<in> set xs \<and> f (i, st) = Some x)"
  by (auto simp: map_filter_iff)

lemma upt_prefix:
  assumes "[0..<n] = pre @ i # post"
  shows "i = length pre" and "i < n"
proof -
  have n: "n = length pre + Suc (length post)" using arg_cong [OF assms, of length] by simp
  have "[0..<n] ! length pre = i" using assms by simp
  then show "i = length pre" using n by (simp add: nth_append del: upt_Suc)
  then show "i < n" using n by simp
qed

lemma distinct_concat_map:
  assumes "distinct xs" and "\<And>x. x \<in> set xs \<Longrightarrow> distinct (f x)"
    and "\<And>x y. x \<in> set xs \<Longrightarrow> y \<in> set xs \<Longrightarrow> x \<noteq> y \<Longrightarrow> set (f x) \<inter> set (f y) = {}"
  shows "distinct (concat (map f xs))"
  using assms
proof (induction xs)
  case (Cons x xs)
  have "set (f x) \<inter> set (f y) = {}" if "y \<in> set xs" for y
    using Cons.prems(3) [of x y] Cons.prems(1) that by auto
  then show ?case using Cons by auto
qed simp

end
