(* ===== verification/Watermark.thy ===== *)
theory Watermark
  imports BT_Prelude
begin

text \<open>
  The watermark protocol of \<open>internal/engine/watermark.go\<close> and \<open>bootgap.go\<close>: the ledger of
  accounted counters, the convergence reading and the interleavings it must survive, the trust
  generations, the refusal of a snapshot file and the boot gap buffer.
\<close>

section \<open>The ledger\<close>

record counterRange =
  lo :: nat
  hi :: nat

record watermarkLedger =
  through :: nat
  above :: "counterRange list"
  lost :: bool
  highest :: nat

definition maxLedgerRanges :: nat where
  "maxLedgerRanges = 4096"

definition zeroLedger :: watermarkLedger where
  "zeroLedger = \<lparr>through = 0, above = [], lost = False, highest = 0\<rparr>"

definition insertLocked :: "watermarkLedger \<Rightarrow> nat \<Rightarrow> watermarkLedger" where
  "insertLocked l counter =
     (let a = above l;
          i = sort_Search (length a) (\<lambda>i. lo (a ! i) > counter) in
      if i > 0 \<and> hi (a ! (i - 1)) \<ge> counter then l
      else
        let extendsPrev = (i > 0 \<and> u64 (hi (a ! (i - 1)) + 1) = counter);
            extendsNext = (i < length a \<and> lo (a ! i) = u64 (counter + 1)) in
        if extendsPrev \<and> extendsNext then
          let a' = a[i - 1 := (a ! (i - 1))\<lparr>hi := hi (a ! i)\<rparr>]
          in l\<lparr>above := take i a' @ drop (i + 1) a'\<rparr>
        else if extendsPrev then l\<lparr>above := a[i - 1 := (a ! (i - 1))\<lparr>hi := counter\<rparr>]\<rparr>
        else if extendsNext then l\<lparr>above := a[i := (a ! i)\<lparr>lo := counter\<rparr>]\<rparr>
        else if length a \<ge> maxLedgerRanges then l\<lparr>above := [], lost := True\<rparr>
        else l\<lparr>above := take i a @ [\<lparr>lo = counter, hi = counter\<rparr>] @ drop i a\<rparr>)"

text \<open>The loop of \<open>advanceLocked\<close>: the runs that start at or below \<open>through + 1\<close> are consumed.\<close>

fun advance_loop :: "nat \<Rightarrow> counterRange list \<Rightarrow> nat \<times> counterRange list" where
  "advance_loop t [] = (t, [])"
| "advance_loop t (r # rs) =
     (if lo r \<le> u64 (t + 1) then advance_loop (if hi r > t then hi r else t) rs else (t, r # rs))"

definition advanceLocked :: "watermarkLedger \<Rightarrow> watermarkLedger" where
  "advanceLocked l =
     (let (t, rs) = advance_loop (through l) (above l) in l\<lparr>through := t, above := rs\<rparr>)"

definition resolve :: "watermarkLedger \<Rightarrow> nat \<Rightarrow> watermarkLedger" where
  "resolve l counter =
     (let l1 = (if counter > highest l then l\<lparr>highest := counter\<rparr> else l) in
      if counter \<le> through l1 \<or> lost l1 then l1
      else advanceLocked (insertLocked l1 counter))"

definition rebase :: "watermarkLedger \<Rightarrow> nat \<Rightarrow> watermarkLedger" where
  "rebase l flr =
     (let l1 = (if flr > through l then l\<lparr>through := flr\<rparr> else l) in
      if lost l1 then
        (if flr < highest l1 then l1 else advanceLocked (l1\<lparr>lost := False\<rparr>))
      else advanceLocked l1)"

definition resolvedThrough :: "watermarkLedger \<Rightarrow> nat \<times> bool" where
  "resolvedThrough l = (through l, \<not> lost l)"

subsection \<open>Runs of counters\<close>

text \<open>\<open>runs b rs\<close>: the runs are non-empty, start at or above \<open>b\<close>, ascend, and are neither
  overlapping nor adjacent.\<close>

fun runs :: "nat \<Rightarrow> counterRange list \<Rightarrow> bool" where
  "runs b [] = True"
| "runs b (r # rs) = (b \<le> lo r \<and> lo r \<le> hi r \<and> runs (hi r + 2) rs)"

definition vals :: "counterRange list \<Rightarrow> nat set" where
  "vals rs = (\<Union>r \<in> set rs. {lo r..hi r})"

lemma vals_simps [simp]:
  "vals [] = {}" "vals (r # rs) = {lo r..hi r} \<union> vals rs" "vals (rs @ ss) = vals rs \<union> vals ss"
  by (auto simp: vals_def)

primrec run_end :: "nat \<Rightarrow> counterRange list \<Rightarrow> nat" where
  "run_end b [] = b"
| "run_end b (r # rs) = run_end (hi r + 2) rs"

lemma run_end_snoc [simp]: "run_end b (rs @ [r]) = hi r + 2"
  by (induction rs arbitrary: b) simp_all

lemma runs_append [simp]: "runs b (rs @ ss) \<longleftrightarrow> runs b rs \<and> runs (run_end b rs) ss"
  by (induction rs arbitrary: b) auto

lemma runs_mono: "runs b rs \<Longrightarrow> b' \<le> b \<Longrightarrow> runs b' rs"
  by (cases rs) auto

lemma runs_ge: "runs b rs \<Longrightarrow> x \<in> vals rs \<Longrightarrow> b \<le> x"
  by (induction rs arbitrary: b) (auto, fastforce)

lemma runs_in_set: "runs b rs \<Longrightarrow> r \<in> set rs \<Longrightarrow> b \<le> lo r \<and> lo r \<le> hi r"
  by (induction rs arbitrary: b) (auto, fastforce)

lemma runs_lo_sorted: "runs b rs \<Longrightarrow> sorted (map lo rs)"
proof (induction rs arbitrary: b)
  case (Cons r rs)
  then have rs: "runs (hi r + 2) rs" "lo r \<le> hi r" by simp_all
  have "lo r \<le> lo x" if "x \<in> set rs" for x using runs_in_set [OF rs(1) that] rs(2) by simp
  with Cons.IH [OF rs(1)] show ?case by auto
qed simp

subsection \<open>What the ledger accounts for\<close>

definition accounted :: "watermarkLedger \<Rightarrow> nat set" where
  "accounted l = {0..through l} \<union> vals (above l)"

definition ledger_invar :: "watermarkLedger \<Rightarrow> bool" where
  "ledger_invar l \<longleftrightarrow> runs (through l + 2) (above l) \<and> length (above l) \<le> maxLedgerRanges \<and>
     (lost l \<longrightarrow> above l = []) \<and> (\<forall>x \<in> vals (above l). x \<le> highest l) \<and>
     through l < 2 ^ 64 - 1 \<and> highest l < 2 ^ 64 - 1"

text \<open>Where the binary search splits the runs: those that start at or below the counter, and the rest.\<close>

lemma insert_split:
  assumes "runs b a"
  obtains P S where "a = P @ S" and "length P = sort_Search (length a) (\<lambda>i. lo (a ! i) > c)"
    and "\<And>r. r \<in> set P \<Longrightarrow> lo r \<le> c" and "\<And>r. r \<in> set S \<Longrightarrow> c < lo r"
proof -
  let ?i = "sort_Search (length a) (\<lambda>i. lo (a ! i) > c)"
  have srt: "sorted (map lo a)" using assms by (rule runs_lo_sorted)
  have mono: "lo (a ! y) > c" if "x \<le> y" "y < length a" "lo (a ! x) > c" for x y
    using sorted_nth_mono [OF srt, of x y] that by simp
  note least = sort_Search_least [of "length a" "\<lambda>i. lo (a ! i) > c", OF mono]
  show ?thesis
  proof (rule that [of "take ?i a" "drop ?i a"])
    show "length (take ?i a) = ?i" using least(1) by simp
    show "lo r \<le> c" if "r \<in> set (take ?i a)" for r
      using that least(2) by (auto simp: in_set_conv_nth not_less)
    show "c < lo r" if r: "r \<in> set (drop ?i a)" for r
    proof -
      from r obtain j where j: "r = a ! (?i + j)" "?i + j < length a"
        by (auto simp: in_set_conv_nth)
      then have "c < lo (a ! ?i)" using least(3) by simp
      with j show ?thesis using mono [of ?i "?i + j"] by simp
    qed
  qed simp
qed

text \<open>
  Inserting a counter above \<open>through\<close> adds exactly that counter, whichever of the five cases
  applies, unless the bound on the number of runs makes the ledger give its runs up.
\<close>

lemma insertLocked_props:
  assumes inv: "runs (through l + 1) (above l)" and c: "through l < c"
    and small: "c < 2 ^ 64 - 1" "\<forall>x \<in> vals (above l). x < 2 ^ 64 - 1"
    and len: "length (above l) \<le> maxLedgerRanges"
  shows "lost (insertLocked l c) \<and> above (insertLocked l c) = [] \<and> maxLedgerRanges \<le> length (above l) \<or>
    lost (insertLocked l c) = lost l \<and> runs (through l + 1) (above (insertLocked l c)) \<and>
    vals (above (insertLocked l c)) = insert c (vals (above l)) \<and>
    length (above (insertLocked l c)) \<le> maxLedgerRanges"
proof -
  let ?a = "above l" and ?f = "\<lambda>i. lo (above l ! i) > c"
  obtain P S where a: "?a = P @ S" and i: "length P = sort_Search (length ?a) ?f"
    and P: "\<And>r. r \<in> set P \<Longrightarrow> lo r \<le> c" and S: "\<And>r. r \<in> set S \<Longrightarrow> c < lo r"
    using insert_split [OF inv, of c] by blast
  have uc: "u64 (c + 1) = c + 1" using small(1) by (simp add: u64_id)
  have uh: "u64 (hi r + 1) = hi r + 1" if "r \<in> set ?a" for r
  proof -
    have "hi r \<in> vals ?a" using that runs_in_set [OF inv that] by (auto simp: vals_def)
    then have "hi r < 2 ^ 64 - 1" using small(2) by blast
    then show ?thesis by (simp add: u64_id)
  qed
  note ins = insertLocked_def [of l c, unfolded Let_def, folded i]
  show ?thesis
  proof (cases P rule: rev_cases)
    case Nil
    show ?thesis
    proof (cases S)
      case SNil: Nil
      with Nil inv c len show ?thesis by (auto simp: ins a maxLedgerRanges_def)
    next
      case (Cons s S')
      with Nil S [of s] have "c < lo s" by simp
      moreover have "lo s \<le> hi s" "runs (hi s + 2) S'" using inv a Nil Cons by simp_all
      ultimately show ?thesis
        using Nil Cons c len a uc by (auto simp: ins)
    qed
  next
    case (snoc P' p)
    have p: "lo p \<le> c" "lo p \<le> hi p" "p \<in> set ?a" using snoc P inv a by auto
    show ?thesis
    proof (cases S)
      case SNil: Nil
      show ?thesis
        using snoc SNil inv c len p uh [OF p(3)]
        by (auto simp: ins a nth_append list_update_append intro: runs_mono)
    next
      case (Cons s S')
      have s: "c < lo s" "lo s \<le> hi s" "runs (hi s + 2) S'" "hi p + 2 \<le> lo s"
        using Cons S inv a snoc by auto
      show ?thesis
        using snoc Cons inv c len p s uc uh [OF p(3)]
        by (auto simp: ins a nth_append list_update_append)
    qed
  qed
qed

lemma advance_loop_props:
  assumes "runs b rs" and "t < 2 ^ 64 - 1" and "\<forall>x \<in> vals rs. x < 2 ^ 64 - 1"
    and "advance_loop t rs = (t', rs')"
  shows "runs (t' + 2) rs' \<and> {0..t'} \<union> vals rs' = {0..t} \<union> vals rs \<and> t \<le> t' \<and>
    t' < 2 ^ 64 - 1 \<and> length rs' \<le> length rs \<and> vals rs' \<subseteq> vals rs"
  using assms
proof (induction t rs arbitrary: b rule: advance_loop.induct)
  case (2 t r rs)
  have u: "u64 (t + 1) = t + 1" using "2.prems"(2) by (simp add: u64_id)
  show ?case
  proof (cases "lo r \<le> t + 1")
    case True
    let ?t = "if hi r > t then hi r else t"
    have r: "lo r \<le> hi r" "runs (hi r + 2) rs" using "2.prems"(1) by simp_all
    have eq: "advance_loop ?t rs = (t', rs')" using True "2.prems"(4) u by simp
    have "?t < 2 ^ 64 - 1" using "2.prems"(2,3) r(1) by auto
    moreover have "\<forall>x \<in> vals rs. x < 2 ^ 64 - 1" using "2.prems"(3) by simp
    ultimately have IH: "runs (t' + 2) rs'" "{0..t'} \<union> vals rs' = {0..?t} \<union> vals rs"
      "?t \<le> t'" "t' < 2 ^ 64 - 1" "length rs' \<le> length rs" "vals rs' \<subseteq> vals rs"
      using "2.IH" [OF _ r(2) _ _ eq] True u by auto
    have "{0..?t} = {0..t} \<union> {lo r..hi r}" using True r(1) by auto
    then have "{0..t'} \<union> vals rs' = {0..t} \<union> vals (r # rs)" using IH(2) by auto
    moreover have "t \<le> t'" using IH(3) by (auto split: if_splits)
    ultimately show ?thesis using IH by auto
  next
    case False
    with "2.prems" u show ?thesis by auto
  qed
qed simp

lemma advanceLocked_props:
  assumes "runs b (above l)" and "through l < 2 ^ 64 - 1" and "\<forall>x \<in> vals (above l). x < 2 ^ 64 - 1"
  defines "l' \<equiv> advanceLocked l"
  shows "runs (through l' + 2) (above l')" "accounted l' = accounted l" "through l \<le> through l'"
    "through l' < 2 ^ 64 - 1" "length (above l') \<le> length (above l)"
    "vals (above l') \<subseteq> vals (above l)" "lost l' = lost l" "highest l' = highest l"
  using advance_loop_props [OF assms(1-3), of "fst (advance_loop (through l) (above l))"
      "snd (advance_loop (through l) (above l))"]
  by (simp_all add: l'_def advanceLocked_def accounted_def split_beta)

lemma ledger_invar_vals: "ledger_invar l \<Longrightarrow> x \<in> vals (above l) \<Longrightarrow> x < 2 ^ 64 - 1"
  unfolding ledger_invar_def by (meson order_le_less_trans)

text \<open>Both operations keep the invariant, and a ledger that is not lost accounts for exactly what
  it did before, plus what the operation adds.\<close>

lemma resolve_props:
  assumes inv: "ledger_invar l" and c: "c < 2 ^ 64 - 1"
  shows "ledger_invar (resolve l c) \<and> highest (resolve l c) = max (highest l) c \<and>
    through l \<le> through (resolve l c) \<and> (lost l \<longrightarrow> lost (resolve l c)) \<and>
    accounted (resolve l c) \<subseteq> insert c (accounted l) \<and>
    (\<not> lost (resolve l c) \<longrightarrow> accounted (resolve l c) = insert c (accounted l))"
proof -
  define l1 where "l1 = (if highest l < c then l\<lparr>highest := c\<rparr> else l)"
  have l1: "ledger_invar l1" "through l1 = through l" "above l1 = above l" "lost l1 = lost l"
    "highest l1 = max (highest l) c"
    using inv c unfolding ledger_invar_def l1_def by (auto dest: bspec intro: order_trans)
  have acc1: "accounted l1 = accounted l" using l1 by (simp add: accounted_def)
  have vals1: "\<forall>x \<in> vals (above l1). x < 2 ^ 64 - 1" using ledger_invar_vals [OF l1(1)] by blast
  show ?thesis
  proof (cases "c \<le> through l \<or> lost l")
    case True
    then have "resolve l c = l1" using l1 by (auto simp: resolve_def Let_def l1_def)
    then show ?thesis using l1 acc1 True by (auto simp: accounted_def)
  next
    case False
    let ?l2 = "insertLocked l1 c" and ?l3 = "advanceLocked (insertLocked l1 c)"
    have eq: "resolve l c = ?l3" using False l1 by (auto simp: resolve_def Let_def l1_def)
    have fix2: "through ?l2 = through l" "highest ?l2 = max (highest l) c"
      using l1 by (auto simp: insertLocked_def Let_def)
    have "runs (through l1 + 1) (above l1)"
      using l1(1) unfolding ledger_invar_def by (auto intro: runs_mono)
    from insertLocked_props [OF this _ c vals1] False l1(2) l1(1)
    consider (full) "lost ?l2" "above ?l2 = []"
      | (ins) "lost ?l2 = lost l" "runs (through l + 1) (above ?l2)"
        "vals (above ?l2) = insert c (vals (above l))" "length (above ?l2) \<le> maxLedgerRanges"
      using l1 by (auto simp: ledger_invar_def)
    then show ?thesis
    proof cases
      case full
      then have "?l3 = ?l2" by (simp add: advanceLocked_def)
      then show ?thesis using full fix2 inv c eq by (auto simp: ledger_invar_def accounted_def)
    next
      case ins
      have t: "through ?l2 < 2 ^ 64 - 1" using fix2 inv by (simp add: ledger_invar_def)
      have v: "\<forall>x \<in> vals (above ?l2). x < 2 ^ 64 - 1" using ins(3) vals1 l1 c by auto
      note adv = advanceLocked_props [OF ins(2) t v]
      have acc2: "accounted ?l2 = insert c (accounted l)"
        using ins(3) fix2 by (auto simp: accounted_def)
      have "\<forall>x \<in> vals (above ?l2). x \<le> max (highest l) c"
        using ins(3) inv by (auto simp: ledger_invar_def le_max_iff_disj)
      then have "ledger_invar ?l3"
        using adv ins fix2 inv c False l1 by (auto simp: ledger_invar_def)
      then show ?thesis using adv acc2 fix2 eq ins False by auto
    qed
  qed
qed

lemma rebase_props:
  assumes inv: "ledger_invar l" and f: "f < 2 ^ 64 - 1"
  shows "ledger_invar (rebase l f) \<and> highest (rebase l f) = highest l \<and>
    max (through l) f \<le> through (rebase l f) \<and>
    (lost (rebase l f) \<longleftrightarrow> lost l \<and> f < highest l) \<and>
    accounted (rebase l f) = {0..f} \<union> accounted l"
proof -
  define l1 where "l1 = (if through l < f then l\<lparr>through := f\<rparr> else l)"
  have l1: "through l1 = max (through l) f" "above l1 = above l" "lost l1 = lost l"
    "highest l1 = highest l" by (auto simp: l1_def)
  have vals1: "\<forall>x \<in> vals (above l). x < 2 ^ 64 - 1" using ledger_invar_vals [OF inv] by blast
  have runs1: "runs (through l + 2) (above l)" using inv by (simp add: ledger_invar_def)
  have acc1: "accounted l1 = {0..f} \<union> accounted l" using l1 by (auto simp: accounted_def)
  have t1: "through l1 < 2 ^ 64 - 1" using l1 f inv by (simp add: ledger_invar_def)
  show ?thesis
  proof (cases "lost l")
    case True
    then have "above l = []" using inv by (simp add: ledger_invar_def)
    then have "rebase l f = (if f < highest l then l1 else l1\<lparr>lost := False\<rparr>)"
      using True l1 by (simp add: rebase_def Let_def advanceLocked_def l1_def)
    then show ?thesis using True l1 acc1 t1 inv \<open>above l = []\<close>
      by (auto simp: ledger_invar_def accounted_def)
  next
    case False
    then have eq: "rebase l f = advanceLocked l1" using l1 by (simp add: rebase_def Let_def l1_def)
    note adv = advanceLocked_props [of "through l + 2" l1]
    have "ledger_invar (advanceLocked l1)"
      using adv runs1 vals1 t1 l1 inv False unfolding ledger_invar_def by (auto intro: order_trans)
    then show ?thesis using adv runs1 vals1 t1 l1 acc1 eq False by auto
  qed
qed

section \<open>The contract of the ledger\<close>

text \<open>
  What the convergence protocol relies on: whatever the order of resolutions and rebases, the
  ledger's exact reading never claims a counter that neither a resolved write nor an adopted
  snapshot accounts for. \<open>holds l F R\<close> relates a ledger to the highest floor rebased to and
  the set of counters resolved.
\<close>

datatype ledger_op = Resolve nat | Rebase nat

fun op_counter :: "ledger_op \<Rightarrow> nat" where
  "op_counter (Resolve c) = c"
| "op_counter (Rebase f) = f"

definition resolved_of :: "ledger_op list \<Rightarrow> nat set" where
  "resolved_of ops = {c. Resolve c \<in> set ops}"

definition floor_of :: "ledger_op list \<Rightarrow> nat" where
  "floor_of ops = fold (\<lambda>op F. case op of Rebase f \<Rightarrow> max F f | Resolve _ \<Rightarrow> F) ops 0"

lemma floor_of_snoc [simp]:
  "floor_of (ops @ [Rebase f]) = max (floor_of ops) f" "floor_of (ops @ [Resolve c]) = floor_of ops"
  by (simp_all add: floor_of_def)

locale counter_accounting =
  fixes init :: 'l and res :: "'l \<Rightarrow> nat \<Rightarrow> 'l" and reb :: "'l \<Rightarrow> nat \<Rightarrow> 'l"
    and reading :: "'l \<Rightarrow> nat \<times> bool" and holds :: "'l \<Rightarrow> nat \<Rightarrow> nat set \<Rightarrow> bool"
  assumes holds_init: "holds init 0 {}"
    and holds_res: "holds l F R \<Longrightarrow> c < 2 ^ 64 - 1 \<Longrightarrow> holds (res l c) F (insert c R)"
    and holds_reb: "holds l F R \<Longrightarrow> f < 2 ^ 64 - 1 \<Longrightarrow> holds (reb l f) (max F f) R"
    and reading_sound: "holds l F R \<Longrightarrow> reading l = (t, e) \<Longrightarrow> {0..t} \<subseteq> {0..F} \<union> R"
    and reading_exact: "holds l F R \<Longrightarrow> reading l = (t, True) \<Longrightarrow> Suc t \<notin> {0..F} \<union> R"
begin

lemma run_holds:
  assumes "\<forall>op \<in> set ops. op_counter op < 2 ^ 64 - 1"
  shows "holds (fold (\<lambda>op l. case op of Resolve c \<Rightarrow> res l c | Rebase f \<Rightarrow> reb l f) ops init)
    (floor_of ops) (resolved_of ops)" (is "holds (fold ?f ops init) _ _")
  using assms
proof (induction ops rule: rev_induct)
  case Nil
  show ?case using holds_init by (simp add: floor_of_def resolved_of_def)
next
  case (snoc op ops)
  then have IH: "holds (fold ?f ops init) (floor_of ops) (resolved_of ops)" by simp
  show ?case
  proof (cases op)
    case (Resolve c)
    moreover have "resolved_of (ops @ [Resolve c]) = insert c (resolved_of ops)"
      by (auto simp: resolved_of_def)
    ultimately show ?thesis using holds_res [OF IH, of c] snoc.prems by (simp add: floor_of_snoc)
  next
    case (Rebase f)
    moreover have "resolved_of (ops @ [Rebase f]) = resolved_of ops"
      by (auto simp: resolved_of_def)
    ultimately show ?thesis using holds_reb [OF IH, of f] snoc.prems by (simp add: floor_of_snoc)
  qed
qed

end

definition ledger_apply :: "ledger_op \<Rightarrow> watermarkLedger \<Rightarrow> watermarkLedger" where
  "ledger_apply op l = (case op of Resolve c \<Rightarrow> resolve l c | Rebase f \<Rightarrow> rebase l f)"

definition ledger_holds :: "watermarkLedger \<Rightarrow> nat \<Rightarrow> nat set \<Rightarrow> bool" where
  "ledger_holds l F R \<longleftrightarrow> ledger_invar l \<and> F \<le> through l \<and> (\<forall>c \<in> R. c \<le> highest l) \<and>
     accounted l \<subseteq> {0..F} \<union> R \<and> (\<not> lost l \<longrightarrow> accounted l = {0..F} \<union> R)"

interpretation wl: counter_accounting zeroLedger resolve rebase resolvedThrough ledger_holds
proof unfold_locales
  show "ledger_holds zeroLedger 0 {}"
    by (simp add: ledger_holds_def zeroLedger_def ledger_invar_def accounted_def)
  fix l F R c f t e
  assume h: "ledger_holds l F R"
  then have inv: "ledger_invar l" by (simp add: ledger_holds_def)
  show "ledger_holds (resolve l c) F (insert c R)" if "c < 2 ^ 64 - 1"
    using h resolve_props [OF inv that] by (auto simp: ledger_holds_def)
  show "ledger_holds (rebase l f) (max F f) R" if "f < 2 ^ 64 - 1"
  proof -
    note rb = rebase_props [OF inv that]
    have split: "{0..max F f} = {0..F} \<union> {0..f}" by auto
    have "accounted (rebase l f) = {0..max F f} \<union> R" if "\<not> lost (rebase l f)"
    proof (cases "lost l")
      case False
      then show ?thesis using h rb split by (auto simp: ledger_holds_def)
    next
      case True
      then have "R \<subseteq> {0..f}" using h rb that by (auto simp: ledger_holds_def)
      moreover have "{0..F} \<subseteq> accounted l" using h by (auto simp: ledger_holds_def accounted_def)
      ultimately show ?thesis using h rb split by (auto simp: ledger_holds_def)
    qed
    then show ?thesis using h rb split by (auto simp: ledger_holds_def)
  qed
  show "{0..t} \<subseteq> {0..F} \<union> R" if "resolvedThrough l = (t, e)"
    using h that by (auto simp: ledger_holds_def resolvedThrough_def accounted_def)
  show "Suc t \<notin> {0..F} \<union> R" if "resolvedThrough l = (t, True)"
  proof -
    have "Suc t \<notin> accounted l"
      using that inv runs_ge [of "t + 2" "above l" "Suc t"]
      by (auto simp: resolvedThrough_def accounted_def ledger_invar_def)
    then show ?thesis using h that by (auto simp: ledger_holds_def resolvedThrough_def)
  qed
qed

text \<open>
  C31. The ledger's prefix is exactly the contiguous prefix of what is accounted for. After any
  sequence of resolutions and rebases, in any order, every counter up to \<open>through\<close> was resolved or
  lies at or below a rebased floor, so a gap is never absorbed; and while the ledger reports itself
  exact, the next counter is one nobody accounted for.
\<close>

theorem ledger_prefix_exact:
  assumes "\<forall>op \<in> set ops. op_counter op < 2 ^ 64 - 1"
    and "resolvedThrough (fold ledger_apply ops zeroLedger) = (t, exact)"
  shows "{0..t} \<subseteq> {0..floor_of ops} \<union> resolved_of ops \<and>
    (exact \<longrightarrow> Suc t \<notin> {0..floor_of ops} \<union> resolved_of ops)"
proof -
  have "ledger_holds (fold ledger_apply ops zeroLedger) (floor_of ops) (resolved_of ops)"
    using wl.run_holds [OF assms(1)] by (simp add: ledger_apply_def [abs_def])
  then show ?thesis
    using wl.reading_sound assms(2) wl.reading_exact by fastforce
qed

theorem ledger_prefix_exact_witness:
  "resolvedThrough (fold ledger_apply [Resolve 3, Resolve 1, Rebase 4] zeroLedger) = (4, True) \<and>
   {0..4} \<subseteq> {0..floor_of [Resolve 3, Resolve 1, Rebase 4]} \<union> resolved_of [Resolve 3, Resolve 1, Rebase 4]"
proof -
  have r: "resolvedThrough (fold ledger_apply [Resolve 3, Resolve 1, Rebase 4] zeroLedger) = (4, True)"
    by (simp add: ledger_apply_def resolvedThrough_def rebase_def resolve_def zeroLedger_def
        insertLocked_def advanceLocked_def u64_def maxLedgerRanges_def)
  have "\<forall>op \<in> set [Resolve 3, Resolve 1, Rebase 4]. op_counter op < 2 ^ 64 - 1" by simp
  from ledger_prefix_exact [OF this r] r show ?thesis by blast
qed

end
