(* ===== verification/Convergence.thy ===== *)
theory Convergence
  imports Watermark
begin

text \<open>
  The convergence reading of \<open>internal/engine/watermark.go\<close> (\<open>BumpWatermark\<close>,
  \<open>AdvanceWatermark\<close>, \<open>readWatermarkConvergence\<close>, \<open>adoptRebuiltViewAndRebase\<close>) as a step
  relation over every interleaving of this engine's bumps, another writer's bumps, resolutions,
  rebases and the three reads of one convergence reading.
\<close>

section \<open>Readings\<close>

record watermarkReading =
  r_pgCounter :: nat
  r_inflight :: int
  r_through :: nat
  r_exact :: bool

definition watermarkConvergedFor :: "nat \<Rightarrow> nat \<Rightarrow> int \<Rightarrow> bool" where
  "watermarkConvergedFor pgCounter applied inflight \<longleftrightarrow> inflight = 0 \<and> pgCounter = applied"

definition converged :: "watermarkReading \<Rightarrow> bool" where
  "converged r \<longleftrightarrow> r_exact r \<and> watermarkConvergedFor (r_pgCounter r) (r_through r) (r_inflight r)"

definition unaccounted :: "watermarkReading \<Rightarrow> bool" where
  "unaccounted r \<longleftrightarrow> r_inflight r = 0 \<and> (\<not> r_exact r \<or> r_through r < r_pgCounter r)"

section \<open>The protocol\<close>

text \<open>
  \<open>reader\<close> is where a convergence read stands: PostgreSQL's counter is read first, then the
  in-flight count, then the ledger, the last two under the rebase lock.
\<close>

datatype reader = Idle | ReadCounter nat | ReadInflight nat int | Done watermarkReading

record wm =
  pgCounter :: nat              \<comment> \<open>bloodtrail_watermark.counter\<close>
  inflightBumps :: int          \<comment> \<open>Engine.inflightBumps\<close>
  appliedWatermark :: watermarkLedger
  sent :: nat                   \<comment> \<open>bumps counted in flight whose UPDATE has not committed\<close>
  mine :: "nat set"             \<comment> \<open>counters this engine's bumps committed, not yet resolved\<close>
  recorded :: "nat set"         \<comment> \<open>resolved in the ledger, not yet counted out of flight\<close>
  resolvedSet :: "nat set"      \<comment> \<open>every counter this engine resolved\<close>
  strange :: "nat set"          \<comment> \<open>counters of other writers, or whose response was lost\<close>
  adopted :: nat                \<comment> \<open>highest floor an adopted snapshot rebased to\<close>
  rd :: reader

definition wm_init :: wm where
  "wm_init = \<lparr>pgCounter = 0, inflightBumps = 0, appliedWatermark = zeroLedger, sent = 0, mine = {},
     recorded = {}, resolvedSet = {}, strange = {}, adopted = 0, rd = Idle\<rparr>"

inductive wm_step :: "wm \<Rightarrow> wm \<Rightarrow> bool" where
  bump_begin: "wm_step s (s\<lparr>inflightBumps := inflightBumps s + 1, sent := sent s + 1\<rparr>)"
| bump_fail: "0 < sent s \<Longrightarrow>
    wm_step s (s\<lparr>inflightBumps := inflightBumps s - 1, sent := sent s - 1\<rparr>)"
| bump_commit: "0 < sent s \<Longrightarrow> pgCounter s + 1 < 2 ^ 64 - 1 \<Longrightarrow>
    wm_step s (s\<lparr>pgCounter := pgCounter s + 1, sent := sent s - 1,
      mine := insert (pgCounter s + 1) (mine s)\<rparr>)"
| bump_lost: "c \<in> mine s \<Longrightarrow>
    wm_step s (s\<lparr>mine := mine s - {c}, strange := insert c (strange s),
      inflightBumps := inflightBumps s - 1\<rparr>)"
| other_bump: "pgCounter s + 1 < 2 ^ 64 - 1 \<Longrightarrow>
    wm_step s (s\<lparr>pgCounter := pgCounter s + 1, strange := insert (pgCounter s + 1) (strange s)\<rparr>)"
| advance_record: "c \<in> mine s \<Longrightarrow>
    wm_step s (s\<lparr>appliedWatermark := resolve (appliedWatermark s) c, mine := mine s - {c},
      recorded := insert c (recorded s), resolvedSet := insert c (resolvedSet s)\<rparr>)"
| advance_retire: "c \<in> recorded s \<Longrightarrow>
    wm_step s (s\<lparr>recorded := recorded s - {c}, inflightBumps := inflightBumps s - 1\<rparr>)"
| adopt_rebase: "f \<le> pgCounter s \<Longrightarrow> \<nexists>p k. rd s = ReadInflight p k \<Longrightarrow>
    wm_step s (s\<lparr>appliedWatermark := rebase (appliedWatermark s) f, adopted := max (adopted s) f\<rparr>)"
| read_counter: "wm_step s (s\<lparr>rd := ReadCounter (pgCounter s)\<rparr>)"
| read_inflight: "rd s = ReadCounter p \<Longrightarrow>
    wm_step s (s\<lparr>rd := ReadInflight p (inflightBumps s)\<rparr>)"
| read_ledger: "rd s = ReadInflight p k \<Longrightarrow>
    wm_step s (s\<lparr>rd := Done \<lparr>r_pgCounter = p, r_inflight = k,
      r_through = fst (resolvedThrough (appliedWatermark s)),
      r_exact = snd (resolvedThrough (appliedWatermark s))\<rparr>\<rparr>)"

inductive wm_reach :: "wm \<Rightarrow> bool" where
  start: "wm_reach wm_init"
| step: "wm_reach s \<Longrightarrow> wm_step s t \<Longrightarrow> wm_reach t"

inductive_cases wm_stepE: "wm_step s t"

subsection \<open>The invariant\<close>

definition counts_ok :: "wm \<Rightarrow> bool" where
  "counts_ok s \<longleftrightarrow> finite (mine s) \<and> finite (recorded s) \<and>
     inflightBumps s = int (sent s) + int (card (mine s)) + int (card (recorded s)) \<and>
     mine s \<inter> resolvedSet s = {} \<and> strange s \<inter> (mine s \<union> resolvedSet s) = {} \<and>
     recorded s \<subseteq> resolvedSet s \<and>
     mine s \<union> resolvedSet s \<union> strange s \<subseteq> {..pgCounter s} \<and>
     adopted s \<le> pgCounter s \<and> pgCounter s < 2 ^ 64 - 1 \<and>
     ledger_holds (appliedWatermark s) (adopted s) (resolvedSet s)"

fun reader_ok :: "wm \<Rightarrow> reader \<Rightarrow> bool" where
  "reader_ok s Idle = True"
| "reader_ok s (ReadCounter p) = (p \<le> pgCounter s)"
| "reader_ok s (ReadInflight p k) = (p \<le> pgCounter s \<and> (k = 0 \<longrightarrow> (\<forall>c \<in> mine s. p < c)))"
| "reader_ok s (Done r) = (r_pgCounter r \<le> pgCounter s \<and>
     (r_inflight r = 0 \<longrightarrow> (\<forall>c \<in> mine s. r_pgCounter r < c)) \<and>
     {0..r_through r} \<subseteq> {0..adopted s} \<union> resolvedSet s)"

lemma counter_fresh: "counts_ok s \<Longrightarrow> pgCounter s + 1 \<notin> mine s \<union> resolvedSet s \<union> strange s"
  unfolding counts_ok_def by (metis Suc_eq_plus1 Suc_n_not_le_n atMost_iff subsetD)

lemma counts_step: "wm_step s t \<Longrightarrow> counts_ok s \<Longrightarrow> counts_ok t"
proof (induction rule: wm_step.induct)
  case (bump_begin s)
  then show ?case by (simp add: counts_ok_def)
next
  case (bump_fail s)
  then show ?case by (auto simp: counts_ok_def)
next
  case (bump_commit s)
  from counter_fresh [OF bump_commit(3)] bump_commit show ?case
    by (auto simp: counts_ok_def)
next
  case (bump_lost c s)
  then have "0 < card (mine s)"
    by (auto simp: counts_ok_def card_gt_0_iff)
  with bump_lost show ?case by (auto simp: counts_ok_def)
next
  case (other_bump s)
  from counter_fresh [OF other_bump(2)] other_bump show ?case
    by (auto simp: counts_ok_def)
next
  case (advance_record c s)
  then have "0 < card (mine s)" "c \<notin> recorded s" "c < 2 ^ 64 - 1"
    by (auto simp: counts_ok_def card_gt_0_iff)
  with advance_record show ?case using wl.holds_res by (auto simp: counts_ok_def)
next
  case (advance_retire c s)
  then have "0 < card (recorded s)"
    by (auto simp: counts_ok_def card_gt_0_iff)
  with advance_retire show ?case by (auto simp: counts_ok_def)
next
  case (adopt_rebase f s)
  then have "f < 2 ^ 64 - 1" by (simp add: counts_ok_def)
  with adopt_rebase show ?case using wl.holds_reb by (auto simp: counts_ok_def)
qed (auto simp: counts_ok_def)

lemma reader_step: "wm_step s t \<Longrightarrow> counts_ok s \<Longrightarrow> reader_ok s (rd s) \<Longrightarrow> reader_ok t (rd t)"
proof (induction rule: wm_step.induct)
  case (read_inflight s p)
  then have "inflightBumps s = 0 \<Longrightarrow> mine s = {}"
    using card_0_eq [of "mine s"] unfolding counts_ok_def by linarith
  with read_inflight show ?case by auto
next
  case (read_ledger s p k)
  then have h: "ledger_holds (appliedWatermark s) (adopted s) (resolvedSet s)"
    by (simp add: counts_ok_def)
  have "{0..fst (resolvedThrough (appliedWatermark s))} \<subseteq> {0..adopted s} \<union> resolvedSet s"
    using wl.reading_sound [OF h] by (metis prod.collapse)
  with read_ledger show ?case by simp
qed (auto elim!: reader_ok.elims simp: less_Suc_eq_le le_max_iff_disj subset_iff)

lemma wm_reach_inv: "wm_reach s \<Longrightarrow> counts_ok s \<and> reader_ok s (rd s)"
proof (induction rule: wm_reach.induct)
  case start
  show ?case using wl.holds_init by (simp add: wm_init_def counts_ok_def)
next
  case (step s t)
  then show ?case using counts_step reader_step by blast
qed

text \<open>
  C3. A converged reading at counter \<open>P\<close> is sound under every interleaving of bumps, other
  writers, resolutions, rebases and the reads themselves: no bump of this engine at or below
  \<open>P\<close> is still unresolved, every counter up to \<open>P\<close> was resolved or is covered by an adopted
  snapshot, and in particular every counter of another writer, or whose response was lost, at or
  below \<open>P\<close> lies at or below the floor of an adopted snapshot.
\<close>

theorem converged_reading_sound:
  assumes "wm_reach s" and "rd s = Done r" and "converged r"
  shows "(\<forall>c \<in> mine s. r_pgCounter r < c) \<and>
    {0..r_pgCounter r} \<subseteq> {0..adopted s} \<union> resolvedSet s \<and>
    (\<forall>c \<in> strange s. c \<le> r_pgCounter r \<longrightarrow> c \<le> adopted s)"
proof -
  have inv: "counts_ok s" "reader_ok s (Done r)" using wm_reach_inv [OF assms(1)] assms(2) by auto
  have conv: "r_inflight r = 0" "r_through r = r_pgCounter r"
    using assms(3) by (simp_all add: converged_def watermarkConvergedFor_def)
  have cover: "{0..r_pgCounter r} \<subseteq> {0..adopted s} \<union> resolvedSet s" using inv(2) conv by simp
  have "c \<le> adopted s" if "c \<in> strange s" "c \<le> r_pgCounter r" for c
    using cover that inv(1) by (auto simp: counts_ok_def)
  with cover inv(2) conv show ?thesis by simp
qed

lemma wm_by: "wm_reach s \<Longrightarrow> wm_step s t' \<Longrightarrow> t' = t \<Longrightarrow> wm_reach t"
  by (blast intro: wm_reach.step)

theorem converged_reading_sound_witness:
  "\<exists>s r. wm_reach s \<and> rd s = Done r \<and> converged r \<and> r_pgCounter r = 1 \<and> {0..1} \<subseteq> {0..adopted s} \<union> resolvedSet s"
proof -
  define s1 where "s1 = wm_init\<lparr>inflightBumps := 1, sent := 1\<rparr>"
  define s2 where "s2 = s1\<lparr>pgCounter := 1, sent := 0, mine := {1}\<rparr>"
  define l where "l = resolve zeroLedger 1"
  define s3 where "s3 = s2\<lparr>appliedWatermark := l, mine := {}, recorded := {1}, resolvedSet := {1}\<rparr>"
  define s4 where "s4 = s3\<lparr>recorded := {}, inflightBumps := 0\<rparr>"
  define s5 where "s5 = s4\<lparr>rd := ReadCounter 1\<rparr>"
  define s6 where "s6 = s5\<lparr>rd := ReadInflight 1 0\<rparr>"
  define r where "r = \<lparr>r_pgCounter = 1, r_inflight = 0, r_through = 1, r_exact = True\<rparr>"
  define s7 where "s7 = s6\<lparr>rd := Done r\<rparr>"
  note defs = s1_def s2_def s3_def s4_def s5_def s6_def s7_def wm_init_def
  have l: "resolvedThrough l = (1, True)"
    by (simp add: l_def resolvedThrough_def resolve_def zeroLedger_def insertLocked_def advanceLocked_def
        u64_def maxLedgerRanges_def)
  have r1: "wm_reach s1" by (rule wm_by [OF wm_reach.start wm_step.bump_begin]) (simp add: defs)
  have r2: "wm_reach s2" by (rule wm_by [OF r1 wm_step.bump_commit]) (simp_all add: defs)
  have r3: "wm_reach s3" by (rule wm_by [OF r2 wm_step.advance_record [of 1]]) (simp_all add: defs l_def)
  have r4: "wm_reach s4" by (rule wm_by [OF r3 wm_step.advance_retire [of 1]]) (simp_all add: defs)
  have r5: "wm_reach s5" by (rule wm_by [OF r4 wm_step.read_counter]) (simp add: defs)
  have r6: "wm_reach s6" by (rule wm_by [OF r5 wm_step.read_inflight [of _ 1]]) (simp_all add: defs)
  have r7: "wm_reach s7" by (rule wm_by [OF r6 wm_step.read_ledger [of _ 1 0]]) (simp_all add: defs l r_def)
  have c: "rd s7 = Done r" "converged r" "r_pgCounter r = 1"
    by (simp_all add: s7_def r_def converged_def watermarkConvergedFor_def)
  from converged_reading_sound [OF r7 c(1,2)] c r7 show ?thesis by metis
qed

end
