(* ===== verification/Changes.thy ===== *)
theory Changes
  imports BT_Prelude "HOL-Library.AList" "HOL-Library.List_Lexorder" "HOL-Library.Char_ord"
    "HOL-Library.Product_Lexorder"
begin

text \<open>
  The change log of one write: \<open>ChangeSet\<close> of \<open>internal/engine/changes.go\<close> and the
  \<open>WriteScope\<close> of \<open>internal/engine/changes_scope.go\<close> that carries it. A Go map is an
  association list with distinct keys, in some iteration order; a \<open>map[k]struct{}\<close> is a
  distinct list. \<open>graph.Kind\<close> is an interface of another module: a kind is a value of type
  \<open>'k option\<close> (\<open>None\<close> is the nil interface) and its \<open>String\<close> method is the parameter
  \<open>kstr\<close> of the definitions that call it. Strings compare bytewise, as in Go.
\<close>

section \<open>Data\<close>

record 'k EdgeTripleRef =
  t_Start :: pgid
  t_End :: pgid
  t_Kind :: "'k option"

record 'k EdgeTripleOIDRef =
  o_StartOID :: string
  o_EndOID :: string
  o_Kind :: "'k option"

record 'k NodeKindDeleteCriteria =
  c_Include :: "'k option list"
  c_Exclude :: "'k option list"

record edgeTripleKey =
  tk_start :: pgid
  tk_end :: pgid
  tk_kind :: string

record edgeTripleOIDKey =
  ok_startOID :: string
  ok_endOID :: string
  ok_kind :: string

record 'k ChangeSet =
  nodeIDs :: "pgid list"
  nodeObjectIDs :: "string list"
  edgeIDs :: "pgid list"
  edgeTriples :: "(edgeTripleKey \<times> 'k EdgeTripleRef) list"
  edgeTriplesOID :: "(edgeTripleOIDKey \<times> 'k EdgeTripleOIDRef) list"
  nodeKindDeletes :: "(string \<times> 'k NodeKindDeleteCriteria) list"
  edgeKindDeletes :: "(string \<times> 'k option list) list"
  fallbacks :: "string list"
  writeIncomplete :: "string list"

definition emptyChangeSet :: "'k ChangeSet" where
  "emptyChangeSet = \<lparr>nodeIDs = [], nodeObjectIDs = [], edgeIDs = [], edgeTriples = [],
     edgeTriplesOID = [], nodeKindDeletes = [], edgeKindDeletes = [], fallbacks = [],
     writeIncomplete = []\<rparr>"

section \<open>Keys\<close>

definition kindName :: "('k \<Rightarrow> string) \<Rightarrow> 'k option \<Rightarrow> string" where
  "kindName kstr kind = (case kind of None \<Rightarrow> [] | Some k \<Rightarrow> kstr k)"

fun strings_Join :: "string list \<Rightarrow> string \<Rightarrow> string" where
  "strings_Join [] sep = []"
| "strings_Join [x] sep = x"
| "strings_Join (x # y # xs) sep = x @ sep @ strings_Join (y # xs) sep"

definition kindsKey :: "('k \<Rightarrow> string) \<Rightarrow> 'k option list \<Rightarrow> string" where
  "kindsKey kstr kinds =
     (if length kinds = 0 then []
      else strings_Join (sort (map (kindName kstr) kinds)) '','')"

section \<open>Recording\<close>

definition RecordNodeID :: "'k ChangeSet \<Rightarrow> pgid \<Rightarrow> 'k ChangeSet" where
  "RecordNodeID c i = c\<lparr>nodeIDs := List.insert i (nodeIDs c)\<rparr>"

definition RecordNodeObjectID :: "'k ChangeSet \<Rightarrow> string \<Rightarrow> 'k ChangeSet" where
  "RecordNodeObjectID c objectID = c\<lparr>nodeObjectIDs := List.insert objectID (nodeObjectIDs c)\<rparr>"

definition RecordEdgeID :: "'k ChangeSet \<Rightarrow> pgid \<Rightarrow> 'k ChangeSet" where
  "RecordEdgeID c i = c\<lparr>edgeIDs := List.insert i (edgeIDs c)\<rparr>"

definition RecordEdgeTriple ::
    "('k \<Rightarrow> string) \<Rightarrow> 'k ChangeSet \<Rightarrow> pgid \<Rightarrow> pgid \<Rightarrow> 'k option \<Rightarrow> 'k ChangeSet" where
  "RecordEdgeTriple kstr c start e kind =
     (let key = \<lparr>tk_start = start, tk_end = e, tk_kind = kindName kstr kind\<rparr> in
      c\<lparr>edgeTriples := AList.update key \<lparr>t_Start = start, t_End = e, t_Kind = kind\<rparr> (edgeTriples c)\<rparr>)"

definition RecordEdgeTripleByObjectID ::
    "('k \<Rightarrow> string) \<Rightarrow> 'k ChangeSet \<Rightarrow> string \<Rightarrow> string \<Rightarrow> 'k option \<Rightarrow> 'k ChangeSet" where
  "RecordEdgeTripleByObjectID kstr c startOID endOID kind =
     (let key = \<lparr>ok_startOID = startOID, ok_endOID = endOID, ok_kind = kindName kstr kind\<rparr> in
      c\<lparr>edgeTriplesOID := AList.update key \<lparr>o_StartOID = startOID, o_EndOID = endOID, o_Kind = kind\<rparr>
          (edgeTriplesOID c)\<rparr>)"

definition RecordDeleteNodesByKinds ::
    "('k \<Rightarrow> string) \<Rightarrow> 'k ChangeSet \<Rightarrow> 'k option list \<Rightarrow> 'k option list \<Rightarrow> 'k ChangeSet" where
  "RecordDeleteNodesByKinds kstr c include exclude =
     (let key = kindsKey kstr include @ ''|'' @ kindsKey kstr exclude in
      c\<lparr>nodeKindDeletes := AList.update key \<lparr>c_Include = include, c_Exclude = exclude\<rparr> (nodeKindDeletes c)\<rparr>)"

definition RecordDeleteRelationshipsByKinds ::
    "('k \<Rightarrow> string) \<Rightarrow> 'k ChangeSet \<Rightarrow> 'k option list \<Rightarrow> 'k ChangeSet" where
  "RecordDeleteRelationshipsByKinds kstr c kinds =
     c\<lparr>edgeKindDeletes := AList.update (kindsKey kstr kinds) kinds (edgeKindDeletes c)\<rparr>"

definition RecordFallback :: "'k ChangeSet \<Rightarrow> string \<Rightarrow> 'k ChangeSet" where
  "RecordFallback c reason = c\<lparr>fallbacks := List.insert reason (fallbacks c)\<rparr>"

definition RecordWriteIncomplete :: "'k ChangeSet \<Rightarrow> string \<Rightarrow> 'k ChangeSet" where
  "RecordWriteIncomplete c reason = c\<lparr>writeIncomplete := List.insert reason (writeIncomplete c)\<rparr>"

section \<open>Reading\<close>

definition sortedKeys :: "string list \<Rightarrow> string list" where
  "sortedKeys m = (if length m = 0 then [] else sort m)"

definition sortedUint64Keys :: "nat list \<Rightarrow> nat list" where
  "sortedUint64Keys m = (if length m = 0 then [] else sort m)"

definition WriteIncomplete :: "'k ChangeSet \<Rightarrow> bool \<times> string list" where
  "WriteIncomplete c =
     (if length (writeIncomplete c) = 0 then (False, []) else (True, sortedKeys (writeIncomplete c)))"

definition ChangeSet_Empty :: "'k ChangeSet \<Rightarrow> bool" where
  "ChangeSet_Empty c \<longleftrightarrow> length (nodeIDs c) = 0 \<and> length (nodeObjectIDs c) = 0 \<and>
     length (edgeIDs c) = 0 \<and> length (edgeTriples c) = 0 \<and> length (edgeTriplesOID c) = 0 \<and>
     length (nodeKindDeletes c) = 0 \<and> length (edgeKindDeletes c) = 0 \<and> length (fallbacks c) = 0"

definition keyCount :: "'k ChangeSet \<Rightarrow> nat" where
  "keyCount c = length (nodeIDs c) + length (nodeObjectIDs c) + length (edgeIDs c) +
     length (edgeTriples c) + length (edgeTriplesOID c) +
     length (nodeKindDeletes c) + length (edgeKindDeletes c)"

definition HasFallback :: "'k ChangeSet \<Rightarrow> bool \<times> string list" where
  "HasFallback c =
     (if length (fallbacks c) = 0 then (False, []) else (True, sortedKeys (fallbacks c)))"

definition NodeIDs :: "'k ChangeSet \<Rightarrow> pgid list" where
  "NodeIDs c = sortedUint64Keys (nodeIDs c)"

definition NodeObjectIDs :: "'k ChangeSet \<Rightarrow> string list" where
  "NodeObjectIDs c = sortedKeys (nodeObjectIDs c)"

definition EdgeIDs :: "'k ChangeSet \<Rightarrow> pgid list" where
  "EdgeIDs c = sortedUint64Keys (edgeIDs c)"

text \<open>
  The comparison functions of \<open>EdgeTriples\<close> and \<open>EdgeTriplesByObjectID\<close> are the
  lexicographic order on the triple they compare.
\<close>

definition EdgeTriples :: "('k \<Rightarrow> string) \<Rightarrow> 'k ChangeSet \<Rightarrow> 'k EdgeTripleRef list" where
  "EdgeTriples kstr c =
     (if length (edgeTriples c) = 0 then []
      else sort_key (\<lambda>r. (t_Start r, t_End r, kindName kstr (t_Kind r))) (map snd (edgeTriples c)))"

definition EdgeTriplesByObjectID :: "('k \<Rightarrow> string) \<Rightarrow> 'k ChangeSet \<Rightarrow> 'k EdgeTripleOIDRef list" where
  "EdgeTriplesByObjectID kstr c =
     (if length (edgeTriplesOID c) = 0 then []
      else sort_key (\<lambda>r. (o_StartOID r, o_EndOID r, kindName kstr (o_Kind r)))
             (map snd (edgeTriplesOID c)))"

definition NodeKindCriteria :: "'k ChangeSet \<Rightarrow> 'k NodeKindDeleteCriteria list" where
  "NodeKindCriteria c =
     (if length (nodeKindDeletes c) = 0 then []
      else map (\<lambda>k. the (map_of (nodeKindDeletes c) k)) (sort (map fst (nodeKindDeletes c))))"

definition EdgeKindCriteria :: "'k ChangeSet \<Rightarrow> 'k option list list" where
  "EdgeKindCriteria c =
     (if length (edgeKindDeletes c) = 0 then []
      else map (\<lambda>k. the (map_of (edgeKindDeletes c) k)) (sort (map fst (edgeKindDeletes c))))"

section \<open>The write scope\<close>

record 'k WriteScope =
  changes :: "'k ChangeSet"
  watermark :: nat
  watermarkBumped :: bool
  watermarkBumpFailed :: bool

definition NewWriteScope :: "'k WriteScope" where
  "NewWriteScope = \<lparr>changes = emptyChangeSet, watermark = 0, watermarkBumped = False,
     watermarkBumpFailed = False\<rparr>"

definition WriteScope_Empty :: "'k WriteScope \<Rightarrow> bool" where
  "WriteScope_Empty s = ChangeSet_Empty (changes s)"

definition SetWatermark :: "'k WriteScope \<Rightarrow> nat \<Rightarrow> 'k WriteScope" where
  "SetWatermark s counter = s\<lparr>watermark := counter, watermarkBumped := True\<rparr>"

definition WriteScope_Watermark :: "'k WriteScope \<Rightarrow> nat \<times> bool" where
  "WriteScope_Watermark s = (watermark s, watermarkBumped s)"

definition markWatermarkBumpFailed :: "'k WriteScope \<Rightarrow> 'k WriteScope \<times> bool" where
  "markWatermarkBumpFailed s =
     (if watermarkBumpFailed s then (s, False) else (s\<lparr>watermarkBumpFailed := True\<rparr>, True))"

definition takeWatermarkBumpFailure :: "'k WriteScope \<Rightarrow> 'k WriteScope \<times> bool" where
  "takeWatermarkBumpFailure s =
     (let failed = watermarkBumpFailed s in (s\<lparr>watermarkBumpFailed := False\<rparr>, failed))"

section \<open>What a log holds\<close>

text \<open>The calls a write makes on its change log, in order.\<close>

datatype 'k record_call =
    RNodeID pgid
  | RNodeObjectID string
  | REdgeID pgid
  | REdgeTriple pgid pgid "'k option"
  | REdgeTripleOID string string "'k option"
  | RDeleteNodes "'k option list" "'k option list"
  | RDeleteRels "'k option list"
  | RFallback string
  | RIncomplete string

fun record_run :: "('k \<Rightarrow> string) \<Rightarrow> 'k record_call \<Rightarrow> 'k ChangeSet \<Rightarrow> 'k ChangeSet" where
  "record_run kstr (RNodeID i) c = RecordNodeID c i"
| "record_run kstr (RNodeObjectID s) c = RecordNodeObjectID c s"
| "record_run kstr (REdgeID i) c = RecordEdgeID c i"
| "record_run kstr (REdgeTriple a b k) c = RecordEdgeTriple kstr c a b k"
| "record_run kstr (REdgeTripleOID a b k) c = RecordEdgeTripleByObjectID kstr c a b k"
| "record_run kstr (RDeleteNodes i e) c = RecordDeleteNodesByKinds kstr c i e"
| "record_run kstr (RDeleteRels k) c = RecordDeleteRelationshipsByKinds kstr c k"
| "record_run kstr (RFallback r) c = RecordFallback c r"
| "record_run kstr (RIncomplete r) c = RecordWriteIncomplete c r"

definition change_log :: "('k \<Rightarrow> string) \<Rightarrow> 'k record_call list \<Rightarrow> 'k ChangeSet" where
  "change_log kstr calls = fold (record_run kstr) calls emptyChangeSet"

lemma map_sort_key: "map f (sort_key f xs) = sort (map f xs)"
  by (rule properties_for_sort [symmetric]) (simp_all add: mset_map)

lemma sort_distinct_set: "distinct xs \<Longrightarrow> set xs = A \<Longrightarrow> sort xs = sorted_list_of_set A"
  by (auto simp: sorted_list_of_set_sort_remdups distinct_remdups_id)

text \<open>The invariant of a change log: each field holds exactly what the calls named, once.\<close>

definition triple_fields :: "('k \<Rightarrow> string) \<Rightarrow> edgeTripleKey \<times> 'k EdgeTripleRef \<Rightarrow> bool" where
  "triple_fields kstr e \<longleftrightarrow> (case e of (k, r) \<Rightarrow>
     tk_start k = t_Start r \<and> tk_end k = t_End r \<and> tk_kind k = kindName kstr (t_Kind r))"

definition oid_fields :: "('k \<Rightarrow> string) \<Rightarrow> edgeTripleOIDKey \<times> 'k EdgeTripleOIDRef \<Rightarrow> bool" where
  "oid_fields kstr e \<longleftrightarrow> (case e of (k, r) \<Rightarrow>
     ok_startOID k = o_StartOID r \<and> ok_endOID k = o_EndOID r \<and> ok_kind k = kindName kstr (o_Kind r))"

definition triple_of :: "('k \<Rightarrow> string) \<Rightarrow> 'k record_call set \<Rightarrow> edgeTripleKey set" where
  "triple_of kstr S = {\<lparr>tk_start = a, tk_end = b, tk_kind = kindName kstr k\<rparr> | a b k. REdgeTriple a b k \<in> S}"

definition oid_of :: "('k \<Rightarrow> string) \<Rightarrow> 'k record_call set \<Rightarrow> edgeTripleOIDKey set" where
  "oid_of kstr S =
     {\<lparr>ok_startOID = a, ok_endOID = b, ok_kind = kindName kstr k\<rparr> | a b k. REdgeTripleOID a b k \<in> S}"

lemmas record_defs = RecordNodeID_def RecordNodeObjectID_def RecordEdgeID_def RecordEdgeTriple_def
  RecordEdgeTripleByObjectID_def RecordDeleteNodesByKinds_def RecordDeleteRelationshipsByKinds_def
  RecordFallback_def RecordWriteIncomplete_def

lemma change_log_snoc: "change_log kstr (calls @ [x]) = record_run kstr x (change_log kstr calls)"
  by (simp add: change_log_def)

lemma change_log_Nil: "change_log kstr [] = emptyChangeSet"
  by (simp add: change_log_def)

lemma update_all:
  assumes "\<forall>e \<in> set al. P e" and "P (k, v)"
  shows "\<forall>e \<in> set (AList.update k v al). P e"
  using assms by (induction al) auto

lemma log_ids:
  "distinct (nodeIDs (change_log kstr calls)) \<and>
   set (nodeIDs (change_log kstr calls)) = {i. RNodeID i \<in> set calls}"
  "distinct (nodeObjectIDs (change_log kstr calls)) \<and>
   set (nodeObjectIDs (change_log kstr calls)) = {i. RNodeObjectID i \<in> set calls}"
  "distinct (edgeIDs (change_log kstr calls)) \<and>
   set (edgeIDs (change_log kstr calls)) = {i. REdgeID i \<in> set calls}"
  "distinct (fallbacks (change_log kstr calls)) \<and>
   set (fallbacks (change_log kstr calls)) = {i. RFallback i \<in> set calls}"
  "distinct (writeIncomplete (change_log kstr calls)) \<and>
   set (writeIncomplete (change_log kstr calls)) = {i. RIncomplete i \<in> set calls}"
proof (induction calls rule: rev_induct)
  case Nil
  { case 1 show ?case by (simp add: change_log_Nil emptyChangeSet_def) }
  { case 2 show ?case by (simp add: change_log_Nil emptyChangeSet_def) }
  { case 3 show ?case by (simp add: change_log_Nil emptyChangeSet_def) }
  { case 4 show ?case by (simp add: change_log_Nil emptyChangeSet_def) }
  { case 5 show ?case by (simp add: change_log_Nil emptyChangeSet_def) }
next
  case (snoc x calls)
  { case 1 show ?case using snoc(1) by (cases x) (auto simp: change_log_snoc record_defs Let_def) }
  { case 2 show ?case using snoc(2) by (cases x) (auto simp: change_log_snoc record_defs Let_def) }
  { case 3 show ?case using snoc(3) by (cases x) (auto simp: change_log_snoc record_defs Let_def) }
  { case 4 show ?case using snoc(4) by (cases x) (auto simp: change_log_snoc record_defs Let_def) }
  { case 5 show ?case using snoc(5) by (cases x) (auto simp: change_log_snoc record_defs Let_def) }
qed

lemma log_triples:
  "distinct (map fst (edgeTriples (change_log kstr calls))) \<and>
   set (map fst (edgeTriples (change_log kstr calls))) = triple_of kstr (set calls) \<and>
   (\<forall>e \<in> set (edgeTriples (change_log kstr calls)). triple_fields kstr e)"
proof (induction calls rule: rev_induct)
  case Nil
  show ?case by (simp add: change_log_Nil emptyChangeSet_def triple_of_def)
next
  case (snoc x calls)
  show ?case
  proof (cases x)
    case (REdgeTriple a b k)
    have "triple_of kstr (set (calls @ [x])) =
        insert \<lparr>tk_start = a, tk_end = b, tk_kind = kindName kstr k\<rparr> (triple_of kstr (set calls))"
      using REdgeTriple by (auto simp: triple_of_def)
    moreover have "triple_fields kstr (\<lparr>tk_start = a, tk_end = b, tk_kind = kindName kstr k\<rparr>,
        \<lparr>t_Start = a, t_End = b, t_Kind = k\<rparr>)" by (simp add: triple_fields_def)
    ultimately show ?thesis using snoc REdgeTriple
      update_all [of "edgeTriples (change_log kstr calls)" "triple_fields kstr"]
      by (simp add: change_log_snoc RecordEdgeTriple_def Let_def update_keys insert_absorb)
  qed (use snoc in \<open>auto simp: change_log_snoc record_defs Let_def triple_of_def\<close>)
qed

lemma log_oids:
  "distinct (map fst (edgeTriplesOID (change_log kstr calls))) \<and>
   set (map fst (edgeTriplesOID (change_log kstr calls))) = oid_of kstr (set calls) \<and>
   (\<forall>e \<in> set (edgeTriplesOID (change_log kstr calls)). oid_fields kstr e)"
proof (induction calls rule: rev_induct)
  case Nil
  show ?case by (simp add: change_log_Nil emptyChangeSet_def oid_of_def)
next
  case (snoc x calls)
  show ?case
  proof (cases x)
    case (REdgeTripleOID a b k)
    have "oid_of kstr (set (calls @ [x])) =
        insert \<lparr>ok_startOID = a, ok_endOID = b, ok_kind = kindName kstr k\<rparr> (oid_of kstr (set calls))"
      using REdgeTripleOID by (auto simp: oid_of_def)
    moreover have "oid_fields kstr (\<lparr>ok_startOID = a, ok_endOID = b, ok_kind = kindName kstr k\<rparr>,
        \<lparr>o_StartOID = a, o_EndOID = b, o_Kind = k\<rparr>)" by (simp add: oid_fields_def)
    ultimately show ?thesis using snoc REdgeTripleOID
      update_all [of "edgeTriplesOID (change_log kstr calls)" "oid_fields kstr"]
      by (simp add: change_log_snoc RecordEdgeTripleByObjectID_def Let_def update_keys insert_absorb)
  qed (use snoc in \<open>auto simp: change_log_snoc record_defs Let_def oid_of_def\<close>)
qed

lemma sorted_of_log: "distinct xs \<and> set xs = A \<Longrightarrow> (if length xs = 0 then [] else sort xs) = sorted_list_of_set A"
  by (auto simp: sort_distinct_set)

lemma reading_of_log:
  assumes "distinct xs \<and> set xs = A"
  shows "(if length xs = 0 then (False, []) else (True, if length xs = 0 then [] else sort xs)) =
    ((\<exists>r. r \<in> A), sorted_list_of_set A)"
  using sorted_of_log [OF assms] assms by (cases xs) auto

lemma sorted_of_pairs:
  assumes "distinct (map fst al)" and "\<forall>e \<in> set al. g (snd e) = h (fst e)" and "inj_on h (set (map fst al))"
  shows "map g (if length al = 0 then [] else sort_key g (map snd al)) =
    sorted_list_of_set (h ` set (map fst al))"
proof -
  have eq: "map g (map snd al) = map h (map fst al)" using assms(2) by simp
  have "map g (sort_key g (map snd al)) = sort (map h (map fst al))" by (simp only: map_sort_key eq)
  also have "\<dots> = sorted_list_of_set (h ` set (map fst al))"
    by (rule sort_distinct_set) (use assms in \<open>auto simp: distinct_map comp_inj_on\<close>)
  finally show ?thesis by auto
qed

text \<open>
  C40. The change log is exact: whatever calls a write made, in whatever order and however often,
  the id accessors return exactly the ids named, once each and ascending; the triple accessors
  return one entry per (start, end, kind name), in lexicographic order; the fallback and
  write-incomplete readings hold exactly the reasons given. The answer depends on the set of
  calls only, so recording twice is recording once.
\<close>

theorem change_log_exact:
  "NodeIDs (change_log kstr calls) = sorted_list_of_set {i. RNodeID i \<in> set calls} \<and>
   NodeObjectIDs (change_log kstr calls) = sorted_list_of_set {s. RNodeObjectID s \<in> set calls} \<and>
   EdgeIDs (change_log kstr calls) = sorted_list_of_set {i. REdgeID i \<in> set calls} \<and>
   map (\<lambda>r. (t_Start r, t_End r, kindName kstr (t_Kind r))) (EdgeTriples kstr (change_log kstr calls)) =
     sorted_list_of_set {(a, b, kindName kstr k) | a b k. REdgeTriple a b k \<in> set calls} \<and>
   map (\<lambda>r. (o_StartOID r, o_EndOID r, kindName kstr (o_Kind r)))
       (EdgeTriplesByObjectID kstr (change_log kstr calls)) =
     sorted_list_of_set {(a, b, kindName kstr k) | a b k. REdgeTripleOID a b k \<in> set calls} \<and>
   HasFallback (change_log kstr calls) =
     ((\<exists>r. RFallback r \<in> set calls), sorted_list_of_set {r. RFallback r \<in> set calls}) \<and>
   WriteIncomplete (change_log kstr calls) =
     ((\<exists>r. RIncomplete r \<in> set calls), sorted_list_of_set {r. RIncomplete r \<in> set calls})"
proof (intro conjI)
  let ?c = "change_log kstr calls"
  note ids = log_ids [of kstr calls]
  show "NodeIDs ?c = sorted_list_of_set {i. RNodeID i \<in> set calls}"
    unfolding NodeIDs_def sortedUint64Keys_def by (rule sorted_of_log) (rule ids)
  show "NodeObjectIDs ?c = sorted_list_of_set {s. RNodeObjectID s \<in> set calls}"
    unfolding NodeObjectIDs_def sortedKeys_def by (rule sorted_of_log) (rule ids)
  show "EdgeIDs ?c = sorted_list_of_set {i. REdgeID i \<in> set calls}"
    unfolding EdgeIDs_def sortedUint64Keys_def by (rule sorted_of_log) (rule ids)
  have img: "(\<lambda>k. (tk_start k, tk_end k, tk_kind k)) ` triple_of kstr (set calls) =
      {(a, b, kindName kstr k) | a b k. REdgeTriple a b k \<in> set calls}"
    by (force simp: triple_of_def)
  have inj: "inj (\<lambda>k :: edgeTripleKey. (tk_start k, tk_end k, tk_kind k))"
    by (rule injI) simp
  show "map (\<lambda>r. (t_Start r, t_End r, kindName kstr (t_Kind r))) (EdgeTriples kstr ?c) =
     sorted_list_of_set {(a, b, kindName kstr k) | a b k. REdgeTriple a b k \<in> set calls}"
    unfolding EdgeTriples_def
    by (subst sorted_of_pairs [where h = "\<lambda>k. (tk_start k, tk_end k, tk_kind k)"])
      (use log_triples [of kstr calls] img inj in \<open>auto simp: triple_fields_def inj_on_def\<close>)
  have img': "(\<lambda>k. (ok_startOID k, ok_endOID k, ok_kind k)) ` oid_of kstr (set calls) =
      {(a, b, kindName kstr k) | a b k. REdgeTripleOID a b k \<in> set calls}"
    by (force simp: oid_of_def)
  show "map (\<lambda>r. (o_StartOID r, o_EndOID r, kindName kstr (o_Kind r))) (EdgeTriplesByObjectID kstr ?c) =
     sorted_list_of_set {(a, b, kindName kstr k) | a b k. REdgeTripleOID a b k \<in> set calls}"
    unfolding EdgeTriplesByObjectID_def
    by (subst sorted_of_pairs [where h = "\<lambda>k. (ok_startOID k, ok_endOID k, ok_kind k)"])
      (use log_oids [of kstr calls] img' in \<open>auto simp: oid_fields_def inj_on_def\<close>)
  show "HasFallback ?c =
     ((\<exists>r. RFallback r \<in> set calls), sorted_list_of_set {r. RFallback r \<in> set calls})"
    using reading_of_log [OF ids(4)] by (simp only: mem_Collect_eq HasFallback_def sortedKeys_def)
  show "WriteIncomplete ?c =
     ((\<exists>r. RIncomplete r \<in> set calls), sorted_list_of_set {r. RIncomplete r \<in> set calls})"
    using reading_of_log [OF ids(5)] by (simp only: mem_Collect_eq WriteIncomplete_def sortedKeys_def)
qed

section \<open>Kind-scoped deletes\<close>

text \<open>Plain names: not empty and free of the separators of the dedup keys.\<close>

definition plain_name :: "string \<Rightarrow> bool" where
  "plain_name s \<longleftrightarrow> s \<noteq> [] \<and> CHR '','' \<notin> set s \<and> CHR ''|'' \<notin> set s"

definition plain_kinds :: "('k \<Rightarrow> string) \<Rightarrow> 'k option list \<Rightarrow> bool" where
  "plain_kinds kstr ks \<longleftrightarrow> (\<forall>k \<in> set ks. plain_name (kindName kstr k))"

lemma append_sep_inj:
  assumes "x @ c # xs = y @ c # ys" and "c \<notin> set x" and "c \<notin> set y"
  shows "x = y \<and> xs = ys"
  using assms by (induction x arbitrary: y) (auto simp: Cons_eq_append_conv)

lemma strings_Join_Cons: "strings_Join (x # xs) sep = x @ (if xs = [] then [] else sep @ strings_Join xs sep)"
  by (cases xs) simp_all

lemma strings_Join_chars: "set (strings_Join xs sep) \<subseteq> \<Union> (set ` set xs) \<union> set sep"
  by (induction xs) (auto simp: strings_Join_Cons)

lemma strings_Join_inj:
  assumes "\<forall>x \<in> set xs. x \<noteq> [] \<and> c \<notin> set x" and "\<forall>x \<in> set ys. x \<noteq> [] \<and> c \<notin> set x"
    and "strings_Join xs [c] = strings_Join ys [c]"
  shows "xs = ys"
  using assms
proof (induction xs arbitrary: ys)
  case Nil
  then show ?case by (cases ys) (auto simp: strings_Join_Cons)
next
  case (Cons x xs)
  then obtain y ys' where ys: "ys = y # ys'" by (cases ys) (auto simp: strings_Join_Cons)
  have c: "c \<notin> set x" "c \<notin> set y" using Cons.prems ys by auto
  show ?case
  proof (cases "xs = []")
    case True
    then have "ys' = []" using Cons.prems(3) ys c by (auto simp: strings_Join_Cons split: if_splits)
    then show ?thesis using True Cons.prems(3) ys by simp
  next
    case False
    then have "ys' \<noteq> []" using Cons.prems(3) ys c by (auto simp: strings_Join_Cons split: if_splits)
    then have "x = y \<and> strings_Join xs [c] = strings_Join ys' [c]"
      using append_sep_inj [of x c _ y] False Cons.prems(3) ys c by (simp add: strings_Join_Cons)
    then show ?thesis using Cons.IH [of ys'] Cons.prems ys by simp
  qed
qed

lemma kindsKey_join: "kindsKey kstr ks = strings_Join (sort (map (kindName kstr) ks)) '',''"
  by (simp add: kindsKey_def)

lemma kindsKey_inj:
  assumes "plain_kinds kstr ks" and "plain_kinds kstr ks'" and "kindsKey kstr ks = kindsKey kstr ks'"
  shows "mset (map (kindName kstr) ks) = mset (map (kindName kstr) ks')"
proof -
  have "sort (map (kindName kstr) ks) = sort (map (kindName kstr) ks')"
    by (rule strings_Join_inj) (use assms in \<open>auto simp: plain_kinds_def plain_name_def kindsKey_join\<close>)
  then show ?thesis by (metis mset_sort)
qed

lemma kindsKey_no_bar: "plain_kinds kstr ks \<Longrightarrow> CHR ''|'' \<notin> set (kindsKey kstr ks)"
  using strings_Join_chars [of "sort (map (kindName kstr) ks)" "'',''"]
  by (auto simp: kindsKey_join plain_kinds_def plain_name_def)

definition criteria_key :: "('k \<Rightarrow> string) \<Rightarrow> 'k option list \<Rightarrow> 'k option list \<Rightarrow> string" where
  "criteria_key kstr i e = kindsKey kstr i @ ''|'' @ kindsKey kstr e"

lemma criteria_key_inj:
  assumes "plain_kinds kstr i" "plain_kinds kstr e" "plain_kinds kstr i'" "plain_kinds kstr e'"
    and "criteria_key kstr i e = criteria_key kstr i' e'"
  shows "mset (map (kindName kstr) i) = mset (map (kindName kstr) i') \<and>
    mset (map (kindName kstr) e) = mset (map (kindName kstr) e')"
  using append_sep_inj [of "kindsKey kstr i" "CHR ''|''" "kindsKey kstr e" "kindsKey kstr i'" "kindsKey kstr e'"]
    assms kindsKey_no_bar kindsKey_inj by (simp add: criteria_key_def) blast

lemma log_criteria:
  "distinct (map fst (nodeKindDeletes (change_log kstr calls))) \<and>
   set (map fst (nodeKindDeletes (change_log kstr calls))) =
     {criteria_key kstr i e | i e. RDeleteNodes i e \<in> set calls} \<and>
   (\<forall>(k, r) \<in> set (nodeKindDeletes (change_log kstr calls)).
      k = criteria_key kstr (c_Include r) (c_Exclude r) \<and>
      RDeleteNodes (c_Include r) (c_Exclude r) \<in> set calls)"
  (is "_ \<and> _ \<and> (\<forall>e \<in> _. ?P calls e)")
proof (induction calls rule: rev_induct)
  case Nil
  show ?case by (simp add: change_log_Nil emptyChangeSet_def)
next
  case (snoc x calls)
  have mono: "\<forall>e \<in> set (nodeKindDeletes (change_log kstr calls)). ?P (calls @ [x]) e"
    using snoc by auto
  show ?case
  proof (cases x)
    case (RDeleteNodes i e)
    let ?k = "criteria_key kstr i e" and ?al = "nodeKindDeletes (change_log kstr calls)"
    have keys: "{criteria_key kstr i e | i e. RDeleteNodes i e \<in> set (calls @ [x])} =
        insert ?k {criteria_key kstr i e | i e. RDeleteNodes i e \<in> set calls}"
      using RDeleteNodes by auto
    have P: "?P (calls @ [x]) (?k, \<lparr>c_Include = i, c_Exclude = e\<rparr>)"
      using RDeleteNodes by simp
    have eq: "nodeKindDeletes (change_log kstr (calls @ [x])) =
        AList.update ?k \<lparr>c_Include = i, c_Exclude = e\<rparr> ?al"
      using RDeleteNodes by (simp add: change_log_snoc RecordDeleteNodesByKinds_def criteria_key_def Let_def)
    have "set (map fst (AList.update ?k v ?al)) = insert ?k (set (map fst ?al))" for v
      by (auto simp: update_keys)
    then show ?thesis unfolding eq keys using snoc update_all [OF mono P]
      by (auto simp only: distinct_update)
  qed (use snoc in \<open>auto simp: change_log_snoc record_defs Let_def\<close>)
qed

lemma set_sorted_values:
  assumes "distinct (map fst al)"
  shows "set (if length al = 0 then [] else map (\<lambda>k. the (map_of al k)) (sort (map fst al))) = snd ` set al"
  using assms by (force simp: image_iff)

text \<open>
  Where kind names are plain, a kind-scoped node delete is never lost from the log: every
  pair of kind lists a call gave is represented by a returned criterion with the same kinds, up to
  the order of the lists, and every criterion returned was given by a call.
\<close>

theorem node_kind_criteria_kept:
  assumes plain: "\<forall>i e. RDeleteNodes i e \<in> set calls \<longrightarrow> plain_kinds kstr i \<and> plain_kinds kstr e"
  shows "(\<forall>i e. RDeleteNodes i e \<in> set calls \<longrightarrow>
      (\<exists>r \<in> set (NodeKindCriteria (change_log kstr calls)).
        mset (map (kindName kstr) (c_Include r)) = mset (map (kindName kstr) i) \<and>
        mset (map (kindName kstr) (c_Exclude r)) = mset (map (kindName kstr) e))) \<and>
    (\<forall>r \<in> set (NodeKindCriteria (change_log kstr calls)).
        RDeleteNodes (c_Include r) (c_Exclude r) \<in> set calls)"
proof -
  let ?al = "nodeKindDeletes (change_log kstr calls)"
  note lc = log_criteria [of kstr calls]
  have vals: "set (NodeKindCriteria (change_log kstr calls)) = snd ` set ?al"
    unfolding NodeKindCriteria_def using lc set_sorted_values by blast
  have "\<exists>r \<in> snd ` set ?al.
      mset (map (kindName kstr) (c_Include r)) = mset (map (kindName kstr) i) \<and>
      mset (map (kindName kstr) (c_Exclude r)) = mset (map (kindName kstr) e)"
    if call: "RDeleteNodes i e \<in> set calls" for i e
  proof -
    have "criteria_key kstr i e \<in> set (map fst ?al)" using lc call by auto
    then obtain r where r: "(criteria_key kstr i e, r) \<in> set ?al" by auto
    then have "criteria_key kstr (c_Include r) (c_Exclude r) = criteria_key kstr i e"
      "RDeleteNodes (c_Include r) (c_Exclude r) \<in> set calls" using lc by auto
    then have "mset (map (kindName kstr) (c_Include r)) = mset (map (kindName kstr) i) \<and>
        mset (map (kindName kstr) (c_Exclude r)) = mset (map (kindName kstr) e)"
      using criteria_key_inj plain call by blast
    then show ?thesis using r by force
  qed
  then show ?thesis using lc unfolding vals by auto
qed

theorem node_kind_criteria_kept_witness:
  "\<exists>r \<in> set (NodeKindCriteria (change_log id [RDeleteNodes [Some ''User'', Some ''Base''] [],
        RDeleteNodes [Some ''Base'', Some ''User''] []])).
     mset (map (kindName id) (c_Include r)) = mset (map (kindName id) [Some ''User'', Some ''Base''])"
proof -
  have "\<forall>i e. RDeleteNodes i e \<in> set [RDeleteNodes [Some ''User'', Some ''Base''] [],
        RDeleteNodes [Some ''Base'', Some ''User''] []] \<longrightarrow> plain_kinds id i \<and> plain_kinds id e"
    by (auto simp: plain_kinds_def plain_name_def kindName_def)
  note kept = conjunct1 [OF node_kind_criteria_kept [OF this]]
  show ?thesis using kept [rule_format, of "[Some ''User'', Some ''Base'']" "[]"] by fastforce
qed

text \<open>
  Without plain names the dedup key of \<open>RecordDeleteNodesByKinds\<close> is ambiguous: deleting the
  nodes of the kind \<open>A|B\<close>, then those of kind \<open>A\<close> but not \<open>B|\<close>, leaves a single criterion in
  the log, the second one, and the first delete is not replayed.
\<close>

theorem node_kind_criteria_collide:
  "NodeKindCriteria (change_log id [RDeleteNodes [Some ''A|B''] [], RDeleteNodes [Some ''A''] [Some ''B|'']]) =
     [\<lparr>c_Include = [Some ''A''], c_Exclude = [Some ''B|'']\<rparr>]"
  by (simp add: NodeKindCriteria_def change_log_def RecordDeleteNodesByKinds_def emptyChangeSet_def
      kindsKey_def kindName_def)

end
