(* ===== verification/BootGap.thy ===== *)
theory BootGap
  imports Changes
begin

text \<open>
  The boot gap buffer of \<open>internal/engine/bootgap.go\<close>: the writes observed while the engine has
  no View yet, and the decision whether they cover the gap between a snapshot file's stamp and the
  frozen watermark target. The buffer's mutex makes every operation atomic, so a run is a sequence
  of operations. A nil scope is \<open>None\<close>; a nil \<open>*ChangeSet\<close> of an entry is \<open>None\<close>.
\<close>

section \<open>The buffer\<close>

definition maxBootGapEntries :: nat where "maxBootGapEntries = 4096"

definition maxBootGapKeys :: nat where "maxBootGapKeys = 262144"

record 'k bootGapEntry =
  e_counter :: nat
  e_cs :: "'k ChangeSet option"

record 'k bootGapBuffer =
  active :: bool
  entries :: "'k bootGapEntry list"
  gapKeyCount :: nat
  poisoned :: string

definition zeroBootGap :: "'k bootGapBuffer" where
  "zeroBootGap = \<lparr>active = False, entries = [], gapKeyCount = 0, poisoned = []\<rparr>"

definition activate :: "'k bootGapBuffer \<Rightarrow> 'k bootGapBuffer" where
  "activate b = b\<lparr>active := True\<rparr>"

definition deactivate :: "'k bootGapBuffer \<Rightarrow> 'k bootGapBuffer" where
  "deactivate b = b\<lparr>active := False, entries := [], gapKeyCount := 0\<rparr>"

definition poison :: "'k bootGapBuffer \<Rightarrow> string \<Rightarrow> 'k bootGapBuffer" where
  "poison b reason = (if poisoned b = [] then b\<lparr>poisoned := reason\<rparr> else b)"

definition gap_append :: "'k bootGapBuffer \<Rightarrow> nat \<Rightarrow> 'k ChangeSet option \<Rightarrow> 'k bootGapBuffer" where
  "gap_append b counter cs =
     (if length (entries b) \<ge> maxBootGapEntries then poison b ''overflow: too many buffered writes''
      else case cs of
        None \<Rightarrow> b\<lparr>entries := entries b @ [\<lparr>e_counter = counter, e_cs = None\<rparr>]\<rparr>
      | Some c \<Rightarrow>
          let nxt = gapKeyCount b + keyCount c in
          if nxt > maxBootGapKeys then poison b ''overflow: too many buffered keys''
          else b\<lparr>gapKeyCount := nxt, entries := entries b @ [\<lparr>e_counter = counter, e_cs = Some c\<rparr>]\<rparr>)"

definition observe :: "'k bootGapBuffer \<Rightarrow> 'k WriteScope option \<Rightarrow> 'k bootGapBuffer" where
  "observe b scope =
     (if \<not> active b then b
      else case scope of
        None \<Rightarrow> poison b ''nil write scope''
      | Some s \<Rightarrow>
          let cs = changes s; (hasFallback, reasons) = HasFallback cs in
          if hasFallback then poison b (''fallback write during boot: '' @ strings_Join reasons ''; '')
          else
            let (counter, bumped) = WriteScope_Watermark s in
            if \<not> bumped then
              (if ChangeSet_Empty cs then b else poison b ''unbumped write recorded changes'')
            else gap_append b counter (if ChangeSet_Empty cs then None else Some cs))"

definition observeAbandoned :: "'k bootGapBuffer \<Rightarrow> 'k WriteScope option \<Rightarrow> 'k bootGapBuffer" where
  "observeAbandoned b scope =
     (case scope of
        None \<Rightarrow> b
      | Some s \<Rightarrow>
          if \<not> active b then b
          else let (counter, bumped) = WriteScope_Watermark s in
               if \<not> bumped then b else gap_append b counter None)"

definition gap_take :: "'k bootGapBuffer \<Rightarrow> 'k bootGapBuffer \<times> 'k bootGapEntry list \<times> string" where
  "gap_take b = (b\<lparr>active := False, entries := [], gapKeyCount := 0\<rparr>, entries b, poisoned b)"

definition gap_peek :: "'k bootGapBuffer \<Rightarrow> 'k bootGapEntry list \<times> string" where
  "gap_peek b = (entries b, poisoned b)"

section \<open>The cover decision\<close>

datatype bootGapVerdict = bootGapCovered | bootGapHole | bootGapContradiction

text \<open>
  The loop over the sorted counters. \<open>prev\<close> is \<open>counters[i-1]\<close>, \<open>None\<close> at \<open>i = 0\<close>; the
  result is the early return of a contradiction, or the loop's final \<open>next\<close> and \<open>hole\<close>.
\<close>

fun cover_loop :: "nat \<Rightarrow> nat \<Rightarrow> nat option \<Rightarrow> nat \<Rightarrow> bool \<Rightarrow> nat list \<Rightarrow> string + nat \<times> bool" where
  "cover_loop fileWatermark pgSnapshot prev nxt hole [] = Inr (nxt, hole)"
| "cover_loop fileWatermark pgSnapshot prev nxt hole (c # cs) =
     (if prev = Some c then Inl ''a counter was accounted for twice''
      else if c \<le> fileWatermark then Inl ''a boot write holds a counter the file already claims''
      else if c > pgSnapshot then cover_loop fileWatermark pgSnapshot (Some c) nxt hole cs
      else if c \<noteq> nxt then cover_loop fileWatermark pgSnapshot (Some c) (u64 (c + 1)) True cs
      else cover_loop fileWatermark pgSnapshot (Some c) (u64 (nxt + 1)) hole cs)"

definition bootGapCoveredAt :: "nat \<Rightarrow> nat \<Rightarrow> nat list \<Rightarrow> bootGapVerdict \<times> string" where
  "bootGapCoveredAt fileWatermark pgSnapshot counters =
     (if pgSnapshot < fileWatermark
      then (bootGapContradiction, ''the file is stamped ahead of the watermark counter'')
      else case cover_loop fileWatermark pgSnapshot None (u64 (fileWatermark + 1)) False (sort counters) of
          Inl why \<Rightarrow> (bootGapContradiction, why)
        | Inr (nxt, hole) \<Rightarrow>
            if hole \<or> nxt \<noteq> u64 (pgSnapshot + 1) then (bootGapHole, []) else (bootGapCovered, []))"

subsection \<open>What the loop decides\<close>

lemma cover_loop_contradiction:
  assumes "sorted cs" and "\<forall>p c. prev = Some p \<and> c \<in> set cs \<longrightarrow> p \<le> c"
  shows "(\<exists>why. cover_loop fw pg prev nxt hole cs = Inl why) \<longleftrightarrow>
    \<not> distinct cs \<or> (\<exists>p. prev = Some p \<and> p \<in> set cs) \<or> (\<exists>c \<in> set cs. c \<le> fw)"
  using assms
proof (induction cs arbitrary: prev nxt hole)
  case (Cons c cs)
  have p: "p \<notin> set cs \<or> p = c" if "prev = Some p" for p
    using Cons.prems that by (auto dest: order_antisym)
  have "\<forall>p d. Some c = Some p \<and> d \<in> set cs \<longrightarrow> p \<le> d" "sorted cs" using Cons.prems by auto
  note IH = Cons.IH [OF this(2,1)]
  consider "prev = Some c" | "prev \<noteq> Some c" "c \<le> fw" | "prev \<noteq> Some c" "\<not> c \<le> fw" by blast
  then show ?case
  proof cases
    case 3
    then have "p \<notin> set (c # cs)" if "prev = Some p" for p using that p by auto
    with 3 IH show ?thesis by auto
  qed auto
qed simp

lemma cover_loop_cover:
  assumes "sorted cs" and "distinct cs" and "\<forall>c \<in> set cs. fw < c" and "\<forall>p. prev = Some p \<longrightarrow> p \<notin> set cs"
    and "nxt \<le> pg + 1" and "\<forall>c \<in> set cs. nxt \<le> c" and "pg < 2 ^ 64 - 1"
    and "cover_loop fw pg prev nxt hole cs = Inr (nxt', hole')"
  shows "\<not> hole' \<and> nxt' = pg + 1 \<longleftrightarrow> \<not> hole \<and> {c \<in> set cs. c \<le> pg} = {nxt..pg}"
  using assms
proof (induction cs arbitrary: prev nxt hole)
  case Nil
  then show ?case by auto
next
  case (Cons c cs)
  have c: "prev \<noteq> Some c" "fw < c" "nxt \<le> c" "sorted cs" "distinct cs" "\<forall>d \<in> set cs. c < d"
    "\<forall>d \<in> set cs. fw < d" "\<forall>p. Some c = Some p \<longrightarrow> p \<notin> set cs"
    using Cons.prems by (auto simp: order.strict_iff_order)
  note IH = Cons.IH [OF c(4,5,7,8)]
  consider (above) "c > pg" | (gap) "c \<le> pg" "c \<noteq> nxt" | (hit) "c \<le> pg" "c = nxt" by fastforce
  then show ?case
  proof cases
    case above
    then have step: "cover_loop fw pg (Some c) nxt hole cs = Inr (nxt', hole')" using Cons.prems(8) c by simp
    have "{d \<in> set (c # cs). d \<le> pg} = {d \<in> set cs. d \<le> pg}" using above by auto
    then show ?thesis using IH [OF Cons.prems(5) _ Cons.prems(7) step] Cons.prems(6) by simp
  next
    case gap
    have u: "u64 (c + 1) = c + 1" using gap Cons.prems(7) by (simp add: u64_id)
    have step: "cover_loop fw pg (Some c) (c + 1) True cs = Inr (nxt', hole')"
      using Cons.prems(8) c gap u by simp
    have "\<not> (\<not> hole' \<and> nxt' = pg + 1)" using IH [OF _ _ Cons.prems(7) step] gap c by (simp add: Suc_le_eq)
    moreover have "nxt \<notin> set (c # cs)" using gap c by auto
    then have "{d \<in> set (c # cs). d \<le> pg} \<noteq> {nxt..pg}" using gap c by (auto dest: equalityD2)
    ultimately show ?thesis by blast
  next
    case hit
    have u: "u64 (nxt + 1) = nxt + 1" using hit Cons.prems(7) by (simp add: u64_id)
    have step: "cover_loop fw pg (Some c) (nxt + 1) hole cs = Inr (nxt', hole')"
      using Cons.prems(8) c hit u by simp
    have IH': "\<not> hole' \<and> nxt' = pg + 1 \<longleftrightarrow> \<not> hole \<and> {d \<in> set cs. d \<le> pg} = {nxt + 1..pg}"
      using IH [OF _ _ Cons.prems(7) step] hit c by (simp add: Suc_le_eq)
    have "nxt \<notin> {d \<in> set cs. d \<le> pg}" "{d \<in> set (c # cs). d \<le> pg} = insert nxt {d \<in> set cs. d \<le> pg}"
      "{nxt..pg} = insert nxt {nxt + 1..pg}"
      using hit c by auto
    then show ?thesis using IH' by (metis (no_types, lifting) atLeastAtMost_iff insert_ident not_less_eq_eq
      Suc_eq_plus1 order_refl)
  qed
qed

lemma bootgap_verdict:
  assumes "pgSnapshot < 2 ^ 64 - 1"
  shows "fst (bootGapCoveredAt fileWatermark pgSnapshot counters) =
    (if pgSnapshot < fileWatermark \<or> \<not> distinct counters \<or> (\<exists>c \<in> set counters. c \<le> fileWatermark)
     then bootGapContradiction
     else if {c \<in> set counters. c \<le> pgSnapshot} = {fileWatermark + 1..pgSnapshot} then bootGapCovered
     else bootGapHole)"
proof (cases "pgSnapshot < fileWatermark")
  case True
  then show ?thesis by (simp add: bootGapCoveredAt_def)
next
  case False
  let ?r = "cover_loop fileWatermark pgSnapshot None (fileWatermark + 1) False (sort counters)"
  have u: "u64 (fileWatermark + 1) = fileWatermark + 1" "u64 (pgSnapshot + 1) = pgSnapshot + 1"
    using False assms by (simp_all add: u64_id)
  have contra: "(\<exists>why. ?r = Inl why) \<longleftrightarrow> \<not> distinct counters \<or> (\<exists>c \<in> set counters. c \<le> fileWatermark)"
    using cover_loop_contradiction [of "sort counters" None] by simp
  show ?thesis
  proof (cases ?r)
    case (Inl why)
    then show ?thesis using contra u False by (auto simp: bootGapCoveredAt_def)
  next
    case (Inr res)
    obtain nxt hole where res: "res = (nxt, hole)" by fastforce
    have ok: "distinct counters" "\<forall>c \<in> set counters. fileWatermark < c" using contra Inr by auto
    have "\<not> hole \<and> nxt = pgSnapshot + 1 \<longleftrightarrow>
        {c \<in> set counters. c \<le> pgSnapshot} = {fileWatermark + 1..pgSnapshot}"
      using cover_loop_cover [of "sort counters" fileWatermark None "fileWatermark + 1" pgSnapshot False nxt hole]
        ok False assms Inr res by (simp add: Suc_le_eq)
    then show ?thesis using Inr res ok u False by (auto simp: bootGapCoveredAt_def)
  qed
qed

text \<open>
  C30. The cover decision is exactly its specification, for every multiset of counters: a
  contradiction is a file ahead of the target, a counter accounted for twice or one the file
  already claims, and outranks a hole; covered means that the counters at or below the target are
  precisely those above the file's stamp; everything else is a hole.
\<close>

theorem bootGapCoveredAt_exact:
  assumes "pgSnapshot < 2 ^ 64 - 1"
  shows "fst (bootGapCoveredAt fileWatermark pgSnapshot counters) =
    (if pgSnapshot < fileWatermark \<or> \<not> distinct counters \<or> (\<exists>c \<in> set counters. c \<le> fileWatermark)
     then bootGapContradiction
     else if {c \<in> set counters. c \<le> pgSnapshot} = {fileWatermark + 1..pgSnapshot} then bootGapCovered
     else bootGapHole)"
  using assms by (rule bootgap_verdict)

theorem bootGapCoveredAt_exact_witness:
  "fst (bootGapCoveredAt 3 5 [5, 9, 4]) = bootGapCovered \<and> fst (bootGapCoveredAt 3 5 [5, 2]) = bootGapContradiction"
  using bootGapCoveredAt_exact [of 5 3 "[5, 9, 4]"] bootGapCoveredAt_exact [of 5 3 "[5, 2]"] by auto

section \<open>What the buffer holds\<close>

text \<open>
  The calls the buffer receives between its activation and the adoption decision: \<open>Apply\<close>
  observing a scope, or \<open>ResolveAbandonedWrite\<close> one that committed nothing.
\<close>

datatype 'k gap_event = Observed "'k WriteScope option" | Abandoned "'k WriteScope option"

fun gap_run :: "'k gap_event \<Rightarrow> 'k bootGapBuffer \<Rightarrow> 'k bootGapBuffer" where
  "gap_run (Observed s) b = observe b s"
| "gap_run (Abandoned s) b = observeAbandoned b s"

text \<open>The entry an event is owed, and whether replay can reproduce the event at all.\<close>

fun owed :: "'k gap_event \<Rightarrow> 'k bootGapEntry list" where
  "owed (Observed (Some s)) = (if watermarkBumped s
     then [\<lparr>e_counter = watermark s,
            e_cs = if ChangeSet_Empty (changes s) then None else Some (changes s)\<rparr>] else [])"
| "owed (Abandoned (Some s)) = (if watermarkBumped s then [\<lparr>e_counter = watermark s, e_cs = None\<rparr>] else [])"
| "owed _ = []"

fun replayable :: "'k gap_event \<Rightarrow> bool" where
  "replayable (Observed None) = False"
| "replayable (Observed (Some s)) =
     (fallbacks (changes s) = [] \<and> (watermarkBumped s \<or> ChangeSet_Empty (changes s)))"
| "replayable (Abandoned _) = True"

definition entry_keys :: "'k bootGapEntry \<Rightarrow> nat" where
  "entry_keys e = (case e_cs e of None \<Rightarrow> 0 | Some cs \<Rightarrow> keyCount cs)"

definition gap_invar :: "'k bootGapBuffer \<Rightarrow> bool" where
  "gap_invar b \<longleftrightarrow> length (entries b) \<le> maxBootGapEntries \<and>
     gapKeyCount b = sum_list (map entry_keys (entries b)) \<and> gapKeyCount b \<le> maxBootGapKeys"

lemma HasFallback_iff: "fst (HasFallback cs) \<longleftrightarrow> fallbacks cs \<noteq> []"
  by (simp add: HasFallback_def)

lemma gap_append_props:
  assumes "gap_invar b"
  shows "gap_invar (gap_append b c cs) \<and> active (gap_append b c cs) = active b \<and>
    (poisoned (gap_append b c cs) = [] \<longrightarrow> poisoned b = [] \<and>
       entries (gap_append b c cs) = entries b @ [\<lparr>e_counter = c, e_cs = cs\<rparr>]) \<and>
    (poisoned (gap_append b c cs) = [] \<longleftrightarrow> poisoned b = [] \<and> length (entries b) < maxBootGapEntries \<and>
       gapKeyCount b + (case cs of None \<Rightarrow> 0 | Some s \<Rightarrow> keyCount s) \<le> maxBootGapKeys)"
  using assms
  by (cases cs) (auto simp: gap_append_def poison_def gap_invar_def entry_keys_def Let_def)

lemma gap_run_props:
  assumes "gap_invar b" and "active b"
  shows "gap_invar (gap_run ev b) \<and> active (gap_run ev b) \<and>
    (poisoned (gap_run ev b) = [] \<longrightarrow> poisoned b = [] \<and> replayable ev \<and>
       entries (gap_run ev b) = entries b @ owed ev)"
proof -
  note app = gap_append_props [OF assms(1)]
  have poison: "gap_invar (poison b r) \<and> active (poison b r) \<and> poisoned (poison b r) \<noteq> []"
    if "r \<noteq> []" for r using assms that by (auto simp: poison_def gap_invar_def)
  show ?thesis
  proof (cases ev)
    case (Observed sc)
    then show ?thesis using assms app poison HasFallback_iff
      by (cases sc) (auto simp: observe_def WriteScope_Watermark_def Let_def split_beta)
  next
    case (Abandoned sc)
    then show ?thesis using assms app
      by (cases sc) (auto simp: observeAbandoned_def WriteScope_Watermark_def)
  qed
qed

lemma gap_runs_props:
  assumes "gap_invar b" and "active b" and "poisoned b = []" and "entries b = []"
  shows "gap_invar (fold gap_run evs b) \<and> active (fold gap_run evs b) \<and>
    (poisoned (fold gap_run evs b) = [] \<longrightarrow>
      (\<forall>ev \<in> set evs. replayable ev) \<and> entries (fold gap_run evs b) = concat (map owed evs))"
proof (induction evs rule: rev_induct)
  case Nil
  then show ?case using assms by simp
next
  case (snoc ev evs)
  then show ?case using gap_run_props [of "fold gap_run evs b" ev] by auto
qed

lemma bootgap_clean_entries:
  assumes "gap_take (fold gap_run evs (activate zeroBootGap)) = (b', es, [])"
  shows "(\<forall>ev \<in> set evs. replayable ev) \<and> es = concat (map owed evs)"
  using gap_runs_props [of "activate zeroBootGap" evs] assms
  by (auto simp: gap_take_def activate_def zeroBootGap_def gap_invar_def)

text \<open>
  A clean buffer has accounted for every write it saw: after any sequence of observed and
  abandoned writes, if \<open>take\<close> returns no poison reason then none of them was unreplayable and the
  entries are exactly one per bumped write, in order, with the change log to replay where there is
  one; and the buffer stays within its two caps whatever it is fed.
\<close>

theorem bootgap_clean_is_complete:
  assumes "gap_take (fold gap_run evs (activate zeroBootGap)) = (b', es, reason)"
  shows "length es \<le> maxBootGapEntries \<and> sum_list (map entry_keys es) \<le> maxBootGapKeys \<and>
    (reason = [] \<longrightarrow> (\<forall>ev \<in> set evs. replayable ev) \<and> es = concat (map owed evs))"
  using gap_runs_props [of "activate zeroBootGap" evs] assms
  by (auto simp: gap_take_def activate_def zeroBootGap_def gap_invar_def)

theorem bootgap_clean_is_complete_witness:
  "snd (snd (gap_take (fold gap_run [Observed (Some (SetWatermark NewWriteScope 5)),
       Abandoned (Some (SetWatermark NewWriteScope 6))] (activate (zeroBootGap :: nat bootGapBuffer))))) = [] \<and>
   map e_counter (fst (snd (gap_take (fold gap_run [Observed (Some (SetWatermark NewWriteScope 5)),
       Abandoned (Some (SetWatermark NewWriteScope 6))] (activate (zeroBootGap :: nat bootGapBuffer)))))) = [5, 6]"
proof -
  let ?evs = "[Observed (Some (SetWatermark NewWriteScope 5)),
    Abandoned (Some (SetWatermark NewWriteScope 6))] :: nat gap_event list"
  obtain b es r where t: "gap_take (fold gap_run ?evs (activate zeroBootGap)) = (b, es, r)"
    by (metis prod_cases3)
  have r: "r = []" using t
    by (auto simp: gap_take_def observe_def observeAbandoned_def gap_append_def activate_def zeroBootGap_def
        SetWatermark_def NewWriteScope_def WriteScope_Watermark_def HasFallback_def emptyChangeSet_def
        ChangeSet_Empty_def maxBootGapEntries_def)
  have "es = concat (map owed ?evs)" using bootgap_clean_is_complete [OF t] r by simp
  then have "map e_counter es = [5, 6]" by (simp add: SetWatermark_def)
  then show ?thesis using t r by simp
qed

text \<open>
  C33. The adoption decision is sound: if the buffer is clean and its counters cover the gap at
  the frozen target, then every counter between the file's stamp and the target is that of exactly
  one write this process observed, and no write this process observed is missing from the replay.
\<close>

theorem bootgap_adoption_sound:
  assumes "gap_take (fold gap_run evs (activate zeroBootGap)) = (b', es, [])"
    and "pgSnapshot < 2 ^ 64 - 1"
    and "fst (bootGapCoveredAt fileWatermark pgSnapshot (map e_counter es)) = bootGapCovered"
  shows "(\<forall>c \<in> {fileWatermark + 1..pgSnapshot}. \<exists>!i. i < length es \<and> e_counter (es ! i) = c) \<and>
    (\<forall>ev \<in> set evs. replayable ev \<and> set (owed ev) \<subseteq> set es) \<and>
    (\<forall>e \<in> set es. fileWatermark < e_counter e \<and> (\<exists>ev \<in> set evs. e \<in> set (owed ev)))"
proof -
  have es: "es = concat (map owed evs)" "\<forall>ev \<in> set evs. replayable ev"
    using bootgap_clean_entries [OF assms(1)] by auto
  have cov: "distinct (map e_counter es)" "\<forall>c \<in> set (map e_counter es). fileWatermark < c"
    "{c \<in> set (map e_counter es). c \<le> pgSnapshot} = {fileWatermark + 1..pgSnapshot}"
    using assms(3) bootgap_verdict [OF assms(2), of fileWatermark "map e_counter es"]
    by (auto split: if_splits)
  have "\<exists>!i. i < length es \<and> e_counter (es ! i) = c" if "c \<in> {fileWatermark + 1..pgSnapshot}" for c
  proof -
    have "c \<in> set (map e_counter es)" using that cov(3) by blast
    then obtain i where "i < length es" "e_counter (es ! i) = c" by (auto simp: in_set_conv_nth)
    then show ?thesis using cov(1) by (auto simp: distinct_conv_nth)
  qed
  then show ?thesis using es cov(2) by auto
qed

theorem bootgap_adoption_sound_witness:
  "\<exists>!i. i < 2 \<and> e_counter ([\<lparr>e_counter = 6, e_cs = None\<rparr>,
     \<lparr>e_counter = 5, e_cs = (None :: nat ChangeSet option)\<rparr>] ! i) = 5"
proof -
  let ?evs = "[Observed (Some (SetWatermark NewWriteScope 6)),
    Abandoned (Some (SetWatermark NewWriteScope 5))] :: nat gap_event list"
  let ?es = "[\<lparr>e_counter = 6, e_cs = None\<rparr>, \<lparr>e_counter = 5, e_cs = None\<rparr>] :: nat bootGapEntry list"
  have t: "gap_take (fold gap_run ?evs (activate zeroBootGap)) = (zeroBootGap, ?es, [])"
    by (simp add: gap_take_def observe_def observeAbandoned_def gap_append_def activate_def zeroBootGap_def
        SetWatermark_def NewWriteScope_def WriteScope_Watermark_def HasFallback_def emptyChangeSet_def
        ChangeSet_Empty_def maxBootGapEntries_def)
  have "fst (bootGapCoveredAt 4 6 (map e_counter ?es)) = bootGapCovered"
    by (simp add: bootGapCoveredAt_def u64_def)
  moreover have "(6::nat) < 2 ^ 64 - 1" by simp
  ultimately have sound: "\<forall>c \<in> {4 + 1..6}. \<exists>!i. i < length ?es \<and> e_counter (?es ! i) = c"
    using bootgap_adoption_sound [OF t] by blast
  have "(5::nat) \<in> {4 + 1..6}" by simp
  with sound have "\<exists>!i. i < length ?es \<and> e_counter (?es ! i) = 5" by (rule bspec)
  moreover have "length ?es = 2" by simp
  ultimately show ?thesis by (simp only:)
qed

section \<open>Refusing a file before its counters are weighed\<close>

definition Lineage_IsZero :: "lineage \<Rightarrow> bool" where
  "Lineage_IsZero l \<longleftrightarrow> l = replicate 16 0"

record startState =
  at_counter :: nat
  at_nodeSeq :: int
  at_edgeSeq :: int

record stamp =
  st_Watermark :: nat
  st_NodeIDSeq :: int
  st_EdgeIDSeq :: int

definition insertedSinceFile :: "stamp \<Rightarrow> startState option \<Rightarrow> bool" where
  "insertedSinceFile stmp at = (case at of None \<Rightarrow> False | Some a \<Rightarrow>
     at_counter a = st_Watermark stmp \<and>
     (at_nodeSeq a \<noteq> st_NodeIDSeq stmp \<or> at_edgeSeq a \<noteq> st_EdgeIDSeq stmp))"

definition counterBehindFile :: "stamp \<Rightarrow> startState option \<Rightarrow> bool" where
  "counterBehindFile stmp at = (case at of None \<Rightarrow> False | Some a \<Rightarrow> at_counter a < st_Watermark stmp)"

definition fileRefusal :: "startState option \<Rightarrow> lineage \<Rightarrow> stamp \<Rightarrow> lineage \<Rightarrow> string" where
  "fileRefusal atStart lin stmp pgLineage =
     (if Lineage_IsZero lin \<or> lin \<noteq> pgLineage
      then ''watermark lineage changed since the file was written''
      else if atStart = None
      then ''where PostgreSQL stood when this process started could not be read''
      else if counterBehindFile stmp atStart
      then ''the watermark counter was behind the file's stamp when this process started''
      else if insertedSinceFile stmp atStart
      then ''rows were inserted since the file was written by a writer that did not advance the watermark''
      else [])"

text \<open>
  No snapshot file passes the first gate unless it names PostgreSQL's own lineage, the start
  state was read, the counter stood at or past the file's stamp when the process started, and, at
  the very stamp, the id sequences had not moved; a file that meets all of these is not refused.
  In particular nothing is adopted vacuously when the start state is unknown.
\<close>

theorem fileRefusal_exact:
  "fileRefusal atStart lin stmp pgLineage = [] \<longleftrightarrow>
     lin = pgLineage \<and> lin \<noteq> replicate 16 0 \<and>
     (\<exists>a. atStart = Some a \<and> st_Watermark stmp \<le> at_counter a \<and>
        (at_counter a = st_Watermark stmp \<longrightarrow> at_nodeSeq a = st_NodeIDSeq stmp \<and> at_edgeSeq a = st_EdgeIDSeq stmp))"
  by (cases atStart)
    (auto simp: fileRefusal_def Lineage_IsZero_def counterBehindFile_def insertedSinceFile_def)

theorem fileRefusal_exact_witness:
  "fileRefusal (Some \<lparr>at_counter = 9, at_nodeSeq = 4, at_edgeSeq = 2\<rparr>) (replicate 16 1)
     \<lparr>st_Watermark = 9, st_NodeIDSeq = 4, st_EdgeIDSeq = 2\<rparr> (replicate 16 1) = []"
  by (subst fileRefusal_exact) simp

end
