(* ===== verification/Replica.thy ===== *)
theory Replica
  imports Watermark BootGap
begin

text \<open>
  The write-through engine: \<open>Apply\<close>, the serving state, fallback and rebuild adoption of
  \<open>internal/engine/apply.go\<close> and \<open>engine.go\<close>, with the trust generations of
  \<open>watermark.go\<close>. The operations are functions on the engine's fields; \<open>rep_step\<close> interleaves
  them with writes committing in PostgreSQL, rebuild loads, lock-free query reads and generation
  reads. Logging and memoization (\<open>Warm\<close>) have no effect on these fields. What \<open>Apply\<close> calls
  outside this component is the record \<open>apply_env\<close>: the read-back from PostgreSQL, the segment
  build, the layering of a segment on a View, its size estimate and the maintenance after a publish.
\<close>

section \<open>The engine's fields\<close>

datatype serving_state = stateServing | stateFallback

record ('v, 'k) engine =
  Enabled :: bool
  MemoryLimit :: nat
  state :: serving_state
  snap :: "'v option"
  applyEpoch :: nat
  dirtyGen :: nat
  settledDirtyGen :: nat
  resolvedDirtyGen :: nat
  appliedWatermark :: watermarkLedger
  inflightBumps :: int
  bootGap :: "'k bootGapBuffer"
  fallbackRebuilding :: bool
  rebuildLoopStarts :: nat
  trustRequests :: nat \<comment> \<open>calls of requestTrustRebuild; its rate limiter is timing only\<close>
  snapshotFile :: bool \<comment> \<open>a saved snapshot file is in place\<close>

record ('v, 'k, 'r, 's) apply_env =
  env_readBack :: "'v \<Rightarrow> 'k ChangeSet \<Rightarrow> string + ('r \<times> 'k ChangeSet)"
  env_buildApplySegment :: "'v \<Rightarrow> 'r \<Rightarrow> string + 's"
  env_WithSegment :: "'v \<Rightarrow> 's \<Rightarrow> 'v"
  env_ApproxBytes :: "'v \<Rightarrow> nat"
  env_maintainAfterPublish :: "('v, 'k) engine \<Rightarrow> 'v \<Rightarrow> ('v, 'k) engine"

section \<open>Rebuild requests and fallback\<close>

definition claimRebuildLoop :: "('v, 'k) engine \<Rightarrow> ('v, 'k) engine \<times> bool" where
  "claimRebuildLoop e =
     (if \<not> Enabled e then (e, False)
      else if fallbackRebuilding e then (e, False)
      else (e\<lparr>fallbackRebuilding := True, rebuildLoopStarts := rebuildLoopStarts e + 1\<rparr>, True))"

definition startFallbackRebuild :: "('v, 'k) engine \<Rightarrow> ('v, 'k) engine" where
  "startFallbackRebuild e = fst (claimRebuildLoop e)"

definition enterFallback :: "('v, 'k) engine \<Rightarrow> ('v, 'k) engine" where
  "enterFallback e =
     startFallbackRebuild (if state e = stateServing then e\<lparr>state := stateFallback\<rparr> else e)"

definition requestTrustRebuild :: "('v, 'k) engine \<Rightarrow> ('v, 'k) engine" where
  "requestTrustRebuild e = (if \<not> Enabled e then e else e\<lparr>trustRequests := trustRequests e + 1\<rparr>)"

section \<open>Watermark bookkeeping of a write\<close>

definition AdvanceWatermark :: "('v, 'k) engine \<Rightarrow> nat \<Rightarrow> ('v, 'k) engine" where
  "AdvanceWatermark e counter =
     e\<lparr>appliedWatermark := resolve (appliedWatermark e) counter, inflightBumps := inflightBumps e - 1\<rparr>"

definition NoteWatermarkBumpFailure ::
    "('v, 'k) engine \<Rightarrow> 'k WriteScope option \<Rightarrow> ('v, 'k) engine \<times> 'k WriteScope option \<times> bool" where
  "NoteWatermarkBumpFailure e scope =
     (let (scope', marked) = (case scope of None \<Rightarrow> (None, True)
            | Some s \<Rightarrow> (let (s', m) = markWatermarkBumpFailed s in (Some s', m))) in
      if marked then (e\<lparr>dirtyGen := dirtyGen e + 1, snapshotFile := False\<rparr>, scope', True)
      else (e, scope', False))"

text \<open>\<open>noteSelfSettlingWatermarkFailure\<close> advances the two generations one after the other.\<close>

definition noteSelf_dirty :: "('v, 'k) engine \<Rightarrow> ('v, 'k) engine" where
  "noteSelf_dirty e = e\<lparr>dirtyGen := dirtyGen e + 1\<rparr>"

definition noteSelf_settle :: "('v, 'k) engine \<Rightarrow> ('v, 'k) engine" where
  "noteSelf_settle e = e\<lparr>settledDirtyGen := settledDirtyGen e + 1\<rparr>"

definition settleWatermarkFailure ::
    "('v, 'k) engine \<Rightarrow> 'k WriteScope option \<Rightarrow> ('v, 'k) engine \<times> 'k WriteScope option \<times> bool" where
  "settleWatermarkFailure e scope =
     (case scope of None \<Rightarrow> (e, None, False)
      | Some s \<Rightarrow>
          let (s', failed) = takeWatermarkBumpFailure s in
          if \<not> failed then (e, Some s', False)
          else (e\<lparr>settledDirtyGen := settledDirtyGen e + 1\<rparr>, Some s', True))"

definition ResolveAbandonedWrite ::
    "('v, 'k) engine \<Rightarrow> 'k WriteScope option \<Rightarrow> ('v, 'k) engine \<times> 'k WriteScope option" where
  "ResolveAbandonedWrite e scope =
     (case scope of None \<Rightarrow> (e, None)
      | Some s \<Rightarrow>
          let e1 = (case WriteScope_Watermark s of (counter, bumped) \<Rightarrow>
                      if bumped then AdvanceWatermark e counter else e);
              e2 = e1\<lparr>bootGap := observeAbandoned (bootGap e1) (Some s)\<rparr>;
              (e3, scope', settled) = settleWatermarkFailure e2 (Some s)
          in (if settled then requestTrustRebuild e3 else e3, scope'))"

definition maxWatermark :: "nat \<Rightarrow> nat \<Rightarrow> nat" where
  "maxWatermark cur candidate = (if candidate > cur then candidate else cur)"

definition watermarkTrustedFor :: "nat \<Rightarrow> nat \<Rightarrow> bool \<Rightarrow> serving_state \<Rightarrow> bool" where
  "watermarkTrustedFor dirty resolved conv st \<longleftrightarrow> dirty = resolved \<and> conv \<and> st = stateServing"

section \<open>Apply\<close>

text \<open>
  \<open>Apply\<close> runs under \<open>applyMu\<close>. It is cut where other goroutines can see it: the watermark
  bookkeeping first, then everything from the epoch bump on.
\<close>

definition Apply_begin ::
    "('v, 'k) engine \<Rightarrow> 'k WriteScope option \<Rightarrow> ('v, 'k) engine \<times> 'k WriteScope option \<times> bool" where
  "Apply_begin e scope =
     (let e1 = (case scope of None \<Rightarrow> e
                | Some s \<Rightarrow> (case WriteScope_Watermark s of (counter, bumped) \<Rightarrow>
                    if bumped then AdvanceWatermark e counter else e))
      in settleWatermarkFailure e1 scope)"

definition Apply_publish ::
    "('v, 'k, 'r, 's) apply_env \<Rightarrow> ('v, 'k) engine \<Rightarrow> 'v \<Rightarrow> 'k ChangeSet \<Rightarrow> ('v, 'k) engine" where
  "Apply_publish env e current cs =
     (case env_readBack env current cs of
        Inl err \<Rightarrow> enterFallback e
      | Inr (rb, cs') \<Rightarrow>
          if fst (HasFallback cs') then enterFallback e
          else case env_buildApplySegment env current rb of
            Inl err \<Rightarrow> enterFallback e
          | Inr seg \<Rightarrow>
              let newView = env_WithSegment env current seg in
              if MemoryLimit e > 0 \<and> env_ApproxBytes env newView > MemoryLimit e then enterFallback e
              else env_maintainAfterPublish env (e\<lparr>snap := Some newView\<rparr>) newView)"

definition Apply_finish ::
    "('v, 'k, 'r, 's) apply_env \<Rightarrow> ('v, 'k) engine \<Rightarrow> 'k WriteScope option \<Rightarrow> bool \<Rightarrow> ('v, 'k) engine" where
  "Apply_finish env e scope settledFailure =
     (let e1 = e\<lparr>applyEpoch := applyEpoch e + 1\<rparr>;
          e2 = e1\<lparr>bootGap := observe (bootGap e1) scope\<rparr>;
          e3 = (if settledFailure then requestTrustRebuild e2 else e2)
      in if \<not> Enabled e3 then e3
         else case scope of
           None \<Rightarrow> enterFallback e3
         | Some s \<Rightarrow>
             if fst (HasFallback (changes s)) then enterFallback e3
             else if ChangeSet_Empty (changes s) then e3
             else if state e3 \<noteq> stateServing then startFallbackRebuild e3
             else case snap e3 of
               None \<Rightarrow> e3
             | Some current \<Rightarrow> Apply_publish env e3 current (changes s))"

definition Apply ::
    "('v, 'k, 'r, 's) apply_env \<Rightarrow> ('v, 'k) engine \<Rightarrow> 'k WriteScope option \<Rightarrow> ('v, 'k) engine \<times> 'k WriteScope option" where
  "Apply env e scope =
     (let (e1, scope1, settledFailure) = Apply_begin e scope
      in (Apply_finish env e1 scope1 settledFailure, scope1))"

text \<open>A panic anywhere in \<open>Apply\<close> is turned into a fallback, with an epoch bump of its own.\<close>

definition fallBackOnApplyPanic :: "('v, 'k) engine \<Rightarrow> ('v, 'k) engine" where
  "fallBackOnApplyPanic e = enterFallback (e\<lparr>applyEpoch := applyEpoch e + 1\<rparr>)"

section \<open>Adoption and serving\<close>

definition adopt_store :: "('v, 'k) engine \<Rightarrow> 'v \<Rightarrow> nat \<Rightarrow> ('v, 'k) engine" where
  "adopt_store e view settledGen =
     e\<lparr>snap := Some view, resolvedDirtyGen := maxWatermark (resolvedDirtyGen e) settledGen,
       bootGap := deactivate (bootGap e)\<rparr>"

definition adopt_flip :: "('v, 'k) engine \<Rightarrow> ('v, 'k) engine" where
  "adopt_flip e = (if state e = stateFallback then e\<lparr>state := stateServing\<rparr> else e)"

definition adoptRebuiltView :: "('v, 'k) engine \<Rightarrow> 'v \<Rightarrow> nat \<Rightarrow> nat \<Rightarrow> ('v, 'k) engine \<times> bool" where
  "adoptRebuiltView e view epoch settledGen =
     (if applyEpoch e \<noteq> epoch then (e, False)
      else (adopt_flip (adopt_store e view settledGen), True))"

definition servableView :: "serving_state \<Rightarrow> 'v option \<Rightarrow> 'v option \<times> bool" where
  "servableView st view = (view, view \<noteq> None \<and> st = stateServing)"

datatype relaunchKind = relaunchNone | relaunchRecovery | relaunchTrust

definition relaunchAfterAdoption :: "serving_state \<Rightarrow> nat \<Rightarrow> nat \<Rightarrow> relaunchKind" where
  "relaunchAfterAdoption st settledGen resolvedGen =
     (if st = stateFallback then relaunchRecovery
      else if settledGen \<noteq> resolvedGen then relaunchTrust
      else relaunchNone)"

definition finishFallbackRebuild :: "('v, 'k) engine \<Rightarrow> ('v, 'k) engine" where
  "finishFallbackRebuild e =
     (let e1 = e\<lparr>fallbackRebuilding := False\<rparr> in
      case relaunchAfterAdoption (state e1) (settledDirtyGen e1) (resolvedDirtyGen e1) of
        relaunchRecovery \<Rightarrow> startFallbackRebuild e1
      | relaunchTrust \<Rightarrow> requestTrustRebuild e1
      | relaunchNone \<Rightarrow> e1)"

lemmas engine_defs = claimRebuildLoop_def startFallbackRebuild_def enterFallback_def
  requestTrustRebuild_def AdvanceWatermark_def settleWatermarkFailure_def
  takeWatermarkBumpFailure_def WriteScope_Watermark_def

section \<open>The protocol\<close>

text \<open>
  \<open>rlock\<close> is the holder of \<open>applyMu\<close>. A rebuild load reads the epoch, then the settled
  generation, then its rows in one repeatable-read transaction; a load that was read may be adopted
  or dropped later, so the relation only ever adds loads. The fields after \<open>scopes\<close> are ghosts.
\<close>

datatype rlock = Free | Applying nat bool | Adopting

datatype 'v load =
    LEpoch nat
  | LGen nat nat "nat set" nat
  | LView nat nat "nat set" nat 'v

datatype 'v query = QIdle | QStart "nat set" | QState "nat set" serving_state | QDone "nat set" "'v option" bool

datatype gens = GIdle | GResolved nat | GDone nat nat "nat set"

record ('v, 'k) rep =
  eng :: "('v, 'k) engine"
  scopes :: "nat \<Rightarrow> 'k WriteScope"
  rl :: rlock
  loads :: "'v load set"
  qr :: "'v query"
  gr :: gens
  committed :: "nat set"  \<comment> \<open>writes committed in PostgreSQL\<close>
  pending :: "nat set"    \<comment> \<open>of those, the ones whose Apply has not returned\<close>
  aborted :: "nat set"    \<comment> \<open>writes known to have committed nothing\<close>
  noted :: "nat set"      \<comment> \<open>writes whose bump failed\<close>
  settledW :: "nat set"   \<comment> \<open>of those, the ones settled\<close>
  selfD :: nat
  selfS :: nat            \<comment> \<open>self-settling failures noted and settled\<close>
  held :: "nat set"       \<comment> \<open>writes some adopted load holds\<close>

definition applied :: "('v, 'k) rep \<Rightarrow> nat set" where
  "applied s = committed s - pending s"

inductive rep_step ::
    "('v, 'k, 'r, 's) apply_env \<Rightarrow> ('v \<Rightarrow> nat set) \<Rightarrow> ('v, 'k) rep \<Rightarrow> ('v, 'k) rep \<Rightarrow> bool"
  for env holds where
  bump_ok: "w \<notin> committed s \<union> aborted s \<Longrightarrow>
    rep_step env holds s (s\<lparr>eng := (eng s)\<lparr>inflightBumps := inflightBumps (eng s) + 1\<rparr>,
      scopes := (scopes s)(w := SetWatermark (scopes s w) c)\<rparr>)"
| note_failure: "w \<notin> committed s \<union> aborted s \<Longrightarrow>
    NoteWatermarkBumpFailure (eng s) (Some (scopes s w)) = (e', Some sc', opened) \<Longrightarrow>
    rep_step env holds s (s\<lparr>eng := e', scopes := (scopes s)(w := sc'),
      noted := (if opened then insert w (noted s) else noted s)\<rparr>)"
| self_dirty: "rep_step env holds s (s\<lparr>eng := noteSelf_dirty (eng s), selfD := selfD s + 1\<rparr>)"
| self_settle: "selfS s < selfD s \<Longrightarrow>
    rep_step env holds s (s\<lparr>eng := noteSelf_settle (eng s), selfS := selfS s + 1\<rparr>)"
| commit: "w \<notin> committed s \<union> aborted s \<Longrightarrow>
    rep_step env holds s (s\<lparr>committed := insert w (committed s), pending := insert w (pending s)\<rparr>)"
| abandon: "w \<notin> committed s \<union> aborted s \<Longrightarrow>
    ResolveAbandonedWrite (eng s) (Some (scopes s w)) = (e', Some sc') \<Longrightarrow>
    rep_step env holds s (s\<lparr>eng := e', scopes := (scopes s)(w := sc'), aborted := insert w (aborted s),
      settledW := settledW s \<union> ({w} \<inter> noted s)\<rparr>)"
| apply_begin: "rl s = Free \<Longrightarrow> w \<in> pending s \<Longrightarrow>
    Apply_begin (eng s) (Some (scopes s w)) = (e', Some sc', settledFailure) \<Longrightarrow>
    rep_step env holds s (s\<lparr>eng := e', scopes := (scopes s)(w := sc'), rl := Applying w settledFailure,
      settledW := settledW s \<union> ({w} \<inter> noted s)\<rparr>)"
| apply_finish: "rl s = Applying w b \<Longrightarrow>
    rep_step env holds s (s\<lparr>eng := Apply_finish env (eng s) (Some (scopes s w)) b, rl := Free,
      pending := pending s - {w}\<rparr>)"
| apply_panic: "rl s = Applying w b \<Longrightarrow>
    so = snap (eng s) \<or> (\<exists>v v'. snap (eng s) = Some v \<and> so = Some v' \<and> holds v \<subseteq> holds v') \<Longrightarrow>
    rep_step env holds s (s\<lparr>eng := fallBackOnApplyPanic ((eng s)\<lparr>applyEpoch := applyEpoch (eng s) + k,
        bootGap := gap, snap := so, trustRequests := t\<rparr>), rl := Free, pending := pending s - {w}\<rparr>)"
| load_epoch: "rep_step env holds s (s\<lparr>loads := insert (LEpoch (applyEpoch (eng s))) (loads s)\<rparr>)"
| load_gen: "LEpoch e0 \<in> loads s \<Longrightarrow>
    rep_step env holds s (s\<lparr>loads :=
      insert (LGen e0 (settledDirtyGen (eng s)) (settledW s) (selfS s)) (loads s)\<rparr>)"
| load_read: "LGen e0 g S ss \<in> loads s \<Longrightarrow> committed s \<subseteq> holds v \<Longrightarrow>
    rep_step env holds s (s\<lparr>loads := insert (LView e0 g S ss v) (loads s)\<rparr>)"
| adopt_begin: "rl s = Free \<Longrightarrow> LView e0 g S ss v \<in> loads s \<Longrightarrow> applyEpoch (eng s) = e0 \<Longrightarrow>
    rep_step env holds s (s\<lparr>eng := adopt_store (eng s) v g, rl := Adopting, held := held s \<union> holds v\<rparr>)"
| adopt_end: "rl s = Adopting \<Longrightarrow> rep_step env holds s (s\<lparr>eng := adopt_flip (eng s), rl := Free\<rparr>)"
| finish_rebuild: "rep_step env holds s (s\<lparr>eng := finishFallbackRebuild (eng s)\<rparr>)"
| query_begin: "rep_step env holds s (s\<lparr>qr := QStart (applied s)\<rparr>)"
| query_state: "qr s = QStart Q \<Longrightarrow> rep_step env holds s (s\<lparr>qr := QState Q (state (eng s))\<rparr>)"
| query_view: "qr s = QState Q st \<Longrightarrow> servableView st (snap (eng s)) = (vo, served) \<Longrightarrow>
    rep_step env holds s (s\<lparr>qr := QDone Q vo served\<rparr>)"
| gens_resolved: "rep_step env holds s (s\<lparr>gr := GResolved (resolvedDirtyGen (eng s))\<rparr>)"
| gens_dirty: "gr s = GResolved r \<Longrightarrow>
    rep_step env holds s (s\<lparr>gr := GDone r (dirtyGen (eng s)) (noted s)\<rparr>)"

definition rep_init :: "nat \<Rightarrow> (nat \<Rightarrow> 'k ChangeSet) \<Rightarrow> ('v, 'k) rep" where
  "rep_init lim csOf = \<lparr>eng = \<lparr>Enabled = True, MemoryLimit = lim, state = stateServing, snap = None, applyEpoch = 0,
       dirtyGen = 0, settledDirtyGen = 0, resolvedDirtyGen = 0, appliedWatermark = zeroLedger,
       inflightBumps = 0, bootGap = activate zeroBootGap, fallbackRebuilding = False, rebuildLoopStarts = 0,
       trustRequests = 0, snapshotFile = True\<rparr>,
     scopes = (\<lambda>w. NewWriteScope\<lparr>changes := csOf w\<rparr>), rl = Free, loads = {}, qr = QIdle, gr = GIdle,
     committed = {}, pending = {}, aborted = {}, noted = {}, settledW = {}, selfD = 0, selfS = 0, held = {}\<rparr>"

inductive rep_reach ::
    "('v, 'k, 'r, 's) apply_env \<Rightarrow> ('v \<Rightarrow> nat set) \<Rightarrow> (nat \<Rightarrow> 'k ChangeSet) \<Rightarrow> ('v, 'k) rep \<Rightarrow> bool"
  for env holds csOf where
  start: "rep_reach env holds csOf (rep_init lim csOf)"
| step: "rep_reach env holds csOf s \<Longrightarrow> rep_step env holds s t \<Longrightarrow> rep_reach env holds csOf t"

text \<open>
  What \<open>Apply\<close> relies on: a segment built from the read-back of a write makes the View hold that
  write and keeps what the View held; a write whose change log is empty changed nothing; the
  maintenance after a publish keeps the published contents and leaves the protocol's fields alone.
\<close>

definition core :: "('v, 'k) engine \<Rightarrow> bool \<times> serving_state \<times> nat \<times> nat \<times> nat \<times> nat" where
  "core e = (Enabled e, state e, applyEpoch e, dirtyGen e, settledDirtyGen e, resolvedDirtyGen e)"

definition delta_contract ::
    "('v, 'k, 'r, 's) apply_env \<Rightarrow> ('v \<Rightarrow> nat set) \<Rightarrow> (nat \<Rightarrow> 'k ChangeSet) \<Rightarrow> bool" where
  "delta_contract env holds csOf \<longleftrightarrow>
     (\<forall>cur w rb cs' seg. env_readBack env cur (csOf w) = Inr (rb, cs') \<longrightarrow> \<not> fst (HasFallback cs') \<longrightarrow>
        env_buildApplySegment env cur rb = Inr seg \<longrightarrow>
        insert w (holds cur) \<subseteq> holds (env_WithSegment env cur seg)) \<and>
     (\<forall>w v. ChangeSet_Empty (csOf w) \<longrightarrow> w \<in> holds v) \<and>
     (\<forall>e v. snap e = Some v \<longrightarrow> core (env_maintainAfterPublish env e v) = core e \<and>
        (\<exists>v'. snap (env_maintainAfterPublish env e v) = Some v' \<and> holds v \<subseteq> holds v'))"

section \<open>Effects of the operations\<close>

lemma enterFallback_fields [simp]:
  "Enabled (enterFallback e) = Enabled e" "state (enterFallback e) = stateFallback"
  "snap (enterFallback e) = snap e" "applyEpoch (enterFallback e) = applyEpoch e"
  "dirtyGen (enterFallback e) = dirtyGen e" "settledDirtyGen (enterFallback e) = settledDirtyGen e"
  "resolvedDirtyGen (enterFallback e) = resolvedDirtyGen e"
  by (cases "state e"; auto simp: engine_defs)+

lemma startFallbackRebuild_fields [simp]:
  "Enabled (startFallbackRebuild e) = Enabled e" "state (startFallbackRebuild e) = state e"
  "snap (startFallbackRebuild e) = snap e" "applyEpoch (startFallbackRebuild e) = applyEpoch e"
  "dirtyGen (startFallbackRebuild e) = dirtyGen e"
  "settledDirtyGen (startFallbackRebuild e) = settledDirtyGen e"
  "resolvedDirtyGen (startFallbackRebuild e) = resolvedDirtyGen e"
  by (auto simp: engine_defs)

lemma requestTrustRebuild_fields [simp]:
  "Enabled (requestTrustRebuild e) = Enabled e" "state (requestTrustRebuild e) = state e"
  "snap (requestTrustRebuild e) = snap e" "applyEpoch (requestTrustRebuild e) = applyEpoch e"
  "dirtyGen (requestTrustRebuild e) = dirtyGen e"
  "settledDirtyGen (requestTrustRebuild e) = settledDirtyGen e"
  "resolvedDirtyGen (requestTrustRebuild e) = resolvedDirtyGen e"
  by (auto simp: engine_defs)

lemma finishFallbackRebuild_eff [simp]:
  "core (finishFallbackRebuild e) = core e" "snap (finishFallbackRebuild e) = snap e"
  by (simp_all add: finishFallbackRebuild_def core_def Let_def split: relaunchKind.split)

lemma finishFallbackRebuild_fields [simp]:
  "Enabled (finishFallbackRebuild e) = Enabled e" "state (finishFallbackRebuild e) = state e"
  "applyEpoch (finishFallbackRebuild e) = applyEpoch e" "dirtyGen (finishFallbackRebuild e) = dirtyGen e"
  "settledDirtyGen (finishFallbackRebuild e) = settledDirtyGen e"
  "resolvedDirtyGen (finishFallbackRebuild e) = resolvedDirtyGen e"
  using finishFallbackRebuild_eff(1) [of e] by (simp_all add: core_def)

lemma adopt_fields [simp]:
  "core (adopt_store e v g) = (Enabled e, state e, applyEpoch e, dirtyGen e, settledDirtyGen e,
     max (resolvedDirtyGen e) g)"
  "snap (adopt_store e v g) = Some v"
  "core (adopt_flip e) = (Enabled e, stateServing, applyEpoch e, dirtyGen e, settledDirtyGen e, resolvedDirtyGen e)"
  "snap (adopt_flip e) = snap e"
  by (cases "state e"; auto simp: adopt_store_def adopt_flip_def core_def maxWatermark_def)+

lemma Apply_begin_eff:
  assumes "Apply_begin e (Some s) = (e', Some s', b)"
  shows "core e' = (Enabled e, state e, applyEpoch e, dirtyGen e,
      settledDirtyGen e + (if watermarkBumpFailed s then 1 else 0), resolvedDirtyGen e) \<and>
    snap e' = snap e \<and> changes s' = changes s \<and> \<not> watermarkBumpFailed s'"
  using assms
  by (auto simp: Apply_begin_def engine_defs core_def Let_def split: if_splits prod.splits)

lemma ResolveAbandonedWrite_eff:
  assumes "ResolveAbandonedWrite e (Some s) = (e', Some s')"
  shows "core e' = (Enabled e, state e, applyEpoch e, dirtyGen e,
      settledDirtyGen e + (if watermarkBumpFailed s then 1 else 0), resolvedDirtyGen e) \<and>
    snap e' = snap e \<and> changes s' = changes s \<and> \<not> watermarkBumpFailed s'"
  using assms
  by (auto simp: ResolveAbandonedWrite_def engine_defs core_def Let_def split: if_splits prod.splits)

lemma NoteWatermarkBumpFailure_eff:
  assumes "NoteWatermarkBumpFailure e (Some s) = (e', Some s', b)"
  shows "core e' = (Enabled e, state e, applyEpoch e, dirtyGen e + (if b then 1 else 0),
      settledDirtyGen e, resolvedDirtyGen e) \<and>
    snap e' = snap e \<and> changes s' = changes s \<and> watermarkBumpFailed s' \<and> b = (\<not> watermarkBumpFailed s)"
  using assms
  by (auto simp: NoteWatermarkBumpFailure_def markWatermarkBumpFailed_def core_def Let_def
      split: if_splits prod.splits)

text \<open>
  The heart of write-through: on an enabled engine, \<open>Apply\<close> either leaves the serving state, or
  the View it leaves current holds the write and everything the View before it held.
\<close>

lemma Apply_publish_eff:
  assumes dc: "delta_contract env holds csOf" and sn: "snap e = Some v"
  shows "\<exists>st v'. core (Apply_publish env e v (csOf w)) =
      (Enabled e, st, applyEpoch e, dirtyGen e, settledDirtyGen e, resolvedDirtyGen e) \<and>
    snap (Apply_publish env e v (csOf w)) = Some v' \<and> holds v \<subseteq> holds v' \<and>
    (st = stateServing \<longrightarrow> w \<in> holds v')"
proof (cases "env_readBack env v (csOf w)")
  case (Inr p)
  obtain rb cs' where p: "p = (rb, cs')" by fastforce
  show ?thesis
  proof (cases "fst (HasFallback cs') \<or> (\<exists>err. env_buildApplySegment env v rb = Inl err)")
    case True
    then show ?thesis using Inr p sn by (auto simp: Apply_publish_def core_def)
  next
    case False
    then obtain seg where seg: "env_buildApplySegment env v rb = Inr seg"
      by (metis sum.exhaust_sel)
    let ?nv = "env_WithSegment env v seg" and ?e = "e\<lparr>snap := Some (env_WithSegment env v seg)\<rparr>"
    have h: "insert w (holds v) \<subseteq> holds ?nv"
      using dc Inr p False seg unfolding delta_contract_def by blast
    obtain v' where v': "snap (env_maintainAfterPublish env ?e ?nv) = Some v'" "holds ?nv \<subseteq> holds v'"
      "core (env_maintainAfterPublish env ?e ?nv) = core ?e"
      using dc [unfolded delta_contract_def, THEN conjunct2, THEN conjunct2, rule_format, of ?e ?nv] by auto
    show ?thesis
    proof (cases "MemoryLimit e > 0 \<and> env_ApproxBytes env ?nv > MemoryLimit e")
      case True
      then show ?thesis using Inr p False seg sn by (auto simp: Apply_publish_def core_def)
    next
      case fits: False
      have "Apply_publish env e v (csOf w) = env_maintainAfterPublish env ?e ?nv"
        using Inr p False seg fits by (auto simp: Apply_publish_def Let_def)
      then show ?thesis using v' h by (auto simp: core_def)
    qed
  qed
qed (use sn in \<open>auto simp: Apply_publish_def core_def\<close>)

lemma Apply_finish_eff:
  assumes dc: "delta_contract env holds csOf" and en: "Enabled e" and cs: "changes s = csOf w"
  shows "\<exists>st. core (Apply_finish env e (Some s) b) =
      (True, st, applyEpoch e + 1, dirtyGen e, settledDirtyGen e, resolvedDirtyGen e) \<and>
    (st = stateServing \<longrightarrow> state e = stateServing) \<and>
    (snap (Apply_finish env e (Some s) b) = None \<longleftrightarrow> snap e = None) \<and>
    (\<forall>v v'. snap e = Some v \<longrightarrow> snap (Apply_finish env e (Some s) b) = Some v' \<longrightarrow>
       holds v \<subseteq> holds v' \<and> (st = stateServing \<longrightarrow> w \<in> holds v'))"
proof -
  define e1 where "e1 = e\<lparr>applyEpoch := applyEpoch e + 1\<rparr>"
  define e2 where "e2 = e1\<lparr>bootGap := observe (bootGap e1) (Some s)\<rparr>"
  define e3 where "e3 = (if b then requestTrustRebuild e2 else e2)"
  have e3: "Enabled e3" "state e3 = state e" "applyEpoch e3 = applyEpoch e + 1" "dirtyGen e3 = dirtyGen e"
    "settledDirtyGen e3 = settledDirtyGen e" "resolvedDirtyGen e3 = resolvedDirtyGen e" "snap e3 = snap e"
    using en by (auto simp: e3_def e2_def e1_def)
  have eq: "Apply_finish env e (Some s) b =
      (if fst (HasFallback (csOf w)) then enterFallback e3
       else if ChangeSet_Empty (csOf w) then e3
       else if state e3 \<noteq> stateServing then startFallbackRebuild e3
       else case snap e3 of None \<Rightarrow> e3 | Some current \<Rightarrow> Apply_publish env e3 current (csOf w))"
    unfolding Apply_finish_def Let_def e1_def [symmetric] e2_def [symmetric] e3_def [symmetric]
    using e3(1) cs by (simp split: option.split)
  have empty: "ChangeSet_Empty (csOf w) \<Longrightarrow> w \<in> holds v" for v
    using dc by (simp add: delta_contract_def)
  consider (fb) "fst (HasFallback (csOf w))" | (emp) "\<not> fst (HasFallback (csOf w))" "ChangeSet_Empty (csOf w)"
    | (down) "\<not> fst (HasFallback (csOf w))" "\<not> ChangeSet_Empty (csOf w)" "state e3 \<noteq> stateServing"
    | (none) "\<not> fst (HasFallback (csOf w))" "\<not> ChangeSet_Empty (csOf w)" "state e3 = stateServing" "snap e = None"
    | (pub) v where "\<not> fst (HasFallback (csOf w))" "\<not> ChangeSet_Empty (csOf w)" "state e3 = stateServing" "snap e = Some v"
    by (cases "snap e") auto
  then show ?thesis
  proof cases
    case pub
    have "Apply_finish env e (Some s) b = Apply_publish env e3 v (csOf w)" using pub e3 eq by simp
    then show ?thesis using Apply_publish_eff [OF dc, of e3 v w] pub e3 by fastforce
  next
    case fb
    then show ?thesis using eq e3 by (simp add: core_def)
  next
    case emp
    then show ?thesis using eq e3 empty by (auto simp: core_def)
  next
    case down
    then show ?thesis using eq e3 by (auto simp: core_def)
  next
    case none
    then show ?thesis using eq e3 by (auto simp: core_def)
  qed
qed

section \<open>Invariants\<close>

definition struct_inv :: "(nat \<Rightarrow> 'k ChangeSet) \<Rightarrow> ('v, 'k) rep \<Rightarrow> bool" where
  "struct_inv csOf s \<longleftrightarrow> pending s \<subseteq> committed s \<and> committed s \<inter> aborted s = {} \<and>
     (\<forall>w b. rl s = Applying w b \<longrightarrow> w \<in> pending s) \<and> Enabled (eng s) \<and>
     (\<forall>w. changes (scopes s w) = csOf w)"

definition gen_inv :: "('v, 'k) rep \<Rightarrow> bool" where
  "gen_inv s \<longleftrightarrow> finite (noted s) \<and> settledW s \<subseteq> noted s \<inter> (committed s \<union> aborted s) \<and>
     selfS s \<le> selfD s \<and> dirtyGen (eng s) = card (noted s) + selfD s \<and>
     settledDirtyGen (eng s) = card (settledW s) + selfS s \<and>
     (\<forall>w. watermarkBumpFailed (scopes s w) \<longleftrightarrow> w \<in> noted s - settledW s)"

text \<open>The generation \<open>r\<close> counts settled failures only, and an adopted load holds their writes.\<close>

definition resolved_at :: "('v, 'k) rep \<Rightarrow> nat \<Rightarrow> bool" where
  "resolved_at s r \<longleftrightarrow> (\<exists>S ss. r = card S + ss \<and> S \<subseteq> settledW s \<and> ss \<le> selfS s \<and> S \<inter> committed s \<subseteq> held s)"

fun load_ok :: "('v \<Rightarrow> nat set) \<Rightarrow> ('v, 'k) rep \<Rightarrow> 'v load \<Rightarrow> bool" where
  "load_ok holds s (LEpoch e0) = (e0 \<le> applyEpoch (eng s))"
| "load_ok holds s (LGen e0 g S ss) =
     (e0 \<le> applyEpoch (eng s) \<and> g = card S + ss \<and> S \<subseteq> settledW s \<and> ss \<le> selfS s)"
| "load_ok holds s (LView e0 g S ss v) =
     (e0 \<le> applyEpoch (eng s) \<and> g = card S + ss \<and> S \<subseteq> settledW s \<and> ss \<le> selfS s \<and>
      S \<inter> committed s \<subseteq> holds v \<and> (e0 = applyEpoch (eng s) \<longrightarrow> applied s \<subseteq> holds v))"

definition view_inv :: "('v \<Rightarrow> nat set) \<Rightarrow> ('v, 'k) rep \<Rightarrow> bool" where
  "view_inv holds s \<longleftrightarrow> (\<forall>v. (state (eng s) = stateServing \<or> rl s = Adopting) \<and> snap (eng s) = Some v \<longrightarrow>
     applied s \<subseteq> holds v)"

fun query_ok :: "('v \<Rightarrow> nat set) \<Rightarrow> ('v, 'k) rep \<Rightarrow> 'v query \<Rightarrow> bool" where
  "query_ok holds s QIdle = True"
| "query_ok holds s (QStart Q) = (Q \<subseteq> applied s)"
| "query_ok holds s (QState Q st) =
     (st = stateServing \<longrightarrow> Q \<subseteq> applied s \<and> (\<forall>v. snap (eng s) = Some v \<longrightarrow> Q \<subseteq> holds v))"
| "query_ok holds s (QDone Q vo served) = (served \<longrightarrow> (\<exists>v. vo = Some v \<and> Q \<subseteq> holds v))"

fun gens_ok :: "('v, 'k) rep \<Rightarrow> gens \<Rightarrow> bool" where
  "gens_ok s GIdle = True"
| "gens_ok s (GResolved r) = resolved_at s r"
| "gens_ok s (GDone r d N) = (d = r \<longrightarrow> N \<subseteq> settledW s \<and> N \<inter> committed s \<subseteq> held s)"

lemma coreE:
  assumes "core e = (a, b, c, d, f, g)"
  shows "Enabled e = a" "state e = b" "applyEpoch e = c" "dirtyGen e = d" "settledDirtyGen e = f"
    "resolvedDirtyGen e = g"
  using assms by (simp_all add: core_def)

lemma panic_fields [simp]:
  "Enabled (fallBackOnApplyPanic e) = Enabled e" "state (fallBackOnApplyPanic e) = stateFallback"
  "snap (fallBackOnApplyPanic e) = snap e" "applyEpoch (fallBackOnApplyPanic e) = applyEpoch e + 1"
  "dirtyGen (fallBackOnApplyPanic e) = dirtyGen e"
  "settledDirtyGen (fallBackOnApplyPanic e) = settledDirtyGen e"
  "resolvedDirtyGen (fallBackOnApplyPanic e) = resolvedDirtyGen e"
  by (simp_all add: fallBackOnApplyPanic_def)

lemmas adopt_field_simps [simp] = coreE [OF adopt_fields(1)] coreE [OF adopt_fields(3)]

lemma self_fields [simp]:
  "core (noteSelf_dirty e) = (Enabled e, state e, applyEpoch e, dirtyGen e + 1, settledDirtyGen e, resolvedDirtyGen e)"
  "snap (noteSelf_dirty e) = snap e"
  "core (noteSelf_settle e) = (Enabled e, state e, applyEpoch e, dirtyGen e, settledDirtyGen e + 1, resolvedDirtyGen e)"
  "snap (noteSelf_settle e) = snap e"
  by (simp_all add: noteSelf_dirty_def noteSelf_settle_def core_def)

lemmas self_field_simps [simp] = coreE [OF self_fields(1)] coreE [OF self_fields(3)]

lemma SetWatermark_fields [simp]:
  "changes (SetWatermark s c) = changes s" "watermarkBumpFailed (SetWatermark s c) = watermarkBumpFailed s"
  by (simp_all add: SetWatermark_def)

lemmas op_effects = NoteWatermarkBumpFailure_eff ResolveAbandonedWrite_eff Apply_begin_eff

lemma struct_step:
  assumes "rep_step env holds s t" and "delta_contract env holds csOf" and "struct_inv csOf s"
  shows "struct_inv csOf t"
  using assms
proof (induction rule: rep_step.induct)
  case (apply_finish s w b)
  then show ?case using Apply_finish_eff [of env holds csOf "eng s" "scopes s w" w b]
    by (auto simp: struct_inv_def dest: coreE)
qed (auto simp: struct_inv_def dest!: op_effects dest: coreE)

lemma settle_card:
  assumes "gen_inv s"
  shows "card (settledW s \<union> ({w} \<inter> noted s)) =
    card (settledW s) + (if watermarkBumpFailed (scopes s w) then 1 else 0)"
proof -
  have fin: "finite (settledW s)" using assms by (auto simp: gen_inv_def intro: finite_subset)
  show ?thesis
  proof (cases "w \<in> noted s - settledW s")
    case True
    then have "settledW s \<union> ({w} \<inter> noted s) = insert w (settledW s)" by auto
    then show ?thesis using True fin assms by (simp add: gen_inv_def)
  next
    case False
    then have "settledW s \<union> ({w} \<inter> noted s) = settledW s" by auto
    then show ?thesis using False assms by (simp add: gen_inv_def)
  qed
qed

lemma gen_step:
  assumes "rep_step env holds s t" and "delta_contract env holds csOf" and "struct_inv csOf s" and "gen_inv s"
  shows "gen_inv t"
  using assms
proof (induction rule: rep_step.induct)
  case (note_failure w s e' sc' opened)
  have "w \<notin> settledW s" "opened = (w \<notin> noted s)"
    using note_failure NoteWatermarkBumpFailure_eff [OF note_failure(2)] by (auto simp: gen_inv_def)
  then show ?case using note_failure NoteWatermarkBumpFailure_eff [OF note_failure(2)]
    by (auto simp: gen_inv_def dest: coreE)
next
  case (abandon w s e' sc')
  note eff = ResolveAbandonedWrite_eff [OF abandon(2)] and card = settle_card [OF abandon(5), of w]
  then show ?case using abandon by (auto simp: gen_inv_def dest: coreE)
next
  case (apply_begin s w e' sc' b)
  note eff = Apply_begin_eff [OF apply_begin(3)] and card = settle_card [OF apply_begin(6), of w]
  then show ?case using apply_begin by (auto simp: gen_inv_def struct_inv_def dest: coreE)
next
  case (apply_finish s w b)
  then show ?case using Apply_finish_eff [of env holds csOf "eng s" "scopes s w" w b]
    by (auto simp: gen_inv_def struct_inv_def dest: coreE)
qed (auto simp: gen_inv_def)

lemma resolved_mono:
  assumes "resolved_at s r" and "settledW s \<subseteq> settledW t" and "selfS s \<le> selfS t" and "held s \<subseteq> held t"
    and "settledW s \<inter> committed t \<subseteq> committed s"
  shows "resolved_at t r"
proof -
  obtain S ss where S: "r = card S + ss" "S \<subseteq> settledW s" "ss \<le> selfS s" "S \<inter> committed s \<subseteq> held s"
    using assms(1) by (auto simp: resolved_at_def)
  have "S \<subseteq> settledW t" "S \<inter> committed t \<subseteq> held t" using S assms(2-) by blast+
  moreover have "ss \<le> selfS t" using S(3) assms(3) by (rule order_trans)
  ultimately show ?thesis using S(1) by (auto simp: resolved_at_def)
qed

text \<open>What only grows along a step, and what a settled write can no longer do.\<close>

lemma step_mono:
  assumes "rep_step env holds s t" and "delta_contract env holds csOf" and "struct_inv csOf s" and "gen_inv s"
  shows "settledW s \<subseteq> settledW t \<and> selfS s \<le> selfS t \<and> held s \<subseteq> held t \<and>
    settledW s \<inter> committed t \<subseteq> committed s \<and> applied s \<subseteq> applied t \<and> noted s \<subseteq> noted t \<and>
    applyEpoch (eng s) \<le> applyEpoch (eng t) \<and> (applyEpoch (eng s) = applyEpoch (eng t) \<longrightarrow> applied t = applied s)"
  using assms
proof (induction rule: rep_step.induct)
  case (apply_finish s w b)
  then show ?case using Apply_finish_eff [of env holds csOf "eng s" "scopes s w" w b]
    by (auto simp: applied_def struct_inv_def dest: coreE)
next
  case (commit w s)
  then show ?case by (auto simp: applied_def struct_inv_def gen_inv_def)
qed (auto simp: applied_def struct_inv_def dest!: op_effects dest: coreE)

lemma load_ok_mono:
  assumes "load_ok holds s l" and "settledW s \<subseteq> settledW t \<and> selfS s \<le> selfS t \<and> held s \<subseteq> held t \<and>
    settledW s \<inter> committed t \<subseteq> committed s \<and> applied s \<subseteq> applied t \<and> noted s \<subseteq> noted t \<and>
    applyEpoch (eng s) \<le> applyEpoch (eng t) \<and> (applyEpoch (eng s) = applyEpoch (eng t) \<longrightarrow> applied t = applied s)"
  shows "load_ok holds t l"
proof (cases l)
  case (LView e0 g S ss v)
  have "e0 = applyEpoch (eng t) \<longrightarrow> applied t \<subseteq> holds v"
  proof
    assume "e0 = applyEpoch (eng t)"
    then have "applyEpoch (eng s) = applyEpoch (eng t)" "e0 = applyEpoch (eng s)" using assms LView by auto
    then show "applied t \<subseteq> holds v" using assms LView by simp
  qed
  then show ?thesis using assms LView by auto
qed (use assms in auto)

lemma load_step:
  assumes st: "rep_step env holds s t" and "delta_contract env holds csOf" and "struct_inv csOf s"
    and gi: "gen_inv s" and lo: "\<forall>l \<in> loads s. load_ok holds s l"
  shows "\<forall>l \<in> loads t. load_ok holds t l"
proof -
  have old: "\<forall>l \<in> loads s. load_ok holds t l"
    using load_ok_mono [OF _ step_mono [OF assms(1-4)]] lo by blast
  have "loads t = loads s \<or> (\<exists>l. loads t = insert l (loads s) \<and> load_ok holds t l)"
    using st
  proof cases
    case (load_gen e0)
    then show ?thesis using lo gi by (fastforce simp: gen_inv_def)
  next
    case (load_read e0 g S ss v)
    then have "load_ok holds s (LGen e0 g S ss)" using lo by blast
    then show ?thesis using load_read by (fastforce simp: applied_def)
  qed auto
  then show ?thesis using old by auto
qed

lemma view_step:
  assumes "rep_step env holds s t" and "delta_contract env holds csOf" and "struct_inv csOf s"
    and "\<forall>l \<in> loads s. load_ok holds s l" and "view_inv holds s"
  shows "view_inv holds t"
  using assms
proof (induction rule: rep_step.induct)
  case (apply_finish s w b)
  let ?e = "Apply_finish env (eng s) (Some (scopes s w)) b"
  have en: "Enabled (eng s)" and cs: "changes (scopes s w) = csOf w"
    using apply_finish.prems(2) by (auto simp: struct_inv_def)
  obtain st where st: "core ?e = (True, st, applyEpoch (eng s) + 1, dirtyGen (eng s),
      settledDirtyGen (eng s), resolvedDirtyGen (eng s))" "st = stateServing \<longrightarrow> state (eng s) = stateServing"
    "snap ?e = None \<longleftrightarrow> snap (eng s) = None"
    "\<forall>v v'. snap (eng s) = Some v \<longrightarrow> snap ?e = Some v' \<longrightarrow>
       holds v \<subseteq> holds v' \<and> (st = stateServing \<longrightarrow> w \<in> holds v')"
    using Apply_finish_eff [OF apply_finish.prems(1) en cs, of b] by (elim exE conjE)
  have w: "applied (s\<lparr>eng := ?e, rl := Free, pending := pending s - {w}\<rparr>) \<subseteq> insert w (applied s)"
    by (auto simp: applied_def)
  have "insert w (applied s) \<subseteq> holds v'" if sv: "st = stateServing" "snap ?e = Some v'" for v'
  proof -
    obtain v where v: "snap (eng s) = Some v" using st(3) sv by (cases "snap (eng s)") auto
    then show ?thesis using st(2,4) sv apply_finish.prems(4) unfolding view_inv_def by blast
  qed
  with w coreE(2) [OF st(1)] show ?case unfolding view_inv_def by fastforce
next
  case (adopt_begin s e0 g S ss v)
  then have "load_ok holds s (LView e0 g S ss v)" by blast
  with adopt_begin show ?case by (auto simp: view_inv_def applied_def)
next
  case (bump_ok w s c)
  then show ?case by (auto simp: view_inv_def applied_def)
next
  case (note_failure w s e' sc' opened)
  then show ?case using NoteWatermarkBumpFailure_eff [OF note_failure(2)]
    by (auto simp: view_inv_def applied_def core_def)
next
  case (abandon w s e' sc')
  then show ?case using ResolveAbandonedWrite_eff [OF abandon(2)]
    by (auto simp: view_inv_def applied_def core_def)
next
  case (apply_begin s w e' sc' b)
  then show ?case using Apply_begin_eff [OF apply_begin(3)]
    by (auto simp: view_inv_def applied_def core_def)
next
  case (commit w s)
  then show ?case by (auto simp: view_inv_def applied_def)
qed (auto simp: view_inv_def applied_def)

text \<open>A View that is replaced is replaced by one that holds at least what its reader may rely on.\<close>

lemma snap_step:
  assumes "rep_step env holds s t" and "delta_contract env holds csOf" and "struct_inv csOf s"
    and "\<forall>l \<in> loads s. load_ok holds s l" and "snap (eng t) = Some v'"
  shows "(\<exists>v. snap (eng s) = Some v \<and> holds v \<subseteq> holds v') \<or> applied s \<subseteq> holds v'"
  using assms
proof (induction rule: rep_step.induct)
  case (apply_finish s w b)
  then show ?case using Apply_finish_eff [of env holds csOf "eng s" "scopes s w" w b]
    by (cases "snap (eng s)") (auto simp: struct_inv_def)
next
  case (adopt_begin s e0 g S ss v)
  then have "load_ok holds s (LView e0 g S ss v)" by blast
  with adopt_begin show ?case by auto
next
  case (note_failure w s e' sc' opened)
  then show ?case using NoteWatermarkBumpFailure_eff [OF note_failure(2)] by auto
next
  case (abandon w s e' sc')
  then show ?case using ResolveAbandonedWrite_eff [OF abandon(2)] by auto
next
  case (apply_begin s w e' sc' b)
  then show ?case using Apply_begin_eff [OF apply_begin(3)] by auto
next
  case (apply_panic s w b so k gap t)
  then show ?case by (cases "snap (eng s)") auto
qed auto

lemma query_step:
  assumes st: "rep_step env holds s t" and "delta_contract env holds csOf" and "struct_inv csOf s"
    and "gen_inv s" and "\<forall>l \<in> loads s. load_ok holds s l" and vi: "view_inv holds s"
    and qo: "query_ok holds s (qr s)"
  shows "query_ok holds t (qr t)"
proof -
  note grow = step_mono [OF assms(1-4)] and snap = snap_step [OF assms(1-3,5)]
  have keep: "query_ok holds t (qr s)"
  proof (cases "qr s")
    case (QState Q sv)
    have "Q \<subseteq> holds v'" if "sv = stateServing" "snap (eng t) = Some v'" for v'
      using snap [OF that(2)] qo QState that(1) by auto
    then show ?thesis using qo QState grow by auto
  qed (use qo grow in auto)
  consider "qr t = qr s" | "qr t = QStart (applied s)" "applied t = applied s"
    | Q where "qr s = QStart Q" "qr t = QState Q (state (eng s))" "applied t = applied s" "eng t = eng s"
    | Q sv vo served where "qr s = QState Q sv" "servableView sv (snap (eng s)) = (vo, served)" "qr t = QDone Q vo served"
    using st by cases (auto simp: applied_def)
  then show ?thesis
  proof cases
    case 3
    then show ?thesis using qo vi by (auto simp: view_inv_def)
  next
    case 4
    then show ?thesis using qo by (auto simp: servableView_def)
  qed (use keep in auto)
qed

lemma gens_step:
  assumes st: "rep_step env holds s t" and "delta_contract env holds csOf" and "struct_inv csOf s"
    and gi: "gen_inv s" and ra: "resolved_at s (resolvedDirtyGen (eng s))" and go: "gens_ok s (gr s)"
  shows "gens_ok t (gr t)"
proof -
  note grow = step_mono [OF assms(1-4)]
  have keep: "gens_ok t (gr s)"
  proof (cases "gr s")
    case (GResolved r)
    then show ?thesis using go grow resolved_mono [of s r t] by auto
  next
    case (GDone r d N)
    then show ?thesis using go grow by simp blast
  qed simp
  consider "gr t = gr s"
    | "gr t = GResolved (resolvedDirtyGen (eng s))" "resolved_at t = resolved_at s"
    | r where "gr s = GResolved r" "gr t = GDone r (dirtyGen (eng s)) (noted s)" "settledW t = settledW s"
      "committed t = committed s" "held t = held s"
    using st by cases (auto simp: resolved_at_def fun_eq_iff)
  then show ?thesis
  proof cases
    case 3
    obtain S ss where S: "r = card S + ss" "S \<subseteq> settledW s" "ss \<le> selfS s" "S \<inter> committed s \<subseteq> held s"
      using go 3(1) by (auto simp: resolved_at_def)
    have fin: "finite (noted s)" and sub: "S \<subseteq> noted s" using gi S(2) by (auto simp: gen_inv_def)
    have "S = noted s" if "dirtyGen (eng s) = r"
    proof (rule card_subset_eq [OF fin sub])
      have "card S \<le> card (noted s)" using fin sub by (rule card_mono)
      then show "card S = card (noted s)" using that S(1,3) gi by (simp add: gen_inv_def)
    qed
    then show ?thesis using 3 S by auto
  qed (use keep ra in auto)
qed

lemma resolved_step:
  assumes st: "rep_step env holds s t" and "delta_contract env holds csOf" and "struct_inv csOf s"
    and "gen_inv s" and lo: "\<forall>l \<in> loads s. load_ok holds s l" and ra: "resolved_at s (resolvedDirtyGen (eng s))"
  shows "resolved_at t (resolvedDirtyGen (eng t))"
proof -
  note grow = step_mono [OF assms(1-4)]
  have keep: "resolved_at t (resolvedDirtyGen (eng s))" using ra grow resolved_mono [of s _ t] by auto
  consider "resolvedDirtyGen (eng t) = resolvedDirtyGen (eng s)"
    | e0 g S ss v where "LView e0 g S ss v \<in> loads s" "resolvedDirtyGen (eng t) = max (resolvedDirtyGen (eng s)) g"
      "held t = held s \<union> holds v" "settledW t = settledW s" "selfS t = selfS s" "committed t = committed s"
    using st
  proof cases
    case (apply_finish w b)
    then show ?thesis using that(1) Apply_finish_eff [of env holds csOf "eng s" "scopes s w" w b] assms(2,3)
      by (auto simp: struct_inv_def dest: coreE)
  qed (use that in \<open>auto dest!: op_effects dest: coreE\<close>)
  then show ?thesis
  proof cases
    case 2
    have "load_ok holds s (LView e0 g S ss v)" using lo 2(1) by blast
    then have "resolved_at t g"
      unfolding resolved_at_def using 2 by (intro exI [of _ S] exI [of _ ss]) auto
    then show ?thesis using keep 2(2) by (simp add: max_def)
  qed (use keep in simp)
qed

definition rep_inv :: "('v \<Rightarrow> nat set) \<Rightarrow> (nat \<Rightarrow> 'k ChangeSet) \<Rightarrow> ('v, 'k) rep \<Rightarrow> bool" where
  "rep_inv holds csOf s \<longleftrightarrow> struct_inv csOf s \<and> gen_inv s \<and> (\<forall>l \<in> loads s. load_ok holds s l) \<and>
     view_inv holds s \<and> query_ok holds s (qr s) \<and> gens_ok s (gr s) \<and>
     resolved_at s (resolvedDirtyGen (eng s))"

lemma rep_inv_step:
  assumes "rep_step env holds r r'" and dc: "delta_contract env holds csOf" and "rep_inv holds csOf r"
  shows "rep_inv holds csOf r'"
proof -
  have i: "struct_inv csOf r" "gen_inv r" "\<forall>l \<in> loads r. load_ok holds r l" "view_inv holds r"
    "query_ok holds r (qr r)" "gens_ok r (gr r)" "resolved_at r (resolvedDirtyGen (eng r))" using assms(3) by (simp_all add: rep_inv_def)
  show ?thesis unfolding rep_inv_def
    using struct_step [OF assms(1) dc i(1)] gen_step [OF assms(1) dc i(1,2)] load_step [OF assms(1) dc i(1-3)]
      view_step [OF assms(1) dc i(1,3,4)] query_step [OF assms(1) dc i(1-5)] gens_step [OF assms(1) dc i(1,2,7,6)]
      resolved_step [OF assms(1) dc i(1-3,7)] by blast
qed

lemma rep_reach_inv:
  assumes "rep_reach env holds csOf s" and dc: "delta_contract env holds csOf"
  shows "rep_inv holds csOf s"
  using assms(1)
proof (induction rule: rep_reach.induct)
  case (start lim)
  have "resolved_at (rep_init lim csOf) 0" unfolding resolved_at_def by (rule exI [of _ "{}"]) simp
  then show ?case
    by (simp add: rep_inv_def rep_init_def struct_inv_def gen_inv_def view_inv_def NewWriteScope_def)
next
  case (step s t)
  then show ?case using rep_inv_step [OF step(2) dc] by blast
qed

section \<open>Theorems\<close>

text \<open>
  C1. The replica the engine serves from is complete. Under every interleaving of commits,
  applies that publish, fail or panic, rebuild loads and adoptions, while the state is serving the
  current View holds every committed write whose \<open>Apply\<close> has returned.
\<close>

theorem serving_view_complete:
  assumes "rep_reach env holds csOf s" and "delta_contract env holds csOf"
    and "state (eng s) = stateServing" and "snap (eng s) = Some v"
  shows "committed s - pending s \<subseteq> holds v"
  using rep_reach_inv [OF assms(1,2)] assms(3,4) by (simp add: rep_inv_def view_inv_def applied_def)

text \<open>
  C2. A served query never misses a write that had been applied when the query began, although
  its two reads, of the state and of the View, take no lock: whatever runs between them, adoption
  ending a fallback included, a query that is told it may serve is given a View that holds every
  write applied before it began.
\<close>

theorem query_sees_applied_writes:
  assumes "rep_reach env holds csOf s" and "delta_contract env holds csOf" and "qr s = QDone Q vo True"
  shows "\<exists>v. vo = Some v \<and> Q \<subseteq> holds v"
  using rep_reach_inv [OF assms(1,2)] assms(3) by (simp add: rep_inv_def)

text \<open>The trust generations are ordered at every instant: resolved, settled, noted.\<close>

theorem generations_ordered:
  assumes "rep_reach env holds csOf s" and "delta_contract env holds csOf"
  shows "resolvedDirtyGen (eng s) \<le> settledDirtyGen (eng s) \<and> settledDirtyGen (eng s) \<le> dirtyGen (eng s)"
proof -
  have gi: "gen_inv s" and ra: "resolved_at s (resolvedDirtyGen (eng s))"
    using rep_reach_inv [OF assms] by (simp_all add: rep_inv_def)
  obtain S ss where S: "resolvedDirtyGen (eng s) = card S + ss" "S \<subseteq> settledW s" "ss \<le> selfS s"
    using ra by (auto simp: resolved_at_def)
  have fin: "finite (noted s)" "finite (settledW s)" using gi by (auto simp: gen_inv_def intro: finite_subset)
  have "card S \<le> card (settledW s)" "card (settledW s) \<le> card (noted s)"
    using S(2) gi fin by (auto simp: gen_inv_def intro: card_mono)
  then show ?thesis using S gi by (auto simp: gen_inv_def)
qed

text \<open>
  C32. Trust is never given too early. If a reading of the generations, resolved before noted,
  finds them equal, then every write whose watermark bump had failed by then either is known to
  have committed nothing, or is committed and held by a snapshot that was adopted.
\<close>

theorem trusted_generations_sound:
  assumes "rep_reach env holds csOf s" and "delta_contract env holds csOf"
    and "gr s = GDone r d N" and "watermarkTrustedFor d r conv st"
  shows "\<forall>w \<in> N. w \<in> aborted s \<or> (w \<in> committed s \<and> w \<in> held s)"
proof -
  have gi: "gen_inv s" and "gens_ok s (GDone r d N)"
    using rep_reach_inv [OF assms(1,2)] assms(3) by (simp_all add: rep_inv_def)
  then have "N \<subseteq> settledW s" "N \<inter> committed s \<subseteq> held s"
    using assms(4) by (simp_all add: watermarkTrustedFor_def)
  then show ?thesis using gi by (auto simp: gen_inv_def)
qed

section \<open>Witnesses\<close>

text \<open>
  An instance of the environment in which a View is the set of node ids it holds: a write records
  one node id, the read-back returns the ids recorded, and a segment adds them.
\<close>

definition ids_env :: "(nat set, nat, nat set, nat set) apply_env" where
  "ids_env = \<lparr>env_readBack = (\<lambda>cur cs. Inr (set (nodeIDs cs), cs)), env_buildApplySegment = (\<lambda>cur rb. Inr rb),
     env_WithSegment = (\<lambda>v seg. v \<union> seg), env_ApproxBytes = (\<lambda>v. 0), env_maintainAfterPublish = (\<lambda>e v. e)\<rparr>"

definition ids_log :: "nat \<Rightarrow> nat ChangeSet" where
  "ids_log w = RecordNodeID emptyChangeSet w"

lemma ids_contract: "delta_contract ids_env (\<lambda>v. v) ids_log"
  by (auto simp: delta_contract_def ids_env_def ids_log_def RecordNodeID_def emptyChangeSet_def
      HasFallback_def ChangeSet_Empty_def)

lemma reach_by:
  "rep_reach env holds csOf s \<Longrightarrow> rep_step env holds s t' \<Longrightarrow> t' = t \<Longrightarrow> rep_reach env holds csOf t"
  by (blast intro: rep_reach.step)

text \<open>A run that adopts an empty load, then commits and applies write 7, then serves a query.\<close>

lemma ids_run:
  "\<exists>s. rep_reach ids_env (\<lambda>v. v) ids_log s \<and> qr s = QDone {7} (Some {7}) True \<and>
     state (eng s) = stateServing \<and> snap (eng s) = Some {7} \<and> committed s - pending s = {7}"
proof -
  define s0 where "s0 = (rep_init 0 ids_log :: (nat set, nat) rep)"
  define s1 where "s1 = s0\<lparr>loads := {LEpoch 0}\<rparr>"
  define s2 where "s2 = s1\<lparr>loads := {LGen 0 0 {} 0, LEpoch 0}\<rparr>"
  define s3 where "s3 = s2\<lparr>loads := {LView 0 0 {} 0 {}, LGen 0 0 {} 0, LEpoch 0}\<rparr>"
  define s4 where "s4 = s3\<lparr>eng := adopt_store (eng s3) {} 0, rl := Adopting\<rparr>"
  define s5 where "s5 = s4\<lparr>eng := adopt_flip (eng s4), rl := Free\<rparr>"
  define s6 where "s6 = s5\<lparr>committed := {7}, pending := {7}\<rparr>"
  define s7 where "s7 = s6\<lparr>rl := Applying 7 False\<rparr>"
  define s8 where "s8 = s7\<lparr>eng := Apply_finish ids_env (eng s7) (Some (scopes s7 7)) False, rl := Free, pending := {}\<rparr>"
  define s9 where "s9 = s8\<lparr>qr := QStart {7}\<rparr>"
  define s10 where "s10 = s9\<lparr>qr := QState {7} stateServing\<rparr>"
  define s11 where "s11 = s10\<lparr>qr := QDone {7} (Some {7}) True\<rparr>"
  let ?R = "rep_reach ids_env (\<lambda>v. v) ids_log"
  have r0: "?R s0" unfolding s0_def by (rule rep_reach.start)
  have r1: "?R s1" by (rule reach_by [OF r0 rep_step.load_epoch]) (simp add: s0_def s1_def rep_init_def)
  have r2: "?R s2" by (rule reach_by [OF r1 rep_step.load_gen [of 0]])
    (simp_all add: s0_def s1_def s2_def rep_init_def)
  have r3: "?R s3" by (rule reach_by [OF r2 rep_step.load_read [of 0 0 "{}" 0 _ _ "{}"]])
    (simp_all add: s0_def s1_def s2_def s3_def rep_init_def)
  have r4: "?R s4" by (rule reach_by [OF r3 rep_step.adopt_begin [of _ 0 0 "{}" 0 "{}"]])
    (simp_all add: s0_def s1_def s2_def s3_def s4_def rep_init_def)
  have r5: "?R s5" by (rule reach_by [OF r4 rep_step.adopt_end]) (simp_all add: s4_def s5_def)
  have r6: "?R s6" by (rule reach_by [OF r5 rep_step.commit [of 7]])
    (simp_all add: s0_def s1_def s2_def s3_def s4_def s5_def s6_def rep_init_def)
  have e6: "eng s6 = adopt_flip (adopt_store (eng s0) {} 0)" "scopes s6 = scopes s0" "noted s6 = {}" "settledW s6 = {}"
    by (simp_all add: s0_def s1_def s2_def s3_def s4_def s5_def s6_def rep_init_def)
  have ab: "Apply_begin (eng s6) (Some (scopes s6 7)) = (eng s6, Some (scopes s6 7), False)"
    by (simp add: e6 s0_def rep_init_def Apply_begin_def engine_defs NewWriteScope_def)
  have r7: "?R s7" by (rule reach_by [OF r6 rep_step.apply_begin [OF _ _ ab]])
    (simp_all add: s0_def s1_def s2_def s3_def s4_def s5_def s6_def s7_def rep_init_def fun_eq_iff)
  have r8: "?R s8" by (rule reach_by [OF r7 rep_step.apply_finish [of _ 7 False]])
    (simp_all add: s8_def s7_def s6_def)
  have e8: "state (eng s8) = stateServing \<and> snap (eng s8) = Some {7}"
    by (simp add: s8_def s7_def e6 s0_def rep_init_def Apply_finish_def Apply_publish_def ids_env_def
        ids_log_def RecordNodeID_def emptyChangeSet_def HasFallback_def ChangeSet_Empty_def NewWriteScope_def
        adopt_store_def adopt_flip_def Let_def)
  have r9: "?R s9" by (rule reach_by [OF r8 rep_step.query_begin])
    (simp add: s9_def s8_def s7_def s6_def applied_def)
  have r10: "?R s10" by (rule reach_by [OF r9 rep_step.query_state [of _ "{7}"]])
    (use e8 in \<open>simp_all add: s10_def s9_def\<close>)
  have r11: "?R s11" by (rule reach_by [OF r10 rep_step.query_view [of _ "{7}" stateServing "Some {7}" True]])
    (use e8 in \<open>simp_all add: s11_def s10_def s9_def servableView_def\<close>)
  show ?thesis
    by (rule exI [of _ s11]) (use r11 e8 in \<open>simp add: s11_def s10_def s9_def s8_def s7_def s6_def\<close>)
qed

theorem serving_view_complete_witness:
  "\<exists>s. rep_reach ids_env (\<lambda>v. v) ids_log s \<and> committed s - pending s = {7} \<and> snap (eng s) = Some {7} \<and>
     committed s - pending s \<subseteq> {7}"
proof -
  obtain s where s: "rep_reach ids_env (\<lambda>v. v) ids_log s" "state (eng s) = stateServing" "snap (eng s) = Some {7}"
    "committed s - pending s = {7}" using ids_run by blast
  from serving_view_complete [OF s(1) ids_contract s(2,3)] s show ?thesis by blast
qed

theorem query_sees_applied_writes_witness:
  "\<exists>s v. rep_reach ids_env (\<lambda>v. v) ids_log s \<and> qr s = QDone {7} (Some v) True \<and> {7} \<subseteq> v"
proof -
  obtain s where s: "rep_reach ids_env (\<lambda>v. v) ids_log s" "qr s = QDone {7} (Some {7}) True"
    using ids_run by blast
  from query_sees_applied_writes [OF s(1) ids_contract s(2)] s show ?thesis by blast
qed

theorem generations_ordered_witness:
  "\<exists>s. rep_reach ids_env (\<lambda>v. v) ids_log s \<and> committed s - pending s = {7} \<and>
     resolvedDirtyGen (eng s) \<le> dirtyGen (eng s)"
proof -
  obtain s where s: "rep_reach ids_env (\<lambda>v. v) ids_log s" "committed s - pending s = {7}"
    using ids_run by blast
  from generations_ordered [OF s(1) ids_contract] s show ?thesis using order_trans by blast
qed

text \<open>A run in which the bump of write 7 fails, the write is abandoned, a load is adopted and trust returns.\<close>

lemma trust_run:
  "\<exists>s. rep_reach ids_env (\<lambda>v. v) ids_log s \<and> gr s = GDone 1 1 {7}"
proof -
  define s0 where "s0 = (rep_init 0 ids_log :: (nat set, nat) rep)"
  define sc where "sc = (NewWriteScope\<lparr>changes := ids_log 7\<rparr> :: nat WriteScope)"
  define e1 where "e1 = (eng s0)\<lparr>dirtyGen := 1, snapshotFile := False\<rparr>"
  define s1 where "s1 = s0\<lparr>eng := e1, scopes := (scopes s0)(7 := sc\<lparr>watermarkBumpFailed := True\<rparr>), noted := {7}\<rparr>"
  define e2 where "e2 = e1\<lparr>settledDirtyGen := 1, trustRequests := 1\<rparr>"
  define s2 where "s2 = s1\<lparr>eng := e2, scopes := (scopes s1)(7 := sc), aborted := {7}, settledW := {7}\<rparr>"
  define s3 where "s3 = s2\<lparr>loads := {LEpoch 0}\<rparr>"
  define s4 where "s4 = s3\<lparr>loads := {LGen 0 1 {7} 0, LEpoch 0}\<rparr>"
  define s5 where "s5 = s4\<lparr>loads := {LView 0 1 {7} 0 {}, LGen 0 1 {7} 0, LEpoch 0}\<rparr>"
  define s6 where "s6 = s5\<lparr>eng := adopt_store (eng s5) {} 1, rl := Adopting\<rparr>"
  define s7 where "s7 = s6\<lparr>gr := GResolved 1\<rparr>"
  define s8 where "s8 = s7\<lparr>gr := GDone 1 1 {7}\<rparr>"
  let ?R = "rep_reach ids_env (\<lambda>v. v) ids_log"
  note defs = s0_def rep_init_def e1_def s1_def e2_def s2_def s3_def s4_def s5_def s6_def
  have r0: "?R s0" unfolding s0_def by (rule rep_reach.start)
  have n: "NoteWatermarkBumpFailure (eng s0) (Some (scopes s0 7)) = (e1, Some (sc\<lparr>watermarkBumpFailed := True\<rparr>), True)"
    by (simp add: s0_def e1_def sc_def rep_init_def NoteWatermarkBumpFailure_def markWatermarkBumpFailed_def NewWriteScope_def)
  have r1: "?R s1" by (rule reach_by [OF r0 rep_step.note_failure [OF _ n]]) (simp_all add: s1_def s0_def rep_init_def)
  have ra: "ResolveAbandonedWrite (eng s1) (Some (scopes s1 7)) = (e2, Some sc)"
    by (simp add: defs sc_def ResolveAbandonedWrite_def engine_defs observeAbandoned_def NewWriteScope_def
        zeroBootGap_def activate_def Let_def)
  have r2: "?R s2" by (rule reach_by [OF r1 rep_step.abandon [OF _ ra]]) (simp_all add: s2_def s1_def s0_def rep_init_def)
  have r3: "?R s3" by (rule reach_by [OF r2 rep_step.load_epoch]) (simp add: defs)
  have r4: "?R s4" by (rule reach_by [OF r3 rep_step.load_gen [of 0]]) (simp_all add: defs)
  have r5: "?R s5" by (rule reach_by [OF r4 rep_step.load_read [of 0 1 "{7}" 0 _ _ "{}"]]) (simp_all add: defs)
  have r6: "?R s6" by (rule reach_by [OF r5 rep_step.adopt_begin [of _ 0 1 "{7}" 0 "{}"]]) (simp_all add: defs)
  have g: "resolvedDirtyGen (eng s6) = 1" "dirtyGen (eng s6) = 1" "noted s6 = {7}" by (simp_all add: defs)
  have r7: "?R s7" by (rule reach_by [OF r6 rep_step.gens_resolved]) (simp add: s7_def g)
  have r8: "?R s8" by (rule reach_by [OF r7 rep_step.gens_dirty [of _ 1]]) (simp_all add: s8_def s7_def g)
  show ?thesis by (rule exI [of _ s8]) (use r8 in \<open>simp add: s8_def\<close>)
qed

theorem trusted_generations_sound_witness:
  "\<exists>s. rep_reach ids_env (\<lambda>v. v) ids_log s \<and> gr s = GDone 1 1 {7} \<and> (7 \<in> aborted s \<or> 7 \<in> held s)"
proof -
  obtain s where s: "rep_reach ids_env (\<lambda>v. v) ids_log s" "gr s = GDone 1 1 {7}" using trust_run by blast
  have "watermarkTrustedFor 1 1 True stateServing" by (simp add: watermarkTrustedFor_def)
  from trusted_generations_sound [OF s(1) ids_contract s(2) this] s show ?thesis by blast
qed

end
