(* ===== verification/Scratch.thy ===== *)
theory Scratch
  imports BT_Prelude
begin

text \<open>
  The per-query buffers of \<open>internal/engine/traverse/traverse.go\<close>: \<open>scratch\<close>, the distance
  buffer that is emptied by moving an epoch, \<open>memBudget\<close>, and \<open>cancelCheck\<close>. The contract of
  a distance buffer as a partial map is the locale \<open>distance_buffer\<close>; breadth-first search is
  verified against it. Reading or writing past the buffer's end is a panic.
\<close>

section \<open>Distance buffers\<close>

record scratch =
  mark :: "nat list"
  dist :: "int list"
  epoch :: nat

definition newScratch :: "nat \<Rightarrow> scratch" where
  "newScratch n = \<lparr>mark = replicate n 0, dist = replicate n 0, epoch = 0\<rparr>"

definition scratchBytes :: "nat \<Rightarrow> nat" where
  "scratchBytes n = u64 (u64 n * 5)"

definition scratch_reset :: "scratch \<Rightarrow> scratch" where
  "scratch_reset s =
     (let s1 = s\<lparr>epoch := u32 (epoch s + 1)\<rparr> in
      if epoch s1 = 0 then s1\<lparr>mark := replicate (length (mark s1)) 0, epoch := 1\<rparr> else s1)"

text \<open>A pooled buffer is reused when it is large enough; \<open>pooled\<close> is what the pool returned.\<close>

definition getScratch :: "scratch option \<Rightarrow> nat \<Rightarrow> scratch" where
  "getScratch pooled n =
     (case pooled of
        Some sc \<Rightarrow> if length (mark sc) \<ge> n then sc else newScratch n
      | None \<Rightarrow> newScratch n)"

definition scratch_get :: "scratch \<Rightarrow> nodeid \<Rightarrow> (int option) option" where
  "scratch_get s v =
     do { m \<leftarrow> idx (mark s) v;
          if m \<noteq> epoch s then Some None
          else do { d \<leftarrow> idx (dist s) v; Some (Some d) } }"

definition scratch_set :: "scratch \<Rightarrow> nodeid \<Rightarrow> int \<Rightarrow> scratch option" where
  "scratch_set s v d =
     do { mk \<leftarrow> upd (mark s) v (epoch s);
          ds \<leftarrow> upd (dist s) v d;
          Some (s\<lparr>mark := mk, dist := ds\<rparr>) }"

text \<open>
  The invariant of a buffer with room for \<open>n\<close> nodes: no mark is ahead of the epoch. A buffer keeps
  it across queries, which is what makes pooling sound.
\<close>

definition scratch_wf :: "nat \<Rightarrow> scratch \<Rightarrow> bool" where
  "scratch_wf n s \<longleftrightarrow> n \<le> length (mark s) \<and> length (dist s) = length (mark s) \<and>
     (\<forall>m \<in> set (mark s). m \<le> epoch s) \<and> epoch s < 2 ^ 32"

definition scratch_map :: "scratch \<Rightarrow> nodeid \<Rightarrow> int option" where
  "scratch_map s v = (if v < length (mark s) \<and> mark s ! v = epoch s then Some (dist s ! v) else None)"

subsection \<open>The contract\<close>

locale distance_buffer =
  fixes get :: "'s \<Rightarrow> nodeid \<Rightarrow> (int option) option"
    and put :: "'s \<Rightarrow> nodeid \<Rightarrow> int \<Rightarrow> 's option"
    and clear :: "'s \<Rightarrow> 's"
    and wf :: "nat \<Rightarrow> 's \<Rightarrow> bool"
    and amap :: "'s \<Rightarrow> nodeid \<Rightarrow> int option"
  assumes get_amap: "wf n s \<Longrightarrow> v < n \<Longrightarrow> get s v = Some (amap s v)"
    and put_ok: "wf n s \<Longrightarrow> v < n \<Longrightarrow> \<exists>s'. put s v d = Some s' \<and> wf n s' \<and> amap s' = (amap s)(v := Some d)"
    and clear_ok: "wf n s \<Longrightarrow> wf n (clear s)"
    and clear_amap: "wf n s \<Longrightarrow> amap (clear s) = (\<lambda>_. None)"
begin

text \<open>Writing one distance at every node of a list that has none yet, as a search level does.\<close>

lemma put_ok_rule: "wf n s \<Longrightarrow> v < n \<Longrightarrow> ok (put s v d) (\<lambda>s'. wf n s' \<and> amap s' = (amap s)(v := Some d))"
  using put_ok [of n s v d] by (auto simp: ok_iff)

lemma get_ok_rule: "wf n s \<Longrightarrow> v < n \<Longrightarrow> ok (get s v) (\<lambda>x. x = amap s v)"
  using get_amap [of n s v] by simp

lemma seeded: "wf n s \<Longrightarrow> v < n \<Longrightarrow> ok (put (clear s) v d) (\<lambda>s'. wf n s' \<and> amap s' = [v \<mapsto> d])"
  using put_ok [OF clear_ok, of n s v d] clear_amap [of n s] by (auto simp: ok_iff)

end

lemma scratch_reset_cases:
  assumes "scratch_wf n s"
  shows "scratch_reset s = (if epoch s + 1 = 2 ^ 32
    then s\<lparr>epoch := 1, mark := replicate (length (mark s)) 0\<rparr> else s\<lparr>epoch := epoch s + 1\<rparr>)"
proof (cases "epoch s + 1 = 2 ^ 32")
  case True
  have "u32 (epoch s + 1) = 0" unfolding True by (simp add: u32_def)
  then show ?thesis using True by (simp add: scratch_reset_def)
next
  case False
  then have "epoch s + 1 < 2 ^ 32" using assms by (simp add: scratch_wf_def)
  then have "u32 (epoch s + 1) = epoch s + 1" by (rule u32_id)
  then show ?thesis using False by (simp add: scratch_reset_def)
qed

lemma scratch_reset_wf:
  assumes "scratch_wf n s"
  shows "scratch_wf n (scratch_reset s)"
proof (cases "epoch s + 1 = 2 ^ 32")
  case True
  then show ?thesis using assms scratch_reset_cases [OF assms] by (auto simp: scratch_wf_def)
next
  case False
  then have "epoch s + 1 < 2 ^ 32" using assms by (simp add: scratch_wf_def)
  then show ?thesis using False assms scratch_reset_cases [OF assms]
    unfolding scratch_wf_def by (auto intro: le_SucI)
qed

lemma scratch_reset_map:
  assumes "scratch_wf n s"
  shows "scratch_map (scratch_reset s) = (\<lambda>_. None)"
proof
  fix v
  have "mark s ! v \<le> epoch s" if "v < length (mark s)" using assms that by (simp add: scratch_wf_def)
  then show "scratch_map (scratch_reset s) v = None"
    using scratch_reset_cases [OF assms] by (auto simp: scratch_map_def)
qed

lemma scratch_set_wf:
  assumes "scratch_wf n s" and "v < n"
  shows "\<exists>s'. scratch_set s v d = Some s' \<and> scratch_wf n s' \<and> scratch_map s' = (scratch_map s)(v := Some d)"
proof -
  have v: "v < length (mark s)" "v < length (dist s)" using assms by (auto simp: scratch_wf_def)
  have "scratch_wf n (s\<lparr>mark := (mark s)[v := epoch s], dist := (dist s)[v := d]\<rparr>)"
    using assms(1) set_update_subset_insert [of "mark s" v "epoch s"]
    unfolding scratch_wf_def by fastforce
  moreover have "scratch_map (s\<lparr>mark := (mark s)[v := epoch s], dist := (dist s)[v := d]\<rparr>) =
      (scratch_map s)(v := Some d)"
    using v by (auto simp: scratch_map_def nth_list_update fun_eq_iff)
  ultimately show ?thesis using v by (simp add: scratch_set_def)
qed

interpretation sb: distance_buffer scratch_get scratch_set scratch_reset scratch_wf scratch_map
proof unfold_locales
  fix n s v and d :: int
  assume wf: "scratch_wf n s"
  show "scratch_wf n (scratch_reset s)" using wf by (rule scratch_reset_wf)
  show "scratch_map (scratch_reset s) = (\<lambda>_. None)" using wf by (rule scratch_reset_map)
  assume v: "v < n"
  show "scratch_get s v = Some (scratch_map s v)"
    using wf v by (auto simp: scratch_get_def scratch_map_def scratch_wf_def)
  show "\<exists>s'. scratch_set s v d = Some s' \<and> scratch_wf n s' \<and> scratch_map s' = (scratch_map s)(v := Some d)"
    using wf v by (rule scratch_set_wf)
qed

lemma newScratch_wf: "scratch_wf n (newScratch n)"
  by (auto simp: scratch_wf_def newScratch_def)

lemma getScratch_wf: "(\<forall>sc. pooled = Some sc \<longrightarrow> scratch_wf 0 sc) \<Longrightarrow> scratch_wf n (getScratch pooled n)"
  using newScratch_wf [of n] by (cases pooled) (auto simp: getScratch_def scratch_wf_def)

lemma scratch_wf_mono: "scratch_wf n s \<Longrightarrow> k \<le> n \<Longrightarrow> scratch_wf k s"
  by (simp add: scratch_wf_def)

text \<open>
  A pooled distance buffer never leaks a distance into the query that reuses it: whatever
  well-formed buffer the pool returns, even at the epoch that wraps, after \<open>reset\<close> no node of the
  graph has a distance, reading any of them succeeds, and the buffer is fit for the pool again.
\<close>

theorem pooled_scratch_fresh:
  assumes "\<forall>sc. pooled = Some sc \<longrightarrow> scratch_wf 0 sc" and "v < n"
  shows "scratch_get (scratch_reset (getScratch pooled n)) v = Some None \<and>
    scratch_wf n (scratch_reset (getScratch pooled n))"
  using sb.get_amap [of n _ v] sb.clear_ok [OF getScratch_wf [OF assms(1)]]
    sb.clear_amap [OF getScratch_wf [OF assms(1)]] assms(2) by simp

theorem pooled_scratch_fresh_witness:
  "scratch_get (scratch_reset (getScratch (Some \<lparr>mark = [2 ^ 32 - 1], dist = [7], epoch = 2 ^ 32 - 1\<rparr>) 1)) 0 = Some None"
proof -
  have "\<forall>sc. Some \<lparr>mark = [2 ^ 32 - 1], dist = [7], epoch = 2 ^ 32 - 1\<rparr> = Some sc \<longrightarrow> scratch_wf 0 sc"
    by (simp add: scratch_wf_def)
  from pooled_scratch_fresh [OF this, of 0 1] show ?thesis by simp
qed

section \<open>Memory budget\<close>

datatype query_error = ErrMemoryLimit | ErrTooLarge | ErrContext

record memBudget =
  limit :: nat
  used :: nat
  reserved :: nat

definition budget_add :: "memBudget \<Rightarrow> nat \<Rightarrow> query_error + memBudget" where
  "budget_add b n =
     (if limit b > 0 \<and> u64 (reserved b + used b + n) > limit b then Inl ErrMemoryLimit
      else Inr (b\<lparr>used := u64 (used b + n)\<rparr>))"

definition budget_reserve :: "memBudget \<Rightarrow> nat \<Rightarrow> memBudget option" where
  "budget_reserve b n =
     (if limit b > 0 \<and> u64 (reserved b + used b + n) > limit b then None
      else Some (b\<lparr>reserved := u64 (reserved b + n)\<rparr>))"

definition budget_reset :: "memBudget \<Rightarrow> memBudget" where
  "budget_reset b = b\<lparr>used := 0\<rparr>"

definition budget_ok :: "memBudget \<Rightarrow> bool" where
  "budget_ok b \<longleftrightarrow> (limit b > 0 \<longrightarrow> reserved b + used b \<le> limit b)"

text \<open>
  The accounted bytes never pass the limit: from a budget within its limit, an addition or a
  reservation either fails and changes nothing, or stays within the limit and is recorded in full;
  a reset keeps the reservation. Byte counts below \<open>2^64\<close> do not wrap.
\<close>

theorem budget_within_limit:
  assumes "budget_ok b" and "reserved b + used b + n < 2 ^ 64"
  shows "(case budget_add b n of Inl e \<Rightarrow> limit b > 0 \<and> reserved b + used b + n > limit b
     | Inr b' \<Rightarrow> budget_ok b' \<and> used b' = used b + n \<and> reserved b' = reserved b \<and> limit b' = limit b) \<and>
   (case budget_reserve b n of None \<Rightarrow> limit b > 0 \<and> reserved b + used b + n > limit b
     | Some b' \<Rightarrow> budget_ok b' \<and> reserved b' = reserved b + n \<and> used b' = used b \<and> limit b' = limit b) \<and>
   budget_ok (budget_reset b) \<and> reserved (budget_reset b) = reserved b"
  using assms by (auto simp: budget_add_def budget_reserve_def budget_reset_def budget_ok_def u64_id)

theorem budget_within_limit_witness:
  "budget_add \<lparr>limit = 100, used = 60, reserved = 30\<rparr> 11 = Inl ErrMemoryLimit \<and>
   budget_ok (budget_reset \<lparr>limit = 100, used = 60, reserved = 30\<rparr>)"
  using budget_within_limit [of "\<lparr>limit = 100, used = 60, reserved = 30\<rparr>" 11]
  by (simp add: budget_ok_def budget_add_def budget_reset_def budget_reserve_def u64_def)

section \<open>Cancellation\<close>

definition cancelCheckInterval :: nat where "cancelCheckInterval = 1024"

text \<open>
  A request context is the answer of its \<open>Err\<close> at each of the checks to come (\<open>True\<close>: done);
  a nil context is \<open>None\<close>. Once done, a context stays done.
\<close>

record cancelCheck =
  c_ctx :: "(nat \<Rightarrow> bool) option"
  c_now :: nat
  c_unchecked :: nat

definition cancel_err :: "cancelCheck \<Rightarrow> cancelCheck \<times> bool" where
  "cancel_err c = (case c_ctx c of None \<Rightarrow> (c, False) | Some err \<Rightarrow> (c\<lparr>c_now := c_now c + 1\<rparr>, err (c_now c)))"

definition cancel_step :: "cancelCheck \<Rightarrow> cancelCheck \<times> bool" where
  "cancel_step c =
     (case c_ctx c of None \<Rightarrow> (c, False)
      | Some err \<Rightarrow>
          let c1 = c\<lparr>c_unchecked := c_unchecked c + 1\<rparr> in
          if c_unchecked c1 < cancelCheckInterval then (c1, False)
          else (c1\<lparr>c_unchecked := 0, c_now := c_now c + 1\<rparr>, err (c_now c)))"

end
