(* ===== verification/Bitset.thy ===== *)
theory Bitset
  imports BT_Prelude
begin

unbundle bit_operations_syntax

text \<open>
  The dense bit vectors of \<open>internal/engine/snapshot/bitset.go\<close>: \<open>Bitset\<close> over node ids
  and \<open>KindMask\<close> over kind ids, both on 64-bit words. The contract of a bit vector as a set
  of ids is the locale \<open>id_set\<close>; \<open>Bitset\<close> implements it, and the code that fills a bitset
  in a loop is verified against the contract.
\<close>

section \<open>Bitset\<close>

record bitset =
  bwords :: "64 word list"
  bcount :: nat

definition NewBitset :: "nat \<Rightarrow> bitset" where
  "NewBitset n = \<lparr>bwords = replicate ((n + 63) div 64) 0, bcount = 0\<rparr>"

definition Bitset_Set :: "bitset \<Rightarrow> nodeid \<Rightarrow> bitset" where
  "Bitset_Set b i =
     (let wordIdx = i div 64 in
      if wordIdx \<ge> u32 (length (bwords b)) then b
      else
        let bitIdx = i mod 64;
            mask = push_bit bitIdx (1 :: 64 word);
            cnt = (if bwords b ! wordIdx AND mask = 0 then bcount b + 1 else bcount b)
        in b\<lparr>bwords := (bwords b)[wordIdx := bwords b ! wordIdx OR mask], bcount := cnt\<rparr>)"

definition Bitset_Has :: "bitset \<Rightarrow> nodeid \<Rightarrow> bool" where
  "Bitset_Has b i =
     (let wordIdx = i div 64 in
      if wordIdx \<ge> u32 (length (bwords b)) then False
      else bwords b ! wordIdx AND push_bit (i mod 64) 1 \<noteq> 0)"

definition Bitset_Count :: "bitset \<Rightarrow> nat" where
  "Bitset_Count b = bcount b"

definition TrailingZeros64 :: "64 word \<Rightarrow> nat" where
  "TrailingZeros64 w = length (takeWhile (\<lambda>i. \<not> bit w i) [0..<64])"

text \<open>
  The inner loop of \<open>Iterate\<close>: the ids of the bits of one word, lowest first. The iterator is
  the list of ids the callback is handed when it never returns false; a callback that stops
  early is a consumer of a prefix of that list.
\<close>

lemma TrailingZeros64_bit:
  assumes "w \<noteq> 0"
  shows "TrailingZeros64 w < 64" and "bit w (TrailingZeros64 w)"
    and "j < TrailingZeros64 w \<Longrightarrow> \<not> bit w j"
proof -
  obtain i where i: "i < 64" "bit w i"
    using assms bit_eq_iff [of w 0] by (auto simp: bit_imp_le_length dest: bit_imp_le_length)
  then have ex: "\<exists>x \<in> set [0..<64]. bit w x" by auto
  let ?t = "takeWhile (\<lambda>i. \<not> bit w i) [0..<64]"
  have "?t \<noteq> [0..<64]" using ex by (metis takeWhile_eq_all_conv)
  then have "length ?t < length [0..<64::nat]"
    by (metis length_takeWhile_le le_neq_implies_less takeWhile_dropWhile_id append_eq_conv_conj
        take_all order_refl)
  then show lt: "TrailingZeros64 w < 64" by (simp add: TrailingZeros64_def)
  have "\<not> \<not> bit w ([0..<64] ! length ?t)"
    using \<open>length ?t < _\<close> by (rule nth_length_takeWhile)
  then show "bit w (TrailingZeros64 w)" using lt by (simp add: TrailingZeros64_def)
  show "\<not> bit w j" if "j < TrailingZeros64 w"
  proof -
    have "j < length ?t" using that by (simp add: TrailingZeros64_def)
    then have "?t ! j \<in> set ?t" by (rule nth_mem)
    moreover have "?t ! j = j" using \<open>j < length ?t\<close> lt that by (simp add: takeWhile_nth)
    ultimately show ?thesis using set_takeWhileD by metis
  qed
qed

lemma clear_bit_decreases:
  assumes "bit (w :: 64 word) n"
  shows "unat (w AND NOT (2 ^ n)) < unat w"
proof -
  have "w AND NOT (2 ^ n) \<noteq> w"
  proof
    assume "w AND NOT (2 ^ n) = w"
    then have "bit (w AND NOT (2 ^ n)) n" using assms by simp
    then show False using assms by (auto simp: bit_simps dest: bit_imp_le_length)
  qed
  moreover have "w AND NOT (2 ^ n) \<le> w" by (simp add: word_and_le2)
  ultimately have "w AND NOT (2 ^ n) < w" by simp
  then show ?thesis by (simp add: word_less_nat_alt)
qed

function iter_word :: "nat \<Rightarrow> 64 word \<Rightarrow> nodeid list" where
  "iter_word wordIdx word =
     (if word \<noteq> 0
      then let tz = TrailingZeros64 word in
           u32 (wordIdx * 64 + tz) # iter_word wordIdx (word AND NOT (push_bit tz 1))
      else [])"
  by pat_completeness auto
termination
  by (relation "measure (\<lambda>(i, w). unat w)")
     (auto simp: clear_bit_decreases TrailingZeros64_bit)

declare iter_word.simps [simp del]

definition Bitset_Iterate :: "bitset \<Rightarrow> nodeid list" where
  "Bitset_Iterate b = concat (map (\<lambda>wordIdx. iter_word wordIdx (bwords b ! wordIdx)) [0..<length (bwords b)])"

subsection \<open>Invariant and membership\<close>

text \<open>
  A bitset is well formed when its word count keeps every index it can hold within a uint32
  and its cached count is the number of its set bits.
\<close>

definition Bitset_members :: "bitset \<Rightarrow> nat set" where
  "Bitset_members b = {i. i div 64 < length (bwords b) \<and> bit (bwords b ! (i div 64)) (i mod 64)}"

definition Bitset_invar :: "bitset \<Rightarrow> bool" where
  "Bitset_invar b \<longleftrightarrow> length (bwords b) * 64 \<le> 2 ^ 32 \<and> bcount b = card (Bitset_members b)"

lemma u32_words: "Bitset_invar b \<Longrightarrow> u32 (length (bwords b)) = length (bwords b)"
  by (simp add: Bitset_invar_def u32_id)

lemma finite_Bitset_members [simp]: "finite (Bitset_members b)"
proof -
  have "Bitset_members b \<subseteq> {..< length (bwords b) * 64}"
    by (auto simp: Bitset_members_def)
  then show ?thesis by (rule finite_subset) simp
qed

lemma Bitset_Has_members: "Bitset_invar b \<Longrightarrow> Bitset_Has b i \<longleftrightarrow> i \<in> Bitset_members b"
  by (simp add: Bitset_Has_def Bitset_members_def u32_words and_exp_eq_0_iff_not_bit Let_def not_le)

lemma Bitset_members_New [simp]: "Bitset_members (NewBitset n) = {}"
  by (auto simp: Bitset_members_def NewBitset_def)

lemma Bitset_invar_New [simp]: "n \<le> 2 ^ 32 \<Longrightarrow> Bitset_invar (NewBitset n)"
  using Bitset_members_New [of n] by (simp add: Bitset_invar_def NewBitset_def)

lemma length_words_Set [simp]: "length (bwords (Bitset_Set b i)) = length (bwords b)"
  by (simp add: Bitset_Set_def Let_def)

lemma Bitset_members_Set:
  assumes "Bitset_invar b"
  shows "Bitset_members (Bitset_Set b i) =
    (if i div 64 < length (bwords b) then insert i (Bitset_members b) else Bitset_members b)"
proof (cases "i div 64 < length (bwords b)")
  case True
  let ?w = "i div 64"
  have words: "bwords (Bitset_Set b i) =
      (bwords b)[?w := bwords b ! ?w OR push_bit (i mod 64) 1]"
    using True assms by (simp add: Bitset_Set_def Let_def u32_words not_le)
  have "j \<in> Bitset_members (Bitset_Set b i) \<longleftrightarrow> j = i \<or> j \<in> Bitset_members b" for j
  proof (cases "j div 64 = ?w")
    case same: True
    have "j = i \<longleftrightarrow> j mod 64 = i mod 64"
      using same by (metis div_mult_mod_eq)
    then show ?thesis
      using True same words by (auto simp: Bitset_members_def bit_simps)
  next
    case False
    then show ?thesis using words by (auto simp: Bitset_members_def)
  qed
  then show ?thesis using True by auto
next
  case False
  then have "Bitset_Set b i = b" using assms by (simp add: Bitset_Set_def Let_def u32_words)
  with False show ?thesis by simp
qed

lemma Bitset_invar_Set [simp]:
  assumes "Bitset_invar b"
  shows "Bitset_invar (Bitset_Set b i)"
proof -
  have "bcount (Bitset_Set b i) = card (Bitset_members (Bitset_Set b i))"
  proof (cases "i div 64 < length (bwords b)")
    case True
    then have "bcount (Bitset_Set b i) =
        (if i \<in> Bitset_members b then bcount b else bcount b + 1)"
      using assms
      by (simp add: Bitset_Set_def Let_def u32_words and_exp_eq_0_iff_not_bit Bitset_members_def)
    then show ?thesis
      using True assms by (simp add: Bitset_members_Set Bitset_invar_def card_insert_if)
  next
    case False
    then have "Bitset_Set b i = b" using assms by (simp add: Bitset_Set_def Let_def u32_words)
    with assms show ?thesis by (simp add: Bitset_invar_def)
  qed
  with assms show ?thesis by (simp add: Bitset_invar_def)
qed

subsection \<open>Iteration\<close>

lemma iter_word_props:
  assumes "(Suc wi) * 64 \<le> 2 ^ 32"
  shows "set (iter_word wi w) = {wi * 64 + j |j. j < 64 \<and> bit w j} \<and>
    sorted_wrt (<) (iter_word wi w)"
proof (induction w rule: measure_induct_rule [of unat])
  case (less w)
  show ?case
  proof (cases "w = 0")
    case True
    then show ?thesis by (simp add: iter_word.simps [of wi 0])
  next
    case False
    let ?t = "TrailingZeros64 w" and ?w' = "w AND NOT (2 ^ TrailingZeros64 w)"
    note tz = TrailingZeros64_bit [OF False]
    have wrap: "u32 (wi * 64 + ?t) = wi * 64 + ?t"
      using tz(1) assms by (intro u32_id) simp
    have eq: "iter_word wi w = (wi * 64 + ?t) # iter_word wi ?w'"
      using False wrap by (simp add: iter_word.simps [of wi w] Let_def)
    have bits: "bit ?w' j \<longleftrightarrow> bit w j \<and> j \<noteq> ?t" if "j < 64" for j
      using that by (auto simp: bit_simps)
    from less [of ?w'] clear_bit_decreases [OF tz(2)]
    have IH: "set (iter_word wi ?w') = {wi * 64 + j |j. j < 64 \<and> bit ?w' j}"
      "sorted_wrt (<) (iter_word wi ?w')" by auto
    have "?t < j" if "j < 64" "bit ?w' j" for j
      using bits [OF that(1)] that tz(3) [of j] by (metis linorder_neqE_nat)
    moreover have "set (iter_word wi w) = {wi * 64 + j |j. j < 64 \<and> bit w j}"
      using IH(1) bits tz(1,2) by (auto simp: eq)
    ultimately show ?thesis using IH by (auto simp: eq)
  qed
qed

lemma sorted_wrt_concat_map:
  assumes "\<And>x. x \<in> set xs \<Longrightarrow> sorted_wrt R (f x)"
    and "sorted_wrt (\<lambda>x y. \<forall>a \<in> set (f x). \<forall>b \<in> set (f y). R a b) xs"
  shows "sorted_wrt R (concat (map f xs))"
  using assms by (induction xs) (auto simp: sorted_wrt_append)

lemma Bitset_Iterate_props:
  assumes "Bitset_invar b"
  shows "set (Bitset_Iterate b) = Bitset_members b" and "sorted_wrt (<) (Bitset_Iterate b)"
proof -
  let ?n = "length (bwords b)"
  have small: "Suc wi * 64 \<le> 2 ^ 32" if "wi < ?n" for wi
    using assms that by (simp add: Bitset_invar_def)
  note it = iter_word_props [OF small]
  have set_it: "set (iter_word wi (bwords b ! wi)) =
      {wi * 64 + j |j. j < 64 \<and> bit (bwords b ! wi) j}" if "wi < ?n" for wi
    using it that by blast
  have mem: "i \<in> Bitset_members b \<longleftrightarrow>
      (\<exists>wi < ?n. \<exists>j < 64. i = wi * 64 + j \<and> bit (bwords b ! wi) j)" for i
  proof
    assume "i \<in> Bitset_members b"
    then show "\<exists>wi < ?n. \<exists>j < 64. i = wi * 64 + j \<and> bit (bwords b ! wi) j"
      by (intro exI [of _ "i div 64"] conjI exI [of _ "i mod 64"])
         (auto simp: Bitset_members_def)
  qed (auto simp: Bitset_members_def)
  show "set (Bitset_Iterate b) = Bitset_members b"
    unfolding set_eq_iff mem by (auto simp: Bitset_Iterate_def set_it)
  show "sorted_wrt (<) (Bitset_Iterate b)"
    unfolding Bitset_Iterate_def
  proof (rule sorted_wrt_concat_map)
    show "sorted_wrt (<) (iter_word wi (bwords b ! wi))" if "wi \<in> set [0..<?n]" for wi
      using it that by auto
    have less: "wi < wj \<Longrightarrow> wj < ?n \<Longrightarrow> \<forall>a \<in> set (iter_word wi (bwords b ! wi)).
        \<forall>c \<in> set (iter_word wj (bwords b ! wj)). a < c" for wi wj
      using set_it [of wi] set_it [of wj] by fastforce
    show "sorted_wrt (\<lambda>wi wj. \<forall>a \<in> set (iter_word wi (bwords b ! wi)).
        \<forall>c \<in> set (iter_word wj (bwords b ! wj)). a < c) [0..<?n]"
      unfolding sorted_wrt_iff_nth_less
    proof (intro allI impI)
      fix i j assume "i < j" and "j < length [0..<?n]"
      moreover from this have "[0..<?n] ! i = i" and "[0..<?n] ! j = j" by simp_all
      ultimately show "\<forall>a \<in> set (iter_word ([0..<?n] ! i) (bwords b ! ([0..<?n] ! i))).
          \<forall>c \<in> set (iter_word ([0..<?n] ! j) (bwords b ! ([0..<?n] ! j))). a < c"
        using less [of i j] by simp
    qed
  qed
qed

section \<open>The contract of a set of ids\<close>

text \<open>
  What the readers of a bitset rely on. The client lemma is the shape every derivation of the
  snapshot and of the view uses: a fresh set of capacity \<open>n\<close>, filled in a loop.
\<close>

locale id_set =
  fixes invar :: "'s \<Rightarrow> bool" and fresh :: "nat \<Rightarrow> 's" and put :: "'s \<Rightarrow> nat \<Rightarrow> 's"
    and has :: "'s \<Rightarrow> nat \<Rightarrow> bool" and elems :: "'s \<Rightarrow> nat list" and size_of :: "'s \<Rightarrow> nat"
    and room :: "'s \<Rightarrow> nat"
  assumes invar_fresh: "n \<le> 2 ^ 32 \<Longrightarrow> invar (fresh n)"
    and room_fresh: "n \<le> room (fresh n)"
    and has_fresh: "n \<le> 2 ^ 32 \<Longrightarrow> \<not> has (fresh n) i"
    and invar_put: "invar s \<Longrightarrow> invar (put s i)"
    and room_put: "room (put s i) = room s"
    and has_put: "invar s \<Longrightarrow> has (put s i) j \<longleftrightarrow> has s j \<or> j = i \<and> i < room s"
    and elems_sorted: "invar s \<Longrightarrow> sorted_wrt (<) (elems s)"
    and set_elems: "invar s \<Longrightarrow> set (elems s) = {i. has s i}"
    and size_of_card: "invar s \<Longrightarrow> size_of s = card {i. has s i}"
begin

lemma fill_props:
  assumes "invar s"
  shows "invar (fold (\<lambda>i t. put t i) is s) \<and> room (fold (\<lambda>i t. put t i) is s) = room s \<and>
    (\<forall>j. has (fold (\<lambda>i t. put t i) is s) j \<longleftrightarrow> has s j \<or> j \<in> set is \<and> j < room s)"
  using assms
  by (induction "is" arbitrary: s) (auto simp: invar_put room_put has_put)

lemma fill_fresh:
  assumes "n \<le> 2 ^ 32" and "\<forall>i \<in> set is. i < n"
  shows "has (fold (\<lambda>i t. put t i) is (fresh n)) j \<longleftrightarrow> j \<in> set is"
  using fill_props [OF invar_fresh [OF assms(1)], of "is"] assms room_fresh [of n]
  by (auto simp: has_fresh intro: order_less_le_trans)

lemma fill_fresh_invar:
  "n \<le> 2 ^ 32 \<Longrightarrow> invar (fold (\<lambda>i t. put t i) is (fresh n))"
  using fill_props [OF invar_fresh] by blast

lemma elems_eq_sorted_list: "invar s \<Longrightarrow> elems s = sorted_list_of_set {i. has s i}"
  by (metis elems_sorted set_elems strict_sorted_iff sorted_list_of_set.idem_if_sorted_distinct)

end

interpretation bs: id_set Bitset_invar NewBitset Bitset_Set Bitset_Has Bitset_Iterate Bitset_Count
  "\<lambda>b. 64 * length (bwords b)"
proof unfold_locales
  fix b i j
  show "n \<le> 64 * length (bwords (NewBitset n))" for n by (simp add: NewBitset_def)
  show "\<not> Bitset_Has (NewBitset n) i" if "n \<le> 2 ^ 32" for n
    using that by (simp add: Bitset_Has_members)
  assume inv: "Bitset_invar b"
  have "i div 64 < length (bwords b) \<longleftrightarrow> i < 64 * length (bwords b)" for i
    by (simp add: less_mult_imp_div_less mult.commute div_less_iff_less_mult)
  then show "Bitset_Has (Bitset_Set b i) j \<longleftrightarrow>
      Bitset_Has b j \<or> j = i \<and> i < 64 * length (bwords b)"
    using inv by (auto simp: Bitset_Has_members Bitset_members_Set)
  show "sorted_wrt (<) (Bitset_Iterate b)" and
    "set (Bitset_Iterate b) = {i. Bitset_Has b i}" and
    "Bitset_Count b = card {i. Bitset_Has b i}"
    using inv Bitset_Iterate_props [OF inv]
    by (simp_all add: Bitset_Has_members Bitset_Count_def Bitset_invar_def)
qed simp_all

text \<open>
  A bitset for up to \<open>n\<close> ids, filled in any order and with any repetitions with ids below
  \<open>n\<close>, holds exactly those ids: membership, the cached count and the iteration order (ascending,
  each id once) all agree with the set of ids put in.
\<close>

theorem Bitset_fill_spec:
  assumes "n \<le> 2 ^ 32" and "\<forall>i \<in> set ids. i < n"
  defines "b \<equiv> fold (\<lambda>i t. Bitset_Set t i) ids (NewBitset n)"
  shows "(Bitset_Has b j \<longleftrightarrow> j \<in> set ids) \<and> Bitset_Count b = card (set ids) \<and>
    Bitset_Iterate b = sorted_list_of_set (set ids)"
proof -
  have has: "Bitset_Has b j \<longleftrightarrow> j \<in> set ids" for j
    unfolding b_def by (rule bs.fill_fresh [OF assms(1,2)])
  have inv: "Bitset_invar b" unfolding b_def by (rule bs.fill_fresh_invar [OF assms(1)])
  show ?thesis
    using has bs.size_of_card [OF inv] bs.elems_eq_sorted_list [OF inv] by simp
qed

theorem Bitset_fill_spec_witness:
  "Bitset_Iterate (fold (\<lambda>i t. Bitset_Set t i) [70, 3, 70] (NewBitset 80)) = [3, 70]"
  using Bitset_fill_spec [of 80 "[70, 3, 70]"] by (simp add: insert_Diff_if)

section \<open>KindMask\<close>

record kindmask =
  kwords :: "64 word list"
  kmax :: kindid

text \<open>\<open>make\<close> panics on a negative length, which a maximum below -128 would ask for.\<close>

definition NewKindMask :: "kindid \<Rightarrow> kindmask option" where
  "NewKindMask mx =
     (let numWords = go_div (mx + 1 + 63) 64 in
      if numWords < 0 then None
      else Some \<lparr>kwords = replicate (nat numWords) 0, kmax = mx\<rparr>)"

definition KindMask_Set :: "kindmask \<Rightarrow> kindid \<Rightarrow> kindmask" where
  "KindMask_Set m k =
     (if k < 0 \<or> k > kmax m then m
      else
        let wordIdx = nat k div 64; bitIdx = nat k mod 64
        in m\<lparr>kwords := (kwords m)[wordIdx := kwords m ! wordIdx OR push_bit bitIdx 1]\<rparr>)"

definition KindMask_Has :: "kindmask \<Rightarrow> kindid \<Rightarrow> bool" where
  "KindMask_Has m k =
     (if k < 0 \<or> k > kmax m then False
      else
        let wordIdx = nat k div 64; bitIdx = nat k mod 64
        in kwords m ! wordIdx AND push_bit bitIdx 1 \<noteq> 0)"

definition KindMask_SetAll :: "kindmask \<Rightarrow> kindmask" where
  "KindMask_SetAll m =
     (let ws = map (\<lambda>_. NOT 0) (kwords m) in
      if length ws > 0
      then let lastWordBits = nat (kmax m) mod 64 + 1; l = length ws - 1 in
           if lastWordBits < 64
           then m\<lparr>kwords := ws[l := ws ! l AND (push_bit lastWordBits 1 - 1)]\<rparr>
           else m\<lparr>kwords := ws\<rparr>
      else m\<lparr>kwords := ws\<rparr>)"

text \<open>
  A mask has a word for every kind it covers, so \<open>Set\<close> and \<open>Has\<close> index within the word
  list; kinds outside \<open>0..max\<close> never reach it.
\<close>

definition KindMask_invar :: "kindmask \<Rightarrow> bool" where
  "KindMask_invar m \<longleftrightarrow> length (kwords m) = nat (kmax m + 64) div 64"

lemma KindMask_index:
  "KindMask_invar m \<Longrightarrow> 0 \<le> k \<Longrightarrow> k \<le> kmax m \<Longrightarrow> nat k div 64 < length (kwords m)"
  by (auto simp: KindMask_invar_def)

lemma KindMask_invar_New:
  assumes "-65 < mx"
  obtains m where "NewKindMask mx = Some m" and "KindMask_invar m" and "kmax m = mx"
    and "\<And>k. \<not> KindMask_Has m k"
proof -
  have "go_div (mx + 1 + 63) 64 = (mx + 64) div 64"
    using assms by (cases "mx + 64 = 0") (simp_all add: go_div_def sgn_if)
  then have nonneg: "go_div (mx + 1 + 63) 64 = (mx + 64) div 64 \<and> \<not> (mx + 64) div 64 < 0"
    using assms by (simp add: pos_imp_zdiv_neg_iff)
  let ?m = "\<lparr>kwords = replicate (nat ((mx + 64) div 64)) 0, kmax = mx\<rparr> :: kindmask"
  show ?thesis
  proof (rule that [of ?m])
    show "NewKindMask mx = Some ?m" using nonneg by (simp add: NewKindMask_def Let_def)
    show inv: "KindMask_invar ?m"
      using assms by (simp add: KindMask_invar_def nat_div_distrib)
    show "\<not> KindMask_Has ?m k" for k
      using KindMask_index [OF inv, of k] by (simp add: KindMask_Has_def Let_def)
  qed simp
qed

lemma KindMask_invar_Set [simp]: "KindMask_invar m \<Longrightarrow> KindMask_invar (KindMask_Set m k)"
  by (simp add: KindMask_invar_def KindMask_Set_def Let_def)

lemma KindMask_invar_SetAll [simp]: "KindMask_invar m \<Longrightarrow> KindMask_invar (KindMask_SetAll m)"
  by (auto simp: KindMask_invar_def KindMask_SetAll_def Let_def)

lemma double_exp_minus_1: "(2 * 2 ^ n - 1 :: 64 word) = mask (Suc n)"
  by (simp add: mask_eq_exp_minus_1)

lemma kmax_Set [simp]: "kmax (KindMask_Set m k) = kmax m"
  by (simp add: KindMask_Set_def Let_def)

lemma KindMask_Has_bit:
  "KindMask_Has m k \<longleftrightarrow> 0 \<le> k \<and> k \<le> kmax m \<and> bit (kwords m ! (nat k div 64)) (nat k mod 64)"
  by (auto simp: KindMask_Has_def Let_def and_exp_eq_0_iff_not_bit)

lemma nat_div_mod_eq_iff:
  fixes i j :: nat
  shows "i = j \<longleftrightarrow> i div n = j div n \<and> i mod n = j mod n"
  by (metis div_mult_mod_eq)

text \<open>
  A kind mask behaves as the set of kinds between 0 and its maximum: setting a kind adds
  exactly that kind when it is in range and nothing otherwise, and no other kind changes.
\<close>

theorem KindMask_Set_spec:
  assumes "KindMask_invar m"
  shows "KindMask_invar (KindMask_Set m k) \<and>
    (KindMask_Has (KindMask_Set m k) j \<longleftrightarrow>
      KindMask_Has m j \<or> j = k \<and> 0 \<le> k \<and> k \<le> kmax m)"
proof (cases "0 \<le> k \<and> k \<le> kmax m")
  case True
  then have kw: "kwords (KindMask_Set m k) =
      (kwords m)[nat k div 64 := kwords m ! (nat k div 64) OR 2 ^ (nat k mod 64)]"
    by (simp add: KindMask_Set_def Let_def)
  have eq: "j = k \<longleftrightarrow> nat j div 64 = nat k div 64 \<and> nat j mod 64 = nat k mod 64" if "0 \<le> j"
    using that True nat_div_mod_eq_iff [of "nat j" "nat k" 64] by auto
  show ?thesis
    using True assms eq KindMask_index [OF assms, of k]
    by (auto simp: KindMask_Has_bit kw nth_list_update bit_simps)
next
  case False
  then have "KindMask_Set m k = m" by (auto simp: KindMask_Set_def)
  with assms False show ?thesis by auto
qed

text \<open>
  \<open>SetAll\<close> sets exactly the kinds from 0 to the mask's maximum: the bits beyond the
  maximum in the last word are masked off, so no kind out of range is admitted.
\<close>

theorem KindMask_SetAll_spec:
  assumes "KindMask_invar m" and "0 \<le> kmax m"
  shows "KindMask_Has (KindMask_SetAll m) k \<longleftrightarrow> 0 \<le> k \<and> k \<le> kmax m"
proof -
  let ?l = "nat (kmax m) div 64" and ?b = "nat (kmax m) mod 64 + 1"
  have len: "length (kwords m) = Suc ?l"
  proof -
    have "nat (kmax m + 64) = nat (kmax m) + 64" using assms(2) by simp
    then show ?thesis using assms(1) by (simp add: KindMask_invar_def)
  qed
  have bits: "bit (kwords (KindMask_SetAll m) ! w) j \<longleftrightarrow> w < ?l \<or> j < ?b"
    if "w \<le> ?l" "j < 64" for w j
    using that len
    by (auto simp: KindMask_SetAll_def Let_def nth_list_update bit_simps double_exp_minus_1)
  have mx: "kmax (KindMask_SetAll m) = kmax m" by (simp add: KindMask_SetAll_def Let_def)
  have "nat k div 64 < ?l \<or> nat k mod 64 < ?b" "nat k div 64 \<le> ?l" if "0 \<le> k" "k \<le> kmax m"
  proof -
    have le: "nat k \<le> nat (kmax m)" using that by simp
    show "nat k div 64 \<le> ?l" using le by (rule div_le_mono)
    show "nat k div 64 < ?l \<or> nat k mod 64 < ?b"
    proof (cases "nat k div 64 = ?l")
      case True
      then have "nat k mod 64 \<le> nat (kmax m) mod 64"
        using le by (metis div_mult_mod_eq add_le_cancel_left)
      then show ?thesis by simp
    qed (use \<open>nat k div 64 \<le> ?l\<close> in simp)
  qed
  then show ?thesis using bits [of "nat k div 64" "nat k mod 64"] by (auto simp: KindMask_Has_bit mx)
qed

text \<open>A mask for kinds 0 to 69 uses two words: kinds 5 and 69 are set, 70 and -1 are not.\<close>

definition kinds70 :: kindmask where
  "kinds70 = \<lparr>kwords = [0, 0], kmax = 69\<rparr>"

theorem KindMask_Set_spec_witness:
  "KindMask_invar kinds70 \<and> KindMask_Has (KindMask_Set kinds70 69) 69 \<and>
   \<not> KindMask_Has (KindMask_Set kinds70 70) 70"
proof -
  have inv: "KindMask_invar kinds70" by (simp add: kinds70_def KindMask_invar_def)
  show ?thesis
    using inv KindMask_Set_spec [OF inv, of 69 69] KindMask_Set_spec [OF inv, of 70 70]
    by (simp add: KindMask_Has_def kinds70_def)
qed

theorem KindMask_SetAll_spec_witness:
  "KindMask_Has (KindMask_SetAll kinds70) 69 \<and> \<not> KindMask_Has (KindMask_SetAll kinds70) 70"
proof -
  have inv: "KindMask_invar kinds70" "0 \<le> kmax kinds70"
    by (simp_all add: kinds70_def KindMask_invar_def)
  show ?thesis
    using KindMask_SetAll_spec [OF inv, of 69] KindMask_SetAll_spec [OF inv, of 70]
    by (simp add: kinds70_def)
qed

end
