(* ===== verification/Bfs.thy ===== *)
theory Bfs
  imports Scratch Bitset
begin

text \<open>
  Kind-filtered breadth-first search, \<open>bfsFrom\<close> of \<open>internal/engine/traverse/bfs.go\<close>. The
  adjacency of the View is the function \<open>adj\<close>: \<open>adj True u\<close> lists the out-neighbours of \<open>u\<close>
  with the kind of each edge, \<open>adj False u\<close> the in-neighbours. The search is proved to compute
  exact hop distances, without a panic, for every depth the buffer can represent.
\<close>

type_synonym adjacency = "bool \<Rightarrow> nodeid \<Rightarrow> (nodeid \<times> kindid) list"

definition kind_allowed :: "kindmask option \<Rightarrow> kindid \<Rightarrow> bool" where
  "kind_allowed kinds k = (case kinds of None \<Rightarrow> True | Some m \<Rightarrow> KindMask_Has m k)"

section \<open>The search\<close>

definition bfs_visit ::
    "kindmask option \<Rightarrow> nat \<Rightarrow> nodeid \<times> kindid \<Rightarrow> scratch \<times> nodeid list \<Rightarrow> (scratch \<times> nodeid list) option" where
  "bfs_visit kinds d wk st =
     (case (wk, st) of ((w, k), (sc, nxt)) \<Rightarrow>
        if \<not> kind_allowed kinds k then Some (sc, nxt)
        else do { seen \<leftarrow> scratch_get sc w;
                  case seen of Some _ \<Rightarrow> Some (sc, nxt)
                  | None \<Rightarrow> do { sc' \<leftarrow> scratch_set sc w (i8 (int d + 1)); Some (sc', nxt @ [w]) } })"

definition bfs_level ::
    "adjacency \<Rightarrow> bool \<Rightarrow> kindmask option \<Rightarrow> nat \<Rightarrow> nodeid list \<Rightarrow> scratch \<Rightarrow> (scratch \<times> nodeid list) option" where
  "bfs_level adj forward kinds d frontier sc =
     foldM (\<lambda>u. foldM (bfs_visit kinds d) (adj forward u)) frontier (sc, [])"

text \<open>The level loop: \<open>left\<close> is \<open>maxDepth - d\<close>, the number of levels still allowed.\<close>

fun bfs_loop ::
    "adjacency \<Rightarrow> bool \<Rightarrow> kindmask option \<Rightarrow> nat \<Rightarrow> nat \<Rightarrow> nodeid list \<Rightarrow> nat \<Rightarrow> scratch \<Rightarrow> (nat \<times> scratch) option" where
  "bfs_loop adj forward kinds 0 d frontier deepest sc = Some (deepest, sc)"
| "bfs_loop adj forward kinds (Suc left) d frontier deepest sc =
     (if frontier = [] then Some (deepest, sc)
      else do { (sc', nxt) \<leftarrow> bfs_level adj forward kinds d frontier sc;
                bfs_loop adj forward kinds left (d + 1) nxt (if nxt \<noteq> [] then d + 1 else deepest) sc' })"

definition bfsFrom ::
    "adjacency \<Rightarrow> nodeid \<Rightarrow> bool \<Rightarrow> kindmask option \<Rightarrow> int \<Rightarrow> scratch \<Rightarrow> (nat \<times> scratch) option" where
  "bfsFrom adj seed forward kinds maxDepth sc =
     do { sc' \<leftarrow> scratch_set (scratch_reset sc) seed 0;
          bfs_loop adj forward kinds (nat maxDepth) 0 [seed] 0 sc' }"

section \<open>Hop distances\<close>

text \<open>
  \<open>hop\<close> is one admitted edge; \<open>at_dist E s d v\<close> says that the shortest walk of \<open>E\<close> from \<open>s\<close> to
  \<open>v\<close> has \<open>d\<close> hops.
\<close>

definition hop :: "adjacency \<Rightarrow> bool \<Rightarrow> kindmask option \<Rightarrow> nodeid \<Rightarrow> nodeid \<Rightarrow> bool" where
  "hop adj forward kinds u w \<longleftrightarrow> (\<exists>k. (w, k) \<in> set (adj forward u) \<and> kind_allowed kinds k)"

definition at_dist :: "('a \<Rightarrow> 'a \<Rightarrow> bool) \<Rightarrow> 'a \<Rightarrow> nat \<Rightarrow> 'a \<Rightarrow> bool" where
  "at_dist E s d v \<longleftrightarrow> (E ^^ d) s v \<and> (\<forall>k < d. \<not> (E ^^ k) s v)"

definition in_range :: "nat \<Rightarrow> adjacency \<Rightarrow> bool" where
  "in_range n adj \<longleftrightarrow> (\<forall>b u w k. (w, k) \<in> set (adj b u) \<longrightarrow> w < n)"

lemma at_dist_unique: "at_dist E s d v \<Longrightarrow> at_dist E s e v \<Longrightarrow> d = e"
  unfolding at_dist_def by (metis linorder_neqE_nat)

lemma at_dist_exists: "(E ^^ k) s v \<Longrightarrow> \<exists>d \<le> k. at_dist E s d v"
proof -
  assume k: "(E ^^ k) s v"
  let ?d = "LEAST d. (E ^^ d) s v"
  have "(E ^^ ?d) s v" using k by (rule LeastI)
  moreover have "?d \<le> k" using k by (rule Least_le)
  ultimately show ?thesis unfolding at_dist_def by (meson not_less_Least)
qed

lemma at_dist_0: "at_dist E s 0 v \<longleftrightarrow> v = s"
  by (auto simp: at_dist_def)

text \<open>A node is first reached at level \<open>d + 1\<close> iff it was not reached before and an edge from level \<open>d\<close> reaches it.\<close>

lemma at_dist_Suc:
  "at_dist E s (Suc d) v \<longleftrightarrow> (\<exists>u. at_dist E s d u \<and> E u v) \<and> (\<forall>k \<le> d. \<not> at_dist E s k v)"
proof
  assume a: "at_dist E s (Suc d) v"
  then obtain u where u: "(E ^^ d) s u" "E u v" by (auto simp: at_dist_def)
  have "\<not> (E ^^ k) s u" if "k < d" for k
    using a u(2) that unfolding at_dist_def by (metis Suc_mono relpowp_Suc_I)
  then have "at_dist E s d u" using u(1) by (simp add: at_dist_def)
  moreover have "\<forall>k \<le> d. \<not> at_dist E s k v" using a unfolding at_dist_def by (meson le_imp_less_Suc)
  ultimately show "(\<exists>u. at_dist E s d u \<and> E u v) \<and> (\<forall>k \<le> d. \<not> at_dist E s k v)" using u(2) by blast
next
  assume a: "(\<exists>u. at_dist E s d u \<and> E u v) \<and> (\<forall>k \<le> d. \<not> at_dist E s k v)"
  then have "(E ^^ Suc d) s v" unfolding at_dist_def by auto
  moreover have "\<not> (E ^^ k) s v" if "k < Suc d" for k
    using a at_dist_exists [of k E s v] that by (meson le_trans less_Suc_eq_le)
  ultimately show "at_dist E s (Suc d) v" by (simp add: at_dist_def)
qed

text \<open>A level with no node has none after it either.\<close>

lemma at_dist_gap: "(\<forall>v. \<not> at_dist E s d v) \<Longrightarrow> d \<le> e \<Longrightarrow> \<not> at_dist E s e v"
proof (induction e arbitrary: v)
  case (Suc e)
  then show ?case using at_dist_Suc [of E s e v] by (metis le_Suc_eq)
qed simp

text \<open>Distances up to \<open>d\<close> as a map.\<close>

definition dist_upto :: "('a \<Rightarrow> 'a \<Rightarrow> bool) \<Rightarrow> 'a \<Rightarrow> nat \<Rightarrow> 'a \<Rightarrow> int option" where
  "dist_upto E s d v = (if \<exists>k \<le> d. at_dist E s k v then Some (int (THE k. at_dist E s k v)) else None)"

lemma dist_upto_iff: "dist_upto E s d v = Some x \<longleftrightarrow> (\<exists>k \<le> d. x = int k \<and> at_dist E s k v)"
proof -
  have the: "(THE k. at_dist E s k v) = k" if a: "at_dist E s k v" for k
    by (rule the_equality) (rule a, rule at_dist_unique [OF _ a])
  show ?thesis
  proof
    assume "dist_upto E s d v = Some x"
    then obtain k where "k \<le> d" "at_dist E s k v" "x = int (THE k. at_dist E s k v)"
      by (auto simp: dist_upto_def split: if_splits)
    then show "\<exists>k \<le> d. x = int k \<and> at_dist E s k v" using the by auto
  next
    assume "\<exists>k \<le> d. x = int k \<and> at_dist E s k v"
    then show "dist_upto E s d v = Some x" using the by (auto simp: dist_upto_def)
  qed
qed

lemma dist_upto_int: "dist_upto E s d v = Some (int k) \<longleftrightarrow> k \<le> d \<and> at_dist E s k v"
  by (auto simp: dist_upto_iff)

lemma dist_upto_None: "dist_upto E s d v = None \<longleftrightarrow> (\<forall>k \<le> d. \<not> at_dist E s k v)"
  by (auto simp: dist_upto_def)

lemma dist_upto_cong:
  "(\<exists>k \<le> d. at_dist E s k v) = (\<exists>k \<le> e. at_dist E s k v) \<Longrightarrow> dist_upto E s d v = dist_upto E s e v"
  by (simp add: dist_upto_def)

lemma dist_upto_Suc:
  "dist_upto E s (Suc d) v = (if at_dist E s (Suc d) v then Some (int (Suc d)) else dist_upto E s d v)"
proof (cases "at_dist E s (Suc d) v")
  case True
  then have "dist_upto E s (Suc d) v = Some (int (Suc d))" unfolding dist_upto_iff by blast
  then show ?thesis using True by simp
next
  case False
  then show ?thesis using dist_upto_cong [of "Suc d" E s v d] by (auto simp: le_Suc_eq)
qed

lemma dist_upto_0: "dist_upto E s 0 = [s \<mapsto> 0]"
proof
  fix v show "dist_upto E s 0 v = [s \<mapsto> 0] v"
    by (cases "dist_upto E s 0 v") (auto simp: dist_upto_iff dist_upto_None at_dist_0)
qed

section \<open>Correctness\<close>

lemma foldM_concat: "foldM (\<lambda>u. foldM f (g u)) us = foldM f (concat (map g us))"
  by (induction us) (auto simp: foldM_append intro!: ext)

text \<open>The nodes a list of edges admits that the buffer does not hold yet.\<close>

definition fresh :: "kindmask option \<Rightarrow> (nodeid \<Rightarrow> int option) \<Rightarrow> (nodeid \<times> kindid) list \<Rightarrow> nodeid set" where
  "fresh kinds m es = {w. (\<exists>k. (w, k) \<in> set es \<and> kind_allowed kinds k) \<and> m w = None}"

lemma bfs_visits:
  assumes wf: "scratch_wf n sc" and rng: "\<forall>(w, k) \<in> set es. w < n" and d: "d + 1 \<le> 127"
  shows "ok (foldM (bfs_visit kinds d) es (sc, [])) (\<lambda>(sc', nxt). scratch_wf n sc' \<and>
    distinct nxt \<and> set nxt = fresh kinds (scratch_map sc) es \<and>
    scratch_map sc' = (\<lambda>v. if v \<in> fresh kinds (scratch_map sc) es then Some (int (d + 1)) else scratch_map sc v))"
    (is "ok _ (\<lambda>(sc', nxt). ?I es sc' nxt)")
proof -
  have "ok (foldM (bfs_visit kinds d) es (sc, [])) (\<lambda>p. ?I es (fst p) (snd p))"
  proof (rule ok_foldM_prefix [where I = "\<lambda>es p. ?I es (fst p) (snd p)"])
    show "?I [] (fst (sc, [])) (snd (sc, []))" using wf by (auto simp: fresh_def)
  next
    fix pre x post t
    assume es: "es = pre @ x # post" and I: "?I pre (fst t) (snd t)"
    obtain w k sc1 nxt where x: "x = (w, k)" and t: "t = (sc1, nxt)" by (cases x, cases t)
    have w: "w < n" using rng es x by auto
    have i: "i8 (int d + 1) = int (d + 1)" using d by (simp add: i8_id)
    have wf1: "scratch_wf n sc1" using I t by simp
    have get: "scratch_get sc1 w = Some (scratch_map sc1 w)" by (rule sb.get_amap [OF wf1 w])
    show "ok (bfs_visit kinds d x t) (\<lambda>p. ?I (pre @ [x]) (fst p) (snd p))"
    proof (cases "kind_allowed kinds k \<and> scratch_map sc1 w = None")
      case True
      obtain sc2 where sc2: "scratch_set sc1 w (int (d + 1)) = Some sc2" "scratch_wf n sc2"
        "scratch_map sc2 = (scratch_map sc1)(w := Some (int (d + 1)))"
        using sb.put_ok [OF wf1 w] by blast
      have new: "w \<notin> set nxt" "scratch_map sc w = None" using True I t by (auto split: if_splits)
      then have "fresh kinds (scratch_map sc) (pre @ [x]) = insert w (fresh kinds (scratch_map sc) pre)"
        using True x by (auto simp: fresh_def)
      then show ?thesis using True sc2 I t x get i new by (auto simp: bfs_visit_def)
    next
      case False
      then have "fresh kinds (scratch_map sc) (pre @ [x]) = fresh kinds (scratch_map sc) pre"
        using I t x by (auto simp: fresh_def split: if_splits)
      moreover have "bfs_visit kinds d x t = Some t"
        using False t x get by (auto simp: bfs_visit_def split: option.split)
      ultimately show ?thesis using I by simp
    qed
  qed
  then show ?thesis by (rule ok_mono) (simp add: case_prod_beta)
qed

lemma bfs_level_correct:
  fixes adj forward kinds
  defines "E \<equiv> hop adj forward kinds"
  assumes wf: "scratch_wf n sc" and rng: "in_range n adj" and d: "d + 1 \<le> 127"
    and map: "scratch_map sc = dist_upto E s d" and fr: "set frontier = {v. at_dist E s d v}"
  shows "ok (bfs_level adj forward kinds d frontier sc) (\<lambda>(sc', nxt). scratch_wf n sc' \<and>
    scratch_map sc' = dist_upto E s (d + 1) \<and> set nxt = {v. at_dist E s (d + 1) v} \<and> distinct nxt)"
proof -
  let ?es = "concat (map (adj forward) frontier)"
  have "\<forall>(w, k) \<in> set ?es. w < n" using rng by (auto simp: in_range_def)
  note v = bfs_visits [OF wf this d, of kinds]
  have new: "fresh kinds (dist_upto E s d) ?es = {v. at_dist E s (Suc d) v}"
    using fr by (auto simp: fresh_def dist_upto_None at_dist_Suc E_def hop_def)
  have "(\<lambda>v. if at_dist E s (Suc d) v then Some (int (d + 1)) else dist_upto E s d v) = dist_upto E s (Suc d)"
    by (rule ext) (simp add: dist_upto_Suc)
  with v [unfolded map new] show ?thesis unfolding bfs_level_def foldM_concat
    by (auto elim!: ok_mono)
qed

text \<open>The loop: from a level \<open>d\<close> that is complete, it completes every level it is allowed.\<close>

lemma bfs_loop_correct:
  fixes adj forward kinds
  defines "E \<equiv> hop adj forward kinds"
  assumes "scratch_wf n sc" and "in_range n adj" and "d + left \<le> 127"
    and "scratch_map sc = dist_upto E s d" and "set frontier = {v. at_dist E s d v}"
    and "deepest \<le> d" and "\<exists>v. at_dist E s deepest v" and "\<forall>e. deepest < e \<and> e \<le> d \<longrightarrow> (\<forall>v. \<not> at_dist E s e v)"
  shows "ok (bfs_loop adj forward kinds left d frontier deepest sc) (\<lambda>(deep, sc'). scratch_wf n sc' \<and>
    scratch_map sc' = dist_upto E s (d + left) \<and> deep \<le> d + left \<and> (\<exists>v. at_dist E s deep v) \<and>
    (\<forall>e v. at_dist E s e v \<and> e \<le> d + left \<longrightarrow> e \<le> deep))"
  using assms(2-)
proof (induction left arbitrary: d frontier deepest sc)
  case 0
  then show ?case by (auto simp: not_le)
next
  case (Suc left)
  show ?case
  proof (cases "frontier = []")
    case True
    then have none: "\<forall>v. \<not> at_dist E s d v" using Suc.prems(5) by auto
    have "dist_upto E s (d + Suc left) v = dist_upto E s d v" for v
    proof (rule dist_upto_cong)
      show "(\<exists>k \<le> d + Suc left. at_dist E s k v) = (\<exists>k \<le> d. at_dist E s k v)"
        using at_dist_gap [OF none] by (meson le_add1 le_trans linear)
    qed
    moreover have "e \<le> deepest" if "at_dist E s e v" for e v
      using that at_dist_gap [OF none, of e v] Suc.prems(8) by (metis le_cases not_le)
    ultimately show ?thesis using True Suc.prems by auto
  next
    case False
    have "d + 1 \<le> 127" using Suc.prems(3) by simp
    from bfs_level_correct [OF Suc.prems(1,2) this, of forward kinds s frontier] Suc.prems(4,5)
    obtain sc' nxt where l: "bfs_level adj forward kinds d frontier sc = Some (sc', nxt)" "scratch_wf n sc'"
      "scratch_map sc' = dist_upto E s (d + 1)" "set nxt = {v. at_dist E s (d + 1) v}"
      unfolding E_def by (auto simp: ok_iff)
    let ?deep = "if nxt \<noteq> [] then d + 1 else deepest"
    have deep: "?deep \<le> d + 1" "\<exists>v. at_dist E s ?deep v"
      "\<forall>e. ?deep < e \<and> e \<le> d + 1 \<longrightarrow> (\<forall>v. \<not> at_dist E s e v)"
      using Suc.prems(6,7,8) l(4) by (auto simp: le_Suc_eq dest: equalityD2)
    have "ok (bfs_loop adj forward kinds left (d + 1) nxt ?deep sc') (\<lambda>(deep, sc'). scratch_wf n sc' \<and>
      scratch_map sc' = dist_upto E s (d + 1 + left) \<and> deep \<le> d + 1 + left \<and> (\<exists>v. at_dist E s deep v) \<and>
      (\<forall>e v. at_dist E s e v \<and> e \<le> d + 1 + left \<longrightarrow> e \<le> deep))"
      by (rule Suc.IH [OF l(2) Suc.prems(2) _ l(3,4) deep]) (use Suc.prems(3) in simp)
    then show ?thesis using False l(1) by simp
  qed
qed

lemma bfsFrom_correct:
  assumes "scratch_wf n sc" and "in_range n adj" and "seed < n" and "maxDepth \<le> 127"
  shows "ok (bfsFrom adj seed forward kinds maxDepth sc) (\<lambda>(deep, sc'). scratch_wf n sc' \<and>
    scratch_map sc' = dist_upto (hop adj forward kinds) seed (nat maxDepth) \<and> int deep \<le> max 0 maxDepth \<and>
    (\<exists>v. at_dist (hop adj forward kinds) seed deep v) \<and>
    (\<forall>e v. at_dist (hop adj forward kinds) seed e v \<and> e \<le> nat maxDepth \<longrightarrow> e \<le> deep))"
proof -
  let ?E = "hop adj forward kinds"
  obtain sc' where sc': "scratch_set (scratch_reset sc) seed 0 = Some sc'" "scratch_wf n sc'"
    "scratch_map sc' = [seed \<mapsto> 0]" using sb.seeded [OF assms(1,3), of 0] by (auto simp: ok_iff)
  have "ok (bfs_loop adj forward kinds (nat maxDepth) 0 [seed] 0 sc') (\<lambda>(deep, sc'). scratch_wf n sc' \<and>
    scratch_map sc' = dist_upto ?E seed (0 + nat maxDepth) \<and> deep \<le> 0 + nat maxDepth \<and> (\<exists>v. at_dist ?E seed deep v) \<and>
    (\<forall>e v. at_dist ?E seed e v \<and> e \<le> 0 + nat maxDepth \<longrightarrow> e \<le> deep))"
    by (rule bfs_loop_correct) (use sc' assms in \<open>auto simp: dist_upto_0 at_dist_0\<close>)
  then show ?thesis using sc'(1) by (auto simp: bfsFrom_def elim!: ok_mono)
qed

text \<open>
  Breadth-first search computes exact distances. For any adjacency over the graph's nodes, any
  kind filter and any depth the distance buffer can represent, \<open>bfsFrom\<close> returns without a panic
  from whatever state its buffer was in, and afterwards a node of the graph reads distance \<open>d\<close> iff
  its shortest admitted walk from the seed has \<open>d\<close> hops and \<open>d\<close> is within the depth; the result
  is the deepest level reached.
\<close>

theorem bfsFrom_exact:
  assumes "scratch_wf n sc" and "in_range n adj" and "seed < n" and "0 \<le> maxDepth" and "maxDepth \<le> 127"
  shows "ok (bfsFrom adj seed forward kinds maxDepth sc) (\<lambda>(deepest, sc').
    (\<forall>v < n. \<forall>d. scratch_get sc' v = Some (Some d) \<longleftrightarrow>
       0 \<le> d \<and> d \<le> maxDepth \<and> at_dist (hop adj forward kinds) seed (nat d) v) \<and>
    (\<exists>v. at_dist (hop adj forward kinds) seed deepest v) \<and>
    (\<forall>e v. at_dist (hop adj forward kinds) seed e v \<and> int e \<le> maxDepth \<longrightarrow> e \<le> deepest))"
proof (rule ok_mono [OF bfsFrom_correct [OF assms(1-3,5), of forward kinds]], clarify, intro conjI allI impI)
  fix deep sc' v d
  assume sc': "scratch_wf n sc'" "scratch_map sc' = dist_upto (hop adj forward kinds) seed (nat maxDepth)"
  assume v: "v < n"
  show "(scratch_get sc' v = Some (Some d)) =
      (0 \<le> d \<and> d \<le> maxDepth \<and> at_dist (hop adj forward kinds) seed (nat d) v)"
    using sb.get_amap [OF sc'(1) v] sc'(2) assms(4) by (auto simp: dist_upto_iff intro!: exI [of _ "nat d"])
next
  fix deep sc' e v
  assume "\<forall>e v. at_dist (hop adj forward kinds) seed e v \<and> e \<le> nat maxDepth \<longrightarrow> e \<le> deep"
  then show "e \<le> deep" if "at_dist (hop adj forward kinds) seed e v \<and> int e \<le> maxDepth"
    using that by auto
qed auto

text \<open>A chain of three nodes, used by the witnesses of the path search.\<close>

definition chain3 :: adjacency where
  "chain3 forward u =
     (if forward then (if u = 0 then [(1, 4)] else if u = 1 then [(2, 4), (2, 9)] else [])
      else (if u = 1 then [(0, 4)] else if u = 2 then [(1, 4), (1, 9)] else []))"

lemma chain3_in_range: "in_range 3 chain3"
  by (auto simp: in_range_def chain3_def)

theorem bfsFrom_exact_witness:
  "ok (bfsFrom chain3 0 True None 15 (newScratch 3)) (\<lambda>(deepest, sc'). scratch_get sc' 0 = Some (Some 0))"
proof (rule ok_mono [OF bfsFrom_exact [OF newScratch_wf chain3_in_range, of 0 15 True None]])
  fix p
  assume "case p of (deepest, sc') \<Rightarrow> (\<forall>v < 3. \<forall>d. scratch_get sc' v = Some (Some d) \<longleftrightarrow>
       0 \<le> d \<and> d \<le> 15 \<and> at_dist (hop chain3 True None) 0 (nat d) v) \<and>
    (\<exists>v. at_dist (hop chain3 True None) 0 deepest v) \<and>
    (\<forall>e v. at_dist (hop chain3 True None) 0 e v \<and> int e \<le> 15 \<longrightarrow> e \<le> deepest)"
  then show "case p of (deepest, sc') \<Rightarrow> scratch_get sc' 0 = Some (Some 0)"
    by (auto simp: at_dist_0)
qed simp_all

end
