(* ===== verification/Sink.thy ===== *)
theory Sink
  imports BT_Prelude
begin

text \<open>
  \<open>internal/engine/traverse/pathsink.go\<close>: the arena that collects enumerated paths. A chunk is
  its capacity and its contents; appending within the capacity never moves it. The depth-first
  scratch the sink lends out (\<open>stack\<close>, \<open>walk\<close>, \<open>walkKinds\<close>) is emptied by every borrower and
  lives in the borrower's model. The contract of the arena as a growing list of paths is the locale
  \<open>path_store\<close>.
\<close>

record path =
  Nodes :: "nodeid list"
  Kinds :: "kindid list"

record 'a chunk =
  ch_cap :: nat
  ch_items :: "'a list"

record pathSink =
  nodeChunks :: "nodeid chunk list"
  kindChunks :: "kindid chunk list"
  lens :: "nat list"
  sink_n :: nat
  chunkCap :: nat

definition emptySink :: pathSink where
  "emptySink = \<lparr>nodeChunks = [], kindChunks = [], lens = [], sink_n = 0, chunkCap = 0\<rparr>"

definition pathSinkMinChunk :: nat where "pathSinkMinChunk = 64"

definition pathSinkMaxChunk :: nat where "pathSinkMaxChunk = 4096"

definition addChunk :: "pathSink \<Rightarrow> nat \<Rightarrow> pathSink" where
  "addChunk s need =
     (let size0 = (if chunkCap s = 0 then pathSinkMinChunk
                   else if chunkCap s < pathSinkMaxChunk then chunkCap s * 2
                   else chunkCap s);
          size = (if size0 < need then need else size0)
      in s\<lparr>chunkCap := size, nodeChunks := nodeChunks s @ [\<lparr>ch_cap = size, ch_items = []\<rparr>],
           kindChunks := kindChunks s @ [\<lparr>ch_cap = size, ch_items = []\<rparr>]\<rparr>)"

text \<open>\<open>reverseNodes\<close> and \<open>reverseKinds\<close>: the in-place swap loop.\<close>

function reverse_loop :: "'a list \<Rightarrow> nat \<Rightarrow> nat \<Rightarrow> 'a list" where
  "reverse_loop xs i j =
     (if i < j then reverse_loop (xs[i := xs ! j, j := xs ! i]) (i + 1) (j - 1) else xs)"
  by pat_completeness auto
termination
  by (relation "measure (\<lambda>(xs, i, j). j - i)") auto

declare reverse_loop.simps [simp del]

definition reverse_in_place :: "'a list \<Rightarrow> 'a list" where
  "reverse_in_place xs = reverse_loop xs 0 (length xs - 1)"

definition sink_room :: "pathSink \<Rightarrow> nat \<Rightarrow> pathSink" where
  "sink_room s n =
     (if nodeChunks s = [] \<or>
         ch_cap (last (nodeChunks s)) - length (ch_items (last (nodeChunks s))) < n
      then addChunk s n else s)"

definition sink_store :: "pathSink \<Rightarrow> nodeid list \<Rightarrow> kindid list \<Rightarrow> bool \<Rightarrow> pathSink option" where
  "sink_store s nodes kinds reverse =
     (let lst = length (nodeChunks s) - 1 in
      do { nc \<leftarrow> idx (nodeChunks s) lst;
           kc \<leftarrow> idx (kindChunks s) lst;
           let ns = (if reverse then reverse_in_place nodes else nodes);
           let ks = (if reverse then reverse_in_place kinds else kinds);
           ncs \<leftarrow> upd (nodeChunks s) lst (nc\<lparr>ch_items := ch_items nc @ ns\<rparr>);
           kcs \<leftarrow> upd (kindChunks s) lst (kc\<lparr>ch_items := ch_items kc @ ks\<rparr>);
           Some (s\<lparr>nodeChunks := ncs, kindChunks := kcs, lens := lens s @ [u16 (length nodes)],
                   sink_n := sink_n s + 1\<rparr>) })"

definition sink_add :: "pathSink \<Rightarrow> nodeid list \<Rightarrow> kindid list \<Rightarrow> bool \<Rightarrow> pathSink option" where
  "sink_add s nodes kinds reverse = sink_store (sink_room s (length nodes)) nodes kinds reverse"

definition sink_reset :: "pathSink \<Rightarrow> pathSink" where
  "sink_reset s = s\<lparr>nodeChunks := [], kindChunks := [], lens := [], sink_n := 0, chunkCap := 0\<rparr>"

text \<open>
  \<open>paths\<close>: the inner loop consumes one length per path until the chunk is used up. A length of 0
  would never advance; \<open>lens\<close> running out, or a slice past its chunk, is a panic.
\<close>

partial_function (option) chunk_paths ::
    "nat list \<Rightarrow> nodeid list \<Rightarrow> kindid list \<Rightarrow> nat \<Rightarrow> nat \<Rightarrow> (path list \<times> nat list) option" where
  "chunk_paths ls nodes kinds nodeOff kindOff =
     (if nodeOff < length nodes then
        (case ls of [] \<Rightarrow> None
         | n # ls' \<Rightarrow>
             do { ns \<leftarrow> slice nodes nodeOff (nodeOff + n);
                  ks \<leftarrow> slice kinds kindOff (kindOff + n - 1);
                  (ps, rest) \<leftarrow> chunk_paths ls' nodes kinds (nodeOff + n) (kindOff + n - 1);
                  Some (\<lparr>Nodes = ns, Kinds = ks\<rparr> # ps, rest) })
      else Some ([], ls))"

fun chunks_paths :: "nat list \<Rightarrow> nodeid chunk list \<Rightarrow> kindid chunk list \<Rightarrow> path list option" where
  "chunks_paths ls (nc # ncs) (kc # kcs) =
     do { (ps, rest) \<leftarrow> chunk_paths ls (ch_items nc) (ch_items kc) 0 0;
          qs \<leftarrow> chunks_paths rest ncs kcs;
          Some (ps @ qs) }"
| "chunks_paths ls [] kcs = Some []"
| "chunks_paths ls (nc # ncs) [] = None"

definition sink_paths :: "pathSink \<Rightarrow> path list option" where
  "sink_paths s = (if sink_n s = 0 then Some [] else chunks_paths (lens s) (nodeChunks s) (kindChunks s))"

section \<open>Reversal\<close>

lemma reverse_loop_spec:
  assumes "i + j = length xs - 1" and "j < length xs \<or> xs = []"
  shows "length (reverse_loop xs i j) = length xs \<and>
    (\<forall>p < length xs. reverse_loop xs i j ! p = (if i \<le> p \<and> p \<le> j then xs ! (i + j - p) else xs ! p))"
  using assms
proof (induction xs i j rule: reverse_loop.induct)
  case (1 xs i j)
  show ?case
  proof (cases "i < j")
    case True
    let ?ys = "xs[i := xs ! j, j := xs ! i]"
    have ij: "j < length xs" "i + 1 + (j - 1) = i + j" using True 1(2,3) by auto
    have IH: "length (reverse_loop ?ys (i + 1) (j - 1)) = length xs"
      "\<forall>p < length xs. reverse_loop ?ys (i + 1) (j - 1) ! p =
        (if i + 1 \<le> p \<and> p \<le> j - 1 then ?ys ! (i + j - p) else ?ys ! p)"
      using 1(1) [OF True] 1(2) ij by auto
    have eq: "reverse_loop xs i j = reverse_loop ?ys (i + 1) (j - 1)"
      using True by (simp add: reverse_loop.simps [of xs i j])
    show ?thesis
    proof (intro conjI allI impI)
      show "length (reverse_loop xs i j) = length xs" using IH(1) eq by simp
      fix p assume p: "p < length xs"
      show "reverse_loop xs i j ! p = (if i \<le> p \<and> p \<le> j then xs ! (i + j - p) else xs ! p)"
        using IH(2) [rule_format, OF p] p True ij unfolding eq
        by (auto simp: nth_list_update)
    qed
  next
    case False
    then have "i + j - p = p" if "i \<le> p" "p \<le> j" for p using that by linarith
    then show ?thesis using False by (auto simp: reverse_loop.simps [of xs i j])
  qed
qed

lemma reverse_in_place_rev [simp]: "reverse_in_place xs = rev xs"
proof (rule nth_equalityI)
  note spec = reverse_loop_spec [of 0 "length xs - 1" xs]
  show len: "length (reverse_in_place xs) = length (rev xs)"
    using spec by (cases xs) (auto simp: reverse_in_place_def)
  fix p assume "p < length (reverse_in_place xs)"
  then have p: "p < length xs" using len by simp
  then have "rev xs ! p = xs ! (length xs - Suc p)" "xs \<noteq> []" by (auto simp: rev_nth)
  then show "reverse_in_place xs ! p = rev xs ! p"
    using spec p by (auto simp: reverse_in_place_def)
qed

section \<open>What the arena holds\<close>

definition path_ok :: "path \<Rightarrow> bool" where
  "path_ok p \<longleftrightarrow> Nodes p \<noteq> [] \<and> length (Nodes p) < 2 ^ 16 \<and> length (Kinds p) = length (Nodes p) - 1"

abbreviation chunk_of :: "('p \<Rightarrow> 'a list) \<Rightarrow> 'p list \<Rightarrow> 'a list" where
  "chunk_of f ps \<equiv> concat (map f ps)"

text \<open>
  The arena holds the paths \<open>ps\<close>, cut into one group per chunk; within a chunk the nodes and the
  kinds of its paths lie end to end and never outgrow the chunk.
\<close>

definition sink_rep :: "pathSink \<Rightarrow> path list \<Rightarrow> bool" where
  "sink_rep s ps \<longleftrightarrow> (\<exists>groups. concat groups = ps \<and>
     map ch_items (nodeChunks s) = map (chunk_of Nodes) groups \<and>
     map ch_items (kindChunks s) = map (chunk_of Kinds) groups \<and>
     map ch_cap (nodeChunks s) = map ch_cap (kindChunks s) \<and>
     (\<forall>c \<in> set (nodeChunks s). length (ch_items c) \<le> ch_cap c) \<and>
     (\<forall>c \<in> set (kindChunks s). length (ch_items c) \<le> ch_cap c)) \<and>
   lens s = map (length \<circ> Nodes) ps \<and> sink_n s = length ps \<and> (\<forall>p \<in> set ps. path_ok p)"

text \<open>What is done to an arena between two readings of its paths.\<close>

datatype sink_op = AddPath "nodeid list" "kindid list" bool | ResetSink

fun run_op :: "('s \<Rightarrow> nodeid list \<Rightarrow> kindid list \<Rightarrow> bool \<Rightarrow> 's option) \<Rightarrow> ('s \<Rightarrow> 's) \<Rightarrow> sink_op \<Rightarrow> 's \<Rightarrow> 's option" where
  "run_op add reset (AddPath ns ks r) s = add s ns ks r"
| "run_op add reset ResetSink s = Some (reset s)"

fun addable :: "sink_op \<Rightarrow> bool" where
  "addable (AddPath ns ks r) = path_ok \<lparr>Nodes = ns, Kinds = ks\<rparr>"
| "addable ResetSink = True"

fun since_reset :: "sink_op \<Rightarrow> path list \<Rightarrow> path list" where
  "since_reset (AddPath ns ks r) ps = ps @ [if r then \<lparr>Nodes = rev ns, Kinds = rev ks\<rparr> else \<lparr>Nodes = ns, Kinds = ks\<rparr>]"
| "since_reset ResetSink ps = []"

locale path_store =
  fixes empty :: 's and add :: "'s \<Rightarrow> nodeid list \<Rightarrow> kindid list \<Rightarrow> bool \<Rightarrow> 's option"
    and reset :: "'s \<Rightarrow> 's" and size :: "'s \<Rightarrow> nat" and paths :: "'s \<Rightarrow> path list option"
    and rep :: "'s \<Rightarrow> path list \<Rightarrow> bool"
  assumes rep_empty: "rep empty []"
    and rep_add: "rep s ps \<Longrightarrow> path_ok \<lparr>Nodes = ns, Kinds = ks\<rparr> \<Longrightarrow>
      ok (add s ns ks r) (\<lambda>s'. rep s' (ps @ [if r then \<lparr>Nodes = rev ns, Kinds = rev ks\<rparr> else \<lparr>Nodes = ns, Kinds = ks\<rparr>]))"
    and rep_reset: "rep (reset s) []"
    and rep_size: "rep s ps \<Longrightarrow> size s = length ps"
    and rep_paths: "rep s ps \<Longrightarrow> paths s = Some ps"
begin

text \<open>A run of additions and resets holds the paths added after the last reset, in their order.\<close>

lemma ops_rep:
  assumes "rep s ps" and "\<forall>op \<in> set ops. addable op"
  shows "ok (foldM (run_op add reset) ops s) (\<lambda>s'. rep s' (fold since_reset ops ps))"
  using assms
proof (induction ops arbitrary: s ps)
  case (Cons op ops)
  show ?case
  proof (cases op)
    case (AddPath ns ks r)
    have "path_ok \<lparr>Nodes = ns, Kinds = ks\<rparr>" using Cons.prems(2) AddPath by simp
    from rep_add [OF Cons.prems(1) this, of r]
    obtain s' where s': "add s ns ks r = Some s'" "rep s' (since_reset op ps)" by (auto simp: ok_iff AddPath)
    show ?thesis using Cons.IH [OF s'(2)] Cons.prems(2) AddPath s'(1) by simp
  next
    case ResetSink
    then show ?thesis using Cons.IH [OF rep_reset, of s] Cons.prems(2) by simp
  qed
qed simp

end

lemma chunk_paths_read:
  assumes "\<forall>p \<in> set qs. path_ok p"
  shows "chunk_paths (map (length \<circ> Nodes) qs @ ls) (A @ chunk_of Nodes qs) (B @ chunk_of Kinds qs)
    (length A) (length B) = Some (qs, ls)"
  using assms
proof (induction qs arbitrary: A B)
  case Nil
  show ?case by (simp add: chunk_paths.simps)
next
  case (Cons p qs)
  have p: "Nodes p \<noteq> []" "length (Kinds p) = length (Nodes p) - 1" using Cons.prems by (auto simp: path_ok_def)
  have IH: "chunk_paths (map (length \<circ> Nodes) qs @ ls) ((A @ Nodes p) @ chunk_of Nodes qs)
      ((B @ Kinds p) @ chunk_of Kinds qs) (length (A @ Nodes p)) (length (B @ Kinds p)) = Some (qs, ls)"
    using Cons.IH Cons.prems by (metis list.set_intros(2))
  have off: "length B + length (Nodes p) - 1 = length (B @ Kinds p)" using p by (cases "Nodes p") auto
  have "\<lparr>Nodes = Nodes p, Kinds = Kinds p\<rparr> = p" by simp
  then show ?case using IH p(1) off
    by (subst chunk_paths.simps) (simp add: slice_def)
qed

lemma chunks_paths_read:
  assumes "map ch_items ncs = map (chunk_of Nodes) groups" and "map ch_items kcs = map (chunk_of Kinds) groups"
    and "\<forall>p \<in> set (concat groups). path_ok p"
  shows "chunks_paths (map (length \<circ> Nodes) (concat groups)) ncs kcs = Some (concat groups)"
  using assms
proof (induction groups arbitrary: ncs kcs)
  case (Cons g groups)
  then obtain nc ncs' kc kcs' where c: "ncs = nc # ncs'" "kcs = kc # kcs'" "ch_items nc = chunk_of Nodes g"
    "ch_items kc = chunk_of Kinds g" by (cases ncs; cases kcs) auto
  have "chunk_paths (map (length \<circ> Nodes) g @ map (length \<circ> Nodes) (concat groups)) (ch_items nc) (ch_items kc) 0 0
      = Some (g, map (length \<circ> Nodes) (concat groups))"
    using chunk_paths_read [of g _ "[]" "[]"] Cons.prems(3) c by simp
  then show ?case using Cons.IH [of ncs' kcs'] Cons.prems c by (simp add: comp_def)
qed simp

subsection \<open>Adding a path\<close>

lemma snoc_map_eq: "map f xs = ys @ [y] \<Longrightarrow> xs \<noteq> [] \<and> map f (butlast xs) = ys \<and> f (last xs) = y"
  by (metis append_butlast_last_id butlast_snoc last_map last_snoc map_butlast map_is_Nil_conv snoc_eq_iff_butlast)

text \<open>A sink whose last chunk has room takes the path there; the group of that chunk grows.\<close>

lemma sink_store_rep:
  assumes rep: "sink_rep s ps" and p: "path_ok \<lparr>Nodes = ns, Kinds = ks\<rparr>"
    and ne: "nodeChunks s \<noteq> []"
    and room: "length (ch_items (last (nodeChunks s))) + length ns \<le> ch_cap (last (nodeChunks s))"
    and lst: "length (ch_items (last (kindChunks s))) \<le> length (ch_items (last (nodeChunks s)))"
  shows "ok (sink_store s ns ks r) (\<lambda>s'. sink_rep s'
    (ps @ [if r then \<lparr>Nodes = rev ns, Kinds = rev ks\<rparr> else \<lparr>Nodes = ns, Kinds = ks\<rparr>]))"
proof -
  obtain groups where g: "concat groups = ps" "map ch_items (nodeChunks s) = map (chunk_of Nodes) groups"
    "map ch_items (kindChunks s) = map (chunk_of Kinds) groups"
    "map ch_cap (nodeChunks s) = map ch_cap (kindChunks s)"
    "\<forall>c \<in> set (nodeChunks s). length (ch_items c) \<le> ch_cap c"
    "\<forall>c \<in> set (kindChunks s). length (ch_items c) \<le> ch_cap c"
    using rep by (auto simp: sink_rep_def)
  define q where "q = (if r then \<lparr>Nodes = rev ns, Kinds = rev ks\<rparr> else \<lparr>Nodes = ns, Kinds = ks\<rparr>)"
  have q: "Nodes q = (if r then rev ns else ns)" "Kinds q = (if r then rev ks else ks)" "path_ok q"
    using p by (auto simp: q_def path_ok_def)
  obtain N n where N: "nodeChunks s = N @ [n]" using ne by (metis rev_exhaust)
  have "length (kindChunks s) = length (nodeChunks s)" using g(4) by (metis length_map)
  then obtain K k where K: "kindChunks s = K @ [k]" "length K = length N" using N by (cases "kindChunks s" rule: rev_cases) auto
  have "groups \<noteq> []" using g(2) N by auto
  then obtain G g' where G: "groups = G @ [g']" by (metis rev_exhaust)
  have items: "ch_items n = chunk_of Nodes g'" "ch_items k = chunk_of Kinds g'"
    "map ch_items N = map (chunk_of Nodes) G" "map ch_items K = map (chunk_of Kinds) G"
    "ch_cap k = ch_cap n" "map ch_cap N = map ch_cap K"
    using g(2,3,4) N K G by auto
  have len: "u16 (length ns) = length ns" using p by (simp add: path_ok_def u16_def)
  have at: "(K @ [k]) ! length N = k" "\<And>x. (K @ [k])[length N := x] = K @ [x]"
    using K(2) by (metis nth_append_length, metis list_update_length)
  have add: "sink_store s ns ks r = Some (s\<lparr>nodeChunks := N @ [n\<lparr>ch_items := ch_items n @ Nodes q\<rparr>],
      kindChunks := K @ [k\<lparr>ch_items := ch_items k @ Kinds q\<rparr>], lens := lens s @ [length ns], sink_n := sink_n s + 1\<rparr>)"
    using N K q len at by (simp add: sink_store_def Let_def idx_def upd_def)
  have klen: "length (Kinds q) \<le> length ns" using q p by (simp add: path_ok_def)
  have "sink_rep (s\<lparr>nodeChunks := N @ [n\<lparr>ch_items := ch_items n @ Nodes q\<rparr>],
      kindChunks := K @ [k\<lparr>ch_items := ch_items k @ Kinds q\<rparr>], lens := lens s @ [length ns], sink_n := sink_n s + 1\<rparr>)
      (ps @ [q])"
    unfolding sink_rep_def
  proof (intro conjI exI [of _ "G @ [g' @ [q]]"])
    show "concat (G @ [g' @ [q]]) = ps @ [q]" using g(1) G by simp
  qed (use rep items g(5,6) N K room lst klen q G in \<open>auto simp: sink_rep_def\<close>)
  then show ?thesis using add by (simp add: q_def)
qed

lemma kind_chunk_shorter:
  assumes "sink_rep s ps" and "nodeChunks s \<noteq> []"
  shows "length (ch_items (last (kindChunks s))) \<le> length (ch_items (last (nodeChunks s)))"
proof -
  obtain groups where g: "concat groups = ps" "map ch_items (nodeChunks s) = map (chunk_of Nodes) groups"
    "map ch_items (kindChunks s) = map (chunk_of Kinds) groups" "\<forall>p \<in> set ps. path_ok p"
    using assms(1) by (auto simp: sink_rep_def)
  have ne: "groups \<noteq> []" "kindChunks s \<noteq> []" using g(2,3) assms(2) by auto
  have "ch_items (last (nodeChunks s)) = chunk_of Nodes (last groups)"
    "ch_items (last (kindChunks s)) = chunk_of Kinds (last groups)"
    using g(2,3) ne assms(2) by (metis last_map)+
  moreover have "\<forall>p \<in> set (last groups). path_ok p" using g(1,4) ne by auto
  then have "length (chunk_of Kinds (last groups)) \<le> length (chunk_of Nodes (last groups))"
    by (induction "last groups") (auto simp: length_concat path_ok_def intro!: sum_list_mono)
  ultimately show ?thesis by simp
qed

lemma addChunk_rep:
  assumes "sink_rep s ps" and "0 < n"
  shows "sink_rep (addChunk s n) ps \<and> nodeChunks (addChunk s n) \<noteq> [] \<and>
    ch_items (last (nodeChunks (addChunk s n))) = [] \<and> ch_items (last (kindChunks (addChunk s n))) = [] \<and>
    n \<le> ch_cap (last (nodeChunks (addChunk s n)))"
proof -
  obtain groups where g: "concat groups = ps" "map ch_items (nodeChunks s) = map (chunk_of Nodes) groups"
    "map ch_items (kindChunks s) = map (chunk_of Kinds) groups"
    "map ch_cap (nodeChunks s) = map ch_cap (kindChunks s)"
    "\<forall>c \<in> set (nodeChunks s). length (ch_items c) \<le> ch_cap c"
    "\<forall>c \<in> set (kindChunks s). length (ch_items c) \<le> ch_cap c"
    using assms(1) by (auto simp: sink_rep_def)
  have "sink_rep (addChunk s n) ps" unfolding sink_rep_def
  proof (intro conjI exI [of _ "groups @ [[]]"])
    show "concat (groups @ [[]]) = ps" using g by simp
  qed (use g assms(1) in \<open>auto simp: addChunk_def Let_def sink_rep_def\<close>)
  then show ?thesis by (auto simp: addChunk_def Let_def)
qed

interpretation ps: path_store emptySink sink_add sink_reset sink_n sink_paths sink_rep
proof unfold_locales
  have empty: "sink_rep s []" if "nodeChunks s = []" "kindChunks s = []" "lens s = []" "sink_n s = 0" for s
    unfolding sink_rep_def using that by (auto intro!: exI [of _ "[]"])
  then show "sink_rep emptySink []" "\<And>s. sink_rep (sink_reset s) []"
    by (simp_all add: emptySink_def sink_reset_def)
  fix s ps ns ks r
  assume rep: "sink_rep s ps"
  show "sink_n s = length ps" using rep by (simp add: sink_rep_def)
  show "sink_paths s = Some ps" using rep chunks_paths_read
    by (auto simp: sink_paths_def sink_rep_def)
  assume p: "path_ok \<lparr>Nodes = ns, Kinds = ks\<rparr>"
  show "ok (sink_add s ns ks r) (\<lambda>s'. sink_rep s'
    (ps @ [if r then \<lparr>Nodes = rev ns, Kinds = rev ks\<rparr> else \<lparr>Nodes = ns, Kinds = ks\<rparr>]))"
  proof (cases "nodeChunks s = [] \<or> ch_cap (last (nodeChunks s)) - length (ch_items (last (nodeChunks s))) < length ns")
    case True
    have "0 < length ns" using p by (simp add: path_ok_def)
    from addChunk_rep [OF rep this] sink_store_rep [OF _ p, of "addChunk s (length ns)"]
    show ?thesis using True by (simp add: sink_add_def sink_room_def)
  next
    case False
    have fit: "length (ch_items (last (nodeChunks s))) \<le> ch_cap (last (nodeChunks s))"
      using rep False by (auto simp: sink_rep_def)
    then have room: "length (ch_items (last (nodeChunks s))) + length ns \<le> ch_cap (last (nodeChunks s))"
      using False by linarith
    have "nodeChunks s \<noteq> []" using False by blast
    from sink_store_rep [OF rep p this room kind_chunk_shorter [OF rep this], of r]
    show ?thesis unfolding sink_add_def sink_room_def if_not_P [OF False] .
  qed
qed

text \<open>
  C29. The path arena is a faithful list: whatever paths are added, of whatever lengths, forward
  or reversed, and however often the arena is reset in between, no operation panics and \<open>paths\<close> returns
  exactly the paths added since the last reset, in order, each root first; the count agrees with their number.
\<close>

theorem pathSink_roundtrip:
  assumes "\<forall>op \<in> set ops. addable op"
  shows "ok (foldM (run_op sink_add sink_reset) ops emptySink) (\<lambda>s.
    sink_paths s = Some (fold since_reset ops []) \<and> sink_n s = length (fold since_reset ops []))"
  by (rule ok_mono [OF ps.ops_rep [OF ps.rep_empty assms]]) (use ps.rep_size ps.rep_paths in fastforce)

theorem pathSink_roundtrip_witness:
  "ok (foldM (run_op sink_add sink_reset) [AddPath [8, 4] [2] False, ResetSink, AddPath [3, 1] [7] False, AddPath [5, 2, 9] [4, 6] True] emptySink)
     (\<lambda>s. sink_paths s = Some [\<lparr>Nodes = [3, 1], Kinds = [7]\<rparr>, \<lparr>Nodes = [9, 2, 5], Kinds = [6, 4]\<rparr>])"
  by (rule ok_mono [OF pathSink_roundtrip]) (auto simp: path_ok_def)

end
