(* ===== verification/Enumerate.thy ===== *)
theory Enumerate
  imports Bfs Sink
begin

text \<open>
  The depth-first enumerations \<open>enumerate\<close> and \<open>pairEnumerate\<close> of
  \<open>internal/engine/traverse/bfs.go\<close>. Both run the same loop over an explicit stack of frames with
  one shared walk that is cut back to the popped frame's depth; they differ in what they do at a
  node, which is the parameter \<open>act\<close> of \<open>dfs_loop\<close>. The top of the stack is the head of the list.
  The loop is a partial function: \<open>None\<close> is a panic or a run that never ends, and the theorems
  show that it returns. Cutting the walk to a depth beyond its length, which in Go would expose stale
  entries, is \<open>None\<close> here and shown never to happen.
\<close>

record frame =
  f_node :: nodeid
  f_kind :: kindid
  f_depth :: nat

datatype action = Skip | Emit | Expand "(nodeid \<times> kindid) list"

section \<open>The loop\<close>

definition cut :: "nat \<Rightarrow> 'a list \<Rightarrow> 'a list option" where
  "cut d xs = (if d \<le> length xs then Some (take d xs) else None)"

definition push :: "nat \<Rightarrow> (nodeid \<times> kindid) list \<Rightarrow> frame list \<Rightarrow> frame list" where
  "push d ws stack = fold (\<lambda>(w, k) st. \<lparr>f_node = w, f_kind = k, f_depth = u16 (d + 1)\<rparr> # st) ws stack"

definition cut_walk ::
    "frame \<Rightarrow> nodeid list \<Rightarrow> kindid list \<Rightarrow> (nodeid list \<times> kindid list) option" where
  "cut_walk cur walk walkKinds =
     do { w0 \<leftarrow> cut (f_depth cur) walk;
          k0 \<leftarrow> (if f_depth cur > 0
                 then do { k1 \<leftarrow> cut (f_depth cur - 1) walkKinds; Some (k1 @ [f_kind cur]) }
                 else Some []);
          Some (w0 @ [f_node cur], k0) }"

partial_function (option) dfs_loop ::
    "(nodeid list \<Rightarrow> action option) \<Rightarrow> int \<Rightarrow> bool \<Rightarrow> frame list \<Rightarrow> nodeid list \<Rightarrow> kindid list \<Rightarrow> memBudget \<Rightarrow> pathSink \<Rightarrow>
     (query_error option \<times> memBudget \<times> pathSink) option" where
  "dfs_loop act cap reverse stack walk walkKinds budget sink =
     (case stack of
        [] \<Rightarrow> Some (None, budget, sink)
      | cur # rest \<Rightarrow>
          do { (walk', walkKinds') \<leftarrow> cut_walk cur walk walkKinds;
               a \<leftarrow> act walk';
               case a of
                 Skip \<Rightarrow> dfs_loop act cap reverse rest walk' walkKinds' budget sink
               | Expand ws \<Rightarrow>
                   dfs_loop act cap reverse (push (f_depth cur) ws rest) walk' walkKinds' budget sink
               | Emit \<Rightarrow>
                   (case budget_add budget (length walk' * 12 + 48) of
                      Inl err \<Rightarrow> Some (Some err, budget, sink)
                    | Inr budget' \<Rightarrow>
                        do { sink' \<leftarrow> sink_add sink walk' walkKinds' reverse;
                             if cap > 0 \<and> int (sink_n sink') = cap then Some (None, budget', sink')
                             else dfs_loop act cap reverse rest walk' walkKinds' budget' sink' }) })"

text \<open>What \<open>enumerate\<close> does at the last node of the walk, with its distance buffer.\<close>

definition enum_child :: "scratch \<Rightarrow> kindmask option \<Rightarrow> int \<Rightarrow> nodeid \<times> kindid \<Rightarrow> (nodeid \<times> kindid) list \<Rightarrow> (nodeid \<times> kindid) list option" where
  "enum_child distBuf kinds du wk acc =
     (if \<not> kind_allowed kinds (snd wk) then Some acc
      else do { dw \<leftarrow> scratch_get distBuf (fst wk);
                case dw of None \<Rightarrow> Some acc
                | Some d \<Rightarrow> if d \<noteq> i8 (du - 1) then Some acc else Some (acc @ [wk]) })"

definition enum_act ::
    "adjacency \<Rightarrow> scratch \<Rightarrow> kindmask option \<Rightarrow> bool \<Rightarrow> nodeid list \<Rightarrow> action option" where
  "enum_act adj distBuf kinds forward walk =
     do { du \<leftarrow> scratch_get distBuf (last walk);
          case du of None \<Rightarrow> Some Skip
          | Some d \<Rightarrow>
              if d = 0 then Some (if length walk < 2 then Skip else Emit)
              else do { ws \<leftarrow> foldM (enum_child distBuf kinds d) (adj forward (last walk)) [];
                        Some (Expand ws) } }"

definition enumerate ::
    "adjacency \<Rightarrow> nodeid \<Rightarrow> scratch \<Rightarrow> kindmask option \<Rightarrow> int \<Rightarrow> memBudget \<Rightarrow> pathSink \<Rightarrow> bool \<Rightarrow>
     (query_error option \<times> memBudget \<times> pathSink) option" where
  "enumerate adj src distBuf kinds cap budget sink forward =
     dfs_loop (enum_act adj distBuf kinds forward) cap (\<not> forward)
       [\<lparr>f_node = src, f_kind = 0, f_depth = 0\<rparr>] [] [] budget sink"

text \<open>What \<open>pairEnumerate\<close> does at a node: it emits at \<open>t\<close> and follows hops on which both buffers agree.\<close>

definition pair_child ::
    "scratch \<Rightarrow> scratch \<Rightarrow> int \<Rightarrow> kindmask option \<Rightarrow> int \<Rightarrow> nodeid \<times> kindid \<Rightarrow> (nodeid \<times> kindid) list \<Rightarrow> (nodeid \<times> kindid) list option" where
  "pair_child scF scT D kinds du wk acc =
     (if \<not> kind_allowed kinds (snd wk) then Some acc
      else do { dw \<leftarrow> scratch_get scF (fst wk);
                case dw of None \<Rightarrow> Some acc
                | Some d \<Rightarrow>
                    if d \<noteq> i8 (du + 1) then Some acc
                    else do { dtw \<leftarrow> scratch_get scT (fst wk);
                              case dtw of None \<Rightarrow> Some acc
                              | Some dt \<Rightarrow> if dt \<noteq> D - d then Some acc else Some (acc @ [wk]) } })"

definition pair_act ::
    "adjacency \<Rightarrow> nodeid \<Rightarrow> int \<Rightarrow> kindmask option \<Rightarrow> scratch \<Rightarrow> scratch \<Rightarrow> nodeid list \<Rightarrow> action option" where
  "pair_act adj t D kinds scF scT walk =
     (if last walk = t then Some Emit
      else do { du \<leftarrow> scratch_get scF (last walk);
                case du of None \<Rightarrow> Some Skip
                | Some d \<Rightarrow> do { ws \<leftarrow> foldM (pair_child scF scT D kinds d) (adj True (last walk)) [];
                                 Some (Expand ws) } })"

definition pairEnumerate ::
    "adjacency \<Rightarrow> nodeid \<Rightarrow> nodeid \<Rightarrow> int \<Rightarrow> kindmask option \<Rightarrow> int \<Rightarrow> memBudget \<Rightarrow> scratch \<Rightarrow> scratch \<Rightarrow> pathSink \<Rightarrow>
     (query_error option \<times> memBudget \<times> pathSink) option" where
  "pairEnumerate adj r t D kinds cap budget scF scT sink =
     dfs_loop (pair_act adj t D kinds scF scT) cap False
       [\<lparr>f_node = r, f_kind = 0, f_depth = 0\<rparr>] [] [] budget sink"

section \<open>The loop against a recursive enumeration\<close>

text \<open>
  The reference: the walks that complete \<open>w\<close>, found by recursion, children in the order the stack
  yields them. \<open>n\<close> bounds the remaining depth; \<open>dfs_ok\<close> says that it is enough and that \<open>act\<close>
  never panics below \<open>w\<close>.
\<close>

fun dfs_ref :: "(nodeid list \<Rightarrow> action option) \<Rightarrow> nat \<Rightarrow> nodeid list \<Rightarrow> kindid list \<Rightarrow> (nodeid list \<times> kindid list) list" where
  "dfs_ref act 0 w ks = (case act w of Some Emit \<Rightarrow> [(w, ks)] | _ \<Rightarrow> [])"
| "dfs_ref act (Suc n) w ks =
     (case act w of Some Emit \<Rightarrow> [(w, ks)]
      | Some (Expand ws) \<Rightarrow> concat (map (\<lambda>(x, k). dfs_ref act n (w @ [x]) (ks @ [k])) (rev ws))
      | _ \<Rightarrow> [])"

fun dfs_ok :: "(nodeid list \<Rightarrow> action option) \<Rightarrow> nat \<Rightarrow> nodeid list \<Rightarrow> bool" where
  "dfs_ok act 0 w = (act w = Some Skip \<or> act w = Some Emit \<or> act w = Some (Expand []))"
| "dfs_ok act (Suc n) w =
     (case act w of None \<Rightarrow> False
      | Some (Expand ws) \<Rightarrow> (\<forall>(x, k) \<in> set ws. dfs_ok act n (w @ [x]))
      | _ \<Rightarrow> True)"

text \<open>Handing a list of walks to the sink, one by one, until the budget or the cap stops it.\<close>

fun emit_run :: "int \<Rightarrow> bool \<Rightarrow> (nodeid list \<times> kindid list) list \<Rightarrow> memBudget \<Rightarrow> pathSink \<Rightarrow>
    (bool \<times> query_error option \<times> memBudget \<times> pathSink) option" where
  "emit_run cap r [] b s = Some (False, None, b, s)"
| "emit_run cap r ((w, ks) # ps) b s =
     (case budget_add b (length w * 12 + 48) of
        Inl err \<Rightarrow> Some (True, Some err, b, s)
      | Inr b' \<Rightarrow>
          do { s' \<leftarrow> sink_add s w ks r;
               if cap > 0 \<and> int (sink_n s') = cap then Some (True, None, b', s')
               else emit_run cap r ps b' s' })"

lemma emit_run_append:
  "emit_run cap r (ps @ qs) b s =
     do { (stop, err, b', s') \<leftarrow> emit_run cap r ps b s;
          if stop then Some (stop, err, b', s') else emit_run cap r qs b' s' }"
proof (induction ps arbitrary: b s)
  case (Cons p ps)
  obtain w ks where "p = (w, ks)" by fastforce
  with Cons show ?case by (auto split: sum.split Option.bind_split)
qed simp

definition at_prefix :: "nodeid list \<Rightarrow> kindid list \<Rightarrow> nodeid list \<Rightarrow> kindid list \<Rightarrow> bool" where
  "at_prefix w ks walk wk \<longleftrightarrow> length w \<le> length walk \<and> take (length w) walk = w \<and>
     length ks = length w - 1 \<and> length ks \<le> length wk \<and> take (length ks) wk = ks"

lemma at_prefix_butlast:
  assumes "at_prefix (w @ [x]) (if w = [] then [] else ks @ [k]) walk wk" and "length ks = length w - 1"
  shows "at_prefix w ks walk wk"
proof (cases "w = []")
  case True
  then show ?thesis using assms by (simp add: at_prefix_def)
next
  case False
  have wk: "take (Suc (length ks)) wk = ks @ [k]" "Suc (length ks) \<le> length wk"
    using assms(1) False by (auto simp: at_prefix_def)
  have w: "take (Suc (length w)) walk = w @ [x]" "Suc (length w) \<le> length walk"
    using assms(1) by (auto simp: at_prefix_def)
  have "take (length ks) wk = ks" using arg_cong [OF wk(1), of "take (length ks)"] by simp
  moreover have "take (length w) walk = w" using arg_cong [OF w(1), of "take (length w)"] by simp
  ultimately show ?thesis using wk(2) w(2) assms(2) by (simp add: at_prefix_def)
qed

lemma cut_walk_prefix:
  assumes "at_prefix w ks walk wk"
  shows "cut_walk \<lparr>f_node = x, f_kind = k, f_depth = length w\<rparr> walk wk =
    Some (w @ [x], if w = [] then [] else ks @ [k])"
  using assms by (auto simp: cut_walk_def cut_def at_prefix_def)

lemma push_rev: "push d ws stack = map (\<lambda>(w, k). \<lparr>f_node = w, f_kind = k, f_depth = u16 (d + 1)\<rparr>) (rev ws) @ stack"
  by (induction ws arbitrary: stack) (auto simp: push_def)

text \<open>
  The loop on a frame that extends the walk \<open>w\<close>: it emits exactly the reference's walks below that
  frame, and then goes on with the rest of the stack, the walk still beginning with \<open>w\<close>.
\<close>

definition continues where
  "continues act cap r rest w ks ps b s res \<longleftrightarrow> (\<exists>walk wk. at_prefix w ks walk wk \<and>
     res = do { (stop, err, b', s') \<leftarrow> emit_run cap r ps b s;
                if stop then Some (err, b', s') else dfs_loop act cap r rest walk wk b' s' })"

lemma dfs_children:
  assumes step: "\<And>x k rest walk wk b s. (x, k) \<in> set cs \<Longrightarrow> at_prefix w ks walk wk \<Longrightarrow>
      continues act cap r rest w ks (ref x k) b s
        (dfs_loop act cap r (\<lparr>f_node = x, f_kind = k, f_depth = length w\<rparr> # rest) walk wk b s)"
    and "at_prefix w ks walk wk"
  shows "continues act cap r rest w ks (concat (map (\<lambda>(x, k). ref x k) cs)) b s
    (dfs_loop act cap r (map (\<lambda>(x, k). \<lparr>f_node = x, f_kind = k, f_depth = length w\<rparr>) cs @ rest) walk wk b s)"
  using assms
proof (induction cs arbitrary: walk wk b s)
  case Nil
  then show ?case by (auto simp: continues_def)
next
  case (Cons c cs)
  obtain x k where c: "c = (x, k)" by fastforce
  let ?fs = "map (\<lambda>(x, k). \<lparr>f_node = x, f_kind = k, f_depth = length w\<rparr>) cs @ rest"
  obtain walk1 wk1 where 1: "at_prefix w ks walk1 wk1"
    "dfs_loop act cap r (\<lparr>f_node = x, f_kind = k, f_depth = length w\<rparr> # ?fs) walk wk b s =
      do { (stop, err, b', s') \<leftarrow> emit_run cap r (ref x k) b s;
           if stop then Some (err, b', s') else dfs_loop act cap r ?fs walk1 wk1 b' s' }"
    using Cons.prems(1) [of x k walk wk ?fs b s] Cons.prems(2) c by (auto simp: continues_def)
  show ?case
  proof (cases "emit_run cap r (ref x k) b s")
    case None
    then show ?thesis using 1 c by (auto simp: continues_def emit_run_append)
  next
    case (Some res)
    obtain stop err b' s' where res: "res = (stop, err, b', s')" by (metis prod_cases4)
    show ?thesis
    proof (cases stop)
      case True
      then show ?thesis using 1 c Some res by (auto simp: continues_def emit_run_append)
    next
      case False
      obtain walk2 wk2 where 2: "at_prefix w ks walk2 wk2"
        "dfs_loop act cap r ?fs walk1 wk1 b' s' =
          do { (stop, err, b', s') \<leftarrow> emit_run cap r (concat (map (\<lambda>(x, k). ref x k) cs)) b' s';
               if stop then Some (err, b', s') else dfs_loop act cap r rest walk2 wk2 b' s' }"
        using Cons.IH [of walk1 wk1 b' s'] Cons.prems(1) 1(1) by (auto simp: continues_def)
      show ?thesis unfolding continues_def
        by (rule exI [of _ walk2], rule exI [of _ wk2]) (use 1 2 c Some res False in \<open>simp add: emit_run_append\<close>)
    qed
  qed
qed

lemma dfs_leaf:
  fixes k :: kindid
  assumes "act (w @ [x]) = Some a" and "a = Skip \<or> a = Emit \<or> a = Expand []" and pre: "at_prefix w ks walk wk"
  defines "ks' \<equiv> if w = [] then [] else ks @ [k]"
  shows "continues act cap r rest w ks (if a = Emit then [(w @ [x], ks')] else []) b s
    (dfs_loop act cap r (\<lparr>f_node = x, f_kind = k, f_depth = length w\<rparr> # rest) walk wk b s)"
proof -
  have pre': "at_prefix w ks (w @ [x]) ks'" using pre by (auto simp: at_prefix_def ks'_def)
  note unf = dfs_loop.simps [of act cap r "\<lparr>f_node = x, f_kind = k, f_depth = length w\<rparr> # rest"]
  have "dfs_loop act cap r (\<lparr>f_node = x, f_kind = k, f_depth = length w\<rparr> # rest) walk wk b s =
      do { (stop, err, b', s') \<leftarrow> emit_run cap r (if a = Emit then [(w @ [x], ks')] else []) b s;
           if stop then Some (err, b', s') else dfs_loop act cap r rest (w @ [x]) ks' b' s' }"
    using assms(1,2) unfolding unf list.case cut_walk_prefix [OF pre] ks'_def [symmetric]
    by (elim disjE) (auto simp: push_def split: sum.split Option.bind_split)
  then show ?thesis using pre' unfolding continues_def by blast
qed

lemma dfs_loop_frame:
  assumes "dfs_ok act n (w @ [x])" and "at_prefix w ks walk wk" and "length w + n < 2 ^ 16 - 1"
  shows "continues act cap r rest w ks (dfs_ref act n (w @ [x]) (if w = [] then [] else ks @ [k])) b s
    (dfs_loop act cap r (\<lparr>f_node = x, f_kind = k, f_depth = length w\<rparr> # rest) walk wk b s)"
  using assms
proof (induction n arbitrary: w x ks k walk wk rest b s)
  case 0
  then obtain a where a: "act (w @ [x]) = Some a" "a = Skip \<or> a = Emit \<or> a = Expand []" by auto
  from dfs_leaf [where act = act and w = w and x = x, OF a 0(2), of cap r rest k b s] a
  show ?case by (auto split: if_splits)
next
  case (Suc n)
  let ?ks = "if w = [] then [] else ks @ [k]"
  have len: "length ks = length w - 1" using Suc.prems(2) by (simp add: at_prefix_def)
  have pre': "at_prefix (w @ [x]) ?ks (w @ [x]) ?ks" using len by (auto simp: at_prefix_def)
  note unf = dfs_loop.simps [of act cap r "\<lparr>f_node = x, f_kind = k, f_depth = length w\<rparr> # rest"]
  from Suc.prems(1) consider "act (w @ [x]) = Some Skip" | "act (w @ [x]) = Some Emit"
    | (exp) ws where "act (w @ [x]) = Some (Expand ws)" "\<forall>(y, k) \<in> set ws. dfs_ok act n ((w @ [x]) @ [y])"
    by (auto split: option.splits action.splits)
  then show ?case
  proof cases
    case exp
    have step: "continues act cap r rest (w @ [x]) ?ks (dfs_ref act n ((w @ [x]) @ [y]) (?ks @ [j])) b s
        (dfs_loop act cap r (\<lparr>f_node = y, f_kind = j, f_depth = length (w @ [x])\<rparr> # rest) walk wk b s)"
      if "(y, j) \<in> set (rev ws)" "at_prefix (w @ [x]) ?ks walk wk" for y j rest walk wk b s
      using Suc.IH [of "w @ [x]" y ?ks walk wk rest j b s] that exp(2) Suc.prems(3) by auto
    have u: "u16 (length w + 1) = length (w @ [x])" using Suc.prems(3) by (simp add: u16_def)
    have "continues act cap r rest (w @ [x]) ?ks
        (concat (map (\<lambda>(y, j). dfs_ref act n ((w @ [x]) @ [y]) (?ks @ [j])) (rev ws))) b s
        (dfs_loop act cap r (push (length w) ws rest) (w @ [x]) ?ks b s)"
      unfolding push_rev u by (rule dfs_children [OF step pre'])
    then obtain walk' wk' where c: "at_prefix (w @ [x]) ?ks walk' wk'"
      "dfs_loop act cap r (push (length w) ws rest) (w @ [x]) ?ks b s =
        do { (stop, err, b', s') \<leftarrow> emit_run cap r
               (concat (map (\<lambda>(y, j). dfs_ref act n ((w @ [x]) @ [y]) (?ks @ [j])) (rev ws))) b s;
             if stop then Some (err, b', s') else dfs_loop act cap r rest walk' wk' b' s' }"
      by (auto simp: continues_def)
    show ?thesis unfolding continues_def
    proof (rule exI [of _ walk'], rule exI [of _ wk'], intro conjI)
      show "at_prefix w ks walk' wk'" using c(1) len by (rule at_prefix_butlast)
    qed (use c(2) exp(1) in \<open>simp add: unf cut_walk_prefix [OF Suc.prems(2)]\<close>)
  qed (use dfs_leaf [where act = act and w = w and x = x, OF _ _ Suc.prems(2), of _ cap r rest k b s] in simp_all)
qed

section \<open>Emission\<close>

definition orient :: "bool \<Rightarrow> nodeid list \<times> kindid list \<Rightarrow> path" where
  "orient r p = (if r then \<lparr>Nodes = rev (fst p), Kinds = rev (snd p)\<rparr> else \<lparr>Nodes = fst p, Kinds = snd p\<rparr>)"

definition walk_ok :: "nodeid list \<times> kindid list \<Rightarrow> bool" where
  "walk_ok p \<longleftrightarrow> path_ok \<lparr>Nodes = fst p, Kinds = snd p\<rparr>"

text \<open>How many of the walks \<open>qs\<close> are emitted when nothing but the cap stops the run.\<close>

definition emitted :: "int \<Rightarrow> nat \<Rightarrow> nat \<Rightarrow> nat" where
  "emitted cap have len = (if cap > 0 \<and> int have < cap then min len (nat cap - have) else len)"

lemma budget_add_limit: "budget_add b n = Inr b' \<Longrightarrow> limit b' = limit b \<and> reserved b' = reserved b"
  by (auto simp: budget_add_def split: if_splits)

lemma budget_add_err: "budget_add b n = Inl e \<Longrightarrow> e = ErrMemoryLimit \<and> 0 < limit b"
  by (auto simp: budget_add_def split: if_splits)

lemma emit_run_spec:
  assumes "sink_rep s ps" and "\<forall>q \<in> set qs. walk_ok q"
  shows "ok (emit_run cap r qs b s) (\<lambda>(stop, err, b', s').
    limit b' = limit b \<and> reserved b' = reserved b \<and> (stop \<or> err = None) \<and>
    (case err of
       None \<Rightarrow> sink_rep s' (ps @ map (orient r) (take (emitted cap (length ps) (length qs)) qs))
     | Some e \<Rightarrow> e = ErrMemoryLimit \<and> 0 < limit b \<and> (\<exists>m < length qs. sink_rep s' (ps @ map (orient r) (take m qs)))))"
  using assms
proof (induction qs arbitrary: ps b s)
  case Nil
  then show ?case by (simp add: emitted_def)
next
  case (Cons q qs)
  obtain w ks where q: "q = (w, ks)" by fastforce
  show ?case
  proof (cases "budget_add b (length w * 12 + 48)")
    case (Inl e)
    then show ?thesis using budget_add_err [OF Inl] Cons.prems(1) q by (auto intro!: exI [of _ 0])
  next
    case (Inr b1)
    note lim = budget_add_limit [OF Inr]
    have wok: "path_ok \<lparr>Nodes = w, Kinds = ks\<rparr>" using Cons.prems(2) q by (simp add: walk_ok_def)
    have o: "orient r q = (if r then \<lparr>Nodes = rev w, Kinds = rev ks\<rparr> else \<lparr>Nodes = w, Kinds = ks\<rparr>)"
      by (simp add: orient_def q)
    obtain s1 where s1: "sink_add s w ks r = Some s1" "sink_rep s1 (ps @ [orient r q])"
      using ps.rep_add [OF Cons.prems(1) wok, of r] unfolding o ok_iff by blast
    have n: "sink_n s1 = length ps + 1" using ps.rep_size [OF s1(2)] by simp
    show ?thesis
    proof (cases "cap > 0 \<and> int (sink_n s1) = cap")
      case True
      then have "emitted cap (length ps) (length (q # qs)) = 1" using n by (auto simp: emitted_def)
      then show ?thesis using True Inr q s1 lim by simp
    next
      case False
      then have e: "emitted cap (length ps) (length (q # qs)) = Suc (emitted cap (length (ps @ [orient r q])) (length qs))"
        using n by (auto simp: emitted_def min_def nat_diff_distrib' Suc_diff_le)
      have "ok (emit_run cap r qs b1 s1) (\<lambda>(stop, err, b', s').
        limit b' = limit b1 \<and> reserved b' = reserved b1 \<and> (stop \<or> err = None) \<and>
        (case err of
           None \<Rightarrow> sink_rep s' ((ps @ [orient r q]) @ map (orient r) (take (emitted cap (length (ps @ [orient r q])) (length qs)) qs))
         | Some e \<Rightarrow> e = ErrMemoryLimit \<and> 0 < limit b1 \<and>
             (\<exists>m < length qs. sink_rep s' ((ps @ [orient r q]) @ map (orient r) (take m qs)))))"
        using Cons.IH [OF s1(2)] Cons.prems(2) by simp
      then obtain stop err b2 s2 where r: "emit_run cap r qs b1 s1 = Some (stop, err, b2, s2)"
        "limit b2 = limit b1" "reserved b2 = reserved b1" "stop \<or> err = None"
        "case err of
           None \<Rightarrow> sink_rep s2 ((ps @ [orient r q]) @ map (orient r) (take (emitted cap (length (ps @ [orient r q])) (length qs)) qs))
         | Some e \<Rightarrow> e = ErrMemoryLimit \<and> 0 < limit b1 \<and>
             (\<exists>m < length qs. sink_rep s2 ((ps @ [orient r q]) @ map (orient r) (take m qs)))"
        by (auto simp: ok_iff)
      have run: "emit_run cap r (q # qs) b s = Some (stop, err, b2, s2)"
        using r(1) Inr s1(1) False by (auto simp: q)
      show ?thesis
      proof (cases err)
        case None
        then show ?thesis unfolding run e using r lim by simp
      next
        case (Some er)
        then obtain m where "m < length qs" "sink_rep s2 ((ps @ [orient r q]) @ map (orient r) (take m qs))"
          using r(5) by auto
        then have "\<exists>m < length (q # qs). sink_rep s2 (ps @ map (orient r) (take m (q # qs)))"
          by (intro exI [of _ "Suc m"]) simp
        then show ?thesis unfolding run using r lim Some by simp
      qed
    qed
  qed
qed

text \<open>
  What an enumeration of the paths \<open>L\<close> does to a sink that holds \<open>ps\<close>: it adds them in order, up
  to the cap; when the memory budget, if there is one, refuses a path it stops with that error, the
  paths added so far still there.
\<close>

definition emits :: "int \<Rightarrow> memBudget \<Rightarrow> path list \<Rightarrow> path list \<Rightarrow> query_error option \<times> memBudget \<times> pathSink \<Rightarrow> bool" where
  "emits cap b ps L = (\<lambda>(err, b', s'). limit b' = limit b \<and> reserved b' = reserved b \<and>
     (case err of
        None \<Rightarrow> sink_rep s' (ps @ take (emitted cap (length ps) (length L)) L)
      | Some e \<Rightarrow> e = ErrMemoryLimit \<and> 0 < limit b \<and> (\<exists>m < length L. sink_rep s' (ps @ take m L))))"

text \<open>The loop from a root frame, in terms of the reference.\<close>

lemma dfs_loop_root:
  assumes "dfs_ok act n [x]" and "n < 2 ^ 16 - 1" and "sink_rep s ps"
    and "\<forall>q \<in> set (dfs_ref act n [x] []). walk_ok q"
  shows "ok (dfs_loop act cap r [\<lparr>f_node = x, f_kind = 0, f_depth = 0\<rparr>] [] [] b s)
    (emits cap b ps (map (orient r) (dfs_ref act n [x] [])))"
proof -
  let ?L = "dfs_ref act n [x] []"
  have "at_prefix [] [] [] []" by (simp add: at_prefix_def)
  from dfs_loop_frame [of act n "[]" x "[]" "[]" "[]" cap r "[]" 0 b s] this assms(1,2)
  obtain walk wk where loop: "dfs_loop act cap r [\<lparr>f_node = x, f_kind = 0, f_depth = 0\<rparr>] [] [] b s =
      do { (stop, err, b', s') \<leftarrow> emit_run cap r ?L b s;
           if stop then Some (err, b', s') else dfs_loop act cap r [] walk wk b' s' }"
    by (auto simp: continues_def)
  have fin: "dfs_loop act cap r [] walk wk b' s' = Some (None, b', s')" for b' s'
    by (simp add: dfs_loop.simps [of _ _ _ "[]"])
  obtain stop err b' s' where e: "emit_run cap r ?L b s = Some (stop, err, b', s')"
    "limit b' = limit b" "reserved b' = reserved b" "stop \<or> err = None"
    "case err of
       None \<Rightarrow> sink_rep s' (ps @ map (orient r) (take (emitted cap (length ps) (length ?L)) ?L))
     | Some e \<Rightarrow> e = ErrMemoryLimit \<and> 0 < limit b \<and> (\<exists>m < length ?L. sink_rep s' (ps @ map (orient r) (take m ?L)))"
    using emit_run_spec [OF assms(3,4), of cap r b] by (auto simp: ok_iff)
  show ?thesis using e loop fin by (cases stop; cases err) (auto simp: emits_def take_map)
qed

section \<open>Shortest walks\<close>

fun is_walk :: "adjacency \<Rightarrow> bool \<Rightarrow> kindmask option \<Rightarrow> nodeid list \<Rightarrow> kindid list \<Rightarrow> bool" where
  "is_walk adj fwd kinds [x] [] = True"
| "is_walk adj fwd kinds (x # y # ns) (k # ks) =
     ((y, k) \<in> set (adj fwd x) \<and> kind_allowed kinds k \<and> is_walk adj fwd kinds (y # ns) ks)"
| "is_walk adj fwd kinds _ _ = False"

text \<open>In- and out-adjacency list the same edges, each once.\<close>

definition dual :: "adjacency \<Rightarrow> bool" where
  "dual adj \<longleftrightarrow> (\<forall>u w k. (w, k) \<in> set (adj True u) \<longleftrightarrow> (u, k) \<in> set (adj False w)) \<and>
     (\<forall>b u. distinct (adj b u))"

lemma dual_flip: "dual adj \<Longrightarrow> (w, k) \<in> set (adj fwd u) \<longleftrightarrow> (u, k) \<in> set (adj (\<not> fwd) w)"
  by (cases fwd) (auto simp: dual_def)

lemma hop_flip: "dual adj \<Longrightarrow> hop adj (\<not> fwd) kinds u w = hop adj fwd kinds w u"
  using dual_flip [of adj w _ "\<not> fwd" u] by (auto simp: hop_def)

lemma relpowp_flip:
  fixes R E :: "'a \<Rightarrow> 'a \<Rightarrow> bool"
  shows "(\<And>u w. R u w = E w u) \<Longrightarrow> (R ^^ d) s v = (E ^^ d) v s"
proof (induction d arbitrary: s v)
  case (Suc d)
  have "(R ^^ Suc d) s v \<longleftrightarrow> (\<exists>u. (R ^^ d) s u \<and> R u v)" by auto
  also have "\<dots> \<longleftrightarrow> (\<exists>u. E v u \<and> (E ^^ d) u s)" using Suc.IH [OF Suc.prems] Suc.prems by blast
  also have "\<dots> \<longleftrightarrow> (E ^^ Suc d) v s" by (metis relpowp_Suc_D2 relpowp_Suc_I2)
  finally show ?case .
qed auto

lemma at_dist_flip:
  assumes "dual adj"
  shows "at_dist (hop adj (\<not> fwd) kinds) s d v = at_dist (hop adj fwd kinds) v d s"
  unfolding at_dist_def by (simp add: relpowp_flip [OF hop_flip [OF assms]])

lemma is_walk_relpowp:
  "is_walk adj fwd kinds ns ks \<Longrightarrow> (hop adj fwd kinds ^^ length ks) (hd ns) (last ns)"
proof (induction adj fwd kinds ns ks rule: is_walk.induct)
  case (2 adj fwd kinds x y ns k ks)
  have rest: "(hop adj fwd kinds ^^ length ks) y (last (y # ns))" using 2 by simp
  have "hop adj fwd kinds x y" using 2(2) unfolding hop_def by auto
  from relpowp_Suc_I2 [OF this rest] show ?case by (simp del: relpowp.simps)
qed auto

lemma is_walk_length: "is_walk adj fwd kinds ns ks \<Longrightarrow> ns \<noteq> [] \<and> length ks = length ns - 1"
  by (induction adj fwd kinds ns ks rule: is_walk.induct) auto

text \<open>
  \<open>walks_of\<close> is the walks of \<open>d\<close> hops from \<open>u\<close> to \<open>v\<close>, with the kind of every hop, and
  \<open>shortest_walks\<close> those of the pair's own distance, within \<open>lim\<close> hops and not of length zero.
\<close>

definition walks_of ::
    "adjacency \<Rightarrow> bool \<Rightarrow> kindmask option \<Rightarrow> nodeid \<Rightarrow> nodeid \<Rightarrow> nat \<Rightarrow> (nodeid list \<times> kindid list) set" where
  "walks_of adj fwd kinds u v d = {(ns, ks). is_walk adj fwd kinds ns ks \<and> hd ns = u \<and> last ns = v \<and> length ks = d}"

definition shortest_walks ::
    "adjacency \<Rightarrow> bool \<Rightarrow> kindmask option \<Rightarrow> nat \<Rightarrow> nodeid \<Rightarrow> nodeid \<Rightarrow> (nodeid list \<times> kindid list) set" where
  "shortest_walks adj fwd kinds lim u v =
     {(ns, ks). \<exists>d \<le> lim. 0 < d \<and> at_dist (hop adj fwd kinds) u d v \<and> (ns, ks) \<in> walks_of adj fwd kinds u v d}"

lemma walks_of_0: "walks_of adj fwd kinds u v 0 = (if u = v then {([u], [])} else {})"
proof -
  have "is_walk adj fwd kinds ns [] \<longleftrightarrow> (\<exists>x. ns = [x])" for ns
    by (cases "(adj, fwd, kinds, ns, [] :: kindid list)" rule: is_walk.cases) auto
  then show ?thesis by (auto simp: walks_of_def)
qed

lemma walks_of_Suc:
  "walks_of adj fwd kinds u v (Suc d) =
     {(u # ns, k # ks) | x k ns ks. (x, k) \<in> set (adj fwd u) \<and> kind_allowed kinds k \<and>
        (ns, ks) \<in> walks_of adj fwd kinds x v d}" (is "?L = ?R")
proof
  show "?L \<subseteq> ?R"
  proof
    fix p assume p: "p \<in> ?L"
    obtain ns ks where ns: "p = (ns, ks)" "is_walk adj fwd kinds ns ks" "length ks = Suc d" "hd ns = u" "last ns = v"
      using p by (auto simp: walks_of_def)
    then obtain y ys k ks' where "ns = u # y # ys" "ks = k # ks'" "(y, k) \<in> set (adj fwd u)" "kind_allowed kinds k"
      "is_walk adj fwd kinds (y # ys) ks'"
      by (cases "(adj, fwd, kinds, ns, ks)" rule: is_walk.cases) auto
    then show "p \<in> ?R" using ns by (auto simp: walks_of_def)
  qed
  show "?R \<subseteq> ?L"
  proof
    fix p assume p: "p \<in> ?R"
    then obtain x k ns ks where n: "p = (u # ns, k # ks)" "(x, k) \<in> set (adj fwd u)" "kind_allowed kinds k"
      "is_walk adj fwd kinds ns ks" "hd ns = x" "last ns = v" "length ks = d"
      by (auto simp: walks_of_def)
    then obtain ys where "ns = x # ys" using is_walk_length [OF n(4)] by (cases ns) auto
    then show "p \<in> ?L" using n by (auto simp: walks_of_def)
  qed
qed


lemma is_walk_hd: "(ns, ks) \<in> walks_of adj fwd kinds u v d \<Longrightarrow> ns \<noteq> [] \<and> hd ns = u"
  using is_walk_length by (auto simp: walks_of_def)

section \<open>What the reference enumerates\<close>

text \<open>
  A child filter given as a predicate: the list the hop loop pushes is the admitted part of the
  adjacency, in order.
\<close>

lemma foldM_filter:
  assumes "\<And>x acc. x \<in> set xs \<Longrightarrow> f x acc = Some (if P x then acc @ [x] else acc)"
  shows "foldM f xs acc = Some (acc @ filter P xs)"
  using assms by (induction xs arbitrary: acc) auto

text \<open>
  A descent: at a node with \<open>e\<close> hops to go the action emits when \<open>e = 0\<close> and otherwise expands
  exactly the children from which the end is \<open>e - 1\<close> hops away. The reference then lists the walks of
  exactly \<open>e\<close> hops to the end, each once.
\<close>

definition descends where
  "descends act adj fwd kinds v I \<longleftrightarrow>
     (\<forall>w. w \<noteq> [] \<longrightarrow> I 0 w \<longrightarrow> act w = Some Emit \<and> last w = v) \<and>
     (\<forall>w e. w \<noteq> [] \<longrightarrow> I (Suc e) w \<longrightarrow>
        (\<exists>P. act w = Some (Expand (filter P (adj fwd (last w)))) \<and>
             (\<forall>x k. (x, k) \<in> set (adj fwd (last w)) \<longrightarrow>
                (P (x, k) \<longleftrightarrow> kind_allowed kinds k \<and> (hop adj fwd kinds ^^ e) x v)) \<and>
             (\<forall>x k. (x, k) \<in> set (adj fwd (last w)) \<longrightarrow> P (x, k) \<longrightarrow> I e (w @ [x]))))"

lemma walks_of_relpowp: "walks_of adj fwd kinds u v d \<noteq> {} \<Longrightarrow> (hop adj fwd kinds ^^ d) u v"
  using is_walk_relpowp by (fastforce simp: walks_of_def)

lemma descends_step:
  assumes "descends act adj fwd kinds v I" and "w \<noteq> []" and "I (Suc e) w"
  obtains P where "act w = Some (Expand (filter P (adj fwd (last w))))"
    and "\<And>x k. (x, k) \<in> set (adj fwd (last w)) \<Longrightarrow> P (x, k) \<longleftrightarrow> kind_allowed kinds k \<and> (hop adj fwd kinds ^^ e) x v"
    and "\<And>x k. (x, k) \<in> set (adj fwd (last w)) \<Longrightarrow> P (x, k) \<Longrightarrow> I e (w @ [x])"
proof -
  have "\<exists>P. act w = Some (Expand (filter P (adj fwd (last w)))) \<and>
     (\<forall>x k. (x, k) \<in> set (adj fwd (last w)) \<longrightarrow>
        (P (x, k) \<longleftrightarrow> kind_allowed kinds k \<and> (hop adj fwd kinds ^^ e) x v)) \<and>
     (\<forall>x k. (x, k) \<in> set (adj fwd (last w)) \<longrightarrow> P (x, k) \<longrightarrow> I e (w @ [x]))"
    using assms(1) [unfolded descends_def, THEN conjunct2] assms(2,3) by simp
  then show thesis using that by (elim exE conjE) simp
qed

lemma dfs_ref_walks:
  assumes d: "descends act adj fwd kinds v I" and "\<And>b u. distinct (adj b u)" and "w \<noteq> []" and "I e w" and "e \<le> n"
  shows "dfs_ok act n w" (is ?ok)
    and "set (dfs_ref act n w ks) =
      {(w @ tl ns, ks @ js) | ns js. (ns, js) \<in> walks_of adj fwd kinds (last w) v e}" (is ?set)
    and "distinct (dfs_ref act n w ks)" (is ?dist)
proof -
  have "?ok \<and> ?set \<and> ?dist" using assms(3-)
  proof (induction n arbitrary: w e ks)
    case 0
    then have "act w = Some Emit" "last w = v" using d by (auto simp: descends_def)
    then show ?case using 0 by (simp add: walks_of_0)
  next
    case (Suc n)
    show ?case
    proof (cases e)
      case 0
      then have "act w = Some Emit" "last w = v" using d Suc.prems by (auto simp: descends_def)
      then show ?thesis using 0 by (simp add: walks_of_0)
    next
      case (Suc e')
      obtain P where P: "act w = Some (Expand (filter P (adj fwd (last w))))"
        "\<And>x k. (x, k) \<in> set (adj fwd (last w)) \<Longrightarrow> P (x, k) \<longleftrightarrow> kind_allowed kinds k \<and> (hop adj fwd kinds ^^ e') x v"
        "\<And>x k. (x, k) \<in> set (adj fwd (last w)) \<Longrightarrow> P (x, k) \<Longrightarrow> I e' (w @ [x])"
        using descends_step [OF d Suc.prems(1)] Suc.prems(2) \<open>e = Suc e'\<close> by metis
      let ?cs = "filter P (adj fwd (last w))"
      have ih: "dfs_ok act n (w @ [x]) \<and>
          set (dfs_ref act n (w @ [x]) (ks @ [k])) =
            {((w @ [x]) @ tl ns, (ks @ [k]) @ js) | ns js. (ns, js) \<in> walks_of adj fwd kinds x v e'} \<and>
          distinct (dfs_ref act n (w @ [x]) (ks @ [k]))" if "(x, k) \<in> set ?cs" for x k
        using Suc.IH [of "w @ [x]" e' "ks @ [k]"] P(3) that Suc.prems(3) \<open>e = Suc e'\<close> by auto
      have ok: "dfs_ok act (Suc n) w" using P(1) ih by auto
      have "set (dfs_ref act (Suc n) w ks) =
          (\<Union>(x, k) \<in> set ?cs. {((w @ [x]) @ tl ns, (ks @ [k]) @ js) | ns js. (ns, js) \<in> walks_of adj fwd kinds x v e'})"
      proof -
        have "set (dfs_ref act (Suc n) w ks) = (\<Union>c \<in> set ?cs. set (case c of (x, k) \<Rightarrow> dfs_ref act n (w @ [x]) (ks @ [k])))"
          using P(1) by simp
        also have "\<dots> = (\<Union>c \<in> set ?cs. case c of (x, k) \<Rightarrow>
            {((w @ [x]) @ tl ns, (ks @ [k]) @ js) | ns js. (ns, js) \<in> walks_of adj fwd kinds x v e'})"
          using ih by (intro SUP_cong refl) (auto split: prod.split)
        finally show ?thesis .
      qed
      also have "\<dots> = {(w @ tl ns, ks @ js) | ns js. (ns, js) \<in> walks_of adj fwd kinds (last w) v e}"
        (is "?L = ?R")
      proof
        show "?L \<subseteq> ?R"
        proof clarify
          fix x k ns js
          assume a: "(x, k) \<in> set ?cs" "(ns, js) \<in> walks_of adj fwd kinds x v e'"
          then have "(last w # ns, k # js) \<in> walks_of adj fwd kinds (last w) v e"
            using P(2) unfolding \<open>e = Suc e'\<close> walks_of_Suc by auto
          moreover have "ns = x # tl ns" using is_walk_hd [OF a(2)] by (cases ns) auto
          ultimately show "\<exists>ns' js'. ((w @ [x]) @ tl ns, (ks @ [k]) @ js) = (w @ tl ns', ks @ js') \<and>
              (ns', js') \<in> walks_of adj fwd kinds (last w) v e"
            by (intro exI [of _ "last w # ns"] exI [of _ "k # js"]) auto
        qed
        show "?R \<subseteq> ?L"
        proof clarify
          fix ns js
          assume "(ns, js) \<in> walks_of adj fwd kinds (last w) v e"
          then obtain x k ns' js' where n: "ns = last w # ns'" "js = k # js'" "(x, k) \<in> set (adj fwd (last w))"
            "kind_allowed kinds k" "(ns', js') \<in> walks_of adj fwd kinds x v e'"
            unfolding \<open>e = Suc e'\<close> walks_of_Suc by auto
          then have "P (x, k)" using P(2) walks_of_relpowp by blast
          moreover have "ns' = x # tl ns'" using is_walk_hd [OF n(5)] by (cases ns') auto
          ultimately show "(w @ tl ns, ks @ js) \<in> ?L" using n by force
        qed
      qed
      finally have set: "set (dfs_ref act (Suc n) w ks) = \<dots>" .
      have "distinct (concat (map (\<lambda>(x, k). dfs_ref act n (w @ [x]) (ks @ [k])) (rev ?cs)))"
      proof (rule distinct_concat_map)
        show "distinct (rev ?cs)" using assms(2) by simp
        show "distinct (case c of (x, k) \<Rightarrow> dfs_ref act n (w @ [x]) (ks @ [k]))" if "c \<in> set (rev ?cs)" for c
          using ih that by (cases c) auto
        show "set (case c of (x, k) \<Rightarrow> dfs_ref act n (w @ [x]) (ks @ [k])) \<inter>
            set (case c' of (x, k) \<Rightarrow> dfs_ref act n (w @ [x]) (ks @ [k])) = {}"
          if "c \<in> set (rev ?cs)" "c' \<in> set (rev ?cs)" "c \<noteq> c'" for c c'
          using ih that by (cases c, cases c') auto
      qed
      then show ?thesis using ok set P(1) by simp
    qed
  qed
  then show ?ok ?set ?dist by auto
qed

section \<open>Enumeration over a distance buffer\<close>

text \<open>
  The distance of a node to \<open>v\<close> read off a buffer that a search from \<open>v\<close> against the direction of
  the walk has filled.
\<close>

definition holds_dist_to where
  "holds_dist_to adj fwd kinds v lim n sc \<longleftrightarrow> scratch_wf n sc \<and>
     (\<forall>u < n. \<forall>d. scratch_get sc u = Some (Some d) \<longleftrightarrow> (\<exists>e \<le> lim. d = int e \<and> at_dist (hop adj fwd kinds) u e v)) \<and>
     (\<forall>u < n. scratch_get sc u \<noteq> None)"

lemma holds_dist_toI:
  assumes "dual adj" and "scratch_wf n sc" and "scratch_map sc = dist_upto (hop adj (\<not> fwd) kinds) v lim"
  shows "holds_dist_to adj fwd kinds v lim n sc"
  using assms(2,3) sb.get_amap [OF assms(2)] by (simp add: holds_dist_to_def dist_upto_iff at_dist_flip [OF assms(1)])

lemma holds_dist_to_get:
  "holds_dist_to adj fwd kinds v lim n sc \<Longrightarrow> u < n \<Longrightarrow>
    scratch_get sc u = Some (Some (int e)) \<longleftrightarrow> e \<le> lim \<and> at_dist (hop adj fwd kinds) u e v"
  by (auto simp: holds_dist_to_def)

lemma at_dist_hop:
  assumes "at_dist E u (Suc e) v" and "E u x"
  shows "(E ^^ e) x v \<longleftrightarrow> at_dist E x e v"
proof
  assume x: "(E ^^ e) x v"
  have "\<not> (E ^^ j) x v" if "j < e" for j
    using assms that relpowp_Suc_I2 [of E u x j v] unfolding at_dist_def by (meson Suc_mono)
  then show "at_dist E x e v" using x by (simp add: at_dist_def)
qed (simp add: at_dist_def)

definition to_go :: "nat \<Rightarrow> scratch \<Rightarrow> nat \<Rightarrow> nodeid list \<Rightarrow> bool" where
  "to_go n sc e w \<longleftrightarrow> last w < n \<and> scratch_get sc (last w) = Some (Some (int e)) \<and> (e = 0 \<longrightarrow> 2 \<le> length w)"

lemma enum_children:
  assumes h: "holds_dist_to adj fwd kinds v lim n sc" and rng: "in_range n adj" and lim: "lim \<le> 127"
    and e: "Suc e \<le> lim"
  shows "foldM (enum_child sc kinds (int (Suc e))) (adj fwd u) [] =
    Some ([] @ filter (\<lambda>(x, k). kind_allowed kinds k \<and> scratch_get sc x = Some (Some (int e))) (adj fwd u))"
proof (rule foldM_filter)
  fix c acc assume c: "c \<in> set (adj fwd u)"
  obtain x k where x: "c = (x, k)" by fastforce
  have "x < n" using rng c x by (auto simp: in_range_def)
  then obtain o' where o': "scratch_get sc x = Some o'" using h by (auto simp: holds_dist_to_def)
  have i: "i8 (int (Suc e) - 1) = int e" using lim e by (simp add: i8_id)
  show "enum_child sc kinds (int (Suc e)) c acc = Some (if (case c of (x, k) \<Rightarrow>
      kind_allowed kinds k \<and> scratch_get sc x = Some (Some (int e))) then acc @ [c] else acc)"
    using o' i by (auto simp: enum_child_def x split: option.split)
qed

lemma enum_descends:
  assumes h: "holds_dist_to adj fwd kinds v lim n sc" and rng: "in_range n adj" and lim: "lim \<le> 127"
  shows "descends (enum_act adj sc kinds fwd) adj fwd kinds v (to_go n sc)"
  unfolding descends_def
proof (intro conjI allI impI)
  fix w :: "nodeid list" assume w: "w \<noteq> []" "to_go n sc 0 w"
  then show "enum_act adj sc kinds fwd w = Some Emit" by (auto simp: to_go_def enum_act_def)
  show "last w = v" using w h by (auto simp: to_go_def holds_dist_to_def at_dist_def)
next
  fix w e assume w: "w \<noteq> []" "to_go n sc (Suc e) w"
  then have at: "at_dist (hop adj fwd kinds) (last w) (Suc e) v" and e: "Suc e \<le> lim"
    using holds_dist_to_get [OF h, of "last w" "Suc e"] by (auto simp: to_go_def)
  let ?P = "\<lambda>(x, k). kind_allowed kinds k \<and> scratch_get sc x = Some (Some (int e))"
  have act: "enum_act adj sc kinds fwd w = Some (Expand (filter ?P (adj fwd (last w))))"
    using w enum_children [OF h rng lim e, of "last w"] by (simp add: to_go_def enum_act_def)
  have x: "x < n" if "(x, k) \<in> set (adj fwd (last w))" for x k
    using rng that by (auto simp: in_range_def)
  have P: "?P (x, k) \<longleftrightarrow> kind_allowed kinds k \<and> (hop adj fwd kinds ^^ e) x v"
    if a: "(x, k) \<in> set (adj fwd (last w))" for x k
  proof (cases "kind_allowed kinds k")
    case True
    then have "hop adj fwd kinds (last w) x" using a by (auto simp: hop_def)
    from at_dist_hop [OF at this] show ?thesis
      using True holds_dist_to_get [OF h x [OF a], of e] e by auto
  qed simp
  show "\<exists>P. enum_act adj sc kinds fwd w = Some (Expand (filter P (adj fwd (last w)))) \<and>
      (\<forall>x k. (x, k) \<in> set (adj fwd (last w)) \<longrightarrow> P (x, k) = (kind_allowed kinds k \<and> (hop adj fwd kinds ^^ e) x v)) \<and>
      (\<forall>x k. (x, k) \<in> set (adj fwd (last w)) \<longrightarrow> P (x, k) \<longrightarrow> to_go n sc e (w @ [x]))"
    using act P x w(1) by (intro exI [of _ ?P]) (auto simp: to_go_def Suc_le_eq)
qed

text \<open>The shortest paths of a pair, root first, as the engine returns them.\<close>

definition as_path :: "nodeid list \<times> kindid list \<Rightarrow> path" where
  "as_path p = \<lparr>Nodes = fst p, Kinds = snd p\<rparr>"

definition shortest_paths :: "adjacency \<Rightarrow> kindmask option \<Rightarrow> nat \<Rightarrow> nodeid \<Rightarrow> nodeid \<Rightarrow> path set" where
  "shortest_paths adj kinds lim r t = as_path ` shortest_walks adj True kinds lim r t"

lemma is_walk_snoc:
  "length ks = length ns - 1 \<Longrightarrow> ns \<noteq> [] \<Longrightarrow> is_walk adj fwd kinds (ns @ [y]) (ks @ [k]) \<longleftrightarrow>
     is_walk adj fwd kinds ns ks \<and> (y, k) \<in> set (adj fwd (last ns)) \<and> kind_allowed kinds k"
proof (induction ns arbitrary: ks)
  case (Cons x ns)
  show ?case
  proof (cases ns)
    case Nil
    then show ?thesis using Cons.prems by simp
  next
    case (Cons z zs)
    then obtain j js where "ks = j # js" using Cons.prems(1) by (cases ks) auto
    then show ?thesis using Cons.IH [of js] Cons.prems \<open>ns = z # zs\<close> by auto
  qed
qed simp

lemma is_walk_rev:
  "is_walk adj fwd kinds ns ks \<Longrightarrow> dual adj \<Longrightarrow> is_walk adj (\<not> fwd) kinds (rev ns) (rev ks)"
proof (induction adj fwd kinds ns ks rule: is_walk.induct)
  case (2 adj fwd kinds x y ns k ks)
  have "is_walk adj (\<not> fwd) kinds (rev (y # ns)) (rev ks)" using 2 by simp
  moreover have "length (rev ks) = length (rev (y # ns)) - 1" using is_walk_length [of adj fwd kinds "y # ns" ks] 2 by simp
  moreover have "(x, k) \<in> set (adj (\<not> fwd) y)" using 2 dual_flip [of adj y k fwd x] by simp
  ultimately show ?case using 2 is_walk_snoc [of "rev ks" "rev (y # ns)" adj "\<not> fwd" kinds x k] by simp
qed auto

lemma shortest_walks_rev:
  assumes "dual adj" and "(ns, ks) \<in> shortest_walks adj fwd kinds lim u v"
  shows "(rev ns, rev ks) \<in> shortest_walks adj (\<not> fwd) kinds lim v u"
proof -
  obtain d where d: "d \<le> lim" "0 < d" "at_dist (hop adj fwd kinds) u d v" "is_walk adj fwd kinds ns ks"
    "hd ns = u" "last ns = v" "length ks = d"
    using assms(2) by (auto simp: shortest_walks_def walks_of_def)
  have "at_dist (hop adj (\<not> fwd) kinds) v d u" using d(3) at_dist_flip [OF assms(1), of fwd kinds v d u] by simp
  moreover have "is_walk adj (\<not> fwd) kinds (rev ns) (rev ks)" using is_walk_rev [OF d(4) assms(1)] .
  ultimately show ?thesis using d is_walk_length [OF d(4)]
    by (auto simp: shortest_walks_def walks_of_def hd_rev last_rev)
qed

lemma orient_shortest:
  assumes "dual adj"
  shows "orient (\<not> fwd) ` shortest_walks adj fwd kinds lim u v =
    (if fwd then shortest_paths adj kinds lim u v else shortest_paths adj kinds lim v u)"
proof (cases fwd)
  case True
  then show ?thesis by (auto simp: orient_def shortest_paths_def as_path_def)
next
  case False
  have "\<exists>q \<in> shortest_walks adj False kinds lim u v. as_path p = orient True q"
    if "p \<in> shortest_walks adj True kinds lim v u" for p
    using shortest_walks_rev [OF assms, of "fst p" "snd p" True kinds lim v u] that
    by (intro bexI [of _ "(rev (fst p), rev (snd p))"]) (auto simp: orient_def as_path_def)
  moreover have "orient True q \<in> as_path ` shortest_walks adj True kinds lim v u"
    if "q \<in> shortest_walks adj False kinds lim u v" for q
    using shortest_walks_rev [OF assms, of "fst q" "snd q" False kinds lim u v] that
    by (intro image_eqI [of _ _ "(rev (fst q), rev (snd q))"]) (auto simp: orient_def as_path_def)
  ultimately have "as_path ` shortest_walks adj True kinds lim v u = orient True ` shortest_walks adj False kinds lim u v"
    by blast
  then show ?thesis using False by (simp add: shortest_paths_def)
qed

lemma inj_orient: "inj (orient r)"
  by (auto intro!: injI simp: orient_def prod_eq_iff split: if_splits)

lemma walks_of_tl:
  "{(u # tl ns, js) | ns js. (ns, js) \<in> walks_of adj fwd kinds u v d} = walks_of adj fwd kinds u v d"
proof -
  have "u # tl ns = ns" if "(ns, js) \<in> walks_of adj fwd kinds u v d" for ns js
    using is_walk_hd [OF that] by (cases ns) auto
  then show ?thesis by force
qed

text \<open>The walks that \<open>enumerate\<close>'s reference lists from a start node.\<close>

lemma enum_ref:
  assumes h: "holds_dist_to adj fwd kinds v lim n sc" and rng: "in_range n adj" and lim: "lim \<le> 127"
    and du: "dual adj" and u: "u < n"
  defines "L \<equiv> dfs_ref (enum_act adj sc kinds fwd) lim [u] []"
  shows "dfs_ok (enum_act adj sc kinds fwd) lim [u]" and "set L = shortest_walks adj fwd kinds lim u v" and "distinct L"
proof -
  let ?act = "enum_act adj sc kinds fwd"
  let ?E = "hop adj fwd kinds"
  have "dfs_ok ?act lim [u] \<and> set L = shortest_walks adj fwd kinds lim u v \<and> distinct L"
  proof (cases "\<exists>e. 0 < e \<and> e \<le> lim \<and> at_dist ?E u e v")
    case True
    then obtain e where e: "0 < e" "e \<le> lim" "at_dist ?E u e v" by blast
    then have go: "to_go n sc e [u]" using u holds_dist_to_get [OF h u, of e] by (simp add: to_go_def)
    note r = dfs_ref_walks [OF enum_descends [OF h rng lim] _ _ go e(2)]
    have "set L = walks_of adj fwd kinds u v e"
      unfolding L_def using r(2) [of "[]"] du walks_of_tl [of u adj fwd kinds v e] by (simp add: dual_def)
    also have "\<dots> = shortest_walks adj fwd kinds lim u v"
      using e by (auto simp: shortest_walks_def dest: at_dist_unique [OF e(3)])
    finally show ?thesis using r(1,3) du unfolding L_def by (auto simp: dual_def)
  next
    case False
    obtain o' where o': "scratch_get sc u = Some o'" using h u by (auto simp: holds_dist_to_def)
    have "o' = None \<or> o' = Some 0"
    proof (cases o')
      case (Some d)
      then obtain e where "e \<le> lim" "d = int e" "at_dist ?E u e v" using o' h u by (auto simp: holds_dist_to_def)
      then show ?thesis using Some False by (cases "e = 0") auto
    qed simp
    with o' have "?act [u] = Some Skip" by (auto simp: enum_act_def)
    then have "dfs_ok ?act lim [u]" "L = []" by (cases lim; simp add: L_def)+
    moreover have "shortest_walks adj fwd kinds lim u v = {}" using False by (auto simp: shortest_walks_def)
    ultimately show ?thesis by simp
  qed
  then show "dfs_ok ?act lim [u]" "set L = shortest_walks adj fwd kinds lim u v" "distinct L" by auto
qed

lemma shortest_walk_ok: "q \<in> shortest_walks adj fwd kinds lim u v \<Longrightarrow> lim \<le> 127 \<Longrightarrow> walk_ok q"
  using is_walk_length by (fastforce simp: shortest_walks_def walks_of_def walk_ok_def path_ok_def)

lemma enumerate_correct:
  assumes h: "holds_dist_to adj fwd kinds v lim n sc" and rng: "in_range n adj" and lim: "lim \<le> 127"
    and du: "dual adj" and u: "u < n" and s: "sink_rep sink ps"
  shows "\<exists>L. distinct L \<and> set L = (if fwd then shortest_paths adj kinds lim u v else shortest_paths adj kinds lim v u) \<and>
    ok (enumerate adj u sc kinds cap b sink fwd) (emits cap b ps L)"
proof -
  let ?L = "dfs_ref (enum_act adj sc kinds fwd) lim [u] []"
  note r = enum_ref [OF h rng lim du u]
  have "\<forall>q \<in> set ?L. walk_ok q" using r(2) shortest_walk_ok [OF _ lim] by blast
  moreover have "lim < 2 ^ 16 - 1" using lim by simp
  ultimately have "ok (enumerate adj u sc kinds cap b sink fwd) (emits cap b ps (map (orient (\<not> fwd)) ?L))"
    using dfs_loop_root [OF r(1) _ s] unfolding enumerate_def by blast
  moreover have "distinct (map (orient (\<not> fwd)) ?L)"
    using r(3) inj_on_subset [OF inj_orient] by (auto simp: distinct_map)
  moreover have "set (map (orient (\<not> fwd)) ?L) = (if fwd then shortest_paths adj kinds lim u v else shortest_paths adj kinds lim v u)"
    using r(2) orient_shortest [OF du, of fwd kinds lim u v] by simp
  ultimately show ?thesis by blast
qed

text \<open>
  C28. Search and enumeration together find the shortest paths of a pair. Search from \<open>v\<close> against the
  direction of the walk, then enumerate from \<open>u\<close>: nothing panics, and the sink gains the pair's
  shortest paths, root first, each once per choice of parallel edges and nothing else, in some
  order: all of them, or as many as the cap leaves room for; only the memory budget can cut it
  short, with its error. A pair with no path within the depth, or with equal ends, gains nothing.
\<close>

theorem enumerate_exact:
  assumes "scratch_wf n sc" and "in_range n adj" and "dual adj" and "u < n" and "v < n"
    and "0 \<le> maxDepth" and "maxDepth \<le> 127" and "sink_rep sink ps"
  shows "\<exists>L. distinct L \<and>
    set L = (if fwd then shortest_paths adj kinds (nat maxDepth) u v else shortest_paths adj kinds (nat maxDepth) v u) \<and>
    ok (do { (_, sc') \<leftarrow> bfsFrom adj v (\<not> fwd) kinds maxDepth sc;
             enumerate adj u sc' kinds cap b sink fwd }) (emits cap b ps L)"
proof -
  obtain deep sc' where sc': "bfsFrom adj v (\<not> fwd) kinds maxDepth sc = Some (deep, sc')" "scratch_wf n sc'"
    "scratch_map sc' = dist_upto (hop adj (\<not> fwd) kinds) v (nat maxDepth)"
    using bfsFrom_correct [OF assms(1,2,5,7), of "\<not> fwd" kinds] by (auto simp: ok_iff)
  have "nat maxDepth \<le> 127" using assms(7) by simp
  from enumerate_correct [OF holds_dist_toI [OF assms(3) sc'(2,3)] assms(2) this assms(3,4,8)]
  show ?thesis using sc'(1) by simp
qed

lemma chain3_dual: "dual chain3"
  by (auto simp: dual_def chain3_def split: if_splits)

theorem enumerate_exact_witness:
  "\<exists>L. distinct L \<and> set L = shortest_paths chain3 None 15 0 2 \<and>
    ok (do { (_, sc') \<leftarrow> bfsFrom chain3 2 False None 15 (newScratch 3);
             enumerate chain3 0 sc' None 0 \<lparr>limit = 0, used = 0, reserved = 0\<rparr> emptySink True })
      (emits 0 \<lparr>limit = 0, used = 0, reserved = 0\<rparr> [] L)"
  using enumerate_exact [OF newScratch_wf chain3_in_range chain3_dual, of 0 2 15 emptySink "[]" True None 0
      "\<lparr>limit = 0, used = 0, reserved = 0\<rparr>"] ps.rep_empty by simp

end
