(* ===== verification/Pairs.thy ===== *)
theory Pairs
  imports Enumerate
begin

text \<open>
  The search for one pair: \<open>pairShortest\<close> and \<open>pairPaths\<close> of \<open>internal/engine/traverse/bfs.go\<close>.
  Phase 1 meets in the middle, expanding the smaller frontier; the two mirrored loop bodies of the
  source are one definition here, \<open>meet_level\<close>, given the direction and the two buffers. Phase 2
  reruns both searches to the distance found. The three buffers are threaded through, since the
  caller reuses them for the next pair.
\<close>

section \<open>The search\<close>

definition meet_visit ::
    "kindmask option \<Rightarrow> nat \<Rightarrow> scratch \<Rightarrow> nodeid \<times> kindid \<Rightarrow> scratch \<times> nodeid list \<times> int \<Rightarrow> (scratch \<times> nodeid list \<times> int) option" where
  "meet_visit kinds level other wk st =
     (case (wk, st) of ((w, k), (sc, nxt, D)) \<Rightarrow>
        if \<not> kind_allowed kinds k then Some (sc, nxt, D)
        else do { seen \<leftarrow> scratch_get sc w;
                  case seen of Some _ \<Rightarrow> Some (sc, nxt, D)
                  | None \<Rightarrow>
                      do { let nd = i8 (int level + 1);
                           sc' \<leftarrow> scratch_set sc w nd;
                           met \<leftarrow> scratch_get other w;
                           let D' = (case met of None \<Rightarrow> D
                                     | Some db \<Rightarrow> let cand = nd + db in if D < 0 \<or> cand < D then cand else D);
                           Some (sc', nxt @ [w], D') } })"

definition meet_level ::
    "adjacency \<Rightarrow> bool \<Rightarrow> kindmask option \<Rightarrow> nat \<Rightarrow> nodeid list \<Rightarrow> scratch \<Rightarrow> scratch \<Rightarrow> int \<Rightarrow>
     (scratch \<times> nodeid list \<times> int) option" where
  "meet_level adj forward kinds level frontier sc other D =
     foldM (\<lambda>u. foldM (meet_visit kinds level other) (adj forward u)) frontier (sc, [], D)"

function pair_loop ::
    "adjacency \<Rightarrow> kindmask option \<Rightarrow> int \<Rightarrow> nodeid list \<Rightarrow> nodeid list \<Rightarrow> nat \<Rightarrow> nat \<Rightarrow> int \<Rightarrow> scratch \<Rightarrow> scratch \<Rightarrow>
     (int \<times> scratch \<times> scratch) option" where
  "pair_loop adj kinds maxDepth frontF frontB levelsF levelsB D scF scTmp =
     (if frontF = [] \<or> frontB = [] then Some (D, scF, scTmp)
      else let lim = (if D \<ge> 0 \<and> D < maxDepth then D else maxDepth) in
        if int (levelsF + levelsB) \<ge> lim then Some (D, scF, scTmp)
        else if length frontF \<le> length frontB
        then do { (scF', nxt, D') \<leftarrow> meet_level adj True kinds levelsF frontF scF scTmp D;
                  pair_loop adj kinds maxDepth nxt frontB (levelsF + 1) levelsB D' scF' scTmp }
        else do { (scTmp', nxt, D') \<leftarrow> meet_level adj False kinds levelsB frontB scTmp scF D;
                  pair_loop adj kinds maxDepth frontF nxt levelsF (levelsB + 1) D' scF scTmp' })"
  by pat_completeness auto
termination
  by (relation "measure (\<lambda>(adj, kinds, maxDepth, frontF, frontB, levelsF, levelsB, D, scF, scTmp).
        nat maxDepth - (levelsF + levelsB))") (auto split: if_splits)

declare pair_loop.simps [simp del]

definition pairShortest ::
    "adjacency \<Rightarrow> nodeid \<Rightarrow> nodeid \<Rightarrow> kindmask option \<Rightarrow> int \<Rightarrow> scratch \<Rightarrow> scratch \<Rightarrow> scratch \<Rightarrow>
     (int \<times> scratch \<times> scratch \<times> scratch) option" where
  "pairShortest adj r t kinds maxDepth scF scT scTmp =
     (if r = t then Some (-1, scF, scT, scTmp)
      else do { scF1 \<leftarrow> scratch_set (scratch_reset scF) r 0;
                scTmp1 \<leftarrow> scratch_set (scratch_reset scTmp) t 0;
                (D, scF2, scTmp2) \<leftarrow> pair_loop adj kinds maxDepth [r] [t] 0 0 (-1) scF1 scTmp1;
                if D < 0 then Some (-1, scF2, scT, scTmp2)
                else do { (_, scF3) \<leftarrow> bfsFrom adj r True kinds D scF2;
                          (_, scT3) \<leftarrow> bfsFrom adj t False kinds D scT;
                          Some (D, scF3, scT3, scTmp2) } })"

definition pairPaths ::
    "adjacency \<Rightarrow> nodeid \<Rightarrow> nodeid \<Rightarrow> kindmask option \<Rightarrow> int \<Rightarrow> int \<Rightarrow> memBudget \<Rightarrow> scratch \<Rightarrow> scratch \<Rightarrow> scratch \<Rightarrow> pathSink \<Rightarrow>
     ((query_error option \<times> memBudget \<times> pathSink) \<times> scratch \<times> scratch \<times> scratch) option" where
  "pairPaths adj r t kinds maxDepth cap budget scF scT scTmp sink =
     do { (D, scF', scT', scTmp') \<leftarrow> pairShortest adj r t kinds maxDepth scF scT scTmp;
          if D < 0 then Some ((None, budget, sink), scF', scT', scTmp')
          else do { res \<leftarrow> pairEnumerate adj r t D kinds cap budget scF' scT' sink;
                    Some (res, scF', scT', scTmp') } }"

section \<open>Meeting in the middle\<close>

text \<open>One level: the buffer and the next frontier are those of plain search, and a candidate is kept
  exactly when a newly settled node is already on the other side.\<close>

lemma meet_visits:
  assumes wf: "scratch_wf n sc" and wo: "scratch_wf n other" and rng: "\<forall>(w, k) \<in> set es. w < n" and d: "d + 1 \<le> 127"
    and nonneg: "\<forall>w j. scratch_map other w = Some j \<longrightarrow> 0 \<le> j"
  shows "ok (foldM (meet_visit kinds d other) es (sc, [], -1)) (\<lambda>(sc', nxt, D').
    foldM (bfs_visit kinds d) es (sc, []) = Some (sc', nxt) \<and>
    ((D' = -1 \<and> (\<forall>w \<in> set nxt. scratch_map other w = None)) \<or>
     (\<exists>w \<in> set nxt. \<exists>j. scratch_map other w = Some j \<and> D' = int d + 1 + j)))"
    (is "ok _ (\<lambda>(sc', nxt, D'). ?I es sc' nxt D')")
proof -
  have "ok (foldM (meet_visit kinds d other) es (sc, [], -1)) (\<lambda>p. ?I es (fst p) (fst (snd p)) (snd (snd p)))"
  proof (rule ok_foldM_prefix [where I = "\<lambda>es p. ?I es (fst p) (fst (snd p)) (snd (snd p))"])
    show "?I [] (fst (sc, [], -1)) (fst (snd (sc, [], -1))) (snd (snd (sc, [], -1)))" by simp
  next
    fix pre x post st
    assume es: "es = pre @ x # post" and I: "?I pre (fst st) (fst (snd st)) (snd (snd st))"
    obtain w k where x: "x = (w, k)" by fastforce
    obtain sc1 nxt D where t: "st = (sc1, nxt, D)" by (metis prod_cases3)
    have w: "w < n" using rng es x by auto
    have "ok (foldM (bfs_visit kinds d) pre (sc, [])) (\<lambda>(sc', nxt). scratch_wf n sc')"
      using bfs_visits [OF wf _ d, of pre kinds] rng es by (auto elim!: ok_mono)
    then have wf1: "scratch_wf n sc1" using I t by simp
    have get: "scratch_get sc1 w = Some (scratch_map sc1 w)" by (rule sb.get_amap [OF wf1 w])
    have geto: "scratch_get other w = Some (scratch_map other w)" by (rule sb.get_amap [OF wo w])
    obtain sc2 where sc2: "scratch_set sc1 w (i8 (int d + 1)) = Some sc2" using sb.put_ok [OF wf1 w] by blast
    have i: "i8 (int d + 1) = int d + 1" using d by (simp add: i8_id)
    show "ok (meet_visit kinds d other x st) (\<lambda>p. ?I (pre @ [x]) (fst p) (fst (snd p)) (snd (snd p)))"
      using I t x get geto sc2 nonneg i
      by (auto simp: meet_visit_def bfs_visit_def foldM_append Let_def split: option.split)
  qed
  then show ?thesis by (rule ok_mono) (simp add: case_prod_beta)
qed

lemma meet_level_correct:
  fixes adj forward kinds
  defines "E \<equiv> hop adj forward kinds"
  assumes wf: "scratch_wf n sc" and wo: "scratch_wf n other" and rng: "in_range n adj" and d: "d + 1 \<le> 127"
    and map: "scratch_map sc = dist_upto E s d" and fr: "set frontier = {v. at_dist E s d v}"
    and nonneg: "\<forall>w j. scratch_map other w = Some j \<longrightarrow> 0 \<le> j"
  shows "ok (meet_level adj forward kinds d frontier sc other (-1)) (\<lambda>(sc', nxt, D'). scratch_wf n sc' \<and>
    scratch_map sc' = dist_upto E s (d + 1) \<and> set nxt = {v. at_dist E s (d + 1) v} \<and>
    ((D' = -1 \<and> (\<forall>w. at_dist E s (d + 1) w \<longrightarrow> scratch_map other w = None)) \<or>
     (\<exists>w j. at_dist E s (d + 1) w \<and> scratch_map other w = Some j \<and> D' = int d + 1 + j)))"
proof -
  let ?es = "concat (map (adj forward) frontier)"
  have "\<forall>(w, k) \<in> set ?es. w < n" using rng by (auto simp: in_range_def)
  from meet_visits [OF wf wo this d nonneg, of kinds]
  obtain sc' nxt D' where m: "meet_level adj forward kinds d frontier sc other (-1) = Some (sc', nxt, D')"
    "bfs_level adj forward kinds d frontier sc = Some (sc', nxt)"
    "(D' = -1 \<and> (\<forall>w \<in> set nxt. scratch_map other w = None)) \<or>
     (\<exists>w \<in> set nxt. \<exists>j. scratch_map other w = Some j \<and> D' = int d + 1 + j)"
    unfolding meet_level_def bfs_level_def foldM_concat ok_iff split_paired_Ex prod.case by blast
  have "scratch_wf n sc' \<and> scratch_map sc' = dist_upto E s (d + 1) \<and> set nxt = {v. at_dist E s (d + 1) v}"
    using bfs_level_correct [OF wf rng d, of forward kinds s frontier] map fr m(2) unfolding E_def by simp
  then show ?thesis using m(1,3) by auto
qed

text \<open>A walk of the shortest length passes, after any number of its hops, a node at that distance from either end.\<close>

lemma at_dist_split:
  assumes "at_dist E s (i + j) v"
  obtains u where "at_dist E s i u" and "at_dist E u j v"
proof -
  obtain u where u: "(E ^^ i) s u" "(E ^^ j) u v"
    using assms by (auto simp: at_dist_def relpowp_add relcompp_apply)
  have short: "\<not> (E ^^ m) s v" if "m < i + j" for m using assms that by (simp add: at_dist_def)
  have walk: "(E ^^ (a + b)) s v" if "(E ^^ a) s u" "(E ^^ b) u v" for a b
    using that by (auto simp: relpowp_add relcompp_apply)
  have "at_dist E s i u" unfolding at_dist_def
    using u short walk by (metis add_less_mono1)
  moreover have "at_dist E u j v" unfolding at_dist_def
    using u short walk by (metis nat_add_left_cancel_less)
  ultimately show thesis by (rule that)
qed

lemma at_dist_join:
  "at_dist E s i u \<Longrightarrow> at_dist E u j v \<Longrightarrow> \<exists>d \<le> i + j. at_dist E s d v"
  by (rule at_dist_exists) (auto simp: at_dist_def relpowp_add relcompp_apply)

text \<open>
  The loop's invariant: both buffers and both frontiers are exact to their level, no candidate is
  known while the ends are further apart than the levels explored, and one that is known is the
  distance.
\<close>

definition pair_inv where
  "pair_inv n adj kinds r t frontF frontB lF lB D scF scB \<longleftrightarrow>
     scratch_wf n scF \<and> scratch_wf n scB \<and>
     scratch_map scF = dist_upto (hop adj True kinds) r lF \<and> set frontF = {v. at_dist (hop adj True kinds) r lF v} \<and>
     scratch_map scB = dist_upto (hop adj False kinds) t lB \<and> set frontB = {v. at_dist (hop adj False kinds) t lB v} \<and>
     ((D = -1 \<and> (\<forall>d \<le> lF + lB. \<not> at_dist (hop adj True kinds) r d t)) \<or>
      (\<exists>d \<le> lF + lB. D = int d \<and> at_dist (hop adj True kinds) r d t))"

lemma dist_upto_nonneg: "\<forall>w j. dist_upto E s d w = Some j \<longrightarrow> 0 \<le> j"
  by (auto simp: dist_upto_iff)

text \<open>
  What a level finds, in either direction: \<open>F\<close> is the relation expanded from \<open>s\<close>, \<open>B\<close> its converse
  from \<open>v\<close>, explored to \<open>i\<close> and \<open>j\<close> levels.
\<close>

lemma level_meets:
  assumes conv: "\<And>u w k. at_dist B u k w = at_dist F w k u"
    and far: "\<forall>d \<le> i + j. \<not> at_dist F s d v"
    and D: "(D = -1 \<and> (\<forall>w. at_dist F s (i + 1) w \<longrightarrow> dist_upto B v j w = None)) \<or>
      (\<exists>w x. at_dist F s (i + 1) w \<and> dist_upto B v j w = Some x \<and> D = int i + 1 + x)"
  shows "(D = -1 \<and> (\<forall>d \<le> i + 1 + j. \<not> at_dist F s d v)) \<or> (\<exists>d \<le> i + 1 + j. D = int d \<and> at_dist F s d v)"
  using D
proof (elim disjE conjE exE)
  assume none: "D = -1" "\<forall>w. at_dist F s (i + 1) w \<longrightarrow> dist_upto B v j w = None"
  have "\<not> at_dist F s (i + 1 + j) v"
  proof
    assume "at_dist F s (i + 1 + j) v"
    then obtain u where "at_dist F s (i + 1) u" "at_dist F u j v" by (rule at_dist_split)
    then show False using none(2) conv by (auto simp: dist_upto_None)
  qed
  then have "\<forall>d \<le> i + 1 + j. \<not> at_dist F s d v" using far by (metis add.assoc add.commute le_Suc_eq plus_1_eq_Suc)
  then show ?thesis using none(1) by simp
next
  fix w x assume m: "at_dist F s (i + 1) w" "dist_upto B v j w = Some x" "D = int i + 1 + x"
  then obtain k where k: "k \<le> j" "x = int k" "at_dist F w k v" using conv by (auto simp: dist_upto_iff)
  obtain d where d: "d \<le> i + 1 + k" "at_dist F s d v" using at_dist_join [OF m(1) k(3)] by blast
  have "\<not> d \<le> i + j" using far d(2) by blast
  then have "d = i + 1 + k" "k = j" using d(1) k(1) by auto
  then show ?thesis using d k m(3) by auto
qed

lemma pair_inv_stop:
  assumes inv: "pair_inv n adj kinds r t frontF frontB lF lB D scF scB" and du: "dual adj"
    and stop: "frontF = [] \<or> frontB = [] \<or> int (lF + lB) \<ge> (if D \<ge> 0 \<and> D < maxDepth then D else maxDepth)"
    and le: "int (lF + lB) \<le> maxDepth"
  shows "(D = -1 \<and> (\<forall>d. int d \<le> maxDepth \<longrightarrow> \<not> at_dist (hop adj True kinds) r d t)) \<or>
    (\<exists>d. D = int d \<and> int d \<le> maxDepth \<and> at_dist (hop adj True kinds) r d t)"
proof (cases "D = -1")
  case True
  have far: "\<forall>d \<le> lF + lB. \<not> at_dist (hop adj True kinds) r d t" using inv True by (auto simp: pair_inv_def)
  have "\<not> at_dist (hop adj True kinds) r d t" if d: "int d \<le> maxDepth" for d
  proof
    assume at: "at_dist (hop adj True kinds) r d t"
    then have "lF + lB < d" using far by (meson not_le)
    then have fr: "frontF = [] \<or> frontB = []" using stop True d by auto
    obtain u where "at_dist (hop adj True kinds) r lF u"
      using at_dist_split [of "hop adj True kinds" r lF "d - lF" t] at \<open>lF + lB < d\<close> by auto
    moreover obtain u' where "at_dist (hop adj True kinds) u' lB t"
      using at_dist_split [of "hop adj True kinds" r "d - lB" lB t] at \<open>lF + lB < d\<close> by auto
    ultimately show False using fr inv at_dist_flip [OF du, of True kinds t lB u'] by (auto simp: pair_inv_def)
  qed
  then show ?thesis using True by blast
next
  case False
  then show ?thesis using inv le by (auto simp: pair_inv_def)
qed

text \<open>A step of the loop keeps the invariant, whichever side it expands.\<close>

lemma meet_forward:
  assumes inv: "pair_inv n adj kinds r t frontF frontB lF lB (-1) scF scB" and du: "dual adj" and rng: "in_range n adj"
    and "lF + 1 \<le> 127"
  shows "ok (meet_level adj True kinds lF frontF scF scB (-1)) (\<lambda>(scF', nxt, D').
    pair_inv n adj kinds r t nxt frontB (lF + 1) lB D' scF' scB)"
proof -
  have i: "scratch_wf n scF" "scratch_wf n scB" "scratch_map scF = dist_upto (hop adj True kinds) r lF"
    "set frontF = {v. at_dist (hop adj True kinds) r lF v}" "scratch_map scB = dist_upto (hop adj False kinds) t lB"
    "\<forall>d \<le> lF + lB. \<not> at_dist (hop adj True kinds) r d t"
    using inv by (auto simp: pair_inv_def)
  have conv: "at_dist (hop adj False kinds) u k w = at_dist (hop adj True kinds) w k u" for u w k
    using at_dist_flip [OF du, of True kinds u k w] by simp
  have nn: "\<forall>w j. scratch_map scB w = Some j \<longrightarrow> 0 \<le> j" unfolding i(5) by (rule dist_upto_nonneg)
  obtain scF' nxt D' where m: "meet_level adj True kinds lF frontF scF scB (-1) = Some (scF', nxt, D')" "scratch_wf n scF'"
    "scratch_map scF' = dist_upto (hop adj True kinds) r (lF + 1)" "set nxt = {v. at_dist (hop adj True kinds) r (lF + 1) v}"
    "(D' = -1 \<and> (\<forall>w. at_dist (hop adj True kinds) r (lF + 1) w \<longrightarrow> dist_upto (hop adj False kinds) t lB w = None)) \<or>
     (\<exists>w j. at_dist (hop adj True kinds) r (lF + 1) w \<and> dist_upto (hop adj False kinds) t lB w = Some j \<and> D' = int lF + 1 + j)"
    using meet_level_correct [OF i(1,2) rng assms(4) i(3,4) nn] unfolding ok_iff split_paired_Ex prod.case i(5) by blast
  show ?thesis using inv m(1-4) level_meets [OF conv i(6) m(5)] by (simp add: pair_inv_def)
qed

lemma hop_dual: "hop (\<lambda>b. adj (\<not> b)) b kinds = hop adj (\<not> b) kinds"
  by (simp add: hop_def fun_eq_iff)

lemma pair_inv_flip:
  assumes "dual adj"
  shows "pair_inv n (\<lambda>b. adj (\<not> b)) kinds t r frontB frontF lB lF D scB scF =
    pair_inv n adj kinds r t frontF frontB lF lB D scF scB"
  using at_dist_flip [OF assms, of True kinds t _ r] unfolding pair_inv_def hop_dual by (auto simp: add.commute)

lemma meet_backward:
  assumes inv: "pair_inv n adj kinds r t frontF frontB lF lB (-1) scF scB" and du: "dual adj" and rng: "in_range n adj"
    and "lB + 1 \<le> 127"
  shows "ok (meet_level adj False kinds lB frontB scB scF (-1)) (\<lambda>(scB', nxt, D').
    pair_inv n adj kinds r t frontF nxt lF (lB + 1) D' scF scB')"
proof -
  have d: "dual (\<lambda>b. adj (\<not> b))" using du by (auto simp: dual_def)
  have r: "in_range n (\<lambda>b. adj (\<not> b))" using rng by (auto simp: in_range_def)
  have eq: "meet_level (\<lambda>b. adj (\<not> b)) True kinds lB frontB scB scF (-1) = meet_level adj False kinds lB frontB scB scF (-1)"
    by (simp add: meet_level_def)
  have i: "pair_inv n (\<lambda>b. adj (\<not> b)) kinds t r frontB frontF lB lF (-1) scB scF" using inv pair_inv_flip [OF du] by blast
  from meet_forward [OF i d r assms(4)] show ?thesis unfolding eq pair_inv_flip [OF du] .
qed

lemma pair_loop_correct:
  assumes du: "dual adj" and rng: "in_range n adj" and max: "maxDepth \<le> 127"
    and "pair_inv n adj kinds r t frontF frontB lF lB D scF scB" and "int (lF + lB) \<le> maxDepth"
  shows "ok (pair_loop adj kinds maxDepth frontF frontB lF lB D scF scB) (\<lambda>(D', scF', scB').
      scratch_wf n scF' \<and> scratch_wf n scB' \<and>
      ((D' = -1 \<and> (\<forall>d. int d \<le> maxDepth \<longrightarrow> \<not> at_dist (hop adj True kinds) r d t)) \<or>
       (\<exists>d. D' = int d \<and> int d \<le> maxDepth \<and> at_dist (hop adj True kinds) r d t)))"
  using assms(4,5)
proof (induction "nat maxDepth - (lF + lB)" arbitrary: frontF frontB lF lB D scF scB rule: less_induct)
  case less
  let ?stop = "frontF = [] \<or> frontB = [] \<or> int (lF + lB) \<ge> (if D \<ge> 0 \<and> D < maxDepth then D else maxDepth)"
  note unf = pair_loop.simps [of adj kinds maxDepth frontF frontB lF lB D scF scB]
  have wf: "scratch_wf n scF" "scratch_wf n scB" using less.prems(1) by (auto simp: pair_inv_def)
  show ?case
  proof (cases ?stop)
    case True
    then have "pair_loop adj kinds maxDepth frontF frontB lF lB D scF scB = Some (D, scF, scB)"
      unfolding unf Let_def by auto
    then show ?thesis using pair_inv_stop [OF less.prems(1) du True less.prems(2)] wf by simp
  next
    case False
    then have D: "D = -1" and lt: "int (lF + lB) < maxDepth"
      using less.prems(1) by (auto simp: pair_inv_def split: if_splits)
    have inv: "pair_inv n adj kinds r t frontF frontB lF lB (-1) scF scB" using less.prems(1) D by simp
    show ?thesis
    proof (cases "length frontF \<le> length frontB")
      case True
      have "lF + 1 \<le> 127" using lt max by simp
      then obtain scF' nxt D' where m: "meet_level adj True kinds lF frontF scF scB (-1) = Some (scF', nxt, D')"
        "pair_inv n adj kinds r t nxt frontB (lF + 1) lB D' scF' scB"
        using meet_forward [OF inv du rng] by (auto simp: ok_iff)
      show ?thesis using less.hyps [OF _ m(2)] lt False True m(1) D unfolding unf by simp
    next
      case le: False
      have "lB + 1 \<le> 127" using lt max by simp
      then obtain scB' nxt D' where m: "meet_level adj False kinds lB frontB scB scF (-1) = Some (scB', nxt, D')"
        "pair_inv n adj kinds r t frontF nxt lF (lB + 1) D' scF scB'"
        using meet_backward [OF inv du rng] by (auto simp: ok_iff)
      show ?thesis using less.hyps [OF _ m(2)] lt False le m(1) D unfolding unf by simp
    qed
  qed
qed

text \<open>A node one hop past \<open>u\<close> on the way to \<open>v\<close> is one hop further from \<open>s\<close>.\<close>

lemma at_dist_mid:
  assumes "at_dist E s D v" and "at_dist E s i u" and "E u x" and "at_dist E x e v" and "i + 1 + e = D"
  shows "at_dist E s (D - e) x"
proof -
  have "(E ^^ Suc i) s x" using assms(2,3) by (auto simp: at_dist_def)
  from at_dist_exists [OF this] obtain j where j: "j \<le> Suc i" "at_dist E s j x" by blast
  obtain d where "d \<le> j + e" "at_dist E s d v" using at_dist_join [OF j(2) assms(4)] by blast
  moreover from this(2) have "d = D" using at_dist_unique assms(1) by metis
  ultimately have "j = Suc i" using j(1) assms(5) by simp
  then show ?thesis using j(2) assms(5) by auto
qed

section \<open>The distance and the paths of a pair\<close>

definition pair_found where
  "pair_found n adj kinds r t D scF scT \<longleftrightarrow> (\<exists>d. 0 < d \<and> d \<le> 127 \<and> D = int d \<and> at_dist (hop adj True kinds) r d t \<and>
     scratch_map scF = dist_upto (hop adj True kinds) r d \<and> scratch_map scT = dist_upto (hop adj False kinds) t d)"

lemma pairShortest_correct:
  assumes du: "dual adj" and rng: "in_range n adj" and max: "0 \<le> maxDepth" "maxDepth \<le> 127"
    and wf: "scratch_wf n scF" "scratch_wf n scT" "scratch_wf n scTmp" and rt: "r < n" "t < n"
  shows "ok (pairShortest adj r t kinds maxDepth scF scT scTmp) (\<lambda>(D, scF', scT', scTmp').
    scratch_wf n scF' \<and> scratch_wf n scT' \<and> scratch_wf n scTmp' \<and>
    (if \<exists>d. 0 < d \<and> int d \<le> maxDepth \<and> at_dist (hop adj True kinds) r d t
     then D \<le> maxDepth \<and> pair_found n adj kinds r t D scF' scT' else D = -1))"
proof (cases "r = t")
  case True
  then have "\<not> at_dist (hop adj True kinds) r d t" if "0 < d" for d
    using that at_dist_unique at_dist_0 by (metis less_irrefl)
  then show ?thesis using True wf by (auto simp: pairShortest_def)
next
  case False
  let ?E = "hop adj True kinds"
  obtain scF1 where F: "scratch_set (scratch_reset scF) r 0 = Some scF1" "scratch_wf n scF1" "scratch_map scF1 = [r \<mapsto> 0]"
    using sb.seeded [OF wf(1) rt(1), of 0] by (auto simp: ok_iff)
  obtain scB1 where B: "scratch_set (scratch_reset scTmp) t 0 = Some scB1" "scratch_wf n scB1" "scratch_map scB1 = [t \<mapsto> 0]"
    using sb.seeded [OF wf(3) rt(2), of 0] by (auto simp: ok_iff)
  have "pair_inv n adj kinds r t [r] [t] 0 0 (-1) scF1 scB1"
    using F B False by (auto simp: pair_inv_def dist_upto_0 at_dist_0)
  from pair_loop_correct [OF du rng max(2) this] max(1)
  obtain D scF2 scB2 where l: "pair_loop adj kinds maxDepth [r] [t] 0 0 (-1) scF1 scB1 = Some (D, scF2, scB2)"
    "scratch_wf n scF2" "scratch_wf n scB2"
    "(D = -1 \<and> (\<forall>d. int d \<le> maxDepth \<longrightarrow> \<not> at_dist ?E r d t)) \<or> (\<exists>d. D = int d \<and> int d \<le> maxDepth \<and> at_dist ?E r d t)"
    unfolding ok_iff split_paired_Ex prod.case by auto
  show ?thesis
  proof (cases "D = -1")
    case True
    then show ?thesis using l F B wf \<open>r \<noteq> t\<close> by (auto simp: pairShortest_def)
  next
    case found: False
    then obtain d where d: "D = int d" "int d \<le> maxDepth" "at_dist ?E r d t" using l(4) by auto
    have pos: "0 < d" using d(3) \<open>r \<noteq> t\<close> at_dist_0 by (metis gr0I)
    have D: "D \<le> 127" using d max by simp
    obtain x scF3 where F3: "bfsFrom adj r True kinds D scF2 = Some (x, scF3)" "scratch_wf n scF3"
      "scratch_map scF3 = dist_upto ?E r d"
      using bfsFrom_correct [OF l(2) rng rt(1) D, of True kinds] d(1) by (auto simp: ok_iff)
    obtain y scT3 where T3: "bfsFrom adj t False kinds D scT = Some (y, scT3)" "scratch_wf n scT3"
      "scratch_map scT3 = dist_upto (hop adj False kinds) t d"
      using bfsFrom_correct [OF wf(2) rng rt(2) D, of False kinds] d(1) by (auto simp: ok_iff)
    have "pairShortest adj r t kinds maxDepth scF scT scTmp = Some (D, scF3, scT3, scB2)"
      using \<open>r \<noteq> t\<close> F(1) B(1) l(1) F3(1) T3(1) d(1) by (simp add: pairShortest_def)
    moreover have "pair_found n adj kinds r t D scF3 scT3"
      using d pos D F3(3) T3(3) by (auto simp: pair_found_def)
    ultimately show ?thesis using l F3 T3 d pos by auto
  qed
qed

text \<open>
  The pair enumeration descends: with \<open>e\<close> hops to go the forward buffer reads \<open>D - e\<close> and the
  backward one \<open>e\<close>.
\<close>

definition pair_go :: "nat \<Rightarrow> scratch \<Rightarrow> scratch \<Rightarrow> nat \<Rightarrow> nat \<Rightarrow> nodeid list \<Rightarrow> bool" where
  "pair_go n scF scT D e w \<longleftrightarrow> e \<le> D \<and> last w < n \<and> scratch_map scF (last w) = Some (int (D - e)) \<and>
     scratch_map scT (last w) = Some (int e)"

lemma pair_children:
  assumes wf: "scratch_wf n scF" "scratch_wf n scT" and rng: "in_range n adj" and e: "Suc e \<le> D" and D: "D \<le> 127"
  shows "foldM (pair_child scF scT (int D) kinds (int (D - Suc e))) (adj True u) [] =
    Some ([] @ filter (\<lambda>(x, k). kind_allowed kinds k \<and> scratch_map scF x = Some (int (D - e)) \<and>
      scratch_map scT x = Some (int e)) (adj True u))"
proof (rule foldM_filter)
  fix c acc assume c: "c \<in> set (adj True u)"
  obtain x k where x: "c = (x, k)" by fastforce
  have "x < n" using rng c x by (auto simp: in_range_def)
  then have get: "scratch_get scF x = Some (scratch_map scF x)" "scratch_get scT x = Some (scratch_map scT x)"
    using sb.get_amap wf by auto
  have i: "i8 (int (D - Suc e) + 1) = int (D - e)" using e D by (simp add: i8_id of_nat_diff)
  show "pair_child scF scT (int D) kinds (int (D - Suc e)) c acc = Some (if (case c of (x, k) \<Rightarrow>
      kind_allowed kinds k \<and> scratch_map scF x = Some (int (D - e)) \<and> scratch_map scT x = Some (int e)) then acc @ [c] else acc)"
    using get i e by (auto simp: pair_child_def x of_nat_diff split: option.split)
qed

lemma pair_descends:
  assumes wf: "scratch_wf n scF" "scratch_wf n scT" and rng: "in_range n adj" and du: "dual adj" and D: "D \<le> 127"
    and F: "scratch_map scF = dist_upto (hop adj True kinds) r D" and T: "scratch_map scT = dist_upto (hop adj False kinds) t D"
    and at: "at_dist (hop adj True kinds) r D t"
  shows "descends (pair_act adj t (int D) kinds scF scT) adj True kinds t (pair_go n scF scT D)"
  unfolding descends_def
proof (intro conjI allI impI)
  let ?E = "hop adj True kinds"
  have conv: "at_dist (hop adj False kinds) u k w = at_dist ?E w k u" for u w k
    using at_dist_flip [OF du, of True kinds u k w] by simp
  {
    fix w :: "nodeid list" assume w: "w \<noteq> []" "pair_go n scF scT D 0 w"
    then show "last w = t" by (auto simp: pair_go_def T dist_upto_iff at_dist_0)
    then show "pair_act adj t (int D) kinds scF scT w = Some Emit" by (simp add: pair_act_def)
  next
    fix w e assume w: "w \<noteq> []" "pair_go n scF scT D (Suc e) w"
    then have e: "Suc e \<le> D" and to: "at_dist ?E (last w) (Suc e) t" and from_r: "at_dist ?E r (D - Suc e) (last w)"
      unfolding pair_go_def F T dist_upto_int conv by auto
    have last: "last w \<noteq> t" using to at_dist_unique at_dist_0 by (metis nat.distinct(1))
    let ?P = "\<lambda>(x, k). kind_allowed kinds k \<and> scratch_map scF x = Some (int (D - e)) \<and> scratch_map scT x = Some (int e)"
    have "scratch_get scF (last w) = Some (Some (int (D - Suc e)))"
      using w sb.get_amap [OF wf(1)] by (simp add: pair_go_def)
    then have act: "pair_act adj t (int D) kinds scF scT w = Some (Expand (filter ?P (adj True (last w))))"
      using last pair_children [OF wf rng e D, of kinds "last w"] by (simp add: pair_act_def)
    have P: "?P (x, k) \<longleftrightarrow> kind_allowed kinds k \<and> (?E ^^ e) x t" if a: "(x, k) \<in> set (adj True (last w))" for x k
    proof (cases "kind_allowed kinds k")
      case True
      then have h: "?E (last w) x" using a by (auto simp: hop_def)
      have "at_dist ?E r (D - e) x" if "at_dist ?E x e t"
        by (rule at_dist_mid [OF at from_r h that]) (use e in simp)
      then show ?thesis using True at_dist_hop [OF to h] e unfolding F T dist_upto_int prod.case conv by auto
    qed simp
    have x: "x < n" if "(x, k) \<in> set (adj True (last w))" for x k
      using rng that by (auto simp: in_range_def)
    show "\<exists>P. pair_act adj t (int D) kinds scF scT w = Some (Expand (filter P (adj True (last w)))) \<and>
        (\<forall>x k. (x, k) \<in> set (adj True (last w)) \<longrightarrow> P (x, k) = (kind_allowed kinds k \<and> (?E ^^ e) x t)) \<and>
        (\<forall>x k. (x, k) \<in> set (adj True (last w)) \<longrightarrow> P (x, k) \<longrightarrow> pair_go n scF scT D e (w @ [x]))"
      using act P x e by (intro exI [of _ ?P]) (auto simp: pair_go_def)
  }
qed

lemma pair_ref:
  assumes wf: "scratch_wf n scF" "scratch_wf n scT" and rng: "in_range n adj" and du: "dual adj" and D: "0 < D" "D \<le> 127"
    and F: "scratch_map scF = dist_upto (hop adj True kinds) r D" and T: "scratch_map scT = dist_upto (hop adj False kinds) t D"
    and at: "at_dist (hop adj True kinds) r D t" and r: "r < n"
  defines "L \<equiv> dfs_ref (pair_act adj t (int D) kinds scF scT) D [r] []"
  shows "dfs_ok (pair_act adj t (int D) kinds scF scT) D [r]" and "set L = walks_of adj True kinds r t D" and "distinct L"
proof -
  have "at_dist (hop adj False kinds) t D r" using at at_dist_flip [OF du, of True kinds t D r] by simp
  then have "scratch_map scT r = Some (int D)" unfolding T dist_upto_int by simp
  moreover have "scratch_map scF r = Some (int 0)" unfolding F dist_upto_int by (simp add: at_dist_0)
  ultimately have go: "pair_go n scF scT D D [r]" using r by (simp add: pair_go_def)
  note w = dfs_ref_walks [OF pair_descends [OF wf rng du D(2) F T at] _ _ go order_refl]
  show "dfs_ok (pair_act adj t (int D) kinds scF scT) D [r]" using w(1) du by (auto simp: dual_def)
  show "set L = walks_of adj True kinds r t D"
    unfolding L_def using w(2) [of "[]"] du walks_of_tl [of r adj True kinds t D] by (simp add: dual_def)
  show "distinct L" unfolding L_def using w(3) [of "[]"] du by (simp add: dual_def)
qed

lemma shortest_paths_at:
  assumes "at_dist (hop adj True kinds) r d t" and "0 < d" and "d \<le> lim"
  shows "shortest_paths adj kinds lim r t = as_path ` walks_of adj True kinds r t d"
proof -
  have "shortest_walks adj True kinds lim r t = walks_of adj True kinds r t d"
    using assms by (auto simp: shortest_walks_def dest: at_dist_unique [OF assms(1)])
  then show ?thesis by (simp add: shortest_paths_def)
qed

lemma pairEnumerate_correct:
  assumes wf: "scratch_wf n scF" "scratch_wf n scT" and rng: "in_range n adj" and du: "dual adj"
    and found: "pair_found n adj kinds r t D scF scT" and r: "r < n" and s: "sink_rep sink ps" and lim: "D \<le> int lim"
  shows "\<exists>L. distinct L \<and> set L = shortest_paths adj kinds lim r t \<and>
    ok (pairEnumerate adj r t D kinds cap b scF scT sink) (emits cap b ps L)"
proof -
  obtain d where d: "0 < d" "d \<le> 127" "D = int d" "at_dist (hop adj True kinds) r d t"
    "scratch_map scF = dist_upto (hop adj True kinds) r d" "scratch_map scT = dist_upto (hop adj False kinds) t d"
    using found by (auto simp: pair_found_def)
  let ?L = "dfs_ref (pair_act adj t (int d) kinds scF scT) d [r] []"
  note w = pair_ref [OF wf rng du d(1,2,5,6,4) r]
  have sw: "walks_of adj True kinds r t d = shortest_walks adj True kinds d r t"
    using d by (auto simp: shortest_walks_def dest: at_dist_unique [OF d(4)])
  have "\<forall>q \<in> set ?L. walk_ok q" using w(2) shortest_walk_ok [OF _ d(2)] unfolding sw by blast
  then have "ok (pairEnumerate adj r t D kinds cap b scF scT sink) (emits cap b ps (map (orient False) ?L))"
    using dfs_loop_root [OF w(1) _ s] d(2,3) unfolding pairEnumerate_def by simp
  moreover have "distinct (map (orient False) ?L)"
    using w(3) inj_on_subset [OF inj_orient] by (auto simp: distinct_map)
  moreover have "set (map (orient False) ?L) = shortest_paths adj kinds lim r t"
    using w(2) shortest_paths_at [OF d(4,1)] d(3) lim by (auto simp: orient_def as_path_def)
  ultimately show ?thesis by blast
qed

lemma no_shortest_paths:
  "\<not> (\<exists>d. 0 < d \<and> d \<le> lim \<and> at_dist (hop adj True kinds) r d t) \<Longrightarrow> shortest_paths adj kinds lim r t = {}"
  by (auto simp: shortest_paths_def shortest_walks_def)

lemma pairPaths_correct:
  assumes du: "dual adj" and rng: "in_range n adj" and max: "0 \<le> maxDepth" "maxDepth \<le> 127"
    and wf: "scratch_wf n scF" "scratch_wf n scT" "scratch_wf n scTmp" and rt: "r < n" "t < n" and s: "sink_rep sink ps"
  shows "\<exists>L. distinct L \<and> set L = shortest_paths adj kinds (nat maxDepth) r t \<and>
    ok (pairPaths adj r t kinds maxDepth cap b scF scT scTmp sink) (\<lambda>(res, scF', scT', scTmp').
      emits cap b ps L res \<and> scratch_wf n scF' \<and> scratch_wf n scT' \<and> scratch_wf n scTmp')"
proof -
  let ?some = "\<exists>d. 0 < d \<and> int d \<le> maxDepth \<and> at_dist (hop adj True kinds) r d t"
  obtain D scF' scT' scTmp' where p: "pairShortest adj r t kinds maxDepth scF scT scTmp = Some (D, scF', scT', scTmp')"
    "scratch_wf n scF'" "scratch_wf n scT'" "scratch_wf n scTmp'"
    "if ?some then D \<le> maxDepth \<and> pair_found n adj kinds r t D scF' scT' else D = -1"
    using pairShortest_correct [OF du rng max wf rt, of kinds] unfolding ok_iff split_paired_Ex prod.case by blast
  show ?thesis
  proof (cases ?some)
    case True
    then have f: "pair_found n adj kinds r t D scF' scT'" "D \<le> int (nat maxDepth)" using p(5) max by auto
    have "0 \<le> D" using f(1) by (auto simp: pair_found_def)
    then show ?thesis
      using pairEnumerate_correct [OF p(2,3) rng du f(1) rt(1) s f(2), of cap b] p by (auto simp: pairPaths_def ok_iff)
  next
    case False
    then have "shortest_paths adj kinds (nat maxDepth) r t = {}" using no_shortest_paths max by (metis int_nat_eq nat_int nat_mono of_nat_le_iff)
    then show ?thesis using False p s by (auto simp: pairPaths_def emits_def intro!: exI [of _ "[]"])
  qed
qed

text \<open>
  C27. The bidirectional search is exact. For every pair of nodes, kind filter and representable depth,
  \<open>pairPaths\<close> returns without a panic, leaves its three buffers fit for the next pair, and adds to
  the sink exactly the pair's shortest paths within the depth, each once per choice of parallel
  edges; only the cap and the memory budget cut the list short.
\<close>

theorem pairPaths_exact:
  assumes "dual adj" and "in_range n adj" and "0 \<le> maxDepth" and "maxDepth \<le> 127"
    and "scratch_wf n scF" and "scratch_wf n scT" and "scratch_wf n scTmp" and "r < n" and "t < n" and "sink_rep sink ps"
  shows "\<exists>L. distinct L \<and> set L = shortest_paths adj kinds (nat maxDepth) r t \<and>
    ok (pairPaths adj r t kinds maxDepth cap b scF scT scTmp sink) (\<lambda>(res, scF', scT', scTmp').
      emits cap b ps L res \<and> scratch_wf n scF' \<and> scratch_wf n scT' \<and> scratch_wf n scTmp')"
  by (rule pairPaths_correct [OF assms])

theorem pairPaths_exact_witness:
  "\<exists>L. distinct L \<and> set L = shortest_paths chain3 None 15 0 2 \<and>
    ok (pairPaths chain3 0 2 None 15 0 \<lparr>limit = 0, used = 0, reserved = 0\<rparr> (newScratch 3) (newScratch 3) (newScratch 3) emptySink)
      (\<lambda>(res, scF', scT', scTmp'). emits 0 \<lparr>limit = 0, used = 0, reserved = 0\<rparr> [] L res \<and>
        scratch_wf 3 scF' \<and> scratch_wf 3 scT' \<and> scratch_wf 3 scTmp')"
  using pairPaths_exact [OF chain3_dual chain3_in_range _ _ newScratch_wf newScratch_wf newScratch_wf, of 15 0 2 emptySink "[]" None 0
      "\<lparr>limit = 0, used = 0, reserved = 0\<rparr>"] ps.rep_empty by simp

end
