(* ===== verification/Csr.thy ===== *)
theory Csr
  imports BT_Prelude "HOL-Library.Product_Lexorder"
begin

text \<open>
  The counting sort that packs edges into compressed sparse rows, the common part of \<open>packForward\<close>
  and \<open>packReverse\<close> of \<open>internal/engine/snapshot/builder.go\<close>: degrees, prefix sums, placement through
  one cursor per row, and a sort of each row. The parallel arrays that the source fills and swaps in
  lockstep are one array of tuples here. Go's \<open>sort.Sort\<close> does not say in which order it leaves equal
  keys; the model keeps them in input order, and no theorem depends on it.
\<close>

section \<open>The passes\<close>

definition degrees :: "nat \<Rightarrow> nat list \<Rightarrow> (nat list) option" where
  "degrees n keys = foldM (\<lambda>k deg. do { d \<leftarrow> idx deg k; upd deg k (u32 (d + 1)) }) keys (replicate n 0)"

primrec prefix_sums :: "nat \<Rightarrow> nat list \<Rightarrow> nat list" where
  "prefix_sums acc [] = [acc]"
| "prefix_sums acc (d # ds) = acc # prefix_sums (u64 (acc + d)) ds"

definition place_step :: "nat \<times> 'a \<Rightarrow> nat list \<times> 'a list \<Rightarrow> (nat list \<times> 'a list) option" where
  "place_step p st =
     (case (p, st) of ((k, x), (cursor, slots)) \<Rightarrow>
        do { c \<leftarrow> idx cursor k;
             slots' \<leftarrow> upd slots c x;
             cursor' \<leftarrow> upd cursor k (u64 (c + 1));
             Some (cursor', slots') })"

definition sort_segments :: "('a \<Rightarrow> 'b::linorder) \<Rightarrow> nat list \<Rightarrow> nat \<Rightarrow> 'a list \<Rightarrow> 'a list option" where
  "sort_segments key offsets n slots =
     foldM (\<lambda>i slots. do { lo \<leftarrow> idx offsets i; hi \<leftarrow> idx offsets (i + 1);
                           seg \<leftarrow> slice slots lo hi;
                           Some (take lo slots @ sort_key key seg @ drop hi slots) }) [0..<n] slots"

definition csr ::
    "nat \<Rightarrow> nat list \<Rightarrow> (nat \<times> 'a) list \<Rightarrow> 'a \<Rightarrow> ('a \<Rightarrow> 'b::linorder) \<Rightarrow> (nat list \<times> 'a list) option" where
  "csr n degKeys keyed zero key =
     do { deg \<leftarrow> degrees n degKeys;
          let offsets = prefix_sums 0 deg;
          (_, slots) \<leftarrow> foldM place_step keyed (take n offsets, replicate (length degKeys) zero);
          slots' \<leftarrow> sort_segments key offsets n slots;
          Some (offsets, slots') }"

section \<open>Correctness\<close>

text \<open>The rows the passes must produce: the payloads of each key in input order, and where each row starts.\<close>

definition bucket :: "(nat \<times> 'a) list \<Rightarrow> nat \<Rightarrow> 'a list" where
  "bucket keyed i = map snd (filter (\<lambda>p. fst p = i) keyed)"

definition row_start :: "(nat \<Rightarrow> 'a list) \<Rightarrow> nat \<Rightarrow> nat" where
  "row_start b i = length (concat (map b [0..<i]))"

lemma row_start_0 [simp]: "row_start b 0 = 0"
  by (simp add: row_start_def)

lemma row_start_Suc [simp]: "row_start b (Suc i) = row_start b i + length (b i)"
  by (simp add: row_start_def)

lemma row_start_mono: "i \<le> j \<Longrightarrow> row_start b i \<le> row_start b j"
  by (induction j) (auto simp: le_Suc_eq)

lemma row_start_nth:
  assumes "i < n" and "k < length (b i)"
  shows "concat (map b [0..<n]) ! (row_start b i + k) = b i ! k" and "row_start b i + k < row_start b n"
proof -
  have split: "[0..<n] = [0..<i] @ i # [Suc i..<n]" using assms(1) by (metis less_imp_le_nat upt_add_eq_append upt_conv_Cons le0 le_add_diff_inverse add_0)
  show "concat (map b [0..<n]) ! (row_start b i + k) = b i ! k"
    using assms(2) unfolding split by (simp add: nth_append row_start_def)
  have "row_start b i + k < row_start b (Suc i)" using assms(2) by simp
  then show "row_start b i + k < row_start b n" using row_start_mono [of "Suc i" n b] assms(1) by simp
qed

lemma row_index: "m < row_start b n \<Longrightarrow> \<exists>i < n. \<exists>k < length (b i). m = row_start b i + k"
proof (induction n)
  case (Suc n)
  show ?case
  proof (cases "m < row_start b n")
    case True
    with Suc.IH show ?thesis using less_SucI by blast
  next
    case False
    then show ?thesis using Suc.prems by (intro exI [of _ n] conjI exI [of _ "m - row_start b n"]) auto
  qed
qed simp

lemma row_disjoint:
  assumes "row_start b i + k = row_start b j + l" and "k < length (b i)" and "l < length (b j)"
  shows "i = j \<and> k = l"
proof -
  have "\<not> i < j" if "row_start b i + k = row_start b j + l" "k < length (b i)" for i j k l
    using that row_start_mono [of "Suc i" j b] by (auto simp: Suc_le_eq)
  then have "i = j" using assms by (metis linorder_neqE_nat)
  then show ?thesis using assms by simp
qed

lemma degrees_correct:
  assumes "\<forall>k \<in> set keys. k < n" and "length keys < 2 ^ 32"
  shows "degrees n keys = Some (map (count_list keys) [0..<n])"
proof -
  have "ok (degrees n keys) (\<lambda>deg. deg = map (count_list keys) [0..<n])"
    unfolding degrees_def
  proof (rule ok_foldM_prefix [where I = "\<lambda>pre deg. deg = map (count_list pre) [0..<n]"])
    show "replicate n 0 = map (count_list []) [0..<n]" by (rule nth_equalityI) auto
  next
    fix pre k post deg
    assume keys: "keys = pre @ k # post" and deg: "deg = map (count_list pre) [0..<n]"
    have k: "k < n" using assms(1) keys by simp
    have "count_list pre k \<le> length pre" by (rule count_le_length)
    then have "u32 (count_list pre k + 1) = count_list pre k + 1" using assms(2) keys by (intro u32_id) auto
    moreover have "(map (count_list pre) [0..<n])[k := count_list pre k + 1] = map (count_list (pre @ [k])) [0..<n]"
      by (rule nth_equalityI) (auto simp: nth_list_update)
    ultimately show "ok (do { d \<leftarrow> idx deg k; upd deg k (u32 (d + 1)) }) (\<lambda>deg. deg = map (count_list (pre @ [k])) [0..<n])"
      using k deg by (simp add: wp)
  qed
  then show ?thesis by (simp add: ok_iff)
qed

lemma prefix_sums_nth:
  "acc + sum_list ds < 2 ^ 64 \<Longrightarrow> length (prefix_sums acc ds) = Suc (length ds) \<and>
    (\<forall>i \<le> length ds. prefix_sums acc ds ! i = acc + sum_list (take i ds))"
proof (induction ds arbitrary: acc)
  case (Cons d ds)
  have u: "u64 (acc + d) = acc + d" using Cons.prems by (intro u64_id) simp
  then show ?case using Cons.IH [of "acc + d"] Cons.prems by (auto simp: nth_Cons split: nat.split)
qed simp

lemma bucket_length: "length (bucket keyed i) = count_list (map fst keyed) i"
  by (induction keyed) (auto simp: bucket_def)

lemma bucket_append: "bucket (xs @ ys) i = bucket xs i @ bucket ys i"
  by (simp add: bucket_def)

lemma rows_total: "\<forall>p \<in> set keyed. fst p < n \<Longrightarrow> row_start (bucket keyed) n = length keyed"
proof (induction keyed rule: rev_induct)
  case Nil
  then show ?case by (simp add: row_start_def bucket_def concat_eq_Nil_conv)
next
  case (snoc p keyed)
  have "row_start (bucket (keyed @ [p])) m = row_start (bucket keyed) m + (if fst p < m then 1 else 0)" for m
    by (induction m) (auto simp: bucket_append, auto simp: bucket_def less_Suc_eq)
  then show ?case using snoc by simp
qed

lemma offsets_correct:
  assumes "\<forall>p \<in> set keyed. fst p < n" and "length keyed < 2 ^ 32"
  shows "prefix_sums 0 (map (count_list (map fst keyed)) [0..<n]) = map (row_start (bucket keyed)) [0..<Suc n]"
proof -
  let ?ds = "map (count_list (map fst keyed)) [0..<n]"
  have part: "sum_list (take i ?ds) = row_start (bucket keyed) i" if "i \<le> n" for i
    using that
  proof (induction i)
    case (Suc i)
    then have "take (Suc i) ?ds = take i ?ds @ [count_list (map fst keyed) i]" by (simp add: take_Suc_conv_app_nth)
    then show ?case using Suc bucket_length [of keyed i] by simp
  qed simp
  have "sum_list ?ds = length keyed" using part [of n] rows_total [OF assms(1)] by simp
  then have "0 + sum_list ?ds < 2 ^ 64" using assms(2) by simp
  from prefix_sums_nth [OF this] part show ?thesis by (intro nth_equalityI) (auto simp: less_Suc_eq_le simp del: upt_Suc)
qed

text \<open>Placement: each row's cursor is at its start plus what has been placed, and what is placed stays.\<close>

lemma place_correct:
  assumes keys: "\<forall>p \<in> set keyed. fst p < n" and len: "length keyed < 2 ^ 32"
  shows "ok (foldM place_step keyed (map (row_start (bucket keyed)) [0..<n], replicate (length keyed) zero))
    (\<lambda>(_, slots). slots = concat (map (bucket keyed) [0..<n]))"
proof -
  let ?b = "bucket keyed"
  let ?I = "\<lambda>pre (cursor, slots). length slots = length keyed \<and>
    cursor = map (\<lambda>i. row_start ?b i + length (bucket pre i)) [0..<n] \<and>
    (\<forall>i < n. \<forall>k < length (bucket pre i). slots ! (row_start ?b i + k) = ?b i ! k)"
  have "ok (foldM place_step keyed (map (row_start ?b) [0..<n], replicate (length keyed) zero)) (?I keyed)"
  proof (rule ok_foldM_prefix [where I = ?I])
    show "?I [] (map (row_start ?b) [0..<n], replicate (length keyed) zero)" by (simp add: bucket_def)
  next
    fix pre p post st
    assume ks: "keyed = pre @ p # post" and I: "?I pre st"
    obtain k x where p: "p = (k, x)" by fastforce
    obtain cursor slots where st: "st = (cursor, slots)" by fastforce
    have k: "k < n" using keys ks p by auto
    let ?c = "row_start ?b k + length (bucket pre k)"
    have in_row: "length (bucket pre k) < length (?b k)" and x: "?b k ! length (bucket pre k) = x"
      unfolding ks p by (simp_all add: bucket_append) (simp_all add: bucket_def nth_append)
    have "?c < row_start ?b n" using row_start_nth(2) [where b = ?b, OF k in_row] .
    then have c: "?c < length keyed" using rows_total [OF keys] by simp
    have u: "u64 (?c + 1) = ?c + 1" using c len by (intro u64_id) auto
    have lp: "length (bucket (pre @ [p]) i) = length (bucket pre i) + (if i = k then 1 else 0)" for i
      by (simp add: p bucket_append) (simp add: bucket_def)
    have cur: "(map (\<lambda>i. row_start ?b i + length (bucket pre i)) [0..<n])[k := ?c + 1] =
        map (\<lambda>i. row_start ?b i + length (bucket (pre @ [p]) i)) [0..<n]"
      by (rule nth_equalityI) (auto simp: nth_list_update lp)
    have pre_le: "length (bucket pre i) \<le> length (?b i)" for i unfolding ks by (simp add: bucket_append)
    have slot: "slots[?c := x] ! (row_start ?b i + l) = ?b i ! l" if "i < n" "l < length (bucket (pre @ [p]) i)" for i l
    proof (cases "i = k \<and> l = length (bucket pre k)")
      case True
      then show ?thesis using x c I st by simp
    next
      case False
      then have l: "l < length (bucket pre i)" using that(2) lp [of i] by (auto split: if_splits)
      have "row_start ?b i + l \<noteq> ?c" using row_disjoint [of ?b i l k "length (bucket pre k)"] l pre_le [of i] in_row by auto
      then show ?thesis using I st l that(1) by simp
    qed
    show "ok (place_step p st) (?I (pre @ [p]))"
      using I st p k c u cur slot by (simp add: place_step_def wp)
  qed
  then show ?thesis
  proof (rule ok_mono)
    fix st assume I: "?I keyed st"
    obtain cursor slots where st: "st = (cursor, slots)" by fastforce
    have tot: "length (concat (map ?b [0..<n])) = length keyed" using rows_total [OF keys] by (simp add: row_start_def)
    have "slots ! m = concat (map ?b [0..<n]) ! m" if "m < length slots" for m
    proof -
      have "m < row_start ?b n" using that I st tot by (simp add: row_start_def)
      from row_index [OF this] obtain i j where "i < n" "j < length (?b i)" "m = row_start ?b i + j" by blast
      then show ?thesis using I st row_start_nth(1) [of i n j ?b] by simp
    qed
    then have "slots = concat (map ?b [0..<n])" using I st tot by (intro nth_equalityI) auto
    then show "case st of (_, slots) \<Rightarrow> slots = concat (map ?b [0..<n])" using st by simp
  qed
qed

text \<open>Sorting row by row: the rows before \<open>i\<close> are sorted, the others as placed.\<close>

lemma sort_segments_correct:
  fixes key :: "'a \<Rightarrow> 'b::linorder"
  shows "sort_segments key (map (row_start b) [0..<Suc n]) n (concat (map b [0..<n])) =
    Some (concat (map (\<lambda>i. sort_key key (b i)) [0..<n]))"
proof -
  let ?s = "\<lambda>i. sort_key key (b i)"
  let ?step = "\<lambda>i slots. do { lo \<leftarrow> idx (map (row_start b) [0..<Suc n]) i; hi \<leftarrow> idx (map (row_start b) [0..<Suc n]) (i + 1);
    seg \<leftarrow> slice slots lo hi; Some (take lo slots @ sort_key key seg @ drop hi slots) }"
  have len: "length (concat (map ?s [0..<i])) = row_start b i" for i
    by (induction i) auto
  have "m \<le> n \<Longrightarrow> foldM ?step [0..<m] (concat (map b [0..<n])) = Some (concat (map ?s [0..<m]) @ concat (map b [m..<n]))" for m
  proof (induction m)
    case (Suc m)
    then have m: "m < n" by simp
    have split: "concat (map b [m..<n]) = b m @ concat (map b [Suc m..<n])" using m by (simp add: upt_conv_Cons)
    have lo: "map (row_start b) [0..<Suc n] ! m = row_start b m" "map (row_start b) [0..<Suc n] ! Suc m = row_start b m + length (b m)"
      using m by (simp_all add: nth_append del: upt_Suc)
    have "?step m (concat (map ?s [0..<m]) @ concat (map b [m..<n])) =
        Some (concat (map ?s [0..<m]) @ ?s m @ concat (map b [Suc m..<n]))"
      using m len [of m] lo unfolding split by (simp add: slice_def idx_def del: upt_Suc)
    then show ?case using Suc m by (simp add: foldM_append)
  qed simp
  from this [of n] show ?thesis by (simp add: sort_segments_def del: upt_Suc)
qed

lemma csr_correct:
  fixes key :: "'a \<Rightarrow> 'b::linorder"
  assumes "degKeys = map fst keyed" and "\<forall>p \<in> set keyed. fst p < n" and "length keyed < 2 ^ 32"
  shows "csr n degKeys keyed zero key =
    Some (map (row_start (bucket keyed)) [0..<Suc n], concat (map (\<lambda>i. sort_key key (bucket keyed i)) [0..<n]))"
proof -
  have deg: "degrees n degKeys = Some (map (count_list (map fst keyed)) [0..<n])"
    unfolding assms(1) by (rule degrees_correct) (use assms in auto)
  note off = offsets_correct [OF assms(2,3)]
  have "take n (map (row_start (bucket keyed)) [0..<Suc n]) = map (row_start (bucket keyed)) [0..<n]"
    by (simp add: take_map)
  moreover obtain cur where "foldM place_step keyed (map (row_start (bucket keyed)) [0..<n], replicate (length degKeys) zero) =
      Some (cur, concat (map (bucket keyed) [0..<n]))"
    using place_correct [OF assms(2,3), of zero] assms(1) by (auto simp: ok_iff)
  ultimately show ?thesis
    using sort_segments_correct [of key "bucket keyed" n] by (simp add: csr_def deg off Let_def del: upt_Suc)
qed

end
