(* ===== verification/Props.thy ===== *)
theory Props
  imports BT_Prelude
begin

text \<open>
  Property bags, \<open>internal/engine/snapshot/props.go\<close>: names interned to 16-bit ids, one sorted list
  of entries per node, payloads in a shared byte arena. The base snapshot's \<open>Builder\<close> and the
  \<open>SegmentBuilder\<close> of a delta keep the same three tables, here the record \<open>propTable\<close>. A float64
  is its 64-bit pattern. A string or raw JSON text is a list of bytes; JSON arrays and objects are
  stored raw and decoded by the standard library at every read, so their value is the raw text here.
\<close>

section \<open>Entries and tables\<close>

datatype propKind = propKindNull | propKindFalse | propKindTrue | propKindNumber | propKindString
  | propKindArray | propKindObject | propKindNumberNonCanonical

record propEntry =
  e_prop :: nat
  e_kind :: propKind
  e_num :: "64 word"
  e_ref :: nat
  e_len :: nat

record parsedProp =
  pp_name :: string
  pp_kind :: propKind
  pp_num :: "64 word"
  pp_bytes :: string

record propTable =
  propNames :: "string list"
  propIDs :: "string \<rightharpoonup> nat"
  propArena :: string

definition emptyTable :: propTable where
  "emptyTable = \<lparr>propNames = [], propIDs = Map.empty, propArena = []\<rparr>"

definition maxPropID :: nat where "maxPropID = 65535"

definition maxPropArena :: nat where "maxPropArena = 2 ^ 32 - 1"

definition internProp :: "propTable \<Rightarrow> string \<Rightarrow> string + (nat \<times> propTable)" where
  "internProp b name =
     (case propIDs b name of
        Some i \<Rightarrow> Inr (i, b)
      | None \<Rightarrow>
          if length (propNames b) > maxPropID then Inl ''more than 65536 distinct property names''
          else let i = u16 (length (propNames b)) in
               Inr (i, b\<lparr>propNames := propNames b @ [name], propIDs := (propIDs b)(name \<mapsto> i)\<rparr>))"

text \<open>The sum of two slice lengths fits a uint64, so it is not reduced.\<close>

definition appendPropBytes :: "string \<Rightarrow> string \<Rightarrow> string + (nat \<times> nat \<times> string)" where
  "appendPropBytes arena payload =
     (if length arena + length payload > maxPropArena then Inl ''property arena would exceed 4294967295 bytes''
      else Inr (u32 (length arena), u32 (length payload), arena @ payload))"

definition has_payload :: "propKind \<Rightarrow> bool" where
  "has_payload k \<longleftrightarrow> k \<in> {propKindString, propKindArray, propKindObject}"

text \<open>
  One property of a bag, and the whole bag. The table of an error keeps what was interned and
  appended before it; the caller stages nothing then.
\<close>

definition commitOne :: "propTable \<Rightarrow> parsedProp \<Rightarrow> propTable \<times> (string + propEntry)" where
  "commitOne b pp =
     (case internProp b (pp_name pp) of
        Inl err \<Rightarrow> (b, Inl err)
      | Inr (i, b1) \<Rightarrow>
          let e = \<lparr>e_prop = i, e_kind = pp_kind pp, e_num = pp_num pp, e_ref = 0, e_len = 0\<rparr> in
          if has_payload (pp_kind pp)
          then (case appendPropBytes (propArena b1) (pp_bytes pp) of
                  Inl err \<Rightarrow> (b1, Inl err)
                | Inr (r, l, arena) \<Rightarrow> (b1\<lparr>propArena := arena\<rparr>, Inr (e\<lparr>e_ref := r, e_len := l\<rparr>)))
          else (b1, Inr e))"

fun commitAll :: "propTable \<Rightarrow> parsedProp list \<Rightarrow> propTable \<times> (string + propEntry list)" where
  "commitAll b [] = (b, Inr [])"
| "commitAll b (pp # pps) =
     (case commitOne b pp of
        (b1, Inl err) \<Rightarrow> (b1, Inl err)
      | (b1, Inr e) \<Rightarrow>
          (case commitAll b1 pps of
             (b2, Inl err) \<Rightarrow> (b2, Inl err)
           | (b2, Inr es) \<Rightarrow> (b2, Inr (e # es))))"

definition commitProps :: "propTable \<Rightarrow> parsedProp list \<Rightarrow> propTable \<times> (string + propEntry list)" where
  "commitProps b parsed =
     (case commitAll b parsed of
        (b', Inl err) \<Rightarrow> (b', Inl err)
      | (b', Inr es) \<Rightarrow> (b', Inr (sort_key e_prop es)))"

text \<open>The \<open>objectid\<close> of a bag, when it is a string; the last one found, as in the loop.\<close>

definition bagObjectID :: "parsedProp list \<Rightarrow> string option" where
  "bagObjectID parsed = fold (\<lambda>pp acc. if pp_name pp = ''objectid'' \<and> pp_kind pp = propKindString
     then Some (pp_bytes pp) else acc) parsed None"

section \<open>Reading a bag\<close>

datatype propValue = VNull | VBool bool | VNum "64 word" | VString string | VArray string | VObject string

text \<open>\<open>stringAt\<close> aliases the arena without a bounds check; \<open>None\<close> is also a string that reaches past it.\<close>

definition stringAt :: "string \<Rightarrow> nat \<Rightarrow> nat \<Rightarrow> string option" where
  "stringAt arena r l = (if l = 0 then Some [] else slice arena r (r + l))"

lemma stringAt_in [simp]: "r + l \<le> length arena \<Longrightarrow> stringAt arena r l = Some (take l (drop r arena))"
  by (simp add: stringAt_def)

definition decode :: "string \<Rightarrow> propEntry \<Rightarrow> propValue option" where
  "decode arena e =
     (case e_kind e of
        propKindNull \<Rightarrow> Some VNull
      | propKindFalse \<Rightarrow> Some (VBool False)
      | propKindTrue \<Rightarrow> Some (VBool True)
      | propKindNumber \<Rightarrow> Some (VNum (e_num e))
      | propKindNumberNonCanonical \<Rightarrow> Some (VNum (e_num e))
      | propKindString \<Rightarrow> map_option VString (stringAt arena (e_ref e) (e_len e))
      | propKindArray \<Rightarrow> map_option VArray (slice arena (e_ref e) (u32 (e_ref e + e_len e)))
      | propKindObject \<Rightarrow> map_option VObject (slice arena (e_ref e) (u32 (e_ref e + e_len e))))"

text \<open>The binary search for a property id in a node's entries.\<close>

definition entryByID :: "propEntry list \<Rightarrow> nat \<Rightarrow> propEntry option" where
  "entryByID entries i =
     (let p = sort_Search (length entries) (\<lambda>j. i \<le> e_prop (entries ! j)) in
      if p \<ge> length entries \<or> e_prop (entries ! p) \<noteq> i then None else Some (entries ! p))"

text \<open>A property by name: \<open>None\<close> is a panic, \<open>Some None\<close> an absent property.\<close>

definition valueByName :: "propTable \<Rightarrow> propEntry list \<Rightarrow> string \<Rightarrow> (propValue option) option" where
  "valueByName b entries name =
     (case propIDs b name of
        None \<Rightarrow> Some None
      | Some i \<Rightarrow>
          (case entryByID entries i of
             None \<Rightarrow> Some None
           | Some e \<Rightarrow> map_option Some (decode (propArena b) e)))"

section \<open>Invariants\<close>

definition table_wf :: "propTable \<Rightarrow> bool" where
  "table_wf b \<longleftrightarrow> distinct (propNames b) \<and> length (propNames b) \<le> maxPropID + 1 \<and>
     length (propArena b) \<le> maxPropArena \<and>
     (\<forall>n i. propIDs b n = Some i \<longleftrightarrow> i < length (propNames b) \<and> propNames b ! i = n)"

definition entry_wf :: "propTable \<Rightarrow> propEntry \<Rightarrow> bool" where
  "entry_wf b e \<longleftrightarrow> e_prop e < length (propNames b) \<and> (if has_payload (e_kind e) then e_ref e + e_len e \<le> length (propArena b) else e_ref e = 0 \<and> e_len e = 0)"

definition entries_wf :: "propTable \<Rightarrow> propEntry list \<Rightarrow> bool" where
  "entries_wf b es \<longleftrightarrow> sorted_wrt (<) (map e_prop es) \<and> (\<forall>e \<in> set es. entry_wf b e)"

text \<open>Growth of a table: names and bytes are only appended.\<close>

definition grows :: "propTable \<Rightarrow> propTable \<Rightarrow> bool" where
  "grows b b' \<longleftrightarrow> (\<exists>ns. propNames b' = propNames b @ ns) \<and> (\<exists>bs. propArena b' = propArena b @ bs)"

lemma grows_refl [simp]: "grows b b"
  by (auto simp: grows_def)

lemma grows_trans: "grows a b \<Longrightarrow> grows b c \<Longrightarrow> grows a c"
  unfolding grows_def by (metis append.assoc)

lemma entry_wf_grows: "grows b b' \<Longrightarrow> entry_wf b e \<Longrightarrow> entry_wf b' e"
  by (auto simp: grows_def entry_wf_def)

lemma entries_wf_grows: "grows b b' \<Longrightarrow> entries_wf b es \<Longrightarrow> entries_wf b' es"
  using entry_wf_grows by (auto simp: entries_wf_def)

lemma table_id_iff: "table_wf b \<Longrightarrow> i < length (propNames b) \<Longrightarrow> propIDs b (propNames b ! i) = Some i"
  by (simp add: table_wf_def)

lemma emptyTable_wf: "table_wf emptyTable"
  by (simp add: table_wf_def emptyTable_def)

lemma internProp_wf:
  assumes "table_wf b" and "internProp b name = Inr (i, b')"
  shows "table_wf b' \<and> grows b b' \<and> i < length (propNames b') \<and> propNames b' ! i = name \<and> propArena b' = propArena b"
proof (cases "propIDs b name")
  case None
  have len: "\<not> length (propNames b) > maxPropID" using assms(2) None by (auto simp: internProp_def split: if_splits)
  then have u: "u16 (length (propNames b)) = length (propNames b)" by (simp add: u16_def maxPropID_def)
  have b': "b' = b\<lparr>propNames := propNames b @ [name], propIDs := (propIDs b)(name \<mapsto> length (propNames b))\<rparr>" "i = length (propNames b)"
    using assms(2) None len u by (auto simp: internProp_def Let_def)
  have new: "name \<notin> set (propNames b)" using None table_id_iff [OF assms(1)] by (auto simp: in_set_conv_nth)
  have "(propIDs b' n = Some j) = (j < length (propNames b') \<and> propNames b' ! j = n)" for n j
    using assms(1) new unfolding b' by (auto simp: table_wf_def nth_append less_Suc_eq)
  then show ?thesis using assms(1) new len unfolding b' by (auto simp: table_wf_def grows_def)
next
  case (Some j)
  then show ?thesis using assms by (auto simp: internProp_def table_wf_def)
qed

lemma appendPropBytes_ok:
  assumes "appendPropBytes arena payload = Inr (r, l, arena')"
  shows "arena' = arena @ payload \<and> r = length arena \<and> l = length payload \<and> length arena' \<le> maxPropArena"
proof -
  have le: "length arena + length payload \<le> maxPropArena" and a: "arena' = arena @ payload" "r = u32 (length arena)" "l = u32 (length payload)"
    using assms by (auto simp: appendPropBytes_def split: if_splits)
  have "length arena < 2 ^ 32" "length payload < 2 ^ 32" using le unfolding maxPropArena_def by auto
  then show ?thesis using le a u32_id by simp
qed

text \<open>The value that a parsed property stands for.\<close>

definition parsedValue :: "parsedProp \<Rightarrow> propValue" where
  "parsedValue pp =
     (case pp_kind pp of
        propKindNull \<Rightarrow> VNull | propKindFalse \<Rightarrow> VBool False | propKindTrue \<Rightarrow> VBool True
      | propKindNumber \<Rightarrow> VNum (pp_num pp) | propKindNumberNonCanonical \<Rightarrow> VNum (pp_num pp)
      | propKindString \<Rightarrow> VString (pp_bytes pp) | propKindArray \<Rightarrow> VArray (pp_bytes pp) | propKindObject \<Rightarrow> VObject (pp_bytes pp))"

lemma table_arena: "table_wf b \<Longrightarrow> length arena \<le> maxPropArena \<Longrightarrow> table_wf (b\<lparr>propArena := arena\<rparr>)"
  by (simp add: table_wf_def)

lemma commitOne_wf:
  assumes "table_wf b" and "commitOne b pp = (b', Inr e)"
  shows "table_wf b' \<and> grows b b' \<and> entry_wf b' e \<and> propNames b' ! e_prop e = pp_name pp \<and>
    decode (propArena b') e = Some (parsedValue pp)"
proof -
  obtain i b1 where i: "internProp b (pp_name pp) = Inr (i, b1)"
    using assms(2) by (auto simp: commitOne_def split: sum.splits)
  note w = internProp_wf [OF assms(1) i]
  show ?thesis
  proof (cases "has_payload (pp_kind pp)")
    case False
    then have "b' = b1" "e = \<lparr>e_prop = i, e_kind = pp_kind pp, e_num = pp_num pp, e_ref = 0, e_len = 0\<rparr>"
      using assms(2) i by (auto simp: commitOne_def Let_def)
    then show ?thesis using False w by (auto simp: entry_wf_def decode_def parsedValue_def has_payload_def split: propKind.split)
  next
    case True
    obtain r l arena where a: "appendPropBytes (propArena b1) (pp_bytes pp) = Inr (r, l, arena)"
      "b' = b1\<lparr>propArena := arena\<rparr>" "e = \<lparr>e_prop = i, e_kind = pp_kind pp, e_num = pp_num pp, e_ref = r, e_len = l\<rparr>"
      using assms(2) i True by (auto simp: commitOne_def Let_def split: sum.splits)
    note ab = appendPropBytes_ok [OF a(1)]
    have "u32 (r + l) = r + l" using ab by (intro u32_id) (auto simp: maxPropArena_def)
    then have "decode (propArena b') e = Some (parsedValue pp)"
      using True ab unfolding a(2,3) by (auto simp: decode_def parsedValue_def has_payload_def)
    moreover have "table_wf b'" using w ab table_arena unfolding a(2) by blast
    moreover have "grows b b'" using w ab unfolding a(2) by (auto simp: grows_def)
    ultimately show ?thesis using w ab True unfolding a(2,3) by (auto simp: entry_wf_def)
  qed
qed

lemma decode_grows:
  assumes "grows b b'" and "entry_wf b e" and "table_wf b"
  shows "decode (propArena b') e = decode (propArena b) e"
proof (cases "has_payload (e_kind e)")
  case True
  obtain bs where bs: "propArena b' = propArena b @ bs" using assms(1) by (auto simp: grows_def)
  have le: "e_ref e + e_len e \<le> length (propArena b)" using assms(2) True by (simp add: entry_wf_def)
  then have "u32 (e_ref e + e_len e) = e_ref e + e_len e"
    using assms(3) by (intro u32_id) (auto simp: table_wf_def maxPropArena_def)
  then have "slice (propArena b') (e_ref e) (u32 (e_ref e + e_len e)) = slice (propArena b) (e_ref e) (u32 (e_ref e + e_len e))"
    using le bs by simp
  then show ?thesis using le bs by (simp add: decode_def split: propKind.split)
qed (auto simp: decode_def has_payload_def split: propKind.split)

text \<open>An entry stands for a parsed property: its name resolves to it and it decodes to its value.\<close>

definition stands_for :: "propTable \<Rightarrow> parsedProp \<Rightarrow> propEntry \<Rightarrow> bool" where
  "stands_for b pp e \<longleftrightarrow> entry_wf b e \<and> propNames b ! e_prop e = pp_name pp \<and> decode (propArena b) e = Some (parsedValue pp)"

lemma stands_for_grows: "grows b b' \<Longrightarrow> table_wf b \<Longrightarrow> stands_for b pp e \<Longrightarrow> stands_for b' pp e"
  using decode_grows [of b b' e] entry_wf_grows [of b b' e]
  by (auto simp: stands_for_def grows_def nth_append entry_wf_def)

lemma commitAll_wf:
  "table_wf b \<Longrightarrow> commitAll b pps = (b', Inr es) \<Longrightarrow>
    table_wf b' \<and> grows b b' \<and> list_all2 (stands_for b') pps es"
proof (induction pps arbitrary: b es)
  case (Cons pp pps)
  obtain b1 e es' where c: "commitOne b pp = (b1, Inr e)" "commitAll b1 pps = (b', Inr es')" "es = e # es'"
    using Cons.prems(2) by (auto split: prod.splits sum.splits)
  note one = commitOne_wf [OF Cons.prems(1) c(1)]
  have ih: "table_wf b' \<and> grows b1 b' \<and> list_all2 (stands_for b') pps es'" using Cons.IH c(2) one by blast
  have "stands_for b' pp e" using stands_for_grows [of b1 b' pp e] one ih by (auto simp: stands_for_def)
  then show ?case using ih one c(3) grows_trans by blast
qed simp

lemma commitAll_error_wf:
  "table_wf b \<Longrightarrow> commitAll b pps = (b', Inl err) \<Longrightarrow> table_wf b' \<and> grows b b'"
proof (induction pps arbitrary: b)
  case (Cons pp pps)
  show ?case
  proof (cases "commitOne b pp")
    case (Pair b1 r)
    show ?thesis
    proof (cases r)
      case (Inl e)
      then have b': "b' = b1" using Cons.prems(2) Pair by simp
      show ?thesis
      proof (cases "internProp b (pp_name pp)")
        case (Inl e2)
        then show ?thesis using Pair b' Cons.prems(1) by (auto simp: commitOne_def)
      next
        case (Inr q)
        obtain i b2 where q: "q = (i, b2)" by fastforce
        have "b1 = b2" using Pair \<open>r = Inl e\<close> Inr q by (auto simp: commitOne_def Let_def split: if_splits sum.splits)
        then show ?thesis using internProp_wf [OF Cons.prems(1)] Inr q b' by blast
      qed
    next
      case (Inr e)
      have "commitAll b1 pps = (b', Inl err)"
        using Cons.prems(2) Pair Inr by (auto split: prod.splits sum.splits)
      then show ?thesis using Cons.IH commitOne_wf [OF Cons.prems(1)] Pair Inr grows_trans by blast
    qed
  qed
qed simp

lemma stands_for_prop:
  "table_wf b \<Longrightarrow> stands_for b pp e \<Longrightarrow> propIDs b (pp_name pp) = Some (e_prop e)"
  using table_id_iff [of b "e_prop e"] by (auto simp: stands_for_def entry_wf_def)

lemma commitProps_wf:
  assumes "table_wf b" and "commitProps b pps = (b', Inr es)" and "distinct (map pp_name pps)"
  shows "table_wf b'" and "grows b b'" and "entries_wf b' es"
    and "set es = {e. \<exists>pp \<in> set pps. stands_for b' pp e \<and> e \<in> set es}"
    and "\<And>pp. pp \<in> set pps \<Longrightarrow> \<exists>e \<in> set es. stands_for b' pp e"
proof -
  obtain es0 where e0: "commitAll b pps = (b', Inr es0)" "es = sort_key e_prop es0"
    using assms(2) by (auto simp: commitProps_def split: prod.splits sum.splits)
  note w = commitAll_wf [OF assms(1) e0(1)]
  show "table_wf b'" "grows b b'" using w by auto
  have all2: "list_all2 (stands_for b') pps es0" using w by blast
  have ids: "map (\<lambda>e. propNames b' ! e_prop e) es0 = map pp_name pps"
    using all2 by (induction rule: list_all2_induct) (auto simp: stands_for_def)
  then have "distinct (map (\<lambda>e. propNames b' ! e_prop e) es0)" using assms(3) by simp
  then have d: "distinct (map e_prop es0)" by (auto simp: distinct_map inj_on_def)
  have "distinct (map e_prop es)" using d e0(2) by (metis distinct_map distinct_sort mset_map mset_sort set_sort mset_eq_imp_distinct_iff)
  moreover have "sorted (map e_prop es)" using e0(2) by simp
  ultimately have "sorted_wrt (<) (map e_prop es)" by (simp add: strict_sorted_iff)
  moreover have wf: "\<forall>e \<in> set es0. \<exists>pp \<in> set pps. stands_for b' pp e"
    using all2 by (metis in_set_conv_nth list_all2_conv_all_nth)
  ultimately show "entries_wf b' es" using e0(2) by (auto simp: entries_wf_def stands_for_def)
  show "set es = {e. \<exists>pp \<in> set pps. stands_for b' pp e \<and> e \<in> set es}" using wf e0(2) by auto
  show "\<exists>e \<in> set es. stands_for b' pp e" if "pp \<in> set pps" for pp
    using all2 that e0(2) by (metis in_set_conv_nth list_all2_conv_all_nth set_sort)
qed

lemma entryByID_sorted:
  assumes "sorted_wrt (<) (map e_prop es)"
  shows "entryByID es i = (if \<exists>e \<in> set es. e_prop e = i then Some (THE e. e \<in> set es \<and> e_prop e = i) else None)"
proof -
  have s: "sorted (map e_prop es)" using assms strict_sorted_imp_sorted by blast
  have d: "distinct (map e_prop es)" using assms strict_sorted_iff by blast
  let ?p = "sort_Search (length es) (\<lambda>j. i \<le> e_prop (es ! j))"
  note p = sort_Search_sorted [where key = e_prop and xs = es and k = i, OF s]
  show ?thesis
  proof (cases "\<exists>e \<in> set es. e_prop e = i")
    case True
    then have q: "?p < length es" "e_prop (es ! ?p) = i" using p(4) by auto
    have "(THE e. e \<in> set es \<and> e_prop e = i) = es ! ?p"
      using q d by (intro the_equality) (auto simp: distinct_map inj_on_def)
    then show ?thesis using True q by (auto simp: entryByID_def Let_def)
  next
    case False
    then have "\<not> (?p < length es \<and> e_prop (es ! ?p) = i)" using p(4) by auto
    then show ?thesis using False by (auto simp: entryByID_def Let_def)
  qed
qed

lemma entryByID_Some:
  "entries_wf b es \<Longrightarrow> e \<in> set es \<Longrightarrow> entryByID es (e_prop e) = Some e"
proof -
  assume w: "entries_wf b es" and e: "e \<in> set es"
  have d: "distinct (map e_prop es)" using w strict_sorted_iff by (auto simp: entries_wf_def)
  have "(THE e'. e' \<in> set es \<and> e_prop e' = e_prop e) = e"
    using e d by (intro the_equality) (auto simp: distinct_map inj_on_def)
  then show ?thesis using entryByID_sorted [of es "e_prop e"] w e by (auto simp: entries_wf_def)
qed

lemma entryByID_None:
  "entries_wf b es \<Longrightarrow> (\<And>e. e \<in> set es \<Longrightarrow> e_prop e \<noteq> i) \<Longrightarrow> entryByID es i = None"
  using entryByID_sorted [of es i] by (auto simp: entries_wf_def)

lemma entryByID_in:
  "entries_wf b es \<Longrightarrow> entryByID es i = Some e \<Longrightarrow> e \<in> set es \<and> e_prop e = i"
  by (auto simp: entryByID_def Let_def split: if_splits)

text \<open>A bag already stored reads the same after the table has grown.\<close>

lemma valueByName_grows:
  assumes "table_wf b" and "table_wf b'" and "grows b b'" and "entries_wf b es"
  shows "valueByName b' es name = valueByName b es name"
proof (cases "propIDs b name")
  case (Some i)
  then have i: "i < length (propNames b)" "propNames b ! i = name" using assms(1) by (auto simp: table_wf_def)
  then have i': "propIDs b' name = Some i" using assms(2,3) by (auto simp: table_wf_def grows_def nth_append)
  have "decode (propArena b') e = decode (propArena b) e" if "entryByID es i = Some e" for e
    using entryByID_in [OF assms(4) that] assms by (intro decode_grows) (auto simp: entries_wf_def)
  then show ?thesis using Some i' by (auto simp: valueByName_def split: option.split)
next
  case None
  have "entryByID es j = None" if j: "propIDs b' name = Some j" for j
  proof (rule entryByID_None [OF assms(4)])
    fix e assume e: "e \<in> set es"
    then have "e_prop e < length (propNames b)" using assms(4) by (auto simp: entries_wf_def entry_wf_def)
    moreover have "propNames b' ! j = name" using j assms(2) by (auto simp: table_wf_def)
    ultimately show "e_prop e \<noteq> j" using None table_id_iff [OF assms(1), of j] assms(3) by (auto simp: grows_def nth_append)
  qed
  then show ?thesis using None by (auto simp: valueByName_def split: option.split)
qed

lemma bag_reads_back:
  assumes "table_wf b" and "commitProps b pps = (b', Inr es)" and "distinct (map pp_name pps)"
  shows "valueByName b' es name = Some (map_option parsedValue (find (\<lambda>pp. pp_name pp = name) pps))"
proof (cases "find (\<lambda>pp. pp_name pp = name) pps")
  note w = commitProps_wf [OF assms]
  case (Some pp)
  then have pp: "pp \<in> set pps" "pp_name pp = name" by (auto simp: find_Some_iff)
  obtain e where e: "e \<in> set es" "stands_for b' pp e" using w(5) [OF pp(1)] by blast
  show ?thesis using stands_for_prop [OF w(1) e(2)] entryByID_Some [OF w(3) e(1)] e(2) pp Some
    by (auto simp: valueByName_def stands_for_def)
next
  note w = commitProps_wf [OF assms]
  case None
  then have none: "\<And>pp. pp \<in> set pps \<Longrightarrow> pp_name pp \<noteq> name" by (auto simp: find_None_iff)
  have "entryByID es i = None" if i: "propIDs b' name = Some i" for i
  proof (rule entryByID_None [OF w(3)])
    fix e assume "e \<in> set es"
    then obtain pp where "pp \<in> set pps" "stands_for b' pp e" using w(4) by blast
    then show "e_prop e \<noteq> i" using none [of pp] i w(1) by (auto simp: stands_for_def table_wf_def)
  qed
  then show ?thesis using None by (auto simp: valueByName_def split: option.split)
qed

text \<open>
  C39. A property bag reads back as it was parsed. When a bag with distinct names commits, looking any
  name up in the new node's entries returns the parsed value, or absence, without a panic; every
  bag stored before it reads exactly as it did; and the table keeps its invariant.
\<close>

theorem property_bag_roundtrip:
  assumes "table_wf b" and "commitProps b pps = (b', Inr es)" and "distinct (map pp_name pps)"
  shows "table_wf b' \<and> entries_wf b' es \<and>
    (\<forall>name. valueByName b' es name =
       Some (map_option parsedValue (find (\<lambda>pp. pp_name pp = name) pps))) \<and>
    (\<forall>old name. entries_wf b old \<longrightarrow> valueByName b' old name = valueByName b old name)"
proof (intro conjI allI impI)
  note w = commitProps_wf [OF assms]
  show "table_wf b'" "entries_wf b' es" using w by auto
  show "valueByName b' old name = valueByName b old name" if "entries_wf b old" for old name
    using valueByName_grows [OF assms(1) w(1,2) that] .
  show "valueByName b' es name = Some (map_option parsedValue (find (\<lambda>pp. pp_name pp = name) pps))" for name
    by (rule bag_reads_back [OF assms])
qed

theorem property_bag_roundtrip_witness:
  "valueByName (fst (commitProps emptyTable
       [\<lparr>pp_name = ''name'', pp_kind = propKindString, pp_num = 0, pp_bytes = ''ADMIN''\<rparr>,
        \<lparr>pp_name = ''enabled'', pp_kind = propKindTrue, pp_num = 0, pp_bytes = []\<rparr>]))
     (projr (snd (commitProps emptyTable
       [\<lparr>pp_name = ''name'', pp_kind = propKindString, pp_num = 0, pp_bytes = ''ADMIN''\<rparr>,
        \<lparr>pp_name = ''enabled'', pp_kind = propKindTrue, pp_num = 0, pp_bytes = []\<rparr>])))
     ''name'' = Some (Some (VString ''ADMIN''))"
proof -
  let ?pps = "[\<lparr>pp_name = ''name'', pp_kind = propKindString, pp_num = 0, pp_bytes = ''ADMIN''\<rparr>,
    \<lparr>pp_name = ''enabled'', pp_kind = propKindTrue, pp_num = 0, pp_bytes = []\<rparr>]"
  obtain b' es where c: "commitProps emptyTable ?pps = (b', Inr es)"
    by (simp add: commitProps_def commitOne_def internProp_def emptyTable_def appendPropBytes_def maxPropID_def
        maxPropArena_def has_payload_def Let_def)
  have "distinct (map pp_name ?pps)" by simp
  from property_bag_roundtrip [OF emptyTable_wf c this] show ?thesis using c by (simp add: parsedValue_def)
qed

end
