(* ===== verification/Kinds.thy ===== *)
theory Kinds
  imports BT_Prelude "HOL-Library.AList"
begin

text \<open>
  The table of kind ids and names, \<open>internal/engine/snapshot/kinds.go\<close>. A Go map is an association
  list with distinct keys; a loop over a map visits it in the order of the list, and no theorem
  depends on which order that is.
\<close>

record KindTable =
  kt_names :: "string list"
  kt_ids :: "(string \<times> kindid) list"

definition maxKindOf :: "(kindid \<times> string) list \<Rightarrow> kindid" where
  "maxKindOf pairs = fold (\<lambda>(i, _) m. if i > m then i else m) pairs 0"

definition setKindName :: "kindid \<times> string \<Rightarrow> KindTable \<Rightarrow> KindTable option" where
  "setKindName p t =
     do { names \<leftarrow> (if fst p \<ge> 0 then upd (kt_names t) (nat (fst p)) (snd p) else Some (kt_names t));
          Some (t\<lparr>kt_names := names, kt_ids := AList.update (snd p) (fst p) (kt_ids t)\<rparr>) }"

definition NewKindTable :: "(kindid \<times> string) list \<Rightarrow> KindTable option" where
  "NewKindTable pairs =
     foldM setKindName pairs \<lparr>kt_names = replicate (nat (maxKindOf pairs) + 1) [], kt_ids = []\<rparr>"

definition KindTable_Name :: "KindTable \<Rightarrow> kindid \<Rightarrow> string option" where
  "KindTable_Name t i =
     (if i < 0 \<or> i \<ge> int (length (kt_names t)) then None
      else let name = kt_names t ! nat i in if name = [] then None else Some name)"

definition KindTable_ID :: "KindTable \<Rightarrow> string \<Rightarrow> kindid option" where
  "KindTable_ID t name = map_of (kt_ids t) name"

definition KindTable_Len :: "KindTable \<Rightarrow> nat" where
  "KindTable_Len t = length (kt_ids t)"

text \<open>
  The pairs of a table with some pairs added on top, as \<open>View.Kinds\<close> and \<open>foldKindPairs\<close> both build
  them.
\<close>

definition kindPairs :: "KindTable \<Rightarrow> (kindid \<times> string) list \<Rightarrow> (kindid \<times> string) list" where
  "kindPairs t added =
     fold (\<lambda>(i, name). AList.update i name) added
       (map (\<lambda>i. (int i, kt_names t ! i)) (filter (\<lambda>i. kt_names t ! i \<noteq> []) [0..<length (kt_names t)]))"

section \<open>Correctness\<close>

lemma maxKindOf_ge: "(i, name) \<in> set pairs \<Longrightarrow> i \<le> maxKindOf pairs" and maxKindOf_nonneg: "0 \<le> maxKindOf pairs"
proof -
  have ge: "m \<le> fold (\<lambda>(i, _) m. if i > m then i else m) ps m" for ps :: "(kindid \<times> string) list" and m
  proof (induction ps arbitrary: m)
    case (Cons p ps)
    show ?case using Cons.IH [of "if fst p > m then fst p else m"] by (auto simp: case_prod_beta split: if_splits)
  qed simp
  have "i \<le> fold (\<lambda>(i, _) m. if i > m then i else m) ps m" if "(i, name) \<in> set ps" for ps m
    using that
  proof (induction ps arbitrary: m)
    case (Cons p ps)
    show ?case
    proof (cases "(i, name) \<in> set ps")
      case False
      then have "p = (i, name)" using Cons.prems by simp
      then show ?thesis using ge [of "if i > m then i else m" ps] by (auto split: if_splits)
    qed (use Cons.IH in simp)
  qed simp
  then show "(i, name) \<in> set pairs \<Longrightarrow> i \<le> maxKindOf pairs" by (simp add: maxKindOf_def)
  show "0 \<le> maxKindOf pairs" using ge [of 0 pairs] by (simp add: maxKindOf_def)
qed

text \<open>The table holds the pairs \<open>ps\<close>: each name at its id, each id under its name.\<close>

definition table_holds :: "nat \<Rightarrow> (kindid \<times> string) list \<Rightarrow> KindTable \<Rightarrow> bool" where
  "table_holds n ps t \<longleftrightarrow> length (kt_names t) = n \<and>
     (\<forall>i < n. kt_names t ! i = (case map_of ps (int i) of Some name \<Rightarrow> name | None \<Rightarrow> [])) \<and>
     (\<forall>name i. map_of (kt_ids t) name = Some i \<longrightarrow> (i, name) \<in> set ps) \<and>
     (\<forall>(i, name) \<in> set ps. map_of (kt_ids t) name \<noteq> None) \<and>
     distinct (map fst (kt_ids t)) \<and> fst ` set (kt_ids t) = snd ` set ps"

lemma setKindName_holds:
  assumes "table_holds n ps t" and "i < int n" and "i \<notin> fst ` set ps"
  shows "ok (setKindName (i, name) t) (table_holds n (ps @ [(i, name)]))"
proof -
  have new: "map_of ps i = None" using assms(3) by (simp add: map_of_eq_None_iff)
  have m: "map_of (ps @ [(i, name)]) j = (if j = i then Some name else map_of ps j)" for j
    using new by (auto simp: map_add_def split: option.split)
  define names where "names = (if i \<ge> 0 then (kt_names t)[nat i := name] else kt_names t)"
  define ids where "ids = AList.update name i (kt_ids t)"
  have run: "setKindName (i, name) t = Some (t\<lparr>kt_names := names, kt_ids := ids\<rparr>)"
    using assms(1,2) by (auto simp: setKindName_def names_def ids_def table_holds_def)
  have nth: "names ! j = (case map_of (ps @ [(i, name)]) (int j) of Some name \<Rightarrow> name | None \<Rightarrow> [])" if "j < n" for j
    using assms(1) that unfolding m names_def by (auto simp: table_holds_def nth_list_update)
  have look: "map_of ids x = (if x = name then Some i else map_of (kt_ids t) x)" for x
    by (simp add: ids_def update_conv' fun_upd_def)
  have d: "distinct (map fst ids)" using assms(1) by (simp add: table_holds_def ids_def distinct_update)
  have f: "fst ` set ids = insert name (fst ` set (kt_ids t))"
    using dom_update [of name i "kt_ids t"] by (simp add: ids_def dom_map_of_conv_image_fst)
  have "table_holds n (ps @ [(i, name)]) (t\<lparr>kt_names := names, kt_ids := ids\<rparr>)"
    using assms(1) nth look d f by (auto simp: table_holds_def names_def)
  then show ?thesis using run by simp
qed

lemma NewKindTable_holds:
  assumes "distinct (map fst pairs)"
  shows "ok (NewKindTable pairs) (table_holds (nat (maxKindOf pairs) + 1) pairs)"
  unfolding NewKindTable_def
proof (rule ok_foldM_prefix [where I = "table_holds (nat (maxKindOf pairs) + 1)"])
  show "table_holds (nat (maxKindOf pairs) + 1) [] \<lparr>kt_names = replicate (nat (maxKindOf pairs) + 1) [], kt_ids = []\<rparr>"
    by (auto simp: table_holds_def nth_Cons split: nat.split)
next
  fix pre x post t
  assume p: "pairs = pre @ x # post" and t: "table_holds (nat (maxKindOf pairs) + 1) pre t"
  obtain i name where x: "x = (i, name)" by fastforce
  have "i < int (nat (maxKindOf pairs) + 1)" using maxKindOf_ge [of i name pairs] maxKindOf_nonneg p x by simp
  moreover have "i \<notin> fst ` set pre" using assms p x by auto
  ultimately show "ok (setKindName x t) (table_holds (nat (maxKindOf pairs) + 1) (pre @ [x]))"
    using setKindName_holds [OF t] x by simp
qed

lemma NewKindTable_exact:
  assumes "distinct (map fst pairs)" and "distinct (map snd pairs)" and "[] \<notin> snd ` set pairs"
  shows "ok (NewKindTable pairs) (\<lambda>t.
    (\<forall>i name. KindTable_Name t i = Some name \<longleftrightarrow> 0 \<le> i \<and> (i, name) \<in> set pairs) \<and>
    (\<forall>i name. KindTable_ID t name = Some i \<longleftrightarrow> (i, name) \<in> set pairs) \<and>
    KindTable_Len t = length pairs)"
proof (rule ok_mono [OF NewKindTable_holds [OF assms(1)]], intro conjI allI)
  fix t i name
  assume t: "table_holds (nat (maxKindOf pairs) + 1) pairs t"
  have in_pairs: "map_of pairs i = Some name \<longleftrightarrow> (i, name) \<in> set pairs" for i name
    using assms(1) by simp
  show "KindTable_Name t i = Some name \<longleftrightarrow> 0 \<le> i \<and> (i, name) \<in> set pairs"
  proof (cases "0 \<le> i \<and> i < int (length (kt_names t))")
    case True
    then have "kt_names t ! nat i = (case map_of pairs i of Some name \<Rightarrow> name | None \<Rightarrow> [])"
      using t by (simp add: table_holds_def nat_less_iff)
    moreover have "name \<noteq> []" if "(i, name) \<in> set pairs" for name using assms(3) that by (metis image_eqI snd_conv)
    ultimately show ?thesis using True in_pairs [of i]
      by (cases "map_of pairs i") (auto simp: KindTable_Name_def Let_def)
  next
    case False
    then show ?thesis using maxKindOf_ge [of i name pairs] t by (auto simp: KindTable_Name_def table_holds_def)
  qed
  show "KindTable_ID t name = Some i \<longleftrightarrow> (i, name) \<in> set pairs"
  proof
    show "KindTable_ID t name = Some i \<Longrightarrow> (i, name) \<in> set pairs" using t by (simp add: table_holds_def KindTable_ID_def)
    assume p: "(i, name) \<in> set pairs"
    then obtain j where j: "KindTable_ID t name = Some j" "(j, name) \<in> set pairs"
      using t by (fastforce simp: table_holds_def KindTable_ID_def)
    then show "KindTable_ID t name = Some i" using p assms(2) by (metis (no_types, lifting) eq_key_imp_eq_value distinct_map inj_onD prod.sel snd_conv)
  qed
next
  fix t assume t: "table_holds (nat (maxKindOf pairs) + 1) pairs t"
  have "card (set (map fst (kt_ids t))) = card (set (map snd pairs))" using t by (simp add: table_holds_def)
  then have "length (map fst (kt_ids t)) = length (map snd pairs)"
    using t assms(2) unfolding table_holds_def by (metis distinct_card)
  then show "KindTable_Len t = length pairs" by (simp add: KindTable_Len_def)
qed

text \<open>
  The kind table is a bijection on what it was given. Built from any pairs with distinct ids and
  distinct, non-empty names, in whatever order the map is visited, it never panics; \<open>Name\<close> returns
  exactly the name of each non-negative id, \<open>ID\<close> exactly the id of each name, and \<open>Len\<close> their number.
\<close>

theorem kind_table_exact:
  assumes "distinct (map fst pairs)" and "distinct (map snd pairs)" and "[] \<notin> snd ` set pairs"
  shows "ok (NewKindTable pairs) (\<lambda>t.
    (\<forall>i name. KindTable_Name t i = Some name \<longleftrightarrow> 0 \<le> i \<and> (i, name) \<in> set pairs) \<and>
    (\<forall>i name. KindTable_ID t name = Some i \<longleftrightarrow> (i, name) \<in> set pairs) \<and>
    KindTable_Len t = length pairs)"
  by (rule NewKindTable_exact [OF assms])

theorem kind_table_exact_witness:
  "ok (NewKindTable [(7, ''User''), (2, ''MemberOf'')]) (\<lambda>t. KindTable_Name t 7 = Some ''User'' \<and>
    KindTable_ID t ''MemberOf'' = Some 2 \<and> KindTable_Len t = 2)"
  by (rule ok_mono [OF kind_table_exact [of "[(7, ''User''), (2, ''MemberOf'')]"]]) auto

end
