(* ===== verification/Snapshot.thy ===== *)
theory Snapshot
  imports Csr Props Kinds Bitset
begin

text \<open>
  The immutable base snapshot, \<open>internal/engine/snapshot/snapshot.go\<close>, and its builder,
  \<open>internal/engine/snapshot/builder.go\<close>: nodes in ascending database-id order become dense ids, edges
  are packed into forward and reverse rows, and every derived index is rebuilt from the packed
  arrays. \<open>None\<close> is a panic. The lazily built search indexes and the time stamp \<open>BuiltAt\<close> are not part
  of the record.
\<close>

section \<open>Data\<close>

record PropStore =
  ps_table :: propTable
  ps_entries :: "propEntry list"
  ps_nodeOffsets :: "nat list"
  ps_objectIndex :: "(string \<times> nodeid) list"
  ps_objectIndexDup :: "(string \<times> nodeid list) list"

record Snapshot =
  GraphID :: int
  GraphIDs :: "pgid list"
  OutOffsets :: "nat list"
  OutTargets :: "nodeid list"
  OutKinds :: "kindid list"
  OutEdgeIDs :: "pgid list"
  InOffsets :: "nat list"
  InTargets :: "nodeid list"
  InKinds :: "kindid list"
  InEdgeIdx :: "nat list"
  KindOffsets :: "nat list"
  NodeKinds :: "kindid list"
  MaxKindID :: kindid
  sKinds :: KindTable
  sProps :: PropStore
  DroppedEdges :: nat
  idIndex :: "(pgid \<times> nodeid) list"
  kindBitmaps :: "(kindid \<times> bitset) list"
  sSelfLoopKinds :: "kindid list"
  edgeKindSeen :: "bool list"
  edgeIDPerm :: "nat list"
  MultiGraph :: bool
  WatermarkLineage :: lineage

definition NodeCount :: "Snapshot \<Rightarrow> nat" where "NodeCount s = length (GraphIDs s)"

definition EdgeCount :: "Snapshot \<Rightarrow> nat" where "EdgeCount s = length (OutTargets s)"

definition Dense :: "Snapshot \<Rightarrow> pgid \<Rightarrow> nodeid option" where "Dense s i = map_of (idIndex s) i"

definition row :: "nat list \<Rightarrow> nat \<Rightarrow> 'a list \<Rightarrow> 'a list option" where
  "row offsets n xs = do { lo \<leftarrow> idx offsets n; hi \<leftarrow> idx offsets (n + 1); slice xs lo hi }"

definition snap_Out :: "Snapshot \<Rightarrow> nodeid \<Rightarrow> (nodeid list \<times> kindid list) option" where
  "snap_Out s n = do { ts \<leftarrow> row (OutOffsets s) n (OutTargets s); ks \<leftarrow> row (OutOffsets s) n (OutKinds s); Some (ts, ks) }"

definition snap_In :: "Snapshot \<Rightarrow> nodeid \<Rightarrow> (nodeid list \<times> kindid list) option" where
  "snap_In s n = do { ts \<leftarrow> row (InOffsets s) n (InTargets s); ks \<leftarrow> row (InOffsets s) n (InKinds s); Some (ts, ks) }"

definition hasEdgeKind :: "Snapshot \<Rightarrow> kindid \<Rightarrow> bool" where
  "hasEdgeKind s k \<longleftrightarrow> 0 \<le> k \<and> k < int (length (edgeKindSeen s)) \<and> edgeKindSeen s ! nat k"

text \<open>The closure of the binary search reads \<open>OutEdgeIDs[edgeIDPerm[i]]\<close>; the invariant keeps it in range.\<close>

definition EdgeByID :: "Snapshot \<Rightarrow> pgid \<Rightarrow> nat option" where
  "EdgeByID s i =
     (let n = length (edgeIDPerm s);
          p = sort_Search n (\<lambda>j. i \<le> OutEdgeIDs s ! (edgeIDPerm s ! j)) in
      if p < n \<and> OutEdgeIDs s ! (edgeIDPerm s ! p) = i then Some (edgeIDPerm s ! p) else None)"

definition snap_NodesOfKind :: "Snapshot \<Rightarrow> kindid \<Rightarrow> bitset" where
  "snap_NodesOfKind s k = (case map_of (kindBitmaps s) k of Some bm \<Rightarrow> bm | None \<Rightarrow> NewBitset 0)"

definition ps_Value :: "PropStore \<Rightarrow> nodeid \<Rightarrow> nat \<Rightarrow> (propValue option) option" where
  "ps_Value p n i =
     do { entries \<leftarrow> row (ps_nodeOffsets p) n (ps_entries p);
          case entryByID entries i of None \<Rightarrow> Some None | Some e \<Rightarrow> map_option Some (decode (propArena (ps_table p)) e) }"

definition ps_IDByName :: "PropStore \<Rightarrow> string \<Rightarrow> nat option" where
  "ps_IDByName p name = propIDs (ps_table p) name"

definition ps_Name :: "PropStore \<Rightarrow> nat \<Rightarrow> string" where
  "ps_Name p i = (if i \<ge> length (propNames (ps_table p)) then [] else propNames (ps_table p) ! i)"

definition ps_NodeByObjectID :: "PropStore \<Rightarrow> string \<Rightarrow> nodeid option" where
  "ps_NodeByObjectID p oid = map_of (ps_objectIndex p) oid"

definition ps_NodesByObjectID :: "PropStore \<Rightarrow> string \<Rightarrow> (nodeid list) option" where
  "ps_NodesByObjectID p oid =
     (case map_of (ps_objectIndexDup p) oid of
        Some dup \<Rightarrow> Some dup
      | None \<Rightarrow> (case map_of (ps_objectIndex p) oid of Some i \<Rightarrow> Some [i] | None \<Rightarrow> None))"

section \<open>The builder\<close>

record stagedEdge =
  se_id :: pgid
  se_start :: pgid
  se_end :: pgid
  se_kind :: kindid

record Builder =
  b_graphID :: int
  b_ids :: "pgid list"
  b_kindsFlat :: "kindid list"
  b_kindOffsets :: "nat list"
  b_props :: propTable
  b_propEntries :: "propEntry list"
  b_propOffsets :: "nat list"
  b_edges :: "stagedEdge list"
  b_kindTable :: "(kindid \<times> string) list"

definition NewBuilder :: "int \<Rightarrow> Builder" where
  "NewBuilder g = \<lparr>b_graphID = g, b_ids = [], b_kindsFlat = [], b_kindOffsets = [0], b_props = emptyTable,
     b_propEntries = [], b_propOffsets = [0], b_edges = [], b_kindTable = []\<rparr>"

definition not_ascending :: "Builder \<Rightarrow> pgid \<Rightarrow> bool" where
  "not_ascending b i \<longleftrightarrow> b_ids b \<noteq> [] \<and> i \<le> last (b_ids b)"

definition stageEntries :: "Builder \<Rightarrow> propEntry list \<Rightarrow> Builder" where
  "stageEntries b es = b\<lparr>b_propEntries := b_propEntries b @ es,
     b_propOffsets := b_propOffsets b @ [u32 (length (b_propEntries b @ es))]\<rparr>"

definition stageIDKinds :: "Builder \<Rightarrow> pgid \<Rightarrow> kindid list \<Rightarrow> Builder" where
  "stageIDKinds b i kinds = b\<lparr>b_ids := b_ids b @ [i], b_kindsFlat := b_kindsFlat b @ kinds,
     b_kindOffsets := b_kindOffsets b @ [u32 (length (b_kindsFlat b @ kinds))]\<rparr>"

definition commitNodeProps :: "Builder \<Rightarrow> parsedProp list \<Rightarrow> string option \<times> Builder" where
  "commitNodeProps b pps =
     (case commitProps (b_props b) pps of
        (tab, Inl err) \<Rightarrow> (Some err, b\<lparr>b_props := tab\<rparr>)
      | (tab, Inr es) \<Rightarrow> (None, stageEntries (b\<lparr>b_props := tab\<rparr>) es))"

definition addParsedNode :: "Builder \<Rightarrow> pgid \<Rightarrow> kindid list \<Rightarrow> parsedProp list \<Rightarrow> string option \<times> Builder" where
  "addParsedNode b i kinds pps =
     (if not_ascending b i then (Some ''databaseID is not strictly greater than previous'', b)
      else case commitNodeProps b pps of
             (Some err, b') \<Rightarrow> (Some err, b')
           | (None, b') \<Rightarrow> (None, stageIDKinds b' i kinds))"

text \<open>\<open>parsed\<close> is the result of parsing the node's JSON, the error or the bag.\<close>

definition AddNode :: "Builder \<Rightarrow> pgid \<Rightarrow> kindid list \<Rightarrow> string + parsedProp list \<Rightarrow> string option \<times> Builder" where
  "AddNode b i kinds parsed =
     (case parsed of Inl err \<Rightarrow> (Some err, b) | Inr pps \<Rightarrow> addParsedNode b i kinds pps)"

text \<open>A bag already encoded in another source's tables, remapped entry by entry into this builder's.\<close>

definition remapOne :: "propTable \<Rightarrow> propTable \<Rightarrow> propEntry \<Rightarrow> (propTable \<times> (string + propEntry)) option" where
  "remapOne src b e =
     (let name = (if e_prop e < length (propNames src) then propNames src ! e_prop e else []) in
      case internProp b name of
        Inl err \<Rightarrow> Some (b, Inl err)
      | Inr (i, b1) \<Rightarrow>
          let ne = \<lparr>e_prop = i, e_kind = e_kind e, e_num = e_num e, e_ref = 0, e_len = 0\<rparr> in
          if has_payload (e_kind e)
          then do { payload \<leftarrow> slice (propArena src) (e_ref e) (u32 (e_ref e + e_len e));
                    case appendPropBytes (propArena b1) payload of
                      Inl err \<Rightarrow> Some (b1, Inl err)
                    | Inr (r, l, arena) \<Rightarrow> Some (b1\<lparr>propArena := arena\<rparr>, Inr (ne\<lparr>e_ref := r, e_len := l\<rparr>)) }
          else Some (b1, Inr ne))"

fun remapAll :: "propTable \<Rightarrow> propTable \<Rightarrow> propEntry list \<Rightarrow> (propTable \<times> (string + propEntry list)) option" where
  "remapAll src b [] = Some (b, Inr [])"
| "remapAll src b (e # es) =
     do { (b1, r) \<leftarrow> remapOne src b e;
          case r of Inl err \<Rightarrow> Some (b1, Inl err)
          | Inr ne \<Rightarrow>
              do { (b2, r2) \<leftarrow> remapAll src b1 es;
                   case r2 of Inl err \<Rightarrow> Some (b2, Inl err) | Inr nes \<Rightarrow> Some (b2, Inr (ne # nes)) } }"

definition addPreparedNode ::
    "Builder \<Rightarrow> pgid \<Rightarrow> kindid list \<Rightarrow> propTable \<Rightarrow> propEntry list \<Rightarrow> (string option \<times> Builder) option" where
  "addPreparedNode b i kinds src entries =
     (if not_ascending b i then Some (Some ''databaseID is not strictly greater than previous'', b)
      else do { (tab, r) \<leftarrow> remapAll src (b_props b) entries;
                case r of Inl err \<Rightarrow> Some (Some err, b\<lparr>b_props := tab\<rparr>)
                | Inr es \<Rightarrow> Some (None, stageIDKinds (stageEntries (b\<lparr>b_props := tab\<rparr>) (sort_key e_prop es)) i kinds) })"

definition AddEdge :: "Builder \<Rightarrow> pgid \<Rightarrow> pgid \<Rightarrow> pgid \<Rightarrow> kindid \<Rightarrow> Builder" where
  "AddEdge b i start end k = b\<lparr>b_edges := b_edges b @ [\<lparr>se_id = i, se_start = start, se_end = end, se_kind = k\<rparr>]\<rparr>"

definition SetKinds :: "Builder \<Rightarrow> (kindid \<times> string) list \<Rightarrow> Builder" where
  "SetKinds b pairs = b\<lparr>b_kindTable := pairs\<rparr>"

section \<open>Packing\<close>

record denseEdge =
  de_id :: pgid
  de_src :: nodeid
  de_dst :: nodeid
  de_kind :: kindid

definition fwd_key :: "nodeid \<times> kindid \<times> 'a \<Rightarrow> nodeid \<times> kindid" where
  "fwd_key x = (fst x, fst (snd x))"

definition fwd_slot :: "denseEdge \<Rightarrow> nat \<times> (nodeid \<times> kindid \<times> pgid)" where
  "fwd_slot e = (de_src e, (de_dst e, de_kind e, de_id e))"

definition packForward :: "nat \<Rightarrow> denseEdge list \<Rightarrow> (nat list \<times> nodeid list \<times> kindid list \<times> pgid list) option" where
  "packForward n es =
     do { (offsets, slots) \<leftarrow> csr n (map de_src es) (map fwd_slot es) (0, 0, 0) fwd_key;
          Some (offsets, map fst slots, map (fst \<circ> snd) slots, map (snd \<circ> snd) slots) }"

definition walkForward :: "nat \<Rightarrow> nat list \<Rightarrow> nodeid list \<Rightarrow> kindid list \<Rightarrow> ((nat \<times> (nodeid \<times> kindid \<times> nat)) list) option" where
  "walkForward n outOffsets outTargets outKinds =
     foldM (\<lambda>i acc. do { lo \<leftarrow> idx outOffsets i; hi \<leftarrow> idx outOffsets (i + 1);
                         foldM (\<lambda>j acc. do { dst \<leftarrow> idx outTargets j; k \<leftarrow> idx outKinds j;
                                             Some (acc @ [(dst, (u32 i, k, u32 j))]) }) [lo..<hi] acc }) [0..<n] []"

definition packReverse :: "nat \<Rightarrow> nat list \<Rightarrow> nodeid list \<Rightarrow> kindid list \<Rightarrow> (nat list \<times> nodeid list \<times> kindid list \<times> nat list) option" where
  "packReverse n outOffsets outTargets outKinds =
     do { walk \<leftarrow> walkForward n outOffsets outTargets outKinds;
          (offsets, slots) \<leftarrow> csr n outTargets walk (0, 0, 0) fwd_key;
          Some (offsets, map fst slots, map (fst \<circ> snd) slots, map (snd \<circ> snd) slots) }"

definition buildEdgeIDPerm :: "pgid list \<Rightarrow> nat list" where
  "buildEdgeIDPerm ids = sort_key (\<lambda>i. ids ! i) (map u32 [0..<length ids])"

definition denseEdges :: "(pgid \<times> nodeid) list \<Rightarrow> stagedEdge list \<Rightarrow> denseEdge list \<times> nat" where
  "denseEdges lookup es =
     fold (\<lambda>e (out, dropped).
       case map_of lookup (se_start e) of None \<Rightarrow> (out, dropped + 1)
       | Some src \<Rightarrow>
           (case map_of lookup (se_end e) of None \<Rightarrow> (out, dropped + 1)
            | Some dst \<Rightarrow> (out @ [\<lparr>de_id = se_id e, de_src = src, de_dst = dst, de_kind = se_kind e\<rparr>], dropped))) es ([], 0)"

definition index_of :: "pgid list \<Rightarrow> (pgid \<times> nodeid) list" where
  "index_of ids = fold (\<lambda>i. AList.update (ids ! i) (u32 i)) [0..<length ids] []"

section \<open>Derived indexes\<close>

definition deriveKinds :: "nat \<Rightarrow> nat list \<Rightarrow> kindid list \<Rightarrow> kindid list \<Rightarrow> (kindid \<times> (kindid \<times> bitset) list) option" where
  "deriveKinds n kindOffsets nodeKinds outKinds =
     do { (mx, bms) \<leftarrow>
            foldM (\<lambda>i st. do { ks \<leftarrow> row kindOffsets i nodeKinds;
              Some (fold (\<lambda>k (mx, bms).
                (if k > mx then k else mx,
                 AList.update k (Bitset_Set (case map_of bms k of Some bm \<Rightarrow> bm | None \<Rightarrow> NewBitset n) (u32 i)) bms)) ks st) })
              [0..<n] (0, []);
          Some (fold (\<lambda>k m. if k > m then k else m) outKinds mx, bms) }"

definition deriveEdgeKindSeen :: "kindid \<Rightarrow> kindid list \<Rightarrow> bool list option" where
  "deriveEdgeKindSeen maxKind outKinds =
     foldM (\<lambda>k seen. if k \<ge> 0 then upd seen (nat k) True else Some seen) outKinds (replicate (nat maxKind + 1) False)"

definition deriveSelfLoops :: "nat \<Rightarrow> nat list \<Rightarrow> nodeid list \<Rightarrow> kindid list \<Rightarrow> kindid list option" where
  "deriveSelfLoops n outOffsets outTargets outKinds =
     foldM (\<lambda>i acc. do { lo \<leftarrow> idx outOffsets i; hi \<leftarrow> idx outOffsets (i + 1);
       foldM (\<lambda>j acc. do { t \<leftarrow> idx outTargets j;
         if t = u32 i then do { k \<leftarrow> idx outKinds j; Some (List.insert k acc) } else Some acc }) [lo..<hi] acc }) [0..<n] []"

text \<open>\<open>finalizePropStore\<close>: the names by id, and the objectid index with its duplicates.\<close>

definition objectStep :: "PropStore \<Rightarrow> nat \<Rightarrow> nodeid \<Rightarrow>
    (string \<times> nodeid) list \<times> (string \<times> nodeid list) list \<Rightarrow> ((string \<times> nodeid) list \<times> (string \<times> nodeid list) list) option" where
  "objectStep p objID i st =
     do { v \<leftarrow> ps_Value p i objID;
          case (v, st) of
            (Some (VString s), (index, dup)) \<Rightarrow>
              (case map_of index s of
                 None \<Rightarrow> Some (AList.update s i index, dup)
               | Some prev \<Rightarrow>
                   (case map_of dup s of
                      Some l \<Rightarrow> Some (index, AList.update s (l @ [i]) dup)
                    | None \<Rightarrow> Some (index, AList.update s [prev, i] dup)))
          | _ \<Rightarrow> Some st }"

definition finalizePropStore :: "PropStore \<Rightarrow> nat \<Rightarrow> PropStore option" where
  "finalizePropStore p n =
     (let names = propNames (ps_table p);
          ids = map_of (rev (zip names (map u16 [0..<length names])));
          p1 = p\<lparr>ps_table := (ps_table p)\<lparr>propIDs := ids\<rparr>, ps_objectIndex := [], ps_objectIndexDup := []\<rparr> in
      case ps_IDByName p1 ''objectid'' of
        None \<Rightarrow> Some p1
      | Some objID \<Rightarrow>
          do { (index, dup) \<leftarrow> foldM (\<lambda>i. objectStep p1 objID (u32 i)) [0..<n] ([], []);
               Some (p1\<lparr>ps_objectIndex := index, ps_objectIndexDup := dup\<rparr>) })"

definition finalizeDerived :: "Snapshot \<Rightarrow> Snapshot option" where
  "finalizeDerived s =
     do { let n = NodeCount s;
          (mx, bms) \<leftarrow> deriveKinds n (KindOffsets s) (NodeKinds s) (OutKinds s);
          seen \<leftarrow> deriveEdgeKindSeen mx (OutKinds s);
          loops \<leftarrow> deriveSelfLoops n (OutOffsets s) (OutTargets s) (OutKinds s);
          props \<leftarrow> finalizePropStore (sProps s) n;
          Some (s\<lparr>idIndex := index_of (GraphIDs s), kindBitmaps := bms, MaxKindID := mx, edgeKindSeen := seen,
                  sSelfLoopKinds := loops, sProps := props\<rparr>) }"

definition Build :: "Builder \<Rightarrow> Snapshot option" where
  "Build b =
     do { let n = length (b_ids b);
          let (des, dropped) = denseEdges (index_of (b_ids b)) (b_edges b);
          (outOffsets, outTargets, outKinds, outEdgeIDs) \<leftarrow> packForward n des;
          (inOffsets, inTargets, inKinds, inEdgeIdx) \<leftarrow> packReverse n outOffsets outTargets outKinds;
          kinds \<leftarrow> NewKindTable (b_kindTable b);
          finalizeDerived
            \<lparr>GraphID = b_graphID b, GraphIDs = b_ids b, OutOffsets = outOffsets, OutTargets = outTargets,
             OutKinds = outKinds, OutEdgeIDs = outEdgeIDs, InOffsets = inOffsets, InTargets = inTargets,
             InKinds = inKinds, InEdgeIdx = inEdgeIdx, KindOffsets = b_kindOffsets b, NodeKinds = b_kindsFlat b,
             MaxKindID = 0, sKinds = kinds,
             sProps = \<lparr>ps_table = (b_props b)\<lparr>propIDs := Map.empty\<rparr>, ps_entries = b_propEntries b,
                       ps_nodeOffsets = b_propOffsets b, ps_objectIndex = [], ps_objectIndexDup = []\<rparr>,
             DroppedEdges = dropped, idIndex = [], kindBitmaps = [], sSelfLoopKinds = [], edgeKindSeen = [],
             edgeIDPerm = buildEdgeIDPerm outEdgeIDs, MultiGraph = False, WatermarkLineage = replicate 16 0\<rparr> }"

section \<open>The packed graph\<close>

text \<open>
  \<open>snap_rep s out inn\<close>: the arrays of \<open>s\<close> are the rows \<open>out\<close> (target, kind, edge id) and \<open>inn\<close>
  (source, kind, forward slot), and the two agree: every forward slot is in the reverse row of its
  target exactly once.
\<close>

definition slots_of :: "(nat \<Rightarrow> 'a list) \<Rightarrow> nat \<Rightarrow> 'a list" where
  "slots_of b n = concat (map b [0..<n])"

definition rows_agree :: "nat \<Rightarrow> (nat \<Rightarrow> (nodeid \<times> kindid \<times> pgid) list) \<Rightarrow> (nat \<Rightarrow> (nodeid \<times> kindid \<times> nat) list) \<Rightarrow> bool" where
  "rows_agree n out inn \<longleftrightarrow> (\<forall>t < n. distinct (inn t) \<and> (\<forall>u k j. (u, k, j) \<in> set (inn t) \<longleftrightarrow>
     u < n \<and> (\<exists>l < length (out u). j = row_start out u + l \<and> fst (out u ! l) = t \<and> fst (snd (out u ! l)) = k)))"

definition snap_rep :: "Snapshot \<Rightarrow> (nat \<Rightarrow> (nodeid \<times> kindid \<times> pgid) list) \<Rightarrow> (nat \<Rightarrow> (nodeid \<times> kindid \<times> nat) list) \<Rightarrow> bool" where
  "snap_rep s out inn \<longleftrightarrow>
     NodeCount s \<le> 2 ^ 32 \<and> row_start out (NodeCount s) < 2 ^ 32 \<and> sorted_wrt (<) (GraphIDs s) \<and>
     (\<forall>i j. Dense s i = Some j \<longleftrightarrow> j < NodeCount s \<and> GraphIDs s ! j = i) \<and>
     OutOffsets s = map (row_start out) [0..<Suc (NodeCount s)] \<and>
     OutTargets s = map fst (slots_of out (NodeCount s)) \<and>
     OutKinds s = map (fst \<circ> snd) (slots_of out (NodeCount s)) \<and>
     OutEdgeIDs s = map (snd \<circ> snd) (slots_of out (NodeCount s)) \<and>
     InOffsets s = map (row_start inn) [0..<Suc (NodeCount s)] \<and>
     InTargets s = map fst (slots_of inn (NodeCount s)) \<and>
     InKinds s = map (fst \<circ> snd) (slots_of inn (NodeCount s)) \<and>
     InEdgeIdx s = map (snd \<circ> snd) (slots_of inn (NodeCount s)) \<and>
     (\<forall>u < NodeCount s. \<forall>x \<in> set (out u). fst x < NodeCount s) \<and>
     rows_agree (NodeCount s) out inn \<and>
     mset (edgeIDPerm s) = mset [0..<row_start out (NodeCount s)] \<and>
     sorted (map (\<lambda>i. OutEdgeIDs s ! i) (edgeIDPerm s))"

lemma slots_length [simp]: "length (slots_of b n) = row_start b n"
  by (simp add: slots_of_def row_start_def)

lemma slots_nth: "i < n \<Longrightarrow> k < length (b i) \<Longrightarrow> slots_of b n ! (row_start b i + k) = b i ! k"
  unfolding slots_of_def by (rule row_start_nth(1))

lemma row_of_slots:
  assumes "i < n"
  shows "row (map (row_start b) [0..<Suc n]) i (map f (slots_of b n)) = Some (map f (b i))"
proof -
  have split: "slots_of b n = concat (map b [0..<i]) @ b i @ concat (map b [Suc i..<n])"
  proof -
    have "[0..<n] = [0..<i] @ i # [Suc i..<n]" using assms by (metis less_imp_le_nat upt_add_eq_append upt_conv_Cons le0 le_add_diff_inverse add_0)
    then show ?thesis by (simp add: slots_of_def)
  qed
  have off: "map (row_start b) [0..<Suc n] ! i = row_start b i" "map (row_start b) [0..<Suc n] ! Suc i = row_start b i + length (b i)"
    using assms by (simp_all add: nth_append del: upt_Suc)
  have le: "row_start b i + length (b i) \<le> row_start b n" using row_start_mono [of "Suc i" n b] assms by simp
  have "take (length (b i)) (drop (row_start b i) (slots_of b n)) = b i"
    unfolding split by (simp add: row_start_def)
  then show ?thesis using assms off le by (simp add: row_def take_map drop_map del: upt_Suc)
qed

lemma row_slot_eq:
  assumes "i < n" and "k < length (b i)" and "j < n" and "l < length (b j)" and "row_start b i + k = row_start b j + l"
  shows "i = j \<and> k = l"
  using row_disjoint assms by blast

section \<open>Staged edges resolved\<close>

definition resolve_edge :: "(pgid \<rightharpoonup> nodeid) \<Rightarrow> stagedEdge \<Rightarrow> denseEdge option" where
  "resolve_edge m e = do { src \<leftarrow> m (se_start e); dst \<leftarrow> m (se_end e);
     Some \<lparr>de_id = se_id e, de_src = src, de_dst = dst, de_kind = se_kind e\<rparr> }"

lemma denseEdges_eq:
  "denseEdges lookup es = (List.map_filter (resolve_edge (map_of lookup)) es,
     length es - length (List.map_filter (resolve_edge (map_of lookup)) es))"
proof -
  let ?r = "resolve_edge (map_of lookup)"
  let ?m = "List.map_filter ?r"
  let ?step = "\<lambda>e (out, dropped).
       case map_of lookup (se_start e) of None \<Rightarrow> (out, dropped + 1)
       | Some src \<Rightarrow>
           (case map_of lookup (se_end e) of None \<Rightarrow> (out, dropped + 1)
            | Some dst \<Rightarrow> (out @ [\<lparr>de_id = se_id e, de_src = src, de_dst = dst, de_kind = se_kind e\<rparr>], dropped))"
  have le: "length (?m es) \<le> length es" for es by (induction es) (auto simp: map_filter_simps split: option.split)
  have step: "?step e (out, d) = (case ?r e of None \<Rightarrow> (out, d + 1 :: nat) | Some x \<Rightarrow> (out @ [x], d))" for e out d
    by (auto simp: resolve_edge_def split: option.split)
  have "fold ?step es (out, d) = (out @ ?m es, d + (length es - length (?m es)))" for out d
  proof (induction es arbitrary: out d)
    case (Cons e es)
    show ?case
    proof (cases "?r e")
      case None
      then have "fold ?step (e # es) (out, d) = fold ?step es (out, d + 1)" using step [of e out d] by (simp only: fold_simps option.case)
      then show ?thesis using Cons.IH [of out "d + 1"] None le [of es] by (simp add: map_filter_simps)
    next
      case (Some x)
      then have "fold ?step (e # es) (out, d) = fold ?step es (out @ [x], d)" using step [of e out d] by (simp only: fold_simps option.case)
      then show ?thesis using Cons.IH [of "out @ [x]" d] Some by (simp add: map_filter_simps)
    qed
  qed (simp add: map_filter_simps)
  then show ?thesis by (simp add: denseEdges_def)
qed

lemma index_of_lookup:
  assumes "distinct ids" and "length ids \<le> 2 ^ 32"
  shows "map_of (index_of ids) i = Some j \<longleftrightarrow> j < length ids \<and> ids ! j = i"
proof -
  have "m \<le> length ids \<Longrightarrow> map_of (fold (\<lambda>i. AList.update (ids ! i) (u32 i)) [0..<m] []) i = Some j \<longleftrightarrow> j < m \<and> ids ! j = i" for m
  proof (induction m)
    case (Suc m)
    have u: "u32 m = m" using Suc.prems assms(2) by (intro u32_id) simp
    show ?case using Suc assms(1) u by (auto simp: update_conv' less_Suc_eq nth_eq_iff_index_eq split: if_splits)
  qed simp
  from this [of "length ids"] show ?thesis by (simp add: index_of_def)
qed

definition out_rows :: "denseEdge list \<Rightarrow> nat \<Rightarrow> (nodeid \<times> kindid \<times> pgid) list" where
  "out_rows es u = sort_key fwd_key (bucket (map fwd_slot es) u)"

lemma row_start_sort [simp]: "row_start (\<lambda>i. sort_key key (b i)) n = row_start b n"
  by (induction n) auto

lemma packForward_eq:
  assumes "\<forall>e \<in> set es. de_src e < n" and "length es < 2 ^ 32"
  shows "packForward n es = Some (map (row_start (out_rows es)) [0..<Suc n], map fst (slots_of (out_rows es) n),
    map (fst \<circ> snd) (slots_of (out_rows es) n), map (snd \<circ> snd) (slots_of (out_rows es) n))"
proof -
  have "csr n (map de_src es) (map fwd_slot es) (0, 0, 0) fwd_key =
      Some (map (row_start (bucket (map fwd_slot es))) [0..<Suc n], slots_of (out_rows es) n)"
    unfolding out_rows_def [abs_def] slots_of_def by (rule csr_correct) (use assms in \<open>auto simp: fwd_slot_def\<close>)
  moreover have "row_start (out_rows es) = row_start (bucket (map fwd_slot es))"
    by (rule ext) (simp add: out_rows_def [abs_def])
  ultimately show ?thesis by (simp add: packForward_def)
qed

text \<open>The forward walk that feeds the reverse rows.\<close>

definition fwd_walk :: "(nat \<Rightarrow> (nodeid \<times> kindid \<times> pgid) list) \<Rightarrow> nat \<Rightarrow> (nat \<times> (nodeid \<times> kindid \<times> nat)) list" where
  "fwd_walk out n = concat (map (\<lambda>u. map (\<lambda>l. (fst (out u ! l), (u, fst (snd (out u ! l)), row_start out u + l))) [0..<length (out u)]) [0..<n])"

lemma foldM_snoc_map:
  "(\<And>x acc. x \<in> set xs \<Longrightarrow> f x acc = Some (acc @ [g x])) \<Longrightarrow> foldM f xs acc = Some (acc @ map g xs)"
  by (induction xs arbitrary: acc) auto

lemma foldM_snoc_concat:
  "(\<And>x acc. x \<in> set xs \<Longrightarrow> f x acc = Some (acc @ g x)) \<Longrightarrow> foldM f xs acc = Some (acc @ concat (map g xs))"
  by (induction xs arbitrary: acc) auto

lemma walkForward_eq:
  assumes "n \<le> 2 ^ 32" and "row_start out n < 2 ^ 32"
  shows "walkForward n (map (row_start out) [0..<Suc n]) (map fst (slots_of out n)) (map (fst \<circ> snd) (slots_of out n)) =
    Some (fwd_walk out n)"
proof -
  let ?off = "map (row_start out) [0..<Suc n]"
  have "foldM (\<lambda>j acc. do { dst \<leftarrow> idx (map fst (slots_of out n)) j; k \<leftarrow> idx (map (fst \<circ> snd) (slots_of out n)) j;
        Some (acc @ [(dst, (u32 i, k, u32 j))]) }) [row_start out i..<row_start out (Suc i)] acc =
      Some (acc @ map (\<lambda>l. (fst (out i ! l), (i, fst (snd (out i ! l)), row_start out i + l))) [0..<length (out i)])"
    if i: "i < n" for i acc
  proof -
    have "foldM (\<lambda>j acc. do { dst \<leftarrow> idx (map fst (slots_of out n)) j; k \<leftarrow> idx (map (fst \<circ> snd) (slots_of out n)) j;
          Some (acc @ [(dst, (u32 i, k, u32 j))]) }) [row_start out i..<row_start out (Suc i)] acc =
        Some (acc @ map (\<lambda>j. (fst (slots_of out n ! j), (i, fst (snd (slots_of out n ! j)), j))) [row_start out i..<row_start out (Suc i)])"
    proof (rule foldM_snoc_map)
      fix j acc assume j: "j \<in> set [row_start out i..<row_start out (Suc i)]"
      then have "j < row_start out n" using row_start_mono [of "Suc i" n out] i by auto
      moreover have "u32 i = i" "u32 j = j" using i assms calculation by (auto intro!: u32_id)
      ultimately show "do { dst \<leftarrow> idx (map fst (slots_of out n)) j; k \<leftarrow> idx (map (fst \<circ> snd) (slots_of out n)) j;
          Some (acc @ [(dst, (u32 i, k, u32 j))]) } =
        Some (acc @ [(fst (slots_of out n ! j), (i, fst (snd (slots_of out n ! j)), j))])" by simp
    qed
    also have "map (\<lambda>j. (fst (slots_of out n ! j), (i, fst (snd (slots_of out n ! j)), j))) [row_start out i..<row_start out (Suc i)] =
        map (\<lambda>l. (fst (out i ! l), (i, fst (snd (out i ! l)), row_start out i + l))) [0..<length (out i)]"
      by (rule nth_equalityI) (auto simp: slots_nth [OF i])
    finally show ?thesis .
  qed
  moreover have "idx ?off i = Some (row_start out i)" "idx ?off (i + 1) = Some (row_start out (Suc i))" if "i < n" for i
    using that by (simp_all add: nth_append del: upt_Suc row_start_Suc) 
  ultimately show ?thesis unfolding walkForward_def fwd_walk_def
    by (subst foldM_snoc_concat [where g = "\<lambda>u. map (\<lambda>l. (fst (out u ! l), (u, fst (snd (out u ! l)), row_start out u + l))) [0..<length (out u)]"])
      (auto simp del: upt_Suc row_start_Suc)
qed

definition in_rows :: "(nat \<Rightarrow> (nodeid \<times> kindid \<times> pgid) list) \<Rightarrow> nat \<Rightarrow> nat \<Rightarrow> (nodeid \<times> kindid \<times> nat) list" where
  "in_rows out n t = sort_key fwd_key (bucket (fwd_walk out n) t)"

lemma fwd_walk_fst: "map fst (fwd_walk out n) = map fst (slots_of out n)"
proof -
  have "map (\<lambda>l. fst (xs ! l)) [0..<length xs] = map fst xs" for xs :: "(nodeid \<times> kindid \<times> pgid) list"
    by (rule nth_equalityI) auto
  then show ?thesis by (simp add: fwd_walk_def slots_of_def map_concat comp_def)
qed

lemma fwd_walk_iff:
  "(t, (u, k, j)) \<in> set (fwd_walk out n) \<longleftrightarrow>
    u < n \<and> (\<exists>l < length (out u). j = row_start out u + l \<and> fst (out u ! l) = t \<and> fst (snd (out u ! l)) = k)"
  unfolding fwd_walk_def by (auto intro!: bexI [of _ u] imageI)

lemma fwd_walk_distinct: "distinct (fwd_walk out n)"
proof -
  have "distinct (map (snd \<circ> snd \<circ> snd) (fwd_walk out n))"
  proof -
    have "map (snd \<circ> snd \<circ> snd) (fwd_walk out n) = concat (map (\<lambda>u. map (\<lambda>l. row_start out u + l) [0..<length (out u)]) [0..<n])"
      by (simp add: fwd_walk_def map_concat comp_def)
    moreover have "distinct (concat (map (\<lambda>u. map (\<lambda>l. row_start out u + l) [0..<length (out u)]) [0..<n]))"
    proof (rule distinct_concat_map)
      show "set (map (\<lambda>l. row_start out u + l) [0..<length (out u)]) \<inter> set (map (\<lambda>l. row_start out v + l) [0..<length (out v)]) = {}"
        if "u \<noteq> v" for u v
        using row_start_mono [of "Suc u" v out] row_start_mono [of "Suc v" u out] that
        by (cases "u < v") (auto simp: disjoint_iff)
    qed (auto simp: distinct_map)
    ultimately show ?thesis by simp
  qed
  then show ?thesis by (auto simp: distinct_map)
qed

lemma in_rows_agree: "rows_agree n out (in_rows out n)"
proof -
  have "distinct (bucket (fwd_walk out n) t)" for t
    using fwd_walk_distinct [of out n] by (auto simp: bucket_def distinct_map inj_on_def)
  moreover have "x \<in> set (bucket (fwd_walk out n) t) \<longleftrightarrow> (t, x) \<in> set (fwd_walk out n)" for t x
    by (force simp: bucket_def)
  ultimately show ?thesis by (auto simp: rows_agree_def in_rows_def fwd_walk_iff)
qed

lemma packReverse_eq:
  assumes "n \<le> 2 ^ 32" and "row_start out n < 2 ^ 32" and "\<forall>u < n. \<forall>x \<in> set (out u). fst x < n"
  shows "packReverse n (map (row_start out) [0..<Suc n]) (map fst (slots_of out n)) (map (fst \<circ> snd) (slots_of out n)) =
    Some (map (row_start (in_rows out n)) [0..<Suc n], map fst (slots_of (in_rows out n) n),
      map (fst \<circ> snd) (slots_of (in_rows out n) n), map (snd \<circ> snd) (slots_of (in_rows out n) n))"
proof -
  have "\<forall>p \<in> set (fwd_walk out n). fst p < n" using assms(3) by (force simp: fwd_walk_def)
  moreover have "length (fwd_walk out n) = row_start out n" using arg_cong [OF fwd_walk_fst [of out n], of length] by simp
  ultimately have "csr n (map fst (slots_of out n)) (fwd_walk out n) (0, 0, 0) fwd_key =
      Some (map (row_start (bucket (fwd_walk out n))) [0..<Suc n], slots_of (in_rows out n) n)"
    unfolding in_rows_def [abs_def] slots_of_def [of _ n] fwd_walk_fst [symmetric, unfolded slots_of_def]
    by (intro csr_correct) (use assms(2) in auto)
  moreover have "row_start (in_rows out n) = row_start (bucket (fwd_walk out n))"
    by (rule ext) (simp add: in_rows_def [abs_def])
  ultimately show ?thesis using walkForward_eq [OF assms(1,2)] by (simp add: packReverse_def)
qed

lemma edgeIDPerm_ok:
  assumes "length ids < 2 ^ 32"
  shows "mset (buildEdgeIDPerm ids) = mset [0..<length ids]" and "sorted (map (\<lambda>i. ids ! i) (buildEdgeIDPerm ids))"
proof -
  have "map u32 [0..<length ids] = [0..<length ids]" using assms by (intro map_idI) (auto intro!: u32_id)
  then show "mset (buildEdgeIDPerm ids) = mset [0..<length ids]" by (simp add: buildEdgeIDPerm_def)
  show "sorted (map (\<lambda>i. ids ! i) (buildEdgeIDPerm ids))" by (simp add: buildEdgeIDPerm_def)
qed

text \<open>
  Looking an edge up by its database id: exact when ids are distinct, which the primary key of the
  edge table gives.
\<close>

lemma EdgeByID_iff:
  assumes rep: "snap_rep s out inn" and d: "distinct (OutEdgeIDs s)"
  shows "EdgeByID s i = Some j \<longleftrightarrow> j < EdgeCount s \<and> OutEdgeIDs s ! j = i"
proof -
  let ?perm = "edgeIDPerm s"
  have E: "row_start out (NodeCount s) = EdgeCount s" "length (OutEdgeIDs s) = EdgeCount s"
    using rep by (auto simp: snap_rep_def EdgeCount_def)
  have set: "set ?perm = {..<EdgeCount s}" using rep E mset_eq_setD [of ?perm "[0..<EdgeCount s]"] by (auto simp: snap_rep_def)
  have sorted: "sorted (map (\<lambda>i. OutEdgeIDs s ! i) ?perm)" using rep unfolding snap_rep_def by blast
  let ?p = "sort_Search (length ?perm) (\<lambda>j. i \<le> OutEdgeIDs s ! (?perm ! j))"
  note srch = sort_Search_sorted [where key = "\<lambda>i. OutEdgeIDs s ! i" and xs = ?perm and k = i, OF sorted]
  show ?thesis
  proof
    assume "EdgeByID s i = Some j"
    then show "j < EdgeCount s \<and> OutEdgeIDs s ! j = i" using set nth_mem by (fastforce simp: EdgeByID_def Let_def split: if_splits)
  next
    assume j: "j < EdgeCount s \<and> OutEdgeIDs s ! j = i"
    then have "i \<in> (\<lambda>i. OutEdgeIDs s ! i) ` set ?perm" using set by auto
    then have p: "?p < length ?perm" "OutEdgeIDs s ! (?perm ! ?p) = i" using srch(4) by auto
    then have "?perm ! ?p < EdgeCount s" using set nth_mem by blast
    then have "?perm ! ?p = j" using p(2) j d E(2) nth_eq_iff_index_eq by metis
    then show "EdgeByID s i = Some j" using p by (simp add: EdgeByID_def Let_def)
  qed
qed

section \<open>The derived indexes\<close>

lemma index_of_Dense:
  "distinct (GraphIDs s) \<Longrightarrow> NodeCount s \<le> 2 ^ 32 \<Longrightarrow> idIndex s = index_of (GraphIDs s) \<Longrightarrow>
    Dense s i = Some j \<longleftrightarrow> j < NodeCount s \<and> GraphIDs s ! j = i"
  using index_of_lookup [of "GraphIDs s" i j] by (simp add: Dense_def NodeCount_def)

text \<open>Kind bitmaps: after the nodes \<open>pre\<close>, the map of \<open>k\<close> holds those of them that carry \<open>k\<close>.\<close>

definition bitmaps_hold :: "nat \<Rightarrow> (nat \<Rightarrow> kindid set) \<Rightarrow> (kindid \<times> bitset) list \<Rightarrow> bool" where
  "bitmaps_hold n has bms \<longleftrightarrow> (\<forall>k. case map_of bms k of
     Some bm \<Rightarrow> Bitset_invar bm \<and> 64 * length (bwords bm) = 64 * length (bwords (NewBitset n)) \<and> (\<forall>i. Bitset_Has bm i \<longleftrightarrow> k \<in> has i)
   | None \<Rightarrow> (\<forall>i. k \<notin> has i))"

lemma bitmaps_hold_add:
  assumes h: "bitmaps_hold n has bms" and i: "i < n" and n: "n \<le> 2 ^ 32"
  shows "bitmaps_hold n (has(i := insert k (has i)))
    (AList.update k (Bitset_Set (case map_of bms k of Some bm \<Rightarrow> bm | None \<Rightarrow> NewBitset n) i) bms)"
proof -
  let ?bm = "case map_of bms k of Some bm \<Rightarrow> bm | None \<Rightarrow> NewBitset n"
  have room: "i < 64 * length (bwords (NewBitset n))" using i bs.room_fresh [of n] by simp
  have bm: "Bitset_invar ?bm" "64 * length (bwords ?bm) = 64 * length (bwords (NewBitset n))" "\<And>j. Bitset_Has ?bm j \<longleftrightarrow> k \<in> has j"
    using h [unfolded bitmaps_hold_def, rule_format, of k] bs.invar_fresh [OF n] bs.has_fresh [OF n]
    by (cases "map_of bms k"; simp)+
  have new: "Bitset_invar (Bitset_Set ?bm i)" "Bitset_Has (Bitset_Set ?bm i) j \<longleftrightarrow> j = i \<or> k \<in> has j" for j
    using bm room bs.has_put [OF bm(1)] by auto
  show ?thesis
    unfolding bitmaps_hold_def
  proof (intro allI)
    fix k'
    show "case map_of (AList.update k (Bitset_Set ?bm i) bms) k' of
       Some bm \<Rightarrow> Bitset_invar bm \<and> 64 * length (bwords bm) = 64 * length (bwords (NewBitset n)) \<and>
         (\<forall>j. Bitset_Has bm j \<longleftrightarrow> k' \<in> (has(i := insert k (has i))) j)
     | None \<Rightarrow> (\<forall>j. k' \<notin> (has(i := insert k (has i))) j)"
    proof (cases "k' = k")
      case True
      then show ?thesis using new bm(2) by (simp add: update_conv')
    next
      case False
      then show ?thesis using h [unfolded bitmaps_hold_def, rule_format, of k'] by (cases "map_of bms k'") (simp_all add: update_conv')
    qed
  qed
qed

lemma bitmaps_hold_row:
  assumes "bitmaps_hold n has bms" and "i < n" and "n \<le> 2 ^ 32"
  shows "case fold (\<lambda>k (mx, bms). (if k > mx then k else mx,
       AList.update k (Bitset_Set (case map_of bms k of Some bm \<Rightarrow> bm | None \<Rightarrow> NewBitset n) i) bms)) ks (mx, bms) of
     (mx', bms') \<Rightarrow> bitmaps_hold n (has(i := has i \<union> set ks)) bms' \<and> mx \<le> mx' \<and> (\<forall>k \<in> set ks. k \<le> mx') \<and>
       (mx' = mx \<or> mx' \<in> set ks)"
  using assms(1)
proof (induction ks arbitrary: has mx bms)
  case (Cons k ks)
  let ?has = "has(i := insert k (has i))"
  have "?has(i := ?has i \<union> set ks) = has(i := has i \<union> set (k # ks))" by auto
  note has = this
  note ih = Cons.IH [OF bitmaps_hold_add [OF Cons.prems assms(2,3), of k], unfolded has]
  show ?case
  proof (cases "k > mx")
    case True
    then show ?thesis using ih [of k] by (auto split: prod.splits)
  next
    case False
    then show ?thesis using ih [of mx] by (auto split: prod.splits)
  qed
qed simp

lemma max_fold:
  fixes m :: kindid
  shows "m \<le> fold (\<lambda>k m. if k > m then k else m) ks m \<and> (\<forall>k \<in> set ks. k \<le> fold (\<lambda>k m. if k > m then k else m) ks m) \<and>
    (fold (\<lambda>k m. if k > m then k else m) ks m = m \<or> fold (\<lambda>k m. if k > m then k else m) ks m \<in> set ks)"
proof (induction ks arbitrary: m)
  case (Cons k ks)
  show ?case
  proof (cases "k > m")
    case True
    then show ?thesis using Cons.IH [of k] by auto
  next
    case False
    then show ?thesis using Cons.IH [of m] by auto
  qed
qed simp

lemma deriveKinds_ok:
  assumes n: "n \<le> 2 ^ 32"
  shows "ok (deriveKinds n (map (row_start kr) [0..<Suc n]) (slots_of kr n) outKinds) (\<lambda>(mx, bms).
    bitmaps_hold n (\<lambda>i. if i < n then set (kr i) else {}) bms \<and> 0 \<le> mx \<and>
    (\<forall>i < n. \<forall>k \<in> set (kr i). k \<le> mx) \<and> (\<forall>k \<in> set outKinds. k \<le> mx) \<and>
    (mx = 0 \<or> (\<exists>i < n. mx \<in> set (kr i)) \<or> mx \<in> set outKinds))"
proof -
  let ?add = "\<lambda>i k (mx, bms). (if k > mx then k else mx,
       AList.update k (Bitset_Set (case map_of bms k of Some bm \<Rightarrow> bm | None \<Rightarrow> NewBitset n) (u32 i)) bms)"
  let ?step = "\<lambda>i st. do { ks \<leftarrow> row (map (row_start kr) [0..<Suc n]) i (slots_of kr n); Some (fold (?add i) ks st) }"
  let ?I = "\<lambda>pre (mx, bms). bitmaps_hold n (\<lambda>i. if i < length pre then set (kr i) else {}) bms \<and> 0 \<le> mx \<and>
    (\<forall>i < length pre. \<forall>k \<in> set (kr i). k \<le> mx) \<and> (mx = 0 \<or> (\<exists>i < length pre. mx \<in> set (kr i)))"
  have "ok (foldM ?step [0..<n] (0, [])) (?I [0..<n])"
  proof (rule ok_foldM_prefix [where I = ?I])
    show "?I [] (0, [])" by (simp add: bitmaps_hold_def)
  next
    fix pre i post st
    assume pre: "[0..<n] = pre @ i # post" and I: "?I pre st"
    note i = upt_prefix [OF pre]
    have u: "u32 i = i" using i n by (intro u32_id) simp
    obtain mx bms where st: "st = (mx, bms)" by fastforce
    have row: "row (map (row_start kr) [0..<Suc n]) i (slots_of kr n) = Some (kr i)"
      using row_of_slots [OF i(2), of kr "\<lambda>x. x"] by simp
    let ?has = "\<lambda>i. if i < length pre then set (kr i) else {}"
    obtain mx' bms' where f: "fold (?add i) (kr i) st = (mx', bms')" by fastforce
    have h: "bitmaps_hold n ?has bms" using I st by simp
    have r: "bitmaps_hold n (?has(i := ?has i \<union> set (kr i))) bms' \<and> mx \<le> mx' \<and> (\<forall>k \<in> set (kr i). k \<le> mx') \<and> (mx' = mx \<or> mx' \<in> set (kr i))"
      using bitmaps_hold_row [OF h i(2) n, of "kr i" mx] f unfolding u st by simp
    have "?has(i := ?has i \<union> set (kr i)) = (\<lambda>j. if j < length (pre @ [i]) then set (kr j) else {})"
      using i(1) by (auto simp: fun_eq_iff less_Suc_eq)
    moreover have "k \<le> mx'" if "j < length (pre @ [i])" "k \<in> set (kr j)" for j k
    proof (cases "j = i")
      case False
      then have "k \<le> mx" using that I st i(1) by (auto simp: less_Suc_eq)
      then show ?thesis using r by simp
    qed (use r that in simp)
    ultimately have "?I (pre @ [i]) (mx', bms')" using r I st i(1) by (auto simp: less_Suc_eq)
    then show "ok (?step i st) (?I (pre @ [i]))" using f row by simp
  qed
  then obtain mx bms where f: "foldM ?step [0..<n] (0, []) = Some (mx, bms)" "?I [0..<n] (mx, bms)" by (auto simp: ok_iff)
  then show ?thesis using max_fold [of mx outKinds] unfolding deriveKinds_def by (fastforce simp del: upt_Suc)
qed

lemma deriveEdgeKindSeen_ok:
  assumes "\<forall>k \<in> set outKinds. k \<le> mx" and "0 \<le> mx"
  shows "ok (deriveEdgeKindSeen mx outKinds) (\<lambda>seen. length seen = nat mx + 1 \<and>
    (\<forall>k. 0 \<le> k \<and> k < int (length seen) \<longrightarrow> (seen ! nat k \<longleftrightarrow> k \<in> set outKinds)))"
proof -
  let ?I = "\<lambda>pre seen. length seen = nat mx + 1 \<and> (\<forall>k. 0 \<le> k \<and> k < int (length seen) \<longrightarrow> (seen ! nat k \<longleftrightarrow> k \<in> set pre))"
  show ?thesis unfolding deriveEdgeKindSeen_def
  proof (rule ok_foldM_prefix [where I = ?I])
    show "?I [] (replicate (nat mx + 1) False)" by (auto simp: nth_Cons split: nat.split)
  next
    fix pre k post seen
    assume p: "outKinds = pre @ k # post" and I: "?I pre seen"
    have "k \<le> mx" using assms(1) p by simp
    then show "ok (if k \<ge> 0 then upd seen (nat k) True else Some seen) (?I (pre @ [k]))"
      using I assms(2) by (auto simp: wp nth_list_update eq_nat_nat_iff)
  qed
qed

lemma deriveSelfLoops_ok:
  assumes "n \<le> 2 ^ 32"
  shows "ok (deriveSelfLoops n (map (row_start out) [0..<Suc n]) (map fst (slots_of out n)) (map (fst \<circ> snd) (slots_of out n)))
    (\<lambda>loops. \<forall>k. k \<in> set loops \<longleftrightarrow> (\<exists>i < n. \<exists>x \<in> set (out i). fst x = i \<and> fst (snd x) = k))"
proof -
  let ?in = "\<lambda>i j acc. do { t \<leftarrow> idx (map fst (slots_of out n)) j;
         if t = u32 i then do { k \<leftarrow> idx (map (fst \<circ> snd) (slots_of out n)) j; Some (List.insert k acc) } else Some acc }"
  let ?off = "map (row_start out) [0..<Suc n]"
  have row: "ok (foldM (?in i) [row_start out i..<row_start out (Suc i)] acc) (\<lambda>acc'. \<forall>k. k \<in> set acc' \<longleftrightarrow>
      k \<in> set acc \<or> (\<exists>x \<in> set (out i). fst x = i \<and> fst (snd x) = k))" if i: "i < n" for i acc
  proof -
    have u: "u32 i = i" using i assms by (intro u32_id) simp
    have "ok (foldM (?in i) [row_start out i..<row_start out (Suc i)] acc) (\<lambda>acc'. \<forall>k. k \<in> set acc' \<longleftrightarrow>
      k \<in> set acc \<or> (\<exists>j \<in> set [row_start out i..<row_start out (Suc i)]. fst (slots_of out n ! j) = i \<and> fst (snd (slots_of out n ! j)) = k))"
    proof (rule ok_foldM_prefix [where I = "\<lambda>pre acc'. \<forall>k. k \<in> set acc' \<longleftrightarrow> k \<in> set acc \<or>
        (\<exists>j \<in> set pre. fst (slots_of out n ! j) = i \<and> fst (snd (slots_of out n ! j)) = k)"])
      fix pre j post acc'
      assume p: "[row_start out i..<row_start out (Suc i)] = pre @ j # post"
        and I: "\<forall>k. k \<in> set acc' \<longleftrightarrow> k \<in> set acc \<or> (\<exists>j \<in> set pre. fst (slots_of out n ! j) = i \<and> fst (snd (slots_of out n ! j)) = k)"
      have "j \<in> set [row_start out i..<row_start out (Suc i)]" unfolding p by simp
      then have "j < row_start out n" using row_start_mono [of "Suc i" n out] i by auto
      then show "ok (?in i j acc') (\<lambda>acc'. \<forall>k. k \<in> set acc' \<longleftrightarrow> k \<in> set acc \<or>
          (\<exists>j \<in> set (pre @ [j]). fst (slots_of out n ! j) = i \<and> fst (snd (slots_of out n ! j)) = k))"
        using I u by auto
    qed simp
    moreover have "(\<exists>j \<in> set [row_start out i..<row_start out (Suc i)]. fst (slots_of out n ! j) = i \<and> fst (snd (slots_of out n ! j)) = k)
        \<longleftrightarrow> (\<exists>x \<in> set (out i). fst x = i \<and> fst (snd x) = k)" for k
    proof -
      have "set (out i) = (\<lambda>l. slots_of out n ! (row_start out i + l)) ` {..<length (out i)}"
        using slots_nth [OF i, of _ out] by (force simp: set_conv_nth)
      moreover have "set [row_start out i..<row_start out (Suc i)] = (\<lambda>l. row_start out i + l) ` {..<length (out i)}"
        by (simp add: lessThan_atLeast0 add.commute)
      ultimately show ?thesis by simp
    qed
    ultimately show ?thesis by (simp only:)
  qed
  let ?I = "\<lambda>pre loops. \<forall>k. k \<in> set loops \<longleftrightarrow> (\<exists>i < length pre. \<exists>x \<in> set (out i). fst x = i \<and> fst (snd x) = k)"
  have "ok (deriveSelfLoops n ?off (map fst (slots_of out n)) (map (fst \<circ> snd) (slots_of out n))) (?I [0..<n])"
    unfolding deriveSelfLoops_def
  proof (rule ok_foldM_prefix [where I = ?I])
    fix pre i post acc
    assume pre: "[0..<n] = pre @ i # post" and I: "?I pre acc"
    note i = upt_prefix [OF pre]
    have off: "idx ?off i = Some (row_start out i)" "idx ?off (i + 1) = Some (row_start out (Suc i))"
      using i by (simp_all add: nth_append del: upt_Suc row_start_Suc)
    have "ok (foldM (?in i) [row_start out i..<row_start out (Suc i)] acc) (?I (pre @ [i]))"
      by (rule ok_mono [OF row [OF i(2), of acc]]) (use I i(1) in \<open>auto simp: less_Suc_eq\<close>)
    then show "ok (do { lo \<leftarrow> idx ?off i; hi \<leftarrow> idx ?off (i + 1); foldM (?in i) [lo..<hi] acc }) (?I (pre @ [i]))"
      unfolding off bind.bind_lunit .
  qed simp
  then show ?thesis by simp
qed

end
