(* ===== verification/Building.thy ===== *)
theory Building
  imports Snapshot
begin

text \<open>
  Correctness of \<open>internal/engine/snapshot/builder.go\<close>: what the staged rows of a builder are, that
  every staging operation keeps them, and that \<open>Build\<close> packs exactly the staged graph, with every
  derived index exact.
\<close>

section \<open>Bags\<close>

definition bag_of :: "propTable \<Rightarrow> propEntry list \<Rightarrow> string \<rightharpoonup> propValue" where
  "bag_of t es name = (case valueByName t es name of Some v \<Rightarrow> v | None \<Rightarrow> None)"

definition parsedBag :: "parsedProp list \<Rightarrow> string \<rightharpoonup> propValue" where
  "parsedBag pps name = map_option parsedValue (find (\<lambda>pp. pp_name pp = name) pps)"

text \<open>The parsed form of an entry that another source has encoded.\<close>

definition unparse :: "propTable \<Rightarrow> propEntry \<Rightarrow> parsedProp" where
  "unparse src e = \<lparr>pp_name = propNames src ! e_prop e, pp_kind = e_kind e, pp_num = e_num e,
     pp_bytes = (if has_payload (e_kind e) then take (e_len e) (drop (e_ref e) (propArena src)) else [])\<rparr>"

lemma entry_slice:
  assumes "table_wf t" and "entry_wf t e" and "has_payload (e_kind e)"
  shows "slice (propArena t) (e_ref e) (u32 (e_ref e + e_len e)) = Some (take (e_len e) (drop (e_ref e) (propArena t)))"
proof -
  have le: "e_ref e + e_len e \<le> length (propArena t)" using assms by (simp add: entry_wf_def)
  then have "u32 (e_ref e + e_len e) = e_ref e + e_len e"
    using assms(1) by (intro u32_id) (auto simp: table_wf_def maxPropArena_def)
  then show ?thesis using le by simp
qed

lemma decode_unparse:
  assumes "table_wf t" and "entry_wf t e"
  shows "decode (propArena t) e = Some (parsedValue (unparse t e))"
  using entry_slice [OF assms] assms(2)
  by (auto simp: decode_def parsedValue_def unparse_def has_payload_def entry_wf_def split: propKind.split)

lemma unparse_stands: "table_wf t \<Longrightarrow> entry_wf t e \<Longrightarrow> stands_for t (unparse t e) e"
  using decode_unparse by (simp add: stands_for_def unparse_def)

lemma unparse_names:
  assumes "table_wf t" and "entries_wf t es"
  shows "distinct (map pp_name (map (unparse t) es))"
proof -
  have d: "distinct (map e_prop es)" using assms(2) strict_sorted_iff by (auto simp: entries_wf_def)
  have lt: "\<forall>e \<in> set es. e_prop e < length (propNames t)" using assms(2) by (simp add: entries_wf_def entry_wf_def)
  have "distinct (propNames t)" using assms(1) by (simp add: table_wf_def)
  then show ?thesis using d lt by (auto simp: unparse_def distinct_map inj_on_def nth_eq_iff_index_eq)
qed

lemma valueByName_unparse:
  assumes "table_wf t" and "entries_wf t es"
  shows "valueByName t es name = Some (parsedBag (map (unparse t) es) name)"
proof (cases "find (\<lambda>pp. pp_name pp = name) (map (unparse t) es)")
  case None
  then have none: "\<And>e. e \<in> set es \<Longrightarrow> propNames t ! e_prop e \<noteq> name" by (auto simp: find_None_iff unparse_def)
  have "entryByID es i = None" if "propIDs t name = Some i" for i
    using none that assms(1) by (intro entryByID_None [OF assms(2)]) (auto simp: table_wf_def)
  then show ?thesis using None by (auto simp: valueByName_def parsedBag_def split: option.split)
next
  case (Some pp)
  then obtain e where e: "e \<in> set es" "pp = unparse t e" "pp_name pp = name" using nth_mem by (fastforce simp: find_Some_iff)
  have wf: "entry_wf t e" using assms(2) e(1) by (simp add: entries_wf_def)
  show ?thesis using stands_for_prop [OF assms(1) unparse_stands [OF assms(1) wf]] entryByID_Some [OF assms(2) e(1)]
      decode_unparse [OF assms(1) wf] e Some by (simp add: valueByName_def parsedBag_def)
qed

lemma bag_of_unparse: "table_wf t \<Longrightarrow> entries_wf t es \<Longrightarrow> bag_of t es = parsedBag (map (unparse t) es)"
  by (rule ext) (simp add: bag_of_def valueByName_unparse)

lemma bag_of_value: "table_wf t \<Longrightarrow> entries_wf t es \<Longrightarrow> valueByName t es name = Some (bag_of t es name)"
  by (simp add: bag_of_unparse valueByName_unparse)

lemma bag_of_grows:
  "table_wf t \<Longrightarrow> table_wf t' \<Longrightarrow> grows t t' \<Longrightarrow> entries_wf t es \<Longrightarrow> bag_of t' es = bag_of t es"
  using valueByName_grows [of t t' es] by (intro ext) (simp add: bag_of_def)

lemma bag_of_commit:
  "table_wf t \<Longrightarrow> commitProps t pps = (t', Inr es) \<Longrightarrow> distinct (map pp_name pps) \<Longrightarrow> bag_of t' es = parsedBag pps"
  using bag_reads_back [of t pps t' es] by (intro ext) (simp add: bag_of_def parsedBag_def)

text \<open>Remapping an encoded bag is committing its parsed form.\<close>

lemma remapOne_eq:
  assumes "table_wf src" and "entry_wf src e"
  shows "remapOne src b e = Some (commitOne b (unparse src e))"
proof -
  have lt: "e_prop e < length (propNames src)" using assms(2) by (simp add: entry_wf_def)
  show ?thesis
  proof (cases "has_payload (e_kind e)")
    case True
    then show ?thesis using lt entry_slice [OF assms True]
      by (simp add: remapOne_def commitOne_def unparse_def Let_def split: sum.split)
  next
    case False
    then show ?thesis using lt by (auto simp: remapOne_def commitOne_def unparse_def Let_def split: sum.split)
  qed
qed

lemma remapAll_eq:
  assumes "table_wf src"
  shows "(\<forall>e \<in> set es. entry_wf src e) \<Longrightarrow> remapAll src b es = Some (commitAll b (map (unparse src) es))"
proof (induction es arbitrary: b)
  case (Cons e es)
  then show ?case using remapOne_eq [OF assms, of e b]
    by (auto split: prod.split sum.split)
qed simp

lemma addPreparedNode_eq:
  assumes "table_wf src" and "entries_wf src es"
  shows "addPreparedNode b i kinds src es = Some (addParsedNode b i kinds (map (unparse src) es))"
proof -
  have "\<forall>e \<in> set es. entry_wf src e" using assms(2) by (simp add: entries_wf_def)
  note r = remapAll_eq [OF assms(1) this]
  show ?thesis
    by (auto simp: addPreparedNode_def addParsedNode_def commitNodeProps_def commitProps_def r split: prod.split sum.split)
qed

section \<open>Staged rows\<close>

text \<open>
  \<open>builder_rep b kr pr\<close>: the builder has staged, for each of its node ids, the kind row \<open>kr\<close> and the
  property row \<open>pr\<close>, in ascending order of the ids and well formed in its own tables.
\<close>

definition builder_rep :: "Builder \<Rightarrow> (nat \<Rightarrow> kindid list) \<Rightarrow> (nat \<Rightarrow> propEntry list) \<Rightarrow> bool" where
  "builder_rep b kr pr \<longleftrightarrow>
     sorted_wrt (<) (b_ids b) \<and>
     b_kindOffsets b = map (row_start kr) [0..<Suc (length (b_ids b))] \<and> b_kindsFlat b = slots_of kr (length (b_ids b)) \<and>
     b_propOffsets b = map (row_start pr) [0..<Suc (length (b_ids b))] \<and> b_propEntries b = slots_of pr (length (b_ids b)) \<and>
     table_wf (b_props b) \<and> (\<forall>i < length (b_ids b). entries_wf (b_props b) (pr i))"

lemma NewBuilder_rep: "builder_rep (NewBuilder g) kr pr"
  by (simp add: builder_rep_def NewBuilder_def slots_of_def emptyTable_wf)

lemma row_start_cong: "(\<And>j. j < i \<Longrightarrow> f j = g j) \<Longrightarrow> row_start f i = row_start g i"
proof -
  assume "\<And>j. j < i \<Longrightarrow> f j = g j"
  then have "map f [0..<i] = map g [0..<i]" by (intro map_cong) auto
  then show ?thesis by (simp only: row_start_def)
qed

lemma row_start_upd [simp]: "i \<le> n \<Longrightarrow> row_start (f(n := x)) i = row_start f i"
  by (rule row_start_cong) simp

lemma slots_of_upd [simp]: "slots_of (f(n := x)) n = slots_of f n"
proof -
  have "map (f(n := x)) [0..<n] = map f [0..<n]" by (intro map_cong) auto
  then show ?thesis unfolding slots_of_def by simp
qed

lemma slots_of_Suc: "slots_of f (Suc n) = slots_of f n @ f n"
  by (simp add: slots_of_def)

lemma staged_row:
  assumes "row_start f n + length x < 2 ^ 32"
  shows "map (row_start f) [0..<Suc n] @ [u32 (length (slots_of f n @ x))] = map (row_start (f(n := x))) [0..<Suc (Suc n)]"
    and "slots_of f n @ x = slots_of (f(n := x)) (Suc n)"
proof -
  have "u32 (length (slots_of f n @ x)) = row_start f n + length x" using assms by (simp add: u32_id)
  moreover have "map (row_start f) [0..<Suc n] = map (row_start (f(n := x))) [0..<Suc n]" by (rule map_cong) auto
  ultimately show "map (row_start f) [0..<Suc n] @ [u32 (length (slots_of f n @ x))] = map (row_start (f(n := x))) [0..<Suc (Suc n)]"
    by simp
  show "slots_of f n @ x = slots_of (f(n := x)) (Suc n)" by (simp add: slots_of_Suc)
qed

lemma commitAll_length: "commitAll b pps = (b', Inr es) \<Longrightarrow> length es = length pps"
  by (induction pps arbitrary: b es) (auto split: prod.splits sum.splits)

lemma commitProps_length: "commitProps b pps = (b', Inr es) \<Longrightarrow> length es = length pps"
  using commitAll_length by (fastforce simp: commitProps_def split: prod.splits sum.splits)

lemma stage_node_rep:
  assumes rep: "builder_rep b kr pr" and asc: "\<not> not_ascending b i"
    and c: "commitProps (b_props b) pps = (tab, Inr es)" and d: "distinct (map pp_name pps)"
    and fit: "length (b_kindsFlat b) + length kinds < 2 ^ 32" "length (b_propEntries b) + length pps < 2 ^ 32"
  shows "builder_rep (stageIDKinds (stageEntries (b\<lparr>b_props := tab\<rparr>) es) i kinds)
    (kr(length (b_ids b) := kinds)) (pr(length (b_ids b) := es))"
proof -
  let ?n = "length (b_ids b)"
  have wf: "table_wf (b_props b)" using rep by (simp add: builder_rep_def)
  note w = commitProps_wf [OF wf c d]
  have kinds: "b_kindOffsets b = map (row_start kr) [0..<Suc ?n]" "b_kindsFlat b = slots_of kr ?n"
    and props: "b_propOffsets b = map (row_start pr) [0..<Suc ?n]" "b_propEntries b = slots_of pr ?n"
    using rep unfolding builder_rep_def by blast+
  have "sorted_wrt (<) (b_ids b @ [i])"
    using rep asc by (cases "b_ids b" rule: rev_cases) (auto simp: builder_rep_def not_ascending_def sorted_wrt_append)
  moreover have "\<forall>j < Suc ?n. entries_wf tab ((pr(?n := es)) j)"
    using rep w entries_wf_grows [OF w(2)] by (auto simp: builder_rep_def less_Suc_eq)
  ultimately show ?thesis
    using staged_row [of kr ?n kinds] staged_row [of pr ?n es] fit w(1) commitProps_length [OF c] kinds props
    by (simp add: builder_rep_def stageIDKinds_def stageEntries_def del: upt_Suc)
qed

text \<open>What staging one node does: the error leaves every staged row alone, success appends the node.\<close>

lemma addParsedNode_rep:
  assumes rep: "builder_rep b kr pr" and add: "addParsedNode b i kinds pps = (r, b')" and d: "distinct (map pp_name pps)"
    and fit: "length (b_kindsFlat b) + length kinds < 2 ^ 32" "length (b_propEntries b) + length pps < 2 ^ 32"
  shows "r = None \<Longrightarrow> \<exists>es. builder_rep b' (kr(length (b_ids b) := kinds)) (pr(length (b_ids b) := es)) \<and>
      b_ids b' = b_ids b @ [i] \<and> bag_of (b_props b') es = parsedBag pps \<and> length es = length pps"
    and "r \<noteq> None \<Longrightarrow> builder_rep b' kr pr \<and> b' = b\<lparr>b_props := b_props b'\<rparr>"
    and "\<forall>j < length (b_ids b). bag_of (b_props b') (pr j) = bag_of (b_props b) (pr j)"
    and "b_edges b' = b_edges b \<and> b_kindTable b' = b_kindTable b \<and> b_graphID b' = b_graphID b"
proof -
  have wf: "table_wf (b_props b)" and ewf: "\<forall>j < length (b_ids b). entries_wf (b_props b) (pr j)"
    using rep by (auto simp: builder_rep_def)
  obtain tab res where c: "commitProps (b_props b) pps = (tab, res)" by fastforce
  have grown: "table_wf tab \<and> grows (b_props b) tab"
  proof (cases res)
    case (Inl err)
    then show ?thesis using commitAll_error_wf [OF wf] c by (fastforce simp: commitProps_def split: prod.splits sum.splits)
  next
    case (Inr es)
    then show ?thesis using commitProps_wf [OF wf _ d] c by blast
  qed
  have bags: "\<forall>j < length (b_ids b). bag_of tab (pr j) = bag_of (b_props b) (pr j)"
    using ewf bag_of_grows [OF wf] grown by blast
  consider "not_ascending b i" "r \<noteq> None" "b' = b"
    | err where "\<not> not_ascending b i" "res = Inl err" "r \<noteq> None" "b' = b\<lparr>b_props := tab\<rparr>"
    | es where "\<not> not_ascending b i" "res = Inr es" "r = None" "b' = stageIDKinds (stageEntries (b\<lparr>b_props := tab\<rparr>) es) i kinds"
    using add c by (cases res) (auto simp: addParsedNode_def commitNodeProps_def split: if_splits)
  note cases = this
  show "r = None \<Longrightarrow> \<exists>es. builder_rep b' (kr(length (b_ids b) := kinds)) (pr(length (b_ids b) := es)) \<and>
      b_ids b' = b_ids b @ [i] \<and> bag_of (b_props b') es = parsedBag pps \<and> length es = length pps"
    by (cases rule: cases)
      (use c stage_node_rep [OF rep _ _ d fit, of i tab] bag_of_commit [OF wf _ d, of tab] commitProps_length [of "b_props b" pps tab]
       in \<open>auto simp: stageIDKinds_def stageEntries_def\<close>)
  show "r \<noteq> None \<Longrightarrow> builder_rep b' kr pr \<and> b' = b\<lparr>b_props := b_props b'\<rparr>"
    by (cases rule: cases) (use rep grown entries_wf_grows in \<open>auto simp: builder_rep_def\<close>)
  show "\<forall>j < length (b_ids b). bag_of (b_props b') (pr j) = bag_of (b_props b) (pr j)"
    by (cases rule: cases) (use bags in \<open>auto simp: stageIDKinds_def stageEntries_def\<close>)
  show "b_edges b' = b_edges b \<and> b_kindTable b' = b_kindTable b \<and> b_graphID b' = b_graphID b"
    by (cases rule: cases) (auto simp: stageIDKinds_def stageEntries_def)
qed

section \<open>The property store\<close>

definition oid_nodes :: "propTable \<Rightarrow> (nat \<Rightarrow> propEntry list) \<Rightarrow> nat \<Rightarrow> string \<Rightarrow> nodeid list" where
  "oid_nodes t pr n oid = filter (\<lambda>i. bag_of t (pr i) ''objectid'' = Some (VString oid)) [0..<n]"

definition store_rep :: "PropStore \<Rightarrow> nat \<Rightarrow> (nat \<Rightarrow> propEntry list) \<Rightarrow> bool" where
  "store_rep p n pr \<longleftrightarrow> ps_nodeOffsets p = map (row_start pr) [0..<Suc n] \<and> ps_entries p = slots_of pr n \<and>
     table_wf (ps_table p) \<and> (\<forall>i < n. entries_wf (ps_table p) (pr i))"

definition oid_index_ok :: "PropStore \<Rightarrow> nat \<Rightarrow> (nat \<Rightarrow> propEntry list) \<Rightarrow> bool" where
  "oid_index_ok p n pr \<longleftrightarrow> (\<forall>oid. ps_NodeByObjectID p oid = (case oid_nodes (ps_table p) pr n oid of [] \<Rightarrow> None | i # _ \<Rightarrow> Some i) \<and>
     ps_NodesByObjectID p oid = (case oid_nodes (ps_table p) pr n oid of [] \<Rightarrow> None | ids \<Rightarrow> Some ids))"

text \<open>Reading a base node's property is reading its bag.\<close>

lemma ps_Value_bag:
  assumes "store_rep p n pr" and "i < n" and "ps_IDByName p name = Some q"
  shows "ps_Value p i q = Some (bag_of (ps_table p) (pr i) name)"
proof -
  have wf: "table_wf (ps_table p)" "entries_wf (ps_table p) (pr i)" using assms by (auto simp: store_rep_def)
  have "row (ps_nodeOffsets p) i (ps_entries p) = Some (pr i)"
    using row_of_slots [OF assms(2), of pr "\<lambda>x. x"] assms(1) by (simp add: store_rep_def del: upt_Suc)
  then have "ps_Value p i q = valueByName (ps_table p) (pr i) name"
    using assms(3) by (auto simp: ps_Value_def valueByName_def ps_IDByName_def split: option.split)
  then show ?thesis using bag_of_value [OF wf] by simp
qed

lemma oid_nodes_Suc:
  "oid_nodes t pr (Suc m) oid = oid_nodes t pr m oid @ (if bag_of t (pr m) ''objectid'' = Some (VString oid) then [m] else [])"
  by (simp add: oid_nodes_def)

definition oid_inv :: "propTable \<Rightarrow> (nat \<Rightarrow> propEntry list) \<Rightarrow> nat \<Rightarrow> (string \<times> nodeid) list \<times> (string \<times> nodeid list) list \<Rightarrow> bool" where
  "oid_inv t pr m st \<longleftrightarrow> (\<forall>oid. map_of (fst st) oid = (case oid_nodes t pr m oid of [] \<Rightarrow> None | i # _ \<Rightarrow> Some i) \<and>
     map_of (snd st) oid = (case oid_nodes t pr m oid of i # j # is \<Rightarrow> Some (i # j # is) | _ \<Rightarrow> None))"

lemma objectStep_inv:
  assumes rep: "store_rep p n pr" and m: "m < n" and q: "ps_IDByName p ''objectid'' = Some q" and inv: "oid_inv (ps_table p) pr m st"
  shows "ok (objectStep p q m st) (oid_inv (ps_table p) pr (Suc m))"
proof -
  obtain index dup where st: "st = (index, dup)" by fastforce
  let ?v = "bag_of (ps_table p) (pr m) ''objectid''"
  have v: "ps_Value p m q = Some ?v" by (rule ps_Value_bag [OF rep m q])
  show ?thesis
  proof (cases "\<exists>s. ?v = Some (VString s)")
    case False
    then have "objectStep p q m st = Some st" using v by (auto simp: objectStep_def st split: option.split propValue.split)
    moreover have "oid_nodes (ps_table p) pr (Suc m) oid = oid_nodes (ps_table p) pr m oid" for oid
      using False by (auto simp: oid_nodes_Suc)
    ultimately show ?thesis using inv by (simp add: oid_inv_def)
  next
    case True
    then obtain s where s: "?v = Some (VString s)" by blast
    have nodes: "oid_nodes (ps_table p) pr (Suc m) oid = oid_nodes (ps_table p) pr m oid @ (if oid = s then [m] else [])" for oid
      using s by (auto simp: oid_nodes_Suc)
    have at_s: "map_of index s = (case oid_nodes (ps_table p) pr m s of [] \<Rightarrow> None | i # _ \<Rightarrow> Some i)"
      "map_of dup s = (case oid_nodes (ps_table p) pr m s of i # j # is \<Rightarrow> Some (i # j # is) | _ \<Rightarrow> None)"
      using inv by (auto simp: oid_inv_def st)
    consider "oid_nodes (ps_table p) pr m s = []" | i where "oid_nodes (ps_table p) pr m s = [i]"
      | i j "is" where "oid_nodes (ps_table p) pr m s = i # j # is"
      by (metis list.exhaust)
    then show ?thesis
      by cases (use v s at_s inv in \<open>auto simp: objectStep_def st oid_inv_def nodes update_conv' split: list.split\<close>)
  qed
qed

text \<open>The name table that \<open>finalizePropStore\<close> rebuilds is the one the builder kept.\<close>

lemma rebuilt_ids:
  assumes "table_wf t"
  shows "map_of (rev (zip (propNames t) (map u16 [0..<length (propNames t)]))) = propIDs t"
proof
  fix name
  let ?ps = "zip (propNames t) (map u16 [0..<length (propNames t)])"
  have u: "map u16 [0..<length (propNames t)] = [0..<length (propNames t)]"
    using assms by (intro map_idI) (auto simp: table_wf_def u16_def maxPropID_def)
  have "distinct (map fst (rev ?ps))" using assms by (simp add: table_wf_def rev_map [symmetric])
  then have "map_of (rev ?ps) name = Some i \<longleftrightarrow> i < length (propNames t) \<and> propNames t ! i = name" for i
    unfolding u by (auto simp: in_set_zip)
  then have "map_of (rev ?ps) name = Some i \<longleftrightarrow> propIDs t name = Some i" for i using assms by (simp add: table_wf_def)
  then show "map_of (rev ?ps) name = propIDs t name" by (metis not_None_eq)
qed

lemma finalizePropStore_ok:
  assumes rep: "store_rep p n pr" and n: "n \<le> 2 ^ 32"
  shows "ok (finalizePropStore (p\<lparr>ps_table := (ps_table p)\<lparr>propIDs := m\<rparr>\<rparr>) n)
    (\<lambda>p'. store_rep p' n pr \<and> ps_table p' = ps_table p \<and> oid_index_ok p' n pr)"
proof -
  let ?t = "ps_table p"
  define p1 where "p1 = p\<lparr>ps_objectIndex := [], ps_objectIndexDup := []\<rparr>"
  have wf: "table_wf ?t" using rep by (simp add: store_rep_def)
  have rep1: "store_rep p1 n pr" "ps_table p1 = ?t" using rep by (simp_all add: p1_def store_rep_def del: upt_Suc)
  have fin: "finalizePropStore (p\<lparr>ps_table := ?t\<lparr>propIDs := m\<rparr>\<rparr>) n =
    (case ps_IDByName p1 ''objectid'' of None \<Rightarrow> Some p1
     | Some q \<Rightarrow> do { (index, dup) \<leftarrow> foldM (\<lambda>i. objectStep p1 q (u32 i)) [0..<n] ([], []);
                     Some (p1\<lparr>ps_objectIndex := index, ps_objectIndexDup := dup\<rparr>) })"
  proof -
    let ?q = "p\<lparr>ps_table := ?t\<lparr>propIDs := m\<rparr>\<rparr>"
    have "?q\<lparr>ps_table := (ps_table ?q)\<lparr>propIDs := map_of (rev (zip (propNames (ps_table ?q)) (map u16 [0..<length (propNames (ps_table ?q))])))\<rparr>,
        ps_objectIndex := [], ps_objectIndexDup := []\<rparr> = p1" by (simp add: rebuilt_ids [OF wf] p1_def)
    then show ?thesis unfolding finalizePropStore_def Let_def by (simp only:)
  qed
  show ?thesis
  proof (cases "ps_IDByName p1 ''objectid''")
    case None
    then have "propIDs ?t ''objectid'' = None" by (simp add: ps_IDByName_def rep1)
    then have "oid_nodes ?t pr n oid = []" for oid by (simp add: oid_nodes_def bag_of_def valueByName_def)
    then have "oid_index_ok p1 n pr" by (simp add: oid_index_ok_def ps_NodeByObjectID_def ps_NodesByObjectID_def rep1(2)) (simp add: p1_def)
    then show ?thesis using fin None rep1 by simp
  next
    case (Some q)
    have "ok (foldM (\<lambda>i. objectStep p1 q (u32 i)) [0..<n] ([], [])) (oid_inv ?t pr (length [0..<n]))"
    proof (rule ok_foldM_prefix [where I = "\<lambda>pre. oid_inv ?t pr (length pre)"])
      show "oid_inv ?t pr (length []) ([], [])" by (simp add: oid_inv_def oid_nodes_def)
      fix pre i post st
      assume p: "[0..<n] = pre @ i # post" and I: "oid_inv ?t pr (length pre) st"
      note i = upt_prefix [OF p]
      have "u32 i = i" using i n by (intro u32_id) simp
      then show "ok (objectStep p1 q (u32 i) st) (oid_inv ?t pr (length (pre @ [i])))"
        using objectStep_inv [OF rep1(1) i(2) Some, of st] I i(1) rep1(2) by simp
    qed
    then obtain index dup where f: "foldM (\<lambda>i. objectStep p1 q (u32 i)) [0..<n] ([], []) = Some (index, dup)" "oid_inv ?t pr n (index, dup)"
      by (auto simp: ok_iff)
    let ?p = "p1\<lparr>ps_objectIndex := index, ps_objectIndexDup := dup\<rparr>"
    have "oid_index_ok ?p n pr"
      using f(2) rep1(2) by (auto simp: oid_index_ok_def oid_inv_def ps_NodeByObjectID_def ps_NodesByObjectID_def split: list.split)
    then show ?thesis using fin Some f(1) rep1 by (simp add: store_rep_def del: upt_Suc)
  qed
qed

section \<open>Build\<close>

text \<open>
  \<open>snap_wf s out inn kr pr\<close>: a complete snapshot, its packed rows and every index derived from them.
\<close>

definition snap_wf :: "Snapshot \<Rightarrow> (nat \<Rightarrow> (nodeid \<times> kindid \<times> pgid) list) \<Rightarrow> (nat \<Rightarrow> (nodeid \<times> kindid \<times> nat) list) \<Rightarrow>
    (nat \<Rightarrow> kindid list) \<Rightarrow> (nat \<Rightarrow> propEntry list) \<Rightarrow> bool" where
  "snap_wf s out inn kr pr \<longleftrightarrow> snap_rep s out inn \<and>
     KindOffsets s = map (row_start kr) [0..<Suc (NodeCount s)] \<and> NodeKinds s = slots_of kr (NodeCount s) \<and>
     bitmaps_hold (NodeCount s) (\<lambda>i. if i < NodeCount s then set (kr i) else {}) (kindBitmaps s) \<and>
     0 \<le> MaxKindID s \<and> (\<forall>i < NodeCount s. \<forall>k \<in> set (kr i). k \<le> MaxKindID s) \<and> (\<forall>k \<in> set (OutKinds s). k \<le> MaxKindID s) \<and>
     (\<forall>k. hasEdgeKind s k \<longleftrightarrow> 0 \<le> k \<and> k \<in> set (OutKinds s)) \<and>
     (\<forall>k. k \<in> set (sSelfLoopKinds s) \<longleftrightarrow> (\<exists>i < NodeCount s. \<exists>x \<in> set (out i). fst x = i \<and> fst (snd x) = k)) \<and>
     store_rep (sProps s) (NodeCount s) pr \<and> oid_index_ok (sProps s) (NodeCount s) pr"

definition resolved :: "Builder \<Rightarrow> denseEdge list" where
  "resolved b = List.map_filter (resolve_edge (map_of (index_of (b_ids b)))) (b_edges b)"

lemma resolved_in_range:
  assumes "distinct (b_ids b)" and "length (b_ids b) \<le> 2 ^ 32" and "e \<in> set (resolved b)"
  shows "de_src e < length (b_ids b)" and "de_dst e < length (b_ids b)"
proof -
  obtain x where "resolve_edge (map_of (index_of (b_ids b))) x = Some e"
    using assms(3) by (auto simp: resolved_def List.map_filter_def)
  then have "map_of (index_of (b_ids b)) (se_start x) = Some (de_src e)" "map_of (index_of (b_ids b)) (se_end x) = Some (de_dst e)"
    by (auto simp: resolve_edge_def split: Option.bind_splits)
  then show "de_src e < length (b_ids b)" "de_dst e < length (b_ids b)" using index_of_lookup [OF assms(1,2)] by blast+
qed

lemma resolved_length: "length (resolved b) \<le> length (b_edges b)"
  by (simp add: resolved_def List.map_filter_def)

lemma finalizeDerived_ok:
  assumes rep: "snap_rep (s\<lparr>idIndex := index_of (GraphIDs s)\<rparr>) out inn"
    and kinds: "KindOffsets s = map (row_start kr) [0..<Suc (NodeCount s)]" "NodeKinds s = slots_of kr (NodeCount s)"
    and props: "store_rep p (NodeCount s) pr" "sProps s = p\<lparr>ps_table := (ps_table p)\<lparr>propIDs := m\<rparr>\<rparr>"
  shows "ok (finalizeDerived s) (\<lambda>s'. snap_wf s' out inn kr pr \<and> GraphIDs s' = GraphIDs s \<and> GraphID s' = GraphID s \<and>
    ps_table (sProps s') = ps_table p \<and> DroppedEdges s' = DroppedEdges s \<and> sKinds s' = sKinds s)"
proof -
  let ?n = "NodeCount s"
  have [simp]: "NodeCount (s\<lparr>idIndex := x\<rparr>) = NodeCount s" for x by (simp add: NodeCount_def)
  have n: "?n \<le> 2 ^ 32" and outs: "OutOffsets s = map (row_start out) [0..<Suc ?n]" "OutTargets s = map fst (slots_of out ?n)"
      "OutKinds s = map (fst \<circ> snd) (slots_of out ?n)"
    using rep unfolding snap_rep_def by (simp_all del: upt_Suc)
  obtain mx bms where k: "deriveKinds ?n (KindOffsets s) (NodeKinds s) (OutKinds s) = Some (mx, bms)"
    "bitmaps_hold ?n (\<lambda>i. if i < ?n then set (kr i) else {}) bms" "0 \<le> mx" "\<forall>i < ?n. \<forall>k \<in> set (kr i). k \<le> mx" "\<forall>k \<in> set (OutKinds s). k \<le> mx"
    using deriveKinds_ok [OF n, of kr "OutKinds s"] unfolding kinds ok_iff split_paired_Ex prod.case by blast
  obtain seen where seen: "deriveEdgeKindSeen mx (OutKinds s) = Some seen" "length seen = nat mx + 1"
    "\<forall>k. 0 \<le> k \<and> k < int (length seen) \<longrightarrow> (seen ! nat k \<longleftrightarrow> k \<in> set (OutKinds s))"
    using deriveEdgeKindSeen_ok [OF k(5,3)] by (auto simp: ok_iff)
  obtain loops where loops: "deriveSelfLoops ?n (OutOffsets s) (OutTargets s) (OutKinds s) = Some loops"
    "\<forall>k. k \<in> set loops \<longleftrightarrow> (\<exists>i < ?n. \<exists>x \<in> set (out i). fst x = i \<and> fst (snd x) = k)"
    using deriveSelfLoops_ok [OF n, of out] unfolding outs ok_iff by blast
  obtain p' where p': "finalizePropStore (sProps s) ?n = Some p'" "store_rep p' ?n pr" "ps_table p' = ps_table p" "oid_index_ok p' ?n pr"
    using finalizePropStore_ok [OF props(1) n, of m] unfolding props(2) ok_iff by blast
  let ?s = "s\<lparr>idIndex := index_of (GraphIDs s), kindBitmaps := bms, MaxKindID := mx, edgeKindSeen := seen, sSelfLoopKinds := loops, sProps := p'\<rparr>"
  have run: "finalizeDerived s = Some ?s" by (simp add: finalizeDerived_def Let_def k(1) seen(1) loops(1) p'(1))
  have nc: "NodeCount ?s = ?n" by (simp add: NodeCount_def)
  have seen_iff: "hasEdgeKind ?s k \<longleftrightarrow> 0 \<le> k \<and> k \<in> set (OutKinds s)" for k
    using seen(2,3) k(3,5) by (auto simp: hasEdgeKind_def)
  have "snap_rep ?s out inn = snap_rep (s\<lparr>idIndex := index_of (GraphIDs s)\<rparr>) out inn"
    by (simp add: snap_rep_def Dense_def NodeCount_def del: upt_Suc)
  then have rep': "snap_rep ?s out inn" using rep by simp
  have "snap_wf ?s out inn kr pr"
    unfolding snap_wf_def nc using rep' kinds k(2-5) seen_iff loops(2) p'(2,4) by (simp del: upt_Suc)
  then show ?thesis using run p'(3) by simp
qed

lemma Build_ok:
  assumes rep: "builder_rep b kr pr" and n: "length (b_ids b) \<le> 2 ^ 32" and e: "length (b_edges b) < 2 ^ 32"
    and kt: "distinct (map fst (b_kindTable b))"
  shows "ok (Build b) (\<lambda>s. snap_wf s (out_rows (resolved b)) (in_rows (out_rows (resolved b)) (length (b_ids b))) kr pr \<and>
    GraphIDs s = b_ids b \<and> GraphID s = b_graphID b \<and> ps_table (sProps s) = b_props b \<and>
    DroppedEdges s = length (b_edges b) - length (resolved b) \<and>
    table_holds (nat (maxKindOf (b_kindTable b)) + 1) (b_kindTable b) (sKinds s))"
proof -
  let ?n = "length (b_ids b)" and ?des = "resolved b"
  let ?out = "out_rows ?des"
  let ?inn = "in_rows ?out ?n"
  have d: "distinct (b_ids b)" using rep strict_sorted_iff by (auto simp: builder_rep_def)
  note range = resolved_in_range [OF d n]
  have len: "length ?des < 2 ^ 32" using resolved_length [of b] e by simp
  have start: "row_start ?out ?n = length ?des"
    unfolding out_rows_def [abs_def] row_start_sort using rows_total [of "map fwd_slot ?des" ?n] range by (auto simp: fwd_slot_def)
  have tgt: "\<forall>u < ?n. \<forall>x \<in> set (?out u). fst x < ?n"
    using range by (auto simp: out_rows_def bucket_def fwd_slot_def)
  have fwd: "packForward ?n ?des = Some (map (row_start ?out) [0..<Suc ?n], map fst (slots_of ?out ?n),
      map (fst \<circ> snd) (slots_of ?out ?n), map (snd \<circ> snd) (slots_of ?out ?n))"
    by (rule packForward_eq) (use range len in auto)
  have rev: "packReverse ?n (map (row_start ?out) [0..<Suc ?n]) (map fst (slots_of ?out ?n)) (map (fst \<circ> snd) (slots_of ?out ?n)) =
      Some (map (row_start ?inn) [0..<Suc ?n], map fst (slots_of ?inn ?n), map (fst \<circ> snd) (slots_of ?inn ?n), map (snd \<circ> snd) (slots_of ?inn ?n))"
    by (rule packReverse_eq) (use n len start tgt in auto)
  obtain t where t: "NewKindTable (b_kindTable b) = Some t" "table_holds (nat (maxKindOf (b_kindTable b)) + 1) (b_kindTable b) t"
    using NewKindTable_holds [OF kt] by (auto simp: ok_iff)
  define p where "p = \<lparr>ps_table = b_props b, ps_entries = b_propEntries b, ps_nodeOffsets = b_propOffsets b, ps_objectIndex = [], ps_objectIndexDup = []\<rparr>"
  define s where "s = \<lparr>GraphID = b_graphID b, GraphIDs = b_ids b, OutOffsets = map (row_start ?out) [0..<Suc ?n],
    OutTargets = map fst (slots_of ?out ?n), OutKinds = map (fst \<circ> snd) (slots_of ?out ?n), OutEdgeIDs = map (snd \<circ> snd) (slots_of ?out ?n),
    InOffsets = map (row_start ?inn) [0..<Suc ?n], InTargets = map fst (slots_of ?inn ?n), InKinds = map (fst \<circ> snd) (slots_of ?inn ?n),
    InEdgeIdx = map (snd \<circ> snd) (slots_of ?inn ?n), KindOffsets = b_kindOffsets b, NodeKinds = b_kindsFlat b, MaxKindID = 0, sKinds = t,
    sProps = p\<lparr>ps_table := (ps_table p)\<lparr>propIDs := Map.empty\<rparr>\<rparr>, DroppedEdges = length (b_edges b) - length ?des, idIndex = [], kindBitmaps = [],
    sSelfLoopKinds = [], edgeKindSeen = [], edgeIDPerm = buildEdgeIDPerm (map (snd \<circ> snd) (slots_of ?out ?n)),
    MultiGraph = False, WatermarkLineage = replicate 16 0\<rparr>"
  have run: "Build b = finalizeDerived s"
    using fwd rev t(1) by (simp add: Build_def Let_def denseEdges_eq resolved_def [symmetric] s_def p_def del: upt_Suc)
  have nc: "NodeCount s = ?n" "NodeCount (s\<lparr>idIndex := x\<rparr>) = ?n" for x by (simp_all add: NodeCount_def s_def)
  have "length (map (snd \<circ> snd) (slots_of ?out ?n)) < 2 ^ 32" using start len by simp
  note perm = edgeIDPerm_ok [OF this]
  have "snap_rep (s\<lparr>idIndex := index_of (GraphIDs s)\<rparr>) ?out ?inn"
    unfolding snap_rep_def nc Dense_def
    using n len start rep index_of_lookup [OF d n] tgt in_rows_agree [of ?n ?out] perm
    by (simp add: s_def builder_rep_def del: upt_Suc)
  moreover have "KindOffsets s = map (row_start kr) [0..<Suc (NodeCount s)]" "NodeKinds s = slots_of kr (NodeCount s)" "store_rep p (NodeCount s) pr"
    unfolding nc using rep by (simp_all add: s_def p_def builder_rep_def store_rep_def del: upt_Suc)
  moreover have "sProps s = p\<lparr>ps_table := (ps_table p)\<lparr>propIDs := Map.empty\<rparr>\<rparr>" by (simp add: s_def)
  ultimately have fin: "ok (finalizeDerived s) (\<lambda>s'. snap_wf s' ?out ?inn kr pr \<and> GraphIDs s' = GraphIDs s \<and> GraphID s' = GraphID s \<and>
    ps_table (sProps s') = ps_table p \<and> DroppedEdges s' = DroppedEdges s \<and> sKinds s' = sKinds s)"
    by (rule finalizeDerived_ok)
  show ?thesis unfolding run by (rule ok_mono [OF fin]) (use t(2) in \<open>auto simp: s_def p_def\<close>)
qed

end
