(* ===== verification/Graph.thy ===== *)
theory Graph
  imports Building
begin

text \<open>
  The property graph that a snapshot stands for, keyed by database ids: a node is its kinds and its
  property bag, an edge its two ends and its kind. Every representation of the replica, the base
  snapshot here and the overlay view on top of it, is related to this one. The source of a forward
  slot is found with \<open>sourceOfSlot\<close> of \<open>internal/engine/snapshot/view.go\<close>.
\<close>

type_synonym node_desc = "kindid list \<times> (string \<rightharpoonup> propValue)"
type_synonym edge_desc = "pgid \<times> pgid \<times> kindid"

definition sourceOfSlot :: "Snapshot \<Rightarrow> nat \<Rightarrow> nodeid" where
  "sourceOfSlot s fwdIdx = u32 (sort_Search (NodeCount s) (\<lambda>i. OutOffsets s ! (i + 1) > fwdIdx))"

definition snap_node :: "Snapshot \<Rightarrow> pgid \<rightharpoonup> node_desc" where
  "snap_node s i = do { j \<leftarrow> Dense s i; ks \<leftarrow> row (KindOffsets s) j (NodeKinds s);
     es \<leftarrow> row (ps_nodeOffsets (sProps s)) j (ps_entries (sProps s)); Some (ks, bag_of (ps_table (sProps s)) es) }"

definition snap_edge :: "Snapshot \<Rightarrow> pgid \<rightharpoonup> edge_desc" where
  "snap_edge s e = do { j \<leftarrow> EdgeByID s e;
     Some (GraphIDs s ! sourceOfSlot s j, GraphIDs s ! (OutTargets s ! j), OutKinds s ! j) }"

text \<open>A snapshot as the builder makes it, from edges with distinct ids.\<close>

definition snap_ok :: "Snapshot \<Rightarrow> bool" where
  "snap_ok s \<longleftrightarrow> (\<exists>out inn kr pr. snap_wf s out inn kr pr) \<and> distinct (OutEdgeIDs s)"

section \<open>Slots and rows\<close>

lemma sourceOfSlot_row:
  assumes rep: "snap_rep s out inn" and u: "u < NodeCount s" and l: "l < length (out u)"
  shows "sourceOfSlot s (row_start out u + l) = u"
proof -
  let ?n = "NodeCount s" and ?f = "\<lambda>i. OutOffsets s ! (i + 1) > row_start out u + l"
  have off: "OutOffsets s ! (i + 1) = row_start out (Suc i)" if "i < ?n" for i
    using rep that unfolding snap_rep_def by (simp add: nth_append del: upt_Suc row_start_Suc)
  have mono: "?f b" if "a \<le> b" "b < ?n" "?f a" for a b
    using that off [of a] off [of b] row_start_mono [of "Suc a" "Suc b" out] by simp
  have least: "a < sort_Search ?n ?f \<Longrightarrow> \<not> ?f a" "sort_Search ?n ?f < ?n \<Longrightarrow> ?f (sort_Search ?n ?f)" for a
    using sort_Search_least(2,3) [of ?n ?f] mono by blast+
  have at: "?f u" using off [OF u] l by simp
  have below: "\<not> ?f a" if "a < u" for a
    using that off [of a] u row_start_mono [of "Suc a" u out] by simp
  have "sort_Search ?n ?f = u"
  proof (rule antisym)
    show "sort_Search ?n ?f \<le> u" using least(1) at by (meson not_le)
    show "u \<le> sort_Search ?n ?f"
    proof (rule ccontr)
      assume "\<not> u \<le> sort_Search ?n ?f"
      then have "sort_Search ?n ?f < u" by simp
      then show False using below least(2) u by (meson less_trans)
    qed
  qed
  moreover have "u32 u = u" using rep u unfolding snap_rep_def by (intro u32_id) linarith
  ultimately show ?thesis by (simp add: sourceOfSlot_def)
qed

lemma rep_slot:
  assumes rep: "snap_rep s out inn" and u: "u < NodeCount s" and l: "l < length (out u)"
  shows "row_start out u + l < EdgeCount s" and "OutTargets s ! (row_start out u + l) = fst (out u ! l)"
    and "OutKinds s ! (row_start out u + l) = fst (snd (out u ! l))" and "OutEdgeIDs s ! (row_start out u + l) = snd (snd (out u ! l))"
    and "fst (out u ! l) < NodeCount s"
proof -
  have f: "OutTargets s = map fst (slots_of out (NodeCount s))" "OutKinds s = map (fst \<circ> snd) (slots_of out (NodeCount s))"
      "OutEdgeIDs s = map (snd \<circ> snd) (slots_of out (NodeCount s))" "\<forall>u < NodeCount s. \<forall>x \<in> set (out u). fst x < NodeCount s"
    using rep unfolding snap_rep_def by blast+
  have lt: "row_start out u + l < row_start out (NodeCount s)" using row_start_nth(2) [of u _ l out] u l by blast
  show "row_start out u + l < EdgeCount s" using lt f by (simp add: EdgeCount_def)
  show "OutTargets s ! (row_start out u + l) = fst (out u ! l)" "OutKinds s ! (row_start out u + l) = fst (snd (out u ! l))"
      "OutEdgeIDs s ! (row_start out u + l) = snd (snd (out u ! l))"
    using slots_nth [of u "NodeCount s" l out] u l lt unfolding f by simp_all
  show "fst (out u ! l) < NodeCount s" using f(4) u l by simp
qed

lemma rep_slot_row:
  assumes "snap_rep s out inn" and "j < EdgeCount s"
  obtains u l where "u < NodeCount s" "l < length (out u)" "j = row_start out u + l"
proof -
  have "OutTargets s = map fst (slots_of out (NodeCount s))" using assms(1) unfolding snap_rep_def by blast
  then have "j < row_start out (NodeCount s)" using assms(2) by (simp add: EdgeCount_def)
  from row_index [OF this] show ?thesis using that by blast
qed

text \<open>The edges of a snapshot, row by row.\<close>

lemma snap_edge_iff:
  assumes rep: "snap_rep s out inn" and d: "distinct (OutEdgeIDs s)"
  shows "snap_edge s e = Some (a, b, k) \<longleftrightarrow>
    (\<exists>u t. u < NodeCount s \<and> (t, k, e) \<in> set (out u) \<and> a = GraphIDs s ! u \<and> b = GraphIDs s ! t)" (is "?L \<longleftrightarrow> ?R")
proof
  assume ?L
  then obtain j where j: "EdgeByID s e = Some j" "a = GraphIDs s ! sourceOfSlot s j" "b = GraphIDs s ! (OutTargets s ! j)" "k = OutKinds s ! j"
    by (auto simp: snap_edge_def split: Option.bind_splits)
  have e: "j < EdgeCount s" "OutEdgeIDs s ! j = e" using j(1) EdgeByID_iff [OF rep d] by auto
  obtain u l where u: "u < NodeCount s" "l < length (out u)" "j = row_start out u + l" by (rule rep_slot_row [OF rep e(1)])
  note slot = rep_slot [OF rep u(1,2)]
  have "(fst (out u ! l), k, e) = out u ! l" using slot j(4) e(2) u(3) by (auto simp: prod_eq_iff)
  then have "(fst (out u ! l), k, e) \<in> set (out u)" using u(2) by (metis nth_mem)
  then show ?R using u j slot sourceOfSlot_row [OF rep u(1,2)] by auto
next
  assume ?R
  then obtain u t l where u: "u < NodeCount s" "l < length (out u)" "out u ! l = (t, k, e)" "a = GraphIDs s ! u" "b = GraphIDs s ! t"
    by (auto simp: in_set_conv_nth)
  note slot = rep_slot [OF rep u(1,2)]
  have "EdgeByID s e = Some (row_start out u + l)" using EdgeByID_iff [OF rep d] slot u(3) by simp
  then show ?L using slot u sourceOfSlot_row [OF rep u(1,2)] by (simp add: snap_edge_def)
qed

lemma snap_node_iff:
  assumes wf: "snap_wf s out inn kr pr"
  shows "snap_node s i = (case Dense s i of None \<Rightarrow> None | Some j \<Rightarrow> Some (kr j, bag_of (ps_table (sProps s)) (pr j)))"
proof (cases "Dense s i")
  case (Some j)
  then have j: "j < NodeCount s" using wf unfolding snap_wf_def snap_rep_def by blast
  have "row (KindOffsets s) j (NodeKinds s) = Some (kr j)"
    using row_of_slots [OF j, of kr "\<lambda>x. x"] wf by (simp add: snap_wf_def del: upt_Suc)
  moreover have "row (ps_nodeOffsets (sProps s)) j (ps_entries (sProps s)) = Some (pr j)"
    using row_of_slots [OF j, of pr "\<lambda>x. x"] wf by (simp add: snap_wf_def store_rep_def del: upt_Suc)
  ultimately show ?thesis using Some by (simp add: snap_node_def)
qed (simp add: snap_node_def)

section \<open>The graph a builder stands for\<close>

definition staged_edge :: "Builder \<Rightarrow> pgid \<rightharpoonup> edge_desc" where
  "staged_edge b = map_of (map (\<lambda>e. (se_id e, (se_start e, se_end e, se_kind e))) (b_edges b))"

definition both_in :: "pgid set \<Rightarrow> (pgid \<rightharpoonup> edge_desc) \<Rightarrow> pgid \<rightharpoonup> edge_desc" where
  "both_in N E e = (case E e of Some (a, b, k) \<Rightarrow> if a \<in> N \<and> b \<in> N then Some (a, b, k) else None | None \<Rightarrow> None)"

lemma both_in_Some: "both_in N E e = Some (a, b, k) \<longleftrightarrow> E e = Some (a, b, k) \<and> a \<in> N \<and> b \<in> N"
  by (auto simp: both_in_def split: option.split)

lemma resolved_iff:
  assumes d: "distinct (b_ids b)" and n: "length (b_ids b) \<le> 2 ^ 32"
  shows "x \<in> set (resolved b) \<longleftrightarrow> (\<exists>e \<in> set (b_edges b). de_src x < length (b_ids b) \<and> de_dst x < length (b_ids b) \<and>
    b_ids b ! de_src x = se_start e \<and> b_ids b ! de_dst x = se_end e \<and> de_kind x = se_kind e \<and> de_id x = se_id e)"
proof -
  have "resolve_edge (map_of (index_of (b_ids b))) e = Some x \<longleftrightarrow> de_src x < length (b_ids b) \<and> de_dst x < length (b_ids b) \<and>
      b_ids b ! de_src x = se_start e \<and> b_ids b ! de_dst x = se_end e \<and> de_kind x = se_kind e \<and> de_id x = se_id e" for e
  proof -
    have "resolve_edge (map_of (index_of (b_ids b))) e = Some x \<longleftrightarrow> map_of (index_of (b_ids b)) (se_start e) = Some (de_src x) \<and>
        map_of (index_of (b_ids b)) (se_end e) = Some (de_dst x) \<and> de_kind x = se_kind e \<and> de_id x = se_id e"
      by (cases x) (auto simp: resolve_edge_def bind_eq_Some_conv)
    then show ?thesis using index_of_lookup [OF d n] by simp blast
  qed
  then show ?thesis by (simp add: resolved_def map_filter_iff)
qed

lemma resolved_ids:
  assumes "distinct (map se_id (b_edges b))"
  shows "distinct (map de_id (resolved b))"
proof -
  have "distinct (map de_id (List.map_filter (resolve_edge m) es)) \<and> set (map de_id (List.map_filter (resolve_edge m) es)) \<subseteq> set (map se_id es)"
    if "distinct (map se_id es)" for es m
    using that
  proof (induction es)
    case (Cons e es)
    have "de_id x = se_id e" if "resolve_edge m e = Some x" for x
      using that by (auto simp: resolve_edge_def bind_eq_Some_conv)
    then show ?case using Cons by (auto simp: map_filter_simps split: option.split)
  qed (simp add: map_filter_simps)
  then show ?thesis using assms unfolding resolved_def by blast
qed

lemma concat_out_rows:
  assumes "\<forall>e \<in> set es. de_src e < n"
  shows "mset (map (snd \<circ> snd) (slots_of (out_rows es) n)) = mset (map de_id es)"
proof -
  have "mset (slots_of (out_rows es) n) = mset (map snd (filter (\<lambda>p. fst p < n) (map fwd_slot es)))"
  proof (induction n)
    case (Suc n)
    have "mset (map snd (filter (\<lambda>p. fst p < Suc n) ps)) = mset (map snd (filter (\<lambda>p. fst p < n) ps)) + mset (bucket ps n)" for ps :: "(nat \<times> nodeid \<times> kindid \<times> pgid) list"
      by (induction ps) (auto simp: bucket_def less_Suc_eq)
    from this [of "map fwd_slot es"] show ?case using Suc by (simp add: slots_of_Suc out_rows_def)
  qed (simp add: slots_of_def)
  moreover have "filter (\<lambda>p. fst p < n) (map fwd_slot es) = map fwd_slot es" using assms by (simp add: fwd_slot_def)
  ultimately have "mset (slots_of (out_rows es) n) = mset (map (snd \<circ> fwd_slot) es)" by simp
  then have "image_mset (snd \<circ> snd) (mset (slots_of (out_rows es) n)) = image_mset (snd \<circ> snd) (mset (map (snd \<circ> fwd_slot) es))" by simp
  then show ?thesis by (simp add: fwd_slot_def comp_def multiset.map_comp)
qed

lemma Build_graph:
  assumes rep: "builder_rep b kr pr" and n: "length (b_ids b) \<le> 2 ^ 32" and e: "length (b_edges b) < 2 ^ 32"
    and kt: "distinct (map fst (b_kindTable b))" and ids: "distinct (map se_id (b_edges b))"
  shows "ok (Build b) (\<lambda>s. snap_ok s \<and>
    snap_node s = map_of (map (\<lambda>i. (b_ids b ! i, (kr i, bag_of (b_props b) (pr i)))) [0..<length (b_ids b)]) \<and>
    snap_edge s = both_in (set (b_ids b)) (staged_edge b) \<and> GraphIDs s = b_ids b \<and>
    DroppedEdges s = length (b_edges b) - length (resolved b) \<and>
    table_holds (nat (maxKindOf (b_kindTable b)) + 1) (b_kindTable b) (sKinds s))"
proof (rule ok_mono [OF Build_ok [OF rep n e kt]])
  fix s
  let ?n = "length (b_ids b)" and ?des = "resolved b"
  assume H: "snap_wf s (out_rows ?des) (in_rows (out_rows ?des) ?n) kr pr \<and> GraphIDs s = b_ids b \<and> GraphID s = b_graphID b \<and>
    ps_table (sProps s) = b_props b \<and> DroppedEdges s = length (b_edges b) - length ?des \<and>
    table_holds (nat (maxKindOf (b_kindTable b)) + 1) (b_kindTable b) (sKinds s)"
  have wf: "snap_wf s (out_rows ?des) (in_rows (out_rows ?des) ?n) kr pr" and gids: "GraphIDs s = b_ids b" using H by blast+
  have srep: "snap_rep s (out_rows ?des) (in_rows (out_rows ?des) ?n)" using wf by (simp add: snap_wf_def)
  have nc: "NodeCount s = ?n" using gids by (simp add: NodeCount_def)
  have d: "distinct (b_ids b)" using rep strict_sorted_iff by (auto simp: builder_rep_def)
  have eids: "OutEdgeIDs s = map (snd \<circ> snd) (slots_of (out_rows ?des) ?n)" using srep nc unfolding snap_rep_def by simp
  have de: "distinct (OutEdgeIDs s)"
    using concat_out_rows [of ?des ?n] resolved_in_range [OF d n] resolved_ids [OF ids] unfolding eids
    by (metis mset_eq_imp_distinct_iff)
  have dense: "Dense s i = Some j \<longleftrightarrow> j < ?n \<and> b_ids b ! j = i" for i j using srep nc gids unfolding snap_rep_def by simp
  let ?ps = "map (\<lambda>i. (b_ids b ! i, (kr i, bag_of (b_props b) (pr i)))) [0..<?n]"
  have fst_ps: "map fst ?ps = b_ids b" by (rule nth_equalityI) auto
  have node: "snap_node s i = map_of ?ps i" for i
  proof (cases "Dense s i")
    case None
    then have "i \<notin> set (map fst ?ps)" unfolding fst_ps using dense by (metis in_set_conv_nth not_None_eq)
    then have "map_of ?ps i = None" unfolding map_of_eq_None_iff by (simp only: set_map simp_thms)
    then show ?thesis using None snap_node_iff [OF wf, of i] by simp
  next
    case (Some j)
    have j: "j < ?n" "b_ids b ! j = i" using Some dense by auto
    have "distinct (map fst ?ps)" unfolding fst_ps by (rule d)
    moreover have "(i, (kr j, bag_of (b_props b) (pr j))) \<in> set ?ps" using j by auto
    ultimately show ?thesis using snap_node_iff [OF wf, of i] Some H by simp
  qed
  have edge: "snap_edge s e = both_in (set (b_ids b)) (staged_edge b) e" for e
  proof -
    have "distinct (map fst (map (\<lambda>e. (se_id e, (se_start e, se_end e, se_kind e))) (b_edges b)))" using ids by (simp add: comp_def)
    then have st: "staged_edge b e = Some (x, y, k) \<longleftrightarrow> (\<exists>se \<in> set (b_edges b). se_id se = e \<and> se_start se = x \<and> se_end se = y \<and> se_kind se = k)" for x y k
      by (auto simp: staged_edge_def)
    have out: "(t, k, e) \<in> set (out_rows ?des u) \<longleftrightarrow> (\<exists>x \<in> set ?des. de_src x = u \<and> de_dst x = t \<and> de_kind x = k \<and> de_id x = e)" for t k u
      by (auto simp: out_rows_def bucket_def fwd_slot_def) force
    have "snap_edge s e = Some (x, y, k) \<longleftrightarrow> both_in (set (b_ids b)) (staged_edge b) e = Some (x, y, k)" for x y k
    proof -
      have "snap_edge s e = Some (x, y, k) \<longleftrightarrow> (\<exists>u t. u < ?n \<and> (\<exists>z \<in> set ?des. de_src z = u \<and> de_dst z = t \<and> de_kind z = k \<and> de_id z = e) \<and>
          x = b_ids b ! u \<and> y = b_ids b ! t)" using snap_edge_iff [OF srep de] nc gids out by simp
      also have "\<dots> \<longleftrightarrow> (\<exists>z. z \<in> set ?des \<and> de_kind z = k \<and> de_id z = e \<and> x = b_ids b ! de_src z \<and> y = b_ids b ! de_dst z)"
        using resolved_in_range [OF d n] by blast
      also have "\<dots> \<longleftrightarrow> x \<in> set (b_ids b) \<and> y \<in> set (b_ids b) \<and> (\<exists>se \<in> set (b_edges b). se_id se = e \<and> se_start se = x \<and> se_end se = y \<and> se_kind se = k)" (is "?P \<longleftrightarrow> ?Q")
      proof
        assume ?P
        then show ?Q unfolding resolved_iff [OF d n] by (metis nth_mem)
      next
        assume ?Q
        then obtain u t se where "u < ?n" "t < ?n" "x = b_ids b ! u" "y = b_ids b ! t" "se \<in> set (b_edges b)" "se_id se = e" "se_start se = x" "se_end se = y" "se_kind se = k"
          by (metis in_set_conv_nth)
        then show ?P unfolding resolved_iff [OF d n] by (intro exI [of _ "\<lparr>de_id = e, de_src = u, de_dst = t, de_kind = k\<rparr>"] conjI bexI [of _ se]) auto
      qed
      finally show ?thesis unfolding both_in_Some st by blast
    qed
    then show ?thesis by (metis not_None_eq prod_cases3)
  qed
  have "snap_ok s" using wf de unfolding snap_ok_def by blast
  then show "snap_ok s \<and> snap_node s = map_of (map (\<lambda>i. (b_ids b ! i, (kr i, bag_of (b_props b) (pr i)))) [0..<?n]) \<and>
    snap_edge s = both_in (set (b_ids b)) (staged_edge b) \<and> GraphIDs s = b_ids b \<and>
    DroppedEdges s = length (b_edges b) - length ?des \<and> table_holds (nat (maxKindOf (b_kindTable b)) + 1) (b_kindTable b) (sKinds s)"
    using H node edge by (auto simp: fun_eq_iff)
qed

section \<open>Staging a whole graph\<close>

type_synonym staged_node = "pgid \<times> kindid list \<times> parsedProp list"

fun stage_nodes :: "Builder \<Rightarrow> staged_node list \<Rightarrow> string option \<times> Builder" where
  "stage_nodes b [] = (None, b)"
| "stage_nodes b ((i, kinds, pps) # ns) =
     (case addParsedNode b i kinds pps of (Some err, b') \<Rightarrow> (Some err, b') | (None, b') \<Rightarrow> stage_nodes b' ns)"

definition node_of :: "staged_node \<Rightarrow> pgid \<times> node_desc" where
  "node_of x = (case x of (i, kinds, pps) \<Rightarrow> (i, (kinds, parsedBag pps)))"

definition holds_nodes :: "Builder \<Rightarrow> staged_node list \<Rightarrow> bool" where
  "holds_nodes b ns \<longleftrightarrow> (\<exists>kr pr. builder_rep b kr pr \<and> length (b_ids b) = length ns \<and>
     (\<forall>j < length ns. (b_ids b ! j, (kr j, bag_of (b_props b) (pr j))) = node_of (ns ! j))) \<and>
     length (b_kindsFlat b) = sum_list (map (\<lambda>(i, ks, pps). length ks) ns) \<and>
     length (b_propEntries b) = sum_list (map (\<lambda>(i, ks, pps). length pps) ns)"

definition fits :: "staged_node list \<Rightarrow> bool" where
  "fits ns \<longleftrightarrow> (\<forall>(i, ks, pps) \<in> set ns. distinct (map pp_name pps)) \<and> length ns \<le> 2 ^ 32 \<and>
     sum_list (map (\<lambda>(i, ks, pps). length ks) ns) < 2 ^ 32 \<and> sum_list (map (\<lambda>(i, ks, pps). length pps) ns) < 2 ^ 32"

lemma stage_node_holds:
  assumes "holds_nodes b ns" and "fits (ns @ [(i, kinds, pps)])" and "addParsedNode b i kinds pps = (None, b')"
  shows "holds_nodes b' (ns @ [(i, kinds, pps)]) \<and> b_edges b' = b_edges b \<and> b_kindTable b' = b_kindTable b"
proof -
  obtain kr pr where h: "builder_rep b kr pr" "length (b_ids b) = length ns"
      "\<forall>j < length ns. (b_ids b ! j, (kr j, bag_of (b_props b) (pr j))) = node_of (ns ! j)"
    and len: "length (b_kindsFlat b) = sum_list (map (\<lambda>(i, ks, pps). length ks) ns)"
      "length (b_propEntries b) = sum_list (map (\<lambda>(i, ks, pps). length pps) ns)"
    using assms(1) unfolding holds_nodes_def by blast
  have fit: "distinct (map pp_name pps)" "length (b_kindsFlat b) + length kinds < 2 ^ 32" "length (b_propEntries b) + length pps < 2 ^ 32"
    using assms(2) len by (simp_all add: fits_def)
  note add = addParsedNode_rep [OF h(1) assms(3) fit]
  let ?n = "length (b_ids b)"
  obtain es where es: "builder_rep b' (kr(?n := kinds)) (pr(?n := es))" "b_ids b' = b_ids b @ [i]"
      "bag_of (b_props b') es = parsedBag pps" "length es = length pps" using add(1) by blast
  have "(b_ids b' ! j, ((kr(?n := kinds)) j, bag_of (b_props b') ((pr(?n := es)) j))) = node_of ((ns @ [(i, kinds, pps)]) ! j)"
    if "j < Suc (length ns)" for j
  proof (cases "j = length ns")
    case True
    then show ?thesis using es h(2) by (simp add: nth_append node_of_def)
  next
    case False
    then have "j < length ns" using that by simp
    then show ?thesis using h(2,3) add(3) es(2) by (simp add: nth_append)
  qed
  moreover have "length (b_kindsFlat b') = length (b_kindsFlat b) + length kinds \<and> length (b_propEntries b') = length (b_propEntries b) + length es"
    using es(1,2) h(1) by (simp add: builder_rep_def)
  ultimately show ?thesis using es add(4) h(2) len unfolding holds_nodes_def by (auto intro!: exI)
qed

lemma fits_prefix: "fits (ns @ ms) \<Longrightarrow> fits ns"
  by (auto simp: fits_def)

lemma stage_nodes_holds:
  "holds_nodes b ns \<Longrightarrow> fits (ns @ ms) \<Longrightarrow> stage_nodes b ms = (None, b') \<Longrightarrow>
    holds_nodes b' (ns @ ms) \<and> b_edges b' = b_edges b \<and> b_kindTable b' = b_kindTable b"
proof (induction ms arbitrary: b ns)
  case (Cons m ms)
  obtain i kinds pps where m: "m = (i, kinds, pps)" by (cases m) auto
  obtain b1 where b1: "addParsedNode b i kinds pps = (None, b1)" "stage_nodes b1 ms = (None, b')"
    using Cons.prems(3) m by (auto split: prod.splits option.splits)
  have "fits (ns @ [(i, kinds, pps)])" using Cons.prems(2) m fits_prefix [of "ns @ [m]" ms] by simp
  note one = stage_node_holds [OF Cons.prems(1) this b1(1)]
  show ?case using Cons.IH [of b1 "ns @ [m]"] one b1(2) Cons.prems(2) m by simp
qed simp

lemma NewBuilder_holds: "holds_nodes (NewBuilder g) []"
  using NewBuilder_rep [of g] by (auto simp: holds_nodes_def NewBuilder_def)

lemma fold_AddEdge:
  "fold (\<lambda>(i, x, y, k) b. AddEdge b i x y k) es b = b\<lparr>b_edges := b_edges b @ map (\<lambda>(i, x, y, k). \<lparr>se_id = i, se_start = x, se_end = y, se_kind = k\<rparr>) es\<rparr>"
  by (induction es arbitrary: b) (auto simp: AddEdge_def)

lemma holds_nodes_cong:
  "b_ids b' = b_ids b \<Longrightarrow> b_kindsFlat b' = b_kindsFlat b \<Longrightarrow> b_kindOffsets b' = b_kindOffsets b \<Longrightarrow> b_props b' = b_props b \<Longrightarrow>
    b_propEntries b' = b_propEntries b \<Longrightarrow> b_propOffsets b' = b_propOffsets b \<Longrightarrow> holds_nodes b' ns = holds_nodes b ns"
  by (simp add: holds_nodes_def builder_rep_def)

definition dropped_edges :: "pgid set \<Rightarrow> stagedEdge list \<Rightarrow> nat" where
  "dropped_edges N es = length (filter (\<lambda>e. se_start e \<notin> N \<or> se_end e \<notin> N) es)"

lemma resolved_dropped:
  assumes d: "distinct (b_ids b)" and n: "length (b_ids b) \<le> 2 ^ 32"
  shows "length (b_edges b) - length (resolved b) = dropped_edges (set (b_ids b)) (b_edges b)"
proof -
  let ?r = "resolve_edge (map_of (index_of (b_ids b)))"
  have some: "(\<exists>j. map_of (index_of (b_ids b)) i = Some j) \<longleftrightarrow> i \<in> set (b_ids b)" for i
    unfolding index_of_lookup [OF d n] by (auto simp: in_set_conv_nth)
  have none: "?r e = None \<longleftrightarrow> se_start e \<notin> set (b_ids b) \<or> se_end e \<notin> set (b_ids b)" for e
    using some [of "se_start e"] some [of "se_end e"] by (auto simp: resolve_edge_def bind_eq_None_conv)
  have "length es = length (List.map_filter ?r es) + dropped_edges (set (b_ids b)) es" for es
  proof (induction es)
    case (Cons e es)
    then show ?case using none [of e] by (cases "?r e") (simp_all add: map_filter_simps dropped_edges_def)
  qed (simp add: map_filter_simps dropped_edges_def)
  from this [of "b_edges b"] show ?thesis by (simp add: resolved_def)
qed

lemma holds_nodes_graph:
  assumes "holds_nodes b ns" and "length ns \<le> 2 ^ 32" and "length (b_edges b) < 2 ^ 32"
    and "distinct (map fst (b_kindTable b))" and "distinct (map se_id (b_edges b))"
  shows "ok (Build b) (\<lambda>s. snap_ok s \<and> snap_node s = map_of (map node_of ns) \<and> snap_edge s = both_in (fst ` set ns) (staged_edge b) \<and>
    GraphIDs s = map fst ns \<and> DroppedEdges s = dropped_edges (fst ` set ns) (b_edges b) \<and>
    table_holds (nat (maxKindOf (b_kindTable b)) + 1) (b_kindTable b) (sKinds s))"
proof -
  obtain kr pr where h: "builder_rep b kr pr" "length (b_ids b) = length ns"
      "\<forall>j < length ns. (b_ids b ! j, (kr j, bag_of (b_props b) (pr j))) = node_of (ns ! j)"
    using assms(1) unfolding holds_nodes_def by blast
  have nodes: "map (\<lambda>i. (b_ids b ! i, (kr i, bag_of (b_props b) (pr i)))) [0..<length (b_ids b)] = map node_of ns"
    using h(2,3) by (intro nth_equalityI) auto
  have "b_ids b ! j = fst (ns ! j)" if "j < length ns" for j
    using h(3) [rule_format, OF that] by (auto simp: node_of_def split: prod.splits)
  then have ids: "b_ids b = map fst ns" using h(2) by (intro nth_equalityI) auto
  have "length (b_ids b) \<le> 2 ^ 32" using h(2) assms(2) by simp
  note n = this
  have d: "distinct (b_ids b)" using h(1) strict_sorted_iff by (auto simp: builder_rep_def)
  note built = Build_graph [OF h(1) n assms(3-5)]
  show ?thesis by (rule ok_mono [OF built, unfolded nodes resolved_dropped [OF d n]]) (simp add: ids)
qed

lemma Build_staged:
  assumes "stage_nodes (NewBuilder g) ns = (None, b)" and "fits ns" and "length es < 2 ^ 32"
    and "distinct (map fst es)" and "distinct (map fst kinds)"
  shows "ok (Build (SetKinds (fold (\<lambda>(i, x, y, k) b. AddEdge b i x y k) es b) kinds)) (\<lambda>s. snap_ok s \<and>
    GraphIDs s = map fst ns \<and> snap_node s = map_of (map node_of ns) \<and>
    snap_edge s = both_in (fst ` set ns) (map_of es) \<and>
    DroppedEdges s = length (filter (\<lambda>(i, x, y, k). x \<notin> fst ` set ns \<or> y \<notin> fst ` set ns) es))"
proof -
  let ?b = "SetKinds (fold (\<lambda>(i, x, y, k) b. AddEdge b i x y k) es b) kinds"
  have st: "holds_nodes b ns" "b_edges b = []" using stage_nodes_holds [of "NewBuilder g" "[]" ns b] NewBuilder_holds assms(1,2)
    by (auto simp: NewBuilder_def)
  have b: "b_edges ?b = map (\<lambda>(i, x, y, k). \<lparr>se_id = i, se_start = x, se_end = y, se_kind = k\<rparr>) es" "b_kindTable ?b = kinds"
    by (simp_all add: fold_AddEdge SetKinds_def st(2))
  have "holds_nodes ?b ns" using st(1) by (subst holds_nodes_cong [where b = b]) (simp_all add: fold_AddEdge SetKinds_def)
  moreover have "length ns \<le> 2 ^ 32" using assms(2) by (simp add: fits_def)
  moreover have "map se_id (b_edges ?b) = map fst es" unfolding b by auto
  moreover have "staged_edge ?b = map_of es" by (simp add: staged_edge_def b comp_def case_prod_beta)
  moreover have "dropped_edges N (b_edges ?b) = length (filter (\<lambda>(i, x, y, k). x \<notin> N \<or> y \<notin> N) es)" for N
    unfolding b dropped_edges_def by (induction es) auto
  moreover have "length (b_edges ?b) < 2 ^ 32" using b assms(3) by simp
  ultimately show ?thesis using assms(4,5) b(2)
    by (intro ok_mono [OF holds_nodes_graph [of ?b ns]]) (simp_all only: simp_thms)
qed

text \<open>A small graph for the examples of the later theories: two nodes and one edge.\<close>

definition example_nodes :: "staged_node list" where
  "example_nodes = [(5, [1], [\<lparr>pp_name = ''objectid'', pp_kind = propKindString, pp_num = 0, pp_bytes = ''S-1''\<rparr>]), (9, [1, 2], [])]"

definition example_base :: Snapshot where
  "example_base = the (Build (SetKinds (fold (\<lambda>(i, x, y, k) b. AddEdge b i x y k) [(70, 5, 9, 3), (71, 9, 12, 3)]
     (snd (stage_nodes (NewBuilder 1) example_nodes))) [(1, ''User''), (2, ''Computer''), (3, ''MemberOf'')]))"

lemma example_base_ok:
  "snap_ok example_base" "GraphIDs example_base = [5, 9]" "snap_node example_base = map_of (map node_of example_nodes)"
  "snap_edge example_base = [70 \<mapsto> (5, 9, 3)]"
proof -
  let ?es = "[(70, 5, 9, 3), (71, 9, 12, 3)]"
  obtain b where b: "stage_nodes (NewBuilder 1) example_nodes = (None, b)"
    by (simp add: example_nodes_def addParsedNode_def not_ascending_def NewBuilder_def commitNodeProps_def commitProps_def commitOne_def internProp_def
        emptyTable_def appendPropBytes_def maxPropID_def maxPropArena_def has_payload_def Let_def stageEntries_def stageIDKinds_def)
  have fits: "fits example_nodes" by (simp add: fits_def example_nodes_def)
  have "both_in (fst ` set example_nodes) (map_of ?es) = [70 \<mapsto> (5, 9, 3)]"
    by (auto simp: both_in_def example_nodes_def fun_eq_iff)
  moreover have "map fst example_nodes = [5, 9]" by (simp add: example_nodes_def)
  ultimately have "ok (Build (SetKinds (fold (\<lambda>(i, x, y, k) b. AddEdge b i x y k) ?es b) [(1, ''User''), (2, ''Computer''), (3, ''MemberOf'')])) (\<lambda>s.
      snap_ok s \<and> GraphIDs s = [5, 9] \<and> snap_node s = map_of (map node_of example_nodes) \<and> snap_edge s = [70 \<mapsto> (5, 9, 3)])"
    using Build_staged [OF b fits, of ?es "[(1, ''User''), (2, ''Computer''), (3, ''MemberOf'')]"] by (intro ok_mono [OF Build_staged [OF b fits]]) auto
  then show "snap_ok example_base" "GraphIDs example_base = [5, 9]" "snap_node example_base = map_of (map node_of example_nodes)"
    "snap_edge example_base = [70 \<mapsto> (5, 9, 3)]"
    by (auto simp: example_base_def b ok_iff)
qed

text \<open>
  C5. The builder packs exactly the graph it was given. Nodes staged one after the other without an
  error, then edges in any order with distinct ids, then the kind table: \<open>Build\<close> returns without a
  panic a snapshot whose nodes are the staged nodes with their kinds and property bags, whose edges,
  found by binary search on their ids and located in the packed rows, are exactly the staged edges
  with both ends staged, and whose \<open>DroppedEdges\<close> counts the others.
\<close>

theorem build_packs_staged_graph:
  assumes "stage_nodes (NewBuilder g) ns = (None, b)" and "fits ns" and "length es < 2 ^ 32"
    and "distinct (map fst es)" and "distinct (map fst kinds)"
  shows "ok (Build (SetKinds (fold (\<lambda>(i, x, y, k) b. AddEdge b i x y k) es b) kinds)) (\<lambda>s.
    GraphIDs s = map fst ns \<and> snap_node s = map_of (map node_of ns) \<and>
    snap_edge s = both_in (fst ` set ns) (map_of es) \<and>
    DroppedEdges s = length (filter (\<lambda>(i, x, y, k). x \<notin> fst ` set ns \<or> y \<notin> fst ` set ns) es))"
  by (rule ok_mono [OF Build_staged [OF assms]]) simp

theorem build_packs_staged_graph_witness:
  "ok (Build (SetKinds (fold (\<lambda>(i, x, y, k) b. AddEdge b i x y k) [(70, 5, 9, 3), (71, 9, 12, 3)]
       (snd (stage_nodes (NewBuilder 1)
          [(5, [1], [\<lparr>pp_name = ''name'', pp_kind = propKindString, pp_num = 0, pp_bytes = ''ADMIN''\<rparr>]), (9, [1, 2], [])])))
       [(1, ''User''), (2, ''Computer''), (3, ''MemberOf'')]))
     (\<lambda>s. GraphIDs s = [5, 9] \<and> snap_edge s 70 = Some (5, 9, 3) \<and> snap_edge s 71 = None \<and> DroppedEdges s = 1)"
proof -
  let ?ns = "[(5, [1], [\<lparr>pp_name = ''name'', pp_kind = propKindString, pp_num = 0, pp_bytes = ''ADMIN''\<rparr>]), (9, [1, 2], [])]"
  let ?es = "[(70, 5, 9, 3), (71, 9, 12, 3)]"
  obtain b where b: "stage_nodes (NewBuilder 1) ?ns = (None, b)"
    by (simp add: addParsedNode_def not_ascending_def NewBuilder_def commitNodeProps_def commitProps_def commitOne_def internProp_def
        emptyTable_def appendPropBytes_def maxPropID_def maxPropArena_def has_payload_def Let_def stageEntries_def stageIDKinds_def)
  have fits: "fits ?ns" by (simp add: fits_def)
  from build_packs_staged_graph [OF b this, of ?es "[(1, ''User''), (2, ''Computer''), (3, ''MemberOf'')]"]
  show ?thesis unfolding b snd_conv by (rule ok_mono) (auto simp: both_in_def)
qed

end
