(* ===== verification/Segment.thy ===== *)
theory Segment
  imports Props Kinds
begin

text \<open>
  Delta segments, \<open>internal/engine/snapshot/segment.go\<close>: the post-write states of one commit keyed
  by database id, their builder, and the newest-wins merge of a stack of segments. Go maps are
  association lists with distinct keys. A node state reads its bag through the tables of the segment
  that recorded it, which a segment never changes, so it holds those tables by value here. The two
  memo fields \<open>approxBytes\<close> and \<open>nonCanonicalNumberProps\<close> are left out.
\<close>

section \<open>States and segments\<close>

record NodeSegState =
  Tombstoned :: bool
  KindIDs :: "kindid list"
  ObjectID :: string
  HasObjectID :: bool
  st_tables :: propTable
  st_entries :: "propEntry list"

record EdgeSegState =
  eTombstoned :: bool
  StartID :: pgid
  EndID :: pgid
  eKind :: kindid

record Segment =
  nodeIDs :: "pgid list"
  nodeStates :: "(pgid \<times> NodeSegState) list"
  edgeIDs :: "pgid list"
  edgeStates :: "(pgid \<times> EdgeSegState) list"
  addedKinds :: "(kindid \<times> string) list"
  objectIndex :: "(string \<times> pgid list) list"
  selfLoopKinds :: "kindid list"
  edgeKinds :: "kindid list"

definition NodeState :: "Segment \<Rightarrow> pgid \<Rightarrow> NodeSegState option" where
  "NodeState s i = map_of (nodeStates s) i"

definition EdgeState :: "Segment \<Rightarrow> pgid \<Rightarrow> EdgeSegState option" where
  "EdgeState s i = map_of (edgeStates s) i"

definition AddedKinds :: "Segment \<Rightarrow> (kindid \<times> string) list" where
  "AddedKinds s = addedKinds s"

text \<open>
  A full iteration, as the list of the calls it makes. The state of an id that has none is Go's zero
  value, which the invariant of a segment excludes.
\<close>

definition zeroNodeState :: NodeSegState where
  "zeroNodeState = \<lparr>Tombstoned = False, KindIDs = [], ObjectID = [], HasObjectID = False, st_tables = emptyTable, st_entries = []\<rparr>"

definition zeroEdgeState :: EdgeSegState where
  "zeroEdgeState = \<lparr>eTombstoned = False, StartID = 0, EndID = 0, eKind = 0\<rparr>"

definition IterNodes :: "Segment \<Rightarrow> (pgid \<times> NodeSegState) list" where
  "IterNodes s = map (\<lambda>i. (i, case NodeState s i of Some st \<Rightarrow> st | None \<Rightarrow> zeroNodeState)) (nodeIDs s)"

definition IterEdges :: "Segment \<Rightarrow> (pgid \<times> EdgeSegState) list" where
  "IterEdges s = map (\<lambda>i. (i, case EdgeState s i of Some st \<Rightarrow> st | None \<Rightarrow> zeroEdgeState)) (edgeIDs s)"

definition seg_NodeCount :: "Segment \<Rightarrow> nat" where "seg_NodeCount s = length (nodeIDs s)"

definition seg_EdgeCount :: "Segment \<Rightarrow> nat" where "seg_EdgeCount s = length (edgeIDs s)"

definition seg_NodesByObjectID :: "Segment \<Rightarrow> string \<Rightarrow> pgid list" where
  "seg_NodesByObjectID s oid = (case map_of (objectIndex s) oid of Some ids \<Rightarrow> ids | None \<Rightarrow> [])"

definition PropValueByName :: "NodeSegState \<Rightarrow> string \<Rightarrow> (propValue option) option" where
  "PropValueByName st name = valueByName (st_tables st) (st_entries st) name"

section \<open>Derived fields\<close>

definition segmentSelfLoopKinds :: "(pgid \<times> EdgeSegState) list \<Rightarrow> kindid list" where
  "segmentSelfLoopKinds es =
     fold (\<lambda>(_, st) out. if eTombstoned st \<or> StartID st \<noteq> EndID st then out else List.insert (eKind st) out) es []"

definition segmentEdgeKinds :: "(pgid \<times> EdgeSegState) list \<Rightarrow> kindid list" where
  "segmentEdgeKinds es = fold (\<lambda>(_, st) out. if eTombstoned st then out else List.insert (eKind st) out) es []"

definition buildSegmentObjectIndex :: "pgid list \<Rightarrow> (pgid \<times> NodeSegState) list \<Rightarrow> (string \<times> pgid list) list" where
  "buildSegmentObjectIndex ids states =
     fold (\<lambda>i index.
       let st = (case map_of states i of Some st \<Rightarrow> st | None \<Rightarrow> zeroNodeState) in
       if Tombstoned st \<or> \<not> HasObjectID st then index
       else AList.update (ObjectID st)
              ((case map_of index (ObjectID st) of Some ids \<Rightarrow> ids | None \<Rightarrow> []) @ [i]) index) ids []"

section \<open>The builder\<close>

record segNodeBuild =
  nb_tombstoned :: bool
  nb_kindIDs :: "kindid list"
  nb_objectID :: string
  nb_hasObjectID :: bool
  nb_entries :: "propEntry list"

record SegmentBuilder =
  sb_nodes :: "(pgid \<times> segNodeBuild) list"
  sb_edges :: "(pgid \<times> EdgeSegState) list"
  sb_props :: propTable
  sb_kinds :: "(kindid \<times> string) list"

definition emptySegmentBuilder :: SegmentBuilder where
  "emptySegmentBuilder = \<lparr>sb_nodes = [], sb_edges = [], sb_props = emptyTable, sb_kinds = []\<rparr>"

text \<open>\<open>parsed\<close> is the result of \<open>ParseProps\<close> on the node's JSON, the error or the bag.\<close>

definition AddNodeState ::
    "SegmentBuilder \<Rightarrow> pgid \<Rightarrow> kindid list \<Rightarrow> string + parsedProp list \<Rightarrow> string option \<times> SegmentBuilder" where
  "AddNodeState b i kinds parsed =
     (case parsed of
        Inl err \<Rightarrow> (Some err, b)
      | Inr pps \<Rightarrow>
          (case commitProps (sb_props b) pps of
             (tab, Inl err) \<Rightarrow> (Some err, b\<lparr>sb_props := tab\<rparr>)
           | (tab, Inr es) \<Rightarrow>
               (None, b\<lparr>sb_props := tab,
                        sb_nodes := AList.update i
                          \<lparr>nb_tombstoned = False, nb_kindIDs = kinds,
                           nb_objectID = (case bagObjectID pps of Some oid \<Rightarrow> oid | None \<Rightarrow> []),
                           nb_hasObjectID = (bagObjectID pps \<noteq> None), nb_entries = es\<rparr> (sb_nodes b)\<rparr>)))"

definition TombstoneNode :: "SegmentBuilder \<Rightarrow> pgid \<Rightarrow> SegmentBuilder" where
  "TombstoneNode b i =
     b\<lparr>sb_nodes := AList.update i
         \<lparr>nb_tombstoned = True, nb_kindIDs = [], nb_objectID = [], nb_hasObjectID = False, nb_entries = []\<rparr> (sb_nodes b)\<rparr>"

definition AddEdgeState :: "SegmentBuilder \<Rightarrow> pgid \<Rightarrow> pgid \<Rightarrow> pgid \<Rightarrow> kindid \<Rightarrow> SegmentBuilder" where
  "AddEdgeState b i start end k =
     b\<lparr>sb_edges := AList.update i \<lparr>eTombstoned = False, StartID = start, EndID = end, eKind = k\<rparr> (sb_edges b)\<rparr>"

definition TombstoneEdge :: "SegmentBuilder \<Rightarrow> pgid \<Rightarrow> SegmentBuilder" where
  "TombstoneEdge b i =
     b\<lparr>sb_edges := AList.update i \<lparr>eTombstoned = True, StartID = 0, EndID = 0, eKind = 0\<rparr> (sb_edges b)\<rparr>"

definition AddKind :: "SegmentBuilder \<Rightarrow> kindid \<Rightarrow> string \<Rightarrow> SegmentBuilder" where
  "AddKind b i name = b\<lparr>sb_kinds := AList.update i name (sb_kinds b)\<rparr>"

text \<open>The segment of final states, shared by \<open>Build\<close> and \<open>MergeSegments\<close>.\<close>

definition sealed :: "(pgid \<times> NodeSegState) list \<Rightarrow> (pgid \<times> EdgeSegState) list \<Rightarrow> (kindid \<times> string) list \<Rightarrow> Segment" where
  "sealed ns es ks =
     (let nids = sort (map fst ns); eids = sort (map fst es) in
      \<lparr>nodeIDs = nids, nodeStates = ns, edgeIDs = eids, edgeStates = es, addedKinds = ks,
       objectIndex = buildSegmentObjectIndex nids ns,
       selfLoopKinds = segmentSelfLoopKinds es, edgeKinds = segmentEdgeKinds es\<rparr>)"

definition seg_Build :: "SegmentBuilder \<Rightarrow> Segment" where
  "seg_Build b =
     sealed
       (map (\<lambda>(i, nb). (i, \<lparr>Tombstoned = nb_tombstoned nb, KindIDs = nb_kindIDs nb, ObjectID = nb_objectID nb,
          HasObjectID = nb_hasObjectID nb, st_tables = sb_props b, st_entries = nb_entries nb\<rparr>)) (sb_nodes b))
       (sb_edges b) (sb_kinds b)"

section \<open>The merge\<close>

definition mergeStates :: "('k \<times> 'a) list \<Rightarrow> ('k \<times> 'a) list \<Rightarrow> ('k \<times> 'a) list" where
  "mergeStates new acc = fold (\<lambda>(i, st). AList.update i st) new acc"

definition MergeSegments :: "Segment list \<Rightarrow> Segment" where
  "MergeSegments segs =
     sealed
       (fold (\<lambda>s. mergeStates (IterNodes s)) segs [])
       (fold (\<lambda>s. mergeStates (IterEdges s)) segs [])
       (fold (\<lambda>s. mergeStates (addedKinds s)) segs [])"

section \<open>Well-formed segments\<close>

definition seg_wf :: "Segment \<Rightarrow> bool" where
  "seg_wf s \<longleftrightarrow> s = sealed (nodeStates s) (edgeStates s) (addedKinds s) \<and>
     distinct (map fst (nodeStates s)) \<and> distinct (map fst (edgeStates s)) \<and> distinct (map fst (addedKinds s))"

lemma sealed_fields [simp]:
  "nodeStates (sealed ns es ks) = ns" "edgeStates (sealed ns es ks) = es" "addedKinds (sealed ns es ks) = ks"
  "nodeIDs (sealed ns es ks) = sort (map fst ns)" "edgeIDs (sealed ns es ks) = sort (map fst es)"
  "selfLoopKinds (sealed ns es ks) = segmentSelfLoopKinds es" "edgeKinds (sealed ns es ks) = segmentEdgeKinds es"
  "objectIndex (sealed ns es ks) = buildSegmentObjectIndex (sort (map fst ns)) ns"
  by (simp_all add: sealed_def Let_def)

lemma sealed_wf:
  "distinct (map fst ns) \<Longrightarrow> distinct (map fst es) \<Longrightarrow> distinct (map fst ks) \<Longrightarrow> seg_wf (sealed ns es ks)"
  by (simp add: seg_wf_def)

lemma seg_wf_ids:
  assumes "seg_wf s"
  shows "nodeIDs s = sort (map fst (nodeStates s))" and "edgeIDs s = sort (map fst (edgeStates s))"
    and "distinct (nodeIDs s)" and "distinct (edgeIDs s)"
    and "set (nodeIDs s) = dom (NodeState s)" and "set (edgeIDs s) = dom (EdgeState s)"
proof -
  have s: "s = sealed (nodeStates s) (edgeStates s) (addedKinds s)" using assms by (simp add: seg_wf_def)
  show ids: "nodeIDs s = sort (map fst (nodeStates s))" "edgeIDs s = sort (map fst (edgeStates s))"
    by (subst s, simp)+
  show "distinct (nodeIDs s)" "distinct (edgeIDs s)" unfolding ids using assms by (simp_all add: seg_wf_def)
  show "set (nodeIDs s) = dom (NodeState s)" "set (edgeIDs s) = dom (EdgeState s)"
    unfolding ids by (auto simp: NodeState_def [abs_def] EdgeState_def [abs_def] dom_map_of_conv_image_fst)
qed

lemma IterNodes_iff: "seg_wf s \<Longrightarrow> (i, st) \<in> set (IterNodes s) \<longleftrightarrow> NodeState s i = Some st"
  using seg_wf_ids(5) [of s] by (auto simp: IterNodes_def dom_def split: option.splits)

lemma IterEdges_iff: "seg_wf s \<Longrightarrow> (i, st) \<in> set (IterEdges s) \<longleftrightarrow> EdgeState s i = Some st"
  using seg_wf_ids(6) [of s] by (auto simp: IterEdges_def dom_def split: option.splits)

lemma IterNodes_fst: "map fst (IterNodes s) = nodeIDs s"
  by (simp add: IterNodes_def comp_def)

lemma IterEdges_fst: "map fst (IterEdges s) = edgeIDs s"
  by (simp add: IterEdges_def comp_def)

lemma map_of_IterNodes: "seg_wf s \<Longrightarrow> map_of (IterNodes s) = NodeState s"
proof
  fix i assume w: "seg_wf s"
  have d: "distinct (map fst (IterNodes s))" using seg_wf_ids(3) [OF w] IterNodes_fst by simp
  show "map_of (IterNodes s) i = NodeState s i"
  proof (cases "NodeState s i")
    case None
    then have "i \<notin> fst ` set (IterNodes s)" using IterNodes_iff [OF w] by force
    then show ?thesis using None by (simp add: map_of_eq_None_iff)
  next
    case (Some st)
    then show ?thesis using IterNodes_iff [OF w] d by simp
  qed
qed

lemma map_of_IterEdges: "seg_wf s \<Longrightarrow> map_of (IterEdges s) = EdgeState s"
proof
  fix i assume w: "seg_wf s"
  have d: "distinct (map fst (IterEdges s))" using seg_wf_ids(4) [OF w] IterEdges_fst by simp
  show "map_of (IterEdges s) i = EdgeState s i"
  proof (cases "EdgeState s i")
    case None
    then have "i \<notin> fst ` set (IterEdges s)" using IterEdges_iff [OF w] by force
    then show ?thesis using None by (simp add: map_of_eq_None_iff)
  next
    case (Some st)
    then show ?thesis using IterEdges_iff [OF w] d by simp
  qed
qed

text \<open>A fold of updates is the map override.\<close>

lemma mergeStates_Nil [simp]: "mergeStates [] acc = acc"
  and mergeStates_Cons [simp]: "mergeStates ((i, st) # new) acc = mergeStates new (AList.update i st acc)"
  by (simp_all add: mergeStates_def)

lemma mergeStates_map_of:
  assumes "distinct (map fst new)"
  shows "map_of (mergeStates new acc) = map_of acc ++ map_of new"
  using assms
proof (induction new arbitrary: acc)
  case (Cons p new)
  obtain i st where p: "p = (i, st)" by fastforce
  have none: "map_of new i = None" using Cons.prems p by (simp add: map_of_eq_None_iff)
  have ih: "map_of (mergeStates new (AList.update i st acc)) = map_of (AList.update i st acc) ++ map_of new"
    using Cons p by simp
  show ?case unfolding p mergeStates_Cons ih
    using none by (auto simp: fun_eq_iff map_add_def update_conv' split: option.split)
qed simp

lemma mergeStates_distinct: "distinct (map fst acc) \<Longrightarrow> distinct (map fst (mergeStates new acc))"
proof (induction new arbitrary: acc)
  case (Cons p new)
  obtain i st where p: "p = (i, st)" by fastforce
  have "distinct (map fst (AList.update i st acc))" using Cons.prems by (rule distinct_update)
  from Cons.IH [OF this] show ?case using p by simp
qed simp

definition stacked :: "('s \<Rightarrow> 'k \<rightharpoonup> 'v) \<Rightarrow> 's list \<Rightarrow> 'k \<rightharpoonup> 'v" where
  "stacked f segs = fold (\<lambda>s m. m ++ f s) segs Map.empty"

lemma fold_override: "fold (\<lambda>s m. m ++ f s) bs m = m ++ fold (\<lambda>s m. m ++ f s) bs Map.empty"
proof (induction bs arbitrary: m)
  case (Cons b bs)
  show ?case using Cons.IH [of "m ++ f b"] Cons.IH [of "f b"] by simp
qed simp

lemma stacked_append: "stacked f (as @ bs) = stacked f as ++ stacked f bs"
  unfolding stacked_def by (simp, rule fold_override)

lemma stacked_Nil [simp]: "stacked f [] = Map.empty" and stacked_single [simp]: "stacked f [s] = f s"
  by (simp_all add: stacked_def)

lemma stacked_snoc: "stacked f (as @ [s]) = stacked f as ++ f s"
  by (simp add: stacked_append)

lemma merge_stack:
  assumes "\<forall>s \<in> set segs. distinct (map fst (f s))"
  shows "map_of (fold (\<lambda>s. mergeStates (f s)) segs []) = stacked (\<lambda>s. map_of (f s)) segs"
    and "distinct (map fst (fold (\<lambda>s. mergeStates (f s)) segs []))"
  using assms
proof (induction segs rule: rev_induct)
  case (snoc s segs)
  { case 1
    then show ?case using snoc.IH(1) mergeStates_map_of [of "f s"] by (simp add: stacked_snoc) }
  { case 2
    then show ?case using snoc.IH(2) mergeStates_distinct by auto }
qed simp_all

lemma stacked_cong: "(\<And>s. s \<in> set segs \<Longrightarrow> f s = g s) \<Longrightarrow> stacked f segs = stacked g segs"
  unfolding stacked_def by (rule fold_cong) simp_all

lemma merge_maps:
  assumes "\<forall>s \<in> set segs. seg_wf s"
  shows "NodeState (MergeSegments segs) = stacked NodeState segs" and "EdgeState (MergeSegments segs) = stacked EdgeState segs"
    and "map_of (addedKinds (MergeSegments segs)) = stacked (\<lambda>s. map_of (addedKinds s)) segs" and "seg_wf (MergeSegments segs)"
proof -
  have dn: "\<forall>s \<in> set segs. distinct (map fst (IterNodes s))" using assms seg_wf_ids(3) IterNodes_fst by simp
  have de: "\<forall>s \<in> set segs. distinct (map fst (IterEdges s))" using assms seg_wf_ids(4) IterEdges_fst by simp
  have dk: "\<forall>s \<in> set segs. distinct (map fst (addedKinds s))" using assms by (simp add: seg_wf_def)
  show "NodeState (MergeSegments segs) = stacked NodeState segs"
    using merge_stack(1) [OF dn] stacked_cong [of segs "\<lambda>s. map_of (IterNodes s)" NodeState] assms map_of_IterNodes
    by (simp add: MergeSegments_def NodeState_def [abs_def])
  show "EdgeState (MergeSegments segs) = stacked EdgeState segs"
    using merge_stack(1) [OF de] stacked_cong [of segs "\<lambda>s. map_of (IterEdges s)" EdgeState] assms map_of_IterEdges
    by (simp add: MergeSegments_def EdgeState_def [abs_def])
  show "map_of (addedKinds (MergeSegments segs)) = stacked (\<lambda>s. map_of (addedKinds s)) segs"
    using merge_stack(1) [OF dk] by (simp add: MergeSegments_def)
  show "seg_wf (MergeSegments segs)"
    unfolding MergeSegments_def by (intro sealed_wf merge_stack(2) dn de dk)
qed

lemma stacked_find:
  "stacked f segs i = (case find (\<lambda>s. f s i \<noteq> None) (rev segs) of None \<Rightarrow> None | Some s \<Rightarrow> f s i)"
  by (induction segs rule: rev_induct) (auto simp: stacked_snoc map_add_def split: option.split)

section \<open>The derived fields\<close>

definition indexed_under :: "(pgid \<times> NodeSegState) list \<Rightarrow> string \<Rightarrow> pgid \<Rightarrow> bool" where
  "indexed_under states oid i = (case map_of states i of
     Some st \<Rightarrow> \<not> Tombstoned st \<and> HasObjectID st \<and> ObjectID st = oid | None \<Rightarrow> False)"

lemma objectIndex_fold:
  "(case map_of (fold (\<lambda>i index.
       let st = (case map_of states i of Some st \<Rightarrow> st | None \<Rightarrow> zeroNodeState) in
       if Tombstoned st \<or> \<not> HasObjectID st then index
       else AList.update (ObjectID st)
              ((case map_of index (ObjectID st) of Some ids \<Rightarrow> ids | None \<Rightarrow> []) @ [i]) index) ids acc) oid
     of Some l \<Rightarrow> l | None \<Rightarrow> []) =
   (case map_of acc oid of Some l \<Rightarrow> l | None \<Rightarrow> []) @ filter (indexed_under states oid) ids"
proof (induction ids arbitrary: acc)
  case (Cons i ids)
  then show ?case
    by (auto simp: Let_def indexed_under_def update_conv' zeroNodeState_def split: option.split)
qed simp

lemma NodesByObjectID_eq:
  "seg_wf s \<Longrightarrow> seg_NodesByObjectID s oid = filter (indexed_under (nodeStates s) oid) (nodeIDs s)"
proof -
  assume w: "seg_wf s"
  have "objectIndex s = buildSegmentObjectIndex (nodeIDs s) (nodeStates s)"
    using w seg_wf_ids(1) [OF w] sealed_fields(8) by (metis seg_wf_def)
  then show ?thesis
    using objectIndex_fold [of "nodeStates s" "nodeIDs s" "[]" oid]
    by (simp add: seg_NodesByObjectID_def buildSegmentObjectIndex_def)
qed

lemma fold_insert_set:
  "set (fold (\<lambda>p out. if P p then out else List.insert (g p) out) es acc) = set acc \<union> g ` {p \<in> set es. \<not> P p}"
  by (induction es arbitrary: acc) auto

lemma edgeKinds_iff:
  "seg_wf s \<Longrightarrow> k \<in> set (edgeKinds s) \<longleftrightarrow> (\<exists>i st. EdgeState s i = Some st \<and> \<not> eTombstoned st \<and> eKind st = k)"
proof -
  assume w: "seg_wf s"
  have "edgeKinds s = segmentEdgeKinds (edgeStates s)" using w sealed_fields(7) by (metis seg_wf_def)
  then have "set (edgeKinds s) = (\<lambda>p. eKind (snd p)) ` {p \<in> set (edgeStates s). \<not> eTombstoned (snd p)}"
    using fold_insert_set [of "\<lambda>p. eTombstoned (snd p)" "\<lambda>p. eKind (snd p)" "edgeStates s" "[]"]
    by (simp add: segmentEdgeKinds_def case_prod_unfold)
  moreover have "distinct (map fst (edgeStates s))" using w by (simp add: seg_wf_def)
  ultimately show ?thesis by (force simp: EdgeState_def)
qed

lemma selfLoopKinds_iff:
  "seg_wf s \<Longrightarrow> k \<in> set (selfLoopKinds s) \<longleftrightarrow>
     (\<exists>i st. EdgeState s i = Some st \<and> \<not> eTombstoned st \<and> StartID st = EndID st \<and> eKind st = k)"
proof -
  assume w: "seg_wf s"
  have "selfLoopKinds s = segmentSelfLoopKinds (edgeStates s)" using w sealed_fields(6) by (metis seg_wf_def)
  then have "set (selfLoopKinds s) =
      (\<lambda>p. eKind (snd p)) ` {p \<in> set (edgeStates s). \<not> (eTombstoned (snd p) \<or> StartID (snd p) \<noteq> EndID (snd p))}"
    using fold_insert_set [of "\<lambda>p. eTombstoned (snd p) \<or> StartID (snd p) \<noteq> EndID (snd p)" "\<lambda>p. eKind (snd p)" "edgeStates s" "[]"]
    by (simp add: segmentSelfLoopKinds_def case_prod_unfold)
  moreover have "distinct (map fst (edgeStates s))" using w by (simp add: seg_wf_def)
  ultimately show ?thesis by (force simp: EdgeState_def)
qed

text \<open>Two well-formed segments with the same states read the same.\<close>

lemma seg_wf_determined:
  assumes "seg_wf s" and "seg_wf s'" and "NodeState s = NodeState s'" and "EdgeState s = EdgeState s'"
  shows "IterNodes s = IterNodes s'" and "IterEdges s = IterEdges s'" and "seg_NodesByObjectID s = seg_NodesByObjectID s'"
proof -
  have "nodeIDs s = nodeIDs s'" using seg_wf_ids [OF assms(1)] seg_wf_ids [OF assms(2)] assms(3)
    by (metis sorted_distinct_set_unique sorted_sort)
  moreover have "edgeIDs s = edgeIDs s'" using seg_wf_ids [OF assms(1)] seg_wf_ids [OF assms(2)] assms(4)
    by (metis sorted_distinct_set_unique sorted_sort)
  moreover have "indexed_under (nodeStates s) = indexed_under (nodeStates s')"
    using assms(3) by (simp add: indexed_under_def fun_eq_iff NodeState_def)
  ultimately show "IterNodes s = IterNodes s'" "IterEdges s = IterEdges s'" "seg_NodesByObjectID s = seg_NodesByObjectID s'"
    using assms NodesByObjectID_eq by (auto simp: IterNodes_def IterEdges_def)
qed

text \<open>
  The merge is newest wins. For any stack of well-formed segments the merged segment holds, for
  every node and edge id, the record of the newest segment that has one, and nothing for an id that
  none has; it lists the ids in ascending order; its objectid index returns exactly the ids whose
  winning state is live and carries that objectid. Merging a stack in two parts and merging the
  results reads the same, which is what lets a compaction collapse any prefix.
\<close>

theorem merge_newest_wins:
  assumes "\<forall>s \<in> set segs. seg_wf s" and "segs = as @ bs"
  shows "(\<forall>i. NodeState (MergeSegments segs) i =
      (case find (\<lambda>s. NodeState s i \<noteq> None) (rev segs) of None \<Rightarrow> None | Some s \<Rightarrow> NodeState s i)) \<and>
    (\<forall>i. EdgeState (MergeSegments segs) i =
      (case find (\<lambda>s. EdgeState s i \<noteq> None) (rev segs) of None \<Rightarrow> None | Some s \<Rightarrow> EdgeState s i)) \<and>
    map fst (IterNodes (MergeSegments segs)) = sorted_list_of_set (dom (NodeState (MergeSegments segs))) \<and>
    map fst (IterEdges (MergeSegments segs)) = sorted_list_of_set (dom (EdgeState (MergeSegments segs))) \<and>
    (\<forall>oid. seg_NodesByObjectID (MergeSegments segs) oid = filter (\<lambda>i. \<exists>st. NodeState (MergeSegments segs) i = Some st \<and>
       \<not> Tombstoned st \<and> HasObjectID st \<and> ObjectID st = oid) (map fst (IterNodes (MergeSegments segs)))) \<and>
    IterNodes (MergeSegments segs) = IterNodes (MergeSegments [MergeSegments as, MergeSegments bs]) \<and>
    IterEdges (MergeSegments segs) = IterEdges (MergeSegments [MergeSegments as, MergeSegments bs]) \<and>
    seg_NodesByObjectID (MergeSegments segs) = seg_NodesByObjectID (MergeSegments [MergeSegments as, MergeSegments bs])"
proof (intro conjI allI)
  note m = merge_maps [OF assms(1)]
  have wa: "\<forall>s \<in> set as. seg_wf s" and wb: "\<forall>s \<in> set bs. seg_wf s" using assms by auto
  note ma = merge_maps [OF wa] and mb = merge_maps [OF wb]
  have w2: "\<forall>s \<in> set [MergeSegments as, MergeSegments bs]. seg_wf s" using ma(4) mb(4) by simp
  note m2 = merge_maps [OF w2]
  have two: "stacked f [s, s'] = f s ++ f s'" for f :: "Segment \<Rightarrow> 'k \<rightharpoonup> 'v" and s s'
    using stacked_append [of f "[s]" "[s']"] by simp
  have same: "NodeState (MergeSegments segs) = NodeState (MergeSegments [MergeSegments as, MergeSegments bs])"
    "EdgeState (MergeSegments segs) = EdgeState (MergeSegments [MergeSegments as, MergeSegments bs])"
    using m m2 ma mb two stacked_append assms(2) by metis+
  note det = seg_wf_determined [OF m(4) m2(4) same]
  show "IterNodes (MergeSegments segs) = IterNodes (MergeSegments [MergeSegments as, MergeSegments bs])"
    "IterEdges (MergeSegments segs) = IterEdges (MergeSegments [MergeSegments as, MergeSegments bs])"
    "seg_NodesByObjectID (MergeSegments segs) = seg_NodesByObjectID (MergeSegments [MergeSegments as, MergeSegments bs])"
    by (rule det)+
  show "NodeState (MergeSegments segs) i =
      (case find (\<lambda>s. NodeState s i \<noteq> None) (rev segs) of None \<Rightarrow> None | Some s \<Rightarrow> NodeState s i)" for i
    using stacked_find [of NodeState segs i] m(1) by simp
  show "EdgeState (MergeSegments segs) i =
      (case find (\<lambda>s. EdgeState s i \<noteq> None) (rev segs) of None \<Rightarrow> None | Some s \<Rightarrow> EdgeState s i)" for i
    using stacked_find [of EdgeState segs i] m(2) by simp
  note ids = seg_wf_ids [OF m(4)]
  show nid: "map fst (IterNodes (MergeSegments segs)) = sorted_list_of_set (dom (NodeState (MergeSegments segs)))"
    unfolding IterNodes_fst ids(5) [symmetric] using ids(1,3) by (metis sorted_list_of_set.idem_if_sorted_distinct sorted_sort)
  show "map fst (IterEdges (MergeSegments segs)) = sorted_list_of_set (dom (EdgeState (MergeSegments segs)))"
    unfolding IterEdges_fst ids(6) [symmetric] using ids(2,4) by (metis sorted_list_of_set.idem_if_sorted_distinct sorted_sort)
  show "seg_NodesByObjectID (MergeSegments segs) oid = filter (\<lambda>i. \<exists>st. NodeState (MergeSegments segs) i = Some st \<and>
       \<not> Tombstoned st \<and> HasObjectID st \<and> ObjectID st = oid) (map fst (IterNodes (MergeSegments segs)))" for oid
    unfolding NodesByObjectID_eq [OF m(4)] IterNodes_fst
    by (rule filter_cong) (auto simp: indexed_under_def NodeState_def split: option.split)
qed

section \<open>What a builder records\<close>

text \<open>
  The staging calls of one commit as a sequence, and their specification: per id the last call
  decides. A node record is gone, or has its kinds, its bag as a function of the name, and its
  string objectid if it has one.
\<close>

datatype stage = StageNode pgid "kindid list" "parsedProp list" | StageNodeGone pgid
  | StageEdge pgid pgid pgid kindid | StageEdgeGone pgid

fun stage_step :: "stage \<Rightarrow> SegmentBuilder \<Rightarrow> SegmentBuilder option" where
  "stage_step (StageNode i ks pps) b = (case AddNodeState b i ks (Inr pps) of (None, b') \<Rightarrow> Some b' | _ \<Rightarrow> None)"
| "stage_step (StageNodeGone i) b = Some (TombstoneNode b i)"
| "stage_step (StageEdge i s e k) b = Some (AddEdgeState b i s e k)"
| "stage_step (StageEdgeGone i) b = Some (TombstoneEdge b i)"

definition stage_run :: "stage list \<Rightarrow> SegmentBuilder option" where
  "stage_run ops = foldM stage_step ops emptySegmentBuilder"

datatype node_rec = NodeGone | NodeIs "kindid list" "string \<Rightarrow> propValue option" "string option"

definition state_rec :: "NodeSegState \<Rightarrow> node_rec" where
  "state_rec st =
     (if Tombstoned st then NodeGone
      else NodeIs (KindIDs st) (\<lambda>name. Option.bind (PropValueByName st name) id)
             (if HasObjectID st then Some (ObjectID st) else None))"

fun stage_node :: "stage \<Rightarrow> (pgid \<rightharpoonup> node_rec) \<Rightarrow> (pgid \<rightharpoonup> node_rec)" where
  "stage_node (StageNode i ks pps) m =
     m(i \<mapsto> NodeIs ks (\<lambda>name. map_option parsedValue (find (\<lambda>pp. pp_name pp = name) pps)) (bagObjectID pps))"
| "stage_node (StageNodeGone i) m = m(i \<mapsto> NodeGone)"
| "stage_node _ m = m"

fun stage_edge :: "stage \<Rightarrow> (pgid \<rightharpoonup> EdgeSegState) \<Rightarrow> (pgid \<rightharpoonup> EdgeSegState)" where
  "stage_edge (StageEdge i s e k) m = m(i \<mapsto> \<lparr>eTombstoned = False, StartID = s, EndID = e, eKind = k\<rparr>)"
| "stage_edge (StageEdgeGone i) m = m(i \<mapsto> \<lparr>eTombstoned = True, StartID = 0, EndID = 0, eKind = 0\<rparr>)"
| "stage_edge _ m = m"

fun stage_names_ok :: "stage \<Rightarrow> bool" where
  "stage_names_ok (StageNode i ks pps) = distinct (map pp_name pps)"
| "stage_names_ok _ = True"

text \<open>The builder's invariant: well-formed tables and entries, and the states it stands for.\<close>

definition build_rec :: "propTable \<Rightarrow> segNodeBuild \<Rightarrow> node_rec" where
  "build_rec tab nb =
     (if nb_tombstoned nb then NodeGone
      else NodeIs (nb_kindIDs nb) (\<lambda>name. Option.bind (valueByName tab (nb_entries nb) name) id)
             (if nb_hasObjectID nb then Some (nb_objectID nb) else None))"

definition builder_inv :: "(pgid \<rightharpoonup> node_rec) \<Rightarrow> (pgid \<rightharpoonup> EdgeSegState) \<Rightarrow> SegmentBuilder \<Rightarrow> bool" where
  "builder_inv N E b \<longleftrightarrow> table_wf (sb_props b) \<and> distinct (map fst (sb_nodes b)) \<and> distinct (map fst (sb_edges b)) \<and>
     distinct (map fst (sb_kinds b)) \<and>
     (\<forall>i nb. map_of (sb_nodes b) i = Some nb \<longrightarrow> entries_wf (sb_props b) (nb_entries nb)) \<and>
     (\<forall>i. N i = map_option (build_rec (sb_props b)) (map_of (sb_nodes b) i)) \<and> E = map_of (sb_edges b)"

lemma build_rec_grows:
  "table_wf b \<Longrightarrow> table_wf b' \<Longrightarrow> grows b b' \<Longrightarrow> entries_wf b (nb_entries nb) \<Longrightarrow> build_rec b' nb = build_rec b nb"
  using valueByName_grows [of b b' "nb_entries nb"] by (simp add: build_rec_def)

lemma stage_step_inv:
  assumes inv: "builder_inv N E b" and step: "stage_step op b = Some b'" and names: "stage_names_ok op"
  shows "builder_inv (stage_node op N) (stage_edge op E) b'"
proof (cases op)
  case (StageNode i ks pps)
  obtain tab es where c: "commitProps (sb_props b) pps = (tab, Inr es)"
    "b' = b\<lparr>sb_props := tab, sb_nodes := AList.update i
        \<lparr>nb_tombstoned = False, nb_kindIDs = ks, nb_objectID = (case bagObjectID pps of Some oid \<Rightarrow> oid | None \<Rightarrow> []),
         nb_hasObjectID = (bagObjectID pps \<noteq> None), nb_entries = es\<rparr> (sb_nodes b)\<rparr>"
    using step StageNode by (auto simp: AddNodeState_def split: prod.splits sum.splits option.splits)
  have wf: "table_wf (sb_props b)" and d: "distinct (map pp_name pps)" using inv names StageNode by (auto simp: builder_inv_def)
  note w = commitProps_wf [OF wf c(1) d]
  have val: "valueByName tab es name = Some (map_option parsedValue (find (\<lambda>pp. pp_name pp = name) pps))" for name
    by (rule bag_reads_back [OF wf c(1) d])
  have old: "build_rec tab nb = build_rec (sb_props b) nb" "entries_wf tab (nb_entries nb)" if "map_of (sb_nodes b) j = Some nb" for j nb
    using inv that build_rec_grows [OF wf w(1,2)] entries_wf_grows [OF w(2)] by (auto simp: builder_inv_def)
  have "N j = map_option (build_rec tab) (map_of (sb_nodes b) j)" for j
    using inv old by (cases "map_of (sb_nodes b) j") (auto simp: builder_inv_def)
  note N = this
  let ?nb = "\<lparr>nb_tombstoned = False, nb_kindIDs = ks, nb_objectID = (case bagObjectID pps of Some oid \<Rightarrow> oid | None \<Rightarrow> []),
         nb_hasObjectID = (bagObjectID pps \<noteq> None), nb_entries = es\<rparr>"
  have look: "map_of (sb_nodes b') j = (if j = i then Some ?nb else map_of (sb_nodes b) j)" for j
    unfolding c(2) by (simp add: update_conv')
  have new: "build_rec tab ?nb =
      NodeIs ks (\<lambda>name. map_option parsedValue (find (\<lambda>pp. pp_name pp = name) pps)) (bagObjectID pps)"
    using val by (auto simp: build_rec_def split: option.split)
  have keys: "distinct (map fst (sb_nodes b'))" unfolding c(2) using inv by (simp add: builder_inv_def distinct_update)
  have tab: "sb_props b' = tab" "sb_edges b' = sb_edges b" "sb_kinds b' = sb_kinds b" unfolding c(2) by simp_all
  show ?thesis unfolding builder_inv_def tab StageNode
  proof (intro conjI allI impI)
    show "entries_wf tab (nb_entries nb)" if "map_of (sb_nodes b') j = Some nb" for j nb
      using that w(3) old(2) unfolding look by (auto split: if_splits)
    show "stage_node (StageNode i ks pps) N j = map_option (build_rec tab) (map_of (sb_nodes b') j)" for j
      using N new unfolding look by simp
  qed (use inv w(1) keys in \<open>simp_all add: builder_inv_def\<close>)
qed (use inv step in \<open>auto simp: builder_inv_def TombstoneNode_def AddEdgeState_def TombstoneEdge_def update_conv'
    distinct_update build_rec_def entries_wf_def split: if_splits\<close>)

lemma stage_run_inv:
  assumes "stage_run ops = Some b" and "\<forall>op \<in> set ops. stage_names_ok op"
  shows "builder_inv (fold stage_node ops Map.empty) (fold stage_edge ops Map.empty) b"
proof -
  have "builder_inv N E b0 \<Longrightarrow> foldM stage_step ops b0 = Some b \<Longrightarrow> builder_inv (fold stage_node ops N) (fold stage_edge ops E) b" for N E b0
    using assms(2)
  proof (induction ops arbitrary: N E b0)
    case (Cons op ops)
    then obtain b1 where b1: "stage_step op b0 = Some b1" "foldM stage_step ops b1 = Some b" by (auto simp: bind_eq_Some_conv)
    show ?case using Cons.IH [OF stage_step_inv [OF Cons.prems(1) b1(1)] b1(2)] Cons.prems(3) by simp
  qed simp
  moreover have "builder_inv Map.empty Map.empty emptySegmentBuilder"
    using emptyTable_wf by (simp add: builder_inv_def emptySegmentBuilder_def)
  ultimately show ?thesis using assms(1) unfolding stage_run_def by blast
qed

lemma seg_Build_states:
  assumes "builder_inv N E b"
  shows "seg_wf (seg_Build b)" and "map_option state_rec (NodeState (seg_Build b) i) = N i" and "EdgeState (seg_Build b) = E"
proof -
  let ?f = "\<lambda>nb. \<lparr>Tombstoned = nb_tombstoned nb, KindIDs = nb_kindIDs nb, ObjectID = nb_objectID nb,
    HasObjectID = nb_hasObjectID nb, st_tables = sb_props b, st_entries = nb_entries nb\<rparr>"
  have m: "map_of (map (\<lambda>(i, nb). (i, ?f nb)) (sb_nodes b)) i = map_option ?f (map_of (sb_nodes b) i)"
    by (simp add: map_of_map)
  have "state_rec (?f nb) = build_rec (sb_props b) nb" for nb
    by (simp add: state_rec_def build_rec_def PropValueByName_def)
  then show "map_option state_rec (NodeState (seg_Build b) i) = N i"
    using assms m by (simp add: seg_Build_def NodeState_def builder_inv_def option.map_comp comp_def)
  show "EdgeState (seg_Build b) = E" using assms by (simp add: seg_Build_def EdgeState_def fun_eq_iff builder_inv_def)
  show "seg_wf (seg_Build b)" unfolding seg_Build_def
    by (rule sealed_wf) (use assms in \<open>simp_all add: builder_inv_def comp_def case_prod_unfold\<close>)
qed

text \<open>
  A segment records exactly what was staged. Whatever the order and the repetition of the staging
  calls of one commit, as long as none reports an error the built segment is well formed and, for
  every node id, holds the last state staged for it: its kinds, its bag read back name by name, its
  string objectid, or the tombstone; likewise for every edge id; ids never staged have no record.
\<close>

theorem segment_last_write_wins:
  assumes "stage_run ops = Some b" and "\<forall>op \<in> set ops. stage_names_ok op"
  shows "seg_wf (seg_Build b) \<and>
    (\<forall>i. map_option state_rec (NodeState (seg_Build b) i) = fold stage_node ops Map.empty i) \<and>
    (\<forall>i. EdgeState (seg_Build b) i = fold stage_edge ops Map.empty i)"
  using seg_Build_states [OF stage_run_inv [OF assms]] by auto

theorem segment_last_write_wins_witness:
  "\<exists>b. stage_run [StageNodeGone 5, StageNode 5 [3] [\<lparr>pp_name = ''a'', pp_kind = propKindTrue, pp_num = 0, pp_bytes = []\<rparr>], StageEdge 9 5 5 2] = Some b \<and>
    (case NodeState (seg_Build b) 5 of Some st \<Rightarrow> state_rec st = NodeIs [3] (\<lambda>name. if name = ''a'' then Some (VBool True) else None) None
     | None \<Rightarrow> False)"
proof -
  let ?ops = "[StageNodeGone 5, StageNode 5 [3] [\<lparr>pp_name = ''a'', pp_kind = propKindTrue, pp_num = 0, pp_bytes = []\<rparr>], StageEdge 9 5 5 2]"
  obtain b where b: "stage_run ?ops = Some b"
    by (simp add: stage_run_def AddNodeState_def commitProps_def commitOne_def internProp_def emptyTable_def
        emptySegmentBuilder_def TombstoneNode_def maxPropID_def has_payload_def Let_def)
  have "map_option state_rec (NodeState (seg_Build b) 5) =
      Some (NodeIs [3] (\<lambda>name. if name = ''a'' then Some (VBool True) else None) None)"
    using segment_last_write_wins [OF b] by (simp add: bagObjectID_def parsedValue_def fun_eq_iff)
  then show ?thesis using b by (cases "NodeState (seg_Build b) 5") auto
qed

text \<open>The stack used by the witness of the merge: a node written, then tombstoned by a newer segment.\<close>

definition two_segments :: "Segment list" where
  "two_segments = [sealed [(4, zeroNodeState)] [] [], sealed [(4, zeroNodeState\<lparr>Tombstoned := True\<rparr>)] [] []]"

theorem merge_newest_wins_witness:
  "NodeState (MergeSegments two_segments) 4 = Some (zeroNodeState\<lparr>Tombstoned := True\<rparr>)"
proof -
  have w: "\<forall>s \<in> set two_segments. seg_wf s" by (simp add: two_segments_def sealed_wf)
  from merge_newest_wins [OF w, of two_segments "[]"]
  show ?thesis by (simp add: two_segments_def NodeState_def)
qed

end
