(* ===== verification/View.thy ===== *)
theory View
  imports Graph Segment
begin

text \<open>
  The overlay view, \<open>internal/engine/snapshot/view.go\<close>: a base snapshot and a stack of delta segments
  read as one graph. Each projection that the source memoizes behind a \<open>sync.Once\<close> (the merged
  segment, the virtual ids, the bitsets of dead, overridden and touched ids, the delta adjacency, the
  dirty sets and the materialized rows) is a function of the base and the segments here; a view never
  changes, so computing it once or at each call is the same. An iteration with a callback is the list
  of the calls it makes when the callback never stops it. \<open>None\<close> is a panic.
\<close>

section \<open>The view\<close>

record View =
  v_base :: Snapshot
  v_segments :: "Segment list"

definition NewView :: "Snapshot \<Rightarrow> View" where
  "NewView s = \<lparr>v_base = s, v_segments = []\<rparr>"

definition WithSegment :: "View \<Rightarrow> Segment \<Rightarrow> View" where
  "WithSegment v seg = \<lparr>v_base = v_base v, v_segments = v_segments v @ [seg]\<rparr>"

definition Overlay :: "View \<Rightarrow> bool" where "Overlay v \<longleftrightarrow> length (v_segments v) > 0"

definition SegmentCount :: "View \<Rightarrow> nat" where "SegmentCount v = length (v_segments v)"

definition v_merged :: "View \<Rightarrow> Segment option" where
  "v_merged v = (if length (v_segments v) = 0 then None else Some (MergeSegments (v_segments v)))"

definition merged_nodes :: "View \<Rightarrow> (pgid \<times> NodeSegState) list" where
  "merged_nodes v = (case v_merged v of None \<Rightarrow> [] | Some m \<Rightarrow> IterNodes m)"

definition merged_edges :: "View \<Rightarrow> (pgid \<times> EdgeSegState) list" where
  "merged_edges v = (case v_merged v of None \<Rightarrow> [] | Some m \<Rightarrow> IterEdges m)"

definition virtualPgIDs :: "View \<Rightarrow> pgid list" where
  "virtualPgIDs v = map fst (filter (\<lambda>(i, st). \<not> Tombstoned st \<and> Dense (v_base v) i = None) (merged_nodes v))"

definition pgToVirtual :: "View \<Rightarrow> (pgid \<times> nodeid) list" where
  "pgToVirtual v = fold (\<lambda>i. AList.update (virtualPgIDs v ! i) (u32 (NodeCount (v_base v) + i))) [0..<length (virtualPgIDs v)] []"

text \<open>A bitset allocated at the first id it is given; \<open>None\<close> is nil.\<close>

definition markBits :: "nat \<Rightarrow> nodeid list \<Rightarrow> bitset option" where
  "markBits n ids = fold (\<lambda>i bits. Some (Bitset_Set (case bits of None \<Rightarrow> NewBitset n | Some b \<Rightarrow> b) i)) ids None"

definition bits_has :: "bitset option \<Rightarrow> nodeid \<Rightarrow> bool" where
  "bits_has bits i \<longleftrightarrow> (case bits of None \<Rightarrow> False | Some b \<Rightarrow> Bitset_Has b i)"

definition bits_iterate :: "bitset option \<Rightarrow> nodeid list" where
  "bits_iterate bits = (case bits of None \<Rightarrow> [] | Some b \<Rightarrow> Bitset_Iterate b)"

definition v_NodeCount :: "View \<Rightarrow> nat" where
  "v_NodeCount v = NodeCount (v_base v) + length (virtualPgIDs v)"

definition v_EdgeCount :: "View \<Rightarrow> nat" where
  "v_EdgeCount v = EdgeCount (v_base v)"

definition overBits :: "View \<Rightarrow> bitset option" where
  "overBits v = markBits (NodeCount (v_base v)) (List.map_filter (\<lambda>(i, st). Dense (v_base v) i) (merged_nodes v))"

definition override :: "View \<Rightarrow> nodeid \<Rightarrow> NodeSegState option" where
  "override v n =
     (if \<not> Overlay v then None
      else case v_merged v of None \<Rightarrow> None
      | Some m \<Rightarrow>
          if n \<ge> NodeCount (v_base v)
          then if n - NodeCount (v_base v) \<ge> length (virtualPgIDs v) then None
               else NodeState m (virtualPgIDs v ! (n - NodeCount (v_base v)))
          else if \<not> bits_has (overBits v) n then None
          else NodeState m (GraphIDs (v_base v) ! n))"

definition deltaOverridden :: "View \<Rightarrow> pgid \<Rightarrow> bool" where
  "deltaOverridden v i \<longleftrightarrow> (case v_merged v of None \<Rightarrow> False | Some m \<Rightarrow> NodeState m i \<noteq> None)"

definition denseOf :: "View \<Rightarrow> pgid \<Rightarrow> nodeid option" where
  "denseOf v i = (case Dense (v_base v) i of Some n \<Rightarrow> Some n | None \<Rightarrow> map_of (pgToVirtual v) i)"

definition v_Dense :: "View \<Rightarrow> pgid \<Rightarrow> nodeid option" where
  "v_Dense v i = (case Dense (v_base v) i of Some n \<Rightarrow> Some n
     | None \<Rightarrow> if \<not> Overlay v then None else map_of (pgToVirtual v) i)"

definition deadBits :: "View \<Rightarrow> bitset option" where
  "deadBits v = markBits (v_NodeCount v)
     (List.map_filter (\<lambda>(i, st). if \<not> Tombstoned st then None else denseOf v i) (merged_nodes v))"

definition Alive :: "View \<Rightarrow> nodeid \<Rightarrow> bool" where
  "Alive v n \<longleftrightarrow> n < v_NodeCount v \<and> (\<not> Overlay v \<or> \<not> bits_has (deadBits v) n)"

definition v_GraphID :: "View \<Rightarrow> nodeid \<Rightarrow> pgid option" where
  "v_GraphID v n = (if n < NodeCount (v_base v) then idx (GraphIDs (v_base v)) n
     else idx (virtualPgIDs v) (n - NodeCount (v_base v)))"

definition KindIDsOf :: "View \<Rightarrow> nodeid \<Rightarrow> (kindid list) option" where
  "KindIDsOf v n = (case override v n of
       Some st \<Rightarrow> Some (if Tombstoned st then [] else KindIDs st)
     | None \<Rightarrow> row (KindOffsets (v_base v)) n (NodeKinds (v_base v)))"

definition v_PropValueByName :: "View \<Rightarrow> nodeid \<Rightarrow> string \<Rightarrow> (propValue option) option" where
  "v_PropValueByName v n name = (case override v n of
       Some st \<Rightarrow> if Tombstoned st then Some None else PropValueByName st name
     | None \<Rightarrow> (case ps_IDByName (sProps (v_base v)) name of None \<Rightarrow> Some None
                | Some i \<Rightarrow> ps_Value (sProps (v_base v)) n i))"

definition PropIDByName :: "View \<Rightarrow> string \<Rightarrow> nat option" where
  "PropIDByName v name = ps_IDByName (sProps (v_base v)) name"

definition PropValue :: "View \<Rightarrow> nodeid \<Rightarrow> nat \<Rightarrow> (propValue option) option" where
  "PropValue v n i = (case override v n of
       Some st \<Rightarrow> if Tombstoned st then Some None
                  else let name = ps_Name (sProps (v_base v)) i in
                       if name = [] then Some None else PropValueByName st name
     | None \<Rightarrow> ps_Value (sProps (v_base v)) n i)"

definition v_NodesByObjectID :: "View \<Rightarrow> string \<Rightarrow> ((nodeid list) option) option" where
  "v_NodesByObjectID v oid =
     (if \<not> Overlay v then Some (ps_NodesByObjectID (sProps (v_base v)) oid)
      else do {
        let delta = (case v_merged v of None \<Rightarrow> [] | Some m \<Rightarrow> List.map_filter (v_Dense v) (seg_NodesByObjectID m oid));
        out \<leftarrow> foldM (\<lambda>i out. do { pg \<leftarrow> idx (GraphIDs (v_base v)) i;
                                   Some (if deltaOverridden v pg then out else out @ [i]) })
                (case ps_NodesByObjectID (sProps (v_base v)) oid of None \<Rightarrow> [] | Some ids \<Rightarrow> ids) delta;
        Some (if length out = 0 then None else Some (sort out)) })"

definition v_NodeByObjectID :: "View \<Rightarrow> string \<Rightarrow> (nodeid option) option" where
  "v_NodeByObjectID v oid =
     (if \<not> Overlay v then Some (ps_NodeByObjectID (sProps (v_base v)) oid)
      else do { ids \<leftarrow> v_NodesByObjectID v oid;
                case ids of None \<Rightarrow> Some None | Some is \<Rightarrow> do { i \<leftarrow> idx is 0; Some (Some i) } })"

definition containsKindID :: "kindid list \<Rightarrow> kindid \<Rightarrow> bool" where
  "containsKindID kinds k = list_ex (\<lambda>kk. kk = k) kinds"

definition buildKindBitmap :: "View \<Rightarrow> kindid \<Rightarrow> bitset" where
  "buildKindBitmap v k =
     (let out1 = fold (\<lambda>i out. if override v i \<noteq> None then out else Bitset_Set out i)
                   (Bitset_Iterate (snap_NodesOfKind (v_base v) k)) (NewBitset (v_NodeCount v)) in
      fold (\<lambda>(i, st) out. if Tombstoned st \<or> \<not> containsKindID (KindIDs st) k then out
              else case v_Dense v i of Some n \<Rightarrow> Bitset_Set out n | None \<Rightarrow> out) (merged_nodes v) out1)"

definition NodesOfKind :: "View \<Rightarrow> kindid \<Rightarrow> bitset" where
  "NodesOfKind v k = (if \<not> Overlay v then snap_NodesOfKind (v_base v) k else buildKindBitmap v k)"

definition v_Kinds :: "View \<Rightarrow> KindTable option" where
  "v_Kinds v =
     (if \<not> Overlay v then Some (sKinds (v_base v))
      else let added = (case v_merged v of None \<Rightarrow> [] | Some m \<Rightarrow> AddedKinds m) in
           if length added = 0 then Some (sKinds (v_base v)) else NewKindTable (kindPairs (sKinds (v_base v)) added))"

definition v_MaxKindID :: "View \<Rightarrow> kindid" where
  "v_MaxKindID v =
     (if \<not> Overlay v then MaxKindID (v_base v)
      else let raise = (\<lambda>k mx. if k > mx then k else mx);
               m1 = fold (\<lambda>(i, _). raise i) (case v_merged v of None \<Rightarrow> [] | Some m \<Rightarrow> AddedKinds m) (MaxKindID (v_base v));
               m2 = fold (\<lambda>(_, st) mx. if Tombstoned st then mx else fold raise (KindIDs st) mx) (merged_nodes v) m1 in
           fold (\<lambda>(_, st) mx. if \<not> eTombstoned st \<and> eKind st > mx then eKind st else mx) (merged_edges v) m2)"

definition setAdmitsSelfLoop :: "kindid list \<Rightarrow> kindid list \<Rightarrow> bool" where
  "setAdmitsSelfLoop loops kinds \<longleftrightarrow>
     (if length loops = 0 then False else if length kinds = 0 then True else list_ex (\<lambda>k. k \<in> set loops) kinds)"

definition SelfLoopHazard :: "View \<Rightarrow> kindid list \<Rightarrow> bool" where
  "SelfLoopHazard v kinds \<longleftrightarrow> setAdmitsSelfLoop (sSelfLoopKinds (v_base v)) kinds \<or>
     list_ex (\<lambda>seg. setAdmitsSelfLoop (selfLoopKinds seg) kinds) (v_segments v)"

definition EdgeKindPresent :: "View \<Rightarrow> kindid list \<Rightarrow> bool" where
  "EdgeKindPresent v kinds \<longleftrightarrow> length kinds = 0 \<or>
     list_ex (\<lambda>k. hasEdgeKind (v_base v) k \<or> list_ex (\<lambda>seg. k \<in> set (edgeKinds seg)) (v_segments v)) kinds"

section \<open>Edges\<close>

definition v_Out :: "View \<Rightarrow> nodeid \<Rightarrow> (nodeid list \<times> kindid list \<times> pgid list) option" where
  "v_Out v n = (if Overlay v then None
     else do { ts \<leftarrow> row (OutOffsets (v_base v)) n (OutTargets (v_base v)); ks \<leftarrow> row (OutOffsets (v_base v)) n (OutKinds (v_base v));
               es \<leftarrow> row (OutOffsets (v_base v)) n (OutEdgeIDs (v_base v)); Some (ts, ks, es) })"

definition v_In :: "View \<Rightarrow> nodeid \<Rightarrow> (nodeid list \<times> kindid list) option" where
  "v_In v n = (if Overlay v then None
     else do { ss \<leftarrow> row (InOffsets (v_base v)) n (InTargets (v_base v)); ks \<leftarrow> row (InOffsets (v_base v)) n (InKinds (v_base v));
               Some (ss, ks) })"

definition edgeTombSlots :: "View \<Rightarrow> bitset option" where
  "edgeTombSlots v = markBits (EdgeCount (v_base v)) (List.map_filter (\<lambda>(i, _). map_option u32 (EdgeByID (v_base v) i)) (merged_edges v))"

text \<open>The delta edges with both ends live, as the loop of \<open>ensureDeltaAdjacency\<close> meets them.\<close>

definition liveEdge :: "View \<Rightarrow> pgid \<times> EdgeSegState \<Rightarrow> (nodeid \<times> nodeid \<times> kindid \<times> pgid) option" where
  "liveEdge v p = (case p of (i, st) \<Rightarrow>
     if eTombstoned st then None
     else case (v_Dense v (StartID st), v_Dense v (EndID st)) of
            (Some s, Some e) \<Rightarrow> if \<not> Alive v s \<or> \<not> Alive v e then None else Some (s, e, eKind st, i)
          | _ \<Rightarrow> None)"

definition deltaEdges :: "View \<Rightarrow> (nodeid \<times> nodeid \<times> kindid \<times> pgid) list" where
  "deltaEdges v = List.map_filter (liveEdge v) (merged_edges v)"

definition pushEdge :: "nodeid \<Rightarrow> 'a \<Rightarrow> (nodeid \<times> 'a list) list \<Rightarrow> (nodeid \<times> 'a list) list" where
  "pushEdge n x m = AList.update n ((case map_of m n of None \<Rightarrow> [] | Some xs \<Rightarrow> xs) @ [x]) m"

definition deltaOut :: "View \<Rightarrow> (nodeid \<times> (nodeid \<times> kindid \<times> pgid) list) list" where
  "deltaOut v = fold (\<lambda>(s, e, k, i). pushEdge s (e, k, i)) (deltaEdges v) []"

definition deltaIn :: "View \<Rightarrow> (nodeid \<times> (nodeid \<times> kindid \<times> pgid) list) list" where
  "deltaIn v = fold (\<lambda>(s, e, k, i). pushEdge e (s, k, i)) (deltaEdges v) []"

definition deltaOutBits :: "View \<Rightarrow> bitset option" where
  "deltaOutBits v = markBits (v_NodeCount v) (map (\<lambda>(s, e, k, i). s) (deltaEdges v))"

definition deltaInBits :: "View \<Rightarrow> bitset option" where
  "deltaInBits v = markBits (v_NodeCount v) (map (\<lambda>(s, e, k, i). e) (deltaEdges v))"

definition OutEdges :: "View \<Rightarrow> nodeid \<Rightarrow> ((nodeid \<times> kindid \<times> pgid) list) option" where
  "OutEdges v n =
     (if \<not> Alive v n then Some []
      else do {
        es \<leftarrow> (if n < NodeCount (v_base v)
               then do { lo \<leftarrow> idx (OutOffsets (v_base v)) n; hi \<leftarrow> idx (OutOffsets (v_base v)) (n + 1);
                         foldM (\<lambda>i acc.
                           if bits_has (edgeTombSlots v) (u32 i) then Some acc
                           else do { target \<leftarrow> idx (OutTargets (v_base v)) i;
                                     if bits_has (deadBits v) target then Some acc
                                     else do { k \<leftarrow> idx (OutKinds (v_base v)) i; e \<leftarrow> idx (OutEdgeIDs (v_base v)) i;
                                               Some (acc @ [(target, k, e)]) } }) [lo..<hi] [] }
               else Some []);
        Some (es @ (if bits_has (deltaOutBits v) n then (case map_of (deltaOut v) n of None \<Rightarrow> [] | Some ds \<Rightarrow> ds) else [])) })"

definition InEdges :: "View \<Rightarrow> nodeid \<Rightarrow> ((nodeid \<times> kindid \<times> pgid) list) option" where
  "InEdges v n =
     (if \<not> Alive v n then Some []
      else do {
        es \<leftarrow> (if n < NodeCount (v_base v)
               then do { lo \<leftarrow> idx (InOffsets (v_base v)) n; hi \<leftarrow> idx (InOffsets (v_base v)) (n + 1);
                         foldM (\<lambda>i acc. do { fwdIdx \<leftarrow> idx (InEdgeIdx (v_base v)) i;
                           if bits_has (edgeTombSlots v) (u32 fwdIdx) then Some acc
                           else do { source \<leftarrow> idx (InTargets (v_base v)) i;
                                     if bits_has (deadBits v) source then Some acc
                                     else do { k \<leftarrow> idx (InKinds (v_base v)) i; e \<leftarrow> idx (OutEdgeIDs (v_base v)) fwdIdx;
                                               Some (acc @ [(source, k, e)]) } } }) [lo..<hi] [] }
               else Some []);
        Some (es @ (if bits_has (deltaInBits v) n then (case map_of (deltaIn v) n of None \<Rightarrow> [] | Some ds \<Rightarrow> ds) else [])) })"

definition v_EdgeByID :: "View \<Rightarrow> pgid \<Rightarrow> nat option" where
  "v_EdgeByID v i =
     (if Overlay v \<and> (case v_merged v of None \<Rightarrow> False | Some m \<Rightarrow> EdgeState m i \<noteq> None) then None
      else EdgeByID (v_base v) i)"

text \<open>The outer \<open>None\<close> is a panic, \<open>Some None\<close> an edge that does not resolve to a live one.\<close>

definition EdgeStateByID :: "View \<Rightarrow> pgid \<Rightarrow> ((nodeid \<times> nodeid \<times> kindid) option) option" where
  "EdgeStateByID v i =
     (case (if Overlay v then (case v_merged v of None \<Rightarrow> None | Some m \<Rightarrow> EdgeState m i) else None) of
        Some st \<Rightarrow> Some (map_option (\<lambda>(s, e, k, _). (s, e, k)) (liveEdge v (i, st)))
      | None \<Rightarrow>
          (case EdgeByID (v_base v) i of None \<Rightarrow> Some None
           | Some fwdIdx \<Rightarrow>
               do { target \<leftarrow> idx (OutTargets (v_base v)) fwdIdx;
                    let src = sourceOfSlot (v_base v) fwdIdx;
                    if \<not> Alive v src \<or> \<not> Alive v target then Some None
                    else do { k \<leftarrow> idx (OutKinds (v_base v)) fwdIdx; Some (Some (src, target, k)) } }))"

definition DeltaHoldsOnlyUnresolvableEdges :: "View \<Rightarrow> bool" where
  "DeltaHoldsOnlyUnresolvableEdges v =
     (if \<not> Overlay v then False
      else case v_merged v of None \<Rightarrow> False
      | Some m \<Rightarrow> if seg_NodeCount m \<noteq> 0 \<or> seg_EdgeCount m = 0 then False
                  else list_all (\<lambda>p. \<not> eTombstoned (snd p) \<and> liveEdge v p = None) (IterEdges m))"

end
