(* ===== verification/ViewNodes.thy ===== *)
theory ViewNodes
  imports View
begin

text \<open>
  What a view's node operations return, in terms of the graph the view stands for: the base graph
  overridden by the newest record of each id (\<open>view_nodes\<close>, \<open>view_raw\<close>), with the edges whose two ends
  are live (\<open>view_edges\<close>).
\<close>

section \<open>The graph of a view\<close>

definition st_desc :: "NodeSegState \<Rightarrow> node_desc" where
  "st_desc st = (KindIDs st, bag_of (st_tables st) (st_entries st))"

definition node_states :: "View \<Rightarrow> pgid \<rightharpoonup> NodeSegState" where
  "node_states v = stacked NodeState (v_segments v)"

definition edge_states :: "View \<Rightarrow> pgid \<rightharpoonup> EdgeSegState" where
  "edge_states v = stacked EdgeState (v_segments v)"

text \<open>A delta applied to a graph: a record decides its id, a tombstone removes it.\<close>

definition apply_nodes :: "(pgid \<rightharpoonup> NodeSegState) \<Rightarrow> (pgid \<rightharpoonup> node_desc) \<Rightarrow> pgid \<rightharpoonup> node_desc" where
  "apply_nodes S N i = (case S i of None \<Rightarrow> N i | Some st \<Rightarrow> if Tombstoned st then None else Some (st_desc st))"

definition apply_edges :: "(pgid \<rightharpoonup> EdgeSegState) \<Rightarrow> (pgid \<rightharpoonup> edge_desc) \<Rightarrow> pgid \<rightharpoonup> edge_desc" where
  "apply_edges S E i = (case S i of None \<Rightarrow> E i | Some st \<Rightarrow> if eTombstoned st then None else Some (StartID st, EndID st, eKind st))"

definition view_nodes :: "View \<Rightarrow> pgid \<rightharpoonup> node_desc" where
  "view_nodes v = apply_nodes (node_states v) (snap_node (v_base v))"

definition view_raw :: "View \<Rightarrow> pgid \<rightharpoonup> edge_desc" where
  "view_raw v = apply_edges (edge_states v) (snap_edge (v_base v))"

definition view_edges :: "View \<Rightarrow> pgid \<rightharpoonup> edge_desc" where
  "view_edges v = both_in (dom (view_nodes v)) (view_raw v)"

text \<open>
  Well-formed segments: the records a \<open>SegmentBuilder\<close> stages, whose bags read without a panic and
  whose objectid field agrees with the bag.
\<close>

definition oid_of_bag :: "(string \<rightharpoonup> propValue) \<Rightarrow> string option" where
  "oid_of_bag bag = (case bag ''objectid'' of Some (VString s) \<Rightarrow> Some s | _ \<Rightarrow> None)"

definition st_wf :: "NodeSegState \<Rightarrow> bool" where
  "st_wf st \<longleftrightarrow> Tombstoned st \<or> table_wf (st_tables st) \<and> entries_wf (st_tables st) (st_entries st) \<and>
     (if HasObjectID st then Some (ObjectID st) else None) = oid_of_bag (bag_of (st_tables st) (st_entries st))"

definition seg_ok :: "Segment \<Rightarrow> bool" where
  "seg_ok s \<longleftrightarrow> seg_wf s \<and> (\<forall>i st. NodeState s i = Some st \<longrightarrow> st_wf st)"

definition view_wf :: "View \<Rightarrow> bool" where
  "view_wf v \<longleftrightarrow> snap_ok (v_base v) \<and> (\<forall>s \<in> set (v_segments v). seg_ok s) \<and> v_NodeCount v \<le> 2 ^ 32"

lemma bagObjectID_eq:
  assumes "distinct (map pp_name pps)"
  shows "bagObjectID pps = oid_of_bag (parsedBag pps)"
proof -
  have none: "fold (\<lambda>pp acc. if pp_name pp = ''objectid'' \<and> pp_kind pp = propKindString then Some (pp_bytes pp) else acc) qs acc = acc"
    if "''objectid'' \<notin> set (map pp_name qs)" for qs acc
    using that by (induction qs arbitrary: acc) auto
  show ?thesis
  proof (cases "find (\<lambda>pp. pp_name pp = ''objectid'') pps")
    case None
    then have "''objectid'' \<notin> set (map pp_name pps)" by (force simp: find_None_iff)
    then show ?thesis using none None by (simp add: bagObjectID_def oid_of_bag_def parsedBag_def)
  next
    case (Some pp)
    then have "pp \<in> set pps" "pp_name pp = ''objectid''" by (auto dest: find_SomeD)
    then obtain as bs where s: "pps = as @ pp # bs" by (meson split_list)
    then have "''objectid'' \<notin> set (map pp_name as)" "''objectid'' \<notin> set (map pp_name bs)"
      using assms \<open>pp_name pp = ''objectid''\<close> by auto
    then have "bagObjectID pps = (if pp_kind pp = propKindString then Some (pp_bytes pp) else None)"
      using none [of as None] none [of bs "if pp_kind pp = propKindString then Some (pp_bytes pp) else None"] \<open>pp_name pp = ''objectid''\<close>
      unfolding bagObjectID_def s fold_append fold_simps comp_apply by (simp only: simp_thms if_cancel split: if_split)
    then show ?thesis using Some by (auto simp: oid_of_bag_def parsedBag_def parsedValue_def split: propKind.split)
  qed
qed

lemma stage_oids:
  assumes "\<forall>op \<in> set ops. stage_names_ok op" and "fold stage_node ops m i = Some (NodeIs ks bag oid)"
    and "\<And>i ks bag oid. m i = Some (NodeIs ks bag oid) \<Longrightarrow> oid = oid_of_bag bag"
  shows "oid = oid_of_bag bag"
  using assms
proof (induction ops arbitrary: m)
  case (Cons op ops)
  have "oid = oid_of_bag bag" if "stage_node op m i = Some (NodeIs ks bag oid)" for i ks bag oid
  proof (cases op)
    case (StageNode j ks' pps)
    then show ?thesis using that Cons.prems(1,3) bagObjectID_eq [of pps] by (auto simp: parsedBag_def [abs_def] split: if_splits)
  qed (use that Cons.prems(3) in \<open>auto split: if_splits\<close>)
  then show ?case using Cons.IH [of "stage_node op m"] Cons.prems by simp
qed simp

lemma seg_Build_ok:
  assumes "stage_run ops = Some b" and "\<forall>op \<in> set ops. stage_names_ok op"
  shows "seg_ok (seg_Build b)"
proof -
  note inv = stage_run_inv [OF assms]
  note st = seg_Build_states [OF inv]
  have "st_wf s" if s: "NodeState (seg_Build b) i = Some s" for i s
  proof (cases "Tombstoned s")
    case False
    let ?bag = "\<lambda>name. Option.bind (PropValueByName s name) id" and ?oid = "if HasObjectID s then Some (ObjectID s) else None"
    have "fold stage_node ops Map.empty i = Some (NodeIs (KindIDs s) ?bag ?oid)"
      using st(2) [of i] s False by (simp add: state_rec_def)
    from stage_oids [OF assms(2) this] have oid: "?oid = oid_of_bag ?bag" by simp
    have tab: "st_tables s = sb_props b" "\<exists>nb. map_of (sb_nodes b) i = Some nb \<and> st_entries s = nb_entries nb"
      using s by (auto simp: seg_Build_def NodeState_def map_of_map)
    have "table_wf (st_tables s) \<and> entries_wf (st_tables s) (st_entries s)" using inv tab by (auto simp: builder_inv_def)
    moreover from this have "?bag = bag_of (st_tables s) (st_entries s)"
      using bag_of_value by (auto simp: PropValueByName_def fun_eq_iff)
    ultimately show ?thesis using oid by (simp add: st_wf_def)
  qed (simp add: st_wf_def)
  then show ?thesis using st(1) by (simp add: seg_ok_def)
qed

section \<open>Layering a segment\<close>

lemma apply_nodes_add: "apply_nodes (S ++ T) N = apply_nodes T (apply_nodes S N)"
  by (auto simp: apply_nodes_def fun_eq_iff map_add_def split: option.split)

lemma apply_edges_add: "apply_edges (S ++ T) N = apply_edges T (apply_edges S N)"
  by (auto simp: apply_edges_def fun_eq_iff map_add_def split: option.split)

lemma view_nodes_stack: "view_nodes \<lparr>v_base = s, v_segments = as @ bs\<rparr> =
    apply_nodes (stacked NodeState bs) (view_nodes \<lparr>v_base = s, v_segments = as\<rparr>)"
  by (simp add: view_nodes_def node_states_def stacked_append apply_nodes_add)

lemma view_raw_stack: "view_raw \<lparr>v_base = s, v_segments = as @ bs\<rparr> =
    apply_edges (stacked EdgeState bs) (view_raw \<lparr>v_base = s, v_segments = as\<rparr>)"
  by (simp add: view_raw_def edge_states_def stacked_append apply_edges_add)

section \<open>The merged segment\<close>

lemma seg_wfs: "view_wf v \<Longrightarrow> \<forall>s \<in> set (v_segments v). seg_wf s"
  by (simp add: view_wf_def seg_ok_def)

lemma merged_state:
  assumes "view_wf v"
  shows "(case v_merged v of None \<Rightarrow> None | Some m \<Rightarrow> NodeState m i) = node_states v i"
    and "(case v_merged v of None \<Rightarrow> None | Some m \<Rightarrow> EdgeState m i) = edge_states v i"
  using merge_maps [OF seg_wfs [OF assms]] by (simp_all add: v_merged_def node_states_def edge_states_def)

lemma merged_Some: "Overlay v \<Longrightarrow> v_merged v = Some (MergeSegments (v_segments v))"
  by (simp add: v_merged_def Overlay_def)

lemma not_overlay: "\<not> Overlay v \<Longrightarrow> v_merged v = None \<and> merged_nodes v = [] \<and> merged_edges v = [] \<and>
    node_states v = Map.empty \<and> edge_states v = Map.empty"
  by (simp add: v_merged_def Overlay_def merged_nodes_def merged_edges_def node_states_def edge_states_def)

lemma overlay_states:
  assumes "view_wf v" and "Overlay v"
  shows "NodeState (MergeSegments (v_segments v)) = node_states v" and "EdgeState (MergeSegments (v_segments v)) = edge_states v"
  using merge_maps [OF seg_wfs [OF assms(1)]] by (simp_all add: node_states_def edge_states_def)

lemma merged_iter:
  assumes "view_wf v"
  shows "(i, st) \<in> set (merged_nodes v) \<longleftrightarrow> node_states v i = Some st"
    and "(i, es) \<in> set (merged_edges v) \<longleftrightarrow> edge_states v i = Some es"
    and "sorted_wrt (<) (map fst (merged_nodes v))" and "sorted_wrt (<) (map fst (merged_edges v))"
proof -
  let ?m = "MergeSegments (v_segments v)"
  note m = merge_maps [OF seg_wfs [OF assms]]
  note ids = seg_wf_ids [OF m(4)]
  show "(i, st) \<in> set (merged_nodes v) \<longleftrightarrow> node_states v i = Some st"
    using IterNodes_iff [OF m(4)] m(1) not_overlay merged_Some by (cases "Overlay v") (simp_all add: merged_nodes_def node_states_def)
  show "(i, es) \<in> set (merged_edges v) \<longleftrightarrow> edge_states v i = Some es"
    using IterEdges_iff [OF m(4)] m(2) not_overlay merged_Some by (cases "Overlay v") (simp_all add: merged_edges_def edge_states_def)
  have "sorted (nodeIDs ?m)" "sorted (edgeIDs ?m)" unfolding ids(1,2) by simp_all
  then have "sorted_wrt (<) (nodeIDs ?m)" "sorted_wrt (<) (edgeIDs ?m)" using ids(3,4) by (simp_all only: strict_sorted_iff simp_thms)
  then show "sorted_wrt (<) (map fst (merged_nodes v))" "sorted_wrt (<) (map fst (merged_edges v))"
    by (simp_all add: merged_nodes_def merged_edges_def v_merged_def IterNodes_fst IterEdges_fst)
qed

lemma node_states_wf:
  assumes "view_wf v" and "node_states v i = Some st"
  shows "st_wf st"
proof -
  obtain s where "find (\<lambda>s. NodeState s i \<noteq> None) (rev (v_segments v)) = Some s" "NodeState s i = Some st"
    using assms(2) stacked_find [of NodeState "v_segments v" i] by (auto simp: node_states_def split: option.splits)
  then have "s \<in> set (v_segments v)" by (auto dest: find_SomeD)
  then show ?thesis using assms(1) \<open>NodeState s i = Some st\<close> by (auto simp: view_wf_def seg_ok_def)
qed

section \<open>Bits\<close>

lemma markBits_has:
  assumes "n \<le> 2 ^ 32" and "\<forall>i \<in> set ids. i < n"
  shows "bits_has (markBits n ids) j \<longleftrightarrow> j \<in> set ids"
    and "sorted_wrt (<) (bits_iterate (markBits n ids))" and "set (bits_iterate (markBits n ids)) = set ids"
proof -
  have mk: "markBits n ids = (if ids = [] then None else Some (fold (\<lambda>i b. Bitset_Set b i) ids (NewBitset n)))"
  proof -
    have "fold (\<lambda>i bits. Some (Bitset_Set (case bits of None \<Rightarrow> NewBitset n | Some b \<Rightarrow> b) i)) is (Some b) =
        Some (fold (\<lambda>i b. Bitset_Set b i) is b)" for "is" b
      by (induction "is" arbitrary: b) auto
    then show ?thesis by (cases ids) (auto simp: markBits_def)
  qed
  note inv = bs.fill_fresh_invar [OF assms(1), of ids] and fill = bs.fill_fresh [OF assms]
  show "bits_has (markBits n ids) j \<longleftrightarrow> j \<in> set ids" using fill by (simp add: mk bits_has_def)
  show "sorted_wrt (<) (bits_iterate (markBits n ids))"
    using bs.elems_sorted [OF inv] by (simp add: mk bits_iterate_def)
  show "set (bits_iterate (markBits n ids)) = set ids"
    using bs.set_elems [OF inv] fill by (simp add: mk bits_iterate_def)
qed

section \<open>Dense ids\<close>

definition pg :: "View \<Rightarrow> nodeid \<Rightarrow> pgid" where
  "pg v n = (if n < NodeCount (v_base v) then GraphIDs (v_base v) ! n else virtualPgIDs v ! (n - NodeCount (v_base v)))"

lemma GraphID_pg: "n < v_NodeCount v \<Longrightarrow> v_GraphID v n = Some (pg v n)"
  by (auto simp: v_GraphID_def pg_def v_NodeCount_def NodeCount_def)

lemma base_facts:
  assumes "view_wf v"
  shows "Dense (v_base v) i = Some j \<longleftrightarrow> j < NodeCount (v_base v) \<and> GraphIDs (v_base v) ! j = i"
    and "NodeCount (v_base v) \<le> 2 ^ 32" and "EdgeCount (v_base v) < 2 ^ 32" and "sorted_wrt (<) (GraphIDs (v_base v))"
    and "distinct (OutEdgeIDs (v_base v))"
proof -
  obtain out inn kr pr where wf: "snap_wf (v_base v) out inn kr pr" and d: "distinct (OutEdgeIDs (v_base v))"
    using assms unfolding view_wf_def snap_ok_def by blast
  have rep: "snap_rep (v_base v) out inn" using wf by (simp add: snap_wf_def)
  show "Dense (v_base v) i = Some j \<longleftrightarrow> j < NodeCount (v_base v) \<and> GraphIDs (v_base v) ! j = i"
    "NodeCount (v_base v) \<le> 2 ^ 32" "sorted_wrt (<) (GraphIDs (v_base v))"
    using rep unfolding snap_rep_def by blast+
  have "OutTargets (v_base v) = map fst (slots_of out (NodeCount (v_base v)))" "row_start out (NodeCount (v_base v)) < 2 ^ 32"
    using rep unfolding snap_rep_def by blast+
  then show "EdgeCount (v_base v) < 2 ^ 32" by (simp add: EdgeCount_def)
  show "distinct (OutEdgeIDs (v_base v))" by (rule d)
qed

lemma virtual_iff:
  assumes "view_wf v"
  shows "i \<in> set (virtualPgIDs v) \<longleftrightarrow> (\<exists>st. node_states v i = Some st \<and> \<not> Tombstoned st \<and> Dense (v_base v) i = None)"
    and "sorted_wrt (<) (virtualPgIDs v)"
proof -
  show "i \<in> set (virtualPgIDs v) \<longleftrightarrow> (\<exists>st. node_states v i = Some st \<and> \<not> Tombstoned st \<and> Dense (v_base v) i = None)"
    using merged_iter(1) [OF assms] by (auto simp: virtualPgIDs_def image_iff)
  show "sorted_wrt (<) (virtualPgIDs v)"
    using merged_iter(3) [OF assms] unfolding virtualPgIDs_def by (auto simp: sorted_wrt_map intro: sorted_wrt_filter)
qed

lemma fold_update_lookup:
  assumes "distinct xs" and "off + length xs \<le> 2 ^ 32"
  shows "map_of (fold (\<lambda>i. AList.update (xs ! i) (u32 (off + i))) [0..<length xs] []) x = Some n \<longleftrightarrow>
    off \<le> n \<and> n - off < length xs \<and> xs ! (n - off) = x"
proof -
  have "m \<le> length xs \<Longrightarrow> map_of (fold (\<lambda>i. AList.update (xs ! i) (u32 (off + i))) [0..<m] []) x = Some n \<longleftrightarrow>
      off \<le> n \<and> n - off < m \<and> xs ! (n - off) = x" for m
  proof (induction m)
    case (Suc m)
    have u: "u32 (off + m) = off + m" using Suc.prems assms(2) by (intro u32_id) simp
    show ?case
    proof (cases "xs ! m = x")
      case True
      then have "xs ! (n - off) = x \<longleftrightarrow> n - off = m" if "n - off < Suc m"
        using assms(1) Suc.prems that by (auto simp: nth_eq_iff_index_eq)
      then show ?thesis using True Suc u by (auto simp: update_conv')
    next
      case False
      then show ?thesis using Suc by (auto simp: update_conv' less_Suc_eq)
    qed
  qed simp
  from this [of "length xs"] show ?thesis by simp
qed

lemma Dense_iff:
  assumes "view_wf v"
  shows "v_Dense v i = Some n \<longleftrightarrow> n < v_NodeCount v \<and> pg v n = i"
    and "denseOf v i = v_Dense v i"
proof -
  let ?b = "NodeCount (v_base v)"
  have vd: "distinct (virtualPgIDs v)" using virtual_iff(2) [OF assms] strict_sorted_iff by blast
  have look: "map_of (pgToVirtual v) i = Some n \<longleftrightarrow> ?b \<le> n \<and> n - ?b < length (virtualPgIDs v) \<and> virtualPgIDs v ! (n - ?b) = i" for n
    unfolding pgToVirtual_def by (rule fold_update_lookup [OF vd]) (use assms in \<open>simp add: view_wf_def v_NodeCount_def\<close>)
  have none: "virtualPgIDs v = []" if "\<not> Overlay v" using not_overlay [OF that] by (simp add: virtualPgIDs_def)
  show d: "denseOf v i = v_Dense v i"
    using none by (auto simp: denseOf_def v_Dense_def pgToVirtual_def split: option.split)
  have "denseOf v i = Some n \<longleftrightarrow> n < v_NodeCount v \<and> pg v n = i"
  proof (cases "Dense (v_base v) i")
    case None
    then have "\<not> (n < ?b \<and> pg v n = i)" using base_facts(1) [OF assms, of i n] by (auto simp: pg_def)
    moreover have "denseOf v i = map_of (pgToVirtual v) i" using None by (simp add: denseOf_def)
    ultimately show ?thesis using look [of n] by (cases "n < ?b") (auto simp: v_NodeCount_def pg_def)
  next
    case (Some j)
    have j: "j < ?b" "GraphIDs (v_base v) ! j = i" using Some base_facts(1) [OF assms] by auto
    have "i \<notin> set (virtualPgIDs v)" using virtual_iff(1) [OF assms] Some by simp
    then have "pg v n \<noteq> i" if "\<not> n < ?b" "n < v_NodeCount v" using that by (auto simp: pg_def v_NodeCount_def) 
    moreover have "pg v n = i \<longleftrightarrow> n = j" if "n < ?b"
      using that base_facts(1) [OF assms, of i n] Some by (simp add: pg_def) blast
    moreover have "denseOf v i = Some j" "j < v_NodeCount v" using Some j(1) by (simp_all add: denseOf_def v_NodeCount_def)
    ultimately show ?thesis using j(1) by (metis option.inject)
  qed
  then show "v_Dense v i = Some n \<longleftrightarrow> n < v_NodeCount v \<and> pg v n = i" by (simp add: d)
qed

lemma Dense_pg: "view_wf v \<Longrightarrow> n < v_NodeCount v \<Longrightarrow> v_Dense v (pg v n) = Some n"
  by (simp add: Dense_iff)

lemma pg_inj: "view_wf v \<Longrightarrow> n < v_NodeCount v \<Longrightarrow> m < v_NodeCount v \<Longrightarrow> pg v n = pg v m \<longleftrightarrow> n = m"
  using Dense_iff(1) by (metis option.inject)

lemma Dense_dom:
  assumes "view_wf v" and "view_nodes v i \<noteq> None"
  obtains n where "n < v_NodeCount v" "pg v n = i"
proof (cases "Dense (v_base v) i")
  case (Some j)
  then show ?thesis using that [of j] base_facts(1) [OF assms(1)] by (auto simp: pg_def v_NodeCount_def)
next
  case None
  have "snap_node (v_base v) i = None" using None by (simp add: snap_node_def)
  then obtain st where "node_states v i = Some st" "\<not> Tombstoned st"
    using assms(2) by (auto simp: view_nodes_def apply_nodes_def split: option.splits if_splits)
  then have "i \<in> set (virtualPgIDs v)" using virtual_iff(1) [OF assms(1)] None by blast
  then obtain l where "l < length (virtualPgIDs v)" "virtualPgIDs v ! l = i" by (auto simp: in_set_conv_nth)
  then show ?thesis using that [of "NodeCount (v_base v) + l"] by (auto simp: pg_def v_NodeCount_def)
qed

text \<open>\<open>override\<close> is the record of the node's id.\<close>

lemma overBits_iff:
  assumes "view_wf v" and "n < NodeCount (v_base v)"
  shows "bits_has (overBits v) n \<longleftrightarrow> node_states v (GraphIDs (v_base v) ! n) \<noteq> None"
proof -
  let ?ids = "List.map_filter (\<lambda>(i, st). Dense (v_base v) i) (merged_nodes v)"
  have mem: "m \<in> set ?ids \<longleftrightarrow> m < NodeCount (v_base v) \<and> node_states v (GraphIDs (v_base v) ! m) \<noteq> None" for m
  proof -
    have "m \<in> set ?ids \<longleftrightarrow> (\<exists>i st. (i, st) \<in> set (merged_nodes v) \<and> Dense (v_base v) i = Some m)" by (auto simp: map_filter_pair_iff)
    then show ?thesis unfolding merged_iter(1) [OF assms(1)] base_facts(1) [OF assms(1)] by auto
  qed
  have "\<forall>i \<in> set ?ids. i < NodeCount (v_base v)" using mem by blast
  from markBits_has(1) [OF base_facts(2) [OF assms(1)] this, of n] show ?thesis
    using mem assms(2) by (simp add: overBits_def)
qed

lemma override_eq:
  assumes "view_wf v" and "n < v_NodeCount v"
  shows "override v n = node_states v (pg v n)"
proof (cases "Overlay v")
  case True
  note m = merged_Some [OF True] overlay_states(1) [OF assms(1) True]
  show ?thesis
  proof (cases "n < NodeCount (v_base v)")
    case True
    then show ?thesis using overBits_iff [OF assms(1) True] m \<open>Overlay v\<close> by (auto simp: override_def pg_def)
  next
    case False
    then have "n - NodeCount (v_base v) < length (virtualPgIDs v)" using assms(2) by (simp add: v_NodeCount_def)
    then show ?thesis using False m \<open>Overlay v\<close> by (simp add: override_def pg_def)
  qed
qed (use not_overlay in \<open>auto simp: override_def\<close>)

lemma deadBits_iff:
  assumes "view_wf v"
  shows "bits_has (deadBits v) n \<longleftrightarrow> n < v_NodeCount v \<and> (\<exists>st. node_states v (pg v n) = Some st \<and> Tombstoned st)"
    and "set (bits_iterate (deadBits v)) = {n. bits_has (deadBits v) n}"
proof -
  let ?ids = "List.map_filter (\<lambda>(i, st). if \<not> Tombstoned st then None else denseOf v i) (merged_nodes v)"
  have mem: "m \<in> set ?ids \<longleftrightarrow> m < v_NodeCount v \<and> (\<exists>st. node_states v (pg v m) = Some st \<and> Tombstoned st)" for m
  proof -
    have "m \<in> set ?ids \<longleftrightarrow> (\<exists>i st. (i, st) \<in> set (merged_nodes v) \<and> Tombstoned st \<and> denseOf v i = Some m)"
      by (auto simp: map_filter_pair_iff split: if_splits)
    then show ?thesis unfolding merged_iter(1) [OF assms] Dense_iff [OF assms] by auto
  qed
  have "\<forall>i \<in> set ?ids. i < v_NodeCount v" using mem by blast
  note mb = markBits_has [OF _ this]
  have le: "v_NodeCount v \<le> 2 ^ 32" using assms by (simp add: view_wf_def)
  show "bits_has (deadBits v) n \<longleftrightarrow> n < v_NodeCount v \<and> (\<exists>st. node_states v (pg v n) = Some st \<and> Tombstoned st)"
    using mb(1) [OF le] mem by (simp add: deadBits_def)
  show "set (bits_iterate (deadBits v)) = {n. bits_has (deadBits v) n}"
    using mb(1,3) [OF le] by (auto simp: deadBits_def)
qed

lemma view_nodes_pg:
  assumes "view_wf v" and "n < v_NodeCount v"
  shows "view_nodes v (pg v n) \<noteq> None \<longleftrightarrow> \<not> (\<exists>st. node_states v (pg v n) = Some st \<and> Tombstoned st)"
proof (cases "node_states v (pg v n)")
  case None
  have "n < NodeCount (v_base v)"
  proof (rule ccontr)
    assume "\<not> n < NodeCount (v_base v)"
    then have "pg v n \<in> set (virtualPgIDs v)" using assms(2) by (simp add: pg_def v_NodeCount_def)
    then show False using virtual_iff(1) [OF assms(1)] None by simp
  qed
  then have "Dense (v_base v) (pg v n) = Some n" using base_facts(1) [OF assms(1)] by (simp add: pg_def)
  moreover obtain out inn kr pr where "snap_wf (v_base v) out inn kr pr" using assms(1) unfolding view_wf_def snap_ok_def by blast
  ultimately have "snap_node (v_base v) (pg v n) \<noteq> None" using snap_node_iff by simp
  then show ?thesis using None by (simp add: view_nodes_def apply_nodes_def)
qed (auto simp: view_nodes_def apply_nodes_def)

lemma Alive_iff: "view_wf v \<Longrightarrow> Alive v n \<longleftrightarrow> n < v_NodeCount v \<and> view_nodes v (pg v n) \<noteq> None"
  using deadBits_iff(1) [of v n] view_nodes_pg [of v n] not_overlay [of v] by (auto simp: Alive_def)

lemma resolves_iff:
  assumes "view_wf v"
  shows "(\<exists>n. v_Dense v i = Some n \<and> Alive v n) \<longleftrightarrow> i \<in> dom (view_nodes v)"
proof
  assume "\<exists>n. v_Dense v i = Some n \<and> Alive v n"
  then show "i \<in> dom (view_nodes v)" using Dense_iff(1) [OF assms] Alive_iff [OF assms] by auto
next
  assume "i \<in> dom (view_nodes v)"
  then obtain n where "n < v_NodeCount v" "pg v n = i" "view_nodes v i \<noteq> None" using Dense_dom [OF assms] by (metis domIff)
  then show "\<exists>n. v_Dense v i = Some n \<and> Alive v n" using Dense_iff(1) [OF assms] Alive_iff [OF assms] by blast
qed

end
