(* ===== verification/ViewReads.thy ===== *)
theory ViewReads
  imports ViewNodes
begin

text \<open>
  Reads of a view's nodes: kinds, properties, the objectid index and the kind bitmaps return exactly
  what the graph of the view has for the live nodes.
\<close>

section \<open>Kinds and properties\<close>

lemma base_node:
  assumes "view_wf v" and wf: "snap_wf (v_base v) out inn kr pr" and "n < NodeCount (v_base v)"
  shows "snap_node (v_base v) (GraphIDs (v_base v) ! n) = Some (kr n, bag_of (ps_table (sProps (v_base v))) (pr n))"
  using snap_node_iff [OF wf, of "GraphIDs (v_base v) ! n"] base_facts(1) [OF assms(1), of "GraphIDs (v_base v) ! n" n] assms(3) by simp

lemma node_reads:
  assumes v: "view_wf v" and n: "n < v_NodeCount v"
  shows "KindIDsOf v n = Some (case view_nodes v (pg v n) of Some (ks, bag) \<Rightarrow> ks | None \<Rightarrow> [])"
    and "v_PropValueByName v n name = Some (case view_nodes v (pg v n) of Some (ks, bag) \<Rightarrow> bag name | None \<Rightarrow> None)"
proof -
  have ov: "override v n = node_states v (pg v n)" by (rule override_eq [OF v n])
  have "KindIDsOf v n = Some (case view_nodes v (pg v n) of Some (ks, bag) \<Rightarrow> ks | None \<Rightarrow> []) \<and>
    v_PropValueByName v n name = Some (case view_nodes v (pg v n) of Some (ks, bag) \<Rightarrow> bag name | None \<Rightarrow> None)"
  proof (cases "node_states v (pg v n)")
    case (Some st)
    then show ?thesis using ov node_states_wf [OF v Some] bag_of_value [of "st_tables st" "st_entries st" name]
      by (auto simp: KindIDsOf_def v_PropValueByName_def PropValueByName_def view_nodes_def apply_nodes_def st_desc_def st_wf_def)
  next
    case None
    have b: "n < NodeCount (v_base v)" "pg v n = GraphIDs (v_base v) ! n"
    proof -
      show "n < NodeCount (v_base v)"
      proof (rule ccontr)
        assume "\<not> n < NodeCount (v_base v)"
        then have "pg v n \<in> set (virtualPgIDs v)" using n by (simp add: pg_def v_NodeCount_def)
        then show False using virtual_iff(1) [OF v] None by simp
      qed
      then show "pg v n = GraphIDs (v_base v) ! n" by (simp add: pg_def)
    qed
    obtain out inn kr pr where wf: "snap_wf (v_base v) out inn kr pr" using v unfolding view_wf_def snap_ok_def by blast
    have node: "view_nodes v (pg v n) = Some (kr n, bag_of (ps_table (sProps (v_base v))) (pr n))"
      using None base_node [OF v wf b(1)] b(2) by (simp add: view_nodes_def apply_nodes_def)
    have "row (KindOffsets (v_base v)) n (NodeKinds (v_base v)) = Some (kr n)"
      using row_of_slots [OF b(1), of kr "\<lambda>x. x"] wf by (simp add: snap_wf_def del: upt_Suc)
    then have "KindIDsOf v n = Some (kr n)" using ov None by (simp add: KindIDsOf_def)
    moreover have "v_PropValueByName v n name = Some (bag_of (ps_table (sProps (v_base v))) (pr n) name)"
    proof (cases "ps_IDByName (sProps (v_base v)) name")
      case (Some i)
      have "store_rep (sProps (v_base v)) (NodeCount (v_base v)) pr" using wf by (simp add: snap_wf_def)
      from ps_Value_bag [OF this b(1) Some] show ?thesis using ov None Some by (simp add: v_PropValueByName_def)
    next
      case i: None
      then have "bag_of (ps_table (sProps (v_base v))) (pr n) name = None" by (simp add: bag_of_def valueByName_def ps_IDByName_def)
      then show ?thesis using ov None i by (simp add: v_PropValueByName_def)
    qed
    ultimately show ?thesis using node by simp
  qed
  then show "KindIDsOf v n = Some (case view_nodes v (pg v n) of Some (ks, bag) \<Rightarrow> ks | None \<Rightarrow> [])"
    "v_PropValueByName v n name = Some (case view_nodes v (pg v n) of Some (ks, bag) \<Rightarrow> bag name | None \<Rightarrow> None)" by blast+
qed

section \<open>The objectid index\<close>

definition has_oid :: "View \<Rightarrow> string \<Rightarrow> nodeid \<Rightarrow> bool" where
  "has_oid v oid n \<longleftrightarrow> (case view_nodes v (pg v n) of Some (ks, bag) \<Rightarrow> oid_of_bag bag = Some oid | None \<Rightarrow> False)"

lemma oid_of_bag_iff: "oid_of_bag bag = Some oid \<longleftrightarrow> bag ''objectid'' = Some (VString oid)"
  by (auto simp: oid_of_bag_def split: option.split propValue.split)

lemma base_oids:
  assumes v: "view_wf v"
  shows "(case ps_NodesByObjectID (sProps (v_base v)) oid of None \<Rightarrow> [] | Some ids \<Rightarrow> ids) =
    filter (\<lambda>n. \<exists>ks bag. snap_node (v_base v) (GraphIDs (v_base v) ! n) = Some (ks, bag) \<and> oid_of_bag bag = Some oid) [0..<NodeCount (v_base v)]"
    and "ps_NodesByObjectID (sProps (v_base v)) oid \<noteq> Some []"
proof -
  obtain out inn kr pr where wf: "snap_wf (v_base v) out inn kr pr" using v unfolding view_wf_def snap_ok_def by blast
  have look: "ps_NodesByObjectID (sProps (v_base v)) oid =
      (case oid_nodes (ps_table (sProps (v_base v))) pr (NodeCount (v_base v)) oid of [] \<Rightarrow> None | ids \<Rightarrow> Some ids)"
    using wf by (simp add: snap_wf_def oid_index_ok_def)
  have "oid_nodes (ps_table (sProps (v_base v))) pr (NodeCount (v_base v)) oid =
    filter (\<lambda>n. \<exists>ks bag. snap_node (v_base v) (GraphIDs (v_base v) ! n) = Some (ks, bag) \<and> oid_of_bag bag = Some oid) [0..<NodeCount (v_base v)]"
    unfolding oid_nodes_def by (rule filter_cong) (auto simp: base_node [OF v wf] oid_of_bag_iff)
  then show "(case ps_NodesByObjectID (sProps (v_base v)) oid of None \<Rightarrow> [] | Some ids \<Rightarrow> ids) =
    filter (\<lambda>n. \<exists>ks bag. snap_node (v_base v) (GraphIDs (v_base v) ! n) = Some (ks, bag) \<and> oid_of_bag bag = Some oid) [0..<NodeCount (v_base v)]"
    unfolding look by (simp split: list.split)
  show "ps_NodesByObjectID (sProps (v_base v)) oid \<noteq> Some []" unfolding look by (simp split: list.split)
qed

lemma distinct_map_filter: "distinct xs \<Longrightarrow> (\<And>x y z. f x = Some z \<Longrightarrow> f y = Some z \<Longrightarrow> x = y) \<Longrightarrow> distinct (List.map_filter f xs)"
proof (induction xs)
  case (Cons x xs)
  show ?case
  proof (cases "f x")
    case (Some z)
    have "z \<notin> set (List.map_filter f xs)" using Cons.prems Some by (auto simp: map_filter_iff)
    then show ?thesis using Some Cons by (simp add: map_filter_simps)
  qed (use Cons in \<open>simp add: map_filter_simps\<close>)
qed (simp add: map_filter_simps)

lemma oid_record:
  assumes v: "view_wf v" and n: "n < v_NodeCount v" and st: "node_states v (pg v n) = Some st"
  shows "has_oid v oid n \<longleftrightarrow> \<not> Tombstoned st \<and> HasObjectID st \<and> ObjectID st = oid"
  using node_states_wf [OF v st] st
  by (auto simp: has_oid_def view_nodes_def apply_nodes_def st_desc_def st_wf_def split: if_splits)

lemma NodesByObjectID_exact:
  assumes v: "view_wf v"
  shows "v_NodesByObjectID v oid =
    Some (case filter (has_oid v oid) [0..<v_NodeCount v] of [] \<Rightarrow> None | ids \<Rightarrow> Some ids)"
proof (cases "Overlay v")
  case False
  have nc: "v_NodeCount v = NodeCount (v_base v)" using not_overlay [OF False] by (simp add: v_NodeCount_def virtualPgIDs_def)
  have "filter (has_oid v oid) [0..<v_NodeCount v] =
      filter (\<lambda>n. \<exists>ks bag. snap_node (v_base v) (GraphIDs (v_base v) ! n) = Some (ks, bag) \<and> oid_of_bag bag = Some oid) [0..<NodeCount (v_base v)]"
    unfolding nc by (rule filter_cong) (auto simp: has_oid_def view_nodes_def apply_nodes_def not_overlay [OF False] pg_def split: option.split)
  then show ?thesis using False base_oids [OF v, of oid] by (auto simp: v_NodesByObjectID_def split: option.splits list.splits)
next
  case True
  let ?m = "MergeSegments (v_segments v)" and ?b = "NodeCount (v_base v)"
  define delta where "delta = List.map_filter (v_Dense v) (seg_NodesByObjectID ?m oid)"
  define base where "base = filter (\<lambda>n. \<exists>ks bag. snap_node (v_base v) (GraphIDs (v_base v) ! n) = Some (ks, bag) \<and> oid_of_bag bag = Some oid) [0..<?b]"
  define rest where "rest = filter (\<lambda>i. node_states v (GraphIDs (v_base v) ! i) = None) base"
  have mwf: "seg_wf ?m" by (rule merge_maps(4) [OF seg_wfs [OF v]])
  note ns = overlay_states(1) [OF v True]
  have din: "n \<in> set delta \<longleftrightarrow> n < v_NodeCount v \<and> node_states v (pg v n) \<noteq> None \<and> has_oid v oid n" for n
  proof -
    have "n \<in> set delta \<longleftrightarrow> (\<exists>i. i \<in> set (seg_NodesByObjectID ?m oid) \<and> v_Dense v i = Some n)"
      by (auto simp: delta_def map_filter_iff)
    also have "\<dots> \<longleftrightarrow> n < v_NodeCount v \<and> pg v n \<in> set (seg_NodesByObjectID ?m oid)" unfolding Dense_iff(1) [OF v] by auto
    also have "pg v n \<in> set (seg_NodesByObjectID ?m oid) \<longleftrightarrow> (\<exists>st. node_states v (pg v n) = Some st \<and> \<not> Tombstoned st \<and> HasObjectID st \<and> ObjectID st = oid)"
      using NodesByObjectID_eq [OF mwf, of oid] seg_wf_ids(5) [OF mwf] ns
      by (auto simp: indexed_under_def NodeState_def [symmetric] split: option.split_asm option.split)
    finally show ?thesis using oid_record [OF v] by blast
  qed
  have "distinct (seg_NodesByObjectID ?m oid)" using NodesByObjectID_eq [OF mwf] seg_wf_ids(3) [OF mwf] by simp
  then have dd: "distinct delta" unfolding delta_def using Dense_iff(1) [OF v] by (intro distinct_map_filter) auto
  have rin: "n \<in> set rest \<longleftrightarrow> n < v_NodeCount v \<and> node_states v (pg v n) = None \<and> has_oid v oid n" for n
  proof (cases "n < ?b")
    case True
    then show ?thesis by (auto simp: rest_def base_def pg_def has_oid_def view_nodes_def apply_nodes_def v_NodeCount_def split: option.split)
  next
    case False
    then have "node_states v (pg v n) \<noteq> None" if "n < v_NodeCount v"
      using that virtual_iff(1) [OF v, of "pg v n"] by (auto simp: pg_def v_NodeCount_def)
    then show ?thesis using False by (auto simp: rest_def base_def)
  qed
  have loop: "foldM (\<lambda>i out. do { pg \<leftarrow> idx (GraphIDs (v_base v)) i; Some (if deltaOverridden v pg then out else out @ [i]) }) base delta = Some (delta @ rest)"
  proof -
    have over: "deltaOverridden v pg \<longleftrightarrow> node_states v pg \<noteq> None" for pg
      by (simp add: deltaOverridden_def merged_Some [OF True] ns)
    have "foldM (\<lambda>i out. do { pg \<leftarrow> idx (GraphIDs (v_base v)) i; Some (if deltaOverridden v pg then out else out @ [i]) }) xs acc =
        Some (acc @ filter (\<lambda>i. node_states v (GraphIDs (v_base v) ! i) = None) xs)" if "\<forall>i \<in> set xs. i < ?b" for xs acc
      using that by (induction xs arbitrary: acc) (auto simp: over NodeCount_def)
    then show ?thesis unfolding rest_def by (auto simp: base_def)
  qed
  let ?all = "filter (has_oid v oid) [0..<v_NodeCount v]"
  have "distinct (delta @ rest)" using dd din rin by (auto simp: rest_def base_def)
  moreover have "set (delta @ rest) = set ?all" using din rin by auto
  ultimately have sorted: "sort (delta @ rest) = ?all"
    by (intro sorted_distinct_set_unique) (auto simp: sorted_wrt_filter)
  have empty: "delta @ rest = [] \<longleftrightarrow> ?all = []" using \<open>set (delta @ rest) = set ?all\<close> by (metis set_empty)
  have "v_NodesByObjectID v oid = Some (if delta @ rest = [] then None else Some (sort (delta @ rest)))"
    using True loop base_oids(1) [OF v, of oid] merged_Some [OF True]
    by (simp add: v_NodesByObjectID_def base_def [symmetric] delta_def [symmetric])
  also have "\<dots> = Some (case ?all of [] \<Rightarrow> None | ids \<Rightarrow> Some ids)" unfolding sorted empty by (simp split: list.split)
  finally show ?thesis .
qed

section \<open>Kind bitmaps\<close>

definition has_kind :: "View \<Rightarrow> kindid \<Rightarrow> nodeid \<Rightarrow> bool" where
  "has_kind v k n \<longleftrightarrow> (case view_nodes v (pg v n) of Some (ks, bag) \<Rightarrow> k \<in> set ks | None \<Rightarrow> False)"

lemma base_kinds:
  assumes "view_wf v" and wf: "snap_wf (v_base v) out inn kr pr"
  shows "Bitset_invar (snap_NodesOfKind (v_base v) k)"
    and "Bitset_Has (snap_NodesOfKind (v_base v) k) n \<longleftrightarrow> n < NodeCount (v_base v) \<and> k \<in> set (kr n)"
proof -
  have "bitmaps_hold (NodeCount (v_base v)) (\<lambda>i. if i < NodeCount (v_base v) then set (kr i) else {}) (kindBitmaps (v_base v))"
    using wf by (simp add: snap_wf_def)
  from this [unfolded bitmaps_hold_def, THEN spec, of k] have "case map_of (kindBitmaps (v_base v)) k of
      Some bm \<Rightarrow> Bitset_invar bm \<and> (\<forall>i. Bitset_Has bm i \<longleftrightarrow> k \<in> (if i < NodeCount (v_base v) then set (kr i) else {}))
    | None \<Rightarrow> (\<forall>i. k \<notin> (if i < NodeCount (v_base v) then set (kr i) else {}))"
    by (cases "map_of (kindBitmaps (v_base v)) k") (simp_all only: option.case, blast+)
  then show "Bitset_invar (snap_NodesOfKind (v_base v) k)"
    "Bitset_Has (snap_NodesOfKind (v_base v) k) n \<longleftrightarrow> n < NodeCount (v_base v) \<and> k \<in> set (kr n)"
    using bs.has_fresh [of 0 n] by (auto simp: snap_NodesOfKind_def split: option.splits if_splits)
qed

lemma fold_skip: "fold (\<lambda>x b. if P x then b else f x b) xs b = fold f (filter (\<lambda>x. \<not> P x) xs) b"
  by (induction xs arbitrary: b) auto

lemma fold_map_filter: "fold (\<lambda>x b. case f x of Some y \<Rightarrow> g y b | None \<Rightarrow> b) xs b = fold g (List.map_filter f xs) b"
  by (induction xs arbitrary: b) (auto simp: map_filter_simps split: option.split)

lemma NodesOfKind_exact:
  assumes v: "view_wf v"
  shows "Bitset_Has (NodesOfKind v k) n \<longleftrightarrow> n < v_NodeCount v \<and> has_kind v k n" and "Bitset_invar (NodesOfKind v k)"
proof -
  obtain out inn kr pr where wf: "snap_wf (v_base v) out inn kr pr" using v unfolding view_wf_def snap_ok_def by blast
  let ?b = "NodeCount (v_base v)"
  note bk = base_kinds [OF v wf]
  have nkind: "has_kind v k m \<longleftrightarrow> k \<in> set (kr m)" if "m < ?b" "node_states v (pg v m) = None" for m
    using that base_node [OF v wf that(1)] by (simp add: has_kind_def view_nodes_def apply_nodes_def pg_def)
  have skind: "has_kind v k m \<longleftrightarrow> \<not> Tombstoned st \<and> k \<in> set (KindIDs st)" if "node_states v (pg v m) = Some st" for m st
    using that by (simp add: has_kind_def view_nodes_def apply_nodes_def st_desc_def)
  have "(Bitset_Has (NodesOfKind v k) n \<longleftrightarrow> n < v_NodeCount v \<and> has_kind v k n) \<and> Bitset_invar (NodesOfKind v k)"
  proof (cases "Overlay v")
    case False
    have "v_NodeCount v = ?b" using not_overlay [OF False] by (simp add: v_NodeCount_def virtualPgIDs_def)
    then show ?thesis using False bk nkind not_overlay [OF False] by (auto simp: NodesOfKind_def)
  next
    case True
    define ids1 where "ids1 = filter (\<lambda>i. override v i = None) (Bitset_Iterate (snap_NodesOfKind (v_base v) k))"
    define ids2 where "ids2 = List.map_filter (\<lambda>p. v_Dense v (fst p)) (filter (\<lambda>p. \<not> (Tombstoned (snd p) \<or> \<not> containsKindID (KindIDs (snd p)) k)) (merged_nodes v))"
    have build: "buildKindBitmap v k = fold (\<lambda>i b. Bitset_Set b i) (ids1 @ ids2) (NewBitset (v_NodeCount v))"
      unfolding buildKindBitmap_def Let_def ids1_def ids2_def case_prod_unfold fold_append comp_apply
        fold_skip [of "\<lambda>i. override v i \<noteq> None"] fold_skip [of "\<lambda>p. Tombstoned (snd p) \<or> \<not> containsKindID (KindIDs (snd p)) k"]
        fold_map_filter [where f = "\<lambda>p. v_Dense v (fst p)" and g = "\<lambda>i b. Bitset_Set b i", symmetric] by simp
    have sub: "m < v_NodeCount v" if "m < ?b" for m using that by (simp add: v_NodeCount_def)
    have in1: "m \<in> set ids1 \<longleftrightarrow> m < ?b \<and> node_states v (pg v m) = None \<and> k \<in> set (kr m)" for m
    proof -
      have "m \<in> set ids1 \<longleftrightarrow> Bitset_Has (snap_NodesOfKind (v_base v) k) m \<and> override v m = None"
        using bs.set_elems [OF bk(1) [of k]] by (simp add: ids1_def)
      then show ?thesis using bk(2) [of k m] override_eq [OF v, of m] sub [of m] by auto
    qed
    have in2: "m \<in> set ids2 \<longleftrightarrow> m < v_NodeCount v \<and> (\<exists>st. node_states v (pg v m) = Some st \<and> \<not> Tombstoned st \<and> k \<in> set (KindIDs st))" for m
    proof -
      have "m \<in> set ids2 \<longleftrightarrow> (\<exists>i st. (i, st) \<in> set (merged_nodes v) \<and> \<not> Tombstoned st \<and> k \<in> set (KindIDs st) \<and> v_Dense v i = Some m)"
        by (auto simp: ids2_def map_filter_pair_iff containsKindID_def list_ex_iff)
      then show ?thesis unfolding merged_iter(1) [OF v] Dense_iff(1) [OF v] by auto
    qed
    have virt: "node_states v (pg v m) \<noteq> None" if "\<not> m < ?b" "m < v_NodeCount v" for m
      using that virtual_iff(1) [OF v, of "pg v m"] by (auto simp: pg_def v_NodeCount_def)
    have le: "v_NodeCount v \<le> 2 ^ 32" using v by (simp add: view_wf_def)
    have rng: "\<forall>i \<in> set (ids1 @ ids2). i < v_NodeCount v" using in1 in2 sub by auto
    have "Bitset_Has (buildKindBitmap v k) n \<longleftrightarrow> n \<in> set (ids1 @ ids2)" unfolding build by (rule bs.fill_fresh [OF le rng])
    also have "\<dots> \<longleftrightarrow> n < v_NodeCount v \<and> has_kind v k n"
    proof (cases "node_states v (pg v n)")
      case None
      then have "n \<in> set (ids1 @ ids2) \<longleftrightarrow> n < ?b \<and> k \<in> set (kr n)" using in1 [of n] in2 [of n] by simp
      then show ?thesis using None nkind [of n] virt [of n] sub [of n] by blast
    next
      case (Some st)
      then show ?thesis using in1 [of n] in2 [of n] skind [OF Some] by auto
    qed
    finally show ?thesis using True bs.fill_fresh_invar [OF le, of "ids1 @ ids2"] by (simp add: NodesOfKind_def build)
  qed
  then show "Bitset_Has (NodesOfKind v k) n \<longleftrightarrow> n < v_NodeCount v \<and> has_kind v k n" "Bitset_invar (NodesOfKind v k)" by blast+
qed

end
