(* ===== verification/ViewEdges.thy ===== *)
theory ViewEdges
  imports ViewReads
begin

text \<open>
  Edges through a view: the iterations \<open>OutEdges\<close> and \<open>InEdges\<close> and the lookup \<open>EdgeStateByID\<close> give
  exactly the edges of the view's graph, each once; the two kind filters never deny an edge that exists.
\<close>

section \<open>Delta edges\<close>

lemma liveEdge_iff:
  assumes "view_wf v"
  shows "liveEdge v (i, st) = Some (s, e, k, j) \<longleftrightarrow> j = i \<and> k = eKind st \<and> \<not> eTombstoned st \<and> Alive v s \<and> Alive v e \<and>
    pg v s = StartID st \<and> pg v e = EndID st"
proof -
  have "liveEdge v (i, st) = Some (s, e, k, j) \<longleftrightarrow> j = i \<and> k = eKind st \<and> \<not> eTombstoned st \<and> Alive v s \<and> Alive v e \<and>
      v_Dense v (StartID st) = Some s \<and> v_Dense v (EndID st) = Some e"
    by (auto simp: liveEdge_def split: option.split)
  then show ?thesis unfolding Dense_iff(1) [OF assms] by (auto simp: Alive_def)
qed

lemma deltaEdges_iff:
  assumes "view_wf v"
  shows "(s, e, k, i) \<in> set (deltaEdges v) \<longleftrightarrow> (\<exists>st. edge_states v i = Some st \<and> k = eKind st \<and> \<not> eTombstoned st \<and>
    Alive v s \<and> Alive v e \<and> pg v s = StartID st \<and> pg v e = EndID st)"
  unfolding deltaEdges_def map_filter_pair_iff merged_iter(2) [OF assms] liveEdge_iff [OF assms] by auto

lemma deltaEdges_ids:
  assumes "view_wf v"
  shows "distinct (map (\<lambda>(s, e, k, i). i) (deltaEdges v))"
proof -
  have id: "(case x of (s, e, k, i) \<Rightarrow> i) = fst p" if "liveEdge v p = Some x" for p x
    using that liveEdge_iff [OF assms] by (cases p, cases x) auto
  have "distinct (map (\<lambda>(s, e, k, i). i) (List.map_filter (liveEdge v) ps)) \<and>
      set (map (\<lambda>(s, e, k, i). i) (List.map_filter (liveEdge v) ps)) \<subseteq> set (map fst ps)" if "distinct (map fst ps)" for ps
    using that
  proof (induction ps)
    case (Cons p ps)
    show ?case using Cons id [of p] by (cases "liveEdge v p") (auto simp: map_filter_simps)
  qed (simp add: map_filter_simps)
  moreover have "distinct (map fst (merged_edges v))" using merged_iter(4) [OF assms] strict_sorted_iff by blast
  ultimately show ?thesis unfolding deltaEdges_def by blast
qed

lemma pushEdge_lookup:
  "(case map_of (fold (\<lambda>x. pushEdge (key x) (val x)) xs m) n of None \<Rightarrow> [] | Some ys \<Rightarrow> ys) =
    (case map_of m n of None \<Rightarrow> [] | Some ys \<Rightarrow> ys) @ map val (filter (\<lambda>x. key x = n) xs)"
  by (induction xs arbitrary: m) (auto simp: pushEdge_def update_conv')

lemma delta_rows:
  "(case map_of (deltaOut v) n of None \<Rightarrow> [] | Some ds \<Rightarrow> ds) = map (\<lambda>(s, e, k, i). (e, k, i)) (filter (\<lambda>(s, _). s = n) (deltaEdges v))"
  "(case map_of (deltaIn v) n of None \<Rightarrow> [] | Some ds \<Rightarrow> ds) = map (\<lambda>(s, e, k, i). (s, k, i)) (filter (\<lambda>(s, e, _). e = n) (deltaEdges v))"
  using pushEdge_lookup [of fst "\<lambda>(s, e, k, i). (e, k, i)" "deltaEdges v" "[]" n]
    pushEdge_lookup [of "\<lambda>(s, e, _). e" "\<lambda>(s, e, k, i). (s, k, i)" "deltaEdges v" "[]" n]
  by (simp_all add: deltaOut_def deltaIn_def case_prod_unfold)

lemma delta_bits:
  assumes "view_wf v"
  shows "bits_has (deltaOutBits v) n \<longleftrightarrow> n \<in> set (map (\<lambda>(s, e, k, i). s) (deltaEdges v))"
    and "bits_has (deltaInBits v) n \<longleftrightarrow> n \<in> set (map (\<lambda>(s, e, k, i). e) (deltaEdges v))"
    and "set (bits_iterate (deltaOutBits v)) = set (map (\<lambda>(s, e, k, i). s) (deltaEdges v))"
    and "set (bits_iterate (deltaInBits v)) = set (map (\<lambda>(s, e, k, i). e) (deltaEdges v))"
proof -
  have le: "v_NodeCount v \<le> 2 ^ 32" using assms by (simp add: view_wf_def)
  have "\<forall>x \<in> set (map (\<lambda>(s, e, k, i). s) (deltaEdges v)). x < v_NodeCount v" "\<forall>x \<in> set (map (\<lambda>(s, e, k, i). e) (deltaEdges v)). x < v_NodeCount v"
    using deltaEdges_iff [OF assms] by (auto simp: Alive_def)
  note mb = markBits_has [OF le this(1)] markBits_has [OF le this(2)]
  show "bits_has (deltaOutBits v) n \<longleftrightarrow> n \<in> set (map (\<lambda>(s, e, k, i). s) (deltaEdges v))"
    "bits_has (deltaInBits v) n \<longleftrightarrow> n \<in> set (map (\<lambda>(s, e, k, i). e) (deltaEdges v))"
    "set (bits_iterate (deltaOutBits v)) = set (map (\<lambda>(s, e, k, i). s) (deltaEdges v))"
    "set (bits_iterate (deltaInBits v)) = set (map (\<lambda>(s, e, k, i). e) (deltaEdges v))"
    unfolding deltaOutBits_def deltaInBits_def by (rule mb)+
qed

lemma gated_rows:
  assumes "view_wf v"
  shows "(if bits_has (deltaOutBits v) n then (case map_of (deltaOut v) n of None \<Rightarrow> [] | Some ds \<Rightarrow> ds) else []) =
      map (\<lambda>(s, e, k, i). (e, k, i)) (filter (\<lambda>(s, _). s = n) (deltaEdges v))"
    and "(if bits_has (deltaInBits v) n then (case map_of (deltaIn v) n of None \<Rightarrow> [] | Some ds \<Rightarrow> ds) else []) =
      map (\<lambda>(s, e, k, i). (s, k, i)) (filter (\<lambda>(s, e, _). e = n) (deltaEdges v))"
  unfolding delta_rows delta_bits [OF assms] by (force simp: filter_empty_conv)+

section \<open>Base edges\<close>

lemma tomb_iff:
  assumes v: "view_wf v" and j: "j < EdgeCount (v_base v)"
  shows "bits_has (edgeTombSlots v) (u32 j) \<longleftrightarrow> edge_states v (OutEdgeIDs (v_base v) ! j) \<noteq> None"
    and "set (bits_iterate (edgeTombSlots v)) = {j. j < EdgeCount (v_base v) \<and> edge_states v (OutEdgeIDs (v_base v) ! j) \<noteq> None}"
proof -
  obtain out inn kr pr where wf: "snap_wf (v_base v) out inn kr pr" using v unfolding view_wf_def snap_ok_def by blast
  have rep: "snap_rep (v_base v) out inn" using wf by (simp add: snap_wf_def)
  note by_id = EdgeByID_iff [OF rep base_facts(5) [OF v]]
  let ?ids = "List.map_filter (\<lambda>(i, _). map_option u32 (EdgeByID (v_base v) i)) (merged_edges v)"
  have u: "u32 m = m" if "m < EdgeCount (v_base v)" for m using that base_facts(3) [OF v] by (intro u32_id) simp
  have mem: "m \<in> set ?ids \<longleftrightarrow> m < EdgeCount (v_base v) \<and> edge_states v (OutEdgeIDs (v_base v) ! m) \<noteq> None" for m
  proof -
    have "m \<in> set ?ids \<longleftrightarrow> (\<exists>i st. (i, st) \<in> set (merged_edges v) \<and> (\<exists>m'. EdgeByID (v_base v) i = Some m' \<and> u32 m' = m))"
      by (auto simp: map_filter_pair_iff)
    also have "\<dots> \<longleftrightarrow> (\<exists>m' < EdgeCount (v_base v). edge_states v (OutEdgeIDs (v_base v) ! m') \<noteq> None \<and> u32 m' = m)"
      unfolding merged_iter(2) [OF v] by_id by auto
    finally show ?thesis using u by auto
  qed
  have "\<forall>i \<in> set ?ids. i < EdgeCount (v_base v)" using mem by blast
  note mb = markBits_has [OF less_imp_le [OF base_facts(3) [OF v]] this]
  show "bits_has (edgeTombSlots v) (u32 j) \<longleftrightarrow> edge_states v (OutEdgeIDs (v_base v) ! j) \<noteq> None"
    using mb(1) [of "u32 j"] mem [of j] u [OF j] j by (simp add: edgeTombSlots_def)
  show "set (bits_iterate (edgeTombSlots v)) = {j. j < EdgeCount (v_base v) \<and> edge_states v (OutEdgeIDs (v_base v) ! j) \<noteq> None}"
    using mb(3) mem by (auto simp: edgeTombSlots_def)
qed

lemma dead_target:
  assumes "view_wf v" and "t < v_NodeCount v"
  shows "bits_has (deadBits v) t \<longleftrightarrow> \<not> Alive v t"
  using deadBits_iff(1) [OF assms(1), of t] view_nodes_pg [OF assms] Alive_iff [OF assms(1), of t] assms(2) by blast

lemma concat_row:
  assumes "n < m"
  shows "concat (map (\<lambda>i. g (slots_of b m ! i)) [row_start b n..<row_start b (Suc n)]) = concat (map g (b n))"
proof -
  have "[row_start b n..<row_start b (Suc n)] = map (\<lambda>l. row_start b n + l) [0..<length (b n)]"
    by (simp add: map_add_upt add.commute)
  then have "map (\<lambda>i. g (slots_of b m ! i)) [row_start b n..<row_start b (Suc n)] = map (\<lambda>l. g (b n ! l)) [0..<length (b n)]"
    using slots_nth [OF assms, of _ b] by simp
  also have "\<dots> = map g (b n)" by (rule nth_equalityI) auto
  finally show ?thesis by simp
qed

lemma concat_filter: "concat (map (\<lambda>x. if P x then [h x] else []) xs) = map h (filter P xs)"
  by (induction xs) auto

lemma OutEdges_eq:
  assumes v: "view_wf v" and rep: "snap_rep (v_base v) out inn" and n: "Alive v n"
  shows "OutEdges v n = Some ((if n < NodeCount (v_base v) then filter (\<lambda>(t, k, e). edge_states v e = None \<and> Alive v t) (out n) else []) @
    map (\<lambda>(s, e, k, i). (e, k, i)) (filter (\<lambda>(s, _). s = n) (deltaEdges v)))"
proof (cases "n < NodeCount (v_base v)")
  case True
  let ?B = "v_base v" and ?N = "NodeCount (v_base v)"
  let ?step = "\<lambda>i acc. if bits_has (edgeTombSlots v) (u32 i) then Some acc
     else do { target \<leftarrow> idx (OutTargets ?B) i; if bits_has (deadBits v) target then Some acc
               else do { k \<leftarrow> idx (OutKinds ?B) i; e \<leftarrow> idx (OutEdgeIDs ?B) i; Some (acc @ [(target, k, e)]) } }"
  let ?g = "\<lambda>x. if edge_states v (snd (snd x)) = None \<and> Alive v (fst x) then [x] else []"
  have off: "OutOffsets ?B = map (row_start out) [0..<Suc ?N]" and arr: "OutTargets ?B = map fst (slots_of out ?N)"
      "OutKinds ?B = map (fst \<circ> snd) (slots_of out ?N)" "OutEdgeIDs ?B = map (snd \<circ> snd) (slots_of out ?N)"
    using rep unfolding snap_rep_def by blast+
  have ec: "EdgeCount ?B = row_start out ?N" by (simp add: EdgeCount_def arr)
  have step: "?step i acc = Some (acc @ ?g (slots_of out ?N ! i))" if i: "i \<in> set [row_start out n..<row_start out (Suc n)]" for i acc
  proof -
    have lt: "i < row_start out ?N" using i row_start_mono [of "Suc n" ?N out] True by auto
    obtain u l where ul: "u < ?N" "l < length (out u)" "i = row_start out u + l" by (rule rep_slot_row [OF rep]) (use lt ec in simp)
    have "fst (slots_of out ?N ! i) < ?N" using rep_slot(5) [OF rep ul(1,2)] slots_nth [where b = out, OF ul(1,2)] ul(3) by simp
    then have "bits_has (deadBits v) (fst (slots_of out ?N ! i)) \<longleftrightarrow> \<not> Alive v (fst (slots_of out ?N ! i))"
      by (intro dead_target [OF v]) (simp add: v_NodeCount_def)
    moreover have "bits_has (edgeTombSlots v) (u32 i) \<longleftrightarrow> edge_states v (snd (snd (slots_of out ?N ! i))) \<noteq> None"
      using tomb_iff(1) [OF v, of i] lt by (simp add: ec arr)
    ultimately show ?thesis using lt by (simp add: arr)
  qed
  have "idx (OutOffsets ?B) n = Some (row_start out n)" "idx (OutOffsets ?B) (n + 1) = Some (row_start out (Suc n))"
    using True by (simp_all add: off nth_append del: upt_Suc row_start_Suc)
  moreover have "foldM ?step [row_start out n..<row_start out (Suc n)] [] = Some (filter (\<lambda>(t, k, e). edge_states v e = None \<and> Alive v t) (out n))"
  proof -
    have "foldM ?step [row_start out n..<row_start out (Suc n)] [] =
        Some ([] @ concat (map (\<lambda>i. ?g (slots_of out ?N ! i)) [row_start out n..<row_start out (Suc n)]))"
      by (rule foldM_snoc_concat) (rule step)
    also have "\<dots> = Some (concat (map ?g (out n)))" unfolding concat_row [OF True, of ?g out] by simp
    finally show ?thesis unfolding concat_filter [of _ "\<lambda>x. x"] by (simp add: case_prod_unfold)
  qed
  ultimately show ?thesis using n True gated_rows(1) [OF v, of n] by (simp add: OutEdges_def del: row_start_Suc)
next
  case False
  then show ?thesis using n gated_rows(1) [OF v, of n] by (simp add: OutEdges_def)
qed

lemma InEdges_eq:
  assumes v: "view_wf v" and rep: "snap_rep (v_base v) out inn" and n: "Alive v n"
  shows "InEdges v n = Some ((if n < NodeCount (v_base v)
      then map (\<lambda>(u, k, j). (u, k, OutEdgeIDs (v_base v) ! j)) (filter (\<lambda>(u, k, j). edge_states v (OutEdgeIDs (v_base v) ! j) = None \<and> Alive v u) (inn n))
      else []) @ map (\<lambda>(s, e, k, i). (s, k, i)) (filter (\<lambda>(s, e, _). e = n) (deltaEdges v)))"
proof (cases "n < NodeCount (v_base v)")
  case True
  let ?B = "v_base v" and ?N = "NodeCount (v_base v)"
  let ?step = "\<lambda>i acc. do { fwdIdx \<leftarrow> idx (InEdgeIdx ?B) i;
     if bits_has (edgeTombSlots v) (u32 fwdIdx) then Some acc
     else do { source \<leftarrow> idx (InTargets ?B) i; if bits_has (deadBits v) source then Some acc
               else do { k \<leftarrow> idx (InKinds ?B) i; e \<leftarrow> idx (OutEdgeIDs ?B) fwdIdx; Some (acc @ [(source, k, e)]) } } }"
  let ?P = "\<lambda>x. edge_states v (OutEdgeIDs ?B ! snd (snd x)) = None \<and> Alive v (fst x)" and ?h = "\<lambda>x. (fst x, fst (snd x), OutEdgeIDs ?B ! snd (snd x))"
  let ?g = "\<lambda>x. if ?P x then [?h x] else []"
  have off: "InOffsets ?B = map (row_start inn) [0..<Suc ?N]" and arr: "InTargets ?B = map fst (slots_of inn ?N)"
      "InKinds ?B = map (fst \<circ> snd) (slots_of inn ?N)" "InEdgeIdx ?B = map (snd \<circ> snd) (slots_of inn ?N)" and agree: "rows_agree ?N out inn"
    using rep unfolding snap_rep_def by blast+
  have oids: "length (OutEdgeIDs ?B) = EdgeCount ?B" using rep unfolding snap_rep_def EdgeCount_def by (metis length_map)
  have step: "?step i acc = Some (acc @ ?g (slots_of inn ?N ! i))" if i: "i \<in> set [row_start inn n..<row_start inn (Suc n)]" for i acc
  proof -
    obtain l where l: "l < length (inn n)" "i = row_start inn n + l" using i by (auto simp: nat_le_iff_add)
    let ?x = "slots_of inn ?N ! i"
    have x: "?x = inn n ! l" using slots_nth [where b = inn, OF True l(1)] l(2) by simp
    have lt: "i < row_start inn ?N" using i row_start_mono [of "Suc n" ?N inn] True by auto
    have "(fst ?x, fst (snd ?x), snd (snd ?x)) \<in> set (inn n)" using l(1) x by simp
    then obtain l' where s: "fst ?x < ?N" "l' < length (out (fst ?x))" "snd (snd ?x) = row_start out (fst ?x) + l'"
      using agree True unfolding rows_agree_def by blast
    note slot = rep_slot(1) [OF rep s(1,2)]
    have "bits_has (deadBits v) (fst ?x) \<longleftrightarrow> \<not> Alive v (fst ?x)" using s(1) by (intro dead_target [OF v]) (simp add: v_NodeCount_def)
    moreover have "bits_has (edgeTombSlots v) (u32 (snd (snd ?x))) \<longleftrightarrow> edge_states v (OutEdgeIDs ?B ! snd (snd ?x)) \<noteq> None"
      using tomb_iff(1) [OF v] slot s(3) by simp
    ultimately show ?thesis using lt slot s(3) oids by (simp add: arr)
  qed
  have "idx (InOffsets ?B) n = Some (row_start inn n)" "idx (InOffsets ?B) (n + 1) = Some (row_start inn (Suc n))"
    using True by (simp_all add: off nth_append del: upt_Suc row_start_Suc)
  moreover have "foldM ?step [row_start inn n..<row_start inn (Suc n)] [] = Some (map ?h (filter ?P (inn n)))"
  proof -
    have "foldM ?step [row_start inn n..<row_start inn (Suc n)] [] =
        Some ([] @ concat (map (\<lambda>i. ?g (slots_of inn ?N ! i)) [row_start inn n..<row_start inn (Suc n)]))"
      by (rule foldM_snoc_concat) (rule step)
    also have "\<dots> = Some (concat (map ?g (inn n)))" unfolding concat_row [OF True, of ?g inn] by simp
    finally show ?thesis unfolding concat_filter .
  qed
  ultimately show ?thesis using n True gated_rows(2) [OF v, of n] by (simp add: InEdges_def case_prod_unfold del: row_start_Suc)
next
  case False
  then show ?thesis using n gated_rows(2) [OF v, of n] by (simp add: InEdges_def)
qed

section \<open>The edges of the graph\<close>

lemma view_edges_iff:
  "view_edges v e = Some (a, b, k) \<longleftrightarrow> a \<in> dom (view_nodes v) \<and> b \<in> dom (view_nodes v) \<and>
    (case edge_states v e of None \<Rightarrow> snap_edge (v_base v) e = Some (a, b, k)
     | Some st \<Rightarrow> \<not> eTombstoned st \<and> a = StartID st \<and> b = EndID st \<and> k = eKind st)"
  by (auto simp: view_edges_def both_in_Some view_raw_def apply_edges_def split: option.split)

lemma delta_view_edges:
  assumes v: "view_wf v" and s: "s < v_NodeCount v" and t: "t < v_NodeCount v" and st: "edge_states v e \<noteq> None"
  shows "view_edges v e = Some (pg v s, pg v t, k) \<longleftrightarrow> (s, t, k, e) \<in> set (deltaEdges v)"
proof -
  have "Alive v s \<longleftrightarrow> pg v s \<in> dom (view_nodes v)" "Alive v t \<longleftrightarrow> pg v t \<in> dom (view_nodes v)"
    using Alive_iff [OF v] s t by auto
  then show ?thesis using st unfolding view_edges_iff deltaEdges_iff [OF v] by auto
qed

lemma base_view_edges:
  assumes v: "view_wf v" and rep: "snap_rep (v_base v) out inn" and s: "s < v_NodeCount v" and t: "t < v_NodeCount v" and st: "edge_states v e = None"
  shows "view_edges v e = Some (pg v s, pg v t, k) \<longleftrightarrow> s < NodeCount (v_base v) \<and> (t, k, e) \<in> set (out s) \<and> Alive v s \<and> Alive v t"
proof -
  let ?B = "v_base v" and ?N = "NodeCount (v_base v)"
  have alive: "Alive v s \<longleftrightarrow> pg v s \<in> dom (view_nodes v)" "Alive v t \<longleftrightarrow> pg v t \<in> dom (view_nodes v)"
    using Alive_iff [OF v] s t by auto
  have base: "pg v m = GraphIDs ?B ! u \<longleftrightarrow> m = u" if "m < v_NodeCount v" "u < ?N" for m u
    using pg_inj [OF v, of m u] that by (simp add: v_NodeCount_def pg_def)
  have tgt: "t' < ?N" if "u < ?N" "(t', k, e) \<in> set (out u)" for u t' using rep that unfolding snap_rep_def by fastforce
  have "snap_edge ?B e = Some (pg v s, pg v t, k) \<longleftrightarrow>
      (\<exists>u t'. u < ?N \<and> (t', k, e) \<in> set (out u) \<and> pg v s = GraphIDs ?B ! u \<and> pg v t = GraphIDs ?B ! t')"
    by (rule snap_edge_iff [OF rep base_facts(5) [OF v]])
  also have "\<dots> \<longleftrightarrow> s < ?N \<and> (t, k, e) \<in> set (out s)" using base [OF s] base [OF t] tgt by blast
  finally show ?thesis using st alive unfolding view_edges_iff by auto
qed

text \<open>Both ends of a visible edge have dense ids.\<close>

lemma view_edges_dense:
  assumes "view_wf v" and "view_edges v e = Some (a, b, k)"
  obtains s t where "s < v_NodeCount v" "t < v_NodeCount v" "a = pg v s" "b = pg v t" "Alive v s" "Alive v t"
proof -
  have d: "view_nodes v a \<noteq> None" "view_nodes v b \<noteq> None" using assms(2) unfolding view_edges_iff by auto
  obtain s where s: "s < v_NodeCount v" "pg v s = a" by (rule Dense_dom [OF assms(1) d(1)])
  obtain t where t: "t < v_NodeCount v" "pg v t = b" by (rule Dense_dom [OF assms(1) d(2)])
  show ?thesis using that [of s t] s t d Alive_iff [OF assms(1)] by auto
qed

lemma OutEdges_exact:
  assumes v: "view_wf v" and n: "n < v_NodeCount v"
  shows "ok (OutEdges v n) (\<lambda>es. distinct (map (snd \<circ> snd) es) \<and>
    (\<forall>t k e. (t, k, e) \<in> set es \<longleftrightarrow> t < v_NodeCount v \<and> view_edges v e = Some (pg v n, pg v t, k)))"
proof (cases "Alive v n")
  case False
  then have "pg v n \<notin> dom (view_nodes v)" using Alive_iff [OF v] n by auto
  then show ?thesis using False by (auto simp: OutEdges_def view_edges_iff)
next
  case True
  obtain out inn kr pr where wf: "snap_wf (v_base v) out inn kr pr" using v unfolding view_wf_def snap_ok_def by blast
  have rep: "snap_rep (v_base v) out inn" using wf by (simp add: snap_wf_def)
  let ?N = "NodeCount (v_base v)"
  let ?base = "if n < ?N then filter (\<lambda>(t, k, e). edge_states v e = None \<and> Alive v t) (out n) else []"
  let ?delta = "map (\<lambda>(s, e, k, i). (e, k, i)) (filter (\<lambda>(s, _). s = n) (deltaEdges v))"
  have del: "(t, k, e) \<in> set ?delta \<longleftrightarrow> (n, t, k, e) \<in> set (deltaEdges v)" for t k e by force
  have dst: "edge_states v e \<noteq> None \<and> t < v_NodeCount v" if "(n, t, k, e) \<in> set (deltaEdges v)" for t k e
    using that unfolding deltaEdges_iff [OF v] by (auto simp: Alive_def)
  have tgt: "t < v_NodeCount v" if "n < ?N" "(t, k, e) \<in> set (out n)" for t k e
    using rep that unfolding snap_rep_def v_NodeCount_def by fastforce
  have mem: "(t, k, e) \<in> set (?base @ ?delta) \<longleftrightarrow> t < v_NodeCount v \<and> view_edges v e = Some (pg v n, pg v t, k)" for t k e
  proof (cases "edge_states v e")
    case None
    then have "(t, k, e) \<notin> set ?delta" using del dst by blast
    moreover have "(t, k, e) \<in> set ?base \<longleftrightarrow> n < ?N \<and> (t, k, e) \<in> set (out n) \<and> Alive v t" using None by simp
    ultimately show ?thesis using base_view_edges [OF v rep n _ None, of t k] tgt [of t k e] True by auto
  next
    case (Some st)
    then have "(t, k, e) \<notin> set ?base" by simp
    then show ?thesis using del [of t k e] delta_view_edges [OF v n, of t e k] Some dst [of t k e] by auto
  qed
  have "distinct (map (snd \<circ> snd) ?base)"
  proof (cases "n < ?N")
    case True
    have "OutEdgeIDs (v_base v) = map (snd \<circ> snd) (slots_of out ?N)" using rep unfolding snap_rep_def by blast
    then have "distinct (map (snd \<circ> snd) (slots_of out ?N))" using base_facts(5) [OF v] by simp
    then have "distinct (map (snd \<circ> snd) (out n))" using True unfolding slots_of_def map_concat distinct_concat_iff by auto
    then show ?thesis using True by (simp add: distinct_map_filter_list)
  qed simp
  moreover have "distinct (map (snd \<circ> snd) ?delta)"
    using deltaEdges_ids [OF v] by (simp add: case_prod_unfold comp_def distinct_map_filter_list)
  moreover have "set (map (snd \<circ> snd) ?base) \<inter> set (map (snd \<circ> snd) ?delta) = {}"
    using dst by (fastforce simp: case_prod_unfold)
  ultimately show ?thesis unfolding OutEdges_eq [OF v rep True] ok_Some using mem by (simp only: map_append distinct_append simp_thms)
qed

lemma in_row_iff:
  assumes rep: "snap_rep s out inn" and n: "n < NodeCount s"
  shows "(u, k, j) \<in> set (inn n) \<longleftrightarrow> u < NodeCount s \<and>
      (\<exists>l < length (out u). j = row_start out u + l \<and> fst (out u ! l) = n \<and> fst (snd (out u ! l)) = k)"
    and "distinct (inn n)"
proof -
  have "rows_agree (NodeCount s) out inn" using rep unfolding snap_rep_def by blast
  note agree = this [unfolded rows_agree_def, rule_format, OF n]
  show "(u, k, j) \<in> set (inn n) \<longleftrightarrow> u < NodeCount s \<and>
      (\<exists>l < length (out u). j = row_start out u + l \<and> fst (out u ! l) = n \<and> fst (snd (out u ! l)) = k)"
    by (rule agree [THEN conjunct2, rule_format])
  show "distinct (inn n)" by (rule agree [THEN conjunct1])
qed

lemma in_row_edge:
  assumes rep: "snap_rep s out inn" and n: "n < NodeCount s"
  shows "(\<exists>j. (u, k, j) \<in> set (inn n) \<and> OutEdgeIDs s ! j = e) \<longleftrightarrow> u < NodeCount s \<and> (n, k, e) \<in> set (out u)"
proof -
  have "(\<exists>j. (u, k, j) \<in> set (inn n) \<and> OutEdgeIDs s ! j = e) \<longleftrightarrow>
      u < NodeCount s \<and> (\<exists>l < length (out u). fst (out u ! l) = n \<and> fst (snd (out u ! l)) = k \<and> OutEdgeIDs s ! (row_start out u + l) = e)"
    unfolding in_row_iff(1) [OF rep n] by auto
  also have "\<dots> \<longleftrightarrow> u < NodeCount s \<and> (\<exists>l < length (out u). out u ! l = (n, k, e))"
    using rep_slot(4) [OF rep] by (auto simp: prod_eq_iff)
  finally show ?thesis by (auto simp: in_set_conv_nth)
qed

lemma in_row_ids:
  assumes rep: "snap_rep s out inn" and d: "distinct (OutEdgeIDs s)" and n: "n < NodeCount s"
  shows "distinct (map (\<lambda>(u, k, j). OutEdgeIDs s ! j) (inn n))"
proof -
  have slot: "u < NodeCount s \<and> (\<exists>l < length (out u). j = row_start out u + l \<and> k = fst (snd (out u ! l)))" if "(u, k, j) \<in> set (inn n)" for u k j
    using that unfolding in_row_iff(1) [OF rep n] by auto
  have len: "length (OutEdgeIDs s) = EdgeCount s" using rep unfolding snap_rep_def EdgeCount_def by (metis length_map)
  have "x = y" if xy: "x \<in> set (inn n)" "y \<in> set (inn n)" "(\<lambda>(u, k, j). OutEdgeIDs s ! j) x = (\<lambda>(u, k, j). OutEdgeIDs s ! j) y" for x y
  proof -
    obtain u k j where x: "x = (u, k, j)" by (cases x) auto
    obtain u' k' j' where y: "y = (u', k', j')" by (cases y) auto
    obtain l where l: "u < NodeCount s" "l < length (out u)" "j = row_start out u + l" "k = fst (snd (out u ! l))" using slot xy(1) x by blast
    obtain l' where l': "u' < NodeCount s" "l' < length (out u')" "j' = row_start out u' + l'" "k' = fst (snd (out u' ! l'))" using slot xy(2) y by blast
    have "j < EdgeCount s" "j' < EdgeCount s" using rep_slot(1) [OF rep l(1,2)] rep_slot(1) [OF rep l'(1,2)] l l' by auto
    then have "j = j'" using xy(3) x y d len by (simp add: nth_eq_iff_index_eq)
    then have "u = u' \<and> l = l'" using row_slot_eq [OF l(1,2) l'(1,2)] l(3) l'(3) by simp
    then show ?thesis using x y l l' by simp
  qed
  then show ?thesis using in_row_iff(2) [OF rep n] by (simp add: distinct_map inj_on_def)
qed

lemma InEdges_exact:
  assumes v: "view_wf v" and n: "n < v_NodeCount v"
  shows "ok (InEdges v n) (\<lambda>es. distinct (map (snd \<circ> snd) es) \<and>
    (\<forall>u k e. (u, k, e) \<in> set es \<longleftrightarrow> u < v_NodeCount v \<and> view_edges v e = Some (pg v u, pg v n, k)))"
proof (cases "Alive v n")
  case False
  then have "pg v n \<notin> dom (view_nodes v)" using Alive_iff [OF v] n by auto
  then show ?thesis using False by (auto simp: InEdges_def view_edges_iff)
next
  case True
  obtain out inn kr pr where wf: "snap_wf (v_base v) out inn kr pr" using v unfolding view_wf_def snap_ok_def by blast
  have rep: "snap_rep (v_base v) out inn" using wf by (simp add: snap_wf_def)
  let ?N = "NodeCount (v_base v)" and ?id = "\<lambda>j. OutEdgeIDs (v_base v) ! j"
  let ?base = "if n < ?N then map (\<lambda>(u, k, j). (u, k, ?id j)) (filter (\<lambda>(u, k, j). edge_states v (?id j) = None \<and> Alive v u) (inn n)) else []"
  let ?delta = "map (\<lambda>(s, e, k, i). (s, k, i)) (filter (\<lambda>(s, e, _). e = n) (deltaEdges v))"
  have del: "(u, k, e) \<in> set ?delta \<longleftrightarrow> (u, n, k, e) \<in> set (deltaEdges v)" for u k e by force
  have dst: "edge_states v e \<noteq> None \<and> u < v_NodeCount v" if "(u, n, k, e) \<in> set (deltaEdges v)" for u k e
    using that unfolding deltaEdges_iff [OF v] by (auto simp: Alive_def)
  have bas: "(u, k, e) \<in> set ?base \<longleftrightarrow> edge_states v e = None \<and> n < ?N \<and> u < ?N \<and> (n, k, e) \<in> set (out u) \<and> Alive v u" for u k e
  proof (cases "n < ?N")
    case True
    have "(u, k, e) \<in> set ?base \<longleftrightarrow> edge_states v e = None \<and> Alive v u \<and> (\<exists>j. (u, k, j) \<in> set (inn n) \<and> ?id j = e)"
      using True by force
    then show ?thesis using in_row_edge [OF rep True, of u k e] True by blast
  qed simp
  have nbase: "n < ?N" if "u < ?N" "(n, k, e) \<in> set (out u)" for u k e
    using rep that unfolding snap_rep_def by fastforce
  have mem: "(u, k, e) \<in> set (?base @ ?delta) \<longleftrightarrow> u < v_NodeCount v \<and> view_edges v e = Some (pg v u, pg v n, k)" for u k e
  proof (cases "edge_states v e")
    case None
    then have "(u, k, e) \<notin> set ?delta" using del dst by blast
    moreover have "u < v_NodeCount v" if "u < ?N" using that by (simp add: v_NodeCount_def)
    ultimately show ?thesis using bas [of u k e] nbase [of u k e] base_view_edges [OF v rep _ n None, of u k] None True by auto
  next
    case (Some st)
    then have "(u, k, e) \<notin> set ?base" using bas by simp
    then show ?thesis using del [of u k e] delta_view_edges [OF v _ n, of u e k] Some dst [of u k e] by auto
  qed
  have "distinct (map (snd \<circ> snd) ?base)"
  proof (cases "n < ?N")
    case True
    from in_row_ids [OF rep base_facts(5) [OF v] True] show ?thesis using True
      by (simp add: comp_def case_prod_unfold distinct_map_filter_list)
  qed simp
  moreover have "distinct (map (snd \<circ> snd) ?delta)"
    using deltaEdges_ids [OF v] by (simp add: case_prod_unfold comp_def distinct_map_filter_list)
  moreover have "set (map (snd \<circ> snd) ?base) \<inter> set (map (snd \<circ> snd) ?delta) = {}"
    using dst by (fastforce simp: case_prod_unfold)
  ultimately show ?thesis unfolding InEdges_eq [OF v rep True] ok_Some using mem by (simp only: map_append distinct_append simp_thms)
qed

lemma EdgeStateByID_exact:
  assumes v: "view_wf v"
  shows "ok (EdgeStateByID v e) (\<lambda>r. map_option (\<lambda>(s, t, k). (pg v s, pg v t, k)) r = view_edges v e \<and>
    (\<forall>s t k. r = Some (s, t, k) \<longrightarrow> Alive v s \<and> Alive v t))"
proof -
  obtain out inn kr pr where wf: "snap_wf (v_base v) out inn kr pr" using v unfolding view_wf_def snap_ok_def by blast
  have rep: "snap_rep (v_base v) out inn" using wf by (simp add: snap_wf_def)
  have sel: "(if Overlay v then (case v_merged v of None \<Rightarrow> None | Some m \<Rightarrow> EdgeState m e) else None) = edge_states v e"
    using merged_state(2) [OF v, of e] not_overlay [of v] by auto
  show ?thesis
  proof (cases "edge_states v e")
    case (Some st)
    then have run: "EdgeStateByID v e = Some (map_option (\<lambda>(s, e, k, _). (s, e, k)) (liveEdge v (e, st)))"
      by (simp add: EdgeStateByID_def sel)
    show ?thesis
    proof (cases "liveEdge v (e, st)")
      case None
      have "view_edges v e = None"
      proof (rule ccontr)
        assume "view_edges v e \<noteq> None"
        then obtain a b k where ab: "view_edges v e = Some (a, b, k)" by (metis not_None_eq prod_cases3)
        then obtain s t where st: "a = pg v s" "b = pg v t" "Alive v s" "Alive v t" by (rule view_edges_dense [OF v])
        then have "liveEdge v (e, st) = Some (s, t, k, e)" using ab Some unfolding view_edges_iff liveEdge_iff [OF v] by simp
        then show False using None by simp
      qed
      then show ?thesis using run None by simp
    next
      case (Some x)
      obtain s t k j where x: "x = (s, t, k, j)" by (cases x) auto
      have le: "j = e" "k = eKind st" "\<not> eTombstoned st" "Alive v s" "Alive v t" "pg v s = StartID st" "pg v t = EndID st"
        using Some x liveEdge_iff [OF v] by blast+
      then have "view_edges v e = Some (pg v s, pg v t, k)"
        using \<open>edge_states v e = Some st\<close> Alive_iff [OF v] unfolding view_edges_iff by auto
      then show ?thesis using run Some x le by simp
    qed
  next
    case None
    show ?thesis
    proof (cases "EdgeByID (v_base v) e")
      case e: None
      then have "snap_edge (v_base v) e = None" by (simp add: snap_edge_def)
      then have "view_edges v e = None" using None by (simp add: view_edges_def both_in_def view_raw_def apply_edges_def)
      then show ?thesis using None e by (simp add: EdgeStateByID_def sel)
    next
      case (Some j)
      have j: "j < EdgeCount (v_base v)" "OutEdgeIDs (v_base v) ! j = e" using Some EdgeByID_iff [OF rep base_facts(5) [OF v]] by auto
      obtain u l where u: "u < NodeCount (v_base v)" "l < length (out u)" "j = row_start out u + l" by (rule rep_slot_row [OF rep j(1)])
      note slot = rep_slot [OF rep u(1,2)]
      let ?t = "fst (out u ! l)" and ?k = "fst (snd (out u ! l))"
      have row: "(?t, ?k, e) \<in> set (out u)" using slot(4) j(2) u by (metis nth_mem prod.collapse)
      have src: "sourceOfSlot (v_base v) j = u" using sourceOfSlot_row [OF rep u(1,2)] u(3) by simp
      have arr: "OutTargets (v_base v) ! j = ?t" "OutKinds (v_base v) ! j = ?k" "j < length (OutTargets (v_base v))" "j < length (OutKinds (v_base v))"
        using slot j(1) u(3) rep unfolding snap_rep_def EdgeCount_def by auto
      have lt: "u < v_NodeCount v" "?t < v_NodeCount v" using u(1) slot(5) by (simp_all add: v_NodeCount_def)
      have run: "EdgeStateByID v e = Some (if \<not> Alive v u \<or> \<not> Alive v ?t then None else Some (u, ?t, ?k))"
        using None Some src arr by (simp add: EdgeStateByID_def sel)
      have snap: "snap_edge (v_base v) e = Some (pg v u, pg v ?t, ?k)"
        using Some src arr u(1) slot(5) by (simp add: snap_edge_def pg_def)
      show ?thesis
      proof (cases "Alive v u \<and> Alive v ?t")
        case True
        then have "view_edges v e = Some (pg v u, pg v ?t, ?k)" using base_view_edges [OF v rep lt None, of ?k] row u(1) by blast
        then show ?thesis using run True by simp
      next
        case False
        then have "view_edges v e = None" using snap None lt Alive_iff [OF v] by (auto simp: view_edges_def both_in_def view_raw_def apply_edges_def)
        then show ?thesis using run False by auto
      qed
    qed
  qed
qed

section \<open>Kind filters\<close>

lemma raw_edge_cases:
  assumes "view_wf v" and "view_edges v e = Some (a, b, k)"
  shows "(\<exists>s st. s \<in> set (v_segments v) \<and> EdgeState s e = Some st \<and> \<not> eTombstoned st \<and> StartID st = a \<and> EndID st = b \<and> eKind st = k) \<or>
    snap_edge (v_base v) e = Some (a, b, k)"
proof (cases "edge_states v e")
  case (Some st)
  then obtain s where "find (\<lambda>s. EdgeState s e \<noteq> None) (rev (v_segments v)) = Some s" "EdgeState s e = Some st"
    using stacked_find [of EdgeState "v_segments v" e] by (auto simp: edge_states_def split: option.splits)
  then have "s \<in> set (v_segments v)" by (auto dest: find_SomeD)
  then show ?thesis using assms(2) Some \<open>EdgeState s e = Some st\<close> unfolding view_edges_iff by auto
qed (use assms(2) in \<open>simp add: view_edges_iff\<close>)

lemma EdgeKindPresent_sound:
  assumes v: "view_wf v" and e: "view_edges v e = Some (a, b, k)" and k: "kinds = [] \<or> k \<in> set kinds" and nonneg: "0 \<le> k"
  shows "EdgeKindPresent v kinds"
proof -
  obtain out inn kr pr where wf: "snap_wf (v_base v) out inn kr pr" using v unfolding view_wf_def snap_ok_def by blast
  have rep: "snap_rep (v_base v) out inn" using wf by (simp add: snap_wf_def)
  from raw_edge_cases [OF v e] show ?thesis
  proof (elim disjE exE conjE)
    fix s st assume "s \<in> set (v_segments v)" "EdgeState s e = Some st" "\<not> eTombstoned st" "eKind st = k"
    moreover have "seg_wf s" using \<open>s \<in> set (v_segments v)\<close> seg_wfs [OF v] by blast
    ultimately show ?thesis using k edgeKinds_iff [of s k] by (auto simp: EdgeKindPresent_def list_ex_iff)
  next
    assume "snap_edge (v_base v) e = Some (a, b, k)"
    then obtain j where "EdgeByID (v_base v) e = Some j" "k = OutKinds (v_base v) ! j" by (auto simp: snap_edge_def bind_eq_Some_conv)
    moreover have "length (OutKinds (v_base v)) = EdgeCount (v_base v)" using rep unfolding snap_rep_def EdgeCount_def by (metis length_map)
    ultimately have "k \<in> set (OutKinds (v_base v))" using EdgeByID_iff [OF rep base_facts(5) [OF v]] by (metis nth_mem)
    then have "hasEdgeKind (v_base v) k" using wf nonneg by (simp add: snap_wf_def)
    then show ?thesis using k by (auto simp: EdgeKindPresent_def list_ex_iff)
  qed
qed

lemma SelfLoopHazard_sound:
  assumes v: "view_wf v" and e: "view_edges v e = Some (a, a, k)" and k: "kinds = [] \<or> k \<in> set kinds"
  shows "SelfLoopHazard v kinds"
proof -
  obtain out inn kr pr where wf: "snap_wf (v_base v) out inn kr pr" using v unfolding view_wf_def snap_ok_def by blast
  have rep: "snap_rep (v_base v) out inn" using wf by (simp add: snap_wf_def)
  have admit: "setAdmitsSelfLoop loops kinds" if "k \<in> set loops" for loops
    using that k by (auto simp: setAdmitsSelfLoop_def list_ex_iff)
  from raw_edge_cases [OF v e] show ?thesis
  proof (elim disjE exE conjE)
    fix s st assume s: "s \<in> set (v_segments v)" "EdgeState s e = Some st" "\<not> eTombstoned st" "StartID st = a" "EndID st = a" "eKind st = k"
    moreover have "seg_wf s" using s(1) seg_wfs [OF v] by blast
    ultimately have "k \<in> set (selfLoopKinds s)" using selfLoopKinds_iff [of s k] by metis
    then show ?thesis using s(1) admit by (auto simp: SelfLoopHazard_def list_ex_iff)
  next
    assume "snap_edge (v_base v) e = Some (a, a, k)"
    then obtain u t where ut: "u < NodeCount (v_base v)" "(t, k, e) \<in> set (out u)" "a = GraphIDs (v_base v) ! u" "a = GraphIDs (v_base v) ! t"
      unfolding snap_edge_iff [OF rep base_facts(5) [OF v]] by blast
    have "t < NodeCount (v_base v)" using rep ut(1,2) unfolding snap_rep_def by fastforce
    then have "u = t" using base_facts(1) [OF v, of a] ut by (metis option.inject)
    then have "k \<in> set (sSelfLoopKinds (v_base v))" using wf ut unfolding snap_wf_def by fastforce
    then show ?thesis using admit by (auto simp: SelfLoopHazard_def)
  qed
qed

lemma DeltaHolds_exact:
  assumes v: "view_wf v"
  shows "DeltaHoldsOnlyUnresolvableEdges v \<longleftrightarrow> node_states v = Map.empty \<and> edge_states v \<noteq> Map.empty \<and>
    (\<forall>e st. edge_states v e = Some st \<longrightarrow> \<not> eTombstoned st \<and> view_edges v e = None)"
proof (cases "Overlay v")
  case True
  let ?m = "MergeSegments (v_segments v)"
  note ms = merged_Some [OF True] overlay_states [OF v True]
  have mwf: "seg_wf ?m" by (rule merge_maps(4) [OF seg_wfs [OF v]])
  have cnt: "seg_NodeCount ?m = 0 \<longleftrightarrow> node_states v = Map.empty" "seg_EdgeCount ?m = 0 \<longleftrightarrow> edge_states v = Map.empty"
    using seg_wf_ids(5,6) [OF mwf] ms by (auto simp: seg_NodeCount_def seg_EdgeCount_def dom_eq_empty_conv [symmetric] simp del: dom_eq_empty_conv)
  have live: "liveEdge v (e, st) = None \<longleftrightarrow> view_edges v e = None" if "edge_states v e = Some st" "\<not> eTombstoned st" for e st
    using EdgeStateByID_exact [OF v, of e] merged_state(2) [OF v, of e] that True
    by (auto simp: EdgeStateByID_def ms(1) split: option.splits)
  have "list_all (\<lambda>p. \<not> eTombstoned (snd p) \<and> liveEdge v p = None) (IterEdges ?m) \<longleftrightarrow>
      (\<forall>e st. edge_states v e = Some st \<longrightarrow> \<not> eTombstoned st \<and> liveEdge v (e, st) = None)"
    unfolding list_all_iff Ball_def split_paired_All IterEdges_iff [OF mwf] ms(3) by simp
  then show ?thesis using True ms(1) cnt live by (auto simp: DeltaHoldsOnlyUnresolvableEdges_def)
qed (use not_overlay [of v] in \<open>auto simp: DeltaHoldsOnlyUnresolvableEdges_def\<close>)

end
