(* ===== verification/ViewSlices.thy ===== *)
theory ViewSlices
  imports ViewEdges
begin

text \<open>
  The slice form of a view's adjacency, the second half of \<open>internal/engine/snapshot/view.go\<close>:
  \<open>CleanOut\<close> and \<open>CleanIn\<close> alias the base rows of nodes the delta leaves alone, and \<open>OutSlices\<close> and
  \<open>InSlices\<close> answer every other node from rows materialized once. They are proved equal to the
  iterations \<open>OutEdges\<close> and \<open>InEdges\<close> that they replace. In a result \<open>None\<close> is a panic and \<open>Some None\<close>
  the return with \<open>ok = false\<close>.
\<close>

section \<open>Operations\<close>

definition DegreeHint :: "View \<Rightarrow> nodeid \<Rightarrow> bool \<Rightarrow> nat option" where
  "DegreeHint v n outgoing =
     (if n \<ge> NodeCount (v_base v) then Some 0
      else let offsets = (if outgoing then OutOffsets (v_base v) else InOffsets (v_base v)) in
           do { lo \<leftarrow> idx offsets n; hi \<leftarrow> idx offsets (n + 1); Some (hi - lo) })"

definition setAll :: "nodeid list \<Rightarrow> bitset \<Rightarrow> bitset" where
  "setAll ids b = fold (\<lambda>i b. Bitset_Set b i) ids b"

definition markDead :: "Snapshot \<Rightarrow> nodeid \<Rightarrow> bitset \<times> bitset \<Rightarrow> (bitset \<times> bitset) option" where
  "markDead s d st = (case st of (out, inn) \<Rightarrow>
     if d \<ge> NodeCount s then Some (out, inn)
     else do { srcs \<leftarrow> row (InOffsets s) d (InTargets s); tgts \<leftarrow> row (OutOffsets s) d (OutTargets s);
               Some (setAll srcs (Bitset_Set out d), setAll tgts (Bitset_Set inn d)) })"

definition markSlot :: "Snapshot \<Rightarrow> nat \<Rightarrow> bitset \<times> bitset \<Rightarrow> (bitset \<times> bitset) option" where
  "markSlot s slot st = (case st of (out, inn) \<Rightarrow>
     do { t \<leftarrow> idx (OutTargets s) slot; Some (Bitset_Set out (sourceOfSlot s slot), Bitset_Set inn t) })"

definition dirtyAdjacency :: "View \<Rightarrow> (bitset option \<times> bitset option) option" where
  "dirtyAdjacency v =
     (case v_merged v of None \<Rightarrow> Some (None, None)
      | Some m \<Rightarrow>
          do { let n = NodeCount (v_base v);
               st1 \<leftarrow> foldM (markDead (v_base v)) (bits_iterate (deadBits v)) (NewBitset n, NewBitset n);
               (out, inn) \<leftarrow> foldM (markSlot (v_base v)) (bits_iterate (edgeTombSlots v)) st1;
               Some (Some (setAll (bits_iterate (deltaOutBits v)) out), Some (setAll (bits_iterate (deltaInBits v)) inn)) })"

definition baseSlices :: "nat list \<Rightarrow> nodeid list \<Rightarrow> kindid list \<Rightarrow> nodeid \<Rightarrow> ((nodeid list \<times> kindid list) option) option" where
  "baseSlices offsets nodes kinds n = do { ns \<leftarrow> row offsets n nodes; ks \<leftarrow> row offsets n kinds; Some (Some (ns, ks)) }"

definition CleanOut :: "View \<Rightarrow> nodeid \<Rightarrow> ((nodeid list \<times> kindid list) option) option" where
  "CleanOut v n =
     (if n \<ge> NodeCount (v_base v) then Some None
      else do { dirty \<leftarrow> (if Overlay v then map_option fst (dirtyAdjacency v) else Some None);
                if bits_has dirty n then Some None
                else baseSlices (OutOffsets (v_base v)) (OutTargets (v_base v)) (OutKinds (v_base v)) n })"

definition CleanIn :: "View \<Rightarrow> nodeid \<Rightarrow> ((nodeid list \<times> kindid list) option) option" where
  "CleanIn v n =
     (if n \<ge> NodeCount (v_base v) then Some None
      else do { dirty \<leftarrow> (if Overlay v then map_option snd (dirtyAdjacency v) else Some None);
                if bits_has dirty n then Some None
                else baseSlices (InOffsets (v_base v)) (InTargets (v_base v)) (InKinds (v_base v)) n })"

text \<open>The materialized rows. A row number is an int32.\<close>

definition i32 :: "int \<Rightarrow> int" where
  "i32 x = (x + 2 ^ 31) mod 2 ^ 32 - 2 ^ 31"

record mergedAdjacency =
  ma_row :: "int list"
  ma_offsets :: "nat list"
  ma_nodes :: "nodeid list"
  ma_kinds :: "kindid list"

definition ma_add :: "(nodeid \<Rightarrow> ((nodeid \<times> kindid \<times> pgid) list) option) \<Rightarrow> nodeid \<Rightarrow> mergedAdjacency \<Rightarrow> mergedAdjacency option" where
  "ma_add walk n m =
     do { rows \<leftarrow> upd (ma_row m) n (i32 (int (length (ma_offsets m)) - 1));
          es \<leftarrow> walk n;
          let nodes = ma_nodes m @ map fst es;
          Some \<lparr>ma_row = rows, ma_offsets = ma_offsets m @ [length nodes], ma_nodes = nodes,
                ma_kinds = ma_kinds m @ map (fst \<circ> snd) es\<rparr> }"

definition ma_build :: "nat \<Rightarrow> nat \<Rightarrow> bitset option \<Rightarrow> (nodeid \<Rightarrow> ((nodeid \<times> kindid \<times> pgid) list) option) \<Rightarrow> mergedAdjacency option" where
  "ma_build tot baseN dirty walk =
     do { m \<leftarrow> foldM (\<lambda>n m. if n < baseN then ma_add walk n m else Some m) (bits_iterate dirty)
                \<lparr>ma_row = replicate tot (-1), ma_offsets = [0], ma_nodes = [], ma_kinds = []\<rparr>;
          foldM (\<lambda>n. ma_add walk (u32 n)) [baseN..<tot] m }"

definition ma_get :: "mergedAdjacency \<Rightarrow> nodeid \<Rightarrow> ((nodeid list \<times> kindid list) option) option" where
  "ma_get m n =
     (if n \<ge> length (ma_row m) then Some None
      else let r = ma_row m ! n in
           if r < 0 then Some None else baseSlices (ma_offsets m) (ma_nodes m) (ma_kinds m) (nat r))"

definition mergedOut :: "View \<Rightarrow> mergedAdjacency option" where
  "mergedOut v = do { (out, _) \<leftarrow> dirtyAdjacency v; ma_build (v_NodeCount v) (NodeCount (v_base v)) out (OutEdges v) }"

definition mergedIn :: "View \<Rightarrow> mergedAdjacency option" where
  "mergedIn v = do { (_, inn) \<leftarrow> dirtyAdjacency v; ma_build (v_NodeCount v) (NodeCount (v_base v)) inn (InEdges v) }"

definition OutSlices :: "View \<Rightarrow> nodeid \<Rightarrow> ((nodeid list \<times> kindid list) option) option" where
  "OutSlices v n =
     do { c \<leftarrow> CleanOut v n;
          case c of Some x \<Rightarrow> Some (Some x)
          | None \<Rightarrow> if n \<ge> v_NodeCount v then Some None else do { m \<leftarrow> mergedOut v; ma_get m n } }"

definition InSlices :: "View \<Rightarrow> nodeid \<Rightarrow> ((nodeid list \<times> kindid list) option) option" where
  "InSlices v n =
     do { c \<leftarrow> CleanIn v n;
          case c of Some x \<Rightarrow> Some (Some x)
          | None \<Rightarrow> if n \<ge> v_NodeCount v then Some None else do { m \<leftarrow> mergedIn v; ma_get m n } }"

definition CleanOutSlots :: "View \<Rightarrow> nodeid \<Rightarrow> ((nat \<times> nat) option) option" where
  "CleanOutSlots v n =
     (if n \<ge> NodeCount (v_base v) then Some None
      else do { dirty \<leftarrow> (if Overlay v then map_option fst (dirtyAdjacency v) else Some None);
                if bits_has dirty n then Some None
                else do { lo \<leftarrow> idx (OutOffsets (v_base v)) n; hi \<leftarrow> idx (OutOffsets (v_base v)) (n + 1); Some (Some (lo, hi)) } })"

definition CleanInSlots :: "View \<Rightarrow> nodeid \<Rightarrow> ((nat \<times> nat) option) option" where
  "CleanInSlots v n =
     (if n \<ge> NodeCount (v_base v) then Some None
      else do { dirty \<leftarrow> (if Overlay v then map_option snd (dirtyAdjacency v) else Some None);
                if bits_has dirty n then Some None
                else do { lo \<leftarrow> idx (InOffsets (v_base v)) n; hi \<leftarrow> idx (InOffsets (v_base v)) (n + 1); Some (Some (lo, hi)) } })"

section \<open>The dirty sets\<close>

lemma setAll_append: "setAll (xs @ ys) b = setAll ys (setAll xs b)"
  by (simp add: setAll_def)

lemma setAll_Cons: "setAll ys (Bitset_Set b x) = setAll (x # ys) b"
  by (simp add: setAll_def)

text \<open>A loop whose step sets some bits in each of two sets.\<close>

lemma foldM_setAll:
  assumes "\<And>x ob i. x \<in> set xs \<Longrightarrow> f x (ob, i) = Some (setAll (g x) ob, setAll (h x) i)"
  shows "foldM f xs (ob, i) = Some (setAll (concat (map g xs)) ob, setAll (concat (map h xs)) i)"
  using assms by (induction xs arbitrary: ob i) (simp_all add: setAll_append, simp_all add: setAll_def)

definition dirtyOutList :: "View \<Rightarrow> (nat \<Rightarrow> (nodeid \<times> kindid \<times> nat) list) \<Rightarrow> nodeid list" where
  "dirtyOutList v inn = concat (map (\<lambda>d. if d < NodeCount (v_base v) then d # map fst (inn d) else []) (bits_iterate (deadBits v))) @
     map (sourceOfSlot (v_base v)) (bits_iterate (edgeTombSlots v)) @ bits_iterate (deltaOutBits v)"

definition dirtyInList :: "View \<Rightarrow> (nat \<Rightarrow> (nodeid \<times> kindid \<times> pgid) list) \<Rightarrow> nodeid list" where
  "dirtyInList v out = concat (map (\<lambda>d. if d < NodeCount (v_base v) then d # map fst (out d) else []) (bits_iterate (deadBits v))) @
     map (\<lambda>slot. OutTargets (v_base v) ! slot) (bits_iterate (edgeTombSlots v)) @ bits_iterate (deltaInBits v)"

lemma tomb_slots:
  "view_wf v \<Longrightarrow> set (bits_iterate (edgeTombSlots v)) = {j. j < EdgeCount (v_base v) \<and> edge_states v (OutEdgeIDs (v_base v) ! j) \<noteq> None}"
proof (cases "EdgeCount (v_base v)")
  case 0
  assume v: "view_wf v"
  obtain out inn kr pr where wf: "snap_wf (v_base v) out inn kr pr" using v unfolding view_wf_def snap_ok_def by blast
  have rep: "snap_rep (v_base v) out inn" using wf by (simp add: snap_wf_def)
  have "EdgeByID (v_base v) i = None" for i using EdgeByID_iff [OF rep base_facts(5) [OF v], of i] 0 by (metis less_nat_zero_code not_None_eq)
  then have "List.map_filter (\<lambda>(i, _). map_option u32 (EdgeByID (v_base v) i)) ps = []" for ps :: "(pgid \<times> EdgeSegState) list"
    by (induction ps) (auto simp: map_filter_simps)
  then show ?thesis using 0 by (simp add: edgeTombSlots_def markBits_def bits_iterate_def)
next
  case (Suc m)
  assume "view_wf v"
  then show ?thesis using tomb_iff(2) [of v 0] Suc by simp
qed

lemma dirtyAdjacency_eq:
  assumes v: "view_wf v" and rep: "snap_rep (v_base v) out inn" and o: "Overlay v"
  shows "dirtyAdjacency v = Some (Some (setAll (dirtyOutList v inn) (NewBitset (NodeCount (v_base v)))),
    Some (setAll (dirtyInList v out) (NewBitset (NodeCount (v_base v)))))"
proof -
  let ?B = "v_base v" and ?N = "NodeCount (v_base v)"
  let ?g = "\<lambda>d. if d < ?N then d # map fst (inn d) else []" and ?h = "\<lambda>d. if d < ?N then d # map fst (out d) else []"
  have arr: "OutOffsets ?B = map (row_start out) [0..<Suc ?N]" "OutTargets ?B = map fst (slots_of out ?N)"
      "InOffsets ?B = map (row_start inn) [0..<Suc ?N]" "InTargets ?B = map fst (slots_of inn ?N)"
    using rep unfolding snap_rep_def by blast+
  have dead: "markDead ?B d (ob, ib) = Some (setAll (?g d) ob, setAll (?h d) ib)" for d ob ib
  proof (cases "d < ?N")
    case True
    then show ?thesis using row_of_slots [OF True, of out fst] row_of_slots [OF True, of inn fst]
      by (simp add: markDead_def arr setAll_Cons del: upt_Suc)
  qed (simp add: markDead_def setAll_def)
  have slot: "markSlot ?B j (ob, ib) = Some (setAll [sourceOfSlot ?B j] ob, setAll [OutTargets ?B ! j] ib)"
    if "j \<in> set (bits_iterate (edgeTombSlots v))" for j ob ib
    using that tomb_slots [OF v] by (simp add: markSlot_def setAll_def EdgeCount_def)
  have single: "concat (map (\<lambda>x. [f x]) xs) = map f xs" for f :: "nat \<Rightarrow> nat" and xs by (induction xs) auto
  show ?thesis
    unfolding dirtyAdjacency_def merged_Some [OF o] option.case Let_def
      foldM_setAll [of "bits_iterate (deadBits v)" "markDead ?B" ?g ?h, OF dead]
    using foldM_setAll [of "bits_iterate (edgeTombSlots v)" "markSlot ?B" "\<lambda>j. [sourceOfSlot ?B j]" "\<lambda>j. [OutTargets ?B ! j]", OF slot]
    by (simp add: dirtyOutList_def dirtyInList_def setAll_append single)
qed

lemma setAll_has:
  assumes "n \<le> 2 ^ 32"
  shows "j < n \<Longrightarrow> j \<in> set ids \<Longrightarrow> Bitset_Has (setAll ids (NewBitset n)) j" and "Bitset_invar (setAll ids (NewBitset n))"
  using bs.fill_props [OF bs.invar_fresh [OF assms], of ids] bs.room_fresh [of n] unfolding setAll_def by fastforce+

text \<open>A node outside the dirty sets has its base row as its adjacency.\<close>

lemma clean_out:
  assumes v: "view_wf v" and rep: "snap_rep (v_base v) out inn" and n: "n < NodeCount (v_base v)" and c: "n \<notin> set (dirtyOutList v inn)"
  shows "OutEdges v n = Some (out n)"
proof -
  let ?N = "NodeCount (v_base v)"
  have dead_in: "d \<in> set (bits_iterate (deadBits v)) \<longleftrightarrow> d < v_NodeCount v \<and> \<not> Alive v d" for d
    using deadBits_iff [OF v] dead_target [OF v, of d] by auto
  have lt: "m < v_NodeCount v" if "m < ?N" for m using that by (simp add: v_NodeCount_def)
  have alive: "Alive v n"
  proof (rule ccontr)
    assume "\<not> Alive v n"
    then have "n \<in> set (bits_iterate (deadBits v))" using dead_in lt n by blast
    then show False using c n by (auto simp: dirtyOutList_def)
  qed
  have keep: "edge_states v e = None \<and> Alive v t" if x: "(t, k, e) \<in> set (out n)" for t k e
  proof -
    obtain l where l: "l < length (out n)" "out n ! l = (t, k, e)" using x by (auto simp: in_set_conv_nth)
    note slot = rep_slot [OF rep n l(1)]
    have tN: "t < ?N" using slot(5) l(2) by simp
    have "edge_states v e = None"
    proof (rule ccontr)
      assume "edge_states v e \<noteq> None"
      then have "row_start out n + l \<in> set (bits_iterate (edgeTombSlots v))" using tomb_slots [OF v] slot l(2) by simp
      then have "sourceOfSlot (v_base v) (row_start out n + l) \<in> set (dirtyOutList v inn)" by (auto simp: dirtyOutList_def)
      then show False using c sourceOfSlot_row [OF rep n l(1)] by simp
    qed
    moreover have "Alive v t"
    proof (rule ccontr)
      assume "\<not> Alive v t"
      then have "t \<in> set (bits_iterate (deadBits v))" using dead_in lt tN by blast
      moreover have "(n, k, row_start out n + l) \<in> set (inn t)" unfolding in_row_iff(1) [OF rep tN] using n l by auto
      then have "n \<in> set (if t < ?N then t # map fst (inn t) else [])" using tN by force
      ultimately have "n \<in> set (dirtyOutList v inn)" unfolding dirtyOutList_def set_append set_concat set_map by blast
      then show False using c by simp
    qed
    ultimately show ?thesis by simp
  qed
  have "filter (\<lambda>(t, k, e). edge_states v e = None \<and> Alive v t) (out n) = out n" using keep by (auto simp: filter_id_conv)
  moreover have "n \<notin> set (map (\<lambda>(s, e, k, i). s) (deltaEdges v))" using c delta_bits(3) [OF v] by (auto simp: dirtyOutList_def)
  then have "filter (\<lambda>(s, _). s = n) (deltaEdges v) = []" by (force simp: filter_empty_conv)
  ultimately show ?thesis using OutEdges_eq [OF v rep alive] n by simp
qed

lemma clean_in:
  assumes v: "view_wf v" and rep: "snap_rep (v_base v) out inn" and n: "n < NodeCount (v_base v)" and c: "n \<notin> set (dirtyInList v out)"
  shows "InEdges v n = Some (map (\<lambda>(u, k, j). (u, k, OutEdgeIDs (v_base v) ! j)) (inn n))"
proof -
  let ?N = "NodeCount (v_base v)" and ?id = "\<lambda>j. OutEdgeIDs (v_base v) ! j"
  have dead_in: "d \<in> set (bits_iterate (deadBits v)) \<longleftrightarrow> d < v_NodeCount v \<and> \<not> Alive v d" for d
    using deadBits_iff [OF v] dead_target [OF v, of d] by auto
  have lt: "m < v_NodeCount v" if "m < ?N" for m using that by (simp add: v_NodeCount_def)
  have alive: "Alive v n"
  proof (rule ccontr)
    assume "\<not> Alive v n"
    then have "n \<in> set (bits_iterate (deadBits v))" using dead_in lt n by blast
    then show False using c n by (auto simp: dirtyInList_def)
  qed
  have keep: "edge_states v (?id j) = None \<and> Alive v u" if x: "(u, k, j) \<in> set (inn n)" for u k j
  proof -
    obtain l where l: "u < ?N" "l < length (out u)" "j = row_start out u + l" "fst (out u ! l) = n"
      using x unfolding in_row_iff(1) [OF rep n] by blast
    note slot = rep_slot [OF rep l(1,2)]
    have "edge_states v (?id j) = None"
    proof (rule ccontr)
      assume "edge_states v (?id j) \<noteq> None"
      then have "j \<in> set (bits_iterate (edgeTombSlots v))" using tomb_slots [OF v] slot(1) l(3) by simp
      then have "OutTargets (v_base v) ! j \<in> set (dirtyInList v out)" by (auto simp: dirtyInList_def)
      then show False using c slot(2) l by simp
    qed
    moreover have "Alive v u"
    proof (rule ccontr)
      assume "\<not> Alive v u"
      then have "u \<in> set (bits_iterate (deadBits v))" using dead_in lt l(1) by blast
      moreover have "n \<in> set (map fst (out u))" using l(2,4) by (force simp: in_set_conv_nth)
      then have "n \<in> set (if u < ?N then u # map fst (out u) else [])" using l(1) by simp
      ultimately have "n \<in> set (dirtyInList v out)" unfolding dirtyInList_def set_append set_concat set_map by blast
      then show False using c by simp
    qed
    ultimately show ?thesis by simp
  qed
  have "filter (\<lambda>(u, k, j). edge_states v (?id j) = None \<and> Alive v u) (inn n) = inn n" using keep by (auto simp: filter_id_conv)
  moreover have "n \<notin> set (map (\<lambda>(s, e, k, i). e) (deltaEdges v))" using c delta_bits(4) [OF v] by (auto simp: dirtyInList_def)
  then have "filter (\<lambda>(s, e, _). e = n) (deltaEdges v) = []" by (force simp: filter_empty_conv)
  ultimately show ?thesis using InEdges_eq [OF v rep alive] n by simp
qed

section \<open>Materialized rows\<close>

definition ma_inv :: "nat \<Rightarrow> (nodeid \<Rightarrow> (nodeid \<times> kindid \<times> pgid) list) \<Rightarrow> nodeid list \<Rightarrow> mergedAdjacency \<Rightarrow> bool" where
  "ma_inv tot w ns m \<longleftrightarrow> length (ma_row m) = tot \<and> ma_offsets m = map (row_start (\<lambda>i. w (ns ! i))) [0..<Suc (length ns)] \<and>
     ma_nodes m = map fst (slots_of (\<lambda>i. w (ns ! i)) (length ns)) \<and> ma_kinds m = map (fst \<circ> snd) (slots_of (\<lambda>i. w (ns ! i)) (length ns)) \<and>
     (\<forall>i < length ns. ma_row m ! (ns ! i) = int i) \<and> (\<forall>x < tot. x \<notin> set ns \<longrightarrow> ma_row m ! x = -1)"

lemma i32_id: "0 \<le> x \<Longrightarrow> x < 2 ^ 31 \<Longrightarrow> i32 x = x"
  by (simp add: i32_def)

lemma ma_add_inv:
  assumes inv: "ma_inv tot w ns m" and n: "n < tot" "n \<notin> set ns" and walk: "walk n = Some (w n)" and len: "length ns < 2 ^ 31"
  shows "ok (ma_add walk n m) (ma_inv tot w (ns @ [n]))"
proof -
  let ?f = "\<lambda>i. w (ns ! i)" and ?g = "\<lambda>i. w ((ns @ [n]) ! i)" and ?l = "length ns"
  have off: "ma_offsets m = map (row_start ?f) [0..<Suc ?l]" using inv by (simp add: ma_inv_def)
  have i: "i32 (int (length (ma_offsets m)) - 1) = int ?l" using len by (simp add: off i32_id)
  have rs: "row_start ?g i = row_start ?f i" if "i \<le> ?l" for i using that by (intro row_start_cong) (simp add: nth_append)
  have sl: "slots_of ?g (Suc ?l) = slots_of ?f ?l @ w n"
  proof -
    have "map ?g [0..<?l] = map ?f [0..<?l]" by (intro map_cong) (auto simp: nth_append)
    then have "slots_of ?g ?l = slots_of ?f ?l" by (simp only: slots_of_def)
    then show ?thesis by (simp add: slots_of_Suc)
  qed
  have "map (row_start ?f) [0..<Suc ?l] @ [row_start ?f ?l + length (w n)] = map (row_start ?g) [0..<Suc (Suc ?l)]"
  proof -
    have "map (row_start ?f) [0..<Suc ?l] = map (row_start ?g) [0..<Suc ?l]" using rs by (intro map_cong) auto
    moreover have "row_start ?g (Suc ?l) = row_start ?f ?l + length (w n)" using rs [of ?l] by simp
    ultimately show ?thesis by (simp only: upt_Suc_append [of 0 "Suc ?l"] map_append list.map)
  qed
  then show ?thesis using inv n walk i sl by (auto simp: ma_add_def ma_inv_def nth_list_update nth_append less_Suc_eq off del: upt_Suc)
qed

lemma ma_fold_inv:
  assumes "ma_inv tot w ns m" and "distinct (ns @ ms)" and "\<forall>n \<in> set ms. n < tot \<and> walk n = Some (w n)" and "length (ns @ ms) \<le> 2 ^ 31"
  shows "ok (foldM (ma_add walk) ms m) (ma_inv tot w (ns @ ms))"
  using assms
proof (induction ms arbitrary: ns m)
  case (Cons n ms)
  have "ok (ma_add walk n m) (ma_inv tot w (ns @ [n]))" by (rule ma_add_inv) (use Cons.prems in auto)
  then obtain m' where m': "ma_add walk n m = Some m'" "ma_inv tot w (ns @ [n]) m'" by (auto simp: ok_iff)
  show ?case using Cons.IH [OF m'(2)] Cons.prems m'(1) by simp
qed simp

lemma ma_get_row:
  assumes inv: "ma_inv tot w ns m" and i: "n \<in> set ns" "n < tot"
  shows "ma_get m n = Some (Some (map fst (w n), map (fst \<circ> snd) (w n)))"
proof -
  let ?f = "\<lambda>i. w (ns ! i)" and ?l = "length ns"
  obtain j where j: "j < ?l" "ns ! j = n" using i(1) by (auto simp: in_set_conv_nth)
  have "ma_row m ! n = int j" "length (ma_row m) = tot" using inv j by (auto simp: ma_inv_def)
  moreover have "baseSlices (ma_offsets m) (ma_nodes m) (ma_kinds m) j = Some (Some (map fst (?f j), map (fst \<circ> snd) (?f j)))"
    using inv row_of_slots [OF j(1), of ?f fst] row_of_slots [OF j(1), of ?f "fst \<circ> snd"] by (simp add: baseSlices_def ma_inv_def del: upt_Suc)
  ultimately show ?thesis using i(2) j(2) by (simp add: ma_get_def)
qed

lemma foldM_guarded: "foldM (\<lambda>n m. if P n then f n m else Some m) xs m = foldM f (filter P xs) m"
proof (induction xs arbitrary: m)
  case (Cons x xs)
  then show ?case by (cases "f x m") simp_all
qed simp

lemma foldM_cong: "(\<And>x. x \<in> set xs \<Longrightarrow> f x = g x) \<Longrightarrow> foldM f xs m = foldM g xs m"
proof (induction xs arbitrary: m)
  case (Cons x xs)
  then show ?case by (cases "g x m") simp_all
qed simp

lemma ma_build_row:
  assumes b: "baseN \<le> tot" and t: "tot \<le> 2 ^ 31" and walk: "\<And>n. n < tot \<Longrightarrow> walk n = Some (w n)" and d: "sorted_wrt (<) (bits_iterate dirty)"
    and n: "n < tot" "n < baseN \<Longrightarrow> n \<in> set (bits_iterate dirty)"
  shows "do { m \<leftarrow> ma_build tot baseN dirty walk; ma_get m n } = Some (Some (map fst (w n), map (fst \<circ> snd) (w n)))"
proof -
  let ?xs = "filter (\<lambda>n. n < baseN) (bits_iterate dirty)" and ?ys = "[baseN..<tot]"
  let ?m0 = "\<lparr>ma_row = replicate tot (-1), ma_offsets = [0], ma_nodes = [], ma_kinds = []\<rparr>"
  have "distinct (bits_iterate dirty)" using d by (simp only: strict_sorted_iff)
  then have dist: "distinct (?xs @ ?ys)" by auto
  have rng: "\<forall>n \<in> set (?xs @ ?ys). n < tot" using b by auto
  have "card (set (?xs @ ?ys)) \<le> card {..<tot}" using rng by (intro card_mono) auto
  then have len: "length (?xs @ ?ys) \<le> tot" using distinct_card [OF dist] by simp
  have "ma_inv tot w [] ?m0" by (simp add: ma_inv_def slots_of_def)
  then have "ok (foldM (ma_add walk) (?xs @ ?ys) ?m0) (ma_inv tot w ([] @ ?xs @ ?ys))"
    by (rule ma_fold_inv) (use dist rng walk len t in auto)
  moreover have "ma_build tot baseN dirty walk = foldM (ma_add walk) (?xs @ ?ys) ?m0"
  proof -
    have "foldM (\<lambda>n. ma_add walk (u32 n)) ?ys = foldM (ma_add walk) ?ys"
    proof (rule ext)
      fix m
      have "u32 n = n" if "n \<in> set ?ys" for n using that t by (intro u32_id) simp
      then show "foldM (\<lambda>n. ma_add walk (u32 n)) ?ys m = foldM (ma_add walk) ?ys m" by (intro foldM_cong) simp
    qed
    then show ?thesis unfolding ma_build_def foldM_guarded foldM_append by simp
  qed
  moreover have "n \<in> set (?xs @ ?ys)" using n by auto
  ultimately show ?thesis using ma_get_row n(1) by (auto simp: ok_iff)
qed

section \<open>Slices and iterations agree\<close>

lemma base_clean:
  assumes rep: "snap_rep s out inn" and n: "n < NodeCount s"
  shows "baseSlices (OutOffsets s) (OutTargets s) (OutKinds s) n = Some (Some (map fst (out n), map (fst \<circ> snd) (out n)))"
    and "baseSlices (InOffsets s) (InTargets s) (InKinds s) n = Some (Some (map fst (inn n), map (fst \<circ> snd) (inn n)))"
proof -
  have arr: "OutOffsets s = map (row_start out) [0..<Suc (NodeCount s)]" "OutTargets s = map fst (slots_of out (NodeCount s))"
      "OutKinds s = map (fst \<circ> snd) (slots_of out (NodeCount s))" "InOffsets s = map (row_start inn) [0..<Suc (NodeCount s)]"
      "InTargets s = map fst (slots_of inn (NodeCount s))" "InKinds s = map (fst \<circ> snd) (slots_of inn (NodeCount s))"
    using rep unfolding snap_rep_def by blast+
  show "baseSlices (OutOffsets s) (OutTargets s) (OutKinds s) n = Some (Some (map fst (out n), map (fst \<circ> snd) (out n)))"
    using row_of_slots [OF n, of out fst] row_of_slots [OF n, of out "fst \<circ> snd"] unfolding baseSlices_def arr by simp
  show "baseSlices (InOffsets s) (InTargets s) (InKinds s) n = Some (Some (map fst (inn n), map (fst \<circ> snd) (inn n)))"
    using row_of_slots [OF n, of inn fst] row_of_slots [OF n, of inn "fst \<circ> snd"] unfolding baseSlices_def arr by simp
qed

text \<open>What the two dirty sets know of a node of the base.\<close>

lemma dirty_split:
  assumes v: "view_wf v" and rep: "snap_rep (v_base v) out inn" and o: "Overlay v"
  obtains dout din where "dirtyAdjacency v = Some (dout, din)" "sorted_wrt (<) (bits_iterate dout)" "sorted_wrt (<) (bits_iterate din)"
    "\<And>n. n < NodeCount (v_base v) \<Longrightarrow> \<not> bits_has dout n \<Longrightarrow> n \<notin> set (dirtyOutList v inn)"
    "\<And>n. n < NodeCount (v_base v) \<Longrightarrow> \<not> bits_has din n \<Longrightarrow> n \<notin> set (dirtyInList v out)"
    "\<And>n. bits_has dout n \<Longrightarrow> n \<in> set (bits_iterate dout)" "\<And>n. bits_has din n \<Longrightarrow> n \<in> set (bits_iterate din)"
proof -
  let ?N = "NodeCount (v_base v)"
  note sa = setAll_has [OF base_facts(2) [OF v]]
  show ?thesis
  proof (rule that [OF dirtyAdjacency_eq [OF v rep o]])
    show "sorted_wrt (<) (bits_iterate (Some (setAll (dirtyOutList v inn) (NewBitset ?N))))"
      "sorted_wrt (<) (bits_iterate (Some (setAll (dirtyInList v out) (NewBitset ?N))))"
      using bs.elems_sorted sa(2) by (simp_all add: bits_iterate_def)
  qed (use sa bs.set_elems in \<open>auto simp: bits_has_def bits_iterate_def\<close>)
qed

lemma OutSlices_eq:
  assumes v: "view_wf v" and le: "v_NodeCount v \<le> 2 ^ 31" and n: "n < v_NodeCount v" and es: "OutEdges v n = Some es"
  shows "OutSlices v n = Some (Some (map fst es, map (fst \<circ> snd) es))"
proof -
  obtain out inn kr pr where wf: "snap_wf (v_base v) out inn kr pr" using v unfolding view_wf_def snap_ok_def by blast
  have rep: "snap_rep (v_base v) out inn" using wf by (simp add: snap_wf_def)
  let ?N = "NodeCount (v_base v)"
  show ?thesis
  proof (cases "Overlay v")
    case False
    have none: "deltaEdges v = []" "deadBits v = None" "edge_states v = Map.empty" using not_overlay [OF False]
      by (simp_all add: deltaEdges_def deadBits_def markBits_def map_filter_simps)
    have N: "n < ?N" using n not_overlay [OF False] by (simp add: v_NodeCount_def virtualPgIDs_def)
    have "n \<notin> set (dirtyOutList v inn)"
      by (simp add: dirtyOutList_def none edgeTombSlots_def deltaOutBits_def not_overlay [OF False] markBits_def bits_iterate_def map_filter_simps)
    then have "es = out n" using clean_out [OF v rep N] es by simp
    then show ?thesis using False N base_clean(1) [OF rep N] by (simp add: OutSlices_def CleanOut_def bits_has_def)
  next
    case o: True
    obtain dout din where d: "dirtyAdjacency v = Some (dout, din)" "sorted_wrt (<) (bits_iterate dout)" "sorted_wrt (<) (bits_iterate din)"
      "\<And>n. n < ?N \<Longrightarrow> \<not> bits_has dout n \<Longrightarrow> n \<notin> set (dirtyOutList v inn)"
      "\<And>n. n < ?N \<Longrightarrow> \<not> bits_has din n \<Longrightarrow> n \<notin> set (dirtyInList v out)"
      "\<And>n. bits_has dout n \<Longrightarrow> n \<in> set (bits_iterate dout)" "\<And>n. bits_has din n \<Longrightarrow> n \<in> set (bits_iterate din)"
      by (rule dirty_split [OF v rep o]) blast
    show ?thesis
    proof (cases "n < ?N \<and> \<not> bits_has dout n")
      case True
      then have "es = out n" using clean_out [OF v rep, of n] d(4) es by simp
      then show ?thesis using o True d(1) base_clean(1) [OF rep, of n] by (simp add: OutSlices_def CleanOut_def)
    next
      case False
      have walk: "OutEdges v m = Some (the (OutEdges v m))" if "m < v_NodeCount v" for m using OutEdges_exact [OF v that] by (auto simp: ok_iff)
      have "do { m \<leftarrow> ma_build (v_NodeCount v) ?N dout (OutEdges v); ma_get m n } =
          Some (Some (map fst (the (OutEdges v n)), map (fst \<circ> snd) (the (OutEdges v n))))"
        by (rule ma_build_row [OF _ le walk d(2) n]) (use False d(6) in \<open>auto simp: v_NodeCount_def\<close>)
      moreover have "CleanOut v n = Some None" using False o d(1) by (auto simp: CleanOut_def)
      ultimately show ?thesis using n d(1) es by (simp add: OutSlices_def mergedOut_def)
    qed
  qed
qed

lemma InSlices_eq:
  assumes v: "view_wf v" and le: "v_NodeCount v \<le> 2 ^ 31" and n: "n < v_NodeCount v" and es: "InEdges v n = Some es"
  shows "InSlices v n = Some (Some (map fst es, map (fst \<circ> snd) es))"
proof -
  obtain out inn kr pr where wf: "snap_wf (v_base v) out inn kr pr" using v unfolding view_wf_def snap_ok_def by blast
  have rep: "snap_rep (v_base v) out inn" using wf by (simp add: snap_wf_def)
  let ?N = "NodeCount (v_base v)"
  have row: "map fst es = map fst (inn n) \<and> map (fst \<circ> snd) es = map (fst \<circ> snd) (inn n)" if "n < ?N" "n \<notin> set (dirtyInList v out)"
    using clean_in [OF v rep that] es by (auto simp: case_prod_unfold)
  show ?thesis
  proof (cases "Overlay v")
    case False
    have none: "deltaEdges v = []" "deadBits v = None" "edge_states v = Map.empty" using not_overlay [OF False]
      by (simp_all add: deltaEdges_def deadBits_def markBits_def map_filter_simps)
    have N: "n < ?N" using n not_overlay [OF False] by (simp add: v_NodeCount_def virtualPgIDs_def)
    have "n \<notin> set (dirtyInList v out)"
      by (simp add: dirtyInList_def none edgeTombSlots_def deltaInBits_def not_overlay [OF False] markBits_def bits_iterate_def map_filter_simps)
    then show ?thesis using False N row base_clean(2) [OF rep N] by (simp add: InSlices_def CleanIn_def bits_has_def)
  next
    case o: True
    obtain dout din where d: "dirtyAdjacency v = Some (dout, din)" "sorted_wrt (<) (bits_iterate dout)" "sorted_wrt (<) (bits_iterate din)"
      "\<And>n. n < ?N \<Longrightarrow> \<not> bits_has dout n \<Longrightarrow> n \<notin> set (dirtyOutList v inn)"
      "\<And>n. n < ?N \<Longrightarrow> \<not> bits_has din n \<Longrightarrow> n \<notin> set (dirtyInList v out)"
      "\<And>n. bits_has dout n \<Longrightarrow> n \<in> set (bits_iterate dout)" "\<And>n. bits_has din n \<Longrightarrow> n \<in> set (bits_iterate din)"
      by (rule dirty_split [OF v rep o]) blast
    show ?thesis
    proof (cases "n < ?N \<and> \<not> bits_has din n")
      case True
      then show ?thesis using o row d(1,5) base_clean(2) [OF rep, of n] by (simp add: InSlices_def CleanIn_def)
    next
      case False
      have walk: "InEdges v m = Some (the (InEdges v m))" if "m < v_NodeCount v" for m using InEdges_exact [OF v that] by (auto simp: ok_iff)
      have "do { m \<leftarrow> ma_build (v_NodeCount v) ?N din (InEdges v); ma_get m n } =
          Some (Some (map fst (the (InEdges v n)), map (fst \<circ> snd) (the (InEdges v n))))"
        by (rule ma_build_row [OF _ le walk d(3) n]) (use False d(7) in \<open>auto simp: v_NodeCount_def\<close>)
      moreover have "CleanIn v n = Some None" using False o d(1) by (auto simp: CleanIn_def)
      ultimately show ?thesis using n d(1) es by (simp add: InSlices_def mergedIn_def)
    qed
  qed
qed

end
