(* ===== verification/Overlay.thy ===== *)
theory Overlay
  imports ViewSlices
begin

text \<open>
  The contract of a view, stated on the operations themselves: layering a segment applies it to the
  graph, node and edge reads return exactly that graph, and the slice form equals the iterations.
\<close>

section \<open>Layering\<close>

definition node_after :: "node_rec option \<Rightarrow> node_desc option \<Rightarrow> node_desc option" where
  "node_after r old = (case r of None \<Rightarrow> old | Some NodeGone \<Rightarrow> None | Some (NodeIs ks bag oid) \<Rightarrow> Some (ks, bag))"

lemma WithSegment_graph:
  "view_nodes (WithSegment v s) = apply_nodes (NodeState s) (view_nodes v)"
  "view_raw (WithSegment v s) = apply_edges (EdgeState s) (view_raw v)"
  by (simp_all add: WithSegment_def view_nodes_def view_raw_def node_states_def edge_states_def stacked_snoc apply_nodes_add apply_edges_add)

lemma seg_bag:
  assumes "seg_ok s" and "NodeState s i = Some st" and "\<not> Tombstoned st"
  shows "(\<lambda>name. Option.bind (PropValueByName st name) id) = bag_of (st_tables st) (st_entries st)"
proof -
  have "table_wf (st_tables st)" "entries_wf (st_tables st) (st_entries st)" using assms by (auto simp: seg_ok_def st_wf_def)
  then show ?thesis using bag_of_value by (simp add: PropValueByName_def fun_eq_iff)
qed

text \<open>
  C4. Layering a commit's segment on a view applies the commit to its graph. Whatever calls staged the
  segment, a node reads afterwards as the last state staged for it, is gone if that was a tombstone,
  and otherwise reads as before; the same for the edge records; the old view keeps reading as it did.
\<close>

theorem overlay_applies_commit:
  assumes "stage_run ops = Some b" and "\<forall>op \<in> set ops. stage_names_ok op"
  shows "seg_ok (seg_Build b) \<and>
    (\<forall>i. view_nodes (WithSegment v (seg_Build b)) i = node_after (fold stage_node ops Map.empty i) (view_nodes v i)) \<and>
    (\<forall>e. view_raw (WithSegment v (seg_Build b)) e = (case fold stage_edge ops Map.empty e of
       None \<Rightarrow> view_raw v e | Some st \<Rightarrow> if eTombstoned st then None else Some (StartID st, EndID st, eKind st)))"
proof (intro conjI allI)
  note st = seg_Build_states [OF stage_run_inv [OF assms]]
  show ok: "seg_ok (seg_Build b)" by (rule seg_Build_ok [OF assms])
  show "view_nodes (WithSegment v (seg_Build b)) i = node_after (fold stage_node ops Map.empty i) (view_nodes v i)" for i
    using st(2) [of i, symmetric] seg_bag [OF ok, of i]
    by (cases "NodeState (seg_Build b) i") (auto simp: WithSegment_graph apply_nodes_def node_after_def state_rec_def st_desc_def)
  show "view_raw (WithSegment v (seg_Build b)) e = (case fold stage_edge ops Map.empty e of
       None \<Rightarrow> view_raw v e | Some st \<Rightarrow> if eTombstoned st then None else Some (StartID st, EndID st, eKind st))" for e
    using st(3) by (simp add: WithSegment_graph apply_edges_def)
qed

section \<open>An example overlay\<close>

definition example_ops :: "stage list" where
  "example_ops = [StageNodeGone 5, StageNode 12 [2] [], StageEdge 71 9 12 3]"

definition example_view :: View where
  "example_view = WithSegment (NewView example_base) (seg_Build (the (stage_run example_ops)))"

lemma example_ops_run: "stage_run example_ops = Some (the (stage_run example_ops))" "\<forall>op \<in> set example_ops. stage_names_ok op"
  by (simp_all add: example_ops_def stage_run_def AddNodeState_def commitProps_def)

lemma node_states_WithSegment: "node_states (WithSegment v s) = node_states v ++ NodeState s"
  by (simp add: node_states_def WithSegment_def stacked_snoc)

lemma virtual_count:
  assumes "finite D" and "dom (node_states v) \<subseteq> D" and "\<forall>s \<in> set (v_segments v). seg_wf s"
  shows "length (virtualPgIDs v) \<le> card D"
proof -
  have "length (virtualPgIDs v) \<le> length (merged_nodes v)" by (simp add: virtualPgIDs_def)
  also have "\<dots> \<le> card (dom (node_states v))"
  proof (cases "Overlay v")
    case True
    let ?m = "MergeSegments (v_segments v)"
    note m = merge_maps [OF assms(3)]
    have "length (merged_nodes v) = length (nodeIDs ?m)" using merged_Some [OF True] IterNodes_fst [of ?m]
      by (metis length_map merged_nodes_def option.simps(5))
    also have "\<dots> = card (set (nodeIDs ?m))" using seg_wf_ids(3) [OF m(4)] by (simp add: distinct_card)
    finally show ?thesis using seg_wf_ids(5) [OF m(4)] m(1) by (simp add: node_states_def)
  qed (simp add: not_overlay)
  also have "\<dots> \<le> card D" using assms by (intro card_mono)
  finally show ?thesis .
qed

lemma example_view_graph:
  "view_nodes example_view = [9 \<mapsto> ([1, 2], parsedBag []), 12 \<mapsto> ([2], parsedBag [])]"
  "view_raw example_view = [70 \<mapsto> (5, 9, 3), 71 \<mapsto> (9, 12, 3)]"
proof -
  note st = seg_Build_states [OF stage_run_inv [OF example_ops_run]] and ok = seg_Build_ok [OF example_ops_run]
  let ?s = "seg_Build (the (stage_run example_ops))"
  have base: "view_nodes (NewView example_base) = snap_node example_base" "view_raw (NewView example_base) = snap_edge example_base"
    by (simp_all add: view_nodes_def view_raw_def node_states_def edge_states_def NewView_def apply_nodes_def apply_edges_def fun_eq_iff)
  have n: "map_option state_rec (NodeState ?s i) = (if i = 12 then Some (NodeIs [2] (parsedBag []) None) else if i = 5 then Some NodeGone else None)" for i
    using st(2) [of i] by (auto simp: example_ops_def bagObjectID_def parsedBag_def [abs_def])
  show "view_nodes example_view = [9 \<mapsto> ([1, 2], parsedBag []), 12 \<mapsto> ([2], parsedBag [])]"
  proof
    fix i
    show "view_nodes example_view i = [9 \<mapsto> ([1, 2], parsedBag []), 12 \<mapsto> ([2], parsedBag [])] i"
      using n [of i] seg_bag [OF ok, of i]
      by (cases "NodeState ?s i") (auto simp: example_view_def WithSegment_graph apply_nodes_def base example_base_ok(3) example_nodes_def
          node_of_def state_rec_def st_desc_def split: if_splits)
  qed
  show "view_raw example_view = [70 \<mapsto> (5, 9, 3), 71 \<mapsto> (9, 12, 3)]"
    using st(3) by (auto simp: example_view_def WithSegment_graph apply_edges_def base example_base_ok(4) example_ops_def fun_eq_iff)
qed

lemma example_view_wf: "view_wf example_view" "v_NodeCount example_view \<le> 4"
proof -
  note st = seg_Build_states [OF stage_run_inv [OF example_ops_run]] and ok = seg_Build_ok [OF example_ops_run]
  let ?s = "seg_Build (the (stage_run example_ops))"
  have "node_states example_view = NodeState ?s"
    by (simp add: example_view_def node_states_WithSegment) (simp add: node_states_def NewView_def)
  moreover have "dom (NodeState ?s) \<subseteq> {5, 12}"
  proof
    fix i assume "i \<in> dom (NodeState ?s)"
    then show "i \<in> {5, 12}" using st(2) [of i] by (auto simp: example_ops_def split: if_splits)
  qed
  ultimately have "length (virtualPgIDs example_view) \<le> card {5, 12 :: nat}"
    using ok by (intro virtual_count) (auto simp: example_view_def WithSegment_def NewView_def seg_ok_def)
  moreover have "v_base example_view = example_base" by (simp add: example_view_def WithSegment_def NewView_def)
  ultimately show "v_NodeCount example_view \<le> 4" using example_base_ok(2) by (simp add: v_NodeCount_def NodeCount_def)
  then show "view_wf example_view"
    using example_base_ok(1) ok by (simp add: view_wf_def example_view_def WithSegment_def NewView_def)
qed

theorem overlay_applies_commit_witness:
  "view_nodes (WithSegment (NewView example_base) (seg_Build (the (stage_run example_ops)))) 5 = None \<and>
   view_nodes (WithSegment (NewView example_base) (seg_Build (the (stage_run example_ops)))) 12 = Some ([2], parsedBag [])"
  using overlay_applies_commit [OF example_ops_run, of "NewView example_base"]
  by (simp add: example_ops_def node_after_def parsedBag_def [abs_def])

section \<open>Reads\<close>

text \<open>
  C17. Node reads of a view are exact. A database id resolves to a live dense id exactly when the graph
  has the node; for every dense id in range the reads of its kinds and of any property by name return,
  without a panic, what the graph has for its node (nothing, when it is tombstoned); \<open>NodesOfKind\<close> holds
  exactly the live nodes of the kind, and \<open>NodesByObjectID\<close> returns exactly the live nodes whose
  objectid is that string, ascending, or a miss when there is none.
\<close>

theorem overlay_node_reads_exact:
  assumes "view_wf v"
  shows "(\<forall>i. (\<exists>n. v_Dense v i = Some n \<and> Alive v n) \<longleftrightarrow> i \<in> dom (view_nodes v)) \<and>
    (\<forall>n i. n < v_NodeCount v \<and> v_GraphID v n = Some i \<longrightarrow>
       v_Dense v i = Some n \<and> (Alive v n \<longleftrightarrow> i \<in> dom (view_nodes v)) \<and>
       KindIDsOf v n = Some (case view_nodes v i of Some (ks, bag) \<Rightarrow> ks | None \<Rightarrow> []) \<and>
       (\<forall>name. v_PropValueByName v n name = Some (case view_nodes v i of Some (ks, bag) \<Rightarrow> bag name | None \<Rightarrow> None)) \<and>
       (\<forall>k. Bitset_Has (NodesOfKind v k) n \<longleftrightarrow> (case view_nodes v i of Some (ks, bag) \<Rightarrow> k \<in> set ks | None \<Rightarrow> False))) \<and>
    (\<forall>oid. v_NodesByObjectID v oid = Some (case filter (has_oid v oid) [0..<v_NodeCount v] of [] \<Rightarrow> None | ids \<Rightarrow> Some ids))"
proof (intro conjI allI impI)
  show "(\<exists>n. v_Dense v i = Some n \<and> Alive v n) \<longleftrightarrow> i \<in> dom (view_nodes v)" for i by (rule resolves_iff [OF assms])
  show "v_NodesByObjectID v oid = Some (case filter (has_oid v oid) [0..<v_NodeCount v] of [] \<Rightarrow> None | ids \<Rightarrow> Some ids)" for oid
    by (rule NodesByObjectID_exact [OF assms])
  fix n i assume "n < v_NodeCount v \<and> v_GraphID v n = Some i"
  then have n: "n < v_NodeCount v" and i: "i = pg v n" using GraphID_pg [of n v] by auto
  show "v_Dense v i = Some n" using Dense_pg [OF assms n] i by simp
  show "Alive v n \<longleftrightarrow> i \<in> dom (view_nodes v)" using Alive_iff [OF assms] n i by auto
  show "KindIDsOf v n = Some (case view_nodes v i of Some (ks, bag) \<Rightarrow> ks | None \<Rightarrow> [])"
    "v_PropValueByName v n name = Some (case view_nodes v i of Some (ks, bag) \<Rightarrow> bag name | None \<Rightarrow> None)" for name
    unfolding i by (rule node_reads [OF assms n])+
  show "Bitset_Has (NodesOfKind v k) n \<longleftrightarrow> (case view_nodes v i of Some (ks, bag) \<Rightarrow> k \<in> set ks | None \<Rightarrow> False)" for k
    using NodesOfKind_exact(1) [OF assms, of k n] n by (simp add: has_kind_def i)
qed

theorem overlay_node_reads_exact_witness:
  "(\<exists>n. v_Dense example_view 12 = Some n \<and> Alive example_view n) \<and> \<not> (\<exists>n. v_Dense example_view 5 = Some n \<and> Alive example_view n)"
  using overlay_node_reads_exact [OF example_view_wf(1)] by (simp add: example_view_graph)

text \<open>
  C18. Edge reads of a view are exact. For every dense id in range \<open>OutEdges\<close> and \<open>InEdges\<close> yield,
  without a panic, exactly the edges of the graph that leave or enter its node, each once, an edge
  being in the graph when its newest record says so and both its ends are live; \<open>EdgeStateByID\<close> resolves
  an edge id to its live ends and kind exactly when the graph has that edge.
\<close>

theorem overlay_edge_reads_exact:
  assumes "view_wf v"
  shows "(\<forall>n i. n < v_NodeCount v \<and> v_GraphID v n = Some i \<longrightarrow>
      ok (OutEdges v n) (\<lambda>es. distinct (map (snd \<circ> snd) es) \<and>
        (\<forall>k e b. (\<exists>t. (t, k, e) \<in> set es \<and> v_GraphID v t = Some b) \<longleftrightarrow> view_edges v e = Some (i, b, k))) \<and>
      ok (InEdges v n) (\<lambda>es. distinct (map (snd \<circ> snd) es) \<and>
        (\<forall>k e a. (\<exists>u. (u, k, e) \<in> set es \<and> v_GraphID v u = Some a) \<longleftrightarrow> view_edges v e = Some (a, i, k)))) \<and>
    (\<forall>e. ok (EdgeStateByID v e) (\<lambda>r. (\<forall>s t k. r = Some (s, t, k) \<longrightarrow> Alive v s \<and> Alive v t) \<and>
      (\<forall>a b k. (\<exists>s t. r = Some (s, t, k) \<and> v_GraphID v s = Some a \<and> v_GraphID v t = Some b) \<longleftrightarrow> view_edges v e = Some (a, b, k))))"
proof (intro conjI allI impI)
  have gid: "v_GraphID v t = Some b \<longleftrightarrow> b = pg v t" if "t < v_NodeCount v" for t b using GraphID_pg [OF that] by auto
  fix n i assume "n < v_NodeCount v \<and> v_GraphID v n = Some i"
  then have n: "n < v_NodeCount v" and i: "i = pg v n" using gid by auto
  have dense: "\<exists>t < v_NodeCount v. pg v t = b" if "view_edges v e = Some (a, b, k) \<or> view_edges v e = Some (b, a, k)" for a b k e
    using that by (auto elim: view_edges_dense [OF assms])
  have ex: "(\<exists>t. (t, k, e) \<in> set es \<and> v_GraphID v t = Some b) \<longleftrightarrow> view_edges v e = val b"
    if "\<And>t. (t, k, e) \<in> set es \<longleftrightarrow> t < v_NodeCount v \<and> view_edges v e = val (pg v t)"
      and "view_edges v e = val b \<Longrightarrow> \<exists>t < v_NodeCount v. pg v t = b" for es and k :: int and e b val
    by (subst that(1)) (use that(2) gid in auto)
  show "ok (OutEdges v n) (\<lambda>es. distinct (map (snd \<circ> snd) es) \<and>
        (\<forall>k e b. (\<exists>t. (t, k, e) \<in> set es \<and> v_GraphID v t = Some b) \<longleftrightarrow> view_edges v e = Some (i, b, k)))"
  proof (rule ok_mono [OF OutEdges_exact [OF assms n]], intro conjI allI)
    fix es k e b
    assume es: "distinct (map (snd \<circ> snd) es) \<and> (\<forall>t k e. (t, k, e) \<in> set es \<longleftrightarrow> t < v_NodeCount v \<and> view_edges v e = Some (pg v n, pg v t, k))"
    then show "distinct (map (snd \<circ> snd) es)" by blast
    show "(\<exists>t. (t, k, e) \<in> set es \<and> v_GraphID v t = Some b) \<longleftrightarrow> view_edges v e = Some (i, b, k)"
      by (rule ex [of k _ _ "\<lambda>b. Some (i, b, k)"]) (use es dense i in blast)+
  qed
  show "ok (InEdges v n) (\<lambda>es. distinct (map (snd \<circ> snd) es) \<and>
        (\<forall>k e a. (\<exists>u. (u, k, e) \<in> set es \<and> v_GraphID v u = Some a) \<longleftrightarrow> view_edges v e = Some (a, i, k)))"
  proof (rule ok_mono [OF InEdges_exact [OF assms n]], intro conjI allI)
    fix es k e a
    assume es: "distinct (map (snd \<circ> snd) es) \<and> (\<forall>u k e. (u, k, e) \<in> set es \<longleftrightarrow> u < v_NodeCount v \<and> view_edges v e = Some (pg v u, pg v n, k))"
    then show "distinct (map (snd \<circ> snd) es)" by blast
    show "(\<exists>u. (u, k, e) \<in> set es \<and> v_GraphID v u = Some a) \<longleftrightarrow> view_edges v e = Some (a, i, k)"
      by (rule ex [of k _ _ "\<lambda>a. Some (a, i, k)"]) (use es dense i in blast)+
  qed
next
  fix e
  show "ok (EdgeStateByID v e) (\<lambda>r. (\<forall>s t k. r = Some (s, t, k) \<longrightarrow> Alive v s \<and> Alive v t) \<and>
      (\<forall>a b k. (\<exists>s t. r = Some (s, t, k) \<and> v_GraphID v s = Some a \<and> v_GraphID v t = Some b) \<longleftrightarrow> view_edges v e = Some (a, b, k)))"
  proof (rule ok_mono [OF EdgeStateByID_exact [OF assms]])
    fix r assume r: "map_option (\<lambda>(s, t, k). (pg v s, pg v t, k)) r = view_edges v e \<and> (\<forall>s t k. r = Some (s, t, k) \<longrightarrow> Alive v s \<and> Alive v t)"
    have gid: "v_GraphID v s = Some (pg v s)" if "Alive v s" for s using that GraphID_pg by (simp add: Alive_def)
    show "(\<forall>s t k. r = Some (s, t, k) \<longrightarrow> Alive v s \<and> Alive v t) \<and>
      (\<forall>a b k. (\<exists>s t. r = Some (s, t, k) \<and> v_GraphID v s = Some a \<and> v_GraphID v t = Some b) \<longleftrightarrow> view_edges v e = Some (a, b, k))"
      using r gid by (cases r) (auto simp: r [THEN conjunct1, symmetric])
  qed
qed

theorem overlay_edge_reads_exact_witness:
  "ok (EdgeStateByID example_view 70) (\<lambda>r. \<not> (\<exists>s t. r = Some (s, t, 3) \<and> v_GraphID example_view s = Some 5 \<and> v_GraphID example_view t = Some 9)) \<and>
   ok (EdgeStateByID example_view 71) (\<lambda>r. \<exists>s t. r = Some (s, t, 3) \<and> v_GraphID example_view s = Some 9 \<and> v_GraphID example_view t = Some 12)"
proof -
  note ex = overlay_edge_reads_exact [OF example_view_wf(1), THEN conjunct2]
  have "view_edges example_view 70 = None" "view_edges example_view 71 = Some (9, 12, 3)"
    by (simp_all add: view_edges_def both_in_def example_view_graph)
  then show ?thesis using spec [OF ex, of 70] spec [OF ex, of 71] by (auto simp: ok_iff)
qed

text \<open>
  C19. The slice form of the adjacency equals the iterations. For every id of the view \<open>OutSlices\<close> and
  \<open>InSlices\<close> return, without a panic, the neighbours and kinds of \<open>OutEdges\<close> and \<open>InEdges\<close> in the same
  order, whether the node is clean and the base rows are aliased, or dirty or virtual and the
  materialized rows are read; an id outside the view gives \<open>ok = false\<close>.
\<close>

theorem slices_equal_iterations:
  assumes "view_wf v" and "v_NodeCount v \<le> 2 ^ 31"
  shows "(\<forall>n < v_NodeCount v.
      ok (OutEdges v n) (\<lambda>es. OutSlices v n = Some (Some (map fst es, map (fst \<circ> snd) es))) \<and>
      ok (InEdges v n) (\<lambda>es. InSlices v n = Some (Some (map fst es, map (fst \<circ> snd) es)))) \<and>
    (\<forall>n \<ge> v_NodeCount v. OutSlices v n = Some None \<and> InSlices v n = Some None)"
proof (intro conjI allI impI)
  fix n assume n: "n < v_NodeCount v"
  show "ok (OutEdges v n) (\<lambda>es. OutSlices v n = Some (Some (map fst es, map (fst \<circ> snd) es)))"
    using OutEdges_exact [OF assms(1) n] OutSlices_eq [OF assms n] by (auto simp: ok_iff)
  show "ok (InEdges v n) (\<lambda>es. InSlices v n = Some (Some (map fst es, map (fst \<circ> snd) es)))"
    using InEdges_exact [OF assms(1) n] InSlices_eq [OF assms n] by (auto simp: ok_iff)
next
  fix n assume "v_NodeCount v \<le> n"
  then show "OutSlices v n = Some None" "InSlices v n = Some None"
    by (simp_all add: OutSlices_def InSlices_def CleanOut_def CleanIn_def v_NodeCount_def)
qed

theorem slices_equal_iterations_witness:
  "OutSlices example_view 4 = Some None \<and> InSlices example_view 4 = Some None"
  using slices_equal_iterations [OF example_view_wf(1)] example_view_wf(2) by simp

section \<open>Kind filters\<close>

lemma max_raise:
  fixes m k :: int
  shows "m \<le> fold (\<lambda>k mx. if k > mx then k else mx) ks m" and "k \<in> set ks \<Longrightarrow> k \<le> fold (\<lambda>k mx. if k > mx then k else mx) ks m"
  using max_fold [of m ks] by auto

lemma max_raise_nodes:
  "m \<le> fold (\<lambda>(_, st) mx. if Tombstoned st then mx else fold (\<lambda>k mx. if k > mx then k else mx) (KindIDs st) mx) xs m"
  "(i, st) \<in> set xs \<Longrightarrow> \<not> Tombstoned st \<Longrightarrow> k \<in> set (KindIDs st) \<Longrightarrow>
     k \<le> fold (\<lambda>(_, st) mx. if Tombstoned st then mx else fold (\<lambda>k mx. if k > mx then k else mx) (KindIDs st) mx) xs m"
proof -
  let ?f = "\<lambda>(_, st) mx. if Tombstoned st then mx else fold (\<lambda>k mx. if k > mx then k else mx) (KindIDs st) mx"
  have ge: "m \<le> fold ?f xs m" for xs m
  proof (induction xs arbitrary: m)
    case (Cons x xs)
    have "m \<le> ?f x m" using max_raise(1) by (auto split: prod.split)
    also have "\<dots> \<le> fold ?f xs (?f x m)" by (rule Cons.IH)
    finally show ?case by simp
  qed simp
  show "m \<le> fold ?f xs m" by (rule ge)
  show "(i, st) \<in> set xs \<Longrightarrow> \<not> Tombstoned st \<Longrightarrow> k \<in> set (KindIDs st) \<Longrightarrow> k \<le> fold ?f xs m"
  proof (induction xs arbitrary: m)
    case (Cons x xs)
    show ?case
    proof (cases "x = (i, st)")
      case True
      then have "k \<le> ?f x m" using Cons.prems max_raise(2) by auto
      also have "\<dots> \<le> fold ?f xs (?f x m)" by (rule ge)
      finally show ?thesis by simp
    qed (use Cons in auto)
  qed simp
qed

lemma max_raise_edges:
  "m \<le> fold (\<lambda>(_, st) mx. if \<not> eTombstoned st \<and> eKind st > mx then eKind st else mx) xs m"
  "(i, st) \<in> set xs \<Longrightarrow> \<not> eTombstoned st \<Longrightarrow> eKind st \<le> fold (\<lambda>(_, st) mx. if \<not> eTombstoned st \<and> eKind st > mx then eKind st else mx) xs m"
proof -
  let ?f = "\<lambda>(_, st) mx. if \<not> eTombstoned st \<and> eKind st > mx then eKind st else mx"
  have ge: "m \<le> fold ?f xs m" for xs m
  proof (induction xs arbitrary: m)
    case (Cons x xs)
    have "m \<le> ?f x m" by (auto split: prod.split)
    also have "\<dots> \<le> fold ?f xs (?f x m)" by (rule Cons.IH)
    finally show ?case by simp
  qed simp
  show "m \<le> fold ?f xs m" by (rule ge)
  show "(i, st) \<in> set xs \<Longrightarrow> \<not> eTombstoned st \<Longrightarrow> eKind st \<le> fold ?f xs m"
  proof (induction xs arbitrary: m)
    case (Cons x xs)
    show ?case
    proof (cases "x = (i, st)")
      case True
      then have "eKind st \<le> ?f x m" using Cons.prems by auto
      also have "\<dots> \<le> fold ?f xs (?f x m)" by (rule ge)
      finally show ?thesis by simp
    qed (use Cons in auto)
  qed simp
qed

lemma MaxKindID_bound:
  assumes v: "view_wf v"
  shows "view_nodes v i = Some (ks, bag) \<Longrightarrow> k \<in> set ks \<Longrightarrow> k \<le> v_MaxKindID v"
    and "view_edges v e = Some (a, b, k') \<Longrightarrow> k' \<le> v_MaxKindID v"
proof -
  obtain out inn kr pr where wf: "snap_wf (v_base v) out inn kr pr" using v unfolding view_wf_def snap_ok_def by blast
  have rep: "snap_rep (v_base v) out inn" using wf by (simp add: snap_wf_def)
  define added where "added = (case v_merged v of None \<Rightarrow> [] | Some m \<Rightarrow> AddedKinds m)"
  define m1 where "m1 = fold (\<lambda>k mx. if k > mx then k else mx) (map fst added) (MaxKindID (v_base v))"
  define m2 where "m2 = fold (\<lambda>(_, st) mx. if Tombstoned st then mx else fold (\<lambda>k mx. if k > mx then k else mx) (KindIDs st) mx) (merged_nodes v) m1"
  define m3 where "m3 = fold (\<lambda>(_, st) mx. if \<not> eTombstoned st \<and> eKind st > mx then eKind st else mx) (merged_edges v) m2"
  have eq: "v_MaxKindID v = (if Overlay v then m3 else MaxKindID (v_base v))"
    by (simp add: v_MaxKindID_def m1_def m2_def m3_def added_def Let_def fold_map comp_def case_prod_unfold)
  have b: "MaxKindID (v_base v) \<le> m1" "m1 \<le> m2" "m2 \<le> m3"
    unfolding m1_def m2_def m3_def by (rule max_raise(1) max_raise_nodes(1) max_raise_edges(1))+
  have base: "MaxKindID (v_base v) \<le> v_MaxKindID v" using b by (auto simp: eq)
  show "k \<le> v_MaxKindID v" if k: "view_nodes v i = Some (ks, bag)" "k \<in> set ks"
  proof (cases "node_states v i")
    case None
    then have "snap_node (v_base v) i = Some (ks, bag)" using k(1) by (simp add: view_nodes_def apply_nodes_def)
    then obtain j where "Dense (v_base v) i = Some j" "ks = kr j" using snap_node_iff [OF wf, of i] by (auto split: option.splits)
    then have "k \<le> MaxKindID (v_base v)" using wf k(2) base_facts(1) [OF v] unfolding snap_wf_def by blast
    then show ?thesis using base by simp
  next
    case (Some st)
    have st: "\<not> Tombstoned st" "ks = KindIDs st" using Some k(1) by (auto simp: view_nodes_def apply_nodes_def st_desc_def split: if_splits)
    have "(i, st) \<in> set (merged_nodes v)" using merged_iter(1) [OF v] Some by simp
    then have "k \<le> m2" unfolding m2_def using st k(2) by (intro max_raise_nodes(2)) auto
    moreover have "Overlay v" using Some not_overlay [of v] by (cases "Overlay v") simp_all
    ultimately show ?thesis using b by (simp add: eq)
  qed
  show "k' \<le> v_MaxKindID v" if e: "view_edges v e = Some (a, b, k')"
  proof (cases "edge_states v e")
    case None
    then have "snap_edge (v_base v) e = Some (a, b, k')" using e by (simp add: view_edges_iff)
    then obtain j where "EdgeByID (v_base v) e = Some j" "k' = OutKinds (v_base v) ! j" by (auto simp: snap_edge_def bind_eq_Some_conv)
    moreover have "length (OutKinds (v_base v)) = EdgeCount (v_base v)" using rep unfolding snap_rep_def EdgeCount_def by (metis length_map)
    ultimately have "k' \<in> set (OutKinds (v_base v))" using EdgeByID_iff [OF rep base_facts(5) [OF v]] by (metis nth_mem)
    then show ?thesis using wf base unfolding snap_wf_def by fastforce
  next
    case (Some st)
    have st: "\<not> eTombstoned st" "k' = eKind st" using Some e by (auto simp: view_edges_iff)
    have "(e, st) \<in> set (merged_edges v)" using merged_iter(2) [OF v] Some by simp
    then have "k' \<le> m3" unfolding m3_def st(2) using st(1) by (rule max_raise_edges(2))
    moreover have "Overlay v" using Some not_overlay [of v] by (cases "Overlay v") simp_all
    ultimately show ?thesis by (simp add: eq)
  qed
qed

text \<open>
  The kind filters never deny an edge. If the view's graph has an edge of a kind that the list
  admits, \<open>EdgeKindPresent\<close> answers true, and if it has such a self-loop, \<open>SelfLoopHazard\<close> does; every
  kind of a live node and of an edge is at most \<open>MaxKindID\<close>. So a false answer, or a mask sized by
  \<open>MaxKindID\<close>, never loses a row. (Kind ids are non-negative, as PostgreSQL's smallserial issues them.)
\<close>

theorem kind_filters_sound:
  assumes "view_wf v" and "view_edges v e = Some (a, b, k)" and "kinds = [] \<or> k \<in> set kinds" and "0 \<le> k"
  shows "EdgeKindPresent v kinds \<and> (a = b \<longrightarrow> SelfLoopHazard v kinds) \<and> k \<le> v_MaxKindID v \<and>
    (\<forall>i ks bag k'. view_nodes v i = Some (ks, bag) \<and> k' \<in> set ks \<longrightarrow> k' \<le> v_MaxKindID v)"
  using EdgeKindPresent_sound [OF assms] SelfLoopHazard_sound [OF assms(1) _ assms(3), of e a] MaxKindID_bound [OF assms(1)] assms(2) by auto

theorem kind_filters_sound_witness:
  "EdgeKindPresent example_view [3] \<and> 3 \<le> v_MaxKindID example_view"
proof -
  have e: "view_edges example_view 71 = Some (9, 12, 3)" by (simp add: view_edges_def both_in_def example_view_graph)
  show ?thesis using kind_filters_sound [OF example_view_wf(1) e, of "[3]"] by simp
qed

text \<open>
  \<open>DeltaHoldsOnlyUnresolvableEdges\<close> answers its question exactly: it holds when the delta has no
  node record, at least one edge record, no tombstone, and no record through which the view shows an
  edge.
\<close>

theorem unresolvable_delta_exact:
  assumes "view_wf v"
  shows "DeltaHoldsOnlyUnresolvableEdges v \<longleftrightarrow> node_states v = Map.empty \<and> edge_states v \<noteq> Map.empty \<and>
    (\<forall>e st. edge_states v e = Some st \<longrightarrow> \<not> eTombstoned st \<and> view_edges v e = None)"
  by (rule DeltaHolds_exact [OF assms])

theorem unresolvable_delta_exact_witness:
  "\<not> DeltaHoldsOnlyUnresolvableEdges example_view"
proof -
  have "node_states example_view 12 \<noteq> None"
    using example_view_graph(1) example_base_ok(3) by (auto simp: view_nodes_def apply_nodes_def example_view_def WithSegment_def NewView_def
        example_nodes_def node_of_def fun_eq_iff split: option.splits dest!: spec [of _ 12])
  then have "node_states example_view \<noteq> Map.empty" by auto
  then show ?thesis using unresolvable_delta_exact [OF example_view_wf(1)] by simp
qed

end
