(* ===== verification/Paths.thy ===== *)
theory Paths
  imports Pairs Overlay
begin

text \<open>
  Shortest-path queries over a view, \<open>internal/engine/traverse/traverse.go\<close>: the endpoints of a query,
  the two strategies with their budgets, modes and limit, and the dispatch \<open>AllShortestPaths\<close>.

  What the run time decides is an environment: which pooled buffers \<open>getScratch\<close> hands out, how many
  workers run, and how many checks of the request's context other goroutines have made before a
  worker or the merge makes its own. A \<open>None\<close> is a panic.
\<close>

section \<open>The adjacency a search reads\<close>

definition cleanAdjacency :: "View \<Rightarrow> nodeid \<Rightarrow> bool \<Rightarrow> ((nodeid list \<times> kindid list) option) option" where
  "cleanAdjacency v u forward = (if forward then OutSlices v u else InSlices v u)"

definition walkAdjacency :: "View \<Rightarrow> nodeid \<Rightarrow> bool \<Rightarrow> ((nodeid \<times> kindid) list) option" where
  "walkAdjacency v u forward = map_option (map (\<lambda>(w, k, _). (w, k))) (if forward then OutEdges v u else InEdges v u)"

text \<open>The edges a search visits from \<open>u\<close>, in order. It never panics (\<open>view_adj_runs\<close>), so the panic is no case here.\<close>

definition view_adj :: "View \<Rightarrow> adjacency" where
  "view_adj v forward u =
     (case cleanAdjacency v u forward of
        Some (Some (ns, ks)) \<Rightarrow> zip ns ks
      | _ \<Rightarrow> (case walkAdjacency v u forward of Some es \<Rightarrow> es | None \<Rightarrow> []))"

section \<open>Endpoints\<close>

record Endpoint =
  ep_IDs :: "nodeid list option"
  ep_Bits :: "bitset option"

definition Unconstrained :: "Endpoint \<Rightarrow> bool" where
  "Unconstrained e \<longleftrightarrow> ep_IDs e = None \<and> ep_Bits e = None"

definition ep_Count :: "Endpoint \<Rightarrow> nat \<Rightarrow> nat" where
  "ep_Count e n = (case ep_IDs e of Some ids \<Rightarrow> length ids
     | None \<Rightarrow> (case ep_Bits e of Some b \<Rightarrow> Bitset_Count b | None \<Rightarrow> n))"

definition ep_Iterate :: "Endpoint \<Rightarrow> View \<Rightarrow> nodeid list" where
  "ep_Iterate e v = (case ep_IDs e of Some ids \<Rightarrow> ids
     | None \<Rightarrow> (case ep_Bits e of Some b \<Rightarrow> Bitset_Iterate b
       | None \<Rightarrow> filter (\<lambda>i. \<not> (Overlay v \<and> \<not> Alive v i)) (map u32 [0..<v_NodeCount v])))"

definition ep_Has :: "Endpoint \<Rightarrow> nodeid \<Rightarrow> bool" where
  "ep_Has e i = (case ep_IDs e of
       Some ids \<Rightarrow> (let p = sort_Search (length ids) (\<lambda>j. ids ! j \<ge> i) in p < length ids \<and> ids ! p = i)
     | None \<Rightarrow> (case ep_Bits e of Some b \<Rightarrow> Bitset_Has b i | None \<Rightarrow> True))"

definition hasOut :: "View \<Rightarrow> nodeid \<Rightarrow> bool option" where
  "hasOut v i =
     (if \<not> Overlay v then do { (targets, _, _) \<leftarrow> v_Out v i; Some (length targets > 0) }
      else do { es \<leftarrow> OutEdges v i; Some (es \<noteq> []) })"

fun conflict_loop :: "View \<Rightarrow> Endpoint \<Rightarrow> nodeid list \<Rightarrow> bool option" where
  "conflict_loop v big [] = Some False"
| "conflict_loop v big (i # ids) =
     (if \<not> ep_Has big i then conflict_loop v big ids
      else do { out \<leftarrow> hasOut v i; if out then Some True else conflict_loop v big ids })"

definition SelfEndpointConflict :: "View \<Rightarrow> Endpoint \<Rightarrow> Endpoint \<Rightarrow> bool option" where
  "SelfEndpointConflict v roots terminals =
     (let n = v_NodeCount v;
          (small, big) = (if ep_Count terminals n < ep_Count roots n then (terminals, roots) else (roots, terminals)) in
      conflict_loop v big (ep_Iterate small v))"

section \<open>Queries\<close>

datatype Mode = ModeAll | ModeOne | ModeAllPerPair

record Query =
  q_Roots :: Endpoint
  q_Terminals :: Endpoint
  q_Kinds :: "kindmask option"
  q_Mode :: Mode
  ExcludeSelf :: bool
  q_MaxDepth :: int
  q_Limit :: int
  MemoryLimit :: nat
  q_Ctx :: "(nat \<Rightarrow> bool) option"
  q_PairBudget :: int
  q_SideBudget :: int

definition MaxDepth :: int where "MaxDepth = 15"

definition MaxRepresentableDepth :: int where "MaxRepresentableDepth = 127"

definition PairBudget :: int where "PairBudget = 4096"

definition SideBudget :: int where "SideBudget = 16"

record shortestLevel =
  best :: int

definition level_admit :: "shortestLevel \<Rightarrow> int \<Rightarrow> pathSink \<Rightarrow> memBudget \<Rightarrow> bool \<times> shortestLevel \<times> pathSink \<times> memBudget" where
  "level_admit l d sink budget =
     (if d < 1 then (False, l, sink, budget)
      else if best l = 0 \<or> d < best l then (True, l\<lparr>best := d\<rparr>, sink_reset sink, budget_reset budget)
      else (d = best l, l, sink, budget))"

definition level_final :: "shortestLevel \<Rightarrow> bool" where
  "level_final l \<longleftrightarrow> best l = 1"

definition pathCap :: "int \<Rightarrow> int \<Rightarrow> bool \<Rightarrow> int \<times> bool" where
  "pathCap lim have oneMore =
     (if lim > 0 \<and> have \<ge> lim then (0, True)
      else (if oneMore \<and> (lim \<le> 0 \<or> have + 1 < lim) then have + 1 else lim, False))"

text \<open>A loop whose callback returns whether to stop; the result says whether it was stopped.\<close>

fun iterate :: "('a \<Rightarrow> 's \<Rightarrow> (bool \<times> 's) option) \<Rightarrow> 'a list \<Rightarrow> 's \<Rightarrow> (bool \<times> 's) option" where
  "iterate f [] s = Some (False, s)"
| "iterate f (x # xs) s = do { (stop, s') \<leftarrow> f x s; if stop then Some (True, s') else iterate f xs s' }"

record walkState =
  w_level :: shortestLevel
  w_budget :: memBudget
  w_sink :: pathSink
  w_cancel :: cancelCheck
  w_err :: "query_error option"

definition walkStart :: "Query \<Rightarrow> nat \<Rightarrow> memBudget \<Rightarrow> walkState" where
  "walkStart q now budget = \<lparr>w_level = \<lparr>best = 0\<rparr>, w_budget = budget, w_sink = emptySink,
     w_cancel = \<lparr>c_ctx = q_Ctx q, c_now = now, c_unchecked = 0\<rparr>, w_err = None\<rparr>"

text \<open>
  What every strategy does in \<open>ModeAll\<close> with a pair at distance \<open>d\<close>: the distance is admitted first,
  then \<open>enum\<close>, the strategy's enumeration, runs up to the cap.
\<close>

type_synonym emission = "int \<Rightarrow> memBudget \<Rightarrow> pathSink \<Rightarrow> (query_error option \<times> memBudget \<times> pathSink) option"

definition run_emit :: "emission \<Rightarrow> int \<Rightarrow> walkState \<Rightarrow> (bool \<times> walkState) option" where
  "run_emit enum cap s =
     do { (err, budget, sink) \<leftarrow> enum cap (w_budget s) (w_sink s);
          Some (err \<noteq> None, s\<lparr>w_budget := budget, w_sink := sink, w_err := err\<rparr>) }"

definition level_emit :: "Query \<Rightarrow> emission \<Rightarrow> int \<Rightarrow> walkState \<Rightarrow> (bool \<times> walkState) option" where
  "level_emit q enum d s =
     (let (admitted, level, sink, budget) = level_admit (w_level s) d (w_sink s) (w_budget s);
          s = s\<lparr>w_level := level, w_sink := sink, w_budget := budget\<rparr> in
      if \<not> admitted then Some (False, s)
      else case pathCap (q_Limit q) (int (sink_n sink)) False of
             (cap, True) \<Rightarrow> Some (level_final level, s)
           | (cap, False) \<Rightarrow> run_emit enum cap s)"

section \<open>Strategy A: one search per pair\<close>

definition pair_level :: "adjacency \<Rightarrow> Query \<Rightarrow> int \<Rightarrow> nodeid \<Rightarrow> nodeid \<Rightarrow>
    walkState \<times> scratch \<times> scratch \<times> scratch \<Rightarrow> (bool \<times> walkState \<times> scratch \<times> scratch \<times> scratch) option" where
  "pair_level adj q maxDepth r t st =
     (case st of (s, scF, scT, scTmp) \<Rightarrow>
      do { let depth = (if best (w_level s) > 0 \<and> best (w_level s) < maxDepth then best (w_level s) else maxDepth);
           (D, scF, scT, scTmp) \<leftarrow> pairShortest adj r t (q_Kinds q) depth scF scT scTmp;
           (stop, s) \<leftarrow> level_emit q (\<lambda>cap budget sink. pairEnumerate adj r t D (q_Kinds q) cap budget scF scT sink) D s;
           Some (stop, s, scF, scT, scTmp) })"

definition pair_step :: "adjacency \<Rightarrow> Query \<Rightarrow> int \<Rightarrow> nodeid \<Rightarrow> nodeid \<Rightarrow>
    walkState \<times> scratch \<times> scratch \<times> scratch \<Rightarrow> (bool \<times> walkState \<times> scratch \<times> scratch \<times> scratch) option" where
  "pair_step adj q maxDepth r t st =
     (case st of (s, scF, scT, scTmp) \<Rightarrow>
      let (cancel, over) = cancel_err (w_cancel s); s = s\<lparr>w_cancel := cancel\<rparr> in
      if over then Some (True, s\<lparr>w_err := Some ErrContext\<rparr>, scF, scT, scTmp)
      else if ExcludeSelf q \<and> r = t then Some (False, s, scF, scT, scTmp)
      else if q_Mode q = ModeAll then pair_level adj q maxDepth r t (s, scF, scT, scTmp)
      else case pathCap (q_Limit q) (int (sink_n (w_sink s))) (q_Mode q = ModeOne) of
             (cap, True) \<Rightarrow> Some (True, s, scF, scT, scTmp)
           | (cap, False) \<Rightarrow>
               do { ((err, budget, sink), scF, scT, scTmp) \<leftarrow>
                      pairPaths adj r t (q_Kinds q) maxDepth cap (w_budget s) scF scT scTmp (w_sink s);
                    Some (err \<noteq> None, s\<lparr>w_budget := budget, w_sink := sink, w_err := err\<rparr>, scF, scT, scTmp) })"

record run_env =
  env_pool :: "nat \<Rightarrow> scratch option"
  env_procs :: nat
  env_start :: "nat \<Rightarrow> nat"
  env_merge :: nat

definition finish :: "walkState \<Rightarrow> (path list \<times> query_error option) option" where
  "finish s = do { paths \<leftarrow> sink_paths (w_sink s); Some (paths, w_err s) }"

definition strategyPairs :: "run_env \<Rightarrow> View \<Rightarrow> Query \<Rightarrow> int \<Rightarrow> memBudget \<Rightarrow> (path list \<times> query_error option) option" where
  "strategyPairs env v q maxDepth budget =
     (let n = v_NodeCount v; sc = (\<lambda>i. getScratch (env_pool env i) n) in
      do { (_, s, _) \<leftarrow> iterate (\<lambda>r. iterate (pair_step (view_adj v) q maxDepth r) (ep_Iterate (q_Terminals q) v))
             (ep_Iterate (q_Roots q) v) (walkStart q (env_merge env) budget, sc 0, sc 1, sc 2);
           finish s })"

section \<open>Strategy B: one search per node of the small side\<close>

text \<open>One worker: element \<open>i\<close> of its chunk, with the buffer the pool hands out for it.\<close>

fun worker :: "adjacency \<Rightarrow> nat \<Rightarrow> (nat \<Rightarrow> scratch option) \<Rightarrow> bool \<Rightarrow> kindmask option \<Rightarrow> int \<Rightarrow> cancelCheck \<Rightarrow> nat \<Rightarrow> nodeid list \<Rightarrow>
    (query_error + (nodeid \<times> scratch) list) option" where
  "worker adj n pool forward kinds maxDepth cancel i [] = Some (Inr [])"
| "worker adj n pool forward kinds maxDepth cancel i (x # xs) =
     (let (cancel, over) = cancel_err cancel in
      if over then Some (Inl ErrContext)
      else do { (_, sc) \<leftarrow> bfsFrom adj x forward kinds maxDepth (getScratch (pool i) n);
                r \<leftarrow> worker adj n pool forward kinds maxDepth cancel (i + 1) xs;
                Some (case r of Inl e \<Rightarrow> Inl e | Inr res \<Rightarrow> Inr ((x, sc) # res)) })"

fun wait :: "(query_error + 'a list) list \<Rightarrow> query_error + 'a list" where
  "wait [] = Inr []"
| "wait (Inl e # rs) = Inl e"
| "wait (Inr xs # rs) = (case wait rs of Inl e \<Rightarrow> Inl e | Inr ys \<Rightarrow> Inr (xs @ ys))"

definition bfsSmallSide :: "run_env \<Rightarrow> View \<Rightarrow> (nat \<Rightarrow> bool) option \<Rightarrow> nodeid list \<Rightarrow> bool \<Rightarrow> kindmask option \<Rightarrow> int \<Rightarrow>
    (query_error + (nodeid \<times> scratch) list) option" where
  "bfsSmallSide env v ctx elems forward kinds maxDepth =
     (let workers = min (env_procs env) (length elems) in
      if workers < 1 then Some (Inr [])
      else let chunk = (length elems + workers - 1) div workers in
        do { rs \<leftarrow> foldM (\<lambda>w rs. do { r \<leftarrow> worker (view_adj v) (v_NodeCount v) (env_pool env) forward kinds maxDepth
                      \<lparr>c_ctx = ctx, c_now = env_start env w, c_unchecked = 0\<rparr> (w * chunk) (take chunk (drop (w * chunk) elems));
                    Some (rs @ [r]) }) [0..<workers] [];
             Some (wait rs) })"

definition materialize :: "Endpoint \<Rightarrow> View \<Rightarrow> nodeid list" where
  "materialize e v = ep_Iterate e v"

text \<open>What both merges do with a pair whose distance the buffer \<open>sc\<close> holds: \<open>from\<close> is the end it is walked from.\<close>

definition merge_pair :: "adjacency \<Rightarrow> Query \<Rightarrow> nodeid \<Rightarrow> scratch \<Rightarrow> bool \<Rightarrow> int \<Rightarrow> walkState \<Rightarrow> (bool \<times> walkState) option" where
  "merge_pair adj q from sc forward d s =
     (let enum = (\<lambda>cap budget sink. enumerate adj from sc (q_Kinds q) cap budget sink forward) in
      if q_Mode q = ModeAll then level_emit q enum d s
      else case pathCap (q_Limit q) (int (sink_n (w_sink s))) (q_Mode q = ModeOne) of
             (cap, True) \<Rightarrow> Some (True, s)
           | (cap, False) \<Rightarrow> run_emit enum cap s)"

definition merge_visit :: "adjacency \<Rightarrow> Query \<Rightarrow> bool \<Rightarrow> nodeid \<Rightarrow> nodeid \<Rightarrow> scratch \<Rightarrow> walkState \<Rightarrow> (bool \<times> walkState) option" where
  "merge_visit adj q forward x elem sc s =
     (if ExcludeSelf q \<and> elem = x then Some (False, s)
      else do { reached \<leftarrow> scratch_get sc x;
                case reached of None \<Rightarrow> Some (False, s) | Some d \<Rightarrow> merge_pair adj q x sc forward d s })"

definition mergeSmallRoots :: "run_env \<Rightarrow> View \<Rightarrow> Query \<Rightarrow> memBudget \<Rightarrow> (nodeid \<times> scratch) list \<Rightarrow> (path list \<times> query_error option) option" where
  "mergeSmallRoots env v q budget results =
     do { (_, s) \<leftarrow> iterate (\<lambda>(r, sc). iterate (\<lambda>t s.
            let (cancel, over) = cancel_step (w_cancel s); s = s\<lparr>w_cancel := cancel\<rparr> in
            if over then Some (True, s\<lparr>w_err := Some ErrContext\<rparr>) else merge_visit (view_adj v) q False t r sc s)
            (ep_Iterate (q_Terminals q) v)) results (walkStart q (env_merge env) budget);
          finish s }"

definition mergeSmallTerminals :: "run_env \<Rightarrow> View \<Rightarrow> Query \<Rightarrow> memBudget \<Rightarrow> (nodeid \<times> scratch) list \<Rightarrow> (path list \<times> query_error option) option" where
  "mergeSmallTerminals env v q budget results =
     do { (_, s) \<leftarrow> iterate (\<lambda>r s.
            let (cancel, over) = cancel_step (w_cancel s); s = s\<lparr>w_cancel := cancel\<rparr> in
            if over then Some (True, s\<lparr>w_err := Some ErrContext\<rparr>)
            else iterate (\<lambda>(t, sc). merge_visit (view_adj v) q True r t sc) results s)
            (ep_Iterate (q_Roots q) v) (walkStart q (env_merge env) budget);
          finish s }"

definition strategySmallSide :: "run_env \<Rightarrow> View \<Rightarrow> Query \<Rightarrow> int \<Rightarrow> memBudget \<Rightarrow> bool \<Rightarrow> (path list \<times> query_error option) option" where
  "strategySmallSide env v q maxDepth budget smallIsRoots =
     (let elems = materialize (if smallIsRoots then q_Roots q else q_Terminals q) v in
      case budget_reserve budget (u64 (scratchBytes (v_NodeCount v) * length elems)) of
        None \<Rightarrow> Some ([], Some ErrTooLarge)
      | Some budget \<Rightarrow>
          do { r \<leftarrow> bfsSmallSide env v (q_Ctx q) elems smallIsRoots (q_Kinds q) maxDepth;
               case r of
                 Inl e \<Rightarrow> Some ([], Some e)
               | Inr results \<Rightarrow>
                   if smallIsRoots then mergeSmallRoots env v q budget results
                   else mergeSmallTerminals env v q budget results })"

section \<open>The dispatch\<close>

definition i64 :: "int \<Rightarrow> int" where
  "i64 i = (i + 2 ^ 63) mod 2 ^ 64 - 2 ^ 63"

definition AllShortestPaths :: "run_env \<Rightarrow> View \<Rightarrow> Query \<Rightarrow> (path list \<times> query_error option) option" where
  "AllShortestPaths env v q =
     (let n = v_NodeCount v;
          maxDepth = (if q_MaxDepth q \<le> 0 then MaxDepth else q_MaxDepth q);
          budget = \<lparr>limit = MemoryLimit q, used = 0, reserved = 0\<rparr>;
          pairBudget = (if q_PairBudget q > 0 then q_PairBudget q else PairBudget);
          sideBudget = (if q_SideBudget q > 0 then q_SideBudget q else SideBudget);
          rootCount = int (ep_Count (q_Roots q) n); termCount = int (ep_Count (q_Terminals q) n) in
      if snd (cancel_err \<lparr>c_ctx = q_Ctx q, c_now = 0, c_unchecked = 0\<rparr>) then Some ([], Some ErrContext)
      else if maxDepth > MaxRepresentableDepth then Some ([], Some ErrTooLarge)
      else if \<not> Unconstrained (q_Roots q) \<and> \<not> Unconstrained (q_Terminals q) \<and> i64 (rootCount * termCount) \<le> pairBudget
      then strategyPairs env v q maxDepth budget
      else if \<not> Unconstrained (q_Roots q) \<and> rootCount \<le> sideBudget then strategySmallSide env v q maxDepth budget True
      else if \<not> Unconstrained (q_Terminals q) \<and> termCount \<le> sideBudget then strategySmallSide env v q maxDepth budget False
      else Some ([], Some ErrTooLarge))"

end
