(* ===== verification/Shortest.thy ===== *)
theory Shortest
  imports Paths
begin

text \<open>
  Correctness of the shortest-path queries of \<open>internal/engine/traverse/traverse.go\<close>. The interface
  between the searches and the view is the locale \<open>search_graph\<close>: a neighbour relation whose two
  directions list the same edges, each once, and stay within the view's ids. Inside it both
  strategies are proved to collect exactly the shortest paths of the pairs, in order and up to the
  limit; a view is an instance when its edges are unique per start, end and kind.
\<close>

section \<open>The interface\<close>

locale search_graph =
  fixes wf :: "'v \<Rightarrow> bool" and count :: "'v \<Rightarrow> nat" and adj :: "'v \<Rightarrow> adjacency"
  assumes dual_adj: "wf v \<Longrightarrow> dual (adj v)" and adj_range: "wf v \<Longrightarrow> in_range (count v) (adj v)"

section \<open>A view is a search graph\<close>

definition unique_edges :: "View \<Rightarrow> bool" where
  "unique_edges v \<longleftrightarrow> (\<forall>e e' x. view_edges v e = Some x \<and> view_edges v e' = Some x \<longrightarrow> e = e')"

definition path_wf :: "View \<Rightarrow> bool" where
  "path_wf v \<longleftrightarrow> view_wf v \<and> v_NodeCount v \<le> 2 ^ 31 \<and> unique_edges v"

lemma zip_map_pair: "zip (map f xs) (map g xs) = map (\<lambda>x. (f x, g x)) xs"
  by (induction xs) simp_all

text \<open>The visits of a search never panic, and they are the iteration's, whichever of the two forms is read.\<close>

lemma view_adj_runs:
  assumes "view_wf v" and "v_NodeCount v \<le> 2 ^ 31"
  shows "u < v_NodeCount v \<Longrightarrow> ok (if fwd then OutEdges v u else InEdges v u) (\<lambda>es.
      cleanAdjacency v u fwd = Some (Some (map fst es, map (fst \<circ> snd) es)) \<and> view_adj v fwd u = map (\<lambda>(w, k, e). (w, k)) es)"
    and "\<not> u < v_NodeCount v \<Longrightarrow> walkAdjacency v u fwd = Some [] \<and> view_adj v fwd u = []"
proof -
  assume u: "u < v_NodeCount v"
  obtain os ins where e: "OutEdges v u = Some os" "InEdges v u = Some ins"
    using OutEdges_exact [OF assms(1) u] InEdges_exact [OF assms(1) u] by (auto simp: ok_iff)
  show "ok (if fwd then OutEdges v u else InEdges v u) (\<lambda>es.
      cleanAdjacency v u fwd = Some (Some (map fst es, map (fst \<circ> snd) es)) \<and> view_adj v fwd u = map (\<lambda>(w, k, e). (w, k)) es)"
    using OutSlices_eq [OF assms u e(1)] InSlices_eq [OF assms u e(2)] e
    by (auto simp: cleanAdjacency_def view_adj_def zip_map_pair case_prod_unfold)
next
  assume u: "\<not> u < v_NodeCount v"
  then have "OutSlices v u = Some None" "InSlices v u = Some None" "\<not> Alive v u"
    by (simp_all add: OutSlices_def InSlices_def CleanOut_def CleanIn_def v_NodeCount_def Alive_def)
  then show "walkAdjacency v u fwd = Some [] \<and> view_adj v fwd u = []"
    by (simp add: cleanAdjacency_def walkAdjacency_def view_adj_def OutEdges_def InEdges_def)
qed

lemma view_adj_iff:
  assumes "path_wf v"
  shows "(w, k) \<in> set (view_adj v fwd u) \<longleftrightarrow> u < v_NodeCount v \<and> w < v_NodeCount v \<and>
      (\<exists>e. view_edges v e = Some (if fwd then (pg v u, pg v w, k) else (pg v w, pg v u, k)))"
    and "distinct (view_adj v fwd u)"
proof -
  have v: "view_wf v" "v_NodeCount v \<le> 2 ^ 31" "unique_edges v" using assms by (simp_all add: path_wf_def)
  note runs = view_adj_runs [OF v(1,2)]
  have "((w, k) \<in> set (view_adj v fwd u) \<longleftrightarrow> u < v_NodeCount v \<and> w < v_NodeCount v \<and>
      (\<exists>e. view_edges v e = Some (if fwd then (pg v u, pg v w, k) else (pg v w, pg v u, k)))) \<and> distinct (view_adj v fwd u)" for w k
  proof (cases "u < v_NodeCount v")
    case True
    define Q where "Q = (\<lambda>w (k :: int). if fwd then (pg v u, pg v w, k) else (pg v w, pg v u, k))"
    obtain es where es: "view_adj v fwd u = map (\<lambda>(w, k, e). (w, k)) es" "distinct (map (snd \<circ> snd) es)"
        "\<And>w k e. (w, k, e) \<in> set es \<longleftrightarrow> w < v_NodeCount v \<and> view_edges v e = Some (Q w k)"
      using runs(1) [OF True, of fwd] OutEdges_exact [OF v(1) True] InEdges_exact [OF v(1) True]
      by (cases fwd) (auto simp: ok_iff Q_def)
    have "x = y" if es': "x \<in> set es" "y \<in> set es" and eq: "(case x of (w, k, e) \<Rightarrow> (w, k)) = (case y of (w, k, e) \<Rightarrow> (w, k))" for x y
    proof -
      obtain w k e e' where xy: "x = (w, k, e)" "y = (w, k, e')" using eq by (cases x; cases y) auto
      then have "view_edges v e = Some (Q w k)" "view_edges v e' = Some (Q w k)" using es' es(3) by auto
      then have "e = e'" using v(3) unfolding unique_edges_def by blast
      then show ?thesis using xy by simp
    qed
    then have "inj_on (\<lambda>(w, k, e). (w, k)) (set es)" by (rule inj_onI)
    moreover have "distinct es" using es(2) by (simp add: distinct_map)
    ultimately have "distinct (view_adj v fwd u)" unfolding es(1) by (simp add: distinct_map)
    moreover have "(w, k) \<in> set (view_adj v fwd u) \<longleftrightarrow> (\<exists>e. (w, k, e) \<in> set es)" unfolding es(1) by force
    ultimately show ?thesis using True unfolding es(3) Q_def by blast
  qed (use runs(2) in simp)
  then show "(w, k) \<in> set (view_adj v fwd u) \<longleftrightarrow> u < v_NodeCount v \<and> w < v_NodeCount v \<and>
      (\<exists>e. view_edges v e = Some (if fwd then (pg v u, pg v w, k) else (pg v w, pg v u, k)))" "distinct (view_adj v fwd u)" by blast+
qed

interpretation vg: search_graph path_wf v_NodeCount view_adj
proof unfold_locales
  fix v assume v: "path_wf v"
  show "dual (view_adj v)" unfolding dual_def using view_adj_iff [OF v] by auto
  show "in_range (v_NodeCount v) (view_adj v)" unfolding in_range_def using view_adj_iff(1) [OF v] by blast
qed

section \<open>What a query asks for\<close>

text \<open>
  \<open>listed\<close> pairs each (root, terminal) with a list of its shortest paths, each once. From these lists
  the mode selects: all of them, the first path of each, or those of the overall shortest length.
\<close>

definition listed :: "adjacency \<Rightarrow> kindmask option \<Rightarrow> nat \<Rightarrow> (nodeid \<times> nodeid) list \<Rightarrow> path list list \<Rightarrow> bool" where
  "listed adj kinds lim pairs Ls \<longleftrightarrow> list_all2 (\<lambda>(r, t) L. distinct L \<and> set L = shortest_paths adj kinds lim r t) pairs Ls"

definition hops :: "path list \<Rightarrow> nat" where
  "hops L = (case L of [] \<Rightarrow> 0 | p # _ \<Rightarrow> length (Kinds p))"

definition shortest_of :: "path list list \<Rightarrow> path list \<Rightarrow> bool" where
  "shortest_of Ls L \<longleftrightarrow> L \<noteq> [] \<and> (\<forall>L' \<in> set Ls. L' \<noteq> [] \<longrightarrow> hops L \<le> hops L')"

fun select :: "Mode \<Rightarrow> path list list \<Rightarrow> path list list" where
  "select ModeAll Ls = filter (shortest_of Ls) Ls"
| "select ModeOne Ls = map (take 1) Ls"
| "select ModeAllPerPair Ls = Ls"

definition upto_limit :: "int \<Rightarrow> 'a list \<Rightarrow> 'a list" where
  "upto_limit lim xs = (if lim > 0 then take (nat lim) xs else xs)"

definition wanted :: "Query \<Rightarrow> path list list \<Rightarrow> path list" where
  "wanted q Ls = upto_limit (q_Limit q) (concat (select (q_Mode q) Ls))"

definition pairs_of :: "'a list \<Rightarrow> 'b list \<Rightarrow> ('a \<times> 'b) list" where
  "pairs_of rs ts = concat (map (\<lambda>r. map (Pair r) ts) rs)"

section \<open>The level of a prefix\<close>

definition level_of :: "path list list \<Rightarrow> nat" where
  "level_of Ls = foldl (\<lambda>l L. if L = [] then l else if l = 0 then hops L else min l (hops L)) 0 Ls"

definition nonempty_hops :: "path list list \<Rightarrow> bool" where
  "nonempty_hops Ls \<longleftrightarrow> (\<forall>L \<in> set Ls. L \<noteq> [] \<longrightarrow> 0 < hops L)"

lemma level_snoc: "level_of (Ls @ [L]) = (if L = [] then level_of Ls else if level_of Ls = 0 \<or> hops L < level_of Ls then hops L else level_of Ls)"
  by (simp add: level_of_def)

lemma level_props:
  "nonempty_hops Ls \<Longrightarrow> (level_of Ls = 0 \<longleftrightarrow> (\<forall>L \<in> set Ls. L = [])) \<and> (\<forall>L \<in> set Ls. L \<noteq> [] \<longrightarrow> level_of Ls \<le> hops L) \<and>
    (level_of Ls \<noteq> 0 \<longrightarrow> (\<exists>L \<in> set Ls. L \<noteq> [] \<and> hops L = level_of Ls))"
proof (induction Ls rule: rev_induct)
  case Nil
  then show ?case by (simp add: level_of_def)
next
  case (snoc L Ls)
  then have h: "nonempty_hops Ls" "L \<noteq> [] \<Longrightarrow> 0 < hops L" by (simp_all add: nonempty_hops_def)
  note IH = snoc.IH [OF h(1)]
  show ?case
  proof (cases "L = []")
    case False
    then show ?thesis using IH h(2) by (auto simp: level_snoc intro: order.strict_implies_order le_less_trans)
  qed (use IH in \<open>auto simp: level_snoc\<close>)
qed

lemma shortest_of_iff:
  assumes "nonempty_hops Ls" and "L \<in> set Ls"
  shows "shortest_of Ls L \<longleftrightarrow> L \<noteq> [] \<and> hops L = level_of Ls"
proof -
  note l = level_props [OF assms(1)]
  show ?thesis
  proof
    assume s: "shortest_of Ls L"
    then have "L \<noteq> []" by (simp add: shortest_of_def)
    then obtain M where "M \<in> set Ls" "M \<noteq> []" "hops M = level_of Ls" using l assms(2) by blast
    then have "hops L \<le> level_of Ls" using s by (auto simp: shortest_of_def)
    then show "L \<noteq> [] \<and> hops L = level_of Ls" using l assms(2) \<open>L \<noteq> []\<close> by (meson le_antisym)
  next
    assume "L \<noteq> [] \<and> hops L = level_of Ls"
    then show "shortest_of Ls L" using l by (simp add: shortest_of_def)
  qed
qed

lemma select_level: "nonempty_hops Ls \<Longrightarrow> select ModeAll Ls = filter (\<lambda>L. L \<noteq> [] \<and> hops L = level_of Ls) Ls"
  using shortest_of_iff by (auto intro: filter_cong)

text \<open>How the selection grows by one list: a shorter one starts it over, an equal one extends it.\<close>

lemma select_snoc:
  assumes h: "nonempty_hops (Ls @ [L])"
  shows "select ModeAll (Ls @ [L]) =
    (if L = [] then select ModeAll Ls
     else if level_of Ls = 0 \<or> hops L < level_of Ls then [L]
     else if hops L = level_of Ls then select ModeAll Ls @ [L] else select ModeAll Ls)"
proof -
  have h': "nonempty_hops Ls" using h by (simp add: nonempty_hops_def)
  note sel = select_level [OF h] select_level [OF h'] and l = level_props [OF h']
  have none: "filter (\<lambda>M. M \<noteq> [] \<and> hops M = hops L) Ls = []" if "level_of Ls = 0 \<or> hops L < level_of Ls"
    using that l by (fastforce simp: filter_empty_conv)
  show ?thesis unfolding sel level_snoc using none by auto
qed

text \<open>A full selection of one hop is final.\<close>

lemma select_final:
  assumes h: "nonempty_hops (Ls @ Ms)" and one: "level_of Ls = 1"
  shows "\<exists>Ns. select ModeAll (Ls @ Ms) = select ModeAll Ls @ Ns"
proof -
  have h': "nonempty_hops Ls" using h by (simp add: nonempty_hops_def)
  obtain L where L: "L \<in> set Ls" "L \<noteq> []" "hops L = 1" using level_props [OF h'] one by auto
  then have "level_of (Ls @ Ms) \<le> 1" "level_of (Ls @ Ms) \<noteq> 0" using level_props [OF h] by auto
  then have "level_of (Ls @ Ms) = 1" by simp
  then show ?thesis unfolding select_level [OF h] select_level [OF h'] one by simp
qed

section \<open>Limits and caps\<close>

text \<open>Emitting a pair's list into a sink that holds the wanted prefix of \<open>xs\<close>.\<close>

lemma cap_done: "pathCap lim (int (length (upto_limit lim xs))) one = (cap, True) \<Longrightarrow> upto_limit lim (xs @ ys) = upto_limit lim xs"
  by (auto simp: pathCap_def upto_limit_def split: if_splits)

lemma cap_emits:
  assumes "pathCap lim (int (length (upto_limit lim xs))) False = (cap, False)" and "emits cap b (upto_limit lim xs) L (None, b', sink)"
  shows "sink_rep sink (upto_limit lim (xs @ L))"
  using assms by (auto simp: pathCap_def upto_limit_def emits_def emitted_def min_def split: if_splits)

lemma cap_emits_one:
  assumes "pathCap lim (int (length (upto_limit lim xs))) True = (cap, False)" and "emits cap b (upto_limit lim xs) L (None, b', sink)"
  shows "sink_rep sink (upto_limit lim (xs @ take 1 L))"
proof -
  have [simp]: "nat (int n + 1) - n = Suc 0" for n by simp
  show ?thesis using assms by (auto simp: pathCap_def upto_limit_def emits_def emitted_def min_def split: if_splits)
qed

section \<open>Loops\<close>

lemma iterate_rule:
  assumes "I [] s" and "\<And>pre x post t. xs = pre @ x # post \<Longrightarrow> I pre t \<Longrightarrow> ok (f x t) (\<lambda>(stop, t'). if stop then Q t' else I (pre @ [x]) t')"
  shows "ok (iterate f xs s) (\<lambda>(stop, t). if stop then Q t else I xs t)"
proof -
  have "I pre t \<Longrightarrow> xs = pre @ ys \<Longrightarrow> ok (iterate f ys t) (\<lambda>(stop, t). if stop then Q t else I xs t)" for ys pre t
  proof (induction ys arbitrary: pre t)
    case (Cons y ys)
    obtain stop t' where st: "f y t = Some (stop, t')" "if stop then Q t' else I (pre @ [y]) t'"
      using assms(2) [OF Cons.prems(2,1)] by (auto simp: ok_iff)
    then show ?case using Cons.IH [of "pre @ [y]" t'] Cons.prems(2) by (cases stop) simp_all
  qed simp
  from this [of "[]" s xs] show ?thesis using assms(1) by simp
qed

lemma pairs_of_split: "pairs_of (pre @ x # post) ys = pairs_of pre ys @ map (Pair x) ys @ pairs_of post ys"
  by (simp add: pairs_of_def)

lemma pairs_of_map: "pairs_of (map f xs) (map g ys) = map (map_prod f g) (pairs_of xs ys)"
  by (induction xs) (simp_all add: pairs_of_def)

lemma set_pairs_of: "set (pairs_of xs ys) = set xs \<times> set ys"
  by (auto simp: pairs_of_def)

text \<open>Two nested loops: \<open>I\<close> holds of the pairs visited so far.\<close>

lemma iterate_row:
  assumes step: "\<And>pre x y post t. pairs_of xs ys = pre @ (x, y) # post \<Longrightarrow> I pre t \<Longrightarrow>
      ok (f x y t) (\<lambda>(stop, t'). if stop then Q t' else I (pre @ [(x, y)]) t')"
    and xs: "xs = pre @ x # post" and start: "I (pairs_of pre ys) s"
  shows "ok (iterate (f x) ys s) (\<lambda>(stop, t). if stop then Q t else I (pairs_of (pre @ [x]) ys) t)"
proof -
  have "ok (iterate (f x) ys s) (\<lambda>(stop, t). if stop then Q t else I (pairs_of pre ys @ map (Pair x) ys) t)"
  proof (rule iterate_rule [where I = "\<lambda>zs. I (pairs_of pre ys @ map (Pair x) zs)"])
    fix zs y rest t
    assume "ys = zs @ y # rest" and "I (pairs_of pre ys @ map (Pair x) zs) t"
    then show "ok (f x y t) (\<lambda>(stop, t'). if stop then Q t' else I (pairs_of pre ys @ map (Pair x) (zs @ [y])) t')"
      using step [of "pairs_of pre ys @ map (Pair x) zs" x y "map (Pair x) rest @ pairs_of post ys" t] xs by (auto simp: pairs_of_split elim!: ok_mono)
  qed (use start in simp)
  moreover have "pairs_of (pre @ [x]) ys = pairs_of pre ys @ map (Pair x) ys" by (simp add: pairs_of_def)
  ultimately show ?thesis by (simp only:)
qed

lemma iterate_nested:
  assumes "I [] s" and "\<And>pre x y post t. pairs_of xs ys = pre @ (x, y) # post \<Longrightarrow> I pre t \<Longrightarrow>
      ok (f x y t) (\<lambda>(stop, t'). if stop then Q t' else I (pre @ [(x, y)]) t')"
  shows "ok (iterate (\<lambda>x. iterate (f x) ys) xs s) (\<lambda>(stop, t). if stop then Q t else I (pairs_of xs ys) t)"
proof (rule iterate_rule [where I = "\<lambda>pre. I (pairs_of pre ys)"])
  show "I (pairs_of [] ys) s" using assms(1) by (simp add: pairs_of_def)
qed (rule iterate_row [where I = I and Q = Q and f = f, OF assms(2)])

section \<open>Lists of shortest paths\<close>

lemma walk_exists: "(hop adj fwd kinds ^^ d) u v \<Longrightarrow> walks_of adj fwd kinds u v d \<noteq> {}"
proof (induction d arbitrary: u)
  case 0
  then show ?case by (simp add: walks_of_0)
next
  case (Suc d)
  obtain w where w: "hop adj fwd kinds u w" "(hop adj fwd kinds ^^ d) w v" using Suc.prems by (metis relpowp_Suc_D2)
  obtain ns ks where n: "(ns, ks) \<in> walks_of adj fwd kinds w v d" using Suc.IH [OF w(2)] by auto
  obtain k where k: "(w, k) \<in> set (adj fwd u)" "kind_allowed kinds k" using w(1) by (auto simp: hop_def)
  have ns: "ns \<noteq> []" "hd ns = w" using is_walk_hd [OF n] by auto
  then have "(u # ns, k # ks) \<in> walks_of adj fwd kinds u v (Suc d)"
    using n k by (cases ns) (auto simp: walks_of_def)
  then show ?case by blast
qed

lemma shortest_list:
  assumes "set L = shortest_paths adj kinds lim r t"
  shows "(\<exists>d. 0 < d \<and> d \<le> lim \<and> at_dist (hop adj True kinds) r d t \<and> L \<noteq> [] \<and> hops L = d) \<or>
    (\<nexists>d. 0 < d \<and> d \<le> lim \<and> at_dist (hop adj True kinds) r d t) \<and> L = []"
proof (cases "\<exists>d. 0 < d \<and> d \<le> lim \<and> at_dist (hop adj True kinds) r d t")
  case True
  then obtain d where d: "0 < d" "d \<le> lim" "at_dist (hop adj True kinds) r d t" by blast
  have sp: "set L = as_path ` walks_of adj True kinds r t d" unfolding assms by (rule shortest_paths_at [OF d(3,1,2)])
  have "walks_of adj True kinds r t d \<noteq> {}" using d(3) by (intro walk_exists) (simp add: at_dist_def)
  then have ne: "L \<noteq> []" using sp by auto
  then have "hd L \<in> as_path ` walks_of adj True kinds r t d" using sp hd_in_set by metis
  then have "length (Kinds (hd L)) = d" by (auto simp: as_path_def walks_of_def)
  then have "hops L = d" using ne by (cases L) (simp_all add: hops_def)
  then show ?thesis using d ne by blast
next
  case False
  then have "set L = {}" unfolding assms by (rule no_shortest_paths)
  then show ?thesis using False by simp
qed

lemma listed_hops: "listed adj kinds lim P Ls \<Longrightarrow> nonempty_hops Ls"
proof -
  assume l: "listed adj kinds lim P Ls"
  have "0 < hops L" if L: "L \<in> set Ls" "L \<noteq> []" for L
  proof -
    obtain r t where "set L = shortest_paths adj kinds lim r t" using l L(1) by (auto simp: listed_def list_all2_conv_all_nth in_set_conv_nth case_prod_unfold)
    from shortest_list [OF this] show ?thesis using L(2) by auto
  qed
  then show ?thesis by (simp add: nonempty_hops_def)
qed

lemma listed_snoc: "listed adj kinds lim P Ls \<Longrightarrow> distinct L \<Longrightarrow> set L = shortest_paths adj kinds lim r t \<Longrightarrow> listed adj kinds lim (P @ [(r, t)]) (Ls @ [L])"
  by (auto simp: listed_def intro!: list_all2_appendI)

section \<open>Collecting\<close>

definition bad_err :: "Query \<Rightarrow> query_error \<Rightarrow> bool" where
  "bad_err q e \<longleftrightarrow> e = ErrContext \<and> (\<exists>ctx i. q_Ctx q = Some ctx \<and> ctx i) \<or> e = ErrMemoryLimit \<and> 0 < MemoryLimit q"

definition collecting :: "adjacency \<Rightarrow> Query \<Rightarrow> nat \<Rightarrow> (nodeid \<times> nodeid) list \<Rightarrow> walkState \<Rightarrow> bool" where
  "collecting adj q lim P s \<longleftrightarrow> (\<exists>Ls. listed adj (q_Kinds q) lim P Ls \<and> sink_rep (w_sink s) (wanted q Ls) \<and>
       (q_Mode q = ModeAll \<longrightarrow> best (w_level s) = int (level_of Ls))) \<and>
     w_err s = None \<and> limit (w_budget s) = MemoryLimit q \<and> c_ctx (w_cancel s) = q_Ctx q"

definition collected :: "adjacency \<Rightarrow> Query \<Rightarrow> nat \<Rightarrow> (nodeid \<times> nodeid) list \<Rightarrow> walkState \<Rightarrow> bool" where
  "collected adj q lim P s \<longleftrightarrow>
     (case w_err s of None \<Rightarrow> \<exists>Ls. listed adj (q_Kinds q) lim P Ls \<and> sink_rep (w_sink s) (wanted q Ls)
      | Some e \<Rightarrow> bad_err q e \<and> (\<exists>ps. sink_rep (w_sink s) ps))"

lemma collecting_done: "collecting adj q lim P s \<Longrightarrow> collected adj q lim P s"
  by (auto simp: collecting_def collected_def)

lemma collecting_empty:
  assumes "collecting adj q lim P s" and "\<nexists>d. 0 < d \<and> d \<le> lim \<and> at_dist (hop adj True (q_Kinds q)) r d t"
  shows "collecting adj q lim (P @ [(r, t)]) s"
proof -
  obtain Ls where Ls: "listed adj (q_Kinds q) lim P Ls" "sink_rep (w_sink s) (wanted q Ls)" "q_Mode q = ModeAll \<longrightarrow> best (w_level s) = int (level_of Ls)"
    using assms(1) by (auto simp: collecting_def)
  have "shortest_paths adj (q_Kinds q) lim r t = {}" using assms(2) by (rule no_shortest_paths)
  then have l: "listed adj (q_Kinds q) lim (P @ [(r, t)]) (Ls @ [[]])" using listed_snoc [OF Ls(1), of "[]" r t] by simp
  have "wanted q (Ls @ [[]]) = wanted q Ls"
    using select_snoc [OF listed_hops [OF l]] by (cases "q_Mode q") (simp_all add: wanted_def)
  moreover have "level_of (Ls @ [[]]) = level_of Ls" by (simp add: level_snoc)
  ultimately show ?thesis using l Ls assms(1) unfolding collecting_def by metis
qed

definition enumerates :: "adjacency \<Rightarrow> kindmask option \<Rightarrow> nat \<Rightarrow> nodeid \<Rightarrow> nodeid \<Rightarrow> emission \<Rightarrow> bool" where
  "enumerates adj kinds lim r t enum \<longleftrightarrow> (\<forall>cap b sink ps. sink_rep sink ps \<longrightarrow>
     (\<exists>L. distinct L \<and> set L = shortest_paths adj kinds lim r t \<and> ok (enum cap b sink) (emits cap b ps L)))"

text \<open>One enumeration into a sink that holds the wanted prefix of \<open>xs\<close>.\<close>

lemma run_emit_collects:
  assumes enum: "enumerates adj (q_Kinds q) lim r t enum" and Ls: "listed adj (q_Kinds q) lim P Ls"
    and s: "sink_rep (w_sink s) (upto_limit (q_Limit q) xs)" "limit (w_budget s) = MemoryLimit q" "c_ctx (w_cancel s) = q_Ctx q"
    and cap: "pathCap (q_Limit q) (int (length (upto_limit (q_Limit q) xs))) one = (cap, False)"
    and grow: "\<And>L. set L = shortest_paths adj (q_Kinds q) lim r t \<Longrightarrow> distinct L \<Longrightarrow>
      wanted q (Ls @ [L]) = upto_limit (q_Limit q) (xs @ (if one then take 1 L else L)) \<and>
      (q_Mode q = ModeAll \<longrightarrow> best (w_level s) = int (level_of (Ls @ [L])))"
  shows "ok (run_emit enum cap s) (\<lambda>(stop, s'). if stop then collected adj q lim A s' else collecting adj q lim (P @ [(r, t)]) s')"
proof -
  obtain L where L: "distinct L" "set L = shortest_paths adj (q_Kinds q) lim r t"
      "ok (enum cap (w_budget s) (w_sink s)) (emits cap (w_budget s) (upto_limit (q_Limit q) xs) L)"
    using enum s(1) unfolding enumerates_def by blast
  obtain err b' sk where run: "enum cap (w_budget s) (w_sink s) = Some (err, b', sk)" "emits cap (w_budget s) (upto_limit (q_Limit q) xs) L (err, b', sk)"
    using L(3) by (auto simp: ok_iff)
  let ?s = "s\<lparr>w_budget := b', w_sink := sk, w_err := err\<rparr>"
  have res: "run_emit enum cap s = Some (err \<noteq> None, ?s)" by (simp add: run_emit_def run(1))
  show ?thesis
  proof (cases err)
    case None
    have "sink_rep sk (upto_limit (q_Limit q) (xs @ (if one then take 1 L else L)))"
      using cap_emits [of "q_Limit q" xs cap] cap_emits_one [of "q_Limit q" xs cap] cap run(2) None by (cases one) simp_all
    moreover have "limit b' = MemoryLimit q" using run(2) s(2) by (simp add: emits_def)
    ultimately have "collecting adj q lim (P @ [(r, t)]) ?s"
      using grow [OF L(2,1)] listed_snoc [OF Ls L(1,2)] None s(3) by (auto simp: collecting_def intro!: exI [of _ "Ls @ [L]"])
    then show ?thesis using res None by simp
  next
    case (Some e)
    then have "collected adj q lim A ?s" using run(2) s(2) by (auto simp: collected_def emits_def bad_err_def)
    then show ?thesis using res Some by simp
  qed
qed

lemma listed_join: "listed adj kinds lim (P @ [(r, t)]) (Ls @ [L]) \<Longrightarrow> listed adj kinds lim R Ms \<Longrightarrow> listed adj kinds lim (P @ (r, t) # R) (Ls @ L # Ms)"
  using list_all2_appendI [of _ "P @ [(r, t)]" "Ls @ [L]" R Ms] by (simp add: listed_def)

lemma collecting_longer:
  assumes coll: "collecting adj q lim P s" and mode: "q_Mode q = ModeAll" and d: "0 < d" "d \<le> lim" "at_dist (hop adj True (q_Kinds q)) r d t"
    and L: "distinct L" "set L = shortest_paths adj (q_Kinds q) lim r t" and longer: "0 < best (w_level s)" "best (w_level s) < int d"
  shows "collecting adj q lim (P @ [(r, t)]) s"
proof -
  obtain Ls where Ls: "listed adj (q_Kinds q) lim P Ls" "sink_rep (w_sink s) (wanted q Ls)" "best (w_level s) = int (level_of Ls)"
    and s: "w_err s = None" "limit (w_budget s) = MemoryLimit q" "c_ctx (w_cancel s) = q_Ctx q"
    using coll mode by (auto simp: collecting_def)
  have "L \<noteq> [] \<and> hops L = d" using shortest_list [OF L(2)] d(1,2,3) at_dist_unique [OF d(3)] by metis
  note l = listed_snoc [OF Ls(1) L]
  have "select ModeAll (Ls @ [L]) = select ModeAll Ls" "level_of (Ls @ [L]) = level_of Ls"
    using select_snoc [OF listed_hops [OF l]] \<open>L \<noteq> [] \<and> hops L = d\<close> longer Ls(3) by (simp_all add: level_snoc)
  then show ?thesis using l Ls s mode unfolding collecting_def wanted_def by fastforce
qed

text \<open>\<open>ModeAll\<close>: a pair at distance \<open>d\<close> extends, restarts or leaves alone what has been collected.\<close>

lemma level_emit_step:
  assumes coll: "collecting adj q lim P s" and mode: "q_Mode q = ModeAll" and d: "0 < d" "d \<le> lim" "at_dist (hop adj True (q_Kinds q)) r d t"
    and enum: "enumerates adj (q_Kinds q) lim r t enum" and rest: "listed adj (q_Kinds q) lim R Ms"
  shows "ok (level_emit q enum (int d) s) (\<lambda>(stop, s'). if stop then collected adj q lim (P @ (r, t) # R) s' else collecting adj q lim (P @ [(r, t)]) s')"
proof -
  obtain Ls where Ls: "listed adj (q_Kinds q) lim P Ls" "sink_rep (w_sink s) (wanted q Ls)" "best (w_level s) = int (level_of Ls)"
    and s: "w_err s = None" "limit (w_budget s) = MemoryLimit q" "c_ctx (w_cancel s) = q_Ctx q"
    using coll mode by (auto simp: collecting_def)
  have grow: "select ModeAll (Ls @ [L]) =
      (if level_of Ls = 0 \<or> d < level_of Ls then [L] else if d = level_of Ls then select ModeAll Ls @ [L] else select ModeAll Ls)"
      "level_of (Ls @ [L]) = (if level_of Ls = 0 \<or> d < level_of Ls then d else level_of Ls)"
    if sp: "set L = shortest_paths adj (q_Kinds q) lim r t" "distinct L" for L
  proof -
    have "L \<noteq> [] \<and> hops L = d" using shortest_list [OF sp(1)] d(1,2,3) at_dist_unique [OF d(3)] by metis
    then show "select ModeAll (Ls @ [L]) = (if level_of Ls = 0 \<or> d < level_of Ls then [L] else if d = level_of Ls then select ModeAll Ls @ [L] else select ModeAll Ls)"
      "level_of (Ls @ [L]) = (if level_of Ls = 0 \<or> d < level_of Ls then d else level_of Ls)"
      using select_snoc [OF listed_hops [OF listed_snoc [OF Ls(1) sp(2,1)]]] by (simp_all add: level_snoc)
  qed
  obtain L0 where L0: "distinct L0" "set L0 = shortest_paths adj (q_Kinds q) lim r t" using enum Ls(2) unfolding enumerates_def by blast
  note l0 = listed_snoc [OF Ls(1) L0] and g0 = grow [OF L0(2,1)]
  let ?go = "\<lambda>(stop, s'). if stop then collected adj q lim (P @ (r, t) # R) s' else collecting adj q lim (P @ [(r, t)]) s'"
  consider (new) "level_of Ls = 0 \<or> d < level_of Ls" | (same) "d = level_of Ls" "level_of Ls \<noteq> 0" | (longer) "level_of Ls \<noteq> 0" "level_of Ls < d" by linarith
  then show ?thesis
  proof cases
    case new
    let ?s = "s\<lparr>w_level := \<lparr>best = int d\<rparr>, w_sink := sink_reset (w_sink s), w_budget := budget_reset (w_budget s)\<rparr>"
    have "level_admit (w_level s) (int d) (w_sink s) (w_budget s) = (True, \<lparr>best = int d\<rparr>, sink_reset (w_sink s), budget_reset (w_budget s))"
      using new d(1) Ls(3) by (auto simp: level_admit_def)
    moreover have cap: "pathCap (q_Limit q) (int (sink_n (sink_reset (w_sink s)))) False = (q_Limit q, False)" by (simp add: pathCap_def sink_reset_def)
    ultimately have run: "level_emit q enum (int d) s = run_emit enum (q_Limit q) ?s" by (simp add: level_emit_def)
    have "ok (run_emit enum (q_Limit q) ?s) ?go"
    proof (rule run_emit_collects [OF enum Ls(1), where xs = "[]" and one = False])
      show "sink_rep (w_sink ?s) (upto_limit (q_Limit q) [])" using ps.rep_reset by (simp add: upto_limit_def)
      show "pathCap (q_Limit q) (int (length (upto_limit (q_Limit q) []))) False = (q_Limit q, False)" by (simp add: pathCap_def upto_limit_def)
    qed (use s grow new mode in \<open>simp_all add: budget_reset_def wanted_def\<close>)
    then show ?thesis by (simp only: run)
  next
    case same
    let ?s = "s\<lparr>w_level := w_level s, w_sink := w_sink s, w_budget := w_budget s\<rparr>"
    have adm: "level_admit (w_level s) (int d) (w_sink s) (w_budget s) = (True, w_level s, w_sink s, w_budget s)"
      using same d(1) Ls(3) by (simp add: level_admit_def)
    have n: "sink_n (w_sink s) = length (wanted q Ls)" by (rule ps.rep_size [OF Ls(2)])
    obtain cap fin where cap: "pathCap (q_Limit q) (int (length (wanted q Ls))) False = (cap, fin)" by fastforce
    show ?thesis
    proof (cases fin)
      case True
      then have run: "level_emit q enum (int d) s = Some (level_final (w_level s), s)" using adm cap n by (simp add: level_emit_def)
      have full: "upto_limit (q_Limit q) (concat (select ModeAll Ls) @ ys) = wanted q Ls" for ys
        using cap_done [of "q_Limit q" "concat (select ModeAll Ls)" False cap ys] cap True mode by (simp add: wanted_def)
      show ?thesis
      proof (cases "level_of Ls = 1")
        case True
        have l: "listed adj (q_Kinds q) lim (P @ (r, t) # R) (Ls @ L0 # Ms)" by (rule listed_join [OF l0 rest])
        obtain Ns where "select ModeAll (Ls @ L0 # Ms) = select ModeAll Ls @ Ns" using select_final [OF listed_hops [OF l] True] by blast
        then have "wanted q (Ls @ L0 # Ms) = wanted q Ls" using full mode by (simp add: wanted_def)
        then have "collected adj q lim (P @ (r, t) # R) s" using l Ls(2) s(1) unfolding collected_def by fastforce
        then show ?thesis using run True Ls(3) by (simp add: level_final_def)
      next
        case False
        have "wanted q (Ls @ [L0]) = wanted q Ls" using g0(1) same full mode by (simp add: wanted_def)
        then have "collecting adj q lim (P @ [(r, t)]) s" using l0 g0(2) same Ls s unfolding collecting_def by fastforce
        then show ?thesis using run False Ls(3) by (simp add: level_final_def)
      qed
    next
      case False
      then have run: "level_emit q enum (int d) s = run_emit enum cap s" using adm cap n by (simp add: level_emit_def)
      have "ok (run_emit enum cap s) ?go"
        by (rule run_emit_collects [OF enum Ls(1), where xs = "concat (select ModeAll Ls)" and one = False])
          (use Ls(2,3) s grow same mode cap False in \<open>simp_all add: wanted_def\<close>)
      then show ?thesis by (simp only: run)
    qed
  next
    case longer
    then have "level_admit (w_level s) (int d) (w_sink s) (w_budget s) = (False, w_level s, w_sink s, w_budget s)"
      using d(1) Ls(3) by (simp add: level_admit_def)
    then have run: "level_emit q enum (int d) s = Some (False, s)" by (simp add: level_emit_def)
    have "collecting adj q lim (P @ [(r, t)]) s" by (rule collecting_longer [OF coll mode d L0]) (use longer Ls(3) in simp_all)
    then show ?thesis using run by simp
  qed
qed

text \<open>The other modes.\<close>

lemma plain_stop:
  assumes coll: "collecting adj q lim P s" and mode: "q_Mode q \<noteq> ModeAll" and rest: "listed adj (q_Kinds q) lim R Ms"
    and cap: "pathCap (q_Limit q) (int (sink_n (w_sink s))) (q_Mode q = ModeOne) = (cap, True)"
  shows "collected adj q lim (P @ R) s"
proof -
  obtain Ls where Ls: "listed adj (q_Kinds q) lim P Ls" "sink_rep (w_sink s) (wanted q Ls)" and s: "w_err s = None"
    using coll by (auto simp: collecting_def)
  have l: "listed adj (q_Kinds q) lim (P @ R) (Ls @ Ms)" using Ls(1) rest by (auto simp: listed_def intro!: list_all2_appendI)
  have n: "sink_n (w_sink s) = length (wanted q Ls)" by (rule ps.rep_size [OF Ls(2)])
  have "wanted q (Ls @ Ms) = wanted q Ls"
    using cap_done [of "q_Limit q" "concat (select (q_Mode q) Ls)" "q_Mode q = ModeOne" cap "concat (select (q_Mode q) Ms)"] cap n mode
    by (cases "q_Mode q") (simp_all add: wanted_def)
  then show ?thesis using l Ls(2) s unfolding collected_def by fastforce
qed

lemma plain_emit_step:
  assumes coll: "collecting adj q lim P s" and mode: "q_Mode q \<noteq> ModeAll"
    and enum: "enumerates adj (q_Kinds q) lim r t enum"
    and cap: "pathCap (q_Limit q) (int (sink_n (w_sink s))) (q_Mode q = ModeOne) = (cap, False)"
  shows "ok (run_emit enum cap s) (\<lambda>(stop, s'). if stop then collected adj q lim A s' else collecting adj q lim (P @ [(r, t)]) s')"
proof -
  obtain Ls where Ls: "listed adj (q_Kinds q) lim P Ls" "sink_rep (w_sink s) (wanted q Ls)"
    and s: "w_err s = None" "limit (w_budget s) = MemoryLimit q" "c_ctx (w_cancel s) = q_Ctx q"
    using coll by (auto simp: collecting_def)
  have n: "sink_n (w_sink s) = length (wanted q Ls)" by (rule ps.rep_size [OF Ls(2)])
  show ?thesis
    by (rule run_emit_collects [OF enum Ls(1), where xs = "concat (select (q_Mode q) Ls)" and one = "q_Mode q = ModeOne"])
      (use Ls(2) s n cap mode in \<open>cases "q_Mode q"; simp add: wanted_def\<close>)+
qed

section \<open>Cancellation\<close>

lemma cancel_err_ok: "cancel_err c = (c', over) \<Longrightarrow> c_ctx c' = c_ctx c \<and> (over \<longrightarrow> (\<exists>ctx i. c_ctx c = Some ctx \<and> ctx i))"
  by (auto simp: cancel_err_def split: option.splits)

lemma cancel_step_ok: "cancel_step c = (c', over) \<Longrightarrow> c_ctx c' = c_ctx c \<and> (over \<longrightarrow> (\<exists>ctx i. c_ctx c = Some ctx \<and> ctx i))"
  by (auto simp: cancel_step_def Let_def split: option.splits if_splits)

lemma collecting_cancel: "collecting adj q lim P s \<Longrightarrow> c_ctx c = c_ctx (w_cancel s) \<Longrightarrow> collecting adj q lim P (s\<lparr>w_cancel := c\<rparr>)"
  by (auto simp: collecting_def)

lemma collected_cancelled:
  "collecting adj q lim P s \<Longrightarrow> \<exists>ctx i. c_ctx (w_cancel s) = Some ctx \<and> ctx i \<Longrightarrow> collected adj q lim A (s\<lparr>w_cancel := c, w_err := Some ErrContext\<rparr>)"
  by (auto simp: collecting_def collected_def bad_err_def)

section \<open>The strategies on a search graph\<close>

context search_graph
begin

lemma shortest_lists:
  assumes v: "wf v" and lim: "lim \<le> 127"
  shows "\<forall>(r, t) \<in> set P. r < count v \<and> t < count v \<Longrightarrow> \<exists>Ls. listed (adj v) kinds lim P Ls"
proof (induction P)
  case (Cons x P)
  obtain r t where x: "x = (r, t)" by (cases x)
  have rt: "r < count v" "t < count v" using Cons.prems x by auto
  obtain deep sc where sc: "scratch_wf (count v) sc" "scratch_map sc = dist_upto (hop (adj v) False kinds) t lim"
    using bfsFrom_correct [OF newScratch_wf adj_range [OF v] rt(2), of "int lim" False kinds] lim by (auto simp: ok_iff)
  have "holds_dist_to (adj v) True kinds t lim (count v) sc" using holds_dist_toI [OF dual_adj [OF v] sc(1), of True] sc(2) by simp
  from enumerate_correct [OF this adj_range [OF v] lim dual_adj [OF v] rt(1) ps.rep_empty, of 0 "\<lparr>limit = 0, used = 0, reserved = 0\<rparr>"]
  obtain L where "distinct L" "set L = shortest_paths (adj v) kinds lim r t" by auto
  moreover obtain Ls where "listed (adj v) kinds lim P Ls" using Cons by auto
  ultimately have "listed (adj v) kinds lim (x # P) (L # Ls)" using x by (simp add: listed_def)
  then show ?case by blast
qed (auto simp: listed_def intro!: exI [of _ "[]"])

lemma pair_level_ok:
  assumes v: "wf v" and max: "0 \<le> maxDepth" "maxDepth \<le> 127" and rt: "r < count v" "t < count v"
    and coll: "collecting (adj v) q (nat maxDepth) P s" and mode: "q_Mode q = ModeAll" and rest: "listed (adj v) (q_Kinds q) (nat maxDepth) R Ms"
    and sc: "scratch_wf (count v) F" "scratch_wf (count v) T" "scratch_wf (count v) Tmp"
  shows "ok (pair_level (adj v) q maxDepth r t (s, F, T, Tmp)) (\<lambda>(stop, s', F', T', Tmp').
    if stop then collected (adj v) q (nat maxDepth) (P @ (r, t) # R) s'
    else collecting (adj v) q (nat maxDepth) (P @ [(r, t)]) s' \<and> scratch_wf (count v) F' \<and> scratch_wf (count v) T' \<and> scratch_wf (count v) Tmp')"
proof -
  define depth where "depth = (if best (w_level s) > 0 \<and> best (w_level s) < maxDepth then best (w_level s) else maxDepth)"
  have depth: "0 \<le> depth" "depth \<le> 127" "depth \<le> maxDepth" using max by (auto simp: depth_def)
  let ?E = "hop (adj v) True (q_Kinds q)"
  let ?some = "\<exists>d. 0 < d \<and> int d \<le> depth \<and> at_dist ?E r d t"
  obtain D F' T' Tmp' where p: "pairShortest (adj v) r t (q_Kinds q) depth F T Tmp = Some (D, F', T', Tmp')"
    "scratch_wf (count v) F'" "scratch_wf (count v) T'" "scratch_wf (count v) Tmp'"
    "if ?some then D \<le> depth \<and> pair_found (count v) (adj v) (q_Kinds q) r t D F' T' else D = -1"
    using pairShortest_correct [OF dual_adj [OF v] adj_range [OF v] depth(1,2) sc rt, of "q_Kinds q"] unfolding ok_iff split_paired_Ex prod.case by blast
  let ?enum = "\<lambda>cap budget sink. pairEnumerate (adj v) r t D (q_Kinds q) cap budget F' T' sink"
  have run: "pair_level (adj v) q maxDepth r t (s, F, T, Tmp) = do { (stop, s) \<leftarrow> level_emit q ?enum D s; Some (stop, s, F', T', Tmp') }"
    using p(1) by (simp add: pair_level_def depth_def [symmetric])
  have "ok (level_emit q ?enum D s) (\<lambda>(stop, s'). if stop then collected (adj v) q (nat maxDepth) (P @ (r, t) # R) s'
      else collecting (adj v) q (nat maxDepth) (P @ [(r, t)]) s')"
  proof (cases ?some)
    case True
    then have f: "D \<le> int (nat maxDepth)" "pair_found (count v) (adj v) (q_Kinds q) r t D F' T'" using p(5) depth by auto
    then obtain d where d: "0 < d" "d \<le> nat maxDepth" "at_dist ?E r d t" "D = int d" by (auto simp: pair_found_def)
    have "enumerates (adj v) (q_Kinds q) (nat maxDepth) r t ?enum"
      unfolding enumerates_def using pairEnumerate_correct [OF p(2,3) adj_range [OF v] dual_adj [OF v] f(2) rt(1) _ f(1)] by blast
    from level_emit_step [OF coll mode d(1-3) this rest] show ?thesis unfolding d(4) .
  next
    case False
    then have "D = -1" using p(5) by simp
    then have no: "level_emit q ?enum D s = Some (False, s)" by (simp add: level_emit_def level_admit_def)
    have "collecting (adj v) q (nat maxDepth) (P @ [(r, t)]) s"
    proof (cases "\<exists>d. 0 < d \<and> d \<le> nat maxDepth \<and> at_dist ?E r d t")
      case True
      then obtain d where d: "0 < d" "d \<le> nat maxDepth" "at_dist ?E r d t" by blast
      then have "depth < int d" using \<open>\<not> ?some\<close> by (meson not_le)
      then have "0 < best (w_level s)" "best (w_level s) < int d" using d(2) max by (auto simp: depth_def split: if_splits)
      moreover have "nat maxDepth \<le> 127" using max by simp
      then obtain L where "distinct L" "set L = shortest_paths (adj v) (q_Kinds q) (nat maxDepth) r t"
        using shortest_lists [OF v, of "nat maxDepth" "[(r, t)]" "q_Kinds q"] rt max by (auto simp: listed_def list_all2_Cons1)
      ultimately show ?thesis using collecting_longer [OF coll mode d] by blast
    qed (rule collecting_empty [OF coll])
    then show ?thesis using no by simp
  qed
  then show ?thesis unfolding run by (auto simp: p(2-4) elim!: ok_mono)
qed

lemma pair_step_ok:
  assumes v: "wf v" and max: "0 \<le> maxDepth" "maxDepth \<le> 127" and rt: "r < count v" "t < count v"
    and coll: "collecting (adj v) q (nat maxDepth) P s" and rest: "listed (adj v) (q_Kinds q) (nat maxDepth) R Ms"
    and sc: "scratch_wf (count v) F" "scratch_wf (count v) T" "scratch_wf (count v) Tmp"
  shows "ok (pair_step (adj v) q maxDepth r t (s, F, T, Tmp)) (\<lambda>(stop, s', F', T', Tmp').
    if stop then collected (adj v) q (nat maxDepth) (P @ (r, t) # R) s'
    else collecting (adj v) q (nat maxDepth) (P @ [(r, t)]) s' \<and> scratch_wf (count v) F' \<and> scratch_wf (count v) T' \<and> scratch_wf (count v) Tmp')"
proof -
  obtain c over where c: "cancel_err (w_cancel s) = (c, over)" by fastforce
  let ?s = "s\<lparr>w_cancel := c\<rparr>"
  have coll': "collecting (adj v) q (nat maxDepth) P ?s" using collecting_cancel [OF coll] cancel_err_ok [OF c] by blast
  have lim: "nat maxDepth \<le> 127" using max by simp
  consider (over) over | (self) "\<not> over" "r = t" "ExcludeSelf q" | (level) "\<not> over" "\<not> (ExcludeSelf q \<and> r = t)" "q_Mode q = ModeAll"
    | (plain) "\<not> over" "\<not> (ExcludeSelf q \<and> r = t)" "q_Mode q \<noteq> ModeAll" by blast
  then show ?thesis
  proof cases
    case over
    then show ?thesis using c collected_cancelled [OF coll] cancel_err_ok [OF c] by (simp add: pair_step_def)
  next
    case self
    have "\<nexists>d. 0 < d \<and> d \<le> nat maxDepth \<and> at_dist (hop (adj v) True (q_Kinds q)) r d t"
      using self(2) at_dist_unique at_dist_0 by (metis less_irrefl)
    from collecting_empty [OF coll' this] show ?thesis using self c sc by (simp add: pair_step_def)
  next
    case level
    then have "pair_step (adj v) q maxDepth r t (s, F, T, Tmp) = pair_level (adj v) q maxDepth r t (?s, F, T, Tmp)"
      using c unfolding pair_step_def by auto
    then show ?thesis using pair_level_ok [OF v max rt coll' level(3) rest sc] by simp
  next
    case plain
    obtain cap fin where cap: "pathCap (q_Limit q) (int (sink_n (w_sink ?s))) (q_Mode q = ModeOne) = (cap, fin)" by fastforce
    show ?thesis
    proof (cases fin)
      case True
      obtain Ls where "listed (adj v) (q_Kinds q) (nat maxDepth) [(r, t)] Ls" using shortest_lists [OF v lim, of "[(r, t)]"] rt by auto
      then have "listed (adj v) (q_Kinds q) (nat maxDepth) ((r, t) # R) (Ls @ Ms)"
        using rest list_all2_appendI [of _ "[(r, t)]" Ls R Ms] by (simp add: listed_def)
      from plain_stop [OF coll' plain(3) this] cap True show ?thesis using plain c unfolding pair_step_def by auto
    next
      case False
      let ?paths = "\<lambda>cap b sink. pairPaths (adj v) r t (q_Kinds q) maxDepth cap b F T Tmp sink"
      have wf: "\<exists>L. distinct L \<and> set L = shortest_paths (adj v) (q_Kinds q) (nat maxDepth) r t \<and> ok (?paths cap b sink) (\<lambda>(res, F', T', Tmp').
          emits cap b ps L res \<and> scratch_wf (count v) F' \<and> scratch_wf (count v) T' \<and> scratch_wf (count v) Tmp')" if "sink_rep sink ps" for cap b sink ps
        using pairPaths_correct [OF dual_adj [OF v] adj_range [OF v] max sc rt that] .
      have "enumerates (adj v) (q_Kinds q) (nat maxDepth) r t (\<lambda>cap b sink. map_option fst (?paths cap b sink))"
        unfolding enumerates_def using wf by (fastforce simp: ok_iff)
      from plain_emit_step [OF coll' plain(3) this, of cap] cap False
      have step: "ok (run_emit (\<lambda>cap b sink. map_option fst (?paths cap b sink)) cap ?s) (\<lambda>(stop, s').
          if stop then collected (adj v) q (nat maxDepth) (P @ (r, t) # R) s' else collecting (adj v) q (nat maxDepth) (P @ [(r, t)]) s')" by simp
      obtain ps where "sink_rep (w_sink ?s) ps" using coll' by (auto simp: collecting_def)
      from wf [OF this, of cap "w_budget ?s"]
      obtain res F' T' Tmp' where p: "?paths cap (w_budget ?s) (w_sink ?s) = Some (res, F', T', Tmp')"
        "scratch_wf (count v) F'" "scratch_wf (count v) T'" "scratch_wf (count v) Tmp'" by (auto simp: ok_iff)
      obtain err b' sk where res: "res = (err, b', sk)" by (rule prod_cases3)
      show ?thesis using step plain c cap False p unfolding res by (auto simp: pair_step_def run_emit_def)
    qed
  qed
qed

lemma merge_visit_ok:
  assumes v: "wf v" and lim: "lim \<le> 127" and x: "x < count v" "el < count v"
    and sc: "scratch_wf (count v) sc" "scratch_map sc = dist_upto (hop (adj v) (\<not> fwd) (q_Kinds q)) el lim"
    and coll: "collecting (adj v) q lim P s" and rest: "listed (adj v) (q_Kinds q) lim R Ms" and rt: "(r, t) = (if fwd then (x, el) else (el, x))"
  shows "ok (merge_visit (adj v) q fwd x el sc s) (\<lambda>(stop, s').
    if stop then collected (adj v) q lim (P @ (r, t) # R) s' else collecting (adj v) q lim (P @ [(r, t)]) s')"
proof -
  let ?E = "hop (adj v) True (q_Kinds q)"
  have h: "holds_dist_to (adj v) fwd (q_Kinds q) el lim (count v) sc" by (rule holds_dist_toI [OF dual_adj [OF v] sc])
  have flip: "at_dist (hop (adj v) (\<not> fwd) (q_Kinds q)) el d x = at_dist ?E r d t" for d
    using rt at_dist_flip [OF dual_adj [OF v], of fwd "q_Kinds q" el d x] at_dist_flip [OF dual_adj [OF v], of True "q_Kinds q" el d x]
    by (cases fwd) auto
  have get: "scratch_get sc x = Some (dist_upto (hop (adj v) (\<not> fwd) (q_Kinds q)) el lim x)" using sb.get_amap [OF sc(1) x(1)] sc(2) by simp
  let ?enum = "\<lambda>cap budget sink. enumerate (adj v) x sc (q_Kinds q) cap budget sink fwd"
  have enum: "enumerates (adj v) (q_Kinds q) lim r t ?enum"
    unfolding enumerates_def using enumerate_correct [OF h adj_range [OF v] lim dual_adj [OF v] x(1)] rt by (cases fwd) auto
  have rng: "r < count v" "t < count v" using rt x by (auto split: if_splits)
  have same: "\<nexists>d. 0 < d \<and> d \<le> lim \<and> at_dist ?E r d t" if "r = t"
    using that at_dist_unique at_dist_0 by (metis less_irrefl)
  show ?thesis
  proof (cases "ExcludeSelf q \<and> el = x")
    case True
    then have "r = t" using rt by (simp split: if_splits)
    from collecting_empty [OF coll same [OF this]] show ?thesis using True by (simp add: merge_visit_def)
  next
    case False
    show ?thesis
    proof (cases "dist_upto (hop (adj v) (\<not> fwd) (q_Kinds q)) el lim x")
      case None
      then have "\<nexists>d. 0 < d \<and> d \<le> lim \<and> at_dist ?E r d t" unfolding dist_upto_None flip by blast
      from collecting_empty [OF coll this] show ?thesis using False None get by (auto simp: merge_visit_def)
    next
      case (Some y)
      then obtain d where d: "y = int d" "d \<le> lim" "at_dist ?E r d t" unfolding dist_upto_iff flip by blast
      have run: "merge_visit (adj v) q fwd x el sc s = merge_pair (adj v) q x sc fwd (int d) s"
        using False Some get d(1) by (auto simp: merge_visit_def)
      show ?thesis
      proof (cases "q_Mode q = ModeAll")
        case True
        then have mp: "merge_pair (adj v) q x sc fwd (int d) s = level_emit q ?enum (int d) s" by (simp add: merge_pair_def)
        show ?thesis
        proof (cases "d = 0")
          case True
          then have "r = t" using d(3) at_dist_0 by metis
          from collecting_empty [OF coll same [OF this]] show ?thesis using run mp True by (simp add: level_emit_def level_admit_def)
        next
          case False
          then show ?thesis using level_emit_step [OF coll \<open>q_Mode q = ModeAll\<close> _ d(2,3) enum rest] run mp by simp
        qed
      next
        case plain: False
        obtain cap fin where cap: "pathCap (q_Limit q) (int (sink_n (w_sink s))) (q_Mode q = ModeOne) = (cap, fin)" by fastforce
        show ?thesis
        proof (cases fin)
          case True
          obtain Ls where "listed (adj v) (q_Kinds q) lim [(r, t)] Ls" using shortest_lists [OF v lim, of "[(r, t)]"] rng by auto
          then have "listed (adj v) (q_Kinds q) lim ((r, t) # R) (Ls @ Ms)"
            using rest list_all2_appendI [of _ "[(r, t)]" Ls R Ms] by (simp add: listed_def)
          from plain_stop [OF coll plain this] cap True show ?thesis using plain run by (simp add: merge_pair_def)
        next
          case False
          then show ?thesis using plain_emit_step [OF coll plain enum, of cap] cap plain run by (simp add: merge_pair_def)
        qed
      qed
    qed
  qed
qed

text \<open>The loops: what is left to visit always has lists of its own.\<close>

lemma rest_listed:
  assumes "wf v" and "lim \<le> 127" and "set rs \<subseteq> {..<count v}" and "set ts \<subseteq> {..<count v}" and "pairs_of rs ts = pre @ (r, t) # post"
  obtains Ms where "r < count v" "t < count v" "listed (adj v) kinds lim post Ms"
proof -
  have "set (pre @ (r, t) # post) \<subseteq> {..<count v} \<times> {..<count v}" unfolding assms(5) [symmetric] set_pairs_of using assms(3,4) by auto
  moreover from this have "\<forall>(r, t) \<in> set post. r < count v \<and> t < count v" by auto
  ultimately show ?thesis using shortest_lists [OF assms(1,2)] that by fastforce
qed

lemma pairs_loop_ok:
  assumes v: "wf v" and max: "0 \<le> maxDepth" "maxDepth \<le> 127" and rs: "set rs \<subseteq> {..<count v}" and ts: "set ts \<subseteq> {..<count v}"
    and coll: "collecting (adj v) q (nat maxDepth) [] s"
    and sc: "scratch_wf (count v) F" "scratch_wf (count v) T" "scratch_wf (count v) Tmp"
  shows "ok (iterate (\<lambda>r. iterate (pair_step (adj v) q maxDepth r) ts) rs (s, F, T, Tmp)) (\<lambda>(_, s', _). collected (adj v) q (nat maxDepth) (pairs_of rs ts) s')"
proof -
  let ?I = "\<lambda>P (s', F', T', Tmp'). collecting (adj v) q (nat maxDepth) P s' \<and> scratch_wf (count v) F' \<and> scratch_wf (count v) T' \<and> scratch_wf (count v) Tmp'"
  let ?Q = "\<lambda>(s', F', T', Tmp'). collected (adj v) q (nat maxDepth) (pairs_of rs ts) s'"
  have lim: "nat maxDepth \<le> 127" using max by simp
  have "ok (iterate (\<lambda>r. iterate (pair_step (adj v) q maxDepth r) ts) rs (s, F, T, Tmp)) (\<lambda>(stop, st). if stop then ?Q st else ?I (pairs_of rs ts) st)"
  proof (rule iterate_nested)
    show "?I [] (s, F, T, Tmp)" using coll sc by simp
  next
    fix pre r t post st
    assume split: "pairs_of rs ts = pre @ (r, t) # post" and I: "?I pre st"
    obtain s' F' T' Tmp' where st: "st = (s', F', T', Tmp')" by (rule prod_cases4)
    obtain Ms where "r < count v" "t < count v" "listed (adj v) (q_Kinds q) (nat maxDepth) post Ms" by (rule rest_listed [OF v lim rs ts split])
    from pair_step_ok [OF v max this(1,2) _ this(3), of pre s' F' T' Tmp'] I
    show "ok (pair_step (adj v) q maxDepth r t st) (\<lambda>(stop, st'). if stop then ?Q st' else ?I (pre @ [(r, t)]) st')"
      unfolding st split by (auto elim!: ok_mono)
  qed
  then show ?thesis by (rule ok_mono) (use collecting_done in \<open>auto split: if_splits\<close>)
qed

lemma roots_loop_ok:
  assumes v: "wf v" and lim: "lim \<le> 127" and rs: "set (map fst results) \<subseteq> {..<count v}" and ts: "set ts \<subseteq> {..<count v}"
    and coll: "collecting (adj v) q lim [] s"
    and res: "\<forall>(r, sc) \<in> set results. scratch_wf (count v) sc \<and> scratch_map sc = dist_upto (hop (adj v) True (q_Kinds q)) r lim"
  shows "ok (iterate (\<lambda>(r, sc). iterate (\<lambda>t s. let (cancel, over) = cancel_step (w_cancel s); s = s\<lparr>w_cancel := cancel\<rparr> in
      if over then Some (True, s\<lparr>w_err := Some ErrContext\<rparr>) else merge_visit (adj v) q False t r sc s) ts) results s)
    (\<lambda>(_, s'). collected (adj v) q lim (pairs_of (map fst results) ts) s')"
proof -
  let ?f = "\<lambda>x t s. let (cancel, over) = cancel_step (w_cancel s); s = s\<lparr>w_cancel := cancel\<rparr> in
      if over then Some (True, s\<lparr>w_err := Some ErrContext\<rparr>) else merge_visit (adj v) q False t (fst x) (snd x) s"
  let ?P = "\<lambda>pre. map (map_prod fst id) pre"
  let ?I = "\<lambda>pre s'. collecting (adj v) q lim (?P pre) s'" and ?Q = "\<lambda>s'. collected (adj v) q lim (pairs_of (map fst results) ts) s'"
  have all: "pairs_of (map fst results) ts = ?P (pairs_of results ts)" using pairs_of_map [of fst results id ts] by simp
  have "ok (iterate (\<lambda>x. iterate (?f x) ts) results s) (\<lambda>(stop, s'). if stop then ?Q s' else ?I (pairs_of results ts) s')"
  proof (rule iterate_nested)
    show "?I [] s" using coll by simp
  next
    fix pre x t post s'
    assume split: "pairs_of results ts = pre @ (x, t) # post" and I: "?I pre s'"
    obtain r sc where x: "x = (r, sc)" by (cases x)
    have split': "pairs_of (map fst results) ts = ?P pre @ (r, t) # ?P post" unfolding all split x by simp
    obtain Ms where rt: "r < count v" "t < count v" "listed (adj v) (q_Kinds q) lim (?P post) Ms" by (rule rest_listed [OF v lim rs ts split'])
    have "(x, t) \<in> set (pairs_of results ts)" unfolding split by simp
    then have sc: "scratch_wf (count v) sc" "scratch_map sc = dist_upto (hop (adj v) (\<not> False) (q_Kinds q)) r lim"
      using res unfolding set_pairs_of x by auto
    obtain c over where c: "cancel_step (w_cancel s') = (c, over)" by fastforce
    note ctx = cancel_step_ok [OF c]
    show "ok (?f x t s') (\<lambda>(stop, t'). if stop then ?Q t' else ?I (pre @ [(x, t)]) t')"
    proof (cases over)
      case True
      then show ?thesis using c collected_cancelled [OF I] ctx by simp
    next
      case False
      have coll': "collecting (adj v) q lim (?P pre) (s'\<lparr>w_cancel := c\<rparr>)" using collecting_cancel [OF I] ctx by blast
      from merge_visit_ok [OF v lim rt(2,1) sc coll' rt(3), of r t] show ?thesis unfolding split' using c False x by (auto elim!: ok_mono)
    qed
  qed
  moreover have "(\<lambda>x. iterate (?f x) ts) = (\<lambda>(r, sc). iterate (\<lambda>t s. let (cancel, over) = cancel_step (w_cancel s); s = s\<lparr>w_cancel := cancel\<rparr> in
      if over then Some (True, s\<lparr>w_err := Some ErrContext\<rparr>) else merge_visit (adj v) q False t r sc s) ts)" by (simp add: case_prod_unfold)
  ultimately show ?thesis unfolding all by (auto elim!: ok_mono intro: collecting_done split: if_splits)
qed

lemma terms_loop_ok:
  assumes v: "wf v" and lim: "lim \<le> 127" and rs: "set rs \<subseteq> {..<count v}" and ts: "set (map fst results) \<subseteq> {..<count v}"
    and coll: "collecting (adj v) q lim [] s"
    and res: "\<forall>(t, sc) \<in> set results. scratch_wf (count v) sc \<and> scratch_map sc = dist_upto (hop (adj v) False (q_Kinds q)) t lim"
  shows "ok (iterate (\<lambda>r s. let (cancel, over) = cancel_step (w_cancel s); s = s\<lparr>w_cancel := cancel\<rparr> in
      if over then Some (True, s\<lparr>w_err := Some ErrContext\<rparr>) else iterate (\<lambda>(t, sc). merge_visit (adj v) q True r t sc) results s) rs s)
    (\<lambda>(_, s'). collected (adj v) q lim (pairs_of rs (map fst results)) s')"
proof -
  let ?f = "\<lambda>r (t, sc). merge_visit (adj v) q True r t sc"
  let ?P = "\<lambda>pre. map (map_prod id fst) pre"
  let ?I = "\<lambda>pre s'. collecting (adj v) q lim (?P pre) s'" and ?Q = "\<lambda>s'. collected (adj v) q lim (pairs_of rs (map fst results)) s'"
  have all: "pairs_of rs (map fst results) = ?P (pairs_of rs results)" using pairs_of_map [of id rs fst results] by simp
  have visit: "ok (?f r x s') (\<lambda>(stop, t'). if stop then ?Q t' else ?I (pre @ [(r, x)]) t')"
    if split: "pairs_of rs results = pre @ (r, x) # post" and I: "?I pre s'" for pre r x post s'
  proof -
    obtain t sc where x: "x = (t, sc)" by (cases x)
    have split': "pairs_of rs (map fst results) = ?P pre @ (r, t) # ?P post" unfolding all split x by simp
    obtain Ms where rt: "r < count v" "t < count v" "listed (adj v) (q_Kinds q) lim (?P post) Ms" by (rule rest_listed [OF v lim rs ts split'])
    have "(r, x) \<in> set (pairs_of rs results)" unfolding split by simp
    then have sc: "scratch_wf (count v) sc" "scratch_map sc = dist_upto (hop (adj v) (\<not> True) (q_Kinds q)) t lim"
      using res unfolding set_pairs_of x by auto
    from merge_visit_ok [OF v lim rt(1,2) sc I rt(3), of r t] show ?thesis unfolding split' x by (auto elim!: ok_mono)
  qed
  have "ok (iterate (\<lambda>r s. let (cancel, over) = cancel_step (w_cancel s); s = s\<lparr>w_cancel := cancel\<rparr> in
      if over then Some (True, s\<lparr>w_err := Some ErrContext\<rparr>) else iterate (?f r) results s) rs s)
    (\<lambda>(stop, s'). if stop then ?Q s' else ?I (pairs_of rs results) s')"
  proof (rule iterate_rule [where I = "\<lambda>pre. ?I (pairs_of pre results)"])
    show "?I (pairs_of [] results) s" using coll by (simp add: pairs_of_def)
  next
    fix pre r post s'
    assume rs': "rs = pre @ r # post" and I: "?I (pairs_of pre results) s'"
    obtain c over where c: "cancel_step (w_cancel s') = (c, over)" by fastforce
    note ctx = cancel_step_ok [OF c]
    show "ok (let (cancel, over) = cancel_step (w_cancel s'); s = s'\<lparr>w_cancel := cancel\<rparr> in
      if over then Some (True, s\<lparr>w_err := Some ErrContext\<rparr>) else iterate (?f r) results s)
      (\<lambda>(stop, t'). if stop then ?Q t' else ?I (pairs_of (pre @ [r]) results) t')"
    proof (cases over)
      case True
      then show ?thesis using c collected_cancelled [OF I] ctx by simp
    next
      case False
      have "?I (pairs_of pre results) (s'\<lparr>w_cancel := c\<rparr>)" using collecting_cancel [OF I] ctx by blast
      from iterate_row [where I = ?I and Q = ?Q and f = ?f, OF visit rs' this] show ?thesis using c False by simp
    qed
  qed
  then show ?thesis unfolding all by (auto elim!: ok_mono intro: collecting_done split: if_splits)
qed

end

end
