(* ===== verification/Queries.thy ===== *)
theory Queries
  imports Shortest
begin

text \<open>
  The answers of \<open>AllShortestPaths\<close> and \<open>SelfEndpointConflict\<close> (\<open>internal/engine/traverse/traverse.go\<close>):
  the endpoints as sets of live ids, the parallel searches of the small side, and the dispatch. An
  error is always one of the three the caller can act on: the request is too large for either
  strategy, its context is done, or its memory limit is reached.
\<close>

section \<open>Endpoints\<close>

definition endpoint_ok :: "View \<Rightarrow> Endpoint \<Rightarrow> bool" where
  "endpoint_ok v e \<longleftrightarrow>
     (case ep_IDs e of
        Some ids \<Rightarrow> sorted_wrt (<) ids \<and> set ids \<subseteq> {..<v_NodeCount v}
      | None \<Rightarrow> (case ep_Bits e of Some b \<Rightarrow> Bitset_invar b \<and> Bitset_members b \<subseteq> {..<v_NodeCount v} | None \<Rightarrow> True))"

definition ep_nodes :: "View \<Rightarrow> Endpoint \<Rightarrow> nodeid set" where
  "ep_nodes v e =
     (case ep_IDs e of Some ids \<Rightarrow> set ids
      | None \<Rightarrow> (case ep_Bits e of Some b \<Rightarrow> Bitset_members b | None \<Rightarrow> {i. Alive v i}))"

lemma path_wf_count: "path_wf v \<Longrightarrow> v_NodeCount v \<le> 2 ^ 31" "path_wf v \<Longrightarrow> view_wf v"
  by (simp_all add: path_wf_def)

lemma all_ids: "n \<le> 2 ^ 32 \<Longrightarrow> map u32 [0..<n] = [0..<n]"
  by (auto simp: u32_id intro!: map_idI)

lemma ep_Iterate_ok:
  assumes v: "path_wf v" and e: "endpoint_ok v e"
  shows "set (ep_Iterate e v) = ep_nodes v e" and "sorted_wrt (<) (ep_Iterate e v)" and "ep_nodes v e \<subseteq> {..<v_NodeCount v}"
proof -
  note n = path_wf_count [OF v]
  have all: "map u32 [0..<v_NodeCount v] = [0..<v_NodeCount v]" using n(1) by (intro all_ids) simp
  have live: "Alive v i \<Longrightarrow> i < v_NodeCount v" for i using Alive_iff [OF n(2)] by simp
  have base: "\<not> Overlay v \<Longrightarrow> i < v_NodeCount v \<Longrightarrow> Alive v i" for i by (simp add: Alive_def)
  show "set (ep_Iterate e v) = ep_nodes v e" "sorted_wrt (<) (ep_Iterate e v)" "ep_nodes v e \<subseteq> {..<v_NodeCount v}"
    using e live base Bitset_Iterate_props by (auto simp: endpoint_ok_def ep_Iterate_def ep_nodes_def all sorted_wrt_filter split: option.splits)
qed

lemma ep_Has_iff:
  assumes "endpoint_ok v e"
  shows "ep_Has e i \<longleftrightarrow> i \<in> ep_nodes v e \<or> Unconstrained e"
proof (cases "ep_IDs e")
  case (Some ids)
  then have "sorted (map id ids)" using assms by (simp add: endpoint_ok_def strict_sorted_iff)
  from sort_Search_sorted(4) [OF this, of i] Some show ?thesis by (simp add: ep_Has_def ep_nodes_def Unconstrained_def Let_def)
next
  case None
  then show ?thesis using assms Bitset_Has_members by (auto simp: ep_Has_def ep_nodes_def Unconstrained_def endpoint_ok_def split: option.splits)
qed

lemma ep_Count_le:
  assumes v: "path_wf v" and e: "endpoint_ok v e"
  shows "ep_Count e (v_NodeCount v) \<le> 2 ^ 31"
proof -
  have bound: "card A \<le> 2 ^ 31" if "A \<subseteq> {..<v_NodeCount v}" for A
    using card_mono [OF _ that] path_wf_count(1) [OF v] by simp
  have "length ids = card (set ids)" if "sorted_wrt (<) ids" for ids :: "nat list"
    using that by (simp add: distinct_card strict_sorted_iff)
  then show ?thesis using e bound path_wf_count(1) [OF v]
    by (auto simp: ep_Count_def endpoint_ok_def Bitset_Count_def Bitset_invar_def split: option.splits)
qed

section \<open>The searches of the small side\<close>

definition exact_dists :: "View \<Rightarrow> bool \<Rightarrow> kindmask option \<Rightarrow> int \<Rightarrow> nodeid \<times> scratch \<Rightarrow> bool" where
  "exact_dists v forward kinds maxDepth p \<longleftrightarrow> scratch_wf (v_NodeCount v) (snd p) \<and>
     scratch_map (snd p) = dist_upto (hop (view_adj v) forward kinds) (fst p) (nat maxDepth)"

definition pool_ok :: "run_env \<Rightarrow> bool" where
  "pool_ok env \<longleftrightarrow> (\<forall>i sc. env_pool env i = Some sc \<longrightarrow> scratch_wf 0 sc) \<and> 0 < env_procs env"

definition searched :: "(nat \<Rightarrow> bool) option \<Rightarrow> (nodeid \<times> scratch \<Rightarrow> bool) \<Rightarrow> nodeid list \<Rightarrow> query_error + (nodeid \<times> scratch) list \<Rightarrow> bool" where
  "searched ctx good xs r \<longleftrightarrow>
     (case r of Inl e \<Rightarrow> e = ErrContext \<and> (\<exists>c i. ctx = Some c \<and> c i)
      | Inr res \<Rightarrow> map fst res = xs \<and> (\<forall>p \<in> set res. good p))"

lemma worker_ok:
  assumes v: "path_wf v" and max: "maxDepth \<le> 127" and pool: "\<forall>i sc. pool i = Some sc \<longrightarrow> scratch_wf 0 sc"
  shows "set xs \<subseteq> {..<v_NodeCount v} \<Longrightarrow> ok (worker (view_adj v) (v_NodeCount v) pool fwd kinds maxDepth c i xs)
    (searched (c_ctx c) (exact_dists v fwd kinds maxDepth) xs)"
proof (induction xs arbitrary: c i)
  case Nil
  then show ?case by (simp add: searched_def)
next
  case (Cons x xs)
  obtain c' over where c: "cancel_err c = (c', over)" by fastforce
  note ctx = cancel_err_ok [OF c]
  show ?case
  proof (cases over)
    case True
    then show ?thesis using c ctx by (auto simp: searched_def)
  next
    case False
    have x: "x < v_NodeCount v" using Cons.prems by simp
    have "scratch_wf (v_NodeCount v) (getScratch (pool i) (v_NodeCount v))" using pool by (intro getScratch_wf) blast
    from bfsFrom_correct [OF this vg.adj_range [OF v] x max, of fwd kinds]
    obtain deep sc where b: "bfsFrom (view_adj v) x fwd kinds maxDepth (getScratch (pool i) (v_NodeCount v)) = Some (deep, sc)"
      "exact_dists v fwd kinds maxDepth (x, sc)" by (auto simp: ok_iff exact_dists_def)
    from Cons.IH [of c' "i + 1"] Cons.prems
    obtain r where r: "worker (view_adj v) (v_NodeCount v) pool fwd kinds maxDepth c' (i + 1) xs = Some r"
      "searched (c_ctx c') (exact_dists v fwd kinds maxDepth) xs r" by (auto simp: ok_iff)
    then show ?thesis using c False b ctx by (auto simp: searched_def split: sum.splits)
  qed
qed

lemma wait_ok:
  "list_all2 (\<lambda>w r. searched ctx good (part w) r) ws rs \<Longrightarrow> searched ctx good (concat (map part ws)) (wait rs)"
proof (induction ws arbitrary: rs)
  case (Cons w ws)
  then obtain r rs' where rs: "rs = r # rs'" "searched ctx good (part w) r" "searched ctx good (concat (map part ws)) (wait rs')"
    by (auto simp: list_all2_Cons1)
  then show ?case by (cases r) (auto simp: searched_def split: sum.splits)
qed (simp add: searched_def)

lemma parts_take: "concat (map (\<lambda>w. take c (drop (w * c) xs)) [0..<k]) = take (k * c) xs"
proof (induction k)
  case (Suc k)
  then show ?case using take_add [of "k * c" c xs] by (simp add: add.commute)
qed simp

lemma parts_cover:
  assumes "0 < (k :: nat)"
  shows "concat (map (\<lambda>w. take ((length xs + k - 1) div k) (drop (w * ((length xs + k - 1) div k)) xs)) [0..<k]) = xs"
proof -
  have "length xs + k - 1 < k * ((length xs + k - 1) div k) + k"
    using mult_div_mod_eq [of k "length xs + k - 1"] mod_less_divisor [OF assms, of "length xs + k - 1"] by linarith
  then show ?thesis unfolding parts_take using assms by simp
qed

lemma collect_ok:
  assumes "\<And>w. w \<in> set ws \<Longrightarrow> ok (g w) (R w)"
  shows "ok (foldM (\<lambda>w rs. do { r \<leftarrow> g w; Some (rs @ [r]) }) ws []) (\<lambda>rs. list_all2 R ws rs)"
proof (rule ok_foldM_prefix [where I = "\<lambda>pre rs. list_all2 R pre rs"])
  fix pre w post rs
  assume "ws = pre @ w # post" and "list_all2 R pre rs"
  then show "ok (do { r \<leftarrow> g w; Some (rs @ [r]) }) (list_all2 R (pre @ [w]))"
    using assms [of w] by (auto elim!: ok_mono intro: list_all2_appendI)
qed simp

lemma bfsSmallSide_ok:
  assumes v: "path_wf v" and max: "maxDepth \<le> 127" and env: "pool_ok env" and xs: "set xs \<subseteq> {..<v_NodeCount v}"
  shows "ok (bfsSmallSide env v ctx xs fwd kinds maxDepth) (searched ctx (exact_dists v fwd kinds maxDepth) xs)"
proof (cases "xs = []")
  case True
  then show ?thesis by (simp add: bfsSmallSide_def searched_def)
next
  case False
  define k where "k = min (env_procs env) (length xs)"
  define part where "part = (\<lambda>w. take ((length xs + k - 1) div k) (drop (w * ((length xs + k - 1) div k)) xs))"
  have k: "0 < k" using env False by (simp add: k_def pool_ok_def)
  have pool: "\<forall>i sc. env_pool env i = Some sc \<longrightarrow> scratch_wf 0 sc" using env by (simp add: pool_ok_def)
  have in_part: "set (part w) \<subseteq> {..<v_NodeCount v}" for w using xs in_set_takeD in_set_dropD unfolding part_def by fast
  have "ok (worker (view_adj v) (v_NodeCount v) (env_pool env) fwd kinds maxDepth \<lparr>c_ctx = ctx, c_now = env_start env w, c_unchecked = 0\<rparr> (w * ((length xs + k - 1) div k)) (part w))
      (\<lambda>r. searched ctx (exact_dists v fwd kinds maxDepth) (part w) r)" for w using worker_ok [OF v max pool in_part, of fwd kinds "\<lparr>c_ctx = ctx, c_now = env_start env w, c_unchecked = 0\<rparr>"] by simp
  note run = collect_ok [where R = "\<lambda>w r. searched ctx (exact_dists v fwd kinds maxDepth) (part w) r" and ws = "[0..<k]", OF this]
  have "concat (map part [0..<k]) = xs" unfolding part_def by (rule parts_cover [OF k])
  moreover have "bfsSmallSide env v ctx xs fwd kinds maxDepth = do { rs \<leftarrow> foldM (\<lambda>w rs. do {
      r \<leftarrow> worker (view_adj v) (v_NodeCount v) (env_pool env) fwd kinds maxDepth \<lparr>c_ctx = ctx, c_now = env_start env w, c_unchecked = 0\<rparr> (w * ((length xs + k - 1) div k)) (part w);
      Some (rs @ [r]) }) [0..<k] []; Some (wait rs) }"
    using k by (simp add: bfsSmallSide_def k_def [symmetric] part_def Let_def)
  ultimately show ?thesis using run wait_ok [of ctx "exact_dists v fwd kinds maxDepth" part "[0..<k]"] by (auto elim!: ok_mono)
qed

section \<open>The answer\<close>

definition depth_of :: "Query \<Rightarrow> int" where
  "depth_of q = (if q_MaxDepth q \<le> 0 then MaxDepth else q_MaxDepth q)"

definition answers :: "View \<Rightarrow> Query \<Rightarrow> path list \<times> query_error option \<Rightarrow> bool" where
  "answers v q out \<longleftrightarrow>
     (case out of (paths, None) \<Rightarrow> \<exists>Ls. listed (view_adj v) (q_Kinds q) (nat (depth_of q)) (pairs_of (ep_Iterate (q_Roots q) v) (ep_Iterate (q_Terminals q) v)) Ls \<and>
        paths = wanted q Ls
      | (_, Some e) \<Rightarrow> bad_err q e)"

lemma finish_ok:
  assumes "collected (view_adj v) q (nat (depth_of q)) (pairs_of (ep_Iterate (q_Roots q) v) (ep_Iterate (q_Terminals q) v)) s"
  shows "ok (finish s) (answers v q)"
proof -
  obtain ps where "sink_rep (w_sink s) ps" "case w_err s of None \<Rightarrow> \<exists>Ls. listed (view_adj v) (q_Kinds q) (nat (depth_of q)) (pairs_of (ep_Iterate (q_Roots q) v) (ep_Iterate (q_Terminals q) v)) Ls \<and>
        ps = wanted q Ls | Some e \<Rightarrow> bad_err q e"
    using assms by (auto simp: collected_def split: option.splits)
  then show ?thesis using ps.rep_paths by (auto simp: finish_def answers_def split: option.splits)
qed

lemma walkStart_collecting: "limit b = MemoryLimit q \<Longrightarrow> collecting adj q lim [] (walkStart q now b)"
proof -
  assume b: "limit b = MemoryLimit q"
  have "wanted q [] = []" by (cases "q_Mode q") (simp_all add: wanted_def upto_limit_def)
  then show ?thesis using b ps.rep_empty by (simp add: collecting_def walkStart_def listed_def level_of_def)
qed

definition query_ok :: "View \<Rightarrow> Query \<Rightarrow> bool" where
  "query_ok v q \<longleftrightarrow> path_wf v \<and> endpoint_ok v (q_Roots q) \<and> endpoint_ok v (q_Terminals q)"

lemma query_okD:
  assumes "query_ok v q"
  shows "path_wf v" "set (ep_Iterate (q_Roots q) v) \<subseteq> {..<v_NodeCount v}" "set (ep_Iterate (q_Terminals q) v) \<subseteq> {..<v_NodeCount v}"
  using assms ep_Iterate_ok unfolding query_ok_def by blast+

lemma depth_of_range: "0 \<le> depth_of q" by (simp add: depth_of_def MaxDepth_def)

lemma strategyPairs_ok:
  assumes q: "query_ok v q" and max: "depth_of q \<le> 127" and env: "pool_ok env" and b: "limit b = MemoryLimit q"
  shows "ok (strategyPairs env v q (depth_of q) b) (answers v q)"
proof -
  have sc: "scratch_wf (v_NodeCount v) (getScratch (env_pool env i) (v_NodeCount v))" for i
    using env by (intro getScratch_wf) (simp add: pool_ok_def)
  from vg.pairs_loop_ok [OF query_okD(1) [OF q] depth_of_range max query_okD(2,3) [OF q] walkStart_collecting [OF b] sc sc sc]
  have "ok (iterate (\<lambda>r. iterate (pair_step (view_adj v) q (depth_of q) r) (ep_Iterate (q_Terminals q) v)) (ep_Iterate (q_Roots q) v)
      (walkStart q (env_merge env) b, getScratch (env_pool env 0) (v_NodeCount v), getScratch (env_pool env 1) (v_NodeCount v), getScratch (env_pool env 2) (v_NodeCount v)))
    (\<lambda>(_, s, _). ok (finish s) (answers v q))" by (rule ok_mono) (auto intro: finish_ok)
  then show ?thesis by (simp add: strategyPairs_def Let_def case_prod_unfold)
qed

lemma strategySmallSide_ok:
  assumes q: "query_ok v q" and max: "depth_of q \<le> 127" and env: "pool_ok env" and b: "limit b = MemoryLimit q"
  shows "ok (strategySmallSide env v q (depth_of q) b small) (\<lambda>out. answers v q out \<or> out = ([], Some ErrTooLarge) \<and> 0 < MemoryLimit q)"
proof -
  define xs where "xs = materialize (if small then q_Roots q else q_Terminals q) v"
  note d = query_okD [OF q]
  have xs: "set xs \<subseteq> {..<v_NodeCount v}" using d(2,3) by (auto simp: xs_def materialize_def)
  have lim: "nat (depth_of q) \<le> 127" using max by simp
  show ?thesis
  proof (cases "budget_reserve b (u64 (scratchBytes (v_NodeCount v) * length xs))")
    case None
    then show ?thesis using b by (auto simp: strategySmallSide_def xs_def [symmetric] budget_reserve_def Let_def split: if_splits)
  next
    case (Some b')
    then have b': "limit b' = MemoryLimit q" using b by (auto simp: budget_reserve_def split: if_splits)
    obtain r where r: "bfsSmallSide env v (q_Ctx q) xs small (q_Kinds q) (depth_of q) = Some r" "searched (q_Ctx q) (exact_dists v small (q_Kinds q) (depth_of q)) xs r"
      using bfsSmallSide_ok [OF d(1) max env xs, of "q_Ctx q" small "q_Kinds q"] by (auto simp: ok_iff)
    show ?thesis
    proof (cases r)
      case (Inl e)
      then show ?thesis using Some r by (auto simp: strategySmallSide_def xs_def [symmetric] searched_def answers_def bad_err_def Let_def)
    next
      case (Inr res)
      then have res: "map fst res = xs" "\<forall>(x, sc) \<in> set res. scratch_wf (v_NodeCount v) sc \<and> scratch_map sc = dist_upto (hop (view_adj v) small (q_Kinds q)) x (nat (depth_of q))"
        using r(2) by (auto simp: searched_def exact_dists_def)
      have rng: "set (map fst res) \<subseteq> {..<v_NodeCount v}" using res(1) xs by simp
      have start: "collecting (view_adj v) q (nat (depth_of q)) [] (walkStart q (env_merge env) b')" by (rule walkStart_collecting [OF b'])
      have "ok (if small then mergeSmallRoots env v q b' res else mergeSmallTerminals env v q b' res) (answers v q)"
      proof (cases small)
        case True
        then have e: "map fst res = ep_Iterate (q_Roots q) v" using res(1) by (simp add: xs_def materialize_def)
        from vg.roots_loop_ok [OF d(1) lim rng d(3) start] res(2) True
        show ?thesis unfolding e mergeSmallRoots_def using True by (auto elim!: ok_mono intro: finish_ok)
      next
        case False
        then have e: "map fst res = ep_Iterate (q_Terminals q) v" using res(1) by (simp add: xs_def materialize_def)
        from vg.terms_loop_ok [OF d(1) lim d(2) rng start] res(2) False
        show ?thesis unfolding e mergeSmallTerminals_def using False by (auto elim!: ok_mono intro: finish_ok)
      qed
      then show ?thesis using Some r(1) Inr by (auto simp: strategySmallSide_def xs_def [symmetric] Let_def elim!: ok_mono)
    qed
  qed
qed

section \<open>The dispatch\<close>

definition query_fits :: "View \<Rightarrow> Query \<Rightarrow> bool" where
  "query_fits v q \<longleftrightarrow>
     (let n = v_NodeCount v; roots = int (ep_Count (q_Roots q) n); terms = int (ep_Count (q_Terminals q) n);
          pairs = (if q_PairBudget q > 0 then q_PairBudget q else 4096); side = (if q_SideBudget q > 0 then q_SideBudget q else 16) in
      depth_of q \<le> 127 \<and>
      (\<not> Unconstrained (q_Roots q) \<and> \<not> Unconstrained (q_Terminals q) \<and> roots * terms \<le> pairs \<or>
       \<not> Unconstrained (q_Roots q) \<and> roots \<le> side \<or> \<not> Unconstrained (q_Terminals q) \<and> terms \<le> side))"

text \<open>The product of the two counts never wraps.\<close>

lemma pair_count_fits:
  assumes "query_ok v q"
  defines "m \<equiv> int (ep_Count (q_Roots q) (v_NodeCount v)) * int (ep_Count (q_Terminals q) (v_NodeCount v))"
  shows "i64 m = m"
proof -
  have "ep_Count (q_Roots q) (v_NodeCount v) \<le> 2 ^ 31" "ep_Count (q_Terminals q) (v_NodeCount v) \<le> 2 ^ 31"
    using assms(1) ep_Count_le unfolding query_ok_def by blast+
  then have "ep_Count (q_Roots q) (v_NodeCount v) * ep_Count (q_Terminals q) (v_NodeCount v) \<le> 2 ^ 31 * 2 ^ 31" by (rule mult_le_mono)
  then have "0 \<le> m" "m \<le> 2 ^ 62" unfolding m_def of_nat_mult [symmetric] by (simp_all del: of_nat_mult)
  then show ?thesis by (simp add: i64_def)
qed

lemma AllShortestPaths_ok:
  assumes q: "query_ok v q" and env: "pool_ok env"
  shows "ok (AllShortestPaths env v q) (\<lambda>out. answers v q out \<or> out = ([], Some ErrTooLarge) \<and> (\<not> query_fits v q \<or> 0 < MemoryLimit q))"
proof -
  let ?b = "\<lparr>limit = MemoryLimit q, used = 0, reserved = 0\<rparr>"
  obtain c over where c: "cancel_err \<lparr>c_ctx = q_Ctx q, c_now = 0, c_unchecked = 0\<rparr> = (c, over)" by fastforce
  note ctx = cancel_err_ok [OF c]
  define rc tc where "rc = int (ep_Count (q_Roots q) (v_NodeCount v))" and "tc = int (ep_Count (q_Terminals q) (v_NodeCount v))"
  define pb sb where "pb = (if q_PairBudget q > 0 then q_PairBudget q else PairBudget)" and "sb = (if q_SideBudget q > 0 then q_SideBudget q else SideBudget)"
  have run: "AllShortestPaths env v q =
     (if over then Some ([], Some ErrContext)
      else if depth_of q > 127 then Some ([], Some ErrTooLarge)
      else if \<not> Unconstrained (q_Roots q) \<and> \<not> Unconstrained (q_Terminals q) \<and> rc * tc \<le> pb then strategyPairs env v q (depth_of q) ?b
      else if \<not> Unconstrained (q_Roots q) \<and> rc \<le> sb then strategySmallSide env v q (depth_of q) ?b True
      else if \<not> Unconstrained (q_Terminals q) \<and> tc \<le> sb then strategySmallSide env v q (depth_of q) ?b False
      else Some ([], Some ErrTooLarge))"
    unfolding AllShortestPaths_def Let_def c snd_conv depth_of_def [symmetric] rc_def [symmetric] tc_def [symmetric] pb_def [symmetric] sb_def [symmetric]
      MaxRepresentableDepth_def using pair_count_fits [OF q] by (simp add: rc_def tc_def)
  have no: "query_fits v q \<longleftrightarrow> depth_of q \<le> 127 \<and> (\<not> Unconstrained (q_Roots q) \<and> \<not> Unconstrained (q_Terminals q) \<and> rc * tc \<le> pb \<or>
      \<not> Unconstrained (q_Roots q) \<and> rc \<le> sb \<or> \<not> Unconstrained (q_Terminals q) \<and> tc \<le> sb)"
    by (simp add: query_fits_def Let_def rc_def tc_def pb_def sb_def PairBudget_def SideBudget_def)
  show ?thesis unfolding run no
    using ctx strategyPairs_ok [OF q _ env, of ?b] strategySmallSide_ok [OF q _ env, of ?b]
    by (auto simp: answers_def bad_err_def elim!: ok_mono)
qed

text \<open>
  C15. A shortest-path query returns without a panic, whatever buffers the pool hands out and
  however many workers run. Without an error its paths are, pair by pair in the order of the
  endpoints, the shortest paths of the kinds asked for and up to the depth, each once, as the mode
  selects them and cut at the limit. An error is \<open>ErrTooLarge\<close> (only when no strategy fits or a memory
  limit is set), the context's, or \<open>ErrMemoryLimit\<close> under a limit.
\<close>

theorem AllShortestPaths_exact:
  assumes "query_ok v q" and "pool_ok env"
  shows "ok (AllShortestPaths env v q) (\<lambda>(paths, err).
    case err of
      None \<Rightarrow> \<exists>Ls. listed (view_adj v) (q_Kinds q) (nat (depth_of q)) (pairs_of (ep_Iterate (q_Roots q) v) (ep_Iterate (q_Terminals q) v)) Ls \<and>
        paths = wanted q Ls
    | Some e \<Rightarrow> e = ErrTooLarge \<and> (\<not> query_fits v q \<or> 0 < MemoryLimit q) \<or> bad_err q e)"
  by (rule ok_mono [OF AllShortestPaths_ok [OF assms]]) (auto simp: answers_def split: option.splits)

section \<open>What a complete answer holds\<close>

lemma listed_union: "listed adj kinds lim P Ls \<Longrightarrow> set (concat Ls) = (\<Union>(r, t) \<in> set P. shortest_paths adj kinds lim r t)"
  unfolding listed_def by (induction rule: list_all2_induct) auto

lemma same_hops: "set L = shortest_paths adj kinds lim r t \<Longrightarrow> p \<in> set L \<Longrightarrow> length (Kinds p) = hops L"
proof -
  assume L: "set L = shortest_paths adj kinds lim r t" and p: "p \<in> set L"
  then obtain d where d: "0 < d" "d \<le> lim" "at_dist (hop adj True kinds) r d t" "hops L = d" using shortest_list [OF L] by auto
  then show ?thesis using p unfolding L shortest_paths_at [OF d(3,1,2)] by (auto simp: as_path_def walks_of_def)
qed

lemma listed_same_hops: "listed adj kinds lim P Ls \<Longrightarrow> L \<in> set Ls \<Longrightarrow> p \<in> set L \<Longrightarrow> length (Kinds p) = hops L"
  unfolding listed_def by (induction arbitrary: L rule: list_all2_induct) (auto simp: same_hops)

lemma overall_shortest:
  assumes l: "listed adj kinds lim P Ls"
  shows "set (concat (select ModeAll Ls)) = {p \<in> set (concat Ls). \<forall>p' \<in> set (concat Ls). length (Kinds p) \<le> length (Kinds p')}"
proof -
  have "shortest_of Ls L \<longleftrightarrow> (\<forall>p' \<in> set (concat Ls). length (Kinds p) \<le> length (Kinds p'))" if "L \<in> set Ls" "p \<in> set L" for L p
  proof -
    have "length (Kinds p) = hops L" by (rule listed_same_hops [OF l that])
    moreover have "length (Kinds p') = hops L'" if "L' \<in> set Ls" "p' \<in> set L'" for L' p' by (rule listed_same_hops [OF l that])
    moreover have "xs \<noteq> [] \<longleftrightarrow> (\<exists>x. x \<in> set xs)" for xs :: "path list" by (cases xs) auto
    ultimately show ?thesis using that(2) unfolding shortest_of_def by auto
  qed
  then show ?thesis by auto
qed

definition wanted_set :: "View \<Rightarrow> Query \<Rightarrow> path set" where
  "wanted_set v q = (\<Union>r \<in> ep_nodes v (q_Roots q). \<Union>t \<in> ep_nodes v (q_Terminals q). shortest_paths (view_adj v) (q_Kinds q) (nat (depth_of q)) r t)"

lemma listed_wanted_set:
  assumes "query_ok v q" and "listed (view_adj v) (q_Kinds q) (nat (depth_of q)) (pairs_of (ep_Iterate (q_Roots q) v) (ep_Iterate (q_Terminals q) v)) Ls"
  shows "set (concat Ls) = wanted_set v q"
  using listed_union [OF assms(2)] ep_Iterate_ok(1) assms(1) by (auto simp: wanted_set_def query_ok_def set_pairs_of)

lemma one_each: "listed adj kinds lim P Ls \<Longrightarrow> (r, t) \<in> set P \<Longrightarrow> shortest_paths adj kinds lim r t \<noteq> {} \<Longrightarrow>
    set (concat (map (take 1) Ls)) \<inter> shortest_paths adj kinds lim r t \<noteq> {}"
proof (unfold listed_def, induction rule: list_all2_induct)
  case (Cons x P L Ls)
  have "set (take 1 L) \<inter> shortest_paths adj kinds lim r t \<noteq> {}" if "x = (r, t)" using Cons.hyps Cons.prems that by (cases L) auto
  then show ?case using Cons by auto
qed simp

text \<open>All the paths a query asks for, by its mode.\<close>

definition complete :: "View \<Rightarrow> Query \<Rightarrow> path list \<Rightarrow> bool" where
  "complete v q paths \<longleftrightarrow>
     (case q_Mode q of
        ModeAllPerPair \<Rightarrow> set paths = wanted_set v q
      | ModeAll \<Rightarrow> set paths = {p \<in> wanted_set v q. \<forall>p' \<in> wanted_set v q. length (Kinds p) \<le> length (Kinds p')}
      | ModeOne \<Rightarrow> set paths \<subseteq> wanted_set v q \<and>
          (\<forall>r \<in> ep_nodes v (q_Roots q). \<forall>t \<in> ep_nodes v (q_Terminals q).
             shortest_paths (view_adj v) (q_Kinds q) (nat (depth_of q)) r t \<noteq> {} \<longrightarrow>
             set paths \<inter> shortest_paths (view_adj v) (q_Kinds q) (nat (depth_of q)) r t \<noteq> {}))"

lemma listed_complete:
  assumes q: "query_ok v q" and Ls: "listed (view_adj v) (q_Kinds q) (nat (depth_of q)) (pairs_of (ep_Iterate (q_Roots q) v) (ep_Iterate (q_Terminals q) v)) Ls"
  shows "complete v q (concat (select (q_Mode q) Ls))"
proof -
  let ?P = "pairs_of (ep_Iterate (q_Roots q) v) (ep_Iterate (q_Terminals q) v)"
  note all = listed_wanted_set [OF q Ls]
  have ends: "set ?P = ep_nodes v (q_Roots q) \<times> ep_nodes v (q_Terminals q)"
    using ep_Iterate_ok(1) q by (auto simp: query_ok_def set_pairs_of)
  have one: "set (concat (map (take 1) Ls)) \<subseteq> wanted_set v q" unfolding all [symmetric] using in_set_takeD by fastforce
  show ?thesis
  proof (cases "q_Mode q")
    case ModeAll
    then show ?thesis using overall_shortest [OF Ls] unfolding all by (simp add: complete_def)
  next
    case ModeOne
    then show ?thesis using one one_each [OF Ls] ends by (simp add: complete_def)
  next
    case ModeAllPerPair
    then show ?thesis using all by (simp add: complete_def)
  qed
qed

text \<open>
  C16. A query that some strategy takes, with no memory limit and no context or one that does not end
  while it runs, is always answered, without an error: with every shortest path of every pair, or those of the
  overall shortest length, or for each connected pair one of its shortest paths, all of them when the
  query has no limit and otherwise the first ones up to the limit.
\<close>

theorem AllShortestPaths_answers:
  assumes "query_ok v q" and "pool_ok env" and "query_fits v q" and "\<forall>ctx i. q_Ctx q = Some ctx \<longrightarrow> \<not> ctx i" and "MemoryLimit q = 0"
  shows "ok (AllShortestPaths env v q) (\<lambda>(paths, err). err = None \<and>
    (\<exists>found. complete v q found \<and> paths = (if q_Limit q > 0 then take (nat (q_Limit q)) found else found)))"
proof (rule ok_mono [OF AllShortestPaths_ok [OF assms(1,2)]], clarify)
  fix paths err
  let ?P = "pairs_of (ep_Iterate (q_Roots q) v) (ep_Iterate (q_Terminals q) v)"
  assume "answers v q (paths, err) \<or> (paths, err) = ([], Some ErrTooLarge) \<and> (\<not> query_fits v q \<or> 0 < MemoryLimit q)"
  then have a: "answers v q (paths, err)" using assms(3,5) by simp
  then have none: "err = None" using assms(4,5) by (auto simp: answers_def bad_err_def split: option.splits)
  then obtain Ls where "listed (view_adj v) (q_Kinds q) (nat (depth_of q)) ?P Ls" "paths = upto_limit (q_Limit q) (concat (select (q_Mode q) Ls))"
    using a by (auto simp: answers_def wanted_def)
  then show "err = None \<and> (\<exists>found. complete v q found \<and> paths = (if q_Limit q > 0 then take (nat (q_Limit q)) found else found))"
    using none listed_complete [OF assms(1)] by (auto simp: upto_limit_def)
qed

section \<open>Shared endpoints\<close>

lemma hasOut_ok:
  assumes v: "path_wf v" and i: "i < v_NodeCount v"
  shows "hasOut v i = Some (\<exists>e t k. view_edges v e = Some (pg v i, t, k))"
proof -
  note w = path_wf_count [OF v]
  obtain es where es: "OutEdges v i = Some es" "\<forall>t k e. (t, k, e) \<in> set es \<longleftrightarrow> t < v_NodeCount v \<and> view_edges v e = Some (pg v i, pg v t, k)"
    using OutEdges_exact [OF w(2) i] by (auto simp: ok_iff)
  have ne: "es \<noteq> [] \<longleftrightarrow> (\<exists>e t k. view_edges v e = Some (pg v i, t, k))"
  proof
    assume "es \<noteq> []"
    then obtain t k e where "(t, k, e) \<in> set es" by (cases es) auto
    then show "\<exists>e t k. view_edges v e = Some (pg v i, t, k)" using es(2) by blast
  next
    assume "\<exists>e t k. view_edges v e = Some (pg v i, t, k)"
    then obtain e b k where e: "view_edges v e = Some (pg v i, b, k)" by blast
    then have "view_nodes v b \<noteq> None" unfolding view_edges_iff by auto
    then obtain t where "t < v_NodeCount v" "pg v t = b" by (rule Dense_dom [OF w(2)])
    then have "(t, k, e) \<in> set es" using es(2) e by blast
    then show "es \<noteq> []" by auto
  qed
  show ?thesis
  proof (cases "Overlay v")
    case False
    obtain out inn kr pr where "snap_wf (v_base v) out inn kr pr" using w(2) unfolding view_wf_def snap_ok_def by blast
    then have rep: "snap_rep (v_base v) out inn" by (simp add: snap_wf_def)
    have n: "i < NodeCount (v_base v)" using i not_overlay [OF False] by (simp add: v_NodeCount_def virtualPgIDs_def)
    have arr: "OutOffsets (v_base v) = map (row_start out) [0..<Suc (NodeCount (v_base v))]" "OutEdgeIDs (v_base v) = map (snd \<circ> snd) (slots_of out (NodeCount (v_base v)))"
      using rep unfolding snap_rep_def by blast+
    have ids: "row (OutOffsets (v_base v)) i (OutEdgeIDs (v_base v)) = Some (map (snd \<circ> snd) (out i))"
      using row_of_slots [OF n, of out "snd \<circ> snd"] unfolding arr .
    obtain ks where "row (OutOffsets (v_base v)) i (OutTargets (v_base v)) = Some (map fst es)" "row (OutOffsets (v_base v)) i (OutKinds (v_base v)) = Some ks"
      using OutSlices_eq [OF w(2,1) i es(1)] False n by (auto simp: OutSlices_def CleanOut_def baseSlices_def bits_has_def bind_eq_Some_conv)
    then show ?thesis using False ids ne by (simp add: hasOut_def v_Out_def)
  qed (use es(1) ne in \<open>simp add: hasOut_def\<close>)
qed

lemma conflict_loop_ok:
  assumes v: "path_wf v"
  shows "set ids \<subseteq> {..<v_NodeCount v} \<Longrightarrow> conflict_loop v big ids = Some (\<exists>i \<in> set ids. ep_Has big i \<and> (\<exists>e t k. view_edges v e = Some (pg v i, t, k)))"
  by (induction ids) (auto simp: hasOut_ok [OF v])

text \<open>
  The check for a shared endpoint returns without a panic and says whether some node in both
  endpoints has a visible outgoing edge, whichever endpoint is the smaller and however each is given.
\<close>

theorem SelfEndpointConflict_exact:
  assumes v: "path_wf v" and "endpoint_ok v roots" and "endpoint_ok v terminals"
  shows "SelfEndpointConflict v roots terminals =
    Some (\<exists>i \<in> ep_nodes v roots \<inter> ep_nodes v terminals. \<exists>e t k. view_edges v e = Some (pg v i, t, k))"
proof -
  have live: "i \<in> ep_nodes v x" if "Unconstrained x" "view_edges v e = Some (pg v i, t, k)" "i < v_NodeCount v" for x i e t k
    using that Alive_iff [OF path_wf_count(2) [OF v]] by (auto simp: ep_nodes_def Unconstrained_def view_edges_iff)
  have "conflict_loop v big (ep_Iterate small v) = Some (\<exists>i \<in> ep_nodes v small \<inter> ep_nodes v big. \<exists>e t k. view_edges v e = Some (pg v i, t, k))"
    if "endpoint_ok v small" "endpoint_ok v big" for small big
  proof -
    note it = ep_Iterate_ok [OF v that(1)]
    have "ep_Has big i \<and> (\<exists>e t k. view_edges v e = Some (pg v i, t, k)) \<longleftrightarrow> i \<in> ep_nodes v big \<and> (\<exists>e t k. view_edges v e = Some (pg v i, t, k))"
      if "i \<in> ep_nodes v small" for i using ep_Has_iff [OF \<open>endpoint_ok v big\<close>, of i] live [of big _ i] that it(3) by blast
    then show ?thesis using conflict_loop_ok [OF v, of "ep_Iterate small v" big] it(1,3) by auto
  qed
  then show ?thesis using assms(2,3) by (auto simp: SelfEndpointConflict_def Let_def)
qed

section \<open>An example query\<close>

text \<open>The path from node 9 to node 12 of the example overlay.\<close>

definition example_ends :: "nodeid \<times> nodeid" where
  "example_ends = (the (v_Dense example_view 9), the (v_Dense example_view 12))"

definition only :: "nodeid \<Rightarrow> Endpoint" where
  "only i = \<lparr>ep_IDs = Some [i], ep_Bits = None\<rparr>"

definition example_query :: "Mode \<Rightarrow> Query" where
  "example_query mode = \<lparr>q_Roots = only (fst example_ends), q_Terminals = only (snd example_ends), q_Kinds = None, q_Mode = mode,
     ExcludeSelf = True, q_MaxDepth = 0, q_Limit = 0, MemoryLimit = 0, q_Ctx = None, q_PairBudget = 0, q_SideBudget = 0\<rparr>"

definition example_env :: run_env where
  "example_env = \<lparr>env_pool = (\<lambda>_. None), env_procs = 4, env_start = (\<lambda>_. 0), env_merge = 0\<rparr>"

definition example_path :: path where
  "example_path = \<lparr>Nodes = [fst example_ends, snd example_ends], Kinds = [3]\<rparr>"

lemma example_edges_view: "view_edges example_view = [71 \<mapsto> (9, 12, 3)]"
  by (auto simp: view_edges_def both_in_def example_view_graph fun_eq_iff)

lemma example_path_wf: "path_wf example_view"
  using example_view_wf by (auto simp: path_wf_def unique_edges_def example_edges_view split: if_splits)

lemma example_ends_ok:
  "fst example_ends < v_NodeCount example_view" "snd example_ends < v_NodeCount example_view"
  "pg example_view (fst example_ends) = 9" "pg example_view (snd example_ends) = 12"
proof -
  have "\<exists>n. v_Dense example_view i = Some n" if "i \<in> {9, 12}" for i
    using that resolves_iff [OF example_view_wf(1), of i] by (auto simp: example_view_graph)
  then have "v_Dense example_view 9 = Some (fst example_ends)" "v_Dense example_view 12 = Some (snd example_ends)" by (fastforce simp: example_ends_def)+
  then show "fst example_ends < v_NodeCount example_view" "snd example_ends < v_NodeCount example_view"
    "pg example_view (fst example_ends) = 9" "pg example_view (snd example_ends) = 12" using Dense_iff(1) [OF example_view_wf(1)] by auto
qed

lemma example_hops: "set (view_adj example_view True (fst example_ends)) = {(snd example_ends, 3)}"
proof -
  have "pg example_view w = 12 \<longleftrightarrow> w = snd example_ends" if "w < v_NodeCount example_view" for w
    using Dense_iff(1) [OF example_view_wf(1)] that example_ends_ok(2,4) by (metis option.inject)
  then show ?thesis using view_adj_iff(1) [OF example_path_wf, of _ _ True "fst example_ends"] example_ends_ok(1-3)
    by (auto simp: example_edges_view split: if_splits)
qed

lemma example_shortest: "shortest_paths (view_adj example_view) None 15 (fst example_ends) (snd example_ends) = {example_path}"
proof -
  have ne: "fst example_ends \<noteq> snd example_ends" using example_ends_ok(3,4) by force
  have "hop (view_adj example_view) True None (fst example_ends) (snd example_ends)" by (simp add: hop_def example_hops kind_allowed_def)
  then have "at_dist (hop (view_adj example_view) True None) (fst example_ends) 1 (snd example_ends)" using ne by (auto simp: at_dist_def)
  from shortest_paths_at [OF this] have "shortest_paths (view_adj example_view) None 15 (fst example_ends) (snd example_ends) =
      as_path ` walks_of (view_adj example_view) True None (fst example_ends) (snd example_ends) (Suc 0)" by simp
  also have "\<dots> = {example_path}" unfolding walks_of_Suc example_hops walks_of_0 by (auto simp: kind_allowed_def as_path_def example_path_def)
  finally show ?thesis .
qed

lemma example_query_ok:
  "query_ok example_view (example_query mode)" "pool_ok example_env" "query_fits example_view (example_query mode)"
  "wanted_set example_view (example_query mode) = {example_path}"
proof -
  show "query_ok example_view (example_query mode)" using example_path_wf example_ends_ok(1,2) by (simp add: query_ok_def endpoint_ok_def example_query_def only_def)
  show "pool_ok example_env" by (simp add: pool_ok_def example_env_def)
  show "query_fits example_view (example_query mode)"
    by (simp add: query_fits_def example_query_def only_def ep_Count_def Unconstrained_def depth_of_def MaxDepth_def)
  show "wanted_set example_view (example_query mode) = {example_path}"
    using example_shortest by (simp add: wanted_set_def example_query_def only_def ep_nodes_def depth_of_def MaxDepth_def)
qed

theorem AllShortestPaths_exact_witness:
  "ok (AllShortestPaths example_env example_view (example_query ModeAll)) (\<lambda>(paths, err). err = None \<and> paths = [example_path])"
proof (rule ok_mono [OF AllShortestPaths_exact [OF example_query_ok(1,2)]], clarify)
  fix paths err
  let ?q = "example_query ModeAll"
  have it: "pairs_of (ep_Iterate (q_Roots ?q) example_view) (ep_Iterate (q_Terminals ?q) example_view) = [example_ends]"
    by (simp add: pairs_of_def ep_Iterate_def example_query_def only_def)
  have q: "q_Kinds ?q = None" "nat (depth_of ?q) = 15" by (simp_all add: example_query_def depth_of_def MaxDepth_def)
  assume "case err of None \<Rightarrow> \<exists>Ls. listed (view_adj example_view) (q_Kinds ?q) (nat (depth_of ?q)) (pairs_of (ep_Iterate (q_Roots ?q) example_view) (ep_Iterate (q_Terminals ?q) example_view)) Ls \<and>
      paths = wanted ?q Ls | Some e \<Rightarrow> e = ErrTooLarge \<and> (\<not> query_fits example_view ?q \<or> 0 < MemoryLimit ?q) \<or> bad_err ?q e"
  then obtain Ls where Ls: "err = None" "listed (view_adj example_view) None 15 [example_ends] Ls" "paths = wanted ?q Ls"
    unfolding it q using example_query_ok(3) by (auto simp: bad_err_def example_query_def split: option.splits)
  then obtain L where L: "Ls = [L]" "distinct L" "set L = {example_path}"
    using example_shortest by (auto simp: listed_def list_all2_Cons1 case_prod_unfold)
  then have "L = [example_path]" by (cases L) (auto simp: subset_singleton_iff)
  then show "err = None \<and> paths = [example_path]" using Ls(1,3) L(1) by (simp add: wanted_def example_query_def upto_limit_def shortest_of_def)
qed

theorem AllShortestPaths_answers_witness:
  "ok (AllShortestPaths example_env example_view ((example_query ModeAllPerPair)\<lparr>q_Ctx := Some (\<lambda>_. False)\<rparr>)) (\<lambda>(paths, err). err = None \<and> set paths = {example_path})"
proof -
  let ?q = "(example_query ModeAllPerPair)\<lparr>q_Ctx := Some (\<lambda>_. False)\<rparr>"
  have "query_ok v (q\<lparr>q_Ctx := c\<rparr>) = query_ok v q" "query_fits v (q\<lparr>q_Ctx := c\<rparr>) = query_fits v q" "wanted_set v (q\<lparr>q_Ctx := c\<rparr>) = wanted_set v q" for v q c
    by (simp_all add: query_ok_def query_fits_def wanted_set_def depth_of_def)
  then have "query_ok example_view ?q" "query_fits example_view ?q" "wanted_set example_view ?q = {example_path}"
    using example_query_ok by simp_all
  then show ?thesis
    by (intro ok_mono [OF AllShortestPaths_answers [OF _ example_query_ok(2)]]) (auto simp: example_query_def complete_def)
qed

theorem SelfEndpointConflict_exact_witness:
  "SelfEndpointConflict example_view (only (fst example_ends)) \<lparr>ep_IDs = None, ep_Bits = None\<rparr> = Some True \<and>
   SelfEndpointConflict example_view (only (fst example_ends)) (only (snd example_ends)) = Some False"
proof -
  have e: "endpoint_ok example_view (only (fst example_ends))" "endpoint_ok example_view (only (snd example_ends))" "endpoint_ok example_view \<lparr>ep_IDs = None, ep_Bits = None\<rparr>"
    using example_ends_ok(1,2) by (simp_all add: endpoint_ok_def only_def)
  have "Alive example_view (fst example_ends)" using Alive_iff [OF example_view_wf(1)] example_ends_ok(1,3) by (simp add: example_view_graph)
  moreover have "fst example_ends \<noteq> snd example_ends" using example_ends_ok(3,4) by force
  ultimately show ?thesis
    using SelfEndpointConflict_exact [OF example_path_wf e(1,3)] SelfEndpointConflict_exact [OF example_path_wf e(1,2)] example_ends_ok(3)
    by (auto simp: ep_nodes_def only_def example_edges_view split: if_splits)
qed

end
