(* ===== verification/Codec.thy ===== *)
theory Codec
  imports BT_Prelude "HOL-Library.State_Monad"
begin

text \<open>
  The binary encoder and decoder of \<open>internal/engine/snapshot/file.go\<close> (\<open>binWriter\<close>, \<open>binReader\<close>) with
  what they use of the standard library: little-endian integers and the IEEE CRC-32. Both carry a
  sticky error, and the reader a budget of the bytes the file still holds, as a state each operation
  threads. A byte is a \<open>char\<close>, as in the strings and the property arena.

  The interface between the two is the pair \<open>writes\<close> and \<open>reads\<close>: what a writing operation appends when
  no call failed, and that a reading operation takes exactly those bytes and returns the value.
\<close>

section \<open>Little-endian integers\<close>

type_synonym bytes = string

primrec le :: "nat \<Rightarrow> nat \<Rightarrow> bytes" where
  "le 0 n = []"
| "le (Suc k) n = char_of (n mod 256) # le k (n div 256)"

primrec unle :: "bytes \<Rightarrow> nat" where
  "unle [] = 0"
| "unle (c # cs) = of_char c + 256 * unle cs"

lemma length_le [simp]: "length (le k n) = k"
  by (induction k arbitrary: n) simp_all

lemma unle_le: "unle (le k n) = n mod 256 ^ k"
  by (induction k arbitrary: n) (simp_all add: mod_mult2_eq)

lemma unle_lt: "unle bs < 256 ^ length bs"
proof (induction bs)
  case (Cons c cs)
  have "of_char c < (256 :: nat)" by (rule nat_of_char_less_256)
  then have "of_char c + 256 * unle cs < 256 + 256 * unle cs" by simp
  also have "\<dots> \<le> 256 * 256 ^ length cs" using Cons by (metis Suc_leI mult_Suc_right mult_le_mono2)
  finally show ?case by simp
qed simp

text \<open>The two's-complement reading of a \<open>w\<close>-bit pattern, and the pattern of an integer.\<close>

definition unsigned_of :: "nat \<Rightarrow> int \<Rightarrow> nat" where
  "unsigned_of w v = nat (v mod 2 ^ w)"

definition signed_of :: "nat \<Rightarrow> nat \<Rightarrow> int" where
  "signed_of w u = (if u < 2 ^ (w - 1) then int u else int u - 2 ^ w)"

lemma signed_unsigned:
  assumes "0 < w" and "- (2 ^ (w - 1)) \<le> v" and "v < 2 ^ (w - 1)"
  shows "signed_of w (unsigned_of w v) = v" and "unsigned_of w v < 2 ^ w"
proof -
  have p: "(2 :: int) ^ w = 2 * 2 ^ (w - 1)" using assms(1) by (cases w) simp_all
  have "nat (v mod 2 ^ w) < 2 ^ w" by (simp add: nat_less_iff)
  then show "unsigned_of w v < 2 ^ w" by (simp add: unsigned_of_def)
  show "signed_of w (unsigned_of w v) = v"
  proof (cases "0 \<le> v")
    case True
    then have "v mod 2 ^ w = v" using assms p by simp
    then show ?thesis using True assms(3) by (simp add: signed_of_def unsigned_of_def nat_less_iff)
  next
    case False
    then have "v mod 2 ^ w = v + 2 ^ w" using assms p by (subst mod_pos_pos_trivial [symmetric, of "v + 2 ^ w" "2 ^ w"]) simp_all
    then show ?thesis using False assms p by (simp add: signed_of_def unsigned_of_def nat_less_iff)
  qed
qed

section \<open>CRC-32\<close>

definition crc32_bit :: "32 word \<Rightarrow> 32 word" where
  "crc32_bit c = (if bit c 0 then xor (drop_bit 1 c) 0xEDB88320 else drop_bit 1 c)"

definition crc32_byte :: "char \<Rightarrow> 32 word \<Rightarrow> 32 word" where
  "crc32_byte b c = (crc32_bit ^^ 8) (xor c (of_nat (of_char b)))"

definition crc32 :: "bytes \<Rightarrow> nat" where
  "crc32 bs = unat (not (fold crc32_byte bs 0xFFFFFFFF))"

section \<open>The writer\<close>

text \<open>\<open>io n\<close> says how the \<open>n\<close>th call to the underlying writer ends: \<open>None\<close> without an error, \<open>Some k\<close> with one after \<open>k\<close> bytes.\<close>

record binWriter =
  bw_out :: bytes
  bw_calls :: nat
  bw_err :: bool

type_synonym 'a writer = "(binWriter, 'a) state"

definition bw_write :: "(nat \<Rightarrow> nat option) \<Rightarrow> bytes \<Rightarrow> unit writer" where
  "bw_write io p = State (\<lambda>bw. ((),
     if bw_err bw then bw
     else case io (bw_calls bw) of
            None \<Rightarrow> bw\<lparr>bw_out := bw_out bw @ p, bw_calls := bw_calls bw + 1\<rparr>
          | Some k \<Rightarrow> bw\<lparr>bw_out := bw_out bw @ take k p, bw_calls := bw_calls bw + 1, bw_err := True\<rparr>))"

definition bw_u8 :: "(nat \<Rightarrow> nat option) \<Rightarrow> nat \<Rightarrow> unit writer" where "bw_u8 io v = bw_write io (le 1 v)"
definition bw_u16 :: "(nat \<Rightarrow> nat option) \<Rightarrow> nat \<Rightarrow> unit writer" where "bw_u16 io v = bw_write io (le 2 v)"
definition bw_i16 :: "(nat \<Rightarrow> nat option) \<Rightarrow> int \<Rightarrow> unit writer" where "bw_i16 io v = bw_u16 io (unsigned_of 16 v)"
definition bw_u32 :: "(nat \<Rightarrow> nat option) \<Rightarrow> nat \<Rightarrow> unit writer" where "bw_u32 io v = bw_write io (le 4 v)"
definition bw_i32 :: "(nat \<Rightarrow> nat option) \<Rightarrow> int \<Rightarrow> unit writer" where "bw_i32 io v = bw_u32 io (unsigned_of 32 v)"
definition bw_u64 :: "(nat \<Rightarrow> nat option) \<Rightarrow> nat \<Rightarrow> unit writer" where "bw_u64 io v = bw_write io (le 8 v)"
definition bw_f64 :: "(nat \<Rightarrow> nat option) \<Rightarrow> 64 word \<Rightarrow> unit writer" where "bw_f64 io v = bw_u64 io (unat v)"
definition bw_bytes :: "(nat \<Rightarrow> nat option) \<Rightarrow> bytes \<Rightarrow> unit writer" where "bw_bytes io p = bw_write io p"

definition bw_str :: "(nat \<Rightarrow> nat option) \<Rightarrow> string \<Rightarrow> unit writer" where
  "bw_str io s = do { bw_u32 io (u32 (length s)); bw_write io s }"

text \<open>An array is encoded into one buffer and written by one call; an empty one makes no call.\<close>

definition bw_array :: "(nat \<Rightarrow> nat option) \<Rightarrow> ('a \<Rightarrow> bytes) \<Rightarrow> 'a list \<Rightarrow> unit writer" where
  "bw_array io enc xs = (if xs = [] then State_Monad.return () else bw_write io (concat (map enc xs)))"

definition bw_u64s :: "(nat \<Rightarrow> nat option) \<Rightarrow> nat list \<Rightarrow> unit writer" where "bw_u64s io = bw_array io (le 8)"
definition bw_u32s :: "(nat \<Rightarrow> nat option) \<Rightarrow> nat list \<Rightarrow> unit writer" where "bw_u32s io = bw_array io (le 4)"
definition bw_i16s :: "(nat \<Rightarrow> nat option) \<Rightarrow> int list \<Rightarrow> unit writer" where "bw_i16s io = bw_array io (\<lambda>v. le 2 (unsigned_of 16 v))"

fun write_each :: "('a \<Rightarrow> unit writer) \<Rightarrow> 'a list \<Rightarrow> unit writer" where
  "write_each w [] = State_Monad.return ()"
| "write_each w (x # xs) = do { w x; write_each w xs }"

section \<open>The reader\<close>

text \<open>\<open>br_in\<close> is what the file still holds, \<open>br_seen\<close> what was consumed (what the checksum saw).\<close>

record binReader =
  br_in :: bytes
  br_seen :: bytes
  br_err :: "string option"
  br_limited :: bool
  br_remaining :: int

type_synonym 'a reader = "(binReader, 'a) state"

definition br_claim :: "nat \<Rightarrow> nat \<Rightarrow> bool reader" where
  "br_claim n width = State (\<lambda>br.
     if br_err br \<noteq> None then (False, br)
     else if \<not> br_limited br then (True, br)
     else if br_remaining br < 0 \<or> n > nat (br_remaining br) div width
     then (False, br\<lparr>br_err := Some ''does not fit in the bytes left in the file''\<rparr>)
     else (True, br))"

text \<open>\<open>read\<close> and \<open>readScratch\<close> differ in the buffer they fill only.\<close>

definition br_read :: "nat \<Rightarrow> (bytes option) reader" where
  "br_read n = State (\<lambda>br.
     if br_err br \<noteq> None then (None, br)
     else if length (br_in br) < n
     then (None, br\<lparr>br_err := Some ''unexpected EOF'', br_in := [], br_seen := br_seen br @ br_in br\<rparr>)
     else (Some (take n (br_in br)), br\<lparr>br_in := drop n (br_in br), br_seen := br_seen br @ take n (br_in br),
             br_remaining := br_remaining br - int n\<rparr>))"

definition br_scalar :: "nat \<Rightarrow> nat reader" where
  "br_scalar k = do { b \<leftarrow> br_read k; State_Monad.return (case b of None \<Rightarrow> 0 | Some bs \<Rightarrow> unle bs) }"

definition br_u8 :: "nat reader" where "br_u8 = br_scalar 1"
definition br_u16 :: "nat reader" where "br_u16 = br_scalar 2"
definition br_i16 :: "int reader" where "br_i16 = do { u \<leftarrow> br_u16; State_Monad.return (signed_of 16 u) }"
definition br_u32 :: "nat reader" where "br_u32 = br_scalar 4"
definition br_i32 :: "int reader" where "br_i32 = do { u \<leftarrow> br_u32; State_Monad.return (signed_of 32 u) }"
definition br_u64 :: "nat reader" where "br_u64 = br_scalar 8"
definition br_f64 :: "64 word reader" where "br_f64 = do { u \<leftarrow> br_u64; State_Monad.return (of_nat u) }"

definition maxReadAlloc :: nat where "maxReadAlloc = 2 ^ 40"

definition br_fail :: "string \<Rightarrow> unit reader" where
  "br_fail msg = State (\<lambda>br. ((), br\<lparr>br_err := Some msg\<rparr>))"

definition br_failed :: "bool reader" where
  "br_failed = State (\<lambda>br. (br_err br \<noteq> None, br))"

definition br_bytes :: "nat \<Rightarrow> (bytes option) reader" where
  "br_bytes n = do { failed \<leftarrow> br_failed;
     if failed then State_Monad.return None
     else if n > maxReadAlloc then do { br_fail ''refusing to allocate''; State_Monad.return None }
     else do { fits \<leftarrow> br_claim n 1; if \<not> fits then State_Monad.return None else br_read n } }"

definition br_str :: "string reader" where
  "br_str = do { n \<leftarrow> br_u32; b \<leftarrow> br_bytes n; State_Monad.return (case b of None \<Rightarrow> [] | Some s \<Rightarrow> s) }"

text \<open>The elements of \<open>width\<close> bytes in a buffer.\<close>

fun split_bytes :: "nat \<Rightarrow> nat \<Rightarrow> bytes \<Rightarrow> bytes list" where
  "split_bytes width 0 bs = []"
| "split_bytes width (Suc n) bs = take width bs # split_bytes width n (drop width bs)"

definition br_array :: "nat \<Rightarrow> (bytes \<Rightarrow> 'a) \<Rightarrow> nat \<Rightarrow> 'a list reader" where
  "br_array width dec n = do { failed \<leftarrow> br_failed;
     if failed then State_Monad.return []
     else if n > maxReadAlloc div width then do { br_fail ''refusing to allocate''; State_Monad.return [] }
     else do { fits \<leftarrow> br_claim n width;
       if \<not> fits \<or> n = 0 then State_Monad.return []
       else do { b \<leftarrow> br_read (n * width);
         State_Monad.return (case b of None \<Rightarrow> [] | Some bs \<Rightarrow> map dec (split_bytes width n bs)) } } }"

definition br_u64s :: "nat \<Rightarrow> nat list reader" where "br_u64s = br_array 8 unle"
definition br_u32s :: "nat \<Rightarrow> nat list reader" where "br_u32s = br_array 4 unle"
definition br_i16s :: "nat \<Rightarrow> int list reader" where "br_i16s = br_array 2 (\<lambda>b. signed_of 16 (unle b))"

fun read_each :: "'a reader \<Rightarrow> nat \<Rightarrow> 'a list reader" where
  "read_each r 0 = State_Monad.return []"
| "read_each r (Suc n) = do { x \<leftarrow> r; xs \<leftarrow> read_each r n; State_Monad.return (x # xs) }"

section \<open>What a write appends\<close>

named_theorems codec

definition writes :: "(nat \<Rightarrow> nat option) \<Rightarrow> unit writer \<Rightarrow> bytes \<Rightarrow> bool" where
  "writes io w bs \<longleftrightarrow> (\<forall>bw. let bw' = snd (run_state w bw) in
     (\<not> bw_err bw' \<longrightarrow> \<not> bw_err bw \<and> bw_out bw' = bw_out bw @ bs) \<and>
     (io = (\<lambda>_. None) \<and> \<not> bw_err bw \<longrightarrow> \<not> bw_err bw'))"

lemma run_state_bind [simp]: "run_state (m \<bind> f) s = (case run_state m s of (x, s') \<Rightarrow> run_state (f x) s')"
  by (cases m) (simp add: State_Monad.bind_def)

lemma writes_write [codec]: "writes io (bw_write io p) p"
  by (simp add: writes_def bw_write_def split: option.split)

lemma writes_return [codec]: "writes io (State_Monad.return ()) []"
  by (simp add: writes_def)

lemma writes_bind [codec]:
  assumes "writes io w bs" and "writes io (w' ()) bs'"
  shows "writes io (w \<bind> w') (bs @ bs')"
  unfolding writes_def
proof
  fix bw
  obtain bw1 where 1: "run_state w bw = ((), bw1)" by (metis old.unit.exhaust surj_pair)
  show "let bw' = snd (run_state (w \<bind> w') bw) in (\<not> bw_err bw' \<longrightarrow> \<not> bw_err bw \<and> bw_out bw' = bw_out bw @ bs @ bs') \<and>
      (io = (\<lambda>_. None) \<and> \<not> bw_err bw \<longrightarrow> \<not> bw_err bw')"
    using assms(1) [unfolded writes_def Let_def, THEN spec [of _ bw]] assms(2) [unfolded writes_def Let_def, THEN spec [of _ bw1]]
    unfolding Let_def run_state_bind 1 prod.case snd_conv by (metis append_assoc)
qed

lemma writes_each [codec]: "(\<And>x. x \<in> set xs \<Longrightarrow> writes io (w x) (enc x)) \<Longrightarrow> writes io (write_each w xs) (concat (map enc xs))"
  by (induction xs) (simp_all add: writes_return writes_bind)

lemma writes_array [codec]: "writes io (bw_array io enc xs) (concat (map enc xs))"
  by (simp add: bw_array_def writes_return writes_write)

lemma writes_scalar [codec]:
  "writes io (bw_u8 io v) (le 1 v)" "writes io (bw_u16 io v) (le 2 v)" "writes io (bw_u32 io v) (le 4 v)" "writes io (bw_u64 io v) (le 8 v)"
  "writes io (bw_i16 io i) (le 2 (unsigned_of 16 i))" "writes io (bw_i32 io i) (le 4 (unsigned_of 32 i))"
  "writes io (bw_f64 io f) (le 8 (unat f))" "writes io (bw_bytes io p) p"
  by (simp_all add: bw_u8_def bw_u16_def bw_i16_def bw_u32_def bw_i32_def bw_u64_def bw_f64_def bw_bytes_def writes_write)

lemma writes_str [codec]: "writes io (bw_str io s) (le 4 (u32 (length s)) @ s)"
  unfolding bw_str_def by (intro writes_bind writes_scalar writes_write)

lemma writes_arrays [codec]:
  "writes io (bw_u64s io ns) (concat (map (le 8) ns))" "writes io (bw_u32s io ns) (concat (map (le 4) ns))"
  "writes io (bw_i16s io is) (concat (map (\<lambda>v. le 2 (unsigned_of 16 v)) is))"
  by (simp_all add: bw_u64s_def bw_u32s_def bw_i16s_def writes_array)

section \<open>What a read returns\<close>

definition reads :: "'a reader \<Rightarrow> bytes \<Rightarrow> 'a \<Rightarrow> bool" where
  "reads r bs v \<longleftrightarrow> (\<forall>br rest. br_err br = None \<and> br_in br = bs @ rest \<and> (br_limited br \<longrightarrow> int (length bs) \<le> br_remaining br) \<longrightarrow>
     run_state r br = (v, br\<lparr>br_in := rest, br_seen := br_seen br @ bs, br_remaining := br_remaining br - int (length bs)\<rparr>))"

lemma reads_return [codec]: "reads (State_Monad.return v) [] v"
  by (simp add: reads_def)

lemma reads_bind [codec]:
  assumes "reads r bs v" and "reads (f v) bs' w"
  shows "reads (r \<bind> f) (bs @ bs') w"
  unfolding reads_def
proof (intro allI impI, elim conjE)
  fix br :: binReader and rest
  assume br: "br_err br = None" "br_in br = (bs @ bs') @ rest" "br_limited br \<longrightarrow> int (length (bs @ bs')) \<le> br_remaining br"
  let ?br = "br\<lparr>br_in := bs' @ rest, br_seen := br_seen br @ bs, br_remaining := br_remaining br - int (length bs)\<rparr>"
  have 1: "run_state r br = (v, ?br)" using assms(1) [unfolded reads_def, THEN spec [of _ br], THEN spec [of _ "bs' @ rest"]] br by auto
  have "run_state (f v) ?br = (w, ?br\<lparr>br_in := rest, br_seen := br_seen ?br @ bs', br_remaining := br_remaining ?br - int (length bs')\<rparr>)"
    using assms(2) [unfolded reads_def, THEN spec [of _ ?br], THEN spec [of _ rest]] br by auto
  then show "run_state (r \<bind> f) br = (w, br\<lparr>br_in := rest, br_seen := br_seen br @ bs @ bs', br_remaining := br_remaining br - int (length (bs @ bs'))\<rparr>)"
    using 1 by (simp add: algebra_simps)
qed

lemma reads_read: "n = length bs \<Longrightarrow> reads (br_read n) bs (Some bs)"
  by (simp add: reads_def br_read_def)

lemma reads_failed: "reads br_failed [] False"
  by (simp add: reads_def br_failed_def)

text \<open>A claim looks ahead: it succeeds when the bytes it asks about are there.\<close>

lemma claim_ok:
  assumes "br_err br = None" and "br_limited br \<longrightarrow> int (n * width) \<le> br_remaining br" and "0 < width"
  shows "run_state (br_claim n width) br = (True, br)"
proof -
  have "n \<le> nat (br_remaining br) div width" if "br_limited br"
  proof -
    have "nat (int (n * width)) \<le> nat (br_remaining br)" using assms(2) that by (intro nat_mono) blast
    then show ?thesis using assms(3) by (simp only: nat_int less_eq_div_iff_mult_less_eq)
  qed
  moreover have "0 \<le> br_remaining br" if "br_limited br" using assms that by (meson of_nat_0_le_iff order_trans)
  ultimately show ?thesis using assms(1) by (auto simp: br_claim_def)
qed

lemma reads_scalar:
  assumes "v < 256 ^ k"
  shows "reads (br_scalar k) (le k v) v"
proof -
  have "reads (br_scalar k) (le k v @ []) (case Some (le k v) of None \<Rightarrow> 0 | Some bs \<Rightarrow> unle bs)"
    unfolding br_scalar_def by (rule reads_bind [OF reads_read reads_return]) simp
  then show ?thesis using assms by (simp add: unle_le)
qed

lemma reads_map: "reads r bs v \<Longrightarrow> reads (do { x \<leftarrow> r; State_Monad.return (g x) }) bs (g v)"
  using reads_bind [of r bs v "\<lambda>x. State_Monad.return (g x)", OF _ reads_return] by simp

lemma reads_scalars [codec]:
  "v < 256 \<Longrightarrow> reads br_u8 (le 1 v) v" "v < 2 ^ 16 \<Longrightarrow> reads br_u16 (le 2 v) v"
  "v < 2 ^ 32 \<Longrightarrow> reads br_u32 (le 4 v) v" "v < 2 ^ 64 \<Longrightarrow> reads br_u64 (le 8 v) v"
  unfolding br_u8_def br_u16_def br_u32_def br_u64_def by (rule reads_scalar; simp)+

lemma reads_signed [codec]:
  "- (2 ^ 15) \<le> i \<Longrightarrow> i < 2 ^ 15 \<Longrightarrow> reads br_i16 (le 2 (unsigned_of 16 i)) i"
  "- (2 ^ 31) \<le> i \<Longrightarrow> i < 2 ^ 31 \<Longrightarrow> reads br_i32 (le 4 (unsigned_of 32 i)) i"
  using reads_map [OF reads_scalars(2), of "unsigned_of 16 i" "signed_of 16"] reads_map [OF reads_scalars(3), of "unsigned_of 32 i" "signed_of 32"]
    signed_unsigned [of 16 i] signed_unsigned [of 32 i] by (simp_all add: br_i16_def br_i32_def)

lemma reads_f64 [codec]: "reads br_f64 (le 8 (unat f)) f"
  using reads_map [OF reads_scalars(4), of "unat f" "of_nat :: nat \<Rightarrow> 64 word"] unsigned_less [of f] by (simp add: br_f64_def)

lemma reads_bytes [codec]:
  assumes "length bs \<le> maxReadAlloc" and "n = length bs"
  shows "reads (br_bytes n) bs (Some bs)"
  unfolding reads_def
proof (intro allI impI, elim conjE)
  fix br :: binReader and rest
  assume br: "br_err br = None" "br_in br = bs @ rest" "br_limited br \<longrightarrow> int (length bs) \<le> br_remaining br"
  have "run_state (br_claim (length bs) 1) br = (True, br)" using br by (intro claim_ok) simp_all
  then show "run_state (br_bytes n) br = (Some bs, br\<lparr>br_in := rest, br_seen := br_seen br @ bs, br_remaining := br_remaining br - int (length bs)\<rparr>)"
    using br assms by (simp add: br_bytes_def br_failed_def br_read_def)
qed

lemma reads_str [codec]:
  assumes "length s < 2 ^ 32"
  shows "reads br_str (le 4 (u32 (length s)) @ s) s"
proof -
  have "reads (do { b \<leftarrow> br_bytes (length s); State_Monad.return (case b of None \<Rightarrow> [] | Some s \<Rightarrow> s) }) s s"
    using reads_map [OF reads_bytes, of s "length s" "\<lambda>b. case b of None \<Rightarrow> [] | Some s \<Rightarrow> s"] assms by (simp add: maxReadAlloc_def)
  then show ?thesis using assms unfolding br_str_def by (auto simp: u32_id intro!: reads_bind reads_scalars)
qed

lemma split_encoded: "\<forall>x \<in> set xs. length (enc x) = width \<Longrightarrow> split_bytes width (length xs) (concat (map enc xs)) = map enc xs"
  by (induction xs) auto

lemma length_encoded: "\<forall>x \<in> set xs. length (enc x) = width \<Longrightarrow> length (concat (map enc xs)) = length xs * width"
  by (induction xs) auto

lemma reads_array:
  assumes enc: "\<forall>x \<in> set xs. length (enc x) = width \<and> dec (enc x) = x" and len: "length xs \<le> maxReadAlloc div width" and w: "0 < width"
    and n: "n = length xs"
  shows "reads (br_array width dec n) (concat (map enc xs)) xs"
  unfolding reads_def
proof (intro allI impI, elim conjE)
  fix br :: binReader and rest
  let ?bs = "concat (map enc xs)"
  assume br: "br_err br = None" "br_in br = ?bs @ rest" "br_limited br \<longrightarrow> int (length ?bs) \<le> br_remaining br"
  have l: "length ?bs = length xs * width" using enc by (intro length_encoded) simp
  have c: "run_state (br_claim (length xs) width) br = (True, br)" using br l w by (intro claim_ok) simp_all
  have dec: "map dec (map enc xs) = xs" using enc by (simp add: map_idI)
  have sp: "split_bytes width (length xs) ?bs = map enc xs" using enc by (intro split_encoded) simp
  have "run_state (br_read (length xs * width)) br = (Some ?bs, br\<lparr>br_in := rest, br_seen := br_seen br @ ?bs, br_remaining := br_remaining br - int (length ?bs)\<rparr>)"
    using br l by (simp add: br_read_def)
  then show "run_state (br_array width dec n) br = (xs, br\<lparr>br_in := rest, br_seen := br_seen br @ ?bs, br_remaining := br_remaining br - int (length ?bs)\<rparr>)"
    using br c len dec sp unfolding n by (cases "xs = []") (simp_all add: br_array_def br_failed_def del: map_map)
qed

lemma reads_arrays [codec]:
  "\<forall>x \<in> set ns. x < 2 ^ 64 \<Longrightarrow> length ns \<le> maxReadAlloc div 8 \<Longrightarrow> n = length ns \<Longrightarrow> reads (br_u64s n) (concat (map (le 8) ns)) ns"
  "\<forall>x \<in> set ns. x < 2 ^ 32 \<Longrightarrow> length ns \<le> maxReadAlloc div 4 \<Longrightarrow> n = length ns \<Longrightarrow> reads (br_u32s n) (concat (map (le 4) ns)) ns"
  "\<forall>x \<in> set is. - (2 ^ 15) \<le> x \<and> x < 2 ^ 15 \<Longrightarrow> length is \<le> maxReadAlloc div 2 \<Longrightarrow> n = length is \<Longrightarrow>
     reads (br_i16s n) (concat (map (\<lambda>v. le 2 (unsigned_of 16 v)) is)) is"
proof -
  show "\<forall>x \<in> set ns. x < 2 ^ 64 \<Longrightarrow> length ns \<le> maxReadAlloc div 8 \<Longrightarrow> n = length ns \<Longrightarrow> reads (br_u64s n) (concat (map (le 8) ns)) ns"
    unfolding br_u64s_def by (intro reads_array) (auto simp: unle_le)
  show "\<forall>x \<in> set ns. x < 2 ^ 32 \<Longrightarrow> length ns \<le> maxReadAlloc div 4 \<Longrightarrow> n = length ns \<Longrightarrow> reads (br_u32s n) (concat (map (le 4) ns)) ns"
    unfolding br_u32s_def by (intro reads_array) (auto simp: unle_le)
  show "\<forall>x \<in> set is. - (2 ^ 15) \<le> x \<and> x < 2 ^ 15 \<Longrightarrow> length is \<le> maxReadAlloc div 2 \<Longrightarrow> n = length is \<Longrightarrow>
      reads (br_i16s n) (concat (map (\<lambda>v. le 2 (unsigned_of 16 v)) is)) is"
    unfolding br_i16s_def using signed_unsigned [of 16] by (intro reads_array) (auto simp: unle_le)
qed

lemma reads_each: "(\<And>x. x \<in> set xs \<Longrightarrow> reads r (enc x) (f x)) \<Longrightarrow> n = length xs \<Longrightarrow> reads (read_each r n) (concat (map enc xs)) (map f xs)"
proof (induction xs arbitrary: n)
  case (Cons x xs)
  have "reads (do { ys \<leftarrow> read_each r (length xs); State_Monad.return (f x # ys) }) (concat (map enc xs)) (f x # map f xs)"
    using Cons by (intro reads_map) simp
  then show ?case using Cons.prems by (auto intro!: reads_bind)
qed (simp add: reads_return)

text \<open>The checks between the reads.\<close>

lemma reads_returnI [codec]: "v = w \<Longrightarrow> reads (State_Monad.return v) [] w"
  by (simp add: reads_return)

lemma reads_else [codec]: "\<not> b \<Longrightarrow> reads y bs v \<Longrightarrow> reads (if b then x else y) bs v"
  by simp

lemma reads_failed_then [codec]: "reads (f False) bs v \<Longrightarrow> reads (br_failed \<bind> f) bs v"
  using reads_bind [OF reads_failed, of f bs v] by simp

lemma reads_claim_then [codec]:
  assumes "n * width \<le> length bs" and "0 < width" and f: "reads (f True) bs v"
  shows "reads (br_claim n width \<bind> f) bs v"
  unfolding reads_def
proof (intro allI impI, elim conjE)
  fix br :: binReader and rest
  assume br: "br_err br = None" "br_in br = bs @ rest" "br_limited br \<longrightarrow> int (length bs) \<le> br_remaining br"
  have "br_limited br \<longrightarrow> int (n * width) \<le> br_remaining br" using br(3) assms(1) by (metis of_nat_mono order_trans)
  then have "run_state (br_claim n width) br = (True, br)" using br(1) assms(2) by (intro claim_ok)
  moreover have "run_state (f True) br = (v, br\<lparr>br_in := rest, br_seen := br_seen br @ bs, br_remaining := br_remaining br - int (length bs)\<rparr>)"
    using f [unfolded reads_def, THEN spec [of _ br], THEN spec [of _ rest]] br by blast
  ultimately show "run_state (br_claim n width \<bind> f) br = (v, br\<lparr>br_in := rest, br_seen := br_seen br @ bs, br_remaining := br_remaining br - int (length bs)\<rparr>)"
    by simp
qed

end
