(* ===== verification/SnapFile.thy ===== *)
theory SnapFile
  imports Codec Graph BootGap
begin

text \<open>
  Snapshot files, \<open>internal/engine/snapshot/file.go\<close> and \<open>validate.go\<close>: the versioned binary format with its
  checksum, the structural validation of what was read, and the atomic replacement of the file.

  A file is its bytes. What the operating system decides is an environment: the name of the temporary
  file, how each write call ends, and which of the later steps fail. Names and entries as they come off
  the wire are \<open>rawStore\<close> and \<open>rawEntry\<close>, where the kind of a value is still a byte. A panic while a file is
  read is recovered and reported as \<open>ErrCorrupt\<close>, so a check that would index out of range is one that fails.
\<close>

section \<open>The format\<close>

definition snapshotMagic :: bytes where "snapshotMagic = ''BTSNAP'' @ [CHR 0x00]"

definition snapshotFormatVersion :: nat where "snapshotFormatVersion = 3"

datatype snapErr = ErrNotSnapshot | ErrVersionMismatch | ErrCorrupt

record Header =
  h_GraphID :: int
  h_Lineage :: lineage
  h_Stamp :: stamp

definition byte_of_kind :: "propKind \<Rightarrow> nat" where
  "byte_of_kind k = (case k of propKindNull \<Rightarrow> 0 | propKindFalse \<Rightarrow> 1 | propKindTrue \<Rightarrow> 2 | propKindNumber \<Rightarrow> 3
     | propKindString \<Rightarrow> 4 | propKindArray \<Rightarrow> 5 | propKindObject \<Rightarrow> 6 | propKindNumberNonCanonical \<Rightarrow> 7)"

definition kind_of_byte :: "nat \<Rightarrow> propKind option" where
  "kind_of_byte b = map_of [(0, propKindNull), (1, propKindFalse), (2, propKindTrue), (3, propKindNumber),
     (4, propKindString), (5, propKindArray), (6, propKindObject), (7, propKindNumberNonCanonical)] b"

lemma kind_of_byte_of [simp]: "kind_of_byte (byte_of_kind k) = Some k"
  by (cases k) (simp_all add: kind_of_byte_def byte_of_kind_def)

definition lineage_bytes :: "lineage \<Rightarrow> bytes" where "lineage_bytes l = map (\<lambda>w. char_of (unat w)) l"

definition bytes_lineage :: "bytes \<Rightarrow> lineage" where "bytes_lineage bs = map (\<lambda>c. of_nat (of_char c)) bs"

section \<open>Writing\<close>

definition writeKindTable :: "(nat \<Rightarrow> nat option) \<Rightarrow> KindTable \<Rightarrow> unit writer" where
  "writeKindTable io kt = do {
     bw_u64 io (length (filter (\<lambda>name. name \<noteq> []) (kt_names kt)));
     write_each (\<lambda>(i, name). do { bw_i16 io (int i); bw_str io name })
       (filter (\<lambda>(i, name). name \<noteq> []) (zip [0..<length (kt_names kt)] (kt_names kt))) }"

definition writeEntry :: "(nat \<Rightarrow> nat option) \<Rightarrow> propEntry \<Rightarrow> unit writer" where
  "writeEntry io e = do { bw_u16 io (e_prop e); bw_u8 io (byte_of_kind (e_kind e)); bw_f64 io (e_num e);
     bw_u32 io (e_ref e); bw_u32 io (e_len e) }"

definition writePropStore :: "(nat \<Rightarrow> nat option) \<Rightarrow> PropStore \<Rightarrow> unit writer" where
  "writePropStore io p = do {
     bw_u64 io (length (propNames (ps_table p)));
     write_each (bw_str io) (propNames (ps_table p));
     bw_u64 io (length (ps_entries p));
     write_each (writeEntry io) (ps_entries p);
     bw_u32s io (ps_nodeOffsets p);
     bw_u64 io (length (propArena (ps_table p)));
     bw_bytes io (propArena (ps_table p)) }"

definition writeSnapshotBody :: "(nat \<Rightarrow> nat option) \<Rightarrow> Snapshot \<Rightarrow> stamp \<Rightarrow> unit writer" where
  "writeSnapshotBody io s stmp = do {
     bw_u32 io snapshotFormatVersion;
     bw_i32 io (GraphID s);
     bw_u64 io (st_Watermark stmp);
     bw_bytes io (lineage_bytes (WatermarkLineage s));
     bw_u64 io (unsigned_of 64 (st_NodeIDSeq stmp));
     bw_u64 io (unsigned_of 64 (st_EdgeIDSeq stmp));
     bw_u64 io (NodeCount s);
     bw_u64 io (EdgeCount s);
     bw_u64 io (length (NodeKinds s));
     bw_u64s io (GraphIDs s);
     bw_u64s io (OutOffsets s);
     bw_u32s io (OutTargets s);
     bw_i16s io (OutKinds s);
     bw_u64s io (OutEdgeIDs s);
     bw_u64s io (InOffsets s);
     bw_u32s io (InTargets s);
     bw_i16s io (InKinds s);
     bw_u32s io (InEdgeIdx s);
     bw_u32s io (KindOffsets s);
     bw_i16s io (NodeKinds s);
     bw_u32s io (edgeIDPerm s);
     writeKindTable io (sKinds s);
     writePropStore io (sProps s);
     bw_u8 io (if MultiGraph s then 1 else 0);
     bw_u64 io (DroppedEdges s) }"

text \<open>The directory as a map from names to contents, and the steps that can fail besides the writes of the body.\<close>

type_synonym directory = "string \<rightharpoonup> bytes"

datatype io_step = WriteMagic | WriteCRC | FlushTemp | SyncTemp | CloseTemp | RenameTemp | RemoveTemp

text \<open>
  What a system call on a directory returns: the error classes the code tells apart, \<open>NotSupported\<close> for
  \<open>EINVAL\<close>, \<open>ENOTSUP\<close> and \<open>EOPNOTSUPP\<close>.
\<close>

datatype fs_error = NotExist | NotSupported | OtherError

record dir_env =
  de_windows :: bool
  de_open :: "fs_error option"
  de_sync :: "fs_error option"
  de_close :: "fs_error option"

definition dirSyncUnsupported :: "fs_error \<Rightarrow> bool" where "dirSyncUnsupported e \<longleftrightarrow> e = NotSupported"

definition syncDir :: "dir_env \<Rightarrow> fs_error option" where
  "syncDir env =
     (if de_windows env then None
      else case de_open env of
        Some e \<Rightarrow> Some e
      | None \<Rightarrow> (case de_sync env of
            Some e \<Rightarrow> if dirSyncUnsupported e then de_close env else Some e
          | None \<Rightarrow> de_close env))"

record write_env =
  we_temp :: "string option"
  we_io :: "nat \<Rightarrow> nat option"
  we_fails :: "io_step \<Rightarrow> bool"
  we_partial :: bytes
  we_dir :: dir_env

definition cleanupTemp :: "write_env \<Rightarrow> directory \<Rightarrow> string \<Rightarrow> directory" where
  "cleanupTemp env d tmp = d(tmp := if we_fails env RemoveTemp then Some (we_partial env) else None)"

definition file_bytes :: "bytes \<Rightarrow> bytes" where
  "file_bytes body = snapshotMagic @ body @ le 4 (crc32 body)"

definition WriteSnapshotFile :: "write_env \<Rightarrow> directory \<Rightarrow> string \<Rightarrow> Snapshot \<Rightarrow> stamp \<Rightarrow> directory \<times> string option" where
  "WriteSnapshotFile env d path s stmp =
     (case we_temp env of
        None \<Rightarrow> (d, Some ''create temp file'')
      | Some tmp \<Rightarrow>
          if we_fails env WriteMagic then (cleanupTemp env d tmp, Some ''write magic'')
          else let bw = snd (run_state (writeSnapshotBody (we_io env) s stmp) \<lparr>bw_out = [], bw_calls = 0, bw_err = False\<rparr>) in
          if bw_err bw then (cleanupTemp env d tmp, Some ''write body'')
          else if we_fails env WriteCRC then (cleanupTemp env d tmp, Some ''write crc'')
          else if we_fails env FlushTemp then (cleanupTemp env d tmp, Some ''flush'')
          else if we_fails env SyncTemp then (cleanupTemp env d tmp, Some ''sync'')
          else if we_fails env CloseTemp then (cleanupTemp env d tmp, Some ''close temp file'')
          else if we_fails env RenameTemp then (cleanupTemp env d tmp, Some ''rename'')
          else (d(tmp := None, path := Some (file_bytes (bw_out bw))),
                if syncDir (we_dir env) \<noteq> None then Some ''sync directory'' else None))"

text \<open>\<open>rm\<close> is what \<open>os.Remove\<close> reports when it fails on a file that is there.\<close>

definition RemoveSnapshotFile :: "dir_env \<Rightarrow> fs_error option \<Rightarrow> directory \<Rightarrow> string \<Rightarrow> directory \<times> bool \<times> fs_error option" where
  "RemoveSnapshotFile env rm d path =
     (let err = (if d path = None then Some NotExist else rm);
          d' = (if err = None then d(path := None) else d);
          removed = (err = None) in
      if err \<noteq> None \<and> err \<noteq> Some NotExist then (d, False, err)
      else case syncDir env of
             None \<Rightarrow> (d', removed, None)
           | Some e \<Rightarrow> (d', removed, if e = NotExist then None else Some e))"

section \<open>Reading\<close>

definition readMagic :: "bytes \<Rightarrow> snapErr + bytes" where
  "readMagic bs =
     (if length bs < length snapshotMagic \<or> take (length snapshotMagic) bs \<noteq> snapshotMagic then Inl ErrNotSnapshot
      else Inr (drop (length snapshotMagic) bs))"

definition readHeader :: "(snapErr + Header) reader" where
  "readHeader = do {
     version \<leftarrow> br_u32;
     failed \<leftarrow> br_failed;
     if failed then State_Monad.return (Inl ErrCorrupt)
     else if version \<noteq> snapshotFormatVersion then State_Monad.return (Inl ErrVersionMismatch)
     else do {
       g \<leftarrow> br_i32;
       watermark \<leftarrow> br_u64;
       lin \<leftarrow> br_bytes 16;
       nodeSeq \<leftarrow> br_u64;
       edgeSeq \<leftarrow> br_u64;
       failed \<leftarrow> br_failed;
       State_Monad.return (if failed then Inl ErrCorrupt
         else Inr \<lparr>h_GraphID = g, h_Lineage = (case lin of None \<Rightarrow> replicate 16 0 | Some bs \<Rightarrow> bytes_lineage bs),
                h_Stamp = \<lparr>st_Watermark = watermark, st_NodeIDSeq = signed_of 64 nodeSeq, st_EdgeIDSeq = signed_of 64 edgeSeq\<rparr>\<rparr>) } }"

definition maxKindTableEntries :: nat where "maxKindTableEntries = 65536"

fun readKindPairs :: "nat \<Rightarrow> (kindid \<times> string) list \<Rightarrow> ((kindid \<times> string) list option) reader" where
  "readKindPairs 0 pairs = State_Monad.return (Some pairs)"
| "readKindPairs (Suc n) pairs = do {
     i \<leftarrow> br_i16;
     name \<leftarrow> br_str;
     failed \<leftarrow> br_failed;
     if failed then State_Monad.return None else readKindPairs n (AList.update i name pairs) }"

text \<open>\<open>None\<close>: the nil table of a failed read. The inner option is the panic of \<open>NewKindTable\<close>.\<close>

definition readKindTable :: "((KindTable option) option) reader" where
  "readKindTable = do {
     count \<leftarrow> br_u64;
     failed \<leftarrow> br_failed;
     if failed then State_Monad.return None
     else if count > maxKindTableEntries then do { br_fail ''kind table entry count''; State_Monad.return None }
     else do {
       fits \<leftarrow> br_claim count 6;
       if \<not> fits then State_Monad.return None
       else do { pairs \<leftarrow> readKindPairs count []; State_Monad.return (map_option NewKindTable pairs) } } }"

record rawEntry =
  re_prop :: nat
  re_kind :: nat
  re_num :: "64 word"
  re_ref :: nat
  re_len :: nat

record rawStore =
  rs_names :: "string list"
  rs_entries :: "rawEntry list"
  rs_nodeOffsets :: "nat list"
  rs_arena :: bytes

definition propEntryWireSize :: nat where "propEntryWireSize = 19"

definition bytesPerPropEntry :: nat where "bytesPerPropEntry = 24"

definition readEntry :: "rawEntry reader" where
  "readEntry = do { prop \<leftarrow> br_u16; kind \<leftarrow> br_u8; num \<leftarrow> br_f64; r \<leftarrow> br_u32; l \<leftarrow> br_u32;
     State_Monad.return \<lparr>re_prop = prop, re_kind = kind, re_num = num, re_ref = r, re_len = l\<rparr> }"

definition readPropStore :: "nat \<Rightarrow> (rawStore option) reader" where
  "readPropStore n = do {
     nameCount \<leftarrow> br_u64;
     failed \<leftarrow> br_failed;
     if failed then State_Monad.return None
     else if nameCount > maxPropID + 1 then do { br_fail ''property name count''; State_Monad.return None }
     else do {
       fits \<leftarrow> br_claim nameCount 4;
       if \<not> fits then State_Monad.return None
       else do {
         names \<leftarrow> read_each br_str nameCount;
         entryCount \<leftarrow> br_u64;
         failed \<leftarrow> br_failed;
         if failed then State_Monad.return None
         else if entryCount > maxReadAlloc div bytesPerPropEntry then do { br_fail ''prop entries''; State_Monad.return None }
         else do {
           fits \<leftarrow> br_claim entryCount propEntryWireSize;
           if \<not> fits then State_Monad.return None
           else do {
             entries \<leftarrow> read_each readEntry entryCount;
             nodeOffsets \<leftarrow> br_u32s (u64 (n + 1));
             arenaLen \<leftarrow> br_u64;
             arena \<leftarrow> br_bytes arenaLen;
             failed \<leftarrow> br_failed;
             State_Monad.return (if failed then None
               else Some \<lparr>rs_names = names, rs_entries = entries, rs_nodeOffsets = nodeOffsets,
                      rs_arena = (case arena of None \<Rightarrow> [] | Some a \<Rightarrow> a)\<rparr>) } } } } }"

definition entry_of :: "rawEntry \<Rightarrow> propEntry" where
  "entry_of e = \<lparr>e_prop = re_prop e, e_kind = (case kind_of_byte (re_kind e) of None \<Rightarrow> propKindNull | Some k \<Rightarrow> k),
     e_num = re_num e, e_ref = re_ref e, e_len = re_len e\<rparr>"

definition store_of :: "rawStore \<Rightarrow> PropStore" where
  "store_of p = \<lparr>ps_table = \<lparr>propNames = rs_names p, propIDs = Map.empty, propArena = rs_arena p\<rparr>,
     ps_entries = map entry_of (rs_entries p), ps_nodeOffsets = rs_nodeOffsets p, ps_objectIndex = [], ps_objectIndexDup = []\<rparr>"

section \<open>Validation\<close>

definition validateOffsets64 :: "nat list \<Rightarrow> nat \<Rightarrow> bool" where
  "validateOffsets64 offsets indexed \<longleftrightarrow> offsets \<noteq> [] \<and> hd offsets = 0 \<and>
     list_all (\<lambda>i. offsets ! (i - 1) \<le> offsets ! i) [1..<length offsets] \<and> last offsets = u64 indexed"

definition validateOffsets32 :: "nat list \<Rightarrow> nat \<Rightarrow> bool" where
  "validateOffsets32 offsets indexed \<longleftrightarrow> offsets \<noteq> [] \<and> hd offsets = 0 \<and>
     list_all (\<lambda>i. offsets ! (i - 1) \<le> offsets ! i) [1..<length offsets] \<and> last offsets = u32 indexed"

definition validateEntry :: "rawStore \<Rightarrow> rawEntry \<Rightarrow> bool" where
  "validateEntry p e \<longleftrightarrow> re_prop e < length (rs_names p) \<and>
     (case kind_of_byte (re_kind e) of
        None \<Rightarrow> False
      | Some k \<Rightarrow> has_payload k \<longrightarrow> re_ref e + re_len e \<le> length (rs_arena p))"

text \<open>The indices of a node's entries are uint32 and wrap.\<close>

definition entriesAscend :: "rawEntry list \<Rightarrow> nat \<Rightarrow> nat \<Rightarrow> bool" where
  "entriesAscend es lo hi = list_all (\<lambda>i.
     case (idx es i, idx es (u32 (i + 2 ^ 32 - 1))) of (Some e, Some prev) \<Rightarrow> re_prop prev < re_prop e | _ \<Rightarrow> False) [u32 (lo + 1)..<hi]"

definition validatePropStore :: "rawStore option \<Rightarrow> nat \<Rightarrow> bool" where
  "validatePropStore store n =
     (case store of
        None \<Rightarrow> False
      | Some p \<Rightarrow>
          length (rs_nodeOffsets p) = n + 1 \<and> validateOffsets32 (rs_nodeOffsets p) (length (rs_entries p)) \<and>
          distinct (rs_names p) \<and> list_all (validateEntry p) (rs_entries p) \<and>
          list_all (\<lambda>node. entriesAscend (rs_entries p) (rs_nodeOffsets p ! node) (rs_nodeOffsets p ! (node + 1))) [0..<n])"

definition validateSnapshotStructure :: "Snapshot \<Rightarrow> rawStore option \<Rightarrow> bool" where
  "validateSnapshotStructure s store \<longleftrightarrow>
     (let n = length (GraphIDs s); e = length (OutTargets s) in
      length (OutKinds s) = e \<and> length (OutEdgeIDs s) = e \<and> length (InTargets s) = e \<and> length (InKinds s) = e \<and>
      length (InEdgeIdx s) = e \<and> length (edgeIDPerm s) = e \<and>
      length (OutOffsets s) = n + 1 \<and> length (InOffsets s) = n + 1 \<and> length (KindOffsets s) = n + 1 \<and>
      validateOffsets64 (OutOffsets s) e \<and> validateOffsets64 (InOffsets s) e \<and> validateOffsets32 (KindOffsets s) (length (NodeKinds s)) \<and>
      list_all (\<lambda>i. GraphIDs s ! (i - 1) < GraphIDs s ! i) [1..<n] \<and>
      list_all (\<lambda>t. t < n) (OutTargets s) \<and> list_all (\<lambda>t. t < n) (InTargets s) \<and>
      list_all (\<lambda>i. i < e) (InEdgeIdx s) \<and> list_all (\<lambda>i. i < e) (edgeIDPerm s) \<and>
      validatePropStore store n)"

section \<open>The whole file\<close>

text \<open>The fields after the header, in order; the snapshot they make up, given its kind table and property store.\<close>

definition readFields :: "Header \<Rightarrow> ((KindTable option) option \<times> rawStore option \<times> (KindTable \<Rightarrow> PropStore \<Rightarrow> Snapshot)) reader" where
  "readFields header = do {
     n \<leftarrow> br_u64;
     e \<leftarrow> br_u64;
     nodeKindsLen \<leftarrow> br_u64;
     graphIDs \<leftarrow> br_u64s n;
     outOffsets \<leftarrow> br_u64s (u64 (n + 1));
     outTargets \<leftarrow> br_u32s e;
     outKinds \<leftarrow> br_i16s e;
     outEdgeIDs \<leftarrow> br_u64s e;
     inOffsets \<leftarrow> br_u64s (u64 (n + 1));
     inTargets \<leftarrow> br_u32s e;
     inKinds \<leftarrow> br_i16s e;
     inEdgeIdx \<leftarrow> br_u32s e;
     kindOffsets \<leftarrow> br_u32s (u64 (n + 1));
     nodeKinds \<leftarrow> br_i16s nodeKindsLen;
     perm \<leftarrow> br_u32s e;
     kinds \<leftarrow> readKindTable;
     props \<leftarrow> readPropStore n;
     multiGraph \<leftarrow> br_u8;
     droppedEdges \<leftarrow> br_u64;
     State_Monad.return (kinds, props, \<lambda>kt p. \<lparr>GraphID = h_GraphID header, GraphIDs = graphIDs, OutOffsets = outOffsets,
       OutTargets = outTargets, OutKinds = outKinds, OutEdgeIDs = outEdgeIDs, InOffsets = inOffsets, InTargets = inTargets,
       InKinds = inKinds, InEdgeIdx = inEdgeIdx, KindOffsets = kindOffsets, NodeKinds = nodeKinds, MaxKindID = 0, sKinds = kt,
       sProps = p, DroppedEdges = nat (signed_of 64 droppedEdges), idIndex = [], kindBitmaps = [], sSelfLoopKinds = [], edgeKindSeen = [],
       edgeIDPerm = perm, MultiGraph = multiGraph \<noteq> 0, WatermarkLineage = h_Lineage header\<rparr>) }"

definition ReadSnapshotFile :: "bytes \<Rightarrow> snapErr + (Snapshot \<times> stamp)" where
  "ReadSnapshotFile bs =
     (case readMagic bs of
        Inl e \<Rightarrow> Inl e
      | Inr raw \<Rightarrow>
          let br = \<lparr>br_in = raw, br_seen = [], br_err = None, br_limited = True,
                    br_remaining = int (length bs) - int (length snapshotMagic) - 4\<rparr>;
              (header, br) = run_state readHeader br in
          case header of
            Inl e \<Rightarrow> Inl e
          | Inr header \<Rightarrow>
              let ((kinds, props, mk), br) = run_state (readFields header) br in
              if br_err br \<noteq> None then Inl ErrCorrupt
              else if length (br_in br) < 4 \<or> unle (take 4 (br_in br)) \<noteq> crc32 (br_seen br) then Inl ErrCorrupt
              else case (kinds, props) of
                     (Some (Some kt), Some p) \<Rightarrow>
                       if \<not> validateSnapshotStructure (mk kt (store_of p)) props then Inl ErrCorrupt
                       else (case finalizeDerived (mk kt (store_of p)) of None \<Rightarrow> Inl ErrCorrupt | Some s \<Rightarrow> Inr (s, h_Stamp header))
                   | _ \<Rightarrow> Inl ErrCorrupt)"

definition ReadSnapshotFileHeader :: "bytes \<Rightarrow> snapErr + Header" where
  "ReadSnapshotFileHeader bs =
     (case readMagic bs of
        Inl e \<Rightarrow> Inl e
      | Inr raw \<Rightarrow> fst (run_state readHeader \<lparr>br_in = raw, br_seen = [], br_err = None, br_limited = False, br_remaining = 0\<rparr>))"

end
