(* ===== verification/SnapCodec.thy ===== *)
theory SnapCodec
  imports SnapFile
begin

text \<open>
  Correctness of the snapshot files: what is written reads back as the same snapshot, whatever is
  accepted is safe to read, and a failed or interrupted write leaves the file as it was.
\<close>

section \<open>The encoding\<close>

definition enc_str :: "string \<Rightarrow> bytes" where "enc_str s = le 4 (u32 (length s)) @ s"

definition named_kinds :: "KindTable \<Rightarrow> (nat \<times> string) list" where
  "named_kinds kt = filter (\<lambda>(i, name). name \<noteq> []) (zip [0..<length (kt_names kt)] (kt_names kt))"

definition enc_kinds :: "KindTable \<Rightarrow> bytes" where
  "enc_kinds kt = le 8 (length (named_kinds kt)) @ concat (map (\<lambda>(i, name). le 2 (unsigned_of 16 (int i)) @ enc_str name) (named_kinds kt))"

definition enc_entry :: "propEntry \<Rightarrow> bytes" where
  "enc_entry e = le 2 (e_prop e) @ le 1 (byte_of_kind (e_kind e)) @ le 8 (unat (e_num e)) @ le 4 (e_ref e) @ le 4 (e_len e)"

definition enc_store :: "PropStore \<Rightarrow> bytes" where
  "enc_store p = le 8 (length (propNames (ps_table p))) @ concat (map enc_str (propNames (ps_table p))) @
     le 8 (length (ps_entries p)) @ concat (map enc_entry (ps_entries p)) @ concat (map (le 4) (ps_nodeOffsets p)) @
     le 8 (length (propArena (ps_table p))) @ propArena (ps_table p)"

definition enc_header :: "Snapshot \<Rightarrow> stamp \<Rightarrow> bytes" where
  "enc_header s stmp = le 4 snapshotFormatVersion @ le 4 (unsigned_of 32 (GraphID s)) @ le 8 (st_Watermark stmp) @
     lineage_bytes (WatermarkLineage s) @ le 8 (unsigned_of 64 (st_NodeIDSeq stmp)) @ le 8 (unsigned_of 64 (st_EdgeIDSeq stmp))"

abbreviation enc_i16s :: "int list \<Rightarrow> bytes" where "enc_i16s ks \<equiv> concat (map (\<lambda>v. le 2 (unsigned_of 16 v)) ks)"
abbreviation enc_u32s :: "nat list \<Rightarrow> bytes" where "enc_u32s ns \<equiv> concat (map (le 4) ns)"
abbreviation enc_u64s :: "nat list \<Rightarrow> bytes" where "enc_u64s ns \<equiv> concat (map (le 8) ns)"

definition enc_fields :: "Snapshot \<Rightarrow> bytes" where
  "enc_fields s = le 8 (NodeCount s) @ le 8 (EdgeCount s) @ le 8 (length (NodeKinds s)) @
     enc_u64s (GraphIDs s) @ enc_u64s (OutOffsets s) @ enc_u32s (OutTargets s) @ enc_i16s (OutKinds s) @ enc_u64s (OutEdgeIDs s) @
     enc_u64s (InOffsets s) @ enc_u32s (InTargets s) @ enc_i16s (InKinds s) @ enc_u32s (InEdgeIdx s) @
     enc_u32s (KindOffsets s) @ enc_i16s (NodeKinds s) @ enc_u32s (edgeIDPerm s) @
     enc_kinds (sKinds s) @ enc_store (sProps s) @ le 1 (if MultiGraph s then 1 else 0) @ le 8 (DroppedEdges s)"

definition enc_body :: "Snapshot \<Rightarrow> stamp \<Rightarrow> bytes" where
  "enc_body s stmp = enc_header s stmp @ enc_fields s"

lemma named_count: "length (filter (\<lambda>name. name \<noteq> []) (kt_names kt)) = length (named_kinds kt)"
proof -
  have "filter (\<lambda>name. name \<noteq> []) (map snd (zip [0..<length (kt_names kt)] (kt_names kt))) = map snd (named_kinds kt)"
    unfolding named_kinds_def filter_map by (simp add: comp_def case_prod_unfold)
  then show ?thesis by (metis length_map map_snd_zip diff_zero length_upt)
qed

lemma writes_kinds [codec]: "writes io (writeKindTable io kt) (enc_kinds kt)"
  unfolding writeKindTable_def enc_kinds_def named_count named_kinds_def [symmetric] enc_str_def
  by (intro writes_bind writes_scalar writes_each) (auto intro!: writes_bind writes_scalar writes_str)

lemma writes_entry [codec]: "writes io (writeEntry io e) (enc_entry e)"
  unfolding writeEntry_def enc_entry_def by (intro writes_bind writes_scalar)

lemma writes_store [codec]: "writes io (writePropStore io p) (enc_store p)"
  unfolding writePropStore_def enc_store_def enc_str_def [abs_def]
  by (intro writes_bind writes_scalar writes_each writes_entry writes_str writes_arrays)

lemma writes_body: "writes io (writeSnapshotBody io s stmp) (enc_body s stmp)"
  unfolding writeSnapshotBody_def enc_body_def enc_header_def enc_fields_def append_assoc
  by (intro writes_bind writes_scalar writes_kinds writes_store writes_arrays)

section \<open>Reading the encoding\<close>

text \<open>What the widths of the format ask of a snapshot beyond its structure.\<close>

abbreviation int16 :: "int \<Rightarrow> bool" where "int16 k \<equiv> - (2 ^ 15) \<le> k \<and> k < 2 ^ 15"

definition stamp_ok :: "stamp \<Rightarrow> bool" where
  "stamp_ok stmp \<longleftrightarrow> st_Watermark stmp < 2 ^ 64 \<and> - (2 ^ 63) \<le> st_NodeIDSeq stmp \<and> st_NodeIDSeq stmp < 2 ^ 63 \<and>
     - (2 ^ 63) \<le> st_EdgeIDSeq stmp \<and> st_EdgeIDSeq stmp < 2 ^ 63"

lemma lineage_back: "bytes_lineage (lineage_bytes l) = l"
proof -
  have "of_nat (unat w mod 256) = (w :: 8 word)" for w
  proof -
    have "unat w mod 256 = unat w" using unsigned_less [of w, where 'a = nat] by simp
    then show ?thesis by simp
  qed
  then show ?thesis by (simp add: bytes_lineage_def lineage_bytes_def comp_def)
qed

definition header_of :: "Snapshot \<Rightarrow> stamp \<Rightarrow> Header" where
  "header_of s stmp = \<lparr>h_GraphID = GraphID s, h_Lineage = WatermarkLineage s, h_Stamp = stmp\<rparr>"

lemma reads_header:
  assumes st: "stamp_ok stmp" and g: "- (2 ^ 31) \<le> GraphID s" "GraphID s < 2 ^ 31" and l: "length (WatermarkLineage s) = 16"
  shows "reads readHeader (enc_header s stmp) (Inr (header_of s stmp))"
proof -
  have ver: "snapshotFormatVersion < 2 ^ 32" by (simp add: snapshotFormatVersion_def)
  have w: "st_Watermark stmp < 2 ^ 64" using st by (simp add: stamp_ok_def)
  have seq: "signed_of 64 (unsigned_of 64 (st_NodeIDSeq stmp)) = st_NodeIDSeq stmp" "unsigned_of 64 (st_NodeIDSeq stmp) < 2 ^ 64"
    "signed_of 64 (unsigned_of 64 (st_EdgeIDSeq stmp)) = st_EdgeIDSeq stmp" "unsigned_of 64 (st_EdgeIDSeq stmp) < 2 ^ 64"
    using signed_unsigned [of 64 "st_NodeIDSeq stmp"] signed_unsigned [of 64 "st_EdgeIDSeq stmp"] st by (simp_all add: stamp_ok_def)
  have lin: "length (lineage_bytes (WatermarkLineage s)) = 16" using l by (simp add: lineage_bytes_def)
  have "reads readHeader (enc_header s stmp @ []) (Inr (header_of s stmp))"
    unfolding readHeader_def enc_header_def append_assoc
    by (rule reads_failed_then reads_else reads_bind [OF reads_scalars(3)] reads_bind [OF reads_signed(2)] reads_bind [OF reads_scalars(4)]
        reads_bind [OF reads_bytes] reads_returnI ver w g seq(2,4) | simp add: lin seq(1,3) maxReadAlloc_def header_of_def lineage_back)+
  then show ?thesis by simp
qed

lemma update_new: "k \<notin> fst ` set ps \<Longrightarrow> AList.update k v ps = ps @ [(k, v)]"
  by (induction ps) auto

lemma concat_size: "\<forall>x \<in> set xs. w \<le> length (enc x) \<Longrightarrow> length xs * w \<le> length (concat (map enc xs))"
  by (induction xs) auto

definition kind_pairs :: "KindTable \<Rightarrow> (kindid \<times> string) list" where
  "kind_pairs kt = map (\<lambda>(i, name). (int i, name)) (named_kinds kt)"

lemma reads_kind_pairs:
  assumes "\<forall>(i, name) \<in> set L. i < 2 ^ 15 \<and> length name < 2 ^ 32" and "distinct (map fst L)" and "\<forall>(i, name) \<in> set L. int i \<notin> fst ` set acc"
  shows "reads (readKindPairs (length L) acc) (concat (map (\<lambda>(i, name). le 2 (unsigned_of 16 (int i)) @ enc_str name) L))
    (Some (acc @ map (\<lambda>(i, name). (int i, name)) L))"
  using assms
proof (induction L arbitrary: acc)
  case Nil
  then show ?case by (simp add: reads_return)
next
  case (Cons x L)
  obtain i name where x: "x = (i, name)" by (cases x)
  have r: "- (2 ^ 15) \<le> int i" "int i < 2 ^ 15" "length name < 2 ^ 32" using Cons.prems(1) x by auto
  have up: "AList.update (int i) name acc = acc @ [(int i, name)]" using Cons.prems(3) x by (intro update_new) simp
  have "reads (readKindPairs (length L) (AList.update (int i) name acc)) (concat (map (\<lambda>(i, name). le 2 (unsigned_of 16 (int i)) @ enc_str name) L))
      (Some (acc @ map (\<lambda>(i, name). (int i, name)) (x # L)))"
    using Cons.IH [of "acc @ [(int i, name)]"] Cons.prems unfolding up x by (force simp: image_iff)
  then have "reads (do { failed \<leftarrow> br_failed; if failed then State_Monad.return None else readKindPairs (length L) (AList.update (int i) name acc) })
      (concat (map (\<lambda>(i, name). le 2 (unsigned_of 16 (int i)) @ enc_str name) L)) (Some (acc @ map (\<lambda>(i, name). (int i, name)) (x # L)))"
    by (intro reads_failed_then) simp
  note rest = this
  have "reads (readKindPairs (Suc (length L)) acc) (le 2 (unsigned_of 16 (int i)) @ enc_str name @ concat (map (\<lambda>(i, name). le 2 (unsigned_of 16 (int i)) @ enc_str name) L))
      (Some (acc @ map (\<lambda>(i, name). (int i, name)) (x # L)))"
    unfolding readKindPairs.simps
    by (rule reads_bind [OF reads_signed(1) [OF r(1,2)]], rule reads_bind [OF reads_str [OF r(3), folded enc_str_def]], rule rest)
  then show ?case unfolding x by simp
qed

lemma named_kinds_distinct: "distinct (map fst (named_kinds kt))"
  unfolding named_kinds_def by (intro distinct_map_filter) simp

lemma reads_kinds:
  assumes "\<forall>(i, name) \<in> set (named_kinds kt). i < 2 ^ 15 \<and> length name < 2 ^ 32"
  shows "reads readKindTable (enc_kinds kt) (Some (NewKindTable (kind_pairs kt)))"
proof -
  let ?enc = "\<lambda>(i, name). le 2 (unsigned_of 16 (int i)) @ enc_str name" and ?L = "named_kinds kt"
  have "card (fst ` set ?L) \<le> card {..<2 ^ 15 :: nat}" using assms by (intro card_mono) auto
  then have n: "length ?L \<le> 2 ^ 15" using distinct_card [OF named_kinds_distinct, of kt] by simp
  have claim: "length ?L * 6 \<le> length (concat (map ?enc ?L))" by (intro concat_size) (auto simp: enc_str_def)
  have pairs: "reads (readKindPairs (length ?L) []) (concat (map ?enc ?L)) (Some (kind_pairs kt))"
    using reads_kind_pairs [OF assms named_kinds_distinct, of "[]"] by (simp add: kind_pairs_def)
  have "reads (do { pairs \<leftarrow> readKindPairs (length ?L) []; State_Monad.return (map_option NewKindTable pairs) }) (concat (map ?enc ?L)) (Some (NewKindTable (kind_pairs kt)))"
    using reads_map [OF pairs, of "map_option NewKindTable"] by simp
  then show ?thesis using n claim unfolding readKindTable_def enc_kinds_def
    by (intro reads_bind [OF reads_scalars(4)] reads_failed_then reads_claim_then) (simp_all add: maxKindTableEntries_def reads_claim_then)
qed

definition raw_entry :: "propEntry \<Rightarrow> rawEntry" where
  "raw_entry e = \<lparr>re_prop = e_prop e, re_kind = byte_of_kind (e_kind e), re_num = e_num e, re_ref = e_ref e, re_len = e_len e\<rparr>"

definition raw_of :: "PropStore \<Rightarrow> rawStore" where
  "raw_of p = \<lparr>rs_names = propNames (ps_table p), rs_entries = map raw_entry (ps_entries p), rs_nodeOffsets = ps_nodeOffsets p,
     rs_arena = propArena (ps_table p)\<rparr>"

definition entry_fits :: "propEntry \<Rightarrow> bool" where
  "entry_fits e \<longleftrightarrow> e_prop e < 2 ^ 16 \<and> e_ref e < 2 ^ 32 \<and> e_len e < 2 ^ 32"

lemma reads_entry:
  assumes "entry_fits e"
  shows "reads readEntry (enc_entry e) (raw_entry e)"
proof -
  have r: "e_prop e < 2 ^ 16" "e_ref e < 2 ^ 32" "e_len e < 2 ^ 32" using assms by (simp_all add: entry_fits_def)
  have k: "byte_of_kind (e_kind e) < 256" by (simp add: byte_of_kind_def split: propKind.split)
  have "reads readEntry (enc_entry e @ []) (raw_entry e)"
    unfolding readEntry_def enc_entry_def append_assoc
    by (rule reads_bind [OF reads_scalars(2)] reads_bind [OF reads_scalars(1)] reads_bind [OF reads_f64] reads_bind [OF reads_scalars(3)] reads_returnI r k
        | simp add: raw_entry_def)+
  then show ?thesis by simp
qed

lemma reads_store:
  assumes names: "length (propNames (ps_table p)) \<le> maxPropID + 1" "\<forall>x \<in> set (propNames (ps_table p)). length x < 2 ^ 32"
    and entries: "\<forall>e \<in> set (ps_entries p). entry_fits e" "length (ps_entries p) < 2 ^ 32"
    and offs: "length (ps_nodeOffsets p) = n + 1" "\<forall>x \<in> set (ps_nodeOffsets p). x < 2 ^ 32" "n \<le> 2 ^ 32"
    and arena: "length (propArena (ps_table p)) \<le> maxPropArena"
  shows "reads (readPropStore n) (enc_store p) (Some (raw_of p))"
proof -
  let ?names = "propNames (ps_table p)" and ?es = "ps_entries p" and ?arena = "propArena (ps_table p)"
  have nc: "length ?names < 2 ^ 64" "\<not> maxPropID + 1 < length ?names" using names(1) by (simp_all add: maxPropID_def)
  have ec: "length ?es < 2 ^ 64" "\<not> maxReadAlloc div bytesPerPropEntry < length ?es" using entries(2) by (simp_all add: maxReadAlloc_def bytesPerPropEntry_def)
  have ac: "length ?arena < 2 ^ 64" "length ?arena \<le> maxReadAlloc" using arena by (simp_all add: maxPropArena_def maxReadAlloc_def)
  have nm: "reads (read_each br_str (length ?names)) (concat (map enc_str ?names)) ?names"
    using reads_each [of ?names br_str enc_str "\<lambda>x. x" "length ?names"] reads_str names(2) by (simp add: enc_str_def)
  have esr: "reads (read_each readEntry (length ?es)) (concat (map enc_entry ?es)) (map raw_entry ?es)"
    using entries(1) by (intro reads_each reads_entry) simp_all
  have off: "reads (br_u32s (u64 (n + 1))) (concat (map (le 4) (ps_nodeOffsets p))) (ps_nodeOffsets p)"
    using offs by (intro reads_arrays) (simp_all add: maxReadAlloc_def u64_id)
  have cn: "length ?names * 4 \<le> length (concat (map enc_str ?names) @ bs)" for bs
    using concat_size [of ?names 4 enc_str] by (simp add: enc_str_def)
  have ce: "length ?es * propEntryWireSize \<le> length (concat (map enc_entry ?es) @ bs)" for bs
    using concat_size [of ?es 19 enc_entry] by (simp add: enc_entry_def propEntryWireSize_def)
  have "reads (readPropStore n) (enc_store p @ []) (Some (raw_of p))"
    unfolding readPropStore_def enc_store_def append_assoc
    by (rule reads_failed_then reads_claim_then reads_else reads_bind [OF nm] reads_bind [OF esr] reads_bind [OF off] reads_bind [OF reads_scalars(4)]
        reads_bind [OF reads_bytes] reads_returnI nc ec ac cn ce | simp add: raw_of_def propEntryWireSize_def)+
  then show ?thesis by simp
qed

section \<open>Every field of a snapshot fits the format\<close>

definition file_ranges :: "Snapshot \<Rightarrow> bool" where
  "file_ranges s \<longleftrightarrow> - (2 ^ 31) \<le> GraphID s \<and> GraphID s < 2 ^ 31 \<and> length (WatermarkLineage s) = 16 \<and> DroppedEdges s < 2 ^ 63 \<and>
     (\<forall>x \<in> set (GraphIDs s) \<union> set (OutEdgeIDs s). x < 2 ^ 64) \<and> (\<forall>k \<in> set (OutKinds s) \<union> set (NodeKinds s). int16 k) \<and>
     length (NodeKinds s) < 2 ^ 32 \<and> length (ps_entries (sProps s)) < 2 ^ 32 - 1 \<and> (\<forall>x \<in> set (propNames (ps_table (sProps s))). length x < 2 ^ 32)"

lemma slots_bound: "x \<in> set (map (row_start b) [0..<Suc n]) \<Longrightarrow> x \<le> row_start b n"
  using row_start_mono by (auto simp: less_Suc_eq_le simp del: upt_Suc)

lemma slots_in: "x \<in> set (slots_of b n) \<longleftrightarrow> (\<exists>i < n. x \<in> set (b i))"
  by (auto simp: slots_of_def)

text \<open>The reverse rows hold each forward slot once.\<close>

lemma in_slots_distinct:
  assumes agree: "rows_agree n out inn" and tgt: "\<forall>u < n. \<forall>x \<in> set (out u). fst x < n"
  shows "distinct (map (snd \<circ> snd) (slots_of inn n))" and "set (map (snd \<circ> snd) (slots_of inn n)) = {..<row_start out n}"
proof -
  have iff: "(u, k, j) \<in> set (inn t) \<longleftrightarrow> u < n \<and> (\<exists>l < length (out u). j = row_start out u + l \<and> fst (out u ! l) = t \<and> fst (snd (out u ! l)) = k)"
    if "t < n" for t u k j using agree that unfolding rows_agree_def by blast
  have same: "t = t' \<and> x = y" if t: "t < n" "t' < n" and xy: "x \<in> set (inn t)" "y \<in> set (inn t')" "snd (snd x) = snd (snd y)" for t t' x y
  proof -
    obtain u k j where x: "x = (u, k, j)" by (cases x)
    obtain u' k' j' where y: "y = (u', k', j')" by (cases y)
    obtain l where l: "l < length (out u)" "j = row_start out u + l" "fst (out u ! l) = t" "fst (snd (out u ! l)) = k" using iff [OF t(1)] xy(1) x by blast
    obtain l' where l': "l' < length (out u')" "j' = row_start out u' + l'" "fst (out u' ! l') = t'" "fst (snd (out u' ! l')) = k'" using iff [OF t(2)] xy(2) y by blast
    have "u = u' \<and> l = l'" using row_disjoint [of out u l u' l'] l l' xy(3) x y by simp
    then show ?thesis using x y l l' by simp
  qed
  have d: "distinct (inn t)" if "t < n" for t using agree that unfolding rows_agree_def by blast
  show "distinct (map (snd \<circ> snd) (slots_of inn n))"
  proof -
    have "distinct (concat (map inn [0..<m]))" if "m \<le> n" for m
      using that
    proof (induction m)
      case (Suc m)
      have "x \<notin> set (inn m)" if "i < m" "x \<in> set (inn i)" for x i using same [of i m x x] that Suc.prems by auto
      then have "set (concat (map inn [0..<m])) \<inter> set (inn m) = {}" by auto
      then show ?case using Suc d by simp
    qed simp
    then have "distinct (slots_of inn n)" by (simp add: slots_of_def)
    moreover have "inj_on (snd \<circ> snd) (set (slots_of inn n))" unfolding slots_in inj_on_def using same by (auto simp: slots_of_def)
    ultimately show ?thesis by (simp add: distinct_map)
  qed
  show "set (map (snd \<circ> snd) (slots_of inn n)) = {..<row_start out n}"
  proof (intro equalityI subsetI)
    fix j assume "j \<in> set (map (snd \<circ> snd) (slots_of inn n))"
    then obtain t u k where t: "t < n" "(u, k, j) \<in> set (inn t)" by (auto simp: slots_of_def)
    then obtain l where "u < n" "l < length (out u)" "j = row_start out u + l" using iff by blast
    then show "j \<in> {..<row_start out n}" using row_start_nth(2) [of u n l out] by simp
  next
    fix j assume "j \<in> {..<row_start out n}"
    then obtain u l where u: "u < n" "l < length (out u)" "j = row_start out u + l" using row_index by blast
    then have t: "fst (out u ! l) < n" using tgt nth_mem by blast
    then have "(u, fst (snd (out u ! l)), j) \<in> set (inn (fst (out u ! l)))" using iff [OF t] u by blast
    then show "j \<in> set (map (snd \<circ> snd) (slots_of inn n))" using t by (force simp: slots_of_def)
  qed
qed

text \<open>The structure of a well-formed snapshot, as the validation states it.\<close>

lemma snap_shape:
  assumes wf: "snap_wf s out inn kr pr"
  defines "n \<equiv> NodeCount s" and "e \<equiv> EdgeCount s"
  shows "n \<le> 2 ^ 32" "e < 2 ^ 32" "e = row_start out n" "sorted_wrt (<) (GraphIDs s)"
    "OutOffsets s = map (row_start out) [0..<Suc n]" "InOffsets s = map (row_start inn) [0..<Suc n]" "KindOffsets s = map (row_start kr) [0..<Suc n]"
    "ps_nodeOffsets (sProps s) = map (row_start pr) [0..<Suc n]"
    "row_start inn n = e" "row_start kr n = length (NodeKinds s)" "row_start pr n = length (ps_entries (sProps s))"
    "length (OutKinds s) = e" "length (OutEdgeIDs s) = e" "length (InTargets s) = e" "length (InKinds s) = e" "length (InEdgeIdx s) = e" "length (edgeIDPerm s) = e"
    "\<forall>t \<in> set (OutTargets s). t < n" "\<forall>t \<in> set (InTargets s). t < n" "\<forall>i \<in> set (InEdgeIdx s). i < e" "\<forall>i \<in> set (edgeIDPerm s). i < e"
    "set (InKinds s) \<subseteq> set (OutKinds s)"
proof -
  have rep: "snap_rep s out inn" using wf by (simp add: snap_wf_def)
  have r: "n \<le> 2 ^ 32" "row_start out n < 2 ^ 32" "sorted_wrt (<) (GraphIDs s)" "OutOffsets s = map (row_start out) [0..<Suc n]"
      "OutTargets s = map fst (slots_of out n)" "OutKinds s = map (fst \<circ> snd) (slots_of out n)" "OutEdgeIDs s = map (snd \<circ> snd) (slots_of out n)"
      "InOffsets s = map (row_start inn) [0..<Suc n]" "InTargets s = map fst (slots_of inn n)" "InKinds s = map (fst \<circ> snd) (slots_of inn n)"
      "InEdgeIdx s = map (snd \<circ> snd) (slots_of inn n)" "\<forall>u < n. \<forall>x \<in> set (out u). fst x < n" "rows_agree n out inn"
      "mset (edgeIDPerm s) = mset [0..<row_start out n]"
    using rep unfolding snap_rep_def n_def by blast+
  have e: "e = row_start out n" by (simp add: e_def EdgeCount_def r(5))
  note ins = in_slots_distinct [OF r(13,12)]
  have "length (map (snd \<circ> snd) (slots_of inn n)) = card {..<row_start out n}" using distinct_card [OF ins(1)] ins(2) by simp
  then have inn: "row_start inn n = e" using e by simp
  have "length (edgeIDPerm s) = row_start out n" "set (edgeIDPerm s) = {0..<row_start out n}"
    using r(14) by (metis size_mset length_upt diff_zero) (metis r(14) set_mset_mset set_upt)
  then show "length (edgeIDPerm s) = e" "\<forall>i \<in> set (edgeIDPerm s). i < e" using e by auto
  show "n \<le> 2 ^ 32" "e < 2 ^ 32" "e = row_start out n" "sorted_wrt (<) (GraphIDs s)" "OutOffsets s = map (row_start out) [0..<Suc n]"
    "InOffsets s = map (row_start inn) [0..<Suc n]" "row_start inn n = e" "length (OutKinds s) = e" "length (OutEdgeIDs s) = e"
    "length (InTargets s) = e" "length (InKinds s) = e" "length (InEdgeIdx s) = e"
    using r(1-4,8) e inn by (simp_all add: r(6,7,9-11) del: upt_Suc)
  show "KindOffsets s = map (row_start kr) [0..<Suc n]" "ps_nodeOffsets (sProps s) = map (row_start pr) [0..<Suc n]"
    "row_start kr n = length (NodeKinds s)" "row_start pr n = length (ps_entries (sProps s))"
    using wf by (simp_all add: snap_wf_def store_rep_def n_def del: upt_Suc)
  show "\<forall>t \<in> set (OutTargets s). t < n" using r(12) by (force simp: r(5) slots_in)
  have slot: "fst x < n \<and> (\<exists>y \<in> set (slots_of out n). fst (snd y) = fst (snd x))" if "x \<in> set (slots_of inn n)" for x
  proof -
    obtain t where t: "t < n" "x \<in> set (inn t)" using \<open>x \<in> set (slots_of inn n)\<close> by (auto simp: slots_in)
    obtain u k j where x: "x = (u, k, j)" by (cases x)
    obtain l where "u < n" "l < length (out u)" "fst (snd (out u ! l)) = k" using r(13) t x unfolding rows_agree_def by blast
    then show ?thesis using x slots_in [of "out u ! l" out n] by (auto intro!: bexI [of _ "out u ! l"])
  qed
  then show "\<forall>t \<in> set (InTargets s). t < n" "set (InKinds s) \<subseteq> set (OutKinds s)" by (force simp: r(6,9,10))+
  show "\<forall>i \<in> set (InEdgeIdx s). i < e" using ins(2) e by (auto simp: r(11))
qed

section \<open>Written snapshots pass the validation\<close>

lemma offsets_valid:
  "validateOffsets64 (map (row_start b) [0..<Suc n]) m \<longleftrightarrow> row_start b n = u64 m"
  "validateOffsets32 (map (row_start b) [0..<Suc n]) m \<longleftrightarrow> row_start b n = u32 m"
proof -
  have step: "list_all (\<lambda>i. map (row_start b) [0..<Suc n] ! (i - 1) \<le> map (row_start b) [0..<Suc n] ! i) [1..<length (map (row_start b) [0..<Suc n])]"
    by (auto simp: list_all_iff row_start_mono simp del: upt_Suc)
  show "validateOffsets64 (map (row_start b) [0..<Suc n]) m \<longleftrightarrow> row_start b n = u64 m" "validateOffsets32 (map (row_start b) [0..<Suc n]) m \<longleftrightarrow> row_start b n = u32 m"
    using step unfolding validateOffsets64_def validateOffsets32_def by (simp_all add: hd_map last_map del: upt_Suc)
qed

lemma rows_ascend:
  assumes "row_start pr n < 2 ^ 32 - 1" and "i < n" and "sorted_wrt (<) (map e_prop (pr i))"
  shows "entriesAscend (map raw_entry (slots_of pr n)) (row_start pr i) (row_start pr (Suc i))"
proof -
  have le: "row_start pr (Suc i) \<le> row_start pr n" using assms(2) by (intro row_start_mono) simp
  have "re_prop (map raw_entry (slots_of pr n) ! (j - 1)) < re_prop (map raw_entry (slots_of pr n) ! j) \<and> j < length (slots_of pr n)"
    if j: "row_start pr i < j" "j < row_start pr (Suc i)" for j
  proof -
    obtain k where k: "j = row_start pr i + Suc k" "Suc k < length (pr i)" using less_imp_Suc_add [OF j(1)] j(2) by auto
    have "e_prop (pr i ! k) < e_prop (pr i ! Suc k)" using sorted_wrt_nth_less [OF assms(3), of k "Suc k"] k(2) by simp
    moreover have "slots_of pr n ! j = pr i ! Suc k" "slots_of pr n ! (j - 1) = pr i ! k"
      using slots_nth [of i n "Suc k" pr] slots_nth [of i n k pr] k assms(2) by simp_all
    ultimately show ?thesis using j(2) le k by (simp add: raw_entry_def)
  qed
  note asc = this
  have "row_start pr i \<le> row_start pr n" using assms(2) by (intro row_start_mono) simp
  then have lo: "u32 (row_start pr i + 1) = row_start pr i + 1" using assms(1) by (intro u32_id) simp
  have prev: "u32 (j + 2 ^ 32 - 1) = j - 1" if "0 < j" "j < 2 ^ 32" for j using that by (cases j) (simp_all add: u32_def)
  show ?thesis unfolding entriesAscend_def lo list_all_iff
    proof
      fix j assume "j \<in> set [row_start pr i + 1..<row_start pr (Suc i)]"
      then have j: "row_start pr i < j" "j < row_start pr (Suc i)" by auto
      then have "u32 (j + 2 ^ 32 - 1) = j - 1" using le assms(1) by (intro prev) auto
      then show "case (idx (map raw_entry (slots_of pr n)) j, idx (map raw_entry (slots_of pr n)) (u32 (j + 2 ^ 32 - 1))) of
          (Some e, Some prev) \<Rightarrow> re_prop prev < re_prop e | _ \<Rightarrow> False" using asc [OF j] by (auto simp: idx_def)
    qed
qed

lemma snap_validates:
  assumes wf: "snap_wf s out inn kr pr" and r: "file_ranges s" and s': "GraphIDs s' = GraphIDs s" "OutOffsets s' = OutOffsets s" "OutTargets s' = OutTargets s"
    "OutKinds s' = OutKinds s" "OutEdgeIDs s' = OutEdgeIDs s" "InOffsets s' = InOffsets s" "InTargets s' = InTargets s" "InKinds s' = InKinds s"
    "InEdgeIdx s' = InEdgeIdx s" "KindOffsets s' = KindOffsets s" "NodeKinds s' = NodeKinds s" "edgeIDPerm s' = edgeIDPerm s"
  shows "validateSnapshotStructure s' (Some (raw_of (sProps s)))"
proof -
  note sh = snap_shape [OF wf]
  let ?n = "NodeCount s" and ?p = "sProps s"
  have store: "store_rep ?p ?n pr" using wf by (simp add: snap_wf_def)
  have tab: "table_wf (ps_table ?p)" "ps_entries ?p = slots_of pr ?n" "\<forall>i < ?n. entries_wf (ps_table ?p) (pr i)" using store by (simp_all add: store_rep_def)
  have ne: "row_start pr ?n < 2 ^ 32 - 1" using r sh(11) by (simp add: file_ranges_def)
  have sorted: "list_all (\<lambda>i. GraphIDs s ! (i - 1) < GraphIDs s ! i) [1..<?n]" using sorted_wrt_nth_less [OF sh(4)] by (auto simp: list_all_iff NodeCount_def)
  have entries: "list_all (validateEntry (raw_of ?p)) (map raw_entry (ps_entries ?p))"
    using tab(2,3) by (auto simp: list_all_iff slots_in validateEntry_def raw_of_def raw_entry_def entries_wf_def entry_wf_def)
  have asc: "entriesAscend (map raw_entry (ps_entries ?p)) (ps_nodeOffsets ?p ! i) (ps_nodeOffsets ?p ! (i + 1))" if "i < ?n" for i
  proof -
    have "sorted_wrt (<) (map e_prop (pr i))" using tab(3) \<open>i < ?n\<close> by (simp add: entries_wf_def)
    from rows_ascend [OF ne \<open>i < ?n\<close> this] show ?thesis using \<open>i < ?n\<close> unfolding tab(2) sh(8) by (simp del: upt_Suc)
  qed
  have u: "u64 (EdgeCount s) = EdgeCount s" "u32 (length (NodeKinds s)) = length (NodeKinds s)" "u32 (length (ps_entries ?p)) = length (ps_entries ?p)"
    using sh(2) r by (simp_all add: u64_id u32_id file_ranges_def)
  have props: "validatePropStore (Some (raw_of ?p)) ?n"
    using entries asc tab(1) u sh(8,11) unfolding validatePropStore_def option.case
    by (simp add: raw_of_def offsets_valid list_all_iff table_wf_def del: upt_Suc)
  show ?thesis
    using sh(12-21) sorted props u sh(3,9,10)
    by (simp add: validateSnapshotStructure_def s' NodeCount_def [symmetric] EdgeCount_def [symmetric] sh(5-7) offsets_valid list_all_iff del: upt_Suc)
qed

section \<open>The derived indexes\<close>

text \<open>What the derivation overwrites: the fields a file does not carry.\<close>

definition bare_store :: "PropStore \<Rightarrow> PropStore" where
  "bare_store p = p\<lparr>ps_table := (ps_table p)\<lparr>propIDs := Map.empty\<rparr>, ps_objectIndex := [], ps_objectIndexDup := []\<rparr>"

definition bare :: "Snapshot \<Rightarrow> Snapshot" where
  "bare s = s\<lparr>MaxKindID := 0, sProps := bare_store (sProps s), idIndex := [], kindBitmaps := [], sSelfLoopKinds := [], edgeKindSeen := []\<rparr>"

lemma finalizePropStore_bare: "finalizePropStore (bare_store p) n = finalizePropStore p n"
  by (simp add: finalizePropStore_def bare_store_def Let_def)

lemma finalizeDerived_bare: "finalizeDerived ((bare s)\<lparr>sKinds := kt\<rparr>) = map_option (\<lambda>s. s\<lparr>sKinds := kt\<rparr>) (finalizeDerived s)"
  unfolding finalizeDerived_def Let_def
  by (simp add: bare_def NodeCount_def finalizePropStore_bare map_option_bind case_prod_unfold comp_def) (intro Option.bind_cong refl, simp)

lemma finalizePropStore_again: "finalizePropStore p n = Some p' \<Longrightarrow> finalizePropStore p' n = Some p'"
proof -
  assume f: "finalizePropStore p n = Some p'"
  then have "bare_store p' = bare_store p"
    by (auto simp: finalizePropStore_def Let_def bare_store_def bind_eq_Some_conv split: option.splits)
  then show ?thesis using f finalizePropStore_bare [of p n] finalizePropStore_bare [of p' n] by simp
qed

lemma finalizeDerived_again:
  assumes "finalizeDerived s = Some s'"
  shows "finalizeDerived s' = Some s'"
proof -
  obtain mx bms seen loops props where d: "deriveKinds (NodeCount s) (KindOffsets s) (NodeKinds s) (OutKinds s) = Some (mx, bms)"
    "deriveEdgeKindSeen mx (OutKinds s) = Some seen" "deriveSelfLoops (NodeCount s) (OutOffsets s) (OutTargets s) (OutKinds s) = Some loops"
    "finalizePropStore (sProps s) (NodeCount s) = Some props"
    and s': "s' = s\<lparr>idIndex := index_of (GraphIDs s), kindBitmaps := bms, MaxKindID := mx, edgeKindSeen := seen, sSelfLoopKinds := loops, sProps := props\<rparr>"
    using assms by (auto simp: finalizeDerived_def Let_def bind_eq_Some_conv)
  show ?thesis using d finalizePropStore_again [OF d(4)] unfolding s' by (simp add: finalizeDerived_def Let_def NodeCount_def)
qed

lemma Build_derived: "Build b = Some s \<Longrightarrow> finalizeDerived s = Some s"
  by (auto simp: Build_def Let_def bind_eq_Some_conv case_prod_unfold intro: finalizeDerived_again)

section \<open>The kind table\<close>

definition kinds_ok :: "KindTable \<Rightarrow> bool" where
  "kinds_ok kt \<longleftrightarrow> (\<exists>pairs. NewKindTable pairs = Some kt \<and> distinct (map fst pairs) \<and> distinct (map snd pairs) \<and>
     (\<forall>(i, name) \<in> set pairs. 0 \<le> i \<and> i < 2 ^ 15 \<and> name \<noteq> [] \<and> length name < 2 ^ 32))"

definition same_kinds :: "KindTable \<Rightarrow> KindTable \<Rightarrow> bool" where
  "same_kinds kt kt' \<longleftrightarrow> kt_names kt' = kt_names kt \<and> KindTable_ID kt' = KindTable_ID kt \<and> KindTable_Len kt' = KindTable_Len kt"

lemma maxKindOf_le: "(\<And>i name. (i, name) \<in> set pairs \<Longrightarrow> i \<le> m) \<Longrightarrow> 0 \<le> m \<Longrightarrow> maxKindOf pairs \<le> m"
proof -
  assume b: "\<And>i name. (i, name) \<in> set pairs \<Longrightarrow> i \<le> m" "0 \<le> m"
  have "fold (\<lambda>(i, _) m. if i > m then i else m) ps a \<le> m" if "a \<le> m" "set ps \<subseteq> set pairs" for ps a
    using that
  proof (induction ps arbitrary: a)
    case (Cons p ps)
    obtain i name where "p = (i, name)" by (cases p)
    then show ?case using Cons b(1) [of i name] by auto
  qed simp
  then show ?thesis using b(2) by (simp add: maxKindOf_def)
qed

lemma kinds_reread:
  assumes "kinds_ok kt"
  shows "\<forall>(i, name) \<in> set (named_kinds kt). i < 2 ^ 15 \<and> length name < 2 ^ 32" and "ok (NewKindTable (kind_pairs kt)) (same_kinds kt)"
proof -
  obtain pairs where p: "NewKindTable pairs = Some kt" "distinct (map fst pairs)" "distinct (map snd pairs)"
    "\<forall>(i, name) \<in> set pairs. 0 \<le> i \<and> i < 2 ^ 15 \<and> name \<noteq> [] \<and> length name < 2 ^ 32" using assms by (auto simp: kinds_ok_def)
  let ?q = "kind_pairs kt"
  have ne: "[] \<notin> snd ` set pairs" using p(4) by fastforce
  have t: "table_holds (nat (maxKindOf pairs) + 1) pairs kt" using NewKindTable_holds [OF p(2)] p(1) by simp
  have names: "length (kt_names kt) = nat (maxKindOf pairs) + 1" "\<And>i. i < length (kt_names kt) \<Longrightarrow> kt_names kt ! i = (case map_of pairs (int i) of Some name \<Rightarrow> name | None \<Rightarrow> [])"
    using t by (simp_all add: table_holds_def)
  have named: "(i, name) \<in> set (named_kinds kt) \<longleftrightarrow> (int i, name) \<in> set pairs" for i name
  proof -
    have "(i, name) \<in> set (named_kinds kt) \<longleftrightarrow> i < length (kt_names kt) \<and> kt_names kt ! i = name \<and> name \<noteq> []"
      by (auto simp: named_kinds_def set_zip intro!: exI [of _ i])
    also have "\<dots> \<longleftrightarrow> (int i, name) \<in> set pairs"
    proof
      assume "i < length (kt_names kt) \<and> kt_names kt ! i = name \<and> name \<noteq> []"
      then show "(int i, name) \<in> set pairs" using names(2) by (auto dest: map_of_SomeD split: option.splits)
    next
      assume in': "(int i, name) \<in> set pairs"
      then have "i < length (kt_names kt)" using maxKindOf_ge [OF in'] names(1) by simp
      moreover have "map_of pairs (int i) = Some name" using in' p(2) by simp
      ultimately show "i < length (kt_names kt) \<and> kt_names kt ! i = name \<and> name \<noteq> []" using names(2) ne in' by force
    qed
    finally show ?thesis .
  qed
  show "\<forall>(i, name) \<in> set (named_kinds kt). i < 2 ^ 15 \<and> length name < 2 ^ 32" using named p(4) by fastforce
  have q: "set ?q = set pairs"
  proof (intro equalityI subsetI)
    show "x \<in> set pairs" if "x \<in> set ?q" for x using that named by (auto simp: kind_pairs_def)
    fix x assume x: "x \<in> set pairs"
    then obtain i name where "x = (i, name)" "0 \<le> i" using p(4) by (cases x) auto
    then show "x \<in> set ?q" using named [of "nat i" name] x by (force simp: kind_pairs_def)
  qed
  have dq: "distinct (map fst ?q)" using named_kinds_distinct [of kt]
    by (simp add: kind_pairs_def comp_def case_prod_unfold distinct_map inj_on_def)
  have "card (snd ` set pairs) = length pairs" using distinct_card [OF p(3)] by simp
  moreover have "length ?q = length pairs" using distinct_card [of ?q] distinct_card [of pairs] dq p(2) q by (simp add: distinct_map)
  ultimately have dq2: "distinct (map snd ?q)" using q by (intro card_distinct) simp
  have mx: "maxKindOf ?q = maxKindOf pairs"
    using maxKindOf_le [of ?q "maxKindOf pairs"] maxKindOf_le [of pairs "maxKindOf ?q"] maxKindOf_ge maxKindOf_nonneg q by (metis antisym)
  have mq: "map_of ?q = map_of pairs" using map_of_inject_set [OF dq p(2)] q by simp
  have ex: "ok (NewKindTable pairs) (\<lambda>t. (\<forall>i name. KindTable_ID t name = Some i \<longleftrightarrow> (i, name) \<in> set pairs) \<and> KindTable_Len t = length pairs)"
    by (rule ok_mono [OF NewKindTable_exact [OF p(2,3) ne]]) blast
  obtain kt' where kt': "NewKindTable ?q = Some kt'" "table_holds (nat (maxKindOf pairs) + 1) ?q kt'"
    using NewKindTable_holds [OF dq] mx by (auto simp: ok_iff)
  have ex': "ok (NewKindTable ?q) (\<lambda>t. (\<forall>i name. KindTable_ID t name = Some i \<longleftrightarrow> (i, name) \<in> set pairs) \<and> KindTable_Len t = length ?q)"
    by (rule ok_mono [OF NewKindTable_exact [OF dq dq2]]) (use ne q in auto)
  have "kt_names kt' = kt_names kt" using kt'(2) t mq by (intro nth_equalityI) (simp_all add: table_holds_def)
  moreover have "KindTable_ID kt' name = KindTable_ID kt name" for name
  proof -
    have "KindTable_ID kt' name = Some i \<longleftrightarrow> KindTable_ID kt name = Some i" for i using ex ex' p(1) kt'(1) by simp
    then show ?thesis by (metis option.exhaust)
  qed
  moreover have "KindTable_Len kt' = KindTable_Len kt" using ex ex' p(1) kt'(1) \<open>length ?q = length pairs\<close> by simp
  ultimately show "ok (NewKindTable ?q) (same_kinds kt)" using kt'(1) by (auto simp: same_kinds_def)
qed

section \<open>Round trip\<close>

definition storable :: "Snapshot \<Rightarrow> bool" where
  "storable s \<longleftrightarrow> snap_ok s \<and> finalizeDerived s = Some s \<and> file_ranges s \<and> kinds_ok (sKinds s)"

lemma store_of_raw: "store_of (raw_of p) = bare_store p"
proof -
  have "entry_of (raw_entry e) = e" for e by (simp add: entry_of_def raw_entry_def)
  then show ?thesis by (simp add: store_of_def raw_of_def bare_store_def comp_def)
qed

lemma reads_fields:
  assumes wf: "snap_wf s out inn kr pr" and r: "file_ranges s" and k: "kinds_ok (sKinds s)"
  shows "reads (readFields (header_of s stmp)) (enc_fields s)
    (Some (NewKindTable (kind_pairs (sKinds s))), Some (raw_of (sProps s)), \<lambda>kt p. (bare s)\<lparr>sKinds := kt, sProps := p\<rparr>)"
proof -
  note sh = snap_shape [OF wf]
  let ?n = "NodeCount s" and ?e = "EdgeCount s" and ?p = "sProps s"
  have store: "store_rep ?p ?n pr" using wf by (simp add: snap_wf_def)
  have tab: "table_wf (ps_table ?p)" "ps_entries ?p = slots_of pr ?n" "\<forall>i < ?n. entries_wf (ps_table ?p) (pr i)" using store by (simp_all add: store_rep_def)
  have small: "x < 2 ^ 32" if "x \<in> set (map (row_start b) [0..<Suc ?n])" "row_start b ?n < 2 ^ 32" for x and b :: "nat \<Rightarrow> 'b list"
    using slots_bound [OF that(1)] that(2) by simp
  have fit: "entry_fits e" if "e \<in> set (ps_entries ?p)" for e
  proof -
    have "entry_wf (ps_table ?p) e" using \<open>e \<in> set (ps_entries ?p)\<close> tab(2,3) by (auto simp: slots_in entries_wf_def)
    then show ?thesis using tab(1) by (auto simp: entry_fits_def entry_wf_def table_wf_def maxPropID_def maxPropArena_def split: if_splits)
  qed
  have cnt: "?n < 2 ^ 64" "?e < 2 ^ 64" "length (NodeKinds s) < 2 ^ 64" "DroppedEdges s < 2 ^ 64" using sh(1,2) r by (simp_all add: file_ranges_def)
  have n1: "u64 (?n + 1) = ?n + 1" using sh(1) by (simp add: u64_id)
  have lens: "length (GraphIDs s) = ?n" "length (OutOffsets s) = ?n + 1" "length (OutTargets s) = ?e" "length (InOffsets s) = ?n + 1" "length (KindOffsets s) = ?n + 1"
    by (simp_all add: NodeCount_def EdgeCount_def sh(5-7) del: upt_Suc)
  have alloc: "?n \<le> maxReadAlloc div 8" "?n + 1 \<le> maxReadAlloc div 8" "?e \<le> maxReadAlloc div 8" "?e \<le> maxReadAlloc div 4" "?e \<le> maxReadAlloc div 2"
      "?n + 1 \<le> maxReadAlloc div 4" "length (NodeKinds s) \<le> maxReadAlloc div 2" using sh(1,2) r by (simp_all add: maxReadAlloc_def file_ranges_def)
  have a: "reads (br_u64s ?n) (enc_u64s (GraphIDs s)) (GraphIDs s)" "reads (br_u64s (u64 (?n + 1))) (enc_u64s (OutOffsets s)) (OutOffsets s)"
      "reads (br_u32s ?e) (enc_u32s (OutTargets s)) (OutTargets s)" "reads (br_i16s ?e) (enc_i16s (OutKinds s)) (OutKinds s)"
      "reads (br_u64s ?e) (enc_u64s (OutEdgeIDs s)) (OutEdgeIDs s)" "reads (br_u64s (u64 (?n + 1))) (enc_u64s (InOffsets s)) (InOffsets s)"
      "reads (br_u32s ?e) (enc_u32s (InTargets s)) (InTargets s)" "reads (br_i16s ?e) (enc_i16s (InKinds s)) (InKinds s)"
      "reads (br_u32s ?e) (enc_u32s (InEdgeIdx s)) (InEdgeIdx s)" "reads (br_u32s (u64 (?n + 1))) (enc_u32s (KindOffsets s)) (KindOffsets s)"
      "reads (br_i16s (length (NodeKinds s))) (enc_i16s (NodeKinds s)) (NodeKinds s)" "reads (br_u32s ?e) (enc_u32s (edgeIDPerm s)) (edgeIDPerm s)"
  proof -
    have off: "\<forall>x \<in> set (OutOffsets s). x < 2 ^ 64" "\<forall>x \<in> set (InOffsets s). x < 2 ^ 64" "\<forall>x \<in> set (KindOffsets s). x < 2 ^ 32"
      using small [of _ out] small [of _ inn] small [of _ kr] sh(2,3,9,10) r unfolding sh(5-7) by (fastforce simp: file_ranges_def)+
    have le32: "x < 2 ^ 32" if "x < ?n \<or> x < ?e" for x using that sh(1,2) by auto
    show "reads (br_u64s ?n) (enc_u64s (GraphIDs s)) (GraphIDs s)" using r lens alloc by (intro reads_arrays) (simp_all add: file_ranges_def)
    show "reads (br_u64s (u64 (?n + 1))) (enc_u64s (OutOffsets s)) (OutOffsets s)" "reads (br_u64s (u64 (?n + 1))) (enc_u64s (InOffsets s)) (InOffsets s)"
      "reads (br_u32s (u64 (?n + 1))) (enc_u32s (KindOffsets s)) (KindOffsets s)"
      using off lens alloc n1 by (auto intro!: reads_arrays)
    show "reads (br_u32s ?e) (enc_u32s (OutTargets s)) (OutTargets s)" "reads (br_u32s ?e) (enc_u32s (InTargets s)) (InTargets s)"
      "reads (br_u32s ?e) (enc_u32s (InEdgeIdx s)) (InEdgeIdx s)" "reads (br_u32s ?e) (enc_u32s (edgeIDPerm s)) (edgeIDPerm s)"
      using sh(14,16-21) lens alloc le32 by (auto intro!: reads_arrays)
    show "reads (br_i16s ?e) (enc_i16s (OutKinds s)) (OutKinds s)" "reads (br_i16s ?e) (enc_i16s (InKinds s)) (InKinds s)"
      "reads (br_i16s (length (NodeKinds s))) (enc_i16s (NodeKinds s)) (NodeKinds s)"
      using r sh(12,15,22) alloc by (auto simp: file_ranges_def intro!: reads_arrays)
    show "reads (br_u64s ?e) (enc_u64s (OutEdgeIDs s)) (OutEdgeIDs s)" using r sh(13) alloc by (auto simp: file_ranges_def intro!: reads_arrays)
  qed
  have kt: "reads readKindTable (enc_kinds (sKinds s)) (Some (NewKindTable (kind_pairs (sKinds s))))" by (rule reads_kinds [OF kinds_reread(1) [OF k]])
  have st: "reads (readPropStore ?n) (enc_store ?p) (Some (raw_of ?p))"
  proof (rule reads_store)
    show "\<forall>x \<in> set (ps_nodeOffsets ?p). x < 2 ^ 32" using small [of _ pr] sh(11) r unfolding sh(8) by (auto simp: file_ranges_def)
  qed (use tab(1) r fit sh(1,8) in \<open>simp_all add: table_wf_def file_ranges_def del: upt_Suc\<close>)
  have mg: "(if MultiGraph s then 1 else 0 :: nat) < 256" by simp
  have "signed_of 64 (DroppedEdges s) = int (DroppedEdges s)" using r by (simp add: signed_of_def file_ranges_def)
  then have mk: "(\<lambda>kt p. \<lparr>GraphID = h_GraphID (header_of s stmp), GraphIDs = GraphIDs s, OutOffsets = OutOffsets s,
       OutTargets = OutTargets s, OutKinds = OutKinds s, OutEdgeIDs = OutEdgeIDs s, InOffsets = InOffsets s, InTargets = InTargets s,
       InKinds = InKinds s, InEdgeIdx = InEdgeIdx s, KindOffsets = KindOffsets s, NodeKinds = NodeKinds s, MaxKindID = 0, sKinds = kt,
       sProps = p, DroppedEdges = nat (signed_of 64 (DroppedEdges s)), idIndex = [], kindBitmaps = [], sSelfLoopKinds = [], edgeKindSeen = [],
       edgeIDPerm = edgeIDPerm s, MultiGraph = (if MultiGraph s then 1 else 0 :: nat) \<noteq> 0, WatermarkLineage = h_Lineage (header_of s stmp)\<rparr>) =
      (\<lambda>kt p. (bare s)\<lparr>sKinds := kt, sProps := p\<rparr>)"
    by (intro ext) (simp add: bare_def header_of_def)
  have "reads (readFields (header_of s stmp)) (enc_fields s @ [])
      (Some (NewKindTable (kind_pairs (sKinds s))), Some (raw_of ?p), \<lambda>kt p. (bare s)\<lparr>sKinds := kt, sProps := p\<rparr>)"
    unfolding readFields_def enc_fields_def append_assoc
    by (rule reads_bind [OF reads_scalars(4)] cnt a(1) a(2) reads_bind [OF a(1)] reads_bind [OF a(2)] reads_bind [OF a(3)] reads_bind [OF a(4)]
        reads_bind [OF a(5)] reads_bind [OF a(6)] reads_bind [OF a(7)] reads_bind [OF a(8)] reads_bind [OF a(9)] reads_bind [OF a(10)]
        reads_bind [OF a(11)] reads_bind [OF a(12)] reads_bind [OF kt] reads_bind [OF st] reads_bind [OF reads_scalars(1)] mg)+
      (rule reads_returnI, simp only: mk)
  then show ?thesis by simp
qed

end
