(* ===== verification/Fold.thy ===== *)
theory Fold
  imports Overlay
begin

text \<open>
  The fold of a base snapshot and its delta segments into a fresh snapshot,
  \<open>internal/engine/snapshot/fold.go\<close>: the two-pointer merge of base and added nodes, the edges, and the
  segment of pending edges that the folded snapshot cannot hold yet. An error is a value, a panic is
  \<open>None\<close>. Its contract is a refinement: under any tail of later segments the folded base with the
  pending segment reads as the graph of the original stack.
\<close>

section \<open>The fold\<close>

definition addedNodeIDs :: "Snapshot \<Rightarrow> Segment \<Rightarrow> pgid list" where
  "addedNodeIDs base merged =
     map fst (filter (\<lambda>(pgID, st). \<not> Tombstoned st \<and> Dense base pgID = None) (IterNodes merged))"

definition foldOneBaseNode :: "Builder \<Rightarrow> Snapshot \<Rightarrow> Segment \<Rightarrow> nat \<Rightarrow> (string option \<times> Builder) option" where
  "foldOneBaseNode b base merged i =
     do { pgID \<leftarrow> idx (GraphIDs base) i;
          case NodeState merged pgID of
            Some st \<Rightarrow> if Tombstoned st then Some (None, b)
                       else addPreparedNode b pgID (KindIDs st) (st_tables st) (st_entries st)
          | None \<Rightarrow>
              do { entries \<leftarrow> row (ps_nodeOffsets (sProps base)) i (ps_entries (sProps base));
                   kinds \<leftarrow> row (KindOffsets base) i (NodeKinds base);
                   addPreparedNode b pgID kinds (ps_table (sProps base)) entries } }"

definition foldOneAddedNode :: "Builder \<Rightarrow> Segment \<Rightarrow> pgid \<Rightarrow> (string option \<times> Builder) option" where
  "foldOneAddedNode b merged pgID =
     (case NodeState merged pgID of
        None \<Rightarrow> Some (Some ''delta-added node missing from merged segment'', b)
      | Some st \<Rightarrow> addPreparedNode b pgID (KindIDs st) (st_tables st) (st_entries st))"

text \<open>The merge loop; \<open>added\<close> is the list from the pointer \<open>j\<close> on, and \<open>i\<close> the pointer into the base ids.\<close>

function foldNodes_loop :: "Snapshot \<Rightarrow> Segment \<Rightarrow> Builder \<Rightarrow> nat \<Rightarrow> pgid list \<Rightarrow> (string option \<times> Builder) option" where
  "foldNodes_loop base merged b i added =
     (if i < length (GraphIDs base) \<or> added \<noteq> [] then
        if added = [] \<or> i < length (GraphIDs base) \<and> GraphIDs base ! i < hd added then
          do { (err, b') \<leftarrow> foldOneBaseNode b base merged i;
               case err of Some e \<Rightarrow> Some (Some e, b') | None \<Rightarrow> foldNodes_loop base merged b' (i + 1) added }
        else
          do { (err, b') \<leftarrow> foldOneAddedNode b merged (hd added);
               case err of Some e \<Rightarrow> Some (Some e, b') | None \<Rightarrow> foldNodes_loop base merged b' i (tl added) }
      else Some (None, b))"
  by pat_completeness auto
termination
  by (relation "measure (\<lambda>(base, merged, b, i, added). (length (GraphIDs base) - i) + length added)") auto

declare foldNodes_loop.simps [simp del]

definition foldNodes :: "Builder \<Rightarrow> Snapshot \<Rightarrow> Segment \<Rightarrow> (string option \<times> Builder) option" where
  "foldNodes b base merged = foldNodes_loop base merged b 0 (addedNodeIDs base merged)"

datatype foldNodeFate = foldNodeLive | foldNodeGone | foldNodePending

definition foldNodeFateOf :: "Snapshot \<Rightarrow> Segment \<Rightarrow> pgid \<Rightarrow> foldNodeFate" where
  "foldNodeFateOf base merged pgID =
     (case NodeState merged pgID of
        Some st \<Rightarrow> if Tombstoned st then foldNodeGone else foldNodeLive
      | None \<Rightarrow> (case Dense base pgID of Some _ \<Rightarrow> foldNodeLive | None \<Rightarrow> foldNodePending))"

definition foldBaseEdges :: "Builder \<Rightarrow> Snapshot \<Rightarrow> pgid set \<Rightarrow> Builder option" where
  "foldBaseEdges b base touched =
     foldM (\<lambda>n b. do { lo \<leftarrow> idx (OutOffsets base) n; hi \<leftarrow> idx (OutOffsets base) (n + 1);
       foldM (\<lambda>i b. do { eid \<leftarrow> idx (OutEdgeIDs base) i;
         if eid \<in> touched then Some b
         else do { src \<leftarrow> idx (GraphIDs base) n; t \<leftarrow> idx (OutTargets base) i; dst \<leftarrow> idx (GraphIDs base) t;
                   k \<leftarrow> idx (OutKinds base) i; Some (AddEdge b eid src dst k) } }) [lo..<hi] b })
       [0..<NodeCount base] b"

definition foldDeltaEdge :: "Snapshot \<Rightarrow> Segment \<Rightarrow> pgid \<times> EdgeSegState \<Rightarrow>
    Builder \<times> SegmentBuilder \<times> bool \<Rightarrow> Builder \<times> SegmentBuilder \<times> bool" where
  "foldDeltaEdge base merged x acc =
     (case (x, acc) of ((eid, st), (b, pending, anyPending)) \<Rightarrow>
        if eTombstoned st then acc
        else let start = foldNodeFateOf base merged (StartID st); end = foldNodeFateOf base merged (EndID st) in
          if start = foldNodeGone \<or> end = foldNodeGone then acc
          else if start = foldNodePending \<or> end = foldNodePending
          then (b, AddEdgeState pending eid (StartID st) (EndID st) (eKind st), True)
          else (AddEdge b eid (StartID st) (EndID st) (eKind st), pending, anyPending))"

definition foldEdges :: "Builder \<Rightarrow> Snapshot \<Rightarrow> Segment \<Rightarrow> (Builder \<times> Segment option) option" where
  "foldEdges b base merged =
     do { b1 \<leftarrow> foldBaseEdges b base (fst ` set (IterEdges merged));
          let (b2, pending, anyPending) = fold (foldDeltaEdge base merged) (IterEdges merged) (b1, emptySegmentBuilder, False);
          Some (b2, if anyPending then Some (seg_Build pending) else None) }"

definition FoldWithPendingEdges :: "Snapshot \<Rightarrow> Segment list \<Rightarrow> (string + Snapshot \<times> Segment option) option" where
  "FoldWithPendingEdges base segs =
     do { let merged = MergeSegments segs;
          let b = SetKinds (NewBuilder (GraphID base)) (kindPairs (sKinds base) (AddedKinds merged));
          (err, b1) \<leftarrow> foldNodes b base merged;
          case err of
            Some e \<Rightarrow> Some (Inl e)
          | None \<Rightarrow>
              do { (b2, pending) \<leftarrow> foldEdges b1 base merged;
                   folded \<leftarrow> Build b2;
                   Some (Inr (folded\<lparr>MultiGraph := MultiGraph base, WatermarkLineage := WatermarkLineage base\<rparr>, pending)) } }"

definition Fold :: "Snapshot \<Rightarrow> Segment list \<Rightarrow> (string + Snapshot) option" where
  "Fold base segs = map_option (map_sum id fst) (FoldWithPendingEdges base segs)"

section \<open>The staged nodes\<close>

text \<open>The merge of two ascending lists, and the node the fold stages for an id, if any.\<close>

fun merge_ids :: "pgid list \<Rightarrow> pgid list \<Rightarrow> pgid list" where
  "merge_ids [] ys = ys"
| "merge_ids (x # xs) [] = x # xs"
| "merge_ids (x # xs) (y # ys) = (if x < y then x # merge_ids xs (y # ys) else y # merge_ids (x # xs) ys)"

lemma merge_ids_Nil [simp]: "merge_ids xs [] = xs"
  by (cases xs) simp_all

lemma set_merge_ids: "set (merge_ids xs ys) = set xs \<union> set ys"
  by (induction xs ys rule: merge_ids.induct) auto

lemma sorted_merge_ids:
  "sorted_wrt (<) xs \<Longrightarrow> sorted_wrt (<) ys \<Longrightarrow> set xs \<inter> set ys = {} \<Longrightarrow> sorted_wrt (<) (merge_ids xs ys)"
proof (induction xs ys rule: merge_ids.induct)
  case (3 x xs y ys)
  then have "x \<noteq> y" by simp
  then show ?case using 3 by (auto simp: set_merge_ids dest: order.strict_trans)
qed auto

definition staged_for :: "Snapshot \<Rightarrow> (pgid \<rightharpoonup> NodeSegState) \<Rightarrow> pgid \<Rightarrow> staged_node option" where
  "staged_for base S i =
     (case S i of
        Some st \<Rightarrow> if Tombstoned st then None else Some (i, KindIDs st, map (unparse (st_tables st)) (st_entries st))
      | None \<Rightarrow> do { j \<leftarrow> Dense base i; ks \<leftarrow> row (KindOffsets base) j (NodeKinds base);
                     es \<leftarrow> row (ps_nodeOffsets (sProps base)) j (ps_entries (sProps base));
                     Some (i, ks, map (unparse (ps_table (sProps base))) es) })"

definition folded_nodes :: "Snapshot \<Rightarrow> Segment \<Rightarrow> staged_node list" where
  "folded_nodes base merged = List.map_filter (staged_for base (NodeState merged)) (merge_ids (GraphIDs base) (addedNodeIDs base merged))"

lemma base_rows:
  assumes "snap_wf base out inn kr pr" and "j < NodeCount base"
  shows "row (KindOffsets base) j (NodeKinds base) = Some (kr j)" and "row (ps_nodeOffsets (sProps base)) j (ps_entries (sProps base)) = Some (pr j)"
    and "table_wf (ps_table (sProps base))" and "entries_wf (ps_table (sProps base)) (pr j)" and "Dense base (GraphIDs base ! j) = Some j"
proof -
  show "row (KindOffsets base) j (NodeKinds base) = Some (kr j)"
    using row_of_slots [OF assms(2), of kr "\<lambda>x. x"] assms(1) by (simp add: snap_wf_def del: upt_Suc)
  show "row (ps_nodeOffsets (sProps base)) j (ps_entries (sProps base)) = Some (pr j)"
    using row_of_slots [OF assms(2), of pr "\<lambda>x. x"] assms(1) by (simp add: snap_wf_def store_rep_def del: upt_Suc)
  show "table_wf (ps_table (sProps base))" "entries_wf (ps_table (sProps base)) (pr j)"
    using assms by (simp_all add: snap_wf_def store_rep_def)
  show "Dense base (GraphIDs base ! j) = Some j" using assms unfolding snap_wf_def snap_rep_def by blast
qed

lemma foldOneBaseNode_eq:
  assumes wf: "snap_wf base out inn kr pr" and i: "i < NodeCount base" and st: "\<And>st. NodeState merged (GraphIDs base ! i) = Some st \<Longrightarrow> st_wf st"
  shows "foldOneBaseNode b base merged i = Some (case staged_for base (NodeState merged) (GraphIDs base ! i) of
    None \<Rightarrow> (None, b) | Some (pgID, ks, pps) \<Rightarrow> addParsedNode b pgID ks pps)"
proof (cases "NodeState merged (GraphIDs base ! i)")
  case None
  note r = base_rows [OF wf i]
  show ?thesis using i None r addPreparedNode_eq [OF r(3,4)] by (simp add: foldOneBaseNode_def staged_for_def NodeCount_def)
next
  case (Some s)
  then show ?thesis using i st [OF Some] addPreparedNode_eq [of "st_tables s" "st_entries s"]
    by (auto simp: foldOneBaseNode_def staged_for_def NodeCount_def st_wf_def)
qed

lemma foldOneAddedNode_eq:
  assumes "NodeState merged i = Some st" and "\<not> Tombstoned st" and "st_wf st"
  shows "foldOneAddedNode b merged i = Some (case staged_for base (NodeState merged) i of
    None \<Rightarrow> (None, b) | Some (pgID, ks, pps) \<Rightarrow> addParsedNode b pgID ks pps)"
  using assms addPreparedNode_eq [of "st_tables st" "st_entries st"] by (auto simp: foldOneAddedNode_def staged_for_def st_wf_def)

lemma stage_nodes_step:
  "stage_nodes b (List.map_filter f (x # xs)) =
    (case (case f x of None \<Rightarrow> (None, b) | Some (i, ks, pps) \<Rightarrow> addParsedNode b i ks pps) of
       (Some err, b') \<Rightarrow> (Some err, b') | (None, b') \<Rightarrow> stage_nodes b' (List.map_filter f xs))"
  by (auto simp: map_filter_simps split: option.split prod.split)

lemma foldNodes_loop_eq:
  assumes wf: "snap_wf base out inn kr pr" and st: "\<And>i st. NodeState merged i = Some st \<Longrightarrow> st_wf st"
  shows "\<forall>i \<in> set added. \<exists>st. NodeState merged i = Some st \<and> \<not> Tombstoned st \<Longrightarrow>
    foldNodes_loop base merged b i added =
      Some (stage_nodes b (List.map_filter (staged_for base (NodeState merged)) (merge_ids (drop i (GraphIDs base)) added)))"
proof (induction "length (GraphIDs base) - i + length added" arbitrary: b i added rule: less_induct)
  case less
  let ?f = "staged_for base (NodeState merged)"
  consider (stop) "\<not> i < length (GraphIDs base)" "added = []"
    | (base) "i < length (GraphIDs base)" "added = [] \<or> GraphIDs base ! i < hd added"
    | (added) "added \<noteq> []" "\<not> (i < length (GraphIDs base) \<and> GraphIDs base ! i < hd added)"
    by linarith
  then show ?case
  proof cases
    case stop
    then show ?thesis by (simp add: foldNodes_loop.simps [of base merged b i "[]"] map_filter_simps)
  next
    case base
    let ?x = "GraphIDs base ! i"
    have one: "foldOneBaseNode b base merged i = Some (case ?f ?x of None \<Rightarrow> (None, b) | Some (pgID, ks, pps) \<Rightarrow> addParsedNode b pgID ks pps)"
      using base(1) by (intro foldOneBaseNode_eq [OF wf]) (auto simp: NodeCount_def st)
    have ids: "merge_ids (drop i (GraphIDs base)) added = ?x # merge_ids (drop (Suc i) (GraphIDs base)) added"
      using base by (cases added) (auto simp: Cons_nth_drop_Suc [symmetric])
    have IH: "foldNodes_loop base merged b' (Suc i) added =
        Some (stage_nodes b' (List.map_filter ?f (merge_ids (drop (Suc i) (GraphIDs base)) added)))" for b'
      using less.hyps [of "Suc i" added b'] less.prems base(1) by simp
    obtain r b' where rb: "(case ?f ?x of None \<Rightarrow> (None, b) | Some (pgID, ks, pps) \<Rightarrow> addParsedNode b pgID ks pps) = (r, b')" by fastforce
    show ?thesis unfolding ids stage_nodes_step rb using base IH [of b'] one [unfolded rb]
      by (subst foldNodes_loop.simps) (auto split: option.split)
  next
    case added
    then obtain y ys where y: "added = y # ys" by (cases added) auto
    obtain st' where s: "NodeState merged y = Some st'" "\<not> Tombstoned st'" using less.prems y by auto
    have one: "foldOneAddedNode b merged y = Some (case ?f y of None \<Rightarrow> (None, b) | Some (pgID, ks, pps) \<Rightarrow> addParsedNode b pgID ks pps)"
      using foldOneAddedNode_eq [OF s st [OF s(1)]] .
    have ids: "merge_ids (drop i (GraphIDs base)) added = y # merge_ids (drop i (GraphIDs base)) ys"
      using added(2) y by (cases "i < length (GraphIDs base)") (auto simp: Cons_nth_drop_Suc [symmetric])
    have IH: "foldNodes_loop base merged b' i ys = Some (stage_nodes b' (List.map_filter ?f (merge_ids (drop i (GraphIDs base)) ys)))" for b'
      using less.hyps [of i ys b'] less.prems y by simp
    obtain r b' where rb: "(case ?f y of None \<Rightarrow> (None, b) | Some (pgID, ks, pps) \<Rightarrow> addParsedNode b pgID ks pps) = (r, b')" by fastforce
    show ?thesis unfolding ids stage_nodes_step rb using added(2) y IH [of b'] one [unfolded rb]
      by (subst foldNodes_loop.simps) (auto split: option.split)
  qed
qed

lemma addedNodeIDs_props:
  assumes "seg_wf merged"
  shows "i \<in> set (addedNodeIDs base merged) \<longleftrightarrow> (\<exists>st. NodeState merged i = Some st \<and> \<not> Tombstoned st) \<and> Dense base i = None"
    and "sorted_wrt (<) (addedNodeIDs base merged)"
proof -
  show "i \<in> set (addedNodeIDs base merged) \<longleftrightarrow> (\<exists>st. NodeState merged i = Some st \<and> \<not> Tombstoned st) \<and> Dense base i = None"
    using IterNodes_iff [OF assms] by (auto simp: addedNodeIDs_def image_iff)
  have "sorted (nodeIDs merged)" unfolding seg_wf_ids(1) [OF assms] by simp
  then have "sorted_wrt (<) (map fst (IterNodes merged))" using seg_wf_ids(3) [OF assms] by (simp only: IterNodes_fst strict_sorted_iff simp_thms)
  then show "sorted_wrt (<) (addedNodeIDs base merged)" by (simp add: addedNodeIDs_def sorted_wrt_map sorted_wrt_filter)
qed

lemma map_filter_keys: "(\<And>i x. f i = Some x \<Longrightarrow> fst x = i) \<Longrightarrow> map fst (List.map_filter f ids) = filter (\<lambda>i. f i \<noteq> None) ids"
  by (induction ids) (auto simp: map_filter_simps split: option.split)

lemma map_of_map_filter:
  "(\<And>i x. f i = Some x \<Longrightarrow> fst (g x) = i) \<Longrightarrow> map_of (map g (List.map_filter f ids)) i = (if i \<in> set ids then map_option (snd \<circ> g) (f i) else None)"
proof (induction ids)
  case (Cons j ids)
  then show ?case by (cases "f j") (auto simp: map_filter_simps comp_def dest: Cons.prems)
qed (simp add: map_filter_simps)

lemma staged_for_id: "staged_for base S i = Some x \<Longrightarrow> fst x = i"
  by (auto simp: staged_for_def split: option.splits if_splits Option.bind_splits)

lemma fst_node_of [simp]: "fst (node_of x) = fst x"
  by (simp add: node_of_def case_prod_unfold)

lemma staged_for_desc:
  assumes wf: "snap_wf base out inn kr pr" and st: "\<And>st. S i = Some st \<Longrightarrow> st_wf st"
  shows "map_option (snd \<circ> node_of) (staged_for base S i) = apply_nodes S (snap_node base) i"
    and "staged_for base S i = Some (j, ks, pps) \<Longrightarrow> distinct (map pp_name pps)"
proof -
  have "map_option (snd \<circ> node_of) (staged_for base S i) = apply_nodes S (snap_node base) i \<and>
    (staged_for base S i = Some (j, ks, pps) \<longrightarrow> distinct (map pp_name pps))"
  proof (cases "S i")
    case (Some s)
    then show ?thesis using st [OF Some] bag_of_unparse [of "st_tables s" "st_entries s"] unparse_names [of "st_tables s" "st_entries s"]
      by (auto simp: staged_for_def apply_nodes_def st_wf_def st_desc_def node_of_def)
  next
    case None
    show ?thesis
    proof (cases "Dense base i")
      case (Some n)
      then have n: "n < NodeCount base" using wf unfolding snap_wf_def snap_rep_def by blast
      note r = base_rows [OF wf n]
      show ?thesis using None Some r bag_of_unparse [OF r(3,4)] unparse_names [OF r(3,4)]
        by (auto simp: staged_for_def apply_nodes_def snap_node_def node_of_def)
    qed (use None in \<open>simp add: staged_for_def apply_nodes_def snap_node_def\<close>)
  qed
  then show "map_option (snd \<circ> node_of) (staged_for base S i) = apply_nodes S (snap_node base) i"
    "staged_for base S i = Some (j, ks, pps) \<Longrightarrow> distinct (map pp_name pps)" by blast+
qed

lemma folded_nodes_props:
  assumes wf: "snap_wf base out inn kr pr" and m: "seg_wf merged" and "\<forall>i st. NodeState merged i = Some st \<longrightarrow> st_wf st"
  shows "map_of (map node_of (folded_nodes base merged)) = apply_nodes (NodeState merged) (snap_node base)"
    and "sorted_wrt (<) (map fst (folded_nodes base merged))" and "\<forall>(i, ks, pps) \<in> set (folded_nodes base merged). distinct (map pp_name pps)"
    and "fst ` set (folded_nodes base merged) = dom (apply_nodes (NodeState merged) (snap_node base))"
proof -
  note st = assms(3) [rule_format]
  let ?S = "NodeState merged" and ?ids = "merge_ids (GraphIDs base) (addedNodeIDs base merged)"
  note added = addedNodeIDs_props [where base = base, OF m]
  have dense: "Dense base i = Some j \<longleftrightarrow> j < NodeCount base \<and> GraphIDs base ! j = i" for i j
    using wf unfolding snap_wf_def snap_rep_def by blast
  have asc: "sorted_wrt (<) (GraphIDs base)" using wf unfolding snap_wf_def snap_rep_def by blast
  have gids: "i \<in> set (GraphIDs base) \<longleftrightarrow> Dense base i \<noteq> None" for i
    using dense [of i] by (auto simp: in_set_conv_nth NodeCount_def)
  have "sorted_wrt (<) ?ids" using asc added gids by (intro sorted_merge_ids) auto
  then show "sorted_wrt (<) (map fst (folded_nodes base merged))"
    unfolding folded_nodes_def by (subst map_filter_keys) (simp_all add: staged_for_id sorted_wrt_filter)
  have in_ids: "staged_for base ?S i = None" if "i \<notin> set ?ids" for i
    using that added(1) [of i] gids [of i]
    by (cases "?S i"; cases "Dense base i") (auto simp: set_merge_ids staged_for_def split: if_splits)
  have "map_of (map node_of (folded_nodes base merged)) i = map_option (snd \<circ> node_of) (staged_for base ?S i)" for i
    using in_ids [of i] unfolding folded_nodes_def by (subst map_of_map_filter) (simp_all add: staged_for_id)
  then show nodes: "map_of (map node_of (folded_nodes base merged)) = apply_nodes ?S (snap_node base)"
    using staged_for_desc(1) [OF wf st] by (intro ext) simp
  show "\<forall>(i, ks, pps) \<in> set (folded_nodes base merged). distinct (map pp_name pps)"
    using staged_for_desc(2) [OF wf st] by (auto simp: folded_nodes_def map_filter_iff)
  show "fst ` set (folded_nodes base merged) = dom (apply_nodes ?S (snap_node base))"
    unfolding nodes [symmetric] dom_map_of_conv_image_fst by (simp add: image_image)
qed

section \<open>Errors of a fold\<close>

definition capacity_error :: "string \<Rightarrow> bool" where
  "capacity_error err \<longleftrightarrow> err = ''more than 65536 distinct property names'' \<or> err = ''property arena would exceed 4294967295 bytes''"

lemma commitAll_error: "commitAll t pps = (t', Inl err) \<Longrightarrow> capacity_error err"
  by (induction pps arbitrary: t t')
    (auto simp: capacity_error_def commitOne_def internProp_def appendPropBytes_def Let_def split: prod.splits sum.splits if_splits option.splits)

lemma addParsedNode_error:
  "addParsedNode b i kinds pps = (Some err, b') \<Longrightarrow> not_ascending b i \<or> capacity_error err"
  using commitAll_error by (fastforce simp: addParsedNode_def commitNodeProps_def commitProps_def split: if_splits prod.splits sum.splits)

lemma addParsedNode_ids: "addParsedNode b i kinds pps = (None, b') \<Longrightarrow> b_ids b' = b_ids b @ [i]"
  by (auto simp: addParsedNode_def commitNodeProps_def stageIDKinds_def stageEntries_def split: if_splits prod.splits sum.splits)

lemma stage_nodes_error:
  "sorted_wrt (<) (b_ids b @ map fst ns) \<Longrightarrow> stage_nodes b ns = (Some err, b') \<Longrightarrow> capacity_error err"
proof (induction ns arbitrary: b)
  case (Cons n ns)
  obtain i ks pps where n: "n = (i, ks, pps)" by (cases n) auto
  have asc: "\<not> not_ascending b i" using Cons.prems(1) n
    by (cases "b_ids b" rule: rev_cases) (auto simp: not_ascending_def sorted_wrt_append)
  obtain r b1 where a: "addParsedNode b i ks pps = (r, b1)" by fastforce
  show ?case
  proof (cases r)
    case None
    then show ?thesis using Cons.IH [of b1] Cons.prems n a addParsedNode_ids [of b i ks pps b1] by simp
  next
    case (Some e)
    then show ?thesis using Cons.prems(2) n a addParsedNode_error [of b i ks pps e b1] asc by simp
  qed
qed simp

section \<open>The staged edges\<close>

definition kept_slot :: "Snapshot \<Rightarrow> pgid set \<Rightarrow> nat \<Rightarrow> nat \<Rightarrow> stagedEdge list" where
  "kept_slot base touched n j = (if OutEdgeIDs base ! j \<in> touched then []
     else [\<lparr>se_id = OutEdgeIDs base ! j, se_start = GraphIDs base ! n, se_end = GraphIDs base ! (OutTargets base ! j), se_kind = OutKinds base ! j\<rparr>])"

definition kept_edges :: "Snapshot \<Rightarrow> pgid set \<Rightarrow> stagedEdge list" where
  "kept_edges base touched =
     concat (map (\<lambda>n. concat (map (kept_slot base touched n) [OutOffsets base ! n..<OutOffsets base ! Suc n])) [0..<NodeCount base])"

lemma foldM_edges:
  "(\<And>x b. x \<in> set xs \<Longrightarrow> f x b = Some (b\<lparr>b_edges := b_edges b @ g x\<rparr>)) \<Longrightarrow> foldM f xs b = Some (b\<lparr>b_edges := b_edges b @ concat (map g xs)\<rparr>)"
  by (induction xs arbitrary: b) simp_all

lemma rep_offsets: "snap_rep s out inn \<Longrightarrow> n \<le> NodeCount s \<Longrightarrow> OutOffsets s ! n = row_start out n \<and> n < length (OutOffsets s)"
  unfolding snap_rep_def by (auto simp: nth_append simp del: upt_Suc)

lemma foldBaseEdges_eq:
  assumes rep: "snap_rep base out inn"
  shows "foldBaseEdges b base touched = Some (b\<lparr>b_edges := b_edges b @ kept_edges base touched\<rparr>)"
  unfolding foldBaseEdges_def kept_edges_def
proof (rule foldM_edges)
  fix n b assume "n \<in> set [0..<NodeCount base]"
  then have n: "n < NodeCount base" by simp
  have off: "idx (OutOffsets base) n = Some (row_start out n)" "idx (OutOffsets base) (n + 1) = Some (row_start out (Suc n))"
    using rep_offsets [OF rep, of n] rep_offsets [OF rep, of "Suc n"] n by (simp_all add: idx_def)
  have "foldM (\<lambda>i b. do { eid \<leftarrow> idx (OutEdgeIDs base) i;
         if eid \<in> touched then Some b
         else do { src \<leftarrow> idx (GraphIDs base) n; t \<leftarrow> idx (OutTargets base) i; dst \<leftarrow> idx (GraphIDs base) t;
                   k \<leftarrow> idx (OutKinds base) i; Some (AddEdge b eid src dst k) } }) [row_start out n..<row_start out (Suc n)] b =
      Some (b\<lparr>b_edges := b_edges b @ concat (map (kept_slot base touched n) [row_start out n..<row_start out (Suc n)])\<rparr>)"
  proof (rule foldM_edges)
    fix j b assume "j \<in> set [row_start out n..<row_start out (Suc n)]"
    then obtain l where l: "l < length (out n)" "j = row_start out n + l" using nat_le_iff_add by auto
    note slot = rep_slot [OF rep n l(1), folded l(2)]
    have len: "length (OutTargets base) = EdgeCount base" "length (OutKinds base) = EdgeCount base" "length (OutEdgeIDs base) = EdgeCount base"
      using rep unfolding snap_rep_def EdgeCount_def by (metis length_map)+
    have "OutTargets base ! j < length (GraphIDs base)" using slot(2,5) by (simp add: NodeCount_def)
    then show "do { eid \<leftarrow> idx (OutEdgeIDs base) j;
         if eid \<in> touched then Some b
         else do { src \<leftarrow> idx (GraphIDs base) n; t \<leftarrow> idx (OutTargets base) j; dst \<leftarrow> idx (GraphIDs base) t;
                   k \<leftarrow> idx (OutKinds base) j; Some (AddEdge b eid src dst k) } } = Some (b\<lparr>b_edges := b_edges b @ kept_slot base touched n j\<rparr>)"
      using slot(1) n by (simp add: idx_def len kept_slot_def AddEdge_def NodeCount_def)
  qed
  then show "do { lo \<leftarrow> idx (OutOffsets base) n; hi \<leftarrow> idx (OutOffsets base) (n + 1);
       foldM (\<lambda>i b. do { eid \<leftarrow> idx (OutEdgeIDs base) i;
         if eid \<in> touched then Some b
         else do { src \<leftarrow> idx (GraphIDs base) n; t \<leftarrow> idx (OutTargets base) i; dst \<leftarrow> idx (GraphIDs base) t;
                   k \<leftarrow> idx (OutKinds base) i; Some (AddEdge b eid src dst k) } }) [lo..<hi] b } =
     Some (b\<lparr>b_edges := b_edges b @ concat (map (kept_slot base touched n) [OutOffsets base ! n..<OutOffsets base ! Suc n])\<rparr>)"
    using off rep_offsets [OF rep, of n] rep_offsets [OF rep, of "Suc n"] n by (simp del: row_start_Suc)
qed

lemma kept_ids:
  assumes rep: "snap_rep base out inn"
  shows "map se_id (kept_edges base touched) = filter (\<lambda>i. i \<notin> touched) (OutEdgeIDs base)"
proof -
  let ?ids = "OutEdgeIDs base"
  have slot: "map se_id (concat (map (kept_slot base touched n) js)) = filter (\<lambda>i. i \<notin> touched) (map ((!) ?ids) js)" for n js
    by (induction js) (simp_all add: kept_slot_def)
  have pre: "M \<le> NodeCount base \<Longrightarrow> map se_id (concat (map (\<lambda>n. concat (map (kept_slot base touched n) [OutOffsets base ! n..<OutOffsets base ! Suc n])) [0..<M])) =
      filter (\<lambda>i. i \<notin> touched) (map ((!) ?ids) [0..<row_start out M])" for M
  proof (induction M)
    case (Suc M)
    have "[0..<row_start out (Suc M)] = [0..<row_start out M] @ [row_start out M..<row_start out (Suc M)]"
      using upt_add_eq_append [of 0 "row_start out M" "length (out M)"] by simp
    then show ?case using Suc slot rep_offsets [OF rep, of M] rep_offsets [OF rep, of "Suc M"] by (simp del: row_start_Suc)
  qed simp
  have len: "row_start out (NodeCount base) = length ?ids" using rep unfolding snap_rep_def by (metis length_map slots_length)
  show ?thesis using pre [OF order_refl] unfolding kept_edges_def len map_nth .
qed

lemma kept_edge_iff:
  assumes rep: "snap_rep base out inn" and d: "distinct (OutEdgeIDs base)"
  shows "e \<in> set (kept_edges base touched) \<longleftrightarrow> se_id e \<notin> touched \<and> snap_edge base (se_id e) = Some (se_start e, se_end e, se_kind e)"
proof -
  have "e \<in> set (kept_edges base touched) \<longleftrightarrow> (\<exists>n < NodeCount base. \<exists>l < length (out n). e \<in> set (kept_slot base touched n (row_start out n + l)))"
  proof -
    have "{OutOffsets base ! n..<OutOffsets base ! Suc n} = (+) (row_start out n) ` {..<length (out n)}" if "n < NodeCount base" for n
      using rep_offsets [OF rep, of n] rep_offsets [OF rep, of "Suc n"] that by (simp add: lessThan_atLeast0 image_add_atLeastLessThan add.commute)
    then show ?thesis by (auto simp: kept_edges_def)
  qed
  also have "\<dots> \<longleftrightarrow> se_id e \<notin> touched \<and> (\<exists>n t. n < NodeCount base \<and> (t, se_kind e, se_id e) \<in> set (out n) \<and>
      se_start e = GraphIDs base ! n \<and> se_end e = GraphIDs base ! t)" (is "?L \<longleftrightarrow> ?R")
  proof
    assume ?L
    then obtain n l where n: "n < NodeCount base" "l < length (out n)" "e \<in> set (kept_slot base touched n (row_start out n + l))" by blast
    note slot = rep_slot [OF rep n(1,2)]
    obtain t k i where o: "out n ! l = (t, k, i)" by (rule prod_cases3)
    then have "(t, k, i) \<in> set (out n)" using n(2) by (metis nth_mem)
    then show ?R using n slot o by (auto simp: kept_slot_def split: if_splits)
  next
    assume ?R
    then obtain n t l where n: "se_id e \<notin> touched" "n < NodeCount base" "l < length (out n)" "out n ! l = (t, se_kind e, se_id e)"
        "se_start e = GraphIDs base ! n" "se_end e = GraphIDs base ! t" by (auto simp: in_set_conv_nth)
    note slot = rep_slot [OF rep n(2,3)]
    have "e \<in> set (kept_slot base touched n (row_start out n + l))" using n slot by (cases e) (simp add: kept_slot_def)
    then show ?L using n by blast
  qed
  also have "\<dots> \<longleftrightarrow> se_id e \<notin> touched \<and> snap_edge base (se_id e) = Some (se_start e, se_end e, se_kind e)"
    using snap_edge_iff [OF rep d, of "se_id e" "se_start e" "se_end e" "se_kind e"] by blast
  finally show ?thesis .
qed

definition edge_live :: "Snapshot \<Rightarrow> Segment \<Rightarrow> EdgeSegState \<Rightarrow> bool" where
  "edge_live base merged st \<longleftrightarrow> \<not> eTombstoned st \<and> foldNodeFateOf base merged (StartID st) = foldNodeLive \<and> foldNodeFateOf base merged (EndID st) = foldNodeLive"

definition edge_gone :: "Snapshot \<Rightarrow> Segment \<Rightarrow> EdgeSegState \<Rightarrow> bool" where
  "edge_gone base merged st \<longleftrightarrow> eTombstoned st \<or> foldNodeFateOf base merged (StartID st) = foldNodeGone \<or> foldNodeFateOf base merged (EndID st) = foldNodeGone"

definition edge_pending :: "Snapshot \<Rightarrow> Segment \<Rightarrow> EdgeSegState \<Rightarrow> bool" where
  "edge_pending base merged st \<longleftrightarrow> \<not> edge_live base merged st \<and> \<not> edge_gone base merged st"

definition stage_of :: "pgid \<times> EdgeSegState \<Rightarrow> stage" where
  "stage_of x = (case x of (i, st) \<Rightarrow> StageEdge i (StartID st) (EndID st) (eKind st))"

definition staged_of :: "pgid \<times> EdgeSegState \<Rightarrow> stagedEdge" where
  "staged_of x = (case x of (i, st) \<Rightarrow> \<lparr>se_id = i, se_start = StartID st, se_end = EndID st, se_kind = eKind st\<rparr>)"

lemma foldDeltaEdges_eq:
  "\<exists>p'. fold (foldDeltaEdge base merged) xs (b, p, any) =
      (b\<lparr>b_edges := b_edges b @ map staged_of (filter (edge_live base merged \<circ> snd) xs)\<rparr>, p',
       any \<or> filter (edge_pending base merged \<circ> snd) xs \<noteq> []) \<and>
     foldM stage_step (map stage_of (filter (edge_pending base merged \<circ> snd) xs)) p = Some p'"
proof (induction xs arbitrary: b p any)
  case (Cons x xs)
  obtain i st where x: "x = (i, st)" by (cases x) auto
  consider (live) "edge_live base merged st" | (gone) "edge_gone base merged st" "\<not> edge_live base merged st" | (pend) "edge_pending base merged st"
    by (auto simp: edge_pending_def)
  then show ?case
  proof cases
    case live
    then have "foldDeltaEdge base merged x (b, p, any) = (b\<lparr>b_edges := b_edges b @ [staged_of x]\<rparr>, p, any)" "\<not> edge_pending base merged st"
      by (simp_all add: foldDeltaEdge_def x edge_live_def edge_pending_def AddEdge_def staged_of_def)
    then show ?thesis using Cons.IH [of "b\<lparr>b_edges := b_edges b @ [staged_of x]\<rparr>" p any] live x by simp
  next
    case gone
    then have "foldDeltaEdge base merged x (b, p, any) = (b, p, any)" "\<not> edge_pending base merged st"
      by (auto simp: foldDeltaEdge_def x edge_gone_def edge_pending_def Let_def)
    then show ?thesis using Cons.IH [of b p any] gone x by simp
  next
    case pend
    let ?p = "AddEdgeState p i (StartID st) (EndID st) (eKind st)"
    have f: "\<not> eTombstoned st" "foldNodeFateOf base merged (StartID st) \<noteq> foldNodeGone" "foldNodeFateOf base merged (EndID st) \<noteq> foldNodeGone"
        "foldNodeFateOf base merged (StartID st) = foldNodePending \<or> foldNodeFateOf base merged (EndID st) = foldNodePending"
        "\<not> edge_live base merged st"
      using pend foldNodeFate.exhaust [of "foldNodeFateOf base merged (StartID st)"] foldNodeFate.exhaust [of "foldNodeFateOf base merged (EndID st)"]
      by (auto simp: edge_pending_def edge_live_def edge_gone_def)
    then have "foldDeltaEdge base merged x (b, p, any) = (b, ?p, True)" by (simp add: foldDeltaEdge_def x Let_def)
    then show ?thesis using Cons.IH [of b ?p True] pend f(5) x by (simp add: stage_of_def)
  qed
qed simp

lemma stage_edges_states:
  assumes "distinct (map fst xs)" and "\<forall>x \<in> set xs. \<not> eTombstoned (snd x)"
  shows "fold stage_edge (map stage_of xs) E e = (case map_of xs e of Some st \<Rightarrow> Some st | None \<Rightarrow> E e)"
    and "fold stage_node (map stage_of xs) N = N"
proof -
  show "fold stage_edge (map stage_of xs) E e = (case map_of xs e of Some st \<Rightarrow> Some st | None \<Rightarrow> E e)"
    using assms
  proof (induction xs arbitrary: E)
    case (Cons x xs)
    obtain i st where x: "x = (i, st)" by (cases x) auto
    have "stage_edge (stage_of x) E = E(i \<mapsto> st)" using Cons.prems(2) x by (cases st) (simp add: stage_of_def)
    moreover have "map_of xs i = None" using Cons.prems(1) x by (simp add: map_of_eq_None_iff)
    moreover have "fold stage_edge (map stage_of xs) (E(i \<mapsto> st)) e = (case map_of xs e of Some st \<Rightarrow> Some st | None \<Rightarrow> (E(i \<mapsto> st)) e)"
      using Cons by simp
    ultimately show ?case using x by (simp split: option.split)
  qed simp
  show "fold stage_node (map stage_of xs) N = N" by (induction xs) (auto simp: stage_of_def split: prod.split)
qed

lemma map_of_filter_val:
  "distinct (map fst xs) \<Longrightarrow> map_of (filter (P \<circ> snd) xs) e = (case map_of xs e of Some v \<Rightarrow> if P v then Some v else None | None \<Rightarrow> None)"
proof (induction xs)
  case (Cons x xs)
  have "map_of xs (fst x) = None" using Cons.prems by (simp add: map_of_eq_None_iff)
  then show ?case using Cons by (cases x) auto
qed simp

lemma pending_segment:
  assumes m: "seg_wf merged" and p: "foldM stage_step (map stage_of (filter (edge_pending base merged \<circ> snd) (IterEdges merged))) emptySegmentBuilder = Some p"
  shows "seg_ok (seg_Build p)" and "NodeState (seg_Build p) = Map.empty"
    and "EdgeState (seg_Build p) e = (case EdgeState merged e of Some st \<Rightarrow> if edge_pending base merged st then Some st else None | None \<Rightarrow> None)"
proof -
  let ?xs = "filter (edge_pending base merged \<circ> snd) (IterEdges merged)"
  have run: "stage_run (map stage_of ?xs) = Some p" using p by (simp add: stage_run_def)
  have names: "\<forall>op \<in> set (map stage_of ?xs). stage_names_ok op" by (auto simp: stage_of_def)
  show "seg_ok (seg_Build p)" by (rule seg_Build_ok [OF run names])
  note st = seg_Build_states [OF stage_run_inv [OF run names]]
  have it: "distinct (map fst (IterEdges merged))" using seg_wf_ids(4) [OF m] by (simp add: IterEdges_fst)
  have xs: "distinct (map fst ?xs)" "\<forall>x \<in> set ?xs. \<not> eTombstoned (snd x)"
    using distinct_map_filter_list [OF it] by (auto simp: edge_pending_def edge_gone_def)
  note run = stage_edges_states [OF xs]
  have "map_option state_rec (NodeState (seg_Build p) i) = None" for i using st(2) [of i] run(2) by simp
  then show "NodeState (seg_Build p) = Map.empty" by (intro ext) simp
  have "map_of ?xs e = (case EdgeState merged e of Some st \<Rightarrow> if edge_pending base merged st then Some st else None | None \<Rightarrow> None)"
    unfolding map_of_IterEdges [OF m, symmetric] by (rule map_of_filter_val [OF it])
  then show "EdgeState (seg_Build p) e = (case EdgeState merged e of Some st \<Rightarrow> if edge_pending base merged st then Some st else None | None \<Rightarrow> None)"
    using st(3) run(1) [of Map.empty e] by (simp split: option.split)
qed

lemma pending_states:
  assumes m: "seg_wf merged" and p: "foldM stage_step (map stage_of (filter (edge_pending base merged \<circ> snd) (IterEdges merged))) emptySegmentBuilder = Some p"
  defines "pend \<equiv> if filter (edge_pending base merged \<circ> snd) (IterEdges merged) \<noteq> [] then Some (seg_Build p) else None"
  shows "\<forall>q. pend = Some q \<longrightarrow> seg_ok q" and "stacked NodeState (case pend of None \<Rightarrow> [] | Some p \<Rightarrow> [p]) = Map.empty"
    and "\<forall>e. stacked EdgeState (case pend of None \<Rightarrow> [] | Some p \<Rightarrow> [p]) e =
      (case EdgeState merged e of Some st \<Rightarrow> if edge_pending base merged st then Some st else None | None \<Rightarrow> None)"
proof -
  note seg = pending_segment [OF m p]
  have "\<forall>e. stacked EdgeState (case pend of None \<Rightarrow> [] | Some p \<Rightarrow> [p]) e =
      (case EdgeState merged e of Some st \<Rightarrow> if edge_pending base merged st then Some st else None | None \<Rightarrow> None) \<and>
    stacked NodeState (case pend of None \<Rightarrow> [] | Some p \<Rightarrow> [p]) = Map.empty"
  proof (cases "filter (edge_pending base merged \<circ> snd) (IterEdges merged) = []")
    case True
    have "\<not> edge_pending base merged st" if "EdgeState merged e = Some st" for e st
      using True that IterEdges_iff [OF m, of e st] by (auto simp: filter_empty_conv)
    moreover have "pend = None" using True by (simp only: pend_def) simp
    ultimately show ?thesis by (simp add: stacked_def split: option.split)
  next
    case False
    then have "pend = Some (seg_Build p)" by (simp only: pend_def) simp
    then show ?thesis using seg(2,3) by (simp add: stacked_def)
  qed
  then show "stacked NodeState (case pend of None \<Rightarrow> [] | Some p \<Rightarrow> [p]) = Map.empty"
    "\<forall>e. stacked EdgeState (case pend of None \<Rightarrow> [] | Some p \<Rightarrow> [p]) e =
      (case EdgeState merged e of Some st \<Rightarrow> if edge_pending base merged st then Some st else None | None \<Rightarrow> None)" by blast+
  show "\<forall>q. pend = Some q \<longrightarrow> seg_ok q" using seg(1) by (auto simp: pend_def)
qed

section \<open>The folded snapshot\<close>

lemma kindPairs_distinct: "distinct (map fst (kindPairs t added))"
proof -
  have "distinct (map fst (fold (\<lambda>(i, name). AList.update i name) added ps))" if "distinct (map fst ps)" for ps
    using that by (induction added arbitrary: ps) (auto simp: distinct_update)
  moreover have "distinct (map fst (map (\<lambda>i. (int i, kt_names t ! i)) (filter (\<lambda>i. kt_names t ! i \<noteq> []) [0..<length (kt_names t)])))"
    by (simp add: comp_def distinct_map)
  ultimately show ?thesis by (simp only: kindPairs_def)
qed

lemma snap_ok_stamps: "snap_ok (s\<lparr>MultiGraph := x, WatermarkLineage := y\<rparr>) = snap_ok s"
    and snap_node_stamps: "snap_node (s\<lparr>MultiGraph := x, WatermarkLineage := y\<rparr>) = snap_node s"
    and snap_edge_stamps: "snap_edge (s\<lparr>MultiGraph := x, WatermarkLineage := y\<rparr>) = snap_edge s"
proof -
  have "Dense (s\<lparr>MultiGraph := x, WatermarkLineage := y\<rparr>) = Dense s" "NodeCount (s\<lparr>MultiGraph := x, WatermarkLineage := y\<rparr>) = NodeCount s"
    "hasEdgeKind (s\<lparr>MultiGraph := x, WatermarkLineage := y\<rparr>) = hasEdgeKind s"
    by (auto simp: Dense_def NodeCount_def hasEdgeKind_def fun_eq_iff)
  note f = this
  have rep: "snap_rep (s\<lparr>MultiGraph := x, WatermarkLineage := y\<rparr>) out inn = snap_rep s out inn" for out inn
    unfolding snap_rep_def f by simp
  show "snap_ok (s\<lparr>MultiGraph := x, WatermarkLineage := y\<rparr>) = snap_ok s" unfolding snap_ok_def snap_wf_def rep f by simp
  show "snap_node (s\<lparr>MultiGraph := x, WatermarkLineage := y\<rparr>) = snap_node s" by (simp add: fun_eq_iff snap_node_def f)
  show "snap_edge (s\<lparr>MultiGraph := x, WatermarkLineage := y\<rparr>) = snap_edge s"
    by (simp add: fun_eq_iff snap_edge_def EdgeByID_def sourceOfSlot_def f Let_def)
qed

text \<open>The edges the fold stages: a base edge no record touches, or a record with both ends live.\<close>

definition folded_edges :: "Snapshot \<Rightarrow> Segment \<Rightarrow> stagedEdge list" where
  "folded_edges base merged = kept_edges base (dom (EdgeState merged)) @
     map staged_of (filter (edge_live base merged \<circ> snd) (IterEdges merged))"

lemma IterEdges_dom: "seg_wf m \<Longrightarrow> fst ` set (IterEdges m) = dom (EdgeState m)"
  using seg_wf_ids(6) [of m] by (simp add: IterEdges_def image_image)

lemma foldEdges_eq:
  assumes rep: "snap_rep base out inn" and m: "seg_wf merged"
  obtains p where "foldEdges b base merged = Some (b\<lparr>b_edges := b_edges b @ folded_edges base merged\<rparr>,
      if filter (edge_pending base merged \<circ> snd) (IterEdges merged) \<noteq> [] then Some (seg_Build p) else None)"
    and "foldM stage_step (map stage_of (filter (edge_pending base merged \<circ> snd) (IterEdges merged))) emptySegmentBuilder = Some p"
proof -
  let ?b = "b\<lparr>b_edges := b_edges b @ kept_edges base (dom (EdgeState merged))\<rparr>"
  obtain p where p: "fold (foldDeltaEdge base merged) (IterEdges merged) (?b, emptySegmentBuilder, False) =
      (?b\<lparr>b_edges := b_edges ?b @ map staged_of (filter (edge_live base merged \<circ> snd) (IterEdges merged))\<rparr>, p,
       False \<or> filter (edge_pending base merged \<circ> snd) (IterEdges merged) \<noteq> [])"
      "foldM stage_step (map stage_of (filter (edge_pending base merged \<circ> snd) (IterEdges merged))) emptySegmentBuilder = Some p"
    using foldDeltaEdges_eq by blast
  have "foldEdges b base merged = Some (b\<lparr>b_edges := b_edges b @ folded_edges base merged\<rparr>,
      if filter (edge_pending base merged \<circ> snd) (IterEdges merged) \<noteq> [] then Some (seg_Build p) else None)"
    unfolding foldEdges_def IterEdges_dom [OF m] foldBaseEdges_eq [OF rep] using p(1) by (simp add: folded_edges_def)
  then show ?thesis using that p(2) by blast
qed

lemma triple_option_eqI: "(\<And>a b c. x = Some (a, b, c) \<longleftrightarrow> y = Some (a, b, c)) \<Longrightarrow> x = y"
  by (cases x; cases y) auto

lemma folded_edges_props:
  assumes rep: "snap_rep base out inn" and d: "distinct (OutEdgeIDs base)" and m: "seg_wf merged"
  shows "distinct (map se_id (folded_edges base merged))"
    and "map_of (map (\<lambda>e. (se_id e, (se_start e, se_end e, se_kind e))) (folded_edges base merged)) e =
      (case EdgeState merged e of None \<Rightarrow> snap_edge base e
       | Some st \<Rightarrow> if edge_live base merged st then Some (StartID st, EndID st, eKind st) else None)"
    and "length (folded_edges base merged) \<le> EdgeCount base + seg_EdgeCount merged"
proof -
  let ?live = "filter (edge_live base merged \<circ> snd) (IterEdges merged)" and ?kept = "kept_edges base (dom (EdgeState merged))"
  let ?key = "\<lambda>e. (se_id e, (se_start e, se_end e, se_kind e))"
  have it: "distinct (map fst (IterEdges merged))" using seg_wf_ids(4) [OF m] by (simp add: IterEdges_fst)
  have ids: "map se_id (map staged_of ?live) = map fst ?live" by (simp add: staged_of_def case_prod_unfold)
  have sub: "set (map fst ?live) \<subseteq> dom (EdgeState merged)" using IterEdges_dom [OF m] by auto
  show dist: "distinct (map se_id (folded_edges base merged))"
    unfolding folded_edges_def map_append ids kept_ids [OF rep] using d sub distinct_map_filter_list [OF it] by auto
  have look: "map_of (map ?key (folded_edges base merged)) e = Some (a, b, k) \<longleftrightarrow>
      (\<exists>x \<in> set (folded_edges base merged). se_id x = e \<and> se_start x = a \<and> se_end x = b \<and> se_kind x = k)" for a b k
    using dist by (subst map_of_eq_Some_iff) (auto simp: comp_def)
  have kept: "(\<exists>x \<in> set ?kept. se_id x = e \<and> se_start x = a \<and> se_end x = b \<and> se_kind x = k) \<longleftrightarrow>
      EdgeState merged e = None \<and> snap_edge base e = Some (a, b, k)" for a b k
    unfolding kept_edge_iff [OF rep d] Bex_def
    by (auto intro!: exI [of _ "\<lparr>se_id = e, se_start = a, se_end = b, se_kind = k\<rparr>"])
  have live: "(\<exists>x \<in> set (map staged_of ?live). se_id x = e \<and> se_start x = a \<and> se_end x = b \<and> se_kind x = k) \<longleftrightarrow>
      (\<exists>st. EdgeState merged e = Some st \<and> edge_live base merged st \<and> StartID st = a \<and> EndID st = b \<and> eKind st = k)" for a b k
    using IterEdges_iff [OF m] by (auto simp: staged_of_def)
  let ?R = "case EdgeState merged e of None \<Rightarrow> snap_edge base e
       | Some st \<Rightarrow> if edge_live base merged st then Some (StartID st, EndID st, eKind st) else None"
  have "map_of (map ?key (folded_edges base merged)) e = Some (a, b, k) \<longleftrightarrow> ?R = Some (a, b, k)" for a b k
    unfolding look unfolding folded_edges_def set_append bex_Un kept live by (auto split: option.split)
  then show "map_of (map ?key (folded_edges base merged)) e = ?R" by (rule triple_option_eqI)
  have "length (folded_edges base merged) = length (filter (\<lambda>i. i \<notin> dom (EdgeState merged)) (OutEdgeIDs base)) + length ?live"
    using arg_cong [OF kept_ids [OF rep], of length] by (simp add: folded_edges_def)
  moreover have "length (OutEdgeIDs base) = EdgeCount base" using rep unfolding snap_rep_def EdgeCount_def by (metis length_map)
  moreover have "length ?live \<le> seg_EdgeCount merged" using length_filter_le [of _ "IterEdges merged"] by (simp add: seg_EdgeCount_def IterEdges_def)
  ultimately show "length (folded_edges base merged) \<le> EdgeCount base + seg_EdgeCount merged" using length_filter_le [of _ "OutEdgeIDs base"] by (simp add: add_mono)
qed

text \<open>
  The graph of the folded snapshot with its pending segment, against that of the stack. A record of an
  edge is dropped only when one of its ends is gone: tombstoned by the segments.
\<close>

definition gone_in :: "Segment list \<Rightarrow> pgid \<Rightarrow> bool" where
  "gone_in segs i \<longleftrightarrow> (\<exists>st. stacked NodeState segs i = Some st \<and> Tombstoned st)"

definition folded_view :: "Snapshot \<times> Segment option \<Rightarrow> Segment list \<Rightarrow> View" where
  "folded_view r tail = \<lparr>v_base = fst r, v_segments = (case snd r of None \<Rightarrow> [] | Some p \<Rightarrow> [p]) @ tail\<rparr>"

definition stacked_view :: "Snapshot \<Rightarrow> Segment list \<Rightarrow> View" where
  "stacked_view base segs = \<lparr>v_base = base, v_segments = segs\<rparr>"

definition fold_fits :: "Snapshot \<Rightarrow> Segment \<Rightarrow> bool" where
  "fold_fits base merged \<longleftrightarrow> length (folded_nodes base merged) \<le> 2 ^ 32 \<and>
     sum_list (map (\<lambda>(i, ks, pps). length ks) (folded_nodes base merged)) < 2 ^ 32 \<and>
     sum_list (map (\<lambda>(i, ks, pps). length pps) (folded_nodes base merged)) < 2 ^ 32 \<and>
     EdgeCount base + seg_EdgeCount merged < 2 ^ 32"

lemma fate_iff:
  assumes "snap_wf base out inn kr pr"
  shows "foldNodeFateOf base merged i = foldNodeLive \<longleftrightarrow> i \<in> dom (apply_nodes (NodeState merged) (snap_node base))"
    and "foldNodeFateOf base merged i = foldNodeGone \<longleftrightarrow> (\<exists>st. NodeState merged i = Some st \<and> Tombstoned st)"
  using snap_node_iff [OF assms, of i]
  by (auto simp: foldNodeFateOf_def apply_nodes_def split: option.splits if_splits)

lemma stacked_st_wf:
  assumes "\<forall>s \<in> set segs. seg_ok s" and st: "stacked NodeState segs i = Some st"
  shows "st_wf st"
proof -
  obtain t where "find (\<lambda>s. NodeState s i \<noteq> None) (rev segs) = Some t" "NodeState t i = Some st"
    using st stacked_find [of NodeState segs i] by (auto split: option.splits)
  then show ?thesis using assms(1) by (auto simp: seg_ok_def dest!: find_SomeD)
qed

lemma FoldWithPendingEdges_ok:
  assumes base: "snap_ok base" and segs: "\<forall>s \<in> set segs. seg_ok s" and fit: "fold_fits base (MergeSegments segs)"
  defines "m \<equiv> MergeSegments segs"
  shows "ok (FoldWithPendingEdges base segs) (\<lambda>r. case r of Inl err \<Rightarrow> capacity_error err
    | Inr (folded, pending) \<Rightarrow> snap_ok folded \<and> MultiGraph folded = MultiGraph base \<and> WatermarkLineage folded = WatermarkLineage base \<and>
        (\<forall>p. pending = Some p \<longrightarrow> seg_ok p) \<and>
        snap_node folded = apply_nodes (NodeState m) (snap_node base) \<and>
        snap_edge folded = both_in (dom (snap_node folded)) (\<lambda>e. case EdgeState m e of None \<Rightarrow> snap_edge base e
           | Some st \<Rightarrow> if edge_live base m st then Some (StartID st, EndID st, eKind st) else None) \<and>
        stacked NodeState (case pending of None \<Rightarrow> [] | Some p \<Rightarrow> [p]) = Map.empty \<and>
        (\<forall>e. stacked EdgeState (case pending of None \<Rightarrow> [] | Some p \<Rightarrow> [p]) e =
           (case EdgeState m e of Some st \<Rightarrow> if edge_pending base m st then Some st else None | None \<Rightarrow> None)))"
proof -
  obtain out inn kr pr where wf: "snap_wf base out inn kr pr" and d: "distinct (OutEdgeIDs base)" using base unfolding snap_ok_def by blast
  have rep: "snap_rep base out inn" using wf by (simp add: snap_wf_def)
  have wfs: "\<forall>s \<in> set segs. seg_wf s" using segs by (simp add: seg_ok_def)
  have m: "seg_wf m" and ns: "NodeState m = stacked NodeState segs" unfolding m_def by (rule merge_maps [OF wfs])+
  have st: "st_wf s" if "NodeState m i = Some s" for i s using stacked_st_wf [OF segs] that ns by metis
  let ?ns = "folded_nodes base m" and ?b = "SetKinds (NewBuilder (GraphID base)) (kindPairs (sKinds base) (AddedKinds m))"
  have "\<forall>i s. NodeState m i = Some s \<longrightarrow> st_wf s" using st by blast
  note nodes = folded_nodes_props [OF wf m this]
  have fits: "fits ?ns" using fit nodes(3) by (simp add: fold_fits_def fits_def m_def)
  have staged: "foldNodes ?b base m = Some (stage_nodes ?b ?ns)"
    unfolding foldNodes_def by (subst foldNodes_loop_eq [OF wf st]) (simp_all add: addedNodeIDs_props(1) [OF m] folded_nodes_def)
  show ?thesis
  proof (cases "stage_nodes ?b ?ns")
    case (Pair r b1)
    show ?thesis
    proof (cases r)
      case (Some err)
      have "b_ids ?b = []" by (simp add: SetKinds_def NewBuilder_def)
      then have "capacity_error err" using stage_nodes_error [of ?b ?ns err b1] nodes(2) Pair Some by simp
      then show ?thesis using staged Pair Some by (simp add: FoldWithPendingEdges_def m_def [symmetric] Let_def)
    next
      case None
      have "holds_nodes ?b []" by (subst holds_nodes_cong [where b = "NewBuilder (GraphID base)"]) (simp_all add: SetKinds_def NewBuilder_holds)
      then have b1: "holds_nodes b1 ?ns" "b_edges b1 = []" "b_kindTable b1 = kindPairs (sKinds base) (AddedKinds m)"
        using stage_nodes_holds [of ?b "[]" ?ns b1] fits Pair None by (simp_all add: SetKinds_def NewBuilder_def)
      obtain p where p: "foldEdges b1 base m = Some (b1\<lparr>b_edges := b_edges b1 @ folded_edges base m\<rparr>,
          if filter (edge_pending base m \<circ> snd) (IterEdges m) \<noteq> [] then Some (seg_Build p) else None)"
        "foldM stage_step (map stage_of (filter (edge_pending base m \<circ> snd) (IterEdges m))) emptySegmentBuilder = Some p"
        by (rule foldEdges_eq [OF rep m])
      let ?b2 = "b1\<lparr>b_edges := folded_edges base m\<rparr>"
      note edges = folded_edges_props [OF rep d m]
      have "holds_nodes ?b2 ?ns" using b1(1) by (subst holds_nodes_cong [where b = b1]) simp_all
      then have "ok (Build ?b2) (\<lambda>s. snap_ok s \<and> snap_node s = map_of (map node_of ?ns) \<and> snap_edge s = both_in (fst ` set ?ns) (staged_edge ?b2))"
        using holds_nodes_graph [of ?b2 ?ns] fits fit edges(1,3) b1(3) kindPairs_distinct
        by (auto simp: fits_def fold_fits_def m_def [symmetric] ok_iff)
      then obtain s where s: "Build ?b2 = Some s" "snap_ok s" "snap_node s = map_of (map node_of ?ns)" "snap_edge s = both_in (fst ` set ?ns) (staged_edge ?b2)"
        by (auto simp: ok_iff)
      let ?pend = "if filter (edge_pending base m \<circ> snd) (IterEdges m) \<noteq> [] then Some (seg_Build p) else None"
      note pend = pending_states [OF m p(2)]
      have sedge: "staged_edge ?b2 = (\<lambda>e. case EdgeState m e of None \<Rightarrow> snap_edge base e
           | Some st \<Rightarrow> if edge_live base m st then Some (StartID st, EndID st, eKind st) else None)"
        using edges(2) by (simp add: staged_edge_def fun_eq_iff)
      have "FoldWithPendingEdges base segs = Some (Inr (s\<lparr>MultiGraph := MultiGraph base, WatermarkLineage := WatermarkLineage base\<rparr>, ?pend))"
        using staged Pair None p(1) s(1) b1(2) by (simp add: FoldWithPendingEdges_def m_def [symmetric] Let_def del: filter_empty_conv)
      then show ?thesis using s(2-4) pend sedge nodes(1,4)
        by (simp add: snap_ok_stamps snap_node_stamps snap_edge_stamps del: filter_empty_conv)
    qed
  qed
qed

lemma both_in_agree:
  assumes "\<And>e. raw' e = raw e \<or> raw' e = None \<and> (\<exists>a b k. raw e = Some (a, b, k) \<and> (G a \<or> G b))" and "\<And>i. G i \<Longrightarrow> i \<notin> N"
  shows "both_in N (apply_edges T raw') = both_in N (apply_edges T raw)"
proof
  fix e
  show "both_in N (apply_edges T raw') e = both_in N (apply_edges T raw) e"
  proof (cases "raw' e = raw e")
    case True
    show ?thesis unfolding both_in_def apply_edges_def True by (rule refl)
  next
    case False
    then show ?thesis using assms(1) [of e] assms(2) by (auto simp: both_in_def apply_edges_def split: option.split)
  qed
qed

lemma folded_raw:
  assumes wf: "snap_wf base out inn kr pr" and d: "distinct (OutEdgeIDs base)"
    and e: "snap_edge folded = both_in (dom (apply_nodes (NodeState m) (snap_node base))) (\<lambda>e. case EdgeState m e of None \<Rightarrow> snap_edge base e
           | Some st \<Rightarrow> if edge_live base m st then Some (StartID st, EndID st, eKind st) else None)"
    and p: "P e = (case EdgeState m e of Some st \<Rightarrow> if edge_pending base m st then Some st else None | None \<Rightarrow> None)"
  shows "apply_edges P (snap_edge folded) e = apply_edges (EdgeState m) (snap_edge base) e \<or>
    apply_edges P (snap_edge folded) e = None \<and> (\<exists>a b k. apply_edges (EdgeState m) (snap_edge base) e = Some (a, b, k) \<and>
      ((\<exists>st. NodeState m a = Some st \<and> Tombstoned st) \<or> (\<exists>st. NodeState m b = Some st \<and> Tombstoned st)))"
proof (cases "EdgeState m e")
  case None
  have stays: "(\<exists>st. NodeState m i = Some st \<and> Tombstoned st) \<or> i \<in> dom (apply_nodes (NodeState m) (snap_node base))" if "snap_node base i \<noteq> None" for i
    using that by (auto simp: apply_nodes_def split: option.split)
  have ends: "snap_node base a \<noteq> None \<and> snap_node base b \<noteq> None" if ab: "snap_edge base e = Some (a, b, k)" for a b k
  proof -
    have rep: "snap_rep base out inn" using wf by (simp add: snap_wf_def)
    obtain u t where u: "u < NodeCount base" "(t, k, e) \<in> set (out u)" "a = GraphIDs base ! u" "b = GraphIDs base ! t"
      using ab snap_edge_iff [OF rep d] by blast
    then have "t < NodeCount base" using rep unfolding snap_rep_def by fastforce
    then show ?thesis using u snap_node_iff [OF wf] base_rows(5) [OF wf] by simp
  qed
  show ?thesis
  proof (cases "snap_edge base e")
    case (Some x)
    then obtain a b k where x: "snap_edge base e = Some (a, b, k)" by (cases x) auto
    show ?thesis using stays [of a] stays [of b] ends [OF x] None p x by (auto simp: e apply_edges_def both_in_def)
  qed (use None p in \<open>simp add: e apply_edges_def both_in_def\<close>)
next
  case (Some st)
  consider (live) "edge_live base m st" | (gone) "edge_gone base m st" "\<not> edge_live base m st" | (pend) "edge_pending base m st"
    by (auto simp: edge_pending_def)
  then show ?thesis
  proof cases
    case live
    then show ?thesis using Some p fate_iff(1) [OF wf] by (auto simp: e apply_edges_def both_in_def edge_pending_def edge_live_def)
  next
    case gone
    then have "\<not> edge_pending base m st" by (simp add: edge_pending_def)
    then show ?thesis using gone Some p fate_iff(2) [OF wf] by (auto simp: e apply_edges_def both_in_def edge_gone_def)
  next
    case pend
    then show ?thesis using Some p by (auto simp: e apply_edges_def)
  qed
qed

lemma folded_same_graph:
  fixes pending :: "Segment option"
  assumes wf: "snap_wf base out inn kr pr" and d: "distinct (OutEdgeIDs base)" and segs: "\<forall>s \<in> set segs. seg_wf s"
  defines "m \<equiv> MergeSegments segs" and "p \<equiv> (case pending of None \<Rightarrow> [] | Some p \<Rightarrow> [p])"
  assumes n: "snap_node folded = apply_nodes (NodeState m) (snap_node base)" and pn: "stacked NodeState p = Map.empty"
    and e: "snap_edge folded = both_in (dom (snap_node folded)) (\<lambda>e. case EdgeState m e of None \<Rightarrow> snap_edge base e
       | Some st \<Rightarrow> if edge_live base m st then Some (StartID st, EndID st, eKind st) else None)"
    and pe: "\<And>e. stacked EdgeState p e = (case EdgeState m e of Some st \<Rightarrow> if edge_pending base m st then Some st else None | None \<Rightarrow> None)"
  shows "view_nodes (folded_view (folded, pending) tail) = view_nodes (stacked_view base (segs @ tail))"
    and "\<forall>i. gone_in segs i \<longrightarrow> view_nodes (stacked_view base (segs @ tail)) i = None \<Longrightarrow>
      view_edges (folded_view (folded, pending) tail) = view_edges (stacked_view base (segs @ tail))"
proof -
  note mm = merge_maps [OF segs, folded m_def]
  show nodes: "view_nodes (folded_view (folded, pending) tail) = view_nodes (stacked_view base (segs @ tail))"
    using n pn unfolding p_def by (simp add: folded_view_def stacked_view_def view_nodes_def node_states_def stacked_append mm(1) apply_nodes_add)
  assume gone: "\<forall>i. gone_in segs i \<longrightarrow> view_nodes (stacked_view base (segs @ tail)) i = None"
  have raw: "view_raw (folded_view (folded, pending) tail) = apply_edges (stacked EdgeState tail) (apply_edges (stacked EdgeState p) (snap_edge folded))"
    "view_raw (stacked_view base (segs @ tail)) = apply_edges (stacked EdgeState tail) (apply_edges (EdgeState m) (snap_edge base))"
    unfolding p_def by (simp_all add: folded_view_def stacked_view_def view_raw_def edge_states_def stacked_append mm(2) apply_edges_add)
  note agree = folded_raw [where P = "stacked EdgeState p", OF wf d e [unfolded n] pe]
  show "view_edges (folded_view (folded, pending) tail) = view_edges (stacked_view base (segs @ tail))"
    unfolding view_edges_def nodes raw
  proof (rule both_in_agree [where G = "gone_in segs"])
    show "i \<notin> dom (view_nodes (stacked_view base (segs @ tail)))" if "gone_in segs i" for i using gone that by (simp add: domIff)
  qed (use agree in \<open>simp add: gone_in_def mm(1)\<close>)
qed

lemma fold_refines:
  assumes "snap_ok base" and "\<forall>s \<in> set segs. seg_ok s" and "fold_fits base (MergeSegments segs)"
  shows "ok (FoldWithPendingEdges base segs) (\<lambda>r. case r of Inl err \<Rightarrow> capacity_error err
    | Inr (folded, pending) \<Rightarrow> snap_ok folded \<and> (\<forall>p. pending = Some p \<longrightarrow> seg_ok p \<and> NodeState p = Map.empty) \<and>
        MultiGraph folded = MultiGraph base \<and> WatermarkLineage folded = WatermarkLineage base \<and>
        (\<forall>tail. view_nodes (folded_view (folded, pending) tail) = view_nodes (stacked_view base (segs @ tail)) \<and>
           ((\<forall>i. gone_in segs i \<longrightarrow> view_nodes (stacked_view base (segs @ tail)) i = None) \<longrightarrow>
             view_edges (folded_view (folded, pending) tail) = view_edges (stacked_view base (segs @ tail)))))"
proof (rule ok_mono [OF FoldWithPendingEdges_ok [OF assms]], goal_cases)
  case (1 r)
  obtain out inn kr pr where wf: "snap_wf base out inn kr pr" and d: "distinct (OutEdgeIDs base)" using assms(1) unfolding snap_ok_def by blast
  have segs: "\<forall>s \<in> set segs. seg_wf s" using assms(2) by (simp add: seg_ok_def)
  show ?case
  proof (cases r)
    case (Inr q)
    obtain folded pending where r: "r = Inr (folded, pending)" using Inr by (cases q) auto
    have H: "snap_node folded = apply_nodes (NodeState (MergeSegments segs)) (snap_node base)"
      "stacked NodeState (case pending of None \<Rightarrow> [] | Some p \<Rightarrow> [p]) = Map.empty" using 1 unfolding r by auto
    note same = folded_same_graph [OF wf d segs H]
    have "NodeState p = Map.empty" if "pending = Some p" for p using H(2) that by (simp add: stacked_def)
    then show ?thesis using 1 same unfolding r by simp
  qed (use 1 in simp)
qed

text \<open>
  C6. A fold keeps the graph. For a well-formed base and well-formed segments that fit,
  \<open>FoldWithPendingEdges\<close> returns without a panic, and fails only when the property tables overflow.
  Otherwise its snapshot is well formed, keeps the lineage and the multi-graph flag, and under every
  tail of later segments the folded base with the pending segment has exactly the nodes and the
  visible edges of the original stack with that tail, provided no later segment brings a tombstoned
  node id back (database ids are never reused).
\<close>

theorem fold_refines_stack:
  assumes "snap_ok base" and "\<forall>s \<in> set segs. seg_ok s" and "fold_fits base (MergeSegments segs)"
  shows "ok (FoldWithPendingEdges base segs) (\<lambda>r. case r of Inl err \<Rightarrow> capacity_error err
    | Inr (folded, pending) \<Rightarrow> snap_ok folded \<and> (\<forall>p. pending = Some p \<longrightarrow> seg_ok p) \<and>
        MultiGraph folded = MultiGraph base \<and> WatermarkLineage folded = WatermarkLineage base \<and>
        (\<forall>tail. (\<forall>i. gone_in segs i \<longrightarrow> view_nodes (stacked_view base (segs @ tail)) i = None) \<longrightarrow>
           view_nodes (folded_view (folded, pending) tail) = view_nodes (stacked_view base (segs @ tail)) \<and>
           view_edges (folded_view (folded, pending) tail) = view_edges (stacked_view base (segs @ tail))))"
  by (rule ok_mono [OF fold_refines [OF assms]]) (auto split: sum.splits)

section \<open>An example fold\<close>

text \<open>A commit on the example base, then a commit whose edge names a node that has not arrived.\<close>

definition example_pending :: "stage list" where
  "example_pending = [StageEdge 72 9 40 3]"

definition example_segs :: "Segment list" where
  "example_segs = [seg_Build (the (stage_run example_ops)), seg_Build (the (stage_run example_pending))]"

lemma example_pending_run: "stage_run example_pending = Some (the (stage_run example_pending))" "\<forall>op \<in> set example_pending. stage_names_ok op"
  by (simp_all add: example_pending_def stage_run_def)

lemma example_segs_states:
  "\<forall>s \<in> set example_segs. seg_ok s"
  "map_option state_rec (stacked NodeState example_segs i) = (if i = 12 then Some (NodeIs [2] (parsedBag []) None) else if i = 5 then Some NodeGone else None)"
  "stacked EdgeState example_segs = [71 \<mapsto> \<lparr>eTombstoned = False, StartID = 9, EndID = 12, eKind = 3\<rparr>, 72 \<mapsto> \<lparr>eTombstoned = False, StartID = 9, EndID = 40, eKind = 3\<rparr>]"
proof -
  note a = seg_Build_states [OF stage_run_inv [OF example_ops_run]] and b = seg_Build_states [OF stage_run_inv [OF example_pending_run]]
  show "\<forall>s \<in> set example_segs. seg_ok s" using seg_Build_ok [OF example_ops_run] seg_Build_ok [OF example_pending_run] by (simp add: example_segs_def)
  have "NodeState (seg_Build (the (stage_run example_pending))) = Map.empty" using b(2) by (auto simp: example_pending_def fun_eq_iff)
  then show "map_option state_rec (stacked NodeState example_segs i) = (if i = 12 then Some (NodeIs [2] (parsedBag []) None) else if i = 5 then Some NodeGone else None)"
    using a(2) [of i] by (auto simp: example_segs_def stacked_def example_ops_def bagObjectID_def parsedBag_def [abs_def])
  show "stacked EdgeState example_segs = [71 \<mapsto> \<lparr>eTombstoned = False, StartID = 9, EndID = 12, eKind = 3\<rparr>, 72 \<mapsto> \<lparr>eTombstoned = False, StartID = 9, EndID = 40, eKind = 3\<rparr>]"
    unfolding example_segs_def stacked_def using a(3) b(3) by (simp add: example_ops_def example_pending_def fun_eq_iff map_add_def)
qed

lemma example_segs_view:
  "view_nodes (stacked_view example_base example_segs) = [9 \<mapsto> ([1, 2], parsedBag []), 12 \<mapsto> ([2], parsedBag [])]"
  "view_raw (stacked_view example_base example_segs) = [70 \<mapsto> (5, 9, 3), 71 \<mapsto> (9, 12, 3), 72 \<mapsto> (9, 40, 3)]"
  "gone_in example_segs i \<longleftrightarrow> i = 5"
proof -
  have bag: "(\<lambda>name. Option.bind (PropValueByName st name) id) = bag_of (st_tables st) (st_entries st)"
    if "stacked NodeState example_segs i = Some st" "\<not> Tombstoned st" for i st
    using stacked_st_wf [OF example_segs_states(1) that(1)] that(2) bag_of_value by (auto simp: st_wf_def PropValueByName_def fun_eq_iff)
  show "view_nodes (stacked_view example_base example_segs) = [9 \<mapsto> ([1, 2], parsedBag []), 12 \<mapsto> ([2], parsedBag [])]"
  proof
    fix i
    show "view_nodes (stacked_view example_base example_segs) i = [9 \<mapsto> ([1, 2], parsedBag []), 12 \<mapsto> ([2], parsedBag [])] i"
      using example_segs_states(2) [of i] bag [of i]
      by (cases "stacked NodeState example_segs i") (auto simp: view_nodes_def stacked_view_def node_states_def apply_nodes_def example_base_ok(3) example_nodes_def
          node_of_def state_rec_def st_desc_def split: if_splits)
  qed
  show "view_raw (stacked_view example_base example_segs) = [70 \<mapsto> (5, 9, 3), 71 \<mapsto> (9, 12, 3), 72 \<mapsto> (9, 40, 3)]"
    by (auto simp: view_raw_def stacked_view_def edge_states_def example_segs_states(3) apply_edges_def example_base_ok(4) fun_eq_iff)
  show "gone_in example_segs i \<longleftrightarrow> i = 5"
    using example_segs_states(2) [of i] by (cases "stacked NodeState example_segs i") (auto simp: gone_in_def state_rec_def split: if_splits)
qed

lemma EdgeCount_dom:
  assumes "snap_ok s" and "finite D" and "dom (snap_edge s) \<subseteq> D"
  shows "EdgeCount s \<le> card D"
proof -
  obtain out inn kr pr where "snap_wf s out inn kr pr" and d: "distinct (OutEdgeIDs s)" using assms(1) unfolding snap_ok_def by blast
  then have rep: "snap_rep s out inn" by (simp add: snap_wf_def)
  have len: "length (OutEdgeIDs s) = EdgeCount s" using rep unfolding snap_rep_def EdgeCount_def by (metis length_map)
  have "snap_edge s (OutEdgeIDs s ! j) \<noteq> None" if "j < EdgeCount s" for j
    using EdgeByID_iff [OF rep d, of "OutEdgeIDs s ! j" j] that by (simp add: snap_edge_def)
  then have "set (OutEdgeIDs s) \<subseteq> D" using assms(3) by (force simp: in_set_conv_nth len)
  then show ?thesis using distinct_card [OF d] len card_mono [OF assms(2)] by metis
qed

text \<open>A fold fits when the graph it folds is small enough.\<close>

lemma parsedBag_size: "distinct (map pp_name pps) \<Longrightarrow> length pps = card (dom (parsedBag pps))"
proof -
  assume d: "distinct (map pp_name pps)"
  have "parsedBag pps name \<noteq> None \<longleftrightarrow> name \<in> set (map pp_name pps)" for name
    by (cases "find (\<lambda>pp. pp_name pp = name) pps") (auto simp: parsedBag_def find_None_iff dest: find_SomeD)
  then have "dom (parsedBag pps) = set (map pp_name pps)" by (auto simp: domIff)
  then show ?thesis using distinct_card [OF d] by simp
qed

lemma fold_fits_small:
  assumes base: "snap_ok base" and segs: "\<forall>s \<in> set segs. seg_ok s" and n: "card (dom (view_nodes (stacked_view base segs))) \<le> n"
    and c: "\<And>i ks bag. view_nodes (stacked_view base segs) i = Some (ks, bag) \<Longrightarrow> length ks \<le> c \<and> card (dom bag) \<le> c"
    and fit: "n \<le> 2 ^ 32" "n * c < 2 ^ 32" "EdgeCount base + card (dom (stacked EdgeState segs)) < 2 ^ 32"
  shows "fold_fits base (MergeSegments segs)"
proof -
  let ?m = "MergeSegments segs" and ?ns = "folded_nodes base (MergeSegments segs)"
  obtain out inn kr pr where wf: "snap_wf base out inn kr pr" using base unfolding snap_ok_def by blast
  have "\<forall>s \<in> set segs. seg_wf s" using segs by (simp add: seg_ok_def)
  note m = merge_maps [OF this]
  have "\<forall>i s. NodeState ?m i = Some s \<longrightarrow> st_wf s" using stacked_st_wf [OF segs] by (simp add: m(1))
  note props = folded_nodes_props [OF wf m(4) this]
  have nodes: "apply_nodes (NodeState ?m) (snap_node base) = view_nodes (stacked_view base segs)"
    by (simp add: view_nodes_def stacked_view_def node_states_def m(1))
  have d: "distinct (map fst ?ns)" using props(2) by (simp only: strict_sorted_iff)
  then have len: "length ?ns \<le> n" using distinct_card [of "map fst ?ns"] props(4) n by (simp add: nodes)
  have each: "length ks \<le> c \<and> length pps \<le> c" if x: "(i, ks, pps) \<in> set ?ns" for i ks pps
  proof -
    have "node_of (i, ks, pps) \<in> set (map node_of ?ns)" using x by (simp only: set_map imageI)
    moreover have "distinct (map fst (map node_of ?ns))" using d by (simp add: comp_def)
    ultimately have "map_of (map node_of ?ns) i = Some (ks, parsedBag pps)" using map_of_is_SomeI by (metis (no_types) node_of_def prod.case)
    then have "view_nodes (stacked_view base segs) i = Some (ks, parsedBag pps)" by (simp only: props(1) nodes)
    moreover have "length pps = card (dom (parsedBag pps))" using props(3) x by (intro parsedBag_size) auto
    ultimately show ?thesis using c by simp
  qed
  have le: "sum_list (map f ?ns) \<le> n * c" if "\<And>x. x \<in> set ?ns \<Longrightarrow> f x \<le> c" for f
  proof -
    have "sum_list (map f ?ns) \<le> sum_list (map (\<lambda>_. c) ?ns)" using that by (rule sum_list_mono)
    also have "\<dots> \<le> n * c" using len by (simp add: sum_list_triv)
    finally show ?thesis .
  qed
  have "sum_list (map (\<lambda>(i, ks, pps). length ks) ?ns) \<le> n * c" "sum_list (map (\<lambda>(i, ks, pps). length pps) ?ns) \<le> n * c"
    using each by (intro le; fastforce)+
  moreover have "seg_EdgeCount ?m = card (dom (stacked EdgeState segs))"
    using seg_wf_ids(4,6) [OF m(4)] m(2) by (simp add: seg_EdgeCount_def flip: distinct_card)
  ultimately show ?thesis using len fit by (simp add: fold_fits_def)
qed

lemma example_edges: "EdgeCount example_base \<le> 1"
  using EdgeCount_dom [OF example_base_ok(1), of "{70}"] example_base_ok(4) by simp

lemma example_fits: "fold_fits example_base (MergeSegments example_segs)"
proof (rule fold_fits_small [OF example_base_ok(1) example_segs_states(1), where n = 2 and c = 2])
  show "card (dom (view_nodes (stacked_view example_base example_segs))) \<le> 2" by (simp add: example_segs_view)
  show "length ks \<le> 2 \<and> card (dom bag) \<le> 2" if "view_nodes (stacked_view example_base example_segs) i = Some (ks, bag)" for i ks bag
    using that by (auto simp: example_segs_view parsedBag_def [abs_def] split: if_splits)
  have "dom (stacked EdgeState example_segs) = {71, 72}" unfolding example_segs_states(3) by auto
  then show "EdgeCount example_base + card (dom (stacked EdgeState example_segs)) < 2 ^ 32" using example_edges by simp
qed simp_all

theorem fold_refines_stack_witness:
  "ok (FoldWithPendingEdges example_base example_segs) (\<lambda>r. case r of Inl err \<Rightarrow> capacity_error err
    | Inr (folded, pending) \<Rightarrow> view_nodes (folded_view (folded, pending) []) 12 = Some ([2], parsedBag []) \<and>
        view_edges (folded_view (folded, pending) []) = [71 \<mapsto> (9, 12, 3)])"
proof -
  have gone: "\<forall>i. gone_in example_segs i \<longrightarrow> view_nodes (stacked_view example_base (example_segs @ [])) i = None" by (simp add: example_segs_view)
  have "view_edges (stacked_view example_base example_segs) = [71 \<mapsto> (9, 12, 3)]"
    by (auto simp: view_edges_def example_segs_view both_in_def fun_eq_iff)
  then show ?thesis
    by (intro ok_mono [OF fold_refines_stack [OF example_base_ok(1) example_segs_states(1) example_fits]])
      (use gone in \<open>auto split: sum.splits simp: example_segs_view dest!: spec [of _ "[]"]\<close>)
qed

section \<open>A delta that a fold cannot shrink\<close>

lemma unresolvable_edge:
  assumes wf: "snap_wf base out inn kr pr" and nodes: "NodeState m = Map.empty"
  shows "edge_pending base m st \<longleftrightarrow> \<not> eTombstoned st \<and> \<not> (snap_node base (StartID st) \<noteq> None \<and> snap_node base (EndID st) \<noteq> None)"
proof -
  have "apply_nodes (NodeState m) (snap_node base) = snap_node base" by (simp add: nodes apply_nodes_def fun_eq_iff)
  then show ?thesis using fate_iff [OF wf, of m] by (auto simp: edge_pending_def edge_live_def edge_gone_def nodes domIff)
qed

text \<open>
  \<open>DeltaHoldsOnlyUnresolvableEdges\<close> recognizes exactly the deltas that a fold hands back in full.
  For a well-formed view whose delta has no node record, folding succeeds or overflows the property
  tables, and the pending segment it returns has exactly the delta's edge records, and at least one,
  if and only if the predicate holds.
\<close>

theorem unresolvable_delta_is_carried:
  assumes "view_wf v" and "node_states v = Map.empty" and "fold_fits (v_base v) (MergeSegments (v_segments v))"
  shows "ok (FoldWithPendingEdges (v_base v) (v_segments v)) (\<lambda>r. case r of Inl err \<Rightarrow> capacity_error err
    | Inr (folded, pending) \<Rightarrow> DeltaHoldsOnlyUnresolvableEdges v \<longleftrightarrow>
        edge_states v \<noteq> Map.empty \<and> stacked EdgeState (case pending of None \<Rightarrow> [] | Some p \<Rightarrow> [p]) = edge_states v)"
proof -
  let ?base = "v_base v" and ?m = "MergeSegments (v_segments v)"
  have ok: "snap_ok ?base" "\<forall>s \<in> set (v_segments v). seg_ok s" using assms(1) by (simp_all add: view_wf_def)
  obtain out inn kr pr where wf: "snap_wf ?base out inn kr pr" using ok(1) unfolding snap_ok_def by blast
  note m = merge_maps [OF seg_wfs [OF assms(1)]]
  have st: "NodeState ?m = Map.empty" "EdgeState ?m = edge_states v" using assms(2) m(1,2) by (simp_all add: node_states_def edge_states_def)
  have nodes: "view_nodes v = snap_node ?base" by (simp add: view_nodes_def assms(2) apply_nodes_def fun_eq_iff)
  have pend: "edge_pending ?base ?m s \<longleftrightarrow> \<not> eTombstoned s \<and> view_edges v e = None" if "edge_states v e = Some s" for e s
    using that unresolvable_edge [OF wf st(1), of s] by (auto simp: view_edges_def view_raw_def apply_edges_def both_in_def nodes domIff)
  have eq: "DeltaHoldsOnlyUnresolvableEdges v \<longleftrightarrow> edge_states v \<noteq> Map.empty \<and>
      (\<forall>e. (case edge_states v e of Some s \<Rightarrow> if edge_pending ?base ?m s then Some s else None | None \<Rightarrow> None) = edge_states v e)"
    unfolding DeltaHolds_exact [OF assms(1)] using assms(2) pend by (auto split: option.split)
  show ?thesis
    by (rule ok_mono [OF FoldWithPendingEdges_ok [OF ok assms(3)]]) (auto simp: eq st(2) fun_eq_iff split: sum.splits)
qed

text \<open>The example base under one commit whose edge names a node that never arrives.\<close>

definition example_carried :: View where
  "example_carried = stacked_view example_base [seg_Build (the (stage_run example_pending))]"

lemma example_carried_ok:
  "view_wf example_carried" "node_states example_carried = Map.empty"
  "edge_states example_carried = [72 \<mapsto> \<lparr>eTombstoned = False, StartID = 9, EndID = 40, eKind = 3\<rparr>]"
  "fold_fits (v_base example_carried) (MergeSegments (v_segments example_carried))"
proof -
  let ?s = "seg_Build (the (stage_run example_pending))"
  note st = seg_Build_states [OF stage_run_inv [OF example_pending_run]] and ok = seg_Build_ok [OF example_pending_run]
  show nodes: "node_states example_carried = Map.empty"
    using st(2) by (auto simp: example_carried_def stacked_view_def node_states_def stacked_def example_pending_def fun_eq_iff)
  show edges: "edge_states example_carried = [72 \<mapsto> \<lparr>eTombstoned = False, StartID = 9, EndID = 40, eKind = 3\<rparr>]"
    using st(3) by (simp add: example_carried_def stacked_view_def edge_states_def stacked_def example_pending_def)
  have "length (virtualPgIDs example_carried) \<le> card ({} :: nat set)"
    using nodes ok by (intro virtual_count) (auto simp: example_carried_def stacked_view_def seg_ok_def)
  then show "view_wf example_carried" using example_base_ok(1,2) ok
    by (simp add: view_wf_def example_carried_def stacked_view_def v_NodeCount_def NodeCount_def)
  have graph: "view_nodes (stacked_view example_base [?s]) = map_of (map node_of example_nodes)"
    using nodes by (simp add: view_nodes_def example_carried_def stacked_view_def example_base_ok(3) apply_nodes_def fun_eq_iff)
  show "fold_fits (v_base example_carried) (MergeSegments (v_segments example_carried))"
    unfolding example_carried_def stacked_view_def View.simps
  proof (rule fold_fits_small [where n = 2 and c = 2])
    have bag: "card (dom (parsedBag pps)) \<le> 2" if "distinct (map pp_name pps)" "length pps \<le> 2" for pps
      using parsedBag_size [OF that(1)] that(2) by simp
    show "card (dom (view_nodes (stacked_view example_base [?s]))) \<le> 2" by (simp add: graph example_nodes_def node_of_def)
    show "length ks \<le> 2 \<and> card (dom bag) \<le> 2" if "view_nodes (stacked_view example_base [?s]) i = Some (ks, bag)" for i ks bag
      using that bag unfolding graph by (auto simp: example_nodes_def node_of_def split: if_splits)
    have "stacked EdgeState [?s] = edge_states example_carried" by (simp add: example_carried_def stacked_view_def edge_states_def)
    then have "dom (stacked EdgeState [?s]) = {72}" by (simp only: edges) simp
    then show "EdgeCount example_base + card (dom (stacked EdgeState [?s])) < 2 ^ 32" using example_edges by simp
  qed (use example_base_ok(1) ok in simp_all)
qed

theorem unresolvable_delta_is_carried_witness:
  "ok (FoldWithPendingEdges (v_base example_carried) (v_segments example_carried)) (\<lambda>r. case r of Inl err \<Rightarrow> capacity_error err
    | Inr (folded, pending) \<Rightarrow> DeltaHoldsOnlyUnresolvableEdges example_carried \<longleftrightarrow>
        stacked EdgeState (case pending of None \<Rightarrow> [] | Some p \<Rightarrow> [p]) = [72 \<mapsto> \<lparr>eTombstoned = False, StartID = 9, EndID = 40, eKind = 3\<rparr>])"
  by (rule ok_mono [OF unresolvable_delta_is_carried [OF example_carried_ok(1,2,4)]]) (auto simp: example_carried_ok(3) split: sum.splits)

end
