(* ===== verification/FileRoundtrip.thy ===== *)
theory FileRoundtrip
  imports SnapCodec Fold
begin

text \<open>
  What a snapshot file promises: a written snapshot reads back, an interrupted write leaves the old
  file, and the header read on its own agrees with the full read.
\<close>

section \<open>Round trip\<close>

lemma crc32_lt: "crc32 bs < 2 ^ 32"
  using unsigned_less [of "not (fold crc32_byte bs 0xFFFFFFFF)", where 'a = nat] by (simp add: crc32_def)

text \<open>The two runs behind a read: of the header, and of the fields from where the header ended.\<close>

definition start :: "bytes \<Rightarrow> bytes \<Rightarrow> binReader" where
  "start bs raw = \<lparr>br_in = raw, br_seen = [], br_err = None, br_limited = True,
     br_remaining = int (length bs) - int (length snapshotMagic) - 4\<rparr>"

lemma written_runs:
  assumes wf: "snap_wf s out inn kr pr" and r: "file_ranges s" and k: "kinds_ok (sKinds s)" and st: "stamp_ok stmp"
    and kt: "NewKindTable (kind_pairs (sKinds s)) = Some kt"
  defines "crc \<equiv> le 4 (crc32 (enc_body s stmp))" and "bs \<equiv> file_bytes (enc_body s stmp)"
  obtains br1 br2 where "readMagic bs = Inr (enc_body s stmp @ crc)"
    and "run_state readHeader (start bs (enc_body s stmp @ crc)) = (Inr (header_of s stmp), br1)"
    and "run_state (readFields (header_of s stmp)) br1 =
      ((Some (Some kt), Some (raw_of (sProps s)), \<lambda>kt p. (bare s)\<lparr>sKinds := kt, sProps := p\<rparr>), br2)"
    and "br_err br2 = None" and "br_in br2 = crc" and "br_seen br2 = enc_body s stmp"
proof -
  define br where "br = start bs (enc_body s stmp @ crc)"
  define br1 where "br1 = br\<lparr>br_in := enc_fields s @ crc, br_seen := enc_header s stmp, br_remaining := int (length (enc_fields s))\<rparr>"
  have rem: "br_remaining br = int (length (enc_body s stmp))" by (simp add: br_def start_def bs_def file_bytes_def)
  have "run_state readHeader br = (Inr (header_of s stmp), br1)"
    using reads_header [OF st, of s, unfolded reads_def, rule_format, of br "enc_fields s @ crc"] r rem
    by (simp add: br_def start_def br1_def enc_body_def file_ranges_def)
  moreover have "run_state (readFields (header_of s stmp)) br1 =
      ((Some (Some kt), Some (raw_of (sProps s)), \<lambda>kt p. (bare s)\<lparr>sKinds := kt, sProps := p\<rparr>),
       br1\<lparr>br_in := crc, br_seen := enc_body s stmp, br_remaining := 0\<rparr>)"
    using reads_fields [OF wf r k, of stmp, unfolded reads_def, rule_format, of br1 crc] kt by (simp add: br1_def br_def start_def enc_body_def)
  moreover have "readMagic bs = Inr (enc_body s stmp @ crc)" by (simp add: readMagic_def bs_def file_bytes_def crc_def)
  ultimately show ?thesis using that unfolding br_def by (simp add: br1_def br_def start_def)
qed

lemma read_written:
  assumes s: "storable s" and st: "stamp_ok stmp"
  shows "\<exists>kt. ReadSnapshotFile (file_bytes (enc_body s stmp)) = Inr (s\<lparr>sKinds := kt\<rparr>, stmp) \<and> same_kinds (sKinds s) kt"
proof -
  obtain out inn kr pr where wf: "snap_wf s out inn kr pr" using s by (auto simp: storable_def snap_ok_def)
  have fin: "finalizeDerived s = Some s" and r: "file_ranges s" and k: "kinds_ok (sKinds s)" using s by (simp_all add: storable_def)
  obtain kt where kt: "NewKindTable (kind_pairs (sKinds s)) = Some kt" "same_kinds (sKinds s) kt" using kinds_reread(2) [OF k] by (auto simp: ok_iff)
  obtain br1 br2 where run: "readMagic (file_bytes (enc_body s stmp)) = Inr (enc_body s stmp @ le 4 (crc32 (enc_body s stmp)))"
    "run_state readHeader (start (file_bytes (enc_body s stmp)) (enc_body s stmp @ le 4 (crc32 (enc_body s stmp)))) = (Inr (header_of s stmp), br1)"
    "run_state (readFields (header_of s stmp)) br1 =
      ((Some (Some kt), Some (raw_of (sProps s)), \<lambda>kt p. (bare s)\<lparr>sKinds := kt, sProps := p\<rparr>), br2)"
    and br2: "br_err br2 = None" "br_in br2 = le 4 (crc32 (enc_body s stmp))" "br_seen br2 = enc_body s stmp"
    using written_runs [OF wf r k st kt(1)] by blast
  have mk: "(bare s)\<lparr>sKinds := kt, sProps := store_of (raw_of (sProps s))\<rparr> = (bare s)\<lparr>sKinds := kt\<rparr>"
    by (simp add: store_of_raw bare_def)
  have v: "validateSnapshotStructure ((bare s)\<lparr>sKinds := kt\<rparr>) (Some (raw_of (sProps s)))"
    by (rule snap_validates [OF wf r]) (simp_all add: bare_def)
  have c: "unle (le 4 (crc32 (enc_body s stmp))) = crc32 (enc_body s stmp)" using crc32_lt by (simp add: unle_le)
  have "ReadSnapshotFile (file_bytes (enc_body s stmp)) = Inr (s\<lparr>sKinds := kt\<rparr>, stmp)"
    unfolding ReadSnapshotFile_def run(1) sum.case start_def [symmetric] Let_def run(2) prod.case run(3)
    using c by (simp add: mk v finalizeDerived_bare fin br2) (simp add: header_of_def)
  then show ?thesis using kt(2) by blast
qed

section \<open>Built snapshots can be stored\<close>

lemma finalizePropStore_keeps:
  "finalizePropStore p n = Some p' \<Longrightarrow> ps_entries p' = ps_entries p \<and> ps_nodeOffsets p' = ps_nodeOffsets p \<and>
     propArena (ps_table p') = propArena (ps_table p) \<and> propNames (ps_table p') = propNames (ps_table p)"
  by (auto simp: finalizePropStore_def Let_def bind_eq_Some_conv split: option.splits)

lemma Build_fields:
  assumes "Build b = Some s"
  shows "GraphID s = b_graphID b \<and> GraphIDs s = b_ids b \<and> WatermarkLineage s = replicate 16 0 \<and> NodeKinds s = b_kindsFlat b \<and>
    DroppedEdges s \<le> length (b_edges b) \<and> ps_entries (sProps s) = b_propEntries b \<and>
    propNames (ps_table (sProps s)) = propNames (b_props b) \<and> propArena (ps_table (sProps s)) = propArena (b_props b) \<and> NewKindTable (b_kindTable b) = Some (sKinds s)"
  using assms finalizePropStore_keeps
  by (auto simp: Build_def Let_def bind_eq_Some_conv denseEdges_eq finalizeDerived_def case_prod_unfold)

lemma storable_built:
  assumes b: "Build b = Some s" and s: "snap_ok s" and g: "- (2 ^ 31) \<le> b_graphID b" "b_graphID b < 2 ^ 31"
    and ids: "list_all (\<lambda>i. i < 2 ^ 64) (b_ids b)" and ks: "list_all int16 (b_kindsFlat b)" "length (b_kindsFlat b) < 2 ^ 32"
    and es: "length (b_edges b) < 2 ^ 32" "\<And>e x y k. snap_edge s e = Some (x, y, k) \<Longrightarrow> e < 2 ^ 64 \<and> int16 k"
    and ps: "length (b_propEntries b) < 2 ^ 32 - 1" "list_all (\<lambda>x. length x < 2 ^ 32) (propNames (b_props b))"
    and kt: "distinct (map fst (b_kindTable b))" "distinct (map snd (b_kindTable b))"
      "list_all (\<lambda>(i, name). 0 \<le> i \<and> i < 2 ^ 15 \<and> name \<noteq> [] \<and> length name < 2 ^ 32) (b_kindTable b)"
  shows "storable s"
proof -
  note f = Build_fields [OF b]
  obtain out inn kr pr where wf: "snap_wf s out inn kr pr" and d: "distinct (OutEdgeIDs s)" using s by (auto simp: snap_ok_def)
  then have rep: "snap_rep s out inn" by (simp add: snap_wf_def)
  have out: "OutKinds s = map (fst \<circ> snd) (slots_of out (NodeCount s))" "OutEdgeIDs s = map (snd \<circ> snd) (slots_of out (NodeCount s))"
    using rep unfolding snap_rep_def by blast+
  have slot: "e < 2 ^ 64 \<and> int16 k" if m: "(t, k, e) \<in> set (slots_of out (NodeCount s))" for t k e
  proof -
    obtain u where "u < NodeCount s" "(t, k, e) \<in> set (out u)" using m by (auto simp: slots_in)
    then have "snap_edge s e = Some (GraphIDs s ! u, GraphIDs s ! t, k)" using snap_edge_iff [OF rep d] by blast
    then show ?thesis by (rule es(2))
  qed
  then have "\<forall>x \<in> set (OutEdgeIDs s). x < 2 ^ 64" "\<forall>k \<in> set (OutKinds s). int16 k" unfolding out by fastforce+
  moreover have "DroppedEdges s < 2 ^ 63" using conjunct1 [OF conjunct2 [OF conjunct2 [OF conjunct2 [OF conjunct2 [OF f]]]]] es(1) by simp
  ultimately have "file_ranges s" using f g ids ks ps unfolding file_ranges_def list_all_iff
    by (auto simp only: Un_iff ball_Un length_replicate intro: order.strict_trans1)
  moreover have "kinds_ok (sKinds s)" using f kt unfolding kinds_ok_def list_all_iff by blast
  ultimately show ?thesis using s Build_derived [OF b] by (simp add: storable_def)
qed

text \<open>The small graph of the earlier examples, and a directory in which every step of a write succeeds.\<close>

definition example_builder :: Builder where
  "example_builder = SetKinds (fold (\<lambda>(i, x, y, k) b. AddEdge b i x y k) [(70, 5, 9, 3), (71, 9, 12, 3)]
     (snd (stage_nodes (NewBuilder 1) example_nodes))) [(1, ''User''), (2, ''Computer''), (3, ''MemberOf'')]"

definition example_write_env :: write_env where
  "example_write_env = \<lparr>we_temp = Some ''.snap-1'', we_io = (\<lambda>_. None), we_fails = (\<lambda>_. False), we_partial = [],
     we_dir = \<lparr>de_windows = False, de_open = None, de_sync = None, de_close = None\<rparr>\<rparr>"

definition example_stamp :: stamp where "example_stamp = \<lparr>st_Watermark = 7, st_NodeIDSeq = 12, st_EdgeIDSeq = 71\<rparr>"

lemma example_stored: "storable example_base" "stamp_ok example_stamp"
proof -
  have fields: "b_graphID example_builder = 1" "b_ids example_builder = [5, 9]" "b_kindsFlat example_builder = [1, 1, 2]"
    "length (b_edges example_builder) = 2" "length (b_propEntries example_builder) = 1" "propNames (b_props example_builder) = [''objectid'']"
    "b_kindTable example_builder = [(1, ''User''), (2, ''Computer''), (3, ''MemberOf'')]"
    by (simp_all add: example_builder_def example_nodes_def addParsedNode_def not_ascending_def NewBuilder_def commitNodeProps_def commitProps_def
        commitOne_def internProp_def emptyTable_def appendPropBytes_def maxPropID_def maxPropArena_def has_payload_def Let_def stageEntries_def
        stageIDKinds_def AddEdge_def SetKinds_def)
  obtain b where b: "stage_nodes (NewBuilder 1) example_nodes = (None, b)"
    by (simp add: example_nodes_def addParsedNode_def not_ascending_def NewBuilder_def commitNodeProps_def commitProps_def commitOne_def internProp_def
        emptyTable_def appendPropBytes_def maxPropID_def maxPropArena_def has_payload_def Let_def stageEntries_def stageIDKinds_def)
  have "ok (Build example_builder) (\<lambda>_. True)"
    using Build_staged [OF b, of "[(70, 5, 9, 3), (71, 9, 12, 3)]" "[(1, ''User''), (2, ''Computer''), (3, ''MemberOf'')]"]
    unfolding example_builder_def b snd_conv by (auto simp: fits_def example_nodes_def intro: ok_mono)
  then have built: "Build example_builder = Some example_base" by (auto simp: ok_iff example_base_def example_builder_def)
  show "storable example_base"
    by (rule storable_built [OF built example_base_ok(1)]; simp add: fields example_base_ok(4) split: if_splits)
  show "stamp_ok example_stamp" by (simp add: stamp_ok_def example_stamp_def)
qed

lemma finalizeDerived_stamps:
  "finalizeDerived (g\<lparr>MultiGraph := m, WatermarkLineage := l\<rparr>) = map_option (\<lambda>s. s\<lparr>MultiGraph := m, WatermarkLineage := l\<rparr>) (finalizeDerived g)"
  by (auto simp: finalizeDerived_def Let_def NodeCount_def split: Option.bind_splits)

lemma example_relineaged: "storable (example_base\<lparr>WatermarkLineage := l\<rparr>)" if "length l = 16"
proof -
  have s: "storable example_base" by (rule example_stored)
  have "finalizeDerived (example_base\<lparr>WatermarkLineage := l\<rparr>) = Some (example_base\<lparr>WatermarkLineage := l\<rparr>)"
    using finalizeDerived_stamps [where g = example_base and m = "MultiGraph example_base" and l = l] s by (simp add: storable_def)
  moreover have "snap_ok (example_base\<lparr>WatermarkLineage := l\<rparr>)"
    using snap_ok_stamps [where s = example_base and x = "MultiGraph example_base" and y = l] example_base_ok(1) by simp
  ultimately show ?thesis using s that by (simp add: storable_def file_ranges_def)
qed

lemma example_write:
  "WriteSnapshotFile example_write_env d path example_base example_stamp = (d(''.snap-1'' := None, path := Some (file_bytes (enc_body example_base example_stamp))), None)"
proof -
  define bw where "bw = snd (run_state (writeSnapshotBody (\<lambda>_. None) example_base example_stamp) \<lparr>bw_out = [], bw_calls = 0, bw_err = False\<rparr>)"
  have "\<not> bw_err bw \<and> bw_out bw = enc_body example_base example_stamp"
    using writes_body [of "\<lambda>_. None" example_base example_stamp, unfolded writes_def Let_def, THEN spec [of _ "\<lparr>bw_out = [], bw_calls = 0, bw_err = False\<rparr>"]]
    by (simp add: bw_def)
  then show ?thesis by (simp add: WriteSnapshotFile_def syncDir_def example_write_env_def Let_def flip: bw_def)
qed

lemma write_bytes:
  assumes "WriteSnapshotFile env d path s stmp = (d', err)" and "we_temp env = Some tmp"
  shows "d' = cleanupTemp env d tmp \<and> err \<noteq> None \<or> d' = d(tmp := None, path := Some (file_bytes (enc_body s stmp)))"
    and "err = None \<Longrightarrow> d' = d(tmp := None, path := Some (file_bytes (enc_body s stmp)))"
proof -
  define bw where "bw = snd (run_state (writeSnapshotBody (we_io env) s stmp) \<lparr>bw_out = [], bw_calls = 0, bw_err = False\<rparr>)"
  have "bw_out bw = enc_body s stmp" if "\<not> bw_err bw"
    using writes_body [of "we_io env" s stmp, unfolded writes_def Let_def, THEN spec [of _ "\<lparr>bw_out = [], bw_calls = 0, bw_err = False\<rparr>"]] that by (simp add: bw_def)
  then show "d' = cleanupTemp env d tmp \<and> err \<noteq> None \<or> d' = d(tmp := None, path := Some (file_bytes (enc_body s stmp)))"
    "err = None \<Longrightarrow> d' = d(tmp := None, path := Some (file_bytes (enc_body s stmp)))"
    using assms by (auto simp: WriteSnapshotFile_def Let_def bw_def [symmetric] split: if_splits)
qed

text \<open>
  C11. A snapshot file reads back as the snapshot it was written from. When \<open>WriteSnapshotFile\<close> returns
  without an error for a well-formed snapshot whose values fit the widths of the format,
  \<open>ReadSnapshotFile\<close> on the file it left at the path returns that snapshot, with every packed array and
  every derived index, its kind table (the same names by id and ids by name) and the stamp.
\<close>

theorem snapshot_file_roundtrip:
  assumes "storable s" and "stamp_ok stmp" and "WriteSnapshotFile env d path s stmp = (d', None)"
  shows "\<exists>bs kt. d' path = Some bs \<and> ReadSnapshotFile bs = Inr (s\<lparr>sKinds := kt\<rparr>, stmp) \<and> same_kinds (sKinds s) kt"
proof -
  obtain tmp where tmp: "we_temp env = Some tmp" using assms(3) by (cases "we_temp env") (auto simp: WriteSnapshotFile_def)
  have "d' path = Some (file_bytes (enc_body s stmp))" using write_bytes(2) [OF assms(3) tmp] by simp
  then show ?thesis using read_written [OF assms(1,2)] by blast
qed

theorem snapshot_file_roundtrip_witness:
  "\<exists>bs kt. (fst (WriteSnapshotFile example_write_env Map.empty ''graph.snap'' example_base example_stamp)) ''graph.snap'' = Some bs \<and>
     ReadSnapshotFile bs = Inr (example_base\<lparr>sKinds := kt\<rparr>, example_stamp) \<and> same_kinds (sKinds example_base) kt"
  using snapshot_file_roundtrip [OF example_stored example_write] by (simp add: example_write)

section \<open>Atomic replacement\<close>

text \<open>
  C12. Writing a snapshot file is atomic. Whichever step fails, or none, the path holds afterwards
  either exactly what it held before or a complete file that reads back as the snapshot; without an
  error it holds the new file, and no other file of the directory but the temporary one is touched.
\<close>

theorem WriteSnapshotFile_atomic:
  assumes "storable s" and "stamp_ok stmp" and "WriteSnapshotFile env d path s stmp = (d', err)" and "we_temp env = Some tmp" and "tmp \<noteq> path"
  shows "(d' path = d path \<and> err \<noteq> None \<or> (\<exists>bs kt. d' path = Some bs \<and> ReadSnapshotFile bs = Inr (s\<lparr>sKinds := kt\<rparr>, stmp))) \<and>
    (err = None \<longrightarrow> (\<exists>bs kt. d' path = Some bs \<and> ReadSnapshotFile bs = Inr (s\<lparr>sKinds := kt\<rparr>, stmp))) \<and>
    (\<forall>f. f \<noteq> path \<and> f \<noteq> tmp \<longrightarrow> d' f = d f) \<and> (\<not> we_fails env RemoveTemp \<longrightarrow> d' tmp = None)"
proof -
  obtain kt where "ReadSnapshotFile (file_bytes (enc_body s stmp)) = Inr (s\<lparr>sKinds := kt\<rparr>, stmp)" using read_written [OF assms(1,2)] by blast
  then have reread: "\<exists>bs kt. d' path = Some bs \<and> ReadSnapshotFile bs = Inr (s\<lparr>sKinds := kt\<rparr>, stmp)"
    if "d' = d(tmp := None, path := Some (file_bytes (enc_body s stmp)))" using that by auto
  consider (old) "d' = cleanupTemp env d tmp" "err \<noteq> None" | (new) "d' = d(tmp := None, path := Some (file_bytes (enc_body s stmp)))"
    using write_bytes(1) [OF assms(3,4)] by blast
  then show ?thesis
  proof cases
    case old
    then show ?thesis using assms(5) by (auto simp: cleanupTemp_def)
  next
    case new
    then show ?thesis using reread [OF new] assms(5) by simp
  qed
qed

theorem WriteSnapshotFile_atomic_witness:
  "(\<exists>bs kt. (fst (WriteSnapshotFile example_write_env Map.empty ''graph.snap'' example_base example_stamp)) ''graph.snap'' = Some bs \<and>
     ReadSnapshotFile bs = Inr (example_base\<lparr>sKinds := kt\<rparr>, example_stamp)) \<and>
   (fst (WriteSnapshotFile example_write_env Map.empty ''graph.snap'' example_base example_stamp)) ''.snap-1'' = None"
  using WriteSnapshotFile_atomic [OF example_stored example_write, of "''.snap-1''" "''graph.snap''" Map.empty]
  by (simp add: example_write) (simp add: example_write_env_def)

section \<open>More input\<close>

text \<open>
  A reader is monotone when a read that ends without an error returns the same with more input behind
  what it read, and with a larger budget or none at all.
\<close>

definition ahead :: "bytes \<Rightarrow> binReader \<Rightarrow> binReader \<Rightarrow> bool" where
  "ahead ext br u \<longleftrightarrow> br_in u = br_in br @ ext \<and> br_seen u = br_seen br \<and> br_err u = br_err br \<and>
     (br_limited u \<longrightarrow> br_limited br \<and> br_remaining br \<le> br_remaining u)"

definition monotone_reader :: "'a reader \<Rightarrow> bool" where
  "monotone_reader r \<longleftrightarrow> (\<forall>br br' v u ext. run_state r br = (v, br') \<and> br_err br' = None \<and> ahead ext br u \<longrightarrow>
     br_err br = None \<and> (\<exists>u'. run_state r u = (v, u') \<and> ahead ext br' u'))"

lemma monotoneD:
  assumes "monotone_reader r" and "run_state r br = (v, br')" and "br_err br' = None" and "ahead ext br u"
  shows "br_err br = None" and "\<exists>u'. run_state r u = (v, u') \<and> ahead ext br' u'"
  using assms unfolding monotone_reader_def by blast+

lemma ahead_refl: "ahead [] br br"
  by (simp add: ahead_def)

lemma monotone_bind:
  assumes r: "monotone_reader r" and f: "\<And>v. monotone_reader (f v)"
  shows "monotone_reader (r \<bind> f)"
  unfolding monotone_reader_def
proof (intro allI impI, elim conjE)
  fix br br' v u ext
  assume run: "run_state (r \<bind> f) br = (v, br')" and e: "br_err br' = None" and u: "ahead ext br u"
  obtain x br1 where 1: "run_state r br = (x, br1)" by fastforce
  have 2: "run_state (f x) br1 = (v, br')" using run 1 by simp
  have e1: "br_err br1 = None" using monotoneD(1) [OF f 2 e ahead_refl] .
  obtain u1 where u1: "run_state r u = (x, u1)" "ahead ext br1 u1" using monotoneD(2) [OF r 1 e1 u] by blast
  show "br_err br = None \<and> (\<exists>u'. run_state (r \<bind> f) u = (v, u') \<and> ahead ext br' u')"
    using monotoneD(1) [OF r 1 e1 u] monotoneD(2) [OF f 2 e u1(2)] u1(1) by simp
qed

lemma monotone_return: "monotone_reader (State_Monad.return v)"
  by (simp add: monotone_reader_def)

lemma monotone_failed: "monotone_reader br_failed"
  by (simp add: monotone_reader_def br_failed_def ahead_def)

lemma monotone_fail: "monotone_reader (br_fail msg)"
  by (auto simp: monotone_reader_def br_fail_def)

lemma monotone_read: "monotone_reader (br_read n)"
  by (auto simp: monotone_reader_def br_read_def ahead_def split: if_splits)

lemma monotone_claim: "monotone_reader (br_claim n w)"
proof -
  have mono: "\<not> nat b div w < n" if "\<not> nat a div w < n" "a \<le> b" for a b :: int
    using that by (meson div_le_mono nat_mono order_trans not_less)
  show ?thesis
    using mono by (fastforce simp: monotone_reader_def br_claim_def ahead_def simp del: not_less split: if_splits)
qed

lemma monotone_if: "monotone_reader x \<Longrightarrow> monotone_reader y \<Longrightarrow> monotone_reader (if b then x else y)"
  by simp

lemmas monotone_rules = monotone_bind monotone_return monotone_failed monotone_fail monotone_read monotone_claim monotone_if

lemma monotone_prims:
  "monotone_reader br_u8" "monotone_reader br_u16" "monotone_reader br_i16" "monotone_reader br_u32" "monotone_reader br_i32"
  "monotone_reader br_u64" "monotone_reader br_f64" "monotone_reader (br_bytes n)" "monotone_reader br_str" "monotone_reader (br_array w dec n)"
  unfolding br_u8_def br_u16_def br_i16_def br_u32_def br_i32_def br_u64_def br_f64_def br_bytes_def br_str_def br_array_def br_scalar_def
  by (intro monotone_rules)+

lemma monotone_arrays: "monotone_reader (br_u64s n)" "monotone_reader (br_u32s n)" "monotone_reader (br_i16s n)"
  unfolding br_u64s_def br_u32s_def br_i16s_def by (rule monotone_prims)+

lemma monotone_each: "monotone_reader r \<Longrightarrow> monotone_reader (read_each r n)"
  by (induction n) (auto intro!: monotone_rules)

lemmas monotone_parts = monotone_prims monotone_arrays monotone_each monotone_rules

lemma monotone_pairs: "monotone_reader (readKindPairs n pairs)"
  by (induction n pairs rule: readKindPairs.induct) (auto intro!: monotone_parts)

lemma monotone_header: "monotone_reader readHeader"
  unfolding readHeader_def by (intro monotone_parts)

lemma monotone_kinds: "monotone_reader readKindTable"
  unfolding readKindTable_def by (intro monotone_parts monotone_pairs)

lemma monotone_store: "monotone_reader (readPropStore n)"
  unfolding readPropStore_def readEntry_def by (intro monotone_parts)

lemma monotone_fields: "monotone_reader (readFields h)"
  unfolding readFields_def by (intro monotone_parts monotone_kinds monotone_store)

section \<open>The header alone\<close>

lemma accepted_parts:
  assumes acc: "ReadSnapshotFile bs = Inr (s, stmp)"
  shows "\<exists>raw h br1 kt p mk br2. readMagic bs = Inr raw \<and> run_state readHeader (start bs raw) = (Inr h, br1) \<and>
    run_state (readFields h) br1 = ((Some (Some kt), Some p, mk), br2) \<and> br_err br2 = None \<and> 4 \<le> length (br_in br2) \<and>
    validateSnapshotStructure (mk kt (store_of p)) (Some p) \<and> finalizeDerived (mk kt (store_of p)) = Some s \<and> stmp = h_Stamp h"
proof -
  obtain raw where raw: "readMagic bs = Inr raw" using acc by (cases "readMagic bs") (simp_all add: ReadSnapshotFile_def)
  obtain x br1 where 1: "run_state readHeader (start bs raw) = (x, br1)" by fastforce
  obtain h where x: "x = Inr h" using acc raw 1 by (cases x) (simp_all add: ReadSnapshotFile_def start_def)
  obtain kinds props mk br2 where 2: "run_state (readFields h) br1 = ((kinds, props, mk), br2)" by (metis prod_cases3 surj_pair)
  note run = acc [unfolded ReadSnapshotFile_def raw sum.case start_def [symmetric] Let_def 1 x prod.case 2]
  obtain kt where k: "kinds = Some (Some kt)" using run by (auto split: option.splits if_splits)
  obtain p where p: "props = Some p" using run by (auto split: option.splits if_splits)
  show ?thesis using raw 1 x 2 run unfolding k p by (auto split: option.splits if_splits)
qed

lemma fields_header:
  "run_state (readFields h) br = ((kinds, props, mk), br') \<Longrightarrow> GraphID (mk kt p) = h_GraphID h \<and> WatermarkLineage (mk kt p) = h_Lineage h \<and> sProps (mk kt p) = p"
  by (auto simp: readFields_def split: prod.splits)

lemma finalizeDerived_keeps: "finalizeDerived s = Some s' \<Longrightarrow> GraphID s' = GraphID s \<and> WatermarkLineage s' = WatermarkLineage s"
  by (auto simp: finalizeDerived_def Let_def bind_eq_Some_conv)

lemma accepted_header:
  assumes "ReadSnapshotFile bs = Inr (s, stmp)"
  shows "ReadSnapshotFileHeader bs = Inr \<lparr>h_GraphID = GraphID s, h_Lineage = WatermarkLineage s, h_Stamp = stmp\<rparr>"
proof -
  obtain raw h br1 kt p mk br2 where r: "readMagic bs = Inr raw" "run_state readHeader (start bs raw) = (Inr h, br1)"
    "run_state (readFields h) br1 = ((Some (Some kt), Some p, mk), br2)" "br_err br2 = None"
    "finalizeDerived (mk kt (store_of p)) = Some s" "stmp = h_Stamp h"
    using accepted_parts [OF assms] by blast
  have e: "br_err br1 = None" using monotoneD(1) [OF monotone_fields r(3,4) ahead_refl] .
  have "ahead [] (start bs raw) \<lparr>br_in = raw, br_seen = [], br_err = None, br_limited = False, br_remaining = 0\<rparr>"
    by (simp add: ahead_def start_def)
  from monotoneD(2) [OF monotone_header r(2) e this] have "ReadSnapshotFileHeader bs = Inr h"
    using r(1) by (auto simp: ReadSnapshotFileHeader_def)
  then show ?thesis using fields_header [OF r(3), of kt "store_of p"] finalizeDerived_keeps [OF r(5)] r(6) by simp
qed

text \<open>
  The header read on its own agrees with the full read: whenever \<open>ReadSnapshotFile\<close> accepts a file,
  \<open>ReadSnapshotFileHeader\<close>, which reads without a byte budget and verifies no checksum, returns the graph id
  and lineage of the snapshot the full read built and the stamp it returned.
\<close>

theorem snapshot_header_agrees:
  assumes "ReadSnapshotFile bs = Inr (s, stmp)"
  shows "ReadSnapshotFileHeader bs = Inr \<lparr>h_GraphID = GraphID s, h_Lineage = WatermarkLineage s, h_Stamp = stmp\<rparr>"
  by (rule accepted_header [OF assms])

theorem snapshot_header_agrees_witness:
  "ReadSnapshotFileHeader (file_bytes (enc_body example_base example_stamp)) =
     Inr \<lparr>h_GraphID = GraphID example_base, h_Lineage = WatermarkLineage example_base, h_Stamp = example_stamp\<rparr>"
  using read_written [OF example_stored] snapshot_header_agrees by fastforce

section \<open>Torn files\<close>

lemma longer_read:
  assumes acc: "ReadSnapshotFile bs = Inr (s, stmp)" and m: "readMagic (bs @ ext) = Inr raw"
    and h: "run_state readHeader (start (bs @ ext) raw) = (Inr h, u1)" and f: "run_state (readFields h) u1 = (v, u2)"
  shows "4 + length ext \<le> length (br_in u2)"
proof -
  obtain raw' h' br1 w br2 where r: "readMagic bs = Inr raw'" "run_state readHeader (start bs raw') = (Inr h', br1)"
    "run_state (readFields h') br1 = (w, br2)" "br_err br2 = None" "4 \<le> length (br_in br2)"
    using accepted_parts [OF acc] by blast
  have raw: "raw = raw' @ ext" using r(1) m by (auto simp: readMagic_def split: if_splits)
  have e: "br_err br1 = None" using monotoneD(1) [OF monotone_fields r(3,4) ahead_refl] .
  have a: "ahead ext (start bs raw') (start (bs @ ext) raw)" by (simp add: ahead_def start_def raw)
  have u1: "h = h'" "ahead ext br1 u1" using monotoneD(2) [OF monotone_header r(2) e a] h by auto
  then have "ahead ext br2 u2" using monotoneD(2) [OF monotone_fields r(3,4) u1(2)] f by auto
  then show ?thesis using r(5) by (simp add: ahead_def)
qed

lemma written_torn:
  assumes s: "storable s" and st: "stamp_ok stmp" and n: "n < length (file_bytes (enc_body s stmp))"
  shows "\<exists>e. ReadSnapshotFile (take n (file_bytes (enc_body s stmp))) = Inl e"
proof (rule ccontr)
  let ?bs = "file_bytes (enc_body s stmp)"
  assume "\<not> ?thesis"
  then obtain s' st' where acc: "ReadSnapshotFile (take n ?bs) = Inr (s', st')" by (metis old.sum.exhaust surj_pair)
  obtain out inn kr pr where wf: "snap_wf s out inn kr pr" using s by (auto simp: storable_def snap_ok_def)
  have r: "file_ranges s" and k: "kinds_ok (sKinds s)" using s by (simp_all add: storable_def)
  obtain kt where kt: "NewKindTable (kind_pairs (sKinds s)) = Some kt" using kinds_reread(2) [OF k] by (auto simp: ok_iff)
  obtain raw h br1 v br2 where run: "readMagic ?bs = Inr raw" "run_state readHeader (start ?bs raw) = (Inr h, br1)"
    "run_state (readFields h) br1 = (v, br2)" "br_in br2 = le 4 (crc32 (enc_body s stmp))"
    using written_runs [OF wf r k st kt] by metis
  have "4 + length (drop n ?bs) \<le> length (br_in br2)" using longer_read [OF acc, of "drop n ?bs"] run(1-3) by simp
  then show False using n run(4) by simp
qed

text \<open>
  C14. A torn file is refused. Of the file a completed write left, every strict prefix, cut at any byte, is
  refused with an error: no truncation of a snapshot file ever reads as a snapshot.
\<close>

theorem torn_file_refused:
  assumes "storable s" and "stamp_ok stmp" and "WriteSnapshotFile env d path s stmp = (d', None)" and "d' path = Some bs" and "n < length bs"
  shows "\<exists>e. ReadSnapshotFile (take n bs) = Inl e"
proof -
  obtain tmp where tmp: "we_temp env = Some tmp" using assms(3) by (cases "we_temp env") (auto simp: WriteSnapshotFile_def)
  have "bs = file_bytes (enc_body s stmp)" using write_bytes(2) [OF assms(3) tmp] assms(4) by simp
  then show ?thesis using written_torn [OF assms(1,2)] assms(5) by simp
qed

theorem torn_file_refused_witness:
  "\<exists>e. ReadSnapshotFile (butlast (file_bytes (enc_body example_base example_stamp))) = Inl e"
  using torn_file_refused [OF example_stored example_write, of Map.empty "''graph.snap''" _ "length (file_bytes (enc_body example_base example_stamp)) - 1"]
  by (simp add: butlast_conv_take) (simp add: file_bytes_def snapshotMagic_def)

section \<open>Accepted files\<close>

lemma valid_offsets:
  assumes v: "list_all (\<lambda>i. offs ! (i - 1) \<le> offs ! i) [1..<length offs]" and l: "length offs = n + 1" and last: "last offs \<le> length xs" and i: "i < n"
  shows "\<exists>r. row offs i xs = Some r \<and> length r = offs ! (i + 1) - offs ! i \<and> set r \<subseteq> set xs"
proof -
  have "sorted offs" unfolding sorted_iff_nth_Suc
  proof (intro allI impI)
    fix j assume "Suc j < length offs"
    then show "offs ! j \<le> offs ! Suc j" using v by (auto simp: list_all_iff dest: bspec [of _ _ "Suc j"])
  qed
  then have "offs ! i \<le> offs ! (i + 1)" "offs ! (i + 1) \<le> last offs" using l i
    by (auto simp: last_conv_nth sorted_iff_nth_mono simp flip: length_greater_0_conv)
  then show ?thesis using l i last by (auto simp: row_def idx_def slice_def dest: in_set_takeD in_set_dropD)
qed

text \<open>What finalising leaves alone.\<close>

lemma finalizeDerived_arrays:
  assumes "finalizeDerived s = Some s'"
  shows "GraphIDs s' = GraphIDs s" "OutOffsets s' = OutOffsets s" "OutTargets s' = OutTargets s" "OutKinds s' = OutKinds s"
    "InOffsets s' = InOffsets s" "InTargets s' = InTargets s" "InKinds s' = InKinds s" "KindOffsets s' = KindOffsets s" "NodeKinds s' = NodeKinds s"
    "ps_entries (sProps s') = ps_entries (sProps s)" "ps_nodeOffsets (sProps s') = ps_nodeOffsets (sProps s)"
    "propArena (ps_table (sProps s')) = propArena (ps_table (sProps s))"
  using assms finalizePropStore_keeps by (auto simp: finalizeDerived_def Let_def bind_eq_Some_conv)

lemma valid_decode:
  assumes "validateEntry p e" and "\<not> (e_kind (entry_of e) \<in> {propKindArray, propKindObject} \<and> 2 ^ 32 \<le> re_ref e + re_len e \<and> re_ref e + re_len e \<le> length (rs_arena p))"
  shows "\<exists>v. decode (rs_arena p) (entry_of e) = Some v"
proof -
  obtain k where k: "kind_of_byte (re_kind e) = Some k" "has_payload k \<longrightarrow> re_ref e + re_len e \<le> length (rs_arena p)"
    using assms(1) by (auto simp: validateEntry_def split: option.splits)
  have "u32 (re_ref e + re_len e) = re_ref e + re_len e" if "k \<in> {propKindArray, propKindObject}"
    using k assms(2) that by (intro u32_id) (auto simp: entry_of_def has_payload_def)
  then show ?thesis using k by (cases k) (simp_all add: decode_def entry_of_def has_payload_def)
qed

lemma entryByID_member: "entryByID es i = Some e \<Longrightarrow> e \<in> set es"
  by (auto simp: entryByID_def Let_def split: if_splits)

text \<open>The end of an entry is computed in uint32 when its list or object is sliced, and can wrap in an arena past 4 GiB.\<close>

definition end_wraps :: "PropStore \<Rightarrow> propEntry \<Rightarrow> bool" where
  "end_wraps p e \<longleftrightarrow> e \<in> set (ps_entries p) \<and> e_kind e \<in> {propKindArray, propKindObject} \<and>
     2 ^ 32 \<le> e_ref e + e_len e \<and> e_ref e + e_len e \<le> length (propArena (ps_table p))"

lemma valid_value:
  assumes v: "validatePropStore (Some p) n" and i: "i < n" and w: "\<forall>e. \<not> end_wraps (store_of p) e"
  shows "ps_Value (store_of p) i q \<noteq> None"
proof -
  have last: "last (rs_nodeOffsets p) \<le> length (rs_entries p)" using v by (simp add: validatePropStore_def validateOffsets32_def u32_def)
  obtain r where r: "row (rs_nodeOffsets p) i (map entry_of (rs_entries p)) = Some r" "set r \<subseteq> entry_of ` set (rs_entries p)"
    using valid_offsets [of "rs_nodeOffsets p" n "map entry_of (rs_entries p)" i] v last i
    by (auto simp: validatePropStore_def validateOffsets32_def)
  have "decode (rs_arena p) e \<noteq> None" if mem: "e \<in> set r" for e
  proof -
    obtain re where re: "re \<in> set (rs_entries p)" "e = entry_of re" using r(2) mem by auto
    have "validateEntry p re" using v re(1) by (simp add: validatePropStore_def list_all_iff)
    moreover have "\<not> end_wraps (store_of p) e" using w by blast
    ultimately show ?thesis using re valid_decode [of p re] by (auto simp: end_wraps_def store_of_def entry_of_def)
  qed
  then show ?thesis using r(1) entryByID_member by (auto simp: ps_Value_def store_of_def split: option.splits)
qed

text \<open>Validation passes such an entry, and reading it panics.\<close>

lemma wrapped_entry_panics:
  assumes "re_prop e < length (rs_names p)" and "kind_of_byte (re_kind e) = Some propKindArray" and "re_ref e = 2 ^ 32 - 1" and "re_len e = 2"
    and "2 ^ 32 < length (rs_arena p)"
  shows "validateEntry p e \<and> decode (rs_arena p) (entry_of e) = None"
  using assms by (simp add: validateEntry_def decode_def entry_of_def slice_def u32_def)

lemma valid_rows:
  assumes v: "validateSnapshotStructure s store" and n: "n < NodeCount s"
  shows "\<exists>ts ks. snap_Out s n = Some (ts, ks) \<and> length ts = length ks \<and> set ts \<subseteq> {..<NodeCount s}"
    and "\<exists>ts ks. snap_In s n = Some (ts, ks) \<and> length ts = length ks \<and> set ts \<subseteq> {..<NodeCount s}"
    and "\<exists>ks. row (KindOffsets s) n (NodeKinds s) = Some ks" and "sorted_wrt (<) (GraphIDs s)"
proof -
  have len: "length (OutOffsets s) = NodeCount s + 1" "length (InOffsets s) = NodeCount s + 1" "length (KindOffsets s) = NodeCount s + 1"
    "length (OutKinds s) = length (OutTargets s)" "length (InKinds s) = length (OutTargets s)" "length (InTargets s) = length (OutTargets s)"
    and tgt: "set (OutTargets s) \<subseteq> {..<NodeCount s}" "set (InTargets s) \<subseteq> {..<NodeCount s}"
    and o: "validateOffsets64 (OutOffsets s) (length (OutTargets s))" "validateOffsets64 (InOffsets s) (length (OutTargets s))"
      "validateOffsets32 (KindOffsets s) (length (NodeKinds s))"
    and asc: "list_all (\<lambda>i. GraphIDs s ! (i - 1) < GraphIDs s ! i) [1..<NodeCount s]"
    using v by (auto simp: validateSnapshotStructure_def Let_def list_all_iff NodeCount_def)
  have u: "u64 m \<le> m" "u32 m \<le> m" for m by (simp_all add: u64_def u32_def)
  note rows = valid_offsets [OF _ len(1) _ n] valid_offsets [OF _ len(2) _ n] valid_offsets [OF _ len(3) _ n]
  obtain r r' where r: "row (OutOffsets s) n (OutTargets s) = Some r" "row (OutOffsets s) n (OutKinds s) = Some r'"
    "length r = length r'" "set r \<subseteq> set (OutTargets s)"
    using rows(1) [of "OutTargets s"] rows(1) [of "OutKinds s"] o(1) u len by (auto simp: validateOffsets64_def)
  then show "\<exists>ts ks. snap_Out s n = Some (ts, ks) \<and> length ts = length ks \<and> set ts \<subseteq> {..<NodeCount s}"
    using tgt(1) by (auto simp: snap_Out_def)
  obtain r r' where r: "row (InOffsets s) n (InTargets s) = Some r" "row (InOffsets s) n (InKinds s) = Some r'"
    "length r = length r'" "set r \<subseteq> set (InTargets s)"
    using rows(2) [of "InTargets s"] rows(2) [of "InKinds s"] o(2) u len by (auto simp: validateOffsets64_def)
  then show "\<exists>ts ks. snap_In s n = Some (ts, ks) \<and> length ts = length ks \<and> set ts \<subseteq> {..<NodeCount s}"
    using tgt(2) by (auto simp: snap_In_def)
  show "\<exists>ks. row (KindOffsets s) n (NodeKinds s) = Some ks"
    using rows(3) [of "NodeKinds s"] o(3) u by (auto simp: validateOffsets32_def)
  have "GraphIDs s ! j < GraphIDs s ! Suc j" if "Suc j < length (GraphIDs s)" for j
    using asc that by (auto simp: list_all_iff NodeCount_def dest: bspec [of _ _ "Suc j"])
  then show "sorted_wrt (<) (GraphIDs s)" by (simp add: sorted_wrt_iff_nth_Suc_transp)
qed

text \<open>
  C13. What \<open>ReadSnapshotFile\<close> accepts is safe to serve from, whatever bytes the file held: the database ids
  ascend, and for every node of the snapshot the reads of its forward row, its reverse row and its kinds
  stay inside the arrays, and every neighbour is again a node. So does the read of any of its properties, unless an entry
  of a list or an object ends past 4 GiB of the arena, where the uint32 end of the slice wraps: validation
  looks at the end without the wrap (\<open>wrapped_entry_panics\<close>). An arena below 4 GiB has no such entry. The claim is
  about bounds; the JSON text of a list or an object is only looked at when \<open>decodeAny\<close> decodes it.
\<close>

theorem accepted_file_safe:
  assumes "ReadSnapshotFile bs = Inr (s, stmp)" and "n < NodeCount s"
  shows "sorted_wrt (<) (GraphIDs s) \<and>
    (\<exists>ts ks. snap_Out s n = Some (ts, ks) \<and> length ts = length ks \<and> set ts \<subseteq> {..<NodeCount s}) \<and>
    (\<exists>ts ks. snap_In s n = Some (ts, ks) \<and> length ts = length ks \<and> set ts \<subseteq> {..<NodeCount s}) \<and>
    (\<exists>ks. row (KindOffsets s) n (NodeKinds s) = Some ks) \<and>
    ((\<exists>v. ps_Value (sProps s) n q = Some v) \<or> (\<exists>e. end_wraps (sProps s) e \<and> 2 ^ 32 \<le> length (propArena (ps_table (sProps s)))))"
proof -
  obtain s0 p where v: "validateSnapshotStructure s0 (Some p)" and f: "finalizeDerived s0 = Some s" and p: "sProps s0 = store_of p"
    using accepted_parts [OF assms(1)] fields_header by metis
  note keep = finalizeDerived_arrays [OF f]
  have n: "n < NodeCount s0" and nc: "NodeCount s = NodeCount s0" using assms(2) keep(1) by (simp_all add: NodeCount_def)
  have vp: "validatePropStore (Some p) (NodeCount s0)" using v by (simp add: validateSnapshotStructure_def Let_def NodeCount_def)
  have eq: "ps_Value (sProps s) n q = ps_Value (sProps s0) n q" "end_wraps (sProps s) e \<longleftrightarrow> end_wraps (sProps s0) e" for e
    unfolding ps_Value_def end_wraps_def keep(10-12) by (rule refl)+
  have "(\<exists>v. ps_Value (sProps s) n q = Some v) \<or> (\<exists>e. end_wraps (sProps s) e)"
    using valid_value [OF vp n, of q] unfolding eq p by blast
  moreover have "2 ^ 32 \<le> length (propArena (ps_table (sProps s)))" if "end_wraps (sProps s) e" for e
    using that unfolding end_wraps_def by linarith
  ultimately show ?thesis using valid_rows [OF v n] keep nc by (auto simp: snap_Out_def snap_In_def)
qed

theorem accepted_file_safe_witness:
  "\<exists>s. ReadSnapshotFile (file_bytes (enc_body example_base example_stamp)) = Inr (s, example_stamp) \<and> snap_Out s 1 \<noteq> None \<and> snap_In s 1 \<noteq> None \<and>
     ps_Value (sProps s) 1 0 \<noteq> None"
proof -
  obtain kt where r: "ReadSnapshotFile (file_bytes (enc_body example_base example_stamp)) = Inr (example_base\<lparr>sKinds := kt\<rparr>, example_stamp)"
    using read_written [OF example_stored] by blast
  have "length (propArena (ps_table (sProps example_base))) < 2 ^ 32"
    using example_base_ok(1) by (auto simp: snap_ok_def snap_wf_def store_rep_def table_wf_def maxPropArena_def)
  then show ?thesis using accepted_file_safe [OF r, of 1 0] r example_base_ok(2) by (auto simp: NodeCount_def)
qed

end
