(* ===== verification/Compact.thy ===== *)
theory Compact
  imports Fold Replica
begin

text \<open>
  Compaction, \<open>internal/engine/compact.go\<close>: the bound on the segment stack, the trigger, the background
  fold and its adoption. The code decides by pointer identity whether a fold is still valid, so
  snapshots and segments live in a store here and a view holds their addresses; a store is only ever
  extended. \<open>compact_step\<close> interleaves publishing writes, rebuilds and fallbacks with the phases of the
  compaction goroutine. \<open>Warm\<close> only precomputes what a view would compute on its first read. The memory
  estimate of a segment is the argument \<open>approxBytes\<close>; nothing here depends on its values.
\<close>

section \<open>Sizes and thresholds\<close>

definition maxSegments :: nat where "maxSegments = 32"

definition DefaultCompactEntries :: nat where "DefaultCompactEntries = 65536"

definition DefaultCompactBytes :: nat where "DefaultCompactBytes = 512 * 1024 * 1024"

definition deltaEntries :: "Segment list \<Rightarrow> nat" where
  "deltaEntries segs = fold (\<lambda>seg n. n + (seg_NodeCount seg + seg_EdgeCount seg)) segs 0"

definition deltaBytes :: "(Segment \<Rightarrow> nat) \<Rightarrow> Segment list \<Rightarrow> nat" where
  "deltaBytes approxBytes segs = fold (\<lambda>seg bytes. u64 (bytes + approxBytes seg)) segs 0"

definition deltaSize :: "(Segment \<Rightarrow> nat) \<Rightarrow> Segment list \<Rightarrow> nat \<times> nat" where
  "deltaSize approxBytes segs =
     fold (\<lambda>seg (n, bytes). (n + (seg_NodeCount seg + seg_EdgeCount seg), u64 (bytes + approxBytes seg))) segs (0, 0)"

definition compactionThresholdExceeded :: "int \<Rightarrow> nat \<Rightarrow> nat \<Rightarrow> nat \<Rightarrow> bool" where
  "compactionThresholdExceeded compactEntries compactBytes n bytes =
     (if compactEntries > 0 \<and> int n > compactEntries then True
      else if compactBytes > 0 \<and> bytes > compactBytes then True
      else False)"

section \<open>The engine's fields\<close>

record cview =
  cvBase :: nat
  cvSegs :: "nat list"

record compactor =
  c_state :: serving_state
  c_snap :: "cview option"
  compacting :: bool
  compactionCount :: nat
  CompactEntries :: int
  CompactBytes :: nat
  baseStore :: "nat \<Rightarrow> Snapshot"
  segStore :: "nat \<Rightarrow> Segment"
  nextAddr :: nat

definition view_of :: "compactor \<Rightarrow> cview \<Rightarrow> View" where
  "view_of e v = \<lparr>v_base = baseStore e (cvBase v), v_segments = map (segStore e) (cvSegs v)\<rparr>"

definition newSegment :: "compactor \<Rightarrow> Segment \<Rightarrow> compactor \<times> nat" where
  "newSegment e s = (e\<lparr>segStore := (segStore e)(nextAddr e := s), nextAddr := nextAddr e + 1\<rparr>, nextAddr e)"

definition newBase :: "compactor \<Rightarrow> Snapshot \<Rightarrow> compactor \<times> nat" where
  "newBase e s = (e\<lparr>baseStore := (baseStore e)(nextAddr e := s), nextAddr := nextAddr e + 1\<rparr>, nextAddr e)"

section \<open>After a publish\<close>

definition collapseSegmentStackIfNeeded :: "compactor \<Rightarrow> cview \<Rightarrow> compactor \<times> cview" where
  "collapseSegmentStackIfNeeded e view =
     (if length (cvSegs view) \<le> maxSegments then (e, view)
      else let (e1, p) = newSegment e (MergeSegments (map (segStore e) (cvSegs view)));
               merged = \<lparr>cvBase = cvBase view, cvSegs = [p]\<rparr>
           in (e1\<lparr>c_snap := Some merged\<rparr>, merged))"

text \<open>The second component is the goroutine that was started: the base and the segments it captured.\<close>

definition maybeStartCompaction :: "(Segment \<Rightarrow> nat) \<Rightarrow> compactor \<Rightarrow> cview \<Rightarrow> compactor \<times> (nat \<times> nat list) option" where
  "maybeStartCompaction approxBytes e view =
     (if compacting e then (e, None)
      else if c_state e \<noteq> stateServing then (e, None)
      else if cvSegs view = [] then (e, None)
      else let ss = map (segStore e) (cvSegs view);
               tripped = compactionThresholdExceeded (CompactEntries e) 0 (deltaEntries ss) 0;
               tripped = (if \<not> tripped \<and> CompactBytes e > 0
                          then compactionThresholdExceeded 0 (CompactBytes e) 0 (deltaBytes approxBytes ss) else tripped)
           in if \<not> tripped then (e, None)
              else (e\<lparr>compacting := True\<rparr>, Some (cvBase view, cvSegs view)))"

definition maintainAfterPublish :: "(Segment \<Rightarrow> nat) \<Rightarrow> compactor \<Rightarrow> cview \<Rightarrow> compactor \<times> (nat \<times> nat list) option" where
  "maintainAfterPublish approxBytes e view =
     (let (e1, current) = collapseSegmentStackIfNeeded e view in maybeStartCompaction approxBytes e1 current)"

section \<open>Adoption\<close>

text \<open>Addresses, not contents, are compared.\<close>

definition segmentsAfter :: "nat list \<Rightarrow> nat list \<Rightarrow> (nat list) option" where
  "segmentsAfter current captured =
     (if length current < length captured then None
      else if \<not> list_all (\<lambda>i. current ! i = captured ! i) [0..<length captured] then None
      else Some (drop (length captured) current))"

definition adoptCompaction :: "compactor \<Rightarrow> nat \<Rightarrow> nat list \<Rightarrow> Snapshot \<Rightarrow> Segment option \<Rightarrow> compactor \<times> bool" where
  "adoptCompaction e capturedBase capturedSegs folded waiting =
     (case c_snap e of
        None \<Rightarrow> (e, False)
      | Some current \<Rightarrow>
          if cvBase current \<noteq> capturedBase then (e, False)
          else if c_state e \<noteq> stateServing then (e, False)
          else case segmentsAfter (cvSegs current) capturedSegs of
            None \<Rightarrow> (e, False)
          | Some later \<Rightarrow>
              let carried = (case waiting of None \<Rightarrow> [] | Some p \<Rightarrow> [p]) @ map (segStore e) later;
                  (e1, b) = newBase e folded;
                  (e2, newSegs) = (if carried = [] then (e1, []) else let (e2, p) = newSegment e1 (MergeSegments carried) in (e2, [p]))
              in (e2\<lparr>c_snap := Some \<lparr>cvBase = b, cvSegs = newSegs\<rparr>, compactionCount := compactionCount e2 + 1\<rparr>, True))"

text \<open>
  The goroutine of a compaction. It looks at the context before the fold and after it; a panic in the
  fold is recovered into a fallback. \<open>Folded\<close> is a fold that is about to be adopted, \<open>Adopted\<close> one that
  was adopted and has not released the gate yet. \<open>Saving\<close> is the goroutine in its save after the
  adoption, with the flag \<open>released\<close> its deferred function will look at when it returns.
\<close>

datatype compaction = Captured nat "nat list" | Folded nat "nat list" Snapshot "Segment option" | Adopted | Saving bool

definition foldCaptured :: "compactor \<Rightarrow> nat \<Rightarrow> nat list \<Rightarrow> ((string + Snapshot \<times> Segment option)) option" where
  "foldCaptured e base captured = FoldWithPendingEdges (baseStore e base) (map (segStore e) captured)"

section \<open>Interleavings\<close>

text \<open>
  \<open>running\<close> are the goroutines that have not returned. \<open>g_base\<close> and \<open>g_log\<close> are ghosts: the snapshot
  last loaded from the database and the segments published since.
\<close>

record compact =
  ce :: compactor
  running :: "compaction list"
  g_base :: Snapshot
  g_log :: "Segment list"

definition release :: "compactor \<Rightarrow> compactor" where "release e = e\<lparr>compacting := False\<rparr>"

text \<open>The deferred function of \<open>runCompaction\<close>. Every return before the adoption finds \<open>released\<close> unset.\<close>

definition deferredRelease :: "bool \<Rightarrow> compactor \<Rightarrow> compactor" where
  "deferredRelease released e = (if \<not> released then release e else e)"

definition publish :: "compactor \<Rightarrow> cview \<Rightarrow> Segment \<Rightarrow> compactor \<times> cview" where
  "publish e v seg = (let (e1, p) = newSegment e seg; w = v\<lparr>cvSegs := cvSegs v @ [p]\<rparr> in (e1\<lparr>c_snap := Some w\<rparr>, w))"

inductive compact_step :: "(Segment \<Rightarrow> nat) \<Rightarrow> compact \<Rightarrow> compact \<Rightarrow> bool" for approxBytes where
  written: "c_state (ce s) = stateServing \<Longrightarrow> c_snap (ce s) = Some v \<Longrightarrow> seg_ok seg \<Longrightarrow> publish (ce s) v seg = (e1, w) \<Longrightarrow>
    maintainAfterPublish approxBytes e1 w = (e2, started) \<Longrightarrow>
    compact_step approxBytes s (s\<lparr>ce := e2, g_log := g_log s @ [seg],
      running := (case started of None \<Rightarrow> running s | Some (b, ss) \<Rightarrow> Captured b ss # running s)\<rparr>)"
| rebuild: "snap_ok b \<Longrightarrow> newBase (ce s) b = (e1, p) \<Longrightarrow>
    compact_step approxBytes s (s\<lparr>ce := e1\<lparr>c_snap := Some \<lparr>cvBase = p, cvSegs = []\<rparr>, c_state := stateServing\<rparr>, g_base := b, g_log := []\<rparr>)"
| fallback: "compact_step approxBytes s (s\<lparr>ce := (ce s)\<lparr>c_state := stateFallback\<rparr>\<rparr>)"
| folded: "running s = xs @ Captured b ss # ys \<Longrightarrow> foldCaptured (ce s) b ss = Some (Inr (f, p)) \<Longrightarrow>
    compact_step approxBytes s (s\<lparr>running := xs @ Folded b ss f p # ys\<rparr>)"
| fold_failed: "running s = xs @ Captured b ss # ys \<Longrightarrow> foldCaptured (ce s) b ss = Some (Inl err) \<Longrightarrow>
    compact_step approxBytes s (s\<lparr>running := xs @ ys, ce := deferredRelease False (ce s)\<rparr>)"
| fold_panicked: "running s = xs @ Captured b ss # ys \<Longrightarrow> foldCaptured (ce s) b ss = None \<Longrightarrow>
    compact_step approxBytes s (s\<lparr>running := xs @ ys, ce := deferredRelease False ((ce s)\<lparr>c_state := stateFallback\<rparr>)\<rparr>)"
| stopping_before: "running s = xs @ Captured b ss # ys \<Longrightarrow>
    compact_step approxBytes s (s\<lparr>running := xs @ ys, ce := deferredRelease False (ce s)\<rparr>)"
| stopping_after: "running s = xs @ Folded b ss f p # ys \<Longrightarrow>
    compact_step approxBytes s (s\<lparr>running := xs @ ys, ce := deferredRelease False (ce s)\<rparr>)"
| refused: "running s = xs @ Folded b ss f p # ys \<Longrightarrow> adoptCompaction (ce s) b ss f p = (e1, False) \<Longrightarrow>
    compact_step approxBytes s (s\<lparr>running := xs @ ys, ce := deferredRelease False e1\<rparr>)"
| adopt: "running s = xs @ Folded b ss f p # ys \<Longrightarrow> adoptCompaction (ce s) b ss f p = (e1, True) \<Longrightarrow>
    compact_step approxBytes s (s\<lparr>running := xs @ Adopted # ys, ce := e1\<rparr>)"
| early_release: "running s = xs @ Adopted # ys \<Longrightarrow>
    compact_step approxBytes s (s\<lparr>running := xs @ Saving True # ys, ce := release (ce s)\<rparr>)"
| saved: "running s = xs @ Saving released # ys \<Longrightarrow>
    compact_step approxBytes s (s\<lparr>running := xs @ ys, ce := deferredRelease released (ce s)\<rparr>)"

text \<open>Runs of an engine whose captured deltas stay within what the packed arrays of a snapshot can index.\<close>

definition within_limits :: "compact \<Rightarrow> bool" where
  "within_limits s \<longleftrightarrow> (\<forall>b ss. Captured b ss \<in> set (running s) \<longrightarrow> fold_fits (baseStore (ce s) b) (MergeSegments (map (segStore (ce s)) ss)))"

definition compact_init :: "int \<Rightarrow> nat \<Rightarrow> Snapshot \<Rightarrow> compact" where
  "compact_init maxEntries maxBytes b = \<lparr>ce = \<lparr>c_state = stateServing, c_snap = Some \<lparr>cvBase = 0, cvSegs = []\<rparr>, compacting = False,
     compactionCount = 0, CompactEntries = maxEntries, CompactBytes = maxBytes, baseStore = (\<lambda>_. b), segStore = (\<lambda>_. MergeSegments []), nextAddr = 1\<rparr>,
     running = [], g_base = b, g_log = []\<rparr>"

inductive compact_reach :: "(Segment \<Rightarrow> nat) \<Rightarrow> compact \<Rightarrow> bool" for approxBytes where
  start: "snap_ok b \<Longrightarrow> compact_reach approxBytes (compact_init maxEntries maxBytes b)"
| step: "compact_reach approxBytes s \<Longrightarrow> compact_step approxBytes s t \<Longrightarrow> within_limits t \<Longrightarrow> compact_reach approxBytes t"

section \<open>What a stack shows of a log\<close>

text \<open>
  A base with its segments shows a log when, under every continuation of the log, it has the nodes and
  the visible edges of the loaded snapshot under the whole log. Database ids are never reused: a node
  that some prefix of the log deleted does not come back.
\<close>

definition gone_before :: "Segment list \<Rightarrow> pgid \<Rightarrow> bool" where
  "gone_before log i \<longleftrightarrow> (\<exists>pre post. log = pre @ post \<and> gone_in pre i)"

definition never_reused :: "Snapshot \<Rightarrow> Segment list \<Rightarrow> bool" where
  "never_reused b log \<longleftrightarrow> (\<forall>i. gone_before log i \<longrightarrow> view_nodes (stacked_view b log) i = None)"

definition same_graph :: "View \<Rightarrow> View \<Rightarrow> bool" where
  "same_graph v w \<longleftrightarrow> view_nodes v = view_nodes w \<and> view_edges v = view_edges w"

definition shows_log :: "Snapshot \<Rightarrow> Segment list \<Rightarrow> Snapshot \<Rightarrow> Segment list \<Rightarrow> bool" where
  "shows_log b ss B log \<longleftrightarrow> (\<forall>later. never_reused B (log @ later) \<longrightarrow> same_graph (stacked_view b (ss @ later)) (stacked_view B (log @ later)))"

definition deletes_known :: "Segment list \<Rightarrow> Segment list \<Rightarrow> bool" where
  "deletes_known ss log \<longleftrightarrow> (\<forall>i. gone_in ss i \<longrightarrow> gone_before log i)"

lemma gone_before_append: "gone_before log i \<Longrightarrow> gone_before (log @ later) i"
  unfolding gone_before_def by (metis append.assoc)

lemma gone_in_append: "gone_in (as @ bs) i \<longleftrightarrow> gone_in bs i \<or> (stacked NodeState bs i = None \<and> gone_in as i)"
  by (auto simp: gone_in_def stacked_append map_add_def split: option.splits)

lemma shows_push: "shows_log b ss B log \<Longrightarrow> shows_log b (ss @ [s]) B (log @ [s])"
  unfolding shows_log_def by (metis append.assoc)

lemma known_push: "deletes_known ss log \<Longrightarrow> deletes_known (ss @ [s]) (log @ [s])"
proof (unfold deletes_known_def, intro allI impI)
  fix i
  assume known: "\<forall>i. gone_in ss i \<longrightarrow> gone_before log i" and "gone_in (ss @ [s]) i"
  then consider "gone_in [s] i" | "gone_in ss i" by (auto simp: gone_in_append)
  then show "gone_before (log @ [s]) i"
  proof cases
    case 1
    then have "gone_in (log @ [s]) i" by (simp add: gone_in_append)
    then show ?thesis unfolding gone_before_def by (metis append_Nil2)
  qed (use known gone_before_append in blast)
qed

lemma stacked_single: "stacked f [s] = f s"
  by (simp add: stacked_def)

lemma merged_stack:
  assumes "\<forall>s \<in> set ss. seg_ok s"
  shows "stacked NodeState (MergeSegments ss # later) = stacked NodeState (ss @ later)"
    and "stacked EdgeState (MergeSegments ss # later) = stacked EdgeState (ss @ later)" and "seg_ok (MergeSegments ss)"
proof -
  have m: "NodeState (MergeSegments ss) = stacked NodeState ss" "EdgeState (MergeSegments ss) = stacked EdgeState ss" "seg_wf (MergeSegments ss)"
    using merge_maps [of ss] assms by (auto simp: seg_ok_def)
  show "stacked NodeState (MergeSegments ss # later) = stacked NodeState (ss @ later)"
    "stacked EdgeState (MergeSegments ss # later) = stacked EdgeState (ss @ later)"
    using stacked_append [of NodeState "[MergeSegments ss]" later] stacked_append [of EdgeState "[MergeSegments ss]" later]
    by (simp_all add: stacked_append m stacked_single)
  show "seg_ok (MergeSegments ss)" using m stacked_st_wf [OF assms] by (simp add: seg_ok_def)
qed

lemma merged_shows: "\<forall>s \<in> set ss. seg_ok s \<Longrightarrow> shows_log b [MergeSegments ss] B log \<longleftrightarrow> shows_log b ss B log"
  by (simp add: shows_log_def same_graph_def stacked_view_def view_nodes_def view_edges_def view_raw_def node_states_def edge_states_def merged_stack)

lemma merged_known: "\<forall>s \<in> set ss. seg_ok s \<Longrightarrow> deletes_known [MergeSegments ss] log \<longleftrightarrow> deletes_known ss log"
  using merged_stack(1) [of ss "[]"] by (simp add: deletes_known_def gone_in_def)

text \<open>What a fold of a base under captured segments guarantees (\<open>FoldWithPendingEdges\<close>), and its adoption under a tail.\<close>

definition fold_of :: "Snapshot \<Rightarrow> Segment list \<Rightarrow> Snapshot \<Rightarrow> Segment option \<Rightarrow> bool" where
  "fold_of b ss f p \<longleftrightarrow> snap_ok f \<and> (\<forall>q. p = Some q \<longrightarrow> seg_ok q \<and> NodeState q = Map.empty) \<and>
     (\<forall>later. view_nodes (folded_view (f, p) later) = view_nodes (stacked_view b (ss @ later)) \<and>
        ((\<forall>i. gone_in ss i \<longrightarrow> view_nodes (stacked_view b (ss @ later)) i = None) \<longrightarrow>
          view_edges (folded_view (f, p) later) = view_edges (stacked_view b (ss @ later))))"

abbreviation carried_over :: "Segment option \<Rightarrow> Segment list" where
  "carried_over p \<equiv> (case p of None \<Rightarrow> [] | Some q \<Rightarrow> [q])"

lemma fold_of_result:
  assumes "snap_ok b" and "\<forall>s \<in> set ss. seg_ok s" and "fold_fits b (MergeSegments ss)" and "FoldWithPendingEdges b ss = Some (Inr (f, p))"
  shows "fold_of b ss f p"
  using fold_refines [OF assms(1-3)] assms(4) unfolding fold_of_def by simp

lemma adopted_shows:
  assumes f: "fold_of b ss f p" and sl: "shows_log b (ss @ tail) B log" and known: "deletes_known ss log"
  shows "shows_log f (carried_over p @ tail) B log"
  unfolding shows_log_def
proof (intro allI impI)
  fix later
  assume reuse: "never_reused B (log @ later)"
  then have same: "same_graph (stacked_view b (ss @ tail @ later)) (stacked_view B (log @ later))" using sl by (simp add: shows_log_def)
  have "view_nodes (stacked_view b (ss @ tail @ later)) i = None" if "gone_in ss i" for i
    using same reuse known that gone_before_append by (auto simp: same_graph_def never_reused_def deletes_known_def)
  then have "same_graph (folded_view (f, p) (tail @ later)) (stacked_view b (ss @ tail @ later))"
    using f by (simp add: fold_of_def same_graph_def)
  then show "same_graph (stacked_view f ((carried_over p @ tail) @ later)) (stacked_view B (log @ later))"
    using same by (simp add: same_graph_def folded_view_def stacked_view_def)
qed

lemma adopted_known:
  assumes "fold_of b ss f p" and "deletes_known (ss @ tail) log"
  shows "deletes_known (carried_over p @ tail) log"
proof -
  have "\<not> gone_in (carried_over p) i" for i using assms(1) by (auto simp: fold_of_def gone_in_def stacked_single stacked_def split: option.splits)
  then show ?thesis using assms(2) by (simp add: deletes_known_def gone_in_append)
qed

section \<open>The invariant\<close>

definition allocated :: "compactor \<Rightarrow> nat \<Rightarrow> nat list \<Rightarrow> bool" where
  "allocated e b ss \<longleftrightarrow> b < nextAddr e \<and> (\<forall>a \<in> set ss. a < nextAddr e)"

definition extends :: "compactor \<Rightarrow> compactor \<Rightarrow> bool" where
  "extends e e' \<longleftrightarrow> nextAddr e \<le> nextAddr e' \<and> (\<forall>a < nextAddr e. segStore e' a = segStore e a \<and> baseStore e' a = baseStore e a)"

definition stored_ok :: "compactor \<Rightarrow> nat \<Rightarrow> nat list \<Rightarrow> bool" where
  "stored_ok e b ss \<longleftrightarrow> allocated e b ss \<and> snap_ok (baseStore e b) \<and> (\<forall>a \<in> set ss. seg_ok (segStore e a))"

definition stack_inv :: "compactor \<Rightarrow> cview \<Rightarrow> Snapshot \<Rightarrow> Segment list \<Rightarrow> bool" where
  "stack_inv e v B log \<longleftrightarrow> stored_ok e (cvBase v) (cvSegs v) \<and> shows_log (baseStore e (cvBase v)) (map (segStore e) (cvSegs v)) B log \<and>
     deletes_known (map (segStore e) (cvSegs v)) log"

text \<open>A captured prefix matters only while its base is the current one.\<close>

fun job_inv :: "compactor \<Rightarrow> nat \<Rightarrow> Segment list \<Rightarrow> compaction \<Rightarrow> bool" where
  "job_inv e cur log (Captured b ss) \<longleftrightarrow> stored_ok e b ss \<and> (b = cur \<longrightarrow> deletes_known (map (segStore e) ss) log)"
| "job_inv e cur log (Folded b ss f p) \<longleftrightarrow> stored_ok e b ss \<and> (b = cur \<longrightarrow> deletes_known (map (segStore e) ss) log) \<and>
     fold_of (baseStore e b) (map (segStore e) ss) f p"
| "job_inv e cur log Adopted \<longleftrightarrow> True"
| "job_inv e cur log (Saving released) \<longleftrightarrow> released"

text \<open>The goroutines the gate stands for: those that have not released it.\<close>

fun holds_gate :: "compaction \<Rightarrow> bool" where
  "holds_gate (Captured b ss) \<longleftrightarrow> True"
| "holds_gate (Folded b ss f p) \<longleftrightarrow> True"
| "holds_gate Adopted \<longleftrightarrow> True"
| "holds_gate (Saving released) \<longleftrightarrow> False"

definition compact_inv :: "compact \<Rightarrow> bool" where
  "compact_inv s \<longleftrightarrow> (\<exists>v. c_snap (ce s) = Some v \<and> stack_inv (ce s) v (g_base s) (g_log s) \<and> length (cvSegs v) \<le> maxSegments \<and>
       (\<forall>j \<in> set (running s). job_inv (ce s) (cvBase v) (g_log s) j)) \<and>
     length (filter holds_gate (running s)) = (if compacting (ce s) then 1 else 0)"

lemma extends_stored:
  assumes "extends e e'" and "stored_ok e b ss"
  shows "stored_ok e' b ss" and "map (segStore e') ss = map (segStore e) ss" and "baseStore e' b = baseStore e b"
  using assms by (fastforce simp: stored_ok_def extends_def allocated_def)+

lemma known_append: "deletes_known ss log \<Longrightarrow> deletes_known ss (log @ later)"
  using gone_before_append by (simp add: deletes_known_def)

lemma extends_job:
  assumes "extends e e'" and "job_inv e cur log j" and "cur' = cur \<and> log' = log @ later \<or> cur' \<ge> nextAddr e"
  shows "job_inv e' cur' log' j"
proof (cases j)
  case (Captured b ss)
  then have st: "stored_ok e b ss" and b: "b < nextAddr e" using assms(2) by (simp_all add: stored_ok_def allocated_def)
  show ?thesis using assms(2,3) known_append b extends_stored(1) [OF assms(1) st]
    unfolding Captured job_inv.simps extends_stored(2,3) [OF assms(1) st] by auto
next
  case (Folded b ss f p)
  then have st: "stored_ok e b ss" and b: "b < nextAddr e" using assms(2) by (simp_all add: stored_ok_def allocated_def)
  show ?thesis using assms(2,3) known_append b extends_stored(1) [OF assms(1) st]
    unfolding Folded job_inv.simps extends_stored(2,3) [OF assms(1) st] by auto
qed (use assms(2) in simp_all)

lemma extends_view: "extends e e' \<Longrightarrow> stack_inv e v B log \<Longrightarrow> stack_inv e' v B log"
  unfolding stack_inv_def using extends_stored [of e e' "cvBase v" "cvSegs v"] by (auto simp del: map_eq_conv)

section \<open>Every step keeps it\<close>

lemma newSegment_inv:
  assumes "newSegment e s = (e', p)"
  shows "extends e e'" "segStore e' p = s" "p = nextAddr e" "nextAddr e' = nextAddr e + 1" "c_snap e' = c_snap e" "c_state e' = c_state e" "compacting e' = compacting e"
  using assms by (auto simp: newSegment_def extends_def)

lemma newBase_inv:
  assumes "newBase e s = (e', p)"
  shows "extends e e'" "baseStore e' p = s" "p = nextAddr e" "nextAddr e' = nextAddr e + 1" "c_snap e' = c_snap e" "c_state e' = c_state e" "compacting e' = compacting e"
  using assms by (auto simp: newBase_def extends_def)

text \<open>Only the store and the address counter matter to what is stored.\<close>

definition same_store :: "compactor \<Rightarrow> compactor \<Rightarrow> bool" where
  "same_store e e' \<longleftrightarrow> segStore e' = segStore e \<and> baseStore e' = baseStore e \<and> nextAddr e' = nextAddr e"

lemma same_store_extends: "same_store e e' \<Longrightarrow> extends e e'"
  by (simp add: same_store_def extends_def)

lemma extends_trans: "extends a b \<Longrightarrow> extends b c \<Longrightarrow> extends a c"
  by (force simp: extends_def)

lemma publish_inv:
  assumes v: "stack_inv e v B log" and s: "seg_ok seg" and p: "publish e v seg = (e1, w)"
  shows "stack_inv e1 w B (log @ [seg])" "extends e e1" "c_snap e1 = Some w" "c_state e1 = c_state e" "compacting e1 = compacting e"
    "cvBase w = cvBase v" "length (cvSegs w) = length (cvSegs v) + 1"
proof -
  obtain e0 q where q: "newSegment e seg = (e0, q)" by fastforce
  note n = newSegment_inv [OF q]
  have e1: "e1 = e0\<lparr>c_snap := Some w\<rparr>" "w = v\<lparr>cvSegs := cvSegs v @ [q]\<rparr>" using p q by (auto simp: publish_def Let_def)
  show ext: "extends e e1" using n(1) by (simp add: e1 extends_def)
  have st: "stored_ok e (cvBase v) (cvSegs v)" using v by (simp add: stack_inv_def)
  note keep = extends_stored [OF ext st]
  have new: "segStore e1 q = seg" "q < nextAddr e1" using n by (simp_all add: e1)
  have "stored_ok e1 (cvBase w) (cvSegs w)" using keep(1) new s by (auto simp: e1(2) stored_ok_def allocated_def)
  then show "stack_inv e1 w B (log @ [seg])"
    using v keep(2,3) new(1) unfolding stack_inv_def e1(2) by (simp add: shows_push known_push del: map_eq_conv)
  show "c_snap e1 = Some w" "c_state e1 = c_state e" "compacting e1 = compacting e" "cvBase w = cvBase v" "length (cvSegs w) = length (cvSegs v) + 1"
    using n by (simp_all add: e1)
qed

lemma collapse_inv:
  assumes v: "stack_inv e v B log" and sn: "c_snap e = Some v" and c: "collapseSegmentStackIfNeeded e v = (e1, w)"
  shows "stack_inv e1 w B log \<and> extends e e1 \<and> c_snap e1 = Some w \<and> c_state e1 = c_state e \<and> compacting e1 = compacting e \<and>
    cvBase w = cvBase v \<and> length (cvSegs w) \<le> maxSegments"
proof (cases "length (cvSegs v) \<le> maxSegments")
  case True
  then show ?thesis
    using v sn c by (auto simp: collapseSegmentStackIfNeeded_def extends_def)
next
  case False
  let ?ss = "map (segStore e) (cvSegs v)"
  obtain e0 q where q: "newSegment e (MergeSegments ?ss) = (e0, q)" by fastforce
  note n = newSegment_inv [OF q]
  have e1: "e1 = e0\<lparr>c_snap := Some w\<rparr>" "w = \<lparr>cvBase = cvBase v, cvSegs = [q]\<rparr>"
    using c q False by (auto simp: collapseSegmentStackIfNeeded_def Let_def)
  have ext: "extends e e1" using n(1) by (simp add: e1 extends_def)
  have st: "stored_ok e (cvBase v) (cvSegs v)" using v by (simp add: stack_inv_def)
  then have ok: "\<forall>s \<in> set ?ss. seg_ok s" by (simp add: stored_ok_def)
  note keep = extends_stored [OF ext st]
  have new: "segStore e1 q = MergeSegments ?ss" "q < nextAddr e1" using n by (simp_all add: e1)
  have "stored_ok e1 (cvBase w) (cvSegs w)" using keep(1) new merged_stack(3) [OF ok] by (auto simp: e1(2) stored_ok_def allocated_def)
  then have "stack_inv e1 w B log" using v keep(3) new(1) merged_shows [OF ok] merged_known [OF ok] unfolding stack_inv_def e1(2) by simp
  then show ?thesis
    using ext n by (simp add: e1 maxSegments_def)
qed

lemma maybeStart_inv:
  assumes "maybeStartCompaction approxBytes e v = (e1, started)"
  shows "same_store e e1 \<and> c_snap e1 = c_snap e \<and> c_state e1 = c_state e \<and>
    (case started of None \<Rightarrow> compacting e1 = compacting e | Some (b, ss) \<Rightarrow> \<not> compacting e \<and> compacting e1 \<and> b = cvBase v \<and> ss = cvSegs v)"
  using assms by (auto simp: maybeStartCompaction_def same_store_def Let_def split: if_splits)

lemma segmentsAfter_prefix:
  assumes "segmentsAfter current captured = Some later"
  shows "current = captured @ later"
proof -
  have len: "length captured \<le> length current" and eq: "\<forall>i < length captured. current ! i = captured ! i"
    and later: "later = drop (length captured) current" using assms by (auto simp: segmentsAfter_def list_all_iff split: if_splits)
  have "take (length captured) current = captured" using len eq by (intro nth_equalityI) auto
  then show ?thesis using later by (metis append_take_drop_id)
qed

lemma adopt_inv:
  assumes sn: "c_snap e = Some v" and v: "stack_inv e v B log" and j: "job_inv e (cvBase v) log (Folded b ss f p)"
    and a: "adoptCompaction e b ss f p = (e1, adopted)"
  shows "adopted \<and> (\<exists>w. c_snap e1 = Some w \<and> stack_inv e1 w B log \<and> length (cvSegs w) \<le> maxSegments \<and> cvBase w \<ge> nextAddr e) \<and>
      extends e e1 \<and> compacting e1 = compacting e \<or> \<not> adopted \<and> e1 = e"
proof (cases adopted)
  case True
  then obtain later where b: "cvBase v = b" and later: "segmentsAfter (cvSegs v) ss = Some later"
    using a sn by (auto simp: adoptCompaction_def split: if_splits option.splits)
  note pre = segmentsAfter_prefix [OF later]
  let ?carried = "carried_over p @ map (segStore e) later"
  obtain e2 nb where nb: "newBase e f = (e2, nb)" by fastforce
  note n = newBase_inv [OF nb]
  have st: "stored_ok e b (cvSegs v)" and sl: "shows_log (baseStore e b) (map (segStore e) ss @ map (segStore e) later) B log"
    and kn: "deletes_known (map (segStore e) ss @ map (segStore e) later) log" using v b pre by (simp_all add: stack_inv_def)
  have fo: "fold_of (baseStore e b) (map (segStore e) ss) f p" and kss: "deletes_known (map (segStore e) ss) log" using j b by simp_all
  have shown: "shows_log f ?carried B log" by (rule adopted_shows [OF fo sl kss])
  have known: "deletes_known ?carried log" by (rule adopted_known [OF fo kn])
  have ok: "\<forall>s \<in> set ?carried. seg_ok s" "snap_ok f" using fo st pre by (auto simp: fold_of_def stored_ok_def split: option.splits)
  show ?thesis
  proof (cases "?carried = []")
    case empty: True
    have e1: "e1 = e2\<lparr>c_snap := Some \<lparr>cvBase = nb, cvSegs = []\<rparr>, compactionCount := compactionCount e2 + 1\<rparr>"
      using a sn b later nb True empty by (auto simp: adoptCompaction_def Let_def split: if_splits)
    have "stack_inv e1 \<lparr>cvBase = nb, cvSegs = []\<rparr> B log"
      using shown known ok n unfolding empty by (simp add: e1 stack_inv_def stored_ok_def allocated_def)
    then show ?thesis using True n by (simp add: e1 extends_def)
  next
    case False
    obtain e3 q where q: "newSegment e2 (MergeSegments ?carried) = (e3, q)" by fastforce
    note m = newSegment_inv [OF q]
    have e1: "e1 = e3\<lparr>c_snap := Some \<lparr>cvBase = nb, cvSegs = [q]\<rparr>, compactionCount := compactionCount e3 + 1\<rparr>"
      using a sn b later nb q True False by (auto simp: adoptCompaction_def Let_def split: if_splits)
    have "baseStore e1 nb = f" "nb < nextAddr e1" using m n by (auto simp: e1 extends_def)
    moreover have "segStore e1 q = MergeSegments ?carried" "q < nextAddr e1" using m by (simp_all add: e1)
    ultimately have "stack_inv e1 \<lparr>cvBase = nb, cvSegs = [q]\<rparr> B log"
      using merged_shows [OF ok(1)] merged_known [OF ok(1)] merged_stack(3) [OF ok(1)] shown known ok(2)
      by (simp add: stack_inv_def stored_ok_def allocated_def)
    moreover have "extends e e1" using extends_trans [OF n(1) m(1)] by (simp add: e1 extends_def)
    ultimately show ?thesis using True n m by (auto simp: e1 maxSegments_def)
  qed
qed (use a in \<open>auto simp: adoptCompaction_def Let_def split: if_splits option.splits prod.splits\<close>)

text \<open>The started goroutine has captured exactly the view that is current.\<close>

lemma write_inv:
  assumes inv: "compact_inv s" and sn: "c_snap (ce s) = Some v" and seg: "seg_ok seg" and p: "publish (ce s) v seg = (e1, w)"
    and m: "maintainAfterPublish approxBytes e1 w = (e2, started)"
  shows "compact_inv (s\<lparr>ce := e2, g_log := g_log s @ [seg],
    running := (case started of None \<Rightarrow> running s | Some (b, ss) \<Rightarrow> Captured b ss # running s)\<rparr>)"
proof -
  let ?log = "g_log s @ [seg]"
  have v: "stack_inv (ce s) v (g_base s) (g_log s)" and jobs: "\<forall>j \<in> set (running s). job_inv (ce s) (cvBase v) (g_log s) j"
    and gate: "length (filter holds_gate (running s)) = (if compacting (ce s) then 1 else 0)" using inv sn by (auto simp: compact_inv_def)
  note pub = publish_inv [OF v seg p]
  obtain e' x where c: "collapseSegmentStackIfNeeded e1 w = (e', x)" by fastforce
  note col = collapse_inv [OF pub(1,3) c]
  have ms: "maybeStartCompaction approxBytes e' x = (e2, started)" using m c by (simp add: maintainAfterPublish_def)
  note st = maybeStart_inv [OF ms]
  have ext: "extends (ce s) e2" using pub(2) col st same_store_extends extends_trans by blast
  have x: "stack_inv e2 x (g_base s) ?log" using extends_view [of e' e2 x] same_store_extends st col by blast
  have old: "\<forall>j \<in> set (running s). job_inv e2 (cvBase x) ?log j" 
    using jobs extends_job [OF ext, of "cvBase v" "g_log s" _ "cvBase x" ?log "[seg]"] col pub(6) by simp
  have new: "job_inv e2 (cvBase x) ?log (Captured (cvBase x) (cvSegs x))" using x by (simp add: stack_inv_def)
  have "c_snap e2 = Some x" "length (cvSegs x) \<le> maxSegments" using st col by simp_all
  then show ?thesis using x old new st gate pub(5) col by (auto simp: compact_inv_def split: option.splits)
qed

text \<open>A goroutine moves on or returns, with the view as it is.\<close>

lemma job_step_inv:
  assumes inv: "compact_inv s" and r: "running s = xs @ j # ys" and e: "same_store (ce s) e" "c_snap e = c_snap (ce s)"
    and more: "\<And>v k. c_snap (ce s) = Some v \<Longrightarrow> k \<in> set js \<Longrightarrow> job_inv (ce s) (cvBase v) (g_log s) k"
    and gate: "length (filter holds_gate (xs @ js @ ys)) = (if compacting e then 1 else 0)"
  shows "compact_inv (s\<lparr>running := xs @ js @ ys, ce := e\<rparr>)"
proof -
  obtain v where v: "c_snap (ce s) = Some v" "stack_inv (ce s) v (g_base s) (g_log s)" "length (cvSegs v) \<le> maxSegments"
    and jobs: "\<forall>j \<in> set (running s). job_inv (ce s) (cvBase v) (g_log s) j" using inv by (auto simp: compact_inv_def)
  note ext = same_store_extends [OF e(1)]
  have "\<forall>k \<in> set (xs @ js @ ys). job_inv e (cvBase v) (g_log s) k"
    using jobs more [OF v(1)] extends_job [OF ext, of "cvBase v" "g_log s" _ "cvBase v" "g_log s" "[]"] by (auto simp: r)
  then show ?thesis using v(1,3) e(2) gate extends_view [OF ext v(2)] by (auto simp: compact_inv_def)
qed

lemma one_holder:
  assumes "compact_inv s" and "running s = xs @ j # ys" and "holds_gate j"
  shows "compacting (ce s)" and "filter holds_gate (xs @ ys) = []"
  using assms by (auto simp: compact_inv_def split: if_splits)

lemma returned_inv:
  assumes inv: "compact_inv s" and r: "running s = xs @ j # ys" and h: "holds_gate j" and e: "same_store (ce s) e" "c_snap e = c_snap (ce s)"
  shows "compact_inv (s\<lparr>running := xs @ ys, ce := deferredRelease False e\<rparr>)"
  using job_step_inv [OF inv r, of "deferredRelease False e" "[]"] one_holder [OF inv r h] e
  by (simp add: deferredRelease_def release_def same_store_def)

lemma compact_step_inv:
  assumes "compact_step approxBytes s t" and inv: "compact_inv s" and lim: "within_limits s"
  shows "compact_inv t"
  using assms(1)
proof cases
  case (written v seg e1 w e2 started)
  then show ?thesis using write_inv [OF inv] by simp
next
  case (rebuild b e1 p)
  note n = newBase_inv [OF rebuild(3)]
  obtain v where v: "c_snap (ce s) = Some v" and jobs: "\<forall>j \<in> set (running s). job_inv (ce s) (cvBase v) (g_log s) j"
    and gate: "length (filter holds_gate (running s)) = (if compacting (ce s) then 1 else 0)" using inv by (auto simp: compact_inv_def)
  let ?e = "e1\<lparr>c_snap := Some \<lparr>cvBase = p, cvSegs = []\<rparr>, c_state := stateServing\<rparr>"
  have ext: "extends (ce s) ?e" using n(1) by (simp add: extends_def)
  have "stack_inv ?e \<lparr>cvBase = p, cvSegs = []\<rparr> b []" using rebuild(2) n by (simp add: stack_inv_def stored_ok_def allocated_def shows_log_def same_graph_def deletes_known_def gone_in_def stacked_def)
  moreover have "job_inv ?e p [] j" if "j \<in> set (running s)" for j using extends_job [OF ext, of "cvBase v" _ j p "[]"] jobs that n(3) by blast
  ultimately show ?thesis using gate n(7) unfolding rebuild(1) by (auto simp: compact_inv_def)
next
  case fallback
  have "same_store (ce s) ((ce s)\<lparr>c_state := stateFallback\<rparr>)" by (simp add: same_store_def)
  note ext = same_store_extends [OF this]
  show ?thesis using inv extends_view [OF ext] extends_job [OF ext, where later = "[]"] unfolding fallback compact_inv_def by fastforce
next
  case (folded xs b ss ys f p)
  obtain v where v: "c_snap (ce s) = Some v" and job: "job_inv (ce s) (cvBase v) (g_log s) (Captured b ss)" using inv folded(2) by (auto simp: compact_inv_def)
  have "fold_fits (baseStore (ce s) b) (MergeSegments (map (segStore (ce s)) ss))" using lim folded(2) by (auto simp: within_limits_def)
  then have "fold_of (baseStore (ce s) b) (map (segStore (ce s)) ss) f p"
    using job folded(3) by (intro fold_of_result) (auto simp: stored_ok_def foldCaptured_def)
  then show ?thesis using inv v job unfolding folded(1) by (auto simp: compact_inv_def folded(2))
next
  case (adopt xs b ss f p ys e1)
  obtain v where v: "c_snap (ce s) = Some v" "stack_inv (ce s) v (g_base s) (g_log s)" "job_inv (ce s) (cvBase v) (g_log s) (Folded b ss f p)"
    and jobs: "\<forall>j \<in> set (running s). job_inv (ce s) (cvBase v) (g_log s) j" using inv adopt(2) by (auto simp: compact_inv_def)
  obtain w where w: "c_snap e1 = Some w" "stack_inv e1 w (g_base s) (g_log s)" "length (cvSegs w) \<le> maxSegments" "cvBase w \<ge> nextAddr (ce s)"
    and ext: "extends (ce s) e1" and gate: "compacting e1 = compacting (ce s)" using adopt_inv [OF v adopt(3)] by blast
  have "\<forall>k \<in> set (xs @ Adopted # ys). job_inv e1 (cvBase w) (g_log s) k" using jobs w(4) extends_job [OF ext, of "cvBase v" "g_log s" _ "cvBase w" "g_log s" "[]"] by (auto simp: adopt(2))
  then show ?thesis using w(1-3) gate inv unfolding adopt(1) by (auto simp: compact_inv_def adopt(2))
next
  case (refused xs b ss f p ys e1)
  then have "e1 = ce s" using adopt_inv inv by (fastforce simp: compact_inv_def)
  then show ?thesis using returned_inv [OF inv refused(2)] unfolding refused(1) by (simp add: same_store_def)
next
  case (early_release xs ys)
  then show ?thesis using job_step_inv [OF inv early_release(2), of "release (ce s)" "[Saving True]"] one_holder [OF inv early_release(2)]
    by (simp add: release_def same_store_def)
next
  case (saved xs released ys)
  then have "released" using inv by (auto simp: compact_inv_def)
  then show ?thesis using job_step_inv [OF inv saved(2), of "ce s" "[]"] inv saved
    by (simp add: deferredRelease_def same_store_def compact_inv_def)
qed (use returned_inv [OF inv] in \<open>simp_all add: same_store_def\<close>)

lemma compact_reach_inv: "compact_reach approxBytes s \<Longrightarrow> compact_inv s \<and> within_limits s"
proof (induction rule: compact_reach.induct)
  case (start b maxEntries maxBytes)
  then show ?case by (simp add: compact_inv_def compact_init_def stack_inv_def stored_ok_def allocated_def shows_log_def same_graph_def
      deletes_known_def gone_in_def stacked_def within_limits_def maxSegments_def)
qed (use compact_step_inv in blast)

section \<open>Compaction is invisible\<close>

text \<open>
  C7. Compaction never changes what the replica shows. In every state the interleavings of writes, stack
  collapses, rebuilds, fallbacks, folds, failed folds, panics, shutdowns and adoptions reach, the current
  view has exactly the nodes and the visible edges of the snapshot last loaded from the database with
  every segment published since applied in order, provided database ids are not reused; its base and its
  segments are well formed. A fold that a rebuild or a collapse has overtaken is never adopted.
\<close>

theorem compaction_invisible:
  assumes "compact_reach approxBytes s" and "never_reused (g_base s) (g_log s)"
  shows "\<exists>v. c_snap (ce s) = Some v \<and>
    view_nodes (view_of (ce s) v) = view_nodes (stacked_view (g_base s) (g_log s)) \<and>
    view_edges (view_of (ce s) v) = view_edges (stacked_view (g_base s) (g_log s)) \<and>
    snap_ok (v_base (view_of (ce s) v)) \<and> list_all seg_ok (v_segments (view_of (ce s) v))"
proof -
  obtain v where v: "c_snap (ce s) = Some v" "stack_inv (ce s) v (g_base s) (g_log s)"
    using compact_reach_inv [OF assms(1)] by (auto simp: compact_inv_def)
  then have "same_graph (view_of (ce s) v) (stacked_view (g_base s) (g_log s))"
    using assms(2) by (auto simp: stack_inv_def shows_log_def view_of_def stacked_view_def dest!: spec [of _ "[]"])
  then show ?thesis using v by (auto simp: same_graph_def stack_inv_def stored_ok_def view_of_def list_all_iff)
qed

text \<open>Two writes on the example base, the second of which starts a compaction.\<close>

definition example_run :: "nat \<Rightarrow> compact" where
  "example_run n = \<lparr>ce = \<lparr>c_state = stateServing, c_snap = Some \<lparr>cvBase = 0, cvSegs = take n [1, 2]\<rparr>, compacting = (n = 2), compactionCount = 0,
       CompactEntries = 0, CompactBytes = 1, baseStore = (\<lambda>_. example_base),
       segStore = (if n = 0 then \<lambda>_. MergeSegments [] else if n = 1 then (\<lambda>_. MergeSegments [])(1 := example_segs ! 0)
         else (\<lambda>_. MergeSegments [])(1 := example_segs ! 0, 2 := example_segs ! 1)), nextAddr = Suc n\<rparr>,
     running = (if n = 2 then [Captured 0 [1, 2]] else []), g_base = example_base, g_log = take n example_segs\<rparr>"

lemma example_segs_two: "example_segs = [example_segs ! 0, example_segs ! 1]" "seg_ok (example_segs ! 0)" "seg_ok (example_segs ! 1)"
  using example_segs_states(1) by (simp_all add: example_segs_def)

lemma written_by:
  assumes "c_state (ce s) = stateServing" and "c_snap (ce s) = Some v" and "seg_ok seg"
    and "t = (let (e1, w) = publish (ce s) v seg; (e2, started) = maintainAfterPublish approxBytes e1 w in
      s\<lparr>ce := e2, g_log := g_log s @ [seg], running := (case started of None \<Rightarrow> running s | Some (b, ss) \<Rightarrow> Captured b ss # running s)\<rparr>)"
  shows "compact_step approxBytes s t"
  using compact_step.written [OF assms(1-3)] assms(4) by (auto simp: Let_def split: prod.splits)

lemmas write_defs = publish_def newSegment_def maintainAfterPublish_def collapseSegmentStackIfNeeded_def maxSegments_def
  maybeStartCompaction_def compactionThresholdExceeded_def deltaBytes_def u64_def Let_def

lemma example_run_reach: "compact_reach (\<lambda>_. 1) (example_run 2)"
proof -
  have 0: "compact_reach (\<lambda>_. 1) (example_run 0)"
    using compact_reach.start [OF example_base_ok(1), of "\<lambda>_. 1" 0 1] by (simp add: example_run_def compact_init_def)
  have "compact_step (\<lambda>_. 1) (example_run 0) (example_run 1)"
    by (rule written_by [where v = "\<lparr>cvBase = 0, cvSegs = []\<rparr>" and seg = "example_segs ! 0"])
      (use example_segs_two in \<open>auto simp: example_run_def write_defs example_segs_def\<close>)
  then have 1: "compact_reach (\<lambda>_. 1) (example_run 1)" by (rule compact_reach.step [OF 0]) (simp add: within_limits_def example_run_def)
  have "compact_step (\<lambda>_. 1) (example_run 1) (example_run 2)"
    by (rule written_by [where v = "\<lparr>cvBase = 0, cvSegs = [1]\<rparr>" and seg = "example_segs ! 1"])
      (use example_segs_two in \<open>auto simp: example_run_def write_defs example_segs_def\<close>)
  then show ?thesis
  proof (rule compact_reach.step [OF 1])
    have "map ((\<lambda>_. MergeSegments [])(1 := example_segs ! 0, 2 := example_segs ! 1)) [1, 2 :: nat] = example_segs" using example_segs_two(1) by simp
    then show "within_limits (example_run 2)" using example_fits by (simp add: within_limits_def example_run_def)
  qed
qed

lemma example_never_reused: "never_reused example_base example_segs"
proof -
  have b: "NodeState (example_segs ! 1) = Map.empty"
    using seg_Build_states(2) [OF stage_run_inv [OF example_pending_run]] by (auto simp: example_segs_def example_pending_def fun_eq_iff)
  have "i = 5" if g: "gone_before example_segs i" for i
  proof -
    obtain pre post where split: "example_segs = pre @ post" and pre: "gone_in pre i" using g by (auto simp: gone_before_def)
    have "pre = [] \<or> pre = [example_segs ! 0] \<or> pre = example_segs"
      using split by (cases pre; cases "tl pre"; simp add: example_segs_def)
    moreover have "gone_in [example_segs ! 0] i \<longleftrightarrow> gone_in example_segs i"
      by (subst (2) example_segs_two(1)) (use b in \<open>simp add: gone_in_def stacked_def\<close>)
    ultimately show ?thesis using pre example_segs_view(3) by (auto simp: gone_in_def stacked_def)
  qed
  then have "\<not> gone_before example_segs 9" "\<not> gone_before example_segs 12" by fastforce+
  then show ?thesis by (auto simp: never_reused_def example_segs_view(1))
qed

theorem compaction_invisible_witness:
  "\<exists>v. c_snap (ce (example_run 2)) = Some v \<and> compacting (ce (example_run 2)) \<and>
     view_nodes (view_of (ce (example_run 2)) v) = [9 \<mapsto> ([1, 2], parsedBag []), 12 \<mapsto> ([2], parsedBag [])]"
proof -
  have "g_base (example_run 2) = example_base" "g_log (example_run 2) = example_segs" "compacting (ce (example_run 2))"
    by (simp_all add: example_run_def example_segs_def)
  then show ?thesis using compaction_invisible [OF example_run_reach] example_never_reused example_segs_view(1) by auto
qed



end
