(* ===== verification/Persist.thy ===== *)
theory Persist
  imports FileRoundtrip Convergence Replica
begin

text \<open>
  Saving the replica to its snapshot file, \<open>internal/engine/persist.go\<close>. A save probes the watermark,
  then takes the apply lock to decide and to fold, then writes the file without the lock and looks once
  more at the dirty generation; \<open>SaveProtocol\<close> interleaves these steps with the rest of the engine. What
  the database answers to the probe, and how the file system behaves, are arguments. A \<open>None\<close> of \<open>saveSnapshotPrepare\<close> is a panic of the fold.
\<close>

section \<open>The steps of a save\<close>

definition saveSnapshotPreconditionsFor :: "serving_state \<Rightarrow> nat \<Rightarrow> nat \<Rightarrow> bool \<Rightarrow> bool" where
  "saveSnapshotPreconditionsFor st dirty resolvedGen conv \<longleftrightarrow> st = stateServing \<and> dirty = resolvedGen \<and> conv"

text \<open>\<open>reading\<close> is the convergence read (\<open>None\<close>: it failed), \<open>seqs\<close> the positions of the id sequences, \<open>stopped\<close> a cancelled background context.\<close>

definition saveSnapshotProbe ::
    "('v, 'k) engine \<Rightarrow> watermarkReading option \<Rightarrow> (int \<times> int) option \<Rightarrow> bool \<Rightarrow> ('v, 'k) engine \<times> nat \<times> stamp \<times> bool" where
  "saveSnapshotProbe e reading seqs stopped =
     (let epoch = applyEpoch e; zero = \<lparr>st_Watermark = 0, st_NodeIDSeq = 0, st_EdgeIDSeq = 0\<rparr> in
      case reading of
        None \<Rightarrow> (e, epoch, zero, False)
      | Some r \<Rightarrow>
          let stmp = zero\<lparr>st_Watermark := r_pgCounter r\<rparr> in
          if \<not> converged r
          then (if unaccounted r \<and> \<not> stopped then requestTrustRebuild e else e, epoch, stmp, False)
          else case seqs of
                 None \<Rightarrow> (e, epoch, stmp, False)
               | Some (nodeSeq, edgeSeq) \<Rightarrow> (e, epoch, stmp\<lparr>st_NodeIDSeq := nodeSeq, st_EdgeIDSeq := edgeSeq\<rparr>, True))"

record pendingSnapshotSave =
  ps_snap :: Snapshot
  ps_dirtyGen :: nat

definition noteSkippedCompactionSave :: "(View, 'k) engine \<Rightarrow> View \<Rightarrow> bool \<Rightarrow> (View, 'k) engine" where
  "noteSkippedCompactionSave e view stopped =
     (if \<not> DeltaHoldsOnlyUnresolvableEdges view then e
      else if \<not> stopped then requestTrustRebuild e else e)"

definition saveSnapshotPrepare ::
    "(View, 'k) engine \<Rightarrow> bool \<Rightarrow> nat \<Rightarrow> bool \<Rightarrow> bool \<Rightarrow> ((View, 'k) engine \<times> pendingSnapshotSave option \<times> string option) option" where
  "saveSnapshotPrepare e stopped epoch conv requireEmptyDelta =
     (if applyEpoch e \<noteq> epoch then Some (e, None, None)
      else case snap e of
        None \<Rightarrow> Some (e, None, None)
      | Some view \<Rightarrow>
          if \<not> saveSnapshotPreconditionsFor (state e) (dirtyGen e) (resolvedDirtyGen e) conv then Some (e, None, None)
          else if Lineage_IsZero (WatermarkLineage (v_base view)) then Some (e, None, None)
          else if requireEmptyDelta \<and> v_segments view \<noteq> [] then Some (noteSkippedCompactionSave e view stopped, None, None)
          else if v_segments view = [] then Some (e, Some \<lparr>ps_snap = v_base view, ps_dirtyGen = dirtyGen e\<rparr>, None)
          else do { r \<leftarrow> FoldWithPendingEdges (v_base view) (v_segments view);
                    case r of
                      Inl err \<Rightarrow> Some (e, None, Some err)
                    | Inr (folded, waiting) \<Rightarrow>
                        if waiting \<noteq> None then Some (e, None, None)
                        else Some (e, Some \<lparr>ps_snap = folded, ps_dirtyGen = dirtyGen e\<rparr>, None) })"

text \<open>The write, and the look at the dirty generation after it: the file may have to go again.\<close>

definition removeSnapshotFile :: "dir_env \<Rightarrow> fs_error option \<Rightarrow> directory \<Rightarrow> string \<Rightarrow> directory" where
  "removeSnapshotFile denv rm d path = fst (RemoveSnapshotFile denv rm d path)"

definition saveSnapshotCheck ::
    "('v, 'k) engine \<Rightarrow> pendingSnapshotSave \<Rightarrow> dir_env \<Rightarrow> fs_error option \<Rightarrow> directory \<Rightarrow> string \<Rightarrow> directory" where
  "saveSnapshotCheck e save denv rm d path =
     (if dirtyGen e \<noteq> ps_dirtyGen save then removeSnapshotFile denv rm d path else d)"

definition invalidateSnapshotFile :: "string option \<Rightarrow> dir_env \<Rightarrow> fs_error option \<Rightarrow> directory \<Rightarrow> directory" where
  "invalidateSnapshotFile path denv rm d = (case path of None \<Rightarrow> d | Some p \<Rightarrow> removeSnapshotFile denv rm d p)"

text \<open>The whole call, with nothing else running.\<close>

definition saveSnapshot ::
    "(View, 'k) engine \<Rightarrow> string option \<Rightarrow> watermarkReading option \<Rightarrow> (int \<times> int) option \<Rightarrow> bool \<Rightarrow> bool \<Rightarrow>
      write_env \<Rightarrow> dir_env \<Rightarrow> fs_error option \<Rightarrow> directory \<Rightarrow> ((View, 'k) engine \<times> directory \<times> string option) option" where
  "saveSnapshot e filePath reading seqs stopped requireEmptyDelta wenv denv rm d =
     (case filePath of
        None \<Rightarrow> Some (e, d, None)
      | Some path \<Rightarrow>
          if snap e = None then Some (e, d, None)
          else let (e1, epoch, stmp, conv) = saveSnapshotProbe e reading seqs stopped in
            do { (e2, prep, err) \<leftarrow> saveSnapshotPrepare e1 stopped epoch conv requireEmptyDelta;
                 case prep of
                   None \<Rightarrow> Some (e2, d, err)
                 | Some save \<Rightarrow>
                     let (d1, werr) = WriteSnapshotFile wenv d path (ps_snap save) stmp
                     in Some (e2, saveSnapshotCheck e2 save denv rm d1 path, werr) })"

definition SaveSnapshot where
  "SaveSnapshot e filePath reading seqs stopped wenv denv rm d = saveSnapshot e filePath reading seqs stopped False wenv denv rm d"

definition saveSnapshotAfterCompaction where
  "saveSnapshotAfterCompaction e filePath reading seqs stopped wenv denv rm d = saveSnapshot e filePath reading seqs stopped True wenv denv rm d"

section \<open>What a save writes\<close>

text \<open>A view whose base was built or read from a file and whose delta fits a fold.\<close>

definition fits_file :: "Snapshot \<Rightarrow> bool" where
  "fits_file s \<longleftrightarrow> file_ranges s \<and> kinds_ok (sKinds s)"

definition savable :: "View \<Rightarrow> bool" where
  "savable v \<longleftrightarrow> snap_ok (v_base v) \<and> finalizeDerived (v_base v) = Some (v_base v) \<and> (\<forall>s \<in> set (v_segments v). seg_ok s) \<and>
     (if v_segments v = [] then fits_file (v_base v)
      else fold_fits (v_base v) (MergeSegments (v_segments v)) \<and>
        (\<forall>f. FoldWithPendingEdges (v_base v) (v_segments v) = Some (Inr (f, None)) \<longrightarrow> fits_file f))"

lemma folded_derived:
  assumes "FoldWithPendingEdges b ss = Some (Inr (f, p))"
  shows "finalizeDerived f = Some f"
proof -
  obtain b2 g where g: "Build b2 = Some g" "f = g\<lparr>MultiGraph := MultiGraph b, WatermarkLineage := WatermarkLineage b\<rparr>"
    using assms by (auto simp: FoldWithPendingEdges_def Let_def bind_eq_Some_conv split: option.splits)
  then show ?thesis using Build_derived [OF g(1)] by (simp add: finalizeDerived_stamps)
qed

lemma stacked_own: "gone_in (v_segments v) i \<Longrightarrow> view_nodes v i = None"
  by (auto simp: gone_in_def view_nodes_def node_states_def apply_nodes_def)

lemma prepared_save:
  assumes prep: "saveSnapshotPrepare e stopped epoch conv req = Some (e', Some save, err)" and sn: "snap e = Some v" and v: "savable v"
  shows "storable (ps_snap save) \<and> view_nodes (NewView (ps_snap save)) = view_nodes v \<and>
    view_edges (NewView (ps_snap save)) = view_edges v \<and> WatermarkLineage (ps_snap save) = WatermarkLineage (v_base v) \<and>
    \<not> Lineage_IsZero (WatermarkLineage (v_base v)) \<and> e' = e \<and> applyEpoch e = epoch \<and> state e = stateServing \<and> conv \<and>
    dirtyGen e = resolvedDirtyGen e \<and> ps_dirtyGen save = dirtyGen e \<and>
    (v_segments v = [] \<or> \<not> req \<and> FoldWithPendingEdges (v_base v) (v_segments v) = Some (Inr (ps_snap save, None)))"
proof -
  have gate: "\<not> Lineage_IsZero (WatermarkLineage (v_base v)) \<and> applyEpoch e = epoch \<and> state e = stateServing \<and> conv \<and> dirtyGen e = resolvedDirtyGen e"
    using prep sn by (auto simp: saveSnapshotPrepare_def saveSnapshotPreconditionsFor_def split: if_splits)
  show ?thesis
  proof (cases "v_segments v = []")
    case True
    then have "ps_snap save = v_base v" "NewView (v_base v) = v" "e' = e" "ps_dirtyGen save = dirtyGen e"
      using prep sn by (auto simp: saveSnapshotPrepare_def NewView_def split: if_splits)
    then show ?thesis using v gate True by (simp add: savable_def storable_def fits_file_def)
  next
    case False
    then obtain r where r: "FoldWithPendingEdges (v_base v) (v_segments v) = Some r"
      using prep sn gate by (auto simp: saveSnapshotPrepare_def saveSnapshotPreconditionsFor_def bind_eq_Some_conv split: if_splits)
    then have f: "FoldWithPendingEdges (v_base v) (v_segments v) = Some (Inr (ps_snap save, None))" and req: "\<not> req" and "e' = e" "ps_dirtyGen save = dirtyGen e"
      using prep sn gate False by (auto simp: saveSnapshotPrepare_def saveSnapshotPreconditionsFor_def split: if_splits sum.splits)
    have st: "stacked_view (v_base v) (v_segments v) = v" "folded_view (ps_snap save, None) [] = NewView (ps_snap save)"
      by (simp_all add: stacked_view_def folded_view_def NewView_def)
    have "\<forall>i. gone_in (v_segments v) i \<longrightarrow> view_nodes v i = None" using stacked_own by blast
    then show ?thesis
      using fold_refines [of "v_base v" "v_segments v"] v f False folded_derived [OF f] gate st req \<open>e' = e\<close> \<open>ps_dirtyGen save = dirtyGen e\<close> 
      by (auto simp: savable_def storable_def fits_file_def dest!: spec [of _ "[]"])
  qed
qed

lemma kinds_unseen: "view_nodes (NewView (s\<lparr>sKinds := kt\<rparr>)) = view_nodes (NewView s)" "view_edges (NewView (s\<lparr>sKinds := kt\<rparr>)) = view_edges (NewView s)"
  by (simp_all add: view_nodes_def view_edges_def view_raw_def NewView_def node_states_def edge_states_def snap_node_def [abs_def] snap_edge_def [abs_def]
      Dense_def EdgeByID_def sourceOfSlot_def NodeCount_def Let_def cong: if_cong)

text \<open>When a save goes ahead, and what is in the file after it.\<close>

definition save_due :: "(View, 'k) engine \<Rightarrow> View \<Rightarrow> watermarkReading option \<Rightarrow> (int \<times> int) option \<Rightarrow> bool \<Rightarrow> bool" where
  "save_due e v reading seqs requireEmptyDelta \<longleftrightarrow> state e = stateServing \<and> dirtyGen e = resolvedDirtyGen e \<and>
     (\<exists>r. reading = Some r \<and> converged r) \<and> seqs \<noteq> None \<and> \<not> Lineage_IsZero (WatermarkLineage (v_base v)) \<and>
     (v_segments v = [] \<or> \<not> requireEmptyDelta \<and> (\<exists>f. FoldWithPendingEdges (v_base v) (v_segments v) = Some (Inr (f, None))))"

definition file_shows :: "directory \<Rightarrow> string \<Rightarrow> View \<Rightarrow> watermarkReading option \<Rightarrow> (int \<times> int) option \<Rightarrow> bool" where
  "file_shows d path v reading seqs \<longleftrightarrow> (\<exists>bs s stmp. d path = Some bs \<and> ReadSnapshotFile bs = Inr (s, stmp) \<and>
     view_nodes (NewView s) = view_nodes v \<and> view_edges (NewView s) = view_edges v \<and> WatermarkLineage s = WatermarkLineage (v_base v) \<and>
     Some (st_Watermark stmp) = map_option r_pgCounter reading \<and> Some (st_NodeIDSeq stmp, st_EdgeIDSeq stmp) = seqs)"

definition probe_ok :: "watermarkReading option \<Rightarrow> (int \<times> int) option \<Rightarrow> bool" where
  "probe_ok reading seqs \<longleftrightarrow> pred_option (\<lambda>r. r_pgCounter r < 2 ^ 64) reading \<and>
     pred_option (\<lambda>(a, b). - (2 ^ 63) \<le> a \<and> a < 2 ^ 63 \<and> - (2 ^ 63) \<le> b \<and> b < 2 ^ 63) seqs"

lemma probe_result:
  assumes "saveSnapshotProbe e reading seqs stopped = (e1, epoch, stmp, conv)"
  shows "epoch = applyEpoch e1 \<and> snap e1 = snap e \<and> state e1 = state e \<and> dirtyGen e1 = dirtyGen e \<and> resolvedDirtyGen e1 = resolvedDirtyGen e \<and>
    (conv \<longleftrightarrow> (\<exists>r. reading = Some r \<and> converged r) \<and> seqs \<noteq> None) \<and>
    (conv \<longrightarrow> Some (st_Watermark stmp) = map_option r_pgCounter reading \<and> Some (st_NodeIDSeq stmp, st_EdgeIDSeq stmp) = seqs \<and>
       (probe_ok reading seqs \<longrightarrow> stamp_ok stmp))"
  using assms by (auto simp: saveSnapshotProbe_def Let_def probe_ok_def stamp_ok_def requestTrustRebuild_def split: option.splits if_splits)

lemma prepare_skips:
  assumes "saveSnapshotPrepare e stopped epoch conv req = Some (e', None, err)" and "snap e = Some v" and "applyEpoch e = epoch"
    and "state e = stateServing" and "dirtyGen e = resolvedDirtyGen e" and "conv" and "\<not> Lineage_IsZero (WatermarkLineage (v_base v))"
  shows "v_segments v \<noteq> [] \<and> (req \<or> (\<forall>f. FoldWithPendingEdges (v_base v) (v_segments v) \<noteq> Some (Inr (f, None))))"
  using assms by (auto simp: saveSnapshotPrepare_def saveSnapshotPreconditionsFor_def split: if_splits)

text \<open>A refusal is no error; only a fold that failed is.\<close>

lemma prepare_error:
  assumes "saveSnapshotPrepare e stopped epoch conv req = Some (e', None, err)" and "snap e = Some v"
  shows "err = None \<or> \<not> req \<and> (\<exists>msg. FoldWithPendingEdges (v_base v) (v_segments v) = Some (Inl msg) \<and> err = Some msg)"
  using assms by (auto simp: saveSnapshotPrepare_def split: if_split_asm Option.bind_split_asm sum.split_asm prod.split_asm)

lemma written_shows:
  assumes s: "storable s" and st: "stamp_ok stmp" and w: "WriteSnapshotFile wenv d path s stmp = (d', err)" and tmp: "we_temp wenv \<noteq> Some path"
  defines "shown \<equiv> \<exists>bs s'. d' path = Some bs \<and> ReadSnapshotFile bs = Inr (s', stmp) \<and> view_nodes (NewView s') = view_nodes (NewView s) \<and>
    view_edges (NewView s') = view_edges (NewView s) \<and> WatermarkLineage s' = WatermarkLineage s"
  shows "d' path = d path \<and> err \<noteq> None \<or> shown"
proof (cases "we_temp wenv")
  case None
  then show ?thesis using w by (auto simp: WriteSnapshotFile_def)
next
  case (Some t)
  obtain kt where "ReadSnapshotFile (file_bytes (enc_body s stmp)) = Inr (s\<lparr>sKinds := kt\<rparr>, stmp)" using read_written [OF s st] by blast
  then have "shown" if "d' = d(t := None, path := Some (file_bytes (enc_body s stmp)))"
    unfolding shown_def using that kinds_unseen by (intro exI [of _ "file_bytes (enc_body s stmp)"] exI [of _ "s\<lparr>sKinds := kt\<rparr>"]) simp
  then show ?thesis using write_bytes(1) [OF w Some] tmp Some by (auto simp: cleanupTemp_def)
qed

text \<open>
  C10. A save writes the replica, whole, or leaves the old file. When the engine serves, its generations
  agree, the watermark reading converged, the id sequences were read, the lineage is known and no delta
  edge would be dropped, a save without an error leaves a file that reads back as a snapshot with exactly
  the nodes and visible edges of the current view, stamped with that reading; a write that fails leaves the
  old file or the complete new one. Otherwise the save touches no file, and it returns no error, unless
  the fold of the delta itself failed, whose error it returns.
\<close>

theorem save_writes_view:
  assumes "snap e = Some v" and "savable v" and "probe_ok reading seqs" and "we_temp wenv \<noteq> Some path"
    and "saveSnapshot e (Some path) reading seqs stopped requireEmptyDelta wenv denv rm d = Some (e', d', err)"
  shows "(save_due e v reading seqs requireEmptyDelta \<longrightarrow> d' path = d path \<and> err \<noteq> None \<or> file_shows d' path v reading seqs) \<and>
    (\<not> save_due e v reading seqs requireEmptyDelta \<longrightarrow> d' = d \<and>
       (err = None \<or> \<not> requireEmptyDelta \<and> (\<exists>msg. FoldWithPendingEdges (v_base v) (v_segments v) = Some (Inl msg) \<and> err = Some msg)))"
proof -
  obtain e1 epoch stmp conv where probe: "saveSnapshotProbe e reading seqs stopped = (e1, epoch, stmp, conv)" by (metis prod_cases4)
  note pr = probe_result [OF probe]
  obtain e2 prep perr where prep: "saveSnapshotPrepare e1 stopped epoch conv requireEmptyDelta = Some (e2, prep, perr)"
    and run: "(case prep of None \<Rightarrow> Some (e2, d, perr) | Some save \<Rightarrow>
       let (d1, werr) = WriteSnapshotFile wenv d path (ps_snap save) stmp in Some (e2, saveSnapshotCheck e2 save denv rm d1 path, werr)) = Some (e', d', err)"
    using assms(1,5) probe by (auto simp: saveSnapshot_def bind_eq_Some_conv)
  have sn: "snap e1 = Some v" using pr assms(1) by simp
  show ?thesis
  proof (cases prep)
    case None
    have "\<not> save_due e v reading seqs requireEmptyDelta"
      using prepare_skips [OF prep [unfolded None] sn] pr by (auto simp: save_due_def)
    then show ?thesis using run None prepare_error [OF prep [unfolded None] sn] by simp
  next
    case (Some save)
    note ps = prepared_save [OF prep [unfolded Some] sn assms(2)]
    obtain d1 where w: "WriteSnapshotFile wenv d path (ps_snap save) stmp = (d1, err)" and d': "d' = d1"
      using run Some ps by (auto simp: Let_def saveSnapshotCheck_def split: prod.splits)
    have "d' path = d path \<and> err \<noteq> None \<or> file_shows d' path v reading seqs"
      using written_shows [OF _ _ w assms(4)] ps pr assms(3) unfolding d' file_shows_def by auto
    moreover have "save_due e v reading seqs requireEmptyDelta" using ps pr by (auto simp: save_due_def)
    ultimately show ?thesis by simp
  qed
qed

text \<open>The example base, served by an engine that has nothing outstanding.\<close>

definition example_engine :: "(View, nat) engine" where
  "example_engine = (eng (rep_init 0 (\<lambda>_. emptyChangeSet)))\<lparr>snap := Some (NewView (example_base\<lparr>WatermarkLineage := replicate 16 1\<rparr>))\<rparr>"

definition example_reading :: watermarkReading where
  "example_reading = \<lparr>r_pgCounter = 7, r_inflight = 0, r_through = 7, r_exact = True\<rparr>"

lemma example_savable: "length l = 16 \<Longrightarrow> savable (NewView (example_base\<lparr>WatermarkLineage := l\<rparr>))"
  using example_relineaged [of l] by (simp add: savable_def NewView_def fits_file_def storable_def)

theorem save_writes_view_witness:
  "\<exists>e d err. saveSnapshot example_engine (Some ''graph.snap'') (Some example_reading) (Some (12, 71)) False False example_write_env
      (we_dir example_write_env) None Map.empty = Some (e, d, err) \<and>
    (d ''graph.snap'' = None \<and> err \<noteq> None \<or>
     file_shows d ''graph.snap'' (NewView (example_base\<lparr>WatermarkLineage := replicate 16 1\<rparr>)) (Some example_reading) (Some (12, 71)))"
proof -
  let ?v = "NewView (example_base\<lparr>WatermarkLineage := replicate 16 1\<rparr>)"
  have sn: "snap example_engine = Some ?v" by (simp add: example_engine_def)
  have due: "save_due example_engine ?v (Some example_reading) (Some (12, 71)) False"
    by (simp add: save_due_def example_engine_def rep_init_def example_reading_def converged_def watermarkConvergedFor_def NewView_def Lineage_IsZero_def)
  have "saveSnapshot example_engine (Some ''graph.snap'') (Some example_reading) (Some (12, 71)) False False example_write_env
      (we_dir example_write_env) None Map.empty \<noteq> None"
    using sn due by (auto simp: saveSnapshot_def saveSnapshotProbe_def saveSnapshotPrepare_def saveSnapshotPreconditionsFor_def example_reading_def
        converged_def watermarkConvergedFor_def save_due_def NewView_def Let_def split: prod.splits)
  then obtain e d err where run: "saveSnapshot example_engine (Some ''graph.snap'') (Some example_reading) (Some (12, 71)) False False example_write_env
      (we_dir example_write_env) None Map.empty = Some (e, d, err)" by (metis not_Some_eq surj_pair)
  have probe: "probe_ok (Some example_reading) (Some (12, 71))" by (simp add: probe_ok_def example_reading_def)
  have "we_temp example_write_env \<noteq> Some ''graph.snap''" by (simp add: example_write_env_def)
  from save_writes_view [OF sn example_savable probe this run] show ?thesis using due run by auto
qed

end
