(* ===== verification/SaveProtocol.thy ===== *)
theory SaveProtocol
  imports Persist
begin

text \<open>
  Saves beside everything else the engine does: the protocol of \<open>internal/engine/persist.go\<close> run together with the
  write-through engine (\<open>rep_step\<close>) and the watermark (\<open>wm_step\<close>). A save samples the epoch, reads the
  convergence, takes the apply lock to decide and to capture, writes its file without the lock and looks
  once more at the dirty generation; a failed bump advances that generation and then removes the file,
  without a lock. The watermark state is the fine-grained form of the engine's ledger and in-flight count.
\<close>

section \<open>The protocol\<close>

text \<open>The counter a write carries in its scope, once its bump has returned.\<close>

definition counter_of :: "('v, 'k) rep \<Rightarrow> nat \<rightharpoonup> nat" where
  "counter_of r x = (case WriteScope_Watermark (scopes r x) of (c, bumped) \<Rightarrow> if bumped then Some c else None)"

text \<open>
  What a save captured, as ghosts: the view under the lock, the stamp, the writes whose bump had failed,
  the self-settling failures, and the writes applied when the epoch was sampled and when the view was taken.
\<close>

record capture =
  cap_view :: View
  cap_stamp :: stamp
  cap_noted :: "nat set"
  cap_selfD :: nat
  cap_probed :: "nat set"
  cap_applied :: "nat set"

text \<open>
  Where a save stands: its probe with the epoch and the reading so far, the probe's result, what it is
  about to write, and the file written but not looked at again. The set is the ghost \<open>cap_probed\<close>.
\<close>

datatype save_phase =
    Probing nat "nat set" reader
  | Probed nat "nat set" stamp bool
  | Prepared pendingSnapshotSave capture
  | Written pendingSnapshotSave

record 'k saver =
  sv_rep :: "(View, 'k) rep"
  sv_wm :: wm
  sv_dir :: directory
  sv_saves :: "save_phase list"
  sv_notes :: nat             \<comment> \<open>noted failures whose removal of the file is still to come\<close>
  sv_file :: "capture option" \<comment> \<open>ghost: the capture the file at the path was written from\<close>
  sv_failed :: bool           \<comment> \<open>a removal failed and left the file\<close>

text \<open>A write's counter is resolved in the ledger when its Apply begins or when it is abandoned.\<close>

definition advanced :: "wm \<Rightarrow> nat option \<Rightarrow> wm \<Rightarrow> bool" where
  "advanced w co w' \<longleftrightarrow> (case co of None \<Rightarrow> w' = w
     | Some c \<Rightarrow> wm_step w w' \<and> c \<in> mine w \<and> mine w' = mine w - {c} \<and> resolvedSet w' = insert c (resolvedSet w))"

definition same_writes :: "('v, 'k) rep \<Rightarrow> ('v, 'k) rep \<Rightarrow> bool" where
  "same_writes r r' \<longleftrightarrow> noted r' = noted r \<and> aborted r' = aborted r \<and> (\<forall>x b. rl r' = Applying x b \<longrightarrow> rl r = Applying x b)"

text \<open>
  The engine's steps are those of \<open>rep_step\<close>; a bump, a failed bump, the start of an Apply and an abandoned
  write are singled out because the watermark or the file takes part in them. \<open>compacted\<close> is the adoption
  of a compaction, which shows the graph of the view it replaces. \<open>watermark\<close> is any step of the watermark
  that resolves nothing: bumps on their way, other writers, rebases, lost responses (of bumps no write
  carries). A save's reading takes the reads of \<open>wm_step\<close> one at a time; it may fail. \<open>prepare\<close> is taken with
  the apply lock free, for views that fit the file format; a fold that panics ends the process.
\<close>

inductive saves_step ::
    "(View, 'k, 'r, 's) apply_env \<Rightarrow> (View \<Rightarrow> nat set) \<Rightarrow> string \<Rightarrow> 'k saver \<Rightarrow> 'k saver \<Rightarrow> bool"
  for env holds path where
  engine: "rep_step env holds (sv_rep s) r' \<Longrightarrow> same_writes (sv_rep s) r' \<Longrightarrow> counter_of r' = counter_of (sv_rep s) \<Longrightarrow>
    saves_step env holds path s (s\<lparr>sv_rep := r'\<rparr>)"
| compacted: "rl (sv_rep s) = Free \<Longrightarrow> snap (eng (sv_rep s)) = Some v \<Longrightarrow> view_nodes v' = view_nodes v \<Longrightarrow> view_edges v' = view_edges v \<Longrightarrow>
    saves_step env holds path s (s\<lparr>sv_rep := (sv_rep s)\<lparr>eng := (eng (sv_rep s))\<lparr>snap := Some v'\<rparr>\<rparr>\<rparr>)"
| watermark: "wm_step (sv_wm s) w' \<Longrightarrow> resolvedSet w' = resolvedSet (sv_wm s) \<Longrightarrow>
    ran (counter_of (sv_rep s)) \<inter> mine (sv_wm s) \<subseteq> mine w' \<Longrightarrow> saves_step env holds path s (s\<lparr>sv_wm := w'\<rparr>)"
| bump: "rep_step env holds (sv_rep s) r' \<Longrightarrow> same_writes (sv_rep s) r' \<Longrightarrow> c \<in> mine (sv_wm s) \<Longrightarrow> c \<notin> ran (counter_of (sv_rep s)) \<Longrightarrow>
    counter_of (sv_rep s) x = None \<Longrightarrow> counter_of r' = (counter_of (sv_rep s))(x \<mapsto> c) \<Longrightarrow>
    saves_step env holds path s (s\<lparr>sv_rep := r'\<rparr>)"
| note_failed: "rep_step env holds (sv_rep s) r' \<Longrightarrow> x \<notin> noted (sv_rep s) \<Longrightarrow> noted r' = insert x (noted (sv_rep s)) \<Longrightarrow>
    saves_step env holds path s (s\<lparr>sv_rep := r', sv_notes := sv_notes s + 1\<rparr>)"
| apply_starts: "rep_step env holds (sv_rep s) r' \<Longrightarrow> rl (sv_rep s) = Free \<Longrightarrow> rl r' = Applying x b \<Longrightarrow>
    advanced (sv_wm s) (counter_of (sv_rep s) x) w' \<Longrightarrow> saves_step env holds path s (s\<lparr>sv_rep := r', sv_wm := w'\<rparr>)"
| abandoned: "rep_step env holds (sv_rep s) r' \<Longrightarrow> x \<notin> aborted (sv_rep s) \<Longrightarrow> aborted r' = insert x (aborted (sv_rep s)) \<Longrightarrow>
    advanced (sv_wm s) (counter_of (sv_rep s) x) w' \<Longrightarrow> saves_step env holds path s (s\<lparr>sv_rep := r', sv_wm := w'\<rparr>)"
| probe_begin: "saves_step env holds path s (s\<lparr>sv_saves := Probing (applyEpoch (eng (sv_rep s))) (applied (sv_rep s)) Idle # sv_saves s\<rparr>)"
| probe_read: "sv_saves s = xs @ Probing epoch A rd1 # ys \<Longrightarrow> wm_step ((sv_wm s)\<lparr>rd := rd1\<rparr>) ((sv_wm s)\<lparr>rd := rd2\<rparr>) \<Longrightarrow>
    saves_step env holds path s (s\<lparr>sv_saves := xs @ Probing epoch A rd2 # ys\<rparr>)"
| probe_end: "sv_saves s = xs @ Probing epoch A rd1 # ys \<Longrightarrow> reading = None \<or> (\<exists>r. rd1 = Done r \<and> reading = Some r) \<Longrightarrow> probe_ok None seqs \<Longrightarrow>
    saveSnapshotProbe ((eng (sv_rep s))\<lparr>applyEpoch := epoch\<rparr>) reading seqs stopped = (e1, epoch', stmp, conv) \<Longrightarrow>
    saves_step env holds path s (s\<lparr>sv_rep := (sv_rep s)\<lparr>eng := e1\<lparr>applyEpoch := applyEpoch (eng (sv_rep s))\<rparr>\<rparr>,
      sv_saves := xs @ Probed epoch' A stmp conv # ys\<rparr>)"
| prepare: "sv_saves s = xs @ Probed epoch A stmp conv # ys \<Longrightarrow> rl (sv_rep s) = Free \<Longrightarrow> snap (eng (sv_rep s)) = Some v \<Longrightarrow> savable v \<Longrightarrow>
    saveSnapshotPrepare (eng (sv_rep s)) stopped epoch conv req = Some (e', Some save, err) \<Longrightarrow>
    saves_step env holds path s (s\<lparr>sv_rep := (sv_rep s)\<lparr>eng := e'\<rparr>,
      sv_saves := xs @ Prepared save \<lparr>cap_view = v, cap_stamp = stmp, cap_noted = noted (sv_rep s), cap_selfD = selfD (sv_rep s),
        cap_probed = A, cap_applied = applied (sv_rep s)\<rparr> # ys\<rparr>)"
| prepare_refused: "sv_saves s = xs @ Probed epoch A stmp conv # ys \<Longrightarrow> rl (sv_rep s) = Free \<Longrightarrow>
    saveSnapshotPrepare (eng (sv_rep s)) stopped epoch conv req = Some (e', None, err) \<Longrightarrow>
    saves_step env holds path s (s\<lparr>sv_rep := (sv_rep s)\<lparr>eng := e'\<rparr>, sv_saves := xs @ ys\<rparr>)"
| write_file: "sv_saves s = xs @ Prepared save cap # ys \<Longrightarrow> we_temp wenv \<noteq> Some path \<Longrightarrow>
    WriteSnapshotFile wenv (sv_dir s) path (ps_snap save) (cap_stamp cap) = (d', err) \<Longrightarrow>
    saves_step env holds path s (s\<lparr>sv_dir := d', sv_saves := xs @ Written save # ys,
      sv_file := (if d' path = sv_dir s path \<and> err \<noteq> None then sv_file s else Some cap)\<rparr>)"
| check: "sv_saves s = xs @ Written save # ys \<Longrightarrow> saveSnapshotCheck (eng (sv_rep s)) save denv rm (sv_dir s) path = d' \<Longrightarrow>
    saves_step env holds path s (s\<lparr>sv_dir := d', sv_saves := xs @ ys, sv_file := (if d' path = None then None else sv_file s),
      sv_failed := (sv_failed s \<or> dirtyGen (eng (sv_rep s)) \<noteq> ps_dirtyGen save \<and> d' path \<noteq> None)\<rparr>)"
| note_remove: "sv_notes s > 0 \<Longrightarrow> invalidateSnapshotFile (Some path) denv rm (sv_dir s) = d' \<Longrightarrow>
    saves_step env holds path s (s\<lparr>sv_dir := d', sv_notes := sv_notes s - 1, sv_file := (if d' path = None then None else sv_file s),
      sv_failed := (sv_failed s \<or> d' path \<noteq> None)\<rparr>)"

definition saves_init :: "nat \<Rightarrow> (nat \<Rightarrow> 'k ChangeSet) \<Rightarrow> directory \<Rightarrow> 'k saver" where
  "saves_init lim csOf d = \<lparr>sv_rep = rep_init lim csOf, sv_wm = wm_init, sv_dir = d, sv_saves = [], sv_notes = 0, sv_file = None, sv_failed = False\<rparr>"

text \<open>\<open>d0\<close> is the directory the process found.\<close>

inductive saves_reach ::
    "(View, 'k, 'r, 's) apply_env \<Rightarrow> (View \<Rightarrow> nat set) \<Rightarrow> (nat \<Rightarrow> 'k ChangeSet) \<Rightarrow> string \<Rightarrow> directory \<Rightarrow> 'k saver \<Rightarrow> bool"
  for env holds csOf path d0 where
  start: "saves_reach env holds csOf path d0 (saves_init lim csOf d0)"
| step: "saves_reach env holds csOf path d0 s \<Longrightarrow> saves_step env holds path s t \<Longrightarrow> saves_reach env holds csOf path d0 t"

section \<open>The engine's side\<close>

text \<open>A write whose outcome is final, up to the Apply that is under way.\<close>

definition finished :: "('v, 'k) rep \<Rightarrow> nat set" where
  "finished r = aborted r \<union> applied r \<union> {x. \<exists>b. rl r = Applying x b}"

lemma finished_step:
  assumes "rep_step env holds r r'" and "struct_inv csOf r"
  shows "finished r \<subseteq> finished r'"
  using assms by cases (auto simp: finished_def applied_def struct_inv_def)

lemma settled_step:
  assumes "rep_step env holds r r'" and "struct_inv csOf r" and "settledW r \<subseteq> finished r"
  shows "settledW r' \<subseteq> finished r'"
proof -
  have "settledW r' \<subseteq> settledW r \<union> finished r'" using assms(1) by cases (auto simp: finished_def)
  then show ?thesis using finished_step [OF assms(1,2)] assms(3) by blast
qed

lemma ops_keep_counter:
  "NoteWatermarkBumpFailure e (Some s) = (e', Some s', b) \<Longrightarrow> WriteScope_Watermark s' = WriteScope_Watermark s"
  "ResolveAbandonedWrite e (Some s) = (e', Some s') \<Longrightarrow> WriteScope_Watermark s' = WriteScope_Watermark s"
  "Apply_begin e (Some s) = (e', Some s', b) \<Longrightarrow> WriteScope_Watermark s' = WriteScope_Watermark s"
  by (auto simp: NoteWatermarkBumpFailure_def markWatermarkBumpFailed_def ResolveAbandonedWrite_def Apply_begin_def engine_defs
      Let_def split: if_splits prod.splits)

text \<open>Which steps do not touch a counter, and what else they leave.\<close>

lemma rep_step_kept:
  assumes "rep_step env holds r r'"
  shows "noted r' \<noteq> noted r \<or> aborted r' \<noteq> aborted r \<or> rl r' \<noteq> rl r \<Longrightarrow> counter_of r' = counter_of r"
    and "noted r' \<noteq> noted r \<Longrightarrow> aborted r' = aborted r \<and> rl r' = rl r"
    and "aborted r' \<noteq> aborted r \<Longrightarrow> noted r' = noted r \<and> rl r' = rl r"
    and "rl r' \<noteq> rl r \<Longrightarrow> noted r' = noted r \<and> aborted r' = aborted r"
  using assms by (cases; auto simp: counter_of_def fun_eq_iff dest: ops_keep_counter)+

lemma rep_step_grows:
  assumes "rep_step env holds r r'"
  shows "aborted r \<subseteq> aborted r' \<and> selfD r \<le> selfD r'"
  using assms by cases auto

text \<open>The protocol's invariant looks at the engine's core and at what its view holds.\<close>

lemma rep_inv_eng:
  assumes "rep_inv holds csOf r" and "core e = core (eng r)" and "map_option holds (snap e) = map_option holds (snap (eng r))"
  shows "rep_inv holds csOf (r\<lparr>eng := e\<rparr>)"
proof -
  let ?r = "r\<lparr>eng := e\<rparr>"
  note [simp] = coreE [OF assms(2) [unfolded core_def [of "eng r"]]]
  have sn: "\<exists>v. snap (eng r) = Some v \<and> holds v' = holds v" if "snap e = Some v'" for v'
    using assms(3) that by (cases "snap (eng r)") auto
  have l: "load_ok holds ?r l \<longleftrightarrow> load_ok holds r l" for l by (cases l) (simp_all add: applied_def)
  have q: "query_ok holds ?r x" if "query_ok holds r x" for x
    using that by (cases x) (auto simp: applied_def dest!: sn)
  have ra: "resolved_at ?r = resolved_at r" by (simp add: resolved_at_def fun_eq_iff)
  have g: "gens_ok ?r x \<longleftrightarrow> gens_ok r x" for x by (cases x) (simp_all add: ra)
  have "view_inv holds ?r" using assms(1) by (auto simp: rep_inv_def view_inv_def applied_def dest!: sn)
  then show ?thesis using assms(1) l q g by (simp add: rep_inv_def struct_inv_def gen_inv_def ra)
qed

text \<open>
  When the generations agree under the free lock and the engine serves, every failed bump so far belongs
  to a write that committed nothing or that the view holds.
\<close>

lemma trusted_view:
  assumes inv: "rep_inv holds csOf r" and set: "settledW r \<subseteq> finished r" and "rl r = Free" and "state (eng r) = stateServing"
    and "snap (eng r) = Some v" and "dirtyGen (eng r) = resolvedDirtyGen (eng r)"
  shows "noted r \<subseteq> aborted r \<union> holds v" and "finished r \<subseteq> aborted r \<union> holds v"
proof -
  have app: "applied r \<subseteq> holds v" using inv assms(4,5) by (simp add: rep_inv_def view_inv_def)
  then show fin: "finished r \<subseteq> aborted r \<union> holds v" using assms(3) by (auto simp: finished_def)
  have gi: "gen_inv r" and "resolved_at r (dirtyGen (eng r))" using inv assms(6) by (simp_all add: rep_inv_def)
  then obtain S ss where S: "dirtyGen (eng r) = card S + ss" "S \<subseteq> settledW r" "ss \<le> selfS r" by (auto simp: resolved_at_def)
  have f: "finite (noted r)" and sub: "S \<subseteq> noted r" using gi S(2) by (auto simp: gen_inv_def)
  have "S = noted r"
    by (rule card_subset_eq [OF f sub]) (use S gi card_mono [OF f sub] in \<open>simp add: gen_inv_def\<close>)
  then show "noted r \<subseteq> aborted r \<union> holds v" using S(2) set fin by blast
qed

section \<open>The invariant\<close>

text \<open>A counter a write carries is unresolved, or the write is finished; only carried counters are resolved.\<close>

definition linked :: "('v, 'k) rep \<Rightarrow> wm \<Rightarrow> bool" where
  "linked r w \<longleftrightarrow> (\<forall>x c. counter_of r x = Some c \<longrightarrow> c \<in> mine w \<or> c \<in> resolvedSet w \<and> x \<in> finished r) \<and>
     resolvedSet w \<subseteq> ran (counter_of r) \<and> inj_on (counter_of r) (dom (counter_of r)) \<and> settledW r \<subseteq> finished r"

text \<open>What a stamp promises of the counters, and a capture of the writes.\<close>

definition stamp_sound :: "wm \<Rightarrow> stamp \<Rightarrow> bool" where
  "stamp_sound w stmp \<longleftrightarrow> stamp_ok stmp \<and> st_Watermark stmp \<le> pgCounter w \<and> (\<forall>c \<in> mine w. st_Watermark stmp < c) \<and>
     {0..st_Watermark stmp} \<subseteq> {0..adopted w} \<union> resolvedSet w"

definition capture_sound :: "(View \<Rightarrow> nat set) \<Rightarrow> (View, 'k) rep \<Rightarrow> wm \<Rightarrow> capture \<Rightarrow> bool" where
  "capture_sound holds r w cap \<longleftrightarrow> stamp_sound w (cap_stamp cap) \<and> cap_applied cap = cap_probed cap \<and> cap_noted cap \<subseteq> noted r \<and>
     cap_noted cap \<subseteq> aborted r \<union> holds (cap_view cap) \<and>
     (\<forall>x c. counter_of r x = Some c \<longrightarrow> c \<le> st_Watermark (cap_stamp cap) \<longrightarrow> x \<in> aborted r \<union> holds (cap_view cap))"

fun phase_ok :: "(View \<Rightarrow> nat set) \<Rightarrow> (View, 'k) rep \<Rightarrow> wm \<Rightarrow> save_phase \<Rightarrow> bool" where
  "phase_ok holds r w (Probing epoch A rd1) \<longleftrightarrow> epoch \<le> applyEpoch (eng r) \<and> (epoch = applyEpoch (eng r) \<longrightarrow> applied r = A) \<and> reader_ok w rd1"
| "phase_ok holds r w (Probed epoch A stmp conv) \<longleftrightarrow> epoch \<le> applyEpoch (eng r) \<and> (epoch = applyEpoch (eng r) \<longrightarrow> applied r = A) \<and>
     (conv \<longrightarrow> stamp_sound w stmp)"
| "phase_ok holds r w (Prepared save cap) \<longleftrightarrow> capture_sound holds r w cap \<and> storable (ps_snap save) \<and>
     view_nodes (NewView (ps_snap save)) = view_nodes (cap_view cap) \<and> view_edges (NewView (ps_snap save)) = view_edges (cap_view cap) \<and>
     ps_dirtyGen save = card (cap_noted cap) + cap_selfD cap \<and> cap_selfD cap \<le> selfD r"
| "phase_ok holds r w (Written save) \<longleftrightarrow> ps_dirtyGen save \<le> dirtyGen (eng r)"

definition file_reads :: "directory \<Rightarrow> string \<Rightarrow> capture \<Rightarrow> bool" where
  "file_reads d path cap \<longleftrightarrow> (\<exists>bs sn. d path = Some bs \<and> ReadSnapshotFile bs = Inr (sn, cap_stamp cap) \<and>
     view_nodes (NewView sn) = view_nodes (cap_view cap) \<and> view_edges (NewView sn) = view_edges (cap_view cap))"

text \<open>A save whose second look is still to come and will remove the file.\<close>

definition will_remove :: "'k saver \<Rightarrow> bool" where
  "will_remove s \<longleftrightarrow> sv_notes s > 0 \<or> (\<exists>save. Written save \<in> set (sv_saves s) \<and> ps_dirtyGen save \<noteq> dirtyGen (eng (sv_rep s)))"

definition file_ok :: "(View \<Rightarrow> nat set) \<Rightarrow> string \<Rightarrow> directory \<Rightarrow> 'k saver \<Rightarrow> bool" where
  "file_ok holds path d0 s \<longleftrightarrow> (case sv_file s of
       None \<Rightarrow> sv_dir s path = None \<or> sv_dir s path = d0 path \<and> (noted (sv_rep s) = {} \<or> sv_failed s \<or> will_remove s)
     | Some cap \<Rightarrow> file_reads (sv_dir s) path cap \<and> capture_sound holds (sv_rep s) (sv_wm s) cap \<and>
         (noted (sv_rep s) = cap_noted cap \<or> sv_failed s \<or> will_remove s))"

definition saves_inv :: "(View \<Rightarrow> nat set) \<Rightarrow> (nat \<Rightarrow> 'k ChangeSet) \<Rightarrow> string \<Rightarrow> directory \<Rightarrow> 'k saver \<Rightarrow> bool" where
  "saves_inv holds csOf path d0 s \<longleftrightarrow> rep_inv holds csOf (sv_rep s) \<and> counts_ok (sv_wm s) \<and> linked (sv_rep s) (sv_wm s) \<and>
     (\<forall>p \<in> set (sv_saves s). phase_ok holds (sv_rep s) (sv_wm s) p) \<and> file_ok holds path d0 s"

section \<open>What only proceeds\<close>

definition proceeds :: "('v, 'k) rep \<Rightarrow> wm \<Rightarrow> ('v, 'k) rep \<Rightarrow> wm \<Rightarrow> bool" where
  "proceeds r w r' w' \<longleftrightarrow> applyEpoch (eng r) \<le> applyEpoch (eng r') \<and> (applyEpoch (eng r) = applyEpoch (eng r') \<longrightarrow> applied r' = applied r) \<and>
     aborted r \<subseteq> aborted r' \<and> noted r \<subseteq> noted r' \<and> selfD r \<le> selfD r' \<and> dirtyGen (eng r) \<le> dirtyGen (eng r') \<and>
     (\<forall>x c. counter_of r' x = Some c \<longrightarrow> counter_of r x = Some c \<or> c \<in> mine w) \<and>
     (\<forall>c \<in> mine w'. c \<in> mine w \<or> pgCounter w < c) \<and> pgCounter w \<le> pgCounter w' \<and> adopted w \<le> adopted w' \<and> resolvedSet w \<subseteq> resolvedSet w'"

lemma wm_grows:
  assumes "wm_step w w'"
  shows "(\<forall>c \<in> mine w'. c \<in> mine w \<or> pgCounter w < c) \<and> pgCounter w \<le> pgCounter w' \<and> adopted w \<le> adopted w' \<and> resolvedSet w \<subseteq> resolvedSet w'"
  using assms by cases auto

lemma rep_grows:
  assumes "rep_step env holds r r'" and "delta_contract env holds csOf" and "rep_inv holds csOf r"
    and "\<forall>x c. counter_of r' x = Some c \<longrightarrow> counter_of r x = Some c \<or> c \<in> mine w"
    and "(\<forall>c \<in> mine w'. c \<in> mine w \<or> pgCounter w < c) \<and> pgCounter w \<le> pgCounter w' \<and> adopted w \<le> adopted w' \<and> resolvedSet w \<subseteq> resolvedSet w'"
  shows "proceeds r w r' w'"
proof -
  have i: "struct_inv csOf r" "gen_inv r" using assms(3) by (simp_all add: rep_inv_def)
  have i': "gen_inv r'" using rep_inv_step [OF assms(1-3)] by (simp add: rep_inv_def)
  note m = step_mono [OF assms(1,2) i] and g = rep_step_grows [OF assms(1)]
  have "card (noted r) \<le> card (noted r')" using m i' by (intro card_mono) (auto simp: gen_inv_def)
  then have "dirtyGen (eng r) \<le> dirtyGen (eng r')" using i(2) i' g by (simp add: gen_inv_def)
  then show ?thesis using m g assms(4,5) by (simp add: proceeds_def)
qed

lemma reader_grows: "proceeds r w r' w' \<Longrightarrow> reader_ok w x \<Longrightarrow> reader_ok w' x"
  by (cases x) (fastforce simp: proceeds_def)+

lemma stamp_grows: "proceeds r w r' w' \<Longrightarrow> stamp_sound w stmp \<Longrightarrow> stamp_sound w' stmp"
  unfolding stamp_sound_def proceeds_def by fastforce

lemma capture_grows:
  assumes g: "proceeds r w r' w'" and c: "capture_sound holds r w cap"
  shows "capture_sound holds r' w' cap"
proof -
  have st: "stamp_sound w (cap_stamp cap)" using c by (simp add: capture_sound_def)
  have "x \<in> aborted r' \<union> holds (cap_view cap)" if x: "counter_of r' x = Some k" "k \<le> st_Watermark (cap_stamp cap)" for x k
  proof -
    have "k \<notin> mine w" using st x(2) by (auto simp: stamp_sound_def)
    then have "counter_of r x = Some k" using g x(1) by (auto simp: proceeds_def)
    then have "x \<in> aborted r \<union> holds (cap_view cap)" using c x(2) unfolding capture_sound_def by blast
    then show ?thesis using g unfolding proceeds_def by blast
  qed
  then show ?thesis using c stamp_grows [OF g st] g by (auto simp: capture_sound_def proceeds_def)
qed

lemma phase_grows:
  assumes g: "proceeds r w r' w'" and p: "phase_ok holds r w p"
  shows "phase_ok holds r' w' p"
proof (cases p)
  case (Probing epoch A rd1)
  then show ?thesis using p g reader_grows [OF g] by (auto simp: proceeds_def)
next
  case (Probed epoch A stmp conv)
  have "conv \<longrightarrow> stamp_sound w' stmp" using p stamp_grows [OF g] by (simp add: Probed)
  then show ?thesis using p g by (auto simp: Probed proceeds_def)
next
  case (Prepared save cap)
  then show ?thesis using p capture_grows [OF g] g by (auto simp: proceeds_def)
next
  case (Written save)
  then show ?thesis using p g by (auto simp: proceeds_def)
qed

section \<open>Every step keeps it\<close>

lemma linked_step:
  assumes "rep_step env holds r r'" and "struct_inv csOf r" and "linked r w" and "counter_of r' = counter_of r"
  shows "linked r' w"
  using finished_step [OF assms(1,2)] settled_step [OF assms(1,2)] assms(3,4) unfolding linked_def by auto

lemma linked_bump:
  assumes "rep_step env holds r r'" and "struct_inv csOf r" and "linked r w" and "c \<in> mine w" and "c \<notin> ran (counter_of r)"
    and "counter_of r x = None" and eq: "counter_of r' = (counter_of r)(x \<mapsto> c)"
  shows "linked r' w"
proof -
  have l: "\<forall>y k. counter_of r y = Some k \<longrightarrow> k \<in> mine w \<or> k \<in> resolvedSet w \<and> y \<in> finished r" "resolvedSet w \<subseteq> ran (counter_of r)"
    "inj_on (counter_of r) (dom (counter_of r))" "settledW r \<subseteq> finished r" using assms(3) by (simp_all add: linked_def)
  have "\<forall>y k. counter_of r' y = Some k \<longrightarrow> k \<in> mine w \<or> k \<in> resolvedSet w \<and> y \<in> finished r'"
    using l(1) assms(4) finished_step [OF assms(1,2)] by (auto simp: eq split: if_splits)
  moreover have "resolvedSet w \<subseteq> ran (counter_of r')" using l(2) assms(6) by (auto simp: eq)
  moreover have "inj_on (counter_of r') (dom (counter_of r'))"
    using l(3) assms(5) unfolding eq inj_on_def by (auto simp: ran_def dom_def)
  ultimately show ?thesis using settled_step [OF assms(1,2) l(4)] by (simp add: linked_def)
qed

lemma linked_advanced:
  assumes l: "linked r w" and a: "advanced w (counter_of r x) w'" and x: "x \<in> finished r"
  shows "linked r w'"
proof (cases "counter_of r x")
  case None
  then show ?thesis using l a by (simp add: advanced_def)
next
  case (Some c)
  have w': "mine w' = mine w - {c}" "resolvedSet w' = insert c (resolvedSet w)" using a Some by (simp_all add: advanced_def)
  have inj: "y = x" if "counter_of r y = Some c" for y
    using l Some that unfolding linked_def inj_on_def by (metis domI)
  have l': "\<forall>y k. counter_of r y = Some k \<longrightarrow> k \<in> mine w \<or> k \<in> resolvedSet w \<and> y \<in> finished r" "resolvedSet w \<subseteq> ran (counter_of r)"
    "inj_on (counter_of r) (dom (counter_of r))" "settledW r \<subseteq> finished r" using l by (simp_all add: linked_def)
  have "k \<in> mine w' \<or> k \<in> resolvedSet w' \<and> y \<in> finished r" if "counter_of r y = Some k" for y k
    using l'(1) that inj [of y] x by (cases "k = c") (auto simp: w')
  moreover have "resolvedSet w' \<subseteq> ran (counter_of r)" using l'(2) ranI [of "counter_of r" x c] Some by (simp add: w')
  ultimately show ?thesis using l'(3,4) unfolding linked_def by blast
qed

lemma advanced_wm:
  assumes "advanced w co w'" and "counts_ok w"
  shows "counts_ok w' \<and> (\<forall>c \<in> mine w'. c \<in> mine w \<or> pgCounter w < c) \<and> pgCounter w \<le> pgCounter w' \<and> adopted w \<le> adopted w' \<and>
    resolvedSet w \<subseteq> resolvedSet w'"
proof (cases co)
  case (Some c)
  then have "wm_step w w'" using assms(1) by (simp add: advanced_def)
  from wm_grows [OF this] counts_step [OF this assms(2)] show ?thesis by blast
qed (use assms in \<open>simp add: advanced_def\<close>)

text \<open>The engine or the watermark moves; no save does.\<close>

lemma saves_move:
  assumes inv: "saves_inv holds csOf path d0 s" and "rep_inv holds csOf r'" and "counts_ok w'" and "linked r' w'"
    and g: "proceeds (sv_rep s) (sv_wm s) r' w'" and n: "sv_notes s \<le> n" "noted r' = noted (sv_rep s) \<or> n > 0"
  shows "saves_inv holds csOf path d0 (s\<lparr>sv_rep := r', sv_wm := w', sv_notes := n\<rparr>)"
proof -
  let ?t = "s\<lparr>sv_rep := r', sv_wm := w', sv_notes := n\<rparr>"
  have ph: "\<forall>p \<in> set (sv_saves s). phase_ok holds (sv_rep s) (sv_wm s) p" and f: "file_ok holds path d0 s" using inv by (simp_all add: saves_inv_def)
  have "will_remove ?t" if "will_remove s"
    using that unfolding will_remove_def
  proof
    assume "\<exists>save. Written save \<in> set (sv_saves s) \<and> ps_dirtyGen save \<noteq> dirtyGen (eng (sv_rep s))"
    then obtain save where sv: "Written save \<in> set (sv_saves s)" "ps_dirtyGen save \<noteq> dirtyGen (eng (sv_rep s))" by blast
    then have "ps_dirtyGen save \<le> dirtyGen (eng (sv_rep s))" using ph by fastforce
    then have "ps_dirtyGen save \<noteq> dirtyGen (eng r')" using sv(2) g by (auto simp: proceeds_def)
    then show "0 < sv_notes ?t \<or> (\<exists>save. Written save \<in> set (sv_saves ?t) \<and> ps_dirtyGen save \<noteq> dirtyGen (eng (sv_rep ?t)))"
      using sv(1) by auto
  qed (use n(1) in simp)
  moreover have "will_remove ?t" if "noted r' \<noteq> noted (sv_rep s)" using that n(2) by (simp add: will_remove_def)
  ultimately have "file_ok holds path d0 ?t"
    using f capture_grows [OF g] by (cases "noted r' = noted (sv_rep s)") (auto simp: file_ok_def split: option.splits)
  then show ?thesis using assms(2-4) ph phase_grows [OF g] by (simp add: saves_inv_def)
qed

text \<open>The engine keeps its core and what its view holds, and perhaps a save that has not written moves.\<close>

lemma saves_eng:
  assumes inv: "saves_inv holds csOf path d0 s"
    and e: "core e = core (eng (sv_rep s))" "map_option holds (snap e) = map_option holds (snap (eng (sv_rep s)))"
  shows "saves_inv holds csOf path d0 (s\<lparr>sv_rep := (sv_rep s)\<lparr>eng := e\<rparr>\<rparr>)"
proof -
  let ?r = "(sv_rep s)\<lparr>eng := e\<rparr>"
  note [simp] = coreE [OF e(1) [unfolded core_def [of "eng (sv_rep s)"]]]
  have i: "rep_inv holds csOf (sv_rep s)" "counts_ok (sv_wm s)" "linked (sv_rep s) (sv_wm s)" using inv by (simp_all add: saves_inv_def)
  have "linked ?r (sv_wm s)" using i(3) by (simp add: linked_def counter_of_def [abs_def] finished_def applied_def)
  moreover have "proceeds (sv_rep s) (sv_wm s) ?r (sv_wm s)" by (simp add: proceeds_def applied_def counter_of_def)
  ultimately have "saves_inv holds csOf path d0 (s\<lparr>sv_rep := ?r, sv_wm := sv_wm s, sv_notes := sv_notes s\<rparr>)"
    by (intro saves_move [OF inv rep_inv_eng [OF i(1) e] i(2)]) simp_all
  then show ?thesis by simp
qed

lemma saves_phase:
  assumes inv: "saves_inv holds csOf path d0 s" and "sv_saves s = xs @ p # ys" and p: "\<And>save. p \<noteq> Written save"
    and e: "core e = core (eng (sv_rep s))" "snap e = snap (eng (sv_rep s))"
    and js: "\<And>q. q \<in> set js \<Longrightarrow> phase_ok holds ((sv_rep s)\<lparr>eng := e\<rparr>) (sv_wm s) q" and nw: "\<And>save. Written save \<notin> set js"
  shows "saves_inv holds csOf path d0 (s\<lparr>sv_rep := (sv_rep s)\<lparr>eng := e\<rparr>, sv_saves := xs @ js @ ys\<rparr>)"
  using saves_eng [OF inv e(1)] e(2) js nw assms(2) p by (auto simp: saves_inv_def file_ok_def will_remove_def split: option.splits)

text \<open>The engine's steps, with the watermark as it is or advanced.\<close>

lemma saves_rep:
  assumes dc: "delta_contract env holds csOf" and inv: "saves_inv holds csOf path d0 s" and st: "rep_step env holds (sv_rep s) r'"
    and w: "counts_ok w' \<and> (\<forall>c \<in> mine w'. c \<in> mine (sv_wm s) \<or> pgCounter (sv_wm s) < c) \<and> pgCounter (sv_wm s) \<le> pgCounter w' \<and>
      adopted (sv_wm s) \<le> adopted w' \<and> resolvedSet (sv_wm s) \<subseteq> resolvedSet w'"
    and "linked r' w'" and c: "\<forall>x c. counter_of r' x = Some c \<longrightarrow> counter_of (sv_rep s) x = Some c \<or> c \<in> mine (sv_wm s)"
    and n: "sv_notes s \<le> n" "noted r' = noted (sv_rep s) \<or> n > 0"
  shows "saves_inv holds csOf path d0 (s\<lparr>sv_rep := r', sv_wm := w', sv_notes := n\<rparr>)"
proof -
  have ri: "rep_inv holds csOf (sv_rep s)" using inv by (simp add: saves_inv_def)
  show ?thesis using w rep_grows [OF st dc ri c] by (intro saves_move [OF inv rep_inv_step [OF st dc ri] _ assms(5) _ n]) blast+
qed

lemma apply_links:
  assumes st: "rep_step env holds r r'" and i: "struct_inv csOf r" "linked r w" and "counter_of r' = counter_of r"
    and a: "advanced w (counter_of r x) w'" and x: "x \<in> finished r'"
  shows "linked r' w'"
  using linked_advanced [OF linked_step [OF st i assms(4)] _ x] a assms(4) by simp

lemma probe_keeps:
  assumes "saveSnapshotProbe e reading seqs stopped = (e1, epoch, stmp, conv)"
  shows "core e1 = core e \<and> snap e1 = snap e \<and> epoch = applyEpoch e"
  using assms by (auto simp: saveSnapshotProbe_def Let_def core_def split: option.splits if_splits)

lemma prepare_keeps:
  assumes "saveSnapshotPrepare e stopped epoch conv req = Some (e', save, err)"
  shows "core e' = core e \<and> snap e' = snap e"
  using assms by (auto simp: saveSnapshotPrepare_def noteSkippedCompactionSave_def core_def
      split: if_split_asm option.split_asm Option.bind_split_asm sum.split_asm prod.split_asm)

text \<open>A converged reading makes a sound stamp.\<close>

lemma probe_stamp:
  assumes "saveSnapshotProbe e reading seqs stopped = (e1, epoch, stmp, conv)" and "conv" and "counts_ok w" and rk: "reader_ok w rd1"
    and rd: "reading = None \<or> (\<exists>r. rd1 = Done r \<and> reading = Some r)" and sq: "probe_ok None seqs"
  shows "stamp_sound w stmp"
proof -
  note pr = probe_result [OF assms(1)]
  obtain r where r: "reading = Some r" "converged r" "rd1 = Done r" using pr assms(2) rd by auto
  have le: "r_pgCounter r \<le> pgCounter w" and mine: "r_inflight r = 0 \<longrightarrow> (\<forall>c \<in> mine w. r_pgCounter r < c)"
    and cov: "{0..r_through r} \<subseteq> {0..adopted w} \<union> resolvedSet w" using rk r(3) by simp_all
  have "pgCounter w < 2 ^ 64" using assms(3) by (auto simp: counts_ok_def)
  then have "probe_ok reading seqs" using sq le by (simp add: probe_ok_def r(1))
  moreover have "st_Watermark stmp = r_pgCounter r" using pr assms(2) r(1) by simp
  ultimately show ?thesis
    using pr assms(2) le mine cov r(2) by (simp add: stamp_sound_def converged_def watermarkConvergedFor_def)
qed

text \<open>What the locked step captures is sound.\<close>

lemma prepare_captures:
  assumes inv: "saves_inv holds csOf path d0 s" and ph: "phase_ok holds (sv_rep s) (sv_wm s) (Probed epoch A stmp conv)"
    and "rl (sv_rep s) = Free" and sn: "snap (eng (sv_rep s)) = Some v" and sv: "savable v"
    and prep: "saveSnapshotPrepare (eng (sv_rep s)) stopped epoch conv req = Some (e', Some save, err)"
  shows "phase_ok holds (sv_rep s) (sv_wm s) (Prepared save \<lparr>cap_view = v, cap_stamp = stmp, cap_noted = noted (sv_rep s),
    cap_selfD = selfD (sv_rep s), cap_probed = A, cap_applied = applied (sv_rep s)\<rparr>)"
proof -
  note ps = prepared_save [OF prep sn sv]
  let ?r = "sv_rep s" and ?w = "sv_wm s"
  have i: "rep_inv holds csOf ?r" "linked ?r ?w" using inv by (simp_all add: saves_inv_def)
  then have set: "settledW ?r \<subseteq> finished ?r" and gi: "gen_inv ?r" by (simp_all add: linked_def rep_inv_def)
  note tv = trusted_view [OF i(1) set assms(3) _ sn, of]
  have holds: "noted ?r \<subseteq> aborted ?r \<union> holds v" "finished ?r \<subseteq> aborted ?r \<union> holds v" using tv ps by simp_all
  have stmp: "stamp_sound ?w stmp" and A: "applied ?r = A" using ph ps by simp_all
  have "x \<in> aborted ?r \<union> holds v" if x: "counter_of ?r x = Some c" "c \<le> st_Watermark stmp" for x c
  proof -
    have "c \<notin> mine ?w" using stmp x(2) by (auto simp: stamp_sound_def)
    then have "x \<in> finished ?r" using i(2) x(1) unfolding linked_def by blast
    then show ?thesis using holds(2) by blast
  qed
  then show ?thesis using holds(1) stmp A ps gi by (auto simp: capture_sound_def gen_inv_def)
qed

lemma reader_other [simp]: "reader_ok (w\<lparr>rd := x\<rparr>) y = reader_ok w y" "counts_ok (w\<lparr>rd := x\<rparr>) = counts_ok w"
  by (cases y; simp) (simp add: counts_ok_def)

lemma remove_presence: "removeSnapshotFile denv rm d path path = Some bs \<Longrightarrow> d path = Some bs"
  by (auto simp: removeSnapshotFile_def RemoveSnapshotFile_def Let_def split: if_splits option.splits)

text \<open>The three steps that touch the file.\<close>

lemma file_written_inv:
  assumes inv: "saves_inv holds csOf path d0 s" and sv: "sv_saves s = xs @ Prepared save cap # ys" and tmp: "we_temp wenv \<noteq> Some path"
    and w: "WriteSnapshotFile wenv (sv_dir s) path (ps_snap save) (cap_stamp cap) = (d', err)"
  shows "saves_inv holds csOf path d0 (s\<lparr>sv_dir := d', sv_saves := xs @ Written save # ys,
    sv_file := (if d' path = sv_dir s path \<and> err \<noteq> None then sv_file s else Some cap)\<rparr>)"
proof -
  let ?r = "sv_rep s"
  have ph: "phase_ok holds ?r (sv_wm s) (Prepared save cap)" and gi: "gen_inv ?r"
    and f: "file_ok holds path d0 s" using inv sv by (simp_all add: saves_inv_def rep_inv_def)
  then have cs: "capture_sound holds ?r (sv_wm s) cap" and st: "storable (ps_snap save)" and stmp: "stamp_ok (cap_stamp cap)"
    and eq: "view_nodes (NewView (ps_snap save)) = view_nodes (cap_view cap)" "view_edges (NewView (ps_snap save)) = view_edges (cap_view cap)"
    and ps: "ps_dirtyGen save = card (cap_noted cap) + cap_selfD cap" "cap_selfD cap \<le> selfD ?r" "cap_noted cap \<subseteq> noted ?r"
    by (auto simp: capture_sound_def stamp_sound_def)
  have same: "noted ?r = cap_noted cap" if "dirtyGen (eng ?r) = ps_dirtyGen save"
  proof (rule card_subset_eq [OF _ ps(3), symmetric])
    show "card (cap_noted cap) = card (noted ?r)" using that gi ps card_mono [OF _ ps(3)] by (simp add: gen_inv_def)
  qed (use gi in \<open>simp add: gen_inv_def\<close>)
  have le: "ps_dirtyGen save \<le> dirtyGen (eng ?r)" using gi ps card_mono [OF _ ps(3)] by (auto simp: gen_inv_def intro: add_mono)
  let ?t = "s\<lparr>sv_dir := d', sv_saves := xs @ Written save # ys, sv_file := (if d' path = sv_dir s path \<and> err \<noteq> None then sv_file s else Some cap)\<rparr>"
  have more: "will_remove ?t" if "will_remove s" using that by (auto simp: will_remove_def sv)
  have "file_ok holds path d0 ?t"
  proof (cases "d' path = sv_dir s path \<and> err \<noteq> None")
    case True
    then show ?thesis using f more by (auto simp: file_ok_def file_reads_def split: option.splits)
  next
    case False
    then have "file_reads d' path cap" using written_shows [OF st stmp w tmp] eq by (auto simp: file_reads_def)
    moreover have "noted ?r = cap_noted cap \<or> will_remove ?t" using same by (auto simp: will_remove_def)
    ultimately show ?thesis using False cs by (auto simp: file_ok_def)
  qed
  then show ?thesis using inv sv le by (auto simp: saves_inv_def)
qed

lemma removed_inv:
  assumes inv: "saves_inv holds csOf path d0 s" and rm: "removeSnapshotFile denv rm (sv_dir s) path = d'" and "set ps \<subseteq> set (sv_saves s)"
  shows "saves_inv holds csOf path d0 (s\<lparr>sv_dir := d', sv_saves := ps, sv_notes := n, sv_file := (if d' path = None then None else sv_file s),
    sv_failed := (sv_failed s \<or> d' path \<noteq> None)\<rparr>)"
proof (cases "d' path")
  case None
  then show ?thesis using inv assms(3) by (auto simp: saves_inv_def file_ok_def)
next
  case (Some bs)
  then have "sv_dir s path = d' path" using rm remove_presence by auto
  then show ?thesis using inv assms(3) Some by (auto simp: saves_inv_def file_ok_def file_reads_def split: option.splits)
qed

lemma checked_inv:
  assumes inv: "saves_inv holds csOf path d0 s" and sv: "sv_saves s = xs @ Written save # ys" and "dirtyGen (eng (sv_rep s)) = ps_dirtyGen save"
  shows "saves_inv holds csOf path d0 (s\<lparr>sv_saves := xs @ ys\<rparr>)"
  using inv assms(3) by (auto simp: saves_inv_def file_ok_def will_remove_def sv split: option.splits)

lemma saves_step_inv:
  assumes "saves_step env holds path s t" and dc: "delta_contract env holds csOf" and inv: "saves_inv holds csOf path d0 s"
    and graph: "\<And>v v'. view_nodes v' = view_nodes v \<Longrightarrow> view_edges v' = view_edges v \<Longrightarrow> holds v' = holds v"
  shows "saves_inv holds csOf path d0 t"
proof -
  have i: "struct_inv csOf (sv_rep s)" "counts_ok (sv_wm s)" "linked (sv_rep s) (sv_wm s)"
    and ph: "\<forall>p \<in> set (sv_saves s). phase_ok holds (sv_rep s) (sv_wm s) p" using inv by (simp_all add: saves_inv_def rep_inv_def)
  note rep = saves_rep [OF dc inv]
  from assms(1) show ?thesis
  proof cases
    case (engine r')
    then show ?thesis using rep [OF engine(2), of "sv_wm s" "sv_notes s"] linked_step [OF engine(2) i(1,3) engine(4)] i(2) engine by (simp add: same_writes_def)
  next
    case (compacted v v')
    then show ?thesis using saves_eng [OF inv, of "(eng (sv_rep s))\<lparr>snap := Some v'\<rparr>"] graph [of v' v] by (simp add: core_def)
  next
    case (watermark w')
    have "linked (sv_rep s) w'" using i(3) watermark(3,4) unfolding linked_def by (auto intro: ranI)
    then have "saves_inv holds csOf path d0 (s\<lparr>sv_rep := sv_rep s, sv_wm := w', sv_notes := sv_notes s\<rparr>)"
      using inv wm_grows [OF watermark(2)] counts_step [OF watermark(2) i(2)]
      by (intro saves_move [OF inv]) (simp_all add: saves_inv_def proceeds_def)
    then show ?thesis using watermark(1) by simp
  next
    case (bump r' c x)
    have "linked r' (sv_wm s)" using linked_bump [OF bump(2) i(1,3)] bump by simp
    then show ?thesis using rep [OF bump(2), of "sv_wm s" "sv_notes s"] bump i(2) by (simp add: same_writes_def)
  next
    case (note_failed r' x)
    have c: "counter_of r' = counter_of (sv_rep s)" using rep_step_kept(1) [OF note_failed(2)] note_failed by auto
    then show ?thesis using rep [OF note_failed(2), of "sv_wm s" "sv_notes s + 1"] linked_step [OF note_failed(2) i(1,3) c] i(2) note_failed(1) by simp
  next
    case (apply_starts r' x b w')
    have c: "counter_of r' = counter_of (sv_rep s)" "noted r' = noted (sv_rep s)" using rep_step_kept(1,4) [OF apply_starts(2)] apply_starts by auto
    have "x \<in> finished r'" using apply_starts by (simp add: finished_def)
    from apply_links [OF apply_starts(2) i(1,3) c(1) apply_starts(5) this] show ?thesis
      using rep [OF apply_starts(2) advanced_wm [OF apply_starts(5) i(2)], of "sv_notes s"] c apply_starts(1) by simp
  next
    case (abandoned r' x w')
    have c: "counter_of r' = counter_of (sv_rep s)" "noted r' = noted (sv_rep s)" using rep_step_kept(1,3) [OF abandoned(2)] abandoned by auto
    have "x \<in> finished r'" using abandoned by (simp add: finished_def)
    from apply_links [OF abandoned(2) i(1,3) c(1) abandoned(5) this] show ?thesis
      using rep [OF abandoned(2) advanced_wm [OF abandoned(5) i(2)], of "sv_notes s"] c abandoned(1) by simp
  next
    case probe_begin
    then show ?thesis using inv by (auto simp: saves_inv_def file_ok_def will_remove_def split: option.splits)
  next
    case (probe_read xs epoch A rd1 ys rd2)
    have "phase_ok holds (sv_rep s) (sv_wm s) (Probing epoch A rd1)" using ph probe_read(2) by simp
    moreover have "reader_ok (sv_wm s) rd2" using reader_step [OF probe_read(3)] i(2) calculation by simp
    ultimately show ?thesis using saves_phase [OF inv probe_read(2), of "eng (sv_rep s)" "[Probing epoch A rd2]"] probe_read(1) by simp
  next
    case (probe_end xs epoch A rd1 ys reading seqs stopped e1 epoch' stmp conv)
    have p: "phase_ok holds (sv_rep s) (sv_wm s) (Probing epoch A rd1)" using ph probe_end(2) by simp
    note k = probe_keeps [OF probe_end(5)]
    have "conv \<longrightarrow> stamp_sound (sv_wm s) stmp" using probe_stamp [OF probe_end(5) _ i(2) _ probe_end(3,4)] p by simp
    then show ?thesis
      using saves_phase [OF inv probe_end(2), of "e1\<lparr>applyEpoch := applyEpoch (eng (sv_rep s))\<rparr>" "[Probed epoch' A stmp conv]"] probe_end(1) p k
      by (simp add: core_def applied_def)
  next
    case (prepare xs epoch A stmp conv ys v stopped req e' save err)
    have p: "phase_ok holds (sv_rep s) (sv_wm s) (Probed epoch A stmp conv)" using ph prepare(2) by simp
    have e: "e' = eng (sv_rep s)" using prepared_save [OF prepare(6,4,5)] by simp
    note cap = prepare_captures [OF inv p prepare(3-6)]
    have "saves_inv holds csOf path d0 (s\<lparr>sv_rep := (sv_rep s)\<lparr>eng := e'\<rparr>, sv_saves := xs @ [Prepared save \<lparr>cap_view = v, cap_stamp = stmp,
        cap_noted = noted (sv_rep s), cap_selfD = selfD (sv_rep s), cap_probed = A, cap_applied = applied (sv_rep s)\<rparr>] @ ys\<rparr>)"
      by (rule saves_phase [OF inv prepare(2)]) (use cap e in auto)
    then show ?thesis using prepare(1) by simp
  next
    case (prepare_refused xs epoch A stmp conv ys stopped req e' err)
    then show ?thesis using saves_phase [OF inv prepare_refused(2), of e' "[]"] prepare_keeps [OF prepare_refused(4)] by simp
  next
    case (write_file xs save cap ys wenv d' err)
    then show ?thesis using file_written_inv [OF inv] by simp
  next
    case (check xs save ys denv rm d')
    show ?thesis
    proof (cases "dirtyGen (eng (sv_rep s)) = ps_dirtyGen save")
      case True
      then show ?thesis using checked_inv [OF inv check(2) True] check by (auto simp: saveSnapshotCheck_def saves_inv_def file_ok_def will_remove_def split: option.splits)
    next
      case False
      have "set (xs @ ys) \<subseteq> set (sv_saves s)" using check(2) by auto
      then show ?thesis using removed_inv [OF inv, of denv rm d' "xs @ ys" "sv_notes s"] check(1,3) False by (simp add: saveSnapshotCheck_def)
    qed
  next
    case (note_remove denv rm d')
    then show ?thesis using removed_inv [OF inv, of denv rm d' "sv_saves s" "sv_notes s - 1"] by (simp add: invalidateSnapshotFile_def)
  qed
qed

lemma saves_reach_inv:
  assumes "saves_reach env holds csOf path d0 s" and dc: "delta_contract env holds csOf"
    and "\<And>v v'. view_nodes v' = view_nodes v \<Longrightarrow> view_edges v' = view_edges v \<Longrightarrow> holds v' = holds v"
  shows "saves_inv holds csOf path d0 s"
  using assms(1)
proof (induction rule: saves_reach.induct)
  case (start lim)
  have "counter_of (rep_init lim csOf :: (View, 'a) rep) = Map.empty"
    by (simp add: counter_of_def fun_eq_iff rep_init_def WriteScope_Watermark_def NewWriteScope_def)
  moreover have "counts_ok wm_init" using wm_reach_inv [OF wm_reach.start] by simp
  moreover have "rep_inv holds csOf (rep_init lim csOf)" by (rule rep_reach_inv [OF rep_reach.start dc])
  ultimately show ?case by (simp add: saves_init_def saves_inv_def linked_def file_ok_def will_remove_def) (simp add: rep_init_def wm_init_def)
next
  case (step s t)
  then show ?case using saves_step_inv [OF _ dc _ assms(3)] by blast
qed

section \<open>A file never counts a write it does not hold\<close>

text \<open>
  C8. A snapshot file never counts a write it does not hold. However saves interleave with bumps, failed
  bumps, commits, applies, abandoned writes, rebuilds, compactions and the reads of the watermark, once no
  save is between its write and its second look, no noted failure is yet to remove the file and no removal
  was refused by the file system, the path holds nothing, or the file the process found there and no bump
  has failed since, or a file that reads back as a snapshot and a stamp such that: every write whose
  counter is at most the stamp's, and every write whose bump ever failed, either committed nothing or is
  in the snapshot; every counter up to the stamp's was carried by such a write or lies at or below the floor of an
  adopted load; and no write was applied between the sample of the epoch of the save that wrote it and its
  capture of the view.
\<close>

theorem saved_file_counts_every_write:
  assumes "saves_reach env holds csOf path d0 s" and "delta_contract env holds csOf"
    and "\<And>v v'. view_nodes v' = view_nodes v \<Longrightarrow> view_edges v' = view_edges v \<Longrightarrow> holds v' = holds v"
    and "sv_notes s = 0" and "\<not> (\<exists>save. Written save \<in> set (sv_saves s))" and "\<not> sv_failed s"
  shows "sv_dir s path = None \<or>
    sv_dir s path = d0 path \<and> noted (sv_rep s) = {} \<or>
    (\<exists>bs sn stmp cap. sv_dir s path = Some bs \<and> ReadSnapshotFile bs = Inr (sn, stmp) \<and>
      (\<forall>x c. counter_of (sv_rep s) x = Some c \<longrightarrow> c \<le> st_Watermark stmp \<longrightarrow> x \<in> aborted (sv_rep s) \<union> holds (NewView sn)) \<and>
      noted (sv_rep s) \<subseteq> aborted (sv_rep s) \<union> holds (NewView sn) \<and>
      (\<forall>c \<le> st_Watermark stmp. c \<le> adopted (sv_wm s) \<or> c \<in> ran (counter_of (sv_rep s))) \<and>
      sv_file s = Some cap \<and> cap_stamp cap = stmp \<and> cap_applied cap = cap_probed cap)"
proof -
  have inv: "file_ok holds path d0 s" "linked (sv_rep s) (sv_wm s)"
    using saves_reach_inv [OF assms(1-3)] by (simp_all add: saves_inv_def)
  have now: "\<not> will_remove s" using assms(4,5) by (auto simp: will_remove_def)
  show ?thesis
  proof (cases "sv_file s")
    case None
    then show ?thesis using inv(1) now assms(6) by (auto simp: file_ok_def)
  next
    case (Some cap)
    then have c: "capture_sound holds (sv_rep s) (sv_wm s) cap" and n: "noted (sv_rep s) = cap_noted cap" and r: "file_reads (sv_dir s) path cap"
      using inv(1) now assms(6) by (simp_all add: file_ok_def)
    obtain bs sn where f: "sv_dir s path = Some bs" "ReadSnapshotFile bs = Inr (sn, cap_stamp cap)" "holds (NewView sn) = holds (cap_view cap)"
      using r assms(3) unfolding file_reads_def by blast
    have "k \<le> adopted (sv_wm s) \<or> k \<in> ran (counter_of (sv_rep s))" if "k \<le> st_Watermark (cap_stamp cap)" for k
    proof -
      have "k \<in> {0..adopted (sv_wm s)} \<union> resolvedSet (sv_wm s)" using c that by (auto simp: capture_sound_def stamp_sound_def)
      then show ?thesis using inv(2) by (auto simp: linked_def)
    qed
    then show ?thesis using c n f Some unfolding capture_sound_def by (intro disjI2 exI [of _ bs] exI [of _ sn] exI [of _ "cap_stamp cap"] exI [of _ cap]) auto
  qed
qed

text \<open>
  A run: write 9 is bumped to counter 1, commits and is applied while there is no view; a load that holds
  it is adopted; a save probes, captures, writes and looks again. A view holds the writes whose node it
  has, and the read-back of a write fails.
\<close>

definition down_env :: "(View, nat, unit, unit) apply_env" where
  "down_env = \<lparr>env_readBack = (\<lambda>_ _. Inl ''connection refused''), env_buildApplySegment = (\<lambda>_ _. Inl ''no rows''), env_WithSegment = (\<lambda>v _. v),
     env_ApproxBytes = (\<lambda>_. 0), env_maintainAfterPublish = (\<lambda>e _. e)\<rparr>"

definition node_writes :: "View \<Rightarrow> nat set" where
  "node_writes v = dom (view_nodes v)"

lemma down_contract: "delta_contract down_env node_writes ids_log"
  by (simp add: delta_contract_def down_env_def ids_log_def RecordNodeID_def emptyChangeSet_def ChangeSet_Empty_def)

definition stored_view :: View where
  "stored_view = NewView (example_base\<lparr>WatermarkLineage := replicate 16 1\<rparr>)"

lemma stored_view_holds: "9 \<in> node_writes stored_view"
proof -
  have "view_nodes stored_view = snap_node example_base"
    by (simp add: stored_view_def view_nodes_def NewView_def node_states_def apply_nodes_def snap_node_def [abs_def] Dense_def NodeCount_def Let_def fun_eq_iff
        split: option.splits cong: if_cong)
  then show ?thesis by (simp add: node_writes_def example_base_ok(3) example_nodes_def node_of_def)
qed

lemma saves_by: "saves_reach env holds csOf path d0 s \<Longrightarrow> saves_step env holds path s t' \<Longrightarrow> t' = t \<Longrightarrow> saves_reach env holds csOf path d0 t"
  by (blast intro: saves_reach.step)

definition example_wm :: wm where
  "example_wm = wm_init\<lparr>pgCounter := 1, wm.appliedWatermark := resolve zeroLedger 1, resolvedSet := {1}\<rparr>"

lemma applied_run:
  "\<exists>r. saves_reach down_env node_writes ids_log ''graph.snap'' Map.empty ((saves_init 0 ids_log Map.empty)\<lparr>sv_rep := r, sv_wm := example_wm\<rparr>) \<and>
     rl r = Free \<and> snap (eng r) = Some stored_view \<and> state (eng r) = stateServing \<and> dirtyGen (eng r) = 0 \<and> resolvedDirtyGen (eng r) = 0 \<and>
     counter_of r 9 = Some 1 \<and> aborted r = {}"
proof -
  let ?R = "saves_reach down_env node_writes ids_log ''graph.snap'' Map.empty"
  define s0 where "s0 = (saves_init 0 ids_log Map.empty :: nat saver)"
  define r0 where "r0 = (rep_init 0 ids_log :: (View, nat) rep)"
  define sc where "sc = SetWatermark (scopes r0 9) 1"
  define e1 where "e1 = engine.inflightBumps_update (\<lambda>_. engine.inflightBumps (eng r0) + 1) (eng r0)"
  define r1 where "r1 = r0\<lparr>eng := e1, scopes := (scopes r0)(9 := sc)\<rparr>"
  define r2 where "r2 = r1\<lparr>committed := {9}, pending := {9}\<rparr>"
  define r3 where "r3 = r2\<lparr>eng := AdvanceWatermark e1 1, rl := Applying 9 False\<rparr>"
  define r4 where "r4 = r3\<lparr>eng := Apply_finish down_env (eng r3) (Some sc) False, rl := Free, pending := {}\<rparr>"
  define r5 where "r5 = r4\<lparr>loads := {LEpoch 1}\<rparr>"
  define r6 where "r6 = r4\<lparr>loads := {LGen 1 0 {} 0, LEpoch 1}\<rparr>"
  define r7 where "r7 = r4\<lparr>loads := {LView 1 0 {} 0 stored_view, LGen 1 0 {} 0, LEpoch 1}\<rparr>"
  define r8 where "r8 = r7\<lparr>eng := adopt_store (eng r7) stored_view 0, rl := Adopting, held := node_writes stored_view\<rparr>"
  define r9 where "r9 = r8\<lparr>eng := adopt_flip (eng r8), rl := Free\<rparr>"
  define w1 where "w1 = wm_init\<lparr>wm.inflightBumps := 1, sent := 1\<rparr>"
  define w2 where "w2 = w1\<lparr>pgCounter := 1, sent := 0, mine := {1}\<rparr>"
  define w3 where "w3 = w2\<lparr>wm.appliedWatermark := resolve zeroLedger 1, mine := {}, recorded := {1}, resolvedSet := {1}\<rparr>"
  note ws = w1_def w2_def w3_def wm_init_def example_wm_def
  note rs = r0_def rep_init_def sc_def e1_def r1_def r2_def r3_def
  have cr: "counter_of r0 = Map.empty" "counter_of r1 = [9 \<mapsto> 1]" "counter_of r2 = [9 \<mapsto> 1]" "counter_of r3 = [9 \<mapsto> 1]" "counter_of r4 = [9 \<mapsto> 1]"
    by (simp_all add: counter_of_def rs r4_def fun_eq_iff WriteScope_Watermark_def SetWatermark_def NewWriteScope_def)
  have e4: "state (eng r4) = stateServing" "snap (eng r4) = None" "applyEpoch (eng r4) = 1" "dirtyGen (eng r4) = 0" "settledDirtyGen (eng r4) = 0"
    "resolvedDirtyGen (eng r4) = 0"
    by (simp_all add: r4_def rs Apply_finish_def down_env_def AdvanceWatermark_def ids_log_def RecordNodeID_def emptyChangeSet_def HasFallback_def
        ChangeSet_Empty_def NewWriteScope_def Let_def)
  have 0: "?R s0" unfolding s0_def by (rule saves_reach.start)
  have 1: "?R (s0\<lparr>sv_wm := w1\<rparr>)" by (rule saves_by [OF 0 saves_step.watermark [OF wm_step.bump_begin]]) (simp_all add: s0_def saves_init_def ws)
  have 2: "?R (s0\<lparr>sv_wm := w2\<rparr>)" by (rule saves_by [OF 1 saves_step.watermark [OF wm_step.bump_commit]]) (simp_all add: s0_def saves_init_def ws)
  have b: "rep_step down_env node_writes r0 r1"
    using rep_step.bump_ok [of 9 r0 down_env node_writes 1] by (simp add: r1_def e1_def sc_def) (simp add: r0_def rep_init_def)
  have 3: "?R (s0\<lparr>sv_rep := r1, sv_wm := w2\<rparr>)"
    by (rule saves_by [OF 2 saves_step.bump [of _ _ _ r1 1 9]])
      (use b cr in \<open>simp_all add: s0_def saves_init_def same_writes_def r0_def [symmetric]\<close>, simp_all add: ws r1_def)
  have c: "rep_step down_env node_writes r1 r2"
    using rep_step.commit [of 9 r1 down_env node_writes] by (simp add: r2_def) (simp add: r1_def r0_def rep_init_def)
  have 4: "?R (s0\<lparr>sv_rep := r2, sv_wm := w2\<rparr>)"
    by (rule saves_by [OF 3 saves_step.engine [of _ _ _ r2]]) (use c cr in \<open>simp_all add: same_writes_def r2_def\<close>)
  have "Apply_begin (eng r2) (Some (scopes r2 9)) = (AdvanceWatermark e1 1, Some (scopes r2 9), False)"
    by (simp add: rs Apply_begin_def settleWatermarkFailure_def takeWatermarkBumpFailure_def WriteScope_Watermark_def SetWatermark_def NewWriteScope_def Let_def)
  from rep_step.apply_begin [OF _ _ this, of down_env node_writes] have a: "rep_step down_env node_writes r2 r3"
    by (simp add: r3_def) (simp add: r2_def r1_def r0_def rep_init_def)
  have "wm_step w2 w3" using wm_step.advance_record [of 1 w2] by (simp add: ws)
  then have adv: "advanced w2 (counter_of r2 9) w3" by (simp add: advanced_def cr) (simp add: ws)
  have 5: "?R (s0\<lparr>sv_rep := r3, sv_wm := w3\<rparr>)"
    by (rule saves_by [OF 4 saves_step.apply_starts [of _ _ _ r3 9 False w3]]) (use a adv in \<open>simp_all add: r3_def\<close>, simp add: r2_def r1_def r0_def rep_init_def)
  have 6: "?R (s0\<lparr>sv_rep := r3, sv_wm := example_wm\<rparr>)"
    by (rule saves_by [OF 5 saves_step.watermark [OF wm_step.advance_retire [of 1]]]) (simp_all add: ws)
  have f: "rep_step down_env node_writes r3 r4"
    using rep_step.apply_finish [of r3 9 False down_env node_writes] by (simp add: r4_def r3_def r2_def r1_def)
  have 7: "?R (s0\<lparr>sv_rep := r4, sv_wm := example_wm\<rparr>)"
    by (rule saves_by [OF 6 saves_step.engine [of _ _ _ r4]]) (use f cr in \<open>simp_all add: same_writes_def r4_def\<close>)
  have keep: "?R (s0\<lparr>sv_rep := r', sv_wm := example_wm\<rparr>)" if "?R (s0\<lparr>sv_rep := r, sv_wm := example_wm\<rparr>)" "rep_step down_env node_writes r r'"
    "noted r' = noted r \<and> aborted r' = aborted r \<and> scopes r' = scopes r \<and> rl r' \<in> {Free, Adopting}" for r r'
    by (rule saves_by [OF that(1) saves_step.engine [of _ _ _ r']]) (use that(2,3) in \<open>auto simp: same_writes_def counter_of_def fun_eq_iff\<close>)
  have l4: "loads r4 = {}" "settledW r4 = {}" "selfS r4 = 0" "committed r4 = {9}" "held r4 = {}" "rl r4 = Free" by (simp_all add: r4_def rs)
  have 8: "?R (s0\<lparr>sv_rep := r5, sv_wm := example_wm\<rparr>)"
    using keep [OF 7 rep_step.load_epoch] l4 e4 by (simp add: r5_def)
  have 9: "?R (s0\<lparr>sv_rep := r6, sv_wm := example_wm\<rparr>)"
    using keep [OF 8 rep_step.load_gen [of 1]] l4 e4 by (simp add: r5_def r6_def)
  have 10: "?R (s0\<lparr>sv_rep := r7, sv_wm := example_wm\<rparr>)"
    using keep [OF 9 rep_step.load_read [of 1 0 "{}" 0 _ _ stored_view]] l4 stored_view_holds by (simp add: r6_def r7_def)
  have 11: "?R (s0\<lparr>sv_rep := r8, sv_wm := example_wm\<rparr>)"
    using keep [OF 10 rep_step.adopt_begin [of _ 1 0 "{}" 0 stored_view]] l4 e4 by (simp add: r7_def r8_def)
  have 12: "?R (s0\<lparr>sv_rep := r9, sv_wm := example_wm\<rparr>)"
    using keep [OF 11 rep_step.adopt_end] by (simp add: r8_def r9_def)
  have "counter_of r9 = counter_of r4" by (simp add: counter_of_def fun_eq_iff r9_def r8_def r7_def)
  then show ?thesis using 12 e4 cr by (intro exI [of _ r9]) (simp add: s0_def r9_def r8_def r7_def, simp add: r4_def rs)
qed

lemma stored_written:
  assumes "stamp_ok stmp"
  shows "\<exists>d bs sn. WriteSnapshotFile example_write_env Map.empty ''graph.snap'' (v_base stored_view) stmp = (d, None) \<and>
    d ''graph.snap'' = Some bs \<and> ReadSnapshotFile bs = Inr (sn, stmp)"
proof -
  let ?b = "v_base stored_view"
  define bw where "bw = snd (run_state (writeSnapshotBody (\<lambda>_. None) ?b stmp) \<lparr>bw_out = [], bw_calls = 0, bw_err = False\<rparr>)"
  have "\<not> bw_err bw"
    using writes_body [of "\<lambda>_. None" ?b stmp, unfolded writes_def Let_def, THEN spec [of _ "\<lparr>bw_out = [], bw_calls = 0, bw_err = False\<rparr>"]]
    by (simp add: bw_def)
  then obtain d where w: "WriteSnapshotFile example_write_env Map.empty ''graph.snap'' ?b stmp = (d, None)"
    by (simp add: WriteSnapshotFile_def syncDir_def example_write_env_def Let_def flip: bw_def)
  have "storable ?b" using example_relineaged [of "replicate 16 1"] by (simp add: stored_view_def NewView_def)
  from written_shows [OF this assms w] w show ?thesis by (auto simp: example_write_env_def)
qed

lemma saved_run:
  "\<exists>s bs sn stmp. saves_reach down_env node_writes ids_log ''graph.snap'' Map.empty s \<and> sv_notes s = 0 \<and> sv_saves s = [] \<and> \<not> sv_failed s \<and>
     sv_dir s ''graph.snap'' = Some bs \<and> ReadSnapshotFile bs = Inr (sn, stmp) \<and> st_Watermark stmp = 1 \<and>
     counter_of (sv_rep s) 9 = Some 1 \<and> aborted (sv_rep s) = {}"
proof -
  let ?p = "''graph.snap''" and ?R = "saves_reach down_env node_writes ids_log ''graph.snap'' Map.empty"
  let ?stmp = "\<lparr>st_Watermark = 1, st_NodeIDSeq = 12, st_EdgeIDSeq = 71\<rparr>"
  let ?rd = "\<lparr>r_pgCounter = 1, r_inflight = 0, r_through = 1, r_exact = True\<rparr>" and ?save = "\<lparr>ps_snap = v_base stored_view, ps_dirtyGen = 0\<rparr>"
  obtain r where r: "?R ((saves_init 0 ids_log Map.empty)\<lparr>sv_rep := r, sv_wm := example_wm\<rparr>)" and e: "rl r = Free" "snap (eng r) = Some stored_view"
    "state (eng r) = stateServing" "dirtyGen (eng r) = 0" "resolvedDirtyGen (eng r) = 0" "counter_of r 9 = Some 1" "aborted r = {}" using applied_run by blast
  define s where "s = (saves_init 0 ids_log Map.empty :: nat saver)\<lparr>sv_rep := r, sv_wm := example_wm\<rparr>"
  have s: "sv_rep s = r" "sv_wm s = example_wm" "sv_saves s = []" "sv_dir s = Map.empty" "sv_notes s = 0" "\<not> sv_failed s"
    by (simp_all add: s_def saves_init_def)
  have same: "s\<lparr>sv_rep := r, sv_saves := ps\<rparr> = s\<lparr>sv_saves := ps\<rparr>" for ps by (simp add: s_def saves_init_def)
  define ep A where "ep = applyEpoch (eng r)" and "A = applied r"
  define cap where "cap = \<lparr>cap_view = stored_view, cap_stamp = ?stmp, cap_noted = noted r, cap_selfD = selfD r, cap_probed = A, cap_applied = applied r\<rparr>"
  have through: "resolvedThrough (resolve zeroLedger (Suc 0)) = (Suc 0, True)"
    by (simp add: resolvedThrough_def resolve_def zeroLedger_def insertLocked_def advanceLocked_def u64_def maxLedgerRanges_def)
  have 0: "?R s" using r by (simp add: s_def)
  have 1: "?R (s\<lparr>sv_saves := [Probing ep A Idle]\<rparr>)" by (rule saves_by [OF 0 saves_step.probe_begin]) (simp add: s ep_def A_def)
  have 2: "?R (s\<lparr>sv_saves := [Probing ep A (ReadCounter 1)]\<rparr>)"
    by (rule saves_by [OF 1 saves_step.probe_read [of _ "[]" ep A Idle "[]" "ReadCounter 1"]])
      (use wm_step.read_counter [of "example_wm\<lparr>rd := Idle\<rparr>"] in \<open>simp_all add: s example_wm_def\<close>)
  have 3: "?R (s\<lparr>sv_saves := [Probing ep A (ReadInflight 1 0)]\<rparr>)"
    by (rule saves_by [OF 2 saves_step.probe_read [of _ "[]" ep A "ReadCounter 1" "[]" "ReadInflight 1 0"]])
      (use wm_step.read_inflight [of "example_wm\<lparr>rd := ReadCounter 1\<rparr>" 1] in \<open>simp_all add: s example_wm_def wm_init_def\<close>)
  have 4: "?R (s\<lparr>sv_saves := [Probing ep A (Done ?rd)]\<rparr>)"
    by (rule saves_by [OF 3 saves_step.probe_read [of _ "[]" ep A "ReadInflight 1 0" "[]" "Done ?rd"]])
      (use wm_step.read_ledger [of "example_wm\<lparr>rd := ReadInflight 1 0\<rparr>" 1 0] in \<open>simp_all add: s example_wm_def wm_init_def through\<close>)
  have "saveSnapshotProbe ((eng r)\<lparr>applyEpoch := ep\<rparr>) (Some ?rd) (Some (12, 71)) False = (eng r, ep, ?stmp, True)"
    by (simp add: ep_def saveSnapshotProbe_def converged_def watermarkConvergedFor_def)
  then have 5: "?R (s\<lparr>sv_saves := [Probed ep A ?stmp True]\<rparr>)"
    by (intro saves_by [OF 4 saves_step.probe_end [of _ "[]" ep A "Done ?rd" "[]" "Some ?rd" "Some (12, 71)" False "eng r" ep ?stmp True]])
      (simp_all add: s probe_ok_def same)
  have "saveSnapshotPrepare (eng r) False ep True False = Some (eng r, Some ?save, None)"
    using e by (simp add: saveSnapshotPrepare_def saveSnapshotPreconditionsFor_def ep_def) (simp add: stored_view_def NewView_def Lineage_IsZero_def)
  moreover have "savable stored_view" unfolding stored_view_def by (rule example_savable) simp
  ultimately have 6: "?R (s\<lparr>sv_saves := [Prepared ?save cap]\<rparr>)"
    by (intro saves_by [OF 5 saves_step.prepare [of _ "[]" ep A ?stmp True "[]" stored_view False False "eng r" ?save None]])
      (use e in \<open>simp_all add: s same cap_def\<close>)
  have "stamp_ok ?stmp" by (simp add: stamp_ok_def)
  from stored_written [OF this] obtain d bs sn where w: "WriteSnapshotFile example_write_env Map.empty ?p (v_base stored_view) ?stmp = (d, None)"
    "d ?p = Some bs" "ReadSnapshotFile bs = Inr (sn, ?stmp)" by blast
  have 7: "?R (s\<lparr>sv_dir := d, sv_saves := [Written ?save], sv_file := Some cap\<rparr>)"
    by (rule saves_by [OF 6 saves_step.write_file [of _ "[]" ?save cap "[]" example_write_env ?p d None]])
      (use w in \<open>simp_all add: s cap_def example_write_env_def\<close>)
  have 8: "?R (s\<lparr>sv_dir := d, sv_saves := [], sv_file := Some cap\<rparr>)"
    by (rule saves_by [OF 7 saves_step.check [of _ "[]" ?save "[]" undefined None ?p d]])
      (use w e in \<open>simp_all add: s saveSnapshotCheck_def\<close>)
  show ?thesis
    by (rule exI [of _ "s\<lparr>sv_dir := d, sv_saves := [], sv_file := Some cap\<rparr>"], rule exI [of _ bs], rule exI [of _ sn], rule exI [of _ ?stmp])
      (use 8 w e s in simp)
qed

theorem saved_file_counts_every_write_witness:
  "\<exists>s bs sn stmp. saves_reach down_env node_writes ids_log ''graph.snap'' Map.empty s \<and> sv_dir s ''graph.snap'' = Some bs \<and>
     ReadSnapshotFile bs = Inr (sn, stmp) \<and> st_Watermark stmp = 1 \<and> counter_of (sv_rep s) 9 = Some 1 \<and> 9 \<in> node_writes (NewView sn)"
proof -
  obtain s bs sn stmp where s: "saves_reach down_env node_writes ids_log ''graph.snap'' Map.empty s" "sv_notes s = 0"
    "\<not> (\<exists>save. Written save \<in> set (sv_saves s))" "\<not> sv_failed s"
    and f: "sv_dir s ''graph.snap'' = Some bs" "ReadSnapshotFile bs = Inr (sn, stmp)" "st_Watermark stmp = 1" "counter_of (sv_rep s) 9 = Some 1" "aborted (sv_rep s) = {}"
    using saved_run by fastforce
  have "9 \<in> node_writes (NewView sn)"
    using saved_file_counts_every_write [OF s(1) down_contract _ s(2-4)] f by (fastforce simp: node_writes_def)
  then show ?thesis using s(1) f by blast
qed

end
