(* ===== verification/Boot.thy ===== *)
theory Boot
  imports FileRoundtrip Replica
begin

text \<open>
  Booting from the snapshot file, the first half of \<open>internal/engine/boot.go\<close>: the gates a file passes, the
  cover decision on the buffered writes, their replay in counter order and the adoption of the result.
  Reads from PostgreSQL and the estimate of a snapshot's size are arguments, as is what \<open>Apply\<close> calls (\<open>apply_env\<close>).
  Between two attempts other goroutines run: \<open>waits\<close> lists what they do to the engine in each pause until
  the deadline or the cancellation of the boot.
\<close>

section \<open>Replay\<close>

fun replayWrites :: "(View, 'k, 'r, 's) apply_env \<Rightarrow> View \<Rightarrow> nat \<Rightarrow> 'k bootGapEntry list \<Rightarrow> string + (View \<times> nat)" where
  "replayWrites env view replayed [] = Inr (view, replayed)"
| "replayWrites env view replayed (entry # rest) =
     (case e_cs entry of
        None \<Rightarrow> replayWrites env view replayed rest
      | Some cs \<Rightarrow>
          (case env_readBack env view cs of
             Inl err \<Rightarrow> Inl ''boot write replay failed''
           | Inr (rb, cs') \<Rightarrow>
               if fst (HasFallback cs') then Inl ''boot write replay cannot be expressed as a delta''
               else case env_buildApplySegment env view rb of
                      Inl err \<Rightarrow> Inl ''boot write replay failed''
                    | Inr seg \<Rightarrow> replayWrites env (env_WithSegment env view seg) (replayed + 1) rest))"

section \<open>One attempt\<close>

datatype adoptAttempt = adoptAttemptAdopted | adoptAttemptRejected | adoptAttemptNotYetCovered

text \<open>The engine, the writes replayed, the verdict, and the writes buffered when the gap is not covered yet.\<close>

definition adoptSnapshotFileAttempt ::
    "(View, 'k, 'r, 's) apply_env \<Rightarrow> (View, 'k) engine \<Rightarrow> Snapshot \<Rightarrow> nat \<Rightarrow> nat \<Rightarrow> nat \<Rightarrow> (View, 'k) engine \<times> nat \<times> adoptAttempt \<times> nat" where
  "adoptSnapshotFileAttempt env e sn fileWatermark pgSnapshot settledGen =
     (if snap e \<noteq> None then (e, 0, adoptAttemptRejected, 0)
      else if state e \<noteq> stateServing then (e, 0, adoptAttemptRejected, 0)
      else if settledDirtyGen e \<noteq> settledGen then (e, 0, adoptAttemptRejected, 0)
      else let (peeked, bad) = gap_peek (bootGap e) in
        if bad \<noteq> [] then (e, 0, adoptAttemptRejected, 0)
        else case fst (bootGapCoveredAt fileWatermark pgSnapshot (map e_counter peeked)) of
          bootGapContradiction \<Rightarrow> (e, 0, adoptAttemptRejected, 0)
        | bootGapHole \<Rightarrow> (e, 0, adoptAttemptNotYetCovered, length peeked)
        | bootGapCovered \<Rightarrow>
            let (gap, es, bad) = gap_take (bootGap e);
                e1 = e\<lparr>bootGap := gap\<rparr> in
            if bad \<noteq> [] then (e1, 0, adoptAttemptRejected, 0)
            else case replayWrites env (NewView sn) 0 (sort_key e_counter es) of
              Inl err \<Rightarrow> (e1, 0, adoptAttemptRejected, 0)
            | Inr (view, replayed) \<Rightarrow>
                if MemoryLimit e1 > 0 \<and> env_ApproxBytes env view > MemoryLimit e1 then (e1, 0, adoptAttemptRejected, 0)
                else (env_maintainAfterPublish env
                        (e1\<lparr>appliedWatermark := rebase (appliedWatermark e1) pgSnapshot, snap := Some view,
                           resolvedDirtyGen := maxWatermark (resolvedDirtyGen e1) settledGen\<rparr>) view,
                      replayed, adoptAttemptAdopted, 0))"

section \<open>Attempts until the deadline\<close>

fun settleGap ::
    "(View, 'k, 'r, 's) apply_env \<Rightarrow> Snapshot \<Rightarrow> nat \<Rightarrow> nat \<Rightarrow> nat \<Rightarrow> ((View, 'k) engine \<Rightarrow> (View, 'k) engine) list \<Rightarrow>
      (View, 'k) engine \<Rightarrow> (View, 'k) engine \<times> nat \<times> bool" where
  "settleGap env sn fileWatermark pgSnapshot settledGen waits e =
     (case adoptSnapshotFileAttempt env e sn fileWatermark pgSnapshot settledGen of
        (e', replayed, verdict, buffered) \<Rightarrow>
          (case verdict of
             adoptAttemptAdopted \<Rightarrow> (e', replayed, True)
           | adoptAttemptRejected \<Rightarrow> (e', 0, False)
           | adoptAttemptNotYetCovered \<Rightarrow>
               (case waits of [] \<Rightarrow> (e', 0, False) | w # ws \<Rightarrow> settleGap env sn fileWatermark pgSnapshot settledGen ws (w e'))))"

declare settleGap.simps [simp del]

definition adoptSnapshotFileView ::
    "(View, 'k, 'r, 's) apply_env \<Rightarrow> startState option \<Rightarrow> (nat \<times> lineage) option \<Rightarrow> ((View, 'k) engine \<Rightarrow> (View, 'k) engine) list \<Rightarrow>
      (View, 'k) engine \<Rightarrow> Snapshot \<Rightarrow> stamp \<Rightarrow> nat \<Rightarrow> (View, 'k) engine \<times> nat \<times> bool" where
  "adoptSnapshotFileView env atStart counterRead waits e sn stmp settledGen =
     (case counterRead of
        None \<Rightarrow> (e, 0, False)
      | Some (pgSnapshot, pgLineage) \<Rightarrow>
          if fileRefusal atStart (WatermarkLineage sn) stmp pgLineage \<noteq> [] then (e, 0, False)
          else settleGap env sn (st_Watermark stmp) pgSnapshot settledGen waits e)"

text \<open>\<open>during\<close> is what other goroutines do while the file is read; \<open>firstRead\<close> and \<open>counterRead\<close> are the two reads of the counter and its lineage.\<close>

definition tryLoadSnapshotFile ::
    "(View, 'k, 'r, 's) apply_env \<Rightarrow> (Snapshot \<Rightarrow> nat) \<Rightarrow> startState option \<Rightarrow> string option \<Rightarrow> directory \<Rightarrow> (nat \<times> lineage) option \<Rightarrow>
      ((View, 'k) engine \<Rightarrow> (View, 'k) engine) \<Rightarrow> (nat \<times> lineage) option \<Rightarrow> ((View, 'k) engine \<Rightarrow> (View, 'k) engine) list \<Rightarrow>
      (View, 'k) engine \<Rightarrow> (View, 'k) engine \<times> bool" where
  "tryLoadSnapshotFile env snapBytes atStart filePath d firstRead during counterRead waits e =
     (case filePath of
        None \<Rightarrow> (e, False)
      | Some path \<Rightarrow>
          let settledGen = settledDirtyGen e in
          case d path of
            None \<Rightarrow> (e, False)
          | Some bs \<Rightarrow>
              (case ReadSnapshotFileHeader bs of
                 Inl err \<Rightarrow> (e, False)
               | Inr header \<Rightarrow>
                   if (case firstRead of None \<Rightarrow> False | Some (pgWatermark, pgLineage) \<Rightarrow> fileRefusal atStart (h_Lineage header) (h_Stamp header) pgLineage \<noteq> [])
                   then (e, False)
                   else case ReadSnapshotFile bs of
                     Inl err \<Rightarrow> (e, False)
                   | Inr (sn, stmp) \<Rightarrow>
                       if MemoryLimit e > 0 \<and> snapBytes sn > MemoryLimit e then (e, False)
                       else (case adoptSnapshotFileView env atStart counterRead waits (during e) sn stmp settledGen of
                               (e', replayed, adopted) \<Rightarrow> (e', adopted))))"

section \<open>What is relied on\<close>

text \<open>
  \<open>holds v\<close> are the watermark counters whose writes the view \<open>v\<close> shows, and \<open>wr\<close> the change log of each
  counter (\<open>None\<close>: its write changed nothing). As in \<open>Apply\<close>, a segment built from the read-back of a write
  makes a view hold the write and keeps what it held, and maintenance after a publish keeps the contents.
\<close>

definition replay_contract :: "(View, 'k, 'r, 's) apply_env \<Rightarrow> (View \<Rightarrow> nat set) \<Rightarrow> (nat \<Rightarrow> 'k ChangeSet option) \<Rightarrow> bool" where
  "replay_contract env holds wr \<longleftrightarrow>
     (\<forall>v c cs rb cs' seg. wr c = Some cs \<longrightarrow> env_readBack env v cs = Inr (rb, cs') \<longrightarrow> \<not> fst (HasFallback cs') \<longrightarrow>
        env_buildApplySegment env v rb = Inr seg \<longrightarrow> insert c (holds v) \<subseteq> holds (env_WithSegment env v seg)) \<and>
     (\<forall>c v. wr c = None \<longrightarrow> c \<in> holds v) \<and>
     (\<forall>e v. snap e = Some v \<longrightarrow> core (env_maintainAfterPublish env e v) = core e \<and>
        (\<exists>v'. snap (env_maintainAfterPublish env e v) = Some v' \<and> holds v \<subseteq> holds v'))"

definition buffer_ok :: "(nat \<Rightarrow> 'k ChangeSet option) \<Rightarrow> (View, 'k) engine \<Rightarrow> bool" where
  "buffer_ok wr e \<longleftrightarrow> (\<forall>en \<in> set (entries (bootGap e)). e_cs en = wr (e_counter en))"

lemma replay_holds:
  assumes c: "replay_contract env holds wr" and "replayWrites env v n es = Inr (v', n')" and "\<forall>en \<in> set es. e_cs en = wr (e_counter en)"
  shows "holds v \<union> e_counter ` set es \<subseteq> holds v'"
  using assms(2,3)
proof (induction es arbitrary: v n)
  case (Cons en es)
  show ?case
  proof (cases "e_cs en")
    case None
    then have "e_counter en \<in> holds v'" using c Cons.prems(2) by (auto simp: replay_contract_def)
    moreover have "holds v \<union> e_counter ` set es \<subseteq> holds v'" using Cons.IH [of v n] Cons.prems None by simp
    ultimately show ?thesis by simp
  next
    case (Some cs)
    then obtain rb cs' seg where run: "env_readBack env v cs = Inr (rb, cs')" "\<not> fst (HasFallback cs')" "env_buildApplySegment env v rb = Inr seg"
      "replayWrites env (env_WithSegment env v seg) (n + 1) es = Inr (v', n')"
      using Cons.prems(1) by (auto split: sum.splits if_splits)
    have "wr (e_counter en) = Some cs" using Cons.prems(2) Some by simp
    then have "insert (e_counter en) (holds v) \<subseteq> holds (env_WithSegment env v seg)" using c run by (auto simp: replay_contract_def)
    moreover have "holds (env_WithSegment env v seg) \<union> e_counter ` set es \<subseteq> holds v'" using Cons.IH [OF run(4)] Cons.prems(2) by simp
    ultimately show ?thesis by auto
  qed
qed simp

lemma attempt_adopts:
  assumes c: "replay_contract env holds wr" and b: "buffer_ok wr e" and lim: "pgSnapshot < 2 ^ 64 - 1"
    and a: "adoptSnapshotFileAttempt env e sn fileWatermark pgSnapshot settledGen = (e', n, adoptAttemptAdopted, m)"
  shows "state e' = stateServing \<and> settledDirtyGen e' = settledGen \<and> resolvedDirtyGen e' = max (resolvedDirtyGen e) settledGen \<and>
    applyEpoch e' = applyEpoch e \<and> fileWatermark \<le> pgSnapshot \<and>
    (\<exists>v. snap e' = Some v \<and> holds (NewView sn) \<union> {fileWatermark + 1..pgSnapshot} \<union> e_counter ` set (entries (bootGap e)) \<subseteq> holds v)"
proof -
  let ?es = "entries (bootGap e)"
  have cov: "fst (bootGapCoveredAt fileWatermark pgSnapshot (map e_counter ?es)) = bootGapCovered"
    and st: "snap e = None" "state e = stateServing" "settledDirtyGen e = settledGen"
    using a by (auto simp: adoptSnapshotFileAttempt_def gap_peek_def Let_def split: if_splits bootGapVerdict.splits)
  obtain v where v: "replayWrites env (NewView sn) 0 (sort_key e_counter ?es) = Inr (v, n)"
    and e': "e' = env_maintainAfterPublish env (e\<lparr>bootGap := (bootGap e)\<lparr>active := False, entries := [], gapKeyCount := 0\<rparr>,
        appliedWatermark := rebase (appliedWatermark e) pgSnapshot, snap := Some v, resolvedDirtyGen := maxWatermark (resolvedDirtyGen e) settledGen\<rparr>) v"
    using a cov st by (auto simp: adoptSnapshotFileAttempt_def gap_peek_def gap_take_def Let_def split: if_splits sum.splits)
  have 1: "holds (NewView sn) \<union> e_counter ` set ?es \<subseteq> holds v" using replay_holds [OF c v] b by (simp add: buffer_ok_def)
  have 2: "{fileWatermark + 1..pgSnapshot} \<subseteq> e_counter ` set ?es" and le: "fileWatermark \<le> pgSnapshot"
    using cov bootgap_verdict [OF lim, of fileWatermark "map e_counter ?es"] by (auto split: if_splits)
  obtain v' where v': "snap e' = Some v'" "holds v \<subseteq> holds v'"
    and core: "core e' = (Enabled e, stateServing, applyEpoch e, dirtyGen e, settledGen, max (resolvedDirtyGen e) settledGen)"
  proof -
    define e2 where "e2 = e\<lparr>bootGap := (bootGap e)\<lparr>active := False, entries := [], gapKeyCount := 0\<rparr>,
        appliedWatermark := rebase (appliedWatermark e) pgSnapshot, snap := Some v, resolvedDirtyGen := maxWatermark (resolvedDirtyGen e) settledGen\<rparr>"
    have "snap e2 = Some v" by (simp add: e2_def)
    then have "core e' = core e2 \<and> (\<exists>v'. snap e' = Some v' \<and> holds v \<subseteq> holds v')"
      using c unfolding replay_contract_def e' e2_def [symmetric] by blast
    then show ?thesis using that st by (auto simp: e2_def core_def maxWatermark_def)
  qed
  have "holds (NewView sn) \<union> {fileWatermark + 1..pgSnapshot} \<union> e_counter ` set ?es \<subseteq> holds v'" using 1 2 v'(2) by blast
  then show ?thesis using v'(1) core le by (simp add: core_def)
qed

text \<open>An attempt that does not adopt changes nothing but the buffer it may have taken.\<close>

lemma attempt_refuses:
  assumes "adoptSnapshotFileAttempt env e sn fileWatermark pgSnapshot settledGen = (e', n, verdict, m)" and "verdict \<noteq> adoptAttemptAdopted"
  shows "\<exists>gap. e' = e\<lparr>bootGap := gap\<rparr> \<and> (verdict = adoptAttemptNotYetCovered \<longrightarrow> gap = bootGap e)"
  using assms by (auto simp: adoptSnapshotFileAttempt_def gap_peek_def gap_take_def Let_def split: if_splits bootGapVerdict.splits sum.splits
      intro: exI [of _ "bootGap e"])

lemma settleGap_adopts:
  assumes c: "replay_contract env holds wr" and lim: "pgSnapshot < 2 ^ 64 - 1"
  shows "buffer_ok wr e \<Longrightarrow> \<forall>w \<in> set waits. \<forall>x. buffer_ok wr x \<longrightarrow> buffer_ok wr (w x) \<Longrightarrow>
    settleGap env sn fileWatermark pgSnapshot settledGen waits e = (e', n, True) \<Longrightarrow>
    state e' = stateServing \<and> settledDirtyGen e' = settledGen \<and> settledGen \<le> resolvedDirtyGen e' \<and> fileWatermark \<le> pgSnapshot \<and>
    (\<exists>v. snap e' = Some v \<and> holds (NewView sn) \<union> {fileWatermark + 1..pgSnapshot} \<subseteq> holds v)"
proof (induction waits arbitrary: e)
  case Nil
  then obtain m where "adoptSnapshotFileAttempt env e sn fileWatermark pgSnapshot settledGen = (e', n, adoptAttemptAdopted, m)"
    by (subst (asm) settleGap.simps) (auto split: prod.splits adoptAttempt.splits)
  from attempt_adopts [OF c Nil.prems(1) lim this] show ?case by auto
next
  case (Cons w waits)
  obtain e1 n1 verdict m where a: "adoptSnapshotFileAttempt env e sn fileWatermark pgSnapshot settledGen = (e1, n1, verdict, m)" by (metis prod_cases4)
  show ?case
  proof (cases verdict)
    case adoptAttemptAdopted
    then have "e1 = e'" using Cons.prems(3) a by (subst (asm) settleGap.simps) simp
    then show ?thesis using attempt_adopts [OF c Cons.prems(1) lim a [unfolded adoptAttemptAdopted]] by auto
  next
    case adoptAttemptRejected
    then show ?thesis using Cons.prems(3) a by (subst (asm) settleGap.simps) simp
  next
    case adoptAttemptNotYetCovered
    then have "e1 = e" using attempt_refuses [OF a] by auto
    moreover have "settleGap env sn fileWatermark pgSnapshot settledGen waits (w e1) = (e', n, True)"
      using Cons.prems(3) a adoptAttemptNotYetCovered by (subst (asm) settleGap.simps) simp
    ultimately show ?thesis using Cons.IH [of "w e"] Cons.prems(1,2) by simp
  qed
qed

text \<open>
  C9. An engine booted from its snapshot file misses nothing the file did not. When \<open>tryLoadSnapshotFile\<close>
  adopts, the bytes at the path read back as a snapshot of the database's own lineage that passed the
  start-state gate, the engine serves, and the view it now serves holds every write the file held and every
  write counted above the file's stamp up to the counter read from the database, whatever other goroutines
  buffered meanwhile and however often the decision had to wait for them. So a file that holds every write
  its stamp counts boots a view with every write up to that counter; that files do is the subject of
  \<open>SaveProtocol\<close>, not of this theorem. Nothing settled while the file was loading is lost.
\<close>

theorem boot_from_file_complete:
  assumes "replay_contract env holds wr"
    and "tryLoadSnapshotFile env snapBytes atStart filePath d firstRead during counterRead waits e = (e', True)"
    and "buffer_ok wr (during e)" and "\<forall>w \<in> set waits. \<forall>x. buffer_ok wr x \<longrightarrow> buffer_ok wr (w x)"
    and "\<And>c l. counterRead = Some (c, l) \<Longrightarrow> c < 2 ^ 64 - 1"
  shows "\<exists>path bs sn stmp c l v. filePath = Some path \<and> d path = Some bs \<and> ReadSnapshotFile bs = Inr (sn, stmp) \<and> counterRead = Some (c, l) \<and>
    WatermarkLineage sn = l \<and> fileRefusal atStart l stmp l = [] \<and> st_Watermark stmp \<le> c \<and>
    state e' = stateServing \<and> settledDirtyGen e' = settledDirtyGen e \<and> snap e' = Some v \<and>
    holds (NewView sn) \<union> {st_Watermark stmp + 1..c} \<subseteq> holds v"
proof -
  obtain path bs sn stmp where f: "filePath = Some path" "d path = Some bs" "ReadSnapshotFile bs = Inr (sn, stmp)"
    and "\<exists>n. adoptSnapshotFileView env atStart counterRead waits (during e) sn stmp (settledDirtyGen e) = (e', n, True)"
    using assms(2) by (auto simp: tryLoadSnapshotFile_def Let_def split: option.splits sum.splits if_splits prod.splits)
  then obtain c l n where c: "counterRead = Some (c, l)" and r: "fileRefusal atStart (WatermarkLineage sn) stmp l = []"
    and run: "settleGap env sn (st_Watermark stmp) c (settledDirtyGen e) waits (during e) = (e', n, True)"
    by (auto simp: adoptSnapshotFileView_def split: option.splits if_splits prod.splits)
  have l: "WatermarkLineage sn = l" using r by (auto simp: fileRefusal_def split: if_splits)
  from settleGap_adopts [OF assms(1) assms(5) [OF c] assms(3,4) run] obtain v where v: "state e' = stateServing" "settledDirtyGen e' = settledDirtyGen e"
    "st_Watermark stmp \<le> c" "snap e' = Some v" "holds (NewView sn) \<union> {st_Watermark stmp + 1..c} \<subseteq> holds v" by blast
  then show ?thesis using f c l r by blast
qed

section \<open>An example boot\<close>

text \<open>The file holds counter 7; the write of counter 8, which added node 12, was buffered.\<close>

definition example_seg :: Segment where "example_seg = seg_Build (the (stage_run example_ops))"

definition example_apply_env :: "(View, nat, unit, Segment) apply_env" where
  "example_apply_env = \<lparr>env_readBack = (\<lambda>v cs. Inr ((), cs)), env_buildApplySegment = (\<lambda>v rb. Inr example_seg), env_WithSegment = WithSegment,
     env_ApproxBytes = (\<lambda>_. 0), env_maintainAfterPublish = (\<lambda>e v. e)\<rparr>"

definition example_holds :: "View \<Rightarrow> nat set" where
  "example_holds v = {c. c = 8 \<longrightarrow> 12 \<in> dom (view_nodes v)}"

definition example_writes :: "nat \<Rightarrow> nat ChangeSet option" where
  "example_writes c = (if c = 8 then Some emptyChangeSet else None)"

definition booting :: "(View, nat) engine" where
  "booting = (eng (rep_init 0 (\<lambda>_. emptyChangeSet)))\<lparr>bootGap := \<lparr>active = True, entries = [\<lparr>e_counter = 8, e_cs = Some emptyChangeSet\<rparr>], gapKeyCount = 0, poisoned = []\<rparr>\<rparr>"

lemma example_seg_adds: "12 \<in> dom (view_nodes (WithSegment v example_seg))"
proof -
  have "map_option state_rec (NodeState example_seg 12) = Some (NodeIs [2] (parsedBag []) None)"
    using seg_Build_states(2) [OF stage_run_inv [OF example_ops_run], of 12]
    by (simp add: example_seg_def example_ops_def bagObjectID_def parsedBag_def [abs_def])
  then show ?thesis by (auto simp: WithSegment_graph apply_nodes_def state_rec_def split: if_splits)
qed

lemma example_contract: "replay_contract example_apply_env example_holds example_writes"
  using example_seg_adds by (auto simp: replay_contract_def example_apply_env_def example_holds_def example_writes_def)

theorem boot_from_file_complete_witness:
  "\<exists>e' v. tryLoadSnapshotFile example_apply_env (\<lambda>_. 0) (Some \<lparr>at_counter = 7, at_nodeSeq = 12, at_edgeSeq = 71\<rparr>) (Some ''graph.snap'')
      [''graph.snap'' \<mapsto> file_bytes (enc_body (example_base\<lparr>WatermarkLineage := replicate 16 1\<rparr>) example_stamp)] None id
      (Some (8, replicate 16 1)) [] booting = (e', True) \<and> snap e' = Some v \<and> {..8} \<subseteq> example_holds v"
proof -
  let ?s = "example_base\<lparr>WatermarkLineage := replicate 16 1\<rparr>"
  let ?run = "tryLoadSnapshotFile example_apply_env (\<lambda>_. 0) (Some \<lparr>at_counter = 7, at_nodeSeq = 12, at_edgeSeq = 71\<rparr>) (Some ''graph.snap'')
      [''graph.snap'' \<mapsto> file_bytes (enc_body ?s example_stamp)] None id (Some (8, replicate 16 1)) [] booting"
  obtain kt where r: "ReadSnapshotFile (file_bytes (enc_body ?s example_stamp)) = Inr (?s\<lparr>sKinds := kt\<rparr>, example_stamp)"
    using read_written [OF example_relineaged example_stored(2), of "replicate 16 1"] by auto
  have cover: "fst (bootGapCoveredAt 7 8 [8]) = bootGapCovered" by (subst bootgap_verdict) auto
  have att: "adoptSnapshotFileAttempt example_apply_env booting (?s\<lparr>sKinds := kt\<rparr>) 7 8 0 =
      (booting\<lparr>bootGap := \<lparr>active = False, entries = [], gapKeyCount = 0, poisoned = []\<rparr>, appliedWatermark := rebase (appliedWatermark booting) 8,
         snap := Some (WithSegment (NewView (?s\<lparr>sKinds := kt\<rparr>)) example_seg), resolvedDirtyGen := 0\<rparr>, 1, adoptAttemptAdopted, 0)"
    using cover by (simp add: adoptSnapshotFileAttempt_def booting_def rep_init_def gap_peek_def gap_take_def example_apply_env_def HasFallback_def
        emptyChangeSet_def maxWatermark_def)
  have settled: "snd (snd (settleGap example_apply_env (?s\<lparr>sKinds := kt\<rparr>) 7 8 0 [] booting))"
    by (subst settleGap.simps) (simp add: att)
  have fields: "settledDirtyGen booting = 0" "MemoryLimit booting = 0" by (simp_all add: booting_def rep_init_def)
  have stmp: "st_Watermark example_stamp = 7" "fileRefusal (Some \<lparr>at_counter = 7, at_nodeSeq = 12, at_edgeSeq = 71\<rparr>) (replicate 16 1) example_stamp (replicate 16 1) = []"
    by (simp_all add: fileRefusal_def Lineage_IsZero_def counterBehindFile_def insertedSinceFile_def example_stamp_def)
  have "snd ?run"
    using r accepted_header [OF r] settled stmp by (simp add: tryLoadSnapshotFile_def adoptSnapshotFileView_def fields case_prod_beta)
  then obtain e' where run: "?run = (e', True)" by (cases ?run) simp
  have b: "buffer_ok example_writes (id booting)" by (simp add: buffer_ok_def booting_def example_writes_def)
  have waits: "\<forall>w \<in> set []. \<forall>x. buffer_ok example_writes x \<longrightarrow> buffer_ok example_writes (w x)" by simp
  have "\<exists>v. snap e' = Some v \<and> example_holds (NewView (?s\<lparr>sKinds := kt\<rparr>)) \<union> {8..8} \<subseteq> example_holds v"
    using boot_from_file_complete [OF example_contract run b waits] r by (auto simp: example_stamp_def)
  then show ?thesis using run by (auto simp: example_holds_def)
qed

end
