(* ===== verification/Strconv.thy ===== *)
theory Strconv
  imports BT_Prelude
begin

text \<open>
  What the program uses of Go's \<open>strconv\<close> to build keys: \<open>Itoa\<close> and \<open>FormatUint\<close> write numbers as digits,
  and different numbers are written differently.
\<close>

section \<open>Digits\<close>

definition digit_char :: "nat \<Rightarrow> char" where
  "digit_char d = char_of (if d < 10 then 48 + d else 87 + d)"

definition digit_val :: "char \<Rightarrow> nat" where
  "digit_val c = (if of_char c < (58 :: nat) then of_char c - 48 else of_char c - 87)"

fun FormatUint :: "nat \<Rightarrow> nat \<Rightarrow> string" where
  "FormatUint base n = (if base < 2 \<or> n < base then [digit_char n] else FormatUint base (n div base) @ [digit_char (n mod base)])"

declare FormatUint.simps [simp del]

definition Itoa :: "int \<Rightarrow> string" where
  "Itoa i = (if i < 0 then CHR ''-'' # FormatUint 10 (nat (- i)) else FormatUint 10 (nat i))"

lemma digit_char_code: "d < 16 \<Longrightarrow> of_char (digit_char d) = (if d < 10 then 48 + d else 87 + d)"
  by (simp add: digit_char_def of_char_of)

lemma digit_val_char: "d < 16 \<Longrightarrow> digit_val (digit_char d) = d"
  by (simp add: digit_val_def digit_char_code)

lemma FormatUint_value:
  assumes "2 \<le> base" and "base \<le> 16"
  shows "foldl (\<lambda>a c. base * a + digit_val c) 0 (FormatUint base n) = n"
proof (induction n rule: less_induct)
  case (less n)
  have "digit_val (digit_char m) = m" if "m < base" for m using that assms by (intro digit_val_char) simp
  then show ?case using assms less [of "n div base"] by (subst FormatUint.simps) simp
qed

lemma FormatUint_inj: "2 \<le> base \<Longrightarrow> base \<le> 16 \<Longrightarrow> FormatUint base m = FormatUint base n \<longleftrightarrow> m = n"
  using FormatUint_value by metis

lemma FormatUint_digits:
  assumes "2 \<le> base" and "base \<le> 16"
  shows "c \<in> set (FormatUint base n) \<Longrightarrow> \<exists>d < base. c = digit_char d"
proof (induction n rule: less_induct)
  case (less n)
  show ?case
  proof (cases "n < base")
    case True
    then have "FormatUint base n = [digit_char n]" by (subst FormatUint.simps) simp
    then show ?thesis using less.prems True by auto
  next
    case False
    then have "FormatUint base n = FormatUint base (n div base) @ [digit_char (n mod base)]" using assms by (subst FormatUint.simps) simp
    moreover have "n div base < n" "n mod base < base" using False assms by simp_all
    ultimately show ?thesis using less by auto
  qed
qed

lemma decimal_codes: "c \<in> set (FormatUint 10 n) \<Longrightarrow> (of_char c :: nat) \<in> {48..57}"
  using FormatUint_digits [of 10 c n] digit_char_code by fastforce

lemma Itoa_inj: "Itoa i = Itoa j \<Longrightarrow> i = j"
proof -
  have "CHR ''-'' \<notin> set (FormatUint 10 n)" for n using decimal_codes [of "CHR ''-''" n] by auto
  then have neq: "CHR ''-'' # xs \<noteq> FormatUint 10 n" for xs n by (metis list.set_intros(1))
  assume "Itoa i = Itoa j"
  then show "i = j" using neq neq [THEN not_sym] by (auto simp: Itoa_def FormatUint_inj split: if_splits)
qed

lemma Itoa_no_colon: "CHR '':'' \<notin> set (Itoa i)"
  using decimal_codes [of "CHR '':''"] by (auto simp: Itoa_def)

end
