(* ===== verification/EdgeKinds.thy ===== *)
theory EdgeKinds
  imports Overlay Strconv
begin

text \<open>
  The edge-kind endpoint index, \<open>internal/engine/snapshot/edgekindindex.go\<close>: which nodes have an edge of
  one of some kinds, in a direction. The index of the base is built once, unions of several kinds are
  memoized in it under a text key, and the answers of an overlay are memoized in the view under the same
  key. The memos are state here (\<open>endpointCache\<close>), so that what a hit returns is a matter of proof.
\<close>

section \<open>Keys\<close>

definition unionKey :: "kindid list \<Rightarrow> bool \<Rightarrow> string" where
  "unionKey kinds outgoing = (if outgoing then CHR ''o'' else CHR ''i'') # concat (map (\<lambda>k. CHR '':'' # Itoa k) (sort kinds))"

section \<open>The index\<close>

type_synonym 'k postings = "('k \<times> nodeid list) list"

definition posted :: "'k postings \<Rightarrow> 'k \<Rightarrow> nodeid list" where
  "posted m k = (case map_of m k of None \<Rightarrow> [] | Some ids \<Rightarrow> ids)"

record edgeKindIndex =
  ix_out :: "kindid postings"
  ix_in :: "kindid postings"
  unions :: "(string \<times> nodeid list) list"

definition appendDistinctTail :: "nodeid list \<Rightarrow> nodeid \<Rightarrow> nodeid list" where
  "appendDistinctTail ids i = (if length ids > 0 \<and> ids ! (length ids - 1) = i then ids else ids @ [i])"

definition dedupeSorted :: "nodeid list \<Rightarrow> nodeid list" where
  "dedupeSorted ids = (if length ids < 2 then ids
     else fold (\<lambda>i out. if i \<noteq> out ! (length out - 1) then out @ [i] else out) (drop 1 ids) (take 1 ids))"

definition sortPostings :: "'k postings \<Rightarrow> 'k postings" where
  "sortPostings m = map (\<lambda>(k, ids). (k, dedupeSorted (sort ids))) m"

definition indexEdge :: "Snapshot \<Rightarrow> nat \<Rightarrow> nat \<Rightarrow> kindid postings \<times> kindid postings \<Rightarrow> (kindid postings \<times> kindid postings) option" where
  "indexEdge s node i = (\<lambda>(outs, ins). do {
     k \<leftarrow> idx (OutKinds s) i;
     t \<leftarrow> idx (OutTargets s) i;
     Some (AList.update k (appendDistinctTail (posted outs k) (u32 node)) outs, AList.update k (posted ins k @ [t]) ins) })"

definition buildEdgeKindIndex :: "Snapshot \<Rightarrow> edgeKindIndex option" where
  "buildEdgeKindIndex s = do {
     (outs, ins) \<leftarrow> foldM (\<lambda>node acc. do { lo \<leftarrow> idx (OutOffsets s) node; hi \<leftarrow> idx (OutOffsets s) (node + 1);
                                         foldM (indexEdge s node) [lo..<hi] acc }) [0..<NodeCount s] ([], []);
     Some \<lparr>ix_out = outs, ix_in = sortPostings ins, unions = []\<rparr> }"

fun mergeLoop :: "nodeid list \<Rightarrow> nodeid list \<Rightarrow> nodeid list" where
  "mergeLoop (a # as) (b # bs) =
     (if a < b then a # mergeLoop as (b # bs) else if b < a then b # mergeLoop (a # as) bs else a # mergeLoop as bs)"
| "mergeLoop [] bs = bs"
| "mergeLoop as [] = as"

definition mergeSortedIDs :: "nodeid list \<Rightarrow> nodeid list \<Rightarrow> nodeid list" where
  "mergeSortedIDs a b = (if length b = 0 then a else if length a = 0 then b else mergeLoop a b)"

text \<open>The union over a kind alternation, in the order the loop meets the ids, then sorted.\<close>

definition unionPostings :: "kindid postings \<Rightarrow> kindid list \<Rightarrow> nodeid list" where
  "unionPostings side kinds = sort (fold (\<lambda>k. fold (\<lambda>i merged. if i \<in> set merged then merged else merged @ [i]) (posted side k)) kinds [])"

definition unionFor :: "edgeKindIndex \<Rightarrow> kindid postings \<Rightarrow> kindid list \<Rightarrow> bool \<Rightarrow> edgeKindIndex \<times> nodeid list" where
  "unionFor ix side kinds outgoing =
     (let key = unionKey kinds outgoing in
      case map_of (unions ix) key of
        Some got \<Rightarrow> (ix, got)
      | None \<Rightarrow> let merged = unionPostings side kinds in (ix\<lparr>unions := AList.update key merged (unions ix)\<rparr>, merged))"

section \<open>The delta side\<close>

definition pushEndpoint :: "View \<Rightarrow> kindid \<Rightarrow> pgid \<Rightarrow> kindid postings \<Rightarrow> kindid postings" where
  "pushEndpoint v k dbID m = (case denseOf v dbID of None \<Rightarrow> m | Some n \<Rightarrow> AList.update k (posted m k @ [n]) m)"

definition ensureDeltaEdgeKindIndex :: "View \<Rightarrow> edgeKindIndex option" where
  "ensureDeltaEdgeKindIndex v = (case v_merged v of None \<Rightarrow> None
     | Some m \<Rightarrow>
         (case fold (\<lambda>(_, st) (outs, ins). (pushEndpoint v (eKind st) (StartID st) outs, pushEndpoint v (eKind st) (EndID st) ins)) (IterEdges m) ([], []) of
            (outs, ins) \<Rightarrow> Some \<lparr>ix_out = sortPostings outs, ix_in = sortPostings ins, unions = []\<rparr>))"

definition side_of :: "edgeKindIndex \<Rightarrow> bool \<Rightarrow> kindid postings" where
  "side_of ix outgoing = (if outgoing then ix_out ix else ix_in ix)"

definition deltaEdgeEndpointsFor :: "View \<Rightarrow> kindid list \<Rightarrow> bool \<Rightarrow> nodeid list" where
  "deltaEdgeEndpointsFor v kinds outgoing = (case ensureDeltaEdgeKindIndex v of None \<Rightarrow> []
     | Some ix \<Rightarrow>
         let side = side_of ix outgoing in
         if length kinds = 1 then posted side (kinds ! 0)
         else fold (\<lambda>k merged. mergeSortedIDs merged (posted side k)) kinds [])"

section \<open>Endpoints\<close>

record endpointCache =
  edgeKindIdx :: "edgeKindIndex option"
  edgeEndpoints :: "(string \<times> nodeid list) list"

definition coldCache :: endpointCache where "coldCache = \<lparr>edgeKindIdx = None, edgeEndpoints = []\<rparr>"

definition ensureEdgeKindIndex :: "Snapshot \<Rightarrow> endpointCache \<Rightarrow> edgeKindIndex option" where
  "ensureEdgeKindIndex s c = (case edgeKindIdx c of Some ix \<Rightarrow> Some ix | None \<Rightarrow> buildEdgeKindIndex s)"

definition EdgeKindEndpoints :: "View \<Rightarrow> endpointCache \<Rightarrow> kindid list \<Rightarrow> bool \<Rightarrow> (endpointCache \<times> nodeid list \<times> bool) option" where
  "EdgeKindEndpoints v c kinds outgoing =
     (if length kinds = 0 then Some (c, [], False)
      else do {
        ix \<leftarrow> ensureEdgeKindIndex (v_base v) c;
        let side = side_of ix outgoing;
        let (ix', merged) = (if length kinds = 1 then (ix, posted side (kinds ! 0)) else unionFor ix side kinds outgoing);
        let c1 = c\<lparr>edgeKindIdx := Some ix'\<rparr>;
        if \<not> Overlay v then Some (c1, merged, True)
        else let key = unionKey kinds outgoing in
             (case map_of (edgeEndpoints c1) key of
                Some got \<Rightarrow> Some (c1, got, True)
              | None \<Rightarrow> let out = mergeSortedIDs merged (deltaEdgeEndpointsFor v kinds outgoing) in
                         Some (c1\<lparr>edgeEndpoints := AList.update key out (edgeEndpoints c1)\<rparr>, out, True)) })"

definition EdgeKindEndpointCount :: "View \<Rightarrow> endpointCache \<Rightarrow> kindid list \<Rightarrow> bool \<Rightarrow> (endpointCache \<times> nat \<times> bool) option" where
  "EdgeKindEndpointCount v c kinds outgoing = do {
     (c', ids, answered) \<leftarrow> EdgeKindEndpoints v c kinds outgoing;
     Some (c', if answered then length ids else 0, answered) }"

text \<open>The cache a history of questions leaves.\<close>

definition endpoint_history :: "View \<Rightarrow> (kindid list \<times> bool) list \<Rightarrow> endpointCache option" where
  "endpoint_history v calls = foldM (\<lambda>(kinds, outgoing) c. map_option fst (EdgeKindEndpoints v c kinds outgoing)) calls coldCache"

section \<open>Keys identify the alternation\<close>

lemma marked_concat_inj:
  assumes "\<forall>x \<in> set (xs @ ys). c \<notin> set x" and "concat (map ((#) c) xs) = concat (map ((#) c) ys)"
  shows "xs = ys"
  using assms
proof (induction xs arbitrary: ys)
  case Nil
  then show ?case by (cases ys) auto
next
  case (Cons x xs)
  then obtain y ys' where ys: "ys = y # ys'" by (cases ys) auto
  have head: "takeWhile (\<lambda>d. d \<noteq> c) (z @ concat (map ((#) c) zs)) = z" if "c \<notin> set z" for z zs
  proof -
    have "takeWhile (\<lambda>d. d \<noteq> c) (concat (map ((#) c) zs)) = []" by (cases zs) auto
    then show ?thesis using that by (subst takeWhile_append2) auto
  qed
  have eq: "x @ concat (map ((#) c) xs) = y @ concat (map ((#) c) ys')" using Cons.prems(2) ys by simp
  have "x = y" using head [of x xs] head [of y ys'] eq Cons.prems(1) ys by (metis append_Cons list.set_intros(1) Un_iff set_append)
  then show ?case using Cons ys eq by auto
qed

lemma unionKey_inj:
  assumes "unionKey kinds outgoing = unionKey kinds' outgoing'"
  shows "outgoing = outgoing'" and "set kinds = set kinds'"
proof -
  show "outgoing = outgoing'" using assms by (auto simp: unionKey_def split: if_splits)
  have eq: "concat (map (\<lambda>k. CHR '':'' # Itoa k) (sort kinds)) = concat (map (\<lambda>k. CHR '':'' # Itoa k) (sort kinds'))"
    using assms by (simp add: unionKey_def)
  have "map Itoa (sort kinds) = map Itoa (sort kinds')"
    by (rule marked_concat_inj [of _ _ "CHR '':''"]) (use eq Itoa_no_colon in \<open>auto simp: comp_def\<close>)
  then have "sort kinds = sort kinds'" using Itoa_inj by (metis inj_map_eq_map inj_onI)
  then show "set kinds = set kinds'" by (metis set_sort)
qed

section \<open>What the postings hold\<close>

lemma posted_update [simp]: "posted (AList.update k ids m) k' = (if k' = k then ids else posted m k')"
  by (simp add: posted_def update_conv')

lemma posted_sortPostings [simp]: "posted (sortPostings m) k = dedupeSorted (sort (posted m k))"
  by (induction m) (auto simp: posted_def sortPostings_def dedupeSorted_def)

text \<open>A list ascends strictly and holds exactly a set: there is one such list.\<close>

definition lists_set :: "nodeid list \<Rightarrow> nodeid set \<Rightarrow> bool" where
  "lists_set ids S \<longleftrightarrow> sorted_wrt (<) ids \<and> set ids = S"

lemma lists_set_unique: "lists_set ids S \<Longrightarrow> lists_set ids' S \<Longrightarrow> ids = ids'"
  by (auto simp: lists_set_def strict_sorted_iff intro: sorted_distinct_set_unique)

lemma dedupe_fold:
  assumes "sorted_wrt (<) (out @ [x])" and "sorted (x # ids)"
  shows "lists_set (fold (\<lambda>i out. if i \<noteq> out ! (length out - 1) then out @ [i] else out) ids (out @ [x])) (set out \<union> {x} \<union> set ids)"
  using assms
proof (induction ids arbitrary: out x)
  case (Cons i ids)
  show ?case
  proof (cases "i = x")
    case True
    then show ?thesis using Cons.IH [of out x] Cons.prems by (auto simp: insert_absorb)
  next
    case False
    have "sorted_wrt (<) ((out @ [x]) @ [i])" using Cons.prems False by (auto simp: sorted_wrt_append)
    then have "lists_set (fold (\<lambda>i out. if i \<noteq> out ! (length out - 1) then out @ [i] else out) ids ((out @ [x]) @ [i])) (set (out @ [x]) \<union> {i} \<union> set ids)"
      using Cons.IH [of "out @ [x]" i] Cons.prems(2) by simp
    moreover have "set (out @ [x]) \<union> {i} \<union> set ids = set out \<union> {x} \<union> set (i # ids)" by auto
    ultimately show ?thesis using False by (simp add: nth_append)
  qed
qed (simp add: lists_set_def)

lemma dedupeSorted_sort: "lists_set (dedupeSorted (sort ids)) (set ids)"
proof (cases "sort ids")
  case Nil
  then have "ids = []" by (metis set_empty set_sort)
  then show ?thesis by (simp add: lists_set_def dedupeSorted_def)
next
  case (Cons x xs)
  have "sorted (x # xs)" using Cons by (metis sorted_sort)
  then have "lists_set (fold (\<lambda>i out. if i \<noteq> out ! (length out - 1) then out @ [i] else out) xs ([] @ [x])) (set [] \<union> {x} \<union> set xs)"
    by (intro dedupe_fold) auto
  moreover have "set [] \<union> {x} \<union> set xs = set ids" using Cons by (metis Un_empty_left insert_is_Un list.set(1) list.simps(15) set_sort)
  ultimately show ?thesis using Cons by (cases xs) (simp_all add: dedupeSorted_def)
qed

lemma mergeLoop_lists:
  "lists_set as A \<Longrightarrow> lists_set bs B \<Longrightarrow> lists_set (mergeLoop as bs) (A \<union> B)"
proof (induction as bs arbitrary: A B rule: mergeLoop.induct)
  case (1 a as b bs)
  have tails: "lists_set as (set as)" "lists_set bs (set bs)" and sets: "A = set (a # as)" "B = set (b # bs)"
    and less: "\<forall>x \<in> set as. a < x" "\<forall>x \<in> set bs. b < x"
    using 1(4,5) by (auto simp: lists_set_def)
  consider "a < b" | "b < a" | "a = b" by linarith
  then show ?case
  proof cases
    assume lt: "a < b"
    have "lists_set (mergeLoop as (b # bs)) (set as \<union> B)" by (rule 1(1) [OF lt tails(1) 1(5)])
    then show ?thesis using lt less sets by (force simp: lists_set_def)
  next
    assume lt: "b < a"
    then have "lists_set (mergeLoop (a # as) bs) (A \<union> set bs)" by (intro 1(2) [OF _ _ 1(4) tails(2)]) auto
    then show ?thesis using lt less sets by (force simp: lists_set_def)
  next
    assume eq: "a = b"
    then have "lists_set (mergeLoop as bs) (set as \<union> set bs)" by (intro 1(3) [OF _ _ tails]) auto
    then show ?thesis using eq less sets by (auto simp: lists_set_def)
  qed
qed (auto simp: lists_set_def)

lemma mergeSortedIDs_lists: "lists_set as A \<Longrightarrow> lists_set bs B \<Longrightarrow> lists_set (mergeSortedIDs as bs) (A \<union> B)"
  using mergeLoop_lists [of as A bs B] by (auto simp: mergeSortedIDs_def lists_set_def)

lemma merge_all_lists:
  assumes "\<And>k. lists_set (f k) (S k)" and "lists_set acc A"
  shows "lists_set (fold (\<lambda>k merged. mergeSortedIDs merged (f k)) ks acc) (A \<union> (\<Union>k \<in> set ks. S k))"
  using assms(2)
proof (induction ks arbitrary: acc A)
  case (Cons k ks)
  then show ?case using Cons.IH [OF mergeSortedIDs_lists [OF Cons.prems assms(1) [of k]]] by (simp add: Un_assoc)
qed simp

lemma collect_distinct:
  "distinct acc \<Longrightarrow> distinct (fold (\<lambda>i merged. if i \<in> set merged then merged else merged @ [i]) ids acc) \<and>
    set (fold (\<lambda>i merged. if i \<in> set merged then merged else merged @ [i]) ids acc) = set acc \<union> set ids"
  by (induction ids arbitrary: acc) (auto simp: insert_absorb)

lemma unionPostings_lists: "lists_set (unionPostings side kinds) (\<Union>k \<in> set kinds. set (posted side k))"
proof -
  let ?c = "fold (\<lambda>k. fold (\<lambda>i merged. if i \<in> set merged then merged else merged @ [i]) (posted side k))"
  have "distinct acc \<Longrightarrow> distinct (?c kinds acc) \<and> set (?c kinds acc) = set acc \<union> (\<Union>k \<in> set kinds. set (posted side k))" for acc
  proof (induction kinds arbitrary: acc)
    case (Cons k kinds)
    show ?case using Cons.IH collect_distinct [OF Cons.prems, of "posted side k"] by (simp add: Un_assoc)
  qed simp
  from this [of "[]"] show ?thesis by (simp add: lists_set_def unionPostings_def strict_sorted_iff)
qed

lemma appendDistinctTail_lists:
  assumes "lists_set ids S" and "\<forall>x \<in> S. x \<le> i"
  shows "lists_set (appendDistinctTail ids i) (insert i S)"
proof (cases "ids = []")
  case False
  then obtain xs y where ids: "ids = xs @ [y]" by (metis rev_exhaust)
  then show ?thesis using assms by (cases "y = i") (auto simp: lists_set_def appendDistinctTail_def nth_append sorted_wrt_append)
qed (use assms in \<open>simp add: lists_set_def appendDistinctTail_def\<close>)

section \<open>The index of a snapshot\<close>

definition indexed :: "nodeid \<Rightarrow> nodeid \<times> kindid \<times> pgid \<Rightarrow> kindid postings \<times> kindid postings \<Rightarrow> kindid postings \<times> kindid postings" where
  "indexed node x acc = (case acc of (outs, ins) \<Rightarrow>
     (AList.update (fst (snd x)) (appendDistinctTail (posted outs (fst (snd x))) node) outs,
      AList.update (fst (snd x)) (posted ins (fst (snd x)) @ [fst x]) ins))"

lemma upt_shift: "[a..<a + n] = map ((+) a) [0..<n]"
  by (induction n) auto

lemma indexEdge_row:
  assumes rep: "snap_rep s out inn" and u: "u < NodeCount s"
  shows "foldM (indexEdge s u) [row_start out u..<row_start out (Suc u)] acc = Some (fold (indexed u) (out u) acc)"
proof -
  have n: "u32 u = u" using rep u unfolding snap_rep_def by (intro u32_id) linarith
  have kinds: "length (OutKinds s) = EdgeCount s" using rep unfolding snap_rep_def EdgeCount_def by (metis length_map)
  have one: "indexEdge s u (row_start out u + l) acc = Some (indexed u (out u ! l) acc)" if "l < length (out u)" for l acc
    using rep_slot [OF rep u that] kinds by (cases acc) (simp add: indexEdge_def indexed_def n EdgeCount_def)
  have "m \<le> length (out u) \<Longrightarrow> foldM (indexEdge s u) (map ((+) (row_start out u)) [0..<m]) acc = Some (fold (indexed u) (take m (out u)) acc)" for m
  proof (induction m)
    case (Suc m)
    then show ?case using one [of m] by (simp add: foldM_append take_Suc_conv_app_nth)
  qed simp
  moreover have "[row_start out u..<row_start out (Suc u)] = map ((+) (row_start out u)) [0..<length (out u)]"
    by (simp add: upt_shift)
  ultimately show ?thesis by simp
qed

definition kinds_from :: "(nat \<Rightarrow> (nodeid \<times> kindid \<times> pgid) list) \<Rightarrow> nat \<Rightarrow> kindid \<Rightarrow> nodeid set" where
  "kinds_from out n k = {u. u < n \<and> (\<exists>t e. (t, k, e) \<in> set (out u))}"

definition kinds_to :: "(nat \<Rightarrow> (nodeid \<times> kindid \<times> pgid) list) \<Rightarrow> nat \<Rightarrow> kindid \<Rightarrow> nodeid set" where
  "kinds_to out n k = {t. \<exists>u < n. \<exists>e. (t, k, e) \<in> set (out u)}"

lemma indexed_row:
  assumes "\<And>k. lists_set (posted (fst acc) k) (S k) \<and> (\<forall>x \<in> S k. x \<le> u)"
  shows "lists_set (posted (fst (fold (indexed u) xs acc)) k) (S k \<union> (if \<exists>x \<in> set xs. fst (snd x) = k then {u} else {})) \<and>
    set (posted (snd (fold (indexed u) xs acc)) k) = set (posted (snd acc) k) \<union> fst ` {x \<in> set xs. fst (snd x) = k}"
  using assms
proof (induction xs arbitrary: acc S)
  case (Cons x xs)
  define S' where "S' k = (if fst (snd x) = k then insert u (S k) else S k)" for k
  have next_: "lists_set (posted (fst (indexed u x acc)) k) (S' k) \<and> (\<forall>y \<in> S' k. y \<le> u)" for k
    using Cons.prems [of k] appendDistinctTail_lists [of "posted (fst acc) k" "S k" u] by (auto simp: indexed_def S'_def split: prod.split)
  have "set (posted (snd (indexed u x acc)) k) = set (posted (snd acc) k) \<union> (if fst (snd x) = k then {fst x} else {})"
    by (auto simp: indexed_def split: prod.split)
  moreover have "S' k \<union> (if \<exists>y \<in> set xs. fst (snd y) = k then {u} else {}) = S k \<union> (if \<exists>y \<in> set (x # xs). fst (snd y) = k then {u} else {})"
    by (auto simp: S'_def)
  ultimately show ?case using Cons.IH [OF next_] by auto
qed auto

lemma buildEdgeKindIndex_holds:
  assumes rep: "snap_rep s out inn"
  shows "ok (buildEdgeKindIndex s) (\<lambda>ix. unions ix = [] \<and> (\<forall>k. lists_set (posted (ix_out ix) k) (kinds_from out (NodeCount s) k) \<and>
    lists_set (posted (ix_in ix) k) (kinds_to out (NodeCount s) k)))"
proof -
  let ?step = "\<lambda>node acc. do { lo \<leftarrow> idx (OutOffsets s) node; hi \<leftarrow> idx (OutOffsets s) (node + 1); foldM (indexEdge s node) [lo..<hi] acc }"
  have off: "OutOffsets s = map (row_start out) [0..<Suc (NodeCount s)]" using rep unfolding snap_rep_def by blast
  have step: "?step u acc = Some (fold (indexed u) (out u) acc)" if "u < NodeCount s" for u acc
    using that indexEdge_row [OF rep that] by (simp add: off nth_append del: upt_Suc)
  have "n \<le> NodeCount s \<Longrightarrow> \<exists>acc. foldM ?step [0..<n] ([], []) = Some acc \<and>
      (\<forall>k. lists_set (posted (fst acc) k) (kinds_from out n k) \<and> set (posted (snd acc) k) = kinds_to out n k)" for n
  proof (induction n)
    case 0
    show ?case by (simp add: lists_set_def kinds_from_def kinds_to_def posted_def)
  next
    case (Suc n)
    then obtain acc where acc: "foldM ?step [0..<n] ([], []) = Some acc"
      "\<And>k. lists_set (posted (fst acc) k) (kinds_from out n k)" "\<And>k. set (posted (snd acc) k) = kinds_to out n k" by auto
    have pre: "lists_set (posted (fst acc) k) (kinds_from out n k) \<and> (\<forall>x \<in> kinds_from out n k. x \<le> n)" for k
      using acc(2) by (auto simp: kinds_from_def)
    have run: "foldM ?step [0..<Suc n] ([], []) = Some (fold (indexed n) (out n) acc)"
      using acc(1) step [of n acc] Suc.prems by (simp add: foldM_append)
    have "(\<exists>x \<in> set (out n). fst (snd x) = k) \<longleftrightarrow> (\<exists>t e. (t, k, e) \<in> set (out n))" for k by force
    then have "kinds_from out n k \<union> (if \<exists>x \<in> set (out n). fst (snd x) = k then {n} else {}) = kinds_from out (Suc n) k" for k
      by (auto simp: kinds_from_def less_Suc_eq)
    moreover have "kinds_to out n k \<union> fst ` {x \<in> set (out n). fst (snd x) = k} = kinds_to out (Suc n) k" for k
      by (force simp: kinds_to_def less_Suc_eq)
    ultimately show ?case using run indexed_row [of acc "kinds_from out n" n "out n", OF pre] acc(3) by simp
  qed
  from this [of "NodeCount s"] obtain outs ins where "foldM ?step [0..<NodeCount s] ([], []) = Some (outs, ins)"
    "\<And>k. lists_set (posted outs k) (kinds_from out (NodeCount s) k)" "\<And>k. set (posted ins k) = kinds_to out (NodeCount s) k" by auto
  then show ?thesis using dedupeSorted_sort by (simp add: buildEdgeKindIndex_def) metis
qed

section \<open>What a question is answered with\<close>

text \<open>The nodes at the asked end of a base edge of a kind, and of a delta record of the kind, tombstones included.\<close>

definition base_ends :: "View \<Rightarrow> bool \<Rightarrow> kindid \<Rightarrow> nodeid set" where
  "base_ends v outgoing k = {n. n < NodeCount (v_base v) \<and> (\<exists>e a b. snap_edge (v_base v) e = Some (a, b, k) \<and> pg v n = (if outgoing then a else b))}"

definition delta_ends :: "View \<Rightarrow> bool \<Rightarrow> kindid \<Rightarrow> nodeid set" where
  "delta_ends v outgoing k = {n. n < v_NodeCount v \<and> (\<exists>e st. edge_states v e = Some st \<and> eKind st = k \<and> pg v n = (if outgoing then StartID st else EndID st))}"

definition index_ok :: "View \<Rightarrow> edgeKindIndex \<Rightarrow> bool" where
  "index_ok v ix \<longleftrightarrow> (\<forall>k outgoing. lists_set (posted (side_of ix outgoing) k) (base_ends v outgoing k)) \<and>
     (\<forall>key ids. map_of (unions ix) key = Some ids \<longrightarrow>
        (\<exists>kinds outgoing. key = unionKey kinds outgoing \<and> lists_set ids (\<Union>k \<in> set kinds. base_ends v outgoing k)))"

definition cache_ok :: "View \<Rightarrow> endpointCache \<Rightarrow> bool" where
  "cache_ok v c \<longleftrightarrow> (\<forall>ix. edgeKindIdx c = Some ix \<longrightarrow> index_ok v ix) \<and>
     (\<forall>key ids. map_of (edgeEndpoints c) key = Some ids \<longrightarrow>
        (\<exists>kinds outgoing. key = unionKey kinds outgoing \<and> lists_set ids (\<Union>k \<in> set kinds. base_ends v outgoing k \<union> delta_ends v outgoing k)))"

lemma memo_hit:
  assumes "\<forall>key ids. map_of m key = Some ids \<longrightarrow> (\<exists>kinds outgoing. key = unionKey kinds outgoing \<and> lists_set ids (\<Union>k \<in> set kinds. S outgoing k))"
    and "map_of m (unionKey kinds outgoing) = Some ids"
  shows "lists_set ids (\<Union>k \<in> set kinds. S outgoing k)"
proof -
  from assms obtain kinds' outgoing' where k: "unionKey kinds outgoing = unionKey kinds' outgoing'" "lists_set ids (\<Union>k \<in> set kinds'. S outgoing' k)" by meson
  then show ?thesis using unionKey_inj [OF k(1)] by simp
qed

lemma buildEdgeKindIndex_ok:
  assumes v: "view_wf v"
  shows "ok (buildEdgeKindIndex (v_base v)) (index_ok v)"
proof -
  let ?B = "v_base v" and ?N = "NodeCount (v_base v)"
  obtain out inn where rep: "snap_rep ?B out inn" using v unfolding view_wf_def snap_ok_def snap_wf_def by blast
  note edge = snap_edge_iff [OF rep base_facts(5) [OF v]]
  have tgt: "t < ?N" if "u < ?N" "(t, k, e) \<in> set (out u)" for u t k e using rep that unfolding snap_rep_def by fastforce
  have eq: "GraphIDs ?B ! n = GraphIDs ?B ! m \<longleftrightarrow> n = m" if "n < ?N" "m < ?N" for n m
    using base_facts(1) [OF v] that by (metis option.inject)
  have "n \<in> base_ends v True k \<longleftrightarrow> n \<in> kinds_from out ?N k" for n k
  proof -
    have "n \<in> base_ends v True k \<longleftrightarrow> n < ?N \<and> (\<exists>e u t. u < ?N \<and> (t, k, e) \<in> set (out u) \<and> GraphIDs ?B ! n = GraphIDs ?B ! u)"
      unfolding base_ends_def edge by (auto simp: pg_def)
    then show ?thesis using eq unfolding kinds_from_def by blast
  qed
  moreover have "n \<in> base_ends v False k \<longleftrightarrow> n \<in> kinds_to out ?N k" for n k
  proof -
    have "n \<in> base_ends v False k \<longleftrightarrow> n < ?N \<and> (\<exists>e u t. u < ?N \<and> (t, k, e) \<in> set (out u) \<and> GraphIDs ?B ! n = GraphIDs ?B ! t)"
      unfolding base_ends_def edge by (auto simp: pg_def)
    then show ?thesis using eq tgt unfolding kinds_to_def by blast
  qed
  ultimately have "base_ends v True = kinds_from out ?N" "base_ends v False = kinds_to out ?N" by blast+
  then show ?thesis using buildEdgeKindIndex_holds [OF rep]
    by (elim ok_mono) (auto simp: index_ok_def side_of_def all_bool_eq)
qed

lemma pushEndpoint_posted:
  "set (posted (pushEndpoint v k i m) k') = set (posted m k') \<union> {n. denseOf v i = Some n \<and> k' = k}"
  by (auto simp: pushEndpoint_def split: option.split)

lemma deltaEdgeEndpointsFor_lists:
  assumes v: "view_wf v" and o: "Overlay v"
  shows "lists_set (deltaEdgeEndpointsFor v kinds outgoing) (\<Union>k \<in> set kinds. delta_ends v outgoing k)"
proof -
  let ?push = "\<lambda>(_, st) (outs, ins). (pushEndpoint v (eKind st) (StartID st) outs, pushEndpoint v (eKind st) (EndID st) ins)"
  let ?m = "MergeSegments (v_segments v)"
  have run: "set (posted (fst (fold ?push es acc)) k) = set (posted (fst acc) k) \<union> {n. \<exists>i st. (i, st) \<in> set es \<and> denseOf v (StartID st) = Some n \<and> k = eKind st} \<and>
      set (posted (snd (fold ?push es acc)) k) = set (posted (snd acc) k) \<union> {n. \<exists>i st. (i, st) \<in> set es \<and> denseOf v (EndID st) = Some n \<and> k = eKind st}"
    for es acc k
  proof (induction es arbitrary: acc)
    case (Cons x es)
    then show ?case by (cases x; cases acc) (auto simp: pushEndpoint_posted)
  qed simp
  have es: "(i, st) \<in> set (IterEdges ?m) \<longleftrightarrow> edge_states v i = Some st" for i st
    using merged_iter(2) [OF v] merged_Some [OF o] by (simp add: merged_edges_def)
  obtain outs ins where acc: "fold ?push (IterEdges ?m) ([], []) = (outs, ins)" by fastforce
  have "set (posted (if outgoing then outs else ins) k) = delta_ends v outgoing k" for k
    using run [of "IterEdges ?m" "([], [])" k] unfolding acc es Dense_iff [OF v] by (auto simp: delta_ends_def posted_def [of "[]"])
  then have side: "lists_set (posted (if outgoing then sortPostings outs else sortPostings ins) k) (delta_ends v outgoing k)" for k
    using dedupeSorted_sort [of "posted (if outgoing then outs else ins) k"] by (cases outgoing) simp_all
  have ix: "deltaEdgeEndpointsFor v kinds outgoing = (let side = (if outgoing then sortPostings outs else sortPostings ins) in
      if length kinds = 1 then posted side (kinds ! 0) else fold (\<lambda>k merged. mergeSortedIDs merged (posted side k)) kinds [])"
    by (simp add: deltaEdgeEndpointsFor_def ensureDeltaEdgeKindIndex_def merged_Some [OF o] acc side_of_def)
  show ?thesis
  proof (cases "length kinds = 1")
    case True
    then obtain k where "kinds = [k]" by (cases kinds) auto
    then show ?thesis using side [of k] True unfolding ix by simp
  next
    case False
    have "lists_set (fold (\<lambda>k merged. mergeSortedIDs merged (posted (if outgoing then sortPostings outs else sortPostings ins) k)) kinds [])
        ({} \<union> (\<Union>k \<in> set kinds. delta_ends v outgoing k))"
      by (rule merge_all_lists [OF side]) (simp add: lists_set_def)
    then show ?thesis using False unfolding ix by simp
  qed
qed

lemma delta_ends_base: "\<not> Overlay v \<Longrightarrow> delta_ends v outgoing k = {}"
  by (simp add: delta_ends_def not_overlay)

lemma unionFor_ok:
  assumes "index_ok v ix" and "unionFor ix (side_of ix outgoing) kinds outgoing = (ix', merged)"
  shows "index_ok v ix' \<and> lists_set merged (\<Union>k \<in> set kinds. base_ends v outgoing k)"
proof (cases "map_of (unions ix) (unionKey kinds outgoing)")
  case None
  have "(\<Union>k \<in> set kinds. set (posted (side_of ix outgoing) k)) = (\<Union>k \<in> set kinds. base_ends v outgoing k)"
    using assms(1) by (simp add: index_ok_def lists_set_def)
  then have m: "lists_set merged (\<Union>k \<in> set kinds. base_ends v outgoing k)" and ix': "ix' = ix\<lparr>unions := AList.update (unionKey kinds outgoing) merged (unions ix)\<rparr>"
    using assms(2) None unionPostings_lists [of "side_of ix outgoing" kinds] by (auto simp: unionFor_def Let_def)
  have "index_ok v ix'" using assms(1) m unfolding index_ok_def ix' by (auto simp: side_of_def update_conv' split: if_splits)
  then show ?thesis using m by blast
next
  case (Some ids)
  then have "ix' = ix" "merged = ids" using assms(2) by (auto simp: unionFor_def Let_def)
  then show ?thesis using assms(1) memo_hit [of "unions ix" "base_ends v", OF _ Some] by (simp add: index_ok_def)
qed

lemma EdgeKindEndpoints_step:
  assumes v: "view_wf v" and c: "cache_ok v c"
  shows "ok (EdgeKindEndpoints v c kinds outgoing) (\<lambda>(c', ids, answered). cache_ok v c' \<and> answered = (kinds \<noteq> []) \<and>
    (kinds \<noteq> [] \<longrightarrow> lists_set ids (\<Union>k \<in> set kinds. base_ends v outgoing k \<union> delta_ends v outgoing k)))"
proof (cases "kinds = []")
  case False
  obtain ix where ix: "ensureEdgeKindIndex (v_base v) c = Some ix" "index_ok v ix"
    using c buildEdgeKindIndex_ok [OF v] by (cases "edgeKindIdx c") (auto simp: ensureEdgeKindIndex_def cache_ok_def ok_iff)
  let ?side = "side_of ix outgoing"
  obtain ix' merged where got: "(if length kinds = 1 then (ix, posted ?side (kinds ! 0)) else unionFor ix ?side kinds outgoing) = (ix', merged)" by fastforce
  have m: "index_ok v ix' \<and> lists_set merged (\<Union>k \<in> set kinds. base_ends v outgoing k)"
  proof (cases "length kinds = 1")
    case True
    then obtain k where "kinds = [k]" by (cases kinds) auto
    then show ?thesis using got ix(2) by (auto simp: index_ok_def)
  next
    case False
    then show ?thesis using got unionFor_ok [OF ix(2)] by simp
  qed
  have c1: "cache_ok v (c\<lparr>edgeKindIdx := Some ix'\<rparr>)" using c m by (simp add: cache_ok_def)
  let ?S = "\<lambda>outgoing k. base_ends v outgoing k \<union> delta_ends v outgoing k"
  show ?thesis
  proof (cases "Overlay v")
    case True
    show ?thesis
    proof (cases "map_of (edgeEndpoints c) (unionKey kinds outgoing)")
      case None
      let ?out = "mergeSortedIDs merged (deltaEdgeEndpointsFor v kinds outgoing)"
      have o: "lists_set ?out (\<Union>k \<in> set kinds. ?S outgoing k)"
        using mergeSortedIDs_lists [OF conjunct2 [OF m] deltaEdgeEndpointsFor_lists [OF v True]] by (simp add: UN_Un_distrib)
      have "cache_ok v (c\<lparr>edgeKindIdx := Some ix', edgeEndpoints := AList.update (unionKey kinds outgoing) ?out (edgeEndpoints c)\<rparr>)"
        using c m o unfolding cache_ok_def by (auto simp: update_conv' split: if_splits)
      then show ?thesis using False True None ix(1) got o by (simp add: EdgeKindEndpoints_def Let_def)
    next
      case (Some ids)
      have "lists_set ids (\<Union>k \<in> set kinds. ?S outgoing k)"
        using memo_hit [of "edgeEndpoints c" ?S, OF _ Some] c unfolding cache_ok_def by blast
      then show ?thesis using False True Some ix(1) got c1 by (simp add: EdgeKindEndpoints_def)
    qed
  next
    case no: False
    then show ?thesis using False ix(1) got c1 m by (simp add: EdgeKindEndpoints_def delta_ends_base)
  qed
qed (use c in \<open>simp add: EdgeKindEndpoints_def\<close>)

lemma snap_edge_ends:
  assumes v: "view_wf v" and e: "snap_edge (v_base v) e = Some (a, b, k)"
  shows "(\<exists>m < NodeCount (v_base v). a = GraphIDs (v_base v) ! m) \<and> (\<exists>m < NodeCount (v_base v). b = GraphIDs (v_base v) ! m)"
proof -
  obtain out inn where rep: "snap_rep (v_base v) out inn" using v unfolding view_wf_def snap_ok_def snap_wf_def by blast
  obtain u t where "u < NodeCount (v_base v)" "(t, k, e) \<in> set (out u)" "a = GraphIDs (v_base v) ! u" "b = GraphIDs (v_base v) ! t"
    using e unfolding snap_edge_iff [OF rep base_facts(5) [OF v]] by blast
  moreover have "t < NodeCount (v_base v)" using rep calculation(1,2) unfolding snap_rep_def by fastforce
  ultimately show ?thesis by blast
qed

lemma history_ok:
  assumes v: "view_wf v"
  shows "ok (endpoint_history v calls) (cache_ok v)"
proof -
  have "cache_ok v c \<Longrightarrow> ok (foldM (\<lambda>(kinds, outgoing) c. map_option fst (EdgeKindEndpoints v c kinds outgoing)) calls c) (cache_ok v)" for c
  proof (induction calls arbitrary: c)
    case (Cons x calls)
    obtain kinds outgoing where x: "x = (kinds, outgoing)" by (cases x)
    obtain c' r where "EdgeKindEndpoints v c kinds outgoing = Some (c', r)" "cache_ok v c'"
      using EdgeKindEndpoints_step [OF v Cons.prems, of kinds outgoing] by (auto simp: ok_iff)
    then show ?case using Cons.IH [of c'] by (simp add: x)
  qed simp
  then show ?thesis by (simp add: endpoint_history_def coldCache_def cache_ok_def)
qed

section \<open>The contract\<close>

text \<open>
  C35. The endpoint index is never short, never stale and always ascending. After any history of
  questions to a view, asking for the endpoints of some kinds returns, without a panic, an ascending list without
  repeats that holds every node with a visible edge of one of the kinds in the direction, holds only
  nodes of the view, and is the list a view with cold caches would compute: a memoized answer is never
  one of another alternation or direction. On a view without a delta the list is exact. No kinds at all is not answered.
\<close>

theorem edge_kind_endpoints_complete:
  assumes v: "view_wf v"
  shows "ok (endpoint_history v calls) (\<lambda>c.
    map_option snd (EdgeKindEndpoints v c [] outgoing) = Some ([], False) \<and>
    (kinds \<noteq> [] \<longrightarrow> (\<exists>ids. map_option snd (EdgeKindEndpoints v c kinds outgoing) = Some (ids, True) \<and>
      map_option snd (EdgeKindEndpoints v coldCache kinds outgoing) = Some (ids, True) \<and>
      sorted_wrt (<) ids \<and> (\<forall>n \<in> set ids. n < v_NodeCount v) \<and>
      (\<forall>e a b k n. view_edges v e = Some (a, b, k) \<and> k \<in> set kinds \<and> v_Dense v (if outgoing then a else b) = Some n \<longrightarrow> n \<in> set ids) \<and>
      (\<not> Overlay v \<longrightarrow> (\<forall>n \<in> set ids. \<exists>e a b k. view_edges v e = Some (a, b, k) \<and> k \<in> set kinds \<and> v_Dense v (if outgoing then a else b) = Some n)))))"
proof (rule ok_mono [OF history_ok [OF v, of calls]])
  fix c assume c: "cache_ok v c"
  let ?S = "\<Union>k \<in> set kinds. base_ends v outgoing k \<union> delta_ends v outgoing k"
  have cold: "cache_ok v coldCache" by (simp add: cache_ok_def coldCache_def)
  have vis: "n \<in> ?S" if "view_edges v e = Some (a, b, k)" "k \<in> set kinds" "v_Dense v (if outgoing then a else b) = Some n" for e a b k n
  proof (cases "edge_states v e")
    case None
    then have b: "snap_edge (v_base v) e = Some (a, b, k)" using that(1) by (simp add: view_edges_iff)
    have n: "n < v_NodeCount v" "pg v n = (if outgoing then a else b)" using that(3) Dense_iff(1) [OF v] by auto
    have "\<exists>m < NodeCount (v_base v). GraphIDs (v_base v) ! m = (if outgoing then a else b)" using snap_edge_ends [OF v b] by auto
    then obtain m where m: "m < NodeCount (v_base v)" "pg v m = pg v n" using n by (auto simp: pg_def)
    then have "m = n" using pg_inj [OF v, of m n] n by (simp add: v_NodeCount_def)
    then show ?thesis using b m n that(2) by (auto simp: base_ends_def)
  next
    case (Some st)
    then show ?thesis using that Dense_iff(1) [OF v] by (auto simp: view_edges_iff delta_ends_def)
  qed
  have only: "\<exists>e a b k. view_edges v e = Some (a, b, k) \<and> k \<in> set kinds \<and> v_Dense v (if outgoing then a else b) = Some n" if mem: "n \<in> ?S" and no: "\<not> Overlay v" for n
  proof -
    obtain k e a b where b: "k \<in> set kinds" "n < NodeCount (v_base v)" "snap_edge (v_base v) e = Some (a, b, k)" "pg v n = (if outgoing then a else b)"
      using mem unfolding delta_ends_base [OF no] base_ends_def by blast
    have "view_nodes v (GraphIDs (v_base v) ! m) \<noteq> None" if "m < NodeCount (v_base v)" for m
      using Alive_iff [OF v, of m] that no by (simp add: Alive_def pg_def v_NodeCount_def)
    then have "a \<in> dom (view_nodes v)" "b \<in> dom (view_nodes v)" using snap_edge_ends [OF v b(3)] by auto
    then have "view_edges v e = Some (a, b, k)" using b(3) not_overlay [OF no] by (simp add: view_edges_iff)
    moreover have "v_Dense v (if outgoing then a else b) = Some n" using b Dense_iff(1) [OF v] by (simp add: v_NodeCount_def)
    ultimately show ?thesis using b(1) by blast
  qed
  have range: "n < v_NodeCount v" if "n \<in> ?S" for n using that by (auto simp: base_ends_def delta_ends_def v_NodeCount_def)
  have "\<exists>ids. kinds \<noteq> [] \<longrightarrow> map_option snd (EdgeKindEndpoints v c kinds outgoing) = Some (ids, True) \<and>
      map_option snd (EdgeKindEndpoints v coldCache kinds outgoing) = Some (ids, True) \<and> lists_set ids ?S"
    using EdgeKindEndpoints_step [OF v c, of kinds outgoing] EdgeKindEndpoints_step [OF v cold, of kinds outgoing]
    by (cases "kinds = []") (auto simp: ok_iff dest: lists_set_unique)
  then obtain ids where agree: "kinds \<noteq> [] \<longrightarrow> map_option snd (EdgeKindEndpoints v c kinds outgoing) = Some (ids, True) \<and>
      map_option snd (EdgeKindEndpoints v coldCache kinds outgoing) = Some (ids, True) \<and> lists_set ids ?S" ..
  note ids = agree [rule_format, THEN conjunct1] agree [rule_format, THEN conjunct2, THEN conjunct1]
    agree [rule_format, THEN conjunct2, THEN conjunct2, unfolded lists_set_def, THEN conjunct1]
    agree [rule_format, THEN conjunct2, THEN conjunct2, unfolded lists_set_def, THEN conjunct2]
  show "map_option snd (EdgeKindEndpoints v c [] outgoing) = Some ([], False) \<and>
    (kinds \<noteq> [] \<longrightarrow> (\<exists>ids. map_option snd (EdgeKindEndpoints v c kinds outgoing) = Some (ids, True) \<and>
      map_option snd (EdgeKindEndpoints v coldCache kinds outgoing) = Some (ids, True) \<and>
      sorted_wrt (<) ids \<and> (\<forall>n \<in> set ids. n < v_NodeCount v) \<and>
      (\<forall>e a b k n. view_edges v e = Some (a, b, k) \<and> k \<in> set kinds \<and> v_Dense v (if outgoing then a else b) = Some n \<longrightarrow> n \<in> set ids) \<and>
      (\<not> Overlay v \<longrightarrow> (\<forall>n \<in> set ids. \<exists>e a b k. view_edges v e = Some (a, b, k) \<and> k \<in> set kinds \<and> v_Dense v (if outgoing then a else b) = Some n))))"
  proof (intro conjI impI exI [of _ ids] allI ballI)
    show "map_option snd (EdgeKindEndpoints v c [] outgoing) = Some ([], False)" by (simp add: EdgeKindEndpoints_def)
    assume k: "kinds \<noteq> []"
    show "map_option snd (EdgeKindEndpoints v c kinds outgoing) = Some (ids, True)"
      "map_option snd (EdgeKindEndpoints v coldCache kinds outgoing) = Some (ids, True)" "sorted_wrt (<) ids" by (rule ids(1-3) [OF k])+
    show "n < v_NodeCount v" if "n \<in> set ids" for n using that range unfolding ids(4) [OF k] by blast
    show "n \<in> set ids" if "view_edges v e = Some (a, b, k) \<and> k \<in> set kinds \<and> v_Dense v (if outgoing then a else b) = Some n" for e a b k n
      unfolding ids(4) [OF k] by (rule vis [of e a b k n]) (use that in simp_all)
    show "\<exists>e a b k. view_edges v e = Some (a, b, k) \<and> k \<in> set kinds \<and> v_Dense v (if outgoing then a else b) = Some n"
      if "\<not> Overlay v" "n \<in> set ids" for n using that(2) unfolding ids(4) [OF k] by (rule only [OF _ that(1)])
  qed
qed

theorem edge_kind_endpoints_complete_witness:
  "\<exists>c ids n. endpoint_history example_view [([3], True), ([4, 3], False), ([3, 4], True)] = Some c \<and>
     map_option snd (EdgeKindEndpoints example_view c [4, 3] True) = Some (ids, True) \<and> v_Dense example_view 9 = Some n \<and> n \<in> set ids"
proof -
  have e: "view_edges example_view 71 = Some (9, 12, 3)" by (simp add: view_edges_def both_in_def example_view_graph)
  obtain n where n: "v_Dense example_view 9 = Some n" using resolves_iff [OF example_view_wf(1), of 9] by (auto simp: example_view_graph)
  from edge_kind_endpoints_complete [OF example_view_wf(1), of "[([3], True), ([4, 3], False), ([3, 4], True)]" True "[4, 3]"]
  obtain c ids where c: "endpoint_history example_view [([3], True), ([4, 3], False), ([3, 4], True)] = Some c"
    "map_option snd (EdgeKindEndpoints example_view c [4, 3] True) = Some (ids, True)"
    and all: "\<forall>e a b k n. view_edges example_view e = Some (a, b, k) \<and> k \<in> set [4, 3] \<and> v_Dense example_view a = Some n \<longrightarrow> n \<in> set ids"
    unfolding ok_iff by auto
  have "n \<in> set ids" using all [rule_format, of 71 9 12 3 n] e n by simp
  then show ?thesis using c n by blast
qed

end
