(* ===== verification/Json.thy ===== *)
theory Json
  imports Props Strconv "HOL-Library.AList"
begin

text \<open>
  JSON as the program reads it through Go's \<open>encoding/json\<close>: the syntax of a text with its limit on
  nesting, string literals with their escapes, and the values a text decodes to. Numbers are converted by
  \<open>strconv.ParseFloat\<close>, the argument \<open>pf\<close> (\<open>None\<close>: an error, in particular a number out of the range of a float64).
  On it: \<open>parseNodeProps\<close> of \<open>internal/engine/snapshot/props.go\<close>, which splits a node's property bag, the
  canonical value keys of \<open>valueindex.go\<close>, and its scanner of flat arrays, which agrees with the decoder.
\<close>

section \<open>UTF-8\<close>

abbreviation code :: "char \<Rightarrow> nat" where "code c \<equiv> of_char c"

definition RuneError :: nat where "RuneError = 65533"

definition EncodeRune :: "nat \<Rightarrow> string" where
  "EncodeRune r =
     (if r < 128 then [char_of r]
      else if r < 2048 then [char_of (192 + r div 64), char_of (128 + r mod 64)]
      else if 1114111 < r \<or> (55296 \<le> r \<and> r \<le> 57343) then map char_of [239, 191, 189 :: nat]
      else if r < 65536 then map char_of [224 + r div 4096, 128 + r div 64 mod 64, 128 + r mod 64]
      else map char_of [240 + r div 262144, 128 + r div 4096 mod 64, 128 + r div 64 mod 64, 128 + r mod 64])"

text \<open>The rune at the front and its width; a byte that starts no valid encoding is \<open>RuneError\<close> of width 1.\<close>

definition DecodeRune :: "string \<Rightarrow> nat \<times> nat" where
  "DecodeRune s =
     (let b = (\<lambda>i. if i < length s then code (s ! i) else 0);
          cont = (\<lambda>i. 128 \<le> b i \<and> b i < 192) in
      if s = [] then (RuneError, 0)
      else if b 0 < 128 then (b 0, 1)
      else if 194 \<le> b 0 \<and> b 0 < 224 \<and> cont 1 then ((b 0 - 192) * 64 + (b 1 - 128), 2)
      else if 224 \<le> b 0 \<and> b 0 < 240 \<and> cont 1 \<and> cont 2 \<and> (b 0 = 224 \<longrightarrow> 160 \<le> b 1) \<and> (b 0 = 237 \<longrightarrow> b 1 < 160)
        then ((b 0 - 224) * 4096 + (b 1 - 128) * 64 + (b 2 - 128), 3)
      else if 240 \<le> b 0 \<and> b 0 < 245 \<and> cont 1 \<and> cont 2 \<and> cont 3 \<and> (b 0 = 240 \<longrightarrow> 144 \<le> b 1) \<and> (b 0 = 244 \<longrightarrow> b 1 < 144)
        then ((b 0 - 240) * 262144 + (b 1 - 128) * 4096 + (b 2 - 128) * 64 + (b 3 - 128), 4)
      else (RuneError, 1))"

lemma DecodeRune_width: "s \<noteq> [] \<Longrightarrow> 0 < snd (DecodeRune s)"
  by (simp add: DecodeRune_def Let_def)

section \<open>String literals\<close>

definition hex_digit :: "char \<Rightarrow> nat option" where
  "hex_digit c = (if 48 \<le> code c \<and> code c < 58 then Some (code c - 48)
     else if 97 \<le> code c \<and> code c < 103 then Some (code c - 87)
     else if 65 \<le> code c \<and> code c < 71 then Some (code c - 55) else None)"

text \<open>The body of a literal and the text after its closing quote.\<close>

fun lex_string :: "string \<Rightarrow> (string \<times> string) option" where
  "lex_string [] = None"
| "lex_string (c # s) =
     (if c = CHR 0x22 then Some ([], s)
      else if code c < 32 then None
      else if c = CHR 0x5C then
        (case s of [] \<Rightarrow> None
         | e # s' \<Rightarrow>
             if e \<in> {CHR 0x22, CHR 0x5C, CHR ''/'', CHR ''b'', CHR ''f'', CHR ''n'', CHR ''r'', CHR ''t''}
             then map_option (\<lambda>(body, rest). (c # e # body, rest)) (lex_string s')
             else if e = CHR ''u'' \<and> 4 \<le> length s' \<and> list_all (\<lambda>h. hex_digit h \<noteq> None) (take 4 s')
             then map_option (\<lambda>(body, rest). (c # e # take 4 s' @ body, rest)) (lex_string (drop 4 s'))
             else None)
      else map_option (\<lambda>(body, rest). (c # body, rest)) (lex_string s))"

definition getu4 :: "string \<Rightarrow> nat option" where
  "getu4 s = (if length s < 6 \<or> s ! 0 \<noteq> CHR 0x5C \<or> s ! 1 \<noteq> CHR ''u'' then None
     else fold (\<lambda>c r. case (r, hex_digit c) of (Some n, Some d) \<Rightarrow> Some (16 * n + d) | _ \<Rightarrow> None) (take 4 (drop 2 s)) (Some 0))"

text \<open>The first loop of \<open>unquoteBytes\<close>: a body without escapes, control bytes and broken UTF-8 is returned as it is.\<close>

function plain :: "string \<Rightarrow> bool" where
  "plain s = (if s = [] then True
     else if s ! 0 = CHR 0x5C \<or> s ! 0 = CHR 0x22 \<or> code (s ! 0) < 32 then False
     else if DecodeRune s = (RuneError, 1) then False
     else plain (drop (snd (DecodeRune s)) s))"
  by pat_completeness auto
termination
  by (relation "measure length") (simp_all add: DecodeRune_width)

declare plain.simps [simp del]

function unquote_loop :: "string \<Rightarrow> string" where
  "unquote_loop s =
     (if s = [] then []
      else if s ! 0 = CHR 0x5C then
        (if length s < 2 then []
         else if s ! 1 = CHR ''u'' then
           (case getu4 s of None \<Rightarrow> []
            | Some rr \<Rightarrow>
                if 55296 \<le> rr \<and> rr \<le> 57343 then
                  (case getu4 (drop 6 s) of
                     Some rr1 \<Rightarrow> if rr \<le> 56319 \<and> 56320 \<le> rr1 \<and> rr1 \<le> 57343
                        then EncodeRune ((rr - 55296) * 1024 + (rr1 - 56320) + 65536) @ unquote_loop (drop 12 s)
                        else EncodeRune RuneError @ unquote_loop (drop 6 s)
                   | None \<Rightarrow> EncodeRune RuneError @ unquote_loop (drop 6 s))
                else EncodeRune rr @ unquote_loop (drop 6 s))
         else (let e = s ! 1 in
               if e = CHR ''b'' then CHR 0x08 else if e = CHR ''f'' then CHR 0x0C else if e = CHR ''n'' then CHR 0x0A
               else if e = CHR ''r'' then CHR 0x0D else if e = CHR ''t'' then CHR 0x09 else e) # unquote_loop (drop 2 s))
      else EncodeRune (fst (DecodeRune s)) @ unquote_loop (drop (snd (DecodeRune s)) s))"
  by pat_completeness auto
termination
  by (relation "measure length") (auto simp: DecodeRune_width getu4_def)

declare unquote_loop.simps [simp del]

definition unquote :: "string \<Rightarrow> string" where
  "unquote s = (if plain s then s else unquote_loop s)"

section \<open>Syntax\<close>

definition is_space :: "char \<Rightarrow> bool" where
  "is_space c \<longleftrightarrow> c = CHR '' '' \<or> c = CHR 0x09 \<or> c = CHR 0x0A \<or> c = CHR 0x0D"

definition is_digit :: "char \<Rightarrow> bool" where
  "is_digit c \<longleftrightarrow> 48 \<le> code c \<and> code c < 58"

definition skip_ws :: "string \<Rightarrow> string" where "skip_ws s = dropWhile is_space s"

definition lex_int :: "string \<Rightarrow> (string \<times> string) option" where
  "lex_int s = (case s of [] \<Rightarrow> None
     | c # r \<Rightarrow> if c = CHR ''0'' then Some ([c], r) else if is_digit c then Some (takeWhile is_digit s, dropWhile is_digit s) else None)"

definition lex_frac :: "string \<Rightarrow> (string \<times> string) option" where
  "lex_frac s = (case s of [] \<Rightarrow> Some ([], s)
     | c # r \<Rightarrow> if c \<noteq> CHR ''.'' then Some ([], s)
         else if takeWhile is_digit r = [] then None else Some (c # takeWhile is_digit r, dropWhile is_digit r))"

definition lex_exp :: "string \<Rightarrow> (string \<times> string) option" where
  "lex_exp s = (case s of [] \<Rightarrow> Some ([], s)
     | c # r \<Rightarrow> if c \<noteq> CHR ''e'' \<and> c \<noteq> CHR ''E'' then Some ([], s)
         else let sg = (case r of d # _ \<Rightarrow> if d = CHR ''+'' \<or> d = CHR ''-'' then [d] else [] | [] \<Rightarrow> []); r' = drop (length sg) r in
              if takeWhile is_digit r' = [] then None else Some (c # sg @ takeWhile is_digit r', dropWhile is_digit r'))"

definition lex_number :: "string \<Rightarrow> (string \<times> string) option" where
  "lex_number s = do {
     let sg = (case s of c # _ \<Rightarrow> if c = CHR ''-'' then [c] else [] | [] \<Rightarrow> []);
     (i, r1) \<leftarrow> lex_int (drop (length sg) s);
     (f, r2) \<leftarrow> lex_frac r1;
     (e, r3) \<leftarrow> lex_exp r2;
     Some (sg @ i @ f @ e, r3) }"

text \<open>A member of an object keeps the text of its value, as a \<open>json.RawMessage\<close> does.\<close>

datatype jsyn = JNull | JBool bool | JNum string | JStr string | JArr "jsyn list" | JObj "(string \<times> string \<times> jsyn) list"

definition lex_word :: "string \<Rightarrow> jsyn \<Rightarrow> string \<Rightarrow> (jsyn \<times> string) option" where
  "lex_word w j s = (if take (length w) s = w then Some (j, drop (length w) s) else None)"

definition expect :: "char \<Rightarrow> string \<Rightarrow> string option" where
  "expect ch s = (case skip_ws s of [] \<Rightarrow> None | c # r \<Rightarrow> if c = ch then Some r else None)"

lemma skip_ws_length: "length (skip_ws s) \<le> length s"
  by (simp add: skip_ws_def length_dropWhile_le)

lemma skip_ws_less: "length r < n \<Longrightarrow> length (skip_ws r) < n"
  using skip_ws_length [of r] by simp

text \<open>
  \<open>d\<close> counts the containers that may still be opened. Each loop continues only on a shorter rest, which
  is what a rest always is.
\<close>

function (sequential) parse_value :: "nat \<Rightarrow> string \<Rightarrow> (jsyn \<times> string) option"
  and parse_elems :: "nat \<Rightarrow> string \<Rightarrow> (jsyn list \<times> string) option"
  and parse_members :: "nat \<Rightarrow> string \<Rightarrow> ((string \<times> string \<times> jsyn) list \<times> string) option" where
  "parse_value d [] = None"
| "parse_value d (c # r) =
     (if c = CHR ''n'' then lex_word ''null'' JNull (c # r)
      else if c = CHR ''t'' then lex_word ''true'' (JBool True) (c # r)
      else if c = CHR ''f'' then lex_word ''false'' (JBool False) (c # r)
      else if c = CHR 0x22 then map_option (\<lambda>(b, r). (JStr b, r)) (lex_string r)
      else if c = CHR ''['' then
        (if d = 0 then None
         else case expect CHR '']'' r of
                Some r' \<Rightarrow> Some (JArr [], r')
              | None \<Rightarrow> map_option (\<lambda>(xs, r). (JArr xs, r)) (parse_elems (d - 1) r))
      else if c = CHR ''{'' then
        (if d = 0 then None
         else case expect CHR ''}'' r of
                Some r' \<Rightarrow> Some (JObj [], r')
              | None \<Rightarrow> map_option (\<lambda>(ms, r). (JObj ms, r)) (parse_members (d - 1) r))
      else map_option (\<lambda>(t, r). (JNum t, r)) (lex_number (c # r)))"
| "parse_elems d s =
     (case parse_value d (skip_ws s) of None \<Rightarrow> None
      | Some (x, r) \<Rightarrow>
          (case expect CHR '']'' r of
             Some r' \<Rightarrow> Some ([x], r')
           | None \<Rightarrow>
               (case expect CHR '','' r of None \<Rightarrow> None
                | Some r' \<Rightarrow> if length r' < length s then map_option (\<lambda>(xs, r). (x # xs, r)) (parse_elems d r') else None)))"
| "parse_members d s =
     (case Option.bind (expect CHR 0x22 s) lex_string of None \<Rightarrow> None
      | Some (k, r1) \<Rightarrow>
          (case expect CHR '':'' r1 of None \<Rightarrow> None
           | Some r2 \<Rightarrow>
               if length r2 < length s then
                 (case parse_value d (skip_ws r2) of None \<Rightarrow> None
                  | Some (x, r) \<Rightarrow>
                      let t = take (length (skip_ws r2) - length r) (skip_ws r2) in
                      (case expect CHR ''}'' r of
                         Some r' \<Rightarrow> Some ([(k, t, x)], r')
                       | None \<Rightarrow>
                           (case expect CHR '','' r of None \<Rightarrow> None
                            | Some r' \<Rightarrow> if length r' < length s then map_option (\<lambda>(ms, r). ((k, t, x) # ms, r)) (parse_members d r') else None)))
               else None))"
  by pat_completeness auto

termination
  by (relation "measures [\<lambda>x. case x of Inl (d, s) \<Rightarrow> d | Inr (Inl (d, s)) \<Rightarrow> d | Inr (Inr (d, s)) \<Rightarrow> d,
        \<lambda>x. case x of Inl (d, s) \<Rightarrow> length s | Inr (Inl (d, s)) \<Rightarrow> length s | Inr (Inr (d, s)) \<Rightarrow> length s,
        \<lambda>x. case x of Inl _ \<Rightarrow> 0 | _ \<Rightarrow> 1]")
    (use skip_ws_length in \<open>auto simp: le_less intro: skip_ws_less\<close>)

declare parse_value.simps(2) [simp del] parse_elems.simps [simp del] parse_members.simps [simp del]

section \<open>Values\<close>

text \<open>What an \<open>any\<close> holds after decoding; a map as an association list with distinct keys, a later duplicate winning.\<close>

datatype any = AnyNil | AnyBool bool | AnyNum "64 word" | AnyStr string | AnyList "any list" | AnyMap "(string \<times> any) list"

fun to_any :: "(string \<Rightarrow> 64 word option) \<Rightarrow> jsyn \<Rightarrow> any option"
  and to_anys :: "(string \<Rightarrow> 64 word option) \<Rightarrow> jsyn list \<Rightarrow> any list option"
  and to_members :: "(string \<Rightarrow> 64 word option) \<Rightarrow> (string \<times> string \<times> jsyn) list \<Rightarrow> (string \<times> any) list \<Rightarrow> (string \<times> any) list option" where
  "to_any pf JNull = Some AnyNil"
| "to_any pf (JBool b) = Some (AnyBool b)"
| "to_any pf (JNum t) = map_option AnyNum (pf t)"
| "to_any pf (JStr b) = Some (AnyStr (unquote b))"
| "to_any pf (JArr xs) = map_option AnyList (to_anys pf xs)"
| "to_any pf (JObj ms) = map_option AnyMap (to_members pf ms [])"
| "to_anys pf [] = Some []"
| "to_anys pf (x # xs) = do { v \<leftarrow> to_any pf x; vs \<leftarrow> to_anys pf xs; Some (v # vs) }"
| "to_members pf [] acc = Some acc"
| "to_members pf ((k, t, x) # ms) acc = do { v \<leftarrow> to_any pf x; to_members pf ms (AList.update (unquote k) v acc) }"

definition maxNestingDepth :: nat where "maxNestingDepth = 10000"

text \<open>A whole text: one value with nothing but space around it.\<close>

definition parse_text :: "string \<Rightarrow> jsyn option" where
  "parse_text s = (case parse_value maxNestingDepth (skip_ws s) of Some (j, r) \<Rightarrow> if skip_ws r = [] then Some j else None | None \<Rightarrow> None)"

definition Unmarshal :: "(string \<Rightarrow> 64 word option) \<Rightarrow> string \<Rightarrow> any option" where
  "Unmarshal pf s = Option.bind (parse_text s) (to_any pf)"

text \<open>Into a variable of type \<open>[]any\<close>: another kind of value is an error, and \<open>null\<close> leaves the nil slice.\<close>

definition UnmarshalList :: "(string \<Rightarrow> 64 word option) \<Rightarrow> string \<Rightarrow> (any list) option" where
  "UnmarshalList pf s = (case Unmarshal pf s of Some (AnyList xs) \<Rightarrow> Some xs | Some AnyNil \<Rightarrow> Some [] | _ \<Rightarrow> None)"

section \<open>Value keys\<close>

definition float_zero :: "64 word \<Rightarrow> bool" where
  "float_zero f \<longleftrightarrow> f = 0 \<or> f = 2 ^ 63"

definition numberKey :: "64 word \<Rightarrow> string" where
  "numberKey f = CHR ''f'' # FormatUint 16 (unat (if float_zero f then 0 else f))"

fun valueKey :: "any \<Rightarrow> string option" where
  "valueKey AnyNil = Some ''z''"
| "valueKey (AnyBool b) = Some (if b then ''b1'' else ''b0'')"
| "valueKey (AnyNum f) = Some (numberKey f)"
| "valueKey (AnyStr s) = Some (CHR ''s'' # s)"
| "valueKey _ = None"

section \<open>The scanner of flat arrays\<close>

definition is_lower :: "char \<Rightarrow> bool" where "is_lower c \<longleftrightarrow> 97 \<le> code c \<and> code c \<le> 122"

definition ends_number :: "char \<Rightarrow> bool" where "ends_number c \<longleftrightarrow> c = CHR '','' \<or> c = CHR '']'' \<or> c = CHR '' ''"

definition ends_plain :: "char \<Rightarrow> bool" where "ends_plain c \<longleftrightarrow> c = CHR 0x22 \<or> c = CHR 0x5C"

text \<open>One element: its key and the rest; \<open>None\<close> when the scanner is not certain of it.\<close>

definition scanElem :: "(string \<Rightarrow> 64 word option) \<Rightarrow> string \<Rightarrow> (string \<times> string) option" where
  "scanElem pf s = (case s of [] \<Rightarrow> None
     | c # r \<Rightarrow>
         if c = CHR 0x22 then
           (case dropWhile (\<lambda>c. \<not> ends_plain c) r of [] \<Rightarrow> None
            | q # r' \<Rightarrow> if q = CHR 0x5C then None else Some (CHR ''s'' # takeWhile (\<lambda>c. \<not> ends_plain c) r, r'))
         else if c = CHR ''['' \<or> c = CHR ''{'' then None
         else if c = CHR ''t'' \<or> c = CHR ''f'' \<or> c = CHR ''n'' then
           (let w = takeWhile is_lower s; r' = dropWhile is_lower s in
            if w = ''true'' then Some (''b1'', r') else if w = ''false'' then Some (''b0'', r') else if w = ''null'' then Some (''z'', r') else None)
         else map_option (\<lambda>f. (numberKey f, dropWhile (\<lambda>c. \<not> ends_number c) s)) (pf (takeWhile (\<lambda>c. \<not> ends_number c) s)))"

lemma scanElem_rest: "scanElem pf s = Some (key, r) \<Longrightarrow> length r \<le> length s"
proof (cases s)
  case (Cons c r0)
  assume e: "scanElem pf s = Some (key, r)"
  have 1: "length (dropWhile P s) \<le> length s" "length (dropWhile P r0) \<le> length s" for P using length_dropWhile_le [of P] Cons by (simp_all add: le_SucI)
  have "(\<exists>P. r = dropWhile P s) \<or> (\<exists>P q. dropWhile P r0 = q # r)"
    using e Cons unfolding scanElem_def Let_def by (auto split: list.splits if_splits)
  then show ?thesis using 1(1) 1(2) by (metis Suc_leD length_Cons)
qed (simp add: scanElem_def)

lemma expect_shorter: "expect c s = Some r \<Longrightarrow> length r < length s"
  using skip_ws_length [of s] by (auto simp: expect_def split: list.splits if_splits)

function scanLoop :: "(string \<Rightarrow> 64 word option) \<Rightarrow> string list \<Rightarrow> string \<Rightarrow> (string list) option" where
  "scanLoop pf dst s =
     (case skip_ws s of [] \<Rightarrow> None
      | c # r \<Rightarrow>
          if c = CHR '']'' then Some dst
          else case scanElem pf (c # r) of None \<Rightarrow> None
               | Some (key, r1) \<Rightarrow>
                   (case expect CHR '','' r1 of
                      Some r2 \<Rightarrow> scanLoop pf (dst @ [key]) r2
                    | None \<Rightarrow> if expect CHR '']'' r1 \<noteq> None then Some (dst @ [key]) else None))"
  by pat_completeness auto
termination
proof (relation "measure (\<lambda>(pf, dst, s). length s)")
  fix pf dst s c r x key r1 r2
  assume "skip_ws s = c # r" "scanElem pf (c # r) = Some x" "(key, r1) = x" "expect CHR '','' r1 = Some r2"
  then show "((pf, dst @ [key], r2), (pf, dst, s)) \<in> measure (\<lambda>(pf, dst, s). length s)"
    using scanElem_rest [of pf "c # r" key r1] expect_shorter [of "CHR '',''" r1 r2] skip_ws_length [of s] by auto
qed auto

declare scanLoop.simps [simp del]

definition scanFlatArrayKeys :: "(string \<Rightarrow> 64 word option) \<Rightarrow> string list \<Rightarrow> string \<Rightarrow> (string list) option" where
  "scanFlatArrayKeys pf dst raw = (case expect CHR ''['' raw of None \<Rightarrow> None | Some r \<Rightarrow> scanLoop pf dst r)"

definition arrayElementKeys :: "(string \<Rightarrow> 64 word option) \<Rightarrow> string list \<Rightarrow> string \<Rightarrow> string list" where
  "arrayElementKeys pf dst raw = (case scanFlatArrayKeys pf dst raw of Some keys \<Rightarrow> keys
     | None \<Rightarrow> (case UnmarshalList pf raw of None \<Rightarrow> dst | Some vs \<Rightarrow> dst @ List.map_filter valueKey vs))"

section \<open>The scanner agrees with the decoder\<close>

text \<open>Texts that PostgreSQL delivers are valid UTF-8.\<close>

function utf8_valid :: "string \<Rightarrow> bool" where
  "utf8_valid s = (if s = [] then True else if DecodeRune s = (RuneError, 1) then False else utf8_valid (drop (snd (DecodeRune s)) s))"
  by pat_completeness auto
termination
  by (relation "measure length") (simp_all add: DecodeRune_width)

declare utf8_valid.simps [simp del]

lemma utf8_Nil [simp]: "utf8_valid []"
  by (subst utf8_valid.simps) simp

lemma utf8_step: "utf8_valid s \<Longrightarrow> s \<noteq> [] \<Longrightarrow> DecodeRune s \<noteq> (RuneError, 1) \<and> utf8_valid (drop (snd (DecodeRune s)) s)"
  by (subst (asm) utf8_valid.simps) (simp split: if_splits)

lemma DecodeRune_ascii: "code c < 128 \<Longrightarrow> DecodeRune (c # s) = (code c, 1)"
  by (simp add: DecodeRune_def Let_def)

lemma utf8_ascii: "\<forall>c \<in> set s. code c < 128 \<Longrightarrow> utf8_valid s"
proof (induction s)
  case (Cons c s)
  then show ?case by (subst utf8_valid.simps) (simp add: DecodeRune_ascii RuneError_def)
qed simp

text \<open>An encoding does not run past an ASCII byte.\<close>

lemma DecodeRune_before_ascii:
  assumes "code c < 128" and "xs \<noteq> []" and "DecodeRune (xs @ c # ys) \<noteq> (RuneError, 1)"
  shows "DecodeRune xs = DecodeRune (xs @ c # ys) \<and> snd (DecodeRune (xs @ c # ys)) \<le> length xs"
proof -
  consider x where "xs = [x]" | x y where "xs = [x, y]" | x y z where "xs = [x, y, z]" | x y z w zs where "xs = x # y # z # w # zs"
    using assms(2) by (metis neq_Nil_conv)
  then show ?thesis by cases (use assms(1,3) in \<open>simp_all add: DecodeRune_def Let_def split: if_splits\<close>)
qed

lemma utf8_split:
  assumes "code c < 128"
  shows "utf8_valid (xs @ c # ys) \<Longrightarrow> utf8_valid xs \<and> utf8_valid ys"
proof (induction "length xs" arbitrary: xs rule: less_induct)
  case less
  show ?case
  proof (cases "xs = []")
    case True
    then show ?thesis using utf8_step [OF less.prems] assms by (simp add: DecodeRune_ascii)
  next
    case False
    let ?w = "snd (DecodeRune (xs @ c # ys))"
    have ne: "DecodeRune (xs @ c # ys) \<noteq> (RuneError, 1)" and rest: "utf8_valid (drop ?w (xs @ c # ys))"
      using utf8_step [OF less.prems] by simp_all
    note d = DecodeRune_before_ascii [OF assms False ne]
    have "0 < ?w" by (rule DecodeRune_width) simp
    then have "utf8_valid (drop ?w xs) \<and> utf8_valid ys" using less.hyps [of "drop ?w xs"] rest d False by (simp add: drop_append)
    then show ?thesis using d ne False by (subst utf8_valid.simps) simp
  qed
qed

lemma utf8_plain:
  assumes "utf8_valid s" and "\<forall>c \<in> set s. c \<noteq> CHR 0x5C \<and> c \<noteq> CHR 0x22 \<and> 32 \<le> code c"
  shows "plain s"
  using assms
proof (induction s rule: plain.induct)
  case (1 s)
  show ?case
  proof (cases "s = []")
    case False
    note st = utf8_step [OF 1(2) False]
    have h: "s ! 0 \<noteq> CHR 0x5C" "s ! 0 \<noteq> CHR 0x22" "\<not> code (s ! 0) < 32" using bspec [OF 1(3) nth_mem [of 0 s]] False by simp_all
    have "plain (drop (snd (DecodeRune s)) s)" by (rule 1(1)) (use False h st 1(3) in \<open>auto dest: in_set_dropD\<close>)
    then show ?thesis using False h st by (subst plain.simps) simp
  qed (subst plain.simps, simp)
qed

lemma lex_string_flat:
  "lex_string r = Some (b, r') \<Longrightarrow> dropWhile (\<lambda>c. \<not> ends_plain c) r = q # r2 \<Longrightarrow> q \<noteq> CHR 0x5C \<Longrightarrow>
    b = takeWhile (\<lambda>c. \<not> ends_plain c) r \<and> r' = r2 \<and> (\<forall>c \<in> set b. c \<noteq> CHR 0x5C \<and> c \<noteq> CHR 0x22 \<and> 32 \<le> code c)"
proof (induction r arbitrary: b)
  case (Cons c r)
  show ?case
  proof (cases "c = CHR 0x22 \<or> c = CHR 0x5C")
    case True
    then have "q = c" "r2 = r" using Cons.prems(2) by (auto simp: ends_plain_def)
    then have "c = CHR 0x22" using True Cons.prems(3) by simp
    then show ?thesis using Cons.prems(1) \<open>r2 = r\<close> by (simp add: ends_plain_def)
  next
    case False
    then have "lex_string (c # r) = (if code c < 32 then None else map_option (\<lambda>(body, rest). (c # body, rest)) (lex_string r))" by simp
    then obtain b1 where b1: "lex_string r = Some (b1, r')" "b = c # b1" "32 \<le> code c" using Cons.prems(1) by (cases "lex_string r") (auto split: if_splits)
    have "dropWhile (\<lambda>c. \<not> ends_plain c) r = q # r2" using Cons.prems(2) False by (simp add: ends_plain_def)
    note ih = Cons.IH [OF b1(1) this Cons.prems(3)]
    have "\<not> ends_plain c" "c \<noteq> CHR 0x22" "c \<noteq> CHR 0x5C" using False by (simp_all add: ends_plain_def)
    then show ?thesis using ih b1(2,3) by simp
  qed
qed simp

text \<open>What the program relies on of \<open>strconv.ParseFloat\<close>: it reads no number with space in it.\<close>

definition float_syntax :: "(string \<Rightarrow> 64 word option) \<Rightarrow> bool" where
  "float_syntax pf \<longleftrightarrow> (\<forall>t f. pf t = Some f \<longrightarrow> (\<forall>c \<in> set t. \<not> is_space c))"

definition number_char :: "char \<Rightarrow> bool" where
  "number_char c \<longleftrightarrow> is_digit c \<or> c = CHR ''-'' \<or> c = CHR ''+'' \<or> c = CHR ''.'' \<or> c = CHR ''e'' \<or> c = CHR ''E''"

lemma digits_chars: "\<forall>c \<in> set (takeWhile is_digit s). number_char c"
  by (auto simp: number_char_def dest: set_takeWhileD)

lemma lex_int_chars: "lex_int s = Some (t, r) \<Longrightarrow> s = t @ r \<and> (\<forall>c \<in> set t. number_char c)"
  using digits_chars [of s] by (auto simp: lex_int_def number_char_def is_digit_def split: list.splits if_splits)

lemma lex_frac_chars: "lex_frac s = Some (t, r) \<Longrightarrow> s = t @ r \<and> (\<forall>c \<in> set t. number_char c)"
  using digits_chars by (auto simp: lex_frac_def number_char_def split: list.splits if_splits) (auto dest: set_takeWhileD)

lemma lex_exp_chars: "lex_exp s = Some (t, r) \<Longrightarrow> s = t @ r \<and> (\<forall>c \<in> set t. number_char c)"
  by (auto simp: lex_exp_def number_char_def Let_def split: list.splits if_splits dest: set_takeWhileD)

lemma lex_number_chars:
  assumes "lex_number s = Some (t, r)"
  shows "s = t @ r \<and> (\<forall>c \<in> set t. number_char c)"
proof -
  define sg where "sg = (case s of c # _ \<Rightarrow> if c = CHR ''-'' then [c] else [] | [] \<Rightarrow> [])"
  have sg: "s = sg @ drop (length sg) s" "\<forall>c \<in> set sg. number_char c" by (auto simp: sg_def number_char_def split: list.split)
  obtain i r1 f r2 e where p: "lex_int (drop (length sg) s) = Some (i, r1)" "lex_frac r1 = Some (f, r2)" "lex_exp r2 = Some (e, r)" "t = sg @ i @ f @ e"
    using assms unfolding lex_number_def sg_def [symmetric] by (auto simp: Let_def split: Option.bind_splits prod.splits)
  note c = lex_int_chars [OF p(1)] lex_frac_chars [OF p(2)] lex_exp_chars [OF p(3)]
  have "s = t @ r" using sg(1) c p(4) by (metis append.assoc)
  moreover have "\<forall>x \<in> set t. number_char x" using sg(2) c p(4) by auto
  ultimately show ?thesis by blast
qed

text \<open>One element: the scanner takes what the decoder takes and keys it alike.\<close>

lemma scanElem_agrees:
  assumes pf: "float_syntax pf" and u: "utf8_valid s" and p: "parse_value d s = Some (x, r)" and sep: "expect CHR '']'' r \<noteq> None \<or> expect CHR '','' r \<noteq> None"
    and sc: "scanElem pf s = Some (key, r1)"
  shows "r1 = r \<and> (\<exists>v. to_any pf x = Some v \<and> valueKey v = Some key)"
proof (cases s)
  case (Cons c s')
  have "c \<noteq> CHR ''[''" "c \<noteq> CHR ''{''" using sc Cons by (auto simp: scanElem_def)
  then consider (str) "c = CHR 0x22" | (word) "c = CHR ''t'' \<or> c = CHR ''f'' \<or> c = CHR ''n''" | (num) "c \<notin> {CHR 0x22, CHR ''t'', CHR ''f'', CHR ''n'', CHR ''['', CHR ''{''}" by blast
  then show ?thesis
  proof cases
    case str
    obtain b where b: "lex_string s' = Some (b, r)" "x = JStr b" using p Cons str by (auto simp: parse_value.simps)
    obtain q where q: "dropWhile (\<lambda>c. \<not> ends_plain c) s' = q # r1" "q \<noteq> CHR 0x5C" "key = CHR ''s'' # takeWhile (\<lambda>c. \<not> ends_plain c) s'"
      using sc Cons str by (auto simp: scanElem_def split: list.splits if_splits)
    note flat = lex_string_flat [OF b(1) q(1,2)]
    have "ends_plain q" using q(1) by (metis hd_dropWhile list.discI list.sel(1))
    moreover have "s = c # b @ q # r1" using flat q(1) Cons by (metis takeWhile_dropWhile_id)
    ultimately have "s = c # b @ q # r1" "code q < 128" by (auto simp: ends_plain_def)
    then have "utf8_valid b" using u utf8_split [of c "[]"] utf8_split [of q b r1] str by simp
    then have "unquote b = b" using utf8_plain flat by (simp add: unquote_def)
    then show ?thesis using flat b q by simp
  next
    case word
    have "takeWhile is_lower s = w \<Longrightarrow> take (length w) s = w \<and> dropWhile is_lower s = drop (length w) s" for w
      by (metis append_eq_conv_conj takeWhile_dropWhile_id)
    then show ?thesis using word p sc Cons by (auto simp: scanElem_def parse_value.simps lex_word_def Let_def split: if_splits)
  next
    case num
    obtain t where t: "lex_number s = Some (t, r)" "x = JNum t" using p num Cons by (auto simp: parse_value.simps)
    note ch = lex_number_chars [OF t(1)]
    have stop: "\<forall>c \<in> set t. \<not> ends_number c" using ch by (auto simp: number_char_def ends_number_def is_digit_def)
    let ?P = "\<lambda>c. \<not> ends_number c"
    obtain f where f: "pf (t @ takeWhile ?P r) = Some f" "key = numberKey f" "r1 = dropWhile ?P r"
    proof -
      have "scanElem pf s = map_option (\<lambda>f. (numberKey f, dropWhile ?P s)) (pf (takeWhile ?P s))" unfolding scanElem_def using num Cons by simp
      moreover have "takeWhile ?P s = t @ takeWhile ?P r" "dropWhile ?P s = dropWhile ?P r"
        using stop ch takeWhile_append2 [of t ?P r] dropWhile_append2 [of t ?P r] by simp_all
      ultimately show ?thesis using that sc by (cases "pf (takeWhile ?P s)") auto
    qed
    have "takeWhile ?P r = []"
    proof (cases r)
      case (Cons y ys)
      have "is_space y \<or> y = CHR '']'' \<or> y = CHR '',''" using sep Cons by (auto simp: expect_def skip_ws_def split: if_splits)
      moreover have "\<forall>c \<in> set (t @ takeWhile ?P r). \<not> is_space c" using f(1) pf unfolding float_syntax_def by blast
      then have "\<not> (is_space y \<and> \<not> ends_number y)" using Cons by auto
      ultimately show ?thesis using Cons by (auto simp: ends_number_def)
    qed simp
    moreover then have "dropWhile ?P r = r" by (metis append_Nil takeWhile_dropWhile_id)
    ultimately show ?thesis using f t by simp
  qed
qed (use sc in \<open>simp add: scanElem_def\<close>)

lemma utf8_skip_ws: "utf8_valid s \<Longrightarrow> utf8_valid (skip_ws s)"
proof (induction s)
  case (Cons c s)
  have "utf8_valid s" if "is_space c" using that Cons.prems utf8_split [of c "[]" s] by (auto simp: is_space_def)
  then show ?case using Cons by (simp add: skip_ws_def)
qed (simp add: skip_ws_def)

lemma scanElem_suffix: "scanElem pf s = Some (key, r) \<Longrightarrow> \<exists>pre. s = pre @ r"
proof (cases s)
  case (Cons c s')
  assume e: "scanElem pf s = Some (key, r)"
  have "(\<exists>P. r = dropWhile P s) \<or> (\<exists>P q. dropWhile P s' = q # r)"
    using e Cons unfolding scanElem_def Let_def by (auto split: list.splits if_splits)
  then show ?thesis
  proof (elim disjE exE)
    show "\<exists>pre. s = pre @ r" if "r = dropWhile P s" for P using that by (metis takeWhile_dropWhile_id)
    show "\<exists>pre. s = pre @ r" if "dropWhile P s' = q # r" for P q
      using takeWhile_dropWhile_id [of P s'] that Cons by (intro exI [of _ "c # takeWhile P s' @ [q]"]) simp
  qed
qed (simp add: scanElem_def)

lemma utf8_after:
  assumes "utf8_valid (pre @ r)" and "expect c r = Some r'" and "code c < 128"
  shows "utf8_valid r'"
proof -
  have "r = takeWhile is_space r @ c # r'" using assms(2) takeWhile_dropWhile_id [of is_space r]
    by (auto simp: expect_def skip_ws_def split: list.splits if_splits) (metis takeWhile_dropWhile_id)
  then have "pre @ r = (pre @ takeWhile is_space r) @ c # r'" by (metis append.assoc)
  then show ?thesis using utf8_split [OF assms(3), of "pre @ takeWhile is_space r" r'] assms(1) by simp
qed

lemma scanLoop_agrees:
  assumes pf: "float_syntax pf"
  shows "parse_elems d s = Some (js, rest) \<Longrightarrow> utf8_valid s \<Longrightarrow> scanLoop pf dst s = Some keys \<Longrightarrow>
    \<exists>vs. to_anys pf js = Some vs \<and> map Some keys = map Some dst @ map valueKey vs"
proof (induction js arbitrary: s dst)
  case Nil
  then show ?case by (subst (asm) parse_elems.simps) (auto split: option.splits prod.splits if_splits)
next
  case (Cons x xs)
  obtain r where r: "parse_value d (skip_ws s) = Some (x, r)" and tail: "(expect CHR '']'' r \<noteq> None \<and> xs = []) \<or>
      (expect CHR '']'' r = None \<and> (\<exists>r'. expect CHR '','' r = Some r' \<and> parse_elems d r' = Some (xs, rest)))"
    using Cons.prems(1) by (subst (asm) parse_elems.simps) (auto split: option.splits prod.splits if_splits)
  obtain c s1 where c: "skip_ws s = c # s1" using r by (cases "skip_ws s") auto
  have "c \<noteq> CHR '']''" using r c by (auto simp: parse_value.simps lex_number_def lex_int_def is_digit_def Let_def)
  then obtain key r1 where e: "scanElem pf (skip_ws s) = Some (key, r1)"
    and k: "keys = dst @ [key] \<and> expect CHR '','' r1 = None \<or> (\<exists>r2. expect CHR '','' r1 = Some r2 \<and> scanLoop pf (dst @ [key]) r2 = Some keys)"
    using Cons.prems(3) c by (subst (asm) scanLoop.simps) (auto split: option.splits prod.splits if_splits)
  obtain v where v: "r1 = r" "to_any pf x = Some v" "valueKey v = Some key"
    using scanElem_agrees [OF pf utf8_skip_ws [OF Cons.prems(2)] r _ e] tail by blast
  have excl: "expect CHR '','' r = None" if "expect CHR '']'' r \<noteq> None" using that by (auto simp: expect_def split: list.splits if_splits)
  show ?case
  proof (cases "expect CHR '']'' r = None")
    case True
    then obtain r' where r': "expect CHR '','' r = Some r'" "parse_elems d r' = Some (xs, rest)" using tail by blast
    have "utf8_valid r'" using scanElem_suffix [OF e] utf8_skip_ws [OF Cons.prems(2)] utf8_after [OF _ r'(1)] v(1) by auto
    moreover have "scanLoop pf (dst @ [key]) r' = Some keys" using k r'(1) v(1) by simp
    ultimately obtain vs where "to_anys pf xs = Some vs" "map Some keys = map Some (dst @ [key]) @ map valueKey vs" using Cons.IH [OF r'(2)] by blast
    then show ?thesis using v by simp
  next
    case False
    then have "xs = []" "keys = dst @ [key]" using tail k excl v(1) by auto
    then show ?thesis using v by simp
  qed
qed

text \<open>Where the scanner answers, it has the key of every element.\<close>

lemma scanFlatArrayKeys_exact:
  assumes "float_syntax pf" and "utf8_valid raw" and "UnmarshalList pf raw = Some vs" and "scanFlatArrayKeys pf dst raw = Some keys"
  shows "map Some keys = map Some dst @ map valueKey vs"
proof -
  obtain r where r: "expect CHR ''['' raw = Some r" "scanLoop pf dst r = Some keys" using assms(4) by (auto simp: scanFlatArrayKeys_def split: option.splits)
  have raw: "skip_ws raw = CHR ''['' # r" using r(1) by (auto simp: expect_def split: list.splits if_splits)
  obtain j rest where j: "parse_value maxNestingDepth (CHR ''['' # r) = Some (j, rest)" "to_any pf j = Some (AnyList vs) \<or> to_any pf j = Some AnyNil \<and> vs = []"
    using assms(3) raw by (auto simp: UnmarshalList_def Unmarshal_def parse_text_def split: option.splits any.splits if_splits prod.splits Option.bind_splits)
  show ?thesis
  proof (cases "expect CHR '']'' r")
    case (Some r')
    then have "j = JArr []" using j(1) by (simp add: parse_value.simps maxNestingDepth_def)
    moreover have "scanLoop pf dst r = Some dst" using Some by (subst scanLoop.simps) (auto simp: expect_def split: list.splits if_splits)
    ultimately show ?thesis using j(2) r(2) by auto
  next
    case None
    then obtain js where js: "parse_elems (maxNestingDepth - 1) r = Some (js, rest)" "j = JArr js"
      using j(1) by (auto simp: parse_value.simps maxNestingDepth_def)
    have "utf8_valid r" using utf8_after [of "[]" raw "CHR ''[''" r] assms(2) r(1) by simp
    then show ?thesis using scanLoop_agrees [OF assms(1) js(1) _ r(2)] j(2) js(2) by auto
  qed
qed

lemma map_filter_total: "map Some keys = map Some dst @ map f ws \<Longrightarrow> keys = dst @ List.map_filter f ws"
proof (induction ws arbitrary: keys rule: rev_induct)
  case Nil
  then show ?case by (simp add: map_filter_simps inj_map_eq_map [OF inj_Some] flip: map_append)
next
  case (snoc w ws)
  obtain ks k where "keys = ks @ [k]" using snoc.prems by (cases keys rule: rev_cases) auto
  then show ?case using snoc by (auto simp: List.map_filter_def)
qed

lemma arrayElementKeys_agree:
  assumes "float_syntax pf" and "utf8_valid raw" and "UnmarshalList pf raw = Some vs"
  shows "arrayElementKeys pf dst raw = dst @ List.map_filter valueKey vs"
proof (cases "scanFlatArrayKeys pf dst raw")
  case None
  then show ?thesis using assms(3) by (simp add: arrayElementKeys_def)
next
  case (Some keys)
  then show ?thesis using map_filter_total [OF scanFlatArrayKeys_exact [OF assms Some]] by (simp add: arrayElementKeys_def)
qed

text \<open>
  C38. The index of list elements sees what the decoder sees. For the JSON text of any array, the keys the flat
  scanner reads straight from the text, or the decoder where the scanner is not certain, are the
  canonical keys of the decoded elements, in order, nested containers left out.
\<close>

theorem array_keys_agree:
  assumes "float_syntax pf" and "utf8_valid raw" and "UnmarshalList pf raw = Some vs"
  shows "arrayElementKeys pf dst raw = dst @ List.map_filter valueKey vs"
  by (rule arrayElementKeys_agree [OF assms])

theorem array_keys_agree_witness:
  "arrayElementKeys (\<lambda>t. if t = ''1'' then Some 7 else None) [] (CHR ''['' # CHR 0x22 # CHR ''a'' # CHR 0x22 # '', 1,true]'') = [''sa'', ''f7'', ''b1'']"
proof -
  let ?pf = "\<lambda>t. if t = ''1'' then Some (7 :: 64 word) else None"
  have "float_syntax ?pf" by (auto simp: float_syntax_def is_space_def split: if_splits)
  moreover have "utf8_valid (CHR ''['' # CHR 0x22 # CHR ''a'' # CHR 0x22 # '', 1,true]'')" by (rule utf8_ascii) simp
  moreover have "UnmarshalList ?pf (CHR ''['' # CHR 0x22 # CHR ''a'' # CHR 0x22 # '', 1,true]'') = Some [AnyStr ''a'', AnyNum 7, AnyBool True]"
    by (simp add: UnmarshalList_def Unmarshal_def parse_text_def maxNestingDepth_def skip_ws_def is_space_def parse_value.simps parse_elems.simps expect_def
        lex_word_def lex_number_def lex_int_def lex_frac_def lex_exp_def is_digit_def unquote_def plain.simps DecodeRune_ascii RuneError_def)
  ultimately have "arrayElementKeys ?pf [] (CHR ''['' # CHR 0x22 # CHR ''a'' # CHR 0x22 # '', 1,true]'') = List.map_filter valueKey [AnyStr ''a'', AnyNum 7, AnyBool True]"
    using array_keys_agree [of ?pf "CHR ''['' # CHR 0x22 # CHR ''a'' # CHR 0x22 # '', 1,true]''" _ "[]"] by simp
  moreover have "List.map_filter valueKey [AnyStr ''a'', AnyNum 7, AnyBool True] = [''sa'', ''f7'', ''b1'']" by code_simp
  ultimately show ?thesis by simp
qed

end
