(* ===== verification/ParseProps.thy ===== *)
theory ParseProps
  imports Json Building
begin

text \<open>
  The parsing of a node's property bag, \<open>parseNodeProps\<close> of \<open>internal/engine/snapshot/props.go\<close>, and the
  decoding of a stored list. \<open>pf\<close> is \<open>strconv.ParseFloat\<close> and \<open>ff\<close> is \<open>strconv.FormatFloat\<close> with format \<open>f\<close> and the
  least precision that reads back. The members come out in the order of the text; the source
  ranges over a Go map, so their order is not specified, and nothing below depends on it.
\<close>

section \<open>Parsing\<close>

definition allDecimalDigits :: "string \<Rightarrow> bool" where
  "allDecimalDigits b = list_all (\<lambda>c. \<not> (code c < 48 \<or> code c > 57)) b"

definition numberSpellingCanonical :: "(64 word \<Rightarrow> string) \<Rightarrow> string \<Rightarrow> 64 word \<Rightarrow> bool" where
  "numberSpellingCanonical ff t f =
     (let digits = (if length t > 0 \<and> t ! 0 = CHR ''-'' then drop 1 t else t); n = length digits in
      if n > 0 \<and> n \<le> 15 \<and> (digits ! 0 \<noteq> CHR ''0'' \<or> n = 1) \<and> allDecimalDigits digits then n = length t \<or> digits ! 0 \<noteq> CHR ''0''
      else if float_zero f then t = ''0''
      else ff f = t)"

definition parseMember :: "(string \<Rightarrow> 64 word option) \<Rightarrow> (64 word \<Rightarrow> string) \<Rightarrow> string \<times> string \<times> jsyn \<Rightarrow> string + parsedProp" where
  "parseMember pf ff = (\<lambda>(name, trimmed, x).
     let pp = \<lparr>pp_name = name, pp_kind = propKindNull, pp_num = 0, pp_bytes = []\<rparr> in
     if length trimmed = 0 then Inr pp
     else let c = trimmed ! 0 in
       if c = CHR ''n'' then Inr pp
       else if c = CHR ''t'' then Inr (pp\<lparr>pp_kind := propKindTrue\<rparr>)
       else if c = CHR ''f'' then Inr (pp\<lparr>pp_kind := propKindFalse\<rparr>)
       else if c = CHR 0x22 then (case x of JStr b \<Rightarrow> Inr (pp\<lparr>pp_kind := propKindString, pp_bytes := unquote b\<rparr>) | _ \<Rightarrow> Inl ''decode property'')
       else if c = CHR ''['' then Inr (pp\<lparr>pp_kind := propKindArray, pp_bytes := trimmed\<rparr>)
       else if c = CHR ''{'' then Inr (pp\<lparr>pp_kind := propKindObject, pp_bytes := trimmed\<rparr>)
       else case pf trimmed of
              None \<Rightarrow> Inl ''decode property''
            | Some f \<Rightarrow> Inr (pp\<lparr>pp_kind := (if \<not> numberSpellingCanonical ff trimmed f then propKindNumberNonCanonical else propKindNumber), pp_num := f\<rparr>))"

fun parseMembers :: "(string \<Rightarrow> 64 word option) \<Rightarrow> (64 word \<Rightarrow> string) \<Rightarrow> (string \<times> string \<times> jsyn) list \<Rightarrow> string + parsedProp list" where
  "parseMembers pf ff [] = Inr []"
| "parseMembers pf ff (m # ms) = (case parseMember pf ff m of Inl err \<Rightarrow> Inl err
     | Inr pp \<Rightarrow> (case parseMembers pf ff ms of Inl err \<Rightarrow> Inl err | Inr pps \<Rightarrow> Inr (pp # pps)))"

definition parseNodeProps :: "(string \<Rightarrow> 64 word option) \<Rightarrow> (64 word \<Rightarrow> string) \<Rightarrow> string \<Rightarrow> string + parsedProp list" where
  "parseNodeProps pf ff propsJSON =
     (if length propsJSON = 0 then Inr []
      else case parse_value maxNestingDepth (skip_ws propsJSON) of
             Some (JNull, _) \<Rightarrow> Inr []
           | Some (JObj ms, _) \<Rightarrow> parseMembers pf ff (fold (\<lambda>(k, t, x). AList.update (unquote k) (t, x)) ms [])
           | _ \<Rightarrow> Inl ''decode property bag'')"

text \<open>The value \<open>decode\<close> hands out for a stored one; \<open>None\<close> is its panic on a list or map it cannot decode.\<close>

definition decodeAny :: "(string \<Rightarrow> 64 word option) \<Rightarrow> propValue \<Rightarrow> any option" where
  "decodeAny pf v = (case v of VNull \<Rightarrow> Some AnyNil | VBool b \<Rightarrow> Some (AnyBool b) | VNum f \<Rightarrow> Some (AnyNum f) | VString s \<Rightarrow> Some (AnyStr s)
     | VArray raw \<Rightarrow> map_option AnyList (UnmarshalList pf raw)
     | VObject raw \<Rightarrow> (case Unmarshal pf raw of Some (AnyMap ms) \<Rightarrow> Some (AnyMap ms) | Some AnyNil \<Rightarrow> Some (AnyMap []) | _ \<Rightarrow> None))"

section \<open>The rest of a parse is shorter\<close>

lemma lex_string_shorter: "lex_string s = Some (b, r) \<Longrightarrow> length r < length s"
proof (induction s arbitrary: b rule: measure_induct_rule [where f = length])
  case (less s)
  obtain c s1 where s: "s = c # s1" using less.prems by (cases s) auto
  show ?case
  proof (cases "c = CHR 0x22 \<or> code c < 32")
    case True
    then show ?thesis using less.prems s by (auto split: if_splits)
  next
    case no: False
    have "\<exists>y b'. lex_string y = Some (b', r) \<and> length y < length s"
    proof (cases "c = CHR 0x5C")
      case False
      then obtain b' where "lex_string s1 = Some (b', r)" using no less.prems s by auto
      then show ?thesis using s by auto
    next
      case True
      then obtain e s2 where s2: "s1 = e # s2" using no less.prems s by (cases s1) auto
      obtain b' where "lex_string s2 = Some (b', r) \<or> lex_string (drop 4 s2) = Some (b', r)"
        using True no less.prems unfolding s s2 by (auto split: if_splits)
      then show ?thesis using s s2 by (elim disjE) (intro exI [of _ s2] exI [of _ "drop 4 s2"] exI [of _ b'], simp)+
    qed
    then show ?thesis using less.IH by fastforce
  qed
qed

lemma lex_number_shorter: "lex_number s = Some (t, r) \<Longrightarrow> length r < length s"
proof -
  assume a: "lex_number s = Some (t, r)"
  have "t \<noteq> []" using a by (auto simp: lex_number_def lex_int_def Let_def split: list.splits if_splits Option.bind_splits)
  then show ?thesis using lex_number_chars [OF a] by auto
qed

lemma lex_word_shorter: "lex_word w j s = Some (x, r) \<Longrightarrow> w \<noteq> [] \<Longrightarrow> length r < length s"
  by (auto simp: lex_word_def split: if_splits) (metis diff_less length_greater_0_conv length_take min.absorb4 nat_less_le not_less take_all_iff)

text \<open>The first byte of a value tells its kind.\<close>

definition shape :: "char \<Rightarrow> jsyn \<Rightarrow> bool" where
  "shape c x = (if c = CHR ''n'' then x = JNull else if c = CHR ''t'' then x = JBool True else if c = CHR ''f'' then x = JBool False
     else if c = CHR 0x22 then (\<exists>b. x = JStr b) else if c = CHR ''['' then (\<exists>xs. x = JArr xs) else if c = CHR ''{'' then (\<exists>ms. x = JObj ms)
     else (\<exists>t. x = JNum t))"

definition member_ok :: "string \<times> string \<times> jsyn \<Rightarrow> bool" where
  "member_ok = (\<lambda>(k, t, x). t \<noteq> [] \<and> shape (t ! 0) x)"

lemma parse_shape: "parse_value d (c # s) = Some (x, r) \<Longrightarrow> shape c x"
  by (auto simp: parse_value.simps shape_def lex_word_def split: if_splits option.splits)

lemma parse_shorter:
  "parse_value d s = Some (x, r) \<Longrightarrow> length r < length s"
  "parse_elems d s = Some (xs, r) \<Longrightarrow> length r < length s"
  "parse_members d s = Some (ms, r) \<Longrightarrow> length r < length s"
proof (induction d s and d s and d s arbitrary: x r and xs r and ms r rule: parse_value_parse_elems_parse_members.induct)
  case (2 d c s)
  consider (word) w j where "lex_word w j (c # s) = Some (x, r)" "w \<noteq> []" | (str) b where "lex_string s = Some (b, r)"
    | (num) t where "lex_number (c # s) = Some (t, r)" | (close) e where "expect e s = Some r"
    | (arr) xs where "c = CHR ''[''" "d \<noteq> 0" "expect CHR '']'' s = None" "parse_elems (d - 1) s = Some (xs, r)"
    | (obj) ms where "c = CHR ''{''" "d \<noteq> 0" "expect CHR ''}'' s = None" "parse_members (d - 1) s = Some (ms, r)"
    using 2(3) unfolding parse_value.simps by (auto split: if_splits option.splits)
  then show ?case
  proof cases
    case word
    then show ?thesis by (rule lex_word_shorter)
  next
    case str
    then show ?thesis using lex_string_shorter by fastforce
  next
    case num
    then show ?thesis by (rule lex_number_shorter)
  next
    case close
    then show ?thesis using expect_shorter by fastforce
  next
    case arr
    have "length r < length s" by (rule 2(1)) (use arr in simp_all)
    then show ?thesis by simp
  next
    case obj
    have "length r < length s" by (rule 2(2)) (use obj in simp_all)
    then show ?thesis by simp
  qed
next
  case (3 d s)
  obtain y r1 where v: "parse_value d (skip_ws s) = Some (y, r1)"
    and t: "expect CHR '']'' r1 = Some r \<or> (\<exists>r' ys. expect CHR '']'' r1 = None \<and> expect CHR '','' r1 = Some r' \<and> length r' < length s \<and> parse_elems d r' = Some (ys, r))"
    using 3(3) by (subst (asm) parse_elems.simps) (auto split: option.splits prod.splits if_splits)
  have "length r1 < length s" using 3(1) [OF v] skip_ws_length [of s] by simp
  then show ?case using t expect_shorter [of "CHR '']''" r1 r] 3(2) [OF v] by fastforce
next
  case (4 d s)
  obtain k r1 r2 y r3 where v: "Option.bind (expect CHR 0x22 s) lex_string = Some (k, r1)" "expect CHR '':'' r1 = Some r2" "length r2 < length s"
      "parse_value d (skip_ws r2) = Some (y, r3)"
    and t: "expect CHR ''}'' r3 = Some r \<or> (\<exists>r' ys. expect CHR ''}'' r3 = None \<and> expect CHR '','' r3 = Some r' \<and> length r' < length s \<and> parse_members d r' = Some (ys, r))"
    using 4(3) by (subst (asm) parse_members.simps) (auto simp: Let_def split: option.splits prod.splits if_splits)
  have "length r3 < length s" using 4(1) [OF v(1) _ v(2,3,4)] skip_ws_length [of r2] v(3) by simp
  then show ?case using t expect_shorter [of "CHR ''}''" r3 r] 4(2) [OF v(1) _ v(2,3,4)] by fastforce
qed simp

lemma parse_members_ok: "parse_members d s = Some (ms, r) \<Longrightarrow> \<forall>m \<in> set ms. member_ok m"
proof (induction ms arbitrary: s)
  case (Cons m ms)
  obtain k r1 r2 x r3 where v: "parse_value d (skip_ws r2) = Some (x, r3)" "m = (k, take (length (skip_ws r2) - length r3) (skip_ws r2), x)"
    and t: "ms = [] \<or> (\<exists>r'. parse_members d r' = Some (ms, r))"
    using Cons.prems unfolding parse_members.simps [of d s] by (auto simp: Let_def split: option.splits prod.splits if_splits) blast+
  obtain c s' where c: "skip_ws r2 = c # s'" using v(1) by (cases "skip_ws r2") auto
  have "length r3 < length (c # s')" using parse_shorter(1) [OF v(1)] c by simp
  then have "member_ok m" using parse_shape [of d c s' x r3] v c by (simp add: member_ok_def)
  then show ?case using t Cons.IH by auto
qed simp

section \<open>What a bag parses to\<close>

text \<open>The member of an object that counts for a name: the last one whose key decodes to it.\<close>

definition bag_member :: "(string \<times> string \<times> jsyn) list \<Rightarrow> string \<Rightarrow> (string \<times> jsyn) option" where
  "bag_member ms name = map_of (rev (map (\<lambda>(k, m). (unquote k, m)) ms)) name"

definition member_value :: "(string \<Rightarrow> 64 word option) \<Rightarrow> string \<times> jsyn \<Rightarrow> propValue option" where
  "member_value pf = (\<lambda>(t, x). case x of JNull \<Rightarrow> Some VNull | JBool b \<Rightarrow> Some (VBool b) | JStr b \<Rightarrow> Some (VString (unquote b))
     | JArr _ \<Rightarrow> Some (VArray t) | JObj _ \<Rightarrow> Some (VObject t) | JNum _ \<Rightarrow> map_option VNum (pf t))"

lemma member_value_None: "member_value pf (t, x) = None \<longleftrightarrow> (\<exists>n. x = JNum n) \<and> pf t = None"
  by (cases x) (simp_all add: member_value_def)

lemma collect_members:
  "map_of (fold (\<lambda>(k, t, x). AList.update (unquote k) (t, x)) ms acc) = map_of acc ++ bag_member ms"
  "distinct (map fst acc) \<Longrightarrow> distinct (map fst (fold (\<lambda>(k, t, x). AList.update (unquote k) (t, x)) ms acc))"
proof (induction ms arbitrary: acc)
  case (Cons m ms)
  obtain k t x where m: "m = (k, t, x)" by (cases m)
  {
    case 1
    show ?case using Cons.IH(1) [of "AList.update (unquote k) (t, x) acc"]
      by (auto simp: m bag_member_def update_conv fun_eq_iff map_add_def split: option.splits)
  next
    case 2
    show ?case using Cons.IH(2) [of "AList.update (unquote k) (t, x) acc"] 2 by (simp add: m distinct_update)
  }
qed (simp_all add: bag_member_def [abs_def])

lemma collect_members_ok:
  assumes "\<forall>m \<in> set ms. member_ok m"
  shows "m \<in> set (fold (\<lambda>(k, t, x). AList.update (unquote k) (t, x)) ms []) \<Longrightarrow> member_ok m"
proof -
  have "(\<forall>m \<in> set acc. member_ok m) \<Longrightarrow> \<forall>m \<in> set ms. member_ok m \<Longrightarrow> m \<in> set (fold (\<lambda>(k, t, x). AList.update (unquote k) (t, x)) ms acc) \<Longrightarrow> member_ok m" for acc
  proof (induction ms arbitrary: acc)
    case (Cons n ms)
    obtain k t x where n: "n = (k, t, x)" by (cases n)
    have "set (AList.update (unquote k) (t, x) acc) \<subseteq> insert (unquote k, t, x) (set acc)" by (induction acc) auto
    then have "\<forall>m \<in> set (AList.update (unquote k) (t, x) acc). member_ok m" using Cons.prems(1,2) n by (auto simp: member_ok_def)
    then show ?case using Cons.IH [of "AList.update (unquote k) (t, x) acc"] Cons.prems(2,3) n by simp
  qed simp
  then show "m \<in> set (fold (\<lambda>(k, t, x). AList.update (unquote k) (t, x)) ms []) \<Longrightarrow> member_ok m" using assms by (metis empty_iff empty_set)
qed

lemma parseMember_value:
  assumes "member_ok (k, t, x)"
  shows "case parseMember pf ff (k, t, x) of Inl _ \<Rightarrow> member_value pf (t, x) = None
    | Inr pp \<Rightarrow> pp_name pp = k \<and> member_value pf (t, x) = Some (parsedValue pp)"
  using assms by (auto simp: member_ok_def shape_def parseMember_def member_value_def parsedValue_def Let_def split: if_splits option.split)

lemma parseMembers_value:
  "\<forall>m \<in> set ms. member_ok m \<Longrightarrow> distinct (map fst ms) \<Longrightarrow>
    (case parseMembers pf ff ms of
       Inl _ \<Rightarrow> \<exists>k m. map_of ms k = Some m \<and> member_value pf m = None
     | Inr pps \<Rightarrow> map pp_name pps = map fst ms \<and> (\<forall>k m. map_of ms k = Some m \<longrightarrow> member_value pf m \<noteq> None) \<and>
         (\<forall>k. parsedBag pps k = Option.bind (map_of ms k) (member_value pf)))"
proof (induction ms)
  case (Cons m ms)
  obtain k t x where m: "m = (k, t, x)" by (cases m)
  have one: "case parseMember pf ff m of Inl _ \<Rightarrow> member_value pf (t, x) = None | Inr pp \<Rightarrow> pp_name pp = k \<and> member_value pf (t, x) = Some (parsedValue pp)"
    using parseMember_value Cons.prems(1) unfolding m by simp
  show ?case
  proof (cases "parseMember pf ff m")
    case (Inl e)
    then show ?thesis using one by (auto simp: m)
  next
    case (Inr pp)
    then have pp: "pp_name pp = k" "member_value pf (t, x) = Some (parsedValue pp)" using one by simp_all
    have new: "map_of ms k = None" using Cons.prems(2) m by (simp add: map_of_eq_None_iff)
    show ?thesis
    proof (cases "parseMembers pf ff ms")
      case (Inl e)
      then obtain k' m' where "map_of ms k' = Some m'" "member_value pf m' = None" using Cons by auto
      moreover then have "k' \<noteq> k" using new by auto
      ultimately have "\<exists>k m'. map_of (m # ms) k = Some m' \<and> member_value pf m' = None" using m by (intro exI [of _ k'] exI [of _ m']) simp
      then show ?thesis using Inl Inr by simp
    next
      case r: (Inr pps)
      then show ?thesis using Cons Inr pp new m by (auto simp: parsedBag_def split: option.splits)
    qed
  qed
qed (simp add: parsedBag_def)

text \<open>
  C37. Parsing a property bag gives exactly its properties. For any JSON object the parsed list has one
  property per decoded name, with the value of its last member, a list or map keeping its own text; the
  bag is refused exactly when a number that counts is one \<open>strconv.ParseFloat\<close> refuses.
\<close>

theorem property_bag_parsed:
  assumes "parse_value maxNestingDepth (skip_ws s) = Some (JObj ms, r)"
  shows "case parseNodeProps pf ff s of
      Inr pps \<Rightarrow> distinct (map pp_name pps) \<and> (\<forall>name. parsedBag pps name = Option.bind (bag_member ms name) (member_value pf)) \<and>
        (\<forall>name m. bag_member ms name = Some m \<longrightarrow> member_value pf m \<noteq> None)
    | Inl _ \<Rightarrow> \<exists>name t x. bag_member ms name = Some (t, JNum x) \<and> pf t = None"
proof -
  let ?ms = "fold (\<lambda>(k, t, x). AList.update (unquote k) (t, x)) ms []"
  obtain c s' where c: "skip_ws s = c # s'" using assms by (cases "skip_ws s") auto
  have ok: "\<forall>m \<in> set ms. member_ok m"
  proof (cases "expect CHR ''}'' s'")
    case None
    have "c = CHR ''{''" using parse_shape [of maxNestingDepth c s' "JObj ms" r] assms c by (auto simp: shape_def split: if_splits)
    then have "parse_members (maxNestingDepth - 1) s' = Some (ms, r)" using assms c None by (auto simp: parse_value.simps split: if_splits)
    then show ?thesis by (rule parse_members_ok)
  next
    case (Some r')
    have "c = CHR ''{''" using parse_shape [of maxNestingDepth c s' "JObj ms" r] assms c by (auto simp: shape_def split: if_splits)
    then show ?thesis using assms c Some by (auto simp: parse_value.simps split: if_splits)
  qed
  have map: "map_of ?ms = bag_member ms" using collect_members(1) [of ms "[]"] by simp
  have run: "parseNodeProps pf ff s = parseMembers pf ff ?ms" using assms c by (cases s) (auto simp: parseNodeProps_def skip_ws_def)
  have "distinct (map fst ?ms)" by (rule collect_members(2)) simp
  moreover have "\<forall>m \<in> set ?ms. member_ok m" using collect_members_ok [OF ok] by blast
  ultimately have "case parseMembers pf ff ?ms of
       Inl _ \<Rightarrow> \<exists>k m. bag_member ms k = Some m \<and> member_value pf m = None
     | Inr pps \<Rightarrow> map pp_name pps = map fst ?ms \<and> (\<forall>k m. bag_member ms k = Some m \<longrightarrow> member_value pf m \<noteq> None) \<and>
         (\<forall>k. parsedBag pps k = Option.bind (bag_member ms k) (member_value pf))"
    using parseMembers_value [of ?ms pf ff] unfolding map by blast
  then show ?thesis using \<open>distinct (map fst ?ms)\<close> unfolding run
    by (auto simp: member_value_None split: sum.splits)
qed

text \<open>\<open>{"a":1,"a":[1e999]}\<close>, and a ParseFloat that reads only \<open>1\<close>.\<close>

definition example_bag :: string where
  "example_bag = ''{'' @ [CHR 0x22, CHR ''a'', CHR 0x22] @ '':1,'' @ [CHR 0x22, CHR ''a'', CHR 0x22] @ '':[1e999]}''"

definition example_pf :: "string \<Rightarrow> 64 word option" where
  "example_pf t = (if t = ''1'' then Some 7 else None)"

lemmas json_eval = maxNestingDepth_def skip_ws_def is_space_def parse_value.simps parse_elems.simps parse_members.simps expect_def
  lex_word_def lex_number_def lex_int_def lex_frac_def lex_exp_def is_digit_def

lemma example_bag_parses:
  "parse_value maxNestingDepth (skip_ws example_bag) =
    Some (JObj [(''a'', ''1'', JNum ''1''), (''a'', ''[1e999]'', JArr [JNum ''1e999''])], [])"
  by (simp add: example_bag_def json_eval)

lemma unquote_a: "unquote ''a'' = ''a''"
  by (simp add: unquote_def plain.simps DecodeRune_ascii RuneError_def)

theorem property_bag_parsed_witness:
  "\<exists>pps. parseNodeProps example_pf (\<lambda>_. []) example_bag = Inr pps \<and> parsedBag pps ''a'' = Some (VArray ''[1e999]'')"
  using property_bag_parsed [OF example_bag_parses, of example_pf "\<lambda>_. []"]
  by (auto simp: bag_member_def member_value_def unquote_a split: sum.splits if_splits)

text \<open>
  Not every list a parsed bag stores can be decoded. The bag \<open>{"a":1,"a":[1e999]}\<close> parses, its list is stored
  as text, and if \<open>strconv.ParseFloat\<close> refuses the number, as it does outside the range of a float64, then
  decoding the stored list panics.
\<close>

theorem stored_list_may_panic:
  assumes "pf ''1e999'' = None"
  shows "\<exists>pps. parseNodeProps pf ff example_bag = Inr pps \<and> Option.bind (parsedBag pps ''a'') (decodeAny pf) = None \<and> parsedBag pps ''a'' \<noteq> None"
proof -
  have "\<exists>pps. parseNodeProps pf ff example_bag = Inr pps \<and> parsedBag pps ''a'' = Some (VArray ''[1e999]'')"
    using example_bag_parses by (simp add: parseNodeProps_def example_bag_def unquote_a parseMember_def parsedBag_def parsedValue_def)
  moreover have "UnmarshalList pf ''[1e999]'' = None" using assms by (simp add: UnmarshalList_def Unmarshal_def parse_text_def json_eval)
  ultimately show ?thesis by (auto simp: decodeAny_def)
qed

theorem stored_list_may_panic_witness:
  "\<exists>pps. parseNodeProps example_pf (\<lambda>_. []) example_bag = Inr pps \<and> Option.bind (parsedBag pps ''a'') (decodeAny example_pf) = None \<and> parsedBag pps ''a'' \<noteq> None"
  by (rule stored_list_may_panic) (simp add: example_pf_def)

end
