(* ===== verification/DeltaProps.thy ===== *)
theory DeltaProps
  imports EdgeKinds ParseProps "HOL-Library.List_Lexorder" "HOL-Library.Char_ord" "HOL-Library.Sublist"
begin

text \<open>
  What the delta of a view adds to every property index, \<open>internal/engine/snapshot/deltapropindex.go\<close>, and the
  contract of a candidate source over base and delta. Strings are compared bytewise. \<open>sort.Slice\<close> leaves the
  order of equal elements open; the model keeps the given one, and the theorems use only that the result is
  sorted. \<open>pf\<close> is \<open>strconv.ParseFloat\<close>. The result of a lookup is \<open>None\<close> for a panic, \<open>Some None\<close> for "not answered".
\<close>

section \<open>Sorting and matching\<close>

fun insert_by :: "('a \<Rightarrow> 'a \<Rightarrow> bool) \<Rightarrow> 'a \<Rightarrow> 'a list \<Rightarrow> 'a list" where
  "insert_by lt x [] = [x]"
| "insert_by lt x (y # ys) = (if lt y x then y # insert_by lt x ys else x # y # ys)"

definition sort_Slice :: "('a \<Rightarrow> 'a \<Rightarrow> bool) \<Rightarrow> 'a list \<Rightarrow> 'a list" where
  "sort_Slice lt xs = foldr (insert_by lt) xs []"

datatype StringMatch = StringEquals | StringPrefix | StringSuffix | StringContains

definition strings_Contains :: "string \<Rightarrow> string \<Rightarrow> bool" where
  "strings_Contains s sub = list_ex (\<lambda>i. prefix sub (drop i s)) [0..<Suc (length s)]"

fun matchString :: "string \<Rightarrow> StringMatch \<Rightarrow> string \<Rightarrow> bool" where
  "matchString s StringEquals operand = (s = operand)"
| "matchString s StringPrefix operand = prefix operand s"
| "matchString s StringSuffix operand = suffix operand s"
| "matchString s StringContains operand = strings_Contains s operand"

lemma sort_Slice_key: "(\<And>x y. lt x y \<longleftrightarrow> key x < key y) \<Longrightarrow> sort_Slice lt xs = sort_key (key :: 'a \<Rightarrow> 'b :: linorder) xs"
proof -
  assume l: "\<And>x y. lt x y \<longleftrightarrow> key x < key y"
  have "insert_by lt x ys = insort_key key x ys" for x ys by (induction ys) (auto simp: l)
  then have "insert_by lt = insort_key key" by (intro ext)
  then show ?thesis by (simp add: sort_Slice_def sort_key_def)
qed

section \<open>The delta\<close>

record deltaPropPostings =
  dp_strings :: "(nodeid \<times> string) list"
  dp_values :: "string postings"
  dp_elements :: "string postings"
  dp_n :: nat
  dp_nonString :: bool
  dp_nonStringList :: bool

definition pushNode :: "string \<Rightarrow> nodeid \<Rightarrow> string postings \<Rightarrow> string postings" where
  "pushNode key n m = AList.update key (posted m key @ [n]) m"

definition is_str :: "any \<Rightarrow> bool" where
  "is_str a = (case a of AnyStr _ \<Rightarrow> True | _ \<Rightarrow> False)"

text \<open>Each key once, in the order met.\<close>

definition distinctKeys :: "any list \<Rightarrow> string list" where
  "distinctKeys els = fold (\<lambda>el seen. case valueKey el of None \<Rightarrow> seen | Some key \<Rightarrow> if key \<in> set seen then seen else seen @ [key]) els []"

definition recordValue :: "nodeid \<Rightarrow> any \<Rightarrow> deltaPropPostings \<Rightarrow> deltaPropPostings" where
  "recordValue n val d =
     (let d1 = d\<lparr>dp_n := dp_n d + 1,
            dp_nonString := dp_nonString d \<or> (case val of AnyNil \<Rightarrow> False | AnyStr _ \<Rightarrow> False | _ \<Rightarrow> True),
            dp_nonStringList := dp_nonStringList d \<or> (case val of AnyNil \<Rightarrow> False | AnyList els \<Rightarrow> list_ex (\<lambda>el. \<not> is_str el) els | _ \<Rightarrow> True)\<rparr>;
          d2 = (case val of AnyStr s \<Rightarrow> d1\<lparr>dp_strings := dp_strings d1 @ [(n, s)]\<rparr> | _ \<Rightarrow> d1) in
      case val of
        AnyList els \<Rightarrow> d2\<lparr>dp_elements := fold (\<lambda>key. pushNode key n) (distinctKeys els) (dp_elements d2)\<rparr>
      | _ \<Rightarrow> (case valueKey val of None \<Rightarrow> d2 | Some key \<Rightarrow> d2\<lparr>dp_values := pushNode key n (dp_values d2)\<rparr>))"

definition deltaVisit :: "(string \<Rightarrow> 64 word option) \<Rightarrow> View \<Rightarrow> string \<Rightarrow> pgid \<times> NodeSegState \<Rightarrow> deltaPropPostings \<Rightarrow> deltaPropPostings option" where
  "deltaVisit pf v name = (\<lambda>(i, st) d.
     if Tombstoned st then Some d
     else do {
       val \<leftarrow> PropValueByName st name;
       case val of None \<Rightarrow> Some d
       | Some pv \<Rightarrow> do { a \<leftarrow> decodeAny pf pv; Some (case denseOf v i of None \<Rightarrow> d | Some n \<Rightarrow> recordValue n a d) } })"

definition deltaPropFor :: "(string \<Rightarrow> 64 word option) \<Rightarrow> View \<Rightarrow> string \<Rightarrow> (deltaPropPostings option) option" where
  "deltaPropFor pf v name =
     (if \<not> Overlay v then Some None
      else do {
        d \<leftarrow> foldM (deltaVisit pf v name) (merged_nodes v)
               \<lparr>dp_strings = [], dp_values = [], dp_elements = [], dp_n = 0, dp_nonString = False, dp_nonStringList = False\<rparr>;
        Some (Some (d\<lparr>dp_strings := sort_Slice (\<lambda>x y. fst x < fst y) (dp_strings d),
          dp_values := sortPostings (dp_values d), dp_elements := sortPostings (dp_elements d)\<rparr>)) })"

definition matchingStrings :: "deltaPropPostings option \<Rightarrow> (string \<Rightarrow> bool) \<Rightarrow> nodeid list" where
  "matchingStrings d match = (case d of None \<Rightarrow> [] | Some d \<Rightarrow> map fst (filter (\<lambda>e. match (snd e)) (dp_strings d)))"

definition deltaCount :: "deltaPropPostings option \<Rightarrow> nat" where
  "deltaCount d = (case d of None \<Rightarrow> 0 | Some d \<Rightarrow> dp_n d)"

definition deltaExact :: "deltaPropPostings option \<Rightarrow> string \<Rightarrow> bool \<Rightarrow> nodeid list" where
  "deltaExact d key element = (case d of None \<Rightarrow> [] | Some d \<Rightarrow> posted (if element then dp_elements d else dp_values d) key)"

definition unionDeltaTouched :: "nodeid list \<Rightarrow> nodeid list \<Rightarrow> nodeid list" where
  "unionDeltaTouched found touched = (if length touched = 0 then found else filter (\<lambda>i. i \<notin> set touched) found @ touched)"

section \<open>What a value contributes\<close>

definition scalar_key :: "any \<Rightarrow> string option" where
  "scalar_key a = (case a of AnyList _ \<Rightarrow> None | _ \<Rightarrow> valueKey a)"

definition element_keys :: "any \<Rightarrow> string list" where
  "element_keys a = (case a of AnyList els \<Rightarrow> List.map_filter valueKey els | _ \<Rightarrow> [])"

definition non_string :: "any \<Rightarrow> bool" where
  "non_string a = (case a of AnyNil \<Rightarrow> False | AnyStr _ \<Rightarrow> False | _ \<Rightarrow> True)"

definition non_string_list :: "any \<Rightarrow> bool" where
  "non_string_list a = (case a of AnyNil \<Rightarrow> False | AnyList els \<Rightarrow> \<not> list_all is_str els | _ \<Rightarrow> True)"

lemma distinctKeys_set: "distinct (distinctKeys els) \<and> set (distinctKeys els) = set (List.map_filter valueKey els)"
proof -
  have "distinct seen \<Longrightarrow> distinct (fold (\<lambda>el seen. case valueKey el of None \<Rightarrow> seen | Some key \<Rightarrow> if key \<in> set seen then seen else seen @ [key]) els seen) \<and>
    set (fold (\<lambda>el seen. case valueKey el of None \<Rightarrow> seen | Some key \<Rightarrow> if key \<in> set seen then seen else seen @ [key]) els seen) =
      set seen \<union> set (List.map_filter valueKey els)" for seen
    by (induction els arbitrary: seen) (auto simp: map_filter_simps split: option.split)
  from this [of "[]"] show ?thesis by (simp add: distinctKeys_def)
qed

lemma posted_pushNode [simp]: "posted (pushNode key n m) k = posted m k @ (if k = key then [n] else [])"
  by (simp add: pushNode_def)

lemma posted_push_keys: "distinct keys \<Longrightarrow> posted (fold (\<lambda>key. pushNode key n) keys m) k = posted m k @ (if k \<in> set keys then [n] else [])"
  by (induction keys arbitrary: m) auto

lemma recordValue_fields:
  "dp_strings (recordValue n a d) = dp_strings d @ (case a of AnyStr s \<Rightarrow> [(n, s)] | _ \<Rightarrow> [])"
  "posted (dp_values (recordValue n a d)) k = posted (dp_values d) k @ (if scalar_key a = Some k then [n] else [])"
  "posted (dp_elements (recordValue n a d)) k = posted (dp_elements d) k @ (if k \<in> set (element_keys a) then [n] else [])"
  "dp_n (recordValue n a d) = dp_n d + 1"
  "dp_nonString (recordValue n a d) \<longleftrightarrow> dp_nonString d \<or> non_string a"
  "dp_nonStringList (recordValue n a d) \<longleftrightarrow> dp_nonStringList d \<or> non_string_list a"
  using distinctKeys_set
  by (cases a; simp add: recordValue_def scalar_key_def element_keys_def posted_push_keys non_string_def non_string_list_def list_all_iff list_ex_iff)+

section \<open>The records of the delta\<close>

definition emptyDelta :: deltaPropPostings where
  "emptyDelta = \<lparr>dp_strings = [], dp_values = [], dp_elements = [], dp_n = 0, dp_nonString = False, dp_nonStringList = False\<rparr>"

definition deltaOf :: "(nodeid \<times> any) list \<Rightarrow> deltaPropPostings" where
  "deltaOf recs =
     (let d = fold (\<lambda>(n, a). recordValue n a) recs emptyDelta in
      d\<lparr>dp_strings := sort_Slice (\<lambda>x y. fst x < fst y) (dp_strings d), dp_values := sortPostings (dp_values d), dp_elements := sortPostings (dp_elements d)\<rparr>)"

lemma fold_recordValue:
  fixes recs :: "(nodeid \<times> any) list"
  defines "D d \<equiv> fold (\<lambda>(n, a). recordValue n a) recs d"
  shows "dp_strings (D d) = dp_strings d @ List.map_filter (\<lambda>(n, a). case a of AnyStr s \<Rightarrow> Some (n, s) | _ \<Rightarrow> None) recs"
    and "posted (dp_values (D d)) k = posted (dp_values d) k @ map fst (filter (\<lambda>(n, a). scalar_key a = Some k) recs)"
    and "posted (dp_elements (D d)) k = posted (dp_elements d) k @ map fst (filter (\<lambda>(n, a). k \<in> set (element_keys a)) recs)"
    and "dp_n (D d) = dp_n d + length recs"
    and "dp_nonString (D d) \<longleftrightarrow> dp_nonString d \<or> (\<exists>x \<in> set recs. non_string (snd x))"
    and "dp_nonStringList (D d) \<longleftrightarrow> dp_nonStringList d \<or> (\<exists>x \<in> set recs. non_string_list (snd x))"
  unfolding D_def
  by (induction recs arbitrary: d) (auto simp: recordValue_fields map_filter_simps split: any.splits)

lemma lists_sorted: "lists_set (dedupeSorted (sort ids)) (set ids)"
  using dedupeSorted_sort [of ids] by simp

lemma deltaOf_strings:
  assumes "distinct (map fst recs)"
  shows "sorted_wrt (<) (map fst (dp_strings (deltaOf recs)))" and "(n, s) \<in> set (dp_strings (deltaOf recs)) \<longleftrightarrow> (n, AnyStr s) \<in> set recs"
proof -
  let ?f = "\<lambda>(n, a). case a of AnyStr s \<Rightarrow> Some (n, s) | _ \<Rightarrow> None" and ?xs = "dp_strings (deltaOf recs)"
  have xs: "?xs = sort_key fst (List.map_filter ?f recs)"
    by (simp add: deltaOf_def Let_def fold_recordValue emptyDelta_def sort_Slice_key [of _ fst])
  have "map fst (List.map_filter ?f recs) = map fst (filter (\<lambda>x. ?f x \<noteq> None) recs)"
    by (induction recs) (auto simp: map_filter_simps split: any.splits)
  then have "distinct (map fst (List.map_filter ?f recs))" using distinct_map_filter_list [OF assms] by simp
  moreover have "mset (map fst ?xs) = mset (map fst (List.map_filter ?f recs))" unfolding xs by simp
  ultimately have "distinct (map fst ?xs)" using mset_eq_imp_distinct_iff by blast
  then show "sorted_wrt (<) (map fst ?xs)" using sorted_sort_key [of fst "List.map_filter ?f recs"] by (simp add: xs strict_sorted_iff)
  show "(n, s) \<in> set ?xs \<longleftrightarrow> (n, AnyStr s) \<in> set recs"
    unfolding xs by (auto simp: map_filter_iff split: any.splits intro!: bexI [of _ "(n, AnyStr s)"])
qed

lemma deltaOf_postings:
  shows "lists_set (posted (dp_values (deltaOf recs)) k) {n. \<exists>a. (n, a) \<in> set recs \<and> scalar_key a = Some k}"
    and "lists_set (posted (dp_elements (deltaOf recs)) k) {n. \<exists>a. (n, a) \<in> set recs \<and> k \<in> set (element_keys a)}"
proof -
  have eq: "{n. \<exists>a. (n, a) \<in> set recs \<and> P a} = set (map fst (filter (\<lambda>(n, a). P a) recs))" for P by force
  show "lists_set (posted (dp_values (deltaOf recs)) k) {n. \<exists>a. (n, a) \<in> set recs \<and> scalar_key a = Some k}"
    unfolding eq using lists_sorted [of "map fst (filter (\<lambda>(n, a). scalar_key a = Some k) recs)"]
    by (simp add: deltaOf_def Let_def fold_recordValue emptyDelta_def posted_def [of "[]"])
  show "lists_set (posted (dp_elements (deltaOf recs)) k) {n. \<exists>a. (n, a) \<in> set recs \<and> k \<in> set (element_keys a)}"
    unfolding eq using lists_sorted [of "map fst (filter (\<lambda>(n, a). k \<in> set (element_keys a)) recs)"]
    by (simp add: deltaOf_def Let_def fold_recordValue emptyDelta_def posted_def [of "[]"])
qed

text \<open>The decoded value of a property at a node of the base, and at a node of the view.\<close>

definition base_raw :: "View \<Rightarrow> string \<Rightarrow> nodeid \<Rightarrow> propValue option" where
  "base_raw v name n = Option.bind (snap_node (v_base v) (GraphIDs (v_base v) ! n)) (\<lambda>(ks, bag). bag name)"

definition base_value :: "(string \<Rightarrow> 64 word option) \<Rightarrow> View \<Rightarrow> string \<Rightarrow> nodeid \<Rightarrow> any option" where
  "base_value pf v name n = Option.bind (base_raw v name n) (decodeAny pf)"

definition view_value :: "(string \<Rightarrow> 64 word option) \<Rightarrow> View \<Rightarrow> string \<Rightarrow> nodeid \<Rightarrow> any option" where
  "view_value pf v name n = Option.bind (view_nodes v (pg v n)) (\<lambda>(ks, bag). Option.bind (bag name) (decodeAny pf))"

text \<open>Every value the delta writes for the property can be decoded.\<close>

definition delta_decodes :: "(string \<Rightarrow> 64 word option) \<Rightarrow> View \<Rightarrow> string \<Rightarrow> bool" where
  "delta_decodes pf v name \<longleftrightarrow> (\<forall>i st pv. node_states v i = Some st \<longrightarrow> \<not> Tombstoned st \<longrightarrow>
     bag_of (st_tables st) (st_entries st) name = Some pv \<longrightarrow> decodeAny pf pv \<noteq> None)"

definition delta_rec :: "(string \<Rightarrow> 64 word option) \<Rightarrow> View \<Rightarrow> string \<Rightarrow> pgid \<times> NodeSegState \<Rightarrow> (nodeid \<times> any) option" where
  "delta_rec pf v name = (\<lambda>(i, st).
     if Tombstoned st then None
     else Option.bind (Option.bind (bag_of (st_tables st) (st_entries st) name) (decodeAny pf)) (\<lambda>a. map_option (\<lambda>n. (n, a)) (denseOf v i)))"

definition delta_recs :: "(string \<Rightarrow> 64 word option) \<Rightarrow> View \<Rightarrow> string \<Rightarrow> (nodeid \<times> any) list" where
  "delta_recs pf v name = List.map_filter (delta_rec pf v name) (merged_nodes v)"

lemma foldM_map_filter:
  assumes "\<And>x d. x \<in> set xs \<Longrightarrow> f x d = Some (case g x of None \<Rightarrow> d | Some y \<Rightarrow> h y d)"
  shows "foldM f xs d = Some (fold h (List.map_filter g xs) d)"
  using assms by (induction xs arbitrary: d) (auto simp: map_filter_simps split: option.split)

lemma deltaPropFor_ok:
  assumes v: "view_wf v" and dec: "delta_decodes pf v name"
  shows "deltaPropFor pf v name = Some (if Overlay v then Some (deltaOf (delta_recs pf v name)) else None)"
proof -
  have step: "deltaVisit pf v name x d = Some (case delta_rec pf v name x of None \<Rightarrow> d | Some y \<Rightarrow> (\<lambda>(n, a). recordValue n a) y d)"
    if x: "x \<in> set (merged_nodes v)" for x d
  proof -
    obtain i st where xi: "x = (i, st)" by fastforce
    then have st: "node_states v i = Some st" using merged_iter(1) [OF v] x by simp
    show ?thesis
    proof (cases "Tombstoned st")
      case False
      then have "PropValueByName st name = Some (bag_of (st_tables st) (st_entries st) name)"
        using node_states_wf [OF v st] bag_of_value by (auto simp: PropValueByName_def st_wf_def)
      moreover have "decodeAny pf pv \<noteq> None" if "bag_of (st_tables st) (st_entries st) name = Some pv" for pv
        using dec st False that by (auto simp: delta_decodes_def)
      ultimately show ?thesis using False unfolding xi
        by (cases "bag_of (st_tables st) (st_entries st) name") (auto simp: deltaVisit_def delta_rec_def split: option.splits)
    qed (simp add: xi deltaVisit_def delta_rec_def)
  qed
  show ?thesis
    by (simp add: deltaPropFor_def foldM_map_filter [OF step] deltaOf_def delta_recs_def emptyDelta_def Let_def)
qed

lemma delta_rec_iff:
  assumes "view_wf v"
  shows "delta_rec pf v name (i, st) = Some (n, a) \<longleftrightarrow>
    \<not> Tombstoned st \<and> Option.bind (bag_of (st_tables st) (st_entries st) name) (decodeAny pf) = Some a \<and> n < v_NodeCount v \<and> pg v n = i"
  by (auto simp: delta_rec_def Dense_iff [OF assms] bind_eq_Some_conv)

lemma delta_recs_iff:
  assumes v: "view_wf v"
  shows "(n, a) \<in> set (delta_recs pf v name) \<longleftrightarrow> n < v_NodeCount v \<and> node_states v (pg v n) \<noteq> None \<and> view_value pf v name n = Some a"
    and "distinct (map fst (delta_recs pf v name))"
proof -
  have "(n, a) \<in> set (delta_recs pf v name) \<longleftrightarrow> (\<exists>i st. node_states v i = Some st \<and> delta_rec pf v name (i, st) = Some (n, a))"
    using merged_iter(1) [OF v] by (auto simp: delta_recs_def map_filter_iff)
  also have "\<dots> \<longleftrightarrow> n < v_NodeCount v \<and> node_states v (pg v n) \<noteq> None \<and> view_value pf v name n = Some a"
    by (auto simp: delta_rec_iff [OF v] view_value_def view_nodes_def apply_nodes_def st_desc_def split: if_splits)
  finally show "(n, a) \<in> set (delta_recs pf v name) \<longleftrightarrow> n < v_NodeCount v \<and> node_states v (pg v n) \<noteq> None \<and> view_value pf v name n = Some a" .
  have "distinct (map fst xs) \<Longrightarrow> distinct (map fst (List.map_filter (delta_rec pf v name) xs))" for xs
  proof (induction xs)
    case (Cons x xs)
    have "fst y \<notin> fst ` set (List.map_filter (delta_rec pf v name) xs)" if y: "delta_rec pf v name x = Some y" for y
    proof
      assume "fst y \<in> fst ` set (List.map_filter (delta_rec pf v name) xs)"
      then obtain z b where z: "z \<in> set xs" "delta_rec pf v name z = Some b" "fst b = fst y" by (auto simp: map_filter_iff)
      then have "fst z = fst x" using y delta_rec_iff [OF v, of pf name] by (metis prod.collapse)
      then have "fst x \<in> fst ` set xs" using z(1) by (metis imageI)
      then show False using Cons.prems by simp
    qed
    then show ?case using Cons by (auto simp: map_filter_simps split: option.split)
  qed (simp add: map_filter_simps)
  moreover have "distinct (map fst (merged_nodes v))" using merged_iter(3) [OF v] strict_sorted_iff by blast
  ultimately show "distinct (map fst (delta_recs pf v name))" by (simp add: delta_recs_def)
qed

section \<open>A candidate source\<close>

text \<open>
  What every property index promises. The base part lists exactly the nodes of the base whose stored value the
  question wants, the delta part exactly the written nodes whose new value it wants. Together they never miss
  a node of the view, list none twice, and are exact when there is no delta.
\<close>

definition wanted_in :: "('q \<Rightarrow> any \<Rightarrow> bool) \<Rightarrow> 'q \<Rightarrow> any option \<Rightarrow> bool" where
  "wanted_in wants q val \<longleftrightarrow> (case val of None \<Rightarrow> False | Some a \<Rightarrow> wants q a)"

lemma wanted_in_iff: "wanted_in wants q val \<longleftrightarrow> (\<exists>a. val = Some a \<and> wants q a)"
  by (simp add: wanted_in_def split: option.split)

definition complete_for :: "View \<Rightarrow> (nodeid \<Rightarrow> bool) \<Rightarrow> nodeid list \<Rightarrow> bool" where
  "complete_for v wanted ids \<longleftrightarrow> distinct ids \<and> set ids \<subseteq> {0..<v_NodeCount v} \<and> {n. n < v_NodeCount v \<and> wanted n} \<subseteq> set ids \<and>
     (\<not> Overlay v \<longrightarrow> set ids = {n. n < v_NodeCount v \<and> wanted n})"

lemma unionDeltaTouched_set:
  "set (unionDeltaTouched found touched) = set found \<union> set touched"
  "distinct found \<Longrightarrow> distinct touched \<Longrightarrow> distinct (unionDeltaTouched found touched)"
  by (auto simp: unionDeltaTouched_def)

lemma unwritten_value: "node_states v (pg v n) = None \<Longrightarrow> n < NodeCount (v_base v) \<Longrightarrow> view_value pf v name n = base_value pf v name n"
  by (cases "snap_node (v_base v) (GraphIDs (v_base v) ! n)") (auto simp: view_value_def base_value_def base_raw_def view_nodes_def apply_nodes_def pg_def)

lemma unwritten_in_base: "view_wf v \<Longrightarrow> n < v_NodeCount v \<Longrightarrow> node_states v (pg v n) = None \<Longrightarrow> n < NodeCount (v_base v)"
  using virtual_iff(1) [of v "pg v n"] by (cases "n < NodeCount (v_base v)") (auto simp: pg_def v_NodeCount_def)

text \<open>The stored value of a property, read from the entries of a row.\<close>

lemma stored_value:
  assumes v: "view_wf v" and named: "PropIDByName v name = Some prop" and n: "n < NodeCount (v_base v)"
  obtains es where "row (ps_nodeOffsets (sProps (v_base v))) n (ps_entries (sProps (v_base v))) = Some es"
    "base_raw v name n = Option.bind (entryByID es prop) (decode (propArena (ps_table (sProps (v_base v)))))"
    "\<And>e. entryByID es prop = Some e \<Longrightarrow> entry_wf (ps_table (sProps (v_base v))) e"
    "prop < length (propNames (ps_table (sProps (v_base v))))" "table_wf (ps_table (sProps (v_base v)))"
proof -
  let ?p = "sProps (v_base v)"
  obtain out inn kr pr where wf: "snap_wf (v_base v) out inn kr pr" using v unfolding view_wf_def snap_ok_def by blast
  then have rep: "store_rep ?p (NodeCount (v_base v)) pr" by (simp add: snap_wf_def)
  have t: "table_wf (ps_table ?p)" "entries_wf (ps_table ?p) (pr n)" using rep n by (auto simp: store_rep_def)
  have row: "row (ps_nodeOffsets ?p) n (ps_entries ?p) = Some (pr n)"
    using row_of_slots [OF n, of pr "\<lambda>x. x"] rep by (simp add: store_rep_def del: upt_Suc)
  have id: "propIDs (ps_table ?p) name = Some prop" using named by (simp add: PropIDByName_def ps_IDByName_def)
  have "Some (bag_of (ps_table ?p) (pr n) name) =
      (case entryByID (pr n) prop of None \<Rightarrow> Some None | Some e \<Rightarrow> map_option Some (decode (propArena (ps_table ?p)) e))"
    using bag_of_value [OF t, of name] id by (simp add: valueByName_def)
  then have "base_raw v name n = Option.bind (entryByID (pr n) prop) (decode (propArena (ps_table ?p)))"
    unfolding base_raw_def base_node [OF v wf n] by (auto simp: map_option_case split: option.splits)
  moreover have "entry_wf (ps_table ?p) e" if "entryByID (pr n) prop = Some e" for e
    using entryByID_in [OF t(2) that] t(2) by (simp add: entries_wf_def)
  moreover have "prop < length (propNames (ps_table ?p))" using id t(1) by (simp add: table_wf_def)
  ultimately show ?thesis using row t(1) that by blast
qed

lemma not_interned_value:
  assumes v: "view_wf v" and none: "PropIDByName v name = None" and n: "n < NodeCount (v_base v)"
  shows "base_value pf v name n = None"
proof -
  obtain out inn kr pr where wf: "snap_wf (v_base v) out inn kr pr" using v unfolding view_wf_def snap_ok_def by blast
  have "bag_of (ps_table (sProps (v_base v))) (pr n) name = None"
    using none by (simp add: bag_of_def valueByName_def PropIDByName_def ps_IDByName_def)
  then show ?thesis by (simp add: base_value_def base_raw_def base_node [OF v wf n])
qed

text \<open>The base part and the delta part of an answer, put together.\<close>

lemma combined_complete:
  assumes v: "view_wf v" and base: "distinct base" "set base = {n. n < NodeCount (v_base v) \<and> W (base_value pf v name n)}"
    and D: "distinct D" "set D = {n. n < v_NodeCount v \<and> node_states v (pg v n) \<noteq> None \<and> W (view_value pf v name n)}"
  shows "complete_for v (\<lambda>n. W (view_value pf v name n)) (if Overlay v then unionDeltaTouched base D else base)"
proof -
  have le: "NodeCount (v_base v) \<le> v_NodeCount v" by (simp add: v_NodeCount_def)
  have in_base: "n \<in> set base" if "n < v_NodeCount v" "W (view_value pf v name n)" "node_states v (pg v n) = None" for n
    using that base(2) unwritten_value [of v n pf name] unwritten_in_base [OF v that(1,3)] by simp
  show ?thesis
  proof (cases "Overlay v")
    case True
    then show ?thesis unfolding complete_for_def using base D le in_base by (auto simp: unionDeltaTouched_set)
  next
    case False
    then have "node_states v = Map.empty" "v_NodeCount v = NodeCount (v_base v)"
      using not_overlay [OF False] by (simp_all add: v_NodeCount_def virtualPgIDs_def)
    then show ?thesis unfolding complete_for_def using False base unwritten_value [of v _ pf name] by auto
  qed
qed

locale candidate_source =
  fixes lookup :: "(string \<Rightarrow> 64 word option) \<Rightarrow> View \<Rightarrow> string \<Rightarrow> 'q \<Rightarrow> ((nodeid list) option) option"
    and base_ids :: "(string \<Rightarrow> 64 word option) \<Rightarrow> View \<Rightarrow> nat \<Rightarrow> 'q \<Rightarrow> ((nodeid list) option) option"
    and delta_ids :: "deltaPropPostings option \<Rightarrow> 'q \<Rightarrow> nodeid list"
    and wants :: "'q \<Rightarrow> any \<Rightarrow> bool"
    and storable :: "(string \<Rightarrow> 64 word option) \<Rightarrow> View \<Rightarrow> string \<Rightarrow> bool"
  assumes lookup_shape: "lookup pf v name q =
      (case PropIDByName v name of
         None \<Rightarrow> if \<not> Overlay v then Some (Some []) else do { d \<leftarrow> deltaPropFor pf v name; Some (Some (unionDeltaTouched [] (delta_ids d q))) }
       | Some prop \<Rightarrow> do {
           got \<leftarrow> base_ids pf v prop q;
           case got of None \<Rightarrow> Some None
           | Some base \<Rightarrow> if \<not> Overlay v then Some (Some base)
               else do { d \<leftarrow> deltaPropFor pf v name; Some (Some (unionDeltaTouched base (delta_ids d q))) } })"
    and base_exact: "view_wf v \<Longrightarrow> storable pf v name \<Longrightarrow> PropIDByName v name = Some prop \<Longrightarrow>
      \<exists>ids. base_ids pf v prop q = Some (Some ids) \<and> distinct ids \<and>
        set ids = {n. n < NodeCount (v_base v) \<and> wanted_in wants q (base_value pf v name n)}"
    and delta_exact: "distinct (map fst recs) \<Longrightarrow> distinct (delta_ids (Some (deltaOf recs)) q) \<and>
      set (delta_ids (Some (deltaOf recs)) q) = {n. \<exists>a. (n, a) \<in> set recs \<and> wants q a}"
begin

lemma never_short:
  assumes v: "view_wf v" and st: "storable pf v name" and dec: "delta_decodes pf v name"
  shows "\<exists>ids. lookup pf v name q = Some (Some ids) \<and> complete_for v (\<lambda>n. wanted_in wants q (view_value pf v name n)) ids"
proof -
  let ?D = "delta_ids (Some (deltaOf (delta_recs pf v name))) q" and ?W = "\<lambda>n. wanted_in wants q (view_value pf v name n)"
  obtain base where base: "distinct base" "set base = {n. n < NodeCount (v_base v) \<and> wanted_in wants q (base_value pf v name n)}"
    and look: "lookup pf v name q = Some (Some (if Overlay v then unionDeltaTouched base ?D else base))"
  proof (cases "PropIDByName v name")
    case None
    have "base_value pf v name n = None" if "n < NodeCount (v_base v)" for n
      using not_interned_value [OF v None that] .
    then have "set [] = {n. n < NodeCount (v_base v) \<and> wanted_in wants q (base_value pf v name n)}" by (auto simp: wanted_in_def)
    then show ?thesis using None by (intro that [of "[]"]) (simp_all add: lookup_shape deltaPropFor_ok [OF v dec])
  next
    case (Some p)
    then obtain ids where "base_ids pf v p q = Some (Some ids)" "distinct ids"
      "set ids = {n. n < NodeCount (v_base v) \<and> wanted_in wants q (base_value pf v name n)}"
      using base_exact [OF v st Some] by blast
    then show ?thesis using Some by (intro that [of ids]) (simp_all add: lookup_shape deltaPropFor_ok [OF v dec])
  qed
  note dx = delta_exact [OF delta_recs_iff(2) [OF v, of pf name], of q]
  have D: "distinct ?D" using dx by blast
  have sD: "set ?D = {n. n < v_NodeCount v \<and> node_states v (pg v n) \<noteq> None \<and> ?W n}"
    unfolding conjunct2 [OF dx] delta_recs_iff(1) [OF v] wanted_in_iff by blast
  show ?thesis unfolding look using combined_complete [OF v base D sD] by blast
qed

end

end
