(* ===== verification/StringIndex.thy ===== *)
theory StringIndex
  imports DeltaProps
begin

text \<open>
  The string index of a property, \<open>internal/engine/snapshot/propindex.go\<close>: the nodes of the base that carry it as
  a string, in the order of the value read forward or backward, searched by bisection.
\<close>

section \<open>Order of reversed strings\<close>

text \<open>\<open>i\<close> and \<open>j\<close> are one more than the indices of the source's loop.\<close>

fun lessRevLoop :: "string \<Rightarrow> string \<Rightarrow> nat \<Rightarrow> nat \<Rightarrow> bool" where
  "lessRevLoop a b i j =
     (if i > 0 \<and> j > 0 then if a ! (i - 1) \<noteq> b ! (j - 1) then a ! (i - 1) < b ! (j - 1) else lessRevLoop a b (i - 1) (j - 1)
      else length a < length b)"

declare lessRevLoop.simps [simp del]

definition lessReversed :: "string \<Rightarrow> string \<Rightarrow> bool" where
  "lessReversed a b = lessRevLoop a b (length a) (length b)"

section \<open>The base\<close>

definition storedEntry :: "PropStore \<Rightarrow> nodeid \<Rightarrow> nat \<Rightarrow> (propEntry option) option" where
  "storedEntry p n prop = do { es \<leftarrow> row (ps_nodeOffsets p) n (ps_entries p); Some (entryByID es prop) }"

definition stringValue :: "PropStore \<Rightarrow> nodeid \<Rightarrow> nat \<Rightarrow> (string option) option" where
  "stringValue p n prop = do {
     e \<leftarrow> storedEntry p n prop;
     case e of None \<Rightarrow> Some None
     | Some e \<Rightarrow> if e_kind e \<noteq> propKindString then Some None else map_option Some (stringAt (propArena (ps_table p)) (e_ref e) (e_len e)) }"

text \<open>The population of the index, \<open>None\<close> when the property is not interned.\<close>

definition stringIndexFor :: "Snapshot \<Rightarrow> nat \<Rightarrow> ((nodeid list) option) option" where
  "stringIndexFor s prop =
     (if prop \<ge> length (propNames (ps_table (sProps s))) then Some None
      else map_option Some (foldM (\<lambda>i present. do { r \<leftarrow> stringValue (sProps s) (u32 i) prop; Some (if r = None then present else present @ [u32 i]) })
             [0..<NodeCount s] []))"

text \<open>The value of a listed node. It was read without a panic when the node was listed.\<close>

definition listedValue :: "PropStore \<Rightarrow> nat \<Rightarrow> nodeid \<Rightarrow> string" where
  "listedValue p prop i = (case stringValue p i prop of Some (Some s) \<Rightarrow> s | _ \<Rightarrow> [])"

definition forwardIDs :: "PropStore \<Rightarrow> nat \<Rightarrow> nodeid list \<Rightarrow> nodeid list" where
  "forwardIDs p prop present = sort_Slice (\<lambda>a b. listedValue p prop a < listedValue p prop b) present"

definition reverseIDs :: "PropStore \<Rightarrow> nat \<Rightarrow> nodeid list \<Rightarrow> nodeid list" where
  "reverseIDs p prop present = sort_Slice (\<lambda>a b. lessReversed (listedValue p prop a) (listedValue p prop b)) present"

definition scanRange :: "nodeid list \<Rightarrow> (nodeid \<Rightarrow> bool) \<Rightarrow> (nodeid \<Rightarrow> bool) \<Rightarrow> nodeid list" where
  "scanRange ids reached matches = takeWhile matches (drop (sort_Search (length ids) (\<lambda>i. reached (ids ! i))) ids)"

definition NodesWithString :: "View \<Rightarrow> nat \<Rightarrow> StringMatch \<Rightarrow> string \<Rightarrow> ((nodeid list) option) option" where
  "NodesWithString v prop match operand = do {
     idx \<leftarrow> stringIndexFor (v_base v) prop;
     Some (map_option (\<lambda>present.
       let p = sProps (v_base v); val = listedValue p prop in
       (case match of
          StringContains \<Rightarrow> filter (\<lambda>i. strings_Contains (val i) operand) present
        | StringSuffix \<Rightarrow> scanRange (reverseIDs p prop present) (\<lambda>i. \<not> lessReversed (val i) operand) (\<lambda>i. suffix operand (val i))
        | _ \<Rightarrow> scanRange (forwardIDs p prop present) (\<lambda>i. operand \<le> val i)
                 (\<lambda>i. prefix operand (val i) \<and> (match = StringEquals \<longrightarrow> val i = operand)))) idx) }"

definition NodesWithStringByName :: "(string \<Rightarrow> 64 word option) \<Rightarrow> View \<Rightarrow> string \<Rightarrow> StringMatch \<Rightarrow> string \<Rightarrow> ((nodeid list) option) option" where
  "NodesWithStringByName pf v name match operand =
     (case PropIDByName v name of
        None \<Rightarrow>
          if \<not> Overlay v then Some (Some [])
          else do { d \<leftarrow> deltaPropFor pf v name; Some (Some (unionDeltaTouched [] (matchingStrings d (\<lambda>s. matchString s match operand)))) }
      | Some prop \<Rightarrow> do {
          got \<leftarrow> NodesWithString v prop match operand;
          case got of None \<Rightarrow> Some None
          | Some base \<Rightarrow>
              if \<not> Overlay v then Some (Some base)
              else do { d \<leftarrow> deltaPropFor pf v name; Some (Some (unionDeltaTouched base (matchingStrings d (\<lambda>s. matchString s match operand)))) } })"

definition HasStringValue :: "(string \<Rightarrow> 64 word option) \<Rightarrow> View \<Rightarrow> nat \<Rightarrow> (bool \<times> bool) option" where
  "HasStringValue pf v prop = do {
     idx \<leftarrow> stringIndexFor (v_base v) prop;
     case idx of None \<Rightarrow> Some (False, False)
     | Some present \<Rightarrow>
         if length present > 0 then Some (True, True)
         else if Overlay v then do {
           d \<leftarrow> deltaPropFor pf v (ps_Name (sProps (v_base v)) prop);
           Some (case d of None \<Rightarrow> False | Some d \<Rightarrow> length (dp_strings d) > 0, True) }
         else Some (False, True) }"

definition PropCount :: "(string \<Rightarrow> 64 word option) \<Rightarrow> View \<Rightarrow> nat \<Rightarrow> (nat \<times> bool) option" where
  "PropCount pf v prop = do {
     idx \<leftarrow> stringIndexFor (v_base v) prop;
     case idx of None \<Rightarrow> Some (0, False)
     | Some present \<Rightarrow>
         if Overlay v then do { d \<leftarrow> deltaPropFor pf v (ps_Name (sProps (v_base v)) prop); Some (length present + deltaCount d, True) }
         else Some (length present, True) }"

section \<open>Order\<close>

lemma lessReversed_iff: "lessReversed a b \<longleftrightarrow> rev a < rev b"
proof -
  have "i \<le> length a \<Longrightarrow> j \<le> length b \<Longrightarrow> length a - i = length b - j \<Longrightarrow> lessRevLoop a b i j \<longleftrightarrow> rev (take i a) < rev (take j b)" for i j
  proof (induction i arbitrary: j)
    case 0
    then show ?case by (subst lessRevLoop.simps) (cases "j = 0"; cases "take j b" rule: rev_cases; auto)
  next
    case (Suc i)
    show ?case
    proof (cases j)
      case 0
      then show ?thesis using Suc.prems by (subst lessRevLoop.simps) auto
    next
      case j: (Suc j')
      have "take (Suc i) a = take i a @ [a ! i]" "take j b = take j' b @ [b ! j']" using Suc.prems j by (simp_all add: take_Suc_conv_app_nth)
      then show ?thesis using Suc.prems j Suc.IH [of j'] by (subst lessRevLoop.simps) auto
    qed
  qed
  from this [of "length a" "length b"] show ?thesis by (simp add: lessReversed_def)
qed

lemma prefix_le: "prefix p s \<Longrightarrow> p \<le> (s :: string)"
proof (induction p arbitrary: s)
  case (Cons c p)
  then show ?case by (cases s) auto
qed simp

lemma prefix_between: "p \<le> s \<Longrightarrow> s \<le> t \<Longrightarrow> prefix p t \<Longrightarrow> prefix p (s :: string)"
proof (induction p arbitrary: s t)
  case (Cons c p)
  obtain t' where t: "t = c # t'" "prefix p t'" using Cons.prems(3) by (cases t) auto
  obtain d s' where s: "s = d # s'" using Cons.prems(1) by (cases s) auto
  have "d = c" "p \<le> s'" "s' \<le> t'" using Cons.prems(1,2) t(1) s by auto
  then show ?case using Cons.IH t s by auto
qed simp

text \<open>A range scan of a sorted list finds every match.\<close>

lemma scanRange_exact:
  fixes key :: "nodeid \<Rightarrow> 'b :: linorder"
  assumes sorted: "sorted (map key ids)" and reached: "\<And>i. reached i \<longleftrightarrow> low \<le> key i"
    and above: "\<And>i. matches i \<Longrightarrow> low \<le> key i" and between: "\<And>i j. low \<le> key i \<Longrightarrow> key i \<le> key j \<Longrightarrow> matches j \<Longrightarrow> matches i"
  shows "scanRange ids reached matches = filter matches ids"
proof -
  define lo where "lo = sort_Search (length ids) (\<lambda>i. reached (ids ! i))"
  have mono: "reached (ids ! b)" if "a \<le> b" "b < length ids" "reached (ids ! a)" for a b
    using that sorted reached by (auto simp: sorted_iff_nth_mono intro: order_trans)
  have lo: "lo \<le> length ids" "\<And>a. a < lo \<Longrightarrow> \<not> reached (ids ! a)" "lo < length ids \<Longrightarrow> reached (ids ! lo)"
    using sort_Search_least [of "length ids" "\<lambda>i. reached (ids ! i)"] mono unfolding lo_def by blast+
  have none: "filter matches (take lo ids) = []" using lo(1,2) above reached by (fastforce simp: filter_empty_conv in_set_conv_nth)
  have tail: "low \<le> key x" if "x \<in> set (drop lo ids)" for x
  proof -
    note x = that
    obtain j where j: "lo + j < length ids" "x = ids ! (lo + j)"
      using x lo(1) unfolding in_set_conv_nth by (metis add.commute length_drop less_diff_conv nth_drop)
    then show ?thesis using mono [of lo "lo + j"] lo(3) reached by simp
  qed
  have "sorted (map key (drop lo ids))" using sorted by (metis drop_map sorted_wrt_drop)
  then have "takeWhile matches (drop lo ids) = filter matches (drop lo ids)" using tail
  proof (induction "drop lo ids" arbitrary: lo rule: list.induct)
    case (Cons x xs)
    have xs: "xs = drop (Suc lo) ids" by (metis Cons.hyps(2) drop_Suc list.sel(3) tl_drop)
    have ih: "takeWhile matches xs = filter matches xs"
      unfolding xs by (rule Cons.hyps(1)) (use Cons.prems Cons.hyps(2) xs in \<open>auto simp: Cons.hyps(2) [symmetric]\<close>)
    have "filter matches xs = []" if "\<not> matches x"
      using that Cons.prems between [of x] unfolding Cons.hyps(2) [symmetric] by (auto simp: filter_empty_conv)
    then show ?case using ih unfolding Cons.hyps(2) [symmetric] by auto
  qed simp
  moreover have "filter matches ids = filter matches (take lo ids) @ filter matches (drop lo ids)" by (metis append_take_drop_id filter_append)
  ultimately show ?thesis using none by (simp add: scanRange_def lo_def)
qed

section \<open>The lookups\<close>

lemma stringValue_ok:
  assumes "view_wf v" and "PropIDByName v name = Some p" and "n < NodeCount (v_base v)"
  shows "stringValue (sProps (v_base v)) n p = Some (case base_value pf v name n of Some (AnyStr s) \<Rightarrow> Some s | _ \<Rightarrow> None)"
proof -
  obtain es where row: "row (ps_nodeOffsets (sProps (v_base v))) n (ps_entries (sProps (v_base v))) = Some es"
    and val: "base_raw v name n = Option.bind (entryByID es p) (decode (propArena (ps_table (sProps (v_base v)))))"
    and wf: "\<And>e. entryByID es p = Some e \<Longrightarrow> entry_wf (ps_table (sProps (v_base v))) e"
    by (rule stored_value [OF assms]) blast
  show ?thesis
  proof (cases "entryByID es p")
    case (Some e)
    then show ?thesis using row val wf [OF Some]
      by (cases "e_kind e") (auto simp: base_value_def stringValue_def storedEntry_def decode_def decodeAny_def entry_wf_def has_payload_def split: option.splits any.splits Option.bind_splits)
  qed (simp add: base_value_def stringValue_def storedEntry_def row val)
qed

definition carries_string :: "(string \<Rightarrow> 64 word option) \<Rightarrow> View \<Rightarrow> string \<Rightarrow> nodeid \<Rightarrow> string \<Rightarrow> bool" where
  "carries_string pf v name n s \<longleftrightarrow> base_value pf v name n = Some (AnyStr s)"

lemma listedValue_ok:
  assumes "view_wf v" and "PropIDByName v name = Some p" and "n < NodeCount (v_base v)" and "carries_string pf v name n s"
  shows "listedValue (sProps (v_base v)) p n = s"
  using stringValue_ok [OF assms(1-3), of pf] assms(4) by (simp add: listedValue_def carries_string_def)

lemma foldM_collect:
  assumes "\<And>x acc. x \<in> set xs \<Longrightarrow> f x acc = Some (if P x then acc @ [g x] else acc)"
  shows "foldM f xs acc = Some (acc @ map g (filter P xs))"
  using assms by (induction xs arbitrary: acc) auto

lemma stringIndexFor_ok:
  assumes "view_wf v" and "PropIDByName v name = Some p"
  shows "stringIndexFor (v_base v) p = Some (Some (filter (\<lambda>n. \<exists>s. carries_string pf v name n s) [0..<NodeCount (v_base v)]))"
proof -
  let ?f = "\<lambda>i present. do { r \<leftarrow> stringValue (sProps (v_base v)) (u32 i) p; Some (if r = None then present else present @ [u32 i]) }"
  let ?P = "\<lambda>n. \<exists>s. carries_string pf v name n s"
  have small: "n < 2 ^ 32" if "n < NodeCount (v_base v)" for n using base_facts(2) [OF assms(1)] that by simp
  have "?f i acc = Some (if ?P i then acc @ [i] else acc)" if "i \<in> set [0..<NodeCount (v_base v)]" for i acc
    using stringValue_ok [OF assms, of i pf] u32_id [OF small [of i]] that by (auto simp: carries_string_def split: option.splits any.splits)
  from foldM_collect [of "[0..<NodeCount (v_base v)]" ?f ?P "\<lambda>i. i", OF this] have "foldM ?f [0..<NodeCount (v_base v)] [] = Some (filter ?P [0..<NodeCount (v_base v)])" by simp
  moreover have "p < length (propNames (ps_table (sProps (v_base v))))"
    using assms by (auto simp: PropIDByName_def ps_IDByName_def view_wf_def snap_ok_def snap_wf_def store_rep_def table_wf_def)
  ultimately show ?thesis by (simp add: stringIndexFor_def)
qed

definition wants_string :: "StringMatch \<times> string \<Rightarrow> any \<Rightarrow> bool" where
  "wants_string = (\<lambda>(match, operand) a. case a of AnyStr s \<Rightarrow> matchString s match operand | _ \<Rightarrow> False)"

lemma wants_string_iff: "wants_string q a \<longleftrightarrow> (\<exists>s. a = AnyStr s \<and> matchString s (fst q) (snd q))"
  by (cases a) (simp_all add: wants_string_def case_prod_beta)

lemma NodesWithString_ok:
  assumes v: "view_wf v" and p: "PropIDByName v name = Some p"
  shows "\<exists>ids. NodesWithString v p match operand = Some (Some ids) \<and> distinct ids \<and>
    set ids = {n. n < NodeCount (v_base v) \<and> wanted_in wants_string (match, operand) (base_value pf v name n)}"
proof -
  define present where "present = filter (\<lambda>n. \<exists>s. carries_string pf v name n s) [0..<NodeCount (v_base v)]"
  note index = stringIndexFor_ok [OF v p, of pf, folded present_def]
  let ?val = "listedValue (sProps (v_base v)) p" and ?m = "\<lambda>n. matchString (listedValue (sProps (v_base v)) p n) match operand"
  have fwd: "sorted (map ?val (forwardIDs (sProps (v_base v)) p xs))" "mset (forwardIDs (sProps (v_base v)) p xs) = mset xs" for xs
    by (simp_all add: forwardIDs_def sort_Slice_key [of _ ?val])
  have rv: "sorted (map (\<lambda>n. rev (?val n)) (reverseIDs (sProps (v_base v)) p xs))" "mset (reverseIDs (sProps (v_base v)) p xs) = mset xs" for xs
    by (simp_all add: reverseIDs_def lessReversed_iff sort_Slice_key [of _ "\<lambda>n. rev (?val n)"])
  have "\<exists>ids. NodesWithString v p match operand = Some (Some ids) \<and> mset ids = mset (filter ?m present)"
  proof (cases match)
    case StringContains
    then show ?thesis by (simp add: NodesWithString_def Let_def index)
  next
    case StringSuffix
    have "scanRange (reverseIDs (sProps (v_base v)) p xs) (\<lambda>i. \<not> lessReversed (?val i) operand) (\<lambda>i. suffix operand (?val i)) =
        filter (\<lambda>i. suffix operand (?val i)) (reverseIDs (sProps (v_base v)) p xs)" for xs
      by (rule scanRange_exact [where key = "\<lambda>n. rev (?val n)" and low = "rev operand", OF rv(1)])
        (auto simp: lessReversed_iff suffix_to_prefix intro: prefix_le prefix_between)
    then show ?thesis using StringSuffix by (simp add: NodesWithString_def Let_def index rv(2) mset_filter)
  next
    case StringPrefix
    have "scanRange (forwardIDs (sProps (v_base v)) p xs) (\<lambda>i. operand \<le> ?val i) (\<lambda>i. prefix operand (?val i)) =
        filter (\<lambda>i. prefix operand (?val i)) (forwardIDs (sProps (v_base v)) p xs)" for xs
      by (rule scanRange_exact [where key = ?val and low = operand, OF fwd(1)]) (auto intro: prefix_le prefix_between)
    then show ?thesis using StringPrefix by (simp add: NodesWithString_def Let_def index fwd(2) mset_filter)
  next
    case StringEquals
    have "scanRange (forwardIDs (sProps (v_base v)) p xs) (\<lambda>i. operand \<le> ?val i) (\<lambda>i. prefix operand (?val i) \<and> ?val i = operand) =
        filter (\<lambda>i. prefix operand (?val i) \<and> ?val i = operand) (forwardIDs (sProps (v_base v)) p xs)" for xs
      by (rule scanRange_exact [where key = ?val and low = operand, OF fwd(1)]) auto
    moreover have "(\<lambda>i. prefix operand (?val i) \<and> ?val i = operand) = (\<lambda>i. ?val i = operand)" by auto
    ultimately show ?thesis using StringEquals by (simp add: NodesWithString_def Let_def index fwd(2) mset_filter)
  qed
  then obtain ids where ids: "NodesWithString v p match operand = Some (Some ids)" "mset ids = mset (filter ?m present)" by blast
  have "distinct ids" using mset_eq_imp_distinct_iff [OF ids(2)] by (simp add: present_def)
  moreover have "set ids = {n. n < NodeCount (v_base v) \<and> wanted_in wants_string (match, operand) (base_value pf v name n)}"
    unfolding mset_eq_setD [OF ids(2)] using listedValue_ok [OF v p, of _ pf]
    by (auto simp: present_def wanted_in_def wants_string_iff carries_string_def split: option.splits)
  ultimately show ?thesis using ids(1) by blast
qed

lemma matchingStrings_ok:
  assumes "distinct (map fst recs)"
  shows "distinct (matchingStrings (Some (deltaOf recs)) P) \<and>
    set (matchingStrings (Some (deltaOf recs)) P) = {n. \<exists>s. (n, AnyStr s) \<in> set recs \<and> P s}"
proof -
  have "distinct (map fst (dp_strings (deltaOf recs)))" using deltaOf_strings(1) [OF assms] strict_sorted_iff by blast
  then show ?thesis using deltaOf_strings(2) [OF assms] by (force simp: matchingStrings_def intro: distinct_map_filter_list)
qed

interpretation strings: candidate_source
  "\<lambda>pf v name (match, operand). NodesWithStringByName pf v name match operand"
  "\<lambda>pf v p (match, operand). NodesWithString v p match operand"
  "\<lambda>d (match, operand). matchingStrings d (\<lambda>s. matchString s match operand)"
  wants_string "\<lambda>pf v name. True"
proof (unfold_locales, goal_cases)
  case (1 pf v name q)
  then show ?case by (simp add: NodesWithStringByName_def split: prod.split option.split)
next
  case (2 v pf name p q)
  then show ?case using NodesWithString_ok [of v name p "fst q" "snd q" pf] by (simp add: case_prod_beta)
next
  case (3 recs q)
  then show ?case using matchingStrings_ok [OF 3, of "\<lambda>s. matchString s (fst q) (snd q)"]
    by (auto simp: case_prod_beta wants_string_iff)
qed

lemma string_lookup_ok:
  assumes "view_wf v" and "delta_decodes pf v name"
  shows "\<exists>ids. NodesWithStringByName pf v name match operand = Some (Some ids) \<and>
    complete_for v (\<lambda>n. \<exists>s. view_value pf v name n = Some (AnyStr s) \<and> matchString s match operand) ids"
proof -
  have "wanted_in wants_string (match, operand) a \<longleftrightarrow> (\<exists>s. a = Some (AnyStr s) \<and> matchString s match operand)" for a
    by (auto simp: wanted_in_def wants_string_iff split: option.splits)
  then show ?thesis using strings.never_short [OF assms(1) _ assms(2), of "(match, operand)"] by simp
qed

text \<open>
  C20. A string lookup is never short. For every view, and a property whose values in the delta all decode,
  the lookup returns without a panic and answers: each node once, only nodes of the view, and every node whose
  visible value is a string that matches, exactly those when there is no delta.
\<close>

theorem string_lookup_complete:
  assumes "view_wf v" and "delta_decodes pf v name"
  shows "\<exists>ids. NodesWithStringByName pf v name match operand = Some (Some ids) \<and>
    complete_for v (\<lambda>n. \<exists>s. view_value pf v name n = Some (AnyStr s) \<and> matchString s match operand) ids"
  by (rule string_lookup_ok [OF assms])

text \<open>The example base without a delta: node 5 with objectid \<open>S-1\<close> and node 9 without.\<close>

lemma example_base_view:
  "view_wf (NewView example_base)" "delta_decodes pf (NewView example_base) name" "\<not> Overlay (NewView example_base)" "v_NodeCount (NewView example_base) = 2"
  "view_value pf (NewView example_base) ''objectid'' 0 = Some (AnyStr ''S-1'')" "view_value pf (NewView example_base) ''objectid'' 1 = None"
proof -
  have nv: "v_base (NewView example_base) = example_base" "v_segments (NewView example_base) = []" by (simp_all add: NewView_def)
  show no: "\<not> Overlay (NewView example_base)" by (simp add: Overlay_def nv)
  note none = not_overlay [OF no]
  show count: "v_NodeCount (NewView example_base) = 2" using none example_base_ok(2) by (simp add: v_NodeCount_def nv virtualPgIDs_def NodeCount_def)
  show "view_wf (NewView example_base)" using example_base_ok(1) count by (simp add: view_wf_def nv)
  show "delta_decodes pf (NewView example_base) name" using none by (simp add: delta_decodes_def)
  show "view_value pf (NewView example_base) ''objectid'' 0 = Some (AnyStr ''S-1'')" "view_value pf (NewView example_base) ''objectid'' 1 = None"
    using none example_base_ok(2,3) by (simp_all add: view_value_def view_nodes_def apply_nodes_def pg_def nv NodeCount_def example_nodes_def node_of_def
        parsedBag_def parsedValue_def decodeAny_def)
qed

theorem string_lookup_complete_witness:
  "\<exists>ids. NodesWithStringByName (\<lambda>_. None) (NewView example_base) ''objectid'' StringSuffix ''-1'' = Some (Some ids) \<and> set ids = {0}"
proof -
  have "{n. n < 2 \<and> (\<exists>s. view_value (\<lambda>_. None) (NewView example_base) ''objectid'' n = Some (AnyStr s) \<and> suffix ''-1'' s)} = {0}"
    by (auto simp: less_2_cases_iff example_base_view [simplified] suffix_def)
  then show ?thesis
    using string_lookup_complete [OF example_base_view(1,2), of "\<lambda>_. None" "''objectid''" StringSuffix "''-1''"] example_base_view(3,4)
    by (auto simp: complete_for_def)
qed

end
