(* ===== verification/Values.thy ===== *)
theory Values
  imports Json "HOL-Library.List_Lexorder" "HOL-Library.Char_ord"
begin

text \<open>
  The value semantics of the interpreter, \<open>internal/engine/interpret/value.go\<close>: three-valued logic, jsonb
  equality, the null tests, \<open>IN\<close>, and the order of \<open>ORDER BY\<close>. A decoded value is an \<open>any\<close>, a float64 its bit
  pattern. \<open>pf\<close> and \<open>ff\<close> are \<open>strconv.ParseFloat\<close> and \<open>strconv.FormatFloat(_, 'f', -1, 64)\<close>.
\<close>

section \<open>Floats\<close>

text \<open>The order of IEEE 754 on bit patterns: sign and magnitude, the two zeros equal, nothing comparable with a NaN.\<close>

definition float_magnitude :: "64 word \<Rightarrow> int" where
  "float_magnitude w = uint w mod 2 ^ 63"

definition float_nan :: "64 word \<Rightarrow> bool" where
  "float_nan w \<longleftrightarrow> float_magnitude w > 0x7FF0000000000000"

definition float_order :: "64 word \<Rightarrow> int" where
  "float_order w = (if uint w \<ge> 2 ^ 63 then - float_magnitude w else float_magnitude w)"

definition float_eq :: "64 word \<Rightarrow> 64 word \<Rightarrow> bool" where
  "float_eq a b \<longleftrightarrow> \<not> float_nan a \<and> \<not> float_nan b \<and> float_order a = float_order b"

definition float_less :: "64 word \<Rightarrow> 64 word \<Rightarrow> bool" where
  "float_less a b \<longleftrightarrow> \<not> float_nan a \<and> \<not> float_nan b \<and> float_order a < float_order b"

section \<open>Three-valued logic\<close>

datatype Tri = TriFalse | TriTrue | TriNull

datatype interp_error = ErrCollation | ErrRuntimeCast | ErrNotComparable | ErrLikePattern | ErrUnsupported

definition tri_And :: "Tri \<Rightarrow> Tri \<Rightarrow> Tri" where
  "tri_And t u = (if t = TriFalse \<or> u = TriFalse then TriFalse else if t = TriNull \<or> u = TriNull then TriNull else TriTrue)"

definition tri_Or :: "Tri \<Rightarrow> Tri \<Rightarrow> Tri" where
  "tri_Or t u = (if t = TriTrue \<or> u = TriTrue then TriTrue else if t = TriNull \<or> u = TriNull then TriNull else TriFalse)"

definition tri_Not :: "Tri \<Rightarrow> Tri" where
  "tri_Not t = (case t of TriFalse \<Rightarrow> TriTrue | TriTrue \<Rightarrow> TriFalse | TriNull \<Rightarrow> TriNull)"

definition tri_Xor :: "Tri \<Rightarrow> Tri \<Rightarrow> Tri" where
  "tri_Xor t u = (if t = TriNull \<or> u = TriNull then TriNull else if t = u then TriFalse else TriTrue)"

definition boolToTri :: "bool \<Rightarrow> Tri" where
  "boolToTri b = (if b then TriTrue else TriFalse)"

section \<open>Equality\<close>

text \<open>A property read gives a value and whether the property is present: \<open>None\<close> is absent.\<close>

definition StringEq :: "any option \<Rightarrow> string \<Rightarrow> Tri" where
  "StringEq val lit = (case val of None \<Rightarrow> TriNull | Some (AnyStr s) \<Rightarrow> boolToTri (s = lit) | Some _ \<Rightarrow> TriFalse)"

definition StringNeq :: "any option \<Rightarrow> string \<Rightarrow> Tri" where
  "StringNeq val lit = (case val of None \<Rightarrow> TriNull | Some (AnyStr s) \<Rightarrow> boolToTri (s \<noteq> lit) | Some _ \<Rightarrow> TriTrue)"

fun jsonbEqual :: "any \<Rightarrow> any \<Rightarrow> bool"
  and equalElems :: "any list \<Rightarrow> any list \<Rightarrow> bool"
  and equalMembers :: "(string \<times> any) list \<Rightarrow> (string \<times> any) list \<Rightarrow> bool" where
  "jsonbEqual AnyNil b = (b = AnyNil)"
| "jsonbEqual (AnyNum x) b = (case b of AnyNum y \<Rightarrow> float_eq x y | _ \<Rightarrow> False)"
| "jsonbEqual (AnyStr x) b = (case b of AnyStr y \<Rightarrow> x = y | _ \<Rightarrow> False)"
| "jsonbEqual (AnyBool x) b = (case b of AnyBool y \<Rightarrow> x = y | _ \<Rightarrow> False)"
| "jsonbEqual (AnyList xs) b = (case b of AnyList ys \<Rightarrow> length xs = length ys \<and> equalElems xs ys | _ \<Rightarrow> False)"
| "jsonbEqual (AnyMap m) b = (case b of AnyMap n \<Rightarrow> length m = length n \<and> equalMembers m n | _ \<Rightarrow> False)"
| "equalElems [] ys = True"
| "equalElems (x # xs) ys = (case ys of [] \<Rightarrow> False | y # ys' \<Rightarrow> jsonbEqual x y \<and> equalElems xs ys')"
| "equalMembers [] n = True"
| "equalMembers ((k, x) # m) n = (case map_of n k of None \<Rightarrow> False | Some y \<Rightarrow> jsonbEqual x y \<and> equalMembers m n)"

definition ScalarEq :: "any option \<Rightarrow> any \<Rightarrow> Tri" where
  "ScalarEq val rhs = (case val of None \<Rightarrow> TriNull | Some a \<Rightarrow> boolToTri (jsonbEqual a rhs))"

definition PropEq :: "any option \<Rightarrow> any option \<Rightarrow> Tri" where
  "PropEq x y = (case (x, y) of (Some a, Some b) \<Rightarrow> boolToTri (jsonbEqual a b) | _ \<Rightarrow> TriNull)"

definition jsonText :: "(64 word \<Rightarrow> string) \<Rightarrow> any \<Rightarrow> string option" where
  "jsonText ff val = (case val of AnyNil \<Rightarrow> None | AnyStr s \<Rightarrow> Some s | AnyNum x \<Rightarrow> Some (ff x)
     | AnyBool b \<Rightarrow> Some (if b then ''true'' else ''false'') | _ \<Rightarrow> None)"

section \<open>Predicates\<close>

definition stringPredicateCore :: "(string \<Rightarrow> bool) \<Rightarrow> any option \<Rightarrow> bool \<Rightarrow> interp_error + Tri" where
  "stringPredicateCore match val negated =
     (case val of
        None \<Rightarrow> Inr (if \<not> negated then TriNull else boolToTri (\<not> match []))
      | Some AnyNil \<Rightarrow> Inr (if \<not> negated then TriNull else boolToTri (\<not> match []))
      | Some (AnyStr s) \<Rightarrow> Inr (boolToTri (if negated then \<not> match s else match s))
      | Some _ \<Rightarrow> Inl ErrRuntimeCast)"

definition IsNull :: "any option \<Rightarrow> Tri" where
  "IsNull val = (if val = None \<or> val = Some AnyNil then TriTrue else TriFalse)"

definition IsNotNull :: "any option \<Rightarrow> Tri" where
  "IsNotNull val = tri_Not (IsNull val)"

definition listElementKinds :: "any list \<Rightarrow> bool \<times> bool" where
  "listElementKinds els = fold (\<lambda>el (allString, allNumber).
     case el of AnyStr _ \<Rightarrow> (allString, False) | AnyNum _ \<Rightarrow> (False, allNumber) | _ \<Rightarrow> (False, False)) els (True, True)"

fun nonZeroMantissa :: "string \<Rightarrow> bool" where
  "nonZeroMantissa [] = False"
| "nonZeroMantissa (c # s) = (if c = CHR ''e'' \<or> c = CHR ''E'' then False else if 49 \<le> code c \<and> code c \<le> 57 then True else nonZeroMantissa s)"

definition parseFloat8Text :: "(string \<Rightarrow> 64 word option) \<Rightarrow> string \<Rightarrow> interp_error + 64 word" where
  "parseFloat8Text pf t = (case pf t of None \<Rightarrow> Inl ErrRuntimeCast
     | Some f \<Rightarrow> if float_zero f \<and> nonZeroMantissa t then Inl ErrRuntimeCast else Inr f)"

definition evalIn :: "(string \<Rightarrow> 64 word option) \<Rightarrow> (64 word \<Rightarrow> string) \<Rightarrow> any option \<Rightarrow> any list \<Rightarrow> interp_error + Tri" where
  "evalIn pf ff val els =
     (if els = [] then Inr TriFalse
      else case val of
        Some (AnyList _) \<Rightarrow> Inr TriFalse
      | None \<Rightarrow> Inr TriNull
      | Some a \<Rightarrow>
          (case listElementKinds els of
             (True, _) \<Rightarrow>
               (case jsonText ff a of None \<Rightarrow> Inr TriNull
                | Some t \<Rightarrow> Inr (boolToTri (list_ex (\<lambda>el. el = AnyStr t) els)))
           | (False, True) \<Rightarrow>
               (case jsonText ff a of None \<Rightarrow> Inr TriNull
                | Some t \<Rightarrow> (case parseFloat8Text pf t of Inl e \<Rightarrow> Inl e
                    | Inr n \<Rightarrow> Inr (boolToTri (list_ex (\<lambda>el. case el of AnyNum x \<Rightarrow> float_eq n x | _ \<Rightarrow> False) els))))
           | (False, False) \<Rightarrow> Inr (boolToTri (list_ex (jsonbEqual a) els))))"

section \<open>Order\<close>

definition typeRank :: "any \<Rightarrow> int" where
  "typeRank a = (case a of AnyMap _ \<Rightarrow> 1 | AnyList _ \<Rightarrow> 2 | AnyStr _ \<Rightarrow> 3 | AnyBool _ \<Rightarrow> 4 | AnyNum _ \<Rightarrow> 5 | AnyNil \<Rightarrow> 6)"

definition compareFloat :: "64 word \<Rightarrow> 64 word \<Rightarrow> int" where
  "compareFloat a b = (if float_less a b then -1 else if float_less b a then 1 else 0)"

definition compareInt :: "int \<Rightarrow> int \<Rightarrow> int" where
  "compareInt a b = (if a < b then -1 else if a > b then 1 else 0)"

definition compareString :: "string \<Rightarrow> string \<Rightarrow> int" where
  "compareString a b = (if a < b then -1 else if a > b then 1 else 0)"

text \<open>The members of a map in the order of their keys.\<close>

definition sortedMembers :: "(string \<times> any) list \<Rightarrow> (string \<times> any) list" where
  "sortedMembers m = sort_key fst m"

fun firstKeyDiff :: "string list \<Rightarrow> string list \<Rightarrow> int option" where
  "firstKeyDiff (k # ks) (l # ls) = (if k \<noteq> l then Some (compareString k l) else firstKeyDiff ks ls)"
| "firstKeyDiff _ _ = None"

lemma size_list_mset: "mset xs = mset ys \<Longrightarrow> size_list f xs = size_list f ys"
  by (metis mset_map size_list_conv_sum_list size_mset sum_mset_sum_list)

lemma size_sortedMembers: "size_list size (map snd (sortedMembers m)) < size (AnyMap m)"
proof -
  have "size_list size (map snd (sortedMembers m)) = size_list size (map snd m)"
    by (rule size_list_mset) (simp add: sortedMembers_def)
  moreover have "size_list size (map snd m) \<le> size_list (size_prod (\<lambda>x. 0) size) m"
    by (induction m) auto
  ultimately show ?thesis by simp
qed

function Compare :: "any \<Rightarrow> any \<Rightarrow> interp_error + int"
  and compareElems :: "int \<Rightarrow> any list \<Rightarrow> any list \<Rightarrow> interp_error + int" where
  "Compare a b =
     (if jsonbEqual a b then Inr 0
      else if a = AnyNil then Inr 1
      else if b = AnyNil then Inr (-1)
      else if typeRank a \<noteq> typeRank b then Inr (if typeRank a < typeRank b then -1 else 1)
      else case a of
        AnyNum x \<Rightarrow> (case b of AnyNum y \<Rightarrow> Inr (compareFloat x y) | _ \<Rightarrow> Inr 0)
      | AnyStr _ \<Rightarrow> Inl ErrCollation
      | AnyBool x \<Rightarrow> (case b of AnyBool y \<Rightarrow> Inr (if x = y then 0 else if \<not> x \<and> y then -1 else 1) | _ \<Rightarrow> Inr 0)
      | AnyList xs \<Rightarrow> (case b of AnyList ys \<Rightarrow> compareElems (compareInt (int (length xs)) (int (length ys))) xs ys | _ \<Rightarrow> Inr 0)
      | AnyMap m \<Rightarrow>
          (case b of
             AnyMap n \<Rightarrow>
               if length m \<noteq> length n then Inr (compareInt (int (length m)) (int (length n)))
               else (case firstKeyDiff (map fst (sortedMembers m)) (map fst (sortedMembers n)) of
                       Some c \<Rightarrow> Inr c
                     | None \<Rightarrow> compareElems 0 (map snd (sortedMembers m)) (map snd (sortedMembers n)))
           | _ \<Rightarrow> Inr 0)
      | AnyNil \<Rightarrow> Inr 0)"
| "compareElems final xs ys =
     (case xs of [] \<Rightarrow> Inr final
      | x # xs' \<Rightarrow> (case ys of [] \<Rightarrow> Inr final
          | y # ys' \<Rightarrow> (case Compare x y of Inl e \<Rightarrow> Inl e | Inr c \<Rightarrow> if c \<noteq> 0 then Inr c else compareElems final xs' ys')))"
  by pat_completeness auto
termination
  by (relation "measure (\<lambda>x. case x of Inl (a, b) \<Rightarrow> size a | Inr (f, xs, ys) \<Rightarrow> size_list size xs)")
    (use size_sortedMembers in auto)

declare Compare.simps [simp del] compareElems.simps [simp del]

definition OrderCompare :: "any \<Rightarrow> any \<Rightarrow> interp_error + int" where
  "OrderCompare a b =
     (case a of
        AnyNum x \<Rightarrow> (case b of AnyNum y \<Rightarrow> Inr (compareFloat x y) | _ \<Rightarrow> Inl ErrNotComparable)
      | AnyStr _ \<Rightarrow> (case b of AnyStr _ \<Rightarrow> Inl ErrCollation | _ \<Rightarrow> Inl ErrNotComparable)
      | _ \<Rightarrow> Inl ErrNotComparable)"

section \<open>Equality and order agree\<close>

text \<open>What decoding gives: no NaN, and each key of a map once.\<close>

fun value_ok :: "any \<Rightarrow> bool" where
  "value_ok (AnyNum x) = (\<not> float_nan x)"
| "value_ok (AnyList xs) = list_all value_ok xs"
| "value_ok (AnyMap m) = (distinct (map fst m) \<and> list_all (\<lambda>(k, x). value_ok x) m)"
| "value_ok _ = True"

lemma equalElems_iff: "length xs = length ys \<and> equalElems xs ys \<longleftrightarrow> list_all2 jsonbEqual xs ys"
  by (induction xs arbitrary: ys) (auto split: list.splits simp: list_all2_Cons1)

lemma equalMembers_iff: "equalMembers m n \<longleftrightarrow> (\<forall>(k, x) \<in> set m. \<exists>y. map_of n k = Some y \<and> jsonbEqual x y)"
  by (induction m) (auto split: option.splits)

lemma sortedMembers_props:
  "set (sortedMembers m) = set m" "distinct (map fst m) \<Longrightarrow> sorted_wrt (<) (map fst (sortedMembers m))"
proof -
  show "set (sortedMembers m) = set m" by (simp add: sortedMembers_def)
  assume "distinct (map fst m)"
  then have "distinct (map fst (sortedMembers m))"
    using mset_eq_imp_distinct_iff [of "map fst (sortedMembers m)" "map fst m"] by (simp add: sortedMembers_def)
  then show "sorted_wrt (<) (map fst (sortedMembers m))" by (simp add: sortedMembers_def strict_sorted_iff)
qed

lemma equal_maps_iff:
  assumes "distinct (map fst m)" and "distinct (map fst n)"
  shows "jsonbEqual (AnyMap m) (AnyMap n) \<longleftrightarrow> map fst (sortedMembers m) = map fst (sortedMembers n) \<and>
    list_all2 jsonbEqual (map snd (sortedMembers m)) (map snd (sortedMembers n))"
proof -
  let ?m = "sortedMembers m" and ?n = "sortedMembers n"
  have d: "distinct (map fst ?m)" "distinct (map fst ?n)" using sortedMembers_props(2) assms strict_sorted_iff by blast+
  have look: "map_of n k = Some y \<longleftrightarrow> (k, y) \<in> set ?n" for k y using assms(2) by (simp add: sortedMembers_props(1))
  have len: "length ?m = length m" "length ?n = length n" by (simp_all add: sortedMembers_def)
  show ?thesis
  proof
    assume eq: "jsonbEqual (AnyMap m) (AnyMap n)"
    then have all: "\<And>k x. (k, x) \<in> set ?m \<Longrightarrow> \<exists>y. (k, y) \<in> set ?n \<and> jsonbEqual x y"
      by (auto simp: equalMembers_iff look sortedMembers_props(1))
    then have "set (map fst ?m) \<subseteq> set (map fst ?n)" by force
    moreover have "card (set (map fst ?m)) = card (set (map fst ?n))" using d eq len distinct_card [of "map fst ?m"] distinct_card [of "map fst ?n"] by simp
    ultimately have "set (map fst ?m) = set (map fst ?n)" by (simp add: card_subset_eq)
    then have keys: "map fst ?m = map fst ?n"
      using sortedMembers_props(2) [OF assms(1)] sortedMembers_props(2) [OF assms(2)] by (intro sorted_distinct_set_unique) (simp_all add: strict_sorted_iff)
    have "jsonbEqual (snd (?m ! i)) (snd (?n ! i))" if i: "i < length ?m" for i
    proof -
      have "(fst (?m ! i), snd (?m ! i)) \<in> set ?m" using i by simp
      then obtain y where y: "(fst (?m ! i), y) \<in> set ?n" "jsonbEqual (snd (?m ! i)) y" using all by blast
      have "fst (?m ! i) = fst (?n ! i)" using keys i by (metis length_map nth_map)
      moreover have "i < length ?n" using keys i by (metis length_map)
      ultimately have "(fst (?m ! i), snd (?n ! i)) \<in> set ?n" using nth_mem [of i ?n] by simp
      then have "y = snd (?n ! i)" using y(1) d(2) by (metis map_of_eq_Some_iff option.inject)
      then show ?thesis using y(2) by simp
    qed
    moreover have "length ?m = length ?n" using keys by (metis length_map)
    ultimately show "map fst ?m = map fst ?n \<and> list_all2 jsonbEqual (map snd ?m) (map snd ?n)"
      using keys by (simp add: list_all2_conv_all_nth)
  next
    assume r: "map fst ?m = map fst ?n \<and> list_all2 jsonbEqual (map snd ?m) (map snd ?n)"
    then have l: "length ?m = length ?n" by (metis length_map)
    have "\<exists>y. (k, y) \<in> set ?n \<and> jsonbEqual x y" if kx: "(k, x) \<in> set ?m" for k x
    proof -
      obtain i where i: "i < length ?m" "?m ! i = (k, x)" using kx by (auto simp: in_set_conv_nth)
      have "fst (?n ! i) = k" using r i l by (metis fst_conv nth_map)
      moreover have "jsonbEqual x (snd (?n ! i))" using r i l by (metis length_map list_all2_nthD nth_map snd_conv)
      moreover have "?n ! i \<in> set ?n" using i l by simp
      ultimately show ?thesis by (metis prod.collapse)
    qed
    then show "jsonbEqual (AnyMap m) (AnyMap n)" using l len by (auto simp: equalMembers_iff look sortedMembers_props(1))
  qed
qed

text \<open>A comparison that orders a set: reflexive, antisymmetric with its errors, and transitive where it answers.\<close>

definition nonpos :: "interp_error + int \<Rightarrow> bool" where
  "nonpos r \<longleftrightarrow> (case r of Inl _ \<Rightarrow> False | Inr x \<Rightarrow> x \<le> 0)"

definition flipped :: "interp_error + int \<Rightarrow> interp_error + int" where
  "flipped r = (case r of Inl e \<Rightarrow> Inl e | Inr x \<Rightarrow> Inr (- x))"

definition then_by :: "interp_error + int \<Rightarrow> interp_error + int \<Rightarrow> interp_error + int" where
  "then_by r s = (case r of Inl e \<Rightarrow> Inl e | Inr c \<Rightarrow> if c \<noteq> 0 then Inr c else s)"

definition orders :: "('a \<Rightarrow> 'a \<Rightarrow> interp_error + int) \<Rightarrow> 'a set \<Rightarrow> bool" where
  "orders cmp A \<longleftrightarrow> (\<forall>a \<in> A. cmp a a = Inr 0) \<and> (\<forall>a \<in> A. \<forall>b \<in> A. cmp b a = flipped (cmp a b)) \<and>
     (\<forall>a \<in> A. \<forall>b \<in> A. \<forall>c \<in> A. nonpos (cmp a b) \<longrightarrow> nonpos (cmp b c) \<longrightarrow> nonpos (cmp a c))"

definition cmp_lin :: "'a :: linorder \<Rightarrow> 'a \<Rightarrow> int" where
  "cmp_lin a b = (if a < b then -1 else if b < a then 1 else 0)"

lemma result_simps [simp]:
  "nonpos (Inl e) = False" "nonpos (Inr x) = (x \<le> 0)" "flipped (Inl e) = Inl e" "flipped (Inr x) = Inr (- x)"
  "then_by (Inl e) s = Inl e" "then_by (Inr c) s = (if c \<noteq> 0 then Inr c else s)" "flipped r = Inr 0 \<longleftrightarrow> r = Inr 0"
  by (auto simp: nonpos_def flipped_def then_by_def split: sum.split)

lemma cmp_lin_simps [simp]: "cmp_lin a a = 0" "cmp_lin a b = 0 \<longleftrightarrow> a = b" "cmp_lin a b \<le> 0 \<longleftrightarrow> a \<le> b" "- cmp_lin a b = cmp_lin b a"
  by (auto simp: cmp_lin_def)

lemma orders_key: "orders (\<lambda>a b. Inr (cmp_lin (key a) (key b))) A"
  by (auto simp: orders_def)

lemma ordersD:
  assumes "orders cmp A"
  shows orders_refl: "a \<in> A \<Longrightarrow> cmp a a = Inr 0" and orders_flip: "a \<in> A \<Longrightarrow> b \<in> A \<Longrightarrow> cmp b a = flipped (cmp a b)"
    and orders_trans: "a \<in> A \<Longrightarrow> b \<in> A \<Longrightarrow> c \<in> A \<Longrightarrow> nonpos (cmp a b) \<Longrightarrow> nonpos (cmp b c) \<Longrightarrow> nonpos (cmp a c)"
  using assms unfolding orders_def by blast+

lemma flipped_then: "flipped (then_by r s) = then_by (flipped r) (flipped s)"
  by (cases r) auto

lemma orders_zero:
  assumes "orders cmp A" and "a \<in> A" "b \<in> A" and "nonpos (cmp a b)" "nonpos (cmp b a)"
  shows "cmp a b = Inr 0"
proof -
  have "cmp b a = flipped (cmp a b)" by (rule orders_flip [OF assms(1-3)])
  then show ?thesis using assms(4,5) by (cases "cmp a b") auto
qed

lemma then_trans:
  assumes ord: "orders cmp A" and A: "a \<in> A" "b \<in> A" "c \<in> A" and ab: "nonpos (then_by (cmp a b) r)" and bc: "nonpos (then_by (cmp b c) s)"
    and rest: "cmp a b = Inr 0 \<Longrightarrow> cmp b c = Inr 0 \<Longrightarrow> nonpos r \<Longrightarrow> nonpos s \<Longrightarrow> nonpos t"
  shows "nonpos (then_by (cmp a c) t)"
proof -
  have le: "nonpos (cmp a b)" "nonpos (cmp b c)" using ab bc by (cases "cmp a b"; cases "cmp b c"; auto split: if_splits)+
  then have ac: "nonpos (cmp a c)" using orders_trans [OF ord A] by blast
  have "nonpos t" if z: "cmp a c = Inr 0"
  proof -
    have ca: "nonpos (cmp c a)" using z orders_flip [OF ord A(1,3)] by simp
    have "nonpos (cmp b a)" using orders_trans [OF ord A(2,3,1) le(2) ca] .
    moreover have "nonpos (cmp c b)" using orders_trans [OF ord A(3,1,2) ca le(1)] .
    ultimately have "cmp a b = Inr 0" "cmp b c = Inr 0" using orders_zero [OF ord] A le by blast+
    then show ?thesis using rest ab bc by simp
  qed
  then show ?thesis using ac by (cases "cmp a c") auto
qed

lemma orders_then:
  assumes f: "orders f A" and refl: "\<And>a. a \<in> A \<Longrightarrow> g a a = Inr 0" and flip: "\<And>a b. a \<in> A \<Longrightarrow> b \<in> A \<Longrightarrow> f a b = Inr 0 \<Longrightarrow> g b a = flipped (g a b)"
    and trans: "\<And>a b c. a \<in> A \<Longrightarrow> b \<in> A \<Longrightarrow> c \<in> A \<Longrightarrow> f a b = Inr 0 \<Longrightarrow> f b c = Inr 0 \<Longrightarrow> nonpos (g a b) \<Longrightarrow> nonpos (g b c) \<Longrightarrow> nonpos (g a c)"
  shows "orders (\<lambda>a b. then_by (f a b) (g a b)) A"
  unfolding orders_def
proof (intro conjI ballI impI)
  fix a assume "a \<in> A" then show "then_by (f a a) (g a a) = Inr 0" using orders_refl [OF f] refl by simp
next
  fix a b assume ab: "a \<in> A" "b \<in> A"
  then have "f b a = flipped (f a b)" by (rule orders_flip [OF f])
  then show "then_by (f b a) (g b a) = flipped (then_by (f a b) (g a b))" using flip [OF ab] by (cases "f a b") auto
next
  fix a b c assume A: "a \<in> A" "b \<in> A" "c \<in> A" and le: "nonpos (then_by (f a b) (g a b))" "nonpos (then_by (f b c) (g b c))"
  show "nonpos (then_by (f a c) (g a c))" by (rule then_trans [OF f A le]) (rule trans [OF A])
qed

text \<open>Lists, element by element and then by length.\<close>

definition list_compare :: "any list \<Rightarrow> any list \<Rightarrow> interp_error + int" where
  "list_compare xs ys = compareElems (cmp_lin (length xs) (length ys)) xs ys"

lemma list_compare_simps [simp]:
  "list_compare [] ys = Inr (cmp_lin 0 (length ys))" "list_compare (x # xs) [] = Inr 1"
  "list_compare (x # xs) (y # ys) = then_by (Compare x y) (list_compare xs ys)"
proof -
  show "list_compare [] ys = Inr (cmp_lin 0 (length ys))" "list_compare (x # xs) [] = Inr 1" by (simp_all add: list_compare_def compareElems.simps cmp_lin_def)
  show "list_compare (x # xs) (y # ys) = then_by (Compare x y) (list_compare xs ys)"
    by (subst list_compare_def, subst compareElems.simps) (simp add: list_compare_def cmp_lin_def then_by_def split: sum.split)
qed

lemma list_compare_zero: "list_compare xs ys = Inr 0 \<longleftrightarrow> list_all2 (\<lambda>x y. Compare x y = Inr 0) xs ys"
proof (induction xs arbitrary: ys)
  case (Cons x xs)
  show ?case
  proof (cases ys)
    case (Cons y ys')
    then show ?thesis using Cons.IH by (cases "Compare x y") auto
  qed simp
qed auto

lemma orders_lists:
  assumes "orders Compare A"
  shows "orders list_compare (lists A)"
  unfolding orders_def
proof (intro conjI ballI impI)
  fix xs assume "xs \<in> lists A"
  then show "list_compare xs xs = Inr 0" using orders_refl [OF assms] by (induction xs) auto
next
  fix xs ys assume "xs \<in> lists A" "ys \<in> lists A"
  then show "list_compare ys xs = flipped (list_compare xs ys)"
  proof (induction xs arbitrary: ys)
    case Nil
    then show ?case by (cases ys) (auto simp: cmp_lin_def)
  next
    case (Cons x xs)
    show ?case
    proof (cases ys)
      case y: (Cons y ys')
      then have "Compare y x = flipped (Compare x y)" "list_compare ys' xs = flipped (list_compare xs ys')"
        using orders_flip [OF assms, of x y] Cons.IH [of ys'] Cons.prems Cons.hyps by auto
      then show ?thesis by (simp add: y flipped_then)
    qed (simp add: cmp_lin_def)
  qed
next
  fix xs ys zs assume "xs \<in> lists A" "ys \<in> lists A" "zs \<in> lists A" and "nonpos (list_compare xs ys)" "nonpos (list_compare ys zs)"
  then show "nonpos (list_compare xs zs)"
  proof (induction xs arbitrary: ys zs)
    case (Cons x xs)
    obtain y ys' where y: "ys = y # ys'" using Cons.prems(3) by (cases ys) auto
    obtain z zs' where z: "zs = z # zs'" using Cons.prems(4) y by (cases zs) auto
    have A: "x \<in> A" "y \<in> A" "z \<in> A" using Cons.hyps(1) Cons.prems(1,2) y z by auto
    have rest: "nonpos (list_compare xs ys') \<Longrightarrow> nonpos (list_compare ys' zs') \<Longrightarrow> nonpos (list_compare xs zs')"
      using Cons.IH [of ys' zs'] Cons.prems(1,2) y z by auto
    show ?case using then_trans [OF assms A, of "list_compare xs ys'" "list_compare ys' zs'" "list_compare xs zs'"] Cons.prems(3,4) rest y z by simp
  qed simp
qed

text \<open>Keys of maps of the same size.\<close>

definition key_compare :: "string list \<Rightarrow> string list \<Rightarrow> int" where
  "key_compare ks ls = (case firstKeyDiff ks ls of None \<Rightarrow> 0 | Some c \<Rightarrow> c)"

lemma key_compare_lin: "length ks = length ls \<Longrightarrow> key_compare ks ls = cmp_lin ks ls \<and> (firstKeyDiff ks ls = None \<longleftrightarrow> ks = ls)"
  by (induction ks ls rule: firstKeyDiff.induct) (auto simp: key_compare_def cmp_lin_def compareString_def)

lemma compareInt_lin: "compareInt (int a) (int b) = cmp_lin a b"
  by (simp add: compareInt_def cmp_lin_def)

lemma compareFloat_lin: "\<not> float_nan x \<Longrightarrow> \<not> float_nan y \<Longrightarrow> compareFloat x y = cmp_lin (float_order x) (float_order y)"
  by (simp add: compareFloat_def cmp_lin_def float_less_def)

lemma Compare_equal: "jsonbEqual a b \<Longrightarrow> Compare a b = Inr 0"
  by (simp add: Compare.simps)

text \<open>Without the test for equality the comparison is the same.\<close>

lemma Compare_rank: "typeRank a \<noteq> typeRank b \<Longrightarrow> Compare a b = Inr (cmp_lin (typeRank a) (typeRank b))"
  by (cases a; cases b; simp add: Compare.simps typeRank_def cmp_lin_def)

lemma Compare_scalars:
  "Compare AnyNil AnyNil = Inr 0"
  "\<not> float_nan x \<Longrightarrow> \<not> float_nan y \<Longrightarrow> Compare (AnyNum x) (AnyNum y) = Inr (cmp_lin (float_order x) (float_order y))"
  "Compare (AnyStr t) (AnyStr u) = (if t = u then Inr 0 else Inl ErrCollation)"
  "Compare (AnyBool p) (AnyBool q) = Inr (cmp_lin p q)"
  by (simp_all add: Compare.simps typeRank_def compareFloat_lin float_eq_def) (auto simp: cmp_lin_def)

lemma Compare_lists: "Compare (AnyList xs) (AnyList ys) = list_compare xs ys"
proof (cases "jsonbEqual (AnyList xs) (AnyList ys)")
  case True
  then have "list_all2 jsonbEqual xs ys" by (simp add: equalElems_iff)
  then have "list_compare xs ys = Inr 0" unfolding list_compare_zero by (rule list_all2_mono) (rule Compare_equal)
  then show ?thesis using Compare_equal [OF True] by simp
next
  case False
  then have "Compare (AnyList xs) (AnyList ys) = compareElems (cmp_lin (length xs) (length ys)) xs ys"
    by (subst Compare.simps) (simp only: if_False typeRank_def any.simps compareInt_lin any.distinct simp_thms)
  then show ?thesis by (simp add: list_compare_def)
qed

definition map_compare :: "(string \<times> any) list \<Rightarrow> (string \<times> any) list \<Rightarrow> interp_error + int" where
  "map_compare m n = then_by (Inr (cmp_lin (length m) (length n)))
     (then_by (Inr (cmp_lin (map fst (sortedMembers m)) (map fst (sortedMembers n)))) (list_compare (map snd (sortedMembers m)) (map snd (sortedMembers n))))"

lemma Compare_maps:
  assumes "distinct (map fst m)" and "distinct (map fst n)"
  shows "Compare (AnyMap m) (AnyMap n) = map_compare m n"
proof -
  let ?m = "sortedMembers m" and ?n = "sortedMembers n"
  have len: "length ?m = length m" "length ?n = length n" by (simp_all add: sortedMembers_def)
  show ?thesis
  proof (cases "jsonbEqual (AnyMap m) (AnyMap n)")
    case True
    then have "map fst ?m = map fst ?n" "list_all2 jsonbEqual (map snd ?m) (map snd ?n)" using equal_maps_iff [OF assms] by auto
    moreover from this(2) have "list_compare (map snd ?m) (map snd ?n) = Inr 0"
      unfolding list_compare_zero by (rule list_all2_mono) (rule Compare_equal)
    moreover have "length m = length n" using True by simp
    ultimately show ?thesis using Compare_equal [OF True] by (simp add: map_compare_def)
  next
    case False
    have keys: "length m = length n \<Longrightarrow> key_compare (map fst ?m) (map fst ?n) = cmp_lin (map fst ?m) (map fst ?n) \<and>
        (firstKeyDiff (map fst ?m) (map fst ?n) = None \<longleftrightarrow> map fst ?m = map fst ?n)"
      using key_compare_lin [of "map fst ?m" "map fst ?n"] len by simp
    have "Compare (AnyMap m) (AnyMap n) =
        (if length m \<noteq> length n then Inr (cmp_lin (length m) (length n))
         else case firstKeyDiff (map fst ?m) (map fst ?n) of Some c \<Rightarrow> Inr c | None \<Rightarrow> compareElems 0 (map snd ?m) (map snd ?n))"
      using False by (subst Compare.simps) (simp add: typeRank_def compareInt_lin)
    then show ?thesis using keys len
      by (cases "length m = length n"; cases "firstKeyDiff (map fst ?m) (map fst ?n)") (auto simp: map_compare_def key_compare_def list_compare_def)
  qed
qed

lemma Compare_by_rank:
  "Compare a b = then_by (Inr (cmp_lin (typeRank a) (typeRank b))) (Compare a b)"
  using Compare_rank [of a b] by simp

lemma orders_maps:
  assumes "orders list_compare {xs. list_all P xs}"
  shows "orders map_compare {m. list_all (P \<circ> snd) m}"
proof -
  let ?keys = "\<lambda>m. map fst (sortedMembers m)" and ?vals = "\<lambda>m. map snd (sortedMembers m)" and ?A = "{m. list_all (P \<circ> snd) m}"
  have in_vals: "?vals m \<in> {xs. list_all P xs}" if "m \<in> ?A" for m using that by (auto simp: list_all_iff sortedMembers_props(1))
  have inner: "orders (\<lambda>m n. then_by (Inr (cmp_lin (?keys m) (?keys n))) (list_compare (?vals m) (?vals n))) ?A"
    by (rule orders_then [OF orders_key])
      (use orders_refl [OF assms in_vals] orders_flip [OF assms in_vals in_vals] orders_trans [OF assms in_vals in_vals in_vals] in blast)+
  show ?thesis unfolding map_compare_def [abs_def]
    by (rule orders_then [OF orders_key]) (use orders_refl [OF inner] orders_flip [OF inner] orders_trans [OF inner] in blast)+
qed

lemma orders_same_rank:
  assumes IH: "orders Compare {a. value_ok a \<and> size a < n}" and A: "A = {a. value_ok a \<and> size a < Suc n}"
  shows "a \<in> A \<Longrightarrow> Compare a a = Inr 0"
    and "a \<in> A \<Longrightarrow> b \<in> A \<Longrightarrow> typeRank a = typeRank b \<Longrightarrow> Compare b a = flipped (Compare a b)"
    and "a \<in> A \<Longrightarrow> b \<in> A \<Longrightarrow> c \<in> A \<Longrightarrow> typeRank a = typeRank b \<Longrightarrow> typeRank b = typeRank c \<Longrightarrow>
      nonpos (Compare a b) \<Longrightarrow> nonpos (Compare b c) \<Longrightarrow> nonpos (Compare a c)"
proof -
  let ?P = "\<lambda>a. value_ok a \<and> size a < n"
  have "lists {a. ?P a} = {xs. list_all ?P xs}" by (auto simp: list_all_iff)
  then have L: "orders list_compare {xs. list_all ?P xs}" using orders_lists [OF IH] by simp
  note M = orders_maps [OF L]
  have xs: "list_all ?P xs" if "AnyList xs \<in> A" for xs
    using that size_list_estimation' [of _ xs _ size] by (fastforce simp: A list_all_iff)
  have ms: "list_all (?P \<circ> snd) m" "distinct (map fst m)" if "AnyMap m \<in> A" for m
    using that size_list_estimation' [of _ m _ "size_prod (\<lambda>x. 0) size"] by (fastforce simp: A list_all_iff)+
  show "a \<in> A \<Longrightarrow> Compare a a = Inr 0"
    using orders_refl [OF L] orders_refl [OF M] xs ms by (cases a) (auto simp: A Compare_scalars Compare_lists Compare_maps)
  show "Compare b a = flipped (Compare a b)" if ab: "a \<in> A" "b \<in> A" "typeRank a = typeRank b"
  proof (cases a)
    case (AnyList xs)
    then obtain ys where "b = AnyList ys" using ab(3) by (cases b) (auto simp: typeRank_def)
    then show ?thesis using orders_flip [OF L, of xs ys] xs ab AnyList by (simp add: Compare_lists)
  next
    case (AnyMap m)
    then obtain n where "b = AnyMap n" using ab(3) by (cases b) (auto simp: typeRank_def)
    then show ?thesis using orders_flip [OF M, of m n] ms ab AnyMap by (simp add: Compare_maps)
  qed (use ab in \<open>(cases b; auto simp: A typeRank_def Compare_scalars)+\<close>)
  show "nonpos (Compare a c)" if abc: "a \<in> A" "b \<in> A" "c \<in> A" "typeRank a = typeRank b" "typeRank b = typeRank c" "nonpos (Compare a b)" "nonpos (Compare b c)"
  proof (cases a)
    case (AnyList xs)
    then obtain ys zs where "b = AnyList ys" "c = AnyList zs" using abc(4,5) by (cases b; cases c) (auto simp: typeRank_def)
    then show ?thesis using orders_trans [OF L, of xs ys zs] xs abc AnyList by (simp add: Compare_lists)
  next
    case (AnyMap m)
    then obtain n k where "b = AnyMap n" "c = AnyMap k" using abc(4,5) by (cases b; cases c) (auto simp: typeRank_def)
    then show ?thesis using orders_trans [OF M, of m n k] ms abc AnyMap by (simp add: Compare_maps)
  qed (use abc in \<open>(cases b; cases c; auto simp: A typeRank_def Compare_scalars split: if_splits)+\<close>)
qed

lemma orders_Compare: "orders Compare {a. value_ok a}"
proof -
  have "orders Compare {a. value_ok a \<and> size a < n}" for n
  proof (induction n)
    case 0
    show ?case by (simp add: orders_def)
  next
    case (Suc n)
    have "orders (\<lambda>a b. then_by (Inr (cmp_lin (typeRank a) (typeRank b))) (Compare a b)) {a. value_ok a \<and> size a < Suc n}"
    proof (rule orders_then [OF orders_key])
      fix a b c :: any assume A: "a \<in> {a. value_ok a \<and> size a < Suc n}" "b \<in> {a. value_ok a \<and> size a < Suc n}" "c \<in> {a. value_ok a \<and> size a < Suc n}"
        and "(Inr (cmp_lin (typeRank a) (typeRank b)) :: interp_error + int) = Inr 0" "(Inr (cmp_lin (typeRank b) (typeRank c)) :: interp_error + int) = Inr 0"
      then have "typeRank a = typeRank b" "typeRank b = typeRank c" by simp_all
      then show "nonpos (Compare a b) \<Longrightarrow> nonpos (Compare b c) \<Longrightarrow> nonpos (Compare a c)" by (rule orders_same_rank(3) [OF Suc refl A])
    next
      fix a :: any assume "a \<in> {a. value_ok a \<and> size a < Suc n}"
      then show "Compare a a = Inr 0" by (rule orders_same_rank(1) [OF Suc refl])
    next
      fix a b :: any assume A: "a \<in> {a. value_ok a \<and> size a < Suc n}" "b \<in> {a. value_ok a \<and> size a < Suc n}"
        and "(Inr (cmp_lin (typeRank a) (typeRank b)) :: interp_error + int) = Inr 0"
      then have "typeRank a = typeRank b" by simp
      then show "Compare b a = flipped (Compare a b)" by (rule orders_same_rank(2) [OF Suc refl A])
    qed
    then show ?case unfolding Compare_by_rank [symmetric] .
  qed
  note o = this
  show ?thesis
    unfolding orders_def
  proof (intro conjI ballI impI)
    fix a :: any assume "a \<in> {a. value_ok a}"
    then show "Compare a a = Inr 0" using orders_refl [OF o [of "Suc (size a)"]] by simp
  next
    fix a b :: any assume "a \<in> {a. value_ok a}" "b \<in> {a. value_ok a}"
    then show "Compare b a = flipped (Compare a b)" using orders_flip [OF o [of "Suc (size a + size b)"], of a b] by simp
  next
    fix a b c :: any assume "a \<in> {a. value_ok a}" "b \<in> {a. value_ok a}" "c \<in> {a. value_ok a}" "nonpos (Compare a b)" "nonpos (Compare b c)"
    then show "nonpos (Compare a c)" using orders_trans [OF o [of "Suc (size a + size b + size c)"], of a b c] by simp
  qed
qed

lemma Compare_zero: "value_ok a \<Longrightarrow> value_ok b \<Longrightarrow> Compare a b = Inr 0 \<Longrightarrow> jsonbEqual a b"
proof (induction "size a" arbitrary: a b rule: less_induct)
  case less
  have rank: "typeRank a = typeRank b" using less.prems(3) Compare_rank [of a b] by (cases "typeRank a = typeRank b") simp_all
  have elems: "list_all2 jsonbEqual xs ys"
    if "list_all2 (\<lambda>x y. Compare x y = Inr 0) xs ys" "\<And>x. x \<in> set xs \<Longrightarrow> size x < size a \<and> value_ok x" "\<And>y. y \<in> set ys \<Longrightarrow> value_ok y" for xs ys
    using that less.hyps by (fastforce simp: list_all2_conv_all_nth)
  show ?case
  proof (cases a)
    case (AnyList xs)
    then obtain ys where b: "b = AnyList ys" using rank by (cases b) (auto simp: typeRank_def)
    have "size x < size a" if "x \<in> set xs" for x using that AnyList size_list_estimation' [of x xs "size x" size] by simp
    then have "list_all2 jsonbEqual xs ys"
      using less.prems AnyList b by (intro elems) (auto simp: Compare_lists list_compare_zero list_all_iff)
    then show ?thesis using AnyList b by (simp add: equalElems_iff)
  next
    case (AnyMap m)
    then obtain n where b: "b = AnyMap n" using rank by (cases b) (auto simp: typeRank_def)
    have sz: "size x < size a" if "(k, x) \<in> set m" for k x
      using that AnyMap size_list_estimation' [of "(k, x)" m "size x" "size_prod (\<lambda>x. 0) size"] by simp
    have mc: "map_compare m n = Inr 0" using less.prems AnyMap b by (simp add: Compare_maps)
    have "list_all2 jsonbEqual (map snd (sortedMembers m)) (map snd (sortedMembers n))"
      using less.prems AnyMap b sz mc by (intro elems) (auto simp: map_compare_def list_compare_zero list_all_iff sortedMembers_props(1) split: if_splits)
    moreover have "map fst (sortedMembers m) = map fst (sortedMembers n)" using mc by (simp add: map_compare_def split: if_splits)
    ultimately have "jsonbEqual (AnyMap m) (AnyMap n)" using equal_maps_iff [of m n] less.prems AnyMap b by simp
    then show ?thesis using AnyMap b by simp
  qed (use less.prems rank in \<open>(cases b; simp add: typeRank_def Compare_scalars float_eq_def split: if_splits)+\<close>)
qed

text \<open>
  C23. The order of results is a total preorder that agrees with equality. On values that decoding can give,
  two compare as equal exactly when they are jsonb-equal; swapping the operands negates the answer and keeps
  an error; and where the order answers that \<open>a\<close> is not after \<open>b\<close> and \<open>b\<close> not after \<open>c\<close>, it answers that \<open>a\<close> is not
  after \<open>c\<close>, so a sort never meets a collation error its comparisons have not already shown.
\<close>

theorem compare_total_preorder:
  assumes "value_ok a" and "value_ok b" and "value_ok c"
  shows "(Compare a b = Inr 0 \<longleftrightarrow> jsonbEqual a b) \<and> Compare b a = flipped (Compare a b) \<and>
    (nonpos (Compare a b) \<longrightarrow> nonpos (Compare b c) \<longrightarrow> nonpos (Compare a c))"
  using Compare_zero [OF assms(1,2)] Compare_equal [of a b] orders_flip [OF orders_Compare, of a b] orders_trans [OF orders_Compare, of a b c] assms by auto

theorem compare_total_preorder_witness:
  "nonpos (Compare (AnyList [AnyBool False, AnyStr ''x'']) (AnyList [AnyBool True])) \<and>
   Compare (AnyList [AnyBool True]) (AnyList [AnyBool False, AnyStr ''x'']) = Inr 1 \<and>
   Compare (AnyMap [(''a'', AnyNil)]) (AnyList [AnyBool False, AnyStr ''x'']) = Inr (-1) \<and>
   nonpos (Compare (AnyMap [(''a'', AnyNil)]) (AnyList [AnyBool True]))"
proof -
  let ?a = "AnyMap [(''a'', AnyNil)]" and ?b = "AnyList [AnyBool False, AnyStr ''x'']" and ?c = "AnyList [AnyBool True]"
  have bc: "Compare ?b ?c = Inr (-1)" by (simp add: Compare_lists Compare_scalars cmp_lin_def)
  have ab: "Compare ?a ?b = Inr (-1)" by (simp add: Compare.simps typeRank_def)
  show ?thesis using compare_total_preorder [of ?a ?b ?c] compare_total_preorder [of ?b ?c ?c] ab bc by simp
qed

text \<open>
  \<open>IN\<close> of a null value. The rules written at \<open>In\<close> give NULL for a null left-hand side and a list that is not empty,
  whatever its elements; over a list of mixed or boolean elements the code answers FALSE, or TRUE if the list
  holds a null.
\<close>

theorem in_null_mixed_list:
  assumes "listElementKinds els = (False, False)"
  shows "evalIn pf ff (Some AnyNil) els = Inr (boolToTri (AnyNil \<in> set els))"
  using assms by (auto simp: evalIn_def boolToTri_def list_ex_iff listElementKinds_def)

theorem in_null_mixed_list_witness:
  "evalIn (\<lambda>_. None) (\<lambda>_. []) (Some AnyNil) [AnyBool True] = Inr TriFalse"
  using in_null_mixed_list [of "[AnyBool True]"] by (simp add: listElementKinds_def boolToTri_def)

end
