(* ===== verification/ValueIndex.thy ===== *)
theory ValueIndex
  imports StringIndex Values
begin

text \<open>
  The exact-match index of a property, \<open>internal/engine/snapshot/valueindex.go\<close>: postings of the nodes that carry each scalar and of those whose list holds each element,
  keyed by \<open>valueKey\<close>. Memos over the immutable store are left out.
\<close>

section \<open>Postings of the base\<close>

definition entryKey :: "PropStore \<Rightarrow> propEntry \<Rightarrow> (string option) option" where
  "entryKey p e =
     (case e_kind e of
        propKindNull \<Rightarrow> Some (Some ''z'')
      | propKindFalse \<Rightarrow> Some (Some ''b0'')
      | propKindTrue \<Rightarrow> Some (Some ''b1'')
      | propKindNumber \<Rightarrow> Some (Some (numberKey (e_num e)))
      | propKindNumberNonCanonical \<Rightarrow> Some (Some (numberKey (e_num e)))
      | propKindString \<Rightarrow> map_option (\<lambda>s. Some (CHR ''s'' # s)) (stringAt (propArena (ps_table p)) (e_ref e) (e_len e))
      | _ \<Rightarrow> Some None)"

definition arrayText :: "PropStore \<Rightarrow> propEntry \<Rightarrow> string option" where
  "arrayText p e = slice (propArena (ps_table p)) (e_ref e) (u32 (e_ref e + e_len e))"

text \<open>The keys of a list, each pushed where no earlier element has it.\<close>

fun pushElements :: "nodeid \<Rightarrow> string list \<Rightarrow> string list \<Rightarrow> string postings \<Rightarrow> string postings" where
  "pushElements n earlier [] m = m"
| "pushElements n earlier (key # keys) m = pushElements n (earlier @ [key]) keys (if key \<in> set earlier then m else pushNode key n m)"

definition indexValue :: "(string \<Rightarrow> 64 word option) \<Rightarrow> Snapshot \<Rightarrow> nat \<Rightarrow> nat \<Rightarrow> string postings \<times> string postings \<Rightarrow> (string postings \<times> string postings) option" where
  "indexValue pf s p i = (\<lambda>(scalar, element). do {
     e \<leftarrow> storedEntry (sProps s) i p;
     case e of None \<Rightarrow> Some (scalar, element)
     | Some e \<Rightarrow>
         if e_kind e = propKindArray then do {
           raw \<leftarrow> arrayText (sProps s) e;
           Some (scalar, pushElements (u32 i) [] (arrayElementKeys pf [] raw) element) }
         else do {
           k \<leftarrow> entryKey (sProps s) e;
           Some (case k of None \<Rightarrow> (scalar, element) | Some key \<Rightarrow> (pushNode key (u32 i) scalar, element)) } })"

definition valueIndexFor :: "(string \<Rightarrow> 64 word option) \<Rightarrow> Snapshot \<Rightarrow> nat \<Rightarrow> ((string postings \<times> string postings) option) option" where
  "valueIndexFor pf s p =
     (if p \<ge> length (propNames (ps_table (sProps s))) then Some None
      else map_option Some (foldM (indexValue pf s p) [0..<NodeCount s] ([], [])))"

section \<open>Lookups\<close>

definition basePostings :: "(string \<Rightarrow> 64 word option) \<Rightarrow> View \<Rightarrow> nat \<Rightarrow> string \<Rightarrow> bool \<Rightarrow> ((nodeid list) option) option" where
  "basePostings pf v p key element =
     map_option (map_option (\<lambda>(scalar, elements). posted (if element then elements else scalar) key)) (valueIndexFor pf (v_base v) p)"

text \<open>The lookup of a key, and of the value that has it.\<close>

definition keyPostings :: "(string \<Rightarrow> 64 word option) \<Rightarrow> View \<Rightarrow> string \<Rightarrow> string \<Rightarrow> bool \<Rightarrow> ((nodeid list) option) option" where
  "keyPostings pf v name key element =
     (case PropIDByName v name of
        None \<Rightarrow>
          if \<not> Overlay v then Some (Some [])
          else do { d \<leftarrow> deltaPropFor pf v name; Some (Some (unionDeltaTouched [] (deltaExact d key element))) }
      | Some p \<Rightarrow> do {
          got \<leftarrow> basePostings pf v p key element;
          case got of None \<Rightarrow> Some None
          | Some base \<Rightarrow>
              if \<not> Overlay v then Some (Some base)
              else do { d \<leftarrow> deltaPropFor pf v name; Some (Some (unionDeltaTouched base (deltaExact d key element))) } })"

definition valuePostings :: "(string \<Rightarrow> 64 word option) \<Rightarrow> View \<Rightarrow> string \<Rightarrow> any \<Rightarrow> bool \<Rightarrow> ((nodeid list) option) option" where
  "valuePostings pf v name val element = (case valueKey val of None \<Rightarrow> Some None | Some key \<Rightarrow> keyPostings pf v name key element)"

definition NodesWithValueByName :: "(string \<Rightarrow> 64 word option) \<Rightarrow> View \<Rightarrow> string \<Rightarrow> any \<Rightarrow> ((nodeid list) option) option" where
  "NodesWithValueByName pf v name val = valuePostings pf v name val False"

definition NodesWithArrayElementByName :: "(string \<Rightarrow> 64 word option) \<Rightarrow> View \<Rightarrow> string \<Rightarrow> any \<Rightarrow> ((nodeid list) option) option" where
  "NodesWithArrayElementByName pf v name val = valuePostings pf v name val True"

definition ValuePostingCount :: "(string \<Rightarrow> 64 word option) \<Rightarrow> View \<Rightarrow> string \<Rightarrow> any \<Rightarrow> bool \<Rightarrow> (nat option) option" where
  "ValuePostingCount pf v name val element =
     (case valueKey val of None \<Rightarrow> Some None
      | Some key \<Rightarrow> do {
          n \<leftarrow> (case PropIDByName v name of None \<Rightarrow> Some (Some 0) | Some p \<Rightarrow> map_option (map_option length) (basePostings pf v p key element));
          case n of None \<Rightarrow> Some None
          | Some n \<Rightarrow> if Overlay v then do { d \<leftarrow> deltaPropFor pf v name; Some (Some (n + length (deltaExact d key element))) } else Some (Some n) })"

definition ValuePopulation :: "(string \<Rightarrow> 64 word option) \<Rightarrow> View \<Rightarrow> string \<Rightarrow> (nat option) option" where
  "ValuePopulation pf v name =
     (case PropIDByName v name of None \<Rightarrow> Some None
      | Some p \<Rightarrow> do {
          ix \<leftarrow> valueIndexFor pf (v_base v) p;
          case ix of None \<Rightarrow> Some None
          | Some (scalar, element) \<Rightarrow>
              let total = sum_list (map (length \<circ> snd) scalar) + sum_list (map (length \<circ> snd) element) in
              if Overlay v then do { d \<leftarrow> deltaPropFor pf v name; Some (Some (total + deltaCount d)) } else Some (Some total) })"

section \<open>What the postings hold\<close>

lemma posted_pushElements: "posted (pushElements n earlier keys m) k = posted m k @ (if k \<in> set keys \<and> k \<notin> set earlier then [n] else [])"
  by (induction keys arbitrary: earlier m) auto

definition postings_ok :: "string postings \<Rightarrow> bool" where
  "postings_ok m \<longleftrightarrow> distinct (map fst m) \<and> (\<forall>(k, ids) \<in> set m. ids \<noteq> [])"

lemma posted_in: "postings_ok m \<Longrightarrow> (k, ids) \<in> set m \<Longrightarrow> ids = posted m k \<and> ids \<noteq> []"
  by (auto simp: postings_ok_def posted_def)

lemma posted_nonempty: "n \<in> set (posted m k) \<Longrightarrow> (k, posted m k) \<in> set m"
  by (auto simp: posted_def split: option.splits dest: map_of_SomeD)

lemma in_update: "(k, x) \<in> set (AList.update key y m) \<Longrightarrow> (k, x) = (key, y) \<or> (k, x) \<in> set m"
  by (induction m) (auto split: if_splits)

lemma keys_pushNode: "postings_ok m \<Longrightarrow> postings_ok (pushNode key n m)"
proof -
  assume ok: "postings_ok m"
  have "ids \<noteq> []" if "(k, ids) \<in> set (AList.update key (posted m key @ [n]) m)" for k ids
    using ok in_update [OF that] by (auto simp: postings_ok_def)
  then show ?thesis using ok by (auto simp: postings_ok_def pushNode_def distinct_update)
qed

text \<open>Every list the base stores for the property decodes, and its text is valid UTF-8.\<close>

definition lists_readable :: "(string \<Rightarrow> 64 word option) \<Rightarrow> View \<Rightarrow> string \<Rightarrow> bool" where
  "lists_readable pf v name \<longleftrightarrow> float_syntax pf \<and>
     (\<forall>n t. n < NodeCount (v_base v) \<longrightarrow> base_raw v name n = Some (VArray t) \<longrightarrow> utf8_valid t \<and> UnmarshalList pf t \<noteq> None)"

lemma stored_entry_cases:
  assumes v: "view_wf v" and p: "PropIDByName v name = Some p" and n: "n < NodeCount (v_base v)"
  obtains (none) "storedEntry (sProps (v_base v)) n p = Some None" "base_raw v name n = None"
  | (list) e t where "storedEntry (sProps (v_base v)) n p = Some (Some e)" "e_kind e = propKindArray"
      "arrayText (sProps (v_base v)) e = Some t" "base_raw v name n = Some (VArray t)"
  | (other) e where "storedEntry (sProps (v_base v)) n p = Some (Some e)" "e_kind e \<noteq> propKindArray"
      "entryKey (sProps (v_base v)) e = Some (Option.bind (base_value pf v name n) scalar_key)"
      "\<And>a. base_value pf v name n = Some a \<Longrightarrow> element_keys a = []"
proof -
  obtain es where row: "row (ps_nodeOffsets (sProps (v_base v))) n (ps_entries (sProps (v_base v))) = Some es"
    and val: "base_raw v name n = Option.bind (entryByID es p) (decode (propArena (ps_table (sProps (v_base v)))))"
    and wf: "\<And>e. entryByID es p = Some e \<Longrightarrow> entry_wf (ps_table (sProps (v_base v))) e" and t: "table_wf (ps_table (sProps (v_base v)))"
    by (rule stored_value [OF v p n]) blast
  show ?thesis
  proof (cases "entryByID es p")
    case None
    then show ?thesis using none row val by (simp add: storedEntry_def)
  next
    case (Some e)
    have se: "storedEntry (sProps (v_base v)) n p = Some (Some e)" using row Some by (simp add: storedEntry_def)
    show ?thesis
    proof (cases "e_kind e = propKindArray")
      case True
      then show ?thesis using list [OF se True] val Some entry_slice [OF t wf [OF Some]]
        by (simp add: decode_def arrayText_def has_payload_def)
    next
      case False
      then show ?thesis using wf [OF Some] val Some
        by (intro other [OF se False]; cases "e_kind e")
          (auto simp: entryKey_def base_value_def decode_def decodeAny_def entry_wf_def has_payload_def scalar_key_def element_keys_def
            split: option.splits any.splits Option.bind_splits)
    qed
  qed
qed

definition has_scalar :: "(string \<Rightarrow> 64 word option) \<Rightarrow> View \<Rightarrow> string \<Rightarrow> string \<Rightarrow> nodeid \<Rightarrow> bool" where
  "has_scalar pf v name k n \<longleftrightarrow> (\<exists>a. base_value pf v name n = Some a \<and> scalar_key a = Some k)"

definition has_element :: "(string \<Rightarrow> 64 word option) \<Rightarrow> View \<Rightarrow> string \<Rightarrow> string \<Rightarrow> nodeid \<Rightarrow> bool" where
  "has_element pf v name k n \<longleftrightarrow> (\<exists>a. base_value pf v name n = Some a \<and> k \<in> set (element_keys a))"

lemma indexValue_ok:
  assumes v: "view_wf v" and p: "PropIDByName v name = Some p" and n: "n < NodeCount (v_base v)" and rd: "lists_readable pf v name"
  obtains S' E' where "indexValue pf (v_base v) p n (S, E) = Some (S', E')" "postings_ok S \<Longrightarrow> postings_ok S'"
    "\<And>k. posted S' k = posted S k @ (if has_scalar pf v name k n then [n] else [])"
    "\<And>k. posted E' k = posted E k @ (if has_element pf v name k n then [n] else [])"
proof -
  have un: "u32 n = n" by (rule u32_id) (use base_facts(2) [OF v] n in simp)
  show thesis
  proof (rule stored_entry_cases [OF v p n, where pf = pf])
    assume "storedEntry (sProps (v_base v)) n p = Some None" "base_raw v name n = None"
    then show thesis by (intro that [of S E]) (simp_all add: indexValue_def has_scalar_def has_element_def base_value_def)
  next
    fix e t assume e: "storedEntry (sProps (v_base v)) n p = Some (Some e)" "e_kind e = propKindArray" "arrayText (sProps (v_base v)) e = Some t"
      "base_raw v name n = Some (VArray t)"
    obtain vs where vs: "UnmarshalList pf t = Some vs" and utf8: "utf8_valid t" and fl: "float_syntax pf"
      using rd n e(4) by (auto simp: lists_readable_def)
    have keys: "arrayElementKeys pf [] t = List.map_filter valueKey vs" using arrayElementKeys_agree [OF fl utf8 vs, of "[]"] by simp
    have val: "base_value pf v name n = Some (AnyList vs)" using e(4) vs by (simp add: base_value_def decodeAny_def)
    show thesis
      by (rule that [of S "pushElements n [] (arrayElementKeys pf [] t) E"])
        (use e un in \<open>simp_all add: indexValue_def has_scalar_def has_element_def val scalar_key_def element_keys_def posted_pushElements keys\<close>)
  next
    fix e assume e: "storedEntry (sProps (v_base v)) n p = Some (Some e)" "e_kind e \<noteq> propKindArray"
      "entryKey (sProps (v_base v)) e = Some (Option.bind (base_value pf v name n) scalar_key)" "\<And>a. base_value pf v name n = Some a \<Longrightarrow> element_keys a = []"
    show thesis
    proof (cases "Option.bind (base_value pf v name n) scalar_key")
      case None
      then show ?thesis by (intro that [of S E]) (use e in \<open>auto simp: indexValue_def has_scalar_def has_element_def\<close>)
    next
      case (Some key)
      then show ?thesis by (intro that [of "pushNode key n S" E])
          (use e un in \<open>auto simp: indexValue_def has_scalar_def has_element_def keys_pushNode bind_eq_Some_conv\<close>)
    qed
  qed
qed

lemma indexValues_ok:
  assumes v: "view_wf v" and p: "PropIDByName v name = Some p" and rd: "lists_readable pf v name" and ns: "set ns \<subseteq> {0..<NodeCount (v_base v)}"
  shows "\<exists>S' E'. foldM (indexValue pf (v_base v) p) ns (S, E) = Some (S', E') \<and> (postings_ok S \<longrightarrow> postings_ok S') \<and>
    (\<forall>k. posted S' k = posted S k @ filter (has_scalar pf v name k) ns) \<and> (\<forall>k. posted E' k = posted E k @ filter (has_element pf v name k) ns)"
  using ns
proof (induction ns arbitrary: S E)
  case (Cons n ns)
  have n: "n < NodeCount (v_base v)" using Cons.prems by simp
  obtain S1 E1 where one: "indexValue pf (v_base v) p n (S, E) = Some (S1, E1)" "postings_ok S \<Longrightarrow> postings_ok S1"
    "\<And>k. posted S1 k = posted S k @ (if has_scalar pf v name k n then [n] else [])"
    "\<And>k. posted E1 k = posted E k @ (if has_element pf v name k n then [n] else [])"
    using indexValue_ok [OF v p n rd] by blast
  obtain S2 E2 where "foldM (indexValue pf (v_base v) p) ns (S1, E1) = Some (S2, E2)" "postings_ok S1 \<longrightarrow> postings_ok S2"
    "\<forall>k. posted S2 k = posted S1 k @ filter (has_scalar pf v name k) ns" "\<forall>k. posted E2 k = posted E1 k @ filter (has_element pf v name k) ns"
    using Cons.IH [of S1 E1] Cons.prems by auto
  then show ?case using one by (intro exI [of _ S2] exI [of _ E2]) auto
qed simp

lemma valueIndexFor_ok:
  assumes v: "view_wf v" and p: "PropIDByName v name = Some p" and rd: "lists_readable pf v name"
  shows "\<exists>S E. valueIndexFor pf (v_base v) p = Some (Some (S, E)) \<and> postings_ok S \<and>
    (\<forall>k. posted S k = filter (has_scalar pf v name k) [0..<NodeCount (v_base v)]) \<and> (\<forall>k. posted E k = filter (has_element pf v name k) [0..<NodeCount (v_base v)])"
proof -
  have "p < length (propNames (ps_table (sProps (v_base v))))"
    using v p by (auto simp: PropIDByName_def ps_IDByName_def view_wf_def snap_ok_def snap_wf_def store_rep_def table_wf_def)
  then show ?thesis using indexValues_ok [OF v p rd, of "[0..<NodeCount (v_base v)]" "[]" "[]"]
    by (auto simp: valueIndexFor_def posted_def [of "[]"] postings_ok_def [of "[]"])
qed

section \<open>Exact matches\<close>

definition wants_key :: "string \<times> bool \<Rightarrow> any \<Rightarrow> bool" where
  "wants_key = (\<lambda>(key, element) a. if element then key \<in> set (element_keys a) else scalar_key a = Some key)"

interpretation exact_values: candidate_source
  "\<lambda>pf v name (key, element). keyPostings pf v name key element"
  "\<lambda>pf v p (key, element). basePostings pf v p key element"
  "\<lambda>d (key, element). deltaExact d key element"
  wants_key lists_readable
proof (unfold_locales, goal_cases)
  case (1 pf v name q)
  then show ?case by (simp add: keyPostings_def split: prod.split option.split)
next
  case (2 v pf name p q)
  obtain S E where ix: "valueIndexFor pf (v_base v) p = Some (Some (S, E))" "postings_ok S"
    "\<forall>k. posted S k = filter (has_scalar pf v name k) [0..<NodeCount (v_base v)]" "\<forall>k. posted E k = filter (has_element pf v name k) [0..<NodeCount (v_base v)]"
    using valueIndexFor_ok [OF 2(1,3,2)] by blast
  have "wanted_in wants_key q (base_value pf v name n) \<longleftrightarrow> (if snd q then has_element pf v name (fst q) n else has_scalar pf v name (fst q) n)" for n
    by (simp add: wanted_in_iff wants_key_def case_prod_beta has_scalar_def has_element_def)
  then show ?case using ix by (cases "snd q") (simp_all add: basePostings_def case_prod_beta)
next
  case (3 recs q)
  show ?case using deltaOf_postings [of recs "fst q"]
    by (auto simp: deltaExact_def case_prod_beta wants_key_def lists_set_def strict_sorted_iff)
qed

text \<open>Values with one key are equal, a NaN apart.\<close>

lemma float_magnitude_eq: "float_magnitude x = (if uint x \<ge> 2 ^ 63 then uint x - 2 ^ 63 else uint x)"
proof -
  have "uint x < 2 ^ 64" using uint_lt2p [of x] by simp
  then show ?thesis using mod_pos_pos_trivial [of "uint x - 2 ^ 63" "2 ^ 63"] minus_mod_self2 [of "uint x" "2 ^ 63 :: int"]
    by (auto simp: float_magnitude_def mod_pos_pos_trivial)
qed

lemma float_zero_order: "float_zero x \<longleftrightarrow> float_order x = 0"
proof -
  have "x = 0 \<longleftrightarrow> uint x = 0" "x = 2 ^ 63 \<longleftrightarrow> uint x = 2 ^ 63" by (simp_all add: word_uint_eq_iff)
  then show ?thesis by (auto simp: float_zero_def float_order_def float_magnitude_eq)
qed

lemma float_order_inj: "float_order x = float_order y \<Longrightarrow> float_order x \<noteq> 0 \<Longrightarrow> x = y"
proof -
  have inj: "a = b" if "0 \<le> a" "0 \<le> b" "(if 2 ^ 63 \<le> a then - (a - 2 ^ 63) else a) = (if 2 ^ 63 \<le> b then - (b - 2 ^ 63) else b)"
    "(if 2 ^ 63 \<le> a then - (a - 2 ^ 63) else a) \<noteq> 0" for a b :: int
    using that by (auto split: if_splits)
  assume "float_order x = float_order y" "float_order x \<noteq> 0"
  then have "uint x = uint y" unfolding float_order_def float_magnitude_eq by - (rule inj [OF uint_ge_0 uint_ge_0]; simp split: if_splits)
  then show "x = y" by (simp add: word_uint_eq_iff)
qed

lemma numberKey_eq: "numberKey x = numberKey y \<longleftrightarrow> float_order x = float_order y"
proof -
  have "numberKey x = numberKey y \<longleftrightarrow> unat (if float_zero x then 0 else x) = unat (if float_zero y then 0 else y)"
    using FormatUint_inj [of 16] by (simp add: numberKey_def)
  also have "\<dots> \<longleftrightarrow> (if float_zero x then 0 else x) = (if float_zero y then 0 else y)" by (rule word_unat_eq_iff [symmetric])
  also have "\<dots> \<longleftrightarrow> float_order x = float_order y"
    using float_order_inj [of x y] float_zero_order [of x] float_zero_order [of y] by (auto simp: float_zero_def)
  finally show ?thesis .
qed

lemma numberKey_apart [simp]:
  "numberKey x \<noteq> ''z''" "numberKey x \<noteq> ''b1''" "numberKey x \<noteq> ''b0''" "numberKey x \<noteq> CHR ''s'' # s" "CHR ''s'' # s \<noteq> numberKey x"
  "''z'' \<noteq> numberKey x" "''b1'' \<noteq> numberKey x" "''b0'' \<noteq> numberKey x"
  by (simp_all add: numberKey_def)

lemma valueKey_equal:
  assumes "valueKey val \<noteq> None"
  shows "jsonbEqual a val \<Longrightarrow> scalar_key a = valueKey val"
    and "scalar_key a = valueKey val \<Longrightarrow> value_ok val \<Longrightarrow> value_ok a \<Longrightarrow> jsonbEqual a val"
  using assms by (cases a; cases val; auto simp: scalar_key_def numberKey_eq float_eq_def split: if_splits)+

lemma valueKey_iff:
  assumes "valueKey val = Some k" and "value_ok val" and "value_ok a"
  shows "scalar_key a = Some k \<longleftrightarrow> jsonbEqual a val"
  using valueKey_equal [of val a] assms by auto

lemma scalar_key_valueKey: "scalar_key a = valueKey a"
  by (cases a) (simp_all add: scalar_key_def)

lemma complete_for_cong: "(\<And>n. n < v_NodeCount v \<Longrightarrow> P n \<longleftrightarrow> Q n) \<Longrightarrow> complete_for v P ids \<longleftrightarrow> complete_for v Q ids"
  by (simp add: complete_for_def cong: conj_cong)

text \<open>
  C21. An exact-match lookup is never short. For a scalar value, and a property whose values decode, the lookup
  answers without a panic and lists every node of the view whose property equals the value the way the
  evaluator's \<open>ScalarEq\<close> decides it, and the element lookup every node whose list holds an element equal to it,
  each node once and exactly those when there is no delta.
\<close>

theorem value_lookup_complete:
  assumes "view_wf v" and "lists_readable pf v name" and "delta_decodes pf v name" and key: "valueKey val = Some k" "value_ok val"
    and ok: "\<And>n a. view_value pf v name n = Some a \<Longrightarrow> value_ok a"
  shows "(\<exists>ids. NodesWithValueByName pf v name val = Some (Some ids) \<and> complete_for v (\<lambda>n. ScalarEq (view_value pf v name n) val = TriTrue) ids) \<and>
    (\<exists>ids. NodesWithArrayElementByName pf v name val = Some (Some ids) \<and>
      complete_for v (\<lambda>n. \<exists>els. view_value pf v name n = Some (AnyList els) \<and> (\<exists>el \<in> set els. jsonbEqual el val)) ids)"
proof -
  note look = exact_values.never_short [OF assms(1-3)]
  have scalar: "wanted_in wants_key (k, False) (view_value pf v name n) \<longleftrightarrow> ScalarEq (view_value pf v name n) val = TriTrue" for n
    using ok [of n] valueKey_iff [OF key] by (auto simp: wanted_in_iff wants_key_def ScalarEq_def boolToTri_def split: option.split)
  have el: "k \<in> set (element_keys (AnyList els)) \<longleftrightarrow> (\<exists>el \<in> set els. jsonbEqual el val)" if "value_ok (AnyList els)" for els
    using that valueKey_iff [OF key] by (auto simp: element_keys_def map_filter_iff list_all_iff scalar_key_valueKey)
  have elements: "wanted_in wants_key (k, True) (view_value pf v name n) \<longleftrightarrow>
      (\<exists>els. view_value pf v name n = Some (AnyList els) \<and> (\<exists>el \<in> set els. jsonbEqual el val))" for n
  proof (cases "view_value pf v name n")
    case (Some a)
    then show ?thesis using ok [OF Some] el by (cases a) (auto simp: wanted_in_iff wants_key_def element_keys_def)
  qed (simp add: wanted_in_iff)
  show ?thesis using look [of "(k, False)"] look [of "(k, True)"] key
    by (simp add: NodesWithValueByName_def NodesWithArrayElementByName_def valuePostings_def scalar elements)
qed

text \<open>The example base without a delta.\<close>

lemma example_values:
  "base_raw (NewView example_base) ''objectid'' 0 = Some (VString ''S-1'')" "base_raw (NewView example_base) ''objectid'' (Suc 0) = None"
  "NodeCount (v_base (NewView example_base)) = 2" "lists_readable (\<lambda>_. None) (NewView example_base) ''objectid''"
  "view_value pf (NewView example_base) ''objectid'' n = Some a \<Longrightarrow> a = AnyStr ''S-1''"
proof -
  let ?v = "NewView example_base"
  have nv: "v_base ?v = example_base" by (simp add: NewView_def)
  show raw: "base_raw ?v ''objectid'' 0 = Some (VString ''S-1'')" "base_raw ?v ''objectid'' (Suc 0) = None"
    using example_base_ok(2,3) by (simp_all add: base_raw_def nv example_nodes_def node_of_def parsedBag_def parsedValue_def)
  show count: "NodeCount (v_base ?v) = 2" using example_base_ok(2) by (simp add: nv NodeCount_def)
  show "lists_readable (\<lambda>_. None) ?v ''objectid''" using raw count by (auto simp: lists_readable_def float_syntax_def less_2_cases_iff)
  have nodes: "view_nodes ?v = snap_node example_base" using not_overlay [OF example_base_view(3)] by (simp add: view_nodes_def apply_nodes_def fun_eq_iff nv)
  show "view_value pf ?v ''objectid'' n = Some a \<Longrightarrow> a = AnyStr ''S-1''"
    by (auto simp: view_value_def nodes example_base_ok(3) example_nodes_def node_of_def parsedBag_def parsedValue_def decodeAny_def split: if_splits)
qed

theorem value_lookup_complete_witness:
  "\<exists>ids. NodesWithValueByName (\<lambda>_. None) (NewView example_base) ''objectid'' (AnyStr ''S-1'') = Some (Some ids) \<and> set ids = {0}"
proof -
  let ?v = "NewView example_base" and ?pf = "\<lambda>_. None"
  have ok: "value_ok a" if "view_value ?pf ?v ''objectid'' n = Some a" for n a using example_values(5) [OF that] by simp
  have "{n. n < 2 \<and> ScalarEq (view_value ?pf ?v ''objectid'' n) (AnyStr ''S-1'') = TriTrue} = {0}"
    by (auto simp: less_2_cases_iff example_base_view [simplified] ScalarEq_def boolToTri_def)
  then show ?thesis
    using value_lookup_complete [OF example_base_view(1) example_values(4) example_base_view(2), of "AnyStr ''S-1''" "''sS-1''"] ok example_base_view(3,4)
    by (auto simp: complete_for_def)
qed

end
