(* ===== verification/ValueShapes.thy ===== *)
theory ValueShapes
  imports ValueIndex
begin

text \<open>
  Which JSON types the values of a property take, \<open>internal/engine/snapshot/valueshape.go\<close>, and what
  \<open>valueindex.go\<close> builds on it: matching a predicate once per distinct string, and counting distinct strings
  up to a cap.
\<close>

section \<open>Shapes\<close>

text \<open>Whether some node carries the property as other than a string or null, and as other than a list of strings or null.\<close>

record valueShape =
  nonString :: bool
  nonStringList :: bool

definition stringOnlyArray :: "(string \<Rightarrow> 64 word option) \<Rightarrow> string \<Rightarrow> bool" where
  "stringOnlyArray pf raw =
     (case scanFlatArrayKeys pf [] raw of
        Some keys \<Rightarrow> list_all (\<lambda>k. length k \<noteq> 0 \<and> k ! 0 = CHR ''s'') keys
      | None \<Rightarrow> (case UnmarshalList pf raw of None \<Rightarrow> False | Some els \<Rightarrow> list_all is_str els))"

text \<open>The loop of \<open>valueShapeFor\<close> stops once both flags are set.\<close>

definition shapeValue :: "(string \<Rightarrow> 64 word option) \<Rightarrow> Snapshot \<Rightarrow> nat \<Rightarrow> nat \<Rightarrow> valueShape \<Rightarrow> valueShape option" where
  "shapeValue pf s p i sh =
     (if nonString sh \<and> nonStringList sh then Some sh
      else do {
        e \<leftarrow> storedEntry (sProps s) i p;
        case e of None \<Rightarrow> Some sh
        | Some e \<Rightarrow>
            (case e_kind e of
               propKindNull \<Rightarrow> Some sh
             | propKindString \<Rightarrow> Some (sh\<lparr>nonStringList := True\<rparr>)
             | propKindArray \<Rightarrow>
                 if nonStringList sh then Some (sh\<lparr>nonString := True\<rparr>)
                 else do { raw \<leftarrow> arrayText (sProps s) e; Some (sh\<lparr>nonString := True, nonStringList := \<not> stringOnlyArray pf raw\<rparr>) }
             | _ \<Rightarrow> Some (sh\<lparr>nonString := True, nonStringList := True\<rparr>)) })"

definition valueShapeFor :: "(string \<Rightarrow> 64 word option) \<Rightarrow> Snapshot \<Rightarrow> nat \<Rightarrow> (valueShape option) option" where
  "valueShapeFor pf s p =
     (if p \<ge> length (propNames (ps_table (sProps s))) then Some None
      else map_option Some (foldM (shapeValue pf s p) [0..<NodeCount s] \<lparr>nonString = False, nonStringList = False\<rparr>))"

definition shapeOnly :: "(valueShape \<Rightarrow> bool) \<Rightarrow> (deltaPropPostings \<Rightarrow> bool) \<Rightarrow> (string \<Rightarrow> 64 word option) \<Rightarrow> View \<Rightarrow> string \<Rightarrow> bool option" where
  "shapeOnly flag dflag pf v name = do {
     base \<leftarrow> (case PropIDByName v name of None \<Rightarrow> Some True
             | Some p \<Rightarrow> map_option (\<lambda>sh. case sh of None \<Rightarrow> False | Some sh \<Rightarrow> \<not> flag sh) (valueShapeFor pf (v_base v) p));
     if \<not> base then Some False
     else map_option (\<lambda>d. case d of None \<Rightarrow> True | Some d \<Rightarrow> \<not> dflag d) (deltaPropFor pf v name) }"

definition StringValuesOnly :: "(string \<Rightarrow> 64 word option) \<Rightarrow> View \<Rightarrow> string \<Rightarrow> bool option" where
  "StringValuesOnly = shapeOnly nonString dp_nonString"

definition StringListValuesOnly :: "(string \<Rightarrow> 64 word option) \<Rightarrow> View \<Rightarrow> string \<Rightarrow> bool option" where
  "StringListValuesOnly = shapeOnly nonStringList dp_nonStringList"

section \<open>Matching each distinct value once\<close>

definition NodesMatchingString :: "(string \<Rightarrow> 64 word option) \<Rightarrow> View \<Rightarrow> string \<Rightarrow> (string \<Rightarrow> bool) \<Rightarrow> ((nodeid list) option) option" where
  "NodesMatchingString pf v name match = do {
     out \<leftarrow> (case PropIDByName v name of
              None \<Rightarrow> Some (Some [])
            | Some p \<Rightarrow> do {
                ix \<leftarrow> valueIndexFor pf (v_base v) p;
                case ix of None \<Rightarrow> Some None
                | Some (scalar, _) \<Rightarrow> do {
                    sh \<leftarrow> valueShapeFor pf (v_base v) p;
                    Some (case sh of None \<Rightarrow> None
                      | Some sh \<Rightarrow>
                          if nonString sh then None
                          else if list_ex (\<lambda>(key, _). length key = 0 \<or> key ! 0 \<noteq> CHR ''s'') scalar then None
                          else Some (dedupeSorted (sort (concat (map (\<lambda>(key, ids). if match (drop 1 key) then ids else []) scalar))))) } });
     case out of None \<Rightarrow> Some None
     | Some out \<Rightarrow>
         if \<not> Overlay v then Some (Some out)
         else do {
           d \<leftarrow> deltaPropFor pf v name;
           Some (case d of None \<Rightarrow> Some (unionDeltaTouched out [])
             | Some d' \<Rightarrow> if dp_nonString d' then None else Some (unionDeltaTouched out (matchingStrings d match))) } }"

section \<open>Distinct strings\<close>

text \<open>The memos of \<open>stringDistinctAtMost\<close>: exact counts and lower bounds per property.\<close>

record distinctMemo =
  distinctCount :: "(nat \<times> nat) list"
  distinctAtLeast :: "(nat \<times> nat) list"

fun countDistinct :: "(nodeid \<Rightarrow> (string option) option) \<Rightarrow> int \<Rightarrow> string list \<Rightarrow> nodeid list \<Rightarrow> (nat \<times> bool) option" where
  "countDistinct val cap seen [] = Some (length seen, True)"
| "countDistinct val cap seen (i # ids) = do {
     r \<leftarrow> val i;
     case r of None \<Rightarrow> countDistinct val cap seen ids
     | Some s \<Rightarrow>
         if s \<in> set seen then countDistinct val cap seen ids
         else if int (length (s # seen)) > cap then Some (length (s # seen), False)
         else countDistinct val cap (s # seen) ids }"

definition stringDistinctAtMost :: "Snapshot \<Rightarrow> distinctMemo \<Rightarrow> nat \<Rightarrow> int \<Rightarrow> (distinctMemo \<times> nat \<times> bool) option" where
  "stringDistinctAtMost s m p cap =
     (if cap < 0 then Some (m, 0, False)
      else case map_of (distinctCount m) p of Some got \<Rightarrow> Some (m, got, True)
      | None \<Rightarrow>
          if (case map_of (distinctAtLeast m) p of None \<Rightarrow> False | Some lower \<Rightarrow> int lower > cap) then Some (m, 0, False)
          else do {
            ix \<leftarrow> stringIndexFor s p;
            case ix of None \<Rightarrow> Some (m, 0, False)
            | Some present \<Rightarrow> do {
                (n, exact) \<leftarrow> countDistinct (\<lambda>i. stringValue (sProps s) i p) cap [] present;
                Some (if exact then (m\<lparr>distinctCount := AList.update p n (distinctCount m)\<rparr>, n, True)
                      else (if n > (case map_of (distinctAtLeast m) p of None \<Rightarrow> 0 | Some l \<Rightarrow> l)
                            then m\<lparr>distinctAtLeast := AList.update p n (distinctAtLeast m)\<rparr> else m, 0, False)) } })"

definition StringDistinctAtMost :: "View \<Rightarrow> distinctMemo \<Rightarrow> string \<Rightarrow> int \<Rightarrow> (distinctMemo \<times> nat \<times> bool \<times> bool) option" where
  "StringDistinctAtMost v m name cap =
     (case PropIDByName v name of None \<Rightarrow> Some (m, 0, False, False)
      | Some p \<Rightarrow> do { (m, d, e) \<leftarrow> stringDistinctAtMost (v_base v) m p cap; Some (m, d, e, True) })"

section \<open>Shapes of values\<close>

definition raw_non_string :: "propValue \<Rightarrow> bool" where
  "raw_non_string pv = (case pv of VNull \<Rightarrow> False | VString _ \<Rightarrow> False | _ \<Rightarrow> True)"

definition raw_non_string_list :: "(string \<Rightarrow> 64 word option) \<Rightarrow> propValue \<Rightarrow> bool" where
  "raw_non_string_list pf pv = (case pv of VNull \<Rightarrow> False
     | VArray t \<Rightarrow> (case UnmarshalList pf t of None \<Rightarrow> True | Some els \<Rightarrow> \<not> list_all is_str els) | _ \<Rightarrow> True)"

lemma raw_non_string_value:
  "decodeAny pf pv = Some a \<Longrightarrow> non_string a \<Longrightarrow> raw_non_string pv"
  "decodeAny pf pv = Some a \<Longrightarrow> non_string_list a \<Longrightarrow> raw_non_string_list pf pv"
  by (cases pv; auto simp: decodeAny_def non_string_def raw_non_string_def non_string_list_def raw_non_string_list_def split: option.splits)+

lemma stringOnlyArray_iff:
  assumes "float_syntax pf" and "utf8_valid raw" and "UnmarshalList pf raw = Some els"
  shows "stringOnlyArray pf raw \<longleftrightarrow> list_all is_str els"
proof (cases "scanFlatArrayKeys pf [] raw")
  case (Some keys)
  then have keys: "map Some keys = map valueKey els" using scanFlatArrayKeys_exact [OF assms Some] by simp
  then have len: "length keys = length els" by (metis length_map)
  have head: "length k \<noteq> 0 \<and> k ! 0 = CHR ''s'' \<longleftrightarrow> is_str a" if "valueKey a = Some k" for a k
    using that by (cases a) (auto simp: is_str_def numberKey_def split: if_splits)
  have "valueKey (els ! i) = Some (keys ! i)" if "i < length keys" for i using keys len that by (metis nth_map)
  then have "length (keys ! i) \<noteq> 0 \<and> keys ! i ! 0 = CHR ''s'' \<longleftrightarrow> is_str (els ! i)" if "i < length keys" for i using head that by blast
  then have "list_all (\<lambda>k. length k \<noteq> 0 \<and> k ! 0 = CHR ''s'') keys \<longleftrightarrow> list_all is_str els" unfolding list_all_length len by blast
  then show ?thesis using Some by (simp add: stringOnlyArray_def)
qed (simp add: stringOnlyArray_def assms(3))

definition shape_of :: "(string \<Rightarrow> 64 word option) \<Rightarrow> View \<Rightarrow> string \<Rightarrow> nodeid \<Rightarrow> bool \<times> bool" where
  "shape_of pf v name n = (case base_raw v name n of None \<Rightarrow> (False, False) | Some pv \<Rightarrow> (raw_non_string pv, raw_non_string_list pf pv))"

lemma shapeValue_ok:
  assumes v: "view_wf v" and p: "PropIDByName v name = Some p" and n: "n < NodeCount (v_base v)" and rd: "lists_readable pf v name"
  shows "\<exists>sh'. shapeValue pf (v_base v) p n sh = Some sh' \<and> (nonString sh' \<longleftrightarrow> nonString sh \<or> fst (shape_of pf v name n)) \<and>
    (nonStringList sh' \<longleftrightarrow> nonStringList sh \<or> snd (shape_of pf v name n))"
proof -
  obtain es where row: "row (ps_nodeOffsets (sProps (v_base v))) n (ps_entries (sProps (v_base v))) = Some es"
    and val: "base_raw v name n = Option.bind (entryByID es p) (decode (propArena (ps_table (sProps (v_base v)))))"
    and wf: "\<And>e. entryByID es p = Some e \<Longrightarrow> entry_wf (ps_table (sProps (v_base v))) e" and t: "table_wf (ps_table (sProps (v_base v)))"
    by (rule stored_value [OF v p n]) blast
  show ?thesis
  proof (cases "entryByID es p")
    case None
    then show ?thesis using row val by (simp add: shapeValue_def storedEntry_def shape_of_def)
  next
    case (Some e)
    have se: "storedEntry (sProps (v_base v)) n p = Some (Some e)" using row Some by (simp add: storedEntry_def)
    show ?thesis
    proof (cases "e_kind e = propKindArray")
      case True
      then obtain t where t: "arrayText (sProps (v_base v)) e = Some t" "base_raw v name n = Some (VArray t)"
        using val Some entry_slice [OF t wf [OF Some]] by (simp add: decode_def arrayText_def has_payload_def)
      have "float_syntax pf" "utf8_valid t" "UnmarshalList pf t \<noteq> None" using rd n t(2) by (auto simp: lists_readable_def)
      then obtain els where els: "UnmarshalList pf t = Some els" "stringOnlyArray pf t \<longleftrightarrow> list_all is_str els"
        using stringOnlyArray_iff [of pf t] by auto
      then show ?thesis using True t se by (simp add: shapeValue_def shape_of_def raw_non_string_def raw_non_string_list_def)
    next
      case False
      then show ?thesis using wf [OF Some] val Some se entry_slice [OF t wf [OF Some]]
        by (cases "e_kind e") (simp_all add: shapeValue_def shape_of_def decode_def entry_wf_def has_payload_def raw_non_string_def raw_non_string_list_def)
    qed
  qed
qed

lemma shapeValues_ok:
  assumes "view_wf v" and "PropIDByName v name = Some p" and "lists_readable pf v name" and "set ns \<subseteq> {0..<NodeCount (v_base v)}"
  shows "\<exists>sh'. foldM (shapeValue pf (v_base v) p) ns sh = Some sh' \<and> (nonString sh' \<longleftrightarrow> nonString sh \<or> (\<exists>n \<in> set ns. fst (shape_of pf v name n))) \<and>
    (nonStringList sh' \<longleftrightarrow> nonStringList sh \<or> (\<exists>n \<in> set ns. snd (shape_of pf v name n)))"
  using assms(4)
proof (induction ns arbitrary: sh)
  case (Cons n ns)
  then have n: "n < NodeCount (v_base v)" by simp
  obtain sh1 where one: "shapeValue pf (v_base v) p n sh = Some sh1" "nonString sh1 \<longleftrightarrow> nonString sh \<or> fst (shape_of pf v name n)"
    "nonStringList sh1 \<longleftrightarrow> nonStringList sh \<or> snd (shape_of pf v name n)" using shapeValue_ok [OF assms(1,2) n assms(3)] by blast
  obtain sh2 where "foldM (shapeValue pf (v_base v) p) ns sh1 = Some sh2" "nonString sh2 \<longleftrightarrow> nonString sh1 \<or> (\<exists>n \<in> set ns. fst (shape_of pf v name n))"
    "nonStringList sh2 \<longleftrightarrow> nonStringList sh1 \<or> (\<exists>n \<in> set ns. snd (shape_of pf v name n))" using Cons.IH [of sh1] Cons.prems by auto
  then show ?case using one by auto
qed simp

lemma valueShapeFor_ok:
  assumes v: "view_wf v" and p: "PropIDByName v name = Some p" and rd: "lists_readable pf v name"
  shows "\<exists>sh. valueShapeFor pf (v_base v) p = Some (Some sh) \<and> (nonString sh \<longleftrightarrow> (\<exists>n < NodeCount (v_base v). fst (shape_of pf v name n))) \<and>
    (nonStringList sh \<longleftrightarrow> (\<exists>n < NodeCount (v_base v). snd (shape_of pf v name n)))"
proof -
  have "p < length (propNames (ps_table (sProps (v_base v))))"
    using v p by (auto simp: PropIDByName_def ps_IDByName_def view_wf_def snap_ok_def snap_wf_def store_rep_def table_wf_def)
  then show ?thesis
    using shapeValues_ok [OF v p rd, of "[0..<NodeCount (v_base v)]" "\<lparr>nonString = False, nonStringList = False\<rparr>"] by (auto simp: valueShapeFor_def)
qed

lemma deltaOf_flags:
  "dp_nonString (deltaOf recs) \<longleftrightarrow> (\<exists>x \<in> set recs. non_string (snd x))" "dp_nonStringList (deltaOf recs) \<longleftrightarrow> (\<exists>x \<in> set recs. non_string_list (snd x))"
  by (simp_all add: deltaOf_def Let_def fold_recordValue emptyDelta_def)

text \<open>Where neither the base nor the delta has a value of a shape, the view shows none.\<close>

lemma visible_shape:
  assumes v: "view_wf v" and base: "\<And>n a. n < NodeCount (v_base v) \<Longrightarrow> base_value pf v name n = Some a \<Longrightarrow> \<not> P a"
    and delta: "\<And>x. x \<in> set (delta_recs pf v name) \<Longrightarrow> \<not> P (snd x)"
    and n: "n < v_NodeCount v" "view_value pf v name n = Some a"
  shows "\<not> P a"
proof (cases "node_states v (pg v n)")
  case None
  then show ?thesis using base unwritten_in_base [OF v n(1) None] unwritten_value [OF None] n(2) by metis
next
  case (Some st)
  then have "(n, a) \<in> set (delta_recs pf v name)" using n by (simp add: delta_recs_iff(1) [OF v])
  then show ?thesis using delta by fastforce
qed

lemma base_shape_value:
  "base_value pf v name n = Some a \<Longrightarrow> non_string a \<Longrightarrow> fst (shape_of pf v name n)"
  "base_value pf v name n = Some a \<Longrightarrow> non_string_list a \<Longrightarrow> snd (shape_of pf v name n)"
  using raw_non_string_value by (auto simp: base_value_def shape_of_def bind_eq_Some_conv)

lemma base_shape_flags:
  assumes "view_wf v" and "lists_readable pf v name" and "PropIDByName v name = Some p" and "valueShapeFor pf (v_base v) p = Some (Some sh)"
    and "n < NodeCount (v_base v)" and "base_value pf v name n = Some a"
  shows "\<not> nonString sh \<Longrightarrow> \<not> non_string a" and "\<not> nonStringList sh \<Longrightarrow> \<not> non_string_list a"
  using valueShapeFor_ok [OF assms(1,3,2)] assms(4-6) base_shape_value [OF assms(6)] by auto

lemma shapeOnly_sound:
  assumes v: "view_wf v" and rd: "lists_readable pf v name" and dec: "delta_decodes pf v name" and yes: "shapeOnly flag dflag pf v name = Some True"
    and shp: "\<And>p sh n a. PropIDByName v name = Some p \<Longrightarrow> valueShapeFor pf (v_base v) p = Some (Some sh) \<Longrightarrow> \<not> flag sh \<Longrightarrow>
      n < NodeCount (v_base v) \<Longrightarrow> base_value pf v name n = Some a \<Longrightarrow> \<not> P a"
    and dl: "\<And>recs. dflag (deltaOf recs) \<longleftrightarrow> (\<exists>x \<in> set recs. P (snd x))" and n: "n < v_NodeCount v" "view_value pf v name n = Some a"
  shows "\<not> P a"
proof (rule visible_shape [OF v _ _ n])
  fix m b assume m: "m < NodeCount (v_base v)" "base_value pf v name m = Some b"
  then have "PropIDByName v name \<noteq> None" using not_interned_value [OF v _ m(1), of name pf] by auto
  then obtain p where p: "PropIDByName v name = Some p" by auto
  obtain sh where "valueShapeFor pf (v_base v) p = Some (Some sh)" using valueShapeFor_ok [OF v p rd] by blast
  then show "\<not> P b" using yes p shp [OF p _ _ m] by (auto simp: shapeOnly_def split: if_splits)
next
  fix x assume "x \<in> set (delta_recs pf v name)"
  then have "Overlay v" using not_overlay [of v] by (cases "Overlay v") (simp_all add: delta_recs_def map_filter_simps)
  then have "\<not> dflag (deltaOf (delta_recs pf v name))"
    using yes by (auto simp: shapeOnly_def deltaPropFor_ok [OF v dec] split: if_splits option.splits Option.bind_splits)
  then show "\<not> P (snd x)" using dl \<open>x \<in> set (delta_recs pf v name)\<close> by blast
qed

text \<open>
  The shape checks guard text predicates. Where \<open>StringValuesOnly\<close> answers yes, every value the view shows of
  the property is a string or null, and where \<open>StringListValuesOnly\<close> does, a list of strings or null, so an
  index of strings sees all a text predicate could match.
\<close>

theorem value_shapes_sound:
  assumes "view_wf v" and "lists_readable pf v name" and "delta_decodes pf v name" and "n < v_NodeCount v" and "view_value pf v name n = Some a"
  shows "(StringValuesOnly pf v name = Some True \<longrightarrow> \<not> non_string a) \<and> (StringListValuesOnly pf v name = Some True \<longrightarrow> \<not> non_string_list a)"
proof (intro conjI impI)
  assume yes: "StringValuesOnly pf v name = Some True"
  show "\<not> non_string a"
    using shapeOnly_sound [OF assms(1-3) yes [unfolded StringValuesOnly_def] _ deltaOf_flags(1) assms(4,5)] base_shape_flags(1) [OF assms(1,2)] by blast
next
  assume yes: "StringListValuesOnly pf v name = Some True"
  show "\<not> non_string_list a"
    using shapeOnly_sound [OF assms(1-3) yes [unfolded StringListValuesOnly_def] _ deltaOf_flags(2) assms(4,5)] base_shape_flags(2) [OF assms(1,2)] by blast
qed

section \<open>Matching each distinct value\<close>

lemma dropped_s: "length key \<noteq> 0 \<and> key ! 0 = CHR ''s'' \<longleftrightarrow> key = CHR ''s'' # drop 1 key"
  by (cases key) auto

lemma has_scalar_string: "has_scalar pf v name (CHR ''s'' # s) n \<longleftrightarrow> base_value pf v name n = Some (AnyStr s)"
proof -
  have "scalar_key a = Some (CHR ''s'' # s) \<longleftrightarrow> a = AnyStr s" for a by (cases a) (auto simp: scalar_key_def)
  then show ?thesis by (auto simp: has_scalar_def)
qed

lemma matching_postings:
  assumes S: "postings_ok S" "\<forall>k. posted S k = filter (has_scalar pf v name k) [0..<NodeCount (v_base v)]"
    and strings: "\<not> list_ex (\<lambda>(key, _). length key = 0 \<or> key ! 0 \<noteq> CHR ''s'') S"
  shows "lists_set (dedupeSorted (sort (concat (map (\<lambda>(key, ids). if match (drop 1 key) then ids else []) S))))
    {n. n < NodeCount (v_base v) \<and> (\<exists>s. base_value pf v name n = Some (AnyStr s) \<and> match s)}"
proof -
  have key: "key = CHR ''s'' # drop 1 key" if "(key, ids) \<in> set S" for key ids using strings that dropped_s [of key] by (fastforce simp: list_ex_iff)
  have "set (concat (map (\<lambda>(key, ids). if match (drop 1 key) then ids else []) S)) =
      {n. n < NodeCount (v_base v) \<and> (\<exists>s. base_value pf v name n = Some (AnyStr s) \<and> match s)}"
  proof (intro set_eqI iffI)
    fix n assume "n \<in> set (concat (map (\<lambda>(key, ids). if match (drop 1 key) then ids else []) S))"
    then obtain k ids where k: "(k, ids) \<in> set S" "match (drop 1 k)" "n \<in> set ids" by (auto split: if_splits)
    then have "has_scalar pf v name k n" "n < NodeCount (v_base v)" using posted_in [OF S(1) k(1)] S(2) by auto
    then show "n \<in> {n. n < NodeCount (v_base v) \<and> (\<exists>s. base_value pf v name n = Some (AnyStr s) \<and> match s)}"
      using has_scalar_string [of pf v name "drop 1 k" n] key [OF k(1)] k(2) by auto
  next
    fix n assume "n \<in> {n. n < NodeCount (v_base v) \<and> (\<exists>s. base_value pf v name n = Some (AnyStr s) \<and> match s)}"
    then obtain s where s: "n < NodeCount (v_base v)" "base_value pf v name n = Some (AnyStr s)" "match s" by blast
    then have "n \<in> set (posted S (CHR ''s'' # s))" using S(2) has_scalar_string [of pf v name s n] by simp
    then show "n \<in> set (concat (map (\<lambda>(key, ids). if match (drop 1 key) then ids else []) S))"
      using posted_nonempty [of n S "CHR ''s'' # s"] s(3) by force
  qed
  then show ?thesis using lists_sorted [of "concat (map (\<lambda>(key, ids). if match (drop 1 key) then ids else []) S)"] by simp
qed

definition refusable :: "(string \<Rightarrow> 64 word option) \<Rightarrow> View \<Rightarrow> string \<Rightarrow> bool" where
  "refusable pf v name \<longleftrightarrow> (\<exists>n < NodeCount (v_base v). \<exists>pv. base_raw v name n = Some pv \<and> (\<forall>s. pv \<noteq> VString s)) \<or>
     (\<exists>x \<in> set (delta_recs pf v name). non_string (snd x))"

lemma matching_base:
  assumes v: "view_wf v" and rd: "lists_readable pf v name" and p: "PropIDByName v name = Some p"
  obtains (answered) S E sh where "valueIndexFor pf (v_base v) p = Some (Some (S, E))" "valueShapeFor pf (v_base v) p = Some (Some sh)" "\<not> nonString sh"
      "\<not> list_ex (\<lambda>(key, _). length key = 0 \<or> key ! 0 \<noteq> CHR ''s'') S" "postings_ok S" "\<forall>k. posted S k = filter (has_scalar pf v name k) [0..<NodeCount (v_base v)]"
      "\<And>n a. n < NodeCount (v_base v) \<Longrightarrow> base_value pf v name n = Some a \<Longrightarrow> \<not> non_string a"
  | (refused) S E sh where "valueIndexFor pf (v_base v) p = Some (Some (S, E))" "valueShapeFor pf (v_base v) p = Some (Some sh)"
      "nonString sh \<or> list_ex (\<lambda>(key, _). length key = 0 \<or> key ! 0 \<noteq> CHR ''s'') S" "refusable pf v name"
proof -
  obtain S E where ix: "valueIndexFor pf (v_base v) p = Some (Some (S, E))" "postings_ok S" "\<forall>k. posted S k = filter (has_scalar pf v name k) [0..<NodeCount (v_base v)]"
    using valueIndexFor_ok [OF v p rd] by blast
  obtain sh where sh: "valueShapeFor pf (v_base v) p = Some (Some sh)" "nonString sh \<longleftrightarrow> (\<exists>n < NodeCount (v_base v). fst (shape_of pf v name n))"
    using valueShapeFor_ok [OF v p rd] by blast
  have odd: "refusable pf v name" if odd: "(k, ids) \<in> set S" "length k = 0 \<or> k ! 0 \<noteq> CHR ''s''" for k ids
  proof -
    obtain n where n: "n \<in> set (posted S k)" using posted_in [OF ix(2) odd(1)] by (metis list.set_sel(1))
    then obtain a where a: "n < NodeCount (v_base v)" "base_value pf v name n = Some a" "scalar_key a = Some k" using ix(3) by (auto simp: has_scalar_def)
    then obtain pv where pv: "base_raw v name n = Some pv" "decodeAny pf pv = Some a" by (auto simp: base_value_def bind_eq_Some_conv)
    have "pv \<noteq> VString s" for s using pv(2) a(3) odd(2) by (auto simp: decodeAny_def scalar_key_def)
    then show ?thesis using a(1) pv(1) by (auto simp: refusable_def)
  qed
  have ns: "refusable pf v name" if "nonString sh"
    using that sh(2) by (fastforce simp: refusable_def shape_of_def raw_non_string_def split: option.splits propValue.splits)
  show ?thesis
  proof (cases "nonString sh \<or> list_ex (\<lambda>(key, _). length key = 0 \<or> key ! 0 \<noteq> CHR ''s'') S")
    case True
    then show ?thesis using refused [OF ix(1) sh(1)] ns odd by (auto simp: list_ex_iff)
  next
    case False
    then show ?thesis using answered [OF ix(1) sh(1)] ix(2,3) base_shape_flags(1) [OF v rd p sh(1)] by blast
  qed
qed

lemma matching_delta:
  assumes v: "view_wf v" and base: "distinct base" "set base = {n. n < NodeCount (v_base v) \<and> (\<exists>s. base_value pf v name n = Some (AnyStr s) \<and> match s)}"
  shows "complete_for v (\<lambda>n. \<exists>s. view_value pf v name n = Some (AnyStr s) \<and> match s)
    (if Overlay v then unionDeltaTouched base (matchingStrings (Some (deltaOf (delta_recs pf v name))) match) else base)"
proof -
  let ?D = "matchingStrings (Some (deltaOf (delta_recs pf v name))) match" and ?W = "\<lambda>n. \<exists>s. view_value pf v name n = Some (AnyStr s) \<and> match s"
  note D = matchingStrings_ok [OF delta_recs_iff(2) [OF v, of pf name], of match]
  have "set ?D = {n. n < v_NodeCount v \<and> node_states v (pg v n) \<noteq> None \<and> ?W n}" unfolding conjunct2 [OF D] delta_recs_iff(1) [OF v] by blast
  from combined_complete [OF v base conjunct1 [OF D] this] show ?thesis .
qed

text \<open>
  C22. Matching each distinct value once answers for all, or refuses. The lookup returns without a panic. Where it
  answers, every value the view shows of the property is a string or null, and the nodes listed are complete
  for the predicate; it refuses only where the base holds a value that is no string or the delta one that is
  neither string nor null.
\<close>

theorem matching_lookup_complete:
  assumes v: "view_wf v" and rd: "lists_readable pf v name" and dec: "delta_decodes pf v name"
  shows "\<exists>r. NodesMatchingString pf v name match = Some r \<and>
    (case r of None \<Rightarrow> refusable pf v name
     | Some ids \<Rightarrow> complete_for v (\<lambda>n. \<exists>s. view_value pf v name n = Some (AnyStr s) \<and> match s) ids \<and>
         (\<forall>n a. n < v_NodeCount v \<and> view_value pf v name n = Some a \<longrightarrow> \<not> non_string a))"
proof -
  let ?ns = "\<exists>x \<in> set (delta_recs pf v name). non_string (snd x)"
  note d = deltaPropFor_ok [OF v dec] deltaOf_flags(1)
  have none: "\<not> Overlay v \<Longrightarrow> delta_recs pf v name = []" using not_overlay [of v] by (simp add: delta_recs_def map_filter_simps)
  have answer: "?thesis" if out: "NodesMatchingString pf v name match =
        (if \<not> Overlay v then Some (Some base) else Some (if ?ns then None else Some (unionDeltaTouched base (matchingStrings (Some (deltaOf (delta_recs pf v name))) match))))"
      and base: "distinct base" "set base = {n. n < NodeCount (v_base v) \<and> (\<exists>s. base_value pf v name n = Some (AnyStr s) \<and> match s)}"
      and shp: "\<And>n a. n < NodeCount (v_base v) \<Longrightarrow> base_value pf v name n = Some a \<Longrightarrow> \<not> non_string a" for base
  proof (cases "Overlay v \<and> ?ns")
    case True
    then show ?thesis using out by (auto simp: refusable_def)
  next
    case False
    then have "\<not> ?ns" using none by auto
    then have "\<not> non_string a" if na: "n < v_NodeCount v" "view_value pf v name n = Some a" for n a
      by (intro visible_shape [where P = non_string, OF v _ _ na]) (use shp in blast)+
    then show ?thesis using out matching_delta [OF v base] \<open>\<not> ?ns\<close> by (auto split: if_splits)
  qed
  show ?thesis
  proof (cases "PropIDByName v name")
    case None
    have "base_value pf v name n = None" if "n < NodeCount (v_base v)" for n by (rule not_interned_value [OF v None that])
    then show ?thesis by (intro answer [of "[]"]) (auto simp: NodesMatchingString_def None d)
  next
    case (Some p)
    show ?thesis
    proof (rule matching_base [OF v rd Some])
      fix S E sh assume S: "valueIndexFor pf (v_base v) p = Some (Some (S, E))" "valueShapeFor pf (v_base v) p = Some (Some sh)" "\<not> nonString sh"
        "\<not> list_ex (\<lambda>(key, _). length key = 0 \<or> key ! 0 \<noteq> CHR ''s'') S" "postings_ok S" "\<forall>k. posted S k = filter (has_scalar pf v name k) [0..<NodeCount (v_base v)]"
        and shp: "\<And>n a. n < NodeCount (v_base v) \<Longrightarrow> base_value pf v name n = Some a \<Longrightarrow> \<not> non_string a"
      let ?base = "dedupeSorted (sort (concat (map (\<lambda>(key, ids). if match (drop 1 key) then ids else []) S)))"
      have "lists_set ?base {n. n < NodeCount (v_base v) \<and> (\<exists>s. base_value pf v name n = Some (AnyStr s) \<and> match s)}" by (rule matching_postings [OF S(5,6,4)])
      then have b: "distinct ?base" "set ?base = {n. n < NodeCount (v_base v) \<and> (\<exists>s. base_value pf v name n = Some (AnyStr s) \<and> match s)}"
        by (auto simp: lists_set_def strict_sorted_iff)
      have "NodesMatchingString pf v name match =
        (if \<not> Overlay v then Some (Some ?base) else Some (if ?ns then None else Some (unionDeltaTouched ?base (matchingStrings (Some (deltaOf (delta_recs pf v name))) match))))"
        using S by (simp add: NodesMatchingString_def Some d)
      then show ?thesis by (rule answer [OF _ b shp])
    next
      fix S E sh assume "valueIndexFor pf (v_base v) p = Some (Some (S, E))" "valueShapeFor pf (v_base v) p = Some (Some sh)"
        "nonString sh \<or> list_ex (\<lambda>(key, _). length key = 0 \<or> key ! 0 \<noteq> CHR ''s'') S" "refusable pf v name"
      then show ?thesis by (auto simp: NodesMatchingString_def Some)
    qed
  qed
qed

section \<open>Counting distinct strings\<close>

definition strings_of :: "View \<Rightarrow> string \<Rightarrow> string set" where
  "strings_of v name = {s. \<exists>n < NodeCount (v_base v). base_raw v name n = Some (VString s)}"

text \<open>What the memo holds is true: a count is the count, a bound is not above it.\<close>

definition memo_ok :: "View \<Rightarrow> distinctMemo \<Rightarrow> bool" where
  "memo_ok v m \<longleftrightarrow> (\<forall>name p. PropIDByName v name = Some p \<longrightarrow>
     (\<forall>n. map_of (distinctCount m) p = Some n \<longrightarrow> n = card (strings_of v name)) \<and> (\<forall>l. map_of (distinctAtLeast m) p = Some l \<longrightarrow> l \<le> card (strings_of v name)))"

definition counted :: "int \<Rightarrow> nat \<Rightarrow> nat \<times> bool \<Rightarrow> bool" where
  "counted cap N = (\<lambda>(n, e). if e then n = N else int n > cap \<and> n \<le> N)"

lemma countDistinct_ok:
  assumes "\<And>i. i \<in> set ids \<Longrightarrow> val i = Some (Some (f i))" and "distinct seen" and "int (length seen) \<le> cap"
  shows "ok (countDistinct val cap seen ids) (counted cap (card (set seen \<union> f ` set ids)))"
  using assms
proof (induction ids arbitrary: seen)
  case Nil
  then show ?case by (simp add: distinct_card counted_def)
next
  case (Cons i ids)
  have v: "val i = Some (Some (f i))" using Cons.prems(1) by simp
  show ?case
  proof (cases "f i \<in> set seen")
    case True
    then have "set seen \<union> f ` set (i # ids) = set seen \<union> f ` set ids" by auto
    then show ?thesis using Cons.IH [of seen] Cons.prems True v by simp
  next
    case False
    have eq: "set seen \<union> f ` set (i # ids) = set (f i # seen) \<union> f ` set ids" by auto
    show ?thesis
    proof (cases "int (length (f i # seen)) > cap")
      case True
      have "length (f i # seen) = card (set (f i # seen))" using False Cons.prems(2) by (simp add: distinct_card)
      also have "\<dots> \<le> card (set (f i # seen) \<union> f ` set ids)" by (rule card_mono) auto
      finally show ?thesis using False True v unfolding eq by (simp add: counted_def)
    next
      case le: False
      then show ?thesis using Cons.IH [of "f i # seen"] Cons.prems False v unfolding eq by simp
    qed
  qed
qed

lemma interned_once:
  assumes "view_wf v" and "PropIDByName v name = Some p" and "PropIDByName v name' = Some p"
  shows "name' = name"
  using assms by (auto simp: PropIDByName_def ps_IDByName_def view_wf_def snap_ok_def snap_wf_def store_rep_def table_wf_def)

lemma base_string: "base_value pf v name n = Some (AnyStr s) \<longleftrightarrow> base_raw v name n = Some (VString s)"
proof -
  have "decodeAny pf pv = Some (AnyStr s) \<longleftrightarrow> pv = VString s" for pv by (cases pv) (auto simp: decodeAny_def split: option.splits any.splits)
  then show ?thesis by (auto simp: base_value_def bind_eq_Some_conv)
qed

lemma memo_update:
  assumes v: "view_wf v" and p: "PropIDByName v name = Some p" and m: "memo_ok v m"
  shows "n = card (strings_of v name) \<Longrightarrow> memo_ok v (m\<lparr>distinctCount := AList.update p n (distinctCount m)\<rparr>)"
    and "n \<le> card (strings_of v name) \<Longrightarrow> memo_ok v (m\<lparr>distinctAtLeast := AList.update p n (distinctAtLeast m)\<rparr>)"
proof -
  have old: "(\<forall>n. map_of (distinctCount m) p' = Some n \<longrightarrow> n = card (strings_of v name')) \<and>
      (\<forall>l. map_of (distinctAtLeast m) p' = Some l \<longrightarrow> l \<le> card (strings_of v name'))" if "PropIDByName v name' = Some p'" for name' p'
    using m that unfolding memo_ok_def by blast
  have same: "p' \<noteq> p \<or> name' = name" if "PropIDByName v name' = Some p'" for name' p' using interned_once [OF v p] that by blast
  show "memo_ok v (m\<lparr>distinctCount := AList.update p n (distinctCount m)\<rparr>)" if "n = card (strings_of v name)"
    unfolding memo_ok_def
  proof (intro allI impI)
    fix name' p' assume "PropIDByName v name' = Some p'"
    from old [OF this] same [OF this] show "(\<forall>n'. map_of (distinctCount (m\<lparr>distinctCount := AList.update p n (distinctCount m)\<rparr>)) p' = Some n' \<longrightarrow> n' = card (strings_of v name')) \<and>
      (\<forall>l. map_of (distinctAtLeast (m\<lparr>distinctCount := AList.update p n (distinctCount m)\<rparr>)) p' = Some l \<longrightarrow> l \<le> card (strings_of v name'))"
      using that by (cases "p' = p") (simp_all add: update_conv')
  qed
  show "memo_ok v (m\<lparr>distinctAtLeast := AList.update p n (distinctAtLeast m)\<rparr>)" if "n \<le> card (strings_of v name)"
    unfolding memo_ok_def
  proof (intro allI impI)
    fix name' p' assume "PropIDByName v name' = Some p'"
    from old [OF this] same [OF this] show "(\<forall>n'. map_of (distinctCount (m\<lparr>distinctAtLeast := AList.update p n (distinctAtLeast m)\<rparr>)) p' = Some n' \<longrightarrow> n' = card (strings_of v name')) \<and>
      (\<forall>l. map_of (distinctAtLeast (m\<lparr>distinctAtLeast := AList.update p n (distinctAtLeast m)\<rparr>)) p' = Some l \<longrightarrow> l \<le> card (strings_of v name'))"
      using that by (cases "p' = p") (simp_all add: update_conv')
  qed
qed

lemma distinct_strings_ok:
  assumes v: "view_wf v" and p: "PropIDByName v name = Some p" and m: "memo_ok v m"
  shows "ok (stringDistinctAtMost (v_base v) m p cap) (\<lambda>(m', d, e). memo_ok v m' \<and> (if e then d = card (strings_of v name) else cap < int (card (strings_of v name))))"
proof (cases "cap < 0 \<or> map_of (distinctCount m) p \<noteq> None \<or> (\<exists>l. map_of (distinctAtLeast m) p = Some l \<and> int l > cap)")
  case True
  have "n = card (strings_of v name)" if "map_of (distinctCount m) p = Some n" for n using m p that unfolding memo_ok_def by blast
  moreover have "l \<le> card (strings_of v name)" if "map_of (distinctAtLeast m) p = Some l" for l using m p that unfolding memo_ok_def by blast
  ultimately show ?thesis using True m by (auto simp: stringDistinctAtMost_def split: option.split)
next
  case False
  define pf :: "string \<Rightarrow> 64 word option" where "pf = (\<lambda>_. None)"
  let ?present = "filter (\<lambda>n. \<exists>s. carries_string pf v name n s) [0..<NodeCount (v_base v)]" and ?val = "\<lambda>i. stringValue (sProps (v_base v)) i p"
  let ?f = "listedValue (sProps (v_base v)) p"
  have val: "?val i = Some (Some (?f i))" if i: "i \<in> set ?present" for i
  proof -
    obtain s where s: "i < NodeCount (v_base v)" "carries_string pf v name i s" using i by auto
    then show ?thesis using stringValue_ok [OF v p s(1), of pf] listedValue_ok [OF v p s] by (simp add: carries_string_def)
  qed
  have img: "?f ` set ?present = strings_of v name"
  proof -
    have "?f i = s" if "i < NodeCount (v_base v)" "carries_string pf v name i s" for i s using listedValue_ok [OF v p that] .
    then show ?thesis by (force simp: strings_of_def carries_string_def base_string)
  qed
  have "ok (countDistinct ?val cap [] ?present) (counted cap (card (set [] \<union> ?f ` set ?present)))"
    by (rule countDistinct_ok) (use val False in \<open>simp_all add: not_less\<close>)
  then obtain n e where c: "countDistinct ?val cap [] ?present = Some (n, e)" "if e then n = card (strings_of v name) else int n > cap \<and> n \<le> card (strings_of v name)"
    unfolding img ok_iff by (auto simp: counted_def split: prod.splits)
  have run: "stringDistinctAtMost (v_base v) m p cap =
      Some (if e then (m\<lparr>distinctCount := AList.update p n (distinctCount m)\<rparr>, n, True)
            else (if n > (case map_of (distinctAtLeast m) p of None \<Rightarrow> 0 | Some l \<Rightarrow> l)
                  then m\<lparr>distinctAtLeast := AList.update p n (distinctAtLeast m)\<rparr> else m, 0, False))"
    using False c(1) stringIndexFor_ok [OF v p, of pf] by (auto simp: stringDistinctAtMost_def split: option.splits)
  show ?thesis unfolding run using c(2) memo_update [OF v p m, of n] m by (cases e) simp_all
qed

text \<open>
  C36. Counts of distinct strings stay right however they were memoized. From any true memo the question returns
  and leaves a true memo; an exact answer is the number of distinct strings the base holds, a refusal means
  there are more than the cap, and the property is known exactly when the base interned it.
\<close>

theorem distinct_count_exact:
  assumes "view_wf v" and "memo_ok v m"
  shows "ok (StringDistinctAtMost v m name cap) (\<lambda>(m', d, e, k). memo_ok v m' \<and> (k \<longleftrightarrow> PropIDByName v name \<noteq> None) \<and>
    (e \<longrightarrow> d = card (strings_of v name)) \<and> (k \<longrightarrow> \<not> e \<longrightarrow> cap < int (card (strings_of v name))))"
proof (cases "PropIDByName v name")
  case (Some p)
  obtain m' d e where "stringDistinctAtMost (v_base v) m p cap = Some (m', d, e)" "memo_ok v m'"
    "if e then d = card (strings_of v name) else cap < int (card (strings_of v name))"
    using distinct_strings_ok [OF assms(1) Some assms(2), of cap] unfolding ok_iff by (auto simp del: if_split)
  then show ?thesis using Some by (simp add: StringDistinctAtMost_def split: if_splits)
qed (use assms(2) in \<open>simp add: StringDistinctAtMost_def\<close>)

text \<open>A count memoized under one cap is returned as exact under a smaller one.\<close>

lemma memoized_count_above_cap:
  "0 \<le> cap \<Longrightarrow> cap < int n \<Longrightarrow> map_of (distinctCount m) p = Some n \<Longrightarrow> stringDistinctAtMost s m p cap = Some (m, n, True)"
  by (simp add: stringDistinctAtMost_def)

section \<open>An example\<close>

text \<open>Each property at the example base without a delta.\<close>

theorem value_shapes_sound_witness:
  "StringListValuesOnly (\<lambda>_. None) (NewView example_base) ''objectid'' \<noteq> Some True"
  using value_shapes_sound [OF example_base_view(1) example_values(4) example_base_view(2) _ example_base_view(5)] example_base_view(4)
  by (auto simp: non_string_list_def)

theorem matching_lookup_complete_witness:
  "\<exists>ids. NodesMatchingString (\<lambda>_. None) (NewView example_base) ''objectid'' (\<lambda>s. s = ''S-1'') = Some (Some ids) \<and> set ids = {0}"
proof -
  let ?v = "NewView example_base"
  have "delta_recs (\<lambda>_. None) ?v ''objectid'' = []" using not_overlay [OF example_base_view(3)] by (simp add: delta_recs_def map_filter_simps)
  then have no: "\<not> refusable (\<lambda>_. None) ?v ''objectid''" using example_values(1-3) by (auto simp: refusable_def less_2_cases_iff)
  have eq: "{n. n < 2 \<and> (\<exists>s. view_value (\<lambda>_. None) ?v ''objectid'' n = Some (AnyStr s) \<and> s = ''S-1'')} = {0}"
    by (auto simp: less_2_cases_iff example_base_view [simplified])
  obtain r where r: "NodesMatchingString (\<lambda>_. None) ?v ''objectid'' (\<lambda>s. s = ''S-1'') = Some r"
    "case r of None \<Rightarrow> refusable (\<lambda>_. None) ?v ''objectid'' | Some ids \<Rightarrow> complete_for ?v (\<lambda>n. \<exists>s. view_value (\<lambda>_. None) ?v ''objectid'' n = Some (AnyStr s) \<and> s = ''S-1'') ids \<and>
       (\<forall>n a. n < v_NodeCount ?v \<and> view_value (\<lambda>_. None) ?v ''objectid'' n = Some a \<longrightarrow> \<not> non_string a)"
    using matching_lookup_complete [OF example_base_view(1) example_values(4) example_base_view(2), of "\<lambda>s. s = ''S-1''"] by blast
  then obtain ids where "r = Some ids" "complete_for ?v (\<lambda>n. \<exists>s. view_value (\<lambda>_. None) ?v ''objectid'' n = Some (AnyStr s) \<and> s = ''S-1'') ids"
    using no by (auto split: option.splits)
  then show ?thesis using r(1) eq example_base_view(3,4) by (auto simp: complete_for_def)
qed

theorem distinct_count_exact_witness:
  "ok (StringDistinctAtMost (NewView example_base) \<lparr>distinctCount = [], distinctAtLeast = []\<rparr> ''objectid'' 5) (\<lambda>(m', d, e, k). (d = 1) = e)"
proof -
  let ?v = "NewView example_base"
  have "strings_of ?v ''objectid'' = {''S-1''}" using example_values(1-3) by (auto simp: strings_of_def less_2_cases_iff)
  moreover have "PropIDByName ?v ''objectid'' \<noteq> None"
    using not_interned_value [OF example_base_view(1), of "''objectid''" 0] example_values(1,3) by (auto simp: base_value_def decodeAny_def)
  ultimately show ?thesis
    using distinct_count_exact [of ?v "\<lparr>distinctCount = [], distinctAtLeast = []\<rparr>" "''objectid''" 5] example_base_view(1)
    by (auto simp: memo_ok_def ok_iff)
qed

end
