(* ===== verification/Like.thy ===== *)
theory Like
  imports ValueShapes
begin

text \<open>
  LIKE patterns, the end of \<open>internal/engine/interpret/value.go\<close>, and how \<open>plan.go\<close> narrows a pattern to a lookup
  in the string index. A pattern is compiled to the anchored regular expression \<open>(?s)\A...\z\<close>; \<open>like_match\<close> is
  what that expression matches, with \<open>.\<close> one rune as Go decodes the subject.
\<close>

section \<open>Patterns\<close>

datatype StringOp = OpStartsWith | OpEndsWith | OpContains | OpRegex

datatype likePart = LikeLiteral string | LikeAny | LikeOne

definition flushRun :: "string \<Rightarrow> likePart list \<Rightarrow> likePart list" where
  "flushRun run parts = (if length run > 0 then parts @ [LikeLiteral run] else parts)"

fun parseLike :: "string \<Rightarrow> likePart list \<Rightarrow> string \<Rightarrow> interp_error + likePart list" where
  "parseLike run parts [] = Inr (flushRun run parts)"
| "parseLike run parts (c # s) =
     (if c = CHR 0x5C then (case s of [] \<Rightarrow> Inl ErrLikePattern | d # s' \<Rightarrow> parseLike (run @ [d]) parts s')
      else if c = CHR ''%'' then parseLike [] (flushRun run parts @ [LikeAny]) s
      else if c = CHR ''_'' then parseLike [] (flushRun run parts @ [LikeOne]) s
      else parseLike (run @ [c]) parts s)"

definition parseLikePattern :: "string \<Rightarrow> interp_error + likePart list" where
  "parseLikePattern pattern = parseLike [] [] pattern"

function like_match :: "likePart list \<Rightarrow> string \<Rightarrow> bool" where
  "like_match parts s =
     (case parts of
        [] \<Rightarrow> s = []
      | LikeLiteral l # ps \<Rightarrow> prefix l s \<and> like_match ps (drop (length l) s)
      | LikeOne # ps \<Rightarrow> (if s = [] then False else like_match ps (drop (snd (DecodeRune s)) s))
      | LikeAny # ps \<Rightarrow> (if s = [] then like_match ps s else like_match ps s \<or> like_match parts (drop (snd (DecodeRune s)) s)))"
  by pat_completeness auto
termination
  by (relation "measures [\<lambda>(ps, s). length s, \<lambda>(ps, s). length ps]") (auto simp: DecodeRune_width)

declare like_match.simps [simp del]

definition leadingLiteral :: "likePart list \<Rightarrow> string option" where
  "leadingLiteral parts = (case parts of LikeLiteral l # _ \<Rightarrow> Some l | _ \<Rightarrow> None)"

definition trailingLiteral :: "likePart list \<Rightarrow> string option" where
  "trailingLiteral parts = (if length parts = 0 then None else case parts ! (length parts - 1) of LikeLiteral l \<Rightarrow> Some l | _ \<Rightarrow> None)"

definition longestLiteral :: "likePart list \<Rightarrow> string option" where
  "longestLiteral parts =
     (let best = fold (\<lambda>p best. case p of LikeLiteral l \<Rightarrow> if length l > length best then l else best | _ \<Rightarrow> best) parts [] in
      if best \<noteq> [] then Some best else None)"

definition likePatternFor :: "StringOp \<Rightarrow> string \<Rightarrow> string" where
  "likePatternFor op needle = (case op of OpStartsWith \<Rightarrow> needle @ ''%'' | OpEndsWith \<Rightarrow> ''%'' @ needle | _ \<Rightarrow> ''%'' @ needle @ ''%'')"

definition likeNeedlePattern :: "StringMatch \<Rightarrow> string \<Rightarrow> (likePart list) option" where
  "likeNeedlePattern match needle =
     (case (case match of StringPrefix \<Rightarrow> Some OpStartsWith | StringSuffix \<Rightarrow> Some OpEndsWith | StringContains \<Rightarrow> Some OpContains | _ \<Rightarrow> None) of
        None \<Rightarrow> None
      | Some op \<Rightarrow> (case parseLikePattern (likePatternFor op needle) of Inl _ \<Rightarrow> None | Inr lp \<Rightarrow> Some lp))"

definition likePatternRun :: "likePart list \<Rightarrow> StringMatch \<Rightarrow> string option" where
  "likePatternRun lp match = (case match of StringPrefix \<Rightarrow> leadingLiteral lp | StringSuffix \<Rightarrow> trailingLiteral lp | _ \<Rightarrow> longestLiteral lp)"

section \<open>Literal runs\<close>

lemma like_match_simps [simp]:
  "like_match [] s \<longleftrightarrow> s = []"
  "like_match (LikeLiteral l # ps) s \<longleftrightarrow> prefix l s \<and> like_match ps (drop (length l) s)"
  "like_match (LikeOne # ps) s \<longleftrightarrow> s \<noteq> [] \<and> like_match ps (drop (snd (DecodeRune s)) s)"
  by (simp_all add: like_match.simps)

lemma like_match_any: "like_match (LikeAny # ps) s \<Longrightarrow> \<exists>i. like_match ps (drop i s)"
proof (induction s rule: length_induct)
  case (1 s)
  then consider "like_match ps s" | "s \<noteq> []" "like_match (LikeAny # ps) (drop (snd (DecodeRune s)) s)"
    using like_match.simps [of "LikeAny # ps" s] by (auto split: if_splits)
  then show ?case
  proof cases
    case 1
    then show ?thesis by (intro exI [of _ 0]) simp
  next
    case 2
    then obtain i where "like_match ps (drop i (drop (snd (DecodeRune s)) s))" using 1 DecodeRune_width [of s] by (metis diff_less length_drop length_greater_0_conv)
    then show ?thesis by auto
  qed
qed

text \<open>Every literal run of a pattern is a factor of what it matches, the last one a suffix if nothing follows.\<close>

lemma like_match_factor:
  "like_match (ps @ LikeLiteral l # qs) s \<Longrightarrow> \<exists>i. prefix l (drop i s) \<and> like_match qs (drop (i + length l) s)"
proof (induction ps arbitrary: s)
  case Nil
  then show ?case by (intro exI [of _ 0]) simp
next
  case (Cons p ps)
  obtain j where "like_match (ps @ LikeLiteral l # qs) (drop j s)"
    using Cons.prems like_match_any [of "ps @ LikeLiteral l # qs" s] by (cases p) auto
  from Cons.IH [OF this] obtain i where "prefix l (drop i (drop j s))" "like_match qs (drop (i + length l) (drop j s))" by blast
  then show ?case by (intro exI [of _ "i + j"]) (simp add: ac_simps)
qed

lemma longest_in: "longestLiteral parts = Some l \<Longrightarrow> LikeLiteral l \<in> set parts \<and> l \<noteq> []"
proof -
  let ?f = "\<lambda>p best. case p of LikeLiteral l \<Rightarrow> if length l > length best then l else best | _ \<Rightarrow> best"
  have "fold ?f parts b = b \<or> LikeLiteral (fold ?f parts b) \<in> set parts" for b
    by (induction parts arbitrary: b) (auto split: likePart.splits)
  from this [of "[]"] show "longestLiteral parts = Some l \<Longrightarrow> LikeLiteral l \<in> set parts \<and> l \<noteq> []"
    by (auto simp: longestLiteral_def Let_def split: if_splits)
qed

lemma prefix_contains: "prefix l (drop i s) \<Longrightarrow> strings_Contains s l"
  by (cases "i \<le> length s") (auto simp: strings_Contains_def list_ex_iff simp del: upt_Suc intro: bexI [of _ i] bexI [of _ "length s"])

lemma like_run_necessary:
  assumes "like_match parts s" and "likePatternRun parts match = Some l" and "match \<noteq> StringEquals"
  shows "matchString s match l"
proof (cases match)
  case StringPrefix
  then show ?thesis using assms by (auto simp: likePatternRun_def leadingLiteral_def split: list.splits likePart.splits)
next
  case StringSuffix
  then have "parts \<noteq> []" "last parts = LikeLiteral l"
    using assms(2) by (auto simp: likePatternRun_def trailingLiteral_def last_conv_nth split: if_splits likePart.splits)
  then have "parts = butlast parts @ [LikeLiteral l]" by (metis append_butlast_last_id)
  then obtain i where "prefix l (drop i s)" "drop (i + length l) s = []" using like_match_factor [of "butlast parts" l "[]" s] assms(1) by auto
  then have "prefix l (drop i s)" "length (drop i s) \<le> length l" by auto
  then have "drop i s = l" by (metis length_append prefix_def add_le_same_cancel1 le_zero_eq length_0_conv append_Nil2)
  then show ?thesis using StringSuffix by (metis matchString.simps(3) suffix_drop)
next
  case StringContains
  then have "LikeLiteral l \<in> set parts" using assms(2) longest_in by (simp add: likePatternRun_def)
  then obtain ps qs where "parts = ps @ LikeLiteral l # qs" by (meson split_list)
  then show ?thesis using StringContains like_match_factor [of ps l qs s] assms(1) prefix_contains by auto
qed (use assms(3) in simp)

text \<open>
  C24. Narrowing a LIKE predicate to the string index loses nothing. Where a STARTS WITH, ENDS WITH or CONTAINS needle
  is read as a LIKE pattern and the pattern has a literal run in the place the index answers for, looking that
  run up lists every node of the view whose string value the pattern matches.
\<close>

theorem like_candidates_complete:
  assumes "view_wf v" and "delta_decodes pf v name" and "likeNeedlePattern match needle = Some lp" and "likePatternRun lp match = Some run"
  shows "ok (NodesWithStringByName pf v name match run) (\<lambda>r. \<exists>ids. r = Some ids \<and> distinct ids \<and>
    (\<forall>n s. n < v_NodeCount v \<and> view_value pf v name n = Some (AnyStr s) \<and> like_match lp s \<longrightarrow> n \<in> set ids))"
proof -
  obtain ids where ids: "NodesWithStringByName pf v name match run = Some (Some ids)"
    "complete_for v (\<lambda>n. \<exists>s. view_value pf v name n = Some (AnyStr s) \<and> matchString s match run) ids"
    using string_lookup_ok [OF assms(1,2)] by blast
  have "match \<noteq> StringEquals" using assms(3) by (auto simp: likeNeedlePattern_def)
  then have "matchString s match run" if "like_match lp s" for s using like_run_necessary [OF that assms(4)] by simp
  then show ?thesis using ids by (auto simp: complete_for_def)
qed

theorem like_candidates_complete_witness:
  "ok (NodesWithStringByName (\<lambda>_. None) (NewView example_base) ''objectid'' StringPrefix ''S'') (\<lambda>r. \<exists>ids. r = Some ids \<and> 0 \<in> set ids)"
proof -
  have p: "likeNeedlePattern StringPrefix ''S_1'' = Some [LikeLiteral ''S'', LikeOne, LikeLiteral ''1'', LikeAny]"
    by (simp add: likeNeedlePattern_def likePatternFor_def parseLikePattern_def flushRun_def)
  have r: "likePatternRun [LikeLiteral ''S'', LikeOne, LikeLiteral ''1'', LikeAny] StringPrefix = Some ''S''"
    by (simp add: likePatternRun_def leadingLiteral_def)
  have "like_match [LikeAny] []" by (subst like_match.simps) simp
  then have "like_match [LikeLiteral ''S'', LikeOne, LikeLiteral ''1'', LikeAny] ''S-1''" by (simp add: DecodeRune_ascii)
  then show ?thesis
    using like_candidates_complete [OF example_base_view(1) example_base_view(2) [of "\<lambda>_. None" "''objectid''"] p r] example_base_view(4) example_base_view(5) [of "\<lambda>_. None"]
    by (auto simp: ok_iff)
qed

end
