(* ===== verification/Regex.thy ===== *)
theory Regex
  imports Like
begin

text \<open>
  The regex matcher, \<open>internal/engine/interpret/regexfast.go\<close>: which patterns PostgreSQL and Go read alike, and
  the substring plan that answers for a compiled pattern. The parse tree of \<open>regexp/syntax\<close> is a datatype with the
  fields the code reads; what its other operators match, and how a folded literal matches, are parameters.
\<close>

section \<open>Parse trees\<close>

datatype 'o regop = OpLiteral | OpAnyChar | OpAnyCharNotNL | OpStar | OpCapture | OpConcat | OpAlternate | OpOther 'o

text \<open>An operator with its \<open>FoldCase\<close> flag, the text of its runes, and its subexpressions.\<close>

datatype 'o Regexp = Regexp (re_op: "'o regop") (re_fold: bool) (re_text: string) (re_sub: "'o Regexp list")

definition isASCII :: "string \<Rightarrow> bool" where
  "isASCII s = list_all (\<lambda>c. code c < 128) s"

definition asciiLower :: "char \<Rightarrow> char" where
  "asciiLower b = (if 65 \<le> code b \<and> code b \<le> 90 then char_of (code b + 32) else b)"

text \<open>\<open>strings.ToLower\<close>, which the code applies to ASCII text only.\<close>

definition ToLower :: "string \<Rightarrow> string" where
  "ToLower s = map asciiLower s"

fun foldsCase :: "'o Regexp \<Rightarrow> bool" where
  "foldsCase (Regexp op f t subs) = (f \<or> list_ex foldsCase subs)"

section \<open>The plan\<close>

definition isAnyStar :: "'o Regexp \<Rightarrow> bool" where
  "isAnyStar re = (re_op re = OpStar \<and> (case re_sub re of [x] \<Rightarrow> re_op x = OpAnyChar \<or> re_op x = OpAnyCharNotNL | _ \<Rightarrow> False))"

text \<open>The literals equivalent to the pattern and whether they fold case, \<open>None\<close> when there is no such set.\<close>

function searchEquivalentLiterals :: "'o Regexp \<Rightarrow> (string list \<times> bool) option"
  and armLiterals :: "'o Regexp list \<Rightarrow> bool option \<Rightarrow> (string list \<times> bool option) option" where
  "searchEquivalentLiterals re =
     (case re_op re of
        OpCapture \<Rightarrow> (case re_sub re of [x] \<Rightarrow> searchEquivalentLiterals x | _ \<Rightarrow> None)
      | OpLiteral \<Rightarrow>
          if re_fold re then if isASCII (re_text re) then Some ([ToLower (re_text re)], True) else None
          else Some ([re_text re], False)
      | OpConcat \<Rightarrow> (case filter (\<lambda>x. \<not> isAnyStar x) (re_sub re) of [x] \<Rightarrow> searchEquivalentLiterals x | _ \<Rightarrow> None)
      | OpAlternate \<Rightarrow> (case armLiterals (re_sub re) None of Some (l # ls, Some f) \<Rightarrow> Some (l # ls, f) | _ \<Rightarrow> None)
      | _ \<Rightarrow> None)"
| "armLiterals [] f = Some ([], f)"
| "armLiterals (re # res) f =
     (case searchEquivalentLiterals re of None \<Rightarrow> None
      | Some (ls, g) \<Rightarrow>
          if f \<noteq> None \<and> f \<noteq> Some g then None
          else map_option (\<lambda>(ms, h). (ls @ ms, h)) (armLiterals res (Some g)))"
  by pat_completeness auto
termination
proof (relation "measure (\<lambda>x. case x of Inl re \<Rightarrow> size re | Inr (res, f) \<Rightarrow> size_list size res)", goal_cases)
  case (2 re x) then show ?case by (cases re) auto
next
  case (3 re x)
  then have "x \<in> set (filter (\<lambda>x. \<not> isAnyStar x) (re_sub re))" by (metis list.set_intros(1))
  then have "x \<in> set (re_sub re)" by simp
  then have "size x \<le> size_list size (re_sub re)" by (rule size_list_estimation') simp
  then show ?case by (cases re) auto
next
  case (4 re) then show ?case by (cases re) auto
qed auto

declare searchEquivalentLiterals.simps [simp del]

lemma search_ops [simp]:
  "searchEquivalentLiterals (Regexp OpCapture f t subs) = (case subs of [x] \<Rightarrow> searchEquivalentLiterals x | _ \<Rightarrow> None)"
  "searchEquivalentLiterals (Regexp OpLiteral f t subs) =
     (if f then if isASCII t then Some ([ToLower t], True) else None else Some ([t], False))"
  "searchEquivalentLiterals (Regexp OpConcat f t subs) =
     (case filter (\<lambda>x. \<not> isAnyStar x) subs of [x] \<Rightarrow> searchEquivalentLiterals x | _ \<Rightarrow> None)"
  "searchEquivalentLiterals (Regexp OpAlternate f t subs) =
     (case armLiterals subs None of Some (l # ls, Some g) \<Rightarrow> Some (l # ls, g) | _ \<Rightarrow> None)"
  "op \<in> {OpAnyChar, OpAnyCharNotNL, OpStar, OpOther x} \<Longrightarrow> searchEquivalentLiterals (Regexp op f t subs) = None"
  by (subst searchEquivalentLiterals.simps; auto)+

definition literalText :: "'o Regexp \<Rightarrow> (string \<times> bool) option" where
  "literalText re =
     (if re_text re = [] then None
      else if re_fold re then if isASCII (re_text re) then Some (ToLower (re_text re), True) else None
      else Some (re_text re, False))"

function requiredLiteral :: "'o Regexp \<Rightarrow> (string \<times> bool) option" where
  "requiredLiteral re =
     (case re_op re of
        OpCapture \<Rightarrow> (case re_sub re of [x] \<Rightarrow> requiredLiteral x | _ \<Rightarrow> None)
      | OpLiteral \<Rightarrow>
          if re_fold re \<and> \<not> isASCII (re_text re) then None
          else (let s = if re_fold re then ToLower (re_text re) else re_text re in if s = [] then None else Some (s, re_fold re))
      | OpConcat \<Rightarrow>
          (let (best, f) = fold (\<lambda>r (best, f). case r of None \<Rightarrow> (best, f) | Some (s, g) \<Rightarrow> if length s > length best then (s, g) else (best, f))
             (map requiredLiteral (re_sub re)) ([], False) in
           if best = [] then None else Some (best, f))
      | _ \<Rightarrow> None)"
  by pat_completeness auto
termination
proof (relation "measure size", goal_cases)
  case (2 re x) then show ?case by (cases re) auto
next
  case (3 re x)
  then have "size x \<le> size_list size (re_sub re)" by (auto intro: size_list_estimation')
  then show ?case by (cases re) auto
qed auto

declare requiredLiteral.simps [simp del]

lemma required_ops [simp]:
  "requiredLiteral (Regexp OpCapture f t subs) = (case subs of [x] \<Rightarrow> requiredLiteral x | _ \<Rightarrow> None)"
  "requiredLiteral (Regexp OpLiteral f t subs) = literalText (Regexp OpLiteral f t subs)"
  "requiredLiteral (Regexp OpConcat f t subs) =
     (let (best, f) = fold (\<lambda>r (best, f). case r of None \<Rightarrow> (best, f) | Some (s, g) \<Rightarrow> if length s > length best then (s, g) else (best, f))
        (map requiredLiteral subs) ([], False) in if best = [] then None else Some (best, f))"
  "op \<in> {OpAnyChar, OpAnyCharNotNL, OpStar, OpAlternate, OpOther x} \<Longrightarrow> requiredLiteral (Regexp op f t subs) = None"
  by (subst requiredLiteral.simps; auto simp: literalText_def ToLower_def)+

text \<open>The state of the walk: the sets so far, and the folding of the first literal once there is one.\<close>

type_synonym walk_state = "string list list \<times> bool option"

fun armWalk :: "(string \<times> bool) option list \<Rightarrow> string list \<Rightarrow> walk_state \<Rightarrow> walk_state \<times> bool" where
  "armWalk [] found (sets, f) = ((if length found > 0 then sets @ [found] else sets, f), True)"
| "armWalk (None # arms) found (sets, f) = ((sets, f), True)"
| "armWalk (Some (lit, g) # arms) found (sets, f) =
     (if f \<noteq> None \<and> f \<noteq> Some g then ((sets, f), False) else armWalk arms (found @ [lit]) (sets, Some g))"

function walk :: "'o Regexp \<Rightarrow> walk_state \<Rightarrow> walk_state \<times> bool"
  and walks :: "'o Regexp list \<Rightarrow> walk_state \<Rightarrow> walk_state \<times> bool" where
  "walk re st =
     (case re_op re of
        OpCapture \<Rightarrow> (case re_sub re of [x] \<Rightarrow> walk x st | _ \<Rightarrow> (st, True))
      | OpConcat \<Rightarrow> walks (re_sub re) st
      | OpLiteral \<Rightarrow>
          (case literalText re of None \<Rightarrow> (st, True)
           | Some (lit, g) \<Rightarrow> if snd st \<noteq> None \<and> snd st \<noteq> Some g then (st, False) else ((fst st @ [[lit]], Some g), True))
      | OpAlternate \<Rightarrow> armWalk (map requiredLiteral (re_sub re)) [] st
      | _ \<Rightarrow> (st, True))"
| "walks [] st = (st, True)"
| "walks (re # res) st = (case walk re st of (st', goes) \<Rightarrow> if \<not> goes then (st', False) else walks res st')"
  by pat_completeness auto
termination
proof (relation "measure (\<lambda>x. case x of Inl (re, st) \<Rightarrow> size re | Inr (res, st) \<Rightarrow> size_list size res)", goal_cases)
  case (2 re st x) then show ?case by (cases re) auto
next
  case (3 re st) then show ?case by (cases re) auto
qed auto

declare walk.simps [simp del]

lemma walk_ops [simp]:
  "walk (Regexp OpCapture f t subs) st = (case subs of [x] \<Rightarrow> walk x st | _ \<Rightarrow> (st, True))"
  "walk (Regexp OpConcat f t subs) st = walks subs st"
  "walk (Regexp OpLiteral f t subs) st =
     (case literalText (Regexp OpLiteral f t subs) of None \<Rightarrow> (st, True)
      | Some (lit, g) \<Rightarrow> if snd st \<noteq> None \<and> snd st \<noteq> Some g then (st, False) else ((fst st @ [[lit]], Some g), True))"
  "walk (Regexp OpAlternate f t subs) st = armWalk (map requiredLiteral subs) [] st"
  "op \<in> {OpAnyChar, OpAnyCharNotNL, OpStar, OpOther x} \<Longrightarrow> walk (Regexp op f t subs) st = (st, True)"
  by (subst walk.simps; auto)+

definition prefilterSets :: "'o Regexp \<Rightarrow> (string list list \<times> bool) option" where
  "prefilterSets re =
     (case walk re ([], None) of ((sets, f), goes) \<Rightarrow> if \<not> goes \<or> length sets = 0 then None else Some (sets, f = Some True))"

section \<open>The matcher\<close>

definition containsAnyLiteral :: "string \<Rightarrow> string list \<Rightarrow> bool" where
  "containsAnyLiteral s lits = list_ex (strings_Contains s) lits"

text \<open>The inner loop compares from the second byte on.\<close>

definition containsFoldASCII :: "string \<Rightarrow> string \<Rightarrow> bool" where
  "containsFoldASCII s lit =
     (if length lit = 0 then True
      else if length lit > length s then False
      else list_ex (\<lambda>i. asciiLower (s ! i) = lit ! 0 \<and> list_all (\<lambda>j. asciiLower (s ! (i + j)) = lit ! j) [1..<length lit]) [0..<Suc (length s - length lit)])"

definition containsAnyLiteralFoldASCII :: "string \<Rightarrow> string list \<Rightarrow> bool" where
  "containsAnyLiteralFoldASCII s lits = list_ex (containsFoldASCII s) lits"

record RegexMatcher =
  rm_re :: "string \<Rightarrow> bool"
  rm_literals :: "string list"
  rm_prefilter :: "string list list"
  rm_fold :: bool
  rm_foldsCase :: bool

definition goRegexFor :: "string \<Rightarrow> string" where
  "goRegexFor pattern = ''(?s)'' @ pattern"

text \<open>\<open>regexp.Compile\<close> (a pattern as the predicate it decides), \<open>syntax.Parse\<close> and \<open>Simplify\<close> are arguments.\<close>

definition NewRegexMatcher ::
  "(string \<Rightarrow> (string \<Rightarrow> bool) option) \<Rightarrow> (string \<Rightarrow> 'o Regexp option) \<Rightarrow> ('o Regexp \<Rightarrow> 'o Regexp) \<Rightarrow> string \<Rightarrow> RegexMatcher option" where
  "NewRegexMatcher Compile Parse Simplify pattern =
     (case Compile (goRegexFor pattern) of
        None \<Rightarrow> None
      | Some re \<Rightarrow>
          (let m = \<lparr>rm_re = re, rm_literals = [], rm_prefilter = [], rm_fold = False, rm_foldsCase = False\<rparr> in
           case Parse (goRegexFor pattern) of
             None \<Rightarrow> Some m
           | Some parsed \<Rightarrow>
               (let m = m\<lparr>rm_foldsCase := foldsCase parsed\<rparr>; simplified = Simplify parsed in
                case searchEquivalentLiterals simplified of
                  Some (lits, f) \<Rightarrow> Some (m\<lparr>rm_literals := lits, rm_fold := f\<rparr>)
                | None \<Rightarrow>
                    (case prefilterSets simplified of
                       Some (sets, f) \<Rightarrow> Some (m\<lparr>rm_prefilter := sets, rm_fold := f\<rparr>)
                     | None \<Rightarrow> Some m))))"

definition carriesAny :: "RegexMatcher \<Rightarrow> string \<Rightarrow> string list \<Rightarrow> bool" where
  "carriesAny m s lits =
     (if \<not> rm_fold m \<or> \<not> isASCII s then if rm_fold m then True else containsAnyLiteral s lits
      else containsAnyLiteralFoldASCII s lits)"

function mapRunes :: "(nat \<Rightarrow> nat) \<Rightarrow> string \<Rightarrow> string" where
  "mapRunes f s = (if s = [] then [] else EncodeRune (f (fst (DecodeRune s))) @ mapRunes f (drop (snd (DecodeRune s)) s))"
  by pat_completeness auto
termination
  by (relation "measure (\<lambda>(f, s). length s)") (simp_all add: DecodeRune_width)

declare mapRunes.simps [simp del]

function ContainsRune :: "string \<Rightarrow> nat \<Rightarrow> bool" where
  "ContainsRune s r = (if s = [] then False else if fst (DecodeRune s) = r then True else ContainsRune (drop (snd (DecodeRune s)) s) r)"
  by pat_completeness auto
termination
  by (relation "measure (\<lambda>(s, r). length s)") (simp_all add: DecodeRune_width)

declare ContainsRune.simps [simp del]

definition pgFoldSubject :: "string \<Rightarrow> string" where
  "pgFoldSubject s =
     (if \<not> ContainsRune s 0x212A \<and> \<not> ContainsRune s 0x17F then s
      else mapRunes (\<lambda>r. if r = 0x212A \<or> r = 0x17F then RuneError else r) s)"

definition MatchString :: "RegexMatcher option \<Rightarrow> string \<Rightarrow> bool" where
  "MatchString m s =
     (case m of None \<Rightarrow> False
      | Some m \<Rightarrow>
          if rm_foldsCase m \<and> \<not> isASCII s then rm_re m (pgFoldSubject s)
          else if length (rm_literals m) = 0 then
            if list_ex (\<lambda>required. \<not> carriesAny m s required) (rm_prefilter m) then False else rm_re m s
          else if \<not> rm_fold m then containsAnyLiteral s (rm_literals m)
          else if \<not> isASCII s then rm_re m s
          else containsAnyLiteralFoldASCII s (rm_literals m))"

section \<open>What a tree matches\<close>

text \<open>
  \<open>rmatch folds other s re i j\<close>: the tree matches the bytes of \<open>s\<close> from \<open>i\<close> to \<open>j\<close>. \<open>folds\<close> says where a literal matches with
  case folded, \<open>other\<close> what the remaining operators match. A search starts at the border of a rune.
\<close>

inductive rmatch :: "(string \<Rightarrow> string \<Rightarrow> nat \<Rightarrow> nat \<Rightarrow> bool) \<Rightarrow> ('o Regexp \<Rightarrow> string \<Rightarrow> nat \<Rightarrow> nat \<Rightarrow> bool) \<Rightarrow> string \<Rightarrow> 'o Regexp \<Rightarrow> nat \<Rightarrow> nat \<Rightarrow> bool"
  and rseq :: "(string \<Rightarrow> string \<Rightarrow> nat \<Rightarrow> nat \<Rightarrow> bool) \<Rightarrow> ('o Regexp \<Rightarrow> string \<Rightarrow> nat \<Rightarrow> nat \<Rightarrow> bool) \<Rightarrow> string \<Rightarrow> 'o Regexp list \<Rightarrow> nat \<Rightarrow> nat \<Rightarrow> bool"
  for folds other s where
  lit: "prefix t (drop i s) \<Longrightarrow> rmatch folds other s (Regexp OpLiteral False t subs) i (i + length t)"
| lit_fold: "folds t s i j \<Longrightarrow> rmatch folds other s (Regexp OpLiteral True t subs) i j"
| any: "i < length s \<Longrightarrow> rmatch folds other s (Regexp OpAnyChar f t subs) i (i + snd (DecodeRune (drop i s)))"
| any_not_nl: "i < length s \<Longrightarrow> s ! i \<noteq> CHR 0x0A \<Longrightarrow> rmatch folds other s (Regexp OpAnyCharNotNL f t subs) i (i + snd (DecodeRune (drop i s)))"
| star_empty: "rmatch folds other s (Regexp OpStar f t [r]) i i"
| star_more: "rmatch folds other s r i k \<Longrightarrow> rmatch folds other s (Regexp OpStar f t [r]) k j \<Longrightarrow> rmatch folds other s (Regexp OpStar f t [r]) i j"
| capture: "rmatch folds other s r i j \<Longrightarrow> rmatch folds other s (Regexp OpCapture f t [r]) i j"
| concat: "rseq folds other s subs i j \<Longrightarrow> rmatch folds other s (Regexp OpConcat f t subs) i j"
| alternate: "r \<in> set subs \<Longrightarrow> rmatch folds other s r i j \<Longrightarrow> rmatch folds other s (Regexp OpAlternate f t subs) i j"
| other: "other (Regexp (OpOther op) f t subs) s i j \<Longrightarrow> rmatch folds other s (Regexp (OpOther op) f t subs) i j"
| seq_nil: "rseq folds other s [] i i"
| seq_cons: "rmatch folds other s r i k \<Longrightarrow> rseq folds other s rs k j \<Longrightarrow> rseq folds other s (r # rs) i j"

inductive_cases rmatch_elims: "rmatch folds other s (Regexp OpLiteral f t subs) i j" "rmatch folds other s (Regexp OpCapture f t subs) i j"
  "rmatch folds other s (Regexp OpConcat f t subs) i j" "rmatch folds other s (Regexp OpAlternate f t subs) i j"
inductive_simps rmatch_capture: "rmatch folds other s (Regexp OpCapture f t [r]) i j"
inductive_cases rseq_elims: "rseq folds other s [] i j" "rseq folds other s (r # rs) i j"

function border :: "string \<Rightarrow> nat \<Rightarrow> bool" where
  "border s i = (if i = 0 then True else if s = [] then False else if i < snd (DecodeRune s) then False else border (drop (snd (DecodeRune s)) s) (i - snd (DecodeRune s)))"
  by pat_completeness auto
termination
  by (relation "measure (\<lambda>(s, i). length s)") (simp_all add: DecodeRune_width)

declare border.simps [simp del]

definition searches :: "(string \<Rightarrow> string \<Rightarrow> nat \<Rightarrow> nat \<Rightarrow> bool) \<Rightarrow> ('o Regexp \<Rightarrow> string \<Rightarrow> nat \<Rightarrow> nat \<Rightarrow> bool) \<Rightarrow> 'o Regexp \<Rightarrow> string \<Rightarrow> bool" where
  "searches folds other re s \<longleftrightarrow> (\<exists>i j. border s i \<and> rmatch folds other s re i j)"

text \<open>What the code relies on: folding matches ASCII text against ASCII text up to the case of letters, and pattern texts are valid UTF-8.\<close>

definition folds_ascii :: "(string \<Rightarrow> string \<Rightarrow> nat \<Rightarrow> nat \<Rightarrow> bool) \<Rightarrow> bool" where
  "folds_ascii folds \<longleftrightarrow> (\<forall>t s i j. isASCII t \<longrightarrow> isASCII s \<longrightarrow>
     (folds t s i j \<longleftrightarrow> j = i + length t \<and> j \<le> length s \<and> map asciiLower (take (length t) (drop i s)) = ToLower t))"

fun texts_valid :: "'o Regexp \<Rightarrow> bool" where
  "texts_valid (Regexp op f t subs) = (utf8_valid t \<and> list_all texts_valid subs)"

section \<open>Borders\<close>

lemma not_continuation: "utf8_valid t \<Longrightarrow> t \<noteq> [] \<Longrightarrow> \<not> (128 \<le> code (t ! 0) \<and> code (t ! 0) < 192)"
proof -
  assume "utf8_valid t" "t \<noteq> []"
  then have "DecodeRune t \<noteq> (RuneError, 1)" using utf8_step by blast
  then show "\<not> (128 \<le> code (t ! 0) \<and> code (t ! 0) < 192)" using \<open>t \<noteq> []\<close> by (auto simp: DecodeRune_def Let_def split: if_splits)
qed

lemma within_rune:
  assumes "DecodeRune s \<noteq> (RuneError, 1)" and "0 < i" and "i < snd (DecodeRune s)"
  shows "i < length s \<and> 128 \<le> code (s ! i) \<and> code (s ! i) < 192"
proof -
  have "i = 1 \<or> i = 2 \<or> i = 3" using assms(2,3) by (auto simp: DecodeRune_def Let_def split: if_splits)
  then consider "i = 1" | "i = 2" | "i = 3" by blast
  then show ?thesis
    by cases (use assms in \<open>auto simp: DecodeRune_def Let_def numeral_2_eq_2 numeral_3_eq_3 split: if_splits\<close>)
qed

lemma border_of_text:
  assumes "utf8_valid s" and "utf8_valid t" and "t \<noteq> []" and "prefix t (drop i s)"
  shows "border s i"
  using assms
proof (induction s arbitrary: i rule: length_induct)
  case (1 s)
  have i: "i < length s" using 1(4,5) by (metis drop_eq_Nil linorder_not_le prefix_Nil)
  then have ne: "s \<noteq> []" by auto
  note st = utf8_step [OF 1(2) ne] and w = DecodeRune_width [OF ne]
  have hd: "s ! i = t ! 0" using 1(4,5) i by (metis append_eq_Cons_conv hd_conv_nth hd_drop_conv_nth list.sel(1) prefix_def hd_append2)
  have ge: "snd (DecodeRune s) \<le> i" if "i \<noteq> 0"
    using within_rune [of s i] st that hd not_continuation [OF 1(3,4)] by fastforce
  show ?case
  proof (cases "i = 0")
    case False
    have "border (drop (snd (DecodeRune s)) s) (i - snd (DecodeRune s))"
      by (rule 1(1) [rule_format]) (use 1 st w ge [OF False] ne in auto)
    then show ?thesis using False ne ge [OF False] by (subst border.simps) simp
  qed (simp add: border.simps)
qed

lemma border_ascii: "isASCII s \<Longrightarrow> i \<le> length s \<Longrightarrow> border s i"
proof (induction s arbitrary: i)
  case (Cons c s)
  then show ?case by (subst border.simps) (simp add: isASCII_def DecodeRune_ascii)
qed (simp add: border.simps)

section \<open>Occurrences of a literal\<close>

definition occurs :: "bool \<Rightarrow> string \<Rightarrow> string \<Rightarrow> nat \<Rightarrow> bool" where
  "occurs f l s i \<longleftrightarrow> (if f then isASCII s \<longrightarrow> i + length l \<le> length s \<and> map asciiLower (take (length l) (drop i s)) = l else prefix l (drop i s))"

lemma containsFoldASCII_iff:
  assumes "isASCII s"
  shows "containsFoldASCII s l \<longleftrightarrow> (\<exists>i. occurs True l s i)"
proof (cases "l = [] \<or> length s < length l")
  case True
  then show ?thesis using assms by (auto simp: containsFoldASCII_def occurs_def intro: exI [of _ 0])
next
  case False
  have at: "occurs True l s i \<longleftrightarrow> i + length l \<le> length s \<and> (\<forall>j < length l. asciiLower (s ! (i + j)) = l ! j)" for i
    using assms by (auto simp: occurs_def list_eq_iff_nth_eq)
  have "(asciiLower (s ! i) = l ! 0 \<and> list_all (\<lambda>j. asciiLower (s ! (i + j)) = l ! j) [1..<length l]) \<longleftrightarrow> (\<forall>j < length l. asciiLower (s ! (i + j)) = l ! j)" for i
  proof
    assume r: "asciiLower (s ! i) = l ! 0 \<and> list_all (\<lambda>j. asciiLower (s ! (i + j)) = l ! j) [1..<length l]"
    show "\<forall>j < length l. asciiLower (s ! (i + j)) = l ! j"
    proof (intro allI impI)
      fix j assume "j < length l" then show "asciiLower (s ! (i + j)) = l ! j"
        using r bspec [of "set [1..<length l]" _ j] by (cases "j = 0") (auto simp: list_all_iff)
    qed
  qed (use False in \<open>auto simp: list_all_iff\<close>)
  moreover have "i < Suc (length s - length l) \<longleftrightarrow> i + length l \<le> length s" for i using False by auto
  ultimately show ?thesis using False by (auto simp: containsFoldASCII_def list_ex_iff at simp del: upt_Suc)
qed

lemma contains_iff: "strings_Contains s l \<longleftrightarrow> (\<exists>i. occurs False l s i)"
  using prefix_contains [of l _ s] by (auto simp: occurs_def strings_Contains_def list_ex_iff simp del: upt_Suc)


text \<open>A match within a literal's occurrence, and an occurrence that every match contains.\<close>

definition demands :: "bool \<Rightarrow> string list \<Rightarrow> string \<Rightarrow> bool" where
  "demands f lits s \<longleftrightarrow> (\<exists>l \<in> set lits. \<exists>k. occurs f l s k)"

lemma ToLower_simps [simp]: "length (ToLower t) = length t" "ToLower t = [] \<longleftrightarrow> t = []"
  by (simp_all add: ToLower_def)

lemma ToLower_ascii: "isASCII t \<Longrightarrow> isASCII (ToLower t)"
  by (auto simp: isASCII_def ToLower_def asciiLower_def list_all_iff)

lemma ascii_valid: "isASCII t \<Longrightarrow> utf8_valid t"
  by (rule utf8_ascii) (simp add: isASCII_def list_all_iff)

lemma literal_occurs:
  assumes "rmatch folds other s (Regexp OpLiteral f t subs) i j" and "folds_ascii folds" and "f \<longrightarrow> isASCII t"
  shows "occurs f (if f then ToLower t else t) s i"
  using assms(1)
proof (rule rmatch_elims(1))
  assume "f" "folds t s i j"
  then show ?thesis using assms(2,3) by (auto simp: occurs_def folds_ascii_def)
qed (auto simp: occurs_def)

lemma occurs_literal:
  assumes "occurs f (if f then ToLower t else t) s i" and "folds_ascii folds" and "f \<longrightarrow> isASCII t \<and> isASCII s"
  shows "rmatch folds other s (Regexp OpLiteral f t subs) i (i + length t)"
proof (cases f)
  case True
  then have "folds t s i (i + length t)" using assms by (simp add: occurs_def folds_ascii_def)
  then show ?thesis using True by (simp add: rmatch_rseq.lit_fold)
qed (use assms in \<open>simp add: occurs_def rmatch_rseq.lit\<close>)

lemma rseq_member: "rseq folds other s subs i j \<Longrightarrow> x \<in> set subs \<Longrightarrow> \<exists>k l. rmatch folds other s x k l"
  by (induction subs arbitrary: i) (auto elim!: rseq_elims)

lemma any_star_empty: "isAnyStar x \<Longrightarrow> rmatch folds other s x i i"
  by (cases x) (auto simp: isAnyStar_def split: list.splits intro: rmatch_rseq.star_empty)

lemma rseq_around:
  "filter (\<lambda>x. \<not> isAnyStar x) subs = [] \<Longrightarrow> rseq folds other s subs j j"
  "filter (\<lambda>x. \<not> isAnyStar x) subs = [x] \<Longrightarrow> rmatch folds other s x i j \<Longrightarrow> rseq folds other s subs i j"
proof -
  show none: "rseq folds other s subs j j" if "filter (\<lambda>x. \<not> isAnyStar x) subs = []" for subs
    using that by (induction subs) (auto intro: rmatch_rseq.seq_nil rmatch_rseq.seq_cons any_star_empty split: if_splits)
  show "rseq folds other s subs i j" if "filter (\<lambda>x. \<not> isAnyStar x) subs = [x]" and "rmatch folds other s x i j"
    using that by (induction subs) (auto intro: rmatch_rseq.seq_cons any_star_empty none split: if_splits)
qed

lemma armLiterals_arms:
  assumes "armLiterals arms f = Some (lits, h)"
  shows "(f \<noteq> None \<longrightarrow> h = f) \<and>
    (\<forall>a \<in> set arms. \<exists>ls. searchEquivalentLiterals a = Some (ls, h = Some True) \<and> set ls \<subseteq> set lits) \<and>
    (\<forall>l \<in> set lits. \<exists>a \<in> set arms. \<exists>ls. searchEquivalentLiterals a = Some (ls, h = Some True) \<and> l \<in> set ls)"
  using assms
proof (induction arms arbitrary: f lits)
  case (Cons a arms)
  then obtain ls g ms where a: "searchEquivalentLiterals a = Some (ls, g)" and ms: "armLiterals arms (Some g) = Some (ms, h)"
    and lits: "lits = ls @ ms" and f: "f = None \<or> f = Some g"
    by (auto split: option.splits if_splits)
  note ih = Cons.IH [OF ms]
  then have "h = Some g" by simp
  moreover have "\<forall>l \<in> set lits. \<exists>b \<in> set (a # arms). \<exists>ls. searchEquivalentLiterals b = Some (ls, h = Some True) \<and> l \<in> set ls"
  proof
    fix l assume "l \<in> set lits"
    then consider "l \<in> set ls" | "l \<in> set ms" using lits by auto
    then show "\<exists>b \<in> set (a # arms). \<exists>ls. searchEquivalentLiterals b = Some (ls, h = Some True) \<and> l \<in> set ls"
      by cases (use a ih \<open>h = Some g\<close> in auto)
  qed
  moreover have "\<forall>b \<in> set (a # arms). \<exists>ls. searchEquivalentLiterals b = Some (ls, h = Some True) \<and> set ls \<subseteq> set lits"
  proof
    fix b assume "b \<in> set (a # arms)"
    then consider "b = a" | "b \<in> set arms" by auto
    then show "\<exists>ls. searchEquivalentLiterals b = Some (ls, h = Some True) \<and> set ls \<subseteq> set lits"
    proof cases
      case 2
      then obtain ls' where "searchEquivalentLiterals b = Some (ls', h = Some True)" "set ls' \<subseteq> set ms" using ih by blast
      then show ?thesis using lits by auto
    qed (use a lits \<open>h = Some g\<close> in auto)
  qed
  ultimately show ?case using f by auto
qed auto

lemma search_literals:
  assumes "folds_ascii folds"
  shows "searchEquivalentLiterals re = Some (lits, f) \<Longrightarrow>
    (\<forall>i j. rmatch folds other s re i j \<longrightarrow> demands f lits s) \<and>
    (\<forall>l \<in> set lits. \<forall>i. (f \<longrightarrow> isASCII s) \<longrightarrow> occurs f l s i \<longrightarrow> (\<exists>j. rmatch folds other s re i j)) \<and>
    (texts_valid re \<longrightarrow> list_all utf8_valid lits)"
proof (induction re arbitrary: lits f)
  case (Regexp op g t subs)
  show ?case
  proof (cases op)
    case OpLiteral
    then have eq: "f = g" "lits = [if g then ToLower t else t]" and asc: "g \<longrightarrow> isASCII t"
      using Regexp.prems by (auto split: if_splits)
    have 1: "demands f lits s" if "rmatch folds other s (Regexp op g t subs) i j" for i j
    proof -
      have "occurs g (if g then ToLower t else t) s i" using literal_occurs [OF _ assms asc] that OpLiteral by blast
      then show ?thesis using eq by (auto simp: demands_def)
    qed
    have 2: "\<exists>j. rmatch folds other s (Regexp op g t subs) i j" if "l \<in> set lits" "f \<longrightarrow> isASCII s" "occurs f l s i" for l i
      using occurs_literal [OF _ assms, of g t s i other subs] that eq asc OpLiteral by (intro exI) simp
    have 3: "list_all utf8_valid lits" if "texts_valid (Regexp op g t subs)"
      using that eq asc ascii_valid [OF ToLower_ascii, of t] by simp
    show ?thesis using 1 2 3 by blast
  next
    case OpCapture
    then obtain x where x: "subs = [x]" "searchEquivalentLiterals x = Some (lits, f)"
      using Regexp.prems by (auto split: list.splits)
    then show ?thesis using Regexp.IH [of x lits f] OpCapture by (simp add: rmatch_capture)
  next
    case OpConcat
    then obtain x where x: "filter (\<lambda>x. \<not> isAnyStar x) subs = [x]" "searchEquivalentLiterals x = Some (lits, f)"
      using Regexp.prems by (auto split: list.splits)
    then have mem: "x \<in> set subs" by (metis filter_is_subset list.set_intros(1) subsetD)
    note ih = Regexp.IH [OF mem x(2)]
    have "\<exists>k l. rmatch folds other s x k l" if "rmatch folds other s (Regexp op g t subs) i j" for i j
      using that OpConcat mem by (auto elim!: rmatch_elims dest: rseq_member)
    moreover have "rmatch folds other s (Regexp op g t subs) i j" if "rmatch folds other s x i j" for i j
      using rseq_around(2) [OF x(1) that] OpConcat by (simp add: rmatch_rseq.concat)
    moreover have "texts_valid x" if "texts_valid (Regexp op g t subs)" using that mem by (simp add: list_all_iff)
    ultimately show ?thesis using ih by blast
  next
    case OpAlternate
    then have "armLiterals subs None = Some (lits, Some f)"
      using Regexp.prems by (auto split: option.splits list.splits)
    note arms = armLiterals_arms [OF this, simplified]
    have 1: "demands f lits s" if m: "rmatch folds other s (Regexp op g t subs) i j" for i j
    proof -
      obtain x where x: "x \<in> set subs" "rmatch folds other s x i j" using m OpAlternate by (auto elim!: rmatch_elims)
      then obtain ls where "searchEquivalentLiterals x = Some (ls, f)" "set ls \<subseteq> set lits" using arms by blast
      then show ?thesis using Regexp.IH [OF x(1)] x(2) by (fastforce simp: demands_def)
    qed
    have 2: "\<exists>j. rmatch folds other s (Regexp op g t subs) i j" if l: "l \<in> set lits" and o: "f \<longrightarrow> isASCII s" "occurs f l s i" for l i
    proof -
      obtain x ls where x: "x \<in> set subs" "searchEquivalentLiterals x = Some (ls, f)" "l \<in> set ls" using arms l by blast
      then have "\<exists>j. rmatch folds other s x i j" using Regexp.IH [OF x(1,2)] o by blast
      then show ?thesis using x(1) OpAlternate by (blast intro: rmatch_rseq.alternate)
    qed
    have 3: "list_all utf8_valid lits" if "texts_valid (Regexp op g t subs)"
      using arms Regexp.IH that by (fastforce simp: list_all_iff)
    show ?thesis using 1 2 3 by blast
  qed (use Regexp.prems in simp_all)
qed

section \<open>The prefilter is necessary\<close>

lemma literalText_occurs:
  assumes "literalText (Regexp OpLiteral g t subs) = Some (l, f)" and "rmatch folds other s (Regexp OpLiteral g t subs) i j" and "folds_ascii folds"
  shows "occurs f l s i"
  using assms(1) literal_occurs [OF assms(2,3)] by (auto simp: literalText_def split: if_splits)

lemma best_member:
  fixes b f
  defines "pick \<equiv> \<lambda>r (best, f). case r of None \<Rightarrow> (best, f) | Some (s, g) \<Rightarrow> if length s > length best then (s, g) else (best, f)"
  assumes "fold pick rs (b, f) = (best, h)"
  shows "(best, h) = (b, f) \<or> Some (best, h) \<in> set rs"
  using assms(2)
proof (induction rs arbitrary: b f)
  case (Cons r rs)
  obtain b' f' where p: "pick r (b, f) = (b', f')" by force
  then have "(b', f') = (b, f) \<or> r = Some (b', f')" by (auto simp: pick_def split: option.splits if_splits)
  then show ?case using Cons.IH [of b' f'] Cons.prems p by auto
qed simp

lemma required_occurs:
  assumes "folds_ascii folds"
  shows "requiredLiteral re = Some (l, f) \<Longrightarrow> rmatch folds other s re i j \<Longrightarrow> \<exists>k. occurs f l s k"
proof (induction re arbitrary: l f i j)
  case (Regexp op g t subs)
  show ?case
  proof (cases op)
    case OpLiteral
    then have "occurs f l s i" using literalText_occurs [OF _ _ assms, of g t subs l f other s i j] Regexp.prems by simp
    then show ?thesis ..
  next
    case OpCapture
    then show ?thesis using Regexp by (auto split: list.splits elim!: rmatch_elims)
  next
    case OpConcat
    obtain best h where b: "fold (\<lambda>r (best, f). case r of None \<Rightarrow> (best, f) | Some (s, g) \<Rightarrow> if length s > length best then (s, g) else (best, f))
      (map requiredLiteral subs) ([], False) = (best, h)" by force
    have "best \<noteq> [] \<and> l = best \<and> f = h" using Regexp.prems(1) OpConcat b by (auto split: if_splits)
    then have "Some (l, f) \<in> set (map requiredLiteral subs)" using best_member [OF b] by auto
    then obtain x where x: "x \<in> set subs" "requiredLiteral x = Some (l, f)" by auto
    then have "\<exists>k m. rmatch folds other s x k m" using Regexp.prems(2) OpConcat by (auto elim!: rmatch_elims dest: rseq_member)
    then show ?thesis using Regexp.IH [OF x] by blast
  qed (use Regexp.prems in simp_all)
qed

text \<open>What a stretch of the walk adds, when \<open>M\<close> says that what it walked over matches.\<close>

definition adds :: "string \<Rightarrow> bool \<Rightarrow> walk_state \<Rightarrow> walk_state \<Rightarrow> bool" where
  "adds s M st st' \<longleftrightarrow> (snd st \<noteq> None \<longrightarrow> snd st' = snd st) \<and>
     (\<exists>new. fst st' = fst st @ new \<and> (new \<noteq> [] \<longrightarrow> snd st' \<noteq> None) \<and> (M \<longrightarrow> (\<forall>lits \<in> set new. demands (snd st' = Some True) lits s)))"

lemma adds_refl: "adds s M st st"
  by (simp add: adds_def)

lemma adds_trans:
  assumes "adds s M st st'" and "adds s M st' st''"
  shows "adds s M st st''"
proof -
  obtain new new' where n: "fst st' = fst st @ new" "new \<noteq> [] \<longrightarrow> snd st' \<noteq> None" "M \<longrightarrow> (\<forall>lits \<in> set new. demands (snd st' = Some True) lits s)"
    and n': "fst st'' = fst st' @ new'" "new' \<noteq> [] \<longrightarrow> snd st'' \<noteq> None" "M \<longrightarrow> (\<forall>lits \<in> set new'. demands (snd st'' = Some True) lits s)"
    using assms unfolding adds_def by blast
  have keep: "snd st \<noteq> None \<longrightarrow> snd st' = snd st" "snd st' \<noteq> None \<longrightarrow> snd st'' = snd st'" using assms unfolding adds_def by blast+
  have "new @ new' \<noteq> [] \<longrightarrow> snd st'' \<noteq> None" using n(2) n'(2) keep(2) by auto
  moreover have "M \<longrightarrow> (\<forall>lits \<in> set (new @ new'). demands (snd st'' = Some True) lits s)"
  proof (intro impI ballI)
    fix lits assume M and "lits \<in> set (new @ new')"
    then consider "lits \<in> set new" "snd st'' = snd st'" | "lits \<in> set new'" using n(2) keep(2) by (cases new) auto
    then show "demands (snd st'' = Some True) lits s" by cases (use n(3) n'(3) \<open>M\<close> in auto)
  qed
  moreover have "snd st \<noteq> None \<longrightarrow> snd st'' = snd st" using keep by simp
  ultimately show ?thesis unfolding adds_def using n(1) n'(1) by (metis append.assoc)
qed

lemma adds_weaken: "adds s M st st' \<Longrightarrow> (M' \<Longrightarrow> M) \<Longrightarrow> adds s M' st st'"
  unfolding adds_def by blast

text \<open>An alternation adds one set, which holds a literal of every arm.\<close>

lemma armWalk_adds:
  "armWalk arms found (sets, f) = ((sets', f'), goes) \<Longrightarrow> (found \<noteq> [] \<longrightarrow> f \<noteq> None) \<Longrightarrow>
   (f \<noteq> None \<longrightarrow> f' = f) \<and> (sets' = sets \<or> (\<exists>S. sets' = sets @ [S] \<and> f' \<noteq> None \<and> set found \<subseteq> set S \<and>
     (\<forall>a \<in> set arms. \<exists>l \<in> set S. a = Some (l, f' = Some True))))"
proof (induction arms found "(sets, f)" arbitrary: f rule: armWalk.induct)
  case (3 lit g arms found f)
  show ?case
  proof (cases "f \<noteq> None \<and> f \<noteq> Some g")
    case False
    have "armWalk arms (found @ [lit]) (sets, Some g) = ((sets', f'), goes)" using 3(2) unfolding armWalk.simps if_not_P [OF False] .
    note ih = 3(1) [OF False this]
    then have "f' = Some g" by simp
    moreover have "f = None \<or> f = Some g" using False by auto
    ultimately show ?thesis using ih by fastforce
  qed (use 3 in auto)
qed (auto split: if_splits)

lemma walk_adds:
  assumes "folds_ascii folds"
  shows "adds s (\<exists>i j. rmatch folds other s re i j) st (fst (walk re st))"
proof (induction re arbitrary: st)
  case (Regexp op g t subs)
  let ?M = "\<exists>i j. rmatch folds other s (Regexp op g t subs) i j"
  show ?case
  proof (cases op)
    case OpLiteral
    show ?thesis
    proof (cases "fst (walk (Regexp op g t subs) st) = st")
      case False
      then obtain l f where l: "literalText (Regexp op g t subs) = Some (l, f)" "snd st = None \<or> snd st = Some f"
        "fst (walk (Regexp op g t subs) st) = (fst st @ [[l]], Some f)"
        using OpLiteral by (auto split: option.splits if_splits)
      have "occurs f l s i" if "rmatch folds other s (Regexp op g t subs) i j" for i j
        using literalText_occurs [OF _ _ assms] l(1) that OpLiteral by blast
      then have "?M \<longrightarrow> demands f [l] s" unfolding demands_def by auto
      then show ?thesis using l(2,3) by (auto simp: adds_def)
    qed (simp add: adds_refl)
  next
    case OpCapture
    show ?thesis
    proof (cases "\<exists>x. subs = [x]")
      case True
      then obtain x where x: "subs = [x]" by blast
      show ?thesis using Regexp.IH [of x st] OpCapture x unfolding x by (simp add: rmatch_capture)
    qed (use OpCapture in \<open>auto simp: adds_refl split: list.splits\<close>)
  next
    case OpConcat
    have "adds s (\<forall>x \<in> set rs. \<exists>i j. rmatch folds other s x i j) st (fst (walks rs st))" if "set rs \<subseteq> set subs" for rs
      using that
    proof (induction rs arbitrary: st)
      case (Cons r rs)
      let ?N = "\<forall>x \<in> set (r # rs). \<exists>i j. rmatch folds other s x i j"
      obtain st' goes where w: "walk r st = (st', goes)" by (metis surj_pair)
      have "adds s (\<exists>i j. rmatch folds other s r i j) st (fst (walk r st))" by (rule Regexp.IH) (use Cons.prems in simp)
      then have a: "adds s ?N st st'" using w by (auto intro: adds_weaken)
      have b: "adds s ?N st' (fst (walks rs st'))" by (rule adds_weaken [OF Cons.IH]) (use Cons.prems in auto)
      show ?case using w a adds_trans [OF a b] by simp
    qed (simp add: adds_refl)
    from this [OF subset_refl] show ?thesis
      using OpConcat by (auto intro: adds_weaken elim!: rmatch_elims dest: rseq_member)
  next
    case OpAlternate
    obtain sets f where st: "st = (sets, f)" by force
    obtain sets' f' goes where w: "armWalk (map requiredLiteral subs) [] (sets, f) = ((sets', f'), goes)" by (metis surj_pair)
    note arms = armWalk_adds [OF w, simplified]
    have "demands (f' = Some True) S s" if every: "\<forall>a \<in> set subs. \<exists>l \<in> set S. requiredLiteral a = Some (l, f' = Some True)" and m: ?M for S
    proof -
      obtain x i j where x: "x \<in> set subs" "rmatch folds other s x i j" using m OpAlternate by (auto elim!: rmatch_elims)
      then obtain l where "l \<in> set S" "requiredLiteral x = Some (l, f' = Some True)" using every by blast
      then show ?thesis using required_occurs [OF assms _ x(2)] by (auto simp: demands_def)
    qed
    then show ?thesis using arms w st OpAlternate by (fastforce simp: adds_def)
  qed (simp_all add: adds_refl)
qed

lemma prefilter_necessary:
  assumes "folds_ascii folds" and "prefilterSets re = Some (sets, f)" and "rmatch folds other s re i j"
  shows "\<forall>lits \<in> set sets. demands f lits s"
proof -
  obtain h goes where w: "walk re ([], None) = ((sets, h), goes)" and f: "f = (h = Some True)"
    using assms(2) by (auto simp: prefilterSets_def split: prod.splits if_splits)
  then show ?thesis using walk_adds [OF assms(1), of s other re "([], None)"] assms(3) by (auto simp: adds_def)
qed

section \<open>The plan answers as the engine does\<close>

lemma literals_equivalent:
  assumes "folds_ascii folds" and "searchEquivalentLiterals re = Some (lits, f)" and "texts_valid re"
    and "utf8_valid s" and "f \<longrightarrow> isASCII s"
  shows "demands f lits s \<longleftrightarrow> searches folds other re s"
proof
  note lits = search_literals [OF assms(1,2), of other s]
  show "demands f lits s" if "searches folds other re s" using that lits unfolding searches_def by blast
  assume "demands f lits s"
  then obtain l k where l: "l \<in> set lits" "occurs f l s k" unfolding demands_def by blast
  have "utf8_valid l" using lits assms(3) l(1) by (simp add: list_all_iff)
  have "border s k \<or> l = [] \<and> occurs f l s 0"
  proof (cases f)
    case True
    then show ?thesis using l(2) assms(5) border_ascii [of s k] by (simp add: occurs_def)
  next
    case False
    then show ?thesis using l(2) border_of_text [OF assms(4) \<open>utf8_valid l\<close>, of k] by (cases "l = []") (auto simp: occurs_def)
  qed
  then obtain i where "border s i" "occurs f l s i" using l(2) border.simps [of s 0] by metis
  then show "searches folds other re s" using lits l(1) assms(5) unfolding searches_def by blast
qed

lemma contains_demands: "containsAnyLiteral s lits \<longleftrightarrow> demands False lits s"
  by (simp add: containsAnyLiteral_def demands_def list_ex_iff contains_iff)

lemma contains_fold_demands: "isASCII s \<Longrightarrow> containsAnyLiteralFoldASCII s lits \<longleftrightarrow> demands True lits s"
  by (simp add: containsAnyLiteralFoldASCII_def demands_def list_ex_iff containsFoldASCII_iff)

lemma carriesAny_demands: "demands (rm_fold m) lits s \<Longrightarrow> carriesAny m s lits"
  by (cases "rm_fold m") (simp_all add: carriesAny_def contains_demands contains_fold_demands)

lemma search_nonempty: "searchEquivalentLiterals re = Some (lits, f) \<Longrightarrow> lits \<noteq> []"
proof (induction re arbitrary: lits f)
  case (Regexp op g t subs)
  show ?case
  proof (cases op)
    case OpConcat
    then obtain x where "filter (\<lambda>x. \<not> isAnyStar x) subs = [x]" "searchEquivalentLiterals x = Some (lits, f)"
      using Regexp.prems by (auto split: list.splits)
    then show ?thesis using Regexp.IH by (metis filter_is_subset list.set_intros(1) subsetD)
  qed (use Regexp in \<open>auto split: list.splits option.splits if_splits\<close>)
qed

text \<open>
  C25. The substring plan is invisible: for every pattern that compiles and parses, and every valid subject,
  the matcher answers what the compiled pattern answers, on the subject itself or, where a pattern that
  folds case meets a subject that is not ASCII, on the subject with the two runes replaced. The compiled pattern is
  assumed to search for the simplified tree, and case folding to be that of ASCII letters on ASCII text.
\<close>

theorem regex_plan_equivalent:
  assumes "Compile (goRegexFor pattern) = Some engine" and "Parse (goRegexFor pattern) = Some parsed"
    and "engine = searches folds other (Simplify parsed)" and "folds_ascii folds" and "texts_valid (Simplify parsed)" and "utf8_valid s"
  shows "MatchString (NewRegexMatcher Compile Parse Simplify pattern) s =
    engine (if foldsCase parsed \<and> \<not> isASCII s then pgFoldSubject s else s)"
proof (cases "foldsCase parsed \<and> \<not> isASCII s")
  case True
  then show ?thesis using assms(1,2) by (auto simp: NewRegexMatcher_def MatchString_def Let_def split: option.splits)
next
  case plain: False
  show ?thesis
  proof (cases "searchEquivalentLiterals (Simplify parsed)")
    case (Some r)
    obtain lits f where r: "r = (lits, f)" by force
    note eq = literals_equivalent [OF assms(4) Some [unfolded r] assms(5,6), of other]
    show ?thesis using assms(1,2,3) plain Some r eq search_nonempty [OF Some [unfolded r]]
      by (auto simp: NewRegexMatcher_def MatchString_def Let_def contains_demands contains_fold_demands)
  next
    case None
    show ?thesis
    proof (cases "prefilterSets (Simplify parsed)")
      case (Some r)
      obtain sets f where r: "r = (sets, f)" by force
      define m where "m = \<lparr>rm_re = engine, rm_literals = [], rm_prefilter = sets, rm_fold = f, rm_foldsCase = foldsCase parsed\<rparr>"
      have "NewRegexMatcher Compile Parse Simplify pattern = Some m"
        using assms(1,2) None Some r by (simp add: NewRegexMatcher_def m_def)
      moreover have "list_all (carriesAny m s) sets" if "engine s"
        using that prefilter_necessary [OF assms(4) Some [unfolded r], of other s] carriesAny_demands [of m] assms(3)
        by (auto simp: searches_def list_all_iff m_def)
      ultimately show ?thesis using plain by (auto simp: MatchString_def m_def list_ex_iff list_all_iff)
    qed (use assms(1,2) plain None in \<open>auto simp: NewRegexMatcher_def MatchString_def\<close>)
  qed
qed

definition ascii_fold :: "string \<Rightarrow> string \<Rightarrow> nat \<Rightarrow> nat \<Rightarrow> bool" where
  "ascii_fold t s i j \<longleftrightarrow> j = i + length t \<and> j \<le> length s \<and> map asciiLower (take (length t) (drop i s)) = ToLower t"

text \<open>The tree of the folding pattern of a name, and one whose arms need a literal each.\<close>

definition name_tree :: "unit Regexp" where
  "name_tree = (let anything = Regexp OpStar False [] [Regexp OpAnyChar False [] []] in
     Regexp OpConcat False [] [anything, Regexp OpLiteral True ''SMITH'' [], anything])"

theorem regex_plan_equivalent_witness:
  "searches ascii_fold (\<lambda>_ _ _ _. False) name_tree ''jSmith'' \<and> \<not> searches ascii_fold (\<lambda>_ _ _ _. False) name_tree ''jsmyth''"
proof -
  let ?e = "searches ascii_fold (\<lambda>_ _ _ _. False) name_tree"
  let ?m = "NewRegexMatcher (\<lambda>_. Some ?e) (\<lambda>_. Some name_tree) id ''(?i).*SMITH.*''"
  have low: "ToLower ''SMITH'' = ''smith''" by code_simp
  have "folds_ascii ascii_fold" "texts_valid (id name_tree)"
    by (auto simp: folds_ascii_def ascii_fold_def name_tree_def Let_def utf8_ascii)
  note eq = regex_plan_equivalent [of "\<lambda>_. Some ?e" "''(?i).*SMITH.*''" ?e "\<lambda>_. Some name_tree" name_tree ascii_fold "\<lambda>_ _ _ _. False" id, OF refl refl _ this]
  have "?m = Some \<lparr>rm_re = ?e, rm_literals = [''smith''], rm_prefilter = [], rm_fold = True, rm_foldsCase = True\<rparr>"
    by (simp add: NewRegexMatcher_def name_tree_def Let_def isAnyStar_def isASCII_def low)
  moreover have "containsAnyLiteralFoldASCII ''jSmith'' [''smith'']" "\<not> containsAnyLiteralFoldASCII ''jsmyth'' [''smith'']"
    "isASCII ''jSmith''" "isASCII ''jsmyth''" by code_simp+
  ultimately have "MatchString ?m ''jSmith''" "\<not> MatchString ?m ''jsmyth''" by (simp_all add: MatchString_def)
  then show ?thesis using eq [of "''jSmith''"] eq [of "''jsmyth''"] by (simp add: utf8_ascii isASCII_def)
qed

end
