(* ===== verification/RegexScreen.thy ===== *)
theory RegexScreen
  imports Regex Strconv
begin

text \<open>
  The screen of the patterns that are served from the replica, the second half of \<open>internal/engine/interpret/regexfast.go\<close>. A scan of
  the source at an index is a function of the pattern from that index on. A grammar, written from the rules
  in the comments of the source, states what is admitted. It is a grammar of the screen: how PostgreSQL or Go
  reads an admitted pattern is not modelled, and the last lemma shows one the two do not read alike.
\<close>

section \<open>The screen\<close>

definition isDecimalDigit :: "char \<Rightarrow> bool" where
  "isDecimalDigit c = (code CHR ''0'' \<le> code c \<and> code c \<le> code CHR ''9'')"

definition pgMaxRepeat :: nat where
  "pgMaxRepeat = 255"

text \<open>The digits at \<open>s\<close>, counted on from \<open>cnt\<close>, with the index \<open>i\<close> that moves along.\<close>

fun count_digits :: "string \<Rightarrow> nat \<Rightarrow> nat \<Rightarrow> (nat \<times> nat) option" where
  "count_digits [] cnt i = Some (cnt, i)"
| "count_digits (c # s) cnt i =
     (if isDecimalDigit c then
        let cnt = cnt * 10 + (code c - code CHR ''0'') in
        if cnt > pgMaxRepeat then None else count_digits s cnt (i + 1)
      else Some (cnt, i))"

definition pgBoundCount :: "string \<Rightarrow> nat \<Rightarrow> (nat \<times> nat) option" where
  "pgBoundCount s start =
     (case count_digits (drop start s) 0 start of
        None \<Rightarrow> None
      | Some (cnt, i) \<Rightarrow> if i = start \<or> (s ! start = CHR ''0'' \<and> i - start > 1) then None else Some (cnt, i))"

definition pgBoundLength :: "string \<Rightarrow> nat option" where
  "pgBoundLength s =
     (case pgBoundCount s 0 of
        None \<Rightarrow> None
      | Some (lo, i) \<Rightarrow>
          if i < length s \<and> s ! i = CHR ''}'' then Some (i + 1)
          else if i \<ge> length s \<or> s ! i \<noteq> CHR '','' then None
          else if i + 1 < length s \<and> s ! (i + 1) = CHR ''}'' then Some (i + 2)
          else (case pgBoundCount s (i + 1) of
                  None \<Rightarrow> None
                | Some (hi, i) \<Rightarrow> if hi < lo \<or> i \<ge> length s \<or> s ! i \<noteq> CHR ''}'' then None else Some (i + 1)))"

text \<open>The members of a bracket expression: what follows its end, \<open>None\<close> for a POSIX construct or no end.\<close>

fun bracketEnd :: "string \<Rightarrow> string option" where
  "bracketEnd [] = None"
| "bracketEnd (c # s) =
     (if c = CHR '']'' then Some s
      else if c = CHR ''['' \<and> s \<noteq> [] \<and> hd s \<in> set '':.='' then None
      else bracketEnd s)"

definition skipChar :: "char \<Rightarrow> string \<Rightarrow> string" where
  "skipChar c s = (if s \<noteq> [] \<and> hd s = c then tl s else s)"

lemma bracketEnd_shorter: "bracketEnd s = Some r \<Longrightarrow> length r < length s"
  by (induction s) (auto split: if_splits)

lemma skipChar_length: "length (skipChar c s) \<le> length s"
  by (simp add: skipChar_def)

function pgBracketsAndBoundsAgree :: "string \<Rightarrow> bool" where
  "pgBracketsAndBoundsAgree [] = True"
| "pgBracketsAndBoundsAgree (c # s) =
     (if c = CHR ''^'' \<or> c = CHR ''$'' then
        if s \<noteq> [] \<and> hd s \<in> set ''*+?'' then False
        else if s \<noteq> [] \<and> hd s = CHR ''{'' \<and> length s > 1 \<and> isDecimalDigit (s ! 1) then False
        else pgBracketsAndBoundsAgree s
      else if c = CHR ''['' then
        (case bracketEnd (skipChar CHR '']'' (skipChar CHR ''^'' s)) of None \<Rightarrow> False | Some r \<Rightarrow> pgBracketsAndBoundsAgree r)
      else if c = CHR ''{'' then
        if s \<noteq> [] \<and> isDecimalDigit (hd s) then
          (case pgBoundLength s of None \<Rightarrow> False | Some n \<Rightarrow> pgBracketsAndBoundsAgree (drop n s))
        else pgBracketsAndBoundsAgree s
      else pgBracketsAndBoundsAgree s)"
  by pat_completeness auto
termination
proof (relation "measure length", goal_cases)
  case (3 c s r)
  then have "length r < length (skipChar CHR '']'' (skipChar CHR ''^'' s))" by (intro bracketEnd_shorter)
  also have "\<dots> \<le> length s" using skipChar_length order.trans by blast
  finally show ?case by simp
qed auto

declare pgBracketsAndBoundsAgree.simps(2) [simp del]

definition strings_Index :: "string \<Rightarrow> string \<Rightarrow> nat option" where
  "strings_Index s sub = find (\<lambda>i. prefix sub (drop i s)) [0..<Suc (length s)]"

definition TrimPrefix :: "string \<Rightarrow> string \<Rightarrow> string" where
  "TrimPrefix s p = (if prefix p s then drop (length p) s else s)"

text \<open>The loop over the openings of flag groups.\<close>

function flagGroupsAgree :: "string \<Rightarrow> bool" where
  "flagGroupsAgree rest =
     (case strings_Index rest ''(?'' of
        None \<Rightarrow> True
      | Some i \<Rightarrow> if i + 2 \<ge> length rest then False else if rest ! (i + 2) \<noteq> CHR '':'' then False else flagGroupsAgree (drop (i + 2) rest))"
  by pat_completeness auto
termination
  by (relation "measure length") auto

declare flagGroupsAgree.simps [simp del]

definition PgRegexCompatible :: "string \<Rightarrow> bool" where
  "PgRegexCompatible pattern =
     (if ContainsRune pattern 0x5C then False
      else let rest = TrimPrefix pattern ''(?i)'' in
        if length rest \<noteq> length pattern \<and> \<not> isASCII rest then False
        else if \<not> pgBracketsAndBoundsAgree rest then False
        else flagGroupsAgree rest)"

section \<open>The grammar of admitted patterns\<close>

text \<open>A bound after its brace: \<open>m}\<close>, \<open>m,}\<close> or \<open>m,n}\<close> with counts in canonical decimal, in order, and at most 255.\<close>

definition bound :: "string \<Rightarrow> bool" where
  "bound w \<longleftrightarrow> (\<exists>lo \<le> 255. w = FormatUint 10 lo @ ''}'' \<or> w = FormatUint 10 lo @ '',}'' \<or>
     (\<exists>hi \<le> 255. lo \<le> hi \<and> w = FormatUint 10 lo @ '','' @ FormatUint 10 hi @ ''}''))"

text \<open>A bracket expression after its opening: a caret negates, a first closing bracket is a member, no POSIX construct.\<close>

definition posix_free :: "string \<Rightarrow> bool" where
  "posix_free b \<longleftrightarrow> (\<forall>i < length b - 1. b ! i = CHR ''['' \<longrightarrow> b ! (i + 1) \<notin> set '':.='')"

definition bracket :: "string \<Rightarrow> bool" where
  "bracket w \<longleftrightarrow> (\<exists>neg lead b. w = neg @ lead @ b @ '']'' \<and> neg \<in> {[], ''^''} \<and> lead \<in> {[], '']''} \<and> CHR '']'' \<notin> set b \<and> posix_free b \<and>
     (lead = [] \<longrightarrow> b \<noteq> [] \<and> (neg = [] \<longrightarrow> hd b \<noteq> CHR ''^'')))"

definition digit_first :: "string \<Rightarrow> bool" where
  "digit_first s \<longleftrightarrow> s \<noteq> [] \<and> isDecimalDigit (hd s)"

definition quantified :: "string \<Rightarrow> bool" where
  "quantified s \<longleftrightarrow> s \<noteq> [] \<and> (hd s \<in> set ''*+?'' \<or> hd s = CHR ''{'' \<and> digit_first (tl s))"

inductive agrees :: "string \<Rightarrow> bool" where
  agrees_Nil: "agrees []"
| agrees_char: "c \<notin> set ''^$[{'' \<Longrightarrow> agrees s \<Longrightarrow> agrees (c # s)"
| agrees_anchor: "c \<in> set ''^$'' \<Longrightarrow> \<not> quantified s \<Longrightarrow> agrees s \<Longrightarrow> agrees (c # s)"
| agrees_bracket: "bracket w \<Longrightarrow> agrees s \<Longrightarrow> agrees (CHR ''['' # w @ s)"
| agrees_brace: "\<not> digit_first s \<Longrightarrow> agrees s \<Longrightarrow> agrees (CHR ''{'' # s)"
| agrees_bound: "bound w \<Longrightarrow> agrees s \<Longrightarrow> agrees (CHR ''{'' # w @ s)"

text \<open>The whole: no backslash, one flag group at the start, under which all is ASCII, and only non-capturing groups besides.\<close>

definition admitted_pattern :: "string \<Rightarrow> bool" where
  "admitted_pattern pattern \<longleftrightarrow> \<not> ContainsRune pattern 0x5C \<and>
     (\<exists>rest. (pattern = ''(?i)'' @ rest \<and> isASCII rest \<or> \<not> prefix ''(?i)'' pattern \<and> rest = pattern) \<and>
        agrees rest \<and> (\<forall>i. prefix ''(?'' (drop i rest) \<longrightarrow> prefix ''(?:'' (drop i rest)))"

section \<open>Counts\<close>

definition decimal :: "string \<Rightarrow> nat" where
  "decimal ds = foldl (\<lambda>a c. 10 * a + digit_val c) 0 ds"

lemma digit_val_digit: "isDecimalDigit c \<Longrightarrow> digit_val c = code c - 48 \<and> digit_val c < 10 \<and> digit_char (digit_val c) = c"
  by (auto simp: isDecimalDigit_def digit_val_def digit_char_def)

lemma canonical_decimal:
  "ds \<noteq> [] \<Longrightarrow> list_all isDecimalDigit ds \<Longrightarrow> \<not> (hd ds = CHR ''0'' \<and> length ds > 1) \<Longrightarrow> FormatUint 10 (decimal ds) = ds"
proof (induction ds rule: rev_induct)
  case (snoc d ds)
  have "isDecimalDigit d" using snoc.prems(2) by simp
  note d = digit_val_digit [OF this, THEN conjunct2, THEN conjunct1] digit_val_digit [OF this, THEN conjunct2, THEN conjunct2]
  show ?case
  proof (cases "ds = []")
    case True
    then show ?thesis using d by (subst FormatUint.simps) (simp add: decimal_def)
  next
    case False
    then have ih: "FormatUint 10 (decimal ds) = ds" using snoc by auto
    have "decimal ds \<noteq> 0"
    proof
      assume "decimal ds = 0"
      then have "ds = [digit_char 0]" using ih by (subst (asm) FormatUint.simps) simp
      moreover have "digit_char 0 = CHR ''0''" by code_simp
      ultimately show False using snoc.prems(3) by simp
    qed
    moreover have "decimal (ds @ [d]) = 10 * decimal ds + digit_val d" by (simp add: decimal_def)
    ultimately show ?thesis using d ih by (subst FormatUint.simps) simp
  qed
qed simp

lemma FormatUint_shape:
  "FormatUint 10 n \<noteq> [] \<and> list_all isDecimalDigit (FormatUint 10 n) \<and> \<not> (hd (FormatUint 10 n) = CHR ''0'' \<and> length (FormatUint 10 n) > 1) \<and> decimal (FormatUint 10 n) = n"
proof -
  have "list_all isDecimalDigit (FormatUint 10 n)" using decimal_codes by (fastforce simp: list_all_iff isDecimalDigit_def)
  moreover have "FormatUint 10 n \<noteq> [] \<and> (n > 0 \<longrightarrow> hd (FormatUint 10 n) \<noteq> CHR ''0'')"
  proof (induction n rule: less_induct)
    case (less n)
    show ?case
    proof (cases "n < 10")
      case True
      have "digit_char n = CHR ''0'' \<Longrightarrow> n = 0" using digit_char_code [of n] True by (cases "n = 0") auto
      then show ?thesis using True by (subst (1 2) FormatUint.simps) auto
    next
      case False
      then show ?thesis using less [of "n div 10"] by (subst (1 2) FormatUint.simps) auto
    qed
  qed
  moreover have "FormatUint 10 0 = [digit_char 0]" by (subst FormatUint.simps) simp
  moreover have "decimal (FormatUint 10 n) = n" using FormatUint_value [of 10 n] by (simp add: decimal_def)
  ultimately show ?thesis by (cases "n = 0") auto
qed

lemma decimal_grows: "a \<le> foldl (\<lambda>a c. 10 * a + digit_val c) a ds"
proof (induction ds arbitrary: a)
  case (Cons d ds)
  have "a \<le> 10 * a + digit_val d" by simp
  also have "\<dots> \<le> foldl (\<lambda>a c. 10 * a + digit_val c) a (d # ds)" using Cons by simp
  finally show ?case .
qed simp

lemma count_digits_eq:
  "a \<le> 255 \<Longrightarrow> count_digits s a i =
    (let ds = takeWhile isDecimalDigit s; b = foldl (\<lambda>a c. 10 * a + digit_val c) a ds in if b \<le> 255 then Some (b, i + length ds) else None)"
proof (induction s arbitrary: a i)
  case (Cons c s)
  show ?case
  proof (cases "isDecimalDigit c")
    case True
    then have v: "a * 10 + (code c - code CHR ''0'') = 10 * a + digit_val c" using digit_val_digit [of c] by simp
    show ?thesis
    proof (cases "10 * a + digit_val c > 255")
      case over: True
      then have "foldl (\<lambda>a c. 10 * a + digit_val c) (10 * a + digit_val c) (takeWhile isDecimalDigit s) > 255"
        using decimal_grows less_le_trans by blast
      then show ?thesis using True over v by (simp add: Let_def pgMaxRepeat_def)
    next
      case False
      then show ?thesis using True v Cons.IH [of "10 * a + digit_val c" "i + 1"] by (simp add: Let_def pgMaxRepeat_def mult.commute)
    qed
  qed (use Cons.prems in simp)
qed simp

lemma pgBoundCount_iff:
  "pgBoundCount s i = Some (n, k) \<longleftrightarrow> n \<le> 255 \<and> takeWhile isDecimalDigit (drop i s) = FormatUint 10 n \<and> k = i + length (FormatUint 10 n)"
proof -
  define ds where "ds = takeWhile isDecimalDigit (drop i s)"
  have hd: "s ! i = hd ds" if "ds \<noteq> []"
    using that unfolding ds_def by (cases "drop i s") (auto simp: split: if_splits dest: nth_via_drop)
  have all: "list_all isDecimalDigit ds" unfolding ds_def by (auto simp: list_all_iff dest: set_takeWhileD)
  have "pgBoundCount s i = Some (n, k) \<longleftrightarrow> ds \<noteq> [] \<and> \<not> (hd ds = CHR ''0'' \<and> length ds > 1) \<and> decimal ds \<le> 255 \<and> n = decimal ds \<and> k = i + length ds"
    using hd count_digits_eq [of 0 "drop i s" i] by (auto simp: pgBoundCount_def ds_def [symmetric] decimal_def [symmetric] Let_def split: if_splits)
  also have "\<dots> \<longleftrightarrow> n \<le> 255 \<and> ds = FormatUint 10 n \<and> k = i + length (FormatUint 10 n)"
    using canonical_decimal [OF _ all] FormatUint_shape [of n] by auto
  finally show ?thesis unfolding ds_def .
qed

lemma pgBoundCount_at:
  assumes "s = pre @ FormatUint 10 n @ x # r" and "\<not> isDecimalDigit x" and "n \<le> 255"
  shows "pgBoundCount s (length pre) = Some (n, length pre + length (FormatUint 10 n))"
proof -
  have "takeWhile isDecimalDigit (FormatUint 10 n @ x # r) = FormatUint 10 n"
    using FormatUint_shape [of n] assms(2) by (subst takeWhile_append2) (auto simp: list_all_iff)
  then show ?thesis using assms by (simp add: pgBoundCount_iff)
qed

lemma pgBoundCount_split: "pgBoundCount s i = Some (n, k) \<Longrightarrow> n \<le> 255 \<and> drop i s = FormatUint 10 n @ drop k s \<and> k = i + length (FormatUint 10 n)"
proof -
  assume "pgBoundCount s i = Some (n, k)"
  then have c: "n \<le> 255" "takeWhile isDecimalDigit (drop i s) = FormatUint 10 n" "k = i + length (FormatUint 10 n)"
    by (auto simp: pgBoundCount_iff)
  have "drop i s = FormatUint 10 n @ dropWhile isDecimalDigit (drop i s)" using c(2) by (metis takeWhile_dropWhile_id)
  moreover have "dropWhile isDecimalDigit (drop i s) = drop k s" using c by (simp add: dropWhile_eq_drop add.commute)
  ultimately show ?thesis using c by simp
qed

lemma not_digits: "\<not> isDecimalDigit CHR ''}''" "\<not> isDecimalDigit CHR '',''"
  by (simp_all add: isDecimalDigit_def)

lemma bound_read: "bound w \<Longrightarrow> pgBoundLength (w @ r) = Some (length w)"
proof -
  assume "bound w"
  then obtain lo where lo: "lo \<le> 255" and w: "w = FormatUint 10 lo @ ''}'' \<or> w = FormatUint 10 lo @ '',}'' \<or>
     (\<exists>hi \<le> 255. lo \<le> hi \<and> w = FormatUint 10 lo @ '','' @ FormatUint 10 hi @ ''}'')" unfolding bound_def by blast
  from w show ?thesis
  proof (elim disjE exE conjE)
    assume "w = FormatUint 10 lo @ ''}''"
    then show ?thesis using pgBoundCount_at [of "w @ r" "[]" lo "CHR ''}''" r] lo not_digits by (simp add: pgBoundLength_def nth_append)
  next
    assume "w = FormatUint 10 lo @ '',}''"
    then show ?thesis using pgBoundCount_at [of "w @ r" "[]" lo "CHR '',''" "CHR ''}'' # r"] lo not_digits
      by (simp add: pgBoundLength_def nth_append)
  next
    fix hi assume hi: "hi \<le> 255" "lo \<le> hi" and w: "w = FormatUint 10 lo @ '','' @ FormatUint 10 hi @ ''}''"
    have 1: "pgBoundCount (w @ r) 0 = Some (lo, length (FormatUint 10 lo))"
      using pgBoundCount_at [of "w @ r" "[]" lo "CHR '',''" "FormatUint 10 hi @ CHR ''}'' # r"] lo w not_digits by simp
    have 2: "pgBoundCount (w @ r) (length (FormatUint 10 lo) + 1) = Some (hi, length (FormatUint 10 lo) + 1 + length (FormatUint 10 hi))"
      using pgBoundCount_at [of "w @ r" "FormatUint 10 lo @ '',''" hi "CHR ''}''" r] hi w not_digits by simp
    have at: "(w @ r) ! length (FormatUint 10 lo) = CHR '',''" "(w @ r) ! (length (FormatUint 10 lo) + 1 + length (FormatUint 10 hi)) = CHR ''}''"
      "(w @ r) ! (length (FormatUint 10 lo) + 1) \<noteq> CHR ''}''"
      using FormatUint_shape [of hi] not_digits w by (auto simp: nth_append neq_Nil_conv)
    show ?thesis using 1 2 at hi w by (simp add: pgBoundLength_def)
  qed
qed

lemma bound_of_length:
  assumes "pgBoundLength s = Some n"
  shows "n \<le> length s \<and> bound (take n s)"
proof -
  obtain lo i where c: "pgBoundCount s 0 = Some (lo, i)" using assms by (auto simp: pgBoundLength_def split: option.splits)
  note lo = pgBoundCount_split [OF c, simplified]
  have at: "s = FormatUint 10 lo @ s ! i # drop (Suc i) s" if "i < length s" using lo that by (metis Cons_nth_drop_Suc)
  consider "i < length s" "s ! i = CHR ''}''" "n = i + 1"
    | "i < length s" "s ! i = CHR '',''" "i + 1 < length s" "s ! (i + 1) = CHR ''}''" "n = i + 2"
    | hi k where "i < length s" "s ! i = CHR '',''" "pgBoundCount s (i + 1) = Some (hi, k)" "lo \<le> hi" "k < length s" "s ! k = CHR ''}''" "n = k + 1"
    using assms c by (auto simp: pgBoundLength_def split: option.splits if_splits)
  then show ?thesis
  proof cases
    case 1
    have "take n s = FormatUint 10 lo @ ''}''" using 1 lo by (subst at) auto
    then show ?thesis using 1 lo unfolding bound_def by auto
  next
    case 2
    have "drop (Suc i) s = CHR ''}'' # drop (Suc (Suc i)) s" using 2 by (metis Cons_nth_drop_Suc Suc_eq_plus1)
    then have "take n s = FormatUint 10 lo @ '',}''" using 2 lo by (subst at) auto
    then show ?thesis using 2 lo unfolding bound_def by auto
  next
    case 3
    note hi = pgBoundCount_split [OF 3(3)]
    have "drop (Suc i) s = FormatUint 10 hi @ CHR ''}'' # drop (Suc k) s" using 3 hi by (metis Cons_nth_drop_Suc Suc_eq_plus1)
    then have "s = (FormatUint 10 lo @ '','' @ FormatUint 10 hi @ ''}'') @ drop (Suc k) s" using at 3(1,2) by simp
    moreover have "length (FormatUint 10 lo @ '','' @ FormatUint 10 hi @ ''}'') = n" using 3(7) lo hi by simp
    ultimately have "take n s = FormatUint 10 lo @ '','' @ FormatUint 10 hi @ ''}''" by (metis append_eq_conv_conj)
    then have "bound (take n s)" unfolding bound_def using 3(4) lo hi by blast
    then show ?thesis using 3(5,7) by simp
  qed
qed

section \<open>Brackets\<close>

lemma posix_free_Cons: "posix_free (c # b) \<longleftrightarrow> \<not> (c = CHR ''['' \<and> b \<noteq> [] \<and> hd b \<in> set '':.='') \<and> posix_free b"
proof -
  have "posix_free (c # b) \<longleftrightarrow> (\<forall>i < length b. (c # b) ! i = CHR ''['' \<longrightarrow> b ! i \<notin> set '':.='')" by (simp add: posix_free_def)
  also have "\<dots> \<longleftrightarrow> (b \<noteq> [] \<longrightarrow> c = CHR ''['' \<longrightarrow> b ! 0 \<notin> set '':.='') \<and> posix_free b"
    by (cases b) (auto simp: posix_free_def All_less_Suc2)
  finally show ?thesis by (auto simp: hd_conv_nth)
qed

lemma bracketEnd_iff: "bracketEnd s = Some r \<longleftrightarrow> (\<exists>b. s = b @ CHR '']'' # r \<and> CHR '']'' \<notin> set b \<and> posix_free b)"
proof (induction s)
  case (Cons c s)
  show ?case
  proof (cases "c = CHR '']''")
    case True
    then show ?thesis by (auto simp: Cons_eq_append_conv posix_free_def)
  next
    case False
    have follows: "posix_free (c # b) \<longleftrightarrow> \<not> (c = CHR ''['' \<and> s \<noteq> [] \<and> hd s \<in> set '':.='') \<and> posix_free b" if "s = b @ CHR '']'' # r" for b
      unfolding posix_free_Cons using that by (cases b) auto
    have "(\<exists>b. c # s = b @ CHR '']'' # r \<and> CHR '']'' \<notin> set b \<and> posix_free b) \<longleftrightarrow>
        (\<exists>b. s = b @ CHR '']'' # r \<and> CHR '']'' \<notin> set b \<and> posix_free (c # b))" (is "?L \<longleftrightarrow> ?R")
    proof
      assume ?L
      then obtain b where b: "c # s = b @ CHR '']'' # r" "CHR '']'' \<notin> set b" "posix_free b" by blast
      then show ?R using False by (cases b) auto
    next
      assume ?R
      then obtain b where "s = b @ CHR '']'' # r" "CHR '']'' \<notin> set b" "posix_free (c # b)" by blast
      then show ?L using False by (intro exI [of _ "c # b"]) simp
    qed
    also have "\<dots> \<longleftrightarrow> \<not> (c = CHR ''['' \<and> s \<noteq> [] \<and> hd s \<in> set '':.='') \<and> bracketEnd s = Some r" using follows Cons.IH by blast
    finally show ?thesis using False by auto
  qed
qed simp

lemma skipChar_split:
  obtains pre where "s = pre @ skipChar c s" "pre \<in> {[], [c]}" "pre = [] \<longrightarrow> s = [] \<or> hd s \<noteq> c"
proof (cases "s \<noteq> [] \<and> hd s = c")
  case True
  then show ?thesis using that [of "[c]"] by (cases s) (simp_all add: skipChar_def)
next
  case False
  then show ?thesis using that [of "[]"] by (auto simp: skipChar_def)
qed

lemma bracket_iff: "bracketEnd (skipChar CHR '']'' (skipChar CHR ''^'' s)) = Some r \<longleftrightarrow> (\<exists>w. s = w @ r \<and> bracket w)"
proof
  assume e: "bracketEnd (skipChar CHR '']'' (skipChar CHR ''^'' s)) = Some r"
  let ?t = "skipChar CHR ''^'' s"
  obtain neg where neg: "s = neg @ ?t" "neg \<in> {[], ''^''}" "neg = [] \<longrightarrow> s = [] \<or> hd s \<noteq> CHR ''^''" by (rule skipChar_split)
  obtain lead where lead: "?t = lead @ skipChar CHR '']'' ?t" "lead \<in> {[], '']''}" "lead = [] \<longrightarrow> ?t = [] \<or> hd ?t \<noteq> CHR '']''"
    by (rule skipChar_split)
  obtain b where b: "skipChar CHR '']'' ?t = b @ CHR '']'' # r" "CHR '']'' \<notin> set b" "posix_free b" using e by (auto simp: bracketEnd_iff)
  have s: "s = (neg @ lead @ b @ '']'') @ r" using neg(1) lead(1) b(1) by simp
  have "lead = [] \<longrightarrow> b \<noteq> []" using lead b(1) by (cases b) auto
  moreover have "lead = [] \<longrightarrow> neg = [] \<longrightarrow> hd b \<noteq> CHR ''^''" using neg(3) s b(1) lead calculation by (cases b) auto
  ultimately have "bracket (neg @ lead @ b @ '']'')" unfolding bracket_def using neg(2) lead(2) b(2,3) by blast
  then show "\<exists>w. s = w @ r \<and> bracket w" using s by blast
next
  assume "\<exists>w. s = w @ r \<and> bracket w"
  then obtain w where w: "s = w @ r" "bracket w" by blast
  obtain neg lead b where "w = neg @ lead @ b @ '']''" and o: "neg \<in> {[], ''^''}" "lead \<in> {[], '']''}" "CHR '']'' \<notin> set b" "posix_free b"
    "lead = [] \<longrightarrow> b \<noteq> [] \<and> (neg = [] \<longrightarrow> hd b \<noteq> CHR ''^'')" using w(2) unfolding bracket_def by blast
  then have s: "s = neg @ lead @ b @ CHR '']'' # r" using w(1) by simp
  have t: "skipChar CHR ''^'' s = lead @ b @ CHR '']'' # r" using s o by (cases b) (auto simp: skipChar_def)
  have "skipChar CHR '']'' (lead @ b @ CHR '']'' # r) = b @ CHR '']'' # r" using o by (cases b) (auto simp: skipChar_def)
  then show "bracketEnd (skipChar CHR '']'' (skipChar CHR ''^'' s)) = Some r" using t o(3,4) by (auto simp: bracketEnd_iff)
qed

section \<open>The screen decides the grammar\<close>

lemma bound_digit: "bound w \<Longrightarrow> digit_first (w @ s)"
proof -
  have "digit_first (FormatUint 10 n @ t)" for n t using FormatUint_shape [of n] by (simp add: digit_first_def list_all_iff)
  then show "bound w \<Longrightarrow> digit_first (w @ s)" by (auto simp: bound_def)
qed

lemma quantified_eq:
  "quantified s \<longleftrightarrow> s \<noteq> [] \<and> hd s \<in> set ''*+?'' \<or> s \<noteq> [] \<and> hd s = CHR ''{'' \<and> length s > 1 \<and> isDecimalDigit (s ! 1)"
  by (cases s; cases "tl s") (auto simp: quantified_def digit_first_def)

lemma agree_sound: "pgBracketsAndBoundsAgree s \<Longrightarrow> agrees s"
proof (induction s rule: length_induct)
  case (1 s)
  show ?case
  proof (cases s)
    case (Cons c t)
    note ih = 1(1) [rule_format]
    have p: "pgBracketsAndBoundsAgree (c # t)" using 1(2) Cons by simp
    consider "c = CHR ''^'' \<or> c = CHR ''$''" | "c = CHR ''[''" | "c = CHR ''{''" | "c \<notin> set ''^$[{''" by auto
    then show ?thesis
    proof cases
      case 1
      then have "\<not> quantified t" "pgBracketsAndBoundsAgree t"
        using p unfolding pgBracketsAndBoundsAgree.simps quantified_eq by (auto split: if_splits)
      then show ?thesis using ih [of t] Cons 1 agrees_anchor [of c t] by auto
    next
      case 2
      then obtain r where r: "bracketEnd (skipChar CHR '']'' (skipChar CHR ''^'' t)) = Some r" "pgBracketsAndBoundsAgree r"
        using p unfolding pgBracketsAndBoundsAgree.simps by (auto split: option.splits)
      then obtain w where w: "t = w @ r" "bracket w" using bracket_iff by blast
      then show ?thesis using ih [OF _ r(2)] Cons 2 agrees_bracket [OF w(2)] by simp
    next
      case 3
      show ?thesis
      proof (cases "digit_first t")
        case True
        then obtain n where n: "pgBoundLength t = Some n" "pgBracketsAndBoundsAgree (drop n t)"
          using p 3 unfolding pgBracketsAndBoundsAgree.simps digit_first_def by (auto split: option.splits)
        then show ?thesis using ih [OF _ n(2)] Cons 3 agrees_bound [of "take n t" "drop n t"] bound_of_length [OF n(1)] by simp
      next
        case False
        then have "pgBracketsAndBoundsAgree t" using p 3 unfolding pgBracketsAndBoundsAgree.simps digit_first_def by (auto split: if_splits)
        then show ?thesis using ih [of t] Cons 3 False agrees_brace by simp
      qed
    next
      case 4
      then have "pgBracketsAndBoundsAgree t" using p unfolding pgBracketsAndBoundsAgree.simps by (auto split: if_splits)
      then show ?thesis using ih [of t] Cons 4 agrees_char by simp
    qed
  qed (simp add: agrees_Nil)
qed

lemma agree_complete: "agrees s \<Longrightarrow> pgBracketsAndBoundsAgree s"
proof (induction rule: agrees.induct)
  case (agrees_anchor c s)
  then show ?case unfolding pgBracketsAndBoundsAgree.simps quantified_eq by auto
next
  case (agrees_bracket w s)
  have "bracketEnd (skipChar CHR '']'' (skipChar CHR ''^'' (w @ s))) = Some s" using agrees_bracket(1) bracket_iff by blast
  then show ?case using agrees_bracket by (simp add: pgBracketsAndBoundsAgree.simps(2))
next
  case (agrees_bound w s)
  then show ?case using bound_read [of w s] bound_digit [of w s]
    by (simp add: pgBracketsAndBoundsAgree.simps(2) digit_first_def)
qed (auto simp: pgBracketsAndBoundsAgree.simps(2) digit_first_def)

lemma Index_first: "strings_Index s sub = Some i \<longleftrightarrow> i \<le> length s \<and> prefix sub (drop i s) \<and> (\<forall>j < i. \<not> prefix sub (drop j s))"
  by (auto simp: strings_Index_def find_Some_iff less_Suc_eq_le simp del: upt_Suc)

lemma Index_none: "strings_Index s sub = None \<Longrightarrow> sub \<noteq> [] \<Longrightarrow> \<not> prefix sub (drop i s)"
  by (cases "i \<le> length s") (auto simp: strings_Index_def find_None_iff simp del: upt_Suc)

lemma flagGroups_iff: "flagGroupsAgree s \<longleftrightarrow> (\<forall>i. prefix ''(?'' (drop i s) \<longrightarrow> prefix ''(?:'' (drop i s))"
proof (induction s rule: flagGroupsAgree.induct)
  case (1 s)
  show ?case
  proof (cases "strings_Index s ''(?''")
    case None
    then show ?thesis using Index_none [OF None] by (subst flagGroupsAgree.simps) simp
  next
    case (Some i)
    then have at: "prefix ''(?'' (drop i s)" and first: "\<forall>j < i. \<not> prefix ''(?'' (drop j s)" by (auto simp: Index_first)
    have len: "i + 2 \<le> length s" using prefix_length_le [OF at] by auto
    have two: "drop i s = CHR ''('' # CHR ''?'' # drop (i + 2) s"
      using at by (auto simp: prefix_def) (metis append_Cons drop_drop drop_Suc_Cons drop0 One_nat_def add_2_eq_Suc' numeral_2_eq_2 add.commute)
    have colon: "prefix ''(?:'' (drop i s) \<longleftrightarrow> i + 2 < length s \<and> s ! (i + 2) = CHR '':''"
      unfolding two by (cases "i + 2 < length s") (auto simp: Cons_nth_drop_Suc [symmetric])
    have inner: "\<not> prefix ''(?'' (drop (i + 1) s)"
    proof -
      have "drop (i + 1) s = CHR ''?'' # drop (i + 2) s" using two by (metis drop_Suc_Cons drop_drop drop0 One_nat_def add.commute)
      then show ?thesis by simp
    qed
    have "(\<forall>k. prefix ''(?'' (drop k s) \<longrightarrow> prefix ''(?:'' (drop k s)) \<longleftrightarrow> prefix ''(?:'' (drop i s) \<and>
        (\<forall>k. prefix ''(?'' (drop k (drop (i + 2) s)) \<longrightarrow> prefix ''(?:'' (drop k (drop (i + 2) s)))" (is "?L \<longleftrightarrow> ?R")
    proof
      assume r: ?R
      show ?L
      proof (intro allI impI)
        fix k assume k: "prefix ''(?'' (drop k s)"
        then consider "k = i" | "k \<ge> i + 2" using first inner by (metis Suc_eq_plus1 add_2_eq_Suc' le_antisym not_less not_less_eq_eq)
        then show "prefix ''(?:'' (drop k s)"
        proof cases
          case 2
          then obtain m where "k = m + (i + 2)" by (metis le_add_diff_inverse2)
          then show ?thesis using r [THEN conjunct2, rule_format, of m] k by (simp only: drop_drop)
        qed (use r in simp)
      qed
    qed (use at in simp)
    then show ?thesis using Some colon 1 [OF Some] by (subst flagGroupsAgree.simps) auto
  qed
qed

text \<open>
  C26. The scanners of the screen admit exactly the patterns of its documented grammar: without a backslash; with
  at most one flag group, the leading one that folds case, and then in ASCII; with anchors that nothing
  repeats, bracket expressions that end and hold no POSIX construct, bounds in canonical form whose counts are in
  order and at most 255; and with no group opened by \<open>(?\<close> but the non-capturing one.
\<close>

theorem regex_screen_exact: "PgRegexCompatible pattern \<longleftrightarrow> admitted_pattern pattern"
proof -
  define rest where "rest = TrimPrefix pattern ''(?i)''"
  have "pgBracketsAndBoundsAgree rest \<longleftrightarrow> agrees rest" using agree_sound agree_complete by blast
  then have "PgRegexCompatible pattern \<longleftrightarrow> \<not> ContainsRune pattern 0x5C \<and> (length rest = length pattern \<or> isASCII rest) \<and> agrees rest \<and>
      (\<forall>i. prefix ''(?'' (drop i rest) \<longrightarrow> prefix ''(?:'' (drop i rest))"
    unfolding PgRegexCompatible_def Let_def rest_def [symmetric] flagGroups_iff by simp
  also have "\<dots> \<longleftrightarrow> admitted_pattern pattern"
  proof (cases "prefix ''(?i)'' pattern")
    case True
    then have "pattern = ''(?i)'' @ rest" by (auto simp: rest_def TrimPrefix_def prefix_def)
    then show ?thesis using True by (auto simp: admitted_pattern_def)
  next
    case False
    then have "rest = pattern" by (simp add: rest_def TrimPrefix_def)
    then show ?thesis using False by (auto simp: admitted_pattern_def)
  qed
  finally show ?thesis .
qed

text \<open>
  What the rules leave out: PostgreSQL documents two ranges that share an endpoint as illegal, and Go takes
  them; the screen lets such a bracket expression pass.
\<close>

lemma shared_endpoint_admitted: "PgRegexCompatible ''[a-c-e]''"
  by code_simp

end
