(* ===== verification/Spec2Isabelle.thy ===== *)
theory Spec2Isabelle
  imports Convergence Changes BootGap Replica Queries FileRoundtrip Compact SaveProtocol Boot RegexScreen
begin

text \<open>
  A verification library for BloodTrail, a graph engine under BloodHound that keeps an in-memory replica of
  a PostgreSQL graph, updates it write by write, and answers reads from it when it can answer exactly as the
  database would. The library models the engine's own core, \<open>internal/engine\<close> with its packages \<open>snapshot\<close>,
  \<open>traverse\<close> and part of \<open>interpret\<close>, definition by definition from the Go source, and proves what the rest of the program relies on.

  \<^bold>\<open>The program.\<close> A write runs in a PostgreSQL transaction that also bumps a counter (the watermark); what it
  changed is recorded in a \<open>ChangeSet\<close>. After the commit \<open>Apply\<close> reads the touched rows back, builds a delta
  \<open>Segment\<close> and publishes a \<open>View\<close>: an immutable base \<open>Snapshot\<close> under a stack of segments. A write that cannot be
  applied puts the engine into fallback, where reads go to PostgreSQL until a rebuild loads a fresh base. Long
  stacks are merged, and a background compaction folds base and segments into a new base. A converged
  replica is saved to a snapshot file, from which the next start boots, replaying the writes buffered
  meanwhile. Reads run against one \<open>View\<close>: node, property and edge reads, candidate indexes, and shortest-path queries.

  \<^bold>\<open>Conventions.\<close> \<open>BT_Prelude\<close> names the integer types: a Go conversion is written out (\<open>u16\<close>, \<open>u32\<close>, \<open>u64\<close>, \<open>i8\<close>),
  bit vectors are lists of 64-bit words, float64 values are their 64-bit patterns. A result of type \<open>'a option\<close>
  is \<open>None\<close> for a panic; \<open>ok m Q\<close> says that \<open>m\<close> returns and the result satisfies \<open>Q\<close>, so a theorem about \<open>ok\<close> is total
  correctness. An error value is the left of a sum, a Go map an association list or a map. A value the
  source memoizes behind a \<open>sync.Once\<close> is a function of immutable data; a memo under a key is state (\<open>EdgeKinds\<close>).
  Concurrency is a step relation whose steps are the critical sections of the source; a theorem about it
  holds for every interleaving. What lies outside the sources (PostgreSQL, the file system, contexts that
  end, other goroutines during a wait) is an argument, with what is relied on as a named hypothesis.

  \<^bold>\<open>Writes and trust.\<close> \<open>Changes\<close> (\<open>changes.go\<close>, \<open>changes_scope.go\<close>) is the change log: its accessors return exactly
  what was recorded. \<open>Watermark\<close> and \<open>Convergence\<close> (\<open>watermark.go\<close>) are the ledger of resolved counters, whose
  prefix is exact, and the convergence reading, sound under every interleaving. \<open>Replica\<close> (\<open>apply.go\<close>,
  \<open>engine.go\<close>, \<open>watermark.go\<close>) is the write-through engine as a state machine: while it serves, its view holds
  every applied write, a query reads a view with every write applied before it began, and equal trust
  generations mean that every failed bump was settled.

  \<^bold>\<open>The graph.\<close> \<open>Bitset\<close>, \<open>Kinds\<close>, \<open>Props\<close>, \<open>Csr\<close>, \<open>Snapshot\<close>, \<open>Building\<close> and \<open>Graph\<close> are the base (\<open>bitset.go\<close>, \<open>kinds.go\<close>,
  \<open>props.go\<close>, \<open>builder.go\<close>, \<open>snapshot.go\<close>): building packs exactly the staged graph. \<open>Segment\<close> (\<open>segment.go\<close>) is the
  delta. \<open>View\<close>, \<open>ViewNodes\<close>, \<open>ViewReads\<close>, \<open>ViewEdges\<close>, \<open>ViewSlices\<close> and \<open>Overlay\<close> (\<open>view.go\<close>) relate a view to the abstract
  graph \<open>view_nodes\<close> and \<open>view_edges\<close>: layering a segment applies the commit, and every read is exact. \<open>Fold\<close>
  (\<open>fold.go\<close>) refines a stack to one base with the edges that still wait for an endpoint.

  \<^bold>\<open>Indexes.\<close> \<open>Strconv\<close> and \<open>Json\<close> model what is used of \<open>strconv\<close> and \<open>encoding/json\<close>. \<open>ParseProps\<close> (\<open>props.go\<close>) parses a property
  bag. \<open>EdgeKinds\<close> (\<open>edgekindindex.go\<close>) is the edge-kind endpoint index: never short, ascending, and never answered from
  another question's memo. \<open>Json\<close> also holds the keys of \<open>valueindex.go\<close> and shows that its scanner of flat arrays agrees with
  the decoder. \<open>DeltaProps\<close> (\<open>deltapropindex.go\<close>) gathers what the segments touch; \<open>StringIndex\<close> (\<open>propindex.go\<close>) and \<open>ValueIndex\<close>
  (\<open>valueindex.go\<close>) combine it with the base, so that a lookup misses no visible node. \<open>ValueShapes\<close> (\<open>valueshape.go\<close>,
  \<open>valueindex.go\<close>) holds the shape checks, the matching of distinct values and the memoized counts.

  \<^bold>\<open>Interpreter values.\<close> \<open>Values\<close> (\<open>interpret/value.go\<close>, with number parsing of \<open>eval.go\<close>) is three-valued logic, equality, IN and the
  order of values, a total preorder. \<open>Like\<close> (\<open>value.go\<close>, \<open>plan.go\<close>) matches LIKE patterns and shows that narrowing one to a literal run
  loses nothing. \<open>Regex\<close> (\<open>regexfast.go\<close>) shows that the substring plan of a pattern answers as the compiled pattern does, given
  what the tree of \<open>regexp/syntax\<close> matches; \<open>RegexScreen\<close> shows that the scanners of the screen admit exactly
  a grammar of its documented rules; how PostgreSQL or Go reads a pattern is not modelled.

  \<^bold>\<open>Upkeep.\<close> \<open>Compact\<close> (\<open>compact.go\<close>) shows that compaction is invisible under every interleaving and that the gate
  stands for exactly one fold, also while an earlier goroutine is still saving. \<open>Codec\<close>, \<open>SnapFile\<close>, \<open>SnapCodec\<close> and \<open>FileRoundtrip\<close> (\<open>file.go\<close>, \<open>validate.go\<close>) are the file format: a written
  file reads back, a torn one is refused, any accepted one is safe to read (but for entries whose end wraps
  in an arena of 4 GiB), and replacement is atomic. \<open>Persist\<close> (\<open>persist.go\<close>) are the steps of a save and what one
  save writes; \<open>SaveProtocol\<close> runs saves beside \<open>Replica\<close> and \<open>Convergence\<close> and shows that a file never counts a write it does not
  hold. \<open>BootGap\<close> (\<open>bootgap.go\<close>) and \<open>Boot\<close> (\<open>boot.go\<close>) show that an engine booted from its file serves every write the file held
  and every write counted since, up to the counter it read.

  \<^bold>\<open>Queries.\<close> \<open>Scratch\<close> and \<open>Sink\<close> are the pooled buffers and the path arena (\<open>traverse.go\<close>, \<open>pathsink.go\<close>), \<open>Bfs\<close>,
  \<open>Enumerate\<close> and \<open>Pairs\<close> the searches (\<open>bfs.go\<close>), \<open>Paths\<close>, \<open>Shortest\<close> and \<open>Queries\<close> the queries (\<open>traverse.go\<close>): the answer is
  exactly the set of shortest paths that the mode and limit select, or a documented error, and a query
  within its budgets is always answered.

  \<^bold>\<open>Interfaces.\<close> The locales \<open>id_set\<close>, \<open>distance_buffer\<close>, \<open>path_store\<close>, \<open>counter_accounting\<close>, \<open>search_graph\<close> and \<open>candidate_source\<close> state
  what a client uses of bit vectors, distance buffers, path sinks, the ledger, a view's adjacency and the
  postings of a base index; each is interpreted on the model's own operations where they are defined, the last one
  for the string index and again for the exact-match index.

  \<^bold>\<open>Loops and fuel.\<close> Loops are total functions, except \<open>dfs_loop\<close> of the enumerations and \<open>chunk_paths\<close> of the path arena,
  which are partial functions proved to return. The level loop of the search counts down the levels
  still allowed, which the depth bound of the query gives; the binary search of \<open>sort.Search\<close> halves its interval;
  scans of a text consume it; the JSON parser counts down the nesting depth, whose limit of 10000 is the
  library's own. The retries of the boot decision run along a list of pauses, the argument that stands for the deadline.

  \<^bold>\<open>Not modelled.\<close> The Cypher planner, evaluator and executor (\<open>plan.go\<close>, \<open>eval.go\<close>, \<open>exec.go\<close>, \<open>pipeline.go\<close> and \<open>expand.go\<close> of
  \<open>interpret\<close>, but for the helpers above), \<open>recognize\<close>, \<open>serve_cypher.go\<close> and \<open>serve_builder.go\<close> work on the syntax trees of the DAWGS
  library, which is not part of the sources. Of \<open>valueshape.go\<close> the marks of number spellings are left out. \<open>readback.go\<close>, \<open>load.go\<close>, \<open>hydrate.go\<close> and
  \<open>write_observer.go\<close> are conversations with PostgreSQL in SQL text through \<open>pgx\<close>; what \<open>Apply\<close> and boot need of
  them is stated as hypotheses. The driver (\<open>driver.go\<close>, \<open>transaction.go\<close>, \<open>node_query.go\<close>, \<open>relationship_query.go\<close>) wraps DAWGS
  interfaces. Memory estimates (\<open>ApproxBytes\<close>) and log lines only observe. The installer, the compose, docker
  and verification tools, the benchmarks and the test support do not take part in serving.
\<close>

end
